(* ===== verification/Nogo_Prelude.thy ===== *)
theory Nogo_Prelude
  imports Main "HOL-Library.Word"
begin

text \<open>
  Shared vocabulary of the development: the machine integers of Go as values of type \<open>int\<close> with the
  wrap-around written out (\<open>i32\<close>, \<open>i64\<close>, \<open>u32\<close>, \<open>u64\<close>) or as words where the code works on bits,
  truncating division, in-place reversal of a slice, sequencing of fallible calls, and the generic
  lemmas on words, lists and sums that the component theories use.
\<close>

unbundle bit_operations_syntax

named_theorems go_int \<open>wrap-around of Go integers that are known to be in range\<close>
named_theorems word_to_num \<open>bit operations on words as arithmetic on numbers\<close>

type_synonym byte = "8 word"
type_synonym uint32 = "32 word"
type_synonym uint64 = "64 word"
type_synonym hash = "byte list"

section \<open>Go integers\<close>

text \<open>The value of an integer expression after conversion to a fixed-width type.\<close>

definition i32 :: "int \<Rightarrow> int" where
  "i32 x = (x + 2147483648) mod 4294967296 - 2147483648"

definition i64 :: "int \<Rightarrow> int" where
  "i64 x = (x + 9223372036854775808) mod 18446744073709551616 - 9223372036854775808"

definition u32 :: "int \<Rightarrow> int" where
  "u32 x = x mod 4294967296"

definition u64 :: "int \<Rightarrow> int" where
  "u64 x = x mod 18446744073709551616"

definition is_i32 :: "int \<Rightarrow> bool" where
  "is_i32 x \<longleftrightarrow> - 2147483648 \<le> x \<and> x \<le> 2147483647"

definition is_i64 :: "int \<Rightarrow> bool" where
  "is_i64 x \<longleftrightarrow> - 9223372036854775808 \<le> x \<and> x \<le> 9223372036854775807"

lemma i32_id [go_int]: "- 2147483648 \<le> x \<Longrightarrow> x \<le> 2147483647 \<Longrightarrow> i32 x = x"
  by (simp add: i32_def)

lemma i64_id [go_int]:
  "- 9223372036854775808 \<le> x \<Longrightarrow> x \<le> 9223372036854775807 \<Longrightarrow> i64 x = x"
  by (simp add: i64_def)

lemma i64_wrap: "9223372036854775808 \<le> x \<Longrightarrow> x < 27670116110564327424 \<Longrightarrow> i64 x = x - 18446744073709551616"
proof -
  assume a: "9223372036854775808 \<le> x" "x < 27670116110564327424"
  then have "(x + 9223372036854775808) mod 18446744073709551616 = (x + 9223372036854775808 - 18446744073709551616) mod 18446744073709551616"
    by (intro mod_pos_geq) simp_all
  then show ?thesis using a by (simp add: i64_def)
qed

lemma u32_id [go_int]: "0 \<le> x \<Longrightarrow> x \<le> 4294967295 \<Longrightarrow> u32 x = x"
  by (simp add: u32_def)

lemma u64_id [go_int]: "0 \<le> x \<Longrightarrow> x \<le> 18446744073709551615 \<Longrightarrow> u64 x = x"
  by (simp add: u64_def)

lemma i32_range: "is_i32 (i32 x)"
proof -
  have "0 \<le> (x + 2147483648) mod 4294967296" "(x + 2147483648) mod 4294967296 < 4294967296"
    by simp_all
  then show ?thesis by (simp add: is_i32_def i32_def)
qed

lemma i64_range: "is_i64 (i64 x)"
proof -
  have "0 \<le> (x + 9223372036854775808) mod 18446744073709551616"
    "(x + 9223372036854775808) mod 18446744073709551616 < 18446744073709551616"
    by simp_all
  then show ?thesis by (simp add: is_i64_def i64_def)
qed

lemma u32_range: "0 \<le> u32 x" "u32 x < 4294967296"
  by (simp_all add: u32_def)

lemma u64_range: "0 \<le> u64 x" "u64 x < 18446744073709551616"
  by (simp_all add: u64_def)

text \<open>Division and remainder truncate towards zero in Go.\<close>

definition go_div :: "int \<Rightarrow> int \<Rightarrow> int" where
  "go_div a b = sgn a * sgn b * (\<bar>a\<bar> div \<bar>b\<bar>)"

definition go_mod :: "int \<Rightarrow> int \<Rightarrow> int" where
  "go_mod a b = a - b * go_div a b"

lemma go_div_nonneg: "0 \<le> a \<Longrightarrow> 0 < b \<Longrightarrow> go_div a b = a div b"
  by (cases "a = 0") (simp_all add: go_div_def)

lemma go_mod_nonneg: "0 \<le> a \<Longrightarrow> 0 < b \<Longrightarrow> go_mod a b = a mod b"
  by (simp add: go_mod_def go_div_nonneg minus_mult_div_eq_mod)

text \<open>Integer division by a positive number, as inequalities.\<close>

lemma le_zdiv_iff: "0 < b \<Longrightarrow> c \<le> a div b \<longleftrightarrow> c * b \<le> (a :: int)"
proof
  assume b: "0 < b" and "c \<le> a div b"
  then have "c * b \<le> a div b * b" by (simp add: mult_right_mono)
  also have "\<dots> \<le> a" using b by (simp add: minus_mod_eq_div_mult [symmetric])
  finally show "c * b \<le> a" .
next
  assume b: "0 < b" and "c * b \<le> a"
  then have "c * b div b \<le> a div b" by (intro zdiv_mono1) simp_all
  then show "c \<le> a div b" using b by simp
qed

lemma zdiv_less_iff: "0 < b \<Longrightarrow> a div b < c \<longleftrightarrow> a < c * (b :: int)"
  using le_zdiv_iff[of b c a] by linarith

section \<open>Words as numbers\<close>

lemma uint_and_mask [word_to_num]: "uint (w AND mask n) = uint w mod 2 ^ n"
  unfolding take_bit_eq_mask [symmetric] unsigned_take_bit_eq by (rule take_bit_eq_mod)

lemma unat_and_mask [word_to_num]: "unat (w AND mask n) = unat w mod 2 ^ n"
  unfolding take_bit_eq_mask [symmetric] unsigned_take_bit_eq by (rule take_bit_eq_mod)

lemma uint_drop_bit [word_to_num]: "uint (drop_bit n w) = uint w div 2 ^ n"
proof -
  have "unsigned (drop_bit n w) = drop_bit n (unsigned w :: int)"
    by (subst unsigned_drop_bit_eq) (subst bintr_uint, simp_all)
  then show ?thesis by (simp only: drop_bit_eq_div)
qed

lemma unat_drop_bit [word_to_num]: "unat (drop_bit n w) = unat w div 2 ^ n"
proof -
  have "unsigned (drop_bit n w) = drop_bit n (unsigned w :: nat)"
    by (subst unsigned_drop_bit_eq) (subst take_bit_nat_eq_self, simp_all)
  then show ?thesis by (simp only: drop_bit_eq_div)
qed

lemma and_exp_eq_0_iff: "w AND 2 ^ n = 0 \<longleftrightarrow> \<not> bit w n" if "n < LENGTH('a)" for w :: "'a::len word"
proof
  assume "w AND 2 ^ n = 0"
  then have "\<not> bit (w AND 2 ^ n) n" by simp
  then show "\<not> bit w n" using that by (simp add: bit_simps)
next
  assume "\<not> bit w n"
  then show "w AND 2 ^ n = 0"
    by (intro bit_word_eqI) (auto simp: bit_simps)
qed

lemma uint_push_bit:
  "uint w * 2 ^ n < 2 ^ LENGTH('a) \<Longrightarrow> uint (push_bit n w) = uint w * 2 ^ n" for w :: "'a::len word"
proof -
  assume "uint w * 2 ^ n < 2 ^ LENGTH('a)"
  then have "take_bit LENGTH('a) (push_bit n (uint w)) = uint w * 2 ^ n"
    by (simp add: push_bit_eq_mult take_bit_int_eq_self)
  then show ?thesis by (simp only: unsigned_push_bit_eq)
qed

lemma int_or_disjoint: "0 \<le> b \<Longrightarrow> b < 2 ^ k \<Longrightarrow> 2 ^ k dvd a \<Longrightarrow> a OR b = a + (b :: int)"
  using concat_bit_def[of k b "a div 2 ^ k"] concat_bit_eq[of k b "a div 2 ^ k"]
  by (simp add: push_bit_eq_mult take_bit_int_eq_self or.commute)

lemma uint_or_disjoint:
  "uint b < 2 ^ k \<Longrightarrow> 2 ^ k dvd uint a \<Longrightarrow> uint (a OR b) = uint a + uint b"
  by (simp add: uint_or int_or_disjoint)

lemma uint_word_of_int_small:
  "0 \<le> x \<Longrightarrow> x < 2 ^ LENGTH('a) \<Longrightarrow> uint (word_of_int x :: 'a::len word) = x"
  by (simp add: uint_word_of_int)

section \<open>Lists\<close>

text \<open>
  The idiom \<open>for i, j := 0, n-1; i < j; i, j = i+1, j-1 { s[i], s[j] = s[j], s[i] }\<close>: the first
  \<open>n\<close> elements of a slice are reversed in place.
\<close>

definition swap_ends :: "nat \<Rightarrow> nat \<Rightarrow> 'a list \<Rightarrow> 'a list" where
  "swap_ends n i s = s[i := s ! (n - 1 - i), n - 1 - i := s ! i]"

definition reverse_in_place :: "nat \<Rightarrow> 'a list \<Rightarrow> 'a list" where
  "reverse_in_place n s = fold (swap_ends n) [0..<n div 2] s"

lemma length_swap_ends [simp]: "length (swap_ends n i s) = length s"
  by (simp add: swap_ends_def)

lemma length_fold_swap_ends [simp]: "length (fold (swap_ends n) is s) = length s"
  by (induction "is" arbitrary: s) simp_all

lemma nth_swap_ends:
  "i < length s \<Longrightarrow> n - 1 - i < length s \<Longrightarrow> swap_ends n i s ! j =
    (if j = n - 1 - i then s ! i else if j = i then s ! (n - 1 - i) else s ! j)"
  by (simp add: swap_ends_def nth_list_update)

lemma nth_fold_swap_ends:
  assumes "k \<le> n div 2" and "n \<le> length s" and "j < length s"
  shows "fold (swap_ends n) [0..<k] s ! j =
    (if j < k \<or> (n - k \<le> j \<and> j < n) then s ! (n - 1 - j) else s ! j)"
  using assms(1,3)
proof (induction k arbitrary: j)
  case 0
  then show ?case by auto
next
  case (Suc k)
  have k: "k < n div 2" "k < length s" "n - 1 - k < length s"
    using Suc.prems(1) assms(2) by linarith+
  have step: "fold (swap_ends n) [0..<Suc k] s ! j =
      (let t = fold (swap_ends n) [0..<k] s in
        if j = n - 1 - k then t ! k else if j = k then t ! (n - 1 - k) else t ! j)"
    using k by (simp add: nth_swap_ends Let_def)
  have t: "fold (swap_ends n) [0..<k] s ! k = s ! k"
      "fold (swap_ends n) [0..<k] s ! (n - 1 - k) = s ! (n - 1 - k)"
    using Suc.IH[of k] Suc.IH[of "n - 1 - k"] k Suc.prems(1) by auto
  consider "j = k" | "j = n - 1 - k" | "j \<noteq> k" "j \<noteq> n - 1 - k" by blast
  then show ?case
  proof cases
    case 3
    then have "j < Suc k \<longleftrightarrow> j < k" "n - Suc k \<le> j \<and> j < n \<longleftrightarrow> n - k \<le> j \<and> j < n"
      using k by auto
    with 3 Suc.IH[of j] Suc.prems step show ?thesis by simp
  qed (use step t k in \<open>auto simp: Let_def\<close>)
qed

lemma reverse_in_place_all: "reverse_in_place (length s) s = rev s"
proof (rule nth_equalityI)
  fix i
  assume "i < length (reverse_in_place (length s) s)"
  then have i: "i < length s" by (simp add: reverse_in_place_def)
  have mid: "length s - 1 - i = i"
    if "\<not> i < length s div 2" "\<not> length s - length s div 2 \<le> i" using that by linarith
  show "reverse_in_place (length s) s ! i = rev s ! i"
    using i mid by (auto simp: reverse_in_place_def nth_fold_swap_ends rev_nth)
qed (simp add: reverse_in_place_def)

section \<open>Fallible calls\<close>

text \<open>Sequencing of calls that return an error (\<open>Inl\<close>) or a value (\<open>Inr\<close>).\<close>

definition bindE :: "'e + 'a \<Rightarrow> ('a \<Rightarrow> 'e + 'b) \<Rightarrow> 'e + 'b" where
  "bindE m f = (case m of Inl e \<Rightarrow> Inl e | Inr x \<Rightarrow> f x)"

lemma bindE_simps [simp]: "bindE (Inl e) f = Inl e" "bindE (Inr x) f = f x"
  by (simp_all add: bindE_def)

lemma bindE_Inr_iff: "bindE m f = Inr y \<longleftrightarrow> (\<exists>x. m = Inr x \<and> f x = Inr y)"
  by (cases m) simp_all

lemma bindE_Inl_iff: "bindE m f = Inl e \<longleftrightarrow> m = Inl e \<or> (\<exists>x. m = Inr x \<and> f x = Inl e)"
  by (cases m) simp_all

lemmas bindE_iffs = bindE_Inr_iff bindE_Inl_iff

text \<open>The loop \<open>for _, x := range xs { if err := f(x); err != nil { return err } }\<close> over a state.\<close>

fun foldE :: "('a \<Rightarrow> 's \<Rightarrow> 'e + 's) \<Rightarrow> 'a list \<Rightarrow> 's \<Rightarrow> 'e + 's" where
  "foldE f [] s = Inr s"
| "foldE f (x # xs) s = bindE (f x s) (foldE f xs)"

lemma foldE_append: "foldE f (xs @ ys) s = bindE (foldE f xs s) (foldE f ys)"
  by (induction xs arbitrary: s) (simp_all add: bindE_def split: sum.splits)

end
