(* ===== verification/Workmath.thy ===== *)
theory Workmath
  imports Nogo_Prelude
begin

text \<open>
  The package \<open>blockchain/internal/workmath\<close> (difficulty.go): conversion between 256-bit targets and
  their compact 32-bit form, and the work of a block.  \<open>*big.Int\<close> values are \<open>int\<close>, the compact form
  is a 32-bit word.  The last lemmas reduce the bit operations to one arithmetic characterisation of
  each conversion, from which the round trips, the error bound and monotonicity follow.
\<close>

section \<open>The code\<close>

text \<open>\<open>big.Int.SetBytes\<close>: the bytes are the magnitude, most significant first.\<close>

definition SetBytes :: "byte list \<Rightarrow> int" where
  "SetBytes bs = foldl (\<lambda>acc b. acc * 256 + uint b) 0 bs"

definition HashToBig :: "hash \<Rightarrow> int" where
  "HashToBig h = SetBytes (reverse_in_place (length h) h)"

definition CompactToBig :: "uint32 \<Rightarrow> int" where
  "CompactToBig compact =
    (let mantissa = compact AND 0x007fffff;
         isNegative = (compact AND 0x00800000 \<noteq> 0);
         exponent = unat (drop_bit 24 compact);
         bn = (if exponent \<le> 3 then uint (drop_bit (8 * (3 - exponent)) mantissa)
               else push_bit (8 * (exponent - 3)) (uint mantissa))
     in if isNegative then - bn else bn)"

text \<open>\<open>len(n.Bytes())\<close> of the magnitude of a \<open>big.Int\<close>.\<close>

fun byte_len :: "nat \<Rightarrow> nat" where
  "byte_len n = (if n = 0 then 0 else Suc (byte_len (n div 256)))"

declare byte_len.simps [simp del]

text \<open>
  \<open>Bits()[0]\<close> is the low machine word of the magnitude, and \<open>Rsh\<close> of a negative number is an
  arithmetic shift (it rounds towards minus infinity).
\<close>

definition BigToCompact :: "int \<Rightarrow> uint32" where
  "BigToCompact n =
    (if n = 0 then 0
     else let exponent = byte_len (nat \<bar>n\<bar>);
              mantissa = (if exponent \<le> 3 then push_bit (8 * (3 - exponent)) (word_of_int \<bar>n\<bar>)
                          else word_of_int \<bar>drop_bit (8 * (exponent - 3)) n\<bar>) :: uint32;
              (mantissa, exponent) =
                (if mantissa AND 0x00800000 \<noteq> 0 then (drop_bit 8 mantissa, exponent + 1)
                 else (mantissa, exponent));
              compact = push_bit 24 (of_nat exponent) OR mantissa
          in if n < 0 then compact OR 0x00800000 else compact)"

definition CalcWork :: "uint32 \<Rightarrow> int" where
  "CalcWork bits =
    (let difficultyNum = CompactToBig bits
     in if difficultyNum \<le> 0 then 0 else 2 ^ 256 div (difficultyNum + 1))"

section \<open>Hashes as numbers\<close>

lemma SetBytes_append: "SetBytes (xs @ [b]) = SetBytes xs * 256 + uint b"
  by (simp add: SetBytes_def)

lemma SetBytes_range: "0 \<le> SetBytes bs \<and> SetBytes bs < 256 ^ length bs"
proof (induction bs rule: rev_induct)
  case Nil
  then show ?case by (simp add: SetBytes_def)
next
  case (snoc b bs)
  have b: "0 \<le> uint b" "uint b < 256"
    using uint_lt2p[of b] by simp_all
  then have "SetBytes bs * 256 + uint b < (SetBytes bs + 1) * 256" by simp
  also have "\<dots> \<le> 256 ^ length bs * 256"
    using snoc by (intro mult_right_mono) simp_all
  finally show ?case using snoc b by (simp add: SetBytes_append mult.commute)
qed

lemma HashToBig_eq: "HashToBig h = SetBytes (rev h)"
  by (simp add: HashToBig_def reverse_in_place_all)

section \<open>Arithmetic form of the conversions\<close>

lemma mask_lits: "(0x007fffff :: uint32) = mask 23" "(0x00800000 :: uint32) = 2 ^ 23"
  by (simp_all add: mask_eq_exp_minus_1)

lemma bit_23_iff: "(w AND 0x00800000 \<noteq> (0 :: uint32)) = odd (uint w div 2 ^ 23)"
proof -
  have "bit w 23 = bit (uint w) 23" by (simp only: bit_uint_iff) simp
  then show ?thesis
    using and_exp_eq_0_iff[of 23 w] by (simp only: mask_lits bit_iff_odd) simp
qed

lemma CompactToBig_formula:
  "CompactToBig c =
    (if odd (uint c div 2 ^ 23) then - 1 else 1) *
    (uint c mod 2 ^ 23 * 256 ^ nat (uint c div 2 ^ 24) div 256 ^ 3)"
proof -
  let ?m = "uint c mod 2 ^ 23" and ?e = "nat (uint c div 2 ^ 24)"
  have e: "unat (drop_bit 24 c) = ?e"
    by (simp only: unat_drop_bit) (simp add: nat_div_distrib)
  have "(if ?e \<le> 3 then uint (drop_bit (8 * (3 - ?e)) (c AND mask 23))
      else push_bit (8 * (?e - 3)) (uint (c AND mask 23))) = ?m * 256 ^ ?e div 256 ^ 3"
  proof (cases "?e \<le> 3")
    case True
    have "(256 :: int) ^ 3 = 256 ^ (3 - ?e) * 256 ^ ?e"
      unfolding power_add [symmetric] using True by simp
    moreover have "?m * 256 ^ ?e div (256 ^ (3 - ?e) * 256 ^ ?e) = ?m div 256 ^ (3 - ?e)"
      by (rule div_mult_mult2) simp
    moreover have "(2 :: int) ^ (8 * (3 - ?e)) = 256 ^ (3 - ?e)" by (simp add: power_mult)
    ultimately show ?thesis using True by (simp only: word_to_num if_True)
  next
    case False
    have "(256 :: int) ^ ?e = 256 ^ (?e - 3) * 256 ^ 3"
      unfolding power_add [symmetric] using False by simp
    moreover have "(2 :: int) ^ (8 * (?e - 3)) = 256 ^ (?e - 3)" by (simp add: power_mult)
    ultimately show ?thesis using False
      by (simp only: word_to_num if_False push_bit_eq_mult) simp
  qed
  then show ?thesis
    unfolding CompactToBig_def Let_def bit_23_iff e by (simp only: mask_lits) simp
qed

text \<open>The number of bytes of a positive number.\<close>

lemma byte_len_bounds: "0 < n \<Longrightarrow> 256 ^ (byte_len n - 1) \<le> n \<and> n < 256 ^ byte_len n \<and> 0 < byte_len n"
proof (induction n rule: byte_len.induct)
  case (1 n)
  show ?case
  proof (cases "n < 256")
    case True
    with 1 show ?thesis by (simp add: byte_len.simps[of n] byte_len.simps[of 0])
  next
    case False
    then have IH: "256 ^ (byte_len (n div 256) - 1) \<le> n div 256" "n div 256 < 256 ^ byte_len (n div 256)"
        "0 < byte_len (n div 256)"
      using 1 by auto
    then have "(256 :: nat) ^ byte_len (n div 256) = 256 * 256 ^ (byte_len (n div 256) - 1)"
      by (cases "byte_len (n div 256)") simp_all
    with IH 1(2) show ?thesis by (subst (1 2 3) byte_len.simps) (simp add: div_less_iff_less_mult less_eq_div_iff_mult_less_eq mult.commute)
  qed
qed

lemma byte_len_bounds_int:
  assumes "0 < (n :: int)"
  defines "E \<equiv> byte_len (nat n)"
  shows "256 ^ (E - 1) \<le> n" "n < 256 ^ E" "0 < E"
proof -
  have b: "256 ^ (E - 1) \<le> nat n \<and> nat n < 256 ^ E \<and> 0 < E"
    using assms byte_len_bounds[of "nat n"] by simp
  then show "0 < E" by simp
  from b have "int (256 ^ (E - 1)) \<le> int (nat n)" "int (nat n) < int (256 ^ E)"
    by (simp_all only: of_nat_le_iff of_nat_less_iff)
  then show "256 ^ (E - 1) \<le> n" "n < 256 ^ E" using assms(1) by simp_all
qed

text \<open>
  The mantissa before normalisation: the three leading bytes of the number.
\<close>

lemma mantissa_bounds:
  assumes "256 ^ (E - 1) \<le> n" "n < 256 ^ E" "0 < E"
  shows "2 ^ 16 \<le> n * 256 ^ 3 div 256 ^ E" "n * 256 ^ 3 div 256 ^ E < (2 ^ 24 :: int)"
proof -
  have E: "(256 :: int) ^ E = 256 * 256 ^ (E - 1)"
    using assms(3) by (cases E) simp_all
  have "2 ^ 16 * 256 ^ E \<le> n * 256 ^ 3" using assms(1) by (simp add: E)
  then show "2 ^ 16 \<le> n * 256 ^ 3 div 256 ^ E" by (simp add: le_zdiv_iff)
  show "n * 256 ^ 3 div 256 ^ E < 2 ^ 24"
    using assms(2) by (simp add: zdiv_less_iff)
qed

lemma uint_mantissa:
  assumes "256 ^ (E - 1) \<le> n" "n < 256 ^ E" "0 < E" "0 < n"
  shows "uint (if E \<le> 3 then push_bit (8 * (3 - E)) (word_of_int n)
               else word_of_int \<bar>drop_bit (8 * (E - 3)) n\<bar> :: uint32) = n * 256 ^ 3 div 256 ^ E"
proof (cases "E \<le> 3")
  case True
  have p: "(256 :: int) ^ 3 = 256 ^ (3 - E) * 256 ^ E" "(2 :: int) ^ (8 * (3 - E)) = 256 ^ (3 - E)"
    unfolding power_add [symmetric] using True by (simp_all add: power_mult)
  then have M: "n * 256 ^ 3 div 256 ^ E = n * 2 ^ (8 * (3 - E))"
    by (simp only: mult.assoc [symmetric]) simp
  then have lt: "n * 2 ^ (8 * (3 - E)) < 2 ^ 24" "n * 1 \<le> n * 2 ^ (8 * (3 - E))"
    using mantissa_bounds[OF assms(1-3)] assms(4) by (simp_all add: mult_left_mono)
  have n: "uint (word_of_int n :: uint32) = n"
    by (rule uint_word_of_int_small) (use order.strict_trans1[OF lt(2,1)] assms(4) in simp_all)
  show ?thesis using True lt uint_push_bit[of "word_of_int n :: uint32" "8 * (3 - E)"]
    by (simp only: M n if_True) simp
next
  case False
  have p: "(256 :: int) ^ E = 256 ^ (E - 3) * 256 ^ 3" "(2 :: int) ^ (8 * (E - 3)) = 256 ^ (E - 3)"
    unfolding power_add [symmetric] using False by (simp_all add: power_mult)
  have M: "n * 256 ^ 3 div 256 ^ E = drop_bit (8 * (E - 3)) n"
    unfolding drop_bit_eq_div p by (rule div_mult_mult2) simp
  moreover have "0 \<le> drop_bit (8 * (E - 3)) n" using assms(4) by simp
  ultimately show ?thesis using False mantissa_bounds[OF assms(1-3)]
    by (simp add: uint_word_of_int_small)
qed

text \<open>Packing of a normalised exponent and mantissa.\<close>

lemma uint_pack:
  assumes "e \<le> 255" "uint m < 2 ^ 24"
  shows "uint (push_bit 24 (of_nat e) OR m :: uint32) = int e * 2 ^ 24 + uint m"
proof -
  have e: "uint (of_nat e :: uint32) = int e"
    using assms(1) by (simp add: unsigned_of_nat take_bit_nat_eq_self)
  have "uint (push_bit 24 (of_nat e) :: uint32) = int e * 2 ^ 24"
    using uint_push_bit[of "of_nat e :: uint32" 24] assms(1) unfolding e by simp
  then show ?thesis using uint_or_disjoint[of m 24 "push_bit 24 (of_nat e)"] assms(2) by simp
qed

lemma BigToCompact_pos:
  assumes "0 < n" "n < 256 ^ 254"
  obtains e m where "uint (BigToCompact n) = int e * 2 ^ 24 + m" "m = n * 256 ^ 3 div 256 ^ e"
    "2 ^ 15 \<le> m" "m < 2 ^ 23" "e \<le> 255"
proof -
  define E where "E = byte_len (nat n)"
  note E = byte_len_bounds_int[OF assms(1), folded E_def]
  define w :: uint32 where "w = (if E \<le> 3 then push_bit (8 * (3 - E)) (word_of_int n)
    else word_of_int \<bar>drop_bit (8 * (E - 3)) n\<bar>)"
  define M where "M = n * 256 ^ 3 div 256 ^ E"
  have w: "uint w = M" "2 ^ 16 \<le> M" "M < 2 ^ 24"
    using uint_mantissa[OF E assms(1)] mantissa_bounds[OF E] by (simp_all add: w_def M_def)
  have "(256 :: int) ^ (E - 1) < 256 ^ 254" using E(1) assms(2) by linarith
  then have "E - 1 < 254" by (rule power_less_imp_less_exp [rotated]) simp
  then have "E \<le> 254" by simp
  have compact: "BigToCompact n = (if M \<ge> 2 ^ 23 then push_bit 24 (of_nat (E + 1)) OR drop_bit 8 w
      else push_bit 24 (of_nat E) OR w)"
  proof -
    have "uint w div 2 ^ 23 = (if M \<ge> 2 ^ 23 then 1 else 0)"
      using w int_div_pos_eq[of M "2 ^ 23" 1 "M - 2 ^ 23"] by simp
    moreover have "\<bar>n\<bar> = n" using assms(1) by simp
    ultimately show ?thesis using assms(1)
      unfolding BigToCompact_def Let_def \<open>\<bar>n\<bar> = n\<close> E_def [symmetric] w_def [symmetric] bit_23_iff
      by simp
  qed
  show thesis
  proof (cases "M \<ge> 2 ^ 23")
    case True
    have "M div 256 = n * 256 ^ 3 div 256 ^ (E + 1)"
      by (simp only: M_def power_add power_one_right zdiv_zmult2_eq zero_le_numeral)
    moreover have "uint (drop_bit 8 w) = M div 256" by (simp only: uint_drop_bit w) simp
    ultimately show thesis
      using that[of "E + 1" "M div 256"] True w \<open>E \<le> 254\<close> uint_pack[of "E + 1" "drop_bit 8 w"]
      by (simp add: compact)
  next
    case False
    then show thesis using that[of E M] w \<open>E \<le> 254\<close> uint_pack[of E w] by (simp add: compact M_def)
  qed
qed

section \<open>Properties of the conversions\<close>

text \<open>The fields of a compact value with a clear sign bit.\<close>

lemma compact_fields:
  assumes "c = int e * 2 ^ 24 + m" "0 \<le> m" "m < 2 ^ 23"
  shows "c mod 2 ^ 23 = m" "c div 2 ^ 24 = int e" "c div 2 ^ 23 = 2 * int e"
  using assms int_mod_pos_eq[of c "2 ^ 23" "2 * int e" m] int_div_pos_eq[of c "2 ^ 23" "2 * int e" m]
    int_div_pos_eq[of c "2 ^ 24" "int e" m] by simp_all

lemma CompactToBig_fields:
  assumes "uint c = int e * 2 ^ 24 + m" "0 \<le> m" "m < 2 ^ 23"
  shows "CompactToBig c = m * 256 ^ e div 256 ^ 3"
  unfolding CompactToBig_formula compact_fields[OF assms] by simp

lemma compact_error:
  assumes "0 < (n :: int)" "m = n * 256 ^ 3 div 256 ^ e" "2 ^ 15 \<le> m"
  defines "r \<equiv> m * 256 ^ e div 256 ^ 3"
  shows "0 < r" "r \<le> n" "(n - r) * 2 ^ 15 \<le> n"
proof -
  have "0 < r \<and> r \<le> n \<and> (n - r) * 2 ^ 15 \<le> n"
  proof (cases "3 \<le> e")
    case True
    define k :: int where "k = 256 ^ (e - 3)"
    have e: "(256 :: int) ^ e = k * 256 ^ 3"
      unfolding k_def power_add [symmetric] using True by simp
    have k: "0 < k" by (simp add: k_def)
    have m: "m = n div k" unfolding assms(2) e by (rule div_mult_mult2) simp
    then have r: "r = n - n mod k" unfolding r_def e by (simp add: minus_mod_eq_div_mult)
    have "n mod k * 2 ^ 15 \<le> k * 2 ^ 15" using k by (simp add: order.strict_implies_order)
    also have "\<dots> \<le> m * k" using k assms(3) by (simp add: mult.commute)
    also have "\<dots> = r" by (simp add: m r minus_mod_eq_div_mult)
    finally have "n mod k * 2 ^ 15 \<le> r" .
    moreover have "0 < m * k" using k assms(3) by simp
    moreover have "m * k = r" by (simp add: m r minus_mod_eq_div_mult)
    moreover have "0 \<le> n mod k" using k by simp
    ultimately show ?thesis using r by simp
  next
    case False
    then have p: "(256 :: int) ^ 3 = 256 ^ (3 - e) * 256 ^ e"
      unfolding power_add [symmetric] by simp
    have "m = n * 256 ^ (3 - e)" unfolding assms(2) p mult.assoc [symmetric] by simp
    then have "r = n" unfolding r_def p by simp
    then show ?thesis using assms(1) by simp
  qed
  then show "0 < r" "r \<le> n" "(n - r) * 2 ^ 15 \<le> n" by simp_all
qed

text \<open>A larger number does not have a smaller normalised exponent.\<close>

lemma normal_exponent_le:
  assumes "2 ^ 15 * 256 ^ a \<le> x" "y < 2 ^ 23 * 256 ^ b" "x \<le> (y :: int)"
  shows "a \<le> b"
proof -
  have "2 ^ 15 * 256 ^ a < 2 ^ 15 * (256 :: int) ^ Suc b" using assms by simp
  then have "(256 :: int) ^ a < 256 ^ Suc b"
    by (simp only: mult_less_cancel_left_pos zero_less_power zero_less_numeral)
  then have "a < Suc b" by (rule power_less_imp_less_exp [rotated]) simp
  then show ?thesis by simp
qed

lemma compact_error_pos:
  assumes n: "0 < n" "n < 256 ^ 254"
  shows "CompactToBig (BigToCompact n) \<le> n" "(n - CompactToBig (BigToCompact n)) * 2 ^ 15 \<le> n" "0 < CompactToBig (BigToCompact n)"
proof -
  obtain e m where c: "uint (BigToCompact n) = int e * 2 ^ 24 + m" "m = n * 256 ^ 3 div 256 ^ e"
      "2 ^ 15 \<le> m" "m < 2 ^ 23"
    using n by (rule BigToCompact_pos)
  then have "CompactToBig (BigToCompact n) = m * 256 ^ e div 256 ^ 3"
    using CompactToBig_fields[OF c(1)] by simp
  then show "CompactToBig (BigToCompact n) \<le> n" "(n - CompactToBig (BigToCompact n)) * 2 ^ 15 \<le> n" "0 < CompactToBig (BigToCompact n)"
    using compact_error[OF n(1) c(2,3)] by simp_all
qed

text \<open>
  Encoding a target and decoding it again never raises the target, keeps it positive, and loses
  less than one part in 32768 of it; zero is exact.
\<close>

theorem compact_precision:
  assumes "0 \<le> n" "n < 256 ^ 254"
  shows "CompactToBig (BigToCompact n) \<le> n
    \<and> (n - CompactToBig (BigToCompact n)) * 2 ^ 15 \<le> n
    \<and> (0 < CompactToBig (BigToCompact n) \<longleftrightarrow> 0 < n)"
proof (cases "n = 0")
  case True
  then show ?thesis by (simp add: BigToCompact_def CompactToBig_def)
next
  case False
  then show ?thesis using compact_error_pos[of n] assms by simp
qed

theorem compact_precision_witness:
  "CompactToBig (BigToCompact 0x123456789a) \<le> 0x123456789a
    \<and> (0x123456789a - CompactToBig (BigToCompact 0x123456789a)) * 2 ^ 15 \<le> 0x123456789a
    \<and> 0 < CompactToBig (BigToCompact 0x123456789a)"
proof -
  have "(0 :: int) \<le> 0x123456789a" "(0x123456789a :: int) < 256 ^ 254" by simp_all
  from compact_precision[OF this] show ?thesis by simp
qed

text \<open>
  A canonical compact value (sign bit clear, exponent at least 3, mantissa normalised) is
  reproduced exactly by decoding and encoding it again.
\<close>

theorem compact_roundtrip:
  assumes "uint c = int e * 2 ^ 24 + m" "3 \<le> e" "e \<le> 254" "2 ^ 15 \<le> m" "m < 2 ^ 23"
  shows "BigToCompact (CompactToBig c) = c"
proof -
  have e: "(256 :: int) ^ e = 256 ^ (e - 3) * 256 ^ 3"
    unfolding power_add [symmetric] using assms(2) by simp
  have n: "CompactToBig c = m * 256 ^ (e - 3)" (is "_ = ?n")
    using CompactToBig_fields[OF assms(1)] assms(4,5) unfolding e by simp
  have "0 < ?n" using assms(4) by simp
  have "?n < 2 ^ 23 * 256 ^ (e - 3)" using assms(5) by simp
  also have "\<dots> \<le> 256 ^ 3 * 256 ^ (e - 3)" by (intro mult_right_mono) simp_all
  also have "\<dots> = 256 ^ e" by (simp only: e mult.commute)
  also have "\<dots> \<le> (256 :: int) ^ 254" using assms(3) by (intro power_increasing) simp_all
  finally have n_lt: "?n < 256 ^ 254" .
  obtain e' m' where c: "uint (BigToCompact ?n) = int e' * 2 ^ 24 + m'"
      "m' = ?n * 256 ^ 3 div 256 ^ e'" "2 ^ 15 \<le> m'" "m' < 2 ^ 23"
    using \<open>0 < ?n\<close> n_lt by (rule BigToCompact_pos)
  have x: "?n * 256 ^ 3 = m * 256 ^ e" by (simp only: e mult.assoc)
  have lo: "2 ^ 15 * 256 ^ e' \<le> m * 256 ^ e" and hi: "m * 256 ^ e < 2 ^ 23 * 256 ^ e'"
    using c(2-4) unfolding x by (simp_all add: le_zdiv_iff zdiv_less_iff)
  have "e' \<le> e"
    by (rule normal_exponent_le[OF lo, of "m * 256 ^ e"]) (use assms(5) in simp_all)
  moreover have "e \<le> e'"
    by (rule normal_exponent_le[OF _ hi, of _ "m * 256 ^ e"]) (use assms(4) in simp_all)
  ultimately have "e' = e" by simp
  then have "m' = m" using c(2) unfolding x by simp
  with c(1) \<open>e' = e\<close> assms(1) n show ?thesis by (simp add: word_uint_eq_iff)
qed

theorem compact_roundtrip_witness: "BigToCompact (CompactToBig 0x1d00ffff) = 0x1d00ffff"
  by (rule compact_roundtrip[where e = 29 and m = 65535]) simp_all

text \<open>
  On non-negative targets the compact form preserves order, so comparing two encoded targets
  as unsigned integers (as \<open>newBits > PowLimitBits\<close> does) never inverts their order.
\<close>

theorem BigToCompact_mono:
  assumes "0 \<le> a" "a \<le> b" "b < 256 ^ 254"
  shows "BigToCompact a \<le> BigToCompact b"
proof (cases "a = 0")
  case True
  then show ?thesis by (simp add: BigToCompact_def)
next
  case False
  then have ab: "0 < a" "a < 256 ^ 254" "0 < b" using assms by simp_all
  obtain e m where ca: "uint (BigToCompact a) = int e * 2 ^ 24 + m" "m = a * 256 ^ 3 div 256 ^ e"
      "2 ^ 15 \<le> m" "m < 2 ^ 23"
    using ab(1,2) by (rule BigToCompact_pos)
  obtain e' m' where cb: "uint (BigToCompact b) = int e' * 2 ^ 24 + m'" "m' = b * 256 ^ 3 div 256 ^ e'"
      "2 ^ 15 \<le> m'" "m' < 2 ^ 23"
    using ab(3) assms(3) by (rule BigToCompact_pos)
  have "2 ^ 15 * 256 ^ e \<le> a * 256 ^ 3" "b * 256 ^ 3 < 2 ^ 23 * 256 ^ e'"
    using ca(2,3) cb(2,4) by (simp_all add: le_zdiv_iff zdiv_less_iff)
  then have "e \<le> e'" by (rule normal_exponent_le) (use assms(2) in simp)
  moreover have "m \<le> m'" if "e = e'"
    unfolding ca(2) cb(2) that using assms(2) by (intro zdiv_mono1) simp_all
  ultimately have "uint (BigToCompact a) \<le> uint (BigToCompact b)"
    unfolding ca(1) cb(1) using ca(3,4) cb(3,4) by (cases "e = e'") simp_all
  then show ?thesis by (simp add: word_le_def)
qed

theorem BigToCompact_mono_witness: "BigToCompact 0x7fffff \<le> BigToCompact 0x800000"
  by (rule BigToCompact_mono) simp_all

text \<open>
  The work of a block is positive for every target from 1 to \<open>2 ^ 256 - 1\<close> and zero for a target
  that is not positive, and a smaller positive target never has less work.
\<close>

theorem CalcWork_antitone:
  "(0 < CompactToBig c \<and> CompactToBig c < 2 ^ 256 \<longrightarrow> 0 < CalcWork c)
    \<and> (CompactToBig c \<le> 0 \<longrightarrow> CalcWork c = 0)
    \<and> (0 < CompactToBig c \<and> CompactToBig c \<le> CompactToBig d \<longrightarrow> CalcWork d \<le> CalcWork c)"
proof (intro conjI impI; (elim conjE)?)
  assume t: "0 < CompactToBig c" "CompactToBig c < 2 ^ 256"
  then have "1 \<le> 2 ^ 256 div (CompactToBig c + 1)" by (subst le_zdiv_iff) simp_all
  then have "0 < 2 ^ 256 div (CompactToBig c + 1)" by (rule order_less_le_trans[OF zero_less_one])
  with t show "0 < CalcWork c" unfolding CalcWork_def Let_def by (simp only: not_le if_not_P)
next
  assume "CompactToBig c \<le> 0"
  then show "CalcWork c = 0" by (simp add: CalcWork_def)
next
  assume t: "0 < CompactToBig c" "CompactToBig c \<le> CompactToBig d"
  then have "2 ^ 256 div (CompactToBig d + 1) \<le> 2 ^ 256 div (CompactToBig c + 1)"
    by (intro zdiv_mono2) simp_all
  with t show "CalcWork d \<le> CalcWork c" unfolding CalcWork_def Let_def by simp
qed

theorem CalcWork_antitone_witness:
  "0 < CalcWork 0x1d00ffff \<and> CalcWork 0x1d00ffff \<le> CalcWork 0x1c00ffff"
proof -
  have "0 < CompactToBig 0x1c00ffff" "CompactToBig 0x1c00ffff \<le> CompactToBig 0x1d00ffff"
    "0 < CompactToBig 0x1d00ffff" "CompactToBig 0x1d00ffff < 2 ^ 256"
    by (simp_all add: CompactToBig_formula)
  then show ?thesis
    using CalcWork_antitone[of "0x1c00ffff" "0x1d00ffff"] CalcWork_antitone[of "0x1d00ffff" "0x1d00ffff"]
    by simp
qed

end
