(* ===== verification/Errors.thy ===== *)
theory Errors
  imports Nogo_Prelude
begin

text \<open>
  The errors of package \<open>blockchain\<close> (error.go).  \<open>ErrorCode\<close> has one constructor per \<open>iota\<close> constant,
  in the order of the source; a \<open>RuleError\<close> carries its code (the human-readable description is
  dropped).  \<open>error\<close> gathers what a function of the package can return or do instead of a value: a
  rule violation, an internal assertion, a decoding error, an error handed up by a callee that is not
  part of the repository, and a run-time panic.
\<close>

section \<open>The code\<close>

datatype ErrorCode =
    ErrDuplicateBlock
  | ErrBlockTooBig
  | ErrBlockWeightTooHigh
  | ErrBlockVersionTooOld
  | ErrInvalidTime
  | ErrTimeTooOld
  | ErrTimeTooNew
  | ErrDifficultyTooLow
  | ErrUnexpectedDifficulty
  | ErrHighHash
  | ErrBadMerkleRoot
  | ErrBadCheckpoint
  | ErrForkTooOld
  | ErrCheckpointTimeTooOld
  | ErrNoTransactions
  | ErrNoTxInputs
  | ErrNoTxOutputs
  | ErrTxTooBig
  | ErrBadTxOutValue
  | ErrDuplicateTxInputs
  | ErrBadTxInput
  | ErrMissingTxOut
  | ErrUnfinalizedTx
  | ErrDuplicateTx
  | ErrOverwriteTx
  | ErrImmatureSpend
  | ErrSpendTooHigh
  | ErrBadFees
  | ErrTooManySigOps
  | ErrFirstTxNotCoinbase
  | ErrMultipleCoinbases
  | ErrBadCoinbaseScriptLen
  | ErrBadCoinbaseValue
  | ErrMissingCoinbaseHeight
  | ErrBadCoinbaseHeight
  | ErrScriptMalformed
  | ErrScriptValidation
  | ErrUnexpectedWitness
  | ErrInvalidWitnessCommitment
  | ErrWitnessCommitmentMismatch
  | ErrPreviousBlockUnknown
  | ErrInvalidAncestorBlock
  | ErrPrevBlockNotBest
  | ErrTimewarpAttack
  | ErrKnownInvalidBlock

definition all_codes :: "ErrorCode list" where
  "all_codes =
    [ErrDuplicateBlock,
     ErrBlockTooBig,
     ErrBlockWeightTooHigh,
     ErrBlockVersionTooOld,
     ErrInvalidTime,
     ErrTimeTooOld,
     ErrTimeTooNew,
     ErrDifficultyTooLow,
     ErrUnexpectedDifficulty,
     ErrHighHash,
     ErrBadMerkleRoot,
     ErrBadCheckpoint,
     ErrForkTooOld,
     ErrCheckpointTimeTooOld,
     ErrNoTransactions,
     ErrNoTxInputs,
     ErrNoTxOutputs,
     ErrTxTooBig,
     ErrBadTxOutValue,
     ErrDuplicateTxInputs,
     ErrBadTxInput,
     ErrMissingTxOut,
     ErrUnfinalizedTx,
     ErrDuplicateTx,
     ErrOverwriteTx,
     ErrImmatureSpend,
     ErrSpendTooHigh,
     ErrBadFees,
     ErrTooManySigOps,
     ErrFirstTxNotCoinbase,
     ErrMultipleCoinbases,
     ErrBadCoinbaseScriptLen,
     ErrBadCoinbaseValue,
     ErrMissingCoinbaseHeight,
     ErrBadCoinbaseHeight,
     ErrScriptMalformed,
     ErrScriptValidation,
     ErrUnexpectedWitness,
     ErrInvalidWitnessCommitment,
     ErrWitnessCommitmentMismatch,
     ErrPreviousBlockUnknown,
     ErrInvalidAncestorBlock,
     ErrPrevBlockNotBest,
     ErrTimewarpAttack,
     ErrKnownInvalidBlock]"

text \<open>The integer value of a code: its position in the \<open>iota\<close> list.\<close>

primrec iota :: "ErrorCode \<Rightarrow> nat" where
  "iota ErrDuplicateBlock = 0"
| "iota ErrBlockTooBig = 1"
| "iota ErrBlockWeightTooHigh = 2"
| "iota ErrBlockVersionTooOld = 3"
| "iota ErrInvalidTime = 4"
| "iota ErrTimeTooOld = 5"
| "iota ErrTimeTooNew = 6"
| "iota ErrDifficultyTooLow = 7"
| "iota ErrUnexpectedDifficulty = 8"
| "iota ErrHighHash = 9"
| "iota ErrBadMerkleRoot = 10"
| "iota ErrBadCheckpoint = 11"
| "iota ErrForkTooOld = 12"
| "iota ErrCheckpointTimeTooOld = 13"
| "iota ErrNoTransactions = 14"
| "iota ErrNoTxInputs = 15"
| "iota ErrNoTxOutputs = 16"
| "iota ErrTxTooBig = 17"
| "iota ErrBadTxOutValue = 18"
| "iota ErrDuplicateTxInputs = 19"
| "iota ErrBadTxInput = 20"
| "iota ErrMissingTxOut = 21"
| "iota ErrUnfinalizedTx = 22"
| "iota ErrDuplicateTx = 23"
| "iota ErrOverwriteTx = 24"
| "iota ErrImmatureSpend = 25"
| "iota ErrSpendTooHigh = 26"
| "iota ErrBadFees = 27"
| "iota ErrTooManySigOps = 28"
| "iota ErrFirstTxNotCoinbase = 29"
| "iota ErrMultipleCoinbases = 30"
| "iota ErrBadCoinbaseScriptLen = 31"
| "iota ErrBadCoinbaseValue = 32"
| "iota ErrMissingCoinbaseHeight = 33"
| "iota ErrBadCoinbaseHeight = 34"
| "iota ErrScriptMalformed = 35"
| "iota ErrScriptValidation = 36"
| "iota ErrUnexpectedWitness = 37"
| "iota ErrInvalidWitnessCommitment = 38"
| "iota ErrWitnessCommitmentMismatch = 39"
| "iota ErrPreviousBlockUnknown = 40"
| "iota ErrInvalidAncestorBlock = 41"
| "iota ErrPrevBlockNotBest = 42"
| "iota ErrTimewarpAttack = 43"
| "iota ErrKnownInvalidBlock = 44"

primrec errorCodeStrings :: "ErrorCode \<Rightarrow> string" where
  "errorCodeStrings ErrDuplicateBlock = ''ErrDuplicateBlock''"
| "errorCodeStrings ErrBlockTooBig = ''ErrBlockTooBig''"
| "errorCodeStrings ErrBlockVersionTooOld = ''ErrBlockVersionTooOld''"
| "errorCodeStrings ErrBlockWeightTooHigh = ''ErrBlockWeightTooHigh''"
| "errorCodeStrings ErrInvalidTime = ''ErrInvalidTime''"
| "errorCodeStrings ErrTimeTooOld = ''ErrTimeTooOld''"
| "errorCodeStrings ErrTimeTooNew = ''ErrTimeTooNew''"
| "errorCodeStrings ErrDifficultyTooLow = ''ErrDifficultyTooLow''"
| "errorCodeStrings ErrUnexpectedDifficulty = ''ErrUnexpectedDifficulty''"
| "errorCodeStrings ErrHighHash = ''ErrHighHash''"
| "errorCodeStrings ErrBadMerkleRoot = ''ErrBadMerkleRoot''"
| "errorCodeStrings ErrBadCheckpoint = ''ErrBadCheckpoint''"
| "errorCodeStrings ErrForkTooOld = ''ErrForkTooOld''"
| "errorCodeStrings ErrCheckpointTimeTooOld = ''ErrCheckpointTimeTooOld''"
| "errorCodeStrings ErrNoTransactions = ''ErrNoTransactions''"
| "errorCodeStrings ErrNoTxInputs = ''ErrNoTxInputs''"
| "errorCodeStrings ErrNoTxOutputs = ''ErrNoTxOutputs''"
| "errorCodeStrings ErrTxTooBig = ''ErrTxTooBig''"
| "errorCodeStrings ErrBadTxOutValue = ''ErrBadTxOutValue''"
| "errorCodeStrings ErrDuplicateTxInputs = ''ErrDuplicateTxInputs''"
| "errorCodeStrings ErrBadTxInput = ''ErrBadTxInput''"
| "errorCodeStrings ErrMissingTxOut = ''ErrMissingTxOut''"
| "errorCodeStrings ErrUnfinalizedTx = ''ErrUnfinalizedTx''"
| "errorCodeStrings ErrDuplicateTx = ''ErrDuplicateTx''"
| "errorCodeStrings ErrOverwriteTx = ''ErrOverwriteTx''"
| "errorCodeStrings ErrImmatureSpend = ''ErrImmatureSpend''"
| "errorCodeStrings ErrSpendTooHigh = ''ErrSpendTooHigh''"
| "errorCodeStrings ErrBadFees = ''ErrBadFees''"
| "errorCodeStrings ErrTooManySigOps = ''ErrTooManySigOps''"
| "errorCodeStrings ErrFirstTxNotCoinbase = ''ErrFirstTxNotCoinbase''"
| "errorCodeStrings ErrMultipleCoinbases = ''ErrMultipleCoinbases''"
| "errorCodeStrings ErrBadCoinbaseScriptLen = ''ErrBadCoinbaseScriptLen''"
| "errorCodeStrings ErrBadCoinbaseValue = ''ErrBadCoinbaseValue''"
| "errorCodeStrings ErrMissingCoinbaseHeight = ''ErrMissingCoinbaseHeight''"
| "errorCodeStrings ErrBadCoinbaseHeight = ''ErrBadCoinbaseHeight''"
| "errorCodeStrings ErrScriptMalformed = ''ErrScriptMalformed''"
| "errorCodeStrings ErrScriptValidation = ''ErrScriptValidation''"
| "errorCodeStrings ErrUnexpectedWitness = ''ErrUnexpectedWitness''"
| "errorCodeStrings ErrInvalidWitnessCommitment = ''ErrInvalidWitnessCommitment''"
| "errorCodeStrings ErrWitnessCommitmentMismatch = ''ErrWitnessCommitmentMismatch''"
| "errorCodeStrings ErrPreviousBlockUnknown = ''ErrPreviousBlockUnknown''"
| "errorCodeStrings ErrInvalidAncestorBlock = ''ErrInvalidAncestorBlock''"
| "errorCodeStrings ErrPrevBlockNotBest = ''ErrPrevBlockNotBest''"
| "errorCodeStrings ErrKnownInvalidBlock = ''ErrKnownInvalidBlock''"
| "errorCodeStrings ErrTimewarpAttack = []"

text \<open>Decimal digits, as the verb \<open>%d\<close> prints them.\<close>

fun show_nat :: "nat \<Rightarrow> string" where
  "show_nat n = (if n < 10 then [char_of (48 + n)] else show_nat (n div 10) @ [char_of (48 + n mod 10)])"

declare show_nat.simps [simp del]

text \<open>The method \<open>String\<close>: a map lookup that misses yields the empty string.\<close>

definition String_ErrorCode :: "ErrorCode \<Rightarrow> string" where
  "String_ErrorCode e =
    (if errorCodeStrings e \<noteq> [] then errorCodeStrings e
     else ''Unknown ErrorCode ('' @ show_nat (iota e) @ '')'')"

datatype error =
    RuleError ErrorCode
  | AssertError string
  | DeserializeError string
  | CalleeError
  | Panic

text \<open>The constructor \<open>ruleError\<close>, with the description dropped.\<close>

definition ruleError :: "ErrorCode \<Rightarrow> error" where
  "ruleError c = RuleError c"

section \<open>Codes are totally ordered by their value\<close>

lemma nth_iota: "all_codes ! iota e = e"
  by (cases e) (simp_all add: all_codes_def)

lemma iota_inj: "iota a = iota b \<longleftrightarrow> a = b"
  by (metis nth_iota)

instantiation ErrorCode :: linorder
begin

definition less_eq_ErrorCode :: "ErrorCode \<Rightarrow> ErrorCode \<Rightarrow> bool" where
  "less_eq_ErrorCode a b \<longleftrightarrow> iota a \<le> iota b"

definition less_ErrorCode :: "ErrorCode \<Rightarrow> ErrorCode \<Rightarrow> bool" where
  "less_ErrorCode a b \<longleftrightarrow> iota a < iota b"

instance
  by standard (auto simp: less_eq_ErrorCode_def less_ErrorCode_def iota_inj)

end

section \<open>Names of codes\<close>

lemma errorCodeStrings_miss: "errorCodeStrings e = [] \<longleftrightarrow> e = ErrTimewarpAttack"
  by (cases e) simp_all

lemma String_distinct: "distinct (map String_ErrorCode all_codes)"
  by code_simp

lemma iota_less: "iota e < length all_codes"
  by (cases e) (simp_all add: all_codes_def)

text \<open>
  Every code prints a name of its own (two codes never print alike), but the timewarp code has no
  entry in the table of names and prints as an unknown code.
\<close>

theorem String_ErrorCode_names:
  "(String_ErrorCode a = String_ErrorCode b \<longleftrightarrow> a = b)
    \<and> (errorCodeStrings a = [] \<longleftrightarrow> a = ErrTimewarpAttack)
    \<and> String_ErrorCode ErrTimewarpAttack = ''Unknown ErrorCode (43)''"
proof -
  have "String_ErrorCode a = map String_ErrorCode all_codes ! iota a"
    "String_ErrorCode b = map String_ErrorCode all_codes ! iota b"
    by (simp_all add: iota_less nth_iota)
  then have "String_ErrorCode a = String_ErrorCode b \<longleftrightarrow> a = b"
    using nth_eq_iff_index_eq[OF String_distinct, of "iota a" "iota b"] by (auto simp: iota_less iota_inj)
  moreover have "String_ErrorCode ErrTimewarpAttack = ''Unknown ErrorCode (43)''" by code_simp
  ultimately show ?thesis by (simp add: errorCodeStrings_miss)
qed

end
