(* ===== verification/Chain_Params.thy ===== *)
theory Chain_Params
  imports Nogo_Prelude
begin

text \<open>
  The fields of \<open>chaincfg.Params\<close> that package \<open>blockchain\<close> reads, and the deployment numbers of
  package \<open>chaincfg\<close>.  The struct belongs to the module
  \<open>nogocommons\<close>, so a value of this record is an argument of every definition that uses it; nothing is
  assumed of its fields beyond what a theorem states.
\<close>

record Params =
  AnnualBlockCount :: int
  InitialBlockReward :: int
  MinimumBlockReward :: int
  GenesisAddressShare :: int
  GenesisHash :: hash
  PowLimit :: int
  PowLimitBits :: uint32
  CoinbaseMaturity :: int
  BIP0034Height :: int
  BIP0034Hash :: "hash option"
  BIP0065Height :: int
  BIP0066Height :: int
  RuleChangeActivationThreshold :: int
  MinerConfirmationWindow :: int
  EnforceBIP94 :: bool
  TargetTimespan :: int
  TargetTimePerBlock :: int
  RetargetAdjustmentFactor :: int
  GenesisDifficultyBits :: uint32
  DeploymentCSV :: nat
  DeploymentSegwit :: nat
  DeploymentTaproot :: nat

end
