(* ===== verification/Subsidy.thy ===== *)
theory Subsidy
  imports Complex_Main Chain_Params "HOL-Library.Log_Nat"
begin

text \<open>
  The block subsidy (subsidy.go).  The code computes in \<open>float64\<close>; here a finite non-negative
  \<open>float64\<close> is the rational number it denotes and every operation is followed by \<open>rnd64\<close>, rounding to
  nearest, ties to even, with 53 significant bits and the subnormal spacing \<open>2 ^ -1074\<close>.  \<open>math.Pow\<close>
  is the algorithm of the Go library for an integral exponent: repeated squaring of the fraction with
  the binary exponent kept apart.
\<close>

section \<open>IEEE double precision\<close>

text \<open>Rounding to an integer, ties to even.\<close>

definition round_even :: "rat \<Rightarrow> int" where
  "round_even q =
    (let f = \<lfloor>q\<rfloor>; r = q - of_int f
     in if r < 1 / 2 then f else if 1 / 2 < r then f + 1 else if even f then f else f + 1)"

text \<open>The binary exponent of a positive number: \<open>2 powi (exponent2 x) \<le> x < 2 powi (exponent2 x + 1)\<close>.\<close>

definition exponent2 :: "rat \<Rightarrow> int" where
  "exponent2 x =
    (let (n, d) = quotient_of x; e = int (floorlog 2 (nat n)) - int (floorlog 2 (nat d))
     in if x < 2 powi e then e - 1 else e)"

definition rnd64 :: "rat \<Rightarrow> rat" where
  "rnd64 x =
    (if x \<le> 0 then 0
     else let ulp = 2 powi (max (exponent2 x) (- 1022) - 52) in of_int (round_even (x / ulp)) * ulp)"

text \<open>
  The loop of \<open>math.Pow\<close> on the state \<open>(x1, xe, a1, ae)\<close> for the remaining exponent \<open>i\<close>, and the call
  for an integral exponent and a base whose \<open>Frexp\<close> is \<open>(x, 0)\<close>, that is, one in [0.5, 1).
\<close>

function pow_loop :: "nat \<Rightarrow> rat \<Rightarrow> int \<Rightarrow> rat \<Rightarrow> int \<Rightarrow> rat \<times> int" where
  "pow_loop i x1 xe a1 ae =
    (if i = 0 then (a1, ae)
     else if xe < - 4096 \<or> 4096 < xe then (a1, ae + xe)
     else let (a1, ae) = (if i mod 2 = 1 then (rnd64 (a1 * x1), ae + xe) else (a1, ae));
              x1 = rnd64 (x1 * x1);
              xe = 2 * xe;
              (x1, xe) = (if x1 < 1 / 2 then (rnd64 (x1 + x1), xe - 1) else (x1, xe))
          in pow_loop (i div 2) x1 xe a1 ae)"
  by pat_completeness auto
termination by (relation "measure (\<lambda>(i, _). i)") auto

declare pow_loop.simps [simp del]

definition Ldexp :: "rat \<Rightarrow> int \<Rightarrow> rat" where
  "Ldexp x e = rnd64 (x * 2 powi e)"

definition math_Pow :: "rat \<Rightarrow> nat \<Rightarrow> rat" where
  "math_Pow x y =
    (if y = 0 then 1 else if y = 1 then x else let (a1, ae) = pow_loop y x 0 1 0 in Ldexp a1 ae)"

text \<open>
  \<open>int64(f)\<close> for a non-negative float: truncation.  The language leaves the result open when it does not
  fit; the smallest integer is what amd64 yields.
\<close>

definition int64_of_float :: "rat \<Rightarrow> int" where
  "int64_of_float f = (if f < 2 ^ 63 then \<lfloor>f\<rfloor> else - (2 ^ 63))"

section \<open>The code\<close>

definition AtomsPerNogo :: int where "AtomsPerNogo = 100000000"

text \<open>The constant 0.9 as a \<open>float64\<close>.\<close>

definition subsidyReductionRate :: rat where
  "subsidyReductionRate = 8106479329266893 / 2 ^ 53"

definition minimumSubsidyAtoms :: int where "minimumSubsidyAtoms = 20000000"

definition genesisShareNumerator :: int where "genesisShareNumerator = 1"

definition genesisShareDenominator :: int where "genesisShareDenominator = 100"

text \<open>The three parameters with the defaults of the code.\<close>

definition annualBlocks :: "Params \<Rightarrow> int" where
  "annualBlocks params = (if AnnualBlockCount params \<le> 0 then 525600 else AnnualBlockCount params)"

definition initialReward :: "Params \<Rightarrow> int" where
  "initialReward params =
    (if InitialBlockReward params \<le> 0 then 8 * AtomsPerNogo else InitialBlockReward params)"

definition minReward :: "Params \<Rightarrow> int" where
  "minReward params =
    (if 0 < MinimumBlockReward params then MinimumBlockReward params else minimumSubsidyAtoms)"

definition CalcBlockSubsidy :: "int \<Rightarrow> Params \<Rightarrow> int" where
  "CalcBlockSubsidy height params =
    (if height \<le> 0 then 0
     else let years = nat (go_div (height - 1) (annualBlocks params));
              reward = rnd64 (rnd64 (of_int (initialReward params)) * math_Pow subsidyReductionRate years);
              minReward = rnd64 (of_int (minReward params));
              reward = (if reward < minReward then minReward else reward)
          in int64_of_float reward)"

definition CalcGenesisShare :: "int \<Rightarrow> Params \<Rightarrow> int" where
  "CalcGenesisShare height params =
    (let subsidy = CalcBlockSubsidy height params;
         share = (if GenesisAddressShare params \<le> 0 then genesisShareNumerator else GenesisAddressShare params)
     in go_div (i64 (subsidy * share)) genesisShareDenominator)"

definition CalcMinerSubsidy :: "int \<Rightarrow> Params \<Rightarrow> int" where
  "CalcMinerSubsidy height params = i64 (CalcBlockSubsidy height params - CalcGenesisShare height params)"

section \<open>Rounding respects integer bounds\<close>

lemma round_even_le: "q \<le> of_int n \<Longrightarrow> round_even q \<le> n"
proof -
  assume q: "q \<le> of_int n"
  have f: "of_int \<lfloor>q\<rfloor> \<le> q" "\<lfloor>q\<rfloor> \<le> n" using q by (simp_all add: floor_le_iff)
  show ?thesis
  proof (cases "\<lfloor>q\<rfloor> = n")
    case True
    then have "q = of_int n" using q f by simp
    then show ?thesis by (simp add: round_even_def)
  next
    case False
    then show ?thesis using f by (simp add: round_even_def Let_def)
  qed
qed

lemma round_even_ge: "of_int n \<le> q \<Longrightarrow> n \<le> round_even q"
  using le_floor_iff[of n q] by (auto simp: round_even_def Let_def)

lemma exponent2_le: "0 < x \<Longrightarrow> 2 powi exponent2 x \<le> x"
proof -
  assume x: "0 < x"
  obtain n d where nd: "quotient_of x = (n, d)" by (cases "quotient_of x")
  have d: "0 < d" and xq: "x = of_int n / of_int d"
    using quotient_of_denom_pos[OF nd] quotient_of_div[OF nd] by simp_all
  have n: "0 < n" using x d by (simp add: xq zero_less_divide_iff)
  define a b where "a = floorlog 2 (nat n)" and "b = floorlog 2 (nat d)"
  have ab: "2 ^ (a - 1) \<le> nat n" "0 < a" "nat d < 2 ^ b"
    using floorlog_bounds[of "nat n" 2] floorlog_bounds[of "nat d" 2] n d
    by (simp_all add: a_def b_def floorlog_eq_zero_iff zero_less_iff_neq_zero)
  then have "int (2 ^ (a - 1)) \<le> n" "d < int (2 ^ b)" using n d by (simp_all add: le_nat_iff nat_less_iff)
  then have "rat_of_int (int (2 ^ (a - 1))) \<le> of_int n" "rat_of_int d \<le> of_int (int (2 ^ b))"
    by (simp_all only: of_int_le_iff order.strict_implies_order)
  then have r: "2 ^ (a - 1) \<le> rat_of_int n" "rat_of_int d \<le> 2 ^ b" by simp_all
  have "(2 :: rat) powi (int a - int b - 1) = 2 ^ (a - 1) / 2 ^ b"
    using ab(2) by (simp add: power_int_diff of_nat_diff flip: power_int_of_nat)
  also have "\<dots> \<le> of_int n / of_int d" using r n d by (intro frac_le) simp_all
  also have "\<dots> = x" by (simp only: xq)
  finally show ?thesis
    by (simp add: exponent2_def nd Let_def a_def [symmetric] b_def [symmetric])
qed

text \<open>An integer below \<open>2 ^ 53\<close> is an upper (lower) bound of the rounded value if it is one of the value.\<close>

lemma ulp_divides:
  assumes "0 < x" "x < 2 ^ 53"
  obtains k where "2 powi (max (exponent2 x) (- 1022) - 52) = (1 :: rat) / 2 ^ k"
proof -
  have "2 powi exponent2 x < (2 :: rat) powi 53"
    using exponent2_le[OF assms(1)] assms(2) by simp
  then have "exponent2 x < 53"
    using power_int_increasing[of 53 "exponent2 x" "2 :: rat"] by (meson not_le one_le_numeral)
  then have "max (exponent2 x) (- 1022) - 52 = - int (nat (52 - max (exponent2 x) (- 1022)))" by simp
  then show thesis
    using that[of "nat (52 - max (exponent2 x) (- 1022))"]
    by (simp only: power_int_minus power_int_of_nat inverse_eq_divide)
qed

lemma rnd64_le:
  assumes "x \<le> of_int n" "0 \<le> n" "x < 2 ^ 53"
  shows "rnd64 x \<le> of_int n"
proof (cases "x \<le> 0")
  case False
  then obtain k where k: "2 powi (max (exponent2 x) (- 1022) - 52) = (1 :: rat) / 2 ^ k"
    using ulp_divides assms(3) by (metis not_le)
  have "x * 2 ^ k \<le> of_int (n * 2 ^ k)" using assms(1) by simp
  then have "rat_of_int (round_even (x * 2 ^ k)) \<le> of_int (n * 2 ^ k)"
    by (simp only: of_int_le_iff round_even_le)
  with False show ?thesis by (simp add: rnd64_def Let_def k field_simps)
qed (use assms(2) in \<open>simp add: rnd64_def\<close>)

lemma rnd64_ge:
  assumes "of_int n \<le> x" "0 \<le> n" "x < 2 ^ 53"
  shows "of_int n \<le> rnd64 x"
proof (cases "x \<le> 0")
  case False
  then obtain k where k: "2 powi (max (exponent2 x) (- 1022) - 52) = (1 :: rat) / 2 ^ k"
    using ulp_divides assms(3) by (metis not_le)
  have "of_int (n * 2 ^ k) \<le> x * 2 ^ k" using assms(1) by simp
  then have "rat_of_int (n * 2 ^ k) \<le> of_int (round_even (x * 2 ^ k))"
    by (simp only: of_int_le_iff round_even_ge)
  with False show ?thesis by (simp add: rnd64_def Let_def k field_simps)
qed (use assms(1) in \<open>simp add: rnd64_def\<close>)

lemma of_int_less_53: "n < 2 ^ 53 \<Longrightarrow> rat_of_int n < 2 ^ 53"
proof -
  assume "n < 2 ^ 53"
  then have "rat_of_int n < of_int (2 ^ 53)" by (simp only: of_int_less_iff)
  then show ?thesis by simp
qed

lemma rnd64_int: "0 \<le> n \<Longrightarrow> n < 2 ^ 53 \<Longrightarrow> rnd64 (of_int n) = of_int n"
  by (intro antisym rnd64_le rnd64_ge of_int_less_53) simp_all

lemma rnd64_nonneg: "0 \<le> rnd64 x"
proof (cases "x \<le> 0")
  case False
  then have "0 \<le> round_even (x / 2 powi (max (exponent2 x) (- 1022) - 52))"
    by (intro round_even_ge) simp
  with False show ?thesis by (simp add: rnd64_def Let_def)
qed (simp add: rnd64_def)

lemma rnd64_unit: "0 \<le> x \<Longrightarrow> x \<le> 1 \<Longrightarrow> 0 \<le> rnd64 x \<and> rnd64 x \<le> 1"
  using rnd64_le[of x 1] rnd64_nonneg[of x] by simp

section \<open>The power of the reduction rate\<close>

lemma pow_loop_unit:
  assumes "0 \<le> x1" "x1 \<le> 1" "xe \<le> 0" "0 \<le> a1" "a1 \<le> 1" "ae \<le> 0"
  shows "case pow_loop i x1 xe a1 ae of (a, e) \<Rightarrow> 0 \<le> a \<and> a \<le> 1 \<and> e \<le> 0"
  using assms
proof (induction i x1 xe a1 ae rule: pow_loop.induct)
  case (1 i x1 xe a1 ae)
  have a: "0 \<le> rnd64 (a1 * x1) \<and> rnd64 (a1 * x1) \<le> 1"
    using "1.prems" by (intro rnd64_unit) (simp_all add: mult_le_one)
  have x: "0 \<le> rnd64 (x1 * x1) \<and> rnd64 (x1 * x1) \<le> 1"
    using "1.prems" by (intro rnd64_unit) (simp_all add: mult_le_one)
  have d: "0 \<le> rnd64 (rnd64 (x1 * x1) + rnd64 (x1 * x1)) \<and> rnd64 (rnd64 (x1 * x1) + rnd64 (x1 * x1)) \<le> 1"
    if "rnd64 (x1 * x1) < 1 / 2" using that x by (intro rnd64_unit) simp_all
  show ?case
  proof (cases "i = 0 \<or> xe < - 4096 \<or> 4096 < xe")
    case True
    then show ?thesis using "1.prems" by (subst pow_loop.simps) auto
  next
    case False
    obtain A AE where A: "(A, AE) = (if i mod 2 = 1 then (rnd64 (a1 * x1), ae + xe) else (a1, ae))"
      by (metis surj_pair)
    obtain X XE where X: "(X, XE) = (if rnd64 (x1 * x1) < 1 / 2
        then (rnd64 (rnd64 (x1 * x1) + rnd64 (x1 * x1)), 2 * xe - 1) else (rnd64 (x1 * x1), 2 * xe))"
      by (metis surj_pair)
    have "pow_loop i x1 xe a1 ae = pow_loop (i div 2) X XE A AE"
      using False by (subst pow_loop.simps) (simp only: Let_def A [symmetric] X [symmetric] prod.case, simp)
    moreover have "0 \<le> X" "X \<le> 1" "XE \<le> 0" "0 \<le> A" "A \<le> 1" "AE \<le> 0"
      using X A "1.prems" a x d by (auto split: if_splits)
    ultimately show ?thesis using "1.IH"[OF _ _ refl A refl refl refl X] False by simp
  qed
qed

lemma math_Pow_unit: "0 \<le> x \<Longrightarrow> x \<le> 1 \<Longrightarrow> 0 \<le> math_Pow x y \<and> math_Pow x y \<le> 1"
proof -
  assume x: "0 \<le> x" "x \<le> 1"
  obtain a e where ae: "pow_loop y x 0 1 0 = (a, e)" by (cases "pow_loop y x 0 1 0")
  then have a: "0 \<le> a" "a \<le> 1" "e \<le> 0" using pow_loop_unit[of x 0 1 0 y] x by simp_all
  have "(2 :: rat) powi e \<le> 2 powi 0" using a(3) by (intro power_int_increasing) simp_all
  then have "0 \<le> a * 2 powi e" "a * 2 powi e \<le> 1" using a by (simp_all add: mult_le_one)
  then have "0 \<le> Ldexp a e \<and> Ldexp a e \<le> 1" unfolding Ldexp_def by (rule rnd64_unit)
  then show ?thesis using x by (simp add: math_Pow_def ae)
qed

section \<open>Properties of the subsidy\<close>

lemma subsidy_bounds:
  assumes "0 < height" "initialReward params < 2 ^ 53" "minReward params < 2 ^ 53"
  shows "minReward params \<le> CalcBlockSubsidy height params
    \<and> CalcBlockSubsidy height params \<le> max (initialReward params) (minReward params)"
proof -
  let ?i = "initialReward params" and ?m = "minReward params"
  let ?p = "math_Pow subsidyReductionRate (nat (go_div (height - 1) (annualBlocks params)))"
  let ?r = "rnd64 (of_int ?i * ?p)"
  let ?R = "if ?r < of_int ?m then of_int ?m else ?r"
  have pos: "0 < ?i" "0 < ?m"
    by (simp_all add: initialReward_def minReward_def AtomsPerNogo_def minimumSubsidyAtoms_def)
  have rd: "rnd64 (of_int ?i) = of_int ?i" "rnd64 (of_int ?m) = of_int ?m"
    using pos assms by (simp_all add: rnd64_int)
  have "0 \<le> ?p \<and> ?p \<le> 1" by (rule math_Pow_unit) (simp_all add: subsidyReductionRate_def)
  then have le: "of_int ?i * ?p \<le> of_int ?i" using pos by (simp add: mult_left_le)
  have lt: "rat_of_int ?i < 2 ^ 53" using assms(2) by (rule of_int_less_53)
  have "?r \<le> of_int ?i"
    by (rule rnd64_le[OF le _ order.strict_trans1[OF le lt]]) (use pos in simp)
  then have R: "of_int ?m \<le> ?R" "?R \<le> of_int (max ?i ?m)" by auto
  have "rat_of_int (max ?i ?m) < rat_of_int (2 ^ 63)" using assms by (simp only: of_int_less_iff) simp
  with R(2) have "?R < rat_of_int (2 ^ 63)" by (rule order.strict_trans1)
  then have "?R < 2 ^ 63" by (simp only: of_int_power of_int_numeral)
  then have "CalcBlockSubsidy height params = \<lfloor>?R\<rfloor>"
    using assms(1) by (simp add: CalcBlockSubsidy_def Let_def rd int64_of_float_def)
  moreover have "?m \<le> \<lfloor>?R\<rfloor>" using R by (simp only: le_floor_iff)
  moreover have "\<lfloor>?R\<rfloor> \<le> max ?i ?m" using floor_mono[OF R(2)] by (simp only: floor_of_int)
  ultimately show ?thesis by simp
qed

lemma subsidy_range:
  assumes "initialReward params < 2 ^ 53" "minReward params < 2 ^ 53"
  shows "0 \<le> CalcBlockSubsidy height params \<and> CalcBlockSubsidy height params < 2 ^ 53"
proof (cases "0 < height")
  case True
  have "0 < minReward params" by (simp add: minReward_def minimumSubsidyAtoms_def)
  then show ?thesis using subsidy_bounds[OF True assms] assms by linarith
next
  case False
  then show ?thesis by (simp add: CalcBlockSubsidy_def)
qed

text \<open>
  For every height above zero the subsidy stays between the floor reward and the initial reward,
  whatever the rounding of the floating-point power; below that it is zero.
\<close>

theorem CalcBlockSubsidy_bounds:
  assumes "initialReward params < 2 ^ 53" "minReward params < 2 ^ 53"
  shows "if 0 < height
    then minReward params \<le> CalcBlockSubsidy height params
      \<and> CalcBlockSubsidy height params \<le> max (initialReward params) (minReward params)
    else CalcBlockSubsidy height params = 0"
  using subsidy_bounds[OF _ assms] by (simp add: CalcBlockSubsidy_def)

definition sample_params :: Params where
  "sample_params = \<lparr>AnnualBlockCount = 525600, InitialBlockReward = 800000000,
    MinimumBlockReward = 20000000, GenesisAddressShare = 1, GenesisHash = [], PowLimit = 2 ^ 255 - 1,
    PowLimitBits = 0x207fffff, CoinbaseMaturity = 100, BIP0034Height = 1, BIP0034Hash = None,
    BIP0065Height = 1, BIP0066Height = 1, RuleChangeActivationThreshold = 1916,
    MinerConfirmationWindow = 2016, EnforceBIP94 = True, TargetTimespan = 1209600,
    TargetTimePerBlock = 60, RetargetAdjustmentFactor = 4, GenesisDifficultyBits = 0x207fffff,
    DeploymentCSV = 0, DeploymentSegwit = 1, DeploymentTaproot = 2\<rparr>"

theorem CalcBlockSubsidy_bounds_witness:
  "20000000 \<le> CalcBlockSubsidy 2000000 sample_params \<and> CalcBlockSubsidy 2000000 sample_params \<le> 800000000"
  using CalcBlockSubsidy_bounds[of sample_params 2000000]
  by (simp add: sample_params_def initialReward_def minReward_def)

text \<open>
  For a genesis share of at most 100 percent the miner's part and the genesis part are both
  non-negative and add up to the subsidy, without overflow in the 64-bit product.
\<close>

theorem subsidy_split:
  assumes "initialReward params < 2 ^ 53" "minReward params < 2 ^ 53" "GenesisAddressShare params \<le> 100"
  shows "CalcMinerSubsidy height params + CalcGenesisShare height params = CalcBlockSubsidy height params
    \<and> 0 \<le> CalcGenesisShare height params \<and> 0 \<le> CalcMinerSubsidy height params
    \<and> CalcGenesisShare height params =
        CalcBlockSubsidy height params * (if GenesisAddressShare params \<le> 0 then 1 else GenesisAddressShare params) div 100"
proof -
  define s where "s = (if GenesisAddressShare params \<le> 0 then 1 else GenesisAddressShare params)"
  define S where "S = CalcBlockSubsidy height params"
  have s: "0 < s" "s \<le> 100" using assms(3) by (simp_all add: s_def)
  have S: "0 \<le> S" "S < 2 ^ 53" using subsidy_range[OF assms(1,2)] by (simp_all add: S_def)
  have le: "S * s \<le> S * 100" using S s by (intro mult_left_mono) simp_all
  moreover have "0 \<le> S * s" using S s by simp
  ultimately have wrap: "i64 (S * s) = S * s" using S by (intro i64_id) simp_all
  have g: "CalcGenesisShare height params = S * s div 100"
    unfolding CalcGenesisShare_def Let_def S_def [symmetric] genesisShareNumerator_def
      genesisShareDenominator_def s_def [symmetric] wrap
    using \<open>0 \<le> S * s\<close> by (simp add: go_div_nonneg)
  have "0 \<le> S * s div 100" using S s by (simp add: pos_imp_zdiv_nonneg_iff)
  moreover have "S * s div 100 \<le> S" using zdiv_mono1[OF le, of 100] by simp
  moreover from calculation have "CalcMinerSubsidy height params = S - S * s div 100"
    unfolding CalcMinerSubsidy_def g S_def [symmetric] using S by (intro i64_id) simp_all
  ultimately show ?thesis using g by (simp only: S_def [symmetric] s_def [symmetric]) simp
qed

theorem subsidy_split_witness:
  "CalcMinerSubsidy 1 sample_params + CalcGenesisShare 1 sample_params = CalcBlockSubsidy 1 sample_params
    \<and> 0 \<le> CalcGenesisShare 1 sample_params \<and> 0 \<le> CalcMinerSubsidy 1 sample_params"
  using subsidy_split[of sample_params 1]
  by (simp add: sample_params_def initialReward_def minReward_def)

end
