(* ===== verification/Vlq.thy ===== *)
theory Vlq
  imports Nogo_Prelude
begin

text \<open>
  The variable-length quantities of compress.go.  Encoding writes into a caller's slice and panics when
  the slice is too short (\<open>None\<close>); \<open>vlq\<close> is the byte string it writes, and the lemmas relate the
  in-place loop, the size function and the decoder to it.  The locale \<open>stream_codec\<close> is the contract
  every byte format of the database has: decoding an encoding followed by anything gives the value and
  the number of bytes consumed.
\<close>

section \<open>The code\<close>

function serializeSizeVLQ_loop :: "nat \<Rightarrow> uint64 \<Rightarrow> nat" where
  "serializeSizeVLQ_loop sz n =
    (if n > 0x7f then serializeSizeVLQ_loop (sz + 1) (drop_bit 7 n - 1) else sz)"
  by pat_completeness auto

definition serializeSizeVLQ :: "uint64 \<Rightarrow> nat" where
  "serializeSizeVLQ n = serializeSizeVLQ_loop 1 n"

function putVLQ_loop :: "byte list \<Rightarrow> nat \<Rightarrow> uint64 \<Rightarrow> (byte list \<times> nat) option" where
  "putVLQ_loop target offset n =
    (if length target \<le> offset then None
     else let highBitMask = (if offset = 0 then 0x00 else 0x80);
              target = target[offset := ucast (n AND 0x7f) OR highBitMask]
          in if n \<le> 0x7f then Some (target, offset)
             else putVLQ_loop target (offset + 1) (drop_bit 7 n - 1))"
  by pat_completeness auto
termination by (relation "measure (\<lambda>(t, i, _). length t - i)") auto

definition putVLQ :: "byte list \<Rightarrow> uint64 \<Rightarrow> (byte list \<times> nat) option" where
  "putVLQ target n =
    (case putVLQ_loop target 0 n of
       None \<Rightarrow> None
     | Some (target, offset) \<Rightarrow> Some (reverse_in_place (offset + 1) target, offset + 1))"

fun deserializeVLQ_loop :: "uint64 \<Rightarrow> nat \<Rightarrow> byte list \<Rightarrow> uint64 \<times> nat" where
  "deserializeVLQ_loop n sz [] = (n, sz)"
| "deserializeVLQ_loop n sz (val # vals) =
    (let sz = sz + 1;
         n = push_bit 7 n OR ucast (val AND 0x7f)
     in if val AND 0x80 \<noteq> 0x80 then (n, sz) else deserializeVLQ_loop (n + 1) sz vals)"

definition deserializeVLQ :: "byte list \<Rightarrow> uint64 \<times> nat" where
  "deserializeVLQ serialized = deserializeVLQ_loop 0 0 serialized"

section \<open>Termination\<close>

lemma vlq_shift_less: "n > 0x7f \<Longrightarrow> unat (drop_bit 7 n - 1) < unat n" for n :: uint64
proof -
  assume "n > 0x7f"
  then have n: "128 \<le> unat n" by (simp add: word_less_nat_alt)
  then have "1 \<le> unat (drop_bit 7 n)" by (simp add: unat_drop_bit)
  then have "unat (drop_bit 7 n - 1) = unat n div 128 - 1"
    by (simp add: unat_sub word_le_nat_alt unat_drop_bit)
  then show ?thesis using n by linarith
qed

termination serializeSizeVLQ_loop
  by (relation "measure (\<lambda>(_, n). unat n)") (auto intro: vlq_shift_less)

declare serializeSizeVLQ_loop.simps [simp del] putVLQ_loop.simps [simp del]

section \<open>The encoding as a byte string\<close>

text \<open>Least significant group first; \<open>hi\<close> is the continuation bit of the first group.\<close>

function vlq_rev :: "byte \<Rightarrow> uint64 \<Rightarrow> byte list" where
  "vlq_rev hi n = (ucast (n AND 0x7f) OR hi) # (if n > 0x7f then vlq_rev 0x80 (drop_bit 7 n - 1) else [])"
  by pat_completeness auto
termination by (relation "measure (\<lambda>(_, n). unat n)") (auto intro: vlq_shift_less)

declare vlq_rev.simps [simp del]

definition vlq :: "uint64 \<Rightarrow> byte list" where
  "vlq n = rev (vlq_rev 0 n)"

lemma vlq_rev_nonempty [simp]: "0 < length (vlq_rev hi n)" "vlq_rev hi n \<noteq> []"
  by (subst vlq_rev.simps, simp)+

lemma length_vlq_pos [simp]: "0 < length (vlq n)" "vlq n \<noteq> []"
  by (simp_all add: vlq_def)

lemma length_vlq_rev_hi: "length (vlq_rev hi n) = length (vlq_rev hi' n)"
  by (subst (1 2) vlq_rev.simps) simp

lemma serializeSizeVLQ_loop_length: "serializeSizeVLQ_loop sz n + 1 = sz + length (vlq_rev hi n)"
proof (induction sz n arbitrary: hi rule: serializeSizeVLQ_loop.induct)
  case (1 sz n)
  then show ?case by (subst serializeSizeVLQ_loop.simps, subst vlq_rev.simps) simp
qed

lemma serializeSizeVLQ_length: "serializeSizeVLQ n = length (vlq n)"
  using serializeSizeVLQ_loop_length[of 1 n 0] by (simp add: serializeSizeVLQ_def vlq_def)

lemma length_vlq_rev_bound: "unat n < 128 ^ k \<Longrightarrow> 0 < k \<Longrightarrow> length (vlq_rev hi n) \<le> k"
proof (induction k arbitrary: hi n)
  case (Suc k)
  show ?case
  proof (cases "n > 0x7f")
    case True
    then have "128 \<le> unat n" by (simp add: word_less_nat_alt)
    with Suc.prems have "0 < k" by (cases k) simp_all
    have "1 \<le> drop_bit 7 n" using \<open>128 \<le> unat n\<close> by (simp add: word_le_nat_alt unat_drop_bit)
    then have "unat (drop_bit 7 n - 1) = unat n div 128 - 1" by (simp add: unat_sub unat_drop_bit)
    also have "\<dots> < 128 ^ k" using Suc.prems(1) by (simp add: less_imp_diff_less div_less_iff_less_mult mult.commute)
    finally show ?thesis using Suc.IH[of "drop_bit 7 n - 1" "0x80"] \<open>0 < k\<close> by (subst vlq_rev.simps) simp
  next
    case False
    then show ?thesis by (subst vlq_rev.simps) simp
  qed
qed simp

lemma length_vlq_bound: "length (vlq n) \<le> 10"
  using length_vlq_rev_bound[of n 10 0] unsigned_less[where 'a = nat, of n] by (simp add: vlq_def)

lemma putVLQ_loop_eq:
  "putVLQ_loop target offset n =
    (let bs = vlq_rev (if offset = 0 then 0 else 0x80) n
     in if offset + length bs \<le> length target
        then Some (take offset target @ bs @ drop (offset + length bs) target, offset + length bs - 1)
        else None)"
proof (induction target offset n rule: putVLQ_loop.induct)
  case (1 target offset n)
  show ?case
  proof (cases "length target \<le> offset")
    case True
    then have "\<not> offset + length (vlq_rev h n) \<le> length target" for h
      using vlq_rev_nonempty(1)[of h n] by linarith
    with True show ?thesis by (subst putVLQ_loop.simps) (simp only: Let_def if_True if_False)
  next
    case False
    define b where "b = (ucast (n AND 0x7f) OR (if offset = 0 then 0x00 else 0x80) :: byte)"
    have upd: "target[offset := b] = take offset target @ b # drop (offset + 1) target"
      using False by (simp add: upd_conv_take_nth_drop)
    show ?thesis
    proof (cases "n \<le> 0x7f")
      case True
      with False show ?thesis
        by (subst putVLQ_loop.simps, subst vlq_rev.simps) (simp add: Let_def b_def [symmetric] upd)
    next
      case n: False
      note IH = "1.IH"[OF False refl refl n, folded b_def, unfolded upd]
      from IH False n show ?thesis
        by (subst putVLQ_loop.simps, subst vlq_rev.simps)
          (simp add: Let_def b_def [symmetric] upd not_le min_def, auto simp: add.commute)
    qed
  qed
qed

lemma reverse_in_place_prefix: "reverse_in_place (length xs) (xs @ ys) = rev xs @ ys"
proof (rule nth_equalityI)
  fix i
  assume "i < length (reverse_in_place (length xs) (xs @ ys))"
  then have i: "i < length (xs @ ys)" by (simp add: reverse_in_place_def)
  have mid: "length xs - 1 - i = i"
    if "i < length xs" "\<not> i < length xs div 2" "\<not> length xs - length xs div 2 \<le> i" using that by linarith
  show "reverse_in_place (length xs) (xs @ ys) ! i = (rev xs @ ys) ! i"
    using i mid by (auto simp: reverse_in_place_def nth_fold_swap_ends rev_nth nth_append)
qed (simp add: reverse_in_place_def)

lemma putVLQ_eq:
  "putVLQ target n =
    (if length (vlq n) \<le> length target
     then Some (vlq n @ drop (length (vlq n)) target, length (vlq n)) else None)"
  using reverse_in_place_prefix[of "vlq_rev 0 n" "drop (length (vlq_rev 0 n)) target"]
  by (simp add: putVLQ_def putVLQ_loop_eq Let_def vlq_def)

section \<open>Decoding\<close>

lemma vlq_masks: "(0x7f :: uint64) = mask 7" "(0x7f :: byte) = mask 7"
  by (simp_all add: mask_eq_exp_minus_1)

lemma bit_0x80: "bit (0x80 :: 'a::semiring_bit_operations) k \<longleftrightarrow> possible_bit TYPE('a) k \<and> k = 7"
  using bit_exp_iff[where 'a = 'a, of 7 k] by auto

lemma vlq_regroup: "push_bit 7 (drop_bit 7 n) OR (n AND 0x7f) = (n :: uint64)"
  unfolding vlq_masks by (auto intro!: bit_word_eqI simp: bit_simps)

lemma vlq_small: "n \<le> 0x7f \<Longrightarrow> n AND 0x7f = n" for n :: uint64
proof -
  assume "n \<le> 0x7f"
  then have "unat n mod 2 ^ 7 = unat n" by (simp add: word_le_nat_alt)
  then show ?thesis unfolding vlq_masks by (simp only: word_unat_eq_iff unat_and_mask)
qed

lemma vlq_group:
  assumes "hi = 0 \<or> hi = 0x80"
  shows "ucast (((ucast (n AND 0x7f) :: byte) OR hi) AND 0x7f) = (n AND 0x7f :: uint64)"
    and "((ucast (n AND 0x7f :: uint64) :: byte) OR hi) AND 0x80 = hi"
proof -
  show "ucast (((ucast (n AND 0x7f) :: byte) OR hi) AND 0x7f) = (n AND 0x7f :: uint64)"
    using assms unfolding vlq_masks by (auto intro!: bit_word_eqI simp: bit_simps bit_0x80)
  show "((ucast (n AND 0x7f :: uint64) :: byte) OR hi) AND 0x80 = hi"
    using assms unfolding vlq_masks by (auto intro!: bit_word_eqI simp: bit_simps bit_0x80)
qed

lemma deserialize_continued:
  "deserializeVLQ_loop 0 sz (rev (vlq_rev 0x80 n) @ rest) =
    deserializeVLQ_loop (n + 1) (sz + length (vlq_rev 0x80 n)) rest"
proof (induction "0x80 :: byte" n arbitrary: sz rest rule: vlq_rev.induct)
  case (1 n)
  show ?case
  proof (cases "n > 0x7f")
    case True
    then have "drop_bit 7 n - 1 + 1 = drop_bit 7 n" by simp
    with True 1 vlq_regroup[of n] vlq_group[of "0x80" n] show ?thesis
      by (subst (1 2) vlq_rev.simps) (simp add: Let_def)
  next
    case False
    then have "n AND 0x7f = n" by (intro vlq_small) (simp add: not_less)
    with False vlq_group[of "0x80" n] show ?thesis
      by (subst (1 2) vlq_rev.simps) (simp add: Let_def)
  qed
qed

lemma deserializeVLQ_vlq: "deserializeVLQ (vlq n @ rest) = (n, length (vlq n))"
proof (cases "n > 0x7f")
  case True
  then have "drop_bit 7 n - 1 + 1 = drop_bit 7 n" by simp
  with True vlq_regroup[of n] vlq_group[of 0 n] show ?thesis
    unfolding deserializeVLQ_def vlq_def
    by (subst (1 2) vlq_rev.simps) (simp add: Let_def deserialize_continued)
next
  case False
  then have "n AND 0x7f = n" by (intro vlq_small) (simp add: not_less)
  with False vlq_group[of 0 n] show ?thesis
    unfolding deserializeVLQ_def vlq_def by (subst (1 2) vlq_rev.simps) (simp add: Let_def)
qed

lemma deserializeVLQ_loop_bound:
  "sz \<le> snd (deserializeVLQ_loop n sz bs) \<and> snd (deserializeVLQ_loop n sz bs) \<le> sz + length bs"
proof (induction n sz bs rule: deserializeVLQ_loop.induct)
  case (2 n sz val vals)
  show ?case using "2"[OF refl refl] by (auto simp: Let_def)
qed simp

lemma deserializeVLQ_bound: "snd (deserializeVLQ bs) \<le> length bs" "bs \<noteq> [] \<Longrightarrow> 0 < snd (deserializeVLQ bs)"
proof -
  show "snd (deserializeVLQ bs) \<le> length bs"
    using deserializeVLQ_loop_bound[of 0 0 bs] by (simp add: deserializeVLQ_def)
  show "0 < snd (deserializeVLQ bs)" if "bs \<noteq> []"
    using that deserializeVLQ_loop_bound[of 1 _ "tl bs"]
    by (cases bs) (auto simp: deserializeVLQ_def Let_def intro: less_le_trans[OF _ conjunct1[OF deserializeVLQ_loop_bound]])
qed

section \<open>Byte formats\<close>

text \<open>
  A byte format: \<open>valid\<close> values are encoded by \<open>enc\<close>, and \<open>dec\<close>, given an encoding followed by other
  data, returns the value and the length of the encoding.
\<close>

locale stream_codec =
  fixes enc :: "'a \<Rightarrow> byte list"
    and dec :: "byte list \<Rightarrow> 'e + 'a \<times> nat"
    and valid :: "'a \<Rightarrow> bool"
  assumes dec_enc: "valid x \<Longrightarrow> dec (enc x @ rest) = Inr (x, length (enc x))"
begin

lemma enc_inj: "valid x \<Longrightarrow> valid y \<Longrightarrow> enc x = enc y \<Longrightarrow> x = y"
  using dec_enc[of x "[]"] dec_enc[of y "[]"] by simp

text \<open>No valid encoding is a proper prefix of another one.\<close>

lemma enc_prefix_free:
  assumes "valid x" "valid y" "enc x @ r = enc y @ s"
  shows "x = y \<and> r = s"
  using dec_enc[OF assms(1), of r] dec_enc[OF assms(2), of s] assms(3) by simp

end

definition decodeVLQ :: "byte list \<Rightarrow> unit + uint64 \<times> nat" where
  "decodeVLQ bs = Inr (deserializeVLQ bs)"

interpretation vlq: stream_codec vlq decodeVLQ "\<lambda>_. True"
  by unfold_locales (simp add: decodeVLQ_def deserializeVLQ_vlq)

section \<open>Properties\<close>

text \<open>
  Writing a quantity into a slice panics exactly when the slice is shorter than the announced size;
  otherwise it writes that many bytes, leaves the others unchanged, and reading the slice gives back the
  quantity and the size.
\<close>

theorem putVLQ_roundtrip:
  "if length target < serializeSizeVLQ n then putVLQ target n = None
   else \<exists>target'. putVLQ target n = Some (target', serializeSizeVLQ n)
     \<and> length target' = length target
     \<and> drop (serializeSizeVLQ n) target' = drop (serializeSizeVLQ n) target
     \<and> deserializeVLQ target' = (n, serializeSizeVLQ n)"
  by (simp add: putVLQ_eq serializeSizeVLQ_length deserializeVLQ_vlq not_less)

text \<open>
  Every quantity has its own encoding and no encoding is a prefix of another, so a sequence of
  quantities can be read back without separators.
\<close>

lemma vlq_unique:
  "vlq m @ r = vlq n @ s \<longleftrightarrow> m = n \<and> r = s"
  using vlq.enc_prefix_free[where x = m and y = n] by auto

end
