(* ===== verification/Compress.thy ===== *)
theory Compress
  imports Vlq Errors "HOL-Library.Monad_Syntax"
begin

text \<open>
  The compressed form of scripts, amounts and transaction outputs (compress.go).  Writing into a slice
  that is too short, and slicing out of range, is a panic: \<open>None\<close>, or \<open>Panic\<close> where the code also returns
  errors.  A slice has the capacity of its length.  \<open>nogoec.ParsePubKey\<close> and
  \<open>PublicKey.SerializeUncompressed\<close> are parameters; \<open>pubkey_lib\<close> states what the format relies on: the
  compressed form of a valid uncompressed key parses to the same key, which serializes as given.
\<close>

section \<open>Slices\<close>

definition slice_set :: "'a list \<Rightarrow> nat \<Rightarrow> 'a \<Rightarrow> 'a list option" where
  "slice_set t i b = (if i < length t then Some (t[i := b]) else None)"

text \<open>\<open>t[lo:hi]\<close> and \<open>copy(t[lo:hi], src)\<close>.\<close>

definition slice :: "'a list \<Rightarrow> nat \<Rightarrow> nat \<Rightarrow> 'a list option" where
  "slice t lo hi = (if lo \<le> hi \<and> hi \<le> length t then Some (take (hi - lo) (drop lo t)) else None)"

definition slice_copy :: "'a list \<Rightarrow> nat \<Rightarrow> nat \<Rightarrow> 'a list \<Rightarrow> 'a list option" where
  "slice_copy t lo hi src =
    (if lo \<le> hi \<and> hi \<le> length t
     then Some (take lo t @ take (hi - lo) src @ drop (lo + min (hi - lo) (length src)) t) else None)"

text \<open>The first \<open>n\<close> bytes of a zeroed buffer after copying \<open>src\<close> into it.\<close>

definition pad_to :: "nat \<Rightarrow> byte list \<Rightarrow> byte list" where
  "pad_to n src = take n src @ replicate (n - length src) 0"

section \<open>Scripts\<close>

definition OP_DUP :: byte where "OP_DUP = 0x76"
definition OP_HASH160 :: byte where "OP_HASH160 = 0xa9"
definition OP_DATA_20 :: byte where "OP_DATA_20 = 0x14"
definition OP_EQUALVERIFY :: byte where "OP_EQUALVERIFY = 0x88"
definition OP_CHECKSIG :: byte where "OP_CHECKSIG = 0xac"
definition OP_EQUAL :: byte where "OP_EQUAL = 0x87"
definition OP_DATA_33 :: byte where "OP_DATA_33 = 0x21"
definition OP_DATA_65 :: byte where "OP_DATA_65 = 0x41"

definition numSpecialScripts :: nat where "numSpecialScripts = 6"

text \<open>The pair \<open>(bool, []byte)\<close> of the recognisers is an option.\<close>

definition isPubKeyHash :: "byte list \<Rightarrow> byte list option" where
  "isPubKeyHash script =
    (if length script = 25 \<and> script ! 0 = OP_DUP \<and> script ! 1 = OP_HASH160 \<and> script ! 2 = OP_DATA_20
        \<and> script ! 23 = OP_EQUALVERIFY \<and> script ! 24 = OP_CHECKSIG
     then Some (take 20 (drop 3 script)) else None)"

definition isScriptHash :: "byte list \<Rightarrow> byte list option" where
  "isScriptHash script =
    (if length script = 23 \<and> script ! 0 = OP_HASH160 \<and> script ! 1 = OP_DATA_20 \<and> script ! 22 = OP_EQUAL
     then Some (take 20 (drop 2 script)) else None)"

definition isPubKey :: "(byte list \<Rightarrow> 'pk option) \<Rightarrow> byte list \<Rightarrow> byte list option" where
  "isPubKey ParsePubKey script =
    (if length script = 35 \<and> script ! 0 = OP_DATA_33 \<and> script ! 34 = OP_CHECKSIG
        \<and> (script ! 1 = 0x02 \<or> script ! 1 = 0x03) \<and> ParsePubKey (take 33 (drop 1 script)) \<noteq> None
     then Some (take 33 (drop 1 script))
     else if length script = 67 \<and> script ! 0 = OP_DATA_65 \<and> script ! 66 = OP_CHECKSIG
        \<and> script ! 1 = 0x04 \<and> ParsePubKey (take 65 (drop 1 script)) \<noteq> None
     then Some (take 65 (drop 1 script))
     else None)"

definition compressedScriptSize :: "(byte list \<Rightarrow> 'pk option) \<Rightarrow> byte list \<Rightarrow> nat" where
  "compressedScriptSize ParsePubKey pkScript =
    (if isPubKeyHash pkScript \<noteq> None then 21
     else if isScriptHash pkScript \<noteq> None then 21
     else if isPubKey ParsePubKey pkScript \<noteq> None then 33
     else serializeSizeVLQ (of_nat (length pkScript + numSpecialScripts)) + length pkScript)"

definition decodeCompressedScriptSize :: "byte list \<Rightarrow> int" where
  "decodeCompressedScriptSize serialized =
    (let (scriptSize, bytesRead) = deserializeVLQ serialized
     in if bytesRead = 0 then 0
        else if scriptSize = 0 then 21
        else if scriptSize = 1 then 21
        else if scriptSize = 2 \<or> scriptSize = 3 \<or> scriptSize = 4 \<or> scriptSize = 5 then 33
        else sint (scriptSize - of_nat numSpecialScripts + of_nat bytesRead))"

definition putCompressedScript ::
  "(byte list \<Rightarrow> 'pk option) \<Rightarrow> byte list \<Rightarrow> byte list \<Rightarrow> (byte list \<times> nat) option" where
  "putCompressedScript ParsePubKey target pkScript =
    (let general = do {
           (target, vlqSizeLen) \<leftarrow> putVLQ target (of_nat (length pkScript + numSpecialScripts));
           target \<leftarrow> slice_copy target vlqSizeLen (length target) pkScript;
           Some (target, vlqSizeLen + length pkScript) };
         special = (\<lambda>tag body n. do {
           target \<leftarrow> slice_set target 0 tag;
           target \<leftarrow> slice_copy target 1 n body;
           Some (target, n) })
     in case isPubKeyHash pkScript of
          Some h \<Rightarrow> special 0 h 21
        | None \<Rightarrow> (case isScriptHash pkScript of
            Some h \<Rightarrow> special 1 h 21
          | None \<Rightarrow> (case isPubKey ParsePubKey pkScript of
              Some key \<Rightarrow>
                if key ! 0 = 0x02 \<or> key ! 0 = 0x03 then special (key ! 0) (take 32 (drop 1 key)) 33
                else if key ! 0 = 0x04
                then special (key ! 0 OR (key ! 64 AND 0x01)) (take 32 (drop 1 key)) 33
                else general
            | None \<Rightarrow> general)))"

text \<open>A \<open>nil\<close> script is the empty list.\<close>

definition decompressScript ::
  "(byte list \<Rightarrow> 'pk option) \<Rightarrow> ('pk \<Rightarrow> byte list) \<Rightarrow> byte list \<Rightarrow> byte list option" where
  "decompressScript ParsePubKey SerializeUncompressed c =
    (if c = [] then Some []
     else let (encodedScriptSize, bytesRead) = deserializeVLQ c
     in if encodedScriptSize = 0 then do {
          h \<leftarrow> slice c bytesRead (bytesRead + 20);
          Some ([OP_DUP, OP_HASH160, OP_DATA_20] @ h @ [OP_EQUALVERIFY, OP_CHECKSIG]) }
        else if encodedScriptSize = 1 then do {
          h \<leftarrow> slice c bytesRead (bytesRead + 20);
          Some ([OP_HASH160, OP_DATA_20] @ h @ [OP_EQUAL]) }
        else if encodedScriptSize = 2 \<or> encodedScriptSize = 3 then do {
          x \<leftarrow> slice c bytesRead (bytesRead + 32);
          Some ([OP_DATA_33, ucast encodedScriptSize] @ x @ [OP_CHECKSIG]) }
        else if encodedScriptSize = 4 \<or> encodedScriptSize = 5 then
          (case ParsePubKey (ucast (encodedScriptSize - 2) # pad_to 32 (drop 1 c)) of
             None \<Rightarrow> Some []
           | Some key \<Rightarrow> Some ([OP_DATA_65] @ pad_to 65 (SerializeUncompressed key) @ [OP_CHECKSIG]))
        else let scriptSize = sint (encodedScriptSize - of_nat numSpecialScripts)
        in if scriptSize < 0 then None else slice c bytesRead (bytesRead + nat scriptSize))"

section \<open>Amounts\<close>

function compress_exponent :: "int \<Rightarrow> nat \<Rightarrow> int \<times> nat" where
  "compress_exponent amount e =
    (if amount mod 10 = 0 \<and> e < 9 then compress_exponent (amount div 10) (e + 1) else (amount, e))"
  by pat_completeness auto
termination by (relation "measure (\<lambda>(_, e). 9 - e)") auto

declare compress_exponent.simps [simp del]

definition compressTxOutAmount :: "int \<Rightarrow> int" where
  "compressTxOutAmount amount =
    (if amount = 0 then 0
     else let (amount, e) = compress_exponent amount 0
     in if e < 9
        then let lastDigit = amount mod 10; amount = amount div 10
             in u64 (1 + 10 * (9 * amount + lastDigit - 1) + int e)
        else u64 (10 + 10 * (amount - 1)))"

definition decompressTxOutAmount :: "int \<Rightarrow> int" where
  "decompressTxOutAmount amount =
    (if amount = 0 then 0
     else let amount = amount - 1;
              e = nat (amount mod 10);
              amount = amount div 10;
              n = (if e < 9 then u64 (amount div 9 * 10 + (amount mod 9 + 1)) else u64 (amount + 1))
          in ((\<lambda>n. u64 (n * 10)) ^^ e) n)"

section \<open>Transaction outputs\<close>

definition compressedTxOutSize :: "(byte list \<Rightarrow> 'pk option) \<Rightarrow> int \<Rightarrow> byte list \<Rightarrow> nat" where
  "compressedTxOutSize ParsePubKey amount pkScript =
    serializeSizeVLQ (word_of_int (compressTxOutAmount amount)) + compressedScriptSize ParsePubKey pkScript"

definition putCompressedTxOut ::
  "(byte list \<Rightarrow> 'pk option) \<Rightarrow> byte list \<Rightarrow> int \<Rightarrow> byte list \<Rightarrow> (byte list \<times> nat) option" where
  "putCompressedTxOut ParsePubKey target amount pkScript = do {
     (target, offset) \<leftarrow> putVLQ target (word_of_int (compressTxOutAmount amount));
     (rest, n) \<leftarrow> putCompressedScript ParsePubKey (drop offset target) pkScript;
     Some (take offset target @ rest, offset + n) }"

text \<open>An error comes with the number of bytes read so far, as the code returns it.\<close>

definition decodeCompressedTxOut ::
  "(byte list \<Rightarrow> 'pk option) \<Rightarrow> ('pk \<Rightarrow> byte list) \<Rightarrow> byte list \<Rightarrow> (nat \<times> error) + (int \<times> byte list) \<times> nat" where
  "decodeCompressedTxOut ParsePubKey SerializeUncompressed serialized =
    (let (compressedAmount, bytesRead) = deserializeVLQ serialized
     in if length serialized \<le> bytesRead
        then Inl (bytesRead, DeserializeError ''unexpected end of data after compressed amount'')
        else let scriptSize = decodeCompressedScriptSize (drop bytesRead serialized)
        in if int (length (drop bytesRead serialized)) < scriptSize
           then Inl (bytesRead, DeserializeError ''unexpected end of data after script size'')
           else if scriptSize < 0 then Inl (bytesRead, Panic)
           else let amount = decompressTxOutAmount (uint compressedAmount)
           in case decompressScript ParsePubKey SerializeUncompressed
                     (take (nat scriptSize) (drop bytesRead serialized)) of
                None \<Rightarrow> Inl (bytesRead, Panic)
              | Some script \<Rightarrow> Inr ((amount, script), bytesRead + nat scriptSize))"

section \<open>Amounts are recovered\<close>

lemma compress_exponent:
  assumes "0 < amount" "k \<le> 9"
  shows "case compress_exponent amount k of (a, e) \<Rightarrow>
    amount = a * 10 ^ (e - k) \<and> 0 < a \<and> k \<le> e \<and> e \<le> 9 \<and> (e < 9 \<longrightarrow> a mod 10 \<noteq> 0)"
  using assms
proof (induction amount k rule: compress_exponent.induct)
  case (1 amount k)
  show ?case
  proof (cases "amount mod 10 = 0 \<and> k < 9")
    case True
    then have d: "amount = amount div 10 * 10" by (simp add: minus_mod_eq_div_mult [symmetric])
    then have "0 < amount div 10" using "1.prems"(1) by linarith
    moreover obtain a e where ae: "compress_exponent (amount div 10) (k + 1) = (a, e)"
      by (cases "compress_exponent (amount div 10) (k + 1)")
    ultimately have IH: "amount div 10 = a * 10 ^ (e - (k + 1))" "0 < a" "k + 1 \<le> e" "e \<le> 9"
        "e < 9 \<longrightarrow> a mod 10 \<noteq> 0"
      using True "1.IH" by simp_all
    then have "e - k = Suc (e - (k + 1))" by simp
    then have "amount = a * 10 ^ (e - k)" using d IH(1) by (simp only: power_Suc)
    then show ?thesis using True ae IH by (subst compress_exponent.simps) simp
  next
    case False
    then show ?thesis using "1.prems" by (subst compress_exponent.simps) auto
  qed
qed

lemma u64_times_10: "0 \<le> n \<Longrightarrow> n * 10 ^ e < 2 ^ 64 \<Longrightarrow> ((\<lambda>n. u64 (n * 10)) ^^ e) n = n * 10 ^ e"
proof (induction e)
  case (Suc e)
  have "n * 10 ^ e \<le> n * 10 ^ Suc e" using Suc.prems(1) by simp
  then have "((\<lambda>n. u64 (n * 10)) ^^ e) n = n * 10 ^ e" using Suc by simp
  then show ?case using Suc.prems by (simp add: u64_id mult.assoc mult.commute)
qed simp

lemma amount_roundtrip:
  assumes "0 \<le> amount" "amount < 2 ^ 60"
  shows "decompressTxOutAmount (compressTxOutAmount amount) = amount
    \<and> 0 \<le> compressTxOutAmount amount \<and> compressTxOutAmount amount < 2 ^ 64"
proof (cases "amount = 0")
  case True
  then show ?thesis by (simp add: compressTxOutAmount_def decompressTxOutAmount_def)
next
  case False
  obtain a e where ce: "compress_exponent amount 0 = (a, e)" by (cases "compress_exponent amount 0")
  then have a: "amount = a * 10 ^ e" "0 < a" "e \<le> 9" "e < 9 \<longrightarrow> a mod 10 \<noteq> 0"
    using compress_exponent[of amount 0] assms False by auto
  have "a * 1 \<le> a * 10 ^ e" using a(2) by (intro mult_left_mono) simp_all
  then have a_lt: "a < 2 ^ 60" using a(1) assms(2) by linarith
  show ?thesis
  proof (cases "e < 9")
    case True
    define d q where "d = a mod 10" and "q = a div 10"
    have dq: "a = 10 * q + d" "1 \<le> d" "d \<le> 9" "0 \<le> q"
      using a True pos_mod_bound[of 10 a] pos_mod_sign[of 10 a]
      by (auto simp: d_def q_def pos_imp_zdiv_nonneg_iff)
    define c where "c = 1 + 10 * (9 * q + d - 1) + int e"
    have c: "0 < c" "c < 2 ^ 64" using dq True a_lt by (simp_all add: c_def)
    then have cc: "compressTxOutAmount amount = c"
      using False True by (simp add: compressTxOutAmount_def ce Let_def u64_id c_def d_def q_def)
    have "(c - 1) mod 10 = int e" "(c - 1) div 10 = 9 * q + d - 1"
      using True int_mod_pos_eq[of "c - 1" 10 "9 * q + d - 1" "int e"]
        int_div_pos_eq[of "c - 1" 10 "9 * q + d - 1" "int e"] by (simp_all add: c_def)
    moreover have "(9 * q + d - 1) mod 9 = d - 1" "(9 * q + d - 1) div 9 = q"
      using dq int_mod_pos_eq[of "9 * q + d - 1" 9 q "d - 1"]
        int_div_pos_eq[of "9 * q + d - 1" 9 q "d - 1"] by simp_all
    moreover have "u64 (q * 10 + (d - 1 + 1)) = a" using dq a_lt by (simp add: u64_id)
    ultimately have "decompressTxOutAmount c = ((\<lambda>n. u64 (n * 10)) ^^ e) a"
      using c True by (simp add: decompressTxOutAmount_def Let_def)
    also have "\<dots> = amount" using a assms(2) by (subst u64_times_10) simp_all
    finally show ?thesis using c cc by simp
  next
    case e: False
    then have e9: "e = 9" using a(3) by simp
    have cc: "compressTxOutAmount amount = 10 + 10 * (a - 1)"
      using False e a_lt a(2) by (simp add: compressTxOutAmount_def ce u64_id)
    have "(10 * a - 1) mod 10 = 9" "(10 * a - 1) div 10 = a - 1"
      using int_mod_pos_eq[of "10 * a - 1" 10 "a - 1" 9] int_div_pos_eq[of "10 * a - 1" 10 "a - 1" 9] by simp_all
    then have "decompressTxOutAmount (10 * a) = ((\<lambda>n. u64 (n * 10)) ^^ 9) a"
      using a(2) a_lt by (simp add: decompressTxOutAmount_def Let_def u64_id)
    also have "\<dots> = amount" using a assms(2) unfolding e9 by (subst u64_times_10) simp_all
    finally show ?thesis using a(2) a_lt by (simp add: cc)
  qed
qed

section \<open>Scripts are recovered\<close>

definition pubkey_lib :: "(byte list \<Rightarrow> 'pk option) \<Rightarrow> ('pk \<Rightarrow> byte list) \<Rightarrow> bool" where
  "pubkey_lib ParsePubKey SerializeUncompressed \<longleftrightarrow>
    (\<forall>s k. length s = 65 \<longrightarrow> s ! 0 = 0x04 \<longrightarrow> ParsePubKey s = Some k \<longrightarrow>
      ParsePubKey ((0x02 OR (s ! 64 AND 0x01)) # take 32 (drop 1 s)) = Some k \<and> SerializeUncompressed k = s)"

text \<open>The byte string that \<open>putCompressedScript\<close> writes.\<close>

definition compressed_script :: "(byte list \<Rightarrow> 'pk option) \<Rightarrow> byte list \<Rightarrow> byte list" where
  "compressed_script ParsePubKey s =
    (case isPubKeyHash s of
       Some h \<Rightarrow> 0 # h
     | None \<Rightarrow> (case isScriptHash s of
         Some h \<Rightarrow> 1 # h
       | None \<Rightarrow> (case isPubKey ParsePubKey s of
           Some key \<Rightarrow> (if key ! 0 = 0x04 then 0x04 OR (key ! 64 AND 0x01) else key ! 0) # take 32 (drop 1 key)
         | None \<Rightarrow> vlq (of_nat (length s + numSpecialScripts)) @ s)))"

lemma list_ends:
  assumes "length s = n + 2"
  shows "s = s ! 0 # take n (drop 1 s) @ [s ! (n + 1)]"
proof -
  obtain x xs where s: "s = x # xs" "length xs = n + 1" using assms by (cases s) auto
  then have "xs = take n xs @ [xs ! n]" using take_Suc_conv_app_nth[of n xs] by simp
  then show ?thesis using s by simp
qed

lemma isPubKeyHash_Some:
  "isPubKeyHash s = Some h \<Longrightarrow>
    length h = 20 \<and> s = [OP_DUP, OP_HASH160, OP_DATA_20] @ h @ [OP_EQUALVERIFY, OP_CHECKSIG]"
proof -
  assume a: "isPubKeyHash s = Some h"
  then have s: "length s = 25" "h = take 20 (drop 3 s)" "s ! 0 = OP_DUP" "s ! 1 = OP_HASH160"
      "s ! 2 = OP_DATA_20" "s ! 23 = OP_EQUALVERIFY" "s ! 24 = OP_CHECKSIG"
    by (auto simp: isPubKeyHash_def split: if_splits)
  have "s = take 3 s @ take 20 (drop 3 s) @ drop 23 s"
    using append_take_drop_id[of 3 s] append_take_drop_id[of 20 "drop 3 s"] by simp
  moreover have "take 3 s = [s ! 0, s ! 1, s ! 2]"
    using s(1) by (simp add: numeral_3_eq_3 numeral_2_eq_2 take_Suc_conv_app_nth)
  moreover have "drop 23 s = [s ! 23, s ! 24]"
    using s(1) Cons_nth_drop_Suc[of 23 s] Cons_nth_drop_Suc[of 24 s] by simp
  ultimately show ?thesis using s by simp
qed

lemma isScriptHash_Some:
  "isScriptHash s = Some h \<Longrightarrow> length h = 20 \<and> s = [OP_HASH160, OP_DATA_20] @ h @ [OP_EQUAL]"
proof -
  assume a: "isScriptHash s = Some h"
  then have s: "length s = 23" "h = take 20 (drop 2 s)" "s ! 0 = OP_HASH160" "s ! 1 = OP_DATA_20"
      "s ! 22 = OP_EQUAL"
    by (auto simp: isScriptHash_def split: if_splits)
  have "s = take 2 s @ take 20 (drop 2 s) @ drop 22 s"
    using append_take_drop_id[of 2 s] append_take_drop_id[of 20 "drop 2 s"] by simp
  moreover have "take 2 s = [s ! 0, s ! 1]"
    using s(1) by (simp add: numeral_2_eq_2 take_Suc_conv_app_nth)
  moreover have "drop 22 s = [s ! 22]" using s(1) Cons_nth_drop_Suc[of 22 s] by simp
  ultimately show ?thesis using s by simp
qed

lemma isPubKey_Some:
  assumes "isPubKey ParsePubKey s = Some key"
  shows "length key = 33 \<and> (key ! 0 = 0x02 \<or> key ! 0 = 0x03) \<and> s = OP_DATA_33 # key @ [OP_CHECKSIG]
    \<or> length key = 65 \<and> key ! 0 = 0x04 \<and> s = OP_DATA_65 # key @ [OP_CHECKSIG] \<and> ParsePubKey key \<noteq> None"
proof (cases "length s = 35")
  case True
  then have s: "s = s ! 0 # take 33 (drop 1 s) @ [s ! 34]" using list_ends[of s 33] by simp
  have "key = take 33 (drop 1 s)" "s ! 0 = OP_DATA_33" "s ! 34 = OP_CHECKSIG" "s ! 1 = 2 \<or> s ! 1 = 3"
    using assms True by (simp_all add: isPubKey_def split: if_splits)
  then show ?thesis using s True by simp
next
  case False
  then have 1: "length s = 67" "key = take 65 (drop 1 s)" "s ! 0 = OP_DATA_65" "s ! 66 = OP_CHECKSIG" "s ! 1 = 4"
      "ParsePubKey key \<noteq> None"
    using assms by (simp_all add: isPubKey_def split: if_splits)
  then show ?thesis using list_ends[of s 65] by simp
qed

lemma compressedScriptSize_length: "compressedScriptSize ParsePubKey s = length (compressed_script ParsePubKey s)"
  using isPubKeyHash_Some[of s] isScriptHash_Some[of s] isPubKey_Some[of ParsePubKey s]
  by (auto simp: compressedScriptSize_def compressed_script_def serializeSizeVLQ_length split: option.splits)

text \<open>Writing a tag and a body of fixed length.\<close>

lemma write_special:
  "length body + 1 = n \<Longrightarrow> n \<le> length target \<Longrightarrow>
    (do { t \<leftarrow> slice_set target 0 tag; t \<leftarrow> slice_copy t 1 n body; Some (t, n) })
    = Some (tag # body @ drop n target, n)"
  by (cases target) (auto simp: slice_set_def slice_copy_def)

lemma write_general:
  "length (vlq w @ s) \<le> length target \<Longrightarrow>
    (do { (t, k) \<leftarrow> putVLQ target w; t \<leftarrow> slice_copy t k (length t) s; Some (t, k + length s) })
    = Some (vlq w @ s @ drop (length (vlq w @ s)) target, length (vlq w @ s))"
  by (simp add: putVLQ_eq slice_copy_def add.commute)

lemma putCompressedScript_eq:
  assumes "compressedScriptSize ParsePubKey s \<le> length target"
  shows "putCompressedScript ParsePubKey target s =
    Some (compressed_script ParsePubKey s @ drop (length (compressed_script ParsePubKey s)) target,
      length (compressed_script ParsePubKey s))"
proof (cases "isPubKeyHash s")
  case None
  note n1 = None
  show ?thesis
  proof (cases "isScriptHash s")
    case None
    note n2 = None
    show ?thesis
    proof (cases "isPubKey ParsePubKey s")
      case None
      then show ?thesis using assms n1 n2
        by (simp add: putCompressedScript_def compressedScriptSize_length compressed_script_def write_general)
    next
      case (Some key)
      then show ?thesis using assms n1 n2 isPubKey_Some[OF Some]
        by (auto simp: putCompressedScript_def compressedScriptSize_length compressed_script_def write_special [simplified])
    qed
  next
    case (Some h)
    then show ?thesis using assms n1 isScriptHash_Some[OF Some]
      by (simp add: putCompressedScript_def compressedScriptSize_length compressed_script_def write_special [simplified])
  qed
next
  case (Some h)
  then show ?thesis using assms isPubKeyHash_Some[OF Some]
    by (simp add: putCompressedScript_def compressedScriptSize_length compressed_script_def write_special [simplified])
qed

lemma deserialize_tag: "b AND 0x80 = 0 \<Longrightarrow> deserializeVLQ (b # bs) = (ucast (b AND 0x7f), 1)"
  by (simp add: deserializeVLQ_def)

lemma general_size:
  assumes "length s < 2 ^ 62"
  defines "w \<equiv> of_nat (length s + numSpecialScripts) :: uint64"
  shows "w \<notin> {0, 1, 2, 3, 4, 5}" "sint (w - of_nat numSpecialScripts) = int (length s)"
    "k \<le> 10 \<Longrightarrow> sint (w - of_nat numSpecialScripts + of_nat k) = int (length s) + int k"
proof -
  have u: "unat w = length s + 6"
    using assms(1) by (simp add: w_def numSpecialScripts_def unat_of_nat del: of_nat_add)
  then show "w \<notin> {0, 1, 2, 3, 4, 5}" by auto
  have w: "w - of_nat numSpecialScripts = of_nat (length s)" by (simp add: w_def)
  have sint: "sint (of_nat n :: uint64) = int n" if "n < 2 ^ 63" for n
    using that by (simp add: signed_of_nat signed_take_bit_int_eq_self)
  show "sint (w - of_nat numSpecialScripts) = int (length s)"
    unfolding w using assms(1) by (intro sint) simp
  show "sint (w - of_nat numSpecialScripts + of_nat k) = int (length s) + int k" if "k \<le> 10"
    unfolding w of_nat_add [symmetric] using assms(1) that by (subst sint) simp_all
qed

lemma parity_byte: "b AND 1 = (if odd b then 1 else 0 :: byte)"
  by (simp add: and_one_eq odd_iff_mod_2_eq_one)

lemmas script_tag_simps = compressed_script_def decompressScript_def decodeCompressedScriptSize_def
  deserialize_tag slice_def pad_to_def

lemma decompress_compressed_script:
  assumes "length s < 2 ^ 62" "pubkey_lib ParsePubKey SerializeUncompressed"
  shows "decompressScript ParsePubKey SerializeUncompressed (compressed_script ParsePubKey s) = Some s"
    and "decodeCompressedScriptSize (compressed_script ParsePubKey s @ rest)
      = int (length (compressed_script ParsePubKey s))"
proof -
  let ?D = "decompressScript ParsePubKey SerializeUncompressed" and ?C = "compressed_script ParsePubKey s"
  have "?D ?C = Some s \<and> decodeCompressedScriptSize (?C @ rest) = int (length ?C)"
  proof (cases "isPubKeyHash s")
    case None
    note n1 = None
    show ?thesis
    proof (cases "isScriptHash s")
      case None
      note n2 = None
      show ?thesis
      proof (cases "isPubKey ParsePubKey s")
        case None
        then have C: "?C = vlq (of_nat (length s + numSpecialScripts)) @ s"
          using n1 n2 by (simp add: compressed_script_def)
        show ?thesis
          unfolding C decompressScript_def decodeCompressedScriptSize_def append_assoc
          using general_size[OF assms(1)] length_vlq_bound[of "of_nat (length s + numSpecialScripts)"]
          by (simp add: deserializeVLQ_vlq slice_def del: of_nat_add)
      next
        case (Some key)
        from isPubKey_Some[OF Some] consider
            (compressed) "length key = 33" "key ! 0 = 2 \<or> key ! 0 = 3" "s = OP_DATA_33 # key @ [OP_CHECKSIG]"
          | (full) "length key = 65" "key ! 0 = 4" "s = OP_DATA_65 # key @ [OP_CHECKSIG]" "ParsePubKey key \<noteq> None"
          by blast
        then show ?thesis
        proof cases
          case k: compressed
          then have "key = key ! 0 # drop 1 key" by (cases key) simp_all
          then have C: "?C = key" using n1 n2 Some k by (auto simp: compressed_script_def)
          from k(2) show ?thesis
            using k \<open>key = key ! 0 # drop 1 key\<close> unfolding C by (cases key) (auto simp: script_tag_simps)
        next
          case k: full
          then obtain pk where pk: "ParsePubKey key = Some pk" by blast
          have lib: "ParsePubKey ((0x02 OR (key ! 64 AND 0x01)) # take 32 (drop 1 key)) = Some pk"
              "SerializeUncompressed pk = key"
            using assms(2) k(1,2) pk by (simp_all add: pubkey_lib_def)
          have C: "?C = (if odd (key ! 64) then 5 else 4) # take 32 (drop 1 key)"
            using n1 n2 Some k by (simp add: compressed_script_def parity_byte)
          show ?thesis using lib k unfolding C by (auto simp: script_tag_simps parity_byte split: if_splits)
        qed
      qed
    next
      case (Some h)
      then show ?thesis using n1 isScriptHash_Some[OF Some] by (auto simp: script_tag_simps)
    qed
  next
    case (Some h)
    then show ?thesis using isPubKeyHash_Some[OF Some] by (auto simp: script_tag_simps)
  qed
  then show "?D ?C = Some s" "decodeCompressedScriptSize (?C @ rest) = int (length ?C)" by simp_all
qed

lemma compressed_script_nonempty [simp]: "compressed_script ParsePubKey s \<noteq> []"
  by (simp add: compressed_script_def split: option.splits)

section \<open>Properties\<close>

text \<open>
  Compressing an amount below \<open>2 ^ 60\<close> (every valid amount is) and decompressing it gives the amount,
  and the compressed form fits 64 bits.
\<close>

lemma decompress_compress_amount:
  assumes "0 \<le> amount" "amount < 2 ^ 60"
  shows "decompressTxOutAmount (compressTxOutAmount amount) = amount
    \<and> 0 \<le> compressTxOutAmount amount \<and> compressTxOutAmount amount < 2 ^ 64"
  using assms by (rule amount_roundtrip)

theorem decompress_compress_amount_witness:
  "decompressTxOutAmount (compressTxOutAmount 50000000) = 50000000"
  using decompress_compress_amount[of 50000000] by simp

text \<open>The byte string of a transaction output, and the contract of its format.\<close>

definition compressed_txout :: "(byte list \<Rightarrow> 'pk option) \<Rightarrow> int \<times> byte list \<Rightarrow> byte list" where
  "compressed_txout ParsePubKey p =
    vlq (word_of_int (compressTxOutAmount (fst p))) @ compressed_script ParsePubKey (snd p)"

definition txout_ok :: "int \<times> byte list \<Rightarrow> bool" where
  "txout_ok p \<longleftrightarrow> 0 \<le> fst p \<and> fst p < 2 ^ 60 \<and> length (snd p) < 2 ^ 62"

lemma txout_codec:
  assumes "pubkey_lib ParsePubKey SerializeUncompressed"
  shows "stream_codec (compressed_txout ParsePubKey)
    (decodeCompressedTxOut ParsePubKey SerializeUncompressed) txout_ok"
proof
  fix p rest
  assume ok: "txout_ok p"
  obtain amount s where p: "p = (amount, s)" by (cases p)
  let ?c = "compressTxOutAmount amount" and ?C = "compressed_script ParsePubKey s"
  have a: "decompressTxOutAmount ?c = amount" "uint (word_of_int ?c :: uint64) = ?c"
    using ok amount_roundtrip[of amount] by (simp_all add: txout_ok_def p uint_word_of_int_small)
  have s: "length s < 2 ^ 62" using ok by (simp add: txout_ok_def p)
  show "decodeCompressedTxOut ParsePubKey SerializeUncompressed (compressed_txout ParsePubKey p @ rest) =
      Inr (p, length (compressed_txout ParsePubKey p))"
    using a decompress_compressed_script[OF s assms]
    by (simp add: p decodeCompressedTxOut_def compressed_txout_def deserializeVLQ_vlq)
qed

lemma putCompressedTxOut_eq:
  assumes "compressedTxOutSize ParsePubKey amount s \<le> length target"
  shows "putCompressedTxOut ParsePubKey target amount s =
    Some (compressed_txout ParsePubKey (amount, s) @ drop (length (compressed_txout ParsePubKey (amount, s))) target,
      length (compressed_txout ParsePubKey (amount, s)))"
proof -
  let ?w = "word_of_int (compressTxOutAmount amount) :: uint64"
  have "length (vlq ?w) \<le> length target" "compressedScriptSize ParsePubKey s \<le> length (drop (length (vlq ?w)) target)"
    using assms by (simp_all add: compressedTxOutSize_def serializeSizeVLQ_length)
  then show ?thesis
    by (simp add: putCompressedTxOut_def putVLQ_eq putCompressedScript_eq compressed_txout_def add.commute)
qed

lemma compressedTxOutSize_length:
  "compressedTxOutSize ParsePubKey amount s = length (compressed_txout ParsePubKey (amount, s))"
  by (simp add: compressedTxOutSize_def compressed_txout_def serializeSizeVLQ_length compressedScriptSize_length)

text \<open>
  C28: a transaction output written into a large enough buffer occupies the announced number of bytes,
  leaves the rest of the buffer alone, and decoding the buffer gives back the amount, the script and the
  number of bytes, for every script, standard or not.
\<close>

theorem txout_roundtrip:
  assumes "pubkey_lib ParsePubKey SerializeUncompressed" "0 \<le> amount" "amount < 2 ^ 60"
    "length pkScript < 2 ^ 62" "compressedTxOutSize ParsePubKey amount pkScript \<le> length target"
  shows "\<exists>target'. putCompressedTxOut ParsePubKey target amount pkScript
        = Some (target', compressedTxOutSize ParsePubKey amount pkScript)
    \<and> length target' = length target
    \<and> drop (compressedTxOutSize ParsePubKey amount pkScript) target'
        = drop (compressedTxOutSize ParsePubKey amount pkScript) target
    \<and> decodeCompressedTxOut ParsePubKey SerializeUncompressed target'
        = Inr ((amount, pkScript), compressedTxOutSize ParsePubKey amount pkScript)"
proof -
  have "txout_ok (amount, pkScript)" using assms by (simp add: txout_ok_def)
  from stream_codec.dec_enc[OF txout_codec[OF assms(1)] this] assms(5) show ?thesis
    by (simp add: putCompressedTxOut_eq[OF assms(5)]) (simp add: compressedTxOutSize_length)
qed

text \<open>A library whose keys are an x coordinate and a parity, with \<open>y\<close> the parity itself.\<close>

definition sample_parse :: "byte list \<Rightarrow> (byte list \<times> bool) option" where
  "sample_parse s =
    (if length s = 33 \<and> (s ! 0 = 2 \<or> s ! 0 = 3) then Some (drop 1 s, s ! 0 = 3)
     else if length s = 65 \<and> s ! 0 = 4 \<and> (\<exists>b. drop 33 s = replicate 31 0 @ [if b then 1 else 0])
     then Some (take 32 (drop 1 s), odd (s ! 64)) else None)"

definition sample_serialize :: "byte list \<times> bool \<Rightarrow> byte list" where
  "sample_serialize k = 4 # fst k @ replicate 31 0 @ [if snd k then 1 else 0]"

lemma sample_lib: "pubkey_lib sample_parse sample_serialize"
proof -
  have "sample_parse ((0x02 OR (s ! 64 AND 0x01)) # take 32 (drop 1 s)) = Some k \<and> sample_serialize k = s"
    if s: "length s = 65" "s ! 0 = 4" "sample_parse s = Some k" for s k
  proof -
    obtain b where b: "drop 33 s = replicate 31 0 @ [if b then 1 else 0 :: byte]"
      and k: "k = (take 32 (drop 1 s), odd (s ! 64))"
      using s by (auto simp: sample_parse_def split: if_splits)
    have "s ! 64 = drop 33 s ! 31" using s(1) by simp
    also have "\<dots> = (if b then 1 else 0)" by (simp add: b nth_append)
    finally have "s ! 64 = (if b then 1 else 0)" .
    moreover have "s = s ! 0 # take 32 (drop 1 s) @ drop 33 s"
      using s(1) append_take_drop_id[of 32 "drop 1 s"] by (cases s) simp_all
    ultimately show ?thesis using s(1,2) b k by (auto simp: sample_parse_def sample_serialize_def)
  qed
  then show ?thesis by (simp add: pubkey_lib_def)
qed

theorem txout_roundtrip_witness:
  "\<exists>target'. putCompressedTxOut sample_parse (replicate 40 0) 1000 [0x6a]
      = Some (target', compressedTxOutSize sample_parse 1000 [0x6a])
    \<and> decodeCompressedTxOut sample_parse sample_serialize target'
      = Inr ((1000, [0x6a]), compressedTxOutSize sample_parse 1000 [0x6a])"
proof -
  have "compressedTxOutSize sample_parse 1000 [0x6a] \<le> length (replicate 40 (0 :: byte))"
    using length_vlq_bound[of "word_of_int (compressTxOutAmount 1000)"] length_vlq_bound[of "7"]
    by (simp add: compressedTxOutSize_def serializeSizeVLQ_length compressedScriptSize_def numSpecialScripts_def
      isPubKeyHash_def isScriptHash_def isPubKey_def)
  from txout_roundtrip[OF sample_lib _ _ _ this] show ?thesis by auto
qed

lemma sint_large: "2 ^ 63 \<le> x \<Longrightarrow> x < 2 ^ 64 \<Longrightarrow> sint (word_of_int x :: uint64) = x - 2 ^ 64"
proof -
  assume x: "2 ^ 63 \<le> x" "x < 2 ^ 64"
  have "signed_take_bit 63 x = signed_take_bit 63 (x - 2 ^ 64)"
    unfolding signed_take_bit_eq_iff_take_bit_eq take_bit_eq_mod by simp
  then show ?thesis using x by (simp add: signed_of_int signed_take_bit_int_eq_self)
qed

text \<open>
  A script size from \<open>2 ^ 63 + 6\<close> up to just below \<open>2 ^ 64 - 10\<close> in a stored output is taken for a negative length,
  passes the check for missing data, and makes the decoder panic instead of returning an error.
\<close>

theorem decodeCompressedTxOut_negative_size:
  assumes "bs = vlq a @ vlq (word_of_int n) @ rest" "2 ^ 63 + 6 \<le> n" "n < 2 ^ 64 - 10"
  shows "decodeCompressedTxOut ParsePubKey SerializeUncompressed bs = Inl (length (vlq a), Panic)"
proof -
  define w :: uint64 where "w = word_of_int n"
  define k where "k = length (vlq w)"
  have w: "uint w = n" using assms(2,3) by (simp add: w_def uint_word_of_int_small)
  have k: "0 < k" "k \<le> 10" using length_vlq_bound[of w] by (simp_all add: k_def)
  have "w \<notin> {0, 1, 2, 3, 4, 5}" using w assms(2) by auto
  have "w - of_nat 6 + of_nat k = word_of_int (n - 6 + int k)" by (simp add: w_def)
  moreover have "sint (word_of_int (n - 6 + int k) :: uint64) = n - 6 + int k - 2 ^ 64"
    using assms(2,3) k by (intro sint_large) simp_all
  ultimately have "sint (w - of_nat numSpecialScripts + of_nat k) < 0"
    using k assms(3) by (simp only: numSpecialScripts_def)
  then have "decodeCompressedScriptSize (vlq w @ rest) < 0"
    unfolding decodeCompressedScriptSize_def deserializeVLQ_vlq k_def [symmetric]
    using \<open>w \<notin> {0, 1, 2, 3, 4, 5}\<close> k by simp
  then show ?thesis
    by (simp add: assms(1) decodeCompressedTxOut_def deserializeVLQ_vlq w_def [symmetric])
qed

theorem decodeCompressedTxOut_negative_size_witness:
  "decodeCompressedTxOut sample_parse sample_serialize (vlq 0 @ vlq (word_of_int (2 ^ 63 + 6))) = Inl (length (vlq 0), Panic)"
  by (rule decodeCompressedTxOut_negative_size[where rest = "[]" and n = "2 ^ 63 + 6"]) simp_all

end
