(* ===== verification/Block_Node.thy ===== *)
theory Block_Node
  imports Workmath
begin

text \<open>
  Nodes of the block tree (blockindex.go, first half; interfaces.go; timesorter.go).  Pointers to nodes
  are indices into a heap, a list that allocation extends; \<open>nil\<close> is \<open>None\<close>.  \<open>Ancestor\<close> follows the skip
  pointers of the code and is a partial function, so that a heap with a cycle has no result; on a
  well-formed heap it returns, and returns what following parent pointers would.  The locale
  \<open>header_ctx\<close> is the interface \<open>HeaderCtx\<close> with the laws its users rely on.  A time is a number of
  nanoseconds.
\<close>

section \<open>Block headers\<close>

record BlockHeader =
  hVersion :: int
  hPrevBlock :: hash
  hMerkleRoot :: hash
  hTimestamp :: int
  hBits :: uint32
  hNonce :: uint32

definition time_Unix :: "int \<Rightarrow> int" where
  "time_Unix t = t div 1000000000"

definition unix_time :: "int \<Rightarrow> int" where
  "unix_time s = s * 1000000000"

lemma time_Unix_unix_time [simp]: "time_Unix (unix_time s) = s"
  by (simp add: time_Unix_def unix_time_def)

definition zeroHash :: hash where
  "zeroHash = replicate 32 0"

section \<open>Status flags\<close>

type_synonym blockStatus = byte

definition statusDataStored :: blockStatus where "statusDataStored = 1"
definition statusValid :: blockStatus where "statusValid = 2"
definition statusValidateFailed :: blockStatus where "statusValidateFailed = 4"
definition statusInvalidAncestor :: blockStatus where "statusInvalidAncestor = 8"
definition statusHeaderStored :: blockStatus where "statusHeaderStored = 16"
definition statusNone :: blockStatus where "statusNone = 0"

definition HaveData :: "blockStatus \<Rightarrow> bool" where
  "HaveData st \<longleftrightarrow> st AND statusDataStored \<noteq> 0"

definition HaveHeader :: "blockStatus \<Rightarrow> bool" where
  "HaveHeader st \<longleftrightarrow> st AND statusHeaderStored \<noteq> 0"

definition KnownValid :: "blockStatus \<Rightarrow> bool" where
  "KnownValid st \<longleftrightarrow> st AND statusValid \<noteq> 0"

definition KnownInvalid :: "blockStatus \<Rightarrow> bool" where
  "KnownInvalid st \<longleftrightarrow> st AND (statusValidateFailed OR statusInvalidAncestor) \<noteq> 0"

section \<open>Nodes\<close>

type_synonym nid = nat

record blockNode =
  parent :: "nid option"
  ancestor :: "nid option"
  bn_hash :: hash
  workSum :: int
  bn_height :: int
  bn_version :: int
  bn_bits :: uint32
  bn_nonce :: uint32
  bn_timestamp :: int
  bn_merkleRoot :: hash
  status :: blockStatus

type_synonym heap = "blockNode list"

definition invertLowestOne :: "int \<Rightarrow> int" where
  "invertLowestOne n = n AND i32 (n - 1)"

definition getAncestorHeight :: "int \<Rightarrow> int" where
  "getAncestorHeight h = invertLowestOne (invertLowestOne h)"

text \<open>The loop of \<open>Ancestor\<close>: the outer \<open>None\<close> is a loop that does not return.\<close>

partial_function (option) Ancestor_loop :: "heap \<Rightarrow> int \<Rightarrow> nid option \<Rightarrow> nid option option" where
  "Ancestor_loop mem h n =
    (case n of
       None \<Rightarrow> Some None
     | Some n \<Rightarrow>
         if bn_height (mem ! n) = h then Some (Some n)
         else if ancestor (mem ! n) \<noteq> None \<and> getAncestorHeight (bn_height (mem ! n)) \<ge> h
         then Ancestor_loop mem h (ancestor (mem ! n))
         else Ancestor_loop mem h (parent (mem ! n)))"

declare Ancestor_loop.simps [code]

definition Ancestor :: "heap \<Rightarrow> nid \<Rightarrow> int \<Rightarrow> nid option option" where
  "Ancestor mem node h =
    (if h < 0 \<or> h > bn_height (mem ! node) then Some None else Ancestor_loop mem h (Some node))"

text \<open>\<open>parent.Ancestor\<close> is called on the node's parent, before the node itself is allocated.\<close>

definition buildAncestor :: "heap \<Rightarrow> blockNode \<Rightarrow> blockNode option" where
  "buildAncestor mem node =
    (case parent node of
       None \<Rightarrow> Some node
     | Some p \<Rightarrow>
         map_option (\<lambda>a. node\<lparr>ancestor := a\<rparr>) (Ancestor mem p (getAncestorHeight (bn_height node))))"

definition initBlockNode ::
  "(BlockHeader \<Rightarrow> hash) \<Rightarrow> heap \<Rightarrow> BlockHeader \<Rightarrow> nid option \<Rightarrow> blockNode option" where
  "initBlockNode BlockHash mem blockHeader par =
    (let node = \<lparr>parent = None, ancestor = None, bn_hash = BlockHash blockHeader,
           workSum = CalcWork (hBits blockHeader), bn_height = 0, bn_version = hVersion blockHeader,
           bn_bits = hBits blockHeader, bn_nonce = hNonce blockHeader,
           bn_timestamp = time_Unix (hTimestamp blockHeader), bn_merkleRoot = hMerkleRoot blockHeader,
           status = statusNone\<rparr>
     in case par of
          None \<Rightarrow> Some node
        | Some p \<Rightarrow>
            buildAncestor mem (node\<lparr>parent := Some p, bn_height := i32 (bn_height (mem ! p) + 1),
              workSum := workSum (mem ! p) + workSum node\<rparr>))"

text \<open>Allocation of a node: the heap grows by one.\<close>

definition newBlockNode ::
  "(BlockHeader \<Rightarrow> hash) \<Rightarrow> heap \<Rightarrow> BlockHeader \<Rightarrow> nid option \<Rightarrow> (heap \<times> nid) option" where
  "newBlockNode BlockHash mem blockHeader par =
    map_option (\<lambda>node. (mem @ [node], length mem)) (initBlockNode BlockHash mem blockHeader par)"

definition node_Equals :: "blockNode \<Rightarrow> blockNode \<Rightarrow> bool" where
  "node_Equals node other \<longleftrightarrow>
    bn_hash node = bn_hash other \<and> workSum node = workSum other \<and> bn_height node = bn_height other
    \<and> bn_version node = bn_version other \<and> bn_bits node = bn_bits other \<and> bn_nonce node = bn_nonce other
    \<and> bn_timestamp node = bn_timestamp other \<and> bn_merkleRoot node = bn_merkleRoot other
    \<and> status node = status other"

definition node_Header :: "heap \<Rightarrow> nid \<Rightarrow> BlockHeader" where
  "node_Header mem n =
    (let node = mem ! n;
         prevHash = (case parent node of None \<Rightarrow> zeroHash | Some p \<Rightarrow> bn_hash (mem ! p))
     in \<lparr>hVersion = bn_version node, hPrevBlock = prevHash, hMerkleRoot = bn_merkleRoot node,
         hTimestamp = unix_time (bn_timestamp node), hBits = bn_bits node, hNonce = bn_nonce node\<rparr>)"

definition IsAncestor :: "heap \<Rightarrow> nid \<Rightarrow> nid option \<Rightarrow> bool option" where
  "IsAncestor mem node otherNode =
    (case otherNode of
       None \<Rightarrow> Some False
     | Some m \<Rightarrow>
         map_option (\<lambda>a. case a of
             None \<Rightarrow> False
           | Some a \<Rightarrow> bn_height (mem ! node) \<noteq> bn_height (mem ! a) \<and> node_Equals (mem ! a) (mem ! m))
           (Ancestor mem node (bn_height (mem ! m))))"

definition RelativeAncestor :: "heap \<Rightarrow> nid \<Rightarrow> int \<Rightarrow> nid option option" where
  "RelativeAncestor mem node distance = Ancestor mem node (i32 (bn_height (mem ! node) - distance))"

definition medianTimeBlocks :: nat where "medianTimeBlocks = 11"

text \<open>
  \<open>CalcPastMedianTime\<close> works on any \<open>HeaderCtx\<close>: its methods \<open>Timestamp\<close> and \<open>Parent\<close> are arguments.  The
  result is in seconds.
\<close>

fun collect_timestamps :: "('n \<Rightarrow> int) \<Rightarrow> ('n \<Rightarrow> 'n option) \<Rightarrow> nat \<Rightarrow> 'n option \<Rightarrow> int list" where
  "collect_timestamps Timestamp Parent 0 iterNode = []"
| "collect_timestamps Timestamp Parent (Suc i) None = []"
| "collect_timestamps Timestamp Parent (Suc i) (Some n) =
    Timestamp n # collect_timestamps Timestamp Parent i (Parent n)"

definition CalcPastMedianTime :: "('n \<Rightarrow> int) \<Rightarrow> ('n \<Rightarrow> 'n option) \<Rightarrow> 'n \<Rightarrow> int" where
  "CalcPastMedianTime Timestamp Parent node =
    (let timestamps = collect_timestamps Timestamp Parent medianTimeBlocks (Some node);
         numNodes = length timestamps
     in sort timestamps ! (numNodes div 2))"

section \<open>Well-formed heaps\<close>

text \<open>Following the parent pointer \<open>k\<close> times.\<close>

fun nth_parent :: "heap \<Rightarrow> nat \<Rightarrow> nid \<Rightarrow> nid option" where
  "nth_parent mem 0 n = Some n"
| "nth_parent mem (Suc k) n = (case parent (mem ! n) of None \<Rightarrow> None | Some p \<Rightarrow> nth_parent mem k p)"

text \<open>The ancestor at a height, by parent pointers alone: the specification of \<open>Ancestor\<close>.\<close>

definition parent_at :: "heap \<Rightarrow> nid \<Rightarrow> int \<Rightarrow> nid option" where
  "parent_at mem n h =
    (if h < 0 \<or> h > bn_height (mem ! n) then None else nth_parent mem (nat (bn_height (mem ! n) - h)) n)"

text \<open>
  A node is well formed if it is a root at height zero, or one above an earlier node with the skip
  pointer at the height the code expects.
\<close>

definition wf_node :: "heap \<Rightarrow> nid \<Rightarrow> bool" where
  "wf_node mem n \<longleftrightarrow>
    (case parent (mem ! n) of
       None \<Rightarrow> bn_height (mem ! n) = 0 \<and> ancestor (mem ! n) = None
     | Some p \<Rightarrow> p < n \<and> bn_height (mem ! n) = bn_height (mem ! p) + 1 \<and> bn_height (mem ! n) < 2 ^ 31
         \<and> ancestor (mem ! n) = parent_at mem p (getAncestorHeight (bn_height (mem ! n))))"

definition wf_heap :: "heap \<Rightarrow> bool" where
  "wf_heap mem \<longleftrightarrow> (\<forall>n < length mem. wf_node mem n)"

section \<open>Skip heights\<close>

lemma invertLowestOne_bounds:
  assumes "0 \<le> n" "n < 2 ^ 31"
  shows "0 \<le> invertLowestOne n" "invertLowestOne n \<le> n" "0 < n \<Longrightarrow> invertLowestOne n < n"
proof -
  have wrap: "i32 (n - 1) = n - 1" using assms by (simp add: i32_id)
  show "0 \<le> invertLowestOne n" using assms by (simp add: invertLowestOne_def)
  show "invertLowestOne n \<le> n" using assms by (simp add: invertLowestOne_def AND_upper1)
  show "invertLowestOne n < n" if "0 < n"
    using AND_upper2[of "n - 1" n] that by (simp add: invertLowestOne_def wrap)
qed

lemma getAncestorHeight_bounds:
  assumes "0 \<le> h" "h < 2 ^ 31"
  shows "0 \<le> getAncestorHeight h" "getAncestorHeight h \<le> h" "0 < h \<Longrightarrow> getAncestorHeight h \<le> h - 1"
proof -
  note 1 = invertLowestOne_bounds[OF assms]
  have "invertLowestOne h < 2 ^ 31" using 1(2) assms(2) by simp
  note 2 = invertLowestOne_bounds[OF 1(1) this]
  show "0 \<le> getAncestorHeight h" "getAncestorHeight h \<le> h" "0 < h \<Longrightarrow> getAncestorHeight h \<le> h - 1"
    using 1 2 by (simp_all add: getAncestorHeight_def)
qed

section \<open>Parent walks on a well-formed heap\<close>

lemma wf_parent:
  assumes "wf_heap mem" "n < length mem" "parent (mem ! n) = Some p"
  shows "p < n" "p < length mem" "bn_height (mem ! n) = bn_height (mem ! p) + 1" "bn_height (mem ! n) < 2 ^ 31"
    "ancestor (mem ! n) = parent_at mem p (getAncestorHeight (bn_height (mem ! n)))"
  using assms by (auto simp: wf_heap_def wf_node_def split: option.splits)

lemma wf_root:
  assumes "wf_heap mem" "n < length mem" "parent (mem ! n) = None"
  shows "bn_height (mem ! n) = 0" "ancestor (mem ! n) = None"
  using assms by (auto simp: wf_heap_def wf_node_def split: option.splits)

lemma height_nonneg: "wf_heap mem \<Longrightarrow> n < length mem \<Longrightarrow> 0 \<le> bn_height (mem ! n)"
proof (induction n rule: less_induct)
  case (less n)
  show ?case
  proof (cases "parent (mem ! n)")
    case None
    then show ?thesis using wf_root less.prems by simp
  next
    case (Some p)
    then show ?thesis using wf_parent[OF less.prems Some] less by fastforce
  qed
qed

lemma height_bound: "wf_heap mem \<Longrightarrow> n < length mem \<Longrightarrow> bn_height (mem ! n) < 2 ^ 31"
  using wf_root(1)[of mem n] wf_parent(4)[of mem n] by (cases "parent (mem ! n)") auto

lemma parent_exists:
  "wf_heap mem \<Longrightarrow> n < length mem \<Longrightarrow> 0 < bn_height (mem ! n) \<Longrightarrow> \<exists>p. parent (mem ! n) = Some p"
  using wf_root(1)[of mem n] by (cases "parent (mem ! n)") auto

lemma nth_parent_add:
  "nth_parent mem (j + k) n = Option.bind (nth_parent mem j n) (nth_parent mem k)"
  by (induction j arbitrary: n) (auto split: option.splits)

lemma nth_parent_wf:
  assumes "wf_heap mem" "n < length mem" "int k \<le> bn_height (mem ! n)"
  obtains a where "nth_parent mem k n = Some a" "a \<le> n" "a < length mem"
    "bn_height (mem ! a) = bn_height (mem ! n) - int k"
  using assms
proof (induction k arbitrary: n thesis)
  case 0
  then show ?case by simp
next
  case (Suc k)
  obtain p where p: "parent (mem ! n) = Some p" using parent_exists[of mem n] Suc.prems by auto
  note wp = wf_parent[OF Suc.prems(2,3) p]
  obtain a where "nth_parent mem k p = Some a" "a \<le> p" "a < length mem"
      "bn_height (mem ! a) = bn_height (mem ! p) - int k"
    using Suc.IH[of p] Suc.prems(2,4) wp by auto
  then show ?case using Suc.prems(1) p wp by simp
qed

lemma parent_at_wf:
  assumes "wf_heap mem" "n < length mem" "0 \<le> h" "h \<le> bn_height (mem ! n)"
  obtains a where "parent_at mem n h = Some a" "a \<le> n" "a < length mem" "bn_height (mem ! a) = h"
proof -
  have "int (nat (bn_height (mem ! n) - h)) \<le> bn_height (mem ! n)" using assms(3,4) by simp
  then show thesis
    by (rule nth_parent_wf[OF assms(1,2)]) (use that assms(3,4) in \<open>simp add: parent_at_def\<close>)
qed

lemma parent_at_step:
  assumes "wf_heap mem" "n < length mem" "parent (mem ! n) = Some p" "0 \<le> h" "h < bn_height (mem ! n)"
  shows "parent_at mem n h = parent_at mem p h"
proof -
  have "nat (bn_height (mem ! n) - h) = Suc (nat (bn_height (mem ! p) - h))"
    using wf_parent[OF assms(1-3)] assms(5) by simp
  then show ?thesis using assms wf_parent[OF assms(1-3)] by (simp add: parent_at_def)
qed

lemma parent_at_trans:
  assumes "wf_heap mem" "n < length mem" "0 \<le> h" "h \<le> g" "g \<le> bn_height (mem ! n)" "parent_at mem n g = Some a"
  shows "parent_at mem n h = parent_at mem a h"
proof -
  have "bn_height (mem ! a) = g" using parent_at_wf[OF assms(1,2), of g] assms by (metis order.trans option.inject)
  moreover have "nat (bn_height (mem ! n) - h) = nat (bn_height (mem ! n) - g) + nat (g - h)"
    using assms(3-5) by simp
  ultimately show ?thesis using assms(3-6) by (simp add: parent_at_def nth_parent_add split: if_splits)
qed

lemma Ancestor_loop_correct:
  assumes "wf_heap mem" "0 \<le> h"
  shows "n < length mem \<Longrightarrow> h \<le> bn_height (mem ! n) \<Longrightarrow> Ancestor_loop mem h (Some n) = Some (parent_at mem n h)"
proof (induction n rule: less_induct)
  case (less n)
  show ?case
  proof (cases "bn_height (mem ! n) = h")
    case True
    then show ?thesis using assms(2) by (subst Ancestor_loop.simps) (simp add: parent_at_def)
  next
    case False
    then have h: "h < bn_height (mem ! n)" using less.prems(2) by simp
    then obtain p where p: "parent (mem ! n) = Some p"
      using parent_exists[OF assms(1) less.prems(1)] assms(2) by auto
    note wp = wf_parent[OF assms(1) less.prems(1) p]
    have step: "parent_at mem n h = parent_at mem p h"
      using parent_at_step[OF assms(1) less.prems(1) p assms(2) h] .
    let ?g = "getAncestorHeight (bn_height (mem ! n))"
    have g: "0 \<le> ?g" "?g \<le> bn_height (mem ! p)"
      using getAncestorHeight_bounds[of "bn_height (mem ! n)"] wp h assms(2) by simp_all
    obtain a where a: "parent_at mem p ?g = Some a" "a \<le> p" "a < length mem" "bn_height (mem ! a) = ?g"
      using parent_at_wf[OF assms(1) wp(2) g] .
    show ?thesis
    proof (cases "?g \<ge> h")
      case True
      then have "Ancestor_loop mem h (Some n) = Ancestor_loop mem h (Some a)"
        using False a wp(5) by (subst Ancestor_loop.simps) simp
      also have "\<dots> = Some (parent_at mem a h)" using less.IH[of a] a wp(1) True by simp
      also have "parent_at mem a h = parent_at mem n h"
        using parent_at_trans[OF assms(1) wp(2) assms(2) True g(2) a(1)] step by simp
      finally show ?thesis .
    next
      case no_skip: False
      then have "Ancestor_loop mem h (Some n) = Ancestor_loop mem h (Some p)"
        using False p by (subst Ancestor_loop.simps) simp
      also have "\<dots> = Some (parent_at mem p h)" using less.IH[of p] wp h by simp
      finally show ?thesis using step by simp
    qed
  qed
qed

lemma Ancestor_eq: "wf_heap mem \<Longrightarrow> n < length mem \<Longrightarrow> Ancestor mem n h = Some (parent_at mem n h)"
  by (simp add: Ancestor_def Ancestor_loop_correct) (simp add: parent_at_def)

section \<open>Growing and updating the heap\<close>

lemma nth_parent_append:
  "wf_heap mem \<Longrightarrow> n < length mem \<Longrightarrow> nth_parent (mem @ xs) k n = nth_parent mem k n"
proof (induction k arbitrary: n)
  case (Suc k)
  then show ?case using wf_parent(2)[of mem n] by (auto simp: nth_append split: option.splits)
qed simp

lemma parent_at_append: "wf_heap mem \<Longrightarrow> n < length mem \<Longrightarrow> parent_at (mem @ xs) n h = parent_at mem n h"
  by (simp add: parent_at_def nth_parent_append nth_append)

lemma wf_heap_snoc:
  assumes "wf_heap mem" "wf_node (mem @ [node]) (length mem)"
  shows "wf_heap (mem @ [node])"
  unfolding wf_heap_def
proof (intro allI impI)
  fix n
  assume n: "n < length (mem @ [node])"
  show "wf_node (mem @ [node]) n"
  proof (cases "n < length mem")
    case True
    have "wf_node mem n" using assms(1) True by (simp add: wf_heap_def)
    moreover have "p < length mem" if "parent (mem ! n) = Some p" for p
      using wf_parent(2)[OF assms(1) True that] .
    ultimately show ?thesis using True
      by (auto simp: wf_node_def nth_append parent_at_append[OF assms(1)] split: option.splits)
  next
    case False
    then show ?thesis using n assms(2) by (simp add: less_Suc_eq)
  qed
qed

text \<open>Changing a node's status leaves the shape of the tree alone.\<close>

definition set_status :: "heap \<Rightarrow> nid \<Rightarrow> blockStatus \<Rightarrow> heap" where
  "set_status mem n st = mem[n := (mem ! n)\<lparr>status := st\<rparr>]"

lemma set_status_shape [simp]:
  "length (set_status mem n st) = length mem"
  "m < length mem \<Longrightarrow> parent (set_status mem n st ! m) = parent (mem ! m)"
  "m < length mem \<Longrightarrow> ancestor (set_status mem n st ! m) = ancestor (mem ! m)"
  "m < length mem \<Longrightarrow> bn_height (set_status mem n st ! m) = bn_height (mem ! m)"
  "m < length mem \<Longrightarrow> bn_hash (set_status mem n st ! m) = bn_hash (mem ! m)"
  "m < length mem \<Longrightarrow> workSum (set_status mem n st ! m) = workSum (mem ! m)"
  by (cases "n < length mem"; auto simp: set_status_def nth_list_update)+

lemma nth_parent_set_status:
  "wf_heap mem \<Longrightarrow> m < length mem \<Longrightarrow> nth_parent (set_status mem n st) k m = nth_parent mem k m"
proof (induction k arbitrary: m)
  case (Suc k)
  then show ?case using wf_parent(2)[of mem m] by (auto split: option.splits)
qed simp

lemma wf_heap_set_status:
  assumes "wf_heap mem"
  shows "wf_heap (set_status mem n st)"
  unfolding wf_heap_def
proof (intro allI impI)
  fix m
  assume "m < length (set_status mem n st)"
  then have m: "m < length mem" by simp
  have "parent_at (set_status mem n st) p h = parent_at mem p h" if "p < length mem" for p h
    using that assms by (simp add: parent_at_def nth_parent_set_status)
  moreover have "wf_node mem m" using assms m by (simp add: wf_heap_def)
  ultimately show "wf_node (set_status mem n st) m"
    using m wf_parent(2)[OF assms m] by (auto simp: wf_node_def split: option.splits)
qed

section \<open>The interface HeaderCtx\<close>

text \<open>What a user of the interface relies on: heights count parents, and the relative ancestor is the
  iterated parent.\<close>

fun iter_parent :: "('n \<Rightarrow> 'n option) \<Rightarrow> nat \<Rightarrow> 'n \<Rightarrow> 'n option" where
  "iter_parent Parent 0 n = Some n"
| "iter_parent Parent (Suc k) n = (case Parent n of None \<Rightarrow> None | Some p \<Rightarrow> iter_parent Parent k p)"

locale header_ctx =
  fixes valid :: "'n \<Rightarrow> bool"
    and Height :: "'n \<Rightarrow> int"
    and Timestamp :: "'n \<Rightarrow> int"
    and Parent :: "'n \<Rightarrow> 'n option"
    and RelativeAncestorCtx :: "'n \<Rightarrow> int \<Rightarrow> 'n option"
  assumes Height_nonneg: "valid n \<Longrightarrow> 0 \<le> Height n"
    and Parent_None: "valid n \<Longrightarrow> Parent n = None \<longleftrightarrow> Height n = 0"
    and Parent_Some: "valid n \<Longrightarrow> Parent n = Some p \<Longrightarrow> valid p \<and> Height p = Height n - 1"
    and Relative: "valid n \<Longrightarrow> 0 \<le> d \<Longrightarrow> d < 2 ^ 31 \<Longrightarrow>
      RelativeAncestorCtx n d = (if d \<le> Height n then iter_parent Parent (nat d) n else None)"
begin

lemma collect_length: "valid n \<Longrightarrow> length (collect_timestamps Timestamp Parent k (Some n)) = min k (nat (Height n + 1))"
proof (induction k arbitrary: n)
  case (Suc k)
  show ?case
  proof (cases "Parent n")
    case None
    then show ?thesis using Parent_None[OF Suc.prems] by (cases k) simp_all
  next
    case (Some p)
    then have p: "valid p" "Height p = Height n - 1" using Parent_Some[OF Suc.prems] by simp_all
    then have "nat (Height n + 1) = Suc (nat (Height p + 1))" using Height_nonneg[of p] by simp
    then show ?thesis using Suc.IH[OF p(1)] Some by simp
  qed
qed simp

lemma iter_parent_Height:
  "valid n \<Longrightarrow> int k \<le> Height n \<Longrightarrow> \<exists>a. iter_parent Parent k n = Some a \<and> valid a \<and> Height a = Height n - int k"
proof (induction k arbitrary: n)
  case (Suc k)
  then obtain p where p: "Parent n = Some p" using Parent_None[of n] by fastforce
  have "valid p" "Height p = Height n - 1" using Parent_Some[OF Suc.prems(1) p] by simp_all
  then show ?case using Suc.IH[of p] Suc.prems(2) p by (simp add: diff_diff_eq)
qed auto

lemma Relative_Height:
  "valid n \<Longrightarrow> 0 \<le> d \<Longrightarrow> d < 2 ^ 31 \<Longrightarrow> d \<le> Height n \<Longrightarrow>
    \<exists>a. RelativeAncestorCtx n d = Some a \<and> valid a \<and> Height a = Height n - d"
  using iter_parent_Height[of n "nat d"] by (simp add: Relative)

end

text \<open>A node in its heap implements the interface.\<close>

definition ctx_valid :: "heap \<times> nid \<Rightarrow> bool" where
  "ctx_valid c \<longleftrightarrow> wf_heap (fst c) \<and> snd c < length (fst c)"

definition ctx_Height :: "heap \<times> nid \<Rightarrow> int" where
  "ctx_Height c = bn_height (fst c ! snd c)"

definition ctx_Bits :: "heap \<times> nid \<Rightarrow> uint32" where
  "ctx_Bits c = bn_bits (fst c ! snd c)"

definition ctx_Timestamp :: "heap \<times> nid \<Rightarrow> int" where
  "ctx_Timestamp c = bn_timestamp (fst c ! snd c)"

definition ctx_Parent :: "heap \<times> nid \<Rightarrow> (heap \<times> nid) option" where
  "ctx_Parent c = map_option (Pair (fst c)) (parent (fst c ! snd c))"

definition ctx_RelativeAncestorCtx :: "heap \<times> nid \<Rightarrow> int \<Rightarrow> (heap \<times> nid) option" where
  "ctx_RelativeAncestorCtx c distance =
    (case RelativeAncestor (fst c) (snd c) distance of
       Some (Some a) \<Rightarrow> Some (fst c, a)
     | _ \<Rightarrow> None)"

lemma iter_ctx_Parent: "iter_parent ctx_Parent k (mem, n) = map_option (Pair mem) (nth_parent mem k n)"
  by (induction k arbitrary: n) (auto simp: ctx_Parent_def split: option.splits)

interpretation node_ctx: header_ctx ctx_valid ctx_Height ctx_Timestamp ctx_Parent ctx_RelativeAncestorCtx
proof
  fix c :: "heap \<times> nid"
  assume c: "ctx_valid c"
  obtain mem n where mn: "c = (mem, n)" by (cases c)
  have wf: "wf_heap mem" "n < length mem" using c by (simp_all add: ctx_valid_def mn)
  note hs = height_nonneg[OF wf] height_bound[OF wf]
  show "0 \<le> ctx_Height c" using hs by (simp add: ctx_Height_def mn)
  show "ctx_Parent c = None \<longleftrightarrow> ctx_Height c = 0"
    using wf_root(1)[OF wf] wf_parent(2,3)[OF wf] height_nonneg[OF wf(1)]
    by (cases "parent (mem ! n)") (fastforce simp: ctx_Parent_def ctx_Height_def mn)+
  show "ctx_valid p \<and> ctx_Height p = ctx_Height c - 1" if "ctx_Parent c = Some p" for p
    using that wf_parent(2,3)[OF wf] wf by (auto simp: ctx_Parent_def ctx_valid_def ctx_Height_def mn)
  show "ctx_RelativeAncestorCtx c d = (if d \<le> ctx_Height c then iter_parent ctx_Parent (nat d) c else None)"
    if "0 \<le> d" "d < 2 ^ 31" for d
    using that hs by (auto simp: ctx_RelativeAncestorCtx_def RelativeAncestor_def Ancestor_eq[OF wf]
        ctx_Height_def iter_ctx_Parent mn i32_id parent_at_def split: option.splits)
qed

section \<open>Medians\<close>

lemma sorted_nth_ge_iff:
  fixes ys :: "int list"
  assumes "sorted ys" "i < length ys"
  shows "m \<le> ys ! i \<longleftrightarrow> length ys - i \<le> length (filter ((\<le>) m) ys)"
proof -
  have split: "length (filter ((\<le>) m) ys) =
      length (filter ((\<le>) m) (take k ys)) + length (filter ((\<le>) m) (drop k ys))" for k
    by (subst append_take_drop_id[of k ys, symmetric], subst filter_append) simp
  show ?thesis
  proof
    assume m: "m \<le> ys ! i"
    have "m \<le> x" if x: "x \<in> set (drop i ys)" for x
    proof -
      obtain j where "j < length (drop i ys)" "x = drop i ys ! j" using x unfolding in_set_conv_nth by blast
      then have "i + j < length ys" "x = ys ! (i + j)" by simp_all
      then show ?thesis using m sorted_nth_mono[OF assms(1), of i "i + j"] by simp
    qed
    then have "filter ((\<le>) m) (drop i ys) = drop i ys" by simp
    then show "length ys - i \<le> length (filter ((\<le>) m) ys)" using split[of i] by simp
  next
    assume c: "length ys - i \<le> length (filter ((\<le>) m) ys)"
    show "m \<le> ys ! i"
    proof (rule ccontr)
      assume "\<not> m \<le> ys ! i"
      then have lt: "ys ! i < m" by simp
      have "x < m" if "x \<in> set (take (Suc i) ys)" for x
      proof -
        obtain j where "j < length (take (Suc i) ys)" "x = take (Suc i) ys ! j"
          using \<open>x \<in> set (take (Suc i) ys)\<close> unfolding in_set_conv_nth by blast
        then show ?thesis using lt sorted_nth_mono[OF assms(1), of j i] assms(2) by simp
      qed
      then have "filter ((\<le>) m) (take (Suc i) ys) = []" by (force simp: filter_empty_conv)
      then have "length (filter ((\<le>) m) ys) \<le> length (drop (Suc i) ys)"
        using split[of "Suc i"] length_filter_le[of "(\<le>) m" "drop (Suc i) ys"] by simp
      then show False using c assms(2) by simp
    qed
  qed
qed

definition median :: "int list \<Rightarrow> int" where
  "median xs = sort xs ! (length xs div 2)"

lemma median_ge_iff:
  assumes "xs \<noteq> []"
  shows "m \<le> median xs \<longleftrightarrow> length xs - length xs div 2 \<le> length (filter ((\<le>) m) xs)"
proof -
  have "length (filter ((\<le>) m) (sort xs)) = length (filter ((\<le>) m) xs)" by (simp add: filter_sort)
  then show ?thesis using sorted_nth_ge_iff[of "sort xs" "length xs div 2" m] assms by (simp add: median_def)
qed

text \<open>A window of at most \<open>2 * k + 1\<close> values that slides by one, taking in a value not below the median.\<close>

lemma median_slide:
  assumes "xs \<noteq> []" "length xs \<le> 2 * k + 1" "median xs \<le> t"
  shows "median xs \<le> median (t # take (2 * k) xs)"
proof -
  let ?m = "median xs"
  let ?c = "\<lambda>ys. length (filter ((\<le>) ?m) ys)"
  have c: "length xs - length xs div 2 \<le> ?c xs" using median_ge_iff[OF assms(1), of ?m] by simp
  have "?c xs = ?c (take (2 * k) xs) + ?c (drop (2 * k) xs)"
    by (subst append_take_drop_id[of "2 * k" xs, symmetric], subst filter_append) simp
  moreover have "?c (drop (2 * k) xs) \<le> length xs - 2 * k"
    using length_filter_le[of "(\<le>) ?m" "drop (2 * k) xs"] by simp
  ultimately have "?c xs \<le> ?c (take (2 * k) xs) + (length xs - 2 * k)" by simp
  with c have "length xs - length xs div 2 \<le> ?c (take (2 * k) xs) + (length xs - 2 * k)" by linarith
  moreover have "?c (t # take (2 * k) xs) = Suc (?c (take (2 * k) xs))" using assms(3) by simp
  moreover have "length (t # take (2 * k) xs) = (if length xs = 2 * k + 1 then 2 * k + 1 else length xs + 1)"
    using assms(2) by simp
  ultimately have "length (t # take (2 * k) xs) - length (t # take (2 * k) xs) div 2 \<le> ?c (t # take (2 * k) xs)"
    using assms(2) by (auto split: if_splits)
  then show ?thesis using median_ge_iff[of "t # take (2 * k) xs" ?m] by simp
qed

lemma collect_take:
  "k \<le> j \<Longrightarrow> collect_timestamps Timestamp Parent k n = take k (collect_timestamps Timestamp Parent j n)"
proof (induction k arbitrary: j n)
  case (Suc k)
  then show ?case by (cases j; cases n) simp_all
qed simp

lemma CalcPastMedianTime_median:
  "CalcPastMedianTime Timestamp Parent n = median (collect_timestamps Timestamp Parent 11 (Some n))"
  by (simp add: CalcPastMedianTime_def Let_def median_def medianTimeBlocks_def)

lemma new_node:
  assumes "wf_heap mem" "p < length mem" "bn_height (mem ! p) < 2 ^ 31 - 1"
  shows "\<exists>node. newBlockNode BlockHash mem hdr (Some p) = Some (mem @ [node], length mem)
    \<and> wf_heap (mem @ [node]) \<and> parent node = Some p \<and> bn_height node = bn_height (mem ! p) + 1
    \<and> workSum node = workSum (mem ! p) + CalcWork (hBits hdr) \<and> bn_timestamp node = time_Unix (hTimestamp hdr)
    \<and> bn_hash node = BlockHash hdr"
proof -
  have h: "0 \<le> bn_height (mem ! p)" using height_nonneg[OF assms(1,2)] .
  let ?H = "bn_height (mem ! p) + 1"
  have wrap: "i32 ?H = ?H" using h assms(3) by (simp add: i32_id)
  define node where "node = \<lparr>parent = Some p, ancestor = parent_at mem p (getAncestorHeight ?H),
    bn_hash = BlockHash hdr, workSum = workSum (mem ! p) + CalcWork (hBits hdr), bn_height = ?H,
    bn_version = hVersion hdr, bn_bits = hBits hdr, bn_nonce = hNonce hdr,
    bn_timestamp = time_Unix (hTimestamp hdr), bn_merkleRoot = hMerkleRoot hdr, status = statusNone\<rparr>"
  have new: "newBlockNode BlockHash mem hdr (Some p) = Some (mem @ [node], length mem)"
    by (simp add: newBlockNode_def initBlockNode_def buildAncestor_def wrap Ancestor_eq[OF assms(1,2)] node_def)
  have "wf_node (mem @ [node]) (length mem)"
    using assms by (simp add: wf_node_def nth_append node_def parent_at_append)
  then have "wf_heap (mem @ [node])" by (rule wf_heap_snoc[OF assms(1)])
  then show ?thesis using new by (auto simp: node_def)
qed

text \<open>
  The past median time never decreases along a chain whose every block is later than the past
  median time of its parent, which is what the header check demands.
\<close>

lemma median_time_monotone:
  assumes "wf_heap mem" "n < length mem" "parent (mem ! n) = Some p"
    "CalcPastMedianTime ctx_Timestamp ctx_Parent (mem, p) < bn_timestamp (mem ! n)"
  shows "CalcPastMedianTime ctx_Timestamp ctx_Parent (mem, p) \<le> CalcPastMedianTime ctx_Timestamp ctx_Parent (mem, n)"
proof -
  let ?c = "\<lambda>k n. collect_timestamps ctx_Timestamp ctx_Parent k (Some (mem, n))"
  have valid: "ctx_valid (mem, p)" using wf_parent(2)[OF assms(1-3)] assms(1) by (simp add: ctx_valid_def)
  have len: "length (?c 11 p) \<le> 2 * 5 + 1" using node_ctx.collect_length[OF valid, of 11] by simp
  have "?c 11 p \<noteq> []" by (simp add: numeral_nat)
  moreover have "?c 11 n = bn_timestamp (mem ! n) # take (2 * 5) (?c 11 p)"
    using assms(3) collect_take[of 10 11 ctx_Timestamp ctx_Parent "Some (mem, p)"]
      collect_timestamps.simps(3)[of ctx_Timestamp ctx_Parent 10 "(mem, n)"]
    by (simp add: ctx_Parent_def ctx_Timestamp_def)
  ultimately show ?thesis
    using median_slide[of "?c 11 p" 5 "bn_timestamp (mem ! n)"] len assms(4)
    by (simp add: CalcPastMedianTime_median)
qed

section \<open>Properties\<close>

text \<open>
  C26: on a well-formed block tree the skip-list search for an ancestor returns, and returns the node
  that following parent pointers one by one would reach: nil outside the range of heights, and
  otherwise the node at exactly the requested height.
\<close>

theorem Ancestor_correct:
  assumes "wf_heap mem" "n < length mem"
  shows "Ancestor mem n h = Some (parent_at mem n h)
    \<and> (if 0 \<le> h \<and> h \<le> bn_height (mem ! n)
        then \<exists>a. parent_at mem n h = Some a \<and> a \<le> n \<and> bn_height (mem ! a) = h
        else parent_at mem n h = None)"
proof -
  have "\<exists>a. parent_at mem n h = Some a \<and> a \<le> n \<and> bn_height (mem ! a) = h"
    if "0 \<le> h" "h \<le> bn_height (mem ! n)" using parent_at_wf[OF assms that] by metis
  then show ?thesis by (auto simp: Ancestor_eq[OF assms] parent_at_def)
qed

text \<open>
  Creating a node above a node of a well-formed tree (below the largest height) returns, keeps the
  tree well formed, leaves every existing node as it is, and gives the node the next height and the
  accumulated work.
\<close>

theorem newBlockNode_wf:
  assumes "wf_heap mem" "p < length mem" "bn_height (mem ! p) < 2 ^ 31 - 1"
  shows "\<exists>node. newBlockNode BlockHash mem hdr (Some p) = Some (mem @ [node], length mem)
    \<and> wf_heap (mem @ [node]) \<and> parent node = Some p
    \<and> bn_height node = bn_height (mem ! p) + 1
    \<and> workSum node = workSum (mem ! p) + CalcWork (hBits hdr)"
  using new_node[OF assms] by blast

text \<open>A small tree for the witnesses: a root and two blocks above it.\<close>

definition sample_node :: "nid option \<Rightarrow> nid option \<Rightarrow> int \<Rightarrow> int \<Rightarrow> blockNode" where
  "sample_node par anc h t = \<lparr>parent = par, ancestor = anc, bn_hash = [word_of_int h], workSum = h,
    bn_height = h, bn_version = 1, bn_bits = 0x207fffff, bn_nonce = 0, bn_timestamp = t,
    bn_merkleRoot = [], status = statusNone\<rparr>"

definition sample_heap :: heap where
  "sample_heap = [sample_node None None 0 100, sample_node (Some 0) (Some 0) 1 160, sample_node (Some 1) (Some 0) 2 220]"

lemma sample_heap_wf: "wf_heap sample_heap"
  by (auto simp: wf_heap_def wf_node_def sample_heap_def sample_node_def less_Suc_eq numeral_3_eq_3 numeral_2_eq_2
      parent_at_def getAncestorHeight_def invertLowestOne_def i32_def)

theorem Ancestor_correct_witness: "\<exists>a. Ancestor sample_heap 2 0 = Some (Some a) \<and> bn_height (sample_heap ! a) = 0"
  using Ancestor_correct[OF sample_heap_wf, of 2 0] by (auto simp: sample_heap_def sample_node_def)

theorem newBlockNode_wf_witness:
  "\<exists>node. newBlockNode (\<lambda>h. hMerkleRoot h) sample_heap (node_Header sample_heap 2) (Some 2)
      = Some (sample_heap @ [node], 3) \<and> wf_heap (sample_heap @ [node]) \<and> bn_height node = 3"
  using newBlockNode_wf[OF sample_heap_wf, of 2 "\<lambda>h. hMerkleRoot h" "node_Header sample_heap 2"]
  by (auto simp: sample_heap_def sample_node_def)

end
