(* ===== verification/Chain_View.thy ===== *)
theory Chain_View
  imports Block_Node
begin

text \<open>
  A flat view of one branch of the block tree (chainview.go).  The slice of node pointers is a list of
  optional nodes indexed by height; its capacity does not matter for what it holds.  The methods with an
  upper-case name only take the mutex around the lower-case ones modelled here.  Loops that follow
  pointers are partial functions; the theorems show that they return on a well-formed tree.
\<close>

section \<open>The code\<close>

definition log2FloorMasks :: "uint32 list" where
  "log2FloorMasks = [0xffff0000, 0xff00, 0xf0, 0xc, 0x2]"

fun fastLog2Floor_loop :: "uint32 list \<Rightarrow> nat \<Rightarrow> nat \<Rightarrow> uint32 \<Rightarrow> nat" where
  "fastLog2Floor_loop [] e rv n = rv"
| "fastLog2Floor_loop (m # ms) e rv n =
    (if n AND m \<noteq> 0 then fastLog2Floor_loop ms (e div 2) (rv + e) (drop_bit e n)
     else fastLog2Floor_loop ms (e div 2) rv n)"

definition fastLog2Floor :: "uint32 \<Rightarrow> nat" where
  "fastLog2Floor n = fastLog2Floor_loop log2FloorMasks 16 0 n"

type_synonym chainView = "nid option list"

definition genesis :: "chainView \<Rightarrow> nid option" where
  "genesis c = (if length c = 0 then None else c ! 0)"

definition tip :: "chainView \<Rightarrow> nid option" where
  "tip c = (if length c = 0 then None else c ! (length c - 1))"

text \<open>
  The loop of \<open>setTip\<close>.  \<open>None\<close> also stands for an index out of range, which a height outside the slice
  would cause.
\<close>

partial_function (option) setTip_loop :: "heap \<Rightarrow> chainView \<Rightarrow> nid option \<Rightarrow> chainView option" where
  "setTip_loop mem c node =
    (case node of
       None \<Rightarrow> Some c
     | Some n \<Rightarrow>
         let h = bn_height (mem ! n)
         in if h < 0 \<or> int (length c) \<le> h then None
            else if c ! nat h = Some n then Some c
            else setTip_loop mem (c[nat h := Some n]) (parent (mem ! n)))"

declare setTip_loop.simps [code]

definition setTip :: "heap \<Rightarrow> chainView \<Rightarrow> nid option \<Rightarrow> chainView option" where
  "setTip mem c node =
    (case node of
       None \<Rightarrow> Some []
     | Some n \<Rightarrow>
         let needed = nat (i32 (bn_height (mem ! n) + 1))
         in setTip_loop mem (take needed c @ replicate (needed - length c) None) node)"

definition newChainView :: "heap \<Rightarrow> nid option \<Rightarrow> chainView option" where
  "newChainView mem t = setTip mem [] t"

definition view_height :: "chainView \<Rightarrow> int" where
  "view_height c = int (length c) - 1"

definition nodeByHeight :: "chainView \<Rightarrow> int \<Rightarrow> nid option" where
  "nodeByHeight c h = (if h < 0 \<or> h \<ge> int (length c) then None else c ! nat h)"

definition view_Equals :: "chainView \<Rightarrow> chainView \<Rightarrow> bool" where
  "view_Equals c other \<longleftrightarrow> length c = length other \<and> tip c = tip other"

definition contains :: "heap \<Rightarrow> chainView \<Rightarrow> nid \<Rightarrow> bool" where
  "contains mem c n \<longleftrightarrow> nodeByHeight c (bn_height (mem ! n)) = Some n"

definition view_next :: "heap \<Rightarrow> chainView \<Rightarrow> nid option \<Rightarrow> nid option" where
  "view_next mem c node =
    (case node of
       None \<Rightarrow> None
     | Some n \<Rightarrow> if \<not> contains mem c n then None else nodeByHeight c (i32 (bn_height (mem ! n) + 1)))"

partial_function (option) findFork_loop :: "heap \<Rightarrow> chainView \<Rightarrow> nid option \<Rightarrow> nid option option" where
  "findFork_loop mem c node =
    (case node of
       None \<Rightarrow> Some None
     | Some n \<Rightarrow> if contains mem c n then Some (Some n) else findFork_loop mem c (parent (mem ! n)))"

declare findFork_loop.simps [code]

definition findFork :: "heap \<Rightarrow> chainView \<Rightarrow> nid option \<Rightarrow> nid option option" where
  "findFork mem c node =
    (case node of
       None \<Rightarrow> Some None
     | Some n \<Rightarrow>
         let chainHeight = view_height c
         in if bn_height (mem ! n) > chainHeight
            then Option.bind (Ancestor mem n chainHeight) (findFork_loop mem c)
            else findFork_loop mem c (Some n))"

text \<open>The locator holds the hashes of the visited nodes; \<open>len\<close> is its length so far.\<close>

partial_function (option) blockLocator_loop ::
  "heap \<Rightarrow> chainView \<Rightarrow> nat \<Rightarrow> int \<Rightarrow> nid option \<Rightarrow> nid list option" where
  "blockLocator_loop mem c len step node =
    (case node of
       None \<Rightarrow> Some []
     | Some n \<Rightarrow>
         if bn_height (mem ! n) = 0 then Some [n]
         else let h = i32 (bn_height (mem ! n) - step);
                  h = (if h < 0 then 0 else h)
              in Option.bind (if contains mem c n then Some (nodeByHeight c h) else Ancestor mem n h)
                   (\<lambda>next. Option.bind
                     (blockLocator_loop mem c (len + 1) (if len + 1 > 10 then i32 (step * 2) else step) next)
                     (\<lambda>locator. Some (n # locator))))"

declare blockLocator_loop.simps [code]

definition blockLocator :: "heap \<Rightarrow> chainView \<Rightarrow> nid option \<Rightarrow> hash list option" where
  "blockLocator mem c node =
    (case (case node of None \<Rightarrow> tip c | Some n \<Rightarrow> Some n) of
       None \<Rightarrow> Some []
     | Some n \<Rightarrow> map_option (map (\<lambda>n. bn_hash (mem ! n))) (blockLocator_loop mem c 0 1 (Some n)))"

section \<open>The view of a tip\<close>

definition view_of :: "heap \<Rightarrow> nid \<Rightarrow> chainView" where
  "view_of mem t = map (\<lambda>h. parent_at mem t (int h)) [0..<nat (bn_height (mem ! t) + 1)]"

text \<open>A view is empty or the branch of some node.\<close>

definition view_ok :: "heap \<Rightarrow> chainView \<Rightarrow> bool" where
  "view_ok mem c \<longleftrightarrow> c = [] \<or> (\<exists>t < length mem. c = view_of mem t)"

lemma length_view_of: "wf_heap mem \<Longrightarrow> t < length mem \<Longrightarrow> int (length (view_of mem t)) = bn_height (mem ! t) + 1"
  using height_nonneg[of mem t] by (simp add: view_of_def)

lemma parent_at_self [simp]: "0 \<le> bn_height (mem ! n) \<Longrightarrow> parent_at mem n (bn_height (mem ! n)) = Some n"
  by (simp add: parent_at_def)

lemma parent_at_height:
  assumes "wf_heap mem" "n < length mem" "parent_at mem n h = Some a"
  shows "bn_height (mem ! a) = h" "a \<le> n" "a < length mem" "0 \<le> h" "h \<le> bn_height (mem ! n)"
proof -
  show h: "0 \<le> h" "h \<le> bn_height (mem ! n)" using assms(3) by (auto simp: parent_at_def split: if_splits)
  then show "bn_height (mem ! a) = h" "a \<le> n" "a < length mem"
    using parent_at_wf[OF assms(1,2) h] assms(3) by (metis option.inject)+
qed

lemma nodeByHeight_view_of:
  assumes "wf_heap mem" "t < length mem"
  shows "nodeByHeight (view_of mem t) h = parent_at mem t h"
  using height_nonneg[OF assms] by (auto simp: nodeByHeight_def view_of_def parent_at_def)

lemma contains_view_of:
  assumes "wf_heap mem" "t < length mem"
  shows "contains mem (view_of mem t) n \<longleftrightarrow> parent_at mem t (bn_height (mem ! n)) = Some n"
  by (simp add: contains_def nodeByHeight_view_of[OF assms])

text \<open>Two branches that meet agree below the meeting point.\<close>

lemma branches_agree:
  assumes "wf_heap mem" "s < length mem" "t < length mem"
    "parent_at mem s g = Some a" "parent_at mem t g = Some a" "0 \<le> h" "h \<le> g"
  shows "parent_at mem s h = parent_at mem t h"
  using parent_at_trans[OF assms(1,2,6,7) parent_at_height(5)[OF assms(1,2,4)] assms(4)]
    parent_at_trans[OF assms(1,3,6,7) parent_at_height(5)[OF assms(1,3,5)] assms(5)] by simp

section \<open>Moving the tip\<close>

text \<open>Every entry up to height \<open>k\<close> determines the entries below it.\<close>

definition closed_upto :: "heap \<Rightarrow> chainView \<Rightarrow> nat \<Rightarrow> bool" where
  "closed_upto mem c k \<longleftrightarrow>
    (\<forall>h a. h < k \<longrightarrow> c ! h = Some a \<longrightarrow> (\<forall>h' \<le> h. c ! h' = parent_at mem a (int h')))"

lemma setTip_loop_correct:
  assumes wf: "wf_heap mem" and t: "t < length mem"
  shows "length c = nat (bn_height (mem ! t) + 1) \<Longrightarrow> n < length mem
    \<Longrightarrow> parent_at mem t (bn_height (mem ! n)) = Some n
    \<Longrightarrow> (\<And>h. bn_height (mem ! n) < int h \<Longrightarrow> h < length c \<Longrightarrow> c ! h = parent_at mem t (int h))
    \<Longrightarrow> closed_upto mem c (nat (bn_height (mem ! n) + 1))
    \<Longrightarrow> setTip_loop mem c (Some n) = Some (view_of mem t)"
proof (induction n arbitrary: c rule: less_induct)
  case (less n)
  let ?h = "bn_height (mem ! n)"
  have h: "0 \<le> ?h" "?h \<le> bn_height (mem ! t)" using parent_at_height[OF wf t less.prems(3)] by simp_all
  then have range: "\<not> (?h < 0 \<or> int (length c) \<le> ?h)" using less.prems(1) by simp
  have len: "length c = length (view_of mem t)" using less.prems(1) by (simp add: view_of_def)
  show ?case
  proof (cases "c ! nat ?h = Some n")
    case True
    have "c = view_of mem t"
    proof (rule nth_equalityI[OF len])
      fix i
      assume i: "i < length c"
      have "c ! i = parent_at mem t (int i)"
      proof (cases "?h < int i")
        case True
        then show ?thesis using less.prems(4) i by simp
      next
        case False
        then have "i \<le> nat ?h" using h by simp
        then have "c ! i = parent_at mem n (int i)"
          using less.prems(5)[unfolded closed_upto_def, rule_format, of "nat ?h" n i] True h by simp
        also have "\<dots> = parent_at mem t (int i)"
          using parent_at_trans[OF wf t _ _ h(2) less.prems(3), of "int i"] False by simp
        finally show ?thesis .
      qed
      then show "c ! i = view_of mem t ! i" using i less.prems(1) by (simp add: view_of_def)
    qed
    then show ?thesis using True range by (subst setTip_loop.simps) (simp add: Let_def)
  next
    case False
    let ?c = "c[nat ?h := Some n]"
    have step: "setTip_loop mem c (Some n) = setTip_loop mem ?c (parent (mem ! n))"
      using False range by (subst setTip_loop.simps) (simp add: Let_def)
    have above: "?c ! i = parent_at mem t (int i)" if "?h \<le> int i" "i < length c" for i
      using that less.prems(3,4) h by (cases "nat ?h = i") (auto simp: nth_list_update)
    show ?thesis
    proof (cases "parent (mem ! n)")
      case None
      then have "?h = 0" using wf_root[OF wf less.prems(2)] by simp
      then have "?c = view_of mem t"
        using above len less.prems(1) by (intro nth_equalityI) (simp_all add: view_of_def)
      then show ?thesis using step None by (simp add: setTip_loop.simps)
    next
      case (Some p)
      note wp = wf_parent[OF wf less.prems(2) Some]
      have p: "parent_at mem t (bn_height (mem ! p)) = Some p"
      proof -
        have "parent_at mem t (bn_height (mem ! p)) = parent_at mem n (bn_height (mem ! p))"
          using parent_at_trans[OF wf t _ _ h(2) less.prems(3)] height_nonneg[OF wf wp(2)] wp(3) by simp
        also have "\<dots> = parent_at mem p (bn_height (mem ! p))"
          using parent_at_step[OF wf less.prems(2) Some] height_nonneg[OF wf wp(2)] wp(3) by simp
        finally show ?thesis using height_nonneg[OF wf wp(2)] by simp
      qed
      have "setTip_loop mem ?c (Some p) = Some (view_of mem t)"
      proof (rule less.IH[OF wp(1) _ wp(2) p])
        show "length ?c = nat (bn_height (mem ! t) + 1)" using less.prems(1) by simp
        show "?c ! i = parent_at mem t (int i)" if "bn_height (mem ! p) < int i" "i < length ?c" for i
          using above that wp(3) by simp
        show "closed_upto mem ?c (nat (bn_height (mem ! p) + 1))"
          using less.prems(5) wp(3) by (simp add: closed_upto_def zless_nat_eq_int_zless) force
      qed
      then show ?thesis using step Some by simp
    qed
  qed
qed

lemma closed_view_of:
  assumes "wf_heap mem" "s < length mem" "k' \<le> length (take k (view_of mem s) @ replicate m None)"
  shows "closed_upto mem (take k (view_of mem s) @ replicate m None) k'"
  unfolding closed_upto_def
proof (intro allI impI)
  fix h a h'
  let ?c = "take k (view_of mem s) @ replicate m None"
  assume a: "?c ! h = Some a" "h' \<le> h" "h < k'"
  show "?c ! h' = parent_at mem a (int h')"
  proof (cases "h < length (take k (view_of mem s))")
    case True
    then have "parent_at mem s (int h) = Some a" "h' < length (take k (view_of mem s))"
      using a by (simp_all add: nth_append view_of_def)
    then show ?thesis
      using a(2) parent_at_trans[OF assms(1,2), of "int h'" "int h" a] parent_at_height(5)[OF assms(1,2), of "int h" a]
      by (simp add: nth_append view_of_def)
  next
    case False
    moreover from this have "h - length (take k (view_of mem s)) < m" using a(3) assms(3) by auto
    ultimately have "?c ! h = None" by (simp only: nth_append if_False nth_replicate)
    then show ?thesis using a(1) by simp
  qed
qed

lemma setTip_eq:
  assumes "wf_heap mem" "view_ok mem c" "t < length mem" "bn_height (mem ! t) < 2 ^ 31 - 1"
  shows "setTip mem c (Some t) = Some (view_of mem t)"
proof -
  let ?n = "nat (bn_height (mem ! t) + 1)"
  let ?c = "take ?n c @ replicate (?n - length c) None"
  have h: "0 \<le> bn_height (mem ! t)" using height_nonneg[OF assms(1,3)] .
  have wrap: "i32 (bn_height (mem ! t) + 1) = bn_height (mem ! t) + 1" using h assms(4) by (simp add: i32_id)
  have len: "length ?c = ?n" by simp
  have "closed_upto mem ?c ?n"
  proof (cases "c = []")
    case True
    then show ?thesis by (simp add: closed_upto_def)
  next
    case False
    then obtain s where s: "s < length mem" "c = view_of mem s" using assms(2) by (auto simp: view_ok_def)
    have "closed_upto mem (take ?n (view_of mem s) @ replicate (?n - length c) None) ?n"
      by (rule closed_view_of[OF assms(1) s(1)]) (simp add: s(2))
    then show ?thesis by (simp only: s(2))
  qed
  then have "setTip_loop mem ?c (Some t) = Some (view_of mem t)"
    using setTip_loop_correct[OF assms(1,3) len assms(3)] h len by simp
  then show ?thesis by (simp add: setTip_def Let_def wrap)
qed

section \<open>Fork points\<close>

text \<open>The highest node that two branches share, or nothing if they share none.\<close>

definition fork_point :: "heap \<Rightarrow> nid \<Rightarrow> nid \<Rightarrow> nid option \<Rightarrow> bool" where
  "fork_point mem t n r \<longleftrightarrow>
    (case r of
       None \<Rightarrow> \<forall>h a. parent_at mem n h = Some a \<longrightarrow> parent_at mem t h \<noteq> Some a
     | Some f \<Rightarrow> parent_at mem n (bn_height (mem ! f)) = Some f \<and> parent_at mem t (bn_height (mem ! f)) = Some f
         \<and> (\<forall>h a. h > bn_height (mem ! f) \<longrightarrow> parent_at mem n h = Some a \<longrightarrow> parent_at mem t h \<noteq> Some a))"

lemma fork_point_cong:
  assumes "\<And>h b. parent_at mem t h = Some b \<Longrightarrow> parent_at mem n h = Some b \<longleftrightarrow> parent_at mem m h = Some b"
  shows "fork_point mem t n r = fork_point mem t m r"
  using assms unfolding fork_point_def by (cases r) (simp; metis)+

lemma findFork_loop_correct:
  assumes wf: "wf_heap mem" and t: "t < length mem"
  shows "n < length mem \<Longrightarrow> \<exists>r. findFork_loop mem (view_of mem t) (Some n) = Some r
    \<and> fork_point mem t n r"
proof (induction n rule: less_induct)
  case (less n)
  let ?h = "bn_height (mem ! n)"
  have h: "0 \<le> ?h" using height_nonneg[OF wf less.prems] .
  show ?case
  proof (cases "contains mem (view_of mem t) n")
    case True
    then have "findFork_loop mem (view_of mem t) (Some n) = Some (Some n)" by (subst findFork_loop.simps) simp
    moreover have "parent_at mem t ?h = Some n" using True contains_view_of[OF wf t] by simp
    ultimately show ?thesis using h by (simp add: fork_point_def parent_at_def)
  next
    case False
    have top: "parent_at mem t ?h \<noteq> Some n" using False contains_view_of[OF wf t] by simp
    show ?thesis
    proof (cases "parent (mem ! n)")
      case None
      then have "?h = 0" using wf_root[OF wf less.prems] by simp
      have "findFork_loop mem (view_of mem t) (Some n) = Some None"
        using False None by (subst findFork_loop.simps, simp, subst findFork_loop.simps) simp
      moreover have "parent_at mem t g \<noteq> Some a" if "parent_at mem n g = Some a" for g a
        using that top \<open>?h = 0\<close> parent_at_height(4,5)[OF wf less.prems that] by (auto simp: parent_at_def)
      ultimately show ?thesis by (auto simp: fork_point_def)
    next
      case (Some p)
      note wp = wf_parent[OF wf less.prems Some]
      have step: "findFork_loop mem (view_of mem t) (Some n) = findFork_loop mem (view_of mem t) (Some p)"
        using False Some by (subst findFork_loop.simps) simp
      have "parent_at mem n g = parent_at mem p g" if "g \<noteq> ?h" for g
        using that parent_at_step[OF wf less.prems Some, of g] wp(3)
        by (cases "0 \<le> g \<and> g < ?h") (auto simp: parent_at_def)
      moreover have "parent_at mem n ?h = Some n" "parent_at mem p ?h = None"
        using h wp(3) by (simp_all add: parent_at_def)
      ultimately have "fork_point mem t n r = fork_point mem t p r" for r
        using top by (intro fork_point_cong) (metis option.distinct(1))
      then show ?thesis using less.IH[OF wp(1,2)] step by simp
    qed
  qed
qed

lemma findFork_spec:
  assumes wf: "wf_heap mem" and t: "t < length mem" and n: "n < length mem"
  shows "\<exists>r. findFork mem (view_of mem t) (Some n) = Some r
    \<and> fork_point mem t n r"
proof (cases "bn_height (mem ! n) > view_height (view_of mem t)")
  case False
  then have "findFork mem (view_of mem t) (Some n) = findFork_loop mem (view_of mem t) (Some n)"
    by (simp add: findFork_def)
  with findFork_loop_correct[OF wf t n] show ?thesis by simp
next
  case True
  have vh: "view_height (view_of mem t) = bn_height (mem ! t)"
    using length_view_of[OF wf t] by (simp add: view_height_def)
  have ht: "0 \<le> bn_height (mem ! t)" "bn_height (mem ! t) \<le> bn_height (mem ! n)"
    using True vh height_nonneg[OF wf t] by simp_all
  obtain a where a: "parent_at mem n (bn_height (mem ! t)) = Some a" "a \<le> n" "a < length mem"
      "bn_height (mem ! a) = bn_height (mem ! t)"
    using parent_at_wf[OF wf n ht] .
  have eq: "findFork mem (view_of mem t) (Some n) = findFork_loop mem (view_of mem t) (Some a)"
    using True by (simp add: findFork_def Ancestor_eq[OF wf n] vh a(1))
  have "parent_at mem n h = parent_at mem a h" if "h \<le> bn_height (mem ! t)" for h
    using that parent_at_trans[OF wf n _ that ht(2) a(1)] by (cases "0 \<le> h") (simp_all add: parent_at_def)
  then have "fork_point mem t n r = fork_point mem t a r" for r
    using parent_at_height(5)[OF wf t] by (intro fork_point_cong) metis
  then show ?thesis using findFork_loop_correct[OF wf t a(3)] eq by simp
qed

section \<open>Logarithm\<close>

lemma high_half_test:
  fixes n :: uint32
  assumes "unat n < 2 ^ (2 * e)" "2 * e \<le> 32"
  shows "(n AND (mask (2 * e) AND NOT (mask e)) = 0) = (unat n < 2 ^ e)"
proof -
  have n: "n AND mask (2 * e) = n" using assms(1) by (simp add: word_unat_eq_iff unat_and_mask)
  have "n AND (mask (2 * e) AND NOT (mask e)) = n AND NOT (mask e)" by (metis n and.assoc)
  then have "n AND (mask (2 * e) AND NOT (mask e)) = 0 \<longleftrightarrow> n AND NOT (mask e) = 0" by simp
  also have "\<dots> \<longleftrightarrow> n = n AND mask e" by (auto simp: bit_eq_iff bit_simps)
  also have "\<dots> \<longleftrightarrow> unat n = unat n mod 2 ^ e" by (simp add: word_unat_eq_iff unat_and_mask)
  also have "\<dots> \<longleftrightarrow> unat n < 2 ^ e" by (metis mod_less mod_less_divisor zero_less_numeral zero_less_power)
  finally show ?thesis .
qed

lemma log2_step:
  fixes n :: uint32
  assumes "unat n < 2 ^ (2 * e)" "2 * e \<le> 32" "m = mask (2 * e) AND NOT (mask e)" "0 < n"
  shows "\<exists>n' rv'. fastLog2Floor_loop (m # ms) e rv n = fastLog2Floor_loop ms (e div 2) (rv + rv') n'
    \<and> unat n' < 2 ^ e \<and> 0 < n' \<and> unat n div 2 ^ rv' = unat n'"
proof (cases "unat n < 2 ^ e")
  case True
  then show ?thesis using high_half_test[OF assms(1,2)] assms(3,4)
    by (intro exI[of _ n] exI[of _ 0]) simp
next
  case False
  have "unat n < 2 ^ e * 2 ^ e" using assms(1) by (simp add: mult_2 power_add)
  then have "unat (drop_bit e n) < 2 ^ e" by (simp add: unat_drop_bit div_less_iff_less_mult)
  moreover have "0 < unat (drop_bit e n)" using False by (simp add: unat_drop_bit div_greater_zero_iff)
  ultimately show ?thesis using high_half_test[OF assms(1,2)] False assms(3)
    by (intro exI[of _ "drop_bit e n"] exI[of _ e]) (simp add: unat_drop_bit word_less_nat_alt)
qed

lemma fastLog2Floor_correct:
  assumes "0 < n"
  shows "2 ^ fastLog2Floor n \<le> unat n \<and> unat n < 2 ^ (fastLog2Floor n + 1)"
proof -
  note fastLog2Floor_loop.simps(2) [simp del]
  have n0: "unat n < 2 ^ (2 * 16)" using unsigned_less[where 'a = nat, of n] by simp
  have masks: "(0xffff0000 :: uint32) = mask (2 * 16) AND NOT (mask 16)"
    "(0xff00 :: uint32) = mask (2 * 8) AND NOT (mask 8)" "(0xf0 :: uint32) = mask (2 * 4) AND NOT (mask 4)"
    "(0xc :: uint32) = mask (2 * 2) AND NOT (mask 2)" "(0x2 :: uint32) = mask (2 * 1) AND NOT (mask 1)"
    by (simp_all add: mask_eq_exp_minus_1)
  obtain n1 r1 where 1: "fastLog2Floor n = fastLog2Floor_loop [0xff00, 0xf0, 0xc, 0x2] 8 (0 + r1) n1"
      "unat n1 < 2 ^ 16" "0 < n1" "unat n div 2 ^ r1 = unat n1"
    using log2_step[OF n0 _ masks(1) assms, of "[0xff00, 0xf0, 0xc, 0x2]" 0]
    by (auto simp: fastLog2Floor_def log2FloorMasks_def)
  obtain n2 r2 where 2: "fastLog2Floor n = fastLog2Floor_loop [0xf0, 0xc, 0x2] 4 (r1 + r2) n2"
      "unat n2 < 2 ^ 8" "0 < n2" "unat n1 div 2 ^ r2 = unat n2"
    using log2_step[OF _ _ masks(2) 1(3), of "[0xf0, 0xc, 0x2]" r1] 1(1,2) by auto
  obtain n3 r3 where 3: "fastLog2Floor n = fastLog2Floor_loop [0xc, 0x2] 2 (r1 + r2 + r3) n3"
      "unat n3 < 2 ^ 4" "0 < n3" "unat n2 div 2 ^ r3 = unat n3"
    using log2_step[OF _ _ masks(3) 2(3), of "[0xc, 0x2]" "r1 + r2"] 2(1,2) by auto
  obtain n4 r4 where 4: "fastLog2Floor n = fastLog2Floor_loop [0x2] 1 (r1 + r2 + r3 + r4) n4"
      "unat n4 < 2 ^ 2" "0 < n4" "unat n3 div 2 ^ r4 = unat n4"
    using log2_step[OF _ _ masks(4) 3(3), of "[0x2]" "r1 + r2 + r3"] 3(1,2) by auto
  have "unat n4 < 2 ^ (2 * 1)" "2 * 1 \<le> (32 :: nat)" using 4(2) by simp_all
  from log2_step[OF this masks(5) 4(3), of "[]" "r1 + r2 + r3 + r4"]
  obtain n5 :: uint32 and r5 where 5: "fastLog2Floor_loop [0x2] 1 (r1 + r2 + r3 + r4) n4 = r1 + r2 + r3 + r4 + r5"
      "unat n5 < 2 ^ 1" "0 < n5" "unat n4 div 2 ^ r5 = unat n5"
    by (simp only: fastLog2Floor_loop.simps(1)) blast
  have "unat n div 2 ^ fastLog2Floor n = unat n5"
    by (simp only: 4(1) 5(1) power_add div_mult2_eq 1(4) 2(4) 3(4) 4(4) 5(4))
  moreover have "unat n5 = 1" using 5(2,3) by (simp add: word_less_nat_alt)
  ultimately have "unat n div 2 ^ fastLog2Floor n = 1" by simp
  moreover have "unat n mod 2 ^ fastLog2Floor n < 2 ^ fastLog2Floor n" by simp
  moreover have "unat n = 2 ^ fastLog2Floor n + unat n mod 2 ^ fastLog2Floor n"
    using div_mult_mod_eq[of "unat n" "2 ^ fastLog2Floor n"] calculation(1) by simp
  ultimately have "2 ^ fastLog2Floor n \<le> unat n" "unat n < 2 ^ fastLog2Floor n + 2 ^ fastLog2Floor n"
    by linarith+
  then show ?thesis by simp
qed

section \<open>Block locators\<close>

lemma next_in_branch:
  assumes "wf_heap mem" "t < length mem" "n < length mem"
  shows "(if contains mem (view_of mem t) n then Some (nodeByHeight (view_of mem t) h) else Ancestor mem n h)
    = Some (if h \<le> bn_height (mem ! n) \<or> \<not> contains mem (view_of mem t) n then parent_at mem n h else parent_at mem t h)"
proof (cases "contains mem (view_of mem t) n")
  case True
  then have c: "parent_at mem t (bn_height (mem ! n)) = Some n" using contains_view_of[OF assms(1,2)] by simp
  have "parent_at mem t h = parent_at mem n h" if "h \<le> bn_height (mem ! n)"
    using parent_at_trans[OF assms(1,2) _ that _ c] parent_at_height(5)[OF assms(1,2) c] that
    by (cases "0 \<le> h") (simp_all add: parent_at_def)
  then show ?thesis using True by (simp add: nodeByHeight_view_of[OF assms(1,2)])
qed (simp add: Ancestor_eq[OF assms(1,3)])

lemma blockLocator_loop_correct:
  assumes wf: "wf_heap mem" and t: "t < length mem" and H: "H < 2 ^ 31"
  shows "n < length mem \<Longrightarrow> bn_height (mem ! n) = 0 \<or> 0 < step \<and> step \<le> H - bn_height (mem ! n) + 1
    \<Longrightarrow> bn_height (mem ! n) \<le> H
    \<Longrightarrow> \<exists>ns. blockLocator_loop mem (view_of mem t) len step (Some n) = Some (n # ns)
      \<and> (\<forall>m \<in> set (n # ns). parent_at mem n (bn_height (mem ! m)) = Some m)
      \<and> bn_height (mem ! last (n # ns)) = 0
      \<and> sorted_wrt (>) (map (\<lambda>m. bn_height (mem ! m)) (n # ns))"
proof (induction n arbitrary: len step rule: less_induct)
  case (less n)
  let ?h = "bn_height (mem ! n)"
  have h: "0 \<le> ?h" using height_nonneg[OF wf less.prems(1)] .
  show ?case
  proof (cases "?h = 0")
    case True
    then show ?thesis using h by (subst blockLocator_loop.simps) (simp add: parent_at_def)
  next
    case False
    define g where "g = (if ?h - step < 0 then 0 else ?h - step)"
    define step' where "step' = (if len + 1 > 10 then i32 (step * 2) else step)"
    have step: "0 < step" "step \<le> H - ?h + 1" using less.prems(2) False by simp_all
    have wrap: "i32 (?h - step) = ?h - step" using step h H less.prems(3) by (simp add: i32_id)
    have g: "0 \<le> g" "g < ?h" using step h False by (auto simp: g_def)
    obtain a where a: "parent_at mem n g = Some a" "a \<le> n" "a < length mem" "bn_height (mem ! a) = g"
      using parent_at_wf[OF wf less.prems(1) g(1)] g(2) by auto
    have "a < n" using a g(2) by (metis le_neq_implies_less less_irrefl)
    have "g = 0 \<or> g = ?h - step" by (simp add: g_def)
    then have inv: "bn_height (mem ! a) = 0 \<or> 0 < step' \<and> step' \<le> H - bn_height (mem ! a) + 1"
    proof
      assume gs: "g = ?h - step"
      show ?thesis
      proof (cases "g = 0")
        case True
        then show ?thesis using a(4) by simp
      next
        case False
        then have "step * 2 \<le> 2147483647" using gs g step H by simp
        then have "i32 (step * 2) = step * 2" using step by (simp add: i32_id)
        then show ?thesis using gs a(4) step by (simp add: step'_def)
      qed
    qed (simp add: a(4))
    obtain ns where ns: "blockLocator_loop mem (view_of mem t) (len + 1) step' (Some a) = Some (a # ns)"
        "\<forall>m \<in> set (a # ns). parent_at mem a (bn_height (mem ! m)) = Some m"
        "bn_height (mem ! last (a # ns)) = 0" "sorted_wrt (>) (map (\<lambda>m. bn_height (mem ! m)) (a # ns))"
      using less.IH[OF \<open>a < n\<close> a(3) inv] a(4) g(2) less.prems(3) by fastforce
    have nx: "(if contains mem (view_of mem t) n then Some (nodeByHeight (view_of mem t) g) else Ancestor mem n g)
        = Some (Some a)"
      using next_in_branch[OF wf t less.prems(1), of g] g(2) a(1) by simp
    have "blockLocator_loop mem (view_of mem t) len step (Some n) = Some (n # a # ns)"
      by (subst blockLocator_loop.simps)
        (simp only: option.case Let_def wrap g_def [symmetric] step'_def [symmetric] nx False if_False
          Option.bind.bind_lunit ns(1))
    moreover have "parent_at mem n (bn_height (mem ! m)) = Some m" if "m \<in> set (a # ns)" for m
    proof -
      have m: "parent_at mem a (bn_height (mem ! m)) = Some m" using ns(2) that by blast
      show ?thesis using parent_at_trans[OF wf less.prems(1) _ _ _ a(1)] parent_at_height(4,5)[OF wf a(3) m] m a(4) g(2)
        by simp
    qed
    moreover have "bn_height (mem ! m) < ?h" if "m \<in> set (a # ns)" for m
      using that ns(2) parent_at_height(5)[OF wf a(3)] a(4) g(2) by fastforce
    ultimately show ?thesis using ns(3,4) h by (intro exI[of _ "a # ns"]) simp
  qed
qed

section \<open>Properties\<close>

text \<open>
  C37: Moving the tip, from an empty view or from any other branch, ends and leaves the complete branch
  of the new tip in the view: at every height the node that parent pointers reach, and nothing above.
\<close>

theorem setTip_correct:
  assumes "wf_heap mem" "view_ok mem c" "t < length mem" "bn_height (mem ! t) < 2 ^ 31 - 1"
  shows "\<exists>c'. setTip mem c (Some t) = Some c' \<and> view_ok mem c' \<and> tip c' = Some t
    \<and> view_height c' = bn_height (mem ! t) \<and> (\<forall>h. nodeByHeight c' h = parent_at mem t h)"
proof -
  have h: "0 \<le> bn_height (mem ! t)" using height_nonneg[OF assms(1,3)] .
  have "tip (view_of mem t) = Some t" using h by (simp add: tip_def view_of_def)
  moreover have "view_height (view_of mem t) = bn_height (mem ! t)"
    using length_view_of[OF assms(1,3)] by (simp add: view_height_def)
  ultimately show ?thesis
    using setTip_eq[OF assms] assms(3) nodeByHeight_view_of[OF assms(1,3)] by (auto simp: view_ok_def)
qed

theorem setTip_correct_witness:
  "\<exists>c'. setTip sample_heap [] (Some 2) = Some c' \<and> tip c' = Some 2 \<and> nodeByHeight c' 0 = Some 0"
  using setTip_correct[OF sample_heap_wf, of "[]" 2]
  by (auto simp: view_ok_def sample_heap_def sample_node_def parent_at_def numeral_2_eq_2)

text \<open>
  C36: The fork search returns, and returns the highest node common to the view and the branch of the
  given node; nil means that they have no node in common.
\<close>

theorem findFork_correct:
  assumes "wf_heap mem" "t < length mem" "n < length mem"
  shows "\<exists>r. findFork mem (view_of mem t) (Some n) = Some r \<and> fork_point mem t n r"
  using findFork_spec[OF assms] .

theorem findFork_correct_witness:
  "\<exists>r. findFork sample_heap (view_of sample_heap 1) (Some 2) = Some r \<and> fork_point sample_heap 1 2 r"
  by (rule findFork_correct[OF sample_heap_wf]) (simp_all add: sample_heap_def)

text \<open>
  The block locator of a node returns, starts at the node, goes strictly downwards along the node's
  own branch, and always ends at the genesis block, whether or not the node is in the view.
\<close>

theorem blockLocator_correct:
  assumes "wf_heap mem" "t < length mem" "n < length mem"
  shows "\<exists>ns. blockLocator mem (view_of mem t) (Some n) = Some (map (\<lambda>m. bn_hash (mem ! m)) (n # ns))
    \<and> (\<forall>m \<in> set (n # ns). parent_at mem n (bn_height (mem ! m)) = Some m)
    \<and> bn_height (mem ! last (n # ns)) = 0
    \<and> sorted_wrt (>) (map (\<lambda>m. bn_height (mem ! m)) (n # ns))"
  using blockLocator_loop_correct[OF assms(1,2) height_bound[OF assms(1,3)] assms(3), of 1 0]
  by (auto simp: blockLocator_def)

theorem blockLocator_correct_witness:
  "\<exists>ns. blockLocator sample_heap (view_of sample_heap 1) (Some 2) = Some (map (\<lambda>m. bn_hash (sample_heap ! m)) (2 # ns))
    \<and> bn_height (sample_heap ! last (2 # ns)) = 0"
  using blockLocator_correct[OF sample_heap_wf, of 1 2] by (auto simp: sample_heap_def)

end
