(* ===== verification/Block_Index.thy ===== *)
theory Block_Index
  imports Chain_View Errors "HOL-Library.AList"
begin

text \<open>
  The in-memory block index (blockindex.go, second half) and the rows it writes (chainio.go).  The map
  from hashes to nodes is an association list whose order is the order in which Go happens to iterate;
  the dirty set is a list without repetition.  Serialization of a header and the \<open>Put\<close> of a database
  bucket are parameters; a failed database transaction leaves the database as it was.
\<close>

section \<open>The code\<close>

record blockIndex =
  index :: "(hash \<times> nid) list"
  dirty :: "nid list"

definition newBlockIndex :: blockIndex where
  "newBlockIndex = \<lparr>index = [], dirty = []\<rparr>"

definition LookupNode :: "blockIndex \<Rightarrow> hash \<Rightarrow> nid option" where
  "LookupNode bi h = map_of (index bi) h"

definition HaveBlock :: "heap \<Rightarrow> blockIndex \<Rightarrow> hash \<Rightarrow> bool" where
  "HaveBlock mem bi h = (case map_of (index bi) h of None \<Rightarrow> False | Some n \<Rightarrow> HaveData (status (mem ! n)))"

definition mark_dirty :: "nid \<Rightarrow> blockIndex \<Rightarrow> blockIndex" where
  "mark_dirty n bi = bi\<lparr>dirty := List.insert n (dirty bi)\<rparr>"

definition addNode :: "heap \<Rightarrow> blockIndex \<Rightarrow> nid \<Rightarrow> blockIndex" where
  "addNode mem bi n = bi\<lparr>index := AList.update (bn_hash (mem ! n)) n (index bi)\<rparr>"

definition AddNode :: "heap \<Rightarrow> blockIndex \<Rightarrow> nid \<Rightarrow> blockIndex" where
  "AddNode mem bi n = mark_dirty n (addNode mem bi n)"

definition NodeStatus :: "heap \<Rightarrow> nid \<Rightarrow> blockStatus" where
  "NodeStatus mem n = status (mem ! n)"

definition SetStatusFlags :: "heap \<Rightarrow> blockIndex \<Rightarrow> nid \<Rightarrow> blockStatus \<Rightarrow> heap \<times> blockIndex" where
  "SetStatusFlags mem bi n flags = (set_status mem n (status (mem ! n) OR flags), mark_dirty n bi)"

definition UnsetStatusFlags :: "heap \<Rightarrow> blockIndex \<Rightarrow> nid \<Rightarrow> blockStatus \<Rightarrow> heap \<times> blockIndex" where
  "UnsetStatusFlags mem bi n flags = (set_status mem n (status (mem ! n) AND NOT flags), mark_dirty n bi)"

text \<open>
  \<open>None\<close> is the nil dereference of \<open>node.parent.hash\<close> for a node without parent outside the best chain.
\<close>

fun orphan_maps :: "heap \<Rightarrow> chainView \<Rightarrow> (hash \<times> nid) list \<Rightarrow> ((hash \<times> nid) list \<times> (hash \<rightharpoonup> nid)) option" where
  "orphan_maps mem bestChain [] = Some ([], Map.empty)"
| "orphan_maps mem bestChain ((h, n) # rest) =
    Option.bind (orphan_maps mem bestChain rest) (\<lambda>(orphans, orphanParent).
      if contains mem bestChain n then Some (orphans, orphanParent)
      else case parent (mem ! n) of
             None \<Rightarrow> None
           | Some p \<Rightarrow> Some ((h, n) # orphans, orphanParent(bn_hash (mem ! p) \<mapsto> p)))"

fun collect_tips :: "(hash \<rightharpoonup> nid) \<Rightarrow> (hash \<times> nid) list \<Rightarrow> nid list" where
  "collect_tips orphanParent [] = []"
| "collect_tips orphanParent ((h, n) # orphans) =
    (if orphanParent h = None then [n] else []) @ collect_tips (orphanParent(h := None)) orphans"

definition InactiveTips :: "heap \<Rightarrow> blockIndex \<Rightarrow> chainView \<Rightarrow> nid list option" where
  "InactiveTips mem bi bestChain =
    map_option (\<lambda>(orphans, orphanParent). collect_tips orphanParent orphans)
      (orphan_maps mem bestChain (index bi))"

text \<open>\<open>binary.BigEndian.PutUint32\<close>.\<close>

definition be32 :: "uint32 \<Rightarrow> byte list" where
  "be32 w = [ucast (drop_bit 24 w), ucast (drop_bit 16 w), ucast (drop_bit 8 w), ucast w]"

definition blockIndexKey :: "hash \<Rightarrow> uint32 \<Rightarrow> byte list" where
  "blockIndexKey blockHash blockHeight = be32 blockHeight @ blockHash"

definition dbStoreBlockNode ::
  "(BlockHeader \<Rightarrow> error + byte list) \<Rightarrow> ('db \<Rightarrow> byte list \<Rightarrow> byte list \<Rightarrow> error + 'db)
    \<Rightarrow> heap \<Rightarrow> nid \<Rightarrow> 'db \<Rightarrow> error + 'db" where
  "dbStoreBlockNode Serialize Put mem n db =
    bindE (Serialize (node_Header mem n)) (\<lambda>w.
      Put db (blockIndexKey (bn_hash (mem ! n)) (word_of_int (bn_height (mem ! n)))) (w @ [status (mem ! n)]))"

fun flush_nodes ::
  "(BlockHeader \<Rightarrow> error + byte list) \<Rightarrow> ('db \<Rightarrow> byte list \<Rightarrow> byte list \<Rightarrow> error + 'db)
    \<Rightarrow> heap \<Rightarrow> nid list \<Rightarrow> 'db \<Rightarrow> error + 'db" where
  "flush_nodes Serialize Put mem [] db = Inr db"
| "flush_nodes Serialize Put mem (n # ns) db =
    (if HaveHeader (status (mem ! n)) \<and> \<not> HaveData (status (mem ! n))
     then flush_nodes Serialize Put mem ns db
     else bindE (dbStoreBlockNode Serialize Put mem n db) (flush_nodes Serialize Put mem ns))"

text \<open>The result is the error (if any), the index and the database.\<close>

definition flushToDB ::
  "(BlockHeader \<Rightarrow> error + byte list) \<Rightarrow> ('db \<Rightarrow> byte list \<Rightarrow> byte list \<Rightarrow> error + 'db)
    \<Rightarrow> heap \<Rightarrow> blockIndex \<Rightarrow> 'db \<Rightarrow> error option \<times> blockIndex \<times> 'db" where
  "flushToDB Serialize Put mem bi db =
    (if dirty bi = [] then (None, bi, db)
     else if \<not> (\<exists>n \<in> set (dirty bi). HaveData (status (mem ! n))) then (None, bi\<lparr>dirty := []\<rparr>, db)
     else case flush_nodes Serialize Put mem (dirty bi) db of
            Inl e \<Rightarrow> (Some e, bi, db)
          | Inr db' \<Rightarrow> (None, bi\<lparr>dirty := []\<rparr>, db'))"

section \<open>Well-formed indices\<close>

text \<open>Nodes are filed under their own hash, and the index is closed under parents.\<close>

definition index_ok :: "heap \<Rightarrow> blockIndex \<Rightarrow> bool" where
  "index_ok mem bi \<longleftrightarrow> distinct (map fst (index bi))
    \<and> (\<forall>(h, n) \<in> set (index bi). n < length mem \<and> bn_hash (mem ! n) = h
        \<and> (\<forall>p. parent (mem ! n) = Some p \<longrightarrow> (bn_hash (mem ! p), p) \<in> set (index bi)))"

lemma index_ok_entry:
  assumes "index_ok mem bi" "(h, n) \<in> set (index bi)"
  shows "n < length mem" "bn_hash (mem ! n) = h"
    "parent (mem ! n) = Some p \<Longrightarrow> (bn_hash (mem ! p), p) \<in> set (index bi)"
  using assms by (auto simp: index_ok_def)

lemma index_ok_inj: "index_ok mem bi \<Longrightarrow> (h, n) \<in> set (index bi) \<Longrightarrow> (h, m) \<in> set (index bi) \<Longrightarrow> n = m"
  by (auto simp: index_ok_def dest: eq_key_imp_eq_value)

lemma newBlockIndex_ok: "index_ok mem newBlockIndex"
  by (simp add: index_ok_def newBlockIndex_def)

lemma index_ok_AddNode:
  assumes "index_ok mem bi" "n < length mem" "LookupNode bi (bn_hash (mem ! n)) = None"
    "\<And>p. parent (mem ! n) = Some p \<Longrightarrow> (bn_hash (mem ! p), p) \<in> set (index bi)"
  shows "index_ok mem (AddNode mem bi n)"
proof -
  have new: "bn_hash (mem ! n) \<notin> fst ` set (index bi)"
    using assms(3) by (simp add: LookupNode_def map_of_eq_None_iff)
  have upd: "AList.update k v xs = xs @ [(k, v)]" if "k \<notin> fst ` set xs" for k v and xs :: "(hash \<times> nid) list"
    using that by (induction xs) auto
  show ?thesis using assms new
    by (auto simp: index_ok_def AddNode_def addNode_def mark_dirty_def upd)
qed

lemma index_ok_set_status:
  "index_ok mem bi \<Longrightarrow> wf_heap mem \<Longrightarrow> index_ok (set_status mem n st) (mark_dirty m bi)"
  by (auto simp: index_ok_def mark_dirty_def case_prod_beta) (metis fst_conv snd_conv set_status_shape wf_parent(2))+

section \<open>Tips outside the best chain\<close>

lemma orphan_maps_correct:
  assumes "\<And>h n. (h, n) \<in> set xs \<Longrightarrow> \<not> contains mem c n \<Longrightarrow> parent (mem ! n) \<noteq> None"
  shows "\<exists>m. orphan_maps mem c xs = Some (filter (\<lambda>(h, n). \<not> contains mem c n) xs, m)
    \<and> (\<forall>h. m h \<noteq> None \<longleftrightarrow>
        (\<exists>k n p. (k, n) \<in> set xs \<and> \<not> contains mem c n \<and> parent (mem ! n) = Some p \<and> bn_hash (mem ! p) = h))"
  using assms
proof (induction xs)
  case (Cons x xs)
  obtain k n where x: "x = (k, n)" by (cases x)
  obtain m where m: "orphan_maps mem c xs = Some (filter (\<lambda>(h, n). \<not> contains mem c n) xs, m)"
    "\<forall>h. m h \<noteq> None \<longleftrightarrow>
      (\<exists>k n p. (k, n) \<in> set xs \<and> \<not> contains mem c n \<and> parent (mem ! n) = Some p \<and> bn_hash (mem ! p) = h)"
    using Cons.IH Cons.prems by (metis list.set_intros(2))
  show ?case
  proof (cases "contains mem c n")
    case True
    then show ?thesis using m x by auto
  next
    case False
    then obtain p where p: "parent (mem ! n) = Some p" using Cons.prems[of k n] x by auto
    then show ?thesis using m x False
      by (intro exI[of _ "m(bn_hash (mem ! p) \<mapsto> p)"]) (auto split: if_splits; metis)
  qed
qed simp

lemma collect_tips_filter:
  "distinct (map fst xs) \<Longrightarrow> collect_tips m xs = map snd (filter (\<lambda>(h, n). m h = None) xs)"
proof (induction xs arbitrary: m)
  case (Cons x xs)
  obtain h n where x: "x = (h, n)" by (cases x)
  have "filter (\<lambda>(k, n). (m(h := None)) k = None) xs = filter (\<lambda>(k, n). m k = None) xs"
    using Cons.prems x by (intro filter_cong) force+
  then show ?case using Cons x by simp
qed simp

text \<open>
  The inactive tips are exactly the indexed nodes outside the best chain that are not the parent of
  another indexed node outside it, as long as every root of the tree is in the best chain.
\<close>

theorem InactiveTips_correct:
  assumes "index_ok mem bi" "\<forall>(h, n) \<in> set (index bi). parent (mem ! n) = None \<longrightarrow> contains mem c n"
  shows "\<exists>tips. InactiveTips mem bi c = Some tips
    \<and> set tips = {n. (bn_hash (mem ! n), n) \<in> set (index bi) \<and> \<not> contains mem c n
        \<and> (\<forall>h m. (h, m) \<in> set (index bi) \<longrightarrow> \<not> contains mem c m \<longrightarrow> parent (mem ! m) \<noteq> Some n)}"
proof -
  let ?o = "filter (\<lambda>(h, n). \<not> contains mem c n) (index bi)"
  obtain m where m: "orphan_maps mem c (index bi) = Some (?o, m)"
    "\<forall>h. m h \<noteq> None \<longleftrightarrow>
      (\<exists>k n p. (k, n) \<in> set (index bi) \<and> \<not> contains mem c n \<and> parent (mem ! n) = Some p \<and> bn_hash (mem ! p) = h)"
    using orphan_maps_correct[of "index bi" mem c] assms(2) by fastforce
  have "distinct (map fst ?o)"
    using assms(1) by (auto simp: index_ok_def distinct_map intro: inj_on_subset)
  then have tips: "InactiveTips mem bi c = Some (map snd (filter (\<lambda>(h, n). m h = None) ?o))"
    by (simp add: InactiveTips_def m(1) collect_tips_filter)
  have key: "m (bn_hash (mem ! n)) = None \<longleftrightarrow>
      (\<forall>h k. (h, k) \<in> set (index bi) \<longrightarrow> \<not> contains mem c k \<longrightarrow> parent (mem ! k) \<noteq> Some n)"
    if n: "(bn_hash (mem ! n), n) \<in> set (index bi)" for n
    using m(2) index_ok_entry(3)[OF assms(1)] index_ok_inj[OF assms(1) n] by metis
  have "set (map snd (filter (\<lambda>(h, n). m h = None) ?o)) =
      {n. (bn_hash (mem ! n), n) \<in> set (index bi) \<and> \<not> contains mem c n \<and> m (bn_hash (mem ! n)) = None}"
    (is "?L = ?R")
  proof
    show "?L \<subseteq> ?R" using index_ok_entry(2)[OF assms(1)] by fastforce
    show "?R \<subseteq> ?L" by force
  qed
  also have "\<dots> = {n. (bn_hash (mem ! n), n) \<in> set (index bi) \<and> \<not> contains mem c n
        \<and> (\<forall>h m. (h, m) \<in> set (index bi) \<longrightarrow> \<not> contains mem c m \<longrightarrow> parent (mem ! m) \<noteq> Some n)}"
    using key by (intro Collect_cong) auto
  finally show ?thesis using tips by simp
qed

definition sample_index :: blockIndex where
  "sample_index = \<lparr>index = [([0], 0), ([1], 1), ([2], 2)], dirty = []\<rparr>"

theorem InactiveTips_correct_witness:
  "\<exists>tips. InactiveTips sample_heap sample_index (view_of sample_heap 0) = Some tips \<and> 2 \<in> set tips"
proof -
  have idx: "index_ok sample_heap sample_index"
    by (auto simp: index_ok_def sample_index_def sample_heap_def sample_node_def)
  have c: "contains sample_heap (view_of sample_heap 0) n \<longleftrightarrow> n = 0" if "n \<in> {0, 1, 2}" for n
    using that by (auto simp: contains_def nodeByHeight_def view_of_def parent_at_def sample_heap_def sample_node_def)
  have "\<forall>(h, n) \<in> set (index sample_index). parent (sample_heap ! n) = None \<longrightarrow> contains sample_heap (view_of sample_heap 0) n"
    using c by (auto simp: sample_index_def sample_heap_def sample_node_def)
  from InactiveTips_correct[OF idx this] c show ?thesis
    by (auto simp: sample_index_def sample_heap_def sample_node_def)
qed

end
