(* ===== verification/Threshold.thy ===== *)
theory Threshold
  imports Block_Index Chain_Params "HOL-Library.Monad_Syntax"
begin

text \<open>
  Rule change deployments by version bits (thresholdstate.go, versionbits.go).  A condition checker is a
  record of its methods; the method \<open>Condition\<close> may itself update the deployment caches, so it takes and
  returns a state.  Every call that walks the tree is in the option monad, \<open>None\<close> being a walk that does
  not end.  \<open>window_state\<close> is the state machine without caches; the theorems show that the cached
  computation returns it.  Deployments come from \<open>chaincfg\<close> and are arguments.
\<close>

section \<open>The state machine\<close>

datatype ThresholdState =
  ThresholdDefined | ThresholdStarted | ThresholdLockedIn | ThresholdActive | ThresholdFailed

definition String_ThresholdState :: "ThresholdState \<Rightarrow> string" where
  "String_ThresholdState t =
    (case t of
       ThresholdDefined \<Rightarrow> ''ThresholdDefined''
     | ThresholdStarted \<Rightarrow> ''ThresholdStarted''
     | ThresholdLockedIn \<Rightarrow> ''ThresholdLockedIn''
     | ThresholdActive \<Rightarrow> ''ThresholdActive''
     | ThresholdFailed \<Rightarrow> ''ThresholdFailed'')"

record 's checker =
  HasStarted :: "nid \<Rightarrow> bool"
  HasEnded :: "nid \<Rightarrow> bool"
  ActivationThreshold :: int
  ConfirmationWindow :: int
  EligibleToActivate :: "nid \<Rightarrow> bool"
  IsSpeedy :: bool
  Condition :: "nid \<Rightarrow> 's \<Rightarrow> ((error + bool) \<times> 's) option"
  ForceActive :: "nid option \<Rightarrow> bool"

type_synonym thresholdStateCache = "hash \<rightharpoonup> ThresholdState"

definition newThresholdCaches :: "nat \<Rightarrow> thresholdStateCache list" where
  "newThresholdCaches numCaches = replicate numCaches Map.empty"

text \<open>The loop that counts the blocks of a window which satisfy the condition; a nil node panics.\<close>

fun count_conditions ::
  "heap \<Rightarrow> (nid \<Rightarrow> 's \<Rightarrow> ((error + bool) \<times> 's) option) \<Rightarrow> nat \<Rightarrow> nid option \<Rightarrow> int \<Rightarrow> 's
    \<Rightarrow> ((error + int) \<times> 's) option" where
  "count_conditions mem cond 0 node count s = Some (Inr count, s)"
| "count_conditions mem cond (Suc i) None count s = Some (Inl Panic, s)"
| "count_conditions mem cond (Suc i) (Some n) count s = do {
     (r, s) \<leftarrow> cond n s;
     case r of
       Inl e \<Rightarrow> Some (Inl e, s)
     | Inr b \<Rightarrow> count_conditions mem cond i (parent (mem ! n)) (if b then count + 1 else count) s }"

definition thresholdStateTransition ::
  "heap \<Rightarrow> 's checker \<Rightarrow> int \<Rightarrow> ThresholdState \<Rightarrow> nid \<Rightarrow> 's \<Rightarrow> ((error + ThresholdState) \<times> 's) option" where
  "thresholdStateTransition mem ck confirmationWindow st prevNode s =
    (case st of
       ThresholdDefined \<Rightarrow>
         if \<not> IsSpeedy ck \<and> HasEnded ck prevNode then Some (Inr ThresholdFailed, s)
         else if HasStarted ck prevNode then Some (Inr ThresholdStarted, s)
         else Some (Inr ThresholdDefined, s)
     | ThresholdStarted \<Rightarrow>
         if \<not> IsSpeedy ck \<and> HasEnded ck prevNode then Some (Inr ThresholdFailed, s)
         else do {
           (r, s) \<leftarrow> count_conditions mem (Condition ck) (nat confirmationWindow) (Some prevNode) 0 s;
           case r of
             Inl e \<Rightarrow> Some (Inl e, s)
           | Inr count \<Rightarrow>
               if ActivationThreshold ck \<le> count then Some (Inr ThresholdLockedIn, s)
               else if IsSpeedy ck \<and> HasEnded ck prevNode then Some (Inr ThresholdFailed, s)
               else Some (Inr ThresholdStarted, s) }
     | ThresholdLockedIn \<Rightarrow>
         if \<not> EligibleToActivate ck prevNode then Some (Inr ThresholdLockedIn, s)
         else Some (Inr ThresholdActive, s)
     | ThresholdActive \<Rightarrow> Some (Inr ThresholdActive, s)
     | ThresholdFailed \<Rightarrow> Some (Inr ThresholdFailed, s))"

text \<open>
  The walk back to a window whose state is known; the needed nodes come out earliest first, the order
  in which the code then processes them.
\<close>

partial_function (option) needed_states ::
  "heap \<Rightarrow> 's checker \<Rightarrow> int \<Rightarrow> thresholdStateCache \<Rightarrow> nid option \<Rightarrow> nid list
    \<Rightarrow> (nid option \<times> nid list \<times> thresholdStateCache) option" where
  "needed_states mem ck w cache prevNode needed =
    (case prevNode of
       None \<Rightarrow> Some (None, needed, cache)
     | Some n \<Rightarrow>
         if cache (bn_hash (mem ! n)) \<noteq> None then Some (Some n, needed, cache)
         else if \<not> HasStarted ck n
         then Some (Some n, needed, cache(bn_hash (mem ! n) \<mapsto> ThresholdDefined))
         else Option.bind (RelativeAncestor mem n w)
                (\<lambda>prevNode. needed_states mem ck w cache prevNode (n # needed)))"

declare needed_states.simps [code]

fun run_transitions ::
  "heap \<Rightarrow> 's checker \<Rightarrow> int \<Rightarrow> ThresholdState \<Rightarrow> nid list \<Rightarrow> thresholdStateCache \<Rightarrow> 's
    \<Rightarrow> ((error + ThresholdState) \<times> thresholdStateCache \<times> 's) option" where
  "run_transitions mem ck w st [] cache s = Some (Inr st, cache, s)"
| "run_transitions mem ck w st (n # ns) cache s = do {
     (r, s) \<leftarrow> thresholdStateTransition mem ck w st n s;
     case r of
       Inl e \<Rightarrow> Some (Inl e, cache, s)
     | Inr st \<Rightarrow> run_transitions mem ck w st ns (cache(bn_hash (mem ! n) \<mapsto> st)) s }"

definition thresholdState ::
  "heap \<Rightarrow> 's checker \<Rightarrow> nid option \<Rightarrow> thresholdStateCache \<Rightarrow> 's
    \<Rightarrow> ((error + ThresholdState) \<times> thresholdStateCache \<times> 's) option" where
  "thresholdState mem ck prevNode cache s =
    (if ForceActive ck prevNode then Some (Inr ThresholdActive, cache, s)
     else let w = i32 (ConfirmationWindow ck)
     in if w \<le> 0 then Some (Inr ThresholdDefined, cache, s)
        else case prevNode of
          None \<Rightarrow> Some (Inr ThresholdDefined, cache, s)
        | Some n \<Rightarrow>
            let h = bn_height (mem ! n)
            in if i32 (h + 1) < w then Some (Inr ThresholdDefined, cache, s)
               else do {
                 prevNode \<leftarrow> Ancestor mem n (i32 (h - go_mod (i32 (h + 1)) w));
                 (prevNode, needed, cache) \<leftarrow> needed_states mem ck w cache prevNode [];
                 case (case prevNode of
                         None \<Rightarrow> Some ThresholdDefined
                       | Some p \<Rightarrow> cache (bn_hash (mem ! p))) of
                   None \<Rightarrow> Some (Inl (AssertError ''thresholdState: cache lookup failed''), cache, s)
                 | Some st \<Rightarrow> run_transitions mem ck w st needed cache s })"

section \<open>The checkers\<close>

definition vbTopBits :: uint32 where "vbTopBits = 0x20000000"
definition vbTopMask :: uint32 where "vbTopMask = 0xe0000000"
definition vbNumBits :: nat where "vbNumBits = 29"

text \<open>
  A deployment of \<open>chaincfg\<close>: plain fields, and the results of its starter, ender and
  \<open>EffectiveAlwaysActiveHeight\<close>.
\<close>

record ConsensusDeployment =
  BitNumber :: nat
  MinActivationHeight :: int
  CustomActivationThreshold :: int
  StarterHasStarted :: "BlockHeader \<Rightarrow> bool"
  EnderHasEnded :: "BlockHeader \<Rightarrow> bool"
  EffectiveAlwaysActiveHeight :: int

definition deployment_condition :: "heap \<Rightarrow> ConsensusDeployment \<Rightarrow> nid \<Rightarrow> bool" where
  "deployment_condition mem d n =
    (let conditionMask = push_bit (BitNumber d) 1 :: uint32;
         ver = word_of_int (bn_version (mem ! n)) :: uint32
     in ver AND vbTopMask = vbTopBits \<and> ver AND conditionMask \<noteq> 0)"

definition deploymentChecker :: "heap \<Rightarrow> Params \<Rightarrow> ConsensusDeployment \<Rightarrow> 's checker" where
  "deploymentChecker mem params d =
    \<lparr>HasStarted = (\<lambda>n. StarterHasStarted d (node_Header mem n)),
     HasEnded = (\<lambda>n. EnderHasEnded d (node_Header mem n)),
     ActivationThreshold = (if CustomActivationThreshold d \<noteq> 0 then CustomActivationThreshold d
                            else RuleChangeActivationThreshold params),
     ConfirmationWindow = u32 (MinerConfirmationWindow params),
     EligibleToActivate = (\<lambda>n. MinActivationHeight d = 0
       \<or> u32 (u32 (bn_height (mem ! n)) + 1) \<ge> MinActivationHeight d),
     IsSpeedy = (MinActivationHeight d \<noteq> 0 \<or> CustomActivationThreshold d \<noteq> 0),
     Condition = (\<lambda>n s. Some (Inr (deployment_condition mem d n), s)),
     ForceActive = (\<lambda>node. case node of
         None \<Rightarrow> False
       | Some n \<Rightarrow> u32 (u32 (bn_height (mem ! n)) + 1) \<ge> EffectiveAlwaysActiveHeight d)\<rparr>"

text \<open>\<open>deploymentState\<close>: the guard uses \<open>>\<close>, so an id equal to the number of deployments panics.\<close>

definition deploymentState ::
  "heap \<Rightarrow> Params \<Rightarrow> ConsensusDeployment list \<Rightarrow> nid option \<Rightarrow> nat \<Rightarrow> thresholdStateCache list
    \<Rightarrow> ((error + ThresholdState) \<times> thresholdStateCache list) option" where
  "deploymentState mem params Deployments prevNode deploymentID caches =
    (if deploymentID > length Deployments then Some (Inl CalleeError, caches)
     else if deploymentID \<ge> length Deployments then Some (Inl Panic, caches)
     else do {
       (r, cache, _) \<leftarrow> thresholdState mem (deploymentChecker mem params (Deployments ! deploymentID))
                       prevNode (caches ! deploymentID) ();
       Some (r, caches[deploymentID := cache]) })"

text \<open>The loop of \<open>calcNextBlockVersion\<close> over the deployments from \<open>id\<close> on.\<close>

fun next_version ::
  "heap \<Rightarrow> Params \<Rightarrow> nid option \<Rightarrow> ConsensusDeployment list \<Rightarrow> nat \<Rightarrow> uint32 \<Rightarrow> thresholdStateCache list
    \<Rightarrow> ((error + uint32) \<times> thresholdStateCache list) option" where
  "next_version mem params prevNode [] i expectedVersion caches = Some (Inr expectedVersion, caches)"
| "next_version mem params prevNode (d # ds) i expectedVersion caches = do {
     (r, cache, _) \<leftarrow> thresholdState mem (deploymentChecker mem params d) prevNode (caches ! i) ();
     case r of
       Inl e \<Rightarrow> Some (Inl e, caches[i := cache])
     | Inr st \<Rightarrow>
         next_version mem params prevNode ds (i + 1)
           (if st = ThresholdStarted \<or> st = ThresholdLockedIn
            then expectedVersion OR push_bit (BitNumber d) 1 else expectedVersion) (caches[i := cache]) }"

definition calcNextBlockVersion ::
  "heap \<Rightarrow> Params \<Rightarrow> ConsensusDeployment list \<Rightarrow> nid option \<Rightarrow> thresholdStateCache list
    \<Rightarrow> ((error + uint32) \<times> thresholdStateCache list) option" where
  "calcNextBlockVersion mem params Deployments prevNode caches =
    next_version mem params prevNode Deployments 0 vbTopBits caches"

definition bitConditionChecker ::
  "heap \<Rightarrow> Params \<Rightarrow> ConsensusDeployment list \<Rightarrow> nat \<Rightarrow> thresholdStateCache list checker" where
  "bitConditionChecker mem params Deployments b =
    \<lparr>HasStarted = (\<lambda>_. True),
     HasEnded = (\<lambda>_. False),
     ActivationThreshold = RuleChangeActivationThreshold params,
     ConfirmationWindow = u32 (MinerConfirmationWindow params),
     EligibleToActivate = (\<lambda>_. True),
     IsSpeedy = False,
     Condition = (\<lambda>n caches.
       let conditionMask = push_bit b 1 :: uint32;
           ver = word_of_int (bn_version (mem ! n)) :: uint32
       in if ver AND vbTopMask \<noteq> vbTopBits then Some (Inr False, caches)
          else if ver AND conditionMask = 0 then Some (Inr False, caches)
          else do {
            (r, caches) \<leftarrow> calcNextBlockVersion mem params Deployments (parent (mem ! n)) caches;
            case r of
              Inl e \<Rightarrow> Some (Inl e, caches)
            | Inr expectedVersion \<Rightarrow> Some (Inr (expectedVersion AND conditionMask = 0), caches) }),
     ForceActive = (\<lambda>_. False)\<rparr>"

text \<open>
  \<open>warnUnknownRuleActivations\<close> from bit \<open>b\<close> on: the states it would warn about, with both sets of caches.
\<close>

fun warn_bits ::
  "heap \<Rightarrow> Params \<Rightarrow> ConsensusDeployment list \<Rightarrow> nid option \<Rightarrow> nat list \<Rightarrow> thresholdStateCache list
    \<Rightarrow> thresholdStateCache list
    \<Rightarrow> ((error + (nat \<times> ThresholdState) list) \<times> thresholdStateCache list \<times> thresholdStateCache list) option" where
  "warn_bits mem params Deployments prevNode [] warn caches = Some (Inr [], warn, caches)"
| "warn_bits mem params Deployments prevNode (b # bs) warn caches = do {
     (r, cache, caches) \<leftarrow> thresholdState mem (bitConditionChecker mem params Deployments b) prevNode (warn ! b) caches;
     case r of
       Inl e \<Rightarrow> Some (Inl e, warn[b := cache], caches)
     | Inr st \<Rightarrow> do {
         (rest, warn, caches) \<leftarrow> warn_bits mem params Deployments prevNode bs (warn[b := cache]) caches;
         Some (map_sum id (\<lambda>ws. if st = ThresholdActive \<or> st = ThresholdLockedIn then (b, st) # ws else ws) rest,
           warn, caches) } }"

definition warnUnknownRuleActivations where
  "warnUnknownRuleActivations mem params Deployments n warn caches =
    warn_bits mem params Deployments (parent (mem ! n)) [0..<vbNumBits] warn caches"

section \<open>The state machine without caches\<close>

text \<open>The number of blocks of a window that satisfy a condition without effects.\<close>

fun votes :: "heap \<Rightarrow> (nid \<Rightarrow> error + bool) \<Rightarrow> nat \<Rightarrow> nid option \<Rightarrow> error + int" where
  "votes mem cond 0 node = Inr 0"
| "votes mem cond (Suc i) None = Inl Panic"
| "votes mem cond (Suc i) (Some n) =
    bindE (cond n) (\<lambda>b. bindE (votes mem cond i (parent (mem ! n))) (\<lambda>c. Inr ((if b then 1 else 0) + c)))"

definition step_state ::
  "heap \<Rightarrow> 's checker \<Rightarrow> (nid \<Rightarrow> error + bool) \<Rightarrow> int \<Rightarrow> ThresholdState \<Rightarrow> nid \<Rightarrow> error + ThresholdState" where
  "step_state mem ck cond w st n =
    (case st of
       ThresholdDefined \<Rightarrow> Inr (if \<not> IsSpeedy ck \<and> HasEnded ck n then ThresholdFailed
         else if HasStarted ck n then ThresholdStarted else ThresholdDefined)
     | ThresholdStarted \<Rightarrow> if \<not> IsSpeedy ck \<and> HasEnded ck n then Inr ThresholdFailed
         else bindE (votes mem cond (nat w) (Some n)) (\<lambda>count.
           Inr (if ActivationThreshold ck \<le> count then ThresholdLockedIn
             else if IsSpeedy ck \<and> HasEnded ck n then ThresholdFailed else ThresholdStarted))
     | ThresholdLockedIn \<Rightarrow> Inr (if EligibleToActivate ck n then ThresholdActive else ThresholdLockedIn)
     | ThresholdActive \<Rightarrow> Inr ThresholdActive
     | ThresholdFailed \<Rightarrow> Inr ThresholdFailed)"

text \<open>The state after the window that ends at a node; \<open>k\<close> counts windows.\<close>

fun window_state_at ::
  "heap \<Rightarrow> 's checker \<Rightarrow> (nid \<Rightarrow> error + bool) \<Rightarrow> int \<Rightarrow> nat \<Rightarrow> nid \<Rightarrow> error + ThresholdState" where
  "window_state_at mem ck cond w 0 n = Inr ThresholdDefined"
| "window_state_at mem ck cond w (Suc k) n =
    (if \<not> HasStarted ck n then Inr ThresholdDefined
     else bindE (case parent_at mem n (bn_height (mem ! n) - w) of
                   None \<Rightarrow> Inr ThresholdDefined
                 | Some a \<Rightarrow> window_state_at mem ck cond w k a)
            (\<lambda>st. step_state mem ck cond w st n))"

definition window_state where
  "window_state mem ck cond w n = window_state_at mem ck cond w (nat ((bn_height (mem ! n) + 1) div w)) n"

definition window_end :: "heap \<Rightarrow> int \<Rightarrow> nid \<Rightarrow> bool" where
  "window_end mem w n \<longleftrightarrow> n < length mem \<and> (bn_height (mem ! n) + 1) mod w = 0"

definition threshold_spec where
  "threshold_spec mem ck cond prevNode =
    (let w = i32 (ConfirmationWindow ck)
     in if ForceActive ck prevNode then Inr ThresholdActive
        else if w \<le> 0 then Inr ThresholdDefined
        else case prevNode of
          None \<Rightarrow> Inr ThresholdDefined
        | Some n \<Rightarrow>
            let h = bn_height (mem ! n)
            in if h + 1 < w then Inr ThresholdDefined
               else case parent_at mem n (h - (h + 1) mod w) of
                 None \<Rightarrow> Inr ThresholdDefined
               | Some b \<Rightarrow> window_state mem ck cond w b)"

text \<open>A tree whose nodes have distinct hashes.\<close>

definition tree_ok :: "heap \<Rightarrow> bool" where
  "tree_ok mem \<longleftrightarrow> wf_heap mem \<and> inj_on (\<lambda>n. bn_hash (mem ! n)) {..<length mem}"

lemma tree_okD: "tree_ok mem \<Longrightarrow> wf_heap mem"
  "tree_ok mem \<Longrightarrow> m < length mem \<Longrightarrow> n < length mem \<Longrightarrow> bn_hash (mem ! m) = bn_hash (mem ! n) \<longleftrightarrow> m = n"
  by (auto simp: tree_ok_def inj_on_def)

definition cache_ok where
  "cache_ok mem ck cond w cache \<longleftrightarrow>
    (\<forall>n st. window_end mem w n \<longrightarrow> cache (bn_hash (mem ! n)) = Some st \<longrightarrow> window_state mem ck cond w n = Inr st)"

lemma cache_ok_empty: "cache_ok mem ck cond w Map.empty"
  by (simp add: cache_ok_def)

lemma cache_ok_update:
  "tree_ok mem \<Longrightarrow> cache_ok mem ck cond w cache \<Longrightarrow> window_end mem w n \<Longrightarrow> window_state mem ck cond w n = Inr st
    \<Longrightarrow> cache_ok mem ck cond w (cache(bn_hash (mem ! n) \<mapsto> st))"
  by (auto simp: cache_ok_def window_end_def tree_okD(2))

lemma window_end_height:
  assumes "wf_heap mem" "window_end mem w n" "0 < w"
  shows "w \<le> bn_height (mem ! n) + 1"
proof -
  have "0 < bn_height (mem ! n) + 1" using assms(1,2) height_nonneg[of mem n] by (simp add: window_end_def)
  moreover have "w dvd bn_height (mem ! n) + 1" using assms(2) by (simp add: window_end_def dvd_eq_mod_eq_0)
  ultimately show ?thesis by (rule zdvd_imp_le [rotated])
qed

lemma window_end_back:
  assumes "wf_heap mem" "window_end mem w n" "0 < w" "parent_at mem n (bn_height (mem ! n) - w) = Some a"
  shows "window_end mem w a" "a < n" "bn_height (mem ! a) = bn_height (mem ! n) - w"
proof -
  have n: "n < length mem" using assms(2) by (simp add: window_end_def)
  note a = parent_at_height[OF assms(1) n assms(4)]
  then show "bn_height (mem ! a) = bn_height (mem ! n) - w" by simp
  then show "a < n" using a(2) assms(3) by (metis le_neq_implies_less less_irrefl diff_less_eq less_add_same_cancel1)
  have "(bn_height (mem ! n) - w + 1) mod w = (bn_height (mem ! n) + 1 - w) mod w" by (simp add: algebra_simps)
  then show "window_end mem w a" using a assms(2) by (simp add: window_end_def)
qed

lemma window_state_unfold:
  assumes "wf_heap mem" "window_end mem w n" "0 < w"
  shows "window_state mem ck cond w n =
    (if \<not> HasStarted ck n then Inr ThresholdDefined
     else bindE (case parent_at mem n (bn_height (mem ! n) - w) of
                   None \<Rightarrow> Inr ThresholdDefined
                 | Some a \<Rightarrow> window_state mem ck cond w a)
            (\<lambda>st. step_state mem ck cond w st n))"
proof -
  let ?h = "bn_height (mem ! n)"
  have "1 \<le> (?h + 1) div w" using window_end_height[OF assms] assms(3) by (simp add: le_zdiv_iff)
  moreover have "(?h + 1 - w) div w = (?h + 1) div w - 1"
    using div_add_self2[of w "?h + 1 - w"] assms(3) by simp
  ultimately have k: "nat ((?h + 1) div w) = Suc (nat ((?h + 1 - w) div w))" by simp
  have "window_state mem ck cond w a = window_state_at mem ck cond w (nat ((?h + 1 - w) div w)) a"
    if "parent_at mem n (?h - w) = Some a" for a
  proof -
    have "bn_height (mem ! a) + 1 = ?h + 1 - w" using window_end_back(3)[OF assms that] by simp
    then show ?thesis by (simp only: window_state_def)
  qed
  then show ?thesis unfolding window_state_def[of mem ck cond w n] k by (simp split: option.split)
qed

section \<open>The contract of a condition checker\<close>

text \<open>
  The result of \<open>Condition\<close> does not depend on the state it reads and updates, as long as that state
  satisfies its invariant, which the call preserves.
\<close>

fun links :: "heap \<Rightarrow> 's checker \<Rightarrow> int \<Rightarrow> nid option \<Rightarrow> nid list \<Rightarrow> nid option \<Rightarrow> bool" where
  "links mem ck w prev [] target \<longleftrightarrow> prev = target"
| "links mem ck w prev (m # ms) target \<longleftrightarrow>
    window_end mem w m \<and> HasStarted ck m \<and> parent_at mem m (bn_height (mem ! m) - w) = prev
    \<and> links mem ck w (Some m) ms target"

definition state_of where
  "state_of mem ck cond w node =
    (case node of None \<Rightarrow> Inr ThresholdDefined | Some n \<Rightarrow> window_state mem ck cond w n)"

lemma links_state:
  assumes "wf_heap mem" "0 < w" "links mem ck w prev (m # ms) target"
  shows "state_of mem ck cond w (Some m)
    = bindE (state_of mem ck cond w prev) (\<lambda>st. step_state mem ck cond w st m)"
  using assms window_state_unfold[OF assms(1) _ assms(2), of m ck cond] by (auto simp: state_of_def)

lemma links_error:
  assumes "wf_heap mem" "0 < w"
  shows "links mem ck w prev ms target \<Longrightarrow> state_of mem ck cond w prev = Inl e \<Longrightarrow> state_of mem ck cond w target = Inl e"
proof (induction ms arbitrary: prev)
  case (Cons m ms)
  then have "state_of mem ck cond w (Some m) = Inl e"
    using links_state[OF assms Cons.prems(1), of cond] by simp
  then show ?case using Cons.IH[of "Some m"] Cons.prems(1) by simp
qed simp

lemma needed_states_links:
  assumes "tree_ok mem" "0 < w" "w < 2 ^ 31"
  shows "window_end mem w n \<Longrightarrow> cache_ok mem ck cond w cache \<Longrightarrow> links mem ck w (Some n) acc target
    \<Longrightarrow> \<exists>p needed cache'. needed_states mem ck w cache (Some n) acc = Some (p, needed, cache')
      \<and> links mem ck w p needed target \<and> cache_ok mem ck cond w cache'
      \<and> (case p of None \<Rightarrow> True | Some q \<Rightarrow> window_end mem w q \<and> cache' (bn_hash (mem ! q)) \<noteq> None)"
proof (induction n arbitrary: acc rule: less_induct)
  case (less n)
  note wf = tree_okD(1)[OF assms(1)]
  have n: "n < length mem" using less.prems(1) by (simp add: window_end_def)
  consider (hit) "cache (bn_hash (mem ! n)) \<noteq> None"
    | (early) "cache (bn_hash (mem ! n)) = None" "\<not> HasStarted ck n"
    | (walk) "cache (bn_hash (mem ! n)) = None" "HasStarted ck n" by blast
  then show ?case
  proof cases
    case hit
    then show ?thesis using less.prems by (subst needed_states.simps) auto
  next
    case early
    then have "window_state mem ck cond w n = Inr ThresholdDefined"
      by (simp add: window_state_unfold[OF wf less.prems(1) assms(2)])
    then show ?thesis using early less.prems cache_ok_update[OF assms(1) less.prems(2,1)]
      by (subst needed_states.simps) auto
  next
    case walk
    let ?prev = "parent_at mem n (bn_height (mem ! n) - w)"
    have "i32 (bn_height (mem ! n) - w) = bn_height (mem ! n) - w"
      using assms(2,3) height_nonneg[OF wf n] height_bound[OF wf n] by (simp add: i32_id)
    then have step: "needed_states mem ck w cache (Some n) acc = needed_states mem ck w cache ?prev (n # acc)"
      using walk by (subst needed_states.simps) (simp add: RelativeAncestor_def Ancestor_eq[OF wf n])
    have lk: "links mem ck w ?prev (n # acc) target" using walk less.prems by simp
    show ?thesis
    proof (cases ?prev)
      case None
      then have "needed_states mem ck w cache (Some n) acc = Some (None, n # acc, cache)"
        using step by (simp add: needed_states.simps)
      then show ?thesis using lk None less.prems(2) by auto
    next
      case (Some a)
      note bk = window_end_back[OF wf less.prems(1) assms(2) Some]
      show ?thesis using less.IH[OF bk(2,1) less.prems(2), of "n # acc"] lk step Some by simp
    qed
  qed
qed

locale condition_checker =
  fixes mem :: heap
    and ck :: "'s checker"
    and inv :: "'s \<Rightarrow> bool"
    and cond :: "nid \<Rightarrow> error + bool"
  assumes Condition_pure: "n < length mem \<Longrightarrow> inv s \<Longrightarrow> \<exists>s'. Condition ck n s = Some (cond n, s') \<and> inv s'"
begin

lemma count_conditions_votes:
  assumes "wf_heap mem" "inv s" "\<forall>n. node = Some n \<longrightarrow> n < length mem"
  shows "\<exists>s'. count_conditions mem (Condition ck) i node count s
      = Some (map_sum id ((+) count) (votes mem cond i node), s') \<and> inv s'"
  using assms(2,3)
proof (induction i arbitrary: node count s)
  case (Suc i)
  show ?case
  proof (cases node)
    case None
    then show ?thesis using Suc.prems by simp
  next
    case (Some n)
    then have n: "n < length mem" using Suc.prems by simp
    obtain s' where s': "Condition ck n s = Some (cond n, s')" "inv s'" using Condition_pure[OF n Suc.prems(1)] by blast
    have "\<forall>p. parent (mem ! n) = Some p \<longrightarrow> p < length mem" using wf_parent(2)[OF assms(1) n] by blast
    note IH = Suc.IH[OF s'(2) this]
    show ?thesis
    proof (cases "cond n")
      case (Inl e)
      then show ?thesis using Some s' by simp
    next
      case (Inr b)
      obtain s'' where "count_conditions mem (Condition ck) i (parent (mem ! n)) (if b then count + 1 else count) s'
          = Some (map_sum id ((+) (if b then count + 1 else count)) (votes mem cond i (parent (mem ! n))), s'')" "inv s''"
        using IH by blast
      then show ?thesis using Some s' Inr
        by (cases "votes mem cond i (parent (mem ! n))") (auto simp: algebra_simps)
    qed
  qed
qed simp

lemma transition_step:
  assumes "wf_heap mem" "inv s" "n < length mem"
  shows "\<exists>s'. thresholdStateTransition mem ck w st n s = Some (step_state mem ck cond w st n, s') \<and> inv s'"
proof (cases "st = ThresholdStarted \<and> \<not> (\<not> IsSpeedy ck \<and> HasEnded ck n)")
  case True
  obtain s' where "count_conditions mem (Condition ck) (nat w) (Some n) 0 s
      = Some (map_sum id ((+) 0) (votes mem cond (nat w) (Some n)), s')" "inv s'"
    using count_conditions_votes[OF assms(1,2), of "Some n" "nat w" 0] assms(3) by auto
  then show ?thesis using True assms(2)
    by (cases "votes mem cond (nat w) (Some n)") (auto simp: thresholdStateTransition_def step_state_def)
next
  case False
  then show ?thesis using assms(2)
    by (cases st) (auto simp: thresholdStateTransition_def step_state_def)
qed

lemma run_transitions_state:
  assumes "tree_ok mem" "0 < w"
  shows "links mem ck w prev ms target \<Longrightarrow> state_of mem ck cond w prev = Inr st \<Longrightarrow> cache_ok mem ck cond w cache
    \<Longrightarrow> inv s \<Longrightarrow> \<exists>cache' s'. run_transitions mem ck w st ms cache s = Some (state_of mem ck cond w target, cache', s')
      \<and> cache_ok mem ck cond w cache' \<and> inv s'"
proof (induction ms arbitrary: prev st cache s)
  case (Cons m ms)
  note wf = tree_okD(1)[OF assms(1)]
  have m: "window_end mem w m" "m < length mem" "links mem ck w (Some m) ms target"
    using Cons.prems(1) by (simp_all add: window_end_def)
  have st: "state_of mem ck cond w (Some m) = step_state mem ck cond w st m"
    using links_state[OF wf assms(2) Cons.prems(1), of cond] Cons.prems(2) by simp
  obtain s' where s': "thresholdStateTransition mem ck w st m s = Some (step_state mem ck cond w st m, s')" "inv s'"
    using transition_step[OF wf Cons.prems(4) m(2)] by blast
  show ?case
  proof (cases "step_state mem ck cond w st m")
    case (Inl e)
    then show ?thesis using s' links_error[OF wf assms(2) m(3), of cond] st Cons.prems(3) by simp
  next
    case (Inr st')
    then have "window_state mem ck cond w m = Inr st'" using st by (simp add: state_of_def)
    note upd = cache_ok_update[OF assms(1) Cons.prems(3) m(1) this]
    show ?thesis using Cons.IH[OF m(3) _ upd s'(2)] st Inr s'(1) by (simp del: fun_upd_apply)
  qed
qed auto

lemma thresholdState_spec:
  assumes "tree_ok mem" "inv s" "cache_ok mem ck cond (i32 (ConfirmationWindow ck)) cache"
    "\<forall>n. prevNode = Some n \<longrightarrow> n < length mem \<and> bn_height (mem ! n) < 2 ^ 31 - 1"
  shows "\<exists>cache' s'. thresholdState mem ck prevNode cache s = Some (threshold_spec mem ck cond prevNode, cache', s')
    \<and> cache_ok mem ck cond (i32 (ConfirmationWindow ck)) cache' \<and> inv s'"
proof -
  define w where "w = i32 (ConfirmationWindow ck)"
  have w_lt: "w < 2 ^ 31" using i32_range[of "ConfirmationWindow ck"] by (simp add: is_i32_def w_def)
  note wf = tree_okD(1)[OF assms(1)]
  consider (trivial) "ForceActive ck prevNode \<or> w \<le> 0 \<or> prevNode = None"
    | (node) n where "\<not> ForceActive ck prevNode" "0 < w" "prevNode = Some n" by fastforce
  then show ?thesis
  proof cases
    case trivial
    then show ?thesis using assms(2,3)
      by (auto simp: thresholdState_def threshold_spec_def Let_def w_def [symmetric] split: option.split)
  next
    case node
    let ?h = "bn_height (mem ! n)"
    have n: "n < length mem" "?h < 2 ^ 31 - 1" "0 \<le> ?h" using assms(4) node(3) height_nonneg[OF wf] by auto
    have wrap: "i32 (?h + 1) = ?h + 1" using n by (simp add: i32_id)
    show ?thesis
    proof (cases "?h + 1 < w")
      case True
      then show ?thesis using assms(2,3) node
        by (simp add: thresholdState_def threshold_spec_def Let_def w_def [symmetric] wrap)
    next
      case False
      let ?r = "(?h + 1) mod w"
      have "0 \<le> ?r" "?r < w" using node(2) by simp_all
      moreover from this have "?r \<le> ?h" using False by linarith
      ultimately have r: "0 \<le> ?r" "?r < w" "?r \<le> ?h" by simp_all
      have base: "Ancestor mem n (i32 (?h - go_mod (i32 (?h + 1)) w)) = Some (parent_at mem n (?h - ?r))"
      proof -
        have "?h \<le> 2147483646" using n(2) by simp
        then have "i32 (?h - ?r) = ?h - ?r" using r by (intro i32_id) linarith+
        then show ?thesis using n node(2) by (simp add: wrap go_mod_nonneg Ancestor_eq[OF wf n(1)])
      qed
      obtain b where b: "parent_at mem n (?h - ?r) = Some b" "b < length mem" "bn_height (mem ! b) = ?h - ?r"
        using parent_at_wf[OF wf n(1), of "?h - ?r"] r by auto
      have "(?h - ?r + 1) mod w = 0" using minus_mod_eq_mult_div[of "?h + 1" w] by (simp add: algebra_simps)
      then have wb: "window_end mem w b" using b by (simp add: window_end_def)
      obtain p needed cache' where nd: "needed_states mem ck w cache (Some b) [] = Some (p, needed, cache')"
          "links mem ck w p needed (Some b)" "cache_ok mem ck cond w cache'"
          "case p of None \<Rightarrow> True | Some q \<Rightarrow> window_end mem w q \<and> cache' (bn_hash (mem ! q)) \<noteq> None"
        using needed_states_links[OF assms(1) node(2) w_lt wb, of ck cond cache "[]" "Some b"] assms(3)
        by (auto simp: w_def)
      obtain st where st: "(case p of None \<Rightarrow> Some ThresholdDefined | Some q \<Rightarrow> cache' (bn_hash (mem ! q))) = Some st"
          "state_of mem ck cond w p = Inr st"
        using nd(3,4) by (auto simp: state_of_def cache_ok_def split: option.splits)
      obtain cache'' s' where "run_transitions mem ck w st needed cache' s
            = Some (state_of mem ck cond w (Some b), cache'', s')" "cache_ok mem ck cond w cache''" "inv s'"
        using run_transitions_state[OF assms(1) node(2) nd(2) st(2) nd(3) assms(2)] by blast
      then show ?thesis using False node base b(1) nd(1) st(1)
        by (simp add: thresholdState_def threshold_spec_def Let_def w_def [symmetric] wrap state_of_def)
    qed
  qed
qed

end

section \<open>The two checkers keep the contract\<close>

interpretation dep: condition_checker mem "deploymentChecker mem params d" "\<lambda>_. True"
    "\<lambda>n. Inr (deployment_condition mem d n)" for mem params d
  by unfold_locales (simp add: deploymentChecker_def)

definition dep_spec where
  "dep_spec mem params d prevNode =
    threshold_spec mem (deploymentChecker mem params d :: unit checker) (\<lambda>n. Inr (deployment_condition mem d n)) prevNode"

definition dep_cache_ok where
  "dep_cache_ok mem params d cache \<longleftrightarrow>
    cache_ok mem (deploymentChecker mem params d :: unit checker) (\<lambda>n. Inr (deployment_condition mem d n))
      (i32 (u32 (MinerConfirmationWindow params))) cache"

definition caches_ok :: "heap \<Rightarrow> Params \<Rightarrow> ConsensusDeployment list \<Rightarrow> thresholdStateCache list \<Rightarrow> bool" where
  "caches_ok mem params Deployments caches \<longleftrightarrow>
    tree_ok mem \<and> length caches = length Deployments
    \<and> (\<forall>i < length Deployments. dep_cache_ok mem params (Deployments ! i) (caches ! i))"

definition node_ok :: "heap \<Rightarrow> nid option \<Rightarrow> bool" where
  "node_ok mem prevNode \<longleftrightarrow>
    (\<forall>n. prevNode = Some n \<longrightarrow> n < length mem \<and> bn_height (mem ! n) < 2 ^ 31 - 1)"

lemma dep_thresholdState:
  assumes "tree_ok mem" "dep_cache_ok mem params d cache" "node_ok mem prevNode"
  shows "\<exists>cache'. thresholdState mem (deploymentChecker mem params d) prevNode cache ()
    = Some (dep_spec mem params d prevNode, cache', ()) \<and> dep_cache_ok mem params d cache'"
  using dep.thresholdState_spec[where mem = mem and params = params and d = d and s = "()"] assms
  by (simp add: dep_spec_def dep_cache_ok_def node_ok_def) (simp add: deploymentChecker_def)

text \<open>The expected version without caches.\<close>

fun version_spec :: "heap \<Rightarrow> Params \<Rightarrow> nid option \<Rightarrow> ConsensusDeployment list \<Rightarrow> uint32 \<Rightarrow> error + uint32" where
  "version_spec mem params prevNode [] v = Inr v"
| "version_spec mem params prevNode (d # ds) v =
    bindE (dep_spec mem params d prevNode) (\<lambda>st. version_spec mem params prevNode ds
      (if st = ThresholdStarted \<or> st = ThresholdLockedIn then v OR push_bit (BitNumber d) 1 else v))"

lemma next_version_spec:
  assumes "node_ok mem prevNode"
  shows "caches_ok mem params (pre @ ds) caches \<Longrightarrow>
    \<exists>caches'. next_version mem params prevNode ds (length pre) v caches
      = Some (version_spec mem params prevNode ds v, caches') \<and> caches_ok mem params (pre @ ds) caches'"
proof (induction ds arbitrary: pre v caches)
  case (Cons d ds)
  let ?i = "length pre"
  have c: "tree_ok mem" "dep_cache_ok mem params d (caches ! ?i)" "?i < length caches"
    using Cons.prems by (auto simp: caches_ok_def nth_append dest!: spec[of _ ?i])
  obtain cache' where cache': "thresholdState mem (deploymentChecker mem params d) prevNode (caches ! ?i) ()
      = Some (dep_spec mem params d prevNode, cache', ())" "dep_cache_ok mem params d cache'"
    using dep_thresholdState[OF c(1,2) assms] by blast
  have upd: "caches_ok mem params (pre @ d # ds) (caches[?i := cache'])"
    using Cons.prems cache'(2) by (auto simp: caches_ok_def nth_list_update)
  show ?case
  proof (cases "dep_spec mem params d prevNode")
    case (Inl e)
    then show ?thesis using cache'(1) upd by simp
  next
    case (Inr st)
    then show ?thesis using cache'(1) upd Cons.IH[of "pre @ [d]" "caches[?i := cache']"] by simp
  qed
qed simp

lemma calcNextBlockVersion_spec:
  "node_ok mem prevNode \<Longrightarrow> caches_ok mem params Deployments caches \<Longrightarrow>
    \<exists>caches'. calcNextBlockVersion mem params Deployments prevNode caches
      = Some (version_spec mem params prevNode Deployments vbTopBits, caches') \<and> caches_ok mem params Deployments caches'"
  using next_version_spec[of mem prevNode params "[]" Deployments caches] by (simp add: calcNextBlockVersion_def)

definition bit_condition :: "heap \<Rightarrow> Params \<Rightarrow> ConsensusDeployment list \<Rightarrow> nat \<Rightarrow> nid \<Rightarrow> error + bool" where
  "bit_condition mem params Deployments b n =
    (let ver = word_of_int (bn_version (mem ! n)) :: uint32
     in if ver AND vbTopMask \<noteq> vbTopBits \<or> ver AND push_bit b 1 = 0 then Inr False
        else bindE (version_spec mem params (parent (mem ! n)) Deployments vbTopBits)
               (\<lambda>v. Inr (v AND push_bit b 1 = 0)))"

interpretation unk: condition_checker mem "bitConditionChecker mem params Deployments b"
    "caches_ok mem params Deployments" "bit_condition mem params Deployments b" for mem params Deployments b
proof
  fix n and s :: "thresholdStateCache list"
  assume n: "n < length mem" and s: "caches_ok mem params Deployments s"
  have "wf_heap mem" using s tree_okD(1) by (simp add: caches_ok_def)
  then have "node_ok mem (parent (mem ! n))"
    using wf_parent(2,3,4)[OF \<open>wf_heap mem\<close> n] by (auto simp: node_ok_def)
  then obtain s' where "calcNextBlockVersion mem params Deployments (parent (mem ! n)) s
      = Some (version_spec mem params (parent (mem ! n)) Deployments vbTopBits, s')" "caches_ok mem params Deployments s'"
    using calcNextBlockVersion_spec[OF _ s] by blast
  then show "\<exists>s'. Condition (bitConditionChecker mem params Deployments b) n s
      = Some (bit_condition mem params Deployments b n, s') \<and> caches_ok mem params Deployments s'"
    using s by (cases "version_spec mem params (parent (mem ! n)) Deployments vbTopBits")
      (auto simp: bitConditionChecker_def bit_condition_def Let_def)
qed

section \<open>Properties\<close>

text \<open>
  C13: the cached computation of a deployment's state returns, gives the state of the machine without
  caches whatever the caches already hold, and keeps every cache correct; an unknown id is an error, but
  the id just past the last deployment panics.
\<close>

theorem deploymentState_correct:
  assumes "caches_ok mem params Deployments caches" "node_ok mem prevNode"
  shows "\<exists>caches'. deploymentState mem params Deployments prevNode i caches
    = Some (if i < length Deployments then dep_spec mem params (Deployments ! i) prevNode
            else if i = length Deployments then Inl Panic else Inl CalleeError, caches')
    \<and> caches_ok mem params Deployments caches'"
proof (cases "i < length Deployments")
  case True
  then have c: "tree_ok mem" "dep_cache_ok mem params (Deployments ! i) (caches ! i)" "i < length caches"
    using assms(1) by (auto simp: caches_ok_def)
  obtain cache' where "thresholdState mem (deploymentChecker mem params (Deployments ! i)) prevNode (caches ! i) ()
      = Some (dep_spec mem params (Deployments ! i) prevNode, cache', ())"
      "dep_cache_ok mem params (Deployments ! i) cache'"
    using dep_thresholdState[OF c(1,2) assms(2)] by blast
  then show ?thesis using True assms(1) by (auto simp: deploymentState_def caches_ok_def nth_list_update)
next
  case False
  then show ?thesis using assms(1) by (auto simp: deploymentState_def)
qed

text \<open>
  The state of an unknown version bit, whose condition itself consults and fills the deployment
  caches, is the state of the machine without caches, and the deployment caches stay correct.
\<close>

theorem unknown_bit_state_correct:
  assumes "caches_ok mem params Deployments caches" "node_ok mem prevNode"
  shows "\<exists>cache' caches'. thresholdState mem (bitConditionChecker mem params Deployments b) prevNode Map.empty caches
    = Some (threshold_spec mem (bitConditionChecker mem params Deployments b)
        (bit_condition mem params Deployments b) prevNode, cache', caches')
    \<and> caches_ok mem params Deployments caches'"
proof -
  have "tree_ok mem" using assms(1) by (simp add: caches_ok_def)
  from unk.thresholdState_spec[OF this assms(1) cache_ok_empty assms(2)[unfolded node_ok_def], of b]
  show ?thesis by blast
qed

text \<open>The last window that changed a state: its own step led there from another state.\<close>

lemma last_change:
  assumes "wf_heap mem" "0 < w"
  shows "window_end mem w n \<Longrightarrow> window_state mem ck cond w n = Inr st \<Longrightarrow> st \<noteq> ThresholdDefined
    \<Longrightarrow> \<exists>b st0. parent_at mem n (bn_height (mem ! b)) = Some b \<and> window_end mem w b \<and> HasStarted ck b \<and> st0 \<noteq> st
      \<and> window_state mem ck cond w b = Inr st
      \<and> (case parent_at mem b (bn_height (mem ! b) - w) of None \<Rightarrow> Inr ThresholdDefined | Some a \<Rightarrow> window_state mem ck cond w a) = Inr st0
      \<and> step_state mem ck cond w st0 b = Inr st"
proof (induction n rule: less_induct)
  case (less n)
  have n: "n < length mem" using less.prems(1) by (simp add: window_end_def)
  have hn: "0 \<le> bn_height (mem ! n)" using height_nonneg[OF assms(1) n] .
  let ?prev = "parent_at mem n (bn_height (mem ! n) - w)"
  note unfold = window_state_unfold[OF assms(1) less.prems(1) assms(2), of ck cond]
  have started: "HasStarted ck n" using less.prems(2,3) unfold by (auto split: if_splits)
  then obtain st0 where st0: "(case ?prev of None \<Rightarrow> Inr ThresholdDefined | Some a \<Rightarrow> window_state mem ck cond w a) = Inr st0"
      "step_state mem ck cond w st0 n = Inr st"
    using less.prems(2) unfold by (auto simp: bindE_iffs)
  show ?case
  proof (cases "st0 = st")
    case False
    then show ?thesis using st0 started less.prems(1,2) hn by (intro exI[of _ n] exI[of _ st0]) simp
  next
    case True
    then obtain a where a: "?prev = Some a" "window_state mem ck cond w a = Inr st"
      using st0(1) less.prems(3) by (cases ?prev) auto
    note bk = window_end_back[OF assms(1) less.prems(1) assms(2) a(1)]
    obtain b st0 where b: "parent_at mem a (bn_height (mem ! b)) = Some b" "window_end mem w b" "HasStarted ck b" "st0 \<noteq> st"
        "window_state mem ck cond w b = Inr st"
        "(case parent_at mem b (bn_height (mem ! b) - w) of None \<Rightarrow> Inr ThresholdDefined | Some a \<Rightarrow> window_state mem ck cond w a) = Inr st0"
        "step_state mem ck cond w st0 b = Inr st"
      using less.IH[OF bk(2,1) a(2) less.prems(3)] by blast
    have "a < length mem" using bk(1) by (simp add: window_end_def)
    note hb = parent_at_height[OF assms(1) this b(1)]
    have "parent_at mem n (bn_height (mem ! b)) = Some b"
      using parent_at_trans[OF assms(1) n hb(4) _ _ a(1)] hb(5) bk(3) b(1) assms(2) by simp
    then show ?thesis using b(2-7) by blast
  qed
qed

lemma change_to:
  "step_state mem ck cond w st0 b = Inr ThresholdStarted \<Longrightarrow> st0 \<noteq> ThresholdStarted \<Longrightarrow> st0 = ThresholdDefined"
  "step_state mem ck cond w st0 b = Inr ThresholdLockedIn \<Longrightarrow> st0 \<noteq> ThresholdLockedIn \<Longrightarrow>
    st0 = ThresholdStarted \<and> (\<exists>c. votes mem cond (nat w) (Some b) = Inr c \<and> ActivationThreshold ck \<le> c)"
  "step_state mem ck cond w st0 b = Inr ThresholdActive \<Longrightarrow> st0 \<noteq> ThresholdActive \<Longrightarrow>
    st0 = ThresholdLockedIn \<and> EligibleToActivate ck b"
  by (cases st0; auto simp: step_state_def bindE_iffs split: if_splits)+

text \<open>The state that \<open>thresholdState\<close> computes for a deployment without cached states.\<close>

definition computed_state :: "heap \<Rightarrow> Params \<Rightarrow> ConsensusDeployment \<Rightarrow> nid option \<Rightarrow> ThresholdState \<Rightarrow> bool" where
  "computed_state mem params d p st \<longleftrightarrow>
    (\<exists>cache. thresholdState mem (deploymentChecker mem params d :: unit checker) p Map.empty () = Some (Inr st, cache, ()))"

text \<open>The last block of a window that takes a deployment from one state to the next.\<close>

definition turns :: "heap \<Rightarrow> Params \<Rightarrow> ConsensusDeployment \<Rightarrow> nid \<Rightarrow> ThresholdState \<Rightarrow> ThresholdState \<Rightarrow> bool" where
  "turns mem params d b st st' \<longleftrightarrow>
    (let w = i32 (u32 (MinerConfirmationWindow params))
     in window_end mem w b
        \<and> computed_state mem params d (parent_at mem b (bn_height (mem ! b) - w)) st
        \<and> computed_state mem params d (Some b) st')"


lemma computed_state_window:
  assumes "tree_ok mem" "bn_height (mem ! n) < 2 ^ 31 - 1" "\<not> ForceActive (deploymentChecker mem params d :: unit checker) (Some n)"
    "bn_height (mem ! b) \<le> bn_height (mem ! n)" "0 < i32 (u32 (MinerConfirmationWindow params))"
    "window_end mem (i32 (u32 (MinerConfirmationWindow params))) b"
    "window_state mem (deploymentChecker mem params d :: unit checker) (\<lambda>n. Inr (deployment_condition mem d n))
      (i32 (u32 (MinerConfirmationWindow params))) b = Inr st"
  shows "computed_state mem params d (Some b) st"
proof -
  let ?ck = "deploymentChecker mem params d :: unit checker" and ?w = "i32 (u32 (MinerConfirmationWindow params))"
  note wf = tree_okD(1)[OF assms(1)]
  have b: "b < length mem" "(bn_height (mem ! b) + 1) mod ?w = 0" using assms(6) by (simp_all add: window_end_def)
  have h: "0 \<le> bn_height (mem ! b)" using height_nonneg[OF wf b(1)] .
  have "u32 (u32 (bn_height (mem ! x)) + 1) = bn_height (mem ! x) + 1" if "x = b \<or> x = n" for x
    using that h assms(2,4) by (auto simp: u32_id)
  then have "\<not> ForceActive ?ck (Some b)" using assms(3,4) by (simp add: deploymentChecker_def)
  moreover have "ConfirmationWindow ?ck = u32 (MinerConfirmationWindow params)" by (simp add: deploymentChecker_def)
  ultimately have "dep_spec mem params d (Some b) = Inr st"
    using assms(5,7) b(2) h window_end_height[OF wf assms(6,5)] by (simp add: dep_spec_def threshold_spec_def)
  moreover have "node_ok mem (Some b)" using b(1) assms(2,4) by (simp add: node_ok_def)
  moreover have "dep_cache_ok mem params d Map.empty" by (simp add: dep_cache_ok_def cache_ok_empty)
  ultimately show ?thesis using dep_thresholdState[OF assms(1), of params d Map.empty "Some b"] by (auto simp: computed_state_def)
qed

lemma computed_state_None: "tree_ok mem \<Longrightarrow> computed_state mem params d None ThresholdDefined"
  by (simp add: computed_state_def thresholdState_def deploymentChecker_def Let_def)

text \<open>The last turn towards the state of a window, with what its step requires.\<close>

lemma last_turn:
  assumes "tree_ok mem" "bn_height (mem ! n) < 2 ^ 31 - 1" "\<not> ForceActive (deploymentChecker mem params d :: unit checker) (Some n)"
    "bn_height (mem ! b) \<le> bn_height (mem ! n)"
  defines "w \<equiv> i32 (u32 (MinerConfirmationWindow params))" and "ck \<equiv> deploymentChecker mem params d :: unit checker"
    and "cond \<equiv> \<lambda>n. Inr (deployment_condition mem d n)"
  assumes "0 < w" "window_end mem w b" "window_state mem ck cond w b = Inr st" "st \<noteq> ThresholdDefined"
  obtains e st0 where "parent_at mem b (bn_height (mem ! e)) = Some e" "window_end mem w e" "turns mem params d e st0 st" "HasStarted ck e" "st0 \<noteq> st"
    "step_state mem ck cond w st0 e = Inr st"
    "st0 \<noteq> ThresholdDefined \<Longrightarrow> \<exists>a. parent_at mem e (bn_height (mem ! e) - w) = Some a \<and> window_end mem w a
      \<and> window_state mem ck cond w a = Inr st0"
proof -
  note wf = tree_okD(1)[OF assms(1)]
  have b: "b < length mem" using assms(9) by (simp add: window_end_def)
  let ?prev = "\<lambda>e. parent_at mem e (bn_height (mem ! e) - w)"
  obtain e st0 where e: "parent_at mem b (bn_height (mem ! e)) = Some e" "window_end mem w e" "HasStarted ck e" "st0 \<noteq> st"
      "window_state mem ck cond w e = Inr st"
      "(case ?prev e of None \<Rightarrow> Inr ThresholdDefined | Some a \<Rightarrow> window_state mem ck cond w a) = Inr st0"
      "step_state mem ck cond w st0 e = Inr st"
    using last_change[OF wf assms(8-11)] by blast
  have he: "bn_height (mem ! e) \<le> bn_height (mem ! n)" using parent_at_height[OF wf b e(1)] assms(4) by simp
  note computed = computed_state_window[OF assms(1-3), folded w_def ck_def cond_def, OF _ assms(8)]
  have prev: "\<exists>a. ?prev e = Some a \<and> window_end mem w a \<and> window_state mem ck cond w a = Inr st0"
    if "?prev e \<noteq> None"
    using that e(6) window_end_back[OF wf e(2) assms(8)] by auto
  have "computed_state mem params d (?prev e) st0"
  proof (cases "?prev e")
    case None
    then show ?thesis using e(6) computed_state_None[OF assms(1)] by simp
  next
    case (Some a)
    then show ?thesis using prev window_end_back(3)[OF wf e(2) assms(8) Some] he assms(8) computed[of a st0] by auto
  qed
  then have "turns mem params d e st0 st"
    using e(2,5) he computed[of e st] by (simp add: turns_def w_def [symmetric])
  moreover have "\<exists>a. ?prev e = Some a \<and> window_end mem w a \<and> window_state mem ck cond w a = Inr st0" if "st0 \<noteq> ThresholdDefined"
    using that prev e(6) by (cases "?prev e") auto
  ultimately show ?thesis using that e by blast
qed

text \<open>From a window after which a deployment is active, the three windows that brought it there.\<close>

lemma activation_path:
  assumes "tree_ok mem" "bn_height (mem ! n) < 2 ^ 31 - 1" "\<not> ForceActive (deploymentChecker mem params d :: unit checker) (Some n)"
    "bn_height (mem ! b) \<le> bn_height (mem ! n)"
  defines "w \<equiv> i32 (u32 (MinerConfirmationWindow params))" and "ck \<equiv> deploymentChecker mem params d :: unit checker"
    and "cond \<equiv> \<lambda>n. Inr (deployment_condition mem d n)"
  assumes w: "0 < w" and b: "window_end mem w b" "window_state mem ck cond w b = Inr ThresholdActive"
  shows "\<exists>i m e c. parent_at mem b (bn_height (mem ! e)) = Some e \<and> parent_at mem e (bn_height (mem ! m)) = Some m
      \<and> parent_at mem m (bn_height (mem ! i)) = Some i
      \<and> bn_height (mem ! i) < bn_height (mem ! m) \<and> bn_height (mem ! m) < bn_height (mem ! e)
    \<and> turns mem params d i ThresholdDefined ThresholdStarted \<and> HasStarted ck i
    \<and> turns mem params d m ThresholdStarted ThresholdLockedIn \<and> votes mem cond (nat w) (Some m) = Inr c \<and> ActivationThreshold ck \<le> c
    \<and> turns mem params d e ThresholdLockedIn ThresholdActive \<and> EligibleToActivate ck e"
proof -
  note wf = tree_okD(1)[OF assms(1)]
  note turn = last_turn[OF assms(1-3), folded w_def ck_def cond_def, OF _ w]
  note len = window_end_def[THEN iffD1, THEN conjunct1]
  obtain e st1 where e: "parent_at mem b (bn_height (mem ! e)) = Some e" "window_end mem w e" "turns mem params d e st1 ThresholdActive"
      "st1 \<noteq> ThresholdActive" "step_state mem ck cond w st1 e = Inr ThresholdActive"
      "st1 \<noteq> ThresholdDefined \<Longrightarrow> \<exists>a. parent_at mem e (bn_height (mem ! e) - w) = Some a \<and> window_end mem w a
        \<and> window_state mem ck cond w a = Inr st1"
    by (rule turn[OF assms(4) b]) auto
  have e1: "st1 = ThresholdLockedIn" "EligibleToActivate ck e" using change_to(3)[OF e(5,4)] by simp_all
  obtain a where a: "parent_at mem e (bn_height (mem ! e) - w) = Some a" "window_end mem w a" "window_state mem ck cond w a = Inr ThresholdLockedIn"
    using e(6) e1 by auto
  note he = parent_at_height[OF wf len[OF b(1)] e(1)] and ha = window_end_back(3)[OF wf e(2) w a(1)]
  obtain m st2 where m: "parent_at mem a (bn_height (mem ! m)) = Some m" "window_end mem w m" "turns mem params d m st2 ThresholdLockedIn"
      "st2 \<noteq> ThresholdLockedIn" "step_state mem ck cond w st2 m = Inr ThresholdLockedIn"
      "st2 \<noteq> ThresholdDefined \<Longrightarrow> \<exists>a. parent_at mem m (bn_height (mem ! m) - w) = Some a \<and> window_end mem w a
        \<and> window_state mem ck cond w a = Inr st2"
    by (rule turn[OF _ a(2,3)]) (use ha he assms(4) w in auto)
  obtain c where c: "st2 = ThresholdStarted" "votes mem cond (nat w) (Some m) = Inr c" "ActivationThreshold ck \<le> c"
    using change_to(2)[OF m(5,4)] by blast
  then obtain x where x: "parent_at mem m (bn_height (mem ! m) - w) = Some x" "window_end mem w x" "window_state mem ck cond w x = Inr ThresholdStarted"
    using m(6) by auto
  note hm = parent_at_height[OF wf len[OF a(2)] m(1)] and hx = window_end_back(3)[OF wf m(2) w x(1)]
  obtain i st3 where i: "parent_at mem x (bn_height (mem ! i)) = Some i" "turns mem params d i st3 ThresholdStarted" "HasStarted ck i"
      "st3 \<noteq> ThresholdStarted" "step_state mem ck cond w st3 i = Inr ThresholdStarted"
    by (rule turn[OF _ x(2,3)]) (use hx hm ha he assms(4) w in auto)
  note hi = parent_at_height[OF wf len[OF x(2)] i(1)]
  have "parent_at mem e (bn_height (mem ! m)) = Some m"
    using parent_at_trans[OF wf len[OF e(2)] _ _ _ a(1), of "bn_height (mem ! m)"] m(1) ha hm w by simp
  moreover have "parent_at mem m (bn_height (mem ! i)) = Some i"
    using parent_at_trans[OF wf len[OF m(2)] _ _ _ x(1), of "bn_height (mem ! i)"] i(1) hx hi w by simp
  ultimately show ?thesis
    using e(1,3) e1 m(3) c i(2,3) change_to(1)[OF i(5,4)] hi hx hm ha w
    by (intro exI[of _ i] exI[of _ m] exI[of _ e] exI[of _ c]) simp
qed

text \<open>
  C21: a deployment that is not forced and whose state is active, for any sound cache, went through the BIP9 states on the
  node's own branch.  There are windows that end in \<open>i\<close>, \<open>m\<close> and \<open>e\<close>, in this order: the first takes the computed state
  from defined to started, after the start time; the second from started to locked in, with at least the threshold
  of signalling blocks; the third from locked in to active, at or above the minimum activation height.
\<close>

theorem activation_needs_votes:
  assumes "tree_ok mem" "dep_cache_ok mem params d cache" "n < length mem" "bn_height (mem ! n) < 2 ^ 31 - 1"
    "\<not> ForceActive (deploymentChecker mem params d :: unit checker) (Some n)"
    "thresholdState mem (deploymentChecker mem params d :: unit checker) (Some n) cache () = Some (Inr ThresholdActive, cache', ())"
  shows "\<exists>i m e c. parent_at mem n (bn_height (mem ! e)) = Some e \<and> parent_at mem e (bn_height (mem ! m)) = Some m
      \<and> parent_at mem m (bn_height (mem ! i)) = Some i
      \<and> bn_height (mem ! i) < bn_height (mem ! m) \<and> bn_height (mem ! m) < bn_height (mem ! e)
    \<and> turns mem params d i ThresholdDefined ThresholdStarted \<and> StarterHasStarted d (node_Header mem i)
    \<and> turns mem params d m ThresholdStarted ThresholdLockedIn
    \<and> votes mem (\<lambda>n. Inr (deployment_condition mem d n)) (nat (i32 (u32 (MinerConfirmationWindow params)))) (Some m) = Inr c
    \<and> (if CustomActivationThreshold d \<noteq> 0 then CustomActivationThreshold d else RuleChangeActivationThreshold params) \<le> c
    \<and> turns mem params d e ThresholdLockedIn ThresholdActive
    \<and> (MinActivationHeight d = 0 \<or> MinActivationHeight d \<le> bn_height (mem ! e) + 1)"
proof -
  let ?w = "i32 (u32 (MinerConfirmationWindow params))" and ?h = "bn_height (mem ! n)" and ?ck = "deploymentChecker mem params d :: unit checker"
    and ?cond = "\<lambda>n. Inr (deployment_condition mem d n) :: error + bool"
  note wf = tree_okD(1)[OF assms(1)]
  have "i32 (ConfirmationWindow ?ck) = ?w" by (simp add: deploymentChecker_def)
  moreover have "dep_spec mem params d (Some n) = Inr ThresholdActive"
    using dep_thresholdState[OF assms(1,2), of "Some n"] assms(3,4,6) by (auto simp: node_ok_def)
  ultimately obtain b where b: "0 < ?w" "parent_at mem n (?h - (?h + 1) mod ?w) = Some b" "window_state mem ?ck ?cond ?w b = Inr ThresholdActive"
    using assms(5) by (auto simp: dep_spec_def threshold_spec_def Let_def split: if_splits option.splits)
  note hb = parent_at_height[OF wf assms(3) b(2)]
  have "(?h - (?h + 1) mod ?w + 1) mod ?w = 0"
    using minus_mod_eq_mult_div[of "?h + 1" ?w] by (simp add: algebra_simps)
  then have wb: "window_end mem ?w b" using hb by (simp add: window_end_def)
  have bn: "bn_height (mem ! b) \<le> ?h" using hb pos_mod_sign[OF b(1), of "?h + 1"] by simp
  obtain i m e c where path: "parent_at mem b (bn_height (mem ! e)) = Some e" "parent_at mem e (bn_height (mem ! m)) = Some m"
      "parent_at mem m (bn_height (mem ! i)) = Some i"
      "bn_height (mem ! i) < bn_height (mem ! m)" "bn_height (mem ! m) < bn_height (mem ! e)"
      "turns mem params d i ThresholdDefined ThresholdStarted" "HasStarted ?ck i"
      "turns mem params d m ThresholdStarted ThresholdLockedIn" "votes mem ?cond (nat ?w) (Some m) = Inr c" "ActivationThreshold ?ck \<le> c"
      "turns mem params d e ThresholdLockedIn ThresholdActive" "EligibleToActivate ?ck e"
    using activation_path[OF assms(1,4,5) bn b(1) wb b(3)] by blast
  note he = parent_at_height[OF wf hb(3) path(1)]
  have "parent_at mem n (bn_height (mem ! e)) = Some e"
    using parent_at_trans[OF wf assms(3) _ _ _ b(2), of "bn_height (mem ! e)"] path(1) he hb bn by simp
  moreover have "u32 (u32 (bn_height (mem ! e)) + 1) = bn_height (mem ! e) + 1"
    using he bn assms(4) by (simp add: u32_id)
  ultimately show ?thesis
    using path(2-) by (intro exI[of _ i] exI[of _ m] exI[of _ e] exI[of _ c]) (simp add: deploymentChecker_def)
qed

text \<open>A chain of three blocks that all signal bit 0, with windows of one block.\<close>

definition vote_heap :: heap where
  "vote_heap = map (\<lambda>n. n\<lparr>bn_version := 0x20000001\<rparr>) sample_heap"

definition vote_params :: Params where
  "vote_params = \<lparr>AnnualBlockCount = 0, InitialBlockReward = 0, MinimumBlockReward = 0,
    GenesisAddressShare = 0, GenesisHash = [], PowLimit = 0, PowLimitBits = 0, CoinbaseMaturity = 0,
    BIP0034Height = 0, BIP0034Hash = None, BIP0065Height = 0, BIP0066Height = 0,
    RuleChangeActivationThreshold = 1, MinerConfirmationWindow = 1, EnforceBIP94 = False,
    TargetTimespan = 0, TargetTimePerBlock = 0, RetargetAdjustmentFactor = 0, GenesisDifficultyBits = 0,
    DeploymentCSV = 0, DeploymentSegwit = 0, DeploymentTaproot = 0\<rparr>"

definition vote_deployment :: ConsensusDeployment where
  "vote_deployment = \<lparr>BitNumber = 0, MinActivationHeight = 0, CustomActivationThreshold = 0,
    StarterHasStarted = (\<lambda>_. True), EnderHasEnded = (\<lambda>_. False), EffectiveAlwaysActiveHeight = 1000\<rparr>"

lemmas vote_defs = vote_heap_def sample_heap_def sample_node_def vote_params_def vote_deployment_def

lemma vote_heap_ok: "tree_ok vote_heap"
proof -
  have "wf_heap vote_heap"
    by (auto simp: wf_heap_def wf_node_def vote_defs less_Suc_eq numeral_3_eq_3 numeral_2_eq_2
        parent_at_def getAncestorHeight_def invertLowestOne_def i32_def)
  moreover have "inj_on (\<lambda>n. bn_hash (vote_heap ! n)) {..<length vote_heap}"
    by (auto simp: inj_on_def vote_defs less_Suc_eq numeral_3_eq_3 numeral_2_eq_2)
  ultimately show ?thesis by (simp add: tree_ok_def)
qed

lemma vote_caches_ok: "caches_ok vote_heap vote_params [vote_deployment] [Map.empty]"
  by (simp add: caches_ok_def vote_heap_ok dep_cache_ok_def cache_ok_empty)

lemma vote_active: "dep_spec vote_heap vote_params vote_deployment (Some 2) = Inr ThresholdActive"
proof -
  have "deployment_condition vote_heap vote_deployment n" if "n < 3" for n
    using that by (auto simp: deployment_condition_def vote_defs vbTopMask_def vbTopBits_def less_Suc_eq numeral_3_eq_3 numeral_2_eq_2)
  then show ?thesis
    by (simp add: dep_spec_def threshold_spec_def window_state_def deploymentChecker_def vote_defs u32_def i32_def
        parent_at_def numeral_2_eq_2 numeral_3_eq_3 step_state_def)
qed

theorem deploymentState_correct_witness:
  "\<exists>caches'. deploymentState vote_heap vote_params [vote_deployment] (Some 2) 0 [Map.empty]
    = Some (Inr ThresholdActive, caches') \<and> caches_ok vote_heap vote_params [vote_deployment] caches'"
  using deploymentState_correct[OF vote_caches_ok, of "Some 2" 0] vote_active
  by (auto simp: node_ok_def vote_heap_def sample_heap_def sample_node_def)

theorem unknown_bit_state_correct_witness:
  "\<exists>cache' caches'. thresholdState vote_heap (bitConditionChecker vote_heap vote_params [vote_deployment] 5)
      (Some 2) Map.empty [Map.empty]
    = Some (threshold_spec vote_heap (bitConditionChecker vote_heap vote_params [vote_deployment] 5)
        (bit_condition vote_heap vote_params [vote_deployment] 5) (Some 2), cache', caches')
    \<and> caches_ok vote_heap vote_params [vote_deployment] caches'"
  by (rule unknown_bit_state_correct[OF vote_caches_ok])
    (simp add: node_ok_def vote_heap_def sample_heap_def sample_node_def)

theorem activation_needs_votes_witness:
  "\<exists>i m e c. parent_at vote_heap 2 (bn_height (vote_heap ! e)) = Some e
    \<and> bn_height (vote_heap ! i) < bn_height (vote_heap ! m) \<and> bn_height (vote_heap ! m) < bn_height (vote_heap ! e)
    \<and> turns vote_heap vote_params vote_deployment i ThresholdDefined ThresholdStarted
    \<and> turns vote_heap vote_params vote_deployment m ThresholdStarted ThresholdLockedIn
    \<and> votes vote_heap (\<lambda>n. Inr (deployment_condition vote_heap vote_deployment n)) 1 (Some m) = Inr c \<and> 1 \<le> c
    \<and> turns vote_heap vote_params vote_deployment e ThresholdLockedIn ThresholdActive"
proof -
  have h: "2 < length vote_heap" "bn_height (vote_heap ! 2) < 2 ^ 31 - 1" by (simp_all add: vote_defs)
  have empty: "dep_cache_ok vote_heap vote_params vote_deployment Map.empty" by (simp add: dep_cache_ok_def cache_ok_empty)
  obtain cache where run: "thresholdState vote_heap (deploymentChecker vote_heap vote_params vote_deployment :: unit checker) (Some 2) Map.empty ()
      = Some (Inr ThresholdActive, cache, ())"
    using dep_thresholdState[OF vote_heap_ok empty, of "Some 2"] vote_active h by (auto simp: node_ok_def)
  have "\<not> ForceActive (deploymentChecker vote_heap vote_params vote_deployment :: unit checker) (Some 2)"
    by (simp add: deploymentChecker_def vote_defs u32_def)
  moreover have "nat (i32 (u32 (MinerConfirmationWindow vote_params))) = 1" "CustomActivationThreshold vote_deployment = 0"
    "RuleChangeActivationThreshold vote_params = 1"
    by (simp_all add: vote_defs u32_def i32_def)
  ultimately obtain i m e c where "parent_at vote_heap 2 (bn_height (vote_heap ! e)) = Some e"
    "bn_height (vote_heap ! i) < bn_height (vote_heap ! m)" "bn_height (vote_heap ! m) < bn_height (vote_heap ! e)"
    "turns vote_heap vote_params vote_deployment i ThresholdDefined ThresholdStarted"
    "turns vote_heap vote_params vote_deployment m ThresholdStarted ThresholdLockedIn"
    "votes vote_heap (\<lambda>n. Inr (deployment_condition vote_heap vote_deployment n)) 1 (Some m) = Inr c" "1 \<le> c"
    "turns vote_heap vote_params vote_deployment e ThresholdLockedIn ThresholdActive"
    using activation_needs_votes[OF vote_heap_ok empty h _ run] by auto
  then show ?thesis by blast
qed

end
