(* ===== verification/Wire.thy ===== *)
theory Wire
  imports Block_Node Errors
begin

text \<open>
  Transactions and blocks as package \<open>blockchain\<close> sees them.  The types and the functions on them that
  hash or measure their serialization, and the constants of those packages, belong to \<open>nogocommons\<close> (packages \<open>wire\<close>, \<open>chainhash\<close>,
  \<open>nogoutil\<close>), so the functions are the fields of a record \<open>wire_lib\<close> that the definitions take as an
  argument.  The coinbase predicates are those of validate.go.
\<close>

section \<open>Transactions and blocks\<close>

record OutPoint =
  op_Hash :: hash
  op_Index :: uint32

record TxIn =
  PreviousOutPoint :: OutPoint
  SignatureScript :: "byte list"
  Witness :: "byte list list"
  Sequence :: uint32

record TxOut =
  Value :: int
  PkScript :: "byte list"

record MsgTx =
  tx_Version :: int
  tx_TxIn :: "TxIn list"
  tx_TxOut :: "TxOut list"
  LockTime :: uint32

text \<open>A block together with the height its wrapper carries.\<close>

record Block =
  Header :: BlockHeader
  Transactions :: "MsgTx list"
  blk_Height :: int

record wire_lib =
  BlockHash :: "BlockHeader \<Rightarrow> hash"
  TxHash :: "MsgTx \<Rightarrow> hash"
  WitnessHash :: "MsgTx \<Rightarrow> hash"
  HasWitness :: "MsgTx \<Rightarrow> bool"
  DoubleHash :: "byte list \<Rightarrow> hash"
  txSizeStripped :: "MsgTx \<Rightarrow> int"
  txSize :: "MsgTx \<Rightarrow> int"
  blockSizeStripped :: "Block \<Rightarrow> int"
  blockSize :: "Block \<Rightarrow> int"
  MinTxOutPayload :: nat
  MaxSatoshi :: int
  SequenceLockTimeDisabled :: uint32
  SequenceLockTimeIsSeconds :: uint32
  SequenceLockTimeMask :: uint32
  SequenceLockTimeGranularity :: nat

section \<open>Coinbases\<close>

definition maxUint32 :: uint32 where "maxUint32 = 0xffffffff"

definition isNullOutpoint :: "OutPoint \<Rightarrow> bool" where
  "isNullOutpoint outpoint \<longleftrightarrow> op_Index outpoint = maxUint32 \<and> op_Hash outpoint = zeroHash"

definition IsCoinBaseTx :: "MsgTx \<Rightarrow> bool" where
  "IsCoinBaseTx msgTx =
    (if length (tx_TxIn msgTx) \<noteq> 1 then False
     else let prevOut = PreviousOutPoint (tx_TxIn msgTx ! 0)
          in \<not> (op_Index prevOut \<noteq> maxUint32 \<or> op_Hash prevOut \<noteq> zeroHash))"

definition IsCoinBase :: "MsgTx \<Rightarrow> bool" where
  "IsCoinBase tx = IsCoinBaseTx tx"

lemma IsCoinBase_null:
  "IsCoinBase tx \<longleftrightarrow> (\<exists>txin. tx_TxIn tx = [txin] \<and> isNullOutpoint (PreviousOutPoint txin))"
  by (cases "tx_TxIn tx") (auto simp: IsCoinBase_def IsCoinBaseTx_def isNullOutpoint_def Let_def length_Suc_conv)

text \<open>The outpoints of a transaction's outputs, in order.\<close>

definition outpoint :: "wire_lib \<Rightarrow> MsgTx \<Rightarrow> nat \<Rightarrow> OutPoint" where
  "outpoint L tx i = \<lparr>op_Hash = TxHash L tx, op_Index = of_nat i\<rparr>"

lemma outpoint_inj:
  "i < 2 ^ 32 \<Longrightarrow> j < 2 ^ 32 \<Longrightarrow> outpoint L tx i = outpoint L tx' j \<longleftrightarrow> TxHash L tx = TxHash L tx' \<and> i = j"
  by (auto simp: outpoint_def word_unat_eq_iff unat_of_nat)

end
