(* ===== verification/Merkle.thy ===== *)
theory Merkle
  imports Wire "HOL-Library.Monad_Syntax"
begin

text \<open>
  Merkle roots (merkle.go, rolling\_merkle.go).  The specification is level by level: pair the hashes of a
  level, the last one with itself when it is alone, until one hash is left.  The rolling store keeps only
  the roots of the complete subtrees that the binary digits of the number of leaves describe; the
  theorems show that it returns, never pops an empty slice, and computes the same root.  \<open>None\<close> is an
  index out of range or a loop that does not end.
\<close>

section \<open>The code\<close>

definition HashMerkleBranches :: "wire_lib \<Rightarrow> hash \<Rightarrow> hash \<Rightarrow> hash" where
  "HashMerkleBranches L left right = DoubleHash L (left @ right)"

record rollingMerkleTreeStore =
  roots :: "hash list"
  numLeaves :: nat

definition newRollingMerkleTreeStore :: rollingMerkleTreeStore where
  "newRollingMerkleTreeStore = \<lparr>roots = [], numLeaves = 0\<rparr>"

text \<open>The loop of \<open>add\<close>; \<open>n\<close> is \<open>numLeaves >> h\<close>.\<close>

function add_loop :: "wire_lib \<Rightarrow> nat \<Rightarrow> hash list \<Rightarrow> hash \<Rightarrow> hash list option" where
  "add_loop L n rs newRoot =
    (if n mod 2 = 1
     then if rs = [] then None
          else add_loop L (n div 2) (butlast rs) (HashMerkleBranches L (last rs) newRoot)
     else Some (rs @ [newRoot]))"
  by pat_completeness auto
termination by (relation "measure (\<lambda>(_, n, _). n)") auto

declare add_loop.simps [simp del]

definition rolling_add :: "wire_lib \<Rightarrow> hash \<Rightarrow> rollingMerkleTreeStore \<Rightarrow> rollingMerkleTreeStore option" where
  "rolling_add L add s =
    map_option (\<lambda>rs. \<lparr>roots = rs, numLeaves = numLeaves s + 1\<rparr>) (add_loop L (numLeaves s) (roots s) add)"

fun rolling_add_all :: "wire_lib \<Rightarrow> hash list \<Rightarrow> rollingMerkleTreeStore \<Rightarrow> rollingMerkleTreeStore option" where
  "rolling_add_all L [] s = Some s"
| "rolling_add_all L (h # hs) s = Option.bind (rolling_add L h s) (rolling_add_all L hs)"

text \<open>
  The shift of \<open>numLeaves\<close> to the row with an odd number of leaves.  The store is never empty here; the
  loop of the code would not end for zero.
\<close>

fun shift_odd :: "nat \<Rightarrow> nat" where
  "shift_odd n = (if n = 0 \<or> n mod 2 = 1 then n else shift_odd (n div 2))"

declare shift_odd.simps [simp del]

partial_function (option) finish_rows :: "wire_lib \<Rightarrow> rollingMerkleTreeStore \<Rightarrow> rollingMerkleTreeStore option" where
  "finish_rows L s =
    (if length (roots s) > 1
     then if numLeaves s = 0 then None
          else Option.bind (rolling_add L (last (roots s)) (s\<lparr>numLeaves := shift_odd (numLeaves s)\<rparr>)) (finish_rows L)
     else Some s)"

declare finish_rows.simps [code]

text \<open>The leaf of the transaction at position \<open>i\<close>.\<close>

definition leaf :: "wire_lib \<Rightarrow> bool \<Rightarrow> nat \<Rightarrow> MsgTx \<Rightarrow> hash" where
  "leaf L witness i tx =
    (if witness \<and> i = 0 then zeroHash else if witness then WitnessHash L tx else TxHash L tx)"

definition first_root :: "rollingMerkleTreeStore \<Rightarrow> hash option" where
  "first_root s = (case roots s of [] \<Rightarrow> None | r # _ \<Rightarrow> Some r)"

definition calcMerkleRoot :: "wire_lib \<Rightarrow> MsgTx list \<Rightarrow> bool \<Rightarrow> rollingMerkleTreeStore \<Rightarrow> hash option" where
  "calcMerkleRoot L adds witness s = do {
     s \<leftarrow> rolling_add_all L (map (\<lambda>(i, tx). leaf L witness i tx) (enumerate 0 adds)) s;
     if numLeaves s = 1 then first_root s
     else do {
       s \<leftarrow> (if length adds > 0 \<and> length adds mod 2 \<noteq> 0
            then rolling_add L (if witness then WitnessHash L (last adds) else TxHash L (last adds)) s
            else Some s);
       s \<leftarrow> finish_rows L s;
       first_root s } }"

definition CalcMerkleRoot :: "wire_lib \<Rightarrow> MsgTx list \<Rightarrow> bool \<Rightarrow> hash option" where
  "CalcMerkleRoot L transactions witness = calcMerkleRoot L transactions witness newRollingMerkleTreeStore"

definition CoinbaseWitnessDataLen :: nat where "CoinbaseWitnessDataLen = 32"
definition CoinbaseWitnessPkScriptLength :: nat where "CoinbaseWitnessPkScriptLength = 38"

definition WitnessMagicBytes :: "byte list" where
  "WitnessMagicBytes = [0x6a, 0x24, 0xaa, 0x21, 0xa9, 0xed]"

fun find_commitment :: "TxOut list \<Rightarrow> byte list option" where
  "find_commitment [] = None"
| "find_commitment (o' # os) =
    (let pkScript = PkScript o'
     in if CoinbaseWitnessPkScriptLength \<le> length pkScript \<and> take (length WitnessMagicBytes) pkScript = WitnessMagicBytes
        then Some (take (CoinbaseWitnessPkScriptLength - length WitnessMagicBytes) (drop (length WitnessMagicBytes) pkScript))
        else find_commitment os)"

definition ExtractWitnessCommitment :: "MsgTx \<Rightarrow> byte list option" where
  "ExtractWitnessCommitment tx = (if \<not> IsCoinBase tx then None else find_commitment (rev (tx_TxOut tx)))"

definition ValidateWitnessCommitment :: "wire_lib \<Rightarrow> Block \<Rightarrow> error + unit" where
  "ValidateWitnessCommitment L blk =
    (if length (Transactions blk) = 0 then Inl (ruleError ErrNoTransactions)
     else let coinbaseTx = Transactions blk ! 0
     in if length (tx_TxIn coinbaseTx) = 0 then Inl (ruleError ErrNoTxInputs)
        else case ExtractWitnessCommitment coinbaseTx of
          None \<Rightarrow>
            if \<exists>tx \<in> set (Transactions blk). HasWitness L tx then Inl (ruleError ErrUnexpectedWitness) else Inr ()
        | Some witnessCommitment \<Rightarrow>
            let coinbaseWitness = Witness (tx_TxIn coinbaseTx ! 0)
            in if length coinbaseWitness \<noteq> 1 then Inl (ruleError ErrInvalidWitnessCommitment)
               else let witnessNonce = coinbaseWitness ! 0
               in if length witnessNonce \<noteq> CoinbaseWitnessDataLen then Inl (ruleError ErrInvalidWitnessCommitment)
                  else case CalcMerkleRoot L (Transactions blk) True of
                    None \<Rightarrow> Inl Panic
                  | Some witnessMerkleRoot \<Rightarrow>
                      if DoubleHash L (witnessMerkleRoot @ witnessNonce) \<noteq> witnessCommitment
                      then Inl (ruleError ErrWitnessCommitmentMismatch) else Inr ())"

section \<open>The specification\<close>

fun level_up :: "wire_lib \<Rightarrow> hash list \<Rightarrow> hash list" where
  "level_up L [] = []"
| "level_up L [x] = [HashMerkleBranches L x x]"
| "level_up L (x # y # xs) = HashMerkleBranches L x y # level_up L xs"

lemma length_level_up: "length (level_up L xs) = (length xs + 1) div 2"
  by (induction L xs rule: level_up.induct) simp_all

function merkle_root :: "wire_lib \<Rightarrow> hash list \<Rightarrow> hash" where
  "merkle_root L [] = zeroHash"
| "merkle_root L [x] = x"
| "merkle_root L (x # y # xs) = merkle_root L (level_up L (x # y # xs))"
  by pat_completeness auto
termination by (relation "measure (\<lambda>(_, xs). length xs)") (auto simp: length_level_up)

lemma level_up_append: "even (length xs) \<Longrightarrow> level_up L (xs @ ys) = level_up L xs @ level_up L ys"
  by (induction L xs rule: level_up.induct) simp_all

lemma level_up_dup: "odd (length xs) \<Longrightarrow> level_up L (xs @ [last xs]) = level_up L xs"
  by (induction L xs rule: level_up.induct) auto

lemma merkle_root_level: "1 < length xs \<Longrightarrow> merkle_root L xs = merkle_root L (level_up L xs)"
  by (cases xs; cases "tl xs") auto

lemma merkle_root_dup: "odd (length xs) \<Longrightarrow> 1 < length xs \<Longrightarrow> merkle_root L (xs @ [last xs]) = merkle_root L xs"
proof -
  assume xs: "odd (length xs)" "1 < length xs"
  then have "1 < length (xs @ [last xs])" by (cases xs) simp_all
  from merkle_root_level[OF this] show ?thesis
    by (simp only: level_up_dup[OF xs(1)] merkle_root_level[OF xs(2), symmetric])
qed

section \<open>The rolling store\<close>

text \<open>The roots of the complete subtrees over a row of hashes.\<close>

function roots_of :: "wire_lib \<Rightarrow> hash list \<Rightarrow> hash list" where
  "roots_of L xs =
    (if xs = [] then []
     else if even (length xs) then roots_of L (level_up L xs)
     else roots_of L (level_up L (butlast xs)) @ [last xs])"
  by pat_completeness auto
termination
proof (relation "measure (\<lambda>(_, xs). length xs)")
  show "\<And>L xs. xs \<noteq> [] \<Longrightarrow> even (length xs) \<Longrightarrow> ((L, level_up L xs), L, xs) \<in> measure (\<lambda>(_, xs). length xs)"
    by (auto simp: length_level_up Suc_le_eq elim!: evenE)
qed (auto simp: length_level_up neq_Nil_conv)

declare roots_of.simps [simp del]

lemma roots_of_even: "even (length xs) \<Longrightarrow> roots_of L (level_up L xs) = roots_of L xs"
  by (cases "xs = []") (simp_all add: roots_of.simps[of L xs] roots_of.simps[of L "[]"])

lemma roots_of_odd: "odd (length xs) \<Longrightarrow> roots_of L xs = roots_of L (level_up L (butlast xs)) @ [last xs]"
  by (subst roots_of.simps) auto

lemma add_loop_roots: "add_loop L (length xs) (roots_of L xs) x = Some (roots_of L (xs @ [x]))"
proof (induction xs arbitrary: x rule: length_induct)
  case (1 xs)
  show ?case
  proof (cases "even (length xs)")
    case True
    then show ?thesis by (subst add_loop.simps) (simp add: roots_of_odd[of "xs @ [x]"] roots_of_even)
  next
    case False
    then have xs: "xs = butlast xs @ [last xs]" "even (length (butlast xs))" by (cases xs rule: rev_cases; simp)+
    define ys where "ys = level_up L (butlast xs)"
    have len: "length ys = length xs div 2" "length ys < length xs"
      using False xs(2) by (auto simp: ys_def length_level_up elim!: oddE)
    let ?h = "HashMerkleBranches L (last xs) x"
    have "level_up L (xs @ [x]) = level_up L (butlast xs @ [last xs, x])" using xs(1) by (metis append.assoc append_Cons append_Nil)
    also have "\<dots> = ys @ [?h]" using level_up_append[OF xs(2), of L "[last xs, x]"] by (simp add: ys_def)
    finally have "roots_of L (xs @ [x]) = roots_of L (ys @ [?h])"
      using roots_of_even[of "xs @ [x]" L] False by simp
    moreover have "add_loop L (length xs) (roots_of L xs) x = add_loop L (length ys) (roots_of L ys) ?h"
      using False by (subst add_loop.simps) (simp add: roots_of_odd[OF False] ys_def [symmetric] len odd_iff_mod_2_eq_one)
    ultimately show ?thesis using "1.IH" len(2) by simp
  qed
qed

text \<open>A store that represents a row of hashes.\<close>

definition represents :: "wire_lib \<Rightarrow> hash list \<Rightarrow> rollingMerkleTreeStore \<Rightarrow> bool" where
  "represents L xs s \<longleftrightarrow> roots s = roots_of L xs \<and> numLeaves s = length xs"

lemma rolling_add_represents:
  "represents L xs s \<Longrightarrow> \<exists>s'. rolling_add L x s = Some s' \<and> represents L (xs @ [x]) s'"
  by (simp add: represents_def rolling_add_def add_loop_roots)

lemma rolling_add_all_represents:
  "represents L xs s \<Longrightarrow> \<exists>s'. rolling_add_all L ys s = Some s' \<and> represents L (xs @ ys) s'"
proof (induction ys arbitrary: xs s)
  case (Cons y ys)
  obtain s' where s': "rolling_add L y s = Some s'" "represents L (xs @ [y]) s'"
    using rolling_add_represents[OF Cons.prems] by blast
  show ?case using Cons.IH[OF s'(2)] s'(1) by simp
qed simp

text \<open>Moving up to the row with an odd number of hashes changes neither the roots nor the root.\<close>

lemma shift_to_odd:
  "xs \<noteq> [] \<Longrightarrow> \<exists>ys. odd (length ys) \<and> length ys = shift_odd (length xs) \<and> length ys \<le> length xs
    \<and> roots_of L ys = roots_of L xs \<and> merkle_root L ys = merkle_root L xs"
proof (induction xs rule: length_induct)
  case (1 xs)
  show ?case
  proof (cases "odd (length xs)")
    case True
    then show ?thesis by (intro exI[of _ xs]) (subst shift_odd.simps, simp add: odd_iff_mod_2_eq_one)
  next
    case False
    then have len: "1 < length xs" "length (level_up L xs) = length xs div 2" "length (level_up L xs) < length xs"
      using 1(2) by (cases xs; cases "tl xs"; auto simp: length_level_up)+
    then have "level_up L xs \<noteq> []" by auto
    then obtain ys where ys: "odd (length ys)" "length ys = shift_odd (length (level_up L xs))"
        "length ys \<le> length (level_up L xs)" "roots_of L ys = roots_of L (level_up L xs)"
        "merkle_root L ys = merkle_root L (level_up L xs)"
      using 1(1) len(3) by blast
    moreover have "shift_odd (length xs) = shift_odd (length (level_up L xs))"
      using False len 1(2) by (subst shift_odd.simps) simp
    ultimately show ?thesis using roots_of_even[of xs L] merkle_root_level[OF len(1), of L] False len(3)
      by (intro exI[of _ ys]) simp
  qed
qed

lemma length_roots_of_pos: "xs \<noteq> [] \<Longrightarrow> roots_of L xs \<noteq> []"
proof (induction xs rule: length_induct)
  case (1 xs)
  show ?case
  proof (cases "even (length xs)")
    case True
    then have "level_up L xs \<noteq> []" "length (level_up L xs) < length xs"
      using 1(2) by (auto simp: length_level_up elim!: evenE simp flip: length_greater_0_conv)
    then show ?thesis using 1(1) roots_of_even[OF True, of L] by metis
  next
    case False
    then show ?thesis by (simp add: roots_of_odd)
  qed
qed

lemma single_root: "roots_of L xs = [r] \<Longrightarrow> merkle_root L xs = r"
proof (induction xs rule: length_induct)
  case (1 xs)
  then have "xs \<noteq> []" by (auto simp: roots_of.simps)
  show ?case
  proof (cases "even (length xs)")
    case True
    then have "1 < length xs" "length (level_up L xs) < length xs"
      using \<open>xs \<noteq> []\<close> by (auto simp: length_level_up elim!: evenE simp flip: length_greater_0_conv)
    then show ?thesis using 1 roots_of_even[OF True, of L] merkle_root_level[of xs L] by simp
  next
    case False
    then have "roots_of L (level_up L (butlast xs)) = []" "last xs = r" using 1(2) by (simp_all add: roots_of_odd)
    then have "level_up L (butlast xs) = []" using length_roots_of_pos by blast
    then have "butlast xs = []" using length_level_up[of L "butlast xs"] by (cases "butlast xs") simp_all
    then have "xs = [r]" using \<open>last xs = r\<close> \<open>xs \<noteq> []\<close> by (metis append_Nil append_butlast_last_id)
    then show ?thesis by simp
  qed
qed

lemma shift_odd_le: "shift_odd n \<le> n"
proof (induction n rule: shift_odd.induct)
  case (1 n)
  then show ?case by (subst shift_odd.simps) (auto intro: order.trans)
qed

lemma finish_rows_root:
  "represents L xs s \<Longrightarrow> xs \<noteq> [] \<Longrightarrow> \<exists>s'. finish_rows L s = Some s' \<and> roots s' = [merkle_root L xs]"
proof (induction "shift_odd (length xs)" arbitrary: xs s rule: less_induct)
  case less
  show ?case
  proof (cases "length (roots s) > 1")
    case False
    then obtain r where "roots_of L xs = [r]"
      using length_roots_of_pos[OF less.prems(2), of L] less.prems(1) by (cases "roots_of L xs") (auto simp: represents_def)
    then show ?thesis using False less.prems(1) single_root[of L xs r]
      by (subst finish_rows.simps) (auto simp: represents_def)
  next
    case True
    obtain ys where ys: "odd (length ys)" "length ys = shift_odd (length xs)" "length ys \<le> length xs"
        "roots_of L ys = roots_of L xs" "merkle_root L ys = merkle_root L xs"
      using shift_to_odd[OF less.prems(2)] by blast
    have rep: "represents L ys (s\<lparr>numLeaves := shift_odd (numLeaves s)\<rparr>)"
      using less.prems(1) ys by (simp add: represents_def)
    have last: "last (roots s) = last ys" using less.prems(1) roots_of_odd[OF ys(1), of L] ys(4) by (simp add: represents_def)
    have gt: "1 < length ys"
    proof (rule ccontr)
      assume "\<not> 1 < length ys"
      then obtain y where "ys = [y]" using ys(1) by (cases ys; cases "tl ys") auto
      then have "roots_of L ys = [y]" by (simp add: roots_of.simps)
      then show False using True less.prems(1) ys(4) by (simp add: represents_def)
    qed
    obtain s' where s': "rolling_add L (last (roots s)) (s\<lparr>numLeaves := shift_odd (numLeaves s)\<rparr>) = Some s'"
        "represents L (ys @ [last ys]) s'"
      using rolling_add_represents[OF rep] last by metis
    have "shift_odd (length (ys @ [last ys])) = shift_odd ((length ys + 1) div 2)"
      using ys(1) by (subst shift_odd.simps) simp
    also have "\<dots> \<le> (length ys + 1) div 2" by (rule shift_odd_le)
    also have "\<dots> < length ys" using gt by simp
    finally have "shift_odd (length (ys @ [last ys])) < shift_odd (length xs)" using ys(2) by simp
    from less.hyps[OF this s'(2)] show ?thesis
      using s'(1) True less.prems merkle_root_dup[OF ys(1) gt, of L] ys(5)
      by (subst finish_rows.simps) (simp add: represents_def)
  qed
qed

section \<open>Properties\<close>

definition leaves :: "wire_lib \<Rightarrow> MsgTx list \<Rightarrow> bool \<Rightarrow> hash list" where
  "leaves L txs witness = map (\<lambda>(i, tx). leaf L witness i tx) (enumerate 0 txs)"

lemma length_leaves [simp]: "length (leaves L txs witness) = length txs"
  by (simp add: leaves_def)

lemma nth_leaves: "i < length txs \<Longrightarrow> leaves L txs witness ! i = leaf L witness i (txs ! i)"
  by (simp add: leaves_def nth_enumerate_eq)

lemma leaves_snoc: "leaves L (txs @ [tx]) witness = leaves L txs witness @ [leaf L witness (length txs) tx]"
  by (simp add: leaves_def enumerate_append_eq)

lemma last_leaf:
  assumes "1 < length txs"
  shows "last (leaves L txs witness) = (if witness then WitnessHash L (last txs) else TxHash L (last txs))"
proof -
  have "txs \<noteq> []" using assms by auto
  then have "leaves L txs witness \<noteq> []" by (metis length_leaves length_0_conv)
  then have "last (leaves L txs witness) = leaf L witness (length txs - 1) (txs ! (length txs - 1))"
    using assms by (simp add: last_conv_nth nth_leaves)
  then show ?thesis using assms \<open>txs \<noteq> []\<close> by (simp add: leaf_def last_conv_nth)
qed

lemma CalcMerkleRoot_eq:
  assumes "txs \<noteq> []"
  shows "CalcMerkleRoot L txs witness = Some (merkle_root L (leaves L txs witness))"
proof -
  let ?xs = "leaves L txs witness"
  have rep0: "represents L [] newRollingMerkleTreeStore"
    by (simp add: represents_def newRollingMerkleTreeStore_def roots_of.simps)
  obtain s where s: "rolling_add_all L ?xs newRollingMerkleTreeStore = Some s" "represents L ?xs s"
    using rolling_add_all_represents[OF rep0, of ?xs] by auto
  have xs: "?xs \<noteq> []" using assms length_leaves[of L txs witness] by (metis length_0_conv)
  show ?thesis
  proof (cases "length txs = 1")
    case True
    then obtain x where x: "?xs = [x]" using length_leaves[of L txs witness] by (metis length_Suc_conv length_0_conv One_nat_def)
    then have "roots s = [x]" using s(2) by (simp add: represents_def roots_of.simps)
    then show ?thesis using s True x
      by (simp add: CalcMerkleRoot_def calcMerkleRoot_def leaves_def [symmetric] represents_def first_root_def)
  next
    case False
    then have gt: "1 < length txs" using assms by (cases txs) (simp_all add: neq_Nil_conv)
    obtain zs s' where s': "(if length txs > 0 \<and> length txs mod 2 \<noteq> 0
          then rolling_add L (if witness then WitnessHash L (last txs) else TxHash L (last txs)) s else Some s) = Some s'"
        "represents L zs s'" "zs \<noteq> []" "merkle_root L zs = merkle_root L ?xs"
    proof (cases "odd (length txs)")
      case True
      then obtain s' where "rolling_add L (last ?xs) s = Some s'" "represents L (?xs @ [last ?xs]) s'"
        using rolling_add_represents[OF s(2)] by blast
      then show thesis using True gt assms merkle_root_dup[of ?xs L]
        by (intro that[of s' "?xs @ [last ?xs]"]) (simp_all add: last_leaf[OF gt] odd_iff_mod_2_eq_one)
    next
      case False
      then show thesis using that[of s ?xs] s(2) xs by (simp add: even_iff_mod_2_eq_zero)
    qed
    obtain s'' where "finish_rows L s' = Some s''" "roots s'' = [merkle_root L zs]"
      using finish_rows_root[OF s'(2,3)] by blast
    then show ?thesis using s False s'(1,4)
      by (simp add: CalcMerkleRoot_def calcMerkleRoot_def leaves_def [symmetric] represents_def first_root_def)
  qed
qed

text \<open>
  C27: for every block with at least one transaction the rolling store returns, without ever popping an
  empty slice, the root that the level-by-level definition gives, for transaction and witness hashes
  alike; without transactions the code indexes an empty slice.
\<close>

theorem CalcMerkleRoot_correct:
  "CalcMerkleRoot L txs witness = (if txs = [] then None else Some (merkle_root L (leaves L txs witness)))"
proof (cases "txs = []")
  case True
  then show ?thesis
    by (simp add: CalcMerkleRoot_def calcMerkleRoot_def newRollingMerkleTreeStore_def finish_rows.simps first_root_def)
next
  case False
  then show ?thesis using CalcMerkleRoot_eq by simp
qed

text \<open>
  A row of an odd number of hashes and the same row with its last hash repeated have the same root.
  Distinct transactions in a block are therefore checked separately (\<open>ErrDuplicateTx\<close>).
\<close>

lemma merkle_root_malleable:
  assumes "odd (length txs)" "1 < length txs"
  shows "CalcMerkleRoot L (txs @ [last txs]) False = CalcMerkleRoot L txs False"
proof -
  have "leaves L (txs @ [last txs]) False = leaves L txs False @ [last (leaves L txs False)]"
    using assms(2) by (simp add: leaves_snoc last_leaf leaf_def)
  moreover have "txs \<noteq> []" using assms(2) by auto
  ultimately show ?thesis using merkle_root_dup[of "leaves L txs False" L] assms by (simp add: CalcMerkleRoot_eq)
qed

text \<open>A library in which a hash is its preimage cut to 32 bytes, for the witnesses.\<close>

definition sample_wire_lib :: wire_lib where
  "sample_wire_lib = \<lparr>BlockHash = (\<lambda>h. hMerkleRoot h), TxHash = (\<lambda>tx. [ucast (LockTime tx)]),
    WitnessHash = (\<lambda>tx. [ucast (LockTime tx)]), HasWitness = (\<lambda>tx. False), DoubleHash = take 32,
    txSizeStripped = (\<lambda>tx. 100), txSize = (\<lambda>tx. 100), blockSizeStripped = (\<lambda>b. 1000), blockSize = (\<lambda>b. 1000), MinTxOutPayload = 9,
    MaxSatoshi = 2100000000000000, SequenceLockTimeDisabled = 0x80000000, SequenceLockTimeIsSeconds = 0x400000,
    SequenceLockTimeMask = 0xffff, SequenceLockTimeGranularity = 9\<rparr>"

definition sample_tx :: "uint32 \<Rightarrow> MsgTx" where
  "sample_tx n = \<lparr>tx_Version = 1, tx_TxIn = [], tx_TxOut = [], LockTime = n\<rparr>"

theorem merkle_root_malleable_witness:
  "CalcMerkleRoot sample_wire_lib ([sample_tx 1, sample_tx 2, sample_tx 3] @ [sample_tx 3]) False
    = CalcMerkleRoot sample_wire_lib [sample_tx 1, sample_tx 2, sample_tx 3] False"
  using merkle_root_malleable[of "[sample_tx 1, sample_tx 2, sample_tx 3]" sample_wire_lib] by simp

end
