(* ===== verification/Utxo_Entry.thy ===== *)
theory Utxo_Entry
  imports Wire
begin

text \<open>
  Unspent outputs (utxoviewpoint.go, \<open>UtxoEntry\<close>) and the record of a spent one (chainio.go,
  \<open>SpentTxOut\<close>).  The flags of an entry are a byte.  A \<open>coin\<close> is what an entry says about the chain, its
  bookkeeping flags left out: amount, script, height and whether a coinbase created it.
\<close>

section \<open>The code\<close>

definition tfCoinBase :: byte where "tfCoinBase = 1"
definition tfSpent :: byte where "tfSpent = 2"
definition tfModified :: byte where "tfModified = 4"
definition tfFresh :: byte where "tfFresh = 8"

record UtxoEntry =
  amount :: int
  pkScript :: "byte list"
  blockHeight :: int
  packedFlags :: byte

definition isModified :: "UtxoEntry \<Rightarrow> bool" where
  "isModified entry \<longleftrightarrow> packedFlags entry AND tfModified = tfModified"

definition isFresh :: "UtxoEntry \<Rightarrow> bool" where
  "isFresh entry \<longleftrightarrow> packedFlags entry AND tfFresh = tfFresh"

definition entry_IsCoinBase :: "UtxoEntry \<Rightarrow> bool" where
  "entry_IsCoinBase entry \<longleftrightarrow> packedFlags entry AND tfCoinBase = tfCoinBase"

definition IsSpent :: "UtxoEntry \<Rightarrow> bool" where
  "IsSpent entry \<longleftrightarrow> packedFlags entry AND tfSpent = tfSpent"

definition Spend :: "UtxoEntry \<Rightarrow> UtxoEntry" where
  "Spend entry =
    (if IsSpent entry then entry
     else entry\<lparr>packedFlags := packedFlags entry OR (tfSpent OR tfModified)\<rparr>)"

text \<open>A \<open>nil\<close> entry is \<open>None\<close>; a clone shares nothing that is written to.\<close>

definition Clone :: "UtxoEntry option \<Rightarrow> UtxoEntry option" where
  "Clone entry = (case entry of None \<Rightarrow> None
     | Some e \<Rightarrow> Some \<lparr>amount = amount e, pkScript = pkScript e, blockHeight = blockHeight e, packedFlags = packedFlags e\<rparr>)"

definition NewUtxoEntry :: "TxOut \<Rightarrow> int \<Rightarrow> bool \<Rightarrow> UtxoEntry" where
  "NewUtxoEntry txOut height isCoinbase =
    \<lparr>amount = Value txOut, pkScript = PkScript txOut, blockHeight = height,
     packedFlags = (if isCoinbase then tfCoinBase else 0)\<rparr>"

text \<open>The entry that \<open>addTxOut\<close> of views and caches stores for a new output.\<close>

definition new_output :: "TxOut \<Rightarrow> bool \<Rightarrow> int \<Rightarrow> UtxoEntry" where
  "new_output txOut isCoinBase height =
    \<lparr>amount = Value txOut, pkScript = PkScript txOut, blockHeight = height,
     packedFlags = (tfFresh OR tfModified) OR (if isCoinBase then tfCoinBase else 0)\<rparr>"

definition isUnspendable :: "byte list \<Rightarrow> bool" where
  "isUnspendable script \<longleftrightarrow> length script = 0"

record SpentTxOut =
  so_Amount :: int
  so_PkScript :: "byte list"
  so_Height :: int
  so_IsCoinBase :: bool

definition spent_details :: "UtxoEntry \<Rightarrow> SpentTxOut" where
  "spent_details entry =
    \<lparr>so_Amount = amount entry, so_PkScript = pkScript entry, so_Height = blockHeight entry,
     so_IsCoinBase = entry_IsCoinBase entry\<rparr>"

section \<open>Coins\<close>

record coin =
  c_amount :: int
  c_script :: "byte list"
  c_height :: int
  c_coinbase :: bool

definition coin_of :: "UtxoEntry \<Rightarrow> coin" where
  "coin_of entry = \<lparr>c_amount = amount entry, c_script = pkScript entry, c_height = blockHeight entry,
    c_coinbase = entry_IsCoinBase entry\<rparr>"

text \<open>The coin an optional entry stands for: none when it is missing or spent.\<close>

definition live :: "UtxoEntry option \<Rightarrow> coin option" where
  "live e = (case e of None \<Rightarrow> None | Some e \<Rightarrow> if IsSpent e then None else Some (coin_of e))"

lemma live_simps [simp]:
  "live None = None" "IsSpent e \<Longrightarrow> live (Some e) = None" "\<not> IsSpent e \<Longrightarrow> live (Some e) = Some (coin_of e)"
  by (simp_all add: live_def)

lemma live_Some_iff: "live x = Some c \<longleftrightarrow> (\<exists>e. x = Some e \<and> \<not> IsSpent e \<and> coin_of e = c)"
  by (auto simp: live_def split: option.splits)

text \<open>Flags as bits, so that the tests below are decided by simplification.\<close>

lemma and_exp_eq_exp_iff: "w AND 2 ^ n = 2 ^ n \<longleftrightarrow> bit w n" if "n < LENGTH('a)" for w :: "'a::len word"
proof
  assume "w AND 2 ^ n = 2 ^ n"
  then have "bit (w AND 2 ^ n) n" using that by (simp add: bit_simps)
  then show "bit w n" by (simp add: bit_simps)
next
  assume "bit w n"
  then show "w AND 2 ^ n = 2 ^ n" by (intro bit_word_eqI) (auto simp: bit_simps)
qed

lemma flag_bits:
  "entry_IsCoinBase e \<longleftrightarrow> bit (packedFlags e) 0" "IsSpent e \<longleftrightarrow> bit (packedFlags e) 1"
  "isModified e \<longleftrightarrow> bit (packedFlags e) 2" "isFresh e \<longleftrightarrow> bit (packedFlags e) 3"
  using and_exp_eq_exp_iff[of 0 "packedFlags e"] and_exp_eq_exp_iff[of 1 "packedFlags e"]
    and_exp_eq_exp_iff[of 2 "packedFlags e"] and_exp_eq_exp_iff[of 3 "packedFlags e"]
  by (simp_all add: entry_IsCoinBase_def IsSpent_def isModified_def isFresh_def tfCoinBase_def tfSpent_def
      tfModified_def tfFresh_def)

lemma bit_flag_consts:
  "bit tfCoinBase n \<longleftrightarrow> n = 0" "bit tfSpent n \<longleftrightarrow> n = 1" "bit tfModified n \<longleftrightarrow> n = 2" "bit tfFresh n \<longleftrightarrow> n = 3"
proof -
  have "bit (2 ^ k :: byte) n \<longleftrightarrow> k < 8 \<and> n = k" for k by (auto simp: bit_simps)
  from this[of 0] this[of 1] this[of 2] this[of 3]
  show "bit tfCoinBase n \<longleftrightarrow> n = 0" "bit tfSpent n \<longleftrightarrow> n = 1" "bit tfModified n \<longleftrightarrow> n = 2" "bit tfFresh n \<longleftrightarrow> n = 3"
    by (simp_all add: tfCoinBase_def tfSpent_def tfModified_def tfFresh_def)
qed

lemmas flag_simps = flag_bits bit_flag_consts bit_or_iff

lemma Spend_props [simp]:
  "IsSpent (Spend e)" "isFresh (Spend e) = isFresh e" "amount (Spend e) = amount e" "pkScript (Spend e) = pkScript e"
  by (auto simp: Spend_def flag_simps)

lemma Spend_modified: "\<not> IsSpent e \<Longrightarrow> isModified (Spend e)"
  by (simp add: Spend_def flag_simps)

lemma new_output_props [simp]:
  "\<not> IsSpent (new_output txOut cb h)" "isFresh (new_output txOut cb h)" "isModified (new_output txOut cb h)"
  by (simp_all add: new_output_def flag_simps)

lemma coin_of_new_output [simp]:
  "coin_of (new_output txOut cb h) = \<lparr>c_amount = Value txOut, c_script = PkScript txOut, c_height = h, c_coinbase = cb\<rparr>"
  by (simp add: coin_of_def new_output_def flag_simps)

lemma Clone_id [simp]: "Clone e = e"
  by (auto simp: Clone_def split: option.splits)

end
