(* ===== verification/Chain_Io.thy ===== *)
theory Chain_Io
  imports Utxo_Entry Compress Workmath "HOL-Library.Monad_Syntax"
begin

text \<open>
  The database formats of chainio.go: spent outputs and the spend journal of a block, entries of the utxo
  set and their keys, the block index of the main chain, the best chain state.  A database bucket belongs to
  \<open>nogocommons\<close>; its operations are a record \<open>bucket_ops\<close> the definitions take as an argument, and
  \<open>bucket_ok\<close> is its documented contract: a put with a key is read back, a delete removes the key, other keys
  are untouched.  The locale \<open>stream_codec\<close> carries the formats; the locale \<open>coin_store\<close> is what the utxo
  cache relies on in the bucket of unspent outputs.
\<close>

section \<open>Libraries\<close>

record 'pk key_lib =
  ParsePubKey :: "byte list \<Rightarrow> 'pk option"
  SerializeUncompressed :: "'pk \<Rightarrow> byte list"

definition key_lib_ok :: "'pk key_lib \<Rightarrow> bool" where
  "key_lib_ok K \<longleftrightarrow> pubkey_lib (ParsePubKey K) (SerializeUncompressed K)"

text \<open>\<open>Get\<close> returns \<open>nil\<close> for a missing key; \<open>Seek\<close> returns the first pair whose key is not below the given one.\<close>

record 'db bucket_ops =
  Get :: "'db \<Rightarrow> byte list \<Rightarrow> byte list option"
  Put :: "'db \<Rightarrow> byte list \<Rightarrow> byte list \<Rightarrow> error + 'db"
  Delete :: "'db \<Rightarrow> byte list \<Rightarrow> error + 'db"
  Seek :: "'db \<Rightarrow> byte list \<Rightarrow> (byte list \<times> byte list) option"

definition bucket_ok :: "'db bucket_ops \<Rightarrow> bool" where
  "bucket_ok B \<longleftrightarrow>
    (\<forall>db k v. k \<noteq> [] \<longrightarrow> (\<exists>db'. Put B db k v = Inr db' \<and> Get B db' = (Get B db)(k := Some v)))
    \<and> (\<forall>db k. k \<noteq> [] \<longrightarrow> (\<exists>db'. Delete B db k = Inr db' \<and> Get B db' = (Get B db)(k := None)))"

section \<open>Spent outputs\<close>

definition spentTxOutHeaderCode :: "SpentTxOut \<Rightarrow> uint64" where
  "spentTxOutHeaderCode stxo =
    (let headerCode = push_bit 1 (word_of_int (so_Height stxo))
     in if so_IsCoinBase stxo then headerCode OR 0x01 else headerCode)"

definition spentTxOutSerializeSize :: "'pk key_lib \<Rightarrow> SpentTxOut \<Rightarrow> nat" where
  "spentTxOutSerializeSize K stxo =
    serializeSizeVLQ (spentTxOutHeaderCode stxo)
    + (if so_Height stxo > 0 then serializeSizeVLQ 0 else 0)
    + compressedTxOutSize (ParsePubKey K) (u64 (so_Amount stxo)) (so_PkScript stxo)"

text \<open>\<open>None\<close> is the panic of a slice that is too short.\<close>

definition putSpentTxOut :: "'pk key_lib \<Rightarrow> byte list \<Rightarrow> SpentTxOut \<Rightarrow> (byte list \<times> nat) option" where
  "putSpentTxOut K target stxo = do {
     (target, offset) \<leftarrow> putVLQ target (spentTxOutHeaderCode stxo);
     (target, offset) \<leftarrow>
       (if so_Height stxo > 0
        then do { (rest, n) \<leftarrow> putVLQ (drop offset target) 0; Some (take offset target @ rest, offset + n) }
        else Some (target, offset));
     (rest, n) \<leftarrow> putCompressedTxOut (ParsePubKey K) (drop offset target) (u64 (so_Amount stxo)) (so_PkScript stxo);
     Some (take offset target @ rest, offset + n) }"

text \<open>Deserialization errors keep the number of bytes read; a panic of the output decoder is not caught.\<close>

definition wrap_txout_error :: "string \<Rightarrow> nat \<Rightarrow> nat \<times> error \<Rightarrow> nat \<times> error" where
  "wrap_txout_error msg offset e = (offset + fst e, if snd e = Panic then Panic else DeserializeError msg)"

definition decodeSpentTxOut :: "'pk key_lib \<Rightarrow> byte list \<Rightarrow> (nat \<times> error) + SpentTxOut \<times> nat" where
  "decodeSpentTxOut K serialized =
    (if length serialized = 0 then Inl (0, DeserializeError ''no serialized bytes'')
     else let (code, offset) = deserializeVLQ serialized
     in if length serialized \<le> offset
        then Inl (offset, DeserializeError ''unexpected end of data after header code'')
        else let isCoinBase = (code AND 0x01 \<noteq> 0);
                 height = i32 (uint (drop_bit 1 code));
                 offset = (if height > 0 then offset + snd (deserializeVLQ (drop offset serialized)) else offset)
        in if height > 0 \<and> length serialized \<le> offset
           then Inl (offset, DeserializeError ''unexpected end of data after reserved'')
           else case decodeCompressedTxOut (ParsePubKey K) (SerializeUncompressed K) (drop offset serialized) of
                  Inl e \<Rightarrow> Inl (wrap_txout_error ''unable to decode txout'' offset e)
                | Inr ((amt, script), bytesRead) \<Rightarrow>
                    Inr (\<lparr>so_Amount = i64 amt, so_PkScript = script, so_Height = height, so_IsCoinBase = isCoinBase\<rparr>,
                         offset + bytesRead))"

section \<open>The spend journal\<close>

text \<open>The inner loop over the inputs of one transaction: read one output per input, filling the slice downwards.\<close>

fun read_stxos ::
  "'pk key_lib \<Rightarrow> byte list \<Rightarrow> TxIn list \<Rightarrow> SpentTxOut list \<times> int \<times> nat \<Rightarrow> error + SpentTxOut list \<times> int \<times> nat" where
  "read_stxos K serialized [] st = Inr st"
| "read_stxos K serialized (txIn # txIns) (stxos, stxoIdx, offset) =
    (if stxoIdx < 0 \<or> int (length stxos) \<le> stxoIdx \<or> length serialized < offset then Inl Panic
     else case decodeSpentTxOut K (drop offset serialized) of
            Inl (n, e) \<Rightarrow> Inl (if e = Panic then Panic else DeserializeError ''unable to decode stxo'')
          | Inr (stxo, n) \<Rightarrow> read_stxos K serialized txIns (stxos[nat stxoIdx := stxo], stxoIdx - 1, offset + n))"

fun read_journal ::
  "'pk key_lib \<Rightarrow> byte list \<Rightarrow> MsgTx list \<Rightarrow> SpentTxOut list \<times> int \<times> nat \<Rightarrow> error + SpentTxOut list \<times> int \<times> nat" where
  "read_journal K serialized [] st = Inr st"
| "read_journal K serialized (tx # txns) st =
    bindE (read_stxos K serialized (rev (tx_TxIn tx)) st) (read_journal K serialized txns)"

definition empty_stxo :: SpentTxOut where
  "empty_stxo = \<lparr>so_Amount = 0, so_PkScript = [], so_Height = 0, so_IsCoinBase = False\<rparr>"

definition deserializeSpendJournalEntry :: "'pk key_lib \<Rightarrow> byte list \<Rightarrow> MsgTx list \<Rightarrow> error + SpentTxOut list" where
  "deserializeSpendJournalEntry K serialized txns =
    (let numStxos = sum_list (map (\<lambda>tx. length (tx_TxIn tx)) txns)
     in if length serialized = 0
        then if numStxos \<noteq> 0 then Inl (AssertError ''mismatched spend journal serialization'') else Inr []
        else bindE (read_journal K serialized (rev txns) (replicate numStxos empty_stxo, int numStxos - 1, 0))
               (\<lambda>(stxos, _, _). Inr stxos))"

fun put_stxos :: "'pk key_lib \<Rightarrow> SpentTxOut list \<Rightarrow> byte list \<times> nat \<Rightarrow> (byte list \<times> nat) option" where
  "put_stxos K [] st = Some st"
| "put_stxos K (stxo # stxos) (serialized, offset) = do {
     (rest, n) \<leftarrow> putSpentTxOut K (drop offset serialized) stxo;
     put_stxos K stxos (take offset serialized @ rest, offset + n) }"

definition serializeSpendJournalEntry :: "'pk key_lib \<Rightarrow> SpentTxOut list \<Rightarrow> byte list option" where
  "serializeSpendJournalEntry K stxos =
    (if length stxos = 0 then Some []
     else let sz = sum_list (map (spentTxOutSerializeSize K) stxos)
          in map_option fst (put_stxos K (rev stxos) (replicate sz 0, 0)))"

definition corruption :: "error \<Rightarrow> error" where
  "corruption e = (case e of DeserializeError msg \<Rightarrow> CalleeError | _ \<Rightarrow> e)"

definition dbFetchSpendJournalEntry ::
  "'pk key_lib \<Rightarrow> wire_lib \<Rightarrow> 'db bucket_ops \<Rightarrow> 'db \<Rightarrow> Block \<Rightarrow> error + SpentTxOut list" where
  "dbFetchSpendJournalEntry K L B db block =
    (let serialized = (case Get B db (BlockHash L (Header block)) of None \<Rightarrow> [] | Some v \<Rightarrow> v)
     in if Transactions block = [] then Inl Panic
        else case deserializeSpendJournalEntry K serialized (tl (Transactions block)) of
               Inl e \<Rightarrow> Inl (corruption e)
             | Inr stxos \<Rightarrow> Inr stxos)"

definition dbPutSpendJournalEntry ::
  "'pk key_lib \<Rightarrow> 'db bucket_ops \<Rightarrow> 'db \<Rightarrow> hash \<Rightarrow> SpentTxOut list \<Rightarrow> error + 'db" where
  "dbPutSpendJournalEntry K B db blockHash stxos =
    (case serializeSpendJournalEntry K stxos of None \<Rightarrow> Inl Panic | Some v \<Rightarrow> Put B db blockHash v)"

definition dbRemoveSpendJournalEntry :: "'db bucket_ops \<Rightarrow> 'db \<Rightarrow> hash \<Rightarrow> error + 'db" where
  "dbRemoveSpendJournalEntry B db blockHash = Delete B db blockHash"

fun dbPruneSpendJournalEntry :: "'db bucket_ops \<Rightarrow> 'db \<Rightarrow> hash list \<Rightarrow> error + 'db" where
  "dbPruneSpendJournalEntry B db [] = Inr db"
| "dbPruneSpendJournalEntry B db (blockHash # blockHashes) =
    bindE (Delete B db blockHash) (\<lambda>db. dbPruneSpendJournalEntry B db blockHashes)"

section \<open>The utxo set\<close>

text \<open>
  The key of an output.  The buffer comes from a pool and is cut to the length of the key, all of which is
  written.
\<close>

definition outpointKey :: "OutPoint \<Rightarrow> byte list option" where
  "outpointKey outp = do {
     let idx = (ucast (op_Index outp) :: uint64);
     (suffix, _) \<leftarrow> putVLQ (replicate (serializeSizeVLQ idx) 0) idx;
     Some (op_Hash outp @ suffix) }"

definition utxoEntryHeaderCode :: "UtxoEntry \<Rightarrow> error + uint64" where
  "utxoEntryHeaderCode entry =
    (if IsSpent entry then Inl (AssertError ''attempt to serialize spent utxo header'')
     else let headerCode = push_bit 1 (word_of_int (blockHeight entry))
          in Inr (if entry_IsCoinBase entry then headerCode OR 0x01 else headerCode))"

definition serializeUtxoEntry :: "'pk key_lib \<Rightarrow> UtxoEntry \<Rightarrow> error + byte list" where
  "serializeUtxoEntry K entry =
    (if IsSpent entry then Inr []
     else bindE (utxoEntryHeaderCode entry) (\<lambda>headerCode.
       let sz = serializeSizeVLQ headerCode + compressedTxOutSize (ParsePubKey K) (u64 (amount entry)) (pkScript entry)
       in case (do { (serialized, offset) \<leftarrow> putVLQ (replicate sz 0) headerCode;
                     (rest, n) \<leftarrow> putCompressedTxOut (ParsePubKey K) (drop offset serialized) (u64 (amount entry)) (pkScript entry);
                     Some (take offset serialized @ rest) }) of
            None \<Rightarrow> Inl Panic
          | Some serialized \<Rightarrow> Inr serialized))"

definition deserializeUtxoEntry :: "'pk key_lib \<Rightarrow> byte list \<Rightarrow> error + UtxoEntry" where
  "deserializeUtxoEntry K serialized =
    (let (code, offset) = deserializeVLQ serialized
     in if length serialized \<le> offset then Inl (DeserializeError ''unexpected end of data after header'')
        else let isCoinBase = (code AND 0x01 \<noteq> 0); height = i32 (uint (drop_bit 1 code))
        in case decodeCompressedTxOut (ParsePubKey K) (SerializeUncompressed K) (drop offset serialized) of
             Inl e \<Rightarrow> Inl (snd (wrap_txout_error ''unable to decode utxo'' offset e))
           | Inr ((amt, script), _) \<Rightarrow>
               Inr \<lparr>amount = i64 amt, pkScript = script, blockHeight = height,
                    packedFlags = (if isCoinBase then 0 OR tfCoinBase else 0)\<rparr>)"

definition dbFetchUtxoEntryByHash ::
  "'pk key_lib \<Rightarrow> 'db bucket_ops \<Rightarrow> 'db \<Rightarrow> hash \<Rightarrow> error + UtxoEntry option" where
  "dbFetchUtxoEntryByHash K B db h =
    (case outpointKey \<lparr>op_Hash = h, op_Index = 0\<rparr> of
       None \<Rightarrow> Inl Panic
     | Some key \<Rightarrow>
         (case Seek B db key of
            None \<Rightarrow> Inr None
          | Some (cursorKey, v) \<Rightarrow>
              if length cursorKey < 32 then Inr None
              else if h \<noteq> take 32 cursorKey then Inr None
              else bindE (deserializeUtxoEntry K v) (\<lambda>e. Inr (Some e))))"

definition dbFetchUtxoEntry ::
  "'pk key_lib \<Rightarrow> 'db bucket_ops \<Rightarrow> 'db \<Rightarrow> OutPoint \<Rightarrow> error + UtxoEntry option" where
  "dbFetchUtxoEntry K B db outp =
    (case outpointKey outp of
       None \<Rightarrow> Inl Panic
     | Some key \<Rightarrow>
         (case Get B db key of
            None \<Rightarrow> Inr None
          | Some serializedUtxo \<Rightarrow>
              if length serializedUtxo = 0 then Inl (AssertError ''database contains entry for spent tx output'')
              else case deserializeUtxoEntry K serializedUtxo of
                     Inl e \<Rightarrow> Inl (corruption e)
                   | Inr entry \<Rightarrow> Inr (Some entry)))"

definition dbDeleteUtxoEntry :: "'db bucket_ops \<Rightarrow> 'db \<Rightarrow> OutPoint \<Rightarrow> error + 'db" where
  "dbDeleteUtxoEntry B db outp = (case outpointKey outp of None \<Rightarrow> Inl Panic | Some key \<Rightarrow> Delete B db key)"

definition dbPutUtxoEntry :: "'pk key_lib \<Rightarrow> 'db bucket_ops \<Rightarrow> 'db \<Rightarrow> OutPoint \<Rightarrow> UtxoEntry option \<Rightarrow> error + 'db" where
  "dbPutUtxoEntry K B db outp entry =
    (case entry of
       None \<Rightarrow> Inl (AssertError ''trying to store nil or spent entry'')
     | Some e \<Rightarrow>
         if IsSpent e then Inl (AssertError ''trying to store nil or spent entry'')
         else bindE (serializeUtxoEntry K e) (\<lambda>serialized.
                case outpointKey outp of None \<Rightarrow> Inl Panic | Some key \<Rightarrow> Put B db key serialized))"

section \<open>The main chain index\<close>

text \<open>\<open>byteOrder\<close> is little endian; the readers index the slice and panic when it is too short.\<close>

definition le32 :: "uint32 \<Rightarrow> byte list" where
  "le32 w = [ucast w, ucast (drop_bit 8 w), ucast (drop_bit 16 w), ucast (drop_bit 24 w)]"

definition le64 :: "uint64 \<Rightarrow> byte list" where
  "le64 w = le32 (ucast w) @ le32 (ucast (drop_bit 32 w))"

definition Uint32 :: "byte list \<Rightarrow> uint32 option" where
  "Uint32 b = (if length b < 4 then None
    else Some (ucast (b ! 0) OR push_bit 8 (ucast (b ! 1)) OR push_bit 16 (ucast (b ! 2)) OR push_bit 24 (ucast (b ! 3))))"

definition Uint64 :: "byte list \<Rightarrow> uint64 option" where
  "Uint64 b = (case (Uint32 b, Uint32 (drop 4 b)) of
     (Some lo, Some hi) \<Rightarrow> Some (ucast lo OR push_bit 32 (ucast hi)) | _ \<Rightarrow> None)"

definition dbPutBlockIndex :: "'db bucket_ops \<Rightarrow> 'db \<Rightarrow> 'db \<Rightarrow> hash \<Rightarrow> int \<Rightarrow> error + 'db \<times> 'db" where
  "dbPutBlockIndex B hashIndex heightIndex h height =
    (let serializedHeight = le32 (word_of_int height)
     in bindE (Put B hashIndex h serializedHeight) (\<lambda>hashIndex.
        bindE (Put B heightIndex serializedHeight h) (\<lambda>heightIndex. Inr (hashIndex, heightIndex))))"

definition dbRemoveBlockIndex :: "'db bucket_ops \<Rightarrow> 'db \<Rightarrow> 'db \<Rightarrow> hash \<Rightarrow> int \<Rightarrow> error + 'db \<times> 'db" where
  "dbRemoveBlockIndex B hashIndex heightIndex h height =
    bindE (Delete B hashIndex h) (\<lambda>hashIndex.
    bindE (Delete B heightIndex (le32 (word_of_int height))) (\<lambda>heightIndex. Inr (hashIndex, heightIndex)))"

text \<open>\<open>errNotInMainChain\<close> is \<open>CalleeError\<close>.\<close>

definition dbFetchHeightByHash :: "'db bucket_ops \<Rightarrow> 'db \<Rightarrow> hash \<Rightarrow> error + int" where
  "dbFetchHeightByHash B hashIndex h =
    (case Get B hashIndex h of
       None \<Rightarrow> Inl CalleeError
     | Some v \<Rightarrow> (case Uint32 v of None \<Rightarrow> Inl Panic | Some w \<Rightarrow> Inr (sint w)))"

definition dbFetchHashByHeight :: "'db bucket_ops \<Rightarrow> 'db \<Rightarrow> int \<Rightarrow> error + hash" where
  "dbFetchHashByHeight B heightIndex height =
    (case Get B heightIndex (le32 (word_of_int height)) of
       None \<Rightarrow> Inl CalleeError
     | Some v \<Rightarrow> Inr (pad_to 32 v))"

section \<open>The best chain state\<close>

text \<open>\<open>big.Int.Bytes\<close>: the magnitude, most significant byte first, without leading zeros.\<close>

fun nat_Bytes :: "nat \<Rightarrow> byte list" where
  "nat_Bytes n = (if n = 0 then [] else nat_Bytes (n div 256) @ [of_nat (n mod 256)])"

declare nat_Bytes.simps [simp del]

definition Bytes :: "int \<Rightarrow> byte list" where
  "Bytes n = nat_Bytes (nat \<bar>n\<bar>)"

record bestChainState =
  bs_hash :: hash
  bs_height :: uint32
  bs_totalTxns :: uint64
  bs_workSum :: int

text \<open>Sizes and offsets are 32-bit words; a sum that wraps makes the buffer too short for the fixed fields.\<close>

definition serializeBestChainState :: "bestChainState \<Rightarrow> byte list option" where
  "serializeBestChainState st =
    (let workSumBytes = Bytes (bs_workSum st);
         workSumBytesLen = (of_nat (length workSumBytes) :: uint32);
         serializedLen = unat (32 + 4 + 8 + 4 + workSumBytesLen)
     in if serializedLen < 48 then None
        else Some (pad_to 32 (bs_hash st) @ le32 (bs_height st) @ le64 (bs_totalTxns st) @ le32 workSumBytesLen
               @ pad_to (serializedLen - 48) workSumBytes))"

definition deserializeBestChainState :: "byte list \<Rightarrow> error + bestChainState" where
  "deserializeBestChainState serializedData =
    (if length serializedData < 32 + 16 then Inl CalleeError
     else case (Uint32 (take 4 (drop 32 serializedData)), Uint64 (take 8 (drop 36 serializedData)),
                Uint32 (take 4 (drop 44 serializedData))) of
            (Some height, Some totalTxns, Some workSumBytesLen) \<Rightarrow>
              if (of_nat (length (drop 48 serializedData)) :: uint32) < workSumBytesLen then Inl CalleeError
              else (case slice serializedData 48 (unat (48 + workSumBytesLen)) of
                      None \<Rightarrow> Inl Panic
                    | Some workSumBytes \<Rightarrow>
                        Inr \<lparr>bs_hash = take 32 serializedData, bs_height = height, bs_totalTxns = totalTxns,
                             bs_workSum = SetBytes workSumBytes\<rparr>)
          | _ \<Rightarrow> Inl Panic)"

section \<open>Header codes\<close>

definition header_code :: "int \<Rightarrow> bool \<Rightarrow> uint64" where
  "header_code h cb = (let c = push_bit 1 (word_of_int h) in if cb then c OR 0x01 else c)"

lemma header_code_bits: "bit (header_code h cb) n \<longleftrightarrow> (if n = 0 then cb else n < 64 \<and> bit h (n - 1))"
proof -
  have "bit (push_bit 1 (word_of_int h :: uint64)) n \<longleftrightarrow> 0 < n \<and> n < 64 \<and> bit h (n - 1)"
    unfolding bit_push_bit_iff by (auto simp: bit_word_of_int_iff)
  then show ?thesis unfolding header_code_def Let_def by (auto simp: bit_or_iff bit_1_iff simp del: push_bit_of_1 push_bit_Suc)
qed

lemma header_code_coinbase: "header_code h cb AND 0x01 \<noteq> 0 \<longleftrightarrow> cb"
  using and_exp_eq_0_iff[of 0 "header_code h cb"] by (simp add: header_code_bits)

lemma header_code_height:
  assumes "0 \<le> h" "h < 2 ^ 31"
  shows "uint (drop_bit 1 (header_code h cb)) = h" "i32 (uint (drop_bit 1 (header_code h cb))) = h"
proof -
  have high: "\<not> bit h n" if "63 \<le> n" for n
  proof -
    have "h < 2 ^ n" using assms(2) power_increasing[of 31 n "2 :: int"] that by linarith
    then have "take_bit n h = h" using assms(1) by (simp add: take_bit_int_eq_self)
    then show ?thesis by (metis bit_take_bit_iff less_irrefl)
  qed
  show *: "uint (drop_bit 1 (header_code h cb)) = h"
  proof (rule bit_eqI)
    fix n
    show "bit (uint (drop_bit 1 (header_code h cb))) n = bit h n"
      using high[of n] by (cases "63 \<le> n") (auto simp: bit_uint_iff bit_drop_bit_eq header_code_bits)
  qed
  show "i32 (uint (drop_bit 1 (header_code h cb))) = h"
    unfolding * using assms by (intro i32_id) simp_all
qed

lemma spentTxOutHeaderCode_eq: "spentTxOutHeaderCode s = header_code (so_Height s) (so_IsCoinBase s)"
  by (simp add: spentTxOutHeaderCode_def header_code_def)

section \<open>The format of spent outputs\<close>

definition stxo_bytes :: "'pk key_lib \<Rightarrow> SpentTxOut \<Rightarrow> byte list" where
  "stxo_bytes K s = vlq (spentTxOutHeaderCode s) @ (if so_Height s > 0 then vlq 0 else [])
    @ compressed_txout (ParsePubKey K) (u64 (so_Amount s), so_PkScript s)"

definition stxo_ok :: "SpentTxOut \<Rightarrow> bool" where
  "stxo_ok s \<longleftrightarrow> 0 \<le> so_Amount s \<and> so_Amount s < 2 ^ 60 \<and> length (so_PkScript s) < 2 ^ 62
    \<and> 0 \<le> so_Height s \<and> so_Height s < 2 ^ 31"

lemma spentTxOutSerializeSize_length: "spentTxOutSerializeSize K s = length (stxo_bytes K s)"
  by (simp add: spentTxOutSerializeSize_def stxo_bytes_def serializeSizeVLQ_length compressedTxOutSize_length)

lemma putSpentTxOut_eq:
  assumes "length (stxo_bytes K s) \<le> length target"
  shows "putSpentTxOut K target s =
    Some (stxo_bytes K s @ drop (length (stxo_bytes K s)) target, length (stxo_bytes K s))"
proof (cases "so_Height s > 0")
  case True
  define a b where "a = vlq (spentTxOutHeaderCode s)" and "b = vlq 0"
  define c where "c = compressed_txout (ParsePubKey K) (u64 (so_Amount s), so_PkScript s)"
  have len: "length a + (length b + length c) \<le> length target"
    using assms True by (simp add: stxo_bytes_def a_def b_def c_def)
  have 1: "putVLQ target (spentTxOutHeaderCode s) = Some (a @ drop (length a) target, length a)"
    using len by (simp add: putVLQ_eq a_def)
  have 2: "putVLQ (drop (length a) target) 0 = Some (b @ drop (length b + length a) target, length b)"
    using len by (simp add: putVLQ_eq b_def add.commute)
  have 3: "putCompressedTxOut (ParsePubKey K) (drop (length b + length a) target) (u64 (so_Amount s)) (so_PkScript s)
      = Some (c @ drop (length c + (length b + length a)) target, length c)"
    using len by (subst putCompressedTxOut_eq) (simp_all add: compressedTxOutSize_length c_def)
  show ?thesis using True 1 2 3
    by (simp add: putSpentTxOut_def stxo_bytes_def a_def [symmetric] b_def [symmetric] c_def [symmetric] add.commute add.left_commute)
next
  case False
  define a where "a = vlq (spentTxOutHeaderCode s)"
  define c where "c = compressed_txout (ParsePubKey K) (u64 (so_Amount s), so_PkScript s)"
  have len: "length a + length c \<le> length target"
    using assms False by (simp add: stxo_bytes_def a_def c_def)
  have 1: "putVLQ target (spentTxOutHeaderCode s) = Some (a @ drop (length a) target, length a)"
    using len by (simp add: putVLQ_eq a_def)
  have 3: "putCompressedTxOut (ParsePubKey K) (drop (length a) target) (u64 (so_Amount s)) (so_PkScript s)
      = Some (c @ drop (length c + length a) target, length c)"
    using len by (subst putCompressedTxOut_eq) (simp_all add: compressedTxOutSize_length c_def)
  show ?thesis using False 1 3
    by (simp add: putSpentTxOut_def stxo_bytes_def a_def [symmetric] c_def [symmetric] add.commute add.left_commute)
qed

lemma compressed_txout_nonempty [simp]: "compressed_txout P p \<noteq> []"
  by (simp add: compressed_txout_def)

lemma decode_txout:
  assumes "key_lib_ok K" "0 \<le> a" "a < 2 ^ 60" "length s < 2 ^ 62"
  shows "decodeCompressedTxOut (ParsePubKey K) (SerializeUncompressed K) (compressed_txout (ParsePubKey K) (u64 a, s) @ rest)
    = Inr ((a, s), length (compressed_txout (ParsePubKey K) (u64 a, s)))" "i64 a = a"
proof -
  have a: "u64 a = a" using assms by (intro u64_id) simp_all
  show "decodeCompressedTxOut (ParsePubKey K) (SerializeUncompressed K) (compressed_txout (ParsePubKey K) (u64 a, s) @ rest)
    = Inr ((a, s), length (compressed_txout (ParsePubKey K) (u64 a, s)))"
    unfolding a using assms
    by (intro stream_codec.dec_enc[OF txout_codec]) (simp_all add: key_lib_ok_def txout_ok_def)
  show "i64 a = a" using assms by (intro i64_id) simp_all
qed

lemma stxo_codec:
  assumes "key_lib_ok K"
  shows "stream_codec (stxo_bytes K) (decodeSpentTxOut K) stxo_ok"
proof
  fix s rest
  assume ok: "stxo_ok s"
  define c where "c = compressed_txout (ParsePubKey K) (u64 (so_Amount s), so_PkScript s)"
  have c: "decodeCompressedTxOut (ParsePubKey K) (SerializeUncompressed K) (c @ rest) = Inr ((so_Amount s, so_PkScript s), length c)"
      "i64 (so_Amount s) = so_Amount s"
    using decode_txout[OF assms, of "so_Amount s" "so_PkScript s"] ok by (simp_all add: c_def stxo_ok_def)
  have h: "i32 (uint (drop_bit 1 (spentTxOutHeaderCode s))) = so_Height s"
      "spentTxOutHeaderCode s AND 0x01 \<noteq> 0 \<longleftrightarrow> so_IsCoinBase s"
    using ok header_code_height header_code_coinbase by (simp_all add: spentTxOutHeaderCode_eq stxo_ok_def)
  have "c \<noteq> []" by (simp add: c_def)
  then show "decodeSpentTxOut K (stxo_bytes K s @ rest) = Inr (s, length (stxo_bytes K s))"
    using c h
    by (cases "so_Height s > 0")
      (simp_all add: decodeSpentTxOut_def stxo_bytes_def c_def [symmetric] deserializeVLQ_vlq Let_def)
qed

section \<open>The format of the journal\<close>

lemma put_stxos_eq:
  "length (concat (map (stxo_bytes K) xs)) \<le> length buf - offset \<Longrightarrow> offset \<le> length buf \<Longrightarrow>
    put_stxos K xs (buf, offset) =
      Some (take offset buf @ concat (map (stxo_bytes K) xs) @ drop (offset + length (concat (map (stxo_bytes K) xs))) buf,
        offset + length (concat (map (stxo_bytes K) xs)))"
proof (induction xs arbitrary: buf offset)
  case (Cons x xs)
  define b where "b = stxo_bytes K x"
  define cs where "cs = concat (map (stxo_bytes K) xs)"
  have len: "length b + length cs \<le> length buf - offset" using Cons.prems by (simp add: b_def cs_def)
  have "putSpentTxOut K (drop offset buf) x = Some (b @ drop (length b + offset) buf, length b)"
    using putSpentTxOut_eq[of K x "drop offset buf"] len by (simp add: b_def)
  moreover have "put_stxos K xs (take offset buf @ b @ drop (length b + offset) buf, offset + length b)
    = Some (take offset buf @ b @ cs @ drop (offset + (length b + length cs)) buf, offset + (length b + length cs))"
    using Cons.IH[of "take offset buf @ b @ drop (length b + offset) buf" "offset + length b"] len Cons.prems(2)
    by (simp add: cs_def [symmetric] add.commute add.left_commute min_absorb2)
  ultimately show ?case using Cons.prems by (simp add: b_def [symmetric] cs_def [symmetric])
qed simp

lemma sum_list_sizes: "sum_list (map (spentTxOutSerializeSize K) xs) = length (concat (map (stxo_bytes K) xs))"
  by (induction xs) (simp_all add: spentTxOutSerializeSize_length)

lemma length_concat_rev: "length (concat (map f (rev xs))) = length (concat (map f xs))"
  by (induction xs) simp_all

lemma serializeSpendJournalEntry_eq:
  "serializeSpendJournalEntry K stxos = Some (concat (map (stxo_bytes K) (rev stxos)))"
  using put_stxos_eq[of K "rev stxos" "replicate (length (concat (map (stxo_bytes K) stxos))) 0" 0]
  by (simp add: serializeSpendJournalEntry_def sum_list_sizes length_concat_rev)

lemma read_stxos_eq:
  assumes "key_lib_ok K" "length xs = length ins" "\<forall>x\<in>set xs. stxo_ok x"
    "serialized = pre @ concat (map (stxo_bytes K) xs) @ rest" "length ins \<le> m" "m \<le> length arr"
  shows "read_stxos K serialized ins (arr, int m - 1, length pre) =
    Inr (take (m - length ins) arr @ rev xs @ drop m arr, int (m - length ins) - 1,
      length pre + length (concat (map (stxo_bytes K) xs)))"
  using assms(2-)
proof (induction ins arbitrary: xs pre m arr)
  case (Cons txin ins)
  obtain x xs' where xs: "xs = x # xs'" using Cons.prems(1) by (cases xs) auto
  obtain m' where m: "m = Suc m'" using Cons.prems(4) by (cases m) auto
  have x: "decodeSpentTxOut K (drop (length pre) serialized) = Inr (x, length (stxo_bytes K x))"
    using stream_codec.dec_enc[OF stxo_codec[OF assms(1)]] Cons.prems(2,3) by (simp add: xs)
  have "take (m' - length ins) (arr[m' := x]) @ rev xs' @ drop m' (arr[m' := x])
      = take (m' - length ins) arr @ rev xs' @ x # drop m arr"
    using Cons.prems(5) m by (simp add: drop_update_swap Cons_nth_drop_Suc [symmetric] drop_Suc_Cons)
  moreover have "read_stxos K serialized ins (arr[m' := x], int m' - 1, length (pre @ stxo_bytes K x)) =
      Inr (take (m' - length ins) (arr[m' := x]) @ rev xs' @ drop m' (arr[m' := x]), int (m' - length ins) - 1,
        length (pre @ stxo_bytes K x) + length (concat (map (stxo_bytes K) xs')))"
    using Cons.prems xs m by (intro Cons.IH) simp_all
  ultimately show ?case using x xs m Cons.prems(3,5) by (simp add: add.assoc)
qed simp

definition num_inputs :: "MsgTx list \<Rightarrow> nat" where
  "num_inputs txns = sum_list (map (\<lambda>tx. length (tx_TxIn tx)) txns)"

lemma num_inputs_rev [simp]: "num_inputs (rev txns) = num_inputs txns"
  by (simp add: num_inputs_def rev_map [symmetric])

lemma read_journal_eq:
  assumes "key_lib_ok K" "length xs = num_inputs txns" "\<forall>x\<in>set xs. stxo_ok x"
    "serialized = pre @ concat (map (stxo_bytes K) xs) @ rest" "num_inputs txns \<le> m" "m \<le> length arr"
  shows "read_journal K serialized txns (arr, int m - 1, length pre) =
    Inr (take (m - num_inputs txns) arr @ rev xs @ drop m arr, int (m - num_inputs txns) - 1,
      length pre + length (concat (map (stxo_bytes K) xs)))"
  using assms(2-)
proof (induction txns arbitrary: xs pre m arr)
  case Nil
  then show ?case by (simp add: num_inputs_def)
next
  case (Cons tx txns)
  define k where "k = length (tx_TxIn tx)"
  define ys zs where "ys = take k xs" and "zs = drop k xs"
  have k: "num_inputs (tx # txns) = k + num_inputs txns" by (simp add: num_inputs_def k_def)
  have xs: "xs = ys @ zs" "length ys = k" "length zs = num_inputs txns"
    using Cons.prems(1) k by (simp_all add: ys_def zs_def)
  define arr' where "arr' = take (m - k) arr @ rev ys @ drop m arr"
  have "read_stxos K serialized (rev (tx_TxIn tx)) (arr, int m - 1, length pre) =
      Inr (arr', int (m - k) - 1, length (pre @ concat (map (stxo_bytes K) ys)))"
    using read_stxos_eq[OF assms(1), of ys "rev (tx_TxIn tx)" serialized pre "concat (map (stxo_bytes K) zs) @ rest" m arr]
      Cons.prems k xs by (simp add: k_def [symmetric] arr'_def)
  moreover have "read_journal K serialized txns (arr', int (m - k) - 1, length (pre @ concat (map (stxo_bytes K) ys))) =
      Inr (take (m - k - num_inputs txns) arr' @ rev zs @ drop (m - k) arr', int (m - k - num_inputs txns) - 1,
        length (pre @ concat (map (stxo_bytes K) ys)) + length (concat (map (stxo_bytes K) zs)))"
    using Cons.prems k xs by (intro Cons.IH) (simp_all add: arr'_def)
  moreover have "take (m - k - num_inputs txns) arr' @ rev zs @ drop (m - k) arr'
      = take (m - num_inputs (tx # txns)) arr @ rev xs @ drop m arr"
    using Cons.prems(4,5) k xs by (simp add: arr'_def min_absorb2)
  ultimately show ?case using k xs by simp
qed

lemma journal_read_back:
  assumes "key_lib_ok K" "\<forall>x\<in>set stxos. stxo_ok x" "length stxos = num_inputs txns"
  shows "deserializeSpendJournalEntry K (concat (map (stxo_bytes K) (rev stxos))) txns = Inr stxos"
proof (cases "stxos = []")
  case True
  then show ?thesis using assms(3) by (simp add: deserializeSpendJournalEntry_def num_inputs_def)
next
  case False
  have "stxo_bytes K s \<noteq> []" for s by (simp add: stxo_bytes_def)
  then have ne: "concat (map (stxo_bytes K) (rev stxos)) \<noteq> []" using False by (cases stxos) simp_all
  show ?thesis
    using ne False assms read_journal_eq[OF assms(1), of "rev stxos" "rev txns" _ "[]" "[]" "num_inputs txns" "replicate (num_inputs txns) empty_stxo"]
    by (simp add: deserializeSpendJournalEntry_def num_inputs_def [symmetric] Let_def)
qed

section \<open>The format of the utxo set\<close>

lemma outpointKey_eq: "outpointKey outp = Some (op_Hash outp @ vlq (ucast (op_Index outp)))"
  by (simp add: outpointKey_def Let_def putVLQ_eq serializeSizeVLQ_length)

text \<open>Hashes have 32 bytes; outpoints with such hashes have different keys.\<close>

definition op_ok :: "OutPoint \<Rightarrow> bool" where
  "op_ok outp \<longleftrightarrow> length (op_Hash outp) = 32"

lemma outpointKey_inj: "op_ok a \<Longrightarrow> op_ok b \<Longrightarrow> outpointKey a = outpointKey b \<longleftrightarrow> a = b"
proof -
  assume ok: "op_ok a" "op_ok b"
  have "a = b" if "op_Hash a @ vlq (ucast (op_Index a)) = op_Hash b @ vlq (ucast (op_Index b))"
  proof -
    have eq: "op_Hash a = op_Hash b" "vlq (ucast (op_Index a)) = vlq (ucast (op_Index b))"
      using that ok by (simp_all add: op_ok_def)
    have "ucast (op_Index a) = (ucast (op_Index b) :: uint64)"
      using vlq.enc_inj[OF _ _ eq(2)] by simp
    then have "uint (ucast (op_Index a) :: uint64) = uint (ucast (op_Index b) :: uint64)" by simp
    then have "uint (op_Index a) = uint (op_Index b)" by (simp add: uint_up_ucast is_up)
    then have "op_Index a = op_Index b" by (simp only: word_uint_eq_iff)
    then show ?thesis using eq(1) by (cases a, cases b) simp
  qed
  then show ?thesis by (auto simp: outpointKey_eq)
qed

definition entry_ok :: "UtxoEntry \<Rightarrow> bool" where
  "entry_ok e \<longleftrightarrow> 0 \<le> amount e \<and> amount e < 2 ^ 60 \<and> length (pkScript e) < 2 ^ 62
    \<and> 0 \<le> blockHeight e \<and> blockHeight e < 2 ^ 31"

text \<open>What is left of an entry after it has been written: of the flags only the coinbase bit.\<close>

definition stored :: "UtxoEntry \<Rightarrow> UtxoEntry" where
  "stored e = e\<lparr>packedFlags := (if entry_IsCoinBase e then tfCoinBase else 0)\<rparr>"

lemma stored_props [simp]: "\<not> IsSpent (stored e)" "\<not> isModified (stored e)" "\<not> isFresh (stored e)" "coin_of (stored e) = coin_of e"
  by (auto simp: stored_def flag_simps coin_of_def)

definition entry_bytes :: "'pk key_lib \<Rightarrow> UtxoEntry \<Rightarrow> byte list" where
  "entry_bytes K e = vlq (header_code (blockHeight e) (entry_IsCoinBase e))
    @ compressed_txout (ParsePubKey K) (u64 (amount e), pkScript e)"

lemma serializeUtxoEntry_eq:
  assumes "\<not> IsSpent e"
  shows "serializeUtxoEntry K e = Inr (entry_bytes K e)"
proof -
  define w where "w = header_code (blockHeight e) (entry_IsCoinBase e)"
  define c where "c = compressed_txout (ParsePubKey K) (u64 (amount e), pkScript e)"
  have 1: "utxoEntryHeaderCode e = Inr w" using assms by (simp add: utxoEntryHeaderCode_def w_def header_code_def Let_def)
  have 2: "putCompressedTxOut (ParsePubKey K) (replicate (length c) 0) (u64 (amount e)) (pkScript e) = Some (c, length c)"
    using putCompressedTxOut_eq[of "ParsePubKey K" "u64 (amount e)" "pkScript e" "replicate (length c) 0"]
    by (simp add: compressedTxOutSize_length c_def)
  show ?thesis using assms 1 2
    by (simp add: serializeUtxoEntry_def entry_bytes_def w_def [symmetric] c_def [symmetric] Let_def
        serializeSizeVLQ_length compressedTxOutSize_length putVLQ_eq)
qed

lemma deserialize_entry_bytes:
  assumes "key_lib_ok K" "entry_ok e"
  shows "deserializeUtxoEntry K (entry_bytes K e) = Inr (stored e)"
proof -
  define c where "c = compressed_txout (ParsePubKey K) (u64 (amount e), pkScript e)"
  have c: "decodeCompressedTxOut (ParsePubKey K) (SerializeUncompressed K) c = Inr ((amount e, pkScript e), length c)"
      "i64 (amount e) = amount e" "c \<noteq> []"
    using decode_txout(1)[OF assms(1), of "amount e" "pkScript e" "[]"] decode_txout(2)[OF assms(1), of "amount e" "pkScript e"] assms(2)
    by (simp_all add: c_def entry_ok_def)
  have h: "i32 (uint (drop_bit 1 (header_code (blockHeight e) (entry_IsCoinBase e)))) = blockHeight e"
    using header_code_height assms(2) by (simp add: entry_ok_def)
  show ?thesis using c h header_code_coinbase[of "blockHeight e" "entry_IsCoinBase e"]
    by (simp add: deserializeUtxoEntry_def entry_bytes_def c_def [symmetric] deserializeVLQ_vlq Let_def stored_def)
qed

section \<open>The bucket of unspent outputs\<close>

lemma outpointKey_nonempty: "outpointKey outp = Some k \<Longrightarrow> k \<noteq> []"
  by (auto simp: outpointKey_eq)

lemma bucket_put:
  "bucket_ok B \<Longrightarrow> k \<noteq> [] \<Longrightarrow> \<exists>db'. Put B db k v = Inr db' \<and> Get B db' = (Get B db)(k := Some v)"
  by (simp add: bucket_ok_def)

lemma bucket_delete:
  "bucket_ok B \<Longrightarrow> k \<noteq> [] \<Longrightarrow> \<exists>db'. Delete B db k = Inr db' \<and> Get B db' = (Get B db)(k := None)"
  by (simp add: bucket_ok_def)

lemma entry_bytes_nonempty [simp]: "entry_bytes K e \<noteq> []"
  by (simp add: entry_bytes_def)

lemma fetch_other_key:
  assumes "op_ok a" "op_ok b" "a \<noteq> b" "outpointKey a = Some k" "Get B db' = (Get B db)(k := v)"
  shows "dbFetchUtxoEntry K B db' b = dbFetchUtxoEntry K B db b"
  using assms outpointKey_inj[OF assms(1,2)] by (auto simp: dbFetchUtxoEntry_def outpointKey_eq)

lemma dbPutUtxoEntry_fetch:
  assumes "key_lib_ok K" "bucket_ok B" "op_ok outp" "entry_ok e" "\<not> IsSpent e"
  obtains db' where "dbPutUtxoEntry K B db outp (Some e) = Inr db'"
    "dbFetchUtxoEntry K B db' outp = Inr (Some (stored e))"
    "\<And>b. op_ok b \<Longrightarrow> b \<noteq> outp \<Longrightarrow> dbFetchUtxoEntry K B db' b = dbFetchUtxoEntry K B db b"
proof -
  obtain k where k: "outpointKey outp = Some k" "k \<noteq> []" by (simp add: outpointKey_eq)
  obtain db' where db': "Put B db k (entry_bytes K e) = Inr db'" "Get B db' = (Get B db)(k := Some (entry_bytes K e))"
    using bucket_put[OF assms(2) k(2)] by blast
  show thesis
  proof (rule that)
    show "dbPutUtxoEntry K B db outp (Some e) = Inr db'"
      using assms(5) k db'(1) by (simp add: dbPutUtxoEntry_def serializeUtxoEntry_eq)
    show "dbFetchUtxoEntry K B db' outp = Inr (Some (stored e))"
      using k db'(2) deserialize_entry_bytes[OF assms(1,4)] by (simp add: dbFetchUtxoEntry_def)
    show "dbFetchUtxoEntry K B db' b = dbFetchUtxoEntry K B db b" if "op_ok b" "b \<noteq> outp" for b
      using fetch_other_key[OF assms(3) that(1) _ k(1) db'(2)] that by auto
  qed
qed

lemma dbDeleteUtxoEntry_fetch:
  assumes "bucket_ok B" "op_ok outp"
  obtains db' where "dbDeleteUtxoEntry B db outp = Inr db'"
    "dbFetchUtxoEntry K B db' outp = Inr None"
    "\<And>b. op_ok b \<Longrightarrow> b \<noteq> outp \<Longrightarrow> dbFetchUtxoEntry K B db' b = dbFetchUtxoEntry K B db b"
proof -
  obtain k where k: "outpointKey outp = Some k" "k \<noteq> []" by (simp add: outpointKey_eq)
  obtain db' where db': "Delete B db k = Inr db'" "Get B db' = (Get B db)(k := None)"
    using bucket_delete[OF assms(1) k(2)] by blast
  show thesis
  proof (rule that)
    show "dbDeleteUtxoEntry B db outp = Inr db'" using k db'(1) by (simp add: dbDeleteUtxoEntry_def)
    show "dbFetchUtxoEntry K B db' outp = Inr None" using k db'(2) by (simp add: dbFetchUtxoEntry_def)
    show "dbFetchUtxoEntry K B db' b = dbFetchUtxoEntry K B db b" if "op_ok b" "b \<noteq> outp" for b
      using fetch_other_key[OF assms(2) that(1) _ k(1) db'(2)] that by auto
  qed
qed

section \<open>Fixed-width integers and the best state\<close>

lemma Uint32_le32: "Uint32 (le32 w @ rest) = Some w"
proof -
  have "ucast (ucast w :: byte) OR push_bit 8 (ucast (ucast (drop_bit 8 w) :: byte))
      OR push_bit 16 (ucast (ucast (drop_bit 16 w) :: byte)) OR push_bit 24 (ucast (ucast (drop_bit 24 w) :: byte)) = w"
    (is "?r = w")
  proof (rule bit_word_eqI)
    fix n
    assume "n < LENGTH(32)"
    then show "bit ?r n = bit w n" by (cases "24 \<le> n"; cases "16 \<le> n"; cases "8 \<le> n") (auto simp: bit_simps)
  qed
  then show ?thesis by (simp add: Uint32_def le32_def)
qed

lemma length_le [simp]: "length (le32 w) = 4" "length (le64 v) = 8"
  by (simp_all add: le32_def le64_def)

lemma Uint64_le64: "Uint64 (le64 w @ rest) = Some w"
proof -
  have "Uint32 (le64 w @ rest) = Some (ucast w)" "Uint32 (drop 4 (le64 w @ rest)) = Some (ucast (drop_bit 32 w))"
    using Uint32_le32 by (simp_all add: le64_def)
  moreover have "ucast (ucast w :: uint32) OR push_bit 32 (ucast (ucast (drop_bit 32 w) :: uint32)) = w"
    by (intro bit_word_eqI) (auto simp: bit_simps)
  ultimately show ?thesis by (simp add: Uint64_def)
qed

lemma SetBytes_snoc: "SetBytes (bs @ [b]) = SetBytes bs * 256 + uint b"
  by (simp add: SetBytes_def)

lemma SetBytes_nat_Bytes: "SetBytes (nat_Bytes n) = int n"
proof (induction n rule: nat_Bytes.induct)
  case (1 n)
  show ?case
  proof (cases "n = 0")
    case True
    then show ?thesis by (simp add: nat_Bytes.simps SetBytes_def)
  next
    case False
    have "uint (of_nat (n mod 256) :: byte) = int (n mod 256)" by (simp add: uint_nat unat_of_nat)
    then show ?thesis using False 1 by (subst nat_Bytes.simps) (simp add: SetBytes_snoc zdiv_int zmod_int)
  qed
qed

lemma SetBytes_Bytes: "0 \<le> n \<Longrightarrow> SetBytes (Bytes n) = n"
  by (simp add: Bytes_def SetBytes_nat_Bytes)

section \<open>Properties\<close>

text \<open>
  C30: the spend journal of a block is read back as it was written, whatever the block's transactions, one
  spent output per input.
\<close>

theorem spend_journal_roundtrip:
  assumes "key_lib_ok K" "bucket_ok B" "BlockHash L (Header block) \<noteq> []" "Transactions block \<noteq> []"
    "\<forall>x\<in>set stxos. stxo_ok x" "length stxos = num_inputs (tl (Transactions block))"
  shows "\<exists>db'. dbPutSpendJournalEntry K B db (BlockHash L (Header block)) stxos = Inr db'
    \<and> dbFetchSpendJournalEntry K L B db' block = Inr stxos"
proof -
  define v where "v = concat (map (stxo_bytes K) (rev stxos))"
  obtain db' where "Put B db (BlockHash L (Header block)) v = Inr db'" "Get B db' (BlockHash L (Header block)) = Some v"
    using bucket_put[OF assms(2,3)] by fastforce
  then show ?thesis
    using assms(4) journal_read_back[OF assms(1,5,6)]
    by (simp add: dbPutSpendJournalEntry_def serializeSpendJournalEntry_eq dbFetchSpendJournalEntry_def v_def)
qed

text \<open>
  An unspent entry written to the utxo set is fetched with its amount, script, height and coinbase flag
  and without the flags of the cache; no other outpoint changes.
\<close>

theorem utxo_entry_roundtrip:
  assumes "key_lib_ok K" "bucket_ok B" "op_ok outp" "entry_ok e" "\<not> IsSpent e"
  shows "\<exists>db'. dbPutUtxoEntry K B db outp (Some e) = Inr db'
    \<and> dbFetchUtxoEntry K B db' outp = Inr (Some (stored e))
    \<and> (\<forall>b. op_ok b \<longrightarrow> b \<noteq> outp \<longrightarrow> dbFetchUtxoEntry K B db' b = dbFetchUtxoEntry K B db b)"
  using dbPutUtxoEntry_fetch[OF assms] by metis

text \<open>
  The best chain state is read back as it was written when its hash has 32 bytes, its work sum is not
  negative and has fewer than \<open>2 ^ 32 - 48\<close> bytes.
\<close>

theorem best_state_roundtrip:
  assumes "length (bs_hash st) = 32" "0 \<le> bs_workSum st" "length (Bytes (bs_workSum st)) < 2 ^ 32 - 48"
  shows "\<exists>bs. serializeBestChainState st = Some bs \<and> deserializeBestChainState bs = Inr st"
proof -
  define ws where "ws = Bytes (bs_workSum st)"
  have n: "unat (of_nat (length ws) :: uint32) = length ws" using assms(3) by (simp add: ws_def unat_of_nat)
  have n48: "unat (48 + of_nat (length ws) :: uint32) = 48 + length ws"
    using n assms(3) by (subst unat_add_lem [THEN iffD1]) (simp_all add: ws_def)
  have ser: "serializeBestChainState st =
      Some (bs_hash st @ le32 (bs_height st) @ le64 (bs_totalTxns st) @ le32 (of_nat (length ws)) @ ws)"
    using assms(1) n n48 by (simp add: serializeBestChainState_def Let_def ws_def [symmetric] pad_to_def)
  have reads: "Uint32 (le32 (bs_height st)) = Some (bs_height st)" "Uint64 (le64 (bs_totalTxns st)) = Some (bs_totalTxns st)"
      "Uint32 (le32 (of_nat (length ws))) = Some (of_nat (length ws))"
    using Uint32_le32[of _ "[]"] Uint64_le64[of _ "[]"] by simp_all
  show ?thesis using assms(1,2) n n48 reads
    by (simp add: ser deserializeBestChainState_def slice_def SetBytes_Bytes[OF assms(2)] ws_def [symmetric])
      (simp add: ws_def SetBytes_Bytes)
qed

text \<open>
  After a block has been added to the index of the main chain its height is found by its hash and its
  hash by its height; after it has been removed neither is.
\<close>

theorem block_index_roundtrip:
  assumes "bucket_ok B" "length h = 32" "0 \<le> height" "height < 2 ^ 31"
  shows "\<exists>hi hei. dbPutBlockIndex B hashIndex heightIndex h height = Inr (hi, hei)
    \<and> dbFetchHeightByHash B hi h = Inr height \<and> dbFetchHashByHeight B hei height = Inr h
    \<and> (\<exists>hi' hei'. dbRemoveBlockIndex B hi hei h height = Inr (hi', hei')
        \<and> dbFetchHeightByHash B hi' h = Inl CalleeError \<and> dbFetchHashByHeight B hei' height = Inl CalleeError)"
proof -
  define k where "k = le32 (word_of_int height)"
  have ne: "h \<noteq> []" "k \<noteq> []" using assms(2) by (auto simp: k_def le32_def)
  obtain hi where hi: "Put B hashIndex h k = Inr hi" "Get B hi = (Get B hashIndex)(h := Some k)"
    using bucket_put[OF assms(1) ne(1)] by blast
  obtain hei where hei: "Put B heightIndex k h = Inr hei" "Get B hei = (Get B heightIndex)(k := Some h)"
    using bucket_put[OF assms(1) ne(2)] by blast
  obtain hi' where hi': "Delete B hi h = Inr hi'" "Get B hi' = (Get B hi)(h := None)"
    using bucket_delete[OF assms(1) ne(1)] by blast
  obtain hei' where hei': "Delete B hei k = Inr hei'" "Get B hei' = (Get B hei)(k := None)"
    using bucket_delete[OF assms(1) ne(2)] by blast
  have "Uint32 k = Some (word_of_int height)" using Uint32_le32[of _ "[]"] by (simp add: k_def)
  moreover have "sint (word_of_int height :: uint32) = height"
    using assms(3,4) by (simp add: signed_of_int signed_take_bit_int_eq_self)
  ultimately show ?thesis using hi hei hi' hei' assms(2)
    by (simp add: dbPutBlockIndex_def dbRemoveBlockIndex_def dbFetchHeightByHash_def dbFetchHashByHeight_def
        k_def [symmetric] pad_to_def)
qed

section \<open>A sample database\<close>

text \<open>Maps as buckets and a toy key library, on which the witnesses evaluate.\<close>

definition map_bucket :: "(byte list \<rightharpoonup> byte list) bucket_ops" where
  "map_bucket = \<lparr>Get = (\<lambda>db. db), Put = (\<lambda>db k v. Inr (db(k \<mapsto> v))), Delete = (\<lambda>db k. Inr (db(k := None))),
    Seek = (\<lambda>db k. None)\<rparr>"

lemma map_bucket_ok: "bucket_ok map_bucket"
  by (simp add: bucket_ok_def map_bucket_def)

definition sample_keys :: "(byte list \<times> bool) key_lib" where
  "sample_keys = \<lparr>ParsePubKey = sample_parse, SerializeUncompressed = sample_serialize\<rparr>"

lemma sample_keys_ok: "key_lib_ok sample_keys"
  by (simp add: key_lib_ok_def sample_keys_def sample_lib)

definition sample_entry :: UtxoEntry where
  "sample_entry = \<lparr>amount = 5000, pkScript = [0x51], blockHeight = 7, packedFlags = tfFresh OR tfModified\<rparr>"

definition sample_outpoint :: OutPoint where
  "sample_outpoint = \<lparr>op_Hash = replicate 32 1, op_Index = 0\<rparr>"

definition sample_block :: Block where
  "sample_block = \<lparr>Header = \<lparr>hVersion = 1, hPrevBlock = replicate 32 0, hMerkleRoot = replicate 32 7, hTimestamp = 0, hBits = 0, hNonce = 0\<rparr>,
    Transactions = [\<lparr>tx_Version = 1, tx_TxIn = [], tx_TxOut = [], LockTime = 0\<rparr>,
      \<lparr>tx_Version = 1, tx_TxIn = [\<lparr>PreviousOutPoint = sample_outpoint, SignatureScript = [], Witness = [], Sequence = 0\<rparr>],
       tx_TxOut = [\<lparr>Value = 5000, PkScript = [0x51]\<rparr>], LockTime = 0\<rparr>],
    blk_Height = 9\<rparr>"

definition header_root_lib :: wire_lib where
  "header_root_lib = \<lparr>BlockHash = hMerkleRoot, TxHash = (\<lambda>tx. replicate 31 0 @ [of_nat (length (tx_TxOut tx))]),
    WitnessHash = (\<lambda>tx. replicate 32 0), HasWitness = (\<lambda>tx. False), DoubleHash = take 32,
    txSizeStripped = (\<lambda>tx. 100), txSize = (\<lambda>tx. 100), blockSizeStripped = (\<lambda>b. 1000), blockSize = (\<lambda>b. 1000), MinTxOutPayload = 9,
    MaxSatoshi = 2100000000000000, SequenceLockTimeDisabled = 0x80000000, SequenceLockTimeIsSeconds = 0x400000,
    SequenceLockTimeMask = 0xffff, SequenceLockTimeGranularity = 9\<rparr>"

lemmas sample_simps = sample_block_def sample_outpoint_def sample_entry_def header_root_lib_def

theorem spend_journal_roundtrip_witness:
  "\<exists>db'. dbPutSpendJournalEntry sample_keys map_bucket Map.empty (replicate 32 7) [spent_details sample_entry] = Inr db'
    \<and> dbFetchSpendJournalEntry sample_keys header_root_lib map_bucket db' sample_block = Inr [spent_details sample_entry]"
  using spend_journal_roundtrip[OF sample_keys_ok map_bucket_ok, of header_root_lib sample_block "[spent_details sample_entry]" Map.empty]
  by (simp add: sample_simps spent_details_def stxo_ok_def num_inputs_def)

theorem utxo_entry_roundtrip_witness:
  "\<exists>db'. dbPutUtxoEntry sample_keys map_bucket Map.empty sample_outpoint (Some sample_entry) = Inr db'
    \<and> dbFetchUtxoEntry sample_keys map_bucket db' sample_outpoint = Inr (Some (stored sample_entry))"
  using utxo_entry_roundtrip[OF sample_keys_ok map_bucket_ok, of sample_outpoint sample_entry Map.empty]
  by (auto simp: op_ok_def sample_simps entry_ok_def flag_simps)

theorem best_state_roundtrip_witness:
  "\<exists>bs. serializeBestChainState \<lparr>bs_hash = replicate 32 1, bs_height = 10, bs_totalTxns = 20, bs_workSum = 30\<rparr> = Some bs
    \<and> deserializeBestChainState bs = Inr \<lparr>bs_hash = replicate 32 1, bs_height = 10, bs_totalTxns = 20, bs_workSum = 30\<rparr>"
  by (rule best_state_roundtrip) (simp_all add: Bytes_def nat_Bytes.simps)

theorem block_index_roundtrip_witness:
  "\<exists>hi hei. dbPutBlockIndex map_bucket Map.empty Map.empty (replicate 32 1) 5 = Inr (hi, hei)
    \<and> dbFetchHeightByHash map_bucket hi (replicate 32 1) = Inr 5 \<and> dbFetchHashByHeight map_bucket hei 5 = Inr (replicate 32 1)"
  using block_index_roundtrip[OF map_bucket_ok, of "replicate 32 1" 5 Map.empty Map.empty] by auto

end
