(* ===== verification/Utxo_View.thy ===== *)
theory Utxo_View
  imports Chain_Io "HOL-Library.AList"
begin

text \<open>
  Views of the utxo set (utxoviewpoint.go).  The map of a view is an association list without repeated keys,
  so that a loop over it is a loop over the list; Go visits the keys in any order, and nothing below depends
  on the order.  A key may be present with a \<open>nil\<close> entry.  \<open>coins\<close> is the set of unspent outputs a view shows;
  the locale \<open>coin_ledger\<close> states what adding and spending do to it, and its lemmas lift that to whole
  transactions, against the plain specification \<open>ledger_tx\<close>.
\<close>

section \<open>The code\<close>

record UtxoViewpoint =
  entries :: "(OutPoint \<times> UtxoEntry option) list"
  bestHash :: hash

definition NewUtxoViewpoint :: UtxoViewpoint where
  "NewUtxoViewpoint = \<lparr>entries = [], bestHash = zeroHash\<rparr>"

definition SetBestHash :: "hash \<Rightarrow> UtxoViewpoint \<Rightarrow> UtxoViewpoint" where
  "SetBestHash h view = view\<lparr>bestHash := h\<rparr>"

definition LookupEntry :: "UtxoViewpoint \<Rightarrow> OutPoint \<Rightarrow> UtxoEntry option" where
  "LookupEntry view outp = (case map_of (entries view) outp of None \<Rightarrow> None | Some e \<Rightarrow> e)"

definition FetchPrevOutput :: "UtxoViewpoint \<Rightarrow> OutPoint \<Rightarrow> TxOut option" where
  "FetchPrevOutput view op =
    (case LookupEntry view op of None \<Rightarrow> None | Some prevOut \<Rightarrow> Some \<lparr>Value = amount prevOut, PkScript = pkScript prevOut\<rparr>)"

text \<open>A write through the pointer stored under a key.\<close>

definition set_entry :: "OutPoint \<Rightarrow> UtxoEntry option \<Rightarrow> UtxoViewpoint \<Rightarrow> UtxoViewpoint" where
  "set_entry outp e view = view\<lparr>entries := AList.update outp e (entries view)\<rparr>"

definition view_addTxOut :: "OutPoint \<Rightarrow> TxOut \<Rightarrow> bool \<Rightarrow> int \<Rightarrow> UtxoViewpoint \<Rightarrow> UtxoViewpoint" where
  "view_addTxOut outp txOut isCoinBase height view =
    (if isUnspendable (PkScript txOut) then view
     else set_entry outp (Some (new_output txOut isCoinBase height)) view)"

definition AddTxOut :: "wire_lib \<Rightarrow> MsgTx \<Rightarrow> uint32 \<Rightarrow> int \<Rightarrow> UtxoViewpoint \<Rightarrow> UtxoViewpoint" where
  "AddTxOut L tx txOutIdx height view =
    (if txOutIdx \<ge> of_nat (length (tx_TxOut tx)) then view
     else view_addTxOut \<lparr>op_Hash = TxHash L tx, op_Index = txOutIdx\<rparr> (tx_TxOut tx ! unat txOutIdx) (IsCoinBase tx) height view)"

definition AddTxOuts :: "wire_lib \<Rightarrow> MsgTx \<Rightarrow> int \<Rightarrow> UtxoViewpoint \<Rightarrow> UtxoViewpoint" where
  "AddTxOuts L tx height view =
    fold (\<lambda>(txOutIdx, txOut). view_addTxOut (outpoint L tx txOutIdx) txOut (IsCoinBase tx) height)
      (enumerate 0 (tx_TxOut tx)) view"

text \<open>The pointer \<open>stxos\<close> may be \<open>nil\<close>; spending an input appends to the slice it points to.\<close>

definition view_spend ::
  "TxIn \<Rightarrow> UtxoViewpoint \<times> SpentTxOut list option \<Rightarrow> error + UtxoViewpoint \<times> SpentTxOut list option" where
  "view_spend txIn = (\<lambda>(view, stxos).
    case LookupEntry view (PreviousOutPoint txIn) of
      None \<Rightarrow> Inl (AssertError ''view missing input'')
    | Some entry \<Rightarrow>
        Inr (set_entry (PreviousOutPoint txIn) (Some (Spend entry)) view,
             map_option (\<lambda>l. l @ [spent_details entry]) stxos))"

definition view_connectTransaction ::
  "wire_lib \<Rightarrow> int \<Rightarrow> MsgTx \<Rightarrow> UtxoViewpoint \<times> SpentTxOut list option \<Rightarrow> error + UtxoViewpoint \<times> SpentTxOut list option" where
  "view_connectTransaction L height tx = (\<lambda>(view, stxos).
    if IsCoinBase tx then Inr (AddTxOuts L tx height view, stxos)
    else bindE (foldE view_spend (tx_TxIn tx) (view, stxos)) (\<lambda>(view, stxos).
           Inr (AddTxOuts L tx height view, stxos)))"

definition view_connectTransactions ::
  "wire_lib \<Rightarrow> Block \<Rightarrow> UtxoViewpoint \<times> SpentTxOut list option \<Rightarrow> error + UtxoViewpoint \<times> SpentTxOut list option" where
  "view_connectTransactions L block st =
    bindE (foldE (view_connectTransaction L (blk_Height block)) (Transactions block) st) (\<lambda>(view, stxos).
      Inr (SetBestHash (BlockHash L (Header block)) view, stxos))"

definition MaxBlockWeight :: nat where "MaxBlockWeight = 4000000"
definition WitnessScaleFactor :: nat where "WitnessScaleFactor = 4"

definition MinTxOutputWeight :: "wire_lib \<Rightarrow> nat" where
  "MinTxOutputWeight L = WitnessScaleFactor * MinTxOutPayload L"

definition MaxOutputsPerBlock :: "wire_lib \<Rightarrow> nat" where
  "MaxOutputsPerBlock L = MaxBlockWeight div MinTxOutputWeight L"

fun find_output :: "UtxoViewpoint \<Rightarrow> hash \<Rightarrow> nat \<Rightarrow> nat \<Rightarrow> UtxoEntry option" where
  "find_output view h idx 0 = None"
| "find_output view h idx (Suc n) =
    (case LookupEntry view \<lparr>op_Hash = h, op_Index = of_nat idx\<rparr> of
       Some entry \<Rightarrow> Some entry
     | None \<Rightarrow> find_output view h (idx + 1) n)"

definition fetchEntryByHash ::
  "'pk key_lib \<Rightarrow> wire_lib \<Rightarrow> 'db bucket_ops \<Rightarrow> 'db \<Rightarrow> UtxoViewpoint \<Rightarrow> hash \<Rightarrow> error + UtxoEntry option" where
  "fetchEntryByHash K L B db view h =
    (case find_output view h 0 (MaxOutputsPerBlock L) of
       Some entry \<Rightarrow> Inr (Some entry)
     | None \<Rightarrow> dbFetchUtxoEntryByHash K B db h)"

text \<open>\<open>None\<close>: slicing an empty list of transactions panics.\<close>

definition countSpentOutputs :: "Block \<Rightarrow> nat option" where
  "countSpentOutputs block =
    (if Transactions block = [] then None else Some (sum_list (map (\<lambda>tx. length (tx_TxIn tx)) (tl (Transactions block)))))"

text \<open>Mark the outputs of a transaction spent, creating entries that are not there.\<close>

definition unmake_output ::
  "wire_lib \<Rightarrow> MsgTx \<Rightarrow> bool \<Rightarrow> int \<Rightarrow> nat \<times> TxOut \<Rightarrow> UtxoViewpoint \<Rightarrow> UtxoViewpoint" where
  "unmake_output L tx isCoinBase height = (\<lambda>(txOutIdx, txOut) view.
    if isUnspendable (PkScript txOut) then view
    else let prevOut = outpoint L tx txOutIdx;
             entry = (case LookupEntry view prevOut of
                        Some e \<Rightarrow> e
                      | None \<Rightarrow> \<lparr>amount = Value txOut, pkScript = PkScript txOut, blockHeight = height,
                                  packedFlags = (if isCoinBase then tfCoinBase else 0)\<rparr>)
         in set_entry prevOut (Some (Spend entry)) view)"

text \<open>Restore one input from the journal; the index walks down the slice.\<close>

definition restore_input ::
  "'pk key_lib \<Rightarrow> wire_lib \<Rightarrow> 'db bucket_ops \<Rightarrow> 'db \<Rightarrow> hash \<Rightarrow> SpentTxOut list \<Rightarrow> TxIn
    \<Rightarrow> UtxoViewpoint \<times> int \<Rightarrow> error + UtxoViewpoint \<times> int" where
  "restore_input K L B db txHash stxos txIn = (\<lambda>(view, stxoIdx).
    if stxoIdx < 0 \<or> int (length stxos) \<le> stxoIdx then Inl Panic
    else let stxo = stxos ! nat stxoIdx;
             originOut = PreviousOutPoint txIn;
             view = (if LookupEntry view originOut = None
                     then set_entry originOut (Some \<lparr>amount = 0, pkScript = [], blockHeight = 0, packedFlags = 0\<rparr>) view
                     else view)
    in bindE (if so_Height stxo = 0
              then bindE (fetchEntryByHash K L B db view txHash) (\<lambda>utxo.
                     case utxo of
                       None \<Rightarrow> Inl (AssertError ''unable to resurrect legacy stxo'')
                     | Some u \<Rightarrow> Inr (stxo\<lparr>so_Height := blockHeight u, so_IsCoinBase := entry_IsCoinBase u\<rparr>))
              else Inr stxo) (\<lambda>stxo.
       Inr (set_entry originOut
              (Some \<lparr>amount = so_Amount stxo, pkScript = so_PkScript stxo, blockHeight = so_Height stxo,
                     packedFlags = (if so_IsCoinBase stxo then tfModified OR tfCoinBase else tfModified)\<rparr>) view,
            stxoIdx - 1)))"

definition disconnect_tx ::
  "'pk key_lib \<Rightarrow> wire_lib \<Rightarrow> 'db bucket_ops \<Rightarrow> 'db \<Rightarrow> int \<Rightarrow> SpentTxOut list \<Rightarrow> nat \<times> MsgTx
    \<Rightarrow> UtxoViewpoint \<times> int \<Rightarrow> error + UtxoViewpoint \<times> int" where
  "disconnect_tx K L B db height stxos = (\<lambda>(txIdx, tx) (view, stxoIdx).
    let isCoinBase = (txIdx = 0);
        view = fold (unmake_output L tx isCoinBase height) (enumerate 0 (tx_TxOut tx)) view
    in if isCoinBase then Inr (view, stxoIdx)
       else foldE (restore_input K L B db (TxHash L tx) stxos) (rev (tx_TxIn tx)) (view, stxoIdx))"

definition disconnectTransactions ::
  "'pk key_lib \<Rightarrow> wire_lib \<Rightarrow> 'db bucket_ops \<Rightarrow> 'db \<Rightarrow> Block \<Rightarrow> SpentTxOut list \<Rightarrow> UtxoViewpoint \<Rightarrow> error + UtxoViewpoint" where
  "disconnectTransactions K L B db block stxos view =
    (case countSpentOutputs block of
       None \<Rightarrow> Inl Panic
     | Some n \<Rightarrow>
         if length stxos \<noteq> n then Inl (AssertError ''disconnectTransactions called with bad spent transaction out information'')
         else bindE (foldE (disconnect_tx K L B db (blk_Height block) stxos)
                       (rev (enumerate 0 (Transactions block))) (view, int (length stxos) - 1)) (\<lambda>(view, _).
                Inr (SetBestHash (hPrevBlock (Header block)) view)))"

definition RemoveEntry :: "OutPoint \<Rightarrow> UtxoViewpoint \<Rightarrow> UtxoViewpoint" where
  "RemoveEntry outp view = view\<lparr>entries := AList.delete outp (entries view)\<rparr>"

definition commit :: "UtxoViewpoint \<Rightarrow> UtxoViewpoint" where
  "commit view = view\<lparr>entries := List.map_filter (\<lambda>(outp, entry).
     case entry of
       None \<Rightarrow> None
     | Some e \<Rightarrow> if isModified e \<and> IsSpent e then None
                else Some (outp, Some (e\<lparr>packedFlags := packedFlags e XOR tfModified\<rparr>))) (entries view)\<rparr>"

text \<open>The database part of a commit (chainio.go, \<open>dbPutUtxoView\<close>); a \<open>nil\<close> view writes nothing.\<close>

definition put_view_entry ::
  "'pk key_lib \<Rightarrow> 'db bucket_ops \<Rightarrow> OutPoint \<times> UtxoEntry option \<Rightarrow> 'db \<Rightarrow> error + 'db" where
  "put_view_entry K B = (\<lambda>(outp, entry) db.
    case entry of
      None \<Rightarrow> Inr db
    | Some e \<Rightarrow> if \<not> isModified e then Inr db
               else if IsSpent e then dbDeleteUtxoEntry B db outp
               else dbPutUtxoEntry K B db outp (Some e))"

definition dbPutUtxoView :: "'pk key_lib \<Rightarrow> 'db bucket_ops \<Rightarrow> 'db \<Rightarrow> UtxoViewpoint option \<Rightarrow> error + 'db" where
  "dbPutUtxoView K B db view = (case view of None \<Rightarrow> Inr db | Some v \<Rightarrow> foldE (put_view_entry K B) (entries v) db)"

text \<open>The outputs a block needs from outside itself; those it creates earlier are added to the view.\<close>

definition txInFlight :: "wire_lib \<Rightarrow> MsgTx list \<Rightarrow> hash \<rightharpoonup> nat" where
  "txInFlight L txs = fold (\<lambda>(i, tx) m. m(TxHash L tx \<mapsto> i)) (enumerate 0 txs) Map.empty"

definition find_input ::
  "wire_lib \<Rightarrow> Block \<Rightarrow> nat \<Rightarrow> TxIn \<Rightarrow> UtxoViewpoint \<times> OutPoint list \<Rightarrow> UtxoViewpoint \<times> OutPoint list" where
  "find_input L block i txIn = (\<lambda>(view, needed).
    case txInFlight L (Transactions block) (op_Hash (PreviousOutPoint txIn)) of
      Some inFlightIndex \<Rightarrow>
        if inFlightIndex \<le> i then (AddTxOuts L (Transactions block ! inFlightIndex) (blk_Height block) view, needed)
        else if map_of (entries view) (PreviousOutPoint txIn) \<noteq> None then (view, needed)
        else (view, needed @ [PreviousOutPoint txIn])
    | None \<Rightarrow>
        if map_of (entries view) (PreviousOutPoint txIn) \<noteq> None then (view, needed)
        else (view, needed @ [PreviousOutPoint txIn]))"

definition findInputsToFetch :: "wire_lib \<Rightarrow> Block \<Rightarrow> UtxoViewpoint \<Rightarrow> (UtxoViewpoint \<times> OutPoint list) option" where
  "findInputsToFetch L block view =
    (if Transactions block = [] then None
     else Some (fold (\<lambda>(i, tx). fold (find_input L block i) (tx_TxIn tx))
                  (enumerate 0 (tl (Transactions block))) (view, [])))"

section \<open>The ledger\<close>

type_synonym coins = "OutPoint \<rightharpoonup> coin"

definition coin_out :: "TxOut \<Rightarrow> bool \<Rightarrow> int \<Rightarrow> coin" where
  "coin_out txOut cb h = \<lparr>c_amount = Value txOut, c_script = PkScript txOut, c_height = h, c_coinbase = cb\<rparr>"

definition stxo_of :: "coin \<Rightarrow> SpentTxOut" where
  "stxo_of c = \<lparr>so_Amount = c_amount c, so_PkScript = c_script c, so_Height = c_height c, so_IsCoinBase = c_coinbase c\<rparr>"

definition inputs :: "MsgTx \<Rightarrow> OutPoint list" where
  "inputs tx = map PreviousOutPoint (tx_TxIn tx)"

definition ledger_add :: "OutPoint \<Rightarrow> TxOut \<Rightarrow> bool \<Rightarrow> int \<Rightarrow> coins \<Rightarrow> coins" where
  "ledger_add outp txOut cb h U = (if isUnspendable (PkScript txOut) then U else U(outp \<mapsto> coin_out txOut cb h))"

definition ledger_outs :: "wire_lib \<Rightarrow> int \<Rightarrow> MsgTx \<Rightarrow> coins \<Rightarrow> coins" where
  "ledger_outs L h tx U =
    fold (\<lambda>(i, txOut). ledger_add (outpoint L tx i) txOut (IsCoinBase tx) h) (enumerate 0 (tx_TxOut tx)) U"

text \<open>A transaction removes the coins it spends and adds the coins of its spendable outputs.\<close>

definition ledger_tx :: "wire_lib \<Rightarrow> int \<Rightarrow> MsgTx \<Rightarrow> coins \<Rightarrow> coins" where
  "ledger_tx L h tx U = ledger_outs L h tx (if IsCoinBase tx then U else U |` (- set (inputs tx)))"

text \<open>It can be applied when it spends distinct coins that are there.\<close>

definition tx_applies :: "MsgTx \<Rightarrow> coins \<Rightarrow> bool" where
  "tx_applies tx U \<longleftrightarrow> IsCoinBase tx \<or> distinct (inputs tx) \<and> set (inputs tx) \<subseteq> dom U"

definition tx_spent :: "MsgTx \<Rightarrow> coins \<Rightarrow> SpentTxOut list" where
  "tx_spent tx U = (if IsCoinBase tx then [] else map (\<lambda>p. stxo_of (the (U p))) (inputs tx))"

fun block_applies :: "wire_lib \<Rightarrow> int \<Rightarrow> MsgTx list \<Rightarrow> coins \<Rightarrow> bool" where
  "block_applies L h [] U \<longleftrightarrow> True"
| "block_applies L h (tx # txs) U \<longleftrightarrow> tx_applies tx U \<and> block_applies L h txs (ledger_tx L h tx U)"

fun block_spent :: "wire_lib \<Rightarrow> int \<Rightarrow> MsgTx list \<Rightarrow> coins \<Rightarrow> SpentTxOut list" where
  "block_spent L h [] U = []"
| "block_spent L h (tx # txs) U = tx_spent tx U @ block_spent L h txs (ledger_tx L h tx U)"

definition ledger_block :: "wire_lib \<Rightarrow> int \<Rightarrow> MsgTx list \<Rightarrow> coins \<Rightarrow> coins" where
  "ledger_block L h txs U = fold (ledger_tx L h) txs U"

text \<open>
  What a store of coins promises: adding an output changes the coins as \<open>ledger_add\<close> does, and spending a coin
  that is there removes it and reports it.  \<open>can_add\<close> and \<open>can_spend\<close> are the conditions under which the store
  makes these promises, \<open>inv\<close> is what it maintains.
\<close>

locale coin_ledger =
  fixes coins_of :: "'s \<Rightarrow> coins"
    and inv :: "'s \<Rightarrow> bool"
    and add_out :: "OutPoint \<Rightarrow> TxOut \<Rightarrow> bool \<Rightarrow> int \<Rightarrow> 's \<Rightarrow> error + 's"
    and spend :: "TxIn \<Rightarrow> 's \<times> SpentTxOut list option \<Rightarrow> error + 's \<times> SpentTxOut list option"
    and can_add :: "OutPoint \<Rightarrow> TxOut \<Rightarrow> int \<Rightarrow> bool"
    and can_spend :: "OutPoint \<Rightarrow> bool"
  assumes add_ledger: "inv s \<Longrightarrow> can_add outp txOut h \<Longrightarrow>
      \<exists>s'. add_out outp txOut cb h s = Inr s' \<and> inv s' \<and> coins_of s' = ledger_add outp txOut cb h (coins_of s)"
    and spend_ledger: "inv s \<Longrightarrow> can_spend (PreviousOutPoint txIn) \<Longrightarrow> coins_of s (PreviousOutPoint txIn) = Some c \<Longrightarrow>
      \<exists>s'. spend txIn (s, stxos) = Inr (s', map_option (\<lambda>l. l @ [stxo_of c]) stxos) \<and> inv s'
        \<and> coins_of s' = (coins_of s)(PreviousOutPoint txIn := None)"
begin

definition add_outs :: "wire_lib \<Rightarrow> MsgTx \<Rightarrow> int \<Rightarrow> 's \<Rightarrow> error + 's" where
  "add_outs L tx h = foldE (\<lambda>(i, txOut). add_out (outpoint L tx i) txOut (IsCoinBase tx) h) (enumerate 0 (tx_TxOut tx))"

definition connect :: "wire_lib \<Rightarrow> int \<Rightarrow> MsgTx \<Rightarrow> 's \<times> SpentTxOut list option \<Rightarrow> error + 's \<times> SpentTxOut list option" where
  "connect L h tx st = bindE (if IsCoinBase tx then Inr st else foldE spend (tx_TxIn tx) st) (\<lambda>(s, stxos).
    bindE (add_outs L tx h s) (\<lambda>s. Inr (s, stxos)))"

definition outs_ok :: "wire_lib \<Rightarrow> int \<Rightarrow> MsgTx \<Rightarrow> bool" where
  "outs_ok L h tx \<longleftrightarrow> (\<forall>i < length (tx_TxOut tx). can_add (outpoint L tx i) (tx_TxOut tx ! i) h)
    \<and> (IsCoinBase tx \<or> (\<forall>p \<in> set (inputs tx). can_spend p))"

lemma add_list_ledger:
  assumes "inv s" "\<forall>(i, txOut) \<in> set xs. can_add (outpoint L tx i) txOut h"
  shows "\<exists>s'. foldE (\<lambda>(i, txOut). add_out (outpoint L tx i) txOut cb h) xs s = Inr s' \<and> inv s'
    \<and> coins_of s' = fold (\<lambda>(i, txOut). ledger_add (outpoint L tx i) txOut cb h) xs (coins_of s)"
  using assms
proof (induction xs arbitrary: s)
  case (Cons x xs)
  obtain i txOut where x: "x = (i, txOut)" by (cases x)
  obtain s1 where s1: "add_out (outpoint L tx i) txOut cb h s = Inr s1" "inv s1"
      "coins_of s1 = ledger_add (outpoint L tx i) txOut cb h (coins_of s)"
    using add_ledger[of s "outpoint L tx i" txOut h cb] Cons.prems x by auto
  then show ?case using Cons.IH[of s1] Cons.prems(2) x by auto
qed simp

lemma spend_list_ledger:
  assumes "inv s" "distinct (map PreviousOutPoint ins)" "set (map PreviousOutPoint ins) \<subseteq> dom (coins_of s)"
    "\<forall>p \<in> set (map PreviousOutPoint ins). can_spend p"
  shows "\<exists>s'. foldE spend ins (s, stxos) =
      Inr (s', map_option (\<lambda>l. l @ map (\<lambda>p. stxo_of (the (coins_of s p))) (map PreviousOutPoint ins)) stxos)
    \<and> inv s' \<and> coins_of s' = coins_of s |` (- set (map PreviousOutPoint ins))"
  using assms
proof (induction ins arbitrary: s stxos)
  case Nil
  then show ?case by (cases stxos) simp_all
next
  case (Cons txIn ins)
  let ?p = "PreviousOutPoint txIn"
  obtain c where c: "coins_of s ?p = Some c" using Cons.prems(3) by auto
  obtain s1 where s1: "spend txIn (s, stxos) = Inr (s1, map_option (\<lambda>l. l @ [stxo_of c]) stxos)" "inv s1"
      "coins_of s1 = (coins_of s)(?p := None)"
    using spend_ledger[OF Cons.prems(1) _ c] Cons.prems(4) by auto
  have dom1: "set (map PreviousOutPoint ins) \<subseteq> dom (coins_of s1)"
    using Cons.prems(2,3) s1(3) by (auto, metis image_eqI)
  have tail: "distinct (map PreviousOutPoint ins)" "\<forall>p \<in> set (map PreviousOutPoint ins). can_spend p"
    using Cons.prems(2,4) by simp_all
  obtain s2 where s2: "foldE spend ins (s1, map_option (\<lambda>l. l @ [stxo_of c]) stxos) =
        Inr (s2, map_option (\<lambda>l. l @ map (\<lambda>p. stxo_of (the (coins_of s1 p))) (map PreviousOutPoint ins))
          (map_option (\<lambda>l. l @ [stxo_of c]) stxos))"
      "inv s2" "coins_of s2 = coins_of s1 |` (- set (map PreviousOutPoint ins))"
    using Cons.IH[OF s1(2) tail(1) dom1 tail(2), of "map_option (\<lambda>l. l @ [stxo_of c]) stxos"] by blast
  have same: "coins_of s1 (PreviousOutPoint t) = coins_of s (PreviousOutPoint t)" if "t \<in> set ins" for t
    using that Cons.prems(2) s1(3) by (auto, metis image_eqI)
  have "coins_of s2 = coins_of s |` (- set (map PreviousOutPoint (txIn # ins)))"
    using s2(3) s1(3) by (auto simp: restrict_map_def)
  then show ?case using s1(1) s2 c same by (cases stxos) (auto cong: map_cong)
qed

lemma connect_ledger:
  assumes "inv s" "tx_applies tx (coins_of s)" "outs_ok L h tx"
  shows "\<exists>s'. connect L h tx (s, stxos) = Inr (s', map_option (\<lambda>l. l @ tx_spent tx (coins_of s)) stxos)
    \<and> inv s' \<and> coins_of s' = ledger_tx L h tx (coins_of s)"
proof -
  have "\<exists>s1. (if IsCoinBase tx then Inr (s, stxos) else foldE spend (tx_TxIn tx) (s, stxos)) =
        Inr (s1, map_option (\<lambda>l. l @ tx_spent tx (coins_of s)) stxos)
      \<and> inv s1 \<and> coins_of s1 = (if IsCoinBase tx then coins_of s else coins_of s |` (- set (inputs tx)))"
    using assms spend_list_ledger[of s "tx_TxIn tx" stxos]
    by (cases stxos) (auto simp: tx_applies_def tx_spent_def inputs_def outs_ok_def comp_def)
  then obtain s1 where s1: "(if IsCoinBase tx then Inr (s, stxos) else foldE spend (tx_TxIn tx) (s, stxos)) =
        Inr (s1, map_option (\<lambda>l. l @ tx_spent tx (coins_of s)) stxos)"
      "inv s1" "coins_of s1 = (if IsCoinBase tx then coins_of s else coins_of s |` (- set (inputs tx)))" by blast
  have "\<exists>s'. add_outs L tx h s1 = Inr s' \<and> inv s' \<and> coins_of s' = ledger_outs L h tx (coins_of s1)"
    unfolding add_outs_def ledger_outs_def using assms(3)
    by (intro add_list_ledger s1(2)) (auto simp: in_set_enumerate_eq outs_ok_def)
  then show ?thesis using s1 by (auto simp: connect_def ledger_tx_def)
qed

lemma connect_block_ledger:
  assumes "inv s" "block_applies L h txs (coins_of s)" "\<forall>tx \<in> set txs. outs_ok L h tx"
  shows "\<exists>s'. foldE (connect L h) txs (s, stxos) = Inr (s', map_option (\<lambda>l. l @ block_spent L h txs (coins_of s)) stxos)
    \<and> inv s' \<and> coins_of s' = ledger_block L h txs (coins_of s)"
  using assms
proof (induction txs arbitrary: s stxos)
  case Nil
  then show ?case by (cases stxos) (simp_all add: ledger_block_def)
next
  case (Cons tx txs)
  obtain s1 where s1: "connect L h tx (s, stxos) = Inr (s1, map_option (\<lambda>l. l @ tx_spent tx (coins_of s)) stxos)"
      "inv s1" "coins_of s1 = ledger_tx L h tx (coins_of s)"
    using connect_ledger[of s tx L h stxos] Cons.prems by auto
  obtain s2 where "foldE (connect L h) txs (s1, map_option (\<lambda>l. l @ tx_spent tx (coins_of s)) stxos) =
        Inr (s2, map_option (\<lambda>l. l @ block_spent L h txs (coins_of s1)) (map_option (\<lambda>l. l @ tx_spent tx (coins_of s)) stxos))"
      "inv s2" "coins_of s2 = ledger_block L h txs (coins_of s1)"
    using Cons.IH[OF s1(2)] Cons.prems s1(3) by fastforce
  then show ?case using s1 by (cases stxos) (simp_all add: ledger_block_def)
qed

end

section \<open>Views as ledgers\<close>

definition view_coins :: "UtxoViewpoint \<Rightarrow> coins" where
  "view_coins view outp = live (LookupEntry view outp)"

lemma LookupEntry_set [simp]: "LookupEntry (set_entry outp e view) outp' = (if outp' = outp then e else LookupEntry view outp')"
  by (simp add: LookupEntry_def set_entry_def update_conv')

lemma LookupEntry_SetBestHash [simp]: "LookupEntry (SetBestHash h view) = LookupEntry view"
  by (rule ext) (simp add: LookupEntry_def SetBestHash_def)

lemma view_coins_set: "view_coins (set_entry outp e view) = (view_coins view)(outp := live e)"
  by (rule ext) (simp add: view_coins_def)

lemma view_coins_SetBestHash [simp]: "view_coins (SetBestHash h view) = view_coins view"
  by (rule ext) (simp add: view_coins_def)

lemma stxo_of_coin: "stxo_of (coin_of e) = spent_details e"
  by (simp add: stxo_of_def coin_of_def spent_details_def)

lemma view_coins_add: "view_coins (view_addTxOut outp txOut cb h view) = ledger_add outp txOut cb h (view_coins view)"
  by (simp add: view_addTxOut_def ledger_add_def view_coins_set coin_out_def)

definition view_add :: "OutPoint \<Rightarrow> TxOut \<Rightarrow> bool \<Rightarrow> int \<Rightarrow> UtxoViewpoint \<Rightarrow> error + UtxoViewpoint" where
  "view_add outp txOut cb h view = Inr (view_addTxOut outp txOut cb h view)"

interpretation view_ledger: coin_ledger view_coins "\<lambda>_. True" view_add view_spend "\<lambda>_ _ _. True" "\<lambda>_. True"
proof
  show "\<exists>s'. view_add outp txOut cb h s = Inr s' \<and> True \<and> view_coins s' = ledger_add outp txOut cb h (view_coins s)"
    for s outp txOut h cb by (simp add: view_add_def view_coins_add)
  show "\<exists>s'. view_spend txIn (s, stxos) = Inr (s', map_option (\<lambda>l. l @ [stxo_of c]) stxos) \<and> True
      \<and> view_coins s' = (view_coins s)(PreviousOutPoint txIn := None)"
    if c: "view_coins s (PreviousOutPoint txIn) = Some c" for s txIn c stxos
  proof -
    obtain e where e: "LookupEntry s (PreviousOutPoint txIn) = Some e" "coin_of e = c"
      using c by (auto simp: view_coins_def live_Some_iff)
    then show ?thesis by (simp add: view_spend_def view_coins_set stxo_of_coin [symmetric])
  qed
qed

lemma foldE_Inr: "foldE (\<lambda>x s. Inr (f x s)) xs s = Inr (fold f xs s)"
  by (induction xs arbitrary: s) simp_all

lemma view_add_outs: "view_ledger.add_outs L tx h view = Inr (AddTxOuts L tx h view)"
proof -
  have "(\<lambda>(i, txOut). view_add (outpoint L tx i) txOut (IsCoinBase tx) h)
      = (\<lambda>x s. Inr ((\<lambda>(i, txOut). view_addTxOut (outpoint L tx i) txOut (IsCoinBase tx) h) x s))"
    by (auto simp: view_add_def fun_eq_iff)
  then show ?thesis by (simp only: view_ledger.add_outs_def AddTxOuts_def foldE_Inr)
qed

lemma view_connect_eq: "view_connectTransaction L h = view_ledger.connect L h"
proof (intro ext)
  fix tx st
  show "view_connectTransaction L h tx st = view_ledger.connect L h tx st"
    by (cases st) (simp add: view_connectTransaction_def view_ledger.connect_def view_add_outs)
qed

lemma view_coins_AddTxOuts: "view_coins (AddTxOuts L tx h view) = ledger_outs L h tx (view_coins view)"
proof -
  have "view_coins (fold (\<lambda>(i, txOut). view_addTxOut (outpoint L tx i) txOut cb h) xs v)
      = fold (\<lambda>(i, txOut). ledger_add (outpoint L tx i) txOut cb h) xs (view_coins v)" for xs v cb
    by (induction xs arbitrary: v) (auto simp: view_coins_add)
  then show ?thesis by (simp add: AddTxOuts_def ledger_outs_def)
qed

lemma view_connect_block:
  assumes "block_applies L (blk_Height block) (Transactions block) (view_coins view)"
  shows "\<exists>view'. view_connectTransactions L block (view, stxos) =
      Inr (view', map_option (\<lambda>l. l @ block_spent L (blk_Height block) (Transactions block) (view_coins view)) stxos)
    \<and> view_coins view' = ledger_block L (blk_Height block) (Transactions block) (view_coins view)
    \<and> bestHash view' = BlockHash L (Header block)"
  using view_ledger.connect_block_ledger[OF TrueI assms, of stxos]
  by (auto simp: view_connectTransactions_def view_connect_eq view_ledger.outs_ok_def SetBestHash_def [abs_def])
    (simp_all flip: SetBestHash_def)

section \<open>Disconnecting a block undoes connecting it\<close>

text \<open>The outpoints a transaction creates.\<close>

definition out_ops :: "wire_lib \<Rightarrow> MsgTx \<Rightarrow> OutPoint set" where
  "out_ops L tx = {outpoint L tx i | i. i < length (tx_TxOut tx) \<and> \<not> isUnspendable (PkScript (tx_TxOut tx ! i))}"

definition spendable_ops :: "wire_lib \<Rightarrow> MsgTx \<Rightarrow> (nat \<times> TxOut) list \<Rightarrow> OutPoint set" where
  "spendable_ops L tx xs = {outpoint L tx i | i txOut. (i, txOut) \<in> set xs \<and> \<not> isUnspendable (PkScript txOut)}"

lemma spendable_ops_simps [simp]:
  "spendable_ops L tx [] = {}"
  "spendable_ops L tx ((i, txOut) # xs) =
    (if isUnspendable (PkScript txOut) then spendable_ops L tx xs else insert (outpoint L tx i) (spendable_ops L tx xs))"
  by (auto simp: spendable_ops_def)

lemma out_ops_enumerate: "out_ops L tx = spendable_ops L tx (enumerate 0 (tx_TxOut tx))"
  by (auto simp: out_ops_def spendable_ops_def in_set_enumerate_eq)

lemma ledger_outs_list_other:
  "p \<notin> spendable_ops L tx xs \<Longrightarrow> fold (\<lambda>(i, txOut). ledger_add (outpoint L tx i) txOut cb h) xs U p = U p"
  by (induction xs arbitrary: U) (auto simp: ledger_add_def split: if_splits)

lemma ledger_outs_other: "p \<notin> out_ops L tx \<Longrightarrow> ledger_outs L h tx U p = U p"
  by (simp add: ledger_outs_def out_ops_enumerate ledger_outs_list_other)

lemma view_coins_unmake_output:
  "view_coins (unmake_output L tx cb h (i, txOut) view) =
    (if isUnspendable (PkScript txOut) then view_coins view else (view_coins view)(outpoint L tx i := None))"
  by (simp add: unmake_output_def Let_def view_coins_set)

lemma view_coins_unmake:
  "view_coins (fold (unmake_output L tx cb h) xs view) p = (if p \<in> spendable_ops L tx xs then None else view_coins view p)"
proof (induction xs arbitrary: view)
  case (Cons x xs)
  then show ?case by (cases x) (simp add: view_coins_unmake_output)
qed simp

definition coin_of_stxo :: "SpentTxOut \<Rightarrow> coin" where
  "coin_of_stxo s = \<lparr>c_amount = so_Amount s, c_script = so_PkScript s, c_height = so_Height s, c_coinbase = so_IsCoinBase s\<rparr>"

lemma coin_of_stxo_of [simp]: "coin_of_stxo (stxo_of c) = c"
  by (simp add: coin_of_stxo_def stxo_of_def)

lemma restore_input_coin:
  assumes "n < length stxos" "so_Height (stxos ! n) \<noteq> 0"
  shows "\<exists>view'. restore_input K L B db txHash stxos txIn (view, int n) = Inr (view', int n - 1)
    \<and> view_coins view' = (view_coins view)(PreviousOutPoint txIn \<mapsto> coin_of_stxo (stxos ! n))"
proof -
  have "live (Some \<lparr>amount = a, pkScript = s, blockHeight = h, packedFlags = (if cb then tfModified OR tfCoinBase else tfModified)\<rparr>)
      = Some \<lparr>c_amount = a, c_script = s, c_height = h, c_coinbase = cb\<rparr>" for a s h cb
    by (subst live_simps) (simp_all add: flag_simps coin_of_def)
  then show ?thesis using assms by (auto simp: restore_input_def Let_def view_coins_set coin_of_stxo_def)
qed

lemma restore_inputs_coins:
  assumes "stxos = pre @ map (\<lambda>p. stxo_of (the (U p))) (map PreviousOutPoint ins) @ post"
    "set (map PreviousOutPoint ins) \<subseteq> dom U" "\<forall>p \<in> set (map PreviousOutPoint ins). c_height (the (U p)) \<noteq> 0"
  shows "\<exists>view'. foldE (restore_input K L B db txHash stxos) (rev ins) (view, int (length pre + length ins) - 1)
      = Inr (view', int (length pre) - 1)
    \<and> view_coins view' = (\<lambda>p. if p \<in> set (map PreviousOutPoint ins) then U p else view_coins view p)"
  using assms
proof (induction ins arbitrary: view post rule: rev_induct)
  case (snoc x ins)
  define n where "n = length pre + length ins"
  have n: "n < length stxos" "stxos ! n = stxo_of (the (U (PreviousOutPoint x)))"
    using snoc.prems(1) by (simp_all add: n_def nth_append)
  have ht: "so_Height (stxos ! n) \<noteq> 0" using n(2) snoc.prems(3) by (simp add: stxo_of_def)
  obtain view1 where v1: "restore_input K L B db txHash stxos x (view, int n) = Inr (view1, int n - 1)"
      "view_coins view1 = (view_coins view)(PreviousOutPoint x \<mapsto> the (U (PreviousOutPoint x)))"
    using restore_input_coin[OF n(1) ht, of K L B db txHash x view] n(2) by auto
  obtain c where c: "U (PreviousOutPoint x) = Some c" using snoc.prems(2) by auto
  obtain view2 where v2: "foldE (restore_input K L B db txHash stxos) (rev ins) (view1, int n - 1) = Inr (view2, int (length pre) - 1)"
      "view_coins view2 = (\<lambda>p. if p \<in> set (map PreviousOutPoint ins) then U p else view_coins view1 p)"
    using snoc.IH[of "stxo_of (the (U (PreviousOutPoint x))) # post" view1] snoc.prems by (auto simp: n_def)
  have "int (length pre + length (ins @ [x])) - 1 = int n" by (simp add: n_def)
  then show ?case using v1 v2 c by (auto simp: fun_eq_iff)
qed (simp add: fun_eq_iff)

text \<open>A transaction that overwrites no coin is undone by one step of the loop of \<open>disconnectTransactions\<close>.\<close>

lemma disconnect_tx_undo:
  assumes "tx_applies tx U" "out_ops L tx \<inter> dom U = {}" "IsCoinBase tx \<longleftrightarrow> k = 0" "view_coins view = ledger_tx L h tx U"
    "stxos = pre @ tx_spent tx U @ post" "\<forall>s \<in> set (tx_spent tx U). so_Height s \<noteq> 0"
  shows "\<exists>view'. disconnect_tx K L B db h stxos (k, tx) (view, int (length (pre @ tx_spent tx U)) - 1)
      = Inr (view', int (length pre) - 1) \<and> view_coins view' = U"
proof -
  define view1 where "view1 = fold (unmake_output L tx (k = 0) h) (enumerate 0 (tx_TxOut tx)) view"
  have v1: "view_coins view1 p = (if p \<in> out_ops L tx then None else ledger_tx L h tx U p)" for p
    by (simp add: view1_def view_coins_unmake out_ops_enumerate assms(4))
  have fresh: "U p = None" if "p \<in> out_ops L tx" for p using that assms(2) by auto
  show ?thesis
  proof (cases "k = 0")
    case True
    then have "view_coins view1 = U"
      using v1 fresh assms(3) by (auto simp: fun_eq_iff ledger_tx_def ledger_outs_other)
    then show ?thesis using True assms(3) by (simp add: disconnect_tx_def Let_def view1_def tx_spent_def)
  next
    case False
    then have nc: "\<not> IsCoinBase tx" using assms(3) by simp
    then have ins: "set (map PreviousOutPoint (tx_TxIn tx)) \<subseteq> dom U"
      and spent: "tx_spent tx U = map (\<lambda>p. stxo_of (the (U p))) (map PreviousOutPoint (tx_TxIn tx))"
      using assms(1) by (simp_all add: tx_applies_def tx_spent_def inputs_def)
    obtain view' where view': "foldE (restore_input K L B db (TxHash L tx) stxos) (rev (tx_TxIn tx))
          (view1, int (length pre + length (tx_TxIn tx)) - 1) = Inr (view', int (length pre) - 1)"
        "view_coins view' = (\<lambda>p. if p \<in> set (map PreviousOutPoint (tx_TxIn tx)) then U p else view_coins view1 p)"
      using restore_inputs_coins[of stxos pre U "tx_TxIn tx" post K L B db "TxHash L tx" view1] ins assms(5,6)
      unfolding spent by (auto simp: stxo_of_def)
    have "view_coins view' = U"
      using view'(2) v1 fresh nc by (auto simp: fun_eq_iff ledger_tx_def ledger_outs_other inputs_def)
    then show ?thesis using False view'(1) by (simp add: disconnect_tx_def Let_def view1_def spent)
  qed
qed

fun no_overwrite :: "wire_lib \<Rightarrow> int \<Rightarrow> MsgTx list \<Rightarrow> coins \<Rightarrow> bool" where
  "no_overwrite L h [] U \<longleftrightarrow> True"
| "no_overwrite L h (tx # txs) U \<longleftrightarrow> out_ops L tx \<inter> dom U = {} \<and> no_overwrite L h txs (ledger_tx L h tx U)"

lemma ledger_block_snoc: "ledger_block L h (ts @ [t]) U = ledger_tx L h t (ledger_block L h ts U)"
  by (simp add: ledger_block_def)

lemma block_applies_snoc:
  "block_applies L h (ts @ [t]) U \<longleftrightarrow> block_applies L h ts U \<and> tx_applies t (ledger_block L h ts U)"
  by (induction ts arbitrary: U) (simp_all add: ledger_block_def)

lemma no_overwrite_snoc:
  "no_overwrite L h (ts @ [t]) U \<longleftrightarrow> no_overwrite L h ts U \<and> out_ops L t \<inter> dom (ledger_block L h ts U) = {}"
  by (induction ts arbitrary: U) (simp_all add: ledger_block_def)

lemma block_spent_snoc: "block_spent L h (ts @ [t]) U = block_spent L h ts U @ tx_spent t (ledger_block L h ts U)"
  by (induction ts arbitrary: U) (simp_all add: ledger_block_def)

lemmas block_snoc = ledger_block_snoc block_applies_snoc no_overwrite_snoc block_spent_snoc

definition coinbase_first :: "MsgTx list \<Rightarrow> bool" where
  "coinbase_first txs \<longleftrightarrow> (\<forall>i < length txs. IsCoinBase (txs ! i) \<longleftrightarrow> i = 0)"

lemma disconnect_loop_undo:
  assumes "block_applies L h txs U" "no_overwrite L h txs U" "coinbase_first txs"
    "view_coins view = ledger_block L h txs U" "stxos = block_spent L h txs U @ post"
    "\<forall>s \<in> set (block_spent L h txs U). so_Height s \<noteq> 0"
  shows "\<exists>view'. foldE (disconnect_tx K L B db h stxos) (rev (enumerate 0 txs)) (view, int (length (block_spent L h txs U)) - 1)
      = Inr (view', - 1) \<and> view_coins view' = U"
  using assms
proof (induction txs arbitrary: view post rule: rev_induct)
  case Nil
  then show ?case by (simp add: ledger_block_def)
next
  case (snoc t ts)
  let ?U = "ledger_block L h ts U"
  have cb: "coinbase_first ts" "IsCoinBase t \<longleftrightarrow> length ts = 0"
    using snoc.prems(3) by (auto simp: coinbase_first_def nth_append less_Suc_eq)
  obtain view1 where v1: "disconnect_tx K L B db h stxos (length ts, t)
        (view, int (length (block_spent L h ts U @ tx_spent t ?U)) - 1) = Inr (view1, int (length (block_spent L h ts U)) - 1)"
      "view_coins view1 = ?U"
    using disconnect_tx_undo[of t ?U L "length ts" view h stxos "block_spent L h ts U" post K B db] snoc.prems cb(2)
    by (auto simp: block_snoc)
  obtain view2 where "foldE (disconnect_tx K L B db h stxos) (rev (enumerate 0 ts)) (view1, int (length (block_spent L h ts U)) - 1)
      = Inr (view2, - 1)" "view_coins view2 = U"
    using snoc.IH[of view1 "tx_spent t ?U @ post"] snoc.prems cb(1) v1(2) by (auto simp: block_snoc)
  then show ?case using v1(1) by (simp add: block_snoc enumerate_append_eq)
qed

lemma length_block_spent:
  assumes "coinbase_first txs"
  shows "length (block_spent L h txs U) = num_inputs (tl txs)"
proof -
  have len: "length (block_spent L h ts V) = num_inputs ts" if "\<forall>t\<in>set ts. \<not> IsCoinBase t" for ts V
    using that by (induction ts arbitrary: V) (simp_all add: num_inputs_def tx_spent_def inputs_def)
  show ?thesis
  proof (cases txs)
    case (Cons t ts)
    have "IsCoinBase t" using assms Cons by (auto simp: coinbase_first_def)
    moreover have "\<forall>x\<in>set ts. \<not> IsCoinBase x"
      using assms Cons by (fastforce simp: coinbase_first_def in_set_conv_nth)
    ultimately show ?thesis using Cons len by (simp add: tx_spent_def)
  qed (simp add: num_inputs_def)
qed

section \<open>Properties\<close>

text \<open>
  C4: connecting a block to a view changes the unspent outputs it shows as the ledger prescribes: the inputs
  of every transaction are removed, the spendable outputs added, transaction by transaction.  The spent
  outputs are appended to the journal in the order of the inputs, and the view moves to the block.
\<close>

theorem connectTransactions_ledger:
  assumes "block_applies L (blk_Height block) (Transactions block) (view_coins view)"
  shows "\<exists>view'. view_connectTransactions L block (view, stxos) =
      Inr (view', map_option (\<lambda>l. l @ block_spent L (blk_Height block) (Transactions block) (view_coins view)) stxos)
    \<and> view_coins view' = ledger_block L (blk_Height block) (Transactions block) (view_coins view)
    \<and> bestHash view' = BlockHash L (Header block)"
  using assms by (rule view_connect_block)

text \<open>
  C5: disconnecting a block right after connecting it, with the journal that connecting produced, restores
  the unspent outputs of the view.  The block must spend coins that are there, overwrite none (BIP 30), have
  its coinbase first and only there, and spend no coin of height zero, the mark of the legacy journal.
\<close>

theorem disconnect_undoes_connect:
  assumes "block_applies L (blk_Height block) (Transactions block) (view_coins view)"
    "no_overwrite L (blk_Height block) (Transactions block) (view_coins view)"
    "Transactions block \<noteq> []" "coinbase_first (Transactions block)"
    "\<forall>s \<in> set (block_spent L (blk_Height block) (Transactions block) (view_coins view)). so_Height s \<noteq> 0"
  shows "\<exists>view1 stxos view2. view_connectTransactions L block (view, Some []) = Inr (view1, Some stxos)
    \<and> disconnectTransactions K L B db block stxos view1 = Inr view2
    \<and> view_coins view2 = view_coins view \<and> bestHash view2 = hPrevBlock (Header block)"
proof -
  define h txs U where "h = blk_Height block" and "txs = Transactions block" and "U = view_coins view"
  note defs = h_def [symmetric] txs_def [symmetric] U_def [symmetric]
  obtain view1 where v1: "view_connectTransactions L block (view, Some []) = Inr (view1, Some (block_spent L h txs U))"
      "view_coins view1 = ledger_block L h txs U"
    using view_connect_block[OF assms(1), of "Some []"] by (auto simp: defs)
  obtain view2 where v2: "foldE (disconnect_tx K L B db h (block_spent L h txs U)) (rev (enumerate 0 txs))
        (view1, int (length (block_spent L h txs U)) - 1) = Inr (view2, - 1)" "view_coins view2 = U"
    using disconnect_loop_undo[of L h txs U view1 "block_spent L h txs U" "[]" K B db] assms v1(2) by (auto simp: defs)
  have "countSpentOutputs block = Some (length (block_spent L h txs U))"
    using assms(3,4) length_block_spent[of txs L h U] by (simp add: countSpentOutputs_def num_inputs_def defs)
  then have "disconnectTransactions K L B db block (block_spent L h txs U) view1 = Inr (SetBestHash (hPrevBlock (Header block)) view2)"
    using v2(1) by (simp add: disconnectTransactions_def defs)
  then show ?thesis using v1(1) v2(2) by (auto simp: U_def SetBestHash_def view_coins_def LookupEntry_def fun_eq_iff)
qed

text \<open>
  \<open>commit\<close> removes the entries that are modified and spent, and toggles the modified flag of the
  others: a modified entry becomes unmodified, but an entry that was not modified is marked modified.
\<close>

theorem commit_toggles:
  assumes "distinct (map fst (entries view))"
  shows "LookupEntry (commit view) outp =
    (case LookupEntry view outp of
       None \<Rightarrow> None
     | Some e \<Rightarrow> if isModified e \<and> IsSpent e then None else Some (e\<lparr>packedFlags := packedFlags e XOR tfModified\<rparr>))
    \<and> (\<forall>e. LookupEntry view outp = Some e \<longrightarrow> \<not> (isModified e \<and> IsSpent e) \<longrightarrow>
         isModified (the (LookupEntry (commit view) outp)) = (\<not> isModified e))"
proof -
  define f where "f = (\<lambda>(outp :: OutPoint, entry). case entry of
       None \<Rightarrow> None
     | Some e \<Rightarrow> if isModified e \<and> IsSpent e then None
                else Some (outp, Some (e\<lparr>packedFlags := packedFlags e XOR tfModified\<rparr>)))"
  have keys: "fst ` set (List.map_filter f es) \<subseteq> fst ` set es" for es
    by (force simp: map_filter_def f_def split: option.splits if_splits)
  have "map_of (List.map_filter f es) outp =
      (case map_of es outp of Some (Some e) \<Rightarrow> map_option snd (f (outp, Some e)) | _ \<Rightarrow> None)"
    if "distinct (map fst es)" for es
    using that
  proof (induction es)
    case (Cons x es)
    obtain p e where x: "x = (p, e)" by (cases x)
    have "map_of (List.map_filter f es) p = None" using Cons.prems keys[of es] x by (auto simp: map_of_eq_None_iff)
    then show ?case using Cons x by (auto simp: map_filter_simps f_def split: option.splits)
  qed (simp add: map_filter_simps)
  from this[OF assms] show ?thesis
    by (auto simp: LookupEntry_def commit_def f_def [symmetric] flag_bits bit_flag_consts bit_xor_iff split: option.splits)
       (auto simp: f_def flag_bits bit_flag_consts bit_xor_iff split: if_splits)
qed

section \<open>A sample block\<close>

text \<open>A coinbase and a transaction that spends the only coin of the view.\<close>

definition sample_view :: UtxoViewpoint where
  "sample_view = \<lparr>entries = [(sample_outpoint, Some sample_entry)], bestHash = replicate 32 0\<rparr>"

definition sample_coinbase :: MsgTx where
  "sample_coinbase = \<lparr>tx_Version = 1,
    tx_TxIn = [\<lparr>PreviousOutPoint = \<lparr>op_Hash = zeroHash, op_Index = maxUint32\<rparr>, SignatureScript = [1, 8], Witness = [], Sequence = maxUint32\<rparr>],
    tx_TxOut = [\<lparr>Value = 100, PkScript = [0x51]\<rparr>], LockTime = 0\<rparr>"

definition sample_spend :: MsgTx where
  "sample_spend = \<lparr>tx_Version = 1,
    tx_TxIn = [\<lparr>PreviousOutPoint = sample_outpoint, SignatureScript = [], Witness = [], Sequence = maxUint32\<rparr>],
    tx_TxOut = [\<lparr>Value = 3000, PkScript = [0x51]\<rparr>, \<lparr>Value = 2000, PkScript = [0x52]\<rparr>], LockTime = 0\<rparr>"

definition spend_block :: Block where
  "spend_block = \<lparr>Header = Header sample_block, Transactions = [sample_coinbase, sample_spend], blk_Height = 8\<rparr>"

lemma sample_coinbases: "IsCoinBase sample_coinbase" "\<not> IsCoinBase sample_spend"
  by (simp_all add: IsCoinBase_null sample_coinbase_def sample_spend_def isNullOutpoint_def sample_outpoint_def maxUint32_def)

lemma sample_outs_distinct:
  "outpoint header_root_lib sample_coinbase i \<noteq> sample_outpoint" "outpoint header_root_lib sample_spend i \<noteq> sample_outpoint"
  "outpoint header_root_lib sample_coinbase i \<noteq> outpoint header_root_lib sample_spend j"
  by (simp_all add: outpoint_def header_root_lib_def sample_coinbase_def sample_spend_def sample_outpoint_def
      numeral_eq_Suc)

lemma sample_view_coins: "view_coins sample_view = [sample_outpoint \<mapsto> coin_of sample_entry]"
  by (rule ext) (simp add: view_coins_def LookupEntry_def sample_view_def live_def sample_entry_def flag_simps)

lemma sample_out_ops:
  "out_ops header_root_lib sample_coinbase = {outpoint header_root_lib sample_coinbase 0}"
  "out_ops header_root_lib sample_spend = {outpoint header_root_lib sample_spend 0, outpoint header_root_lib sample_spend 1}"
  by (auto simp: out_ops_enumerate sample_coinbase_def sample_spend_def isUnspendable_def)

lemma sample_ledger:
  "ledger_tx header_root_lib 8 sample_coinbase [sample_outpoint \<mapsto> c]
    = [sample_outpoint \<mapsto> c, outpoint header_root_lib sample_coinbase 0 \<mapsto> coin_out \<lparr>Value = 100, PkScript = [0x51]\<rparr> True 8]"
  by (simp add: ledger_tx_def ledger_outs_def sample_coinbases ledger_add_def isUnspendable_def)
    (simp add: sample_coinbase_def ledger_add_def isUnspendable_def)

lemma spend_block_ok:
  "block_applies header_root_lib (blk_Height spend_block) (Transactions spend_block) (view_coins sample_view)"
  "no_overwrite header_root_lib (blk_Height spend_block) (Transactions spend_block) (view_coins sample_view)"
  "coinbase_first (Transactions spend_block)"
  using sample_outs_distinct
  by (simp_all add: sample_view_coins spend_block_def sample_ledger tx_applies_def sample_coinbases sample_out_ops
      coinbase_first_def less_Suc_eq)
    (simp_all add: inputs_def sample_spend_def)

lemma spend_block_spent:
  "block_spent header_root_lib (blk_Height spend_block) (Transactions spend_block) (view_coins sample_view) = [spent_details sample_entry]"
  by (simp add: sample_view_coins spend_block_def sample_ledger tx_spent_def sample_coinbases sample_outs_distinct
      inputs_def sample_outs_distinct [symmetric] stxo_of_coin)
    (simp add: sample_spend_def sample_outs_distinct sample_outs_distinct [symmetric] stxo_of_coin)

theorem connectTransactions_ledger_witness:
  "\<exists>view'. view_connectTransactions header_root_lib spend_block (sample_view, Some []) = Inr (view', Some [spent_details sample_entry])
    \<and> bestHash view' = replicate 32 7"
  using connectTransactions_ledger[OF spend_block_ok(1), of "Some []"] unfolding spend_block_spent
  by (auto simp: spend_block_def sample_block_def header_root_lib_def)

theorem disconnect_undoes_connect_witness:
  "\<exists>view1 stxos view2. view_connectTransactions header_root_lib spend_block (sample_view, Some []) = Inr (view1, Some stxos)
    \<and> disconnectTransactions sample_keys header_root_lib map_bucket Map.empty spend_block stxos view1 = Inr view2
    \<and> view_coins view2 = [sample_outpoint \<mapsto> coin_of sample_entry] \<and> bestHash view2 = replicate 32 0"
proof -
  have ne: "Transactions spend_block \<noteq> []"
    and nz: "\<forall>s \<in> set (block_spent header_root_lib (blk_Height spend_block) (Transactions spend_block) (view_coins sample_view)). so_Height s \<noteq> 0"
    and hp: "hPrevBlock (Header spend_block) = replicate 32 0"
    unfolding spend_block_spent by (simp_all add: spend_block_def spent_details_def sample_entry_def sample_block_def)
  show ?thesis
    using disconnect_undoes_connect[OF spend_block_ok(1,2) ne spend_block_ok(3) nz, of sample_keys map_bucket Map.empty]
    unfolding hp sample_view_coins by blast
qed

theorem commit_toggles_witness:
  "LookupEntry (commit sample_view) sample_outpoint = Some (sample_entry\<lparr>packedFlags := tfFresh\<rparr>)"
proof -
  have "(tfFresh OR tfModified) XOR tfModified = tfFresh" by (simp add: tfFresh_def tfModified_def)
  then show ?thesis using commit_toggles[of sample_view sample_outpoint]
    by (simp add: LookupEntry_def sample_view_def flag_bits bit_flag_consts bit_or_iff sample_entry_def)
qed

end
