(* ===== verification/Size_Helper.thy ===== *)
theory Size_Helper
  imports Nogo_Prelude
begin

text \<open>
  The estimates of map sizes (sizehelper.go) that the utxo cache uses.  \<open>uintptr\<close> is a 64-bit word.  The
  conversion \<open>uint8(math.Log2(float64(n)))\<close> is an argument \<open>log2\<close>: nothing proved here or in the cache depends on
  how it rounds.  The loop that looks for the number of buckets is a \<open>partial_function\<close>; the theorem shows that it
  returns, with the least exponent that keeps the load factor.
\<close>

section \<open>The code\<close>

definition outpointSize :: nat where "outpointSize = 36"
definition uint64Size :: nat where "uint64Size = 8"
definition bucketSize :: nat where "bucketSize = 16 + uint64Size * outpointSize + uint64Size * uint64Size"
definition baseEntrySize :: nat where "baseEntrySize = 40"
definition pubKeyHashLen :: nat where "pubKeyHashLen = 25"
definition avgEntrySize :: nat where "avgEntrySize = baseEntrySize + (pubKeyHashLen + 7)"

definition MaxSmallSize :: uint64 where "MaxSmallSize = 32768"
definition smallSizeDiv :: uint64 where "smallSizeDiv = 8"
definition smallSizeMax :: uint64 where "smallSizeMax = 1024"
definition largeSizeDiv :: uint64 where "largeSizeDiv = 128"
definition PageSize :: uint64 where "PageSize = 8192"
definition bucketCnt :: int where "bucketCnt = 8"
definition loadFactorNum :: uint64 where "loadFactorNum = 13"
definition loadFactorDen :: uint64 where "loadFactorDen = 2"
definition maxAlloc :: uint64 where "maxAlloc = 2 ^ 40"

definition class_to_size :: "uint64 list" where
  "class_to_size = [0, 8, 16, 24, 32, 48, 64, 80, 96, 112, 128, 144, 160, 176, 192, 208, 224, 240, 256, 288, 320, 352, 384, 416,
    448, 480, 512, 576, 640, 704, 768, 896, 1024, 1152, 1280, 1408, 1536, 1792, 2048, 2304, 2688, 3072, 3200, 3456, 4096, 4864, 5376,
    6144, 6528, 6784, 6912, 8192, 9472, 9728, 10240, 10880, 12288, 13568, 14336, 16384, 18432, 19072, 20480, 21760, 24576, 27264,
    28672, 32768]"

definition size_to_class8 :: "nat list" where
  "size_to_class8 = [0, 1, 2, 3, 4, 5, 5, 6, 6, 7, 7, 8, 8, 9, 9, 10, 10, 11, 11, 12, 12, 13, 13, 14, 14, 15, 15, 16, 16, 17, 17, 18, 18, 19,
    19, 19, 19, 20, 20, 20, 20, 21, 21, 21, 21, 22, 22, 22, 22, 23, 23, 23, 23, 24, 24, 24, 24, 25, 25, 25, 25, 26, 26, 26,
    26, 27, 27, 27, 27, 27, 27, 27, 27, 28, 28, 28, 28, 28, 28, 28, 28, 29, 29, 29, 29, 29, 29, 29, 29, 30, 30, 30, 30, 30,
    30, 30, 30, 31, 31, 31, 31, 31, 31, 31, 31, 31, 31, 31, 31, 31, 31, 31, 31, 32, 32, 32, 32, 32, 32, 32, 32, 32, 32, 32,
    32, 32, 32, 32, 32]"

definition size_to_class128 :: "nat list" where
  "size_to_class128 = [32, 33, 34, 35, 36, 37, 37, 38, 38, 39, 39, 40, 40, 40, 41, 41, 41, 42, 43, 43, 44, 44, 44, 44, 44, 45, 45, 45, 45, 45,
    45, 46, 46, 46, 46, 47, 47, 47, 47, 47, 47, 48, 48, 48, 49, 49, 50, 51, 51, 51, 51, 51, 51, 51, 51, 51, 51, 52, 52, 52,
    52, 52, 52, 52, 52, 52, 52, 53, 53, 54, 54, 54, 54, 55, 55, 55, 55, 55, 56, 56, 56, 56, 56, 56, 56, 56, 56, 56, 56, 57,
    57, 57, 57, 57, 57, 57, 57, 57, 57, 58, 58, 58, 58, 58, 58, 59, 59, 59, 59, 59, 59, 59, 59, 59, 59, 59, 59, 59, 59, 59,
    59, 60, 60, 60, 60, 60, 60, 60, 60, 60, 60, 60, 60, 60, 60, 60, 60, 61, 61, 61, 61, 61, 62, 62, 62, 62, 62, 62, 62, 62,
    62, 62, 62, 63, 63, 63, 63, 63, 63, 63, 63, 63, 63, 64, 64, 64, 64, 64, 64, 64, 64, 64, 64, 64, 64, 64, 64, 64, 64, 64,
    64, 64, 64, 64, 64, 65, 65, 65, 65, 65, 65, 65, 65, 65, 65, 65, 65, 65, 65, 65, 65, 65, 65, 65, 65, 65, 66, 66, 66, 66,
    66, 66, 66, 66, 66, 66, 66, 67, 67, 67, 67, 67, 67, 67, 67, 67, 67, 67, 67, 67, 67, 67, 67, 67, 67, 67, 67, 67, 67, 67,
    67, 67, 67, 67, 67, 67, 67, 67, 67]"

definition divRoundUp :: "uint64 \<Rightarrow> uint64 \<Rightarrow> uint64" where
  "divRoundUp n a = (n + a - 1) div a"

definition alignUp :: "uint64 \<Rightarrow> uint64 \<Rightarrow> uint64" where
  "alignUp n a = (n + a - 1) AND NOT (a - 1)"

definition bucketShift :: "nat \<Rightarrow> uint64" where
  "bucketShift b = push_bit (b mod 64) 1"

text \<open>\<open>None\<close> would be an index out of range in the tables.\<close>

definition table_get :: "'a list \<Rightarrow> nat \<Rightarrow> 'a option" where
  "table_get t i = (if i < length t then Some (t ! i) else None)"

definition roundupsize :: "uint64 \<Rightarrow> uint64 option" where
  "roundupsize sz =
    (if sz < MaxSmallSize
     then if sz \<le> smallSizeMax - 8
          then Option.bind (table_get size_to_class8 (unat (divRoundUp sz smallSizeDiv))) (table_get class_to_size)
          else Option.bind (table_get size_to_class128 (unat (divRoundUp (sz - smallSizeMax) largeSizeDiv))) (table_get class_to_size)
     else if sz + PageSize < sz then Some sz
     else Some (alignUp sz PageSize))"

definition mulUintptr :: "uint64 \<Rightarrow> uint64 \<Rightarrow> uint64 \<times> bool" where
  "mulUintptr a b =
    (if (a OR b) < 2 ^ 32 \<or> a = 0 then (a * b, False)
     else (a * b, b > (- 1) div a))"

definition overLoadFactor :: "int \<Rightarrow> nat \<Rightarrow> bool" where
  "overLoadFactor cnt B \<longleftrightarrow> cnt > bucketCnt \<and> word_of_int cnt > loadFactorNum * (bucketShift B div loadFactorDen)"

partial_function (option) load_B :: "int \<Rightarrow> nat \<Rightarrow> nat option" where
  "load_B hint B = (if overLoadFactor hint B then load_B hint ((B + 1) mod 256) else Some B)"

declare load_B.simps [code]

definition calculateRoughMapSize :: "int \<Rightarrow> uint64 \<Rightarrow> int option" where
  "calculateRoughMapSize hint bs =
    (let (mem, overflow) = mulUintptr (word_of_int hint) bs;
         hint = (if overflow \<or> mem > maxAlloc then 0 else hint)
     in Option.bind (load_B hint 0) (\<lambda>B.
        let base = bucketShift B
        in Option.bind
             (if B \<ge> 4
              then let numBuckets = base + bucketShift (B - 4); sz = bs * numBuckets
                   in map_option (\<lambda>up. if up \<noteq> sz then up div bs else numBuckets) (roundupsize sz)
              else Some base) (\<lambda>numBuckets.
           let total = fst (mulUintptr bs numBuckets);
               total = (if base \<noteq> numBuckets then total + 24 else total);
               total = total + 48
           in Some (sint total))))"

definition calculateMinEntries :: "(int \<Rightarrow> nat) \<Rightarrow> int \<Rightarrow> int \<Rightarrow> int" where
  "calculateMinEntries log2 totalBytes bs =
    (let totalBytes = i64 (totalBytes - 48);
         numBuckets = go_div totalBytes bs;
         B = log2 numBuckets
     in if B < 4
        then if B = 0 then 0 else if B = 1 then 9 else if B = 2 then 14 else 27
        else let B = B - 1 in i64 (sint (loadFactorNum * (bucketShift B div loadFactorDen)) + 1))"

section \<open>Properties\<close>

lemma load_B_from:
  assumes "\<not> overLoadFactor hint B0" "B0 < 255" "\<And>x. b \<le> x \<Longrightarrow> x < B0 \<Longrightarrow> overLoadFactor hint x" "b \<le> B0"
  shows "load_B hint b = Some B0"
  using assms(3,4)
proof (induction "B0 - b" arbitrary: b)
  case 0
  then show ?case using assms(1) by (subst load_B.simps) simp
next
  case (Suc n)
  then have "load_B hint (b + 1) = Some B0" by (intro Suc.hyps(1)) simp_all
  moreover have "overLoadFactor hint b" "(b + 1) mod 256 = b + 1" using Suc.prems Suc.hyps(2) assms(2) by simp_all
  ultimately show ?case by (subst load_B.simps) simp
qed

lemma load_fits_61: "is_i64 hint \<Longrightarrow> \<not> overLoadFactor hint 61"
proof -
  assume h: "is_i64 hint"
  have "loadFactorNum * (bucketShift 61 div loadFactorDen) = (word_of_int (13 * 2 ^ 60) :: uint64)"
    by (simp add: loadFactorNum_def loadFactorDen_def bucketShift_def)
  moreover have "\<not> (word_of_int (13 * 2 ^ 60) :: uint64) < word_of_int hint" if "hint > 8"
  proof -
    have "uint (word_of_int hint :: uint64) = hint"
      using that h by (intro uint_word_of_int_small) (simp_all add: is_i64_def)
    then show ?thesis using that h by (simp add: word_less_def is_i64_def)
  qed
  ultimately show ?thesis by (auto simp: overLoadFactor_def bucketCnt_def)
qed

lemma tables_in_range: "\<forall>c \<in> set size_to_class8. c < 68" "\<forall>c \<in> set size_to_class128. c < 68"
    "length size_to_class8 = 129" "length size_to_class128 = 249" "length class_to_size = 68"
  by (simp_all add: size_to_class8_def size_to_class128_def class_to_size_def)

lemma roundupsize_returns: "\<exists>up. roundupsize sz = Some up"
proof -
  have lookup: "\<exists>v. Option.bind (table_get t i) (table_get class_to_size) = Some v"
    if "i < length t" "\<forall>c \<in> set t. c < 68" for t i
    using that tables_in_range(5) by (simp add: table_get_def)
  have "unat (divRoundUp sz smallSizeDiv) < 129" if "sz \<le> smallSizeMax - 8"
  proof -
    have s: "unat sz \<le> 1016" using that by (simp add: smallSizeMax_def word_le_nat_alt)
    then have "unat (sz + 8 - 1) = unat sz + 7" by (simp add: unat_word_ariths)
    then show ?thesis using s by (simp add: divRoundUp_def smallSizeDiv_def unat_div_distrib)
  qed
  moreover have "unat (divRoundUp (sz - smallSizeMax) largeSizeDiv) < 249" if "sz < MaxSmallSize" "\<not> sz \<le> smallSizeMax - 8"
  proof -
    have s: "unat sz < 32768" "1016 < unat sz"
      using that by (simp_all add: MaxSmallSize_def smallSizeMax_def word_le_nat_alt word_less_nat_alt)
    have "sz - 1024 + 128 - 1 = sz - 897" by simp
    moreover have "unat (sz - 897) = unat sz - 897" using s by (subst unat_sub) (simp_all add: word_le_nat_alt)
    ultimately show ?thesis using s by (simp add: divRoundUp_def smallSizeMax_def largeSizeDiv_def unat_div_distrib)
  qed
  ultimately show ?thesis
    using lookup[OF _ tables_in_range(1)] lookup[OF _ tables_in_range(2)] tables_in_range(3,4)
    by (auto simp: roundupsize_def)
qed

lemma load_B_least:
  assumes "is_i64 hint"
  obtains B where "load_B hint 0 = Some B" "B \<le> 61" "\<not> overLoadFactor hint B" "\<forall>b < B. overLoadFactor hint b"
proof -
  define B where "B = (LEAST B. \<not> overLoadFactor hint B)"
  have B: "\<not> overLoadFactor hint B" "B \<le> 61"
    unfolding B_def using load_fits_61[OF assms] by (metis LeastI, metis Least_le)
  have below: "overLoadFactor hint b" if "b < B" for b using that not_less_Least unfolding B_def by blast
  have "load_B hint 0 = Some B" by (rule load_B_from) (use B below in auto)
  then show thesis using that B below by blast
qed

lemma map_size_returns:
  assumes "is_i64 hint"
  shows "\<exists>sz. calculateRoughMapSize hint bs = Some sz"
proof -
  define hint' where "hint' = (let (mem, overflow) = mulUintptr (word_of_int hint) bs in if overflow \<or> mem > maxAlloc then 0 else hint)"
  have "is_i64 hint'" using assms by (auto simp: hint'_def is_i64_def Let_def split: prod.splits)
  then obtain B where "load_B hint' 0 = Some B" by (rule load_B_least)
  then show ?thesis
    using roundupsize_returns[of "bs * (bucketShift B + bucketShift (B - 4))"]
    by (auto simp: calculateRoughMapSize_def hint'_def Let_def split: prod.splits)
qed

text \<open>
  The estimate of the size of a map is produced for every 64-bit hint: the search for the number of
  buckets ends with the least exponent whose load factor is not exceeded, at most 61, and no lookup in the
  tables of size classes is out of range.
\<close>

theorem calculateRoughMapSize_returns:
  assumes "is_i64 hint"
  shows "(\<exists>sz. calculateRoughMapSize hint bs = Some sz)
    \<and> (\<exists>B. load_B hint 0 = Some B \<and> B \<le> 61 \<and> \<not> overLoadFactor hint B \<and> (\<forall>b < B. overLoadFactor hint b))"
  using map_size_returns[OF assms] load_B_least[OF assms] by metis

theorem calculateRoughMapSize_returns_witness: "\<exists>size. calculateRoughMapSize 100000 (of_nat bucketSize) = Some size"
  using calculateRoughMapSize_returns[of 100000 "of_nat bucketSize"] by (simp add: is_i64_def)

end
