(* ===== verification/Utxo_Cache.thy ===== *)
theory Utxo_Cache
  imports Utxo_View Size_Helper
begin

text \<open>
  The cache of unspent outputs in front of the database (utxocache.go).  The cache is a slice of maps, each an
  association list; an entry that the code mutates through a pointer is rewritten in the map that holds it.
  \<open>cache_coins\<close> is the set of coins the cache and the database show together.  The cache meets the contract
  \<open>coin_ledger\<close> of the views, and a flush moves its contents to the database without changing that set.
\<close>

section \<open>The slice of maps\<close>

type_synonym utxo_map = "(OutPoint \<times> UtxoEntry option) list"

record mapSlice =
  maps :: "utxo_map list"
  maxEntries :: "int list"
  ms_maxTotalMemoryUsage :: uint64

definition ms_length :: "mapSlice \<Rightarrow> nat" where
  "ms_length ms = sum_list (map length (maps ms))"

text \<open>\<open>None\<close> only if an estimate of a map size did not return.\<close>

fun rough_sizes :: "int list \<Rightarrow> int list option" where
  "rough_sizes [] = Some []"
| "rough_sizes (n # ns) = do { s \<leftarrow> calculateRoughMapSize n (of_nat bucketSize); ss \<leftarrow> rough_sizes ns; Some (s # ss) }"

definition ms_size :: "mapSlice \<Rightarrow> int option" where
  "ms_size ms = map_option (\<lambda>ss. fold (\<lambda>s acc. i64 (acc + s)) ss 0) (rough_sizes (maxEntries ms))"

fun maps_get :: "utxo_map list \<Rightarrow> OutPoint \<Rightarrow> UtxoEntry option option" where
  "maps_get [] op = None"
| "maps_get (m # ms) op = (case map_of m op of Some entry \<Rightarrow> Some entry | None \<Rightarrow> maps_get ms op)"

definition ms_get :: "mapSlice \<Rightarrow> OutPoint \<Rightarrow> UtxoEntry option option" where
  "ms_get ms op = maps_get (maps ms) op"

text \<open>The first loop of \<open>put\<close>, and every write through a cached pointer: the map that holds the key.\<close>

fun maps_overwrite :: "utxo_map list \<Rightarrow> OutPoint \<Rightarrow> UtxoEntry option \<Rightarrow> utxo_map list" where
  "maps_overwrite [] op entry = []"
| "maps_overwrite (m # ms) op entry =
    (if map_of m op \<noteq> None then AList.update op entry m # ms else m # maps_overwrite ms op entry)"

text \<open>The second loop: the first map with room; \<open>None\<close> if all are full.\<close>

fun maps_insert :: "utxo_map list \<Rightarrow> int list \<Rightarrow> OutPoint \<Rightarrow> UtxoEntry option \<Rightarrow> utxo_map list option" where
  "maps_insert (m # ms) (maxNum # ns) op entry =
    (if int (length m) \<ge> maxNum then map_option (\<lambda>ms. m # ms) (maps_insert ms ns op entry)
     else Some (AList.update op entry m # ms))"
| "maps_insert _ _ op entry = None"

definition makeNewMap :: "(int \<Rightarrow> nat) \<Rightarrow> mapSlice \<Rightarrow> uint64 \<Rightarrow> mapSlice option" where
  "makeNewMap log2 ms totalEntryMemory = do {
     ss \<leftarrow> rough_sizes (maxEntries ms);
     let memSize = fold (\<lambda>s acc. acc - word_of_int s) ss (ms_maxTotalMemoryUsage ms - totalEntryMemory);
     let numMaxElements = calculateMinEntries log2 (sint memSize) (int (bucketSize + avgEntrySize));
     Some (ms\<lparr>maxEntries := maxEntries ms @ [i64 (numMaxElements - 1)], maps := maps ms @ [[]]\<rparr>) }"

definition ms_put :: "(int \<Rightarrow> nat) \<Rightarrow> OutPoint \<Rightarrow> UtxoEntry option \<Rightarrow> uint64 \<Rightarrow> mapSlice \<Rightarrow> mapSlice option" where
  "ms_put log2 op entry totalEntryMemory ms =
    (if ms_get ms op \<noteq> None then Some (ms\<lparr>maps := maps_overwrite (maps ms) op entry\<rparr>)
     else case maps_insert (maps ms) (maxEntries ms) op entry of
            Some new \<Rightarrow> Some (ms\<lparr>maps := new\<rparr>)
          | None \<Rightarrow> map_option (\<lambda>ms. ms\<lparr>maps := butlast (maps ms) @ [AList.update op entry (last (maps ms))]\<rparr>)
                      (makeNewMap log2 ms totalEntryMemory))"

definition ms_delete :: "OutPoint \<Rightarrow> mapSlice \<Rightarrow> mapSlice" where
  "ms_delete op ms = ms\<lparr>maps := map (AList.delete op) (maps ms)\<rparr>"

definition deleteMaps :: "mapSlice \<Rightarrow> mapSlice option" where
  "deleteMaps ms = (if maxEntries ms = [] \<or> maps ms = [] then None
     else Some (ms\<lparr>maxEntries := [hd (maxEntries ms)], maps := [hd (maps ms)]\<rparr>))"

section \<open>The cache\<close>

definition utxoFlushPeriodicInterval :: int where
  "utxoFlushPeriodicInterval = 60000000000 * 5"

datatype FlushMode = FlushRequired | FlushPeriodic | FlushIfNeeded

record utxoCache =
  maxTotalMemoryUsage :: uint64
  cachedEntries :: mapSlice
  totalEntryMemory :: uint64
  lastFlushHash :: hash
  lastFlushTime :: int

definition newUtxoCache :: "(int \<Rightarrow> nat) \<Rightarrow> uint64 \<Rightarrow> utxoCache" where
  "newUtxoCache log2 maxMem =
    \<lparr>maxTotalMemoryUsage = maxMem,
     cachedEntries = \<lparr>maps = [[]],
       maxEntries = [i64 (calculateMinEntries log2 (sint maxMem) (int (bucketSize + avgEntrySize)) - 1)],
       ms_maxTotalMemoryUsage = maxMem\<rparr>,
     totalEntryMemory = 0, lastFlushHash = zeroHash, lastFlushTime = 0\<rparr>"

text \<open>The capacity of a script slice is its length.\<close>

definition memoryUsage :: "UtxoEntry option \<Rightarrow> uint64" where
  "memoryUsage entry = (case entry of None \<Rightarrow> 0 | Some e \<Rightarrow> of_nat (baseEntrySize + length (pkScript e)))"

definition totalMemoryUsage :: "utxoCache \<Rightarrow> uint64 option" where
  "totalMemoryUsage s = map_option (\<lambda>sz. word_of_int sz + totalEntryMemory s) (ms_size (cachedEntries s))"

text \<open>One round of the last loop of \<open>fetchEntries\<close>: \<open>put\<close> and account for the memory.\<close>

definition cache_put :: "(int \<Rightarrow> nat) \<Rightarrow> OutPoint \<Rightarrow> UtxoEntry option \<Rightarrow> utxoCache \<Rightarrow> error + utxoCache" where
  "cache_put log2 op entry s =
    (case ms_put log2 op entry (totalEntryMemory s) (cachedEntries s) of
       None \<Rightarrow> Inl Panic
     | Some ms \<Rightarrow> Inr (s\<lparr>cachedEntries := ms, totalEntryMemory := totalEntryMemory s + memoryUsage entry\<rparr>))"

fun fetch_missing :: "'pk key_lib \<Rightarrow> 'db bucket_ops \<Rightarrow> 'db \<Rightarrow> OutPoint list \<Rightarrow> error + (OutPoint \<times> UtxoEntry option) list" where
  "fetch_missing K B db [] = Inr []"
| "fetch_missing K B db (op # ops) =
    bindE (dbFetchUtxoEntry K B db op) (\<lambda>entry. bindE (fetch_missing K B db ops) (\<lambda>rest. Inr ((op, entry) # rest)))"

text \<open>Fill the slots that were missing, in order.\<close>

fun fill_entries :: "UtxoEntry option option list \<Rightarrow> UtxoEntry option list \<Rightarrow> UtxoEntry option list" where
  "fill_entries [] ds = []"
| "fill_entries (Some e # es) ds = e # fill_entries es ds"
| "fill_entries (None # es) (d # ds) = d # fill_entries es ds"
| "fill_entries (None # es) [] = None # fill_entries es []"

definition fetchEntries ::
  "(int \<Rightarrow> nat) \<Rightarrow> 'pk key_lib \<Rightarrow> 'db bucket_ops \<Rightarrow> 'db \<Rightarrow> OutPoint list \<Rightarrow> utxoCache \<Rightarrow> error + UtxoEntry option list \<times> utxoCache" where
  "fetchEntries log2 K B db outpoints s =
    (let found = map (ms_get (cachedEntries s)) outpoints;
         missingOps = filter (\<lambda>op. ms_get (cachedEntries s) op = None) outpoints
     in if missingOps = [] then Inr (fill_entries found [], s)
        else bindE (fetch_missing K B db missingOps) (\<lambda>dbEntries.
             bindE (foldE (\<lambda>(op, entry). cache_put log2 op entry) dbEntries s) (\<lambda>s.
               Inr (fill_entries found (map snd dbEntries), s))))"

definition cache_addTxOut ::
  "(int \<Rightarrow> nat) \<Rightarrow> OutPoint \<Rightarrow> TxOut \<Rightarrow> bool \<Rightarrow> int \<Rightarrow> utxoCache \<Rightarrow> error + utxoCache" where
  "cache_addTxOut log2 outp txOut isCoinBase height s =
    (if isUnspendable (PkScript txOut) then Inr s
     else cache_put log2 outp (Some (new_output txOut isCoinBase height)) s)"

definition cache_addTxOuts :: "(int \<Rightarrow> nat) \<Rightarrow> wire_lib \<Rightarrow> MsgTx \<Rightarrow> int \<Rightarrow> utxoCache \<Rightarrow> error + utxoCache" where
  "cache_addTxOuts log2 L tx height =
    foldE (\<lambda>(txOutIdx, txOut). cache_addTxOut log2 (outpoint L tx txOutIdx) txOut (IsCoinBase tx) height)
      (enumerate 0 (tx_TxOut tx))"

definition addTxIn ::
  "(int \<Rightarrow> nat) \<Rightarrow> 'pk key_lib \<Rightarrow> 'db bucket_ops \<Rightarrow> 'db \<Rightarrow> TxIn \<Rightarrow> utxoCache \<times> SpentTxOut list option
    \<Rightarrow> error + utxoCache \<times> SpentTxOut list option" where
  "addTxIn log2 K B db txIn = (\<lambda>(s, stxos).
    bindE (fetchEntries log2 K B db [PreviousOutPoint txIn] s) (\<lambda>(found, s).
      if length found \<noteq> 1 \<or> found ! 0 = None then Inl (AssertError ''missing input'')
      else let entry = the (found ! 0);
               stxos = map_option (\<lambda>l. l @ [spent_details entry]) stxos;
               entry = Spend entry;
               s = s\<lparr>cachedEntries := (cachedEntries s)\<lparr>maps := maps_overwrite (maps (cachedEntries s)) (PreviousOutPoint txIn) (Some entry)\<rparr>\<rparr>
      in if isFresh entry
         then Inr (s\<lparr>cachedEntries := ms_delete (PreviousOutPoint txIn) (cachedEntries s),
                     totalEntryMemory := totalEntryMemory s - memoryUsage (Some entry)\<rparr>, stxos)
         else Inr (s\<lparr>totalEntryMemory := totalEntryMemory s - memoryUsage None\<rparr>, stxos)))"

definition addTxIns ::
  "(int \<Rightarrow> nat) \<Rightarrow> 'pk key_lib \<Rightarrow> 'db bucket_ops \<Rightarrow> 'db \<Rightarrow> MsgTx \<Rightarrow> utxoCache \<times> SpentTxOut list option
    \<Rightarrow> error + utxoCache \<times> SpentTxOut list option" where
  "addTxIns log2 K B db tx st = (if IsCoinBase tx then Inr st else foldE (addTxIn log2 K B db) (tx_TxIn tx) st)"

definition cache_connectTransaction ::
  "(int \<Rightarrow> nat) \<Rightarrow> 'pk key_lib \<Rightarrow> 'db bucket_ops \<Rightarrow> wire_lib \<Rightarrow> 'db \<Rightarrow> int \<Rightarrow> MsgTx \<Rightarrow> utxoCache \<times> SpentTxOut list option
    \<Rightarrow> error + utxoCache \<times> SpentTxOut list option" where
  "cache_connectTransaction log2 K B L db height tx st =
    bindE (addTxIns log2 K B db tx st) (\<lambda>(s, stxos).
      bindE (cache_addTxOuts log2 L tx height s) (\<lambda>s. Inr (s, stxos)))"

definition cache_connectTransactions ::
  "(int \<Rightarrow> nat) \<Rightarrow> 'pk key_lib \<Rightarrow> 'db bucket_ops \<Rightarrow> wire_lib \<Rightarrow> 'db \<Rightarrow> Block \<Rightarrow> utxoCache \<times> SpentTxOut list option
    \<Rightarrow> error + utxoCache \<times> SpentTxOut list option" where
  "cache_connectTransactions log2 K B L db block =
    foldE (cache_connectTransaction log2 K B L db (blk_Height block)) (Transactions block)"

section \<open>Flushing\<close>

definition write_entry :: "'pk key_lib \<Rightarrow> 'db bucket_ops \<Rightarrow> OutPoint \<times> UtxoEntry option \<Rightarrow> 'db \<Rightarrow> error + 'db" where
  "write_entry K B = (\<lambda>(outp, entry) db.
    case entry of
      None \<Rightarrow> dbDeleteUtxoEntry B db outp
    | Some e \<Rightarrow> if IsSpent e then dbDeleteUtxoEntry B db outp
               else if \<not> isModified e then Inr db
               else dbPutUtxoEntry K B db outp entry)"

text \<open>
  The loops over the maps write every entry and delete it from its map; \<open>putHash\<close> is the write of the
  consistency hash (\<open>dbPutUtxoStateConsistency\<close>) into the metadata bucket \<open>meta\<close>, under the key of the code.
\<close>

definition utxoStateConsistencyKeyName :: "byte list" where
  "utxoStateConsistencyKeyName = map (word_of_int \<circ> of_char) ''utxostateconsistency''"

definition dbPutUtxoStateConsistency :: "'m bucket_ops \<Rightarrow> 'm \<Rightarrow> hash \<Rightarrow> error + 'm" where
  "dbPutUtxoStateConsistency M meta h = Put M meta utxoStateConsistencyKeyName h"

definition dbFetchUtxoStateConsistency :: "'m bucket_ops \<Rightarrow> 'm \<Rightarrow> byte list option" where
  "dbFetchUtxoStateConsistency M meta = Get M meta utxoStateConsistencyKeyName"

definition writeCache ::
  "'pk key_lib \<Rightarrow> 'db bucket_ops \<Rightarrow> 'm bucket_ops \<Rightarrow> int \<Rightarrow> 'db \<Rightarrow> 'm \<Rightarrow> hash \<Rightarrow> utxoCache \<Rightarrow> error + 'db \<times> 'm \<times> utxoCache" where
  "writeCache K B M now db meta best s =
    bindE (foldE (\<lambda>m. foldE (write_entry K B) m) (maps (cachedEntries s)) db) (\<lambda>db.
      case deleteMaps ((cachedEntries s)\<lparr>maps := map (\<lambda>m. []) (maps (cachedEntries s))\<rparr>) of
        None \<Rightarrow> Inl Panic
      | Some ms \<Rightarrow>
          bindE (dbPutUtxoStateConsistency M meta best) (\<lambda>meta.
            Inr (db, meta, s\<lparr>cachedEntries := ms, totalEntryMemory := 0, lastFlushHash := best, lastFlushTime := now\<rparr>)))"

definition flush ::
  "'pk key_lib \<Rightarrow> 'db bucket_ops \<Rightarrow> 'm bucket_ops \<Rightarrow> int \<Rightarrow> FlushMode \<Rightarrow> hash \<Rightarrow> 'db \<Rightarrow> 'm \<Rightarrow> utxoCache \<Rightarrow> error + 'db \<times> 'm \<times> utxoCache" where
  "flush K B M now mode best db meta s =
    (let go = (\<lambda>threshold.
           case totalMemoryUsage s of
             None \<Rightarrow> Inl Panic
           | Some used \<Rightarrow> if used \<ge> threshold then writeCache K B M now db meta best s else Inr (db, meta, s))
     in case mode of
          FlushRequired \<Rightarrow> go 0
        | FlushIfNeeded \<Rightarrow> if best = lastFlushHash s then Inr (db, meta, s) else go (maxTotalMemoryUsage s)
        | FlushPeriodic \<Rightarrow> if now - lastFlushTime s > utxoFlushPeriodicInterval then go 0 else go (maxTotalMemoryUsage s))"

section \<open>Fetching into a view\<close>

definition fetchUtxosFromCache ::
  "(int \<Rightarrow> nat) \<Rightarrow> 'pk key_lib \<Rightarrow> 'db bucket_ops \<Rightarrow> 'db \<Rightarrow> OutPoint list \<Rightarrow> utxoCache \<times> UtxoViewpoint \<Rightarrow> error + utxoCache \<times> UtxoViewpoint" where
  "fetchUtxosFromCache log2 K B db outpoints = (\<lambda>(s, view).
    if length outpoints = 0 then Inr (s, view)
    else bindE (fetchEntries log2 K B db outpoints s) (\<lambda>(found, s).
           Inr (s, fold (\<lambda>(outp, entry). set_entry outp (Clone entry)) (zip outpoints found) view)))"

definition fetchUtxos ::
  "(int \<Rightarrow> nat) \<Rightarrow> 'pk key_lib \<Rightarrow> 'db bucket_ops \<Rightarrow> 'db \<Rightarrow> OutPoint list \<Rightarrow> utxoCache \<times> UtxoViewpoint \<Rightarrow> error + utxoCache \<times> UtxoViewpoint" where
  "fetchUtxos log2 K B db outpoints = (\<lambda>(s, view).
    if length outpoints = 0 then Inr (s, view)
    else fetchUtxosFromCache log2 K B db (filter (\<lambda>outp. map_of (entries view) outp = None) outpoints) (s, view))"

definition fetchInputUtxos ::
  "(int \<Rightarrow> nat) \<Rightarrow> 'pk key_lib \<Rightarrow> 'db bucket_ops \<Rightarrow> wire_lib \<Rightarrow> 'db \<Rightarrow> Block \<Rightarrow> utxoCache \<times> UtxoViewpoint \<Rightarrow> error + utxoCache \<times> UtxoViewpoint" where
  "fetchInputUtxos log2 K B L db block = (\<lambda>(s, view).
    case findInputsToFetch L block view of
      None \<Rightarrow> Inl Panic
    | Some (view, needed) \<Rightarrow> fetchUtxosFromCache log2 K B db needed (s, view))"

definition FetchUtxoView ::
  "(int \<Rightarrow> nat) \<Rightarrow> 'pk key_lib \<Rightarrow> 'db bucket_ops \<Rightarrow> wire_lib \<Rightarrow> 'db \<Rightarrow> MsgTx \<Rightarrow> utxoCache \<Rightarrow> error + utxoCache \<times> UtxoViewpoint" where
  "FetchUtxoView log2 K B L db tx s =
    (let needed = map (outpoint L tx) [0..<length (tx_TxOut tx)]
                  @ (if \<not> IsCoinBase tx then map PreviousOutPoint (tx_TxIn tx) else [])
     in fetchUtxosFromCache log2 K B db needed (s, NewUtxoViewpoint))"

definition FetchUtxoEntry ::
  "(int \<Rightarrow> nat) \<Rightarrow> 'pk key_lib \<Rightarrow> 'db bucket_ops \<Rightarrow> 'db \<Rightarrow> OutPoint \<Rightarrow> utxoCache \<Rightarrow> error + UtxoEntry option \<times> utxoCache" where
  "FetchUtxoEntry log2 K B db outp s =
    bindE (fetchEntries log2 K B db [outp] s) (\<lambda>(found, s). Inr (found ! 0, s))"

section \<open>The slice of maps as one map\<close>

fun disjoint_maps :: "utxo_map list \<Rightarrow> bool" where
  "disjoint_maps [] \<longleftrightarrow> True"
| "disjoint_maps (m # ms) \<longleftrightarrow>
    distinct (map fst m) \<and> (\<forall>k. map_of m k \<noteq> None \<longrightarrow> maps_get ms k = None) \<and> disjoint_maps ms"

definition ms_ok :: "mapSlice \<Rightarrow> bool" where
  "ms_ok ms \<longleftrightarrow> maps ms \<noteq> [] \<and> length (maxEntries ms) = length (maps ms) \<and> disjoint_maps (maps ms)
    \<and> list_all is_i64 (maxEntries ms)"

lemma maps_get_overwrite:
  "maps_get (maps_overwrite ms op e) k = (if k = op \<and> maps_get ms op \<noteq> None then Some e else maps_get ms k)"
  by (induction ms) (auto simp: update_conv' split: option.splits)

lemma maps_get_insert:
  "maps_insert ms ns op e = Some ms' \<Longrightarrow> maps_get ms op = None \<Longrightarrow>
    maps_get ms' k = (if k = op then Some e else maps_get ms k)"
  by (induction ms ns op e arbitrary: ms' rule: maps_insert.induct)
    (auto simp: update_conv' split: if_splits option.splits)

lemma maps_get_append: "maps_get (ms @ ms') k = (case maps_get ms k of Some e \<Rightarrow> Some e | None \<Rightarrow> maps_get ms' k)"
  by (induction ms) (auto split: option.splits)

lemma maps_get_delete: "maps_get (map (AList.delete op) ms) k = (if k = op then None else maps_get ms k)"
  by (induction ms) (auto simp: delete_conv' split: option.splits)

lemma length_maps_overwrite [simp]: "length (maps_overwrite ms op e) = length ms"
  by (induction ms) auto

lemma maps_overwrite_nonempty [simp]: "maps_overwrite ms op e = [] \<longleftrightarrow> ms = []"
  by (cases ms) auto

lemma maps_insert_nonempty: "maps_insert ms ns op e = Some ms' \<Longrightarrow> ms' \<noteq> []"
  by (induction ms ns op e arbitrary: ms' rule: maps_insert.induct) (auto split: if_splits)

lemma length_maps_insert: "maps_insert ms ns op e = Some ms' \<Longrightarrow> length ms' = length ms"
  by (induction ms ns op e arbitrary: ms' rule: maps_insert.induct) (auto split: if_splits)

lemma disjoint_overwrite: "disjoint_maps ms \<Longrightarrow> disjoint_maps (maps_overwrite ms op e)"
  by (induction ms) (auto simp: update_conv' maps_get_overwrite distinct_update split: option.splits if_splits)

lemma disjoint_insert:
  "maps_insert ms ns op e = Some ms' \<Longrightarrow> maps_get ms op = None \<Longrightarrow> disjoint_maps ms \<Longrightarrow> disjoint_maps ms'"
  by (induction ms ns op e arbitrary: ms' rule: maps_insert.induct)
    (auto simp: update_conv' maps_get_insert distinct_update split: option.splits if_splits)

lemma disjoint_append: "disjoint_maps ms \<Longrightarrow> maps_get ms op = None \<Longrightarrow> disjoint_maps (ms @ [[(op, e)]])"
  by (induction ms) (auto simp: maps_get_append split: option.splits)

lemma disjoint_delete: "disjoint_maps ms \<Longrightarrow> disjoint_maps (map (AList.delete op) ms)"
  by (induction ms) (auto simp: maps_get_delete delete_conv' distinct_delete)

lemma rough_sizes_return: "list_all is_i64 ns \<Longrightarrow> \<exists>ss. rough_sizes ns = Some ss"
proof (induction ns)
  case (Cons n ns)
  then obtain s where "calculateRoughMapSize n (of_nat bucketSize) = Some s"
    using map_size_returns[of n "of_nat bucketSize"] by auto
  then show ?case using Cons by auto
qed simp

text \<open>A put always succeeds, and the slice then behaves as one map with the new entry.\<close>

lemma ms_put_correct:
  assumes "ms_ok ms"
  obtains ms' where "ms_put log2 op e mem ms = Some ms'" "ms_ok ms'" "ms_get ms' = (ms_get ms)(op \<mapsto> e)"
proof (cases "ms_get ms op = None")
  case False
  then show thesis using assms
    by (intro that[of "ms\<lparr>maps := maps_overwrite (maps ms) op e\<rparr>"])
      (auto simp: ms_put_def ms_ok_def ms_get_def maps_get_overwrite disjoint_overwrite fun_eq_iff)
next
  case True
  show thesis
  proof (cases "maps_insert (maps ms) (maxEntries ms) op e")
    case (Some new)
    then show thesis using assms True
      by (intro that[of "ms\<lparr>maps := new\<rparr>"])
        (auto simp: ms_put_def ms_ok_def ms_get_def maps_get_insert[OF Some] disjoint_insert[OF Some]
          length_maps_insert[OF Some] maps_insert_nonempty[OF Some] fun_eq_iff)
  next
    case None
    obtain ss where "rough_sizes (maxEntries ms) = Some ss"
      using rough_sizes_return assms by (auto simp: ms_ok_def)
    then obtain n where n: "makeNewMap log2 ms mem = Some (ms\<lparr>maxEntries := maxEntries ms @ [i64 n], maps := maps ms @ [[]]\<rparr>)"
      by (simp add: makeNewMap_def Let_def)
    then show thesis using assms True None
      by (intro that[of "ms\<lparr>maxEntries := maxEntries ms @ [i64 n], maps := maps ms @ [[(op, e)]]\<rparr>"])
        (auto simp: ms_put_def ms_ok_def ms_get_def maps_get_append disjoint_append i64_range fun_eq_iff split: option.splits)
  qed
qed

section \<open>The coins behind the cache\<close>

definition db_coins :: "'pk key_lib \<Rightarrow> 'db bucket_ops \<Rightarrow> 'db \<Rightarrow> coins" where
  "db_coins K B db op = (case dbFetchUtxoEntry K B db op of Inl e \<Rightarrow> None | Inr entry \<Rightarrow> live entry)"

definition cache_coins :: "'pk key_lib \<Rightarrow> 'db bucket_ops \<Rightarrow> 'db \<Rightarrow> utxoCache \<Rightarrow> coins" where
  "cache_coins K B db s op = (case ms_get (cachedEntries s) op of None \<Rightarrow> db_coins K B db op | Some entry \<Rightarrow> live entry)"

text \<open>
  What the flags of a cached entry promise: \<open>nil\<close> and fresh entries are not in the database, an unspent entry
  that is not modified is there with the same coin, and one that is modified can be stored.
\<close>

definition entry_inv :: "'pk key_lib \<Rightarrow> 'db bucket_ops \<Rightarrow> 'db \<Rightarrow> OutPoint \<Rightarrow> UtxoEntry option \<Rightarrow> bool" where
  "entry_inv K B db op entry \<longleftrightarrow> op_ok op \<and>
    (case entry of
       None \<Rightarrow> dbFetchUtxoEntry K B db op = Inr None
     | Some e \<Rightarrow> (isFresh e \<longrightarrow> dbFetchUtxoEntry K B db op = Inr None)
         \<and> (\<not> IsSpent e \<longrightarrow> isModified e \<longrightarrow> entry_ok e)
         \<and> (\<not> IsSpent e \<longrightarrow> \<not> isModified e \<longrightarrow> db_coins K B db op = Some (coin_of e)))"

definition db_ok :: "'pk key_lib \<Rightarrow> 'db bucket_ops \<Rightarrow> 'db \<Rightarrow> bool" where
  "db_ok K B db \<longleftrightarrow> (\<forall>op. op_ok op \<longrightarrow> (\<exists>e. dbFetchUtxoEntry K B db op = Inr e))"

definition cache_inv :: "'pk key_lib \<Rightarrow> 'db bucket_ops \<Rightarrow> 'db \<Rightarrow> utxoCache \<Rightarrow> bool" where
  "cache_inv K B db s \<longleftrightarrow> ms_ok (cachedEntries s) \<and> db_ok K B db
    \<and> (\<forall>op entry. ms_get (cachedEntries s) op = Some entry \<longrightarrow> entry_inv K B db op entry)"

lemma newUtxoCache_inv: "db_ok K B db \<Longrightarrow> cache_inv K B db (newUtxoCache log2 m)"
  by (simp add: cache_inv_def newUtxoCache_def ms_ok_def ms_get_def i64_range)

lemma deserialized_flags:
  "deserializeUtxoEntry K v = Inr e \<Longrightarrow> \<not> IsSpent e \<and> \<not> isModified e \<and> \<not> isFresh e"
  by (auto simp: deserializeUtxoEntry_def Let_def flag_simps split: prod.splits if_splits sum.splits)

lemma fetched_flags:
  "dbFetchUtxoEntry K B db op = Inr (Some e) \<Longrightarrow> \<not> IsSpent e \<and> \<not> isModified e \<and> \<not> isFresh e"
  by (auto simp: dbFetchUtxoEntry_def dest: deserialized_flags split: option.splits if_splits sum.splits)

lemma fetched_entry_inv: "op_ok op \<Longrightarrow> dbFetchUtxoEntry K B db op = Inr e \<Longrightarrow> entry_inv K B db op e"
  by (auto simp: entry_inv_def db_coins_def dest: fetched_flags split: option.splits)

lemma cache_put_correct:
  assumes "cache_inv K B db s" "entry_inv K B db op e"
  obtains s' where "cache_put log2 op e s = Inr s'" "cache_inv K B db s'"
    "ms_get (cachedEntries s') = (ms_get (cachedEntries s))(op \<mapsto> e)"
proof -
  have "ms_ok (cachedEntries s)" using assms(1) by (simp add: cache_inv_def)
  then obtain ms where ms: "ms_put log2 op e (totalEntryMemory s) (cachedEntries s) = Some ms" "ms_ok ms"
      "ms_get ms = (ms_get (cachedEntries s))(op \<mapsto> e)" by (rule ms_put_correct)
  then show thesis using assms
    by (intro that[of "s\<lparr>cachedEntries := ms, totalEntryMemory := totalEntryMemory s + memoryUsage e\<rparr>"])
      (auto simp: cache_put_def cache_inv_def)
qed

lemma cache_coins_put:
  "ms_get (cachedEntries s') = (ms_get (cachedEntries s))(op \<mapsto> e) \<Longrightarrow>
    cache_coins K B db s' = (cache_coins K B db s)(op := live e)"
  by (auto simp: cache_coins_def fun_eq_iff)

text \<open>What the cache or the database holds for an outpoint.\<close>

definition held :: "'pk key_lib \<Rightarrow> 'db bucket_ops \<Rightarrow> 'db \<Rightarrow> utxoCache \<Rightarrow> OutPoint \<Rightarrow> UtxoEntry option" where
  "held K B db s op =
    (case ms_get (cachedEntries s) op of Some e \<Rightarrow> e
     | None \<Rightarrow> (case dbFetchUtxoEntry K B db op of Inr e \<Rightarrow> e | Inl _ \<Rightarrow> None))"

lemma live_held: "live (held K B db s op) = cache_coins K B db s op"
  by (simp add: held_def cache_coins_def db_coins_def split: option.splits sum.splits)

lemma fetch_missing_eq:
  "db_ok K B db \<Longrightarrow> \<forall>op \<in> set ops. op_ok op \<Longrightarrow>
    fetch_missing K B db ops = Inr (map (\<lambda>op. (op, projr (dbFetchUtxoEntry K B db op))) ops)"
proof (induction ops)
  case (Cons op ops)
  then obtain e where "dbFetchUtxoEntry K B db op = Inr e" by (auto simp: db_ok_def)
  then show ?case using Cons by simp
qed simp

lemma fill_entries_eq:
  "fill_entries (map f ops) (map g (filter (\<lambda>op. f op = None) ops)) = map (\<lambda>op. case f op of Some e \<Rightarrow> e | None \<Rightarrow> g op) ops"
  by (induction ops) (auto split: option.splits)

lemma put_fetched:
  assumes "cache_inv K B db s" "\<forall>op \<in> set ops. op_ok op"
    "\<forall>op \<in> set ops. ms_get (cachedEntries s) op = None \<or> ms_get (cachedEntries s) op = Some (held K B db s op)
        \<and> dbFetchUtxoEntry K B db op = Inr (held K B db s op)"
  shows "\<exists>s'. foldE (\<lambda>(op, entry). cache_put log2 op entry) (map (\<lambda>op. (op, projr (dbFetchUtxoEntry K B db op))) ops) s = Inr s'
    \<and> cache_inv K B db s' \<and> held K B db s' = held K B db s
    \<and> (\<forall>op. ms_get (cachedEntries s') op = (if op \<in> set ops then Some (held K B db s op) else ms_get (cachedEntries s) op))"
  using assms
proof (induction ops arbitrary: s)
  case (Cons op ops)
  obtain e where e: "dbFetchUtxoEntry K B db op = Inr e" using Cons.prems(1,2) by (auto simp: cache_inv_def db_ok_def)
  then have h: "held K B db s op = e" using Cons.prems(3) by (auto simp: held_def)
  obtain s1 where s1: "cache_put log2 op e s = Inr s1" "cache_inv K B db s1"
      "ms_get (cachedEntries s1) = (ms_get (cachedEntries s))(op \<mapsto> e)"
    using cache_put_correct[OF Cons.prems(1) fetched_entry_inv[OF _ e]] Cons.prems(2) by auto
  have held1: "held K B db s1 = held K B db s" using s1(3) h by (auto simp: held_def fun_eq_iff)
  have "\<exists>s'. foldE (\<lambda>(op, entry). cache_put log2 op entry) (map (\<lambda>op. (op, projr (dbFetchUtxoEntry K B db op))) ops) s1 = Inr s'
    \<and> cache_inv K B db s' \<and> held K B db s' = held K B db s1
    \<and> (\<forall>op. ms_get (cachedEntries s') op = (if op \<in> set ops then Some (held K B db s1 op) else ms_get (cachedEntries s1) op))"
    using Cons.prems s1(3) e h held1 by (intro Cons.IH[OF s1(2)]) auto
  then show ?case using s1 e h held1 by auto
qed auto

text \<open>\<open>fetchEntries\<close> returns what is held and changes neither that nor the invariant; afterwards it is all cached.\<close>

lemma fetchEntries_correct:
  assumes "cache_inv K B db s" "\<forall>op \<in> set ops. op_ok op"
  shows "\<exists>s'. fetchEntries log2 K B db ops s = Inr (map (held K B db s) ops, s') \<and> cache_inv K B db s'
    \<and> held K B db s' = held K B db s \<and> (\<forall>op \<in> set ops. ms_get (cachedEntries s') op = Some (held K B db s op))"
proof -
  let ?get = "ms_get (cachedEntries s)"
  define missing where "missing = filter (\<lambda>op. ?get op = None) ops"
  have held: "held K B db s op = (case ?get op of Some e \<Rightarrow> e | None \<Rightarrow> projr (dbFetchUtxoEntry K B db op))" if "op \<in> set ops" for op
    using that assms by (auto simp: held_def cache_inv_def db_ok_def split: option.splits sum.splits)
  then have fill: "map (held K B db s) ops =
      fill_entries (map ?get ops) (map (\<lambda>op. projr (dbFetchUtxoEntry K B db op)) missing)"
    unfolding missing_def fill_entries_eq by (auto intro: map_cong)
  show ?thesis
  proof (cases "missing = []")
    case True
    then have "?get op = Some (held K B db s op)" if "op \<in> set ops" for op
      using that by (auto simp: missing_def held_def filter_empty_conv split: option.splits)
    then show ?thesis using True fill assms(1) by (auto simp: fetchEntries_def missing_def [symmetric] Let_def)
  next
    case False
    have fm: "fetch_missing K B db missing = Inr (map (\<lambda>op. (op, projr (dbFetchUtxoEntry K B db op))) missing)"
      using fetch_missing_eq[of K B db missing] assms by (auto simp: cache_inv_def missing_def)
    obtain s' where s': "foldE (\<lambda>(op, entry). cache_put log2 op entry) (map (\<lambda>op. (op, projr (dbFetchUtxoEntry K B db op))) missing) s = Inr s'"
        "cache_inv K B db s'" "held K B db s' = held K B db s"
        "\<forall>op. ms_get (cachedEntries s') op = (if op \<in> set missing then Some (held K B db s op) else ?get op)"
      using put_fetched[OF assms(1), of missing log2] assms(2) by (auto simp: missing_def)
    have "ms_get (cachedEntries s') op = Some (held K B db s op)" if "op \<in> set ops" for op
      using that s'(4) by (auto simp: missing_def held_def split: option.splits)
    then show ?thesis using False fm s' fill
      by (auto simp: fetchEntries_def missing_def [symmetric] Let_def comp_def)
  qed
qed

section \<open>The cache as a ledger\<close>

text \<open>An output can be added when the database does not hold its outpoint and the coin can be stored.\<close>

definition storable :: "'pk key_lib \<Rightarrow> 'db bucket_ops \<Rightarrow> 'db \<Rightarrow> OutPoint \<Rightarrow> TxOut \<Rightarrow> int \<Rightarrow> bool" where
  "storable K B db op txOut h \<longleftrightarrow> op_ok op \<and> dbFetchUtxoEntry K B db op = Inr None
    \<and> 0 \<le> Value txOut \<and> Value txOut < 2 ^ 60 \<and> length (PkScript txOut) < 2 ^ 62 \<and> 0 \<le> h \<and> h < 2 ^ 31"

lemma new_output_inv: "storable K B db op txOut h \<Longrightarrow> entry_inv K B db op (Some (new_output txOut cb h))"
  by (simp add: storable_def entry_inv_def) (simp add: new_output_def entry_ok_def)

lemma addTxIn_ledger:
  assumes "cache_inv K B db s" "op_ok (PreviousOutPoint txIn)" "cache_coins K B db s (PreviousOutPoint txIn) = Some c"
  shows "\<exists>s'. addTxIn log2 K B db txIn (s, stxos) = Inr (s', map_option (\<lambda>l. l @ [stxo_of c]) stxos)
    \<and> cache_inv K B db s' \<and> cache_coins K B db s' = (cache_coins K B db s)(PreviousOutPoint txIn := None)"
proof -
  let ?p = "PreviousOutPoint txIn"
  obtain e where e: "held K B db s ?p = Some e" "\<not> IsSpent e" "coin_of e = c"
    using assms(3) unfolding live_held [symmetric] live_Some_iff by blast
  obtain s1 where s1: "fetchEntries log2 K B db [?p] s = Inr ([Some e], s1)" "cache_inv K B db s1"
      "held K B db s1 = held K B db s" "ms_get (cachedEntries s1) ?p = Some (Some e)"
    using fetchEntries_correct[OF assms(1), of "[?p]" log2] assms(2) e(1) by auto
  have coins1: "cache_coins K B db s1 = cache_coins K B db s" using s1(3) by (simp add: live_held [symmetric] fun_eq_iff)
  have einv: "entry_inv K B db ?p (Some e)" using s1(2,4) by (simp add: cache_inv_def)
  define ms where "ms = (cachedEntries s1)\<lparr>maps := maps_overwrite (maps (cachedEntries s1)) ?p (Some (Spend e))\<rparr>"
  have ms: "ms_ok ms" "ms_get ms = (ms_get (cachedEntries s1))(?p \<mapsto> Some (Spend e))"
    using s1(2,4) by (auto simp: ms_def cache_inv_def ms_ok_def disjoint_overwrite ms_get_def maps_get_overwrite fun_eq_iff)
  show ?thesis
  proof (cases "isFresh e")
    case True
    then have db: "dbFetchUtxoEntry K B db ?p = Inr None" using einv by (simp add: entry_inv_def)
    define s2 where "s2 = s1\<lparr>cachedEntries := ms_delete ?p ms, totalEntryMemory := totalEntryMemory s1 - memoryUsage (Some (Spend e))\<rparr>"
    have get2: "ms_get (cachedEntries s2) = (ms_get (cachedEntries s1))(?p := None)"
      using ms(2) by (auto simp: s2_def ms_delete_def ms_get_def maps_get_delete fun_eq_iff)
    have "cache_inv K B db s2"
      using s1(2) ms(1) get2 by (auto simp: cache_inv_def) (simp add: s2_def ms_delete_def ms_ok_def disjoint_delete)
    moreover have "cache_coins K B db s2 = (cache_coins K B db s)(?p := None)"
      using get2 db coins1 by (auto simp: cache_coins_def db_coins_def fun_eq_iff split: option.splits)
    moreover have "addTxIn log2 K B db txIn (s, stxos) = Inr (s2, map_option (\<lambda>l. l @ [stxo_of c]) stxos)"
      using s1(1) True e(3) by (simp add: addTxIn_def Let_def s2_def ms_def stxo_of_coin [symmetric])
    ultimately show ?thesis by blast
  next
    case False
    define s2 where "s2 = s1\<lparr>cachedEntries := ms, totalEntryMemory := totalEntryMemory s1 - memoryUsage None\<rparr>"
    have "entry_inv K B db ?p (Some (Spend e))" using einv False by (auto simp: entry_inv_def)
    then have "cache_inv K B db s2" using s1(2) ms by (auto simp: cache_inv_def s2_def)
    moreover have "cache_coins K B db s2 = (cache_coins K B db s1)(?p := live (Some (Spend e)))"
      by (rule cache_coins_put) (simp add: s2_def ms(2))
    then have "cache_coins K B db s2 = (cache_coins K B db s)(?p := None)" by (simp add: coins1)
    moreover have "addTxIn log2 K B db txIn (s, stxos) = Inr (s2, map_option (\<lambda>l. l @ [stxo_of c]) stxos)"
      using s1(1) False e(3) by (simp add: addTxIn_def Let_def s2_def ms_def stxo_of_coin [symmetric])
    ultimately show ?thesis by blast
  qed
qed

lemma cache_ledger:
  "coin_ledger (cache_coins K B db) (cache_inv K B db) (cache_addTxOut log2) (addTxIn log2 K B db) (storable K B db) op_ok"
proof
  fix s outp txOut h cb
  assume inv: "cache_inv K B db s" and ok: "storable K B db outp txOut h"
  show "\<exists>s'. cache_addTxOut log2 outp txOut cb h s = Inr s' \<and> cache_inv K B db s'
      \<and> cache_coins K B db s' = ledger_add outp txOut cb h (cache_coins K B db s)"
  proof (cases "isUnspendable (PkScript txOut)")
    case False
    obtain s' where s': "cache_put log2 outp (Some (new_output txOut cb h)) s = Inr s'" "cache_inv K B db s'"
        "ms_get (cachedEntries s') = (ms_get (cachedEntries s))(outp \<mapsto> Some (new_output txOut cb h))"
      using cache_put_correct[OF inv new_output_inv[OF ok]] .
    then show ?thesis using False
      by (simp add: cache_addTxOut_def ledger_add_def cache_coins_put[OF s'(3)] coin_out_def)
  qed (simp add: cache_addTxOut_def ledger_add_def inv)
next
  fix s stxos c
  fix txIn :: TxIn
  assume "cache_inv K B db s" "op_ok (PreviousOutPoint txIn)" "cache_coins K B db s (PreviousOutPoint txIn) = Some c"
  then show "\<exists>s'. addTxIn log2 K B db txIn (s, stxos) = Inr (s', map_option (\<lambda>l. l @ [stxo_of c]) stxos)
      \<and> cache_inv K B db s' \<and> cache_coins K B db s' = (cache_coins K B db s)(PreviousOutPoint txIn := None)"
    by (rule addTxIn_ledger)
qed

lemma cache_connect_eq:
  "cache_connectTransaction log2 K B L db h =
    coin_ledger.connect (cache_addTxOut log2) (addTxIn log2 K B db) L h"
  by (intro ext) (simp add: cache_connectTransaction_def coin_ledger.connect_def[OF cache_ledger] addTxIns_def
      cache_addTxOuts_def coin_ledger.add_outs_def[OF cache_ledger])

section \<open>Flushing\<close>

definition written :: "'pk key_lib \<Rightarrow> 'db bucket_ops \<Rightarrow> 'db \<Rightarrow> 'db \<Rightarrow> (OutPoint \<rightharpoonup> UtxoEntry option) \<Rightarrow> bool" where
  "written K B db db' m \<longleftrightarrow> db_ok K B db' \<and> (\<forall>op. op_ok op \<longrightarrow>
    (case m op of None \<Rightarrow> dbFetchUtxoEntry K B db' op = dbFetchUtxoEntry K B db op
     | Some e \<Rightarrow> db_coins K B db' op = live e))"

lemma writtenD:
  "written K B db db' m \<Longrightarrow> op_ok op \<Longrightarrow> m op = None \<Longrightarrow> dbFetchUtxoEntry K B db' op = dbFetchUtxoEntry K B db op"
  "written K B db db' m \<Longrightarrow> op_ok op \<Longrightarrow> m op = Some e \<Longrightarrow> db_coins K B db' op = live e"
  by (force simp: written_def)+

lemma write_entry_correct:
  assumes "key_lib_ok K" "bucket_ok B" "db_ok K B db" "entry_inv K B db op e"
  shows "\<exists>db'. write_entry K B (op, e) db = Inr db' \<and> written K B db db' [op \<mapsto> e]"
proof -
  have op: "op_ok op" using assms(4) by (simp add: entry_inv_def)
  have del: "\<exists>db'. dbDeleteUtxoEntry B db op = Inr db' \<and> written K B db db' [op \<mapsto> e]" if l: "live e = None"
  proof -
    obtain db' where "dbDeleteUtxoEntry B db op = Inr db'" "dbFetchUtxoEntry K B db' op = Inr None"
      "\<And>b. op_ok b \<Longrightarrow> b \<noteq> op \<Longrightarrow> dbFetchUtxoEntry K B db' b = dbFetchUtxoEntry K B db b"
      using dbDeleteUtxoEntry_fetch[OF assms(2) op, of db K] by metis
    then show ?thesis using l assms(3) by (fastforce simp: written_def db_ok_def db_coins_def)
  qed
  consider "live e = None" | x where "e = Some x" "\<not> IsSpent x" "\<not> isModified x" | x where "e = Some x" "\<not> IsSpent x" "isModified x"
    by (metis live_simps(1,2) option.exhaust)
  then show ?thesis
  proof cases
    case 1
    then show ?thesis using del by (cases e) (auto simp: write_entry_def live_def split: if_splits)
  next
    case 2
    then have "db_coins K B db op = live e" using assms(4) by (simp add: entry_inv_def)
    then show ?thesis using 2 assms(3) by (simp add: write_entry_def written_def)
  next
    case 3
    then have ok: "entry_ok x" using assms(4) by (simp add: entry_inv_def)
    obtain db' where "dbPutUtxoEntry K B db op (Some x) = Inr db'" "dbFetchUtxoEntry K B db' op = Inr (Some (stored x))"
      "\<And>b. op_ok b \<Longrightarrow> b \<noteq> op \<Longrightarrow> dbFetchUtxoEntry K B db' b = dbFetchUtxoEntry K B db b"
      using dbPutUtxoEntry_fetch[OF assms(1,2) op ok 3(2), of db] by metis
    then show ?thesis using 3 assms(3) by (fastforce simp: write_entry_def written_def db_ok_def db_coins_def)
  qed
qed

lemma entry_inv_cong:
  "dbFetchUtxoEntry K B db' op = dbFetchUtxoEntry K B db op \<Longrightarrow> entry_inv K B db' op e = entry_inv K B db op e"
  by (simp add: entry_inv_def db_coins_def split: option.splits)

lemma write_map_correct:
  assumes "key_lib_ok K" "bucket_ok B" "db_ok K B db" "distinct (map fst m)" "\<forall>(op, e) \<in> set m. entry_inv K B db op e"
  shows "\<exists>db'. foldE (write_entry K B) m db = Inr db' \<and> written K B db db' (map_of m)"
  using assms(3-)
proof (induction m arbitrary: db)
  case Nil
  then show ?case by (simp add: written_def)
next
  case (Cons x m)
  obtain op e where x: "x = (op, e)" by (cases x)
  obtain db1 where db1: "write_entry K B (op, e) db = Inr db1" "written K B db db1 [op \<mapsto> e]"
    using write_entry_correct[OF assms(1,2) Cons.prems(1), of op e] Cons.prems(3) x by auto
  have same: "dbFetchUtxoEntry K B db1 k = dbFetchUtxoEntry K B db k" if "op_ok k" "k \<noteq> op" for k
    using db1(2) that by (auto simp: written_def split: if_splits)
  have "\<forall>(k, f) \<in> set m. entry_inv K B db1 k f"
  proof clarify
    fix k f
    assume kf: "(k, f) \<in> set m"
    then have "entry_inv K B db k f" "k \<noteq> op" using Cons.prems(2,3) x by (auto simp: rev_image_eqI)
    then show "entry_inv K B db1 k f" using entry_inv_cong[OF same] by (simp add: entry_inv_def)
  qed
  then obtain db2 where db2: "foldE (write_entry K B) m db1 = Inr db2" "written K B db1 db2 (map_of m)"
    using Cons.IH[of db1] Cons.prems(2) db1(2) x by (auto simp: written_def)
  have no: "map_of m op = None" using Cons.prems(2) x by (simp add: map_of_eq_None_iff)
  have "written K B db db2 (map_of (x # m))"
    unfolding written_def
  proof (intro conjI allI impI)
    show "db_ok K B db2" using db2(2) by (simp add: written_def)
    fix k
    assume k: "op_ok k"
    show "case map_of (x # m) k of None \<Rightarrow> dbFetchUtxoEntry K B db2 k = dbFetchUtxoEntry K B db k | Some f \<Rightarrow> db_coins K B db2 k = live f"
    proof (cases "k = op")
      case True
      have "dbFetchUtxoEntry K B db2 op = dbFetchUtxoEntry K B db1 op"
        using db2(2) k True no by (auto simp: written_def)
      then have "db_coins K B db2 op = db_coins K B db1 op" by (simp add: db_coins_def)
      then show ?thesis using db1(2) k True x by (auto simp: written_def)
    next
      case False
      then show ?thesis using db2(2) k x same[OF k False] by (auto simp: written_def split: option.splits)
    qed
  qed
  then show ?case using db1(1) db2(1) x by (simp add: fun_upd_def)
qed

lemma write_maps_correct:
  assumes "key_lib_ok K" "bucket_ok B" "db_ok K B db" "disjoint_maps ms"
    "\<forall>op e. maps_get ms op = Some e \<longrightarrow> entry_inv K B db op e"
  shows "\<exists>db'. foldE (\<lambda>m. foldE (write_entry K B) m) ms db = Inr db' \<and> written K B db db' (maps_get ms)"
  using assms(3-)
proof (induction ms arbitrary: db)
  case Nil
  then show ?case by (simp add: written_def)
next
  case (Cons m ms)
  have "\<forall>(op, e) \<in> set m. entry_inv K B db op e"
  proof clarify
    fix op e
    assume "(op, e) \<in> set m"
    then have "map_of m op = Some e" using Cons.prems(2) by simp
    then show "entry_inv K B db op e" using Cons.prems(3) by simp
  qed
  then obtain db1 where db1: "foldE (write_entry K B) m db = Inr db1" "written K B db db1 (map_of m)"
    using write_map_correct[OF assms(1,2) Cons.prems(1), of m] Cons.prems(2) by auto
  have "entry_inv K B db1 op e" if "maps_get ms op = Some e" for op e
  proof -
    have no: "map_of m op = None" using Cons.prems(2) that by (cases "map_of m op") auto
    then have inv: "entry_inv K B db op e" using Cons.prems(3) that by auto
    then have "dbFetchUtxoEntry K B db1 op = dbFetchUtxoEntry K B db op"
      using db1(2) no by (auto simp: written_def entry_inv_def)
    then have "entry_inv K B db1 op e = entry_inv K B db op e" by (rule entry_inv_cong)
    then show ?thesis using inv by simp
  qed
  then obtain db2 where db2: "foldE (\<lambda>m. foldE (write_entry K B) m) ms db1 = Inr db2" "written K B db1 db2 (maps_get ms)"
    using Cons.IH[of db1] Cons.prems(2) db1(2) by (auto simp: written_def)
  have "written K B db db2 (maps_get (m # ms))"
    unfolding written_def
  proof (intro conjI allI impI)
    show "db_ok K B db2" using db2(2) by (simp add: written_def)
    fix k
    assume k: "op_ok k"
    show "case maps_get (m # ms) k of None \<Rightarrow> dbFetchUtxoEntry K B db2 k = dbFetchUtxoEntry K B db k
        | Some f \<Rightarrow> db_coins K B db2 k = live f"
    proof (cases "map_of m k")
      case None
      then show ?thesis using writtenD(1)[OF db1(2) k] writtenD[OF db2(2) k] by (auto split: option.splits)
    next
      case (Some f)
      then have "maps_get ms k = None" using Cons.prems(2) by auto
      then have "dbFetchUtxoEntry K B db2 k = dbFetchUtxoEntry K B db1 k" using db2(2) k by (auto simp: written_def)
      then show ?thesis using db1(2) k Some by (auto simp: written_def db_coins_def split: option.splits)
    qed
  qed
  then show ?case using db1(1) db2(1) by (simp del: maps_get.simps)
qed

lemma writeCache_correct:
  assumes "key_lib_ok K" "bucket_ok B" "bucket_ok M" "cache_inv K B db s"
  shows "\<exists>db' meta' s'. writeCache K B M now db meta best s = Inr (db', meta', s')
    \<and> cache_inv K B db' s' \<and> (\<forall>op. op_ok op \<longrightarrow> db_coins K B db' op = cache_coins K B db s op)
    \<and> (\<forall>op. cache_coins K B db' s' op = db_coins K B db' op) \<and> ms_length (cachedEntries s') = 0
    \<and> dbFetchUtxoStateConsistency M meta' = Some best \<and> lastFlushHash s' = best"
proof -
  have inv: "db_ok K B db" "disjoint_maps (maps (cachedEntries s))" "maps (cachedEntries s) \<noteq> []"
      "length (maxEntries (cachedEntries s)) = length (maps (cachedEntries s))" "list_all is_i64 (maxEntries (cachedEntries s))"
      "\<forall>op e. maps_get (maps (cachedEntries s)) op = Some e \<longrightarrow> entry_inv K B db op e"
    using assms(4) by (auto simp: cache_inv_def ms_ok_def ms_get_def)
  obtain db' where db': "foldE (\<lambda>m. foldE (write_entry K B) m) (maps (cachedEntries s)) db = Inr db'"
      "written K B db db' (maps_get (maps (cachedEntries s)))"
    using write_maps_correct[OF assms(1,2) inv(1,2,6)] by auto
  define ms where "ms = (cachedEntries s)\<lparr>maxEntries := [hd (maxEntries (cachedEntries s))], maps := [[]]\<rparr>"
  have del: "deleteMaps ((cachedEntries s)\<lparr>maps := map (\<lambda>m. []) (maps (cachedEntries s))\<rparr>) = Some ms"
    using inv(3,4) by (auto simp: deleteMaps_def ms_def hd_map)
  obtain meta' where meta': "dbPutUtxoStateConsistency M meta best = Inr meta'" "dbFetchUtxoStateConsistency M meta' = Some best"
    using bucket_put[OF assms(3), of utxoStateConsistencyKeyName meta best]
    by (auto simp: dbPutUtxoStateConsistency_def dbFetchUtxoStateConsistency_def utxoStateConsistencyKeyName_def)
  define s' where "s' = s\<lparr>cachedEntries := ms, totalEntryMemory := 0, lastFlushHash := best, lastFlushTime := now\<rparr>"
  have "is_i64 (hd (maxEntries (cachedEntries s)))"
    using inv(3,4,5) by (cases "maxEntries (cachedEntries s)") auto
  then have "cache_inv K B db' s'" using db'(2) by (simp add: s'_def cache_inv_def ms_def ms_ok_def ms_get_def written_def)
  moreover have "db_coins K B db' op = cache_coins K B db s op" if "op_ok op" for op
    using db'(2) that by (auto simp: written_def cache_coins_def ms_get_def db_coins_def split: option.splits)
  moreover have "writeCache K B M now db meta best s = Inr (db', meta', s')"
    using db'(1) del meta'(1) by (simp add: writeCache_def s'_def)
  ultimately show ?thesis using meta'(2)
    by (auto simp: s'_def ms_def cache_coins_def ms_get_def ms_length_def)
qed

text \<open>Fetching into a view.\<close>

lemma fetch_into_view:
  assumes "cache_inv K B db s" "\<forall>op \<in> set ops. op_ok op"
  shows "\<exists>s' view'. fetchUtxosFromCache log2 K B db ops (s, view) = Inr (s', view')
    \<and> cache_inv K B db s' \<and> cache_coins K B db s' = cache_coins K B db s
    \<and> (\<forall>op. view_coins view' op = (if op \<in> set ops then cache_coins K B db s op else view_coins view op))
    \<and> (\<forall>op. map_of (entries view') op = None \<longleftrightarrow> op \<notin> set ops \<and> map_of (entries view) op = None)"
proof -
  obtain s' where s': "fetchEntries log2 K B db ops s = Inr (map (held K B db s) ops, s')" "cache_inv K B db s'"
      "held K B db s' = held K B db s"
    using fetchEntries_correct[OF assms] by blast
  have coins: "cache_coins K B db s' = cache_coins K B db s" using s'(3) by (simp add: live_held [symmetric] fun_eq_iff)
  let ?put = "\<lambda>xs. fold (\<lambda>(outp, entry). set_entry outp (Clone entry)) (zip xs (map (held K B db s) xs))"
  have "view_coins (?put xs v) op = (if op \<in> set xs then cache_coins K B db s op else view_coins v op)" for xs v op
    by (induction xs arbitrary: v) (auto simp: view_coins_set live_held)
  moreover have "map_of (entries (?put xs v)) op = None \<longleftrightarrow> op \<notin> set xs \<and> map_of (entries v) op = None" for xs v op
    by (induction xs arbitrary: v) (auto simp: set_entry_def update_conv')
  ultimately show ?thesis using s'(1,2) coins assms(1)
    by (cases "ops = []") (auto simp: fetchUtxosFromCache_def)
qed

section \<open>Properties\<close>

text \<open>
  C6: connecting a block to the cache returns the journal of spent outputs and changes the coins that cache
  and database show together as the ledger prescribes, and keeps the invariant of the cache.  The outputs of
  the block must not be in the database already, which is what the flag \<open>tfFresh\<close> of a new entry claims.
\<close>

theorem cache_connect_refines:
  assumes "cache_inv K B db s" "block_applies L (blk_Height block) (Transactions block) (cache_coins K B db s)"
    "\<forall>tx \<in> set (Transactions block). (\<forall>i < length (tx_TxOut tx). storable K B db (outpoint L tx i) (tx_TxOut tx ! i) (blk_Height block))
      \<and> (IsCoinBase tx \<or> (\<forall>p \<in> set (inputs tx). op_ok p))"
  shows "\<exists>s'. cache_connectTransactions log2 K B L db block (s, stxos) =
      Inr (s', map_option (\<lambda>l. l @ block_spent L (blk_Height block) (Transactions block) (cache_coins K B db s)) stxos)
    \<and> cache_inv K B db s'
    \<and> cache_coins K B db s' = ledger_block L (blk_Height block) (Transactions block) (cache_coins K B db s)"
  using coin_ledger.connect_block_ledger[OF cache_ledger assms(1,2), of log2 stxos] assms(3)
  by (simp add: cache_connectTransactions_def cache_connect_eq coin_ledger.outs_ok_def[OF cache_ledger])

text \<open>
  C7: a required flush succeeds, leaves in the database exactly the coins that cache and database showed
  together before, records the hash of the best block, and empties the cache.
\<close>

theorem flush_preserves_coins:
  assumes "key_lib_ok K" "bucket_ok B" "bucket_ok M" "cache_inv K B db s"
  shows "\<exists>db' meta' s'. flush K B M now FlushRequired best db meta s = Inr (db', meta', s')
    \<and> cache_inv K B db' s' \<and> (\<forall>op. op_ok op \<longrightarrow> db_coins K B db' op = cache_coins K B db s op)
    \<and> (\<forall>op. cache_coins K B db' s' op = db_coins K B db' op) \<and> ms_length (cachedEntries s') = 0
    \<and> dbFetchUtxoStateConsistency M meta' = Some best"
proof -
  obtain ss where "rough_sizes (maxEntries (cachedEntries s)) = Some ss"
    using rough_sizes_return[of "maxEntries (cachedEntries s)"] assms(4) by (auto simp: cache_inv_def ms_ok_def)
  then have "\<exists>used. totalMemoryUsage s = Some used" by (simp add: totalMemoryUsage_def ms_size_def)
  then show ?thesis using writeCache_correct[OF assms, of now meta best] by (auto simp: flush_def)
qed

text \<open>
  Entries fetched into a view show the coins of cache and database at every requested outpoint, leave
  the other outpoints of the view alone, and change nothing that the cache shows.
\<close>

theorem fetchUtxosFromCache_correct:
  assumes "cache_inv K B db s" "\<forall>op \<in> set ops. op_ok op"
  shows "\<exists>s' view'. fetchUtxosFromCache log2 K B db ops (s, view) = Inr (s', view')
    \<and> cache_inv K B db s' \<and> cache_coins K B db s' = cache_coins K B db s
    \<and> (\<forall>op. view_coins view' op = (if op \<in> set ops then cache_coins K B db s op else view_coins view op))"
  using fetch_into_view[OF assms] by blast

text \<open>
  \<open>addTxOut\<close> marks every new entry fresh without looking at the database.  When the database still holds
  the outpoint, adding an output there and spending it deletes the cached entry, and the old coin is shown as
  unspent again.
\<close>

theorem fresh_output_resurrects:
  assumes "ms_ok (cachedEntries s)" "db_coins K B db (PreviousOutPoint txIn) = Some c" "\<not> isUnspendable (PkScript txOut)"
  shows "\<exists>s1 s2. cache_addTxOut log2 (PreviousOutPoint txIn) txOut cb h s = Inr s1
    \<and> addTxIn log2 K B db txIn (s1, None) = Inr (s2, None)
    \<and> cache_coins K B db s2 (PreviousOutPoint txIn) = Some c"
proof -
  let ?p = "PreviousOutPoint txIn" and ?e = "new_output txOut cb h"
  obtain ms where ms: "ms_put log2 ?p (Some ?e) (totalEntryMemory s) (cachedEntries s) = Some ms"
      "ms_get ms = (ms_get (cachedEntries s))(?p \<mapsto> Some ?e)"
    using ms_put_correct[OF assms(1)] by metis
  define s1 where "s1 = s\<lparr>cachedEntries := ms, totalEntryMemory := totalEntryMemory s + memoryUsage (Some ?e)\<rparr>"
  have 1: "cache_addTxOut log2 ?p txOut cb h s = Inr s1"
    using ms(1) assms(3) by (simp add: cache_addTxOut_def cache_put_def s1_def)
  have "fetchEntries log2 K B db [?p] s1 = Inr ([Some ?e], s1)" using ms(2) by (simp add: fetchEntries_def s1_def)
  then obtain s2 where "addTxIn log2 K B db txIn (s1, None) = Inr (s2, None)"
      "maps (cachedEntries s2) = map (AList.delete ?p) (maps_overwrite (maps ms) ?p (Some (Spend ?e)))"
    by (simp add: addTxIn_def Let_def ms_delete_def s1_def)
  then show ?thesis using 1 assms(2) by (auto simp: cache_coins_def ms_get_def maps_get_delete)
qed

section \<open>A sample cache\<close>

definition empty_cache :: utxoCache where
  "empty_cache = newUtxoCache (\<lambda>_. 5) 1000000"

definition sample_db :: "byte list \<rightharpoonup> byte list" where
  "sample_db = [op_Hash sample_outpoint @ vlq 0 \<mapsto> entry_bytes sample_keys sample_entry]"

lemma sample_fetch:
  "dbFetchUtxoEntry sample_keys map_bucket sample_db op =
    (if outpointKey op = outpointKey sample_outpoint then Inr (Some (stored sample_entry)) else Inr None)"
proof -
  have "entry_ok sample_entry" by (simp add: entry_ok_def sample_entry_def)
  moreover have "outpointKey sample_outpoint = Some (op_Hash sample_outpoint @ vlq 0)"
    by (simp add: outpointKey_eq sample_outpoint_def)
  ultimately show ?thesis
    using deserialize_entry_bytes[OF sample_keys_ok, of sample_entry]
    by (auto simp: dbFetchUtxoEntry_def outpointKey_eq map_bucket_def sample_db_def)
qed

lemma sample_outpoint_ok: "op_ok sample_outpoint"
  by (simp add: op_ok_def sample_outpoint_def)

lemma sample_cache_inv: "cache_inv sample_keys map_bucket sample_db empty_cache"
  unfolding empty_cache_def by (intro newUtxoCache_inv) (simp add: db_ok_def sample_fetch)

lemma sample_cache_coins:
  "op_ok op \<Longrightarrow> cache_coins sample_keys map_bucket sample_db empty_cache op = (if op = sample_outpoint then Some (coin_of sample_entry) else None)"
  by (auto simp: cache_coins_def empty_cache_def newUtxoCache_def ms_get_def db_coins_def sample_fetch
      outpointKey_inj[OF _ sample_outpoint_ok])

lemma spend_only_block:
  "block_applies header_root_lib 8 [sample_spend] (cache_coins sample_keys map_bucket sample_db empty_cache)"
  by (simp add: tx_applies_def sample_coinbases(2))
    (auto simp: inputs_def sample_spend_def sample_cache_coins sample_outpoint_ok)

lemma spend_only_storable:
  "\<forall>tx \<in> set [sample_spend]. (\<forall>i < length (tx_TxOut tx). storable sample_keys map_bucket sample_db
      (outpoint header_root_lib tx i) (tx_TxOut tx ! i) 8) \<and> (IsCoinBase tx \<or> (\<forall>p \<in> set (inputs tx). op_ok p))"
proof -
  have ok: "op_ok (outpoint header_root_lib sample_spend i)" for i
    by (simp add: op_ok_def outpoint_def header_root_lib_def)
  have "outpointKey (outpoint header_root_lib sample_spend i) \<noteq> outpointKey sample_outpoint" for i
    using outpointKey_inj[OF ok sample_outpoint_ok, of i] sample_outs_distinct(2)[of i] by simp
  then have "storable sample_keys map_bucket sample_db (outpoint header_root_lib sample_spend i) (tx_TxOut sample_spend ! i) 8" if "i < 2" for i
    using ok that by (auto simp: storable_def sample_fetch dest!: less_2_cases) (simp_all add: sample_spend_def)
  moreover have "length (tx_TxOut sample_spend) = 2" "set (inputs sample_spend) = {sample_outpoint}"
    by (simp_all add: sample_spend_def inputs_def)
  ultimately show ?thesis by (simp add: sample_outpoint_ok)
qed

theorem cache_connect_refines_witness:
  "\<exists>s'. cache_connectTransactions (\<lambda>_. 5) sample_keys map_bucket header_root_lib sample_db
      \<lparr>Header = Header sample_block, Transactions = [sample_spend], blk_Height = 8\<rparr> (empty_cache, Some [])
    = Inr (s', Some [spent_details sample_entry])
    \<and> cache_coins sample_keys map_bucket sample_db s' sample_outpoint = None"
proof -
  let ?b = "\<lparr>Header = Header sample_block, Transactions = [sample_spend], blk_Height = 8\<rparr>"
  let ?U = "cache_coins sample_keys map_bucket sample_db empty_cache"
  have spent: "block_spent header_root_lib 8 [sample_spend] ?U = [spent_details sample_entry]"
    by (simp add: tx_spent_def sample_coinbases(2)) (simp add: sample_spend_def inputs_def sample_cache_coins sample_outpoint_ok stxo_of_coin)
  have gone: "ledger_block header_root_lib 8 [sample_spend] ?U sample_outpoint = None"
  proof -
    have "sample_outpoint \<notin> out_ops header_root_lib sample_spend" using sample_outs_distinct(2) by (metis sample_out_ops(2) insertE singletonD)
    moreover have "sample_outpoint \<in> set (inputs sample_spend)" by (simp add: inputs_def sample_spend_def)
    ultimately show ?thesis by (simp add: ledger_block_def ledger_tx_def sample_coinbases(2) ledger_outs_other)
  qed
  show ?thesis
    using cache_connect_refines[OF sample_cache_inv, of header_root_lib ?b "\<lambda>_. 5" "Some []"]
      spend_only_block spend_only_storable spent gone by auto
qed

theorem flush_preserves_coins_witness:
  "\<exists>db' meta' s'. flush sample_keys map_bucket map_bucket 1000 FlushRequired (replicate 32 7) sample_db Map.empty empty_cache = Inr (db', meta', s')
    \<and> db_coins sample_keys map_bucket db' sample_outpoint = Some (coin_of sample_entry)"
  using flush_preserves_coins[OF sample_keys_ok map_bucket_ok map_bucket_ok sample_cache_inv, of 1000 "replicate 32 7" Map.empty]
  by (auto simp: sample_cache_coins sample_outpoint_ok)

theorem fetchUtxosFromCache_correct_witness:
  "\<exists>s' view'. fetchUtxosFromCache (\<lambda>_. 5) sample_keys map_bucket sample_db [sample_outpoint] (empty_cache, NewUtxoViewpoint) = Inr (s', view')
    \<and> view_coins view' sample_outpoint = Some (coin_of sample_entry)"
  using fetchUtxosFromCache_correct[OF sample_cache_inv, of "[sample_outpoint]" "\<lambda>_. 5" NewUtxoViewpoint]
  by (auto simp: sample_cache_coins sample_outpoint_ok)

theorem fresh_output_resurrects_witness:
  "\<exists>s1 s2. cache_addTxOut (\<lambda>_. 5) sample_outpoint \<lparr>Value = 1, PkScript = [0x51]\<rparr> False 9 empty_cache = Inr s1
    \<and> addTxIn (\<lambda>_. 5) sample_keys map_bucket sample_db (tx_TxIn sample_spend ! 0) (s1, None) = Inr (s2, None)
    \<and> cache_coins sample_keys map_bucket sample_db s2 sample_outpoint = Some (coin_of sample_entry)"
  using fresh_output_resurrects[of empty_cache sample_keys map_bucket sample_db "tx_TxIn sample_spend ! 0" "coin_of sample_entry"
      "\<lparr>Value = 1, PkScript = [0x51]\<rparr>" "\<lambda>_. 5" False 9] sample_cache_inv
  by (simp add: cache_inv_def db_coins_def sample_fetch isUnspendable_def) (simp add: sample_spend_def)

end
