(* ===== verification/Validate_Tx.thy ===== *)
theory Validate_Tx
  imports Utxo_View Subsidy
begin

text \<open>
  The rules on single transactions (validate.go) and the weights (weight.go): sanity of a transaction, its
  inputs against a view, finality, sequence locks, signature operation counts, and the height in a coinbase
  script.  Amounts are \<open>int64\<close> and are added with their wrap-around; \<open>MaxSatoshi\<close> is a constant of
  \<open>nogoutil\<close> and a field of the library record.
\<close>

section \<open>Constants\<close>

definition MaxTimeOffsetSeconds :: int where "MaxTimeOffsetSeconds = 2 * 60 * 60"
definition MinCoinbaseScriptLen :: nat where "MinCoinbaseScriptLen = 2"
definition MaxCoinbaseScriptLen :: nat where "MaxCoinbaseScriptLen = 100"
definition serializedHeightVersion :: int where "serializedHeightVersion = 2"
definition MaxBlockBaseSize :: int where "MaxBlockBaseSize = 1000000"
definition MaxBlockSigOpsCost :: int where "MaxBlockSigOpsCost = 80000"

definition ShouldHaveSerializedBlockHeight :: "BlockHeader \<Rightarrow> bool" where
  "ShouldHaveSerializedBlockHeight header \<longleftrightarrow> hVersion header \<ge> serializedHeightVersion"

record SequenceLock =
  sl_Seconds :: int
  sl_BlockHeight :: int

definition SequenceLockActive :: "SequenceLock \<Rightarrow> int \<Rightarrow> int \<Rightarrow> bool" where
  "SequenceLockActive sequenceLock height medianTimePast =
    (if sl_Seconds sequenceLock \<ge> time_Unix medianTimePast \<or> sl_BlockHeight sequenceLock \<ge> height then False else True)"

definition IsFinalizedTransaction :: "MsgTx \<Rightarrow> int \<Rightarrow> int \<Rightarrow> bool" where
  "IsFinalizedTransaction tx height blockTime =
    (let lockTime = LockTime tx
     in if lockTime = 0 then True
        else let blockTimeOrHeight = (if lockTime < 500000000 then height else time_Unix blockTime)
        in if uint lockTime < blockTimeOrHeight then True
           else list_all (\<lambda>txIn. Sequence txIn = maxUint32) (tx_TxIn tx))"

section \<open>Sanity\<close>

fun sum_outputs :: "wire_lib \<Rightarrow> TxOut list \<Rightarrow> int \<Rightarrow> error + int" where
  "sum_outputs L [] totalSatoshi = Inr totalSatoshi"
| "sum_outputs L (txOut # txOuts) totalSatoshi =
    (let satoshi = Value txOut
     in if satoshi < 0 then Inl (ruleError ErrBadTxOutValue)
        else if satoshi > MaxSatoshi L then Inl (ruleError ErrBadTxOutValue)
        else let totalSatoshi = i64 (totalSatoshi + satoshi)
        in if totalSatoshi < 0 then Inl (ruleError ErrBadTxOutValue)
           else if totalSatoshi > MaxSatoshi L then Inl (ruleError ErrBadTxOutValue)
           else sum_outputs L txOuts totalSatoshi)"

fun check_duplicates :: "'a list \<Rightarrow> 'a list \<Rightarrow> bool" where
  "check_duplicates [] seen \<longleftrightarrow> False"
| "check_duplicates (x # xs) seen \<longleftrightarrow> (if x \<in> set seen then True else check_duplicates xs (x # seen))"

definition CheckTransactionSanity :: "wire_lib \<Rightarrow> MsgTx \<Rightarrow> error + unit" where
  "CheckTransactionSanity L tx =
    (if length (tx_TxIn tx) = 0 then Inl (ruleError ErrNoTxInputs)
     else if length (tx_TxOut tx) = 0 then Inl (ruleError ErrNoTxOutputs)
     else if txSizeStripped L tx > MaxBlockBaseSize then Inl (ruleError ErrTxTooBig)
     else bindE (sum_outputs L (tx_TxOut tx) 0) (\<lambda>_.
       if check_duplicates (map PreviousOutPoint (tx_TxIn tx)) [] then Inl (ruleError ErrDuplicateTxInputs)
       else if IsCoinBase tx
       then let slen = length (SignatureScript (tx_TxIn tx ! 0))
            in if slen < MinCoinbaseScriptLen \<or> slen > MaxCoinbaseScriptLen then Inl (ruleError ErrBadCoinbaseScriptLen) else Inr ()
       else if list_ex (\<lambda>txIn. isNullOutpoint (PreviousOutPoint txIn)) (tx_TxIn tx) then Inl (ruleError ErrBadTxInput)
       else Inr ()))"

section \<open>Inputs\<close>

definition check_input :: "wire_lib \<Rightarrow> Params \<Rightarrow> int \<Rightarrow> UtxoViewpoint \<Rightarrow> TxIn \<Rightarrow> int \<Rightarrow> error + int" where
  "check_input L params txHeight utxoView txIn totalSatoshiIn =
    (case LookupEntry utxoView (PreviousOutPoint txIn) of
       None \<Rightarrow> Inl (ruleError ErrMissingTxOut)
     | Some utxo \<Rightarrow>
         if IsSpent utxo then Inl (ruleError ErrMissingTxOut)
         else if entry_IsCoinBase utxo \<and> i32 (txHeight - blockHeight utxo) < i32 (CoinbaseMaturity params)
         then Inl (ruleError ErrImmatureSpend)
         else if amount utxo < 0 then Inl (ruleError ErrBadTxOutValue)
         else if amount utxo > MaxSatoshi L then Inl (ruleError ErrBadTxOutValue)
         else let lastSatoshiIn = totalSatoshiIn;
                  totalSatoshiIn = i64 (totalSatoshiIn + amount utxo)
              in if totalSatoshiIn < lastSatoshiIn \<or> totalSatoshiIn > MaxSatoshi L then Inl (ruleError ErrBadTxOutValue)
                 else Inr totalSatoshiIn)"

definition output_total :: "MsgTx \<Rightarrow> int" where
  "output_total tx = fold (\<lambda>txOut total. i64 (total + Value txOut)) (tx_TxOut tx) 0"

definition CheckTransactionInputs :: "wire_lib \<Rightarrow> Params \<Rightarrow> MsgTx \<Rightarrow> int \<Rightarrow> UtxoViewpoint \<Rightarrow> error + int" where
  "CheckTransactionInputs L params tx txHeight utxoView =
    (if IsCoinBase tx then Inr 0
     else bindE (foldE (check_input L params txHeight utxoView) (tx_TxIn tx) 0) (\<lambda>totalSatoshiIn.
       let totalSatoshiOut = output_total tx
       in if totalSatoshiIn < totalSatoshiOut then Inl (ruleError ErrSpendTooHigh)
          else Inr (i64 (totalSatoshiIn - totalSatoshiOut))))"

section \<open>Signature operations and weights\<close>

definition getSigOpCount :: "byte list \<Rightarrow> int" where "getSigOpCount script = 0"
definition getPreciseSigOpCount :: "byte list \<Rightarrow> byte list \<Rightarrow> bool \<Rightarrow> int" where
  "getPreciseSigOpCount sigScript script bip16 = 0"
definition isPayToScriptHash :: "byte list \<Rightarrow> bool" where "isPayToScriptHash script = False"

definition CountSigOps :: "MsgTx \<Rightarrow> int" where
  "CountSigOps tx =
    (let totalSigOps = fold (\<lambda>txIn total. i64 (total + getSigOpCount (SignatureScript txIn))) (tx_TxIn tx) 0
     in fold (\<lambda>txOut total. i64 (total + getSigOpCount (PkScript txOut))) (tx_TxOut tx) totalSigOps)"

definition count_p2sh :: "UtxoViewpoint \<Rightarrow> TxIn \<Rightarrow> int \<Rightarrow> error + int" where
  "count_p2sh utxoView txIn totalSigOps =
    (case LookupEntry utxoView (PreviousOutPoint txIn) of
       None \<Rightarrow> Inl (ruleError ErrMissingTxOut)
     | Some utxo \<Rightarrow>
         if IsSpent utxo then Inl (ruleError ErrMissingTxOut)
         else if \<not> isPayToScriptHash (pkScript utxo) then Inr totalSigOps
         else let lastSigOps = totalSigOps;
                  totalSigOps = i64 (totalSigOps + getPreciseSigOpCount (SignatureScript txIn) (pkScript utxo) True)
              in if totalSigOps < lastSigOps then Inl (ruleError ErrTooManySigOps) else Inr totalSigOps)"

definition CountP2SHSigOps :: "MsgTx \<Rightarrow> bool \<Rightarrow> UtxoViewpoint \<Rightarrow> error + int" where
  "CountP2SHSigOps tx isCoinBaseTx utxoView =
    (if isCoinBaseTx then Inr 0 else foldE (count_p2sh utxoView) (tx_TxIn tx) 0)"

definition GetBlockWeight :: "wire_lib \<Rightarrow> Block \<Rightarrow> int" where
  "GetBlockWeight L blk =
    i64 (i64 (blockSizeStripped L blk * (int WitnessScaleFactor - 1)) + blockSize L blk)"

definition GetTransactionWeight :: "wire_lib \<Rightarrow> MsgTx \<Rightarrow> int" where
  "GetTransactionWeight L tx =
    i64 (i64 (txSizeStripped L tx * (int WitnessScaleFactor - 1)) + txSize L tx)"

text \<open>An error of \<open>CountP2SHSigOps\<close> is swallowed: the function returns zero and no error.\<close>

definition GetSigOpCost :: "MsgTx \<Rightarrow> bool \<Rightarrow> UtxoViewpoint \<Rightarrow> bool \<Rightarrow> bool \<Rightarrow> error + int" where
  "GetSigOpCost tx isCoinBaseTx utxoView bip16 segWit =
    (let numSigOps = i64 (CountSigOps tx * int WitnessScaleFactor);
         finish = (\<lambda>numSigOps.
           if segWit \<and> \<not> isCoinBaseTx \<and>
              list_ex (\<lambda>txIn. case LookupEntry utxoView (PreviousOutPoint txIn) of None \<Rightarrow> True | Some utxo \<Rightarrow> IsSpent utxo) (tx_TxIn tx)
           then Inl (ruleError ErrMissingTxOut) else Inr numSigOps)
     in if bip16
        then case CountP2SHSigOps tx isCoinBaseTx utxoView of
               Inl e \<Rightarrow> Inr 0
             | Inr numP2SHSigOps \<Rightarrow> finish (i64 (numSigOps + i64 (numP2SHSigOps * int WitnessScaleFactor)))
        else finish numSigOps)"

section \<open>The height in the coinbase\<close>

text \<open>The loop that splits a number into bytes, least significant first.\<close>

fun height_bytes :: "nat \<Rightarrow> byte list" where
  "height_bytes n = (if n = 0 then [] else of_nat (n mod 256) # height_bytes (n div 256))"

declare height_bytes.simps [simp del]

definition serializeCoinbaseHeight :: "int \<Rightarrow> byte list" where
  "serializeCoinbaseHeight n =
    (if n = 0 then [0x00]
     else if n \<ge> 1 \<and> n \<le> 16 then [word_of_int (0x50 + n)]
     else let negative = n < 0;
              buf = height_bytes (nat (if negative then - n else n));
              buf = (if last buf AND 0x80 \<noteq> 0 then buf @ [0x00] else buf);
              buf = (if negative then butlast buf @ [last buf OR 0x80] else buf)
          in of_nat (length buf) # buf)"

definition compareScript :: "int \<Rightarrow> byte list \<Rightarrow> error + unit" where
  "compareScript height script =
    (let expectedPrefix = serializeCoinbaseHeight height
     in if take (length expectedPrefix) script \<noteq> expectedPrefix then Inl (ruleError ErrBadCoinbaseHeight) else Inr ())"

definition ExtractCoinbaseHeight :: "MsgTx \<Rightarrow> error + int" where
  "ExtractCoinbaseHeight coinbaseTx =
    (if tx_TxIn coinbaseTx = [] then Inl Panic
     else let sigScript = SignatureScript (tx_TxIn coinbaseTx ! 0)
     in if length sigScript < 1 then Inl (ruleError ErrMissingCoinbaseHeight)
        else let opcode = unat (sigScript ! 0)
        in if opcode = 0 then Inr 0
           else if opcode \<ge> 0x51 \<and> opcode \<le> 0x60 then Inr (int opcode - (0x51 - 1))
           else let serializedLen = opcode
           in if length (drop 1 sigScript) < serializedLen then Inl (ruleError ErrMissingCoinbaseHeight)
              else let serializedHeightBytes = pad_to 4 (take serializedLen (drop 1 sigScript));
                       serializedHeight = sint (the (Uint32 serializedHeightBytes))
              in bindE (compareScript serializedHeight sigScript) (\<lambda>_. Inr serializedHeight))"

definition CheckSerializedHeight :: "MsgTx \<Rightarrow> int \<Rightarrow> error + unit" where
  "CheckSerializedHeight coinbaseTx wantHeight =
    bindE (ExtractCoinbaseHeight coinbaseTx) (\<lambda>serializedHeight.
      if serializedHeight \<noteq> wantHeight then Inl (ruleError ErrBadCoinbaseHeight) else Inr ())"

section \<open>Amounts\<close>

text \<open>The documented range of \<open>MaxSatoshi\<close>: two amounts in range add up without overflow.\<close>

definition money_ok :: "wire_lib \<Rightarrow> bool" where
  "money_ok L \<longleftrightarrow> 0 \<le> MaxSatoshi L \<and> MaxSatoshi L < 2 ^ 62"

definition value_out :: "MsgTx \<Rightarrow> int" where
  "value_out tx = sum_list (map Value (tx_TxOut tx))"

lemma sum_outputs_iff:
  assumes "money_ok L" "0 \<le> t" "t \<le> MaxSatoshi L"
  shows "sum_outputs L outs t = Inr r \<longleftrightarrow>
    list_all (\<lambda>txOut. 0 \<le> Value txOut) outs \<and> t + sum_list (map Value outs) \<le> MaxSatoshi L \<and> r = t + sum_list (map Value outs)"
  using assms(2,3)
proof (induction outs arbitrary: t)
  case (Cons x outs)
  have nonneg: "0 \<le> sum_list (map Value outs)" if "list_all (\<lambda>txOut. 0 \<le> Value txOut) outs"
    using that by (induction outs) auto
  have i: "i64 (t + Value x) = t + Value x" if "0 \<le> Value x" "Value x \<le> MaxSatoshi L"
    using that Cons.prems assms(1) by (intro i64_id) (auto simp: money_ok_def)
  show ?case
  proof (cases "0 \<le> Value x \<and> t + Value x \<le> MaxSatoshi L")
    case True
    then show ?thesis using Cons.IH[of "t + Value x"] Cons.prems i by (simp add: Let_def add.assoc)
  next
    case False
    then show ?thesis using Cons.prems i nonneg by (auto simp: Let_def)
  qed
qed auto

lemma check_duplicates_iff: "\<not> check_duplicates xs seen \<longleftrightarrow> distinct xs \<and> set xs \<inter> set seen = {}"
  by (induction xs arbitrary: seen) auto

text \<open>What a sane transaction is.\<close>

definition sane_tx :: "wire_lib \<Rightarrow> MsgTx \<Rightarrow> bool" where
  "sane_tx L tx \<longleftrightarrow> tx_TxIn tx \<noteq> [] \<and> tx_TxOut tx \<noteq> [] \<and> txSizeStripped L tx \<le> MaxBlockBaseSize
    \<and> list_all (\<lambda>txOut. 0 \<le> Value txOut) (tx_TxOut tx) \<and> value_out tx \<le> MaxSatoshi L
    \<and> distinct (inputs tx)
    \<and> (if IsCoinBase tx then length (SignatureScript (hd (tx_TxIn tx))) \<in> {2..100}
       else list_all (\<lambda>p. \<not> isNullOutpoint p) (inputs tx))"

lemma CheckTransactionSanity_iff:
  assumes "money_ok L"
  shows "CheckTransactionSanity L tx = Inr () \<longleftrightarrow> sane_tx L tx"
  using assms sum_outputs_iff[of L 0 "tx_TxOut tx"] check_duplicates_iff[of "inputs tx" "[]"]
  by (auto simp: CheckTransactionSanity_def sane_tx_def value_out_def inputs_def money_ok_def bindE_Inr_iff hd_conv_nth
      MinCoinbaseScriptLen_def MaxCoinbaseScriptLen_def Let_def list_all_iff list_ex_iff)

lemma sane_values: "sane_tx L tx \<Longrightarrow> txOut \<in> set (tx_TxOut tx) \<Longrightarrow> 0 \<le> Value txOut"
  by (simp add: sane_tx_def list_all_iff)

lemma output_total_sane:
  assumes "money_ok L" "sane_tx L tx"
  shows "output_total tx = value_out tx" and "0 \<le> value_out tx" and "value_out tx \<le> MaxSatoshi L"
proof -
  have total: "fold (\<lambda>txOut total. i64 (total + Value txOut)) outs t = t + sum_list (map Value outs)"
    if "list_all (\<lambda>txOut. 0 \<le> Value txOut) outs" "0 \<le> t" "t + sum_list (map Value outs) \<le> MaxSatoshi L" for outs t
    using that
  proof (induction outs arbitrary: t)
    case (Cons x outs)
    have "0 \<le> sum_list (map Value outs)" using Cons.prems(1) by (intro sum_list_nonneg) (auto simp: list_all_iff)
    moreover from this have "i64 (t + Value x) = t + Value x"
      using Cons.prems assms(1) by (intro i64_id) (auto simp: money_ok_def)
    ultimately show ?case using Cons.IH[of "t + Value x"] Cons.prems by simp
  qed simp
  show "output_total tx = value_out tx"
    using assms(2) total[of "tx_TxOut tx" 0] by (simp add: output_total_def value_out_def sane_tx_def)
  show "0 \<le> value_out tx" "value_out tx \<le> MaxSatoshi L"
    using assms(2) by (auto simp: sane_tx_def value_out_def list_all_iff intro!: sum_list_nonneg)
qed

text \<open>What an input must find: a coin that is there, mature, and in range.\<close>

definition spendable :: "wire_lib \<Rightarrow> Params \<Rightarrow> int \<Rightarrow> coins \<Rightarrow> OutPoint \<Rightarrow> bool" where
  "spendable L params h U p = (case U p of None \<Rightarrow> False
     | Some c \<Rightarrow> (c_coinbase c \<longrightarrow> i32 (CoinbaseMaturity params) \<le> i32 (h - c_height c))
                \<and> 0 \<le> c_amount c \<and> c_amount c \<le> MaxSatoshi L)"

definition coin_value :: "coins \<Rightarrow> OutPoint \<Rightarrow> int" where
  "coin_value U p = (case U p of None \<Rightarrow> 0 | Some c \<Rightarrow> c_amount c)"

definition value_in :: "coins \<Rightarrow> MsgTx \<Rightarrow> int" where
  "value_in U tx = sum_list (map (coin_value U) (inputs tx))"

lemma check_input_iff:
  assumes "money_ok L" "0 \<le> t" "t \<le> MaxSatoshi L"
  shows "check_input L params h view txIn t = Inr r \<longleftrightarrow> spendable L params h (view_coins view) (PreviousOutPoint txIn)
    \<and> r = t + coin_value (view_coins view) (PreviousOutPoint txIn) \<and> r \<le> MaxSatoshi L"
proof -
  have i: "i64 (t + amount utxo) = t + amount utxo" if "0 \<le> amount utxo" "amount utxo \<le> MaxSatoshi L" for utxo
    using assms that by (intro i64_id) (auto simp: money_ok_def)
  show ?thesis
    using i by (auto simp: check_input_def spendable_def coin_value_def view_coins_def live_def coin_of_def Let_def not_less
        split: option.splits)
qed

lemma spendable_value: "spendable L params h U p \<Longrightarrow> 0 \<le> coin_value U p"
  by (auto simp: spendable_def coin_value_def split: option.splits)

lemma check_inputs_iff:
  assumes "money_ok L" "0 \<le> t" "t \<le> MaxSatoshi L"
  shows "foldE (check_input L params h view) ins t = Inr r \<longleftrightarrow>
    list_all (spendable L params h (view_coins view)) (map PreviousOutPoint ins)
    \<and> r = t + sum_list (map (coin_value (view_coins view)) (map PreviousOutPoint ins)) \<and> r \<le> MaxSatoshi L"
  using assms(2,3)
proof (induction ins arbitrary: t)
  case (Cons x ins)
  define v where "v = coin_value (view_coins view) (PreviousOutPoint x)"
  have nonneg: "0 \<le> sum_list (map (coin_value (view_coins view)) (map PreviousOutPoint ins))"
    if "list_all (spendable L params h (view_coins view)) (map PreviousOutPoint ins)"
    using that spendable_value by (intro sum_list_nonneg) (auto simp: list_all_iff)
  show ?case
  proof (cases "spendable L params h (view_coins view) (PreviousOutPoint x) \<and> t + v \<le> MaxSatoshi L")
    case True
    then have "check_input L params h view x t = Inr (t + v)"
      using check_input_iff[OF assms(1) Cons.prems] by (simp add: v_def)
    moreover have "0 \<le> t + v" using True spendable_value Cons.prems by (fastforce simp: v_def)
    ultimately show ?thesis using Cons.IH[of "t + v"] True by (simp add: v_def add.assoc)
  next
    case False
    then have "\<not> (\<exists>r. check_input L params h view x t = Inr r)"
      using check_input_iff[OF assms(1) Cons.prems] by (auto simp: v_def)
    then show ?thesis using False nonneg by (auto simp: bindE_Inr_iff v_def)
  qed
qed auto

lemma CheckTransactionInputs_iff:
  assumes "money_ok L" "sane_tx L tx" "\<not> IsCoinBase tx"
  shows "CheckTransactionInputs L params tx h view = Inr fee \<longleftrightarrow>
    list_all (spendable L params h (view_coins view)) (inputs tx) \<and> value_in (view_coins view) tx \<le> MaxSatoshi L
    \<and> value_out tx \<le> value_in (view_coins view) tx \<and> fee = value_in (view_coins view) tx - value_out tx"
proof -
  note out = output_total_sane[OF assms(1,2)]
  have "i64 (r - value_out tx) = r - value_out tx" if "r \<le> MaxSatoshi L" "value_out tx \<le> r" for r
    using that out(2) assms(1) by (intro i64_id) (auto simp: money_ok_def)
  then show ?thesis
    using assms(1,3) out
    by (auto simp: CheckTransactionInputs_def bindE_Inr_iff Let_def check_inputs_iff money_ok_def value_in_def inputs_def
        split: if_splits)
qed

lemma fold_i64_zero: "fold (\<lambda>x. i64) xs 0 = 0"
  by (induction xs) (simp_all add: i64_def)

lemma CountSigOps_zero: "CountSigOps tx = 0"
  by (simp add: CountSigOps_def getSigOpCount_def fold_i64_zero)

section \<open>Coinbase heights\<close>

lemma height_bytes_0 [simp]: "height_bytes 0 = []"
  by (simp add: height_bytes.simps)

lemma height_bytes_pos: "0 < n \<Longrightarrow> height_bytes n = of_nat (n mod 256) # height_bytes (n div 256)"
  by (simp add: height_bytes.simps[of n])

lemma height_bytes_eq_Nil [simp]: "height_bytes n = [] \<longleftrightarrow> n = 0"
  by (cases "n = 0") (simp_all add: height_bytes_pos)

fun le_val :: "byte list \<Rightarrow> nat" where
  "le_val [] = 0"
| "le_val (b # bs) = unat b + 256 * le_val bs"

lemma le_val_height_bytes [simp]: "le_val (height_bytes n) = n"
proof (induction n rule: height_bytes.induct)
  case (1 n)
  then show ?case
    by (cases "n = 0") (simp_all add: height_bytes_pos unat_of_nat)
qed

lemma le_val_zeros [simp]: "le_val (bs @ replicate k 0) = le_val bs"
proof -
  have "le_val (replicate k 0) = 0" by (induction k) simp_all
  then show ?thesis by (induction bs) simp_all
qed

lemma le_val_snoc_0: "le_val (bs @ [0]) = le_val bs"
  using le_val_zeros[of bs 1] by simp

lemma le_val_last: "bs \<noteq> [] \<Longrightarrow> unat (last bs) * 256 ^ (length bs - 1) \<le> le_val bs"
proof (induction bs)
  case (Cons b bs)
  then show ?case by (cases bs) (auto simp: ac_simps)
qed simp

lemma last_height_bytes: "0 < n \<Longrightarrow> 0 < unat (last (height_bytes n))"
proof (induction n rule: height_bytes.induct)
  case (1 n)
  show ?case
  proof (cases "n div 256 = 0")
    case True
    then have "n < 256" by simp
    then show ?thesis using 1(2) by (simp add: height_bytes_pos unat_of_nat)
  next
    case False
    then show ?thesis using 1 by (simp add: height_bytes_pos)
  qed
qed

lemma length_height_bytes:
  assumes "n < 2 ^ 31" "0 < n"
  shows "length (height_bytes n) \<le> 4" and "length (height_bytes n) = 4 \<Longrightarrow> unat (last (height_bytes n)) < 128"
proof -
  let ?k = "length (height_bytes n) - 1" and ?b = "unat (last (height_bytes n))"
  have v: "?b * 256 ^ ?k \<le> n" using le_val_last[of "height_bytes n"] assms(2) by simp
  have pow: "(256 :: nat) ^ ?k \<le> n"
    using v last_height_bytes[OF assms(2)] by (metis One_nat_def Suc_leI le_trans mult.commute mult_le_mono1 mult_1)
  show "length (height_bytes n) \<le> 4"
  proof (rule ccontr)
    assume "\<not> ?thesis"
    then have "(256 :: nat) ^ 4 \<le> 256 ^ ?k" by (intro power_increasing) auto
    then show False using pow assms(1) by simp
  qed
  show "?b < 128" if "length (height_bytes n) = 4" using v assms(1) that by simp
qed

lemma and_0x80_iff: "b AND 0x80 = 0 \<longleftrightarrow> unat b < 128" for b :: byte
proof -
  have "unat b < 256" using unsigned_less[of b] by simp
  then have "odd (unat b div 128) \<longleftrightarrow> \<not> unat b < 128"
    by (cases "unat b < 128") (auto simp: div_nat_eqI[of 128 1 "unat b"])
  moreover have "bit (unat b) 7 \<longleftrightarrow> bit b 7" by (simp add: bit_unsigned_iff)
  ultimately show ?thesis using and_exp_eq_0_iff[of 7 b] by (simp add: bit_iff_odd)
qed

lemma digit: "a < 256 \<Longrightarrow> (a + 256 * x) mod 256 = a" "a < 256 \<Longrightarrow> (a + 256 * x) div 256 = x" for a x :: nat
  by simp_all

lemma le32_le_val: "length bs = 4 \<Longrightarrow> le32 (of_nat (le_val bs)) = bs"
proof -
  assume "length bs = 4"
  then obtain a b c d where bs: "bs = [a, b, c, d]" by (auto simp: numeral_eq_Suc length_Suc_conv)
  have u: "unat x < 256" for x :: byte using unsigned_less[of x] by simp
  define v where "v = le_val bs"
  have v: "v = unat a + 256 * (unat b + 256 * (unat c + 256 * unat d))" by (simp add: v_def bs)
  have v32: "v < 2 ^ 32" using u[of a] u[of b] u[of c] u[of d] by (simp add: v)
  have "le32 (of_nat v) = [of_nat (v mod 256), of_nat (v div 256 mod 256), of_nat (v div 65536 mod 256), of_nat (v div 16777216 mod 256)]"
    using v32 by (simp add: le32_def word_unat_eq_iff unsigned_ucast_eq unat_drop_bit unat_of_nat take_bit_eq_mod)
  also have "v mod 256 = unat a" unfolding v using u[of a] by (simp only: digit)
  also have d1: "v div 256 = unat b + 256 * (unat c + 256 * unat d)" unfolding v using u[of a] by (simp only: digit)
  also have "(unat b + 256 * (unat c + 256 * unat d)) mod 256 = unat b" using u[of b] by (simp only: digit)
  also have "v div 65536 = v div 256 div 256" by (simp add: div_mult2_eq [symmetric])
  also have d2: "v div 256 div 256 = unat c + 256 * unat d" unfolding d1 using u[of b] by (simp only: digit)
  also have "(unat c + 256 * unat d) mod 256 = unat c" using u[of c] by (simp only: digit)
  also have "v div 16777216 = v div 256 div 256 div 256" by (simp add: div_mult2_eq [symmetric])
  also have "v div 256 div 256 div 256 mod 256 = unat d" unfolding d2 using u[of c] u[of d] by (simp add: digit)
  finally show ?thesis by (simp add: v_def bs)
qed

lemma Uint32_le_val: "length bs = 4 \<Longrightarrow> Uint32 bs = Some (of_nat (le_val bs))"
  using Uint32_le32[of "of_nat (le_val bs)" "[]"] by (simp add: le32_le_val)

definition height_buf :: "nat \<Rightarrow> byte list" where
  "height_buf n = (let buf = height_bytes n in if last buf AND 0x80 \<noteq> 0 then buf @ [0x00] else buf)"

lemma serializeCoinbaseHeight_big: "16 < h \<Longrightarrow> serializeCoinbaseHeight h = of_nat (length (height_buf (nat h))) # height_buf (nat h)"
  by (simp add: serializeCoinbaseHeight_def height_buf_def Let_def)

lemma height_buf_props:
  assumes "0 < n" "n < 2 ^ 31"
  shows "0 < length (height_buf n)" "length (height_buf n) \<le> 4" "le_val (height_buf n) = n"
proof -
  have "length (height_bytes n) < 4" if "last (height_bytes n) AND 0x80 \<noteq> 0"
    using that length_height_bytes[OF assms(2,1)] by (fastforce simp: and_0x80_iff)
  then show "length (height_buf n) \<le> 4" using length_height_bytes(1)[OF assms(2,1)] by (auto simp: height_buf_def Let_def)
  show "0 < length (height_buf n)" "le_val (height_buf n) = n"
    using assms by (auto simp: height_buf_def Let_def le_val_snoc_0)
qed

lemma sint_word_of_int_small: "0 \<le> h \<Longrightarrow> h < 2 ^ 31 \<Longrightarrow> sint (word_of_int h :: uint32) = h"
  by (simp add: sint_sbintrunc' signed_take_bit_int_eq_self)

lemma Extract_serialized:
  assumes "0 \<le> h" "h < 2 ^ 31" "tx_TxIn tx = txIn # ins" "SignatureScript txIn = serializeCoinbaseHeight h @ rest"
  shows "ExtractCoinbaseHeight tx = Inr h"
proof -
  consider "h = 0" | "1 \<le> h" "h \<le> 16" | "16 < h" using assms(1) by linarith
  then show ?thesis
  proof cases
    case 1
    then show ?thesis using assms(3,4) by (simp add: ExtractCoinbaseHeight_def serializeCoinbaseHeight_def Let_def)
  next
    case 2
    then have "uint (word_of_int (0x50 + h) :: byte) = 0x50 + h" by (intro uint_word_of_int_small) simp_all
    then have "unat (word_of_int (0x50 + h) :: byte) = nat (0x50 + h)" by (simp only: unat_eq_nat_uint)
    moreover have "81 \<le> nat (80 + h)" "nat (80 + h) \<le> 96" using 2 by linarith+
    ultimately show ?thesis using assms(3,4) 2 by (simp add: ExtractCoinbaseHeight_def serializeCoinbaseHeight_def Let_def)
  next
    case 3
    then have n: "0 < nat h" "nat h < 2 ^ 31" using assms(2) by simp_all
    note buf = height_buf_props[OF n]
    let ?buf = "height_buf (nat h)"
    have len: "unat (of_nat (length ?buf) :: byte) = length ?buf" using buf 3 assms(2) by (simp add: unat_of_nat)
    have "Uint32 (pad_to 4 ?buf) = Some (of_nat (nat h))"
      using Uint32_le_val[of "pad_to 4 ?buf"] buf 3 assms(2) by (simp add: pad_to_def)
    then show ?thesis
      using assms buf 3 len
      by (simp add: ExtractCoinbaseHeight_def serializeCoinbaseHeight_big Let_def compareScript_def sint_word_of_int_small)
  qed
qed

lemma compareScript_prefix: "compareScript h s = Inr () \<Longrightarrow> \<exists>rest. s = serializeCoinbaseHeight h @ rest"
  by (auto simp: compareScript_def Let_def split: if_splits) (metis append_take_drop_id)

lemma Extract_prefix:
  assumes "ExtractCoinbaseHeight tx = Inr h" "tx_TxIn tx = txIn # ins"
  shows "\<exists>rest. SignatureScript txIn = serializeCoinbaseHeight h @ rest"
proof -
  obtain b bs where s: "SignatureScript txIn = b # bs"
    using assms by (cases "SignatureScript txIn") (simp_all add: ExtractCoinbaseHeight_def)
  consider "unat b = 0" "h = 0" | "81 \<le> unat b" "unat b \<le> 96" "h = int (unat b) - 80" | "compareScript h (b # bs) = Inr ()"
    using assms by (auto simp: s ExtractCoinbaseHeight_def Let_def bindE_Inr_iff split: if_splits)
  then show ?thesis
  proof cases
    case 1
    then show ?thesis by (simp add: s serializeCoinbaseHeight_def unat_eq_0)
  next
    case 2
    then have "1 \<le> h" "h \<le> 16" by linarith+
    moreover have "word_of_int (0x50 + h) = b" using 2 by (simp flip: uint_nat)
    ultimately show ?thesis by (simp add: s serializeCoinbaseHeight_def)
  next
    case 3
    then show ?thesis by (simp add: s compareScript_prefix)
  qed
qed

section \<open>Properties\<close>

text \<open>
  C34: a transaction passes \<open>CheckTransactionSanity\<close> exactly when it has inputs and outputs, is small enough,
  creates no negative amount and at most \<open>MaxSatoshi\<close> in total, as a sum of integers and without overflow,
  spends no output twice, and either is a coinbase with a script of 2 to 100 bytes or has no null input.
\<close>

theorem CheckTransactionSanity_correct:
  assumes "0 \<le> MaxSatoshi L" "MaxSatoshi L < 2 ^ 62"
  shows "CheckTransactionSanity L tx = Inr () \<longleftrightarrow>
    tx_TxIn tx \<noteq> [] \<and> tx_TxOut tx \<noteq> [] \<and> txSizeStripped L tx \<le> MaxBlockBaseSize
    \<and> (\<forall>txOut \<in> set (tx_TxOut tx). 0 \<le> Value txOut) \<and> sum_list (map Value (tx_TxOut tx)) \<le> MaxSatoshi L
    \<and> distinct (map PreviousOutPoint (tx_TxIn tx))
    \<and> (if IsCoinBase tx then length (SignatureScript (hd (tx_TxIn tx))) \<in> {2..100}
       else \<forall>txIn \<in> set (tx_TxIn tx). \<not> isNullOutpoint (PreviousOutPoint txIn))"
  using CheckTransactionSanity_iff[of L tx] assms
  by (simp add: money_ok_def sane_tx_def value_out_def inputs_def list_all_iff)

text \<open>
  C12: for a sane transaction that is not a coinbase, \<open>CheckTransactionInputs\<close> succeeds exactly when every
  input finds a coin of the view that is in range and, when a coinbase made it, mature, the coins are worth at
  most \<open>MaxSatoshi\<close> and at least the outputs; the fee it returns is then the difference, as integers.
\<close>

theorem CheckTransactionInputs_correct:
  assumes "0 \<le> MaxSatoshi L" "MaxSatoshi L < 2 ^ 62" "CheckTransactionSanity L tx = Inr ()" "\<not> IsCoinBase tx"
  shows "CheckTransactionInputs L params tx h view = Inr fee \<longleftrightarrow>
    (\<forall>p \<in> set (inputs tx). spendable L params h (view_coins view) p)
    \<and> value_in (view_coins view) tx \<le> MaxSatoshi L \<and> value_out tx \<le> value_in (view_coins view) tx
    \<and> fee = value_in (view_coins view) tx - value_out tx"
  using CheckTransactionInputs_iff[of L tx] CheckTransactionSanity_iff[of L tx] assms
  by (simp add: money_ok_def list_all_iff)

text \<open>
  A coinbase passes \<open>CheckSerializedHeight\<close> for a height below \<open>2 ^ 31\<close> exactly when its signature script
  starts with the serialized height.
\<close>

theorem CheckSerializedHeight_correct:
  assumes "0 \<le> h" "h < 2 ^ 31" "tx_TxIn tx = txIn # ins"
  shows "CheckSerializedHeight tx h = Inr () \<longleftrightarrow> (\<exists>rest. SignatureScript txIn = serializeCoinbaseHeight h @ rest)"
  using Extract_prefix[of tx h txIn ins] Extract_serialized[OF assms(1,2,3)] assms(3)
  by (auto simp: CheckSerializedHeight_def bindE_Inr_iff split: if_splits)

section \<open>Witnesses\<close>

theorem CheckTransactionSanity_correct_witness: "CheckTransactionSanity header_root_lib sample_spend = Inr ()"
  using CheckTransactionSanity_correct[of header_root_lib sample_spend] sample_coinbases
  by (simp add: header_root_lib_def sample_spend_def MaxBlockBaseSize_def isNullOutpoint_def sample_outpoint_def maxUint32_def)

theorem CheckTransactionInputs_correct_witness:
  "CheckTransactionInputs header_root_lib sample_params sample_spend 8 sample_view = Inr 0"
proof -
  have "CheckTransactionSanity header_root_lib sample_spend = Inr ()"
    using sample_coinbases(2)
    by (simp add: CheckTransactionSanity_def header_root_lib_def sample_spend_def MaxBlockBaseSize_def isNullOutpoint_def
        sample_outpoint_def maxUint32_def Let_def i64_def)
  then show ?thesis
    using CheckTransactionInputs_correct[of header_root_lib sample_spend sample_params 8 sample_view 0] sample_coinbases
    by (simp add: sample_view_coins header_root_lib_def value_in_def value_out_def inputs_def spendable_def coin_value_def)
      (simp add: sample_spend_def spendable_def coin_value_def coin_of_def sample_entry_def flag_simps)
qed

theorem CheckSerializedHeight_correct_witness:
  "CheckSerializedHeight sample_coinbase 300 = Inr () \<longleftrightarrow> (\<exists>rest. [1, 8] = serializeCoinbaseHeight 300 @ rest)"
  using CheckSerializedHeight_correct[of 300 sample_coinbase] by (simp add: sample_coinbase_def)

end
