(* ===== verification/Chain_State.thy ===== *)
theory Chain_State
  imports Validate_Tx Utxo_Cache Threshold Block_Index
begin

text \<open>
  The state of a \<open>BlockChain\<close> (chain.go) and the way its methods are written down.  A method is a
  computation over the state: it returns a value or an error together with the state it leaves, also when it
  fails, and \<open>None\<close> when a walk over pointers does not return.  What is fixed when the instance is created,
  the libraries it calls, and the readings of the clock during a call are the fields of \<open>chain_env\<close>.  The
  state holds the heap of block nodes, the in-memory structures of the chain, and the database: its buckets,
  and the block store of package \<open>database\<close> behind its own operations.
\<close>

section \<open>Computations\<close>

type_synonym ('s, 'a) comp = "'s \<Rightarrow> ((error + 'a) \<times> 's) option"

definition retC :: "'a \<Rightarrow> ('s, 'a) comp" where "retC x s = Some (Inr x, s)"
definition failC :: "error \<Rightarrow> ('s, 'a) comp" where "failC e s = Some (Inl e, s)"
definition readC :: "('s \<Rightarrow> 'a) \<Rightarrow> ('s, 'a) comp" where "readC f s = Some (Inr (f s), s)"
definition modC :: "('s \<Rightarrow> 's) \<Rightarrow> ('s, unit) comp" where "modC f s = Some (Inr (), f s)"
definition liftE :: "error + 'a \<Rightarrow> ('s, 'a) comp" where "liftE r s = Some (r, s)"

text \<open>A computation on the state that does not change it and may not return.\<close>

definition runO :: "('s \<Rightarrow> 'a option) \<Rightarrow> ('s, 'a) comp" where
  "runO f s = map_option (\<lambda>x. (Inr x, s)) (f s)"

definition bindC :: "('s, 'a) comp \<Rightarrow> ('a \<Rightarrow> ('s, 'b) comp) \<Rightarrow> ('s, 'b) comp" where
  "bindC m f s = (case m s of
     None \<Rightarrow> None
   | Some (Inl e, s') \<Rightarrow> Some (Inl e, s')
   | Some (Inr x, s') \<Rightarrow> f x s')"

definition seqC :: "('s, unit) comp \<Rightarrow> ('s, 'b) comp \<Rightarrow> ('s, 'b) comp" where
  "seqC m n = bindC m (\<lambda>_. n)"

definition whenC :: "bool \<Rightarrow> ('s, unit) comp \<Rightarrow> ('s, unit) comp" where
  "whenC b m = (if b then m else retC ())"

text \<open>The check \<open>if b { return err }\<close>.\<close>

definition guardC :: "bool \<Rightarrow> error \<Rightarrow> ('s, unit) comp" where
  "guardC b e = (if b then failC e else retC ())"

text \<open>A call whose error the caller looks at: the error is a value.\<close>

definition tryC :: "('s, 'a) comp \<Rightarrow> ('s, error + 'a) comp" where
  "tryC m s = map_option (\<lambda>(r, s'). (Inr r, s')) (m s)"

fun foldC :: "('x \<Rightarrow> 'a \<Rightarrow> ('s, 'a) comp) \<Rightarrow> 'x list \<Rightarrow> 'a \<Rightarrow> ('s, 'a) comp" where
  "foldC f [] a = retC a"
| "foldC f (x # xs) a = bindC (f x a) (foldC f xs)"

lemma comp_Inr_iffs:
  "retC x s = Some (Inr y, s') \<longleftrightarrow> y = x \<and> s' = s"
  "failC e s = Some (Inr y, s') \<longleftrightarrow> False"
  "readC f s = Some (Inr y, s') \<longleftrightarrow> y = f s \<and> s' = s"
  "modC g s = Some (Inr u, s') \<longleftrightarrow> s' = g s"
  "liftE r s = Some (Inr y, s') \<longleftrightarrow> r = Inr y \<and> s' = s"
  "runO h s = Some (Inr y, s') \<longleftrightarrow> h s = Some y \<and> s' = s"
  "guardC b e s = Some (Inr u, s') \<longleftrightarrow> \<not> b \<and> s' = s"
  by (auto simp: retC_def failC_def readC_def modC_def liftE_def runO_def guardC_def)

lemma bindC_Inr_iff:
  "bindC m f s = Some (Inr y, s'') \<longleftrightarrow> (\<exists>x s'. m s = Some (Inr x, s') \<and> f x s' = Some (Inr y, s''))"
  by (auto simp: bindC_def split: option.splits sum.splits)

lemma seqC_Inr_iff:
  "seqC m n s = Some (Inr y, s'') \<longleftrightarrow> (\<exists>s'. m s = Some (Inr (), s') \<and> n s' = Some (Inr y, s''))"
  by (auto simp: seqC_def bindC_Inr_iff)

lemma whenC_Inr_iff:
  "whenC b m s = Some (Inr u, s') \<longleftrightarrow> (if b then m s = Some (Inr (), s') else s' = s)"
  by (auto simp: whenC_def comp_Inr_iffs)

lemmas comp_iffs = comp_Inr_iffs bindC_Inr_iff seqC_Inr_iff whenC_Inr_iff

text \<open>For running a computation by simplification.\<close>

lemmas comp_defs = retC_def failC_def readC_def modC_def liftE_def runO_def guardC_def whenC_def seqC_def bindC_def

text \<open>A property of states that every step of a computation keeps, whether it fails or not.\<close>

definition keeps :: "('s \<Rightarrow> 's \<Rightarrow> bool) \<Rightarrow> ('s, 'a) comp \<Rightarrow> bool" where
  "keeps R m \<longleftrightarrow> (\<forall>s r s'. m s = Some (r, s') \<longrightarrow> R s s')"

lemma keepsD: "keeps R m \<Longrightarrow> m s = Some (r, s') \<Longrightarrow> R s s'"
  by (simp add: keeps_def)

lemma keeps_simple:
  "reflp R \<Longrightarrow> keeps R (retC x)" "reflp R \<Longrightarrow> keeps R (failC e)" "reflp R \<Longrightarrow> keeps R (readC f)"
  "reflp R \<Longrightarrow> keeps R (liftE r)" "reflp R \<Longrightarrow> keeps R (runO h)" "reflp R \<Longrightarrow> keeps R (guardC b e)"
  "(\<And>s. R s (g s)) \<Longrightarrow> keeps R (modC g)"
  by (auto simp: keeps_def retC_def failC_def readC_def liftE_def runO_def guardC_def modC_def reflp_def)

lemma keeps_bindC: "transp R \<Longrightarrow> keeps R m \<Longrightarrow> (\<And>x. keeps R (f x)) \<Longrightarrow> keeps R (bindC m f)"
  unfolding keeps_def bindC_def by (auto split: option.splits sum.splits) (meson transpD)

lemma keeps_seqC: "transp R \<Longrightarrow> keeps R m \<Longrightarrow> keeps R n \<Longrightarrow> keeps R (seqC m n)"
  by (simp add: seqC_def keeps_bindC)

lemma keeps_whenC: "reflp R \<Longrightarrow> keeps R m \<Longrightarrow> keeps R (whenC b m)"
  by (simp add: whenC_def keeps_simple)

lemma keeps_tryC: "keeps R m \<Longrightarrow> keeps R (tryC m)"
  by (auto simp: keeps_def tryC_def)

lemma keeps_foldC: "reflp R \<Longrightarrow> transp R \<Longrightarrow> (\<And>x a. keeps R (f x a)) \<Longrightarrow> keeps R (foldC f xs a)"
  by (induction xs arbitrary: a) (simp_all add: keeps_simple keeps_bindC)

section \<open>The chain\<close>

record Checkpoint =
  cp_Height :: int
  cp_Hash :: hash

text \<open>The header type of package \<open>nogopow\<close> and the functions of that package that the chain calls.\<close>

record nogo_Header =
  ParentHash :: hash
  nh_Root :: hash
  nh_TxHash :: hash
  nh_Number :: int
  nh_GasLimit :: uint64
  nh_Time :: uint64
  nh_Difficulty :: int
  nh_Nonce :: "byte list"

record pow_lib =
  nogo_CompactToBig :: "uint32 \<Rightarrow> int"
  nogo_Hash :: "nogo_Header \<Rightarrow> hash"
  ComputePoWHash :: "hash \<Rightarrow> hash \<Rightarrow> hash"
  CalcDifficulty :: "uint64 \<Rightarrow> nogo_Header \<Rightarrow> int"

text \<open>\<open>FetchBlock\<close> stands for \<open>dbTx.FetchBlock\<close> followed by \<open>nogoutil.NewBlockFromBytes\<close>.\<close>

record 'bl store_ops =
  HasBlock :: "'bl \<Rightarrow> hash \<Rightarrow> error + bool"
  StoreBlock :: "'bl \<Rightarrow> Block \<Rightarrow> error + 'bl"
  FetchBlock :: "'bl \<Rightarrow> hash \<Rightarrow> error + Block"
  PruneBlocks :: "'bl \<Rightarrow> uint64 \<Rightarrow> error + hash list \<times> 'bl"

record ('pk, 'b, 'bl) chain_env =
  e_wire :: wire_lib
  e_pow :: pow_lib
  e_keys :: "'pk key_lib"
  e_bucket :: "'b bucket_ops"
  e_store :: "'bl store_ops"
  e_log2 :: "int \<Rightarrow> nat"
  SerializeHeader :: "BlockHeader \<Rightarrow> error + byte list"
  NewHashFromStr :: "string \<Rightarrow> hash option"
  checkpoints :: "Checkpoint list"
  checkpointsByHeight :: "int \<rightharpoonup> Checkpoint"
  chainParams :: Params
  Deployments :: "ConsensusDeployment list"
  blocksPerRetarget :: int
  pruneTarget :: uint64
  AdjustedTime :: int
  Now :: int

record BestState =
  st_Hash :: hash
  st_Height :: int
  st_Bits :: uint32
  st_BlockSize :: uint64
  st_BlockWeight :: uint64
  st_NumTxns :: uint64
  st_TotalTxns :: uint64
  st_MedianTime :: int

record orphanBlock =
  ob_block :: Block
  ob_expiration :: int

record ('b, 'bl) chain_db =
  blockRows :: 'b
  hashIndex :: 'b
  heightIndex :: 'b
  spendBucket :: 'b
  utxoBucket :: 'b
  metaBucket :: 'b
  blockStore :: 'bl

record ('b, 'bl) BlockChain =
  nodes :: heap
  bindex :: blockIndex
  bestChain :: chainView
  bestHeader :: chainView
  utxos :: utxoCache
  orphans :: "(hash \<times> orphanBlock) list"
  prevOrphans :: "hash \<rightharpoonup> orphanBlock list"
  oldestOrphan :: "orphanBlock option"
  nextCheckpoint :: "Checkpoint option"
  checkpointNode :: "nid option"
  stateSnapshot :: BestState
  warningCaches :: "thresholdStateCache list"
  deploymentCaches :: "thresholdStateCache list"
  cdb :: "('b, 'bl) chain_db"

definition newBestState ::
  "blockNode \<Rightarrow> uint64 \<Rightarrow> uint64 \<Rightarrow> uint64 \<Rightarrow> uint64 \<Rightarrow> int \<Rightarrow> BestState" where
  "newBestState node sz weight numTxns totalTxns medianTime =
    \<lparr>st_Hash = bn_hash node, st_Height = bn_height node, st_Bits = bn_bits node, st_BlockSize = sz, st_BlockWeight = weight,
     st_NumTxns = numTxns, st_TotalTxns = totalTxns, st_MedianTime = medianTime\<rparr>"

text \<open>\<open>CalcPastMedianTime\<close> of a node of the heap, as a time.\<close>

definition node_median :: "heap \<Rightarrow> nid \<Rightarrow> int" where
  "node_median mem n = unix_time (CalcPastMedianTime ctx_Timestamp ctx_Parent (mem, n))"

text \<open>The threshold state of a deployment, with the chain's caches.\<close>

definition deployment_state ::
  "('pk, 'b, 'bl) chain_env \<Rightarrow> nid option \<Rightarrow> nat \<Rightarrow> (('b, 'bl) BlockChain, ThresholdState) comp" where
  "deployment_state env prevNode deploymentID s =
    map_option (\<lambda>(r, caches). (r, s\<lparr>deploymentCaches := caches\<rparr>))
      (deploymentState (nodes s) (chainParams env) (Deployments env) prevNode deploymentID (deploymentCaches s))"

text \<open>
  The coins the chain shows: those of the cache over the database.
\<close>

definition chain_coins :: "('pk, 'b, 'bl) chain_env \<Rightarrow> ('b, 'bl) BlockChain \<Rightarrow> coins" where
  "chain_coins env s = cache_coins (e_keys env) (e_bucket env) (utxoBucket (cdb s)) (utxos s)"

definition chain_cache_ok :: "('pk, 'b, 'bl) chain_env \<Rightarrow> ('b, 'bl) BlockChain \<Rightarrow> bool" where
  "chain_cache_ok env s \<longleftrightarrow> cache_inv (e_keys env) (e_bucket env) (utxoBucket (cdb s)) (utxos s)"

section \<open>A sample chain\<close>

text \<open>Three blocks, the second of them a checkpoint; deployments that are always active; one coin in the database.\<close>

definition sample_pow :: pow_lib where
  "sample_pow = \<lparr>nogo_CompactToBig = CompactToBig, nogo_Hash = ParentHash, ComputePoWHash = (\<lambda>blockHash seed. replicate 32 0),
    CalcDifficulty = (\<lambda>t h. nh_Difficulty h)\<rparr>"

definition map_store :: "(hash \<rightharpoonup> Block) store_ops" where
  "map_store = \<lparr>HasBlock = (\<lambda>m h. Inr (m h \<noteq> None)), StoreBlock = (\<lambda>m b. Inr (m(hMerkleRoot (Header b) \<mapsto> b))),
    FetchBlock = (\<lambda>m h. case m h of None \<Rightarrow> Inl CalleeError | Some b \<Rightarrow> Inr b), PruneBlocks = (\<lambda>m t. Inr ([], m))\<rparr>"

definition active_deployment :: ConsensusDeployment where
  "active_deployment = \<lparr>BitNumber = 0, MinActivationHeight = 0, CustomActivationThreshold = 0,
    StarterHasStarted = (\<lambda>_. True), EnderHasEnded = (\<lambda>_. False), EffectiveAlwaysActiveHeight = 0\<rparr>"

definition sample_checkpoint :: Checkpoint where
  "sample_checkpoint = \<lparr>cp_Height = 1, cp_Hash = [1]\<rparr>"

definition sample_env where
  "sample_env = \<lparr>e_wire = header_root_lib, e_pow = sample_pow, e_keys = sample_keys, e_bucket = map_bucket, e_store = map_store,
    e_log2 = (\<lambda>_. 5), SerializeHeader = (\<lambda>h. Inr (hMerkleRoot h)),
    NewHashFromStr = (\<lambda>str. None), checkpoints = [sample_checkpoint],
    checkpointsByHeight = [1 \<mapsto> sample_checkpoint], chainParams = sample_params,
    Deployments = [active_deployment, active_deployment, active_deployment], blocksPerRetarget = 20160, pruneTarget = 0,
    AdjustedTime = unix_time 300, Now = unix_time 300\<rparr>"

definition sample_chain :: "(byte list \<rightharpoonup> byte list, hash \<rightharpoonup> Block) BlockChain" where
  "sample_chain = \<lparr>nodes = sample_heap, bindex = \<lparr>index = [([0], 0), ([1], 1), ([2], 2)], dirty = []\<rparr>,
    bestChain = [Some 0, Some 1, Some 2], bestHeader = [Some 0, Some 1, Some 2], utxos = empty_cache, orphans = [],
    prevOrphans = Map.empty, oldestOrphan = None, nextCheckpoint = None, checkpointNode = None,
    stateSnapshot = \<lparr>st_Hash = [2], st_Height = 2, st_Bits = 0x207fffff, st_BlockSize = 1000, st_BlockWeight = 4000,
      st_NumTxns = 1, st_TotalTxns = 3, st_MedianTime = unix_time 160\<rparr>,
    warningCaches = replicate 29 Map.empty, deploymentCaches = replicate 3 Map.empty,
    cdb = \<lparr>blockRows = Map.empty, hashIndex = Map.empty, heightIndex = Map.empty, spendBucket = Map.empty,
      utxoBucket = sample_db, metaBucket = Map.empty, blockStore = Map.empty\<rparr>\<rparr>"

lemma sample_chain_cache: "chain_cache_ok sample_env sample_chain"
  using sample_cache_inv by (simp add: chain_cache_ok_def sample_env_def sample_chain_def)

end
