(* ===== verification/Checkpoints.thy ===== *)
theory Checkpoints
  imports Chain_State
begin

text \<open>
  Checkpoints (checkpoints.go): the hard-coded blocks every chain must contain, the cached search for the last
  one that the best chain has reached, and the test for blocks that could become one.
\<close>

section \<open>The code\<close>

definition CheckpointConfirmations :: int where "CheckpointConfirmations = 2016"

definition HasCheckpoints :: "('pk, 'b, 'bl) chain_env \<Rightarrow> bool" where
  "HasCheckpoints env \<longleftrightarrow> length (checkpoints env) > 0"

definition LatestCheckpoint :: "('pk, 'b, 'bl) chain_env \<Rightarrow> Checkpoint option" where
  "LatestCheckpoint env = (if \<not> HasCheckpoints env then None else Some (checkpoints env ! (length (checkpoints env) - 1)))"

definition verifyCheckpoint :: "('pk, 'b, 'bl) chain_env \<Rightarrow> int \<Rightarrow> hash \<Rightarrow> bool" where
  "verifyCheckpoint env height h =
    (if \<not> HasCheckpoints env then True
     else case checkpointsByHeight env height of
            None \<Rightarrow> True
          | Some checkpoint \<Rightarrow> cp_Hash checkpoint = h)"

text \<open>The search backwards from index \<open>i - 1\<close>: the index and node of the last checkpoint on the best chain.\<close>

fun last_known :: "('b, 'bl) BlockChain \<Rightarrow> Checkpoint list \<Rightarrow> nat \<Rightarrow> (nat \<times> nid) option" where
  "last_known s cps 0 = None"
| "last_known s cps (Suc i) =
    (case LookupNode (bindex s) (cp_Hash (cps ! i)) of
       None \<Rightarrow> last_known s cps i
     | Some n \<Rightarrow> if contains (nodes s) (bestChain s) n then Some (i, n) else last_known s cps i)"

fun last_index :: "Checkpoint list \<Rightarrow> hash \<Rightarrow> nat \<Rightarrow> nat option" where
  "last_index cps h 0 = None"
| "last_index cps h (Suc i) = (if cp_Hash (cps ! i) = h then Some i else last_index cps h i)"

definition findPreviousCheckpoint :: "('pk, 'b, 'bl) chain_env \<Rightarrow> (('b, 'bl) BlockChain, nid option) comp" where
  "findPreviousCheckpoint env s =
    (let cps = checkpoints env; num = length cps
     in if \<not> HasCheckpoints env then Some (Inr None, s)
        else if checkpointNode s = None \<and> nextCheckpoint s = None
        then case last_known s cps num of
               Some (i, n) \<Rightarrow>
                 Some (Inr (Some n), s\<lparr>checkpointNode := Some n,
                   nextCheckpoint := (if i < num - 1 then Some (cps ! (i + 1)) else nextCheckpoint s)\<rparr>)
             | None \<Rightarrow> Some (Inr None, s\<lparr>nextCheckpoint := Some (cps ! 0)\<rparr>)
        else case nextCheckpoint s of
               None \<Rightarrow> Some (Inr (checkpointNode s), s)
             | Some nxt \<Rightarrow>
                 case tip (bestChain s) of
                   None \<Rightarrow> Some (Inl Panic, s)
                 | Some t \<Rightarrow>
                     if bn_height (nodes s ! t) < cp_Height nxt then Some (Inr (checkpointNode s), s)
                     else case LookupNode (bindex s) (cp_Hash nxt) of
                            None \<Rightarrow> Some (Inl (AssertError ''findPreviousCheckpoint failed lookup of known good block node''), s)
                          | Some n \<Rightarrow>
                              Some (Inr (Some n), s\<lparr>checkpointNode := Some n,
                                nextCheckpoint := (case last_index cps (cp_Hash nxt) num of
                                    None \<Rightarrow> None
                                  | Some i \<Rightarrow> if i < num - 1 then Some (cps ! (i + 1)) else None)\<rparr>))"

text \<open>All scripts have the one class there is.\<close>

definition nonStandardTy :: int where "nonStandardTy = 0"

definition getScriptClass :: "byte list \<Rightarrow> int" where
  "getScriptClass script = nonStandardTy"

definition isNonstandardTransaction :: "MsgTx \<Rightarrow> bool" where
  "isNonstandardTransaction tx \<longleftrightarrow> list_ex (\<lambda>txOut. getScriptClass (PkScript txOut) = nonStandardTy) (tx_TxOut tx)"

definition IsCheckpointCandidate :: "('pk, 'b, 'bl) chain_env \<Rightarrow> ('b, 'bl) BlockChain \<Rightarrow> Block \<Rightarrow> error + bool" where
  "IsCheckpointCandidate env s block =
    (case LookupNode (bindex s) (BlockHash (e_wire env) (Header block)) of
       None \<Rightarrow> Inr False
     | Some n \<Rightarrow>
         if \<not> contains (nodes s) (bestChain s) n then Inr False
         else let node = nodes s ! n in
         if bn_height node \<noteq> blk_Height block then Inl CalleeError
         else case tip (bestChain s) of
                None \<Rightarrow> Inl Panic
              | Some t \<Rightarrow>
                  if bn_height node > i32 (bn_height (nodes s ! t) - CheckpointConfirmations) then Inr False
                  else case view_next (nodes s) (bestChain s) (Some n) of
                         None \<Rightarrow> Inr False
                       | Some nextNode \<Rightarrow>
                           case parent node of
                             None \<Rightarrow> Inr False
                           | Some p \<Rightarrow>
                               let prevTime = unix_time (bn_timestamp (nodes s ! p));
                                   curTime = hTimestamp (Header block);
                                   nextTime = unix_time (bn_timestamp (nodes s ! nextNode))
                               in if prevTime > curTime \<or> nextTime < curTime then Inr False
                                  else if list_ex isNonstandardTransaction (Transactions block) then Inr False
                                  else Inr True)"

section \<open>The cached search\<close>

text \<open>
  The checkpoints in order, each recorded at its height, and a best chain that has passed the check of
  \<open>verifyCheckpoint\<close> at every checkpoint it has reached.
\<close>

definition checkpoints_ok :: "('pk, 'b, 'bl) chain_env \<Rightarrow> bool" where
  "checkpoints_ok env \<longleftrightarrow> sorted_wrt (\<lambda>a b. cp_Height a < cp_Height b) (checkpoints env)
    \<and> distinct (map cp_Hash (checkpoints env))"

definition checkpoint_reached :: "('b, 'bl) BlockChain \<Rightarrow> Checkpoint \<Rightarrow> nid \<Rightarrow> bool" where
  "checkpoint_reached s cp n \<longleftrightarrow> LookupNode (bindex s) (cp_Hash cp) = Some n \<and> contains (nodes s) (bestChain s) n"

text \<open>What the cached fields say: the node is that of a checkpoint, and the next one is its successor.\<close>

definition cache_position :: "('pk, 'b, 'bl) chain_env \<Rightarrow> ('b, 'bl) BlockChain \<Rightarrow> bool" where
  "cache_position env s \<longleftrightarrow>
    (case (checkpointNode s, nextCheckpoint s) of
       (None, None) \<Rightarrow> True
     | (None, Some nxt) \<Rightarrow> checkpoints env \<noteq> [] \<and> nxt = checkpoints env ! 0
     | (Some n, None) \<Rightarrow> checkpoints env \<noteq> [] \<and> checkpoint_reached s (last (checkpoints env)) n
     | (Some n, Some nxt) \<Rightarrow> \<exists>i. Suc i < length (checkpoints env) \<and> nxt = checkpoints env ! Suc i
         \<and> checkpoint_reached s (checkpoints env ! i) n)"

lemma last_known_Some:
  "last_known s cps k = Some (i, n) \<Longrightarrow> i < k \<and> checkpoint_reached s (cps ! i) n"
  by (induction k) (auto simp: checkpoint_reached_def split: option.splits if_splits)

lemma last_known_None: "last_known s cps k = None \<Longrightarrow> i < k \<Longrightarrow> \<not> checkpoint_reached s (cps ! i) n"
  by (induction k) (auto simp: checkpoint_reached_def less_Suc_eq split: option.splits if_splits)

lemma last_known_max: "last_known s cps k = Some (i, n) \<Longrightarrow> i < j \<Longrightarrow> j < k \<Longrightarrow> \<not> checkpoint_reached s (cps ! j) m"
  by (induction k) (auto simp: checkpoint_reached_def less_Suc_eq split: option.splits if_splits)

lemma last_index_distinct:
  assumes "distinct (map cp_Hash cps)" "i < k" "k \<le> length cps"
  shows "last_index cps (cp_Hash (cps ! i)) k = Some i"
  using assms(2,3)
proof (induction k)
  case (Suc k)
  have "cp_Hash (cps ! k) = cp_Hash (cps ! i) \<longleftrightarrow> k = i"
    using assms(1) Suc.prems nth_eq_iff_index_eq[of "map cp_Hash cps" k i] by simp
  then show ?case using Suc by (auto simp: less_Suc_eq)
qed simp

lemma reached_cong [simp]: "checkpoint_reached (s\<lparr>checkpointNode := c, nextCheckpoint := x\<rparr>) = checkpoint_reached s"
  by (rule ext, rule ext, simp add: checkpoint_reached_def)

text \<open>Both searches leave the position at a checkpoint and its successor.\<close>

definition successor :: "('pk, 'b, 'bl) chain_env \<Rightarrow> nat \<Rightarrow> Checkpoint option" where
  "successor env i = (if i < length (checkpoints env) - 1 then Some (checkpoints env ! (i + 1)) else None)"

lemma position_at:
  assumes "i < length (checkpoints env)" "checkpoint_reached s (checkpoints env ! i) n"
  shows "cache_position env (s\<lparr>checkpointNode := Some n, nextCheckpoint := successor env i\<rparr>)"
proof (cases "Suc i < length (checkpoints env)")
  case True
  then have "successor env i = Some (checkpoints env ! Suc i)" by (simp add: successor_def)
  then show ?thesis using True assms(2) by (auto simp: cache_position_def)
next
  case False
  then have "i = length (checkpoints env) - 1" "checkpoints env \<noteq> []" using assms(1) by auto
  then have "last (checkpoints env) = checkpoints env ! i" "successor env i = None"
    by (simp_all add: last_conv_nth successor_def)
  then show ?thesis using assms(2) \<open>checkpoints env \<noteq> []\<close> by (simp add: cache_position_def)
qed

lemma next_position:
  assumes "cache_position env s" "nextCheckpoint s = Some nxt"
  obtains i where "i < length (checkpoints env)" "nxt = checkpoints env ! i"
  using assms by (auto simp: cache_position_def split: option.splits)

lemma find_first:
  assumes "checkpoints env \<noteq> []" "checkpointNode s = None" "nextCheckpoint s = None"
  shows "findPreviousCheckpoint env s = (case last_known s (checkpoints env) (length (checkpoints env)) of
      Some (i, n) \<Rightarrow> Some (Inr (Some n), s\<lparr>checkpointNode := Some n, nextCheckpoint := successor env i\<rparr>)
    | None \<Rightarrow> Some (Inr None, s\<lparr>checkpointNode := None, nextCheckpoint := Some (checkpoints env ! 0)\<rparr>))"
  using assms by (auto simp: findPreviousCheckpoint_def HasCheckpoints_def Let_def successor_def split: option.splits)

lemma find_next:
  assumes "checkpoints_ok env" "i < length (checkpoints env)" "nextCheckpoint s = Some (checkpoints env ! i)"
    "tip (bestChain s) = Some t" "cp_Height (checkpoints env ! i) \<le> bn_height (nodes s ! t)"
    "checkpoint_reached s (checkpoints env ! i) n"
  shows "findPreviousCheckpoint env s = Some (Inr (Some n), s\<lparr>checkpointNode := Some n, nextCheckpoint := successor env i\<rparr>)"
proof -
  have "last_index (checkpoints env) (cp_Hash (checkpoints env ! i)) (length (checkpoints env)) = Some i"
    using last_index_distinct[of "checkpoints env" i] assms(1,2) by (simp add: checkpoints_ok_def)
  moreover have "HasCheckpoints env" using assms(2) by (auto simp: HasCheckpoints_def)
  ultimately show ?thesis
    using assms(3-6) by (simp add: findPreviousCheckpoint_def checkpoint_reached_def successor_def)
qed

text \<open>The node of the most recent checkpoint on the best chain; \<open>None\<close> when the chain has no checkpoint.\<close>

definition latest_checkpoint :: "('pk, 'b, 'bl) chain_env \<Rightarrow> ('b, 'bl) BlockChain \<Rightarrow> nid option \<Rightarrow> bool" where
  "latest_checkpoint env s r \<longleftrightarrow>
    (case r of
       None \<Rightarrow> \<forall>cp \<in> set (checkpoints env). \<forall>n. \<not> checkpoint_reached s cp n
     | Some n \<Rightarrow> \<exists>cp \<in> set (checkpoints env). checkpoint_reached s cp n
         \<and> (\<forall>later \<in> set (checkpoints env). cp_Height cp < cp_Height later \<longrightarrow> (\<forall>m. \<not> checkpoint_reached s later m)))"

text \<open>A chain with tip \<open>t\<close> that has exactly the checkpoints up to its height.\<close>

definition meets_checkpoints :: "('pk, 'b, 'bl) chain_env \<Rightarrow> ('b, 'bl) BlockChain \<Rightarrow> nid \<Rightarrow> bool" where
  "meets_checkpoints env s t \<longleftrightarrow>
    (\<forall>cp \<in> set (checkpoints env). (\<exists>n. checkpoint_reached s cp n) \<longleftrightarrow> cp_Height cp \<le> bn_height (nodes s ! t))"

lemma cp_order: "checkpoints_ok env \<Longrightarrow> i < length (checkpoints env) \<Longrightarrow> j < length (checkpoints env)
  \<Longrightarrow> cp_Height (checkpoints env ! i) < cp_Height (checkpoints env ! j) \<longleftrightarrow> i < j"
  unfolding checkpoints_ok_def sorted_wrt_iff_nth_less by (metis linorder_neqE_nat order_less_asym order_less_irrefl)

lemma latest_at:
  assumes "checkpoints_ok env" "i < length (checkpoints env)" "checkpoint_reached s (checkpoints env ! i) n"
    "\<And>j m. i < j \<Longrightarrow> j < length (checkpoints env) \<Longrightarrow> \<not> checkpoint_reached s (checkpoints env ! j) m"
  shows "latest_checkpoint env s (Some n)"
  unfolding latest_checkpoint_def option.case
proof (intro bexI conjI ballI impI allI)
  fix cp m assume "cp \<in> set (checkpoints env)" "cp_Height (checkpoints env ! i) < cp_Height cp"
  then show "\<not> checkpoint_reached s cp m" using assms cp_order[OF assms(1,2)] by (auto simp: in_set_conv_nth)
qed (use assms(2,3) in simp_all)

section \<open>Properties\<close>

text \<open>
  C29: on a chain that has exactly the checkpoints up to its height, \<open>findPreviousCheckpoint\<close> does not fail, keeps its
  cached position between two neighbouring checkpoints and changes nothing else.  The first call, and every call after
  the last checkpoint, returns the node of the most recent checkpoint on the best chain, nil when there is none.  Other
  calls return the cached node until the tip reaches the next checkpoint, then the node of that one; this is the
  most recent checkpoint as long as the tip has not reached the one after it.
\<close>

theorem findPreviousCheckpoint_correct:
  assumes "checkpoints_ok env" "cache_position env s" "tip (bestChain s) = Some t" "meets_checkpoints env s t"
  shows "\<exists>r x. findPreviousCheckpoint env s = Some (Inr r, s\<lparr>checkpointNode := r, nextCheckpoint := x\<rparr>)
    \<and> cache_position env (s\<lparr>checkpointNode := r, nextCheckpoint := x\<rparr>)
    \<and> (case nextCheckpoint s of
         None \<Rightarrow> latest_checkpoint env s r
       | Some nxt \<Rightarrow>
           (if bn_height (nodes s ! t) < cp_Height nxt then r = checkpointNode s else \<exists>n. r = Some n \<and> checkpoint_reached s nxt n)
           \<and> ((\<forall>cp \<in> set (checkpoints env). cp_Height nxt < cp_Height cp \<longrightarrow> bn_height (nodes s ! t) < cp_Height cp)
               \<longrightarrow> latest_checkpoint env s r))"
    (is "\<exists>r x. ?res r x \<and> ?pos r x \<and> ?right r")
proof -
  let ?cps = "checkpoints env" and ?k = "length (checkpoints env)" and ?ht = "bn_height (nodes s ! t)"
  have met: "(\<exists>n. checkpoint_reached s (?cps ! j) n) \<longleftrightarrow> cp_Height (?cps ! j) \<le> ?ht" if "j < ?k" for j
    using assms(4) that by (simp add: meets_checkpoints_def)
  have moved: ?thesis
    if "findPreviousCheckpoint env s = Some (Inr (Some n), s\<lparr>checkpointNode := Some n, nextCheckpoint := successor env i\<rparr>)"
      "i < ?k" "checkpoint_reached s (?cps ! i) n" "?right (Some n)" for i n
    using that position_at[OF that(2,3)] by (intro exI[of _ "Some n"] exI[of _ "successor env i"]) simp
  have unchanged: ?thesis if "findPreviousCheckpoint env s = Some (Inr (checkpointNode s), s)" "?right (checkpointNode s)"
    using that assms(2) by (intro exI[of _ "checkpointNode s"] exI[of _ "nextCheckpoint s"]) simp
  consider "?cps = []" | "?cps \<noteq> []" "checkpointNode s = None" "nextCheckpoint s = None"
    | n where "?cps \<noteq> []" "checkpointNode s = Some n" "nextCheckpoint s = None"
    | nxt where "nextCheckpoint s = Some nxt" by blast
  then show ?thesis
  proof cases
    case 1
    then have "checkpointNode s = None" "nextCheckpoint s = None"
      using assms(2) by (auto simp: cache_position_def split: option.splits)
    then show ?thesis using 1
      by (intro unchanged) (simp_all add: findPreviousCheckpoint_def HasCheckpoints_def latest_checkpoint_def)
  next
    case 2
    show ?thesis
    proof (cases "last_known s ?cps ?k")
      case None
      have "latest_checkpoint env s None"
        using last_known_None[OF None] by (auto simp: latest_checkpoint_def in_set_conv_nth)
      then show ?thesis using 2 None find_first[OF 2]
        by (intro exI[of _ None] exI[of _ "Some (?cps ! 0)"]) (simp add: cache_position_def)
    next
      case (Some found)
      then obtain i n where found: "last_known s ?cps ?k = Some (i, n)" by (cases found) auto
      have i: "i < ?k" "checkpoint_reached s (?cps ! i) n" using last_known_Some[OF found] by simp_all
      have "latest_checkpoint env s (Some n)"
        using latest_at[OF assms(1) i] last_known_max[OF found] by blast
      then show ?thesis by (intro moved[of n i]) (use find_first[OF 2] found i 2 in simp_all)
    qed
  next
    case (3 n)
    then have "checkpoint_reached s (?cps ! (?k - 1)) n"
      using assms(2) by (auto simp: cache_position_def last_conv_nth)
    then have "latest_checkpoint env s (Some n)" using 3(1) by (intro latest_at[OF assms(1)]) auto
    then show ?thesis using 3 by (intro unchanged) (auto simp: findPreviousCheckpoint_def HasCheckpoints_def)
  next
    case (4 nxt)
    obtain i where i: "i < ?k" "nxt = ?cps ! i" using next_position[OF assms(2) 4] by metis
    have beyond: "\<not> checkpoint_reached s (?cps ! j) m"
      if "\<forall>cp \<in> set ?cps. cp_Height nxt < cp_Height cp \<longrightarrow> ?ht < cp_Height cp" "i < j" "j < ?k" for j m
      using that met[of j] cp_order[OF assms(1) i(1) that(3)] i(2) by (meson leD nth_mem)
    show ?thesis
    proof (cases "?ht < cp_Height nxt")
      case True
      have "HasCheckpoints env" using i by (auto simp: HasCheckpoints_def)
      moreover have "latest_checkpoint env s (checkpointNode s)"
        if far: "\<forall>cp \<in> set ?cps. cp_Height nxt < cp_Height cp \<longrightarrow> ?ht < cp_Height cp"
      proof -
        have later: "\<not> checkpoint_reached s (?cps ! j) m" if "i \<le> j" "j < ?k" for j m
          using beyond[OF far _ that(2)] that met[OF i(1)] True i(2) by (cases "i = j") (auto simp: not_le)
        show ?thesis
        proof (cases "checkpointNode s")
          case None
          then have "i = 0" using assms(1,2) 4 i nth_eq_iff_index_eq[of "map cp_Hash ?cps" i 0]
            by (fastforce simp: cache_position_def checkpoints_ok_def)
          then show ?thesis using later None by (auto simp: latest_checkpoint_def in_set_conv_nth)
        next
          case (Some n)
          then obtain k where k: "Suc k < ?k" "nxt = ?cps ! Suc k" "checkpoint_reached s (?cps ! k) n"
            using assms(2) 4 by (auto simp: cache_position_def)
          then have "i = Suc k" using assms(1) i nth_eq_iff_index_eq[of "map cp_Hash ?cps" i "Suc k"]
            by (simp add: checkpoints_ok_def)
          then show ?thesis using latest_at[OF assms(1) _ k(3)] later k(1) Some by simp
        qed
      qed
      ultimately show ?thesis using 4 assms(3) True by (intro unchanged) (simp_all add: findPreviousCheckpoint_def)
    next
      case False
      then obtain n where n: "checkpoint_reached s (?cps ! i) n" using met[OF i(1)] i(2) by auto
      have "latest_checkpoint env s (Some n)"
        if "\<forall>cp \<in> set ?cps. cp_Height nxt < cp_Height cp \<longrightarrow> ?ht < cp_Height cp"
        using latest_at[OF assms(1) i(1) n] beyond[OF that] by blast
      then show ?thesis
        using find_next[OF assms(1) i(1), of s t n] False 4 i assms(3) n by (intro moved[of n i]) simp_all
    qed
  qed
qed

text \<open>
  A block that has any output is never reported as a checkpoint candidate: every script counts as
  non-standard.  A block that passes the sanity checks always has one, in its coinbase.
\<close>

theorem IsCheckpointCandidate_never:
  assumes "tx \<in> set (Transactions block)" "tx_TxOut tx \<noteq> []"
  shows "IsCheckpointCandidate env s block \<noteq> Inr True"
proof -
  have "isNonstandardTransaction tx"
    using assms(2) by (cases "tx_TxOut tx") (simp_all add: isNonstandardTransaction_def getScriptClass_def)
  then have "list_ex isNonstandardTransaction (Transactions block)" using assms(1) by (auto simp: list_ex_iff)
  then show ?thesis by (simp add: IsCheckpointCandidate_def Let_def split: option.splits)
qed

section \<open>Witnesses\<close>

theorem findPreviousCheckpoint_correct_witness:
  "\<exists>x. findPreviousCheckpoint sample_env sample_chain = Some (Inr (Some 1), sample_chain\<lparr>checkpointNode := Some 1, nextCheckpoint := x\<rparr>)"
proof -
  have reached: "checkpoint_reached sample_chain sample_checkpoint n \<longleftrightarrow> n = 1" for n
    by (auto simp: checkpoint_reached_def sample_chain_def sample_checkpoint_def LookupNode_def contains_def nodeByHeight_def
        sample_heap_def sample_node_def)
  have cps: "checkpoints sample_env = [sample_checkpoint]" by (simp add: sample_env_def)
  have "checkpoints_ok sample_env" by (simp add: checkpoints_ok_def cps)
  moreover have fresh: "cache_position sample_env sample_chain" "nextCheckpoint sample_chain = None"
    by (simp_all add: cache_position_def sample_chain_def)
  moreover have "tip (bestChain sample_chain) = Some 2" by (simp add: tip_def sample_chain_def)
  moreover have "meets_checkpoints sample_env sample_chain 2"
    using reached by (simp add: meets_checkpoints_def cps) (simp add: sample_checkpoint_def sample_chain_def sample_heap_def sample_node_def)
  ultimately obtain r x where "findPreviousCheckpoint sample_env sample_chain
        = Some (Inr r, sample_chain\<lparr>checkpointNode := r, nextCheckpoint := x\<rparr>)" "latest_checkpoint sample_env sample_chain r"
    using findPreviousCheckpoint_correct[of sample_env sample_chain 2] by auto
  then show ?thesis using reached by (cases r) (auto simp: latest_checkpoint_def cps)
qed

theorem IsCheckpointCandidate_never_witness: "IsCheckpointCandidate sample_env sample_chain spend_block \<noteq> Inr True"
  by (rule IsCheckpointCandidate_never[of sample_coinbase]) (simp_all add: spend_block_def sample_coinbase_def)

end
