(* ===== verification/Validate_Header.thy ===== *)
theory Validate_Header
  imports Checkpoints
begin

text \<open>
  The rules on block headers (validate.go): proof of work, the sanity of a header, the difficulty its bits must
  have, and its place in the chain.  The hash and the difficulty controller of package \<open>nogopow\<close> are fields of
  \<open>pow_lib\<close>.  \<open>CheckBlockHeaderContext\<close> is a function on two interfaces; here they are the chain and its block
  nodes, and an argument tells whether the values have these types dynamically, which the code asks.
\<close>

section \<open>Proof of work\<close>

type_synonym BehaviorFlags = uint32

definition BFFastAdd :: BehaviorFlags where "BFFastAdd = 1"
definition BFNoPoWCheck :: BehaviorFlags where "BFNoPoWCheck = 2"
definition BFNone :: BehaviorFlags where "BFNone = 0"

text \<open>The header that is hashed, as the miner builds it; the nonce fills the last four of 32 bytes.\<close>

definition pow_header :: "BlockHeader \<Rightarrow> int \<Rightarrow> nogo_Header" where
  "pow_header header target =
    \<lparr>ParentHash = hPrevBlock header, nh_Root = hMerkleRoot header, nh_TxHash = hMerkleRoot header, nh_Number = 0,
     nh_GasLimit = ucast (hBits header), nh_Time = word_of_int (time_Unix (hTimestamp header)), nh_Difficulty = target,
     nh_Nonce = replicate 28 0 @ be32 (hNonce header)\<rparr>"

definition checkProofOfWork :: "pow_lib \<Rightarrow> BlockHeader \<Rightarrow> int \<Rightarrow> BehaviorFlags \<Rightarrow> error + unit" where
  "checkProofOfWork P header powLimit flags =
    (let target = nogo_CompactToBig P (hBits header)
     in if target \<le> 0 then Inl (ruleError ErrUnexpectedDifficulty)
        else if target > powLimit then Inl (ruleError ErrUnexpectedDifficulty)
        else if flags AND BFNoPoWCheck \<noteq> BFNoPoWCheck
        then let seed = hPrevBlock header;
                 blockHash = nogo_Hash P (pow_header header target);
                 powHash = ComputePoWHash P blockHash seed;
                 hashNum = SetBytes powHash
             in if hashNum > target then Inl (ruleError ErrHighHash) else Inr ()
        else Inr ())"

definition CheckProofOfWork :: "pow_lib \<Rightarrow> Block \<Rightarrow> int \<Rightarrow> error + unit" where
  "CheckProofOfWork P block powLimit = checkProofOfWork P (Header block) powLimit BFNone"

definition CheckBlockHeaderSanity :: "pow_lib \<Rightarrow> int \<Rightarrow> BlockHeader \<Rightarrow> int \<Rightarrow> BehaviorFlags \<Rightarrow> error + unit" where
  "CheckBlockHeaderSanity P adjustedTime header powLimit flags =
    bindE (checkProofOfWork P header powLimit flags) (\<lambda>_.
      if hTimestamp header \<noteq> unix_time (time_Unix (hTimestamp header)) then Inl (ruleError ErrInvalidTime)
      else let maxTimestamp = adjustedTime + 1000000000 * MaxTimeOffsetSeconds
      in if hTimestamp header > maxTimestamp then Inl (ruleError ErrTimeTooNew) else Inr ())"

section \<open>The required difficulty\<close>

text \<open>\<open>big.Int.Div\<close> is Euclidean division; a zero divisor panics.\<close>

definition big_Div :: "int \<Rightarrow> int \<Rightarrow> error + int" where
  "big_Div x y = (if y = 0 then Inl Panic else if y > 0 then Inr (x div y) else Inr (- (x div (- y))))"

definition calcNextRequiredDifficulty :: "pow_lib \<Rightarrow> Params \<Rightarrow> heap \<Rightarrow> nid option \<Rightarrow> int \<Rightarrow> error + uint32" where
  "calcNextRequiredDifficulty P params mem lastNode newBlockTime =
    (case lastNode of
       None \<Rightarrow> Inr (GenesisDifficultyBits params)
     | Some n \<Rightarrow>
         let parentTarget = CompactToBig (bn_bits (mem ! n));
             powLimit = CompactToBig (PowLimitBits params)
         in bindE (big_Div powLimit parentTarget) (\<lambda>parentDifficulty.
              let parentDifficulty = (if parentDifficulty = 0 then 1 else parentDifficulty);
                  parentHeader = \<lparr>ParentHash = bn_hash (mem ! n), nh_Root = zeroHash, nh_TxHash = zeroHash,
                    nh_Number = bn_height (mem ! n), nh_GasLimit = 0, nh_Time = word_of_int (bn_timestamp (mem ! n)),
                    nh_Difficulty = parentDifficulty, nh_Nonce = replicate 32 0\<rparr>;
                  newDifficulty = CalcDifficulty P (word_of_int (time_Unix newBlockTime)) parentHeader
              in bindE (big_Div powLimit newDifficulty) (\<lambda>newTarget.
                   let newTarget = (if newTarget > powLimit then powLimit else newTarget);
                       newBits = BigToCompact newTarget;
                       newBits = (if newBits > PowLimitBits params then PowLimitBits params else newBits)
                   in Inr newBits)))"

definition CalcNextRequiredDifficulty ::
  "('pk, 'b, 'bl) chain_env \<Rightarrow> ('b, 'bl) BlockChain \<Rightarrow> hash \<Rightarrow> int \<Rightarrow> error + uint32" where
  "CalcNextRequiredDifficulty env s parentHash newBlockTime =
    calcNextRequiredDifficulty (e_pow env) (chainParams env) (nodes s) (LookupNode (bindex s) parentHash) newBlockTime"

section \<open>The place in the chain\<close>

definition maxTimeWarp :: int where "maxTimeWarp = 600 * 1000000000"

text \<open>A remainder by zero panics.\<close>

definition assertNoTimeWarp :: "int \<Rightarrow> int \<Rightarrow> int \<Rightarrow> int \<Rightarrow> error + unit" where
  "assertNoTimeWarp height blocksPerReTarget headerTimestamp prevBlockTimestamp =
    (if blocksPerReTarget = 0 then Inl Panic
     else if go_mod height blocksPerReTarget \<noteq> 0 then Inr ()
     else if headerTimestamp < prevBlockTimestamp - maxTimeWarp then Inl (ruleError ErrTimewarpAttack)
     else Inr ())"

definition CheckBlockHeaderContext ::
  "('pk, 'b, 'bl) chain_env \<Rightarrow> BlockHeader \<Rightarrow> nid \<Rightarrow> BehaviorFlags \<Rightarrow> bool \<Rightarrow> bool \<Rightarrow> (('b, 'bl) BlockChain, unit) comp" where
  "CheckBlockHeaderContext env header prevNode flags native skipCheckpoint =
    bindC (readC nodes) (\<lambda>mem.
    let height = i32 (bn_height (mem ! prevNode) + 1);
        params = chainParams env;
        fastAdd = (flags AND BFFastAdd = BFFastAdd)
    in seqC (whenC (\<not> fastAdd)
         (bindC (liftE (if native then calcNextRequiredDifficulty (e_pow env) params mem (Some prevNode) (hTimestamp header)
                        else Inr (PowLimitBits params))) (\<lambda>expectedDifficulty.
          seqC (guardC (hBits header \<noteq> expectedDifficulty) (ruleError ErrUnexpectedDifficulty))
         (seqC (guardC (\<not> hTimestamp header > node_median mem prevNode) (ruleError ErrTimeTooOld))
               (whenC (EnforceBIP94 params)
                 (liftE (assertNoTimeWarp height (blocksPerRetarget env) (hTimestamp header)
                           (unix_time (bn_timestamp (mem ! prevNode))))))))))
      (seqC (guardC (hVersion header < 2 \<and> height \<ge> BIP0034Height params
                     \<or> hVersion header < 3 \<and> height \<ge> BIP0066Height params
                     \<or> hVersion header < 4 \<and> height \<ge> BIP0065Height params) (ruleError ErrBlockVersionTooOld))
      (if skipCheckpoint then retC ()
       else seqC (guardC (\<not> verifyCheckpoint env height (BlockHash (e_wire env) header)) (ruleError ErrBadCheckpoint))
           (bindC (findPreviousCheckpoint env) (\<lambda>checkpointNode.
              case checkpointNode of
                None \<Rightarrow> retC ()
              | Some c \<Rightarrow> guardC (height < bn_height (mem ! c)) (ruleError ErrForkTooOld))))))"

section \<open>Accepted headers\<close>

lemma checkProofOfWork_iff:
  "checkProofOfWork P header powLimit flags = Inr () \<longleftrightarrow>
    0 < nogo_CompactToBig P (hBits header) \<and> nogo_CompactToBig P (hBits header) \<le> powLimit
    \<and> (flags AND BFNoPoWCheck \<noteq> BFNoPoWCheck \<longrightarrow>
        SetBytes (ComputePoWHash P (nogo_Hash P (pow_header header (nogo_CompactToBig P (hBits header)))) (hPrevBlock header))
          \<le> nogo_CompactToBig P (hBits header))"
  by (auto simp: checkProofOfWork_def Let_def)

lemma header_sanity_time:
  "CheckBlockHeaderSanity P now header powLimit flags = Inr () \<Longrightarrow>
    hTimestamp header = unix_time (time_Unix (hTimestamp header)) \<and> hTimestamp header \<le> now + 7200000000000"
  by (auto simp: CheckBlockHeaderSanity_def MaxTimeOffsetSeconds_def bindE_Inr_iff Let_def split: if_splits)

lemma header_context_full:
  assumes "CheckBlockHeaderContext env header p flags True skip s = Some (Inr (), s')" "flags AND BFFastAdd \<noteq> BFFastAdd"
  shows "calcNextRequiredDifficulty (e_pow env) (chainParams env) (nodes s) (Some p) (hTimestamp header) = Inr (hBits header)"
    and "node_median (nodes s) p < hTimestamp header"
  using assms by (auto simp: CheckBlockHeaderContext_def comp_iffs Let_def)

lemma collect_ctx_append:
  assumes "wf_heap mem" "n < length mem"
  shows "collect_timestamps ctx_Timestamp ctx_Parent k (Some (mem @ xs, n)) = collect_timestamps ctx_Timestamp ctx_Parent k (Some (mem, n))"
  using assms(2)
proof (induction k arbitrary: n)
  case (Suc k)
  show ?case
  proof (cases "parent (mem ! n)")
    case None
    then show ?thesis using Suc.prems by (cases k) (simp_all add: ctx_Parent_def ctx_Timestamp_def nth_append)
  next
    case (Some p)
    then have "p < length mem" using wf_parent[OF assms(1) Suc.prems Some] by simp
    then show ?thesis using Suc Some by (simp add: ctx_Parent_def ctx_Timestamp_def nth_append)
  qed
qed simp

lemma node_median_append: "wf_heap mem \<Longrightarrow> n < length mem \<Longrightarrow> node_median (mem @ xs) n = node_median mem n"
  by (simp add: node_median_def CalcPastMedianTime_def collect_ctx_append)

text \<open>The bits demanded of the next block decode to a target that the proof-of-work check allows.\<close>

lemma required_bits:
  assumes "0 < CompactToBig (PowLimitBits params)" "CompactToBig (PowLimitBits params) < 2 ^ 256"
    "0 < CompactToBig (bn_bits (mem ! n))" "\<And>t h. 1 \<le> nh_Difficulty h \<Longrightarrow> 1 \<le> CalcDifficulty P t h"
  shows "\<exists>bits. calcNextRequiredDifficulty P params mem (Some n) t = Inr bits \<and> bits \<le> PowLimitBits params
    \<and> 0 \<le> CompactToBig bits \<and> CompactToBig bits \<le> CompactToBig (PowLimitBits params)"
proof -
  define lim where "lim = CompactToBig (PowLimitBits params)"
  define d0 where "d0 = lim div CompactToBig (bn_bits (mem ! n))"
  define hdr where "hdr = \<lparr>ParentHash = bn_hash (mem ! n), nh_Root = zeroHash, nh_TxHash = zeroHash,
     nh_Number = bn_height (mem ! n), nh_GasLimit = 0, nh_Time = word_of_int (bn_timestamp (mem ! n)),
     nh_Difficulty = (if d0 = 0 then 1 else d0), nh_Nonce = replicate 32 0\<rparr>"
  define d where "d = CalcDifficulty P (word_of_int (time_Unix t)) hdr"
  have lim: "0 < lim" "lim < 2 ^ 256" using assms(1,2) by (simp_all add: lim_def)
  have "0 \<le> d0" using lim assms(3) by (simp add: d0_def pos_imp_zdiv_nonneg_iff)
  then have d: "1 \<le> d" using assms(4)[of hdr] by (auto simp: d_def hdr_def)
  define x where "x = lim div d"
  have "lim div d \<le> lim div 1" using d lim by (intro zdiv_mono2) simp_all
  then have x: "0 \<le> x" "x \<le> lim" using d lim by (simp_all add: x_def pos_imp_zdiv_nonneg_iff)
  have eq: "calcNextRequiredDifficulty P params mem (Some n) t =
      Inr (if BigToCompact x > PowLimitBits params then PowLimitBits params else BigToCompact x)"
    using assms(3) d x unfolding calcNextRequiredDifficulty_def option.case Let_def big_Div_def
    by (simp add: lim_def [symmetric] d0_def [symmetric] hdr_def [symmetric] d_def [symmetric] x_def [symmetric])
  have "CompactToBig (BigToCompact x) \<le> x \<and> 0 \<le> CompactToBig (BigToCompact x)"
  proof (cases "x = 0")
    case True
    then show ?thesis by (simp add: BigToCompact_def CompactToBig_def)
  next
    case False
    then show ?thesis using compact_error_pos[of x] x lim by simp
  qed
  then show ?thesis using eq x lim by (auto simp: lim_def [symmetric])
qed

text \<open>The check of a header's context changes nothing but the cached checkpoints.\<close>

definition forget_checkpoints :: "('b, 'bl) BlockChain \<Rightarrow> ('b, 'bl) BlockChain" where
  "forget_checkpoints s = s\<lparr>nextCheckpoint := None, checkpointNode := None\<rparr>"

definition checkpoint_frame :: "('b, 'bl) BlockChain \<Rightarrow> ('b, 'bl) BlockChain \<Rightarrow> bool" where
  "checkpoint_frame s s' \<longleftrightarrow> forget_checkpoints s' = forget_checkpoints s"

lemma checkpoint_frame_rel: "reflp checkpoint_frame" "transp checkpoint_frame"
  by (auto simp: checkpoint_frame_def reflp_def transp_def)

lemma checkpoint_frame_nodes: "checkpoint_frame s s' \<Longrightarrow> nodes s' = nodes s"
  unfolding checkpoint_frame_def forget_checkpoints_def by (drule arg_cong[where f = nodes]) simp

lemma findPreviousCheckpoint_frame: "keeps checkpoint_frame (findPreviousCheckpoint env)"
  unfolding keeps_def findPreviousCheckpoint_def Let_def
  by (auto simp: checkpoint_frame_def forget_checkpoints_def split: option.splits if_splits)

lemmas checkpoint_keeps = keeps_bindC[OF checkpoint_frame_rel(2)] keeps_seqC[OF checkpoint_frame_rel(2)]
  keeps_whenC[OF checkpoint_frame_rel(1)] keeps_simple(1-6)[OF checkpoint_frame_rel(1)] findPreviousCheckpoint_frame

lemma CheckBlockHeaderContext_frame: "keeps checkpoint_frame (CheckBlockHeaderContext env header p flags native skip)"
  unfolding CheckBlockHeaderContext_def Let_def
  by (auto intro!: checkpoint_keeps split: option.split)

section \<open>Properties\<close>

text \<open>
  C35: whatever the controller answers, as long as it keeps a difficulty of at least one, the bits required of the
  next block exist and decode to a target between zero and the proof-of-work limit: the calculation neither
  panics nor asks for an easier target than the limit.
\<close>

theorem required_difficulty_in_range:
  assumes "0 < CompactToBig (PowLimitBits params)" "CompactToBig (PowLimitBits params) < 2 ^ 256"
    "0 < CompactToBig (bn_bits (mem ! n))" "\<And>t h. 1 \<le> nh_Difficulty h \<Longrightarrow> 1 \<le> CalcDifficulty P t h"
  shows "\<exists>bits. calcNextRequiredDifficulty P params mem (Some n) t = Inr bits \<and> bits \<le> PowLimitBits params
    \<and> 0 \<le> CompactToBig bits \<and> CompactToBig bits \<le> CompactToBig (PowLimitBits params)"
  using required_bits assms by blast

text \<open>
  C14: a header that passes both header checks in full above a node of a well-formed tree carries the required
  bits, a positive target within the limit, a proof-of-work hash that as a number is at most that target, and a
  timestamp after the past median time and at most two hours ahead; the node made for it keeps the tree well formed, and the past
  median time has not decreased.
\<close>

theorem accepted_header_extends:
  assumes "wf_heap (nodes s)" "p < length (nodes s)" "bn_height (nodes s ! p) < 2 ^ 31 - 1"
    "CheckBlockHeaderSanity (e_pow env) (AdjustedTime env) header (PowLimit (chainParams env)) BFNone = Inr ()"
    "CheckBlockHeaderContext env header p BFNone True skip s = Some (Inr (), s')"
  defines "target \<equiv> nogo_CompactToBig (e_pow env) (hBits header)"
  shows "\<exists>mem' n. newBlockNode BH (nodes s') header (Some p) = Some (mem', n) \<and> wf_heap mem'
    \<and> bn_height (mem' ! n) = bn_height (nodes s ! p) + 1
    \<and> node_median (nodes s) p \<le> node_median mem' n
    \<and> node_median (nodes s) p < hTimestamp header \<and> hTimestamp header \<le> AdjustedTime env + 2 * 60 * 60 * 1000000000
    \<and> calcNextRequiredDifficulty (e_pow env) (chainParams env) (nodes s) (Some p) (hTimestamp header) = Inr (hBits header)
    \<and> 0 < target \<and> target \<le> PowLimit (chainParams env)
    \<and> SetBytes (ComputePoWHash (e_pow env) (nogo_Hash (e_pow env) (pow_header header target)) (hPrevBlock header)) \<le> target"
proof -
  note ctx = header_context_full[OF assms(5)]
  have flags: "BFNone AND BFFastAdd \<noteq> BFFastAdd" "BFNone AND BFNoPoWCheck \<noteq> BFNoPoWCheck"
    by (simp_all add: BFNone_def BFFastAdd_def BFNoPoWCheck_def)
  have mem: "nodes s' = nodes s"
    using keepsD[OF CheckBlockHeaderContext_frame assms(5)] by (rule checkpoint_frame_nodes)
  obtain node where node: "newBlockNode BH (nodes s) header (Some p) = Some (nodes s @ [node], length (nodes s))"
      "wf_heap (nodes s @ [node])" "parent node = Some p" "bn_height node = bn_height (nodes s ! p) + 1"
      "bn_timestamp node = time_Unix (hTimestamp header)"
    using new_node[OF assms(1-3)] by blast
  let ?mem = "nodes s @ [node]" and ?n = "length (nodes s)"
  have time: "hTimestamp header = unix_time (bn_timestamp node)" "hTimestamp header \<le> AdjustedTime env + 7200000000000"
    using header_sanity_time[OF assms(4)] node(5) by simp_all
  have med: "node_median ?mem p = node_median (nodes s) p"
    using node_median_append[OF assms(1,2)] .
  have "node_median (nodes s) p < unix_time (bn_timestamp node)" using ctx(2) flags time by simp
  then have "node_median (nodes s) p \<le> node_median ?mem ?n"
    using median_time_monotone[OF node(2), of ?n p] node(3) med
    by (simp add: node_median_def unix_time_def nth_append)
  moreover have "checkProofOfWork (e_pow env) header (PowLimit (chainParams env)) BFNone = Inr ()"
    using assms(4) by (simp add: CheckBlockHeaderSanity_def bindE_Inr_iff)
  then have "0 < target" "target \<le> PowLimit (chainParams env)"
      "SetBytes (ComputePoWHash (e_pow env) (nogo_Hash (e_pow env) (pow_header header target)) (hPrevBlock header)) \<le> target"
    using flags(2) by (simp_all add: checkProofOfWork_iff target_def)
  ultimately show ?thesis using node ctx flags time mem by (intro exI[of _ ?mem] exI[of _ ?n]) auto
qed

section \<open>Witnesses\<close>

definition sample_header :: BlockHeader where
  "sample_header = \<lparr>hVersion = 4, hPrevBlock = [2], hMerkleRoot = replicate 32 7, hTimestamp = unix_time 280,
    hBits = 0x207fffff, hNonce = 0\<rparr>"

lemma CompactToBig_pow_limit: "CompactToBig 0x207fffff = 0x7fffff * 2 ^ 232"
  by (simp add: CompactToBig_def Let_def drop_bit_eq_div push_bit_eq_mult)

theorem required_difficulty_in_range_witness:
  "\<exists>bits. calcNextRequiredDifficulty sample_pow sample_params sample_heap (Some 2) 0 = Inr bits \<and> bits \<le> 0x207fffff"
proof -
  have "PowLimitBits sample_params = 0x207fffff" "bn_bits (sample_heap ! 2) = 0x207fffff"
    by (simp_all add: sample_params_def sample_heap_def sample_node_def)
  then show ?thesis
    using required_difficulty_in_range[of sample_params sample_heap 2 sample_pow 0]
    by (auto simp: CompactToBig_pow_limit sample_pow_def)
qed

lemma BigToCompact_pow_limit: "BigToCompact (0x7fffff * 2 ^ 232) = 0x207fffff"
  by (simp add: BigToCompact_def byte_len.simps drop_bit_eq_div push_bit_eq_mult)

lemma SetBytes_zeros: "SetBytes (replicate k 0) = 0"
  by (induction k) (simp_all add: SetBytes_def)

lemma sample_header_sane: "CheckBlockHeaderSanity sample_pow (unix_time 300) sample_header (2 ^ 255 - 1) BFNone = Inr ()"
  by (simp add: CheckBlockHeaderSanity_def checkProofOfWork_def sample_header_def sample_pow_def CompactToBig_pow_limit
      SetBytes_zeros MaxTimeOffsetSeconds_def unix_time_def time_Unix_def)

lemma sample_header_bits:
  "calcNextRequiredDifficulty sample_pow sample_params sample_heap (Some 2) (unix_time 280) = Inr 0x207fffff"
  using BigToCompact_pow_limit
  by (simp add: calcNextRequiredDifficulty_def sample_params_def sample_heap_def sample_node_def sample_pow_def
      CompactToBig_pow_limit big_Div_def)

lemma sample_median: "node_median sample_heap 2 = unix_time 160"
proof -
  have "collect_timestamps ctx_Timestamp ctx_Parent medianTimeBlocks (Some (sample_heap, 2)) = [220, 160, 100]"
    by (simp add: medianTimeBlocks_def numeral_nat ctx_Timestamp_def ctx_Parent_def sample_heap_def sample_node_def)
  then show ?thesis by (simp add: node_median_def CalcPastMedianTime_def)
qed

lemma sample_chain_nodes: "nodes sample_chain = sample_heap" "chainParams sample_env = sample_params" "e_pow sample_env = sample_pow"
  by (simp_all add: sample_chain_def sample_env_def)

lemma sample_header_context:
  "CheckBlockHeaderContext (sample_env\<lparr>e_wire := L\<rparr>) sample_header 2 BFNone True False sample_chain
    = Some (Inr (), sample_chain\<lparr>checkpointNode := Some 1\<rparr>)"
proof -
  let ?env = "sample_env\<lparr>e_wire := L\<rparr>"
  have h: "bn_height (sample_heap ! 2) = 2" "bn_height (sample_heap ! Suc 0) = 1" "i32 3 = 3"
    by (simp_all add: sample_heap_def sample_node_def i32_def)
  have find: "findPreviousCheckpoint ?env sample_chain = Some (Inr (Some 1), sample_chain\<lparr>checkpointNode := Some 1\<rparr>)"
    by (simp add: findPreviousCheckpoint_def HasCheckpoints_def sample_env_def sample_chain_def LookupNode_def contains_def
        nodeByHeight_def sample_heap_def sample_node_def sample_checkpoint_def)
  have ok: "verifyCheckpoint ?env 3 x" "hTimestamp sample_header = unix_time 280" "hVersion sample_header = 4"
      "hBits sample_header = 0x207fffff" "blocksPerRetarget ?env = 20160" for x
    by (simp_all add: verifyCheckpoint_def sample_env_def sample_header_def)
  have warp: "assertNoTimeWarp 3 20160 t u = Inr ()" for t u by (simp add: assertNoTimeWarp_def go_mod_def go_div_def)
  show ?thesis
    using sample_header_bits
    by (simp add: CheckBlockHeaderContext_def comp_iffs sample_chain_nodes h find ok warp sample_median unix_time_def
        BFNone_def BFFastAdd_def)
qed

lemma sample_env_wire: "sample_env\<lparr>e_wire := header_root_lib\<rparr> = sample_env"
  by (simp add: sample_env_def)

theorem accepted_header_extends_witness:
  "\<exists>mem' n. newBlockNode hMerkleRoot sample_heap sample_header (Some 2) = Some (mem', n) \<and> bn_height (mem' ! n) = 3"
proof -
  obtain s' where s': "CheckBlockHeaderContext sample_env sample_header 2 BFNone True False sample_chain = Some (Inr (), s')"
    using sample_header_context[of header_root_lib] by (simp add: sample_env_wire)
  have "nodes s' = sample_heap"
    using checkpoint_frame_nodes[OF keepsD[OF CheckBlockHeaderContext_frame s']] by (simp add: sample_chain_nodes)
  moreover have "PowLimit sample_params = 2 ^ 255 - 1" "AdjustedTime sample_env = unix_time 300"
    by (simp_all add: sample_params_def sample_env_def)
  moreover have "bn_height (sample_heap ! 2) = 2" "2 < length sample_heap" by (simp_all add: sample_heap_def sample_node_def)
  ultimately show ?thesis
    using accepted_header_extends[OF _ _ _ _ s', of hMerkleRoot] sample_header_sane sample_heap_wf
    by (auto simp: sample_chain_nodes)
qed

end
