(* ===== verification/Validate_Block.thy ===== *)
theory Validate_Block
  imports Validate_Header Merkle
begin

text \<open>
  The rules on whole blocks (validate.go) and relative lock times (chain.go): sanity of a block, its context,
  the check against overwriting transactions, and \<open>checkConnectBlock\<close>, which validates the transactions
  of a block against a view filled from the utxo cache.  The theorems relate the latter to the ledger.
\<close>

section \<open>Block sanity\<close>

definition add_sigops :: "MsgTx \<Rightarrow> int \<Rightarrow> error + int" where
  "add_sigops tx totalSigOps =
    (let lastSigOps = totalSigOps;
         totalSigOps = i64 (totalSigOps + i64 (CountSigOps tx * int WitnessScaleFactor))
     in if totalSigOps < lastSigOps \<or> totalSigOps > MaxBlockSigOpsCost then Inl (ruleError ErrTooManySigOps)
        else Inr totalSigOps)"

definition checkBlockSanity :: "pow_lib \<Rightarrow> wire_lib \<Rightarrow> int \<Rightarrow> Block \<Rightarrow> int \<Rightarrow> BehaviorFlags \<Rightarrow> error + unit" where
  "checkBlockSanity P L adjustedTime block powLimit flags =
    bindE (CheckBlockHeaderSanity P adjustedTime (Header block) powLimit flags) (\<lambda>_.
      let transactions = Transactions block;
          numTx = int (length transactions)
      in if numTx = 0 then Inl (ruleError ErrNoTransactions)
         else if numTx > MaxBlockBaseSize then Inl (ruleError ErrBlockTooBig)
         else if blockSizeStripped L block > MaxBlockBaseSize then Inl (ruleError ErrBlockTooBig)
         else if \<not> IsCoinBase (transactions ! 0) then Inl (ruleError ErrFirstTxNotCoinbase)
         else if list_ex IsCoinBase (tl transactions) then Inl (ruleError ErrMultipleCoinbases)
         else bindE (foldE (\<lambda>tx _. CheckTransactionSanity L tx) transactions ()) (\<lambda>_.
           case CalcMerkleRoot L transactions False of
             None \<Rightarrow> Inl Panic
           | Some merkleRoot \<Rightarrow>
               if hMerkleRoot (Header block) \<noteq> merkleRoot then Inl (ruleError ErrBadMerkleRoot)
               else if check_duplicates (map (TxHash L) transactions) [] then Inl (ruleError ErrDuplicateTx)
               else bindE (foldE add_sigops transactions 0) (\<lambda>_. Inr ())))"

definition CheckBlockSanity :: "pow_lib \<Rightarrow> wire_lib \<Rightarrow> int \<Rightarrow> Block \<Rightarrow> int \<Rightarrow> error + unit" where
  "CheckBlockSanity P L adjustedTime block powLimit = checkBlockSanity P L adjustedTime block powLimit BFNone"

section \<open>Block context\<close>

definition checkBlockContext ::
  "('pk, 'b, 'bl) chain_env \<Rightarrow> Block \<Rightarrow> nid \<Rightarrow> BehaviorFlags \<Rightarrow> (('b, 'bl) BlockChain, unit) comp" where
  "checkBlockContext env block prevNode flags =
    (let header = Header block; L = e_wire env; params = chainParams env
     in seqC (CheckBlockHeaderContext env header prevNode flags True False)
        (whenC (flags AND BFFastAdd \<noteq> BFFastAdd)
          (bindC (deployment_state env (Some prevNode) (DeploymentCSV params)) (\<lambda>csvState.
           bindC (readC nodes) (\<lambda>mem.
           let blockTime = (if csvState = ThresholdActive then node_median mem prevNode else hTimestamp header);
               height = i32 (bn_height (mem ! prevNode) + 1)
           in seqC (guardC (list_ex (\<lambda>tx. \<not> IsFinalizedTransaction tx height blockTime) (Transactions block)) (ruleError ErrUnfinalizedTx))
             (seqC (whenC (ShouldHaveSerializedBlockHeight header \<and> height \<ge> BIP0034Height params)
                     (if Transactions block = [] then failC Panic
                      else liftE (CheckSerializedHeight (Transactions block ! 0) height)))
             (bindC (deployment_state env (Some prevNode) (DeploymentSegwit params)) (\<lambda>segwitState.
                whenC (segwitState = ThresholdActive)
                  (seqC (liftE (ValidateWitnessCommitment L block))
                        (guardC (GetBlockWeight L block > int MaxBlockWeight) (ruleError ErrBlockWeightTooHigh)))))))))))"

section \<open>Overwriting transactions\<close>

definition bip34ReenableBIP30Height :: int where "bip34ReenableBIP30Height = 1983702"

definition newHashFromStr :: "('pk, 'b, 'bl) chain_env \<Rightarrow> string \<Rightarrow> hash option" where
  "newHashFromStr env hexStr = NewHashFromStr env hexStr"

definition isBIP0030Node :: "('pk, 'b, 'bl) chain_env \<Rightarrow> blockNode \<Rightarrow> bool" where
  "isBIP0030Node env node \<longleftrightarrow>
    bn_height node = 91842
      \<and> newHashFromStr env ''00000000000a4d0a398161ffc163c503763b1f4360639393e0e4c8e300e0caec'' = Some (bn_hash node)
    \<or> bn_height node = 91880
      \<and> newHashFromStr env ''00000000000743f190a18c5577a3c2d2a1f610ae9601ac046a38084ccb7cd721'' = Some (bn_hash node)"

definition bip0030CheckNeeded :: "('pk, 'b, 'bl) chain_env \<Rightarrow> heap \<Rightarrow> nid \<Rightarrow> bool option" where
  "bip0030CheckNeeded env mem node =
    (let params = chainParams env; h = bn_height (mem ! node)
     in if isBIP0030Node env (mem ! node) then Some False
        else if BIP0034Height params < h \<and> h < bip34ReenableBIP30Height
        then case (BIP0034Hash params, parent (mem ! node)) of
               (Some want, Some p) \<Rightarrow>
                 map_option (\<lambda>a. case a of None \<Rightarrow> True | Some a \<Rightarrow> bn_hash (mem ! a) \<noteq> want) (Ancestor mem p (BIP0034Height params))
             | _ \<Rightarrow> Some True
        else Some True)"

text \<open>
  A call on the utxo cache that also fills a view.  On an error the model drops what the call had cached before
  it: unmodified copies of database entries.
\<close>

definition on_cache ::
  "(utxoCache \<Rightarrow> error + utxoCache \<times> 'a) \<Rightarrow> (('b, 'bl) BlockChain, 'a) comp" where
  "on_cache f s = (case f (utxos s) of Inl e \<Rightarrow> Some (Inl e, s) | Inr (c, v) \<Rightarrow> Some (Inr v, s\<lparr>utxos := c\<rparr>))"

definition block_outpoints :: "wire_lib \<Rightarrow> MsgTx list \<Rightarrow> OutPoint list" where
  "block_outpoints L txs = concat (map (\<lambda>tx. map (outpoint L tx) [0..<length (tx_TxOut tx)]) txs)"

definition checkBIP0030 ::
  "('pk, 'b, 'bl) chain_env \<Rightarrow> Block \<Rightarrow> UtxoViewpoint \<Rightarrow> (('b, 'bl) BlockChain, UtxoViewpoint) comp" where
  "checkBIP0030 env block view =
    (let fetch = block_outpoints (e_wire env) (Transactions block)
     in bindC (readC (\<lambda>s. utxoBucket (cdb s))) (\<lambda>db.
        bindC (on_cache (\<lambda>c. fetchUtxos (e_log2 env) (e_keys env) (e_bucket env) db fetch (c, view))) (\<lambda>view.
        seqC (guardC (list_ex (\<lambda>outp. case LookupEntry view outp of None \<Rightarrow> False | Some utxo \<Rightarrow> \<not> IsSpent utxo) fetch)
               (ruleError ErrOverwriteTx))
             (retC view))))"

section \<open>Relative lock times\<close>

text \<open>An ancestor that does not exist is a \<open>nil\<close> node, on which \<open>CalcPastMedianTime\<close> panics.\<close>

definition lock_input ::
  "wire_lib \<Rightarrow> nid \<Rightarrow> UtxoViewpoint \<Rightarrow> int \<Rightarrow> TxIn \<Rightarrow> SequenceLock \<Rightarrow> (('b, 'bl) BlockChain, SequenceLock) comp" where
  "lock_input L node utxoView nextHeight txIn lock =
    (case LookupEntry utxoView (PreviousOutPoint txIn) of
       None \<Rightarrow> failC (ruleError ErrMissingTxOut)
     | Some utxo \<Rightarrow>
         let inputHeight = (if blockHeight utxo = 0x7fffffff then nextHeight else blockHeight utxo);
             sequenceNum = Sequence txIn;
             relativeLock = uint (sequenceNum AND SequenceLockTimeMask L)
         in if sequenceNum AND SequenceLockTimeDisabled L = SequenceLockTimeDisabled L then retC lock
            else if sequenceNum AND SequenceLockTimeIsSeconds L = SequenceLockTimeIsSeconds L
            then let prevInputHeight = i32 (inputHeight - 1);
                     prevInputHeight = (if prevInputHeight < 0 then 0 else prevInputHeight)
                 in bindC (readC nodes) (\<lambda>mem.
                    bindC (runO (\<lambda>s. Ancestor mem node prevInputHeight)) (\<lambda>anc.
                    case anc of
                      None \<Rightarrow> failC Panic
                    | Some a \<Rightarrow>
                        let timeLockSeconds = i64 (i64 (push_bit (SequenceLockTimeGranularity L) relativeLock) - 1);
                            timeLock = i64 (time_Unix (node_median mem a) + timeLockSeconds)
                        in retC (if timeLock > sl_Seconds lock then lock\<lparr>sl_Seconds := timeLock\<rparr> else lock)))
            else let height = i32 (inputHeight + i32 (relativeLock - 1))
                 in retC (if height > sl_BlockHeight lock then lock\<lparr>sl_BlockHeight := height\<rparr> else lock))"

definition calcSequenceLock ::
  "('pk, 'b, 'bl) chain_env \<Rightarrow> nid \<Rightarrow> MsgTx \<Rightarrow> UtxoViewpoint \<Rightarrow> bool \<Rightarrow> (('b, 'bl) BlockChain, SequenceLock) comp" where
  "calcSequenceLock env node tx utxoView mempool =
    bindC (readC nodes) (\<lambda>mem.
    bindC (if mempool then retC True
           else bindC (deployment_state env (parent (mem ! node)) (DeploymentCSV (chainParams env)))
                  (\<lambda>csvState. retC (csvState = ThresholdActive))) (\<lambda>csvSoftforkActive.
    let sequenceLock = \<lparr>sl_Seconds = -1, sl_BlockHeight = -1\<rparr>;
        sequenceLockActive = ((word_of_int (tx_Version tx) :: uint32) \<ge> 2 \<and> csvSoftforkActive)
    in if \<not> sequenceLockActive \<or> IsCoinBase tx then retC sequenceLock
       else let nextHeight = i32 (bn_height (mem ! node) + 1)
            in foldC (lock_input (e_wire env) node utxoView nextHeight) (tx_TxIn tx) sequenceLock))"

definition CalcSequenceLock ::
  "('pk, 'b, 'bl) chain_env \<Rightarrow> MsgTx \<Rightarrow> UtxoViewpoint \<Rightarrow> bool \<Rightarrow> (('b, 'bl) BlockChain, SequenceLock) comp" where
  "CalcSequenceLock env tx utxoView mempool =
    bindC (readC (\<lambda>s. tip (bestChain s))) (\<lambda>t.
      case t of None \<Rightarrow> failC Panic | Some n \<Rightarrow> calcSequenceLock env n tx utxoView mempool)"

definition LockTimeToSequence :: "wire_lib \<Rightarrow> bool \<Rightarrow> uint32 \<Rightarrow> uint32" where
  "LockTimeToSequence L isSeconds locktime =
    (if \<not> isSeconds then locktime
     else SequenceLockTimeIsSeconds L OR drop_bit (SequenceLockTimeGranularity L) locktime)"

section \<open>Connecting a block\<close>

definition add_sigop_cost :: "UtxoViewpoint \<Rightarrow> bool \<Rightarrow> bool \<Rightarrow> nat \<times> MsgTx \<Rightarrow> int \<Rightarrow> error + int" where
  "add_sigop_cost view enforceBIP0016 enforceSegWit = (\<lambda>(i, tx) totalSigOpCost.
    bindE (GetSigOpCost tx (i = 0) view enforceBIP0016 enforceSegWit) (\<lambda>sigOpCost.
      let lastSigOpCost = totalSigOpCost;
          totalSigOpCost = i64 (totalSigOpCost + sigOpCost)
      in if totalSigOpCost < lastSigOpCost \<or> totalSigOpCost > MaxBlockSigOpsCost then Inl (ruleError ErrTooManySigOps)
         else Inr totalSigOpCost))"

text \<open>Check and connect one transaction; the total of the fees is carried along.\<close>

definition connect_checked ::
  "wire_lib \<Rightarrow> Params \<Rightarrow> int \<Rightarrow> MsgTx \<Rightarrow> int \<times> UtxoViewpoint \<times> SpentTxOut list option
    \<Rightarrow> error + int \<times> UtxoViewpoint \<times> SpentTxOut list option" where
  "connect_checked L params height tx = (\<lambda>(totalFees, view, stxos).
    bindE (CheckTransactionInputs L params tx height view) (\<lambda>txFee.
      let lastTotalFees = totalFees;
          totalFees = i64 (totalFees + txFee)
      in if totalFees < lastTotalFees then Inl (ruleError ErrBadFees)
         else bindE (view_connectTransaction L height tx (view, stxos)) (\<lambda>(view, stxos). Inr (totalFees, view, stxos))))"

definition check_sequence_locks ::
  "('pk, 'b, 'bl) chain_env \<Rightarrow> nid \<Rightarrow> UtxoViewpoint \<Rightarrow> int \<Rightarrow> int \<Rightarrow> MsgTx \<Rightarrow> unit \<Rightarrow> (('b, 'bl) BlockChain, unit) comp" where
  "check_sequence_locks env node view height medianTime tx _ =
    bindC (calcSequenceLock env node tx view False) (\<lambda>sequenceLock.
      guardC (\<not> SequenceLockActive sequenceLock height medianTime) (ruleError ErrUnfinalizedTx))"

text \<open>
  The script flags and the script check itself have been removed from the code; the variables that are left
  there have no effect.  The view and the journal are returned; the callers drop them on an error.
\<close>

definition checkConnectBlock ::
  "('pk, 'b, 'bl) chain_env \<Rightarrow> nid \<Rightarrow> Block \<Rightarrow> UtxoViewpoint \<Rightarrow> SpentTxOut list option
    \<Rightarrow> (('b, 'bl) BlockChain, UtxoViewpoint \<times> SpentTxOut list option) comp" where
  "checkConnectBlock env node block view stxos =
    bindC (readC nodes) (\<lambda>mem.
    let n = mem ! node; L = e_wire env; params = chainParams env
    in seqC (guardC (bn_hash n = GenesisHash params) (ruleError ErrMissingTxOut))
      (seqC (guardC (bestHash view \<noteq> hPrevBlock (Header block)) (AssertError ''inconsistent view when checking block connection''))
      (bindC (runO (\<lambda>s. bip0030CheckNeeded env mem node)) (\<lambda>needed.
       bindC (if needed then checkBIP0030 env block view else retC view) (\<lambda>view.
       bindC (readC (\<lambda>s. utxoBucket (cdb s))) (\<lambda>db.
       bindC (on_cache (\<lambda>c. fetchInputUtxos (e_log2 env) (e_keys env) (e_bucket env) L db block (c, view))) (\<lambda>view.
       bindC (deployment_state env (parent n) (DeploymentSegwit params)) (\<lambda>segwitState.
       let enforceBIP0016 = False; enforceSegWit = (segwitState = ThresholdActive); transactions = Transactions block
       in bindC (liftE (foldE (add_sigop_cost view enforceBIP0016 enforceSegWit) (enumerate 0 transactions) 0)) (\<lambda>_.
          bindC (liftE (foldE (connect_checked L params (bn_height n)) transactions (0, view, stxos))) (\<lambda>(totalFees, view, stxos).
          seqC (if transactions = [] then failC Panic
                else guardC (output_total (transactions ! 0) > i64 (CalcBlockSubsidy (bn_height n) params + totalFees))
                       (ruleError ErrBadCoinbaseValue))
         (bindC (deployment_state env (parent n) (DeploymentCSV params)) (\<lambda>csvState.
          seqC (whenC (csvState = ThresholdActive)
                 (case parent n of
                    None \<Rightarrow> failC Panic
                  | Some p \<Rightarrow> foldC (check_sequence_locks env node view (bn_height n) (node_median mem p)) transactions ()))
         (bindC (deployment_state env (parent n) (DeploymentTaproot params)) (\<lambda>taprootState.
          retC (SetBestHash (bn_hash n) view, stxos)))))))))))))))"

text \<open>The node of the template is not filed in the index.\<close>

definition CheckConnectBlockTemplate :: "('pk, 'b, 'bl) chain_env \<Rightarrow> Block \<Rightarrow> (('b, 'bl) BlockChain, unit) comp" where
  "CheckConnectBlockTemplate env block =
    bindC (readC (\<lambda>s. tip (bestChain s))) (\<lambda>t.
    case t of
      None \<Rightarrow> failC Panic
    | Some t \<Rightarrow>
        bindC (readC (\<lambda>s. bn_hash (nodes s ! t))) (\<lambda>tipHash.
        seqC (guardC (tipHash \<noteq> hPrevBlock (Header block)) (ruleError ErrPrevBlockNotBest))
       (seqC (liftE (checkBlockSanity (e_pow env) (e_wire env) (AdjustedTime env) block (PowLimit (chainParams env)) BFNoPoWCheck))
       (seqC (checkBlockContext env block t BFNoPoWCheck)
       (bindC (runO (\<lambda>s. newBlockNode (BlockHash (e_wire env)) (nodes s) (Header block) (Some t))) (\<lambda>(mem, newNode).
        seqC (modC (\<lambda>s. s\<lparr>nodes := mem\<rparr>))
       (bindC (checkConnectBlock env newNode block (SetBestHash tipHash NewUtxoViewpoint) None) (\<lambda>_. retC ()))))))))"

end
