(* ===== verification/Supply.thy ===== *)
theory Supply
  imports Validate_Block
begin

text \<open>
  What connecting a block does to the money supply: when \<open>checkConnectBlock\<close> accepts a block, the block can be
  applied to the ledger of the coins that cache and database show, and its coins are worth at most the old
  ones plus the subsidy of the height.  The view that the check works on holds outputs of the block before
  their transaction has been connected; \<open>sound\<close> says how such a view relates to the ledger.
\<close>

section \<open>Sums of coins\<close>

definition money :: "coins \<Rightarrow> int" where
  "money U = (\<Sum>p \<in> dom U. coin_value U p)"

definition coins_ok :: "coins \<Rightarrow> bool" where
  "coins_ok U \<longleftrightarrow> finite (dom U) \<and> (\<forall>p c. U p = Some c \<longrightarrow> 0 \<le> c_amount c)"

lemma coin_value_nonneg: "coins_ok U \<Longrightarrow> 0 \<le> coin_value U p"
  by (auto simp: coins_ok_def coin_value_def split: option.splits)

lemma supply_superset: "finite A \<Longrightarrow> dom U \<subseteq> A \<Longrightarrow> money U = (\<Sum>p \<in> A. coin_value U p)"
  unfolding money_def by (intro sum.mono_neutral_left) (auto simp: coin_value_def split: option.splits)

lemma supply_update:
  assumes "coins_ok U" "0 \<le> c_amount c"
  shows "money (U(p \<mapsto> c)) \<le> money U + c_amount c" "coins_ok (U(p \<mapsto> c))"
proof -
  let ?A = "insert p (dom U)"
  have fin: "finite ?A" using assms(1) by (simp add: coins_ok_def)
  have "money (U(p \<mapsto> c)) = coin_value (U(p \<mapsto> c)) p + (\<Sum>q \<in> ?A - {p}. coin_value (U(p \<mapsto> c)) q)"
    using supply_superset[of ?A "U(p \<mapsto> c)"] fin by (simp add: sum.remove[of ?A p])
  also have "(\<Sum>q \<in> ?A - {p}. coin_value (U(p \<mapsto> c)) q) = (\<Sum>q \<in> ?A - {p}. coin_value U q)"
    by (rule sum.cong) (auto simp: coin_value_def)
  also have "\<dots> \<le> money U"
    using supply_superset[of ?A U] fin coin_value_nonneg[OF assms(1), of p] by (simp add: sum.remove[of ?A p] subset_insertI)
  also have "coin_value (U(p \<mapsto> c)) p = c_amount c" by (simp add: coin_value_def)
  finally show "money (U(p \<mapsto> c)) \<le> money U + c_amount c" by linarith
  show "coins_ok (U(p \<mapsto> c))" using assms by (auto simp: coins_ok_def)
qed

lemma restrict_map_SomeD: "(U |` A) p = Some c \<Longrightarrow> U p = Some c"
  by (simp add: restrict_map_def split: if_splits)

lemma supply_restrict:
  assumes "coins_ok U" "distinct ps"
  shows "money (U |` (- set ps)) = money U - sum_list (map (coin_value U) ps)" "coins_ok (U |` (- set ps))"
proof -
  let ?A = "dom U \<union> set ps"
  have fin: "finite ?A" using assms(1) by (simp add: coins_ok_def)
  have split: "(\<Sum>p \<in> ?A. f p) = (\<Sum>p \<in> ?A - set ps. f p) + (\<Sum>p \<in> set ps. f p)" for f :: "OutPoint \<Rightarrow> int"
    using fin by (subst sum.subset_diff[of "set ps" ?A]) auto
  have "money (U |` (- set ps)) = (\<Sum>p \<in> ?A - set ps. coin_value (U |` (- set ps)) p) + (\<Sum>p \<in> set ps. coin_value (U |` (- set ps)) p)"
    using supply_superset[of ?A "U |` (- set ps)"] fin split by auto
  also have "(\<Sum>p \<in> ?A - set ps. coin_value (U |` (- set ps)) p) = (\<Sum>p \<in> ?A - set ps. coin_value U p)"
    by (rule sum.cong) (auto simp: coin_value_def restrict_map_def)
  also have "(\<Sum>p \<in> set ps. coin_value (U |` (- set ps)) p) = 0"
    by (rule sum.neutral) (auto simp: coin_value_def restrict_map_def)
  finally show "money (U |` (- set ps)) = money U - sum_list (map (coin_value U) ps)"
    using supply_superset[of ?A U] fin split[of "coin_value U"] assms(2) by (simp add: sum_list_distinct_conv_sum_set)
  show "coins_ok (U |` (- set ps))" using assms(1) by (auto simp: coins_ok_def dest: restrict_map_SomeD)
qed

lemma supply_outs:
  assumes "coins_ok U" "list_all (\<lambda>txOut. 0 \<le> Value txOut) (tx_TxOut tx)"
  shows "money (ledger_outs L h tx U) \<le> money U + value_out tx" "coins_ok (ledger_outs L h tx U)"
proof -
  have outs: "money (fold (\<lambda>(i, txOut). ledger_add (f i) txOut cb h) xs U) \<le> money U + sum_list (map Value (map snd xs))
      \<and> coins_ok (fold (\<lambda>(i, txOut). ledger_add (f i) txOut cb h) xs U)"
    if "coins_ok U" "list_all (\<lambda>txOut. 0 \<le> Value txOut) (map snd xs)" for xs U and f :: "nat \<Rightarrow> OutPoint" and cb
    using that
  proof (induction xs arbitrary: U)
    case (Cons x xs)
    obtain i txOut where x: "x = (i, txOut)" by (cases x)
    have "money (ledger_add (f i) txOut cb h U) \<le> money U + Value txOut \<and> coins_ok (ledger_add (f i) txOut cb h U)"
      using supply_update[OF Cons.prems(1), of "coin_out txOut cb h" "f i"] Cons.prems x by (simp add: ledger_add_def coin_out_def)
    then show ?case using Cons.IH[of "ledger_add (f i) txOut cb h U"] Cons.prems x by auto
  qed simp
  have "money (ledger_outs L h tx U) \<le> money U + value_out tx \<and> coins_ok (ledger_outs L h tx U)"
    using outs[OF assms(1), of "enumerate 0 (tx_TxOut tx)"] assms(2)
    unfolding ledger_outs_def value_out_def by (simp only: map_snd_enumerate)
  then show "money (ledger_outs L h tx U) \<le> money U + value_out tx" "coins_ok (ledger_outs L h tx U)" by simp_all
qed

text \<open>A transaction moves value from its inputs to its outputs, and loses the rest.\<close>

lemma supply_tx:
  assumes "coins_ok U" "list_all (\<lambda>txOut. 0 \<le> Value txOut) (tx_TxOut tx)" "distinct (inputs tx)"
  shows "money (ledger_tx L h tx U) \<le> money U + value_out tx - (if IsCoinBase tx then 0 else value_in U tx)"
    "coins_ok (ledger_tx L h tx U)"
proof -
  let ?U = "if IsCoinBase tx then U else U |` (- set (inputs tx))"
  have "coins_ok ?U" "money ?U = money U - (if IsCoinBase tx then 0 else value_in U tx)"
    using assms(1) supply_restrict[OF assms(1,3)] by (simp_all add: value_in_def)
  then show "money (ledger_tx L h tx U) \<le> money U + value_out tx - (if IsCoinBase tx then 0 else value_in U tx)"
      "coins_ok (ledger_tx L h tx U)"
    using supply_outs[of ?U tx L h] assms(2) by (simp_all only: ledger_tx_def, linarith)
qed

section \<open>Checking and connecting transactions\<close>

text \<open>A step of the loop accepts exactly what the checks on inputs allow, and counts the fees without overflow.\<close>

lemma connect_checked_Inr:
  assumes "money_ok L" "sane_tx L tx" "0 \<le> fees" "fees < 2 ^ 63"
    "connect_checked L params h tx (fees, view, stxos) = Inr (fees', view', stxos')"
  shows "tx_applies tx (view_coins view)" and "view_coins view' = ledger_tx L h tx (view_coins view)"
    and "fees' = fees + (if IsCoinBase tx then 0 else value_in (view_coins view) tx - value_out tx)"
    and "0 \<le> fees'" and "fees' < 2 ^ 63"
proof -
  let ?V = "view_coins view"
  obtain fee where fee: "CheckTransactionInputs L params tx h view = Inr fee" "\<not> i64 (fees + fee) < fees" "fees' = i64 (fees + fee)"
      "view_connectTransaction L h tx (view, stxos) = Inr (view', stxos')"
    using assms(5) by (auto simp: connect_checked_def bindE_Inr_iff Let_def split: if_splits)
  have "0 \<le> fee \<and> fee < 2 ^ 62 \<and> fee = (if IsCoinBase tx then 0 else value_in ?V tx - value_out tx)
      \<and> (IsCoinBase tx \<or> set (inputs tx) \<subseteq> dom ?V)"
  proof (cases "IsCoinBase tx")
    case True
    then show ?thesis using fee(1) by (simp add: CheckTransactionInputs_def)
  next
    case False
    then have f: "list_all (spendable L params h ?V) (inputs tx)" "value_in ?V tx \<le> MaxSatoshi L"
        "value_out tx \<le> value_in ?V tx" "fee = value_in ?V tx - value_out tx"
      using CheckTransactionInputs_iff[OF assms(1,2) False, of params h view fee] fee(1) by simp_all
    moreover have "set (inputs tx) \<subseteq> dom ?V"
      using f(1) by (auto simp: list_all_iff spendable_def split: option.splits)
    ultimately show ?thesis using False assms(1) output_total_sane(2)[OF assms(1,2)] by (simp add: money_ok_def)
  qed
  note f = this
  then show applies: "tx_applies tx ?V" using assms(2) by (auto simp: tx_applies_def sane_tx_def)
  have sum: "i64 (fees + fee) = fees + fee \<and> fees + fee < 2 ^ 63"
  proof (rule ccontr)
    assume "\<not> ?thesis"
    moreover have "0 \<le> fee" using f by blast
    ultimately have "2 ^ 63 \<le> fees + fee" using assms(3) i64_id[of "fees + fee"] by fastforce
    then have "i64 (fees + fee) = fees + fee - 2 ^ 64" using f assms(4) i64_wrap by simp
    then show False using fee(2) f by simp
  qed
  then show "fees' = fees + (if IsCoinBase tx then 0 else value_in ?V tx - value_out tx)" "0 \<le> fees'" "fees' < 2 ^ 63"
    using fee(3) f assms(3) by auto
  show "view_coins view' = ledger_tx L h tx ?V"
    using view_ledger.connect_ledger[OF TrueI applies, of L h stxos] fee(4)
    by (auto simp: view_connect_eq view_ledger.outs_ok_def)
qed

section \<open>Views that run ahead of the ledger\<close>

text \<open>
  A view may hold an output of a transaction that has not been connected yet, provided no transaction up to
  and including its creator spends it.
\<close>

fun pending :: "wire_lib \<Rightarrow> MsgTx list \<Rightarrow> OutPoint \<Rightarrow> bool" where
  "pending L [] p \<longleftrightarrow> False"
| "pending L (tx # txs) p \<longleftrightarrow> (IsCoinBase tx \<or> p \<notin> set (inputs tx)) \<and> (p \<in> out_ops L tx \<or> pending L txs p)"

definition sound :: "wire_lib \<Rightarrow> MsgTx list \<Rightarrow> coins \<Rightarrow> coins \<Rightarrow> bool" where
  "sound L txs V U \<longleftrightarrow> (\<forall>p c. V p = Some c \<longrightarrow> U p = Some c \<or> pending L txs p)"

lemma soundD: "sound L txs V U \<Longrightarrow> V p = Some c \<Longrightarrow> U p = Some c \<or> pending L txs p"
  by (simp add: sound_def)

lemma ledger_outs_list_own:
  "p \<in> spendable_ops L tx xs \<or> U p = V p \<Longrightarrow>
    fold (\<lambda>(i, txOut). ledger_add (outpoint L tx i) txOut cb h) xs U p = fold (\<lambda>(i, txOut). ledger_add (outpoint L tx i) txOut cb h) xs V p"
proof (induction xs arbitrary: U V)
  case (Cons x xs)
  obtain i txOut where x: "x = (i, txOut)" by (cases x)
  have "p \<in> spendable_ops L tx xs \<or> ledger_add (outpoint L tx i) txOut cb h U p = ledger_add (outpoint L tx i) txOut cb h V p"
    using Cons.prems by (auto simp: x ledger_add_def split: if_splits)
  then show ?case using Cons.IH[of "ledger_add (outpoint L tx i) txOut cb h U" "ledger_add (outpoint L tx i) txOut cb h V"] x by simp
qed simp

lemma ledger_outs_own: "p \<in> out_ops L tx \<Longrightarrow> ledger_outs L h tx U p = ledger_outs L h tx V p"
  unfolding ledger_outs_def out_ops_enumerate by (rule ledger_outs_list_own) simp

lemma sound_inputs:
  assumes "sound L (tx # txs) V U" "\<not> IsCoinBase tx" "tx_applies tx V"
  shows "tx_applies tx U" "value_in U tx = value_in V tx"
proof -
  have eq: "U p = V p" if p: "p \<in> set (inputs tx)" for p
  proof -
    obtain c where "V p = Some c" using p assms(2,3) by (auto simp: tx_applies_def)
    then show ?thesis using soundD[OF assms(1), of p c] p assms(2) by simp
  qed
  then show "tx_applies tx U" using assms(2,3) by (auto simp: tx_applies_def)
  show "value_in U tx = value_in V tx" using eq by (simp add: value_in_def coin_value_def cong: map_cong)
qed

lemma sound_step:
  assumes "sound L (tx # txs) V U"
  shows "sound L txs (ledger_tx L h tx V) (ledger_tx L h tx U)"
  unfolding sound_def
proof (intro allI impI)
  fix p c
  assume p: "ledger_tx L h tx V p = Some c"
  let ?W = "\<lambda>W. if IsCoinBase tx then W else W |` (- set (inputs tx))"
  show "ledger_tx L h tx U p = Some c \<or> pending L txs p"
  proof (cases "p \<in> out_ops L tx")
    case True
    then show ?thesis using p ledger_outs_own[OF True, of h "?W U" "?W V"] by (simp add: ledger_tx_def)
  next
    case False
    then have "?W V p = Some c" using p by (simp add: ledger_tx_def ledger_outs_other split: if_splits)
    then have "V p = Some c" "IsCoinBase tx \<or> p \<notin> set (inputs tx)" by (auto simp: restrict_map_def split: if_splits)
    then show ?thesis using soundD[OF assms, of p c] False by (auto simp: ledger_tx_def ledger_outs_other)
  qed
qed

definition coinbase_value :: "MsgTx list \<Rightarrow> int" where
  "coinbase_value txs = sum_list (map value_out (filter IsCoinBase txs))"

text \<open>The loop over the transactions of a block, against the ledger.\<close>

lemma connect_loop_supply:
  assumes "money_ok L" "list_all (sane_tx L) txs" "0 \<le> fees" "fees < 2 ^ 63" "coins_ok U" "sound L txs (view_coins view) U"
    "foldE (connect_checked L params h) txs (fees, view, stxos) = Inr (fees', view', stxos')"
  shows "block_applies L h txs U \<and> coins_ok (ledger_block L h txs U)
    \<and> money (ledger_block L h txs U) + fees' \<le> money U + coinbase_value txs + fees \<and> 0 \<le> fees' \<and> fees' < 2 ^ 63"
  using assms(2-7)
proof (induction txs arbitrary: fees view stxos U)
  case Nil
  then show ?case by (simp add: ledger_block_def coinbase_value_def)
next
  case (Cons tx txs)
  obtain fees1 view1 stxos1 where step: "connect_checked L params h tx (fees, view, stxos) = Inr (fees1, view1, stxos1)"
      "foldE (connect_checked L params h) txs (fees1, view1, stxos1) = Inr (fees', view', stxos')"
    using Cons.prems(6) by (auto simp: bindE_Inr_iff)
  have sane: "sane_tx L tx" using Cons.prems(1) by simp
  note c = connect_checked_Inr[OF assms(1) sane Cons.prems(2,3) step(1)]
  have "value_in U tx = value_in (view_coins view) tx" "tx_applies tx U" if "\<not> IsCoinBase tx"
    using sound_inputs[OF Cons.prems(5) that c(1)] by simp_all
  then have applies: "tx_applies tx U"
    and fee: "fees1 = fees + (if IsCoinBase tx then 0 else value_in U tx - value_out tx)"
    using c(3) by (auto simp: tx_applies_def)
  have tx: "money (ledger_tx L h tx U) \<le> money U + value_out tx - (if IsCoinBase tx then 0 else value_in U tx)"
      "coins_ok (ledger_tx L h tx U)"
    using supply_tx[OF Cons.prems(4)] sane by (simp_all add: sane_tx_def)
  have "sound L txs (view_coins view1) (ledger_tx L h tx U)" using sound_step[OF Cons.prems(5)] c(2) by simp
  then have "block_applies L h txs (ledger_tx L h tx U) \<and> coins_ok (ledger_block L h txs (ledger_tx L h tx U))
      \<and> money (ledger_block L h txs (ledger_tx L h tx U)) + fees' \<le> money (ledger_tx L h tx U) + coinbase_value txs + fees1
      \<and> 0 \<le> fees' \<and> fees' < 2 ^ 63"
    using Cons.IH[of fees1 "ledger_tx L h tx U" view1 stxos1] Cons.prems(1) c(4,5) tx(2) step(2) by simp
  then show ?case using applies fee tx by (auto simp: ledger_block_def coinbase_value_def)
qed

section \<open>Filling the view\<close>

lemma txInFlight_snoc: "txInFlight L (txs @ [t]) = (txInFlight L txs)(TxHash L t \<mapsto> length txs)"
  by (simp add: txInFlight_def enumerate_append_eq)

lemma txInFlight_Some: "txInFlight L txs h = Some j \<Longrightarrow> j < length txs \<and> TxHash L (txs ! j) = h"
  by (induction txs rule: rev_induct)
    (auto simp: txInFlight_snoc nth_append less_Suc_eq txInFlight_def[of L "[]"] split: if_splits)

lemma txInFlight_last: "k < length txs \<Longrightarrow> \<exists>j \<ge> k. txInFlight L txs (TxHash L (txs ! k)) = Some j"
  by (induction txs rule: rev_induct) (auto simp: txInFlight_snoc nth_append less_Suc_eq)

lemma out_ops_hash: "p \<in> out_ops L tx \<Longrightarrow> op_Hash p = TxHash L tx"
  by (auto simp: out_ops_def outpoint_def)

text \<open>What the search for inputs does to the coins of the view: it only adds outputs of the block.\<close>

definition grown :: "wire_lib \<Rightarrow> MsgTx list \<Rightarrow> coins \<Rightarrow> coins \<Rightarrow> bool" where
  "grown L txs V W \<longleftrightarrow> (\<forall>p c. W p = Some c \<longrightarrow> V p = Some c \<or> (\<exists>tx \<in> set txs. p \<in> out_ops L tx))"

lemma find_input_grown:
  assumes "grown L (Transactions block) V (view_coins (fst st))"
  shows "grown L (Transactions block) V (view_coins (fst (find_input L block i txIn st)))"
proof -
  have outs: "grown L (Transactions block) V (view_coins (AddTxOuts L (Transactions block ! j) h (fst st)))"
    if "txInFlight L (Transactions block) (op_Hash (PreviousOutPoint txIn)) = Some j" for j h
    unfolding grown_def
  proof (intro allI impI)
    fix p c
    assume p: "view_coins (AddTxOuts L (Transactions block ! j) h (fst st)) p = Some c"
    have "Transactions block ! j \<in> set (Transactions block)" using txInFlight_Some[OF that] by simp
    then show "V p = Some c \<or> (\<exists>tx \<in> set (Transactions block). p \<in> out_ops L tx)"
      using p assms by (cases "p \<in> out_ops L (Transactions block ! j)")
        (auto simp: view_coins_AddTxOuts ledger_outs_other grown_def)
  qed
  show ?thesis
    using outs assms by (cases st) (auto simp: find_input_def split: option.splits)
qed

lemma findInputs_grown:
  assumes "findInputsToFetch L block view = Some (view', needed)"
  shows "grown L (Transactions block) (view_coins view) (view_coins view')"
proof -
  let ?P = "\<lambda>st. grown L (Transactions block) (view_coins view) (view_coins (fst st))"
  have "?P (fold (find_input L block i) ins st)" if "?P st" for i ins st
    using that by (rule fold_invariant[where Q = "\<lambda>_. True", rotated]) (simp_all add: find_input_grown)
  then have "?P (fold (\<lambda>(i, tx). fold (find_input L block i) (tx_TxIn tx)) xs st)" if "?P st" for xs st
    using that by (rule_tac fold_invariant[where Q = "\<lambda>_. True"]) auto
  from this[of "(view, [])" "enumerate 0 (tl (Transactions block))"] show ?thesis using assms
    by (auto simp: findInputsToFetch_def grown_def split: if_splits)
qed

lemma find_input_needed:
  "set (snd (find_input L block i txIn st)) \<subseteq> insert (PreviousOutPoint txIn) (set (snd st))"
  by (cases st) (auto simp: find_input_def split: option.splits)

lemma find_inputs_needed: "set (snd (fold (find_input L block i) ins st)) \<subseteq> PreviousOutPoint ` set ins \<union> set (snd st)"
proof (induction ins arbitrary: st)
  case (Cons x ins)
  show ?case using Cons[of "find_input L block i x st"] find_input_needed[of L block i x st] by auto
qed simp

lemma findInputs_needed:
  assumes "findInputsToFetch L block view = Some (view', needed)" "p \<in> set needed"
  shows "\<exists>tx \<in> set (Transactions block). p \<in> set (inputs tx)"
proof -
  have "set (snd (fold (\<lambda>(i, tx). fold (find_input L block i) (tx_TxIn tx)) xs st)) \<subseteq> (\<Union>x \<in> set xs. set (inputs (snd x))) \<union> set (snd st)" for xs st
  proof (induction xs arbitrary: st)
    case (Cons x xs)
    obtain i tx where x: "x = (i, tx)" by (cases x)
    show ?case using Cons[of "fold (find_input L block i) (tx_TxIn tx) st"] find_inputs_needed[of L block i "tx_TxIn tx" st]
      by (auto simp: x inputs_def)
  qed simp
  from this[of "enumerate 0 (tl (Transactions block))" "(view, [])"]
  have "\<exists>x \<in> set (enumerate 0 (tl (Transactions block))). p \<in> set (inputs (snd x))"
    using assms by (auto simp: findInputsToFetch_def split: if_splits)
  then show ?thesis using assms(1)
    by (cases "Transactions block") (auto simp: findInputsToFetch_def in_set_enumerate_eq)
qed

text \<open>
  The search over a view without entries: what it has added so far has an index not above the current one, so
  an input that refers to a later transaction is put on the list of outputs to fetch.
\<close>

definition added_below :: "wire_lib \<Rightarrow> MsgTx list \<Rightarrow> nat \<Rightarrow> UtxoViewpoint \<Rightarrow> bool" where
  "added_below L txs i view \<longleftrightarrow>
    (\<forall>p. map_of (entries view) p \<noteq> None \<longrightarrow> (\<exists>j \<le> i. txInFlight L txs (op_Hash p) = Some j))"

lemma keys_AddTxOuts:
  "map_of (entries (AddTxOuts L tx h view)) p \<noteq> None \<Longrightarrow> op_Hash p = TxHash L tx \<or> map_of (entries view) p \<noteq> None"
proof -
  have "map_of (entries (fold (\<lambda>(i, txOut). view_addTxOut (outpoint L tx i) txOut cb h) xs v)) p \<noteq> None
      \<Longrightarrow> op_Hash p = TxHash L tx \<or> map_of (entries v) p \<noteq> None" for xs v cb
  proof (induction xs arbitrary: v)
    case (Cons x xs)
    obtain i txOut where x: "x = (i, txOut)" by (cases x)
    have "op_Hash p = TxHash L tx \<or> map_of (entries (view_addTxOut (outpoint L tx i) txOut cb h v)) p \<noteq> None"
      using Cons x by simp
    then show ?case by (auto simp: view_addTxOut_def set_entry_def update_conv' outpoint_def split: if_splits)
  qed simp
  then show "map_of (entries (AddTxOuts L tx h view)) p \<noteq> None \<Longrightarrow> ?thesis" by (simp add: AddTxOuts_def)
qed

lemma find_input_added:
  assumes "added_below L (Transactions block) i view" "find_input L block i txIn (view, needed) = (view', needed')"
  shows "added_below L (Transactions block) i view'" and "set needed \<subseteq> set needed'"
    and "PreviousOutPoint txIn \<in> set needed'
      \<or> (\<exists>j \<le> i. txInFlight L (Transactions block) (op_Hash (PreviousOutPoint txIn)) = Some j)"
proof -
  have add: "added_below L (Transactions block) i (AddTxOuts L (Transactions block ! j) h view)"
    if "txInFlight L (Transactions block) (op_Hash (PreviousOutPoint txIn)) = Some j" "j \<le> i" for j h
    unfolding added_below_def
  proof (intro allI impI)
    fix p
    assume "map_of (entries (AddTxOuts L (Transactions block ! j) h view)) p \<noteq> None"
    from keys_AddTxOuts[OF this] show "\<exists>j \<le> i. txInFlight L (Transactions block) (op_Hash p) = Some j"
      using assms(1) that txInFlight_Some[OF that(1)] by (auto simp: added_below_def)
  qed
  show "added_below L (Transactions block) i view'" "set needed \<subseteq> set needed'"
    using assms add by (auto simp: find_input_def split: option.splits if_splits)
  show "PreviousOutPoint txIn \<in> set needed'
      \<or> (\<exists>j \<le> i. txInFlight L (Transactions block) (op_Hash (PreviousOutPoint txIn)) = Some j)"
    using assms by (auto simp: find_input_def added_below_def split: option.splits if_splits)
qed

lemma find_inputs_added:
  assumes "added_below L (Transactions block) i view" "fold (find_input L block i) ins (view, needed) = (view', needed')"
  shows "added_below L (Transactions block) i view' \<and> set needed \<subseteq> set needed'
    \<and> (\<forall>txIn \<in> set ins. PreviousOutPoint txIn \<in> set needed'
      \<or> (\<exists>j \<le> i. txInFlight L (Transactions block) (op_Hash (PreviousOutPoint txIn)) = Some j))"
  using assms
proof (induction ins arbitrary: view needed)
  case (Cons x ins)
  obtain v n where v: "find_input L block i x (view, needed) = (v, n)" by (cases "find_input L block i x (view, needed)")
  note f = find_input_added[OF Cons.prems(1) v]
  show ?case using Cons.IH[OF f(1), of n] Cons.prems(2) f v by fastforce
qed simp

lemma find_all_added:
  assumes "added_below L (Transactions block) n view"
    "fold (\<lambda>(i, tx). fold (find_input L block i) (tx_TxIn tx)) (enumerate n txs) (view, needed) = (view', needed')"
  shows "set needed \<subseteq> set needed' \<and> (\<forall>k < length txs. \<forall>p \<in> set (inputs (txs ! k)).
    p \<in> set needed' \<or> (\<exists>j \<le> n + k. txInFlight L (Transactions block) (op_Hash p) = Some j))"
  using assms
proof (induction txs arbitrary: n view needed)
  case (Cons tx txs)
  obtain v m where v: "fold (find_input L block n) (tx_TxIn tx) (view, needed) = (v, m)"
    by (cases "fold (find_input L block n) (tx_TxIn tx) (view, needed)")
  note f = find_inputs_added[OF Cons.prems(1) v]
  have "added_below L (Transactions block) (Suc n) v" using f by (fastforce simp: added_below_def)
  from Cons.IH[OF this, of m] Cons.prems(2) v
  have rest: "set m \<subseteq> set needed' \<and> (\<forall>k < length txs. \<forall>p \<in> set (inputs (txs ! k)).
      p \<in> set needed' \<or> (\<exists>j \<le> Suc n + k. txInFlight L (Transactions block) (op_Hash p) = Some j))" by simp
  show ?case
  proof (intro conjI allI impI ballI)
    show "set needed \<subseteq> set needed'" using f rest by blast
    fix k p
    assume "k < length (tx # txs)" "p \<in> set (inputs ((tx # txs) ! k))"
    then show "p \<in> set needed' \<or> (\<exists>j \<le> n + k. txInFlight L (Transactions block) (op_Hash p) = Some j)"
      using f rest by (cases k) (auto simp: inputs_def)
  qed
qed simp

lemma pending_iff:
  "pending L txs p \<longleftrightarrow> (\<exists>j < length txs. p \<in> out_ops L (txs ! j) \<and> (\<forall>k \<le> j. IsCoinBase (txs ! k) \<or> p \<notin> set (inputs (txs ! k))))"
proof (induction txs)
  case (Cons tx txs)
  show ?case
  proof
    assume "pending L (tx # txs) p"
    then consider "p \<in> out_ops L tx" "IsCoinBase tx \<or> p \<notin> set (inputs tx)" | "pending L txs p" "IsCoinBase tx \<or> p \<notin> set (inputs tx)"
      by auto
    then show "\<exists>j < length (tx # txs). p \<in> out_ops L ((tx # txs) ! j)
        \<and> (\<forall>k \<le> j. IsCoinBase ((tx # txs) ! k) \<or> p \<notin> set (inputs ((tx # txs) ! k)))"
    proof cases
      case 1
      then show ?thesis by (intro exI[of _ 0]) simp
    next
      case 2
      then obtain j where "j < length txs" "p \<in> out_ops L (txs ! j)" "\<forall>k \<le> j. IsCoinBase (txs ! k) \<or> p \<notin> set (inputs (txs ! k))"
        using Cons by blast
      then show ?thesis using 2(2) by (intro exI[of _ "Suc j"]) (auto simp: nth_Cons split: nat.split)
    qed
  next
    assume "\<exists>j < length (tx # txs). p \<in> out_ops L ((tx # txs) ! j)
        \<and> (\<forall>k \<le> j. IsCoinBase ((tx # txs) ! k) \<or> p \<notin> set (inputs ((tx # txs) ! k)))"
    then obtain j where j: "j < length (tx # txs)" "p \<in> out_ops L ((tx # txs) ! j)"
        "\<And>k. k \<le> j \<Longrightarrow> IsCoinBase ((tx # txs) ! k) \<or> p \<notin> set (inputs ((tx # txs) ! k))" by blast
    show "pending L (tx # txs) p"
    proof (cases j)
      case 0
      then show ?thesis using j(2) j(3)[of 0] by simp
    next
      case (Suc i)
      have "pending L txs p" using j(1,2) Suc j(3)[of "Suc k" for k] by (subst Cons) (intro exI[of _ i], auto)
      then show ?thesis using j(3)[of 0] by simp
    qed
  qed
qed simp

text \<open>
  Two ways in which the filled view is sound: no transaction spends an output that it or a later one creates,
  or the view had no entries before the search.
\<close>

definition ordered_block :: "wire_lib \<Rightarrow> MsgTx list \<Rightarrow> bool" where
  "ordered_block L txs \<longleftrightarrow> (\<forall>j < length txs. \<forall>k \<le> j. IsCoinBase (txs ! k) \<or> set (inputs (txs ! k)) \<inter> out_ops L (txs ! j) = {})"

lemma sound_ordered:
  assumes "ordered_block L txs" "grown L txs U W"
  shows "sound L txs W U"
  unfolding sound_def
proof (intro allI impI)
  fix p c
  assume "W p = Some c"
  then consider "U p = Some c" | j where "j < length txs" "p \<in> out_ops L (txs ! j)"
    using assms(2) unfolding grown_def by (metis in_set_conv_nth)
  then show "U p = Some c \<or> pending L txs p"
  proof cases
    case (2 j)
    then have "\<forall>k \<le> j. IsCoinBase (txs ! k) \<or> p \<notin> set (inputs (txs ! k))"
      using assms(1) unfolding ordered_block_def by blast
    then show ?thesis using 2 by (auto simp: pending_iff)
  qed simp
qed

lemma sound_fresh:
  assumes "entries view = []" "findInputsToFetch L block view = Some (view', needed)" "IsCoinBase (Transactions block ! 0)"
    "\<And>p. W p = (if p \<in> set needed then U p else view_coins view' p)"
  shows "sound L (Transactions block) W U"
  unfolding sound_def
proof (intro allI impI)
  fix p c
  let ?txs = "Transactions block"
  assume W: "W p = Some c"
  have fold: "fold (\<lambda>(i, tx). fold (find_input L block i) (tx_TxIn tx)) (enumerate 0 (tl ?txs)) (view, []) = (view', needed)"
    using assms(2) by (simp add: findInputsToFetch_def split: if_splits)
  have "added_below L ?txs 0 view" using assms(1) by (simp add: added_below_def)
  note found = find_all_added[OF this fold]
  show "U p = Some c \<or> pending L ?txs p"
  proof (cases "p \<in> set needed")
    case True
    then show ?thesis using W assms(4) by simp
  next
    case False
    have "view_coins view p = None" using assms(1) by (simp add: view_coins_def LookupEntry_def)
    moreover have "view_coins view' p = Some c" using W assms(4)[of p] False by simp
    ultimately obtain j where j: "j < length ?txs" "p \<in> out_ops L (?txs ! j)"
      using findInputs_grown[OF assms(2)] by (fastforce simp: grown_def in_set_conv_nth)
    have "IsCoinBase (?txs ! k) \<or> p \<notin> set (inputs (?txs ! k))" if "k \<le> j" for k
    proof (cases k)
      case 0
      then show ?thesis using assms(3) by simp
    next
      case (Suc i)
      then have "?txs ! k = tl ?txs ! i" "i < length (tl ?txs)" using that j(1) by (simp_all add: nth_tl)
      moreover have "\<not> (\<exists>j' \<le> i. txInFlight L ?txs (op_Hash p) = Some j')"
        using txInFlight_last[OF j(1), of L] out_ops_hash[OF j(2)] that Suc by auto
      ultimately show ?thesis using found False by auto
    qed
    then show ?thesis using j by (auto simp: pending_iff)
  qed
qed

section \<open>The check of a block\<close>

lemma on_cache_Inr:
  "on_cache f s = Some (Inr v, s') \<longleftrightarrow> (\<exists>c. f (utxos s) = Inr (c, v) \<and> s' = s\<lparr>utxos := c\<rparr>)"
  by (auto simp: on_cache_def split: sum.splits)

lemma deployment_state_utxos:
  "deployment_state env pn d s = Some (r, s') \<Longrightarrow> utxos s' = utxos s \<and> cdb s' = cdb s \<and> nodes s' = nodes s"
  by (auto simp: deployment_state_def)

text \<open>The parts of a successful run that concern the coins.\<close>

lemma checkConnectBlock_Inr:
  assumes "checkConnectBlock env node block view stxos s = Some (Inr (view', stxos'), s')"
  obtains needed view1 s1 view2 c2 fees view3 where
    "bip0030CheckNeeded env (nodes s) node = Some needed"
    "(if needed then checkBIP0030 env block view else retC view) s = Some (Inr view1, s1)"
    "fetchInputUtxos (e_log2 env) (e_keys env) (e_bucket env) (e_wire env) (utxoBucket (cdb s1)) block (utxos s1, view1) = Inr (c2, view2)"
    "foldE (connect_checked (e_wire env) (chainParams env) (bn_height (nodes s ! node))) (Transactions block) (0, view2, stxos)
      = Inr (fees, view3, stxos')"
    "Transactions block \<noteq> []"
    "output_total (Transactions block ! 0) \<le> i64 (CalcBlockSubsidy (bn_height (nodes s ! node)) (chainParams env) + fees)"
    "view' = SetBestHash (bn_hash (nodes s ! node)) view3"
  using assms
  apply (simp add: checkConnectBlock_def comp_iffs Let_def on_cache_Inr)
  apply (elim exE conjE)
  subgoal premises p
    using p by (auto simp: comp_iffs split: if_splits prod.splits)
  done

text \<open>Outpoints with hashes of the right length.\<close>

definition block_ops_ok :: "wire_lib \<Rightarrow> Block \<Rightarrow> bool" where
  "block_ops_ok L block \<longleftrightarrow> (\<forall>tx \<in> set (Transactions block). length (TxHash L tx) = 32 \<and> (\<forall>p \<in> set (inputs tx). op_ok p))"

lemma checkBIP0030_view:
  assumes "chain_cache_ok env s" "block_ops_ok (e_wire env) block" "checkBIP0030 env block view s = Some (Inr view1, s1)"
  shows "chain_cache_ok env s1" "chain_coins env s1 = chain_coins env s" "cdb s1 = cdb s"
    "view_coins view1 p = Some c \<Longrightarrow> view_coins view p = Some c \<or> chain_coins env s p = Some c"
proof -
  define ops where "ops = filter (\<lambda>outp. map_of (entries view) outp = None) (block_outpoints (e_wire env) (Transactions block))"
  have ops: "\<forall>op \<in> set ops. op_ok op"
    using assms(2) by (auto simp: ops_def block_outpoints_def block_ops_ok_def op_ok_def outpoint_def)
  obtain c' v where f: "fetchUtxosFromCache (e_log2 env) (e_keys env) (e_bucket env) (utxoBucket (cdb s)) ops (utxos s, view) = Inr (c', v)"
      "cache_inv (e_keys env) (e_bucket env) (utxoBucket (cdb s)) c'"
      "cache_coins (e_keys env) (e_bucket env) (utxoBucket (cdb s)) c' = cache_coins (e_keys env) (e_bucket env) (utxoBucket (cdb s)) (utxos s)"
      "\<And>op. view_coins v op = (if op \<in> set ops then cache_coins (e_keys env) (e_bucket env) (utxoBucket (cdb s)) (utxos s) op else view_coins view op)"
    using fetch_into_view[OF _ ops, of "e_keys env" "e_bucket env" "utxoBucket (cdb s)" "utxos s" "e_log2 env" view] assms(1)
    by (auto simp: chain_cache_ok_def)
  have "view1 = v \<and> s1 = s\<lparr>utxos := c'\<rparr> \<or> view1 = view \<and> s1 = s"
    using assms(3) f(1)
    by (auto simp: checkBIP0030_def comp_iffs on_cache_Inr Let_def fetchUtxos_def ops_def split: if_splits)
  then show "chain_cache_ok env s1" "chain_coins env s1 = chain_coins env s" "cdb s1 = cdb s"
    "view_coins view1 p = Some c \<Longrightarrow> view_coins view p = Some c \<or> chain_coins env s p = Some c"
    using assms(1) f(2-4) by (auto simp: chain_cache_ok_def chain_coins_def split: if_splits)
qed

text \<open>What the sanity checks establish about the transactions.\<close>

lemma foldE_unit: "foldE (\<lambda>x _. f x) xs () = Inr () \<longleftrightarrow> (\<forall>x \<in> set xs. f x = Inr ())"
  by (induction xs) (auto simp: bindE_Inr_iff)

definition sane_block :: "wire_lib \<Rightarrow> Block \<Rightarrow> bool" where
  "sane_block L block \<longleftrightarrow> Transactions block \<noteq> [] \<and> IsCoinBase (Transactions block ! 0)
    \<and> (\<forall>tx \<in> set (tl (Transactions block)). \<not> IsCoinBase tx) \<and> list_all (sane_tx L) (Transactions block)
    \<and> distinct (map (TxHash L) (Transactions block))"

lemma checkBlockSanity_block:
  assumes "money_ok L" "checkBlockSanity P L now block powLimit flags = Inr ()"
  shows "sane_block L block"
proof -
  have b: "Transactions block \<noteq> []" "IsCoinBase (Transactions block ! 0)" "\<not> list_ex IsCoinBase (tl (Transactions block))"
      "foldE (\<lambda>tx _. CheckTransactionSanity L tx) (Transactions block) () = Inr ()"
      "\<not> check_duplicates (map (TxHash L) (Transactions block)) []"
    using assms(2) by (auto simp: checkBlockSanity_def bindE_Inr_iff Let_def split: if_splits option.splits)
  then show ?thesis
    using check_duplicates_iff[of "map (TxHash L) (Transactions block)" "[]"] CheckTransactionSanity_iff[OF assms(1)]
    by (auto simp: sane_block_def foldE_unit list_all_iff list_ex_iff)
qed

lemma sane_block_coinbase:
  assumes "sane_block L block"
  shows "coinbase_value (Transactions block) = value_out (Transactions block ! 0)"
proof -
  obtain cb txs where txs: "Transactions block = cb # txs" using assms by (cases "Transactions block") (auto simp: sane_block_def)
  then have "filter IsCoinBase txs = []" using assms by (auto simp: sane_block_def filter_empty_conv)
  then show ?thesis using assms txs by (simp add: coinbase_value_def sane_block_def)
qed

lemma i64_le: "0 \<le> x \<Longrightarrow> i64 x \<le> x"
  using zmod_le_nonneg_dividend[of "x + 9223372036854775808" 18446744073709551616] by (simp add: i64_def)

text \<open>The whole check against the ledger.\<close>

lemma accepted_block_ledger:
  assumes "chain_cache_ok env s" "coins_ok (chain_coins env s)" "block_ops_ok (e_wire env) block" "money_ok (e_wire env)"
    "initialReward (chainParams env) < 2 ^ 53" "minReward (chainParams env) < 2 ^ 53"
    "sane_block (e_wire env) block" "entries view = []"
    "bip0030CheckNeeded env (nodes s) node = Some False \<or> ordered_block (e_wire env) (Transactions block)"
    "checkConnectBlock env node block view stxos s = Some (Inr (view', stxos'), s')"
  shows "block_applies (e_wire env) (bn_height (nodes s ! node)) (Transactions block) (chain_coins env s)
    \<and> money (ledger_block (e_wire env) (bn_height (nodes s ! node)) (Transactions block) (chain_coins env s))
      \<le> money (chain_coins env s) + CalcBlockSubsidy (bn_height (nodes s ! node)) (chainParams env)"
proof -
  let ?L = "e_wire env" and ?txs = "Transactions block" and ?U = "chain_coins env s" and ?h = "bn_height (nodes s ! node)"
  obtain needed view1 s1 view2 c2 fees view3 where run: "bip0030CheckNeeded env (nodes s) node = Some needed"
      "(if needed then checkBIP0030 env block view else retC view) s = Some (Inr view1, s1)"
      "fetchInputUtxos (e_log2 env) (e_keys env) (e_bucket env) ?L (utxoBucket (cdb s1)) block (utxos s1, view1) = Inr (c2, view2)"
      "foldE (connect_checked ?L (chainParams env) ?h) ?txs (0, view2, stxos) = Inr (fees, view3, stxos')"
      "output_total (?txs ! 0) \<le> i64 (CalcBlockSubsidy ?h (chainParams env) + fees)"
    using checkConnectBlock_Inr[OF assms(10)] by metis
  have s1: "chain_cache_ok env s1" "chain_coins env s1 = ?U"
      "\<And>p c. view_coins view1 p = Some c \<Longrightarrow> ?U p = Some c"
  proof -
    have none: "view_coins view p = None" for p using assms(8) by (simp add: view_coins_def LookupEntry_def)
    show "chain_cache_ok env s1" "chain_coins env s1 = ?U" "\<And>p c. view_coins view1 p = Some c \<Longrightarrow> ?U p = Some c"
      using run(2) checkBIP0030_view[OF assms(1,3), of view view1 s1] assms(1) none by (auto simp: comp_iffs split: if_splits)
  qed
  obtain view1' ops where find: "findInputsToFetch ?L block view1 = Some (view1', ops)"
    using run(3) by (auto simp: fetchInputUtxos_def split: option.splits)
  have ops: "\<forall>op \<in> set ops. op_ok op"
    using findInputs_needed[OF find] assms(3) by (auto simp: block_ops_ok_def)
  have view2: "view_coins view2 p = (if p \<in> set ops then ?U p else view_coins view1' p)" for p
    using fetch_into_view[OF _ ops, of "e_keys env" "e_bucket env" "utxoBucket (cdb s1)" "utxos s1" "e_log2 env" view1'] run(3) find s1(1,2)
    by (auto simp: fetchInputUtxos_def chain_cache_ok_def chain_coins_def)
  have sound: "sound ?L ?txs (view_coins view2) ?U"
  proof (cases "ordered_block ?L ?txs")
    case True
    have "grown ?L ?txs ?U (view_coins view2)"
      using findInputs_grown[OF find] s1(3) view2 by (auto simp: grown_def split: if_splits)
    with True show ?thesis by (rule sound_ordered)
  next
    case False
    then have "view1 = view" using assms(9) run(1,2) by (simp add: comp_iffs)
    then show ?thesis using sound_fresh[OF _ _ _ view2] find assms(7,8) by (simp add: sane_block_def)
  qed
  have sane: "list_all (sane_tx ?L) ?txs" "sane_tx ?L (?txs ! 0)"
    using assms(7) by (auto simp: sane_block_def list_all_length)
  have loop: "block_applies ?L ?h ?txs ?U" "money (ledger_block ?L ?h ?txs ?U) + fees \<le> money ?U + value_out (?txs ! 0)" "0 \<le> fees"
    using connect_loop_supply[OF assms(4) sane(1) _ _ assms(2) sound run(4)] sane_block_coinbase[OF assms(7)] by simp_all
  have "value_out (?txs ! 0) \<le> CalcBlockSubsidy ?h (chainParams env) + fees"
    using run(5) output_total_sane(1)[OF assms(4) sane(2)] i64_le[of "CalcBlockSubsidy ?h (chainParams env) + fees"]
      subsidy_range[OF assms(5,6), of ?h] loop(3) by linarith
  then show ?thesis using loop by simp
qed

section \<open>Properties\<close>

text \<open>
  C1: let a block pass \<open>checkBlockSanity\<close> and let \<open>checkConnectBlock\<close> accept it against an empty view, where either the check
  for overwritten transactions is not needed or no transaction spends outputs of itself or of later ones.  Then every
  transaction of the block spends coins that exist at that point and spends each once, and the coins after the block
  are worth at most the coins before it plus the subsidy of its height: fees are not created, and integer
  overflow creates nothing.  Without the condition this does not hold, since that check leaves the entries of later
  transactions in the view.
\<close>

theorem accepted_block_no_inflation:
  assumes "chain_cache_ok env s" "coins_ok (chain_coins env s)" "block_ops_ok (e_wire env) block"
    "0 \<le> MaxSatoshi (e_wire env)" "MaxSatoshi (e_wire env) < 2 ^ 62"
    "initialReward (chainParams env) < 2 ^ 53" "minReward (chainParams env) < 2 ^ 53"
    "checkBlockSanity (e_pow env) (e_wire env) now block powLimit flags = Inr ()"
    "bip0030CheckNeeded env (nodes s) node = Some False \<or> ordered_block (e_wire env) (Transactions block)"
    "checkConnectBlock env node block (SetBestHash h NewUtxoViewpoint) stxos s = Some (Inr (view', stxos'), s')"
  shows "block_applies (e_wire env) (bn_height (nodes s ! node)) (Transactions block) (chain_coins env s)
    \<and> money (ledger_block (e_wire env) (bn_height (nodes s ! node)) (Transactions block) (chain_coins env s))
      \<le> money (chain_coins env s) + CalcBlockSubsidy (bn_height (nodes s ! node)) (chainParams env)"
proof -
  have ok: "money_ok (e_wire env)" using assms(4,5) by (simp add: money_ok_def)
  then have sane: "sane_block (e_wire env) block" using checkBlockSanity_block assms(8) by blast
  show ?thesis
    by (rule accepted_block_ledger[OF assms(1-3) ok assms(6,7) sane _ assms(9,10)])
      (simp add: SetBestHash_def NewUtxoViewpoint_def)
qed

section \<open>Sample runs\<close>

text \<open>The sample chain with one more node, and the parts of a run of \<open>checkConnectBlock\<close> on it.\<close>

definition next_chain :: "(byte list \<rightharpoonup> byte list, hash \<rightharpoonup> Block) BlockChain" where
  "next_chain = sample_chain\<lparr>nodes := sample_heap @ [sample_node (Some 2) (Some 0) 3 280]\<rparr>"

text \<open>A state that differs from the sample chain by one more node on top, and in what the coins do not depend on.\<close>

definition above_sample :: "blockNode \<Rightarrow> (byte list \<rightharpoonup> byte list, hash \<rightharpoonup> Block) BlockChain \<Rightarrow> bool" where
  "above_sample node s \<longleftrightarrow> nodes s = sample_heap @ [node] \<and> parent node = Some 2 \<and> bn_height node = 3 \<and> bn_hash node \<noteq> []
    \<and> utxos s = utxos sample_chain \<and> cdb s = cdb sample_chain"

lemma next_above: "above_sample (sample_node (Some 2) (Some 0) 3 280) next_chain"
  by (simp add: above_sample_def next_chain_def sample_node_def)

lemma above_node: "above_sample node s \<Longrightarrow> nodes s ! 3 = node"
  by (simp add: above_sample_def sample_heap_def)

lemma next_node: "nodes next_chain ! 3 = sample_node (Some 2) (Some 0) 3 280"
  by (simp add: next_chain_def sample_heap_def)

lemma always_active: "d < 3 \<Longrightarrow> deployment_state sample_env (Some p) d s = Some (Inr ThresholdActive, s)"
proof -
  assume "d < 3"
  then have "Deployments sample_env ! d = active_deployment" "d < length (Deployments sample_env)"
    by (auto simp: sample_env_def less_Suc_eq numeral_3_eq_3)
  then show ?thesis
    by (simp add: deployment_state_def deploymentState_def thresholdState_def deploymentChecker_def active_deployment_def u32_range)
qed

lemma missing_iff: "(case LookupEntry v p of None \<Rightarrow> True | Some u \<Rightarrow> IsSpent u) \<longleftrightarrow> view_coins v p = None"
  by (auto simp: view_coins_def live_def split: option.splits)

lemma present_iff: "(case LookupEntry v p of None \<Rightarrow> False | Some u \<Rightarrow> \<not> IsSpent u) \<longleftrightarrow> view_coins v p \<noteq> None"
  by (auto simp: view_coins_def live_def split: option.splits)

lemma sigop_cost_loop:
  assumes "\<forall>(i, tx) \<in> set xs. i = 0 \<or> (\<forall>p \<in> set (inputs tx). view_coins v p \<noteq> None)"
  shows "foldE (add_sigop_cost v False segwit) xs 0 = Inr 0"
  using assms
proof (induction xs)
  case (Cons x xs)
  obtain i tx where x: "x = (i, tx)" by (cases x)
  have "GetSigOpCost tx (i = 0) v False segwit = Inr 0"
    using Cons.prems x
    by (auto simp: GetSigOpCost_def CountSigOps_zero i64_def list_ex_iff missing_iff inputs_def)
  then show ?case using Cons x by (simp add: add_sigop_cost_def i64_def MaxBlockSigOpsCost_def)
qed simp

text \<open>Old transaction versions have no relative lock times.\<close>

lemma old_version_locks:
  assumes "\<forall>tx \<in> set txs. tx_Version tx = 1" "parent (nodes s ! n) = Some p" "0 \<le> h" "0 \<le> time_Unix t"
  shows "foldC (check_sequence_locks sample_env n v h t) txs () s = Some (Inr (), s)"
  using assms(1)
proof (induction txs)
  case (Cons tx txs)
  have "calcSequenceLock sample_env n tx v False s = Some (Inr \<lparr>sl_Seconds = -1, sl_BlockHeight = -1\<rparr>, s)"
    using Cons.prems assms(2) always_active[of 0 p s]
    by (simp add: calcSequenceLock_def comp_iffs Let_def word_le_nat_alt sample_env_def[THEN arg_cong[where f = chainParams]] sample_params_def)
  then have "check_sequence_locks sample_env n v h t tx () s = Some (Inr (), s)"
    using assms(3,4) by (simp add: check_sequence_locks_def comp_iffs SequenceLockActive_def)
  then show ?case using Cons by (simp add: comp_iffs)
qed (simp add: retC_def)

lemma above_coins:
  "above_sample node s \<Longrightarrow> op_ok p \<Longrightarrow> chain_coins sample_env s p = (if p = sample_outpoint then Some (coin_of sample_entry) else None)"
  using sample_cache_coins by (simp add: chain_coins_def above_sample_def sample_chain_def sample_env_def)

lemmas next_coins = above_coins[OF next_above]

lemma above_cache: "above_sample node s \<Longrightarrow> chain_cache_ok sample_env s"
  using sample_chain_cache by (simp add: chain_cache_ok_def above_sample_def)

lemmas next_chain_cache = above_cache[OF next_above]

lemma sample_bip30: "above_sample node s \<Longrightarrow> bip0030CheckNeeded sample_env (nodes s) 3 = Some True"
  using above_node[of node s] unfolding bip0030CheckNeeded_def
  by (simp add: isBIP0030Node_def newHashFromStr_def above_sample_def sample_env_def sample_params_def bip34ReenableBIP30Height_def)

lemma sample_connect:
  assumes above: "above_sample node s" and "hPrevBlock (Header block) = [2]" "Transactions block \<noteq> []" "\<forall>tx \<in> set (Transactions block). tx_Version tx = 1"
    "checkBIP0030 sample_env block (SetBestHash [2] NewUtxoViewpoint) s = Some (Inr view1, s\<lparr>utxos := c1\<rparr>)"
    "fetchInputUtxos (e_log2 sample_env) (e_keys sample_env) (e_bucket sample_env) header_root_lib (utxoBucket (cdb s)) block
      (c1, view1) = Inr (c2, view2)"
    "\<forall>tx \<in> set (tl (Transactions block)). \<forall>p \<in> set (inputs tx). view_coins view2 p \<noteq> None"
    "foldE (connect_checked header_root_lib sample_params 3) (Transactions block) (0, view2, None) = Inr (fees, view3, None)"
    "output_total (Transactions block ! 0) \<le> i64 (CalcBlockSubsidy 3 sample_params + fees)"
  shows "checkConnectBlock sample_env 3 block (SetBestHash [2] NewUtxoViewpoint) None s
    = Some (Inr (SetBestHash (bn_hash node) view3, None), s\<lparr>utxos := c2\<rparr>)"
proof -
  let ?s2 = "s\<lparr>utxos := c2\<rparr>"
  have n: "nodes s ! 3 = node" "nodes ?s2 ! 3 = node" using above_node[OF above] by simp_all
  have node: "bn_height node = 3" "parent node = Some 2" "bn_hash node \<noteq> []" using above by (simp_all add: above_sample_def)
  have L: "e_wire sample_env = header_root_lib" "chainParams sample_env = sample_params" by (simp_all add: sample_env_def)
  have "\<forall>(i, tx) \<in> set (enumerate 0 (Transactions block)). i = 0 \<or> (\<forall>p \<in> set (inputs tx). view_coins view2 p \<noteq> None)"
    using assms(3,7) by (cases "Transactions block") (auto simp: in_set_enumerate_eq nth_Cons split: nat.splits)
  then have sig: "foldE (add_sigop_cost view2 False True) (enumerate 0 (Transactions block)) 0 = Inr 0" by (rule sigop_cost_loop)
  have median: "0 \<le> time_Unix (node_median (nodes s) 2)"
    using node_median_append[OF sample_heap_wf, of 2] sample_median above by (simp add: above_sample_def sample_heap_def)
  have locks: "foldC (check_sequence_locks sample_env 3 view3 3 (node_median (nodes s) 2)) (Transactions block) () ?s2 = Some (Inr (), ?s2)"
    using old_version_locks[OF assms(4), of ?s2 3 2 3] n node median by simp
  have dep: "DeploymentCSV sample_params = 0" "DeploymentSegwit sample_params = 1" "DeploymentTaproot sample_params = 2"
      "GenesisHash sample_params = []" by (simp_all add: sample_params_def)
  have best: "bestHash (SetBestHash [2] NewUtxoViewpoint) = [2]" by (simp add: SetBestHash_def)
  show ?thesis
    unfolding checkConnectBlock_def
    using assms sample_bip30[OF above] sig locks
    by (simp add: comp_defs on_cache_def Let_def n node L dep best always_active)
qed

text \<open>A view from which the check of a block above the sample chain succeeds as soon as its loop does.\<close>

definition filled_view :: "Block \<Rightarrow> UtxoViewpoint \<Rightarrow> bool" where
  "filled_view block view2 \<longleftrightarrow> (\<forall>fees view3.
    (\<forall>tx \<in> set (tl (Transactions block)). \<forall>p \<in> set (inputs tx). view_coins view2 p \<noteq> None)
    \<longrightarrow> foldE (connect_checked header_root_lib sample_params 3) (Transactions block) (0, view2, None) = Inr (fees, view3, None)
    \<longrightarrow> output_total (Transactions block ! 0) \<le> i64 (CalcBlockSubsidy 3 sample_params + fees)
    \<longrightarrow> (\<exists>s'. checkConnectBlock sample_env 3 block (SetBestHash [2] NewUtxoViewpoint) None next_chain
          = Some (Inr (SetBestHash [3] view3, None), s')))"

lemma sample_bip30_run:
  assumes above: "above_sample node s" and "block_ops_ok header_root_lib block" "sample_outpoint \<notin> set (block_outpoints header_root_lib (Transactions block))"
  obtains view1 c1 where "\<And>p. view_coins view1 p = None"
    "\<And>p. map_of (entries view1) p = None \<longleftrightarrow> p \<notin> set (block_outpoints header_root_lib (Transactions block))"
    "checkBIP0030 sample_env block (SetBestHash [2] NewUtxoViewpoint) s = Some (Inr view1, s\<lparr>utxos := c1\<rparr>)"
    "chain_cache_ok sample_env (s\<lparr>utxos := c1\<rparr>)"
    "chain_coins sample_env (s\<lparr>utxos := c1\<rparr>) = chain_coins sample_env s"
proof -
  let ?L = header_root_lib and ?v0 = "SetBestHash [2] NewUtxoViewpoint"
  let ?db = "utxoBucket (cdb s)" and ?K = "e_keys sample_env" and ?B = "e_bucket sample_env" and ?log = "e_log2 sample_env"
  let ?ops = "block_outpoints ?L (Transactions block)"
  have v0: "entries ?v0 = []" by (simp add: SetBestHash_def NewUtxoViewpoint_def)
  have none: "view_coins ?v0 p = None" for p by (simp add: view_coins_def LookupEntry_def NewUtxoViewpoint_def)
  have ops: "\<forall>op \<in> set ?ops. op_ok op"
    using assms(2) by (auto simp: block_outpoints_def block_ops_ok_def op_ok_def outpoint_def)
  have inv: "cache_inv ?K ?B ?db (utxos s)" using above_cache[OF above] by (simp add: chain_cache_ok_def)
  obtain c1 view1 where f1: "fetchUtxosFromCache ?log ?K ?B ?db ?ops (utxos s, ?v0) = Inr (c1, view1)"
      "cache_inv ?K ?B ?db c1" "cache_coins ?K ?B ?db c1 = cache_coins ?K ?B ?db (utxos s)"
      "\<And>p. view_coins view1 p = (if p \<in> set ?ops then cache_coins ?K ?B ?db (utxos s) p else view_coins ?v0 p)"
      "\<And>p. map_of (entries view1) p = None \<longleftrightarrow> p \<notin> set ?ops \<and> map_of (entries ?v0) p = None"
    using fetch_into_view[OF inv ops, of ?log ?v0] by blast
  have c1: "view_coins view1 p = None" for p
    using f1(4)[of p] none above_coins[OF above, of p] ops assms(3) by (auto simp: chain_coins_def)
  have "fetchUtxos ?log ?K ?B ?db ?ops (utxos s, ?v0) = Inr (c1, view1)"
    using f1(1) v0 by (auto simp: fetchUtxos_def fetchUtxosFromCache_def split: if_splits)
  then have "checkBIP0030 sample_env block ?v0 s = Some (Inr view1, s\<lparr>utxos := c1\<rparr>)"
    using c1 by (simp add: checkBIP0030_def comp_iffs on_cache_Inr Let_def list_ex_iff present_iff)
      (simp add: sample_env_def)
  then show thesis using that[of view1 c1] c1 f1(2,3,5) v0 by (simp add: chain_cache_ok_def chain_coins_def)
qed

lemma next_hash: "bn_hash (sample_node (Some 2) (Some 0) 3 280) = [3]"
  by (simp add: sample_node_def)

lemma next_run:
  assumes "hPrevBlock (Header block) = [2]" "block_ops_ok header_root_lib block"
    "sample_outpoint \<notin> set (block_outpoints header_root_lib (Transactions block))"
    "Transactions block \<noteq> []" "\<forall>tx \<in> set (Transactions block). tx_Version tx = 1"
    "\<And>view1. (\<And>p. view_coins view1 p = None) \<Longrightarrow>
      (\<And>p. map_of (entries view1) p = None \<longleftrightarrow> p \<notin> set (block_outpoints header_root_lib (Transactions block))) \<Longrightarrow>
      \<exists>view1'. findInputsToFetch header_root_lib block view1 = Some (view1', ops) \<and> view_coins view1' = V"
  obtains view2 where "\<And>p. view_coins view2 p = (if p \<in> set ops then chain_coins sample_env next_chain p else V p)"
    "filled_view block view2"
proof -
  obtain view1 c1 where v1: "\<And>p. view_coins view1 p = None"
      "\<And>p. map_of (entries view1) p = None \<longleftrightarrow> p \<notin> set (block_outpoints header_root_lib (Transactions block))"
      "checkBIP0030 sample_env block (SetBestHash [2] NewUtxoViewpoint) next_chain = Some (Inr view1, next_chain\<lparr>utxos := c1\<rparr>)"
      "chain_cache_ok sample_env (next_chain\<lparr>utxos := c1\<rparr>)"
      "chain_coins sample_env (next_chain\<lparr>utxos := c1\<rparr>) = chain_coins sample_env next_chain"
    using sample_bip30_run[OF next_above assms(2,3)] by metis
  obtain view1' where find: "findInputsToFetch header_root_lib block view1 = Some (view1', ops)" "view_coins view1' = V"
    using assms(6)[OF v1(1,2)] by blast
  have "\<forall>op \<in> set ops. op_ok op" using findInputs_needed[OF find(1)] assms(2) by (auto simp: block_ops_ok_def)
  then obtain c2 view2 where f2: "fetchUtxosFromCache (e_log2 sample_env) (e_keys sample_env) (e_bucket sample_env)
        (utxoBucket (cdb next_chain)) ops (c1, view1') = Inr (c2, view2)"
      "\<And>p. view_coins view2 p = (if p \<in> set ops then chain_coins sample_env next_chain p else V p)"
    using fetch_into_view[of "e_keys sample_env" "e_bucket sample_env" "utxoBucket (cdb next_chain)" c1 ops "e_log2 sample_env" view1']
      v1(4,5) find(2) by (auto simp: chain_cache_ok_def chain_coins_def)
  have "filled_view block view2"
    unfolding filled_view_def using find(1) f2(1)
    by (intro allI impI exI[of _ "next_chain\<lparr>utxos := c2\<rparr>"] sample_connect[OF next_above assms(1,4,5) v1(3), unfolded next_hash]) (simp_all add: fetchInputUtxos_def)
  then show thesis using that f2(2) by blast
qed

text \<open>The converse of the step lemma: what is enough for a transaction to be accepted.\<close>

lemma connect_checked_accepts:
  assumes "money_ok L" "sane_tx L tx" "0 \<le> fees" "fees < 2 ^ 62"
    "IsCoinBase tx \<or> list_all (spendable L params h (view_coins view)) (inputs tx)
      \<and> value_in (view_coins view) tx \<le> MaxSatoshi L \<and> value_out tx \<le> value_in (view_coins view) tx"
  shows "\<exists>view'. connect_checked L params h tx (fees, view, None)
      = Inr (fees + (if IsCoinBase tx then 0 else value_in (view_coins view) tx - value_out tx), view', None)
    \<and> view_coins view' = ledger_tx L h tx (view_coins view)"
proof -
  let ?V = "view_coins view"
  define fee where "fee = (if IsCoinBase tx then 0 else value_in ?V tx - value_out tx)"
  have fee: "0 \<le> fee" "fee < 2 ^ 62"
    using assms(1,5) output_total_sane(2)[OF assms(1,2)] by (auto simp: fee_def money_ok_def)
  have check: "CheckTransactionInputs L params tx h view = Inr fee"
  proof (cases "IsCoinBase tx")
    case True
    then show ?thesis by (simp add: CheckTransactionInputs_def fee_def)
  next
    case False
    then show ?thesis using assms(5) CheckTransactionInputs_iff[OF assms(1,2) False, of params h view fee] by (simp add: fee_def)
  qed
  have "set (inputs tx) \<subseteq> dom ?V" if "\<not> IsCoinBase tx"
    using that assms(5) by (auto simp: list_all_iff spendable_def split: option.splits)
  then have "tx_applies tx ?V" using assms(2) by (auto simp: tx_applies_def sane_tx_def)
  from view_ledger.connect_ledger[OF TrueI this, of L h None]
  obtain view' where "view_connectTransaction L h tx (view, None) = Inr (view', None)" "view_coins view' = ledger_tx L h tx ?V"
    by (auto simp: view_connect_eq view_ledger.outs_ok_def)
  moreover have "i64 (fees + fee) = fees + fee" using fee assms(3,4) by (intro i64_id) simp_all
  ultimately show ?thesis using check fee by (auto simp: connect_checked_def fee_def [symmetric])
qed

definition next_block :: "MsgTx list \<Rightarrow> Block" where
  "next_block txs = \<lparr>Header = sample_header\<lparr>hMerkleRoot := replicate 31 0 @ [1]\<rparr>, Transactions = txs, blk_Height = 3\<rparr>"

lemma next_block_simps [simp]:
  "Transactions (next_block txs) = txs" "hPrevBlock (Header (next_block txs)) = [2]" "blk_Height (next_block txs) = 3"
  by (simp_all add: next_block_def sample_header_def)

lemma next_block_root: "hMerkleRoot (Header (next_block txs)) = replicate 31 0 @ [1]"
  by (simp add: next_block_def)

lemma root_money: "money_ok header_root_lib"
  by (simp add: money_ok_def header_root_lib_def)

lemma root_hash: "TxHash header_root_lib tx = replicate 31 0 @ [of_nat (length (tx_TxOut tx))]"
  by (simp add: header_root_lib_def)

lemma next_header_sane: "CheckBlockHeaderSanity sample_pow (unix_time 300) (Header (next_block txs)) (2 ^ 255 - 1) BFNone = Inr ()"
  by (simp add: next_block_def CheckBlockHeaderSanity_def checkProofOfWork_def sample_header_def sample_pow_def
      CompactToBig_pow_limit SetBytes_zeros MaxTimeOffsetSeconds_def unix_time_def time_Unix_def)

lemma sigops_loop: "foldE add_sigops txs 0 = Inr 0"
  by (induction txs) (simp_all add: add_sigops_def CountSigOps_zero i64_def MaxBlockSigOpsCost_def)

text \<open>A block with a sane header passes the sanity checks when its transactions do.\<close>

lemma block_sane:
  assumes "CheckBlockHeaderSanity P t (Header b) lmt flags = Inr ()" "CalcMerkleRoot L (Transactions b) False = Some (hMerkleRoot (Header b))"
    "Transactions b \<noteq> []" "length (Transactions b) < 1000" "IsCoinBase (Transactions b ! 0)" "\<forall>tx \<in> set (tl (Transactions b)). \<not> IsCoinBase tx"
    "list_all (sane_tx L) (Transactions b)" "distinct (map (TxHash L) (Transactions b))" "money_ok L" "blockSizeStripped L b = 1000"
  shows "checkBlockSanity P L t b lmt flags = Inr ()"
proof -
  have "foldE (\<lambda>tx _. CheckTransactionSanity L tx) (Transactions b) () = Inr ()"
    using assms(7) CheckTransactionSanity_iff[OF assms(9)] by (auto simp: foldE_unit list_all_iff)
  then show ?thesis
    using assms sigops_loop[of "Transactions b"] check_duplicates_iff[of "map (TxHash L) (Transactions b)" "[]"]
    by (auto simp: checkBlockSanity_def MaxBlockBaseSize_def list_ex_iff)
qed

lemma root_size: "blockSizeStripped header_root_lib b = 1000"
  by (simp add: header_root_lib_def)

lemma sample_txs_sane: "sane_tx header_root_lib sample_coinbase" "sane_tx header_root_lib sample_spend"
  using sample_coinbases
  by (simp_all add: sane_tx_def inputs_def value_out_def)
    (simp_all add: sample_coinbase_def sample_spend_def header_root_lib_def MaxBlockBaseSize_def isNullOutpoint_def sample_outpoint_def maxUint32_def)

lemma subsidy_3: "20000000 \<le> CalcBlockSubsidy 3 sample_params" "CalcBlockSubsidy 3 sample_params \<le> 800000000"
  using subsidy_bounds[of 3 sample_params] by (simp_all add: sample_params_def initialReward_def minReward_def)

lemma next_outpoint_coins:
  "op_ok p \<Longrightarrow> op_Hash p = TxHash header_root_lib tx \<Longrightarrow> chain_coins sample_env next_chain p = None"
  using next_coins[of p] by (auto simp: root_hash sample_outpoint_def numeral_eq_Suc)

lemma root_outpoint: "outpoint header_root_lib tx i \<noteq> sample_outpoint" "sample_outpoint \<noteq> outpoint header_root_lib tx i"
  by (auto simp: outpoint_def root_hash sample_outpoint_def numeral_eq_Suc)

lemma root_outpoint_eq:
  "i < 100 \<Longrightarrow> j < 100 \<Longrightarrow> length (tx_TxOut tx) < 100 \<Longrightarrow> length (tx_TxOut tx') < 100 \<Longrightarrow>
    outpoint header_root_lib tx i = outpoint header_root_lib tx' j \<longleftrightarrow> length (tx_TxOut tx) = length (tx_TxOut tx') \<and> i = j"
  by (simp add: outpoint_inj root_hash word_unat_eq_iff unat_of_nat)

lemma root_block_ops: "(\<And>tx p. tx \<in> set txs \<Longrightarrow> p \<in> set (inputs tx) \<Longrightarrow> op_ok p) \<Longrightarrow> block_ops_ok header_root_lib (next_block txs)"
  by (auto simp: block_ops_ok_def root_hash)

lemma root_not_block_op: "sample_outpoint \<notin> set (block_outpoints header_root_lib txs)"
  using root_outpoint by (auto simp: block_outpoints_def)

text \<open>The block of the two sample transactions.\<close>

lemma sample_inputs:
  "inputs sample_spend = [sample_outpoint]" "inputs sample_coinbase = [\<lparr>op_Hash = zeroHash, op_Index = maxUint32\<rparr>]"
  by (simp_all add: inputs_def sample_spend_def sample_coinbase_def)

lemma root_merkle_first: "xs \<noteq> [] \<Longrightarrow> list_all (\<lambda>h. length h = 32) xs \<Longrightarrow> merkle_root header_root_lib xs = hd xs"
proof (induction header_root_lib xs rule: merkle_root.induct)
  case (3 x y xs)
  have "list_all (\<lambda>h. length h = 32) (level_up header_root_lib xs)" if "list_all (\<lambda>h. length h = 32) xs" for xs
    using that by (induction header_root_lib xs rule: level_up.induct) (auto simp: HashMerkleBranches_def header_root_lib_def)
  then show ?case using 3(1)[OF _ _] 3(3) by (auto simp: HashMerkleBranches_def header_root_lib_def)
qed simp_all

lemma next_merkle_root: "CalcMerkleRoot header_root_lib (sample_coinbase # txs) False = Some (replicate 31 0 @ [1])"
proof -
  have "list_all (\<lambda>h. length h = 32) (leaves header_root_lib (sample_coinbase # txs) False)"
    by (auto simp: leaves_def leaf_def root_hash list_all_iff)
  moreover have "hd (leaves header_root_lib (sample_coinbase # txs) False) = replicate 31 0 @ [1]"
    by (simp add: leaves_def leaf_def root_hash sample_coinbase_def)
  ultimately show ?thesis
    using root_merkle_first[of "leaves header_root_lib (sample_coinbase # txs) False"] by (simp add: CalcMerkleRoot_eq leaves_def)
qed

lemma sample_find:
  assumes "\<And>p. map_of (entries view1) p = None \<longleftrightarrow> p \<notin> set (block_outpoints header_root_lib [sample_coinbase, sample_spend])"
  shows "findInputsToFetch header_root_lib (next_block [sample_coinbase, sample_spend]) view1 = Some (view1, [sample_outpoint])"
proof -
  have flight: "txInFlight header_root_lib [sample_coinbase, sample_spend] (op_Hash sample_outpoint) = None"
    by (simp add: txInFlight_def root_hash sample_outpoint_def numeral_eq_Suc)
  obtain txin where txin: "tx_TxIn sample_spend = [txin]" "PreviousOutPoint txin = sample_outpoint"
    by (simp add: sample_spend_def)
  have "map_of (entries view1) sample_outpoint = None" using assms root_not_block_op by blast
  then have "find_input header_root_lib (next_block [sample_coinbase, sample_spend]) 0 txin (view1, []) = (view1, [sample_outpoint])"
    unfolding find_input_def using flight txin(2) by simp
  then show ?thesis unfolding findInputsToFetch_def using txin(1) by simp
qed

lemma sample_next_accepted:
  "\<exists>view' s'. checkConnectBlock sample_env 3 (next_block [sample_coinbase, sample_spend]) (SetBestHash [2] NewUtxoViewpoint) None next_chain
    = Some (Inr (view', None), s')"
proof -
  let ?L = header_root_lib and ?txs = "[sample_coinbase, sample_spend]"
  have ops: "block_ops_ok ?L (next_block ?txs)"
    by (rule root_block_ops) (auto simp: sample_inputs op_ok_def sample_outpoint_def zeroHash_def)
  have find: "\<exists>view1'. findInputsToFetch ?L (next_block ?txs) view1 = Some (view1', [sample_outpoint]) \<and> view_coins view1' = Map.empty"
    if "\<And>p. view_coins view1 p = None" "\<And>p. map_of (entries view1) p = None \<longleftrightarrow> p \<notin> set (block_outpoints ?L (Transactions (next_block ?txs)))" for view1
  proof -
    have "view_coins view1 = Map.empty" using that(1) by (simp add: fun_eq_iff)
    then show ?thesis using sample_find[of view1] that(2) by (intro exI[of _ view1]) simp
  qed
  have side: "hPrevBlock (Header (next_block ?txs)) = [2]"
      "sample_outpoint \<notin> set (block_outpoints ?L (Transactions (next_block ?txs)))"
      "Transactions (next_block ?txs) \<noteq> []" "\<forall>tx \<in> set (Transactions (next_block ?txs)). tx_Version tx = 1"
    using root_not_block_op by (simp_all add: sample_coinbase_def sample_spend_def)
  obtain view2 where v2: "\<And>p. view_coins view2 p = (if p \<in> set [sample_outpoint] then chain_coins sample_env next_chain p else Map.empty p)"
      "filled_view (next_block ?txs) view2"
    using next_run[OF side(1) ops side(2-4) find] by blast
  have coin: "view_coins view2 sample_outpoint = Some (coin_of sample_entry)"
    using v2(1)[of sample_outpoint] next_coins[OF sample_outpoint_ok] by simp
  obtain view3 where v3: "connect_checked ?L sample_params 3 sample_coinbase (0, view2, None) = Inr (0, view3, None)"
      "view_coins view3 = ledger_tx ?L 3 sample_coinbase (view_coins view2)"
    using connect_checked_accepts[OF root_money sample_txs_sane(1), of 0 sample_params 3 view2] sample_coinbases(1) by auto
  have "view_coins view3 sample_outpoint = Some (coin_of sample_entry)"
    using v3(2) coin root_outpoint sample_coinbases(1) by (auto simp: ledger_tx_def ledger_outs_other out_ops_def)
  then have coin3: "list_all (spendable ?L sample_params 3 (view_coins view3)) (inputs sample_spend)" "value_in (view_coins view3) sample_spend = 5000"
    by (simp_all add: sample_inputs spendable_def value_in_def coin_value_def)
      (simp_all add: coin_of_def sample_entry_def entry_IsCoinBase_def tfCoinBase_def header_root_lib_def tfFresh_def tfModified_def)
  have out: "value_out sample_spend = 5000" "5000 \<le> MaxSatoshi ?L" by (simp_all add: value_out_def sample_spend_def header_root_lib_def)
  have "\<exists>view4. connect_checked ?L sample_params 3 sample_spend (0, view3, None) = Inr (0, view4, None)"
    using connect_checked_accepts[OF root_money sample_txs_sane(2), of 0 sample_params 3 view3] coin3 out sample_coinbases(2) by auto
  then obtain view4 where v4: "connect_checked ?L sample_params 3 sample_spend (0, view3, None) = Inr (0, view4, None)" by blast
  have total: "output_total sample_coinbase = 100"
    using output_total_sane(1)[OF root_money sample_txs_sane(1)] by (simp add: value_out_def sample_coinbase_def)
  have "i64 (CalcBlockSubsidy 3 sample_params) = CalcBlockSubsidy 3 sample_params" using subsidy_3 by (intro i64_id) simp_all
  then show ?thesis
    using v2(2)[unfolded filled_view_def, rule_format, of 0 view4] v3(1) v4 total subsidy_3 coin by (auto simp: sample_inputs)
qed

lemma next_coins_ok: "coins_ok (chain_coins sample_env next_chain)"
proof -
  let ?U = "chain_coins sample_env next_chain" and ?key = "replicate 32 1 @ vlq 0"
  have coins: "?U p = (if outpointKey p = outpointKey sample_outpoint then Some (coin_of sample_entry) else None)" for p
    by (simp add: chain_coins_def next_chain_def sample_chain_def sample_env_def cache_coins_def empty_cache_def newUtxoCache_def
        ms_get_def db_coins_def sample_fetch)
  have "p \<in> (\<lambda>(hash, idx). \<lparr>op_Hash = hash, op_Index = idx\<rparr>) ` ((\<lambda>n. take n ?key) ` {..length ?key} \<times> UNIV)" if "p \<in> dom ?U" for p
  proof -
    have "op_Hash p @ vlq (ucast (op_Index p)) = ?key"
      using that coins[of p] by (auto simp: outpointKey_eq sample_outpoint_def split: if_splits)
    then have "op_Hash p = take (length (op_Hash p)) ?key" "length (op_Hash p) \<le> length ?key"
      by (metis append_eq_conv_conj, metis length_append le_add1)
    then have "op_Hash p \<in> (\<lambda>n. take n ?key) ` {..length ?key}" by blast
    then show ?thesis by (intro image_eqI[of _ _ "(op_Hash p, op_Index p)"]) simp_all
  qed
  then have "dom ?U \<subseteq> (\<lambda>(hash, idx). \<lparr>op_Hash = hash, op_Index = idx\<rparr>) ` ((\<lambda>n. take n ?key) ` {..length ?key} \<times> UNIV)" by blast
  then have "finite (dom ?U)" by (rule finite_subset) (intro finite_imageI finite_cartesian_product finite_atMost, simp)
  then show ?thesis using coins by (auto simp: coins_ok_def coin_of_def sample_entry_def split: if_splits)
qed

theorem accepted_block_no_inflation_witness:
  "block_applies header_root_lib 3 [sample_coinbase, sample_spend] (chain_coins sample_env next_chain)
    \<and> money (ledger_block header_root_lib 3 [sample_coinbase, sample_spend] (chain_coins sample_env next_chain))
      \<le> money (chain_coins sample_env next_chain) + CalcBlockSubsidy 3 sample_params"
proof -
  let ?L = header_root_lib and ?txs = "[sample_coinbase, sample_spend]"
  obtain view' s' where run: "checkConnectBlock sample_env 3 (next_block ?txs) (SetBestHash [2] NewUtxoViewpoint) None next_chain
      = Some (Inr (view', None), s')"
    using sample_next_accepted by blast
  have ops: "block_ops_ok ?L (next_block ?txs)"
    by (rule root_block_ops) (auto simp: sample_inputs op_ok_def sample_outpoint_def zeroHash_def)
  have sane: "checkBlockSanity sample_pow ?L (unix_time 300) (next_block ?txs) (2 ^ 255 - 1) BFNone = Inr ()"
    using sample_coinbases sample_txs_sane
    by (intro block_sane next_header_sane root_money root_size) (simp_all add: root_hash next_merkle_root next_block_root, simp add: sample_coinbase_def sample_spend_def)
  have ordered: "ordered_block ?L ?txs"
    using sample_coinbases root_outpoint by (auto simp: ordered_block_def less_Suc_eq sample_inputs out_ops_def nth_Cons split: nat.splits)
  have env: "e_wire sample_env = ?L" "e_pow sample_env = sample_pow" "chainParams sample_env = sample_params" by (simp_all add: sample_env_def)
  show ?thesis
    using accepted_block_no_inflation[OF next_chain_cache next_coins_ok, of "next_block ?txs" "unix_time 300" "2 ^ 255 - 1" BFNone 3 "[2]" None view' None s']
      ops sane ordered run by (simp add: env next_node) (simp add: sample_node_def sample_params_def header_root_lib_def initialReward_def minReward_def)
qed

end
