(* ===== verification/Orphans.thy ===== *)
theory Orphans
  imports Chain_State
begin

text \<open>
  The orphan pool (chain.go): blocks whose parent is not known, under their own hash and, for the dependency
  lookup, under the hash of their parent.  The pool is a map in the code; the model keeps it as an association
  list, and the loop over it visits the entries in the order of the list, which is arbitrary.
\<close>

section \<open>Operations\<close>

definition maxOrphanBlocks :: int where "maxOrphanBlocks = 100"

definition IsKnownOrphan :: "('b, 'bl) BlockChain \<Rightarrow> hash \<Rightarrow> bool" where
  "IsKnownOrphan s h \<longleftrightarrow> map_of (orphans s) h \<noteq> None"

text \<open>The loop of \<open>GetOrphanRoot\<close>; it would not end on a cycle of hashes.\<close>

partial_function (option) orphan_root :: "(hash \<times> orphanBlock) list \<Rightarrow> hash \<Rightarrow> hash \<Rightarrow> hash option" where
  "orphan_root pool orphanRoot prevHash =
    (case map_of pool prevHash of
       None \<Rightarrow> Some orphanRoot
     | Some orphan \<Rightarrow> orphan_root pool prevHash (hPrevBlock (Header (ob_block orphan))))"

declare orphan_root.simps [code]

definition GetOrphanRoot :: "('b, 'bl) BlockChain \<Rightarrow> hash \<Rightarrow> hash option" where
  "GetOrphanRoot s h = orphan_root (orphans s) h h"

definition block_hash :: "wire_lib \<Rightarrow> Block \<Rightarrow> hash" where
  "block_hash L block = BlockHash L (Header block)"

definition prev_orphans :: "('b, 'bl) BlockChain \<Rightarrow> hash \<Rightarrow> orphanBlock list" where
  "prev_orphans s h = (case prevOrphans s h of None \<Rightarrow> [] | Some l \<Rightarrow> l)"

definition removeOrphanBlock :: "wire_lib \<Rightarrow> orphanBlock \<Rightarrow> ('b, 'bl) BlockChain \<Rightarrow> ('b, 'bl) BlockChain" where
  "removeOrphanBlock L orphan s =
    (let orphanHash = block_hash L (ob_block orphan);
         prevHash = hPrevBlock (Header (ob_block orphan));
         left = filter (\<lambda>ob. block_hash L (ob_block ob) \<noteq> orphanHash) (prev_orphans s prevHash)
     in s\<lparr>orphans := AList.delete orphanHash (orphans s),
          prevOrphans := (prevOrphans s)(prevHash := if left = [] then None else Some left)\<rparr>)"

text \<open>One iteration of the clean-up loop of \<open>addOrphanBlock\<close>.\<close>

definition visit_orphan :: "wire_lib \<Rightarrow> int \<Rightarrow> orphanBlock \<Rightarrow> ('b, 'bl) BlockChain \<Rightarrow> ('b, 'bl) BlockChain" where
  "visit_orphan L now oBlock s =
    (if now > ob_expiration oBlock then removeOrphanBlock L oBlock s
     else case oldestOrphan s of
            None \<Rightarrow> s\<lparr>oldestOrphan := Some oBlock\<rparr>
          | Some old \<Rightarrow> if ob_expiration oBlock < ob_expiration old then s\<lparr>oldestOrphan := Some oBlock\<rparr> else s)"

definition insert_orphan :: "wire_lib \<Rightarrow> orphanBlock \<Rightarrow> ('b, 'bl) BlockChain \<Rightarrow> ('b, 'bl) BlockChain" where
  "insert_orphan L oBlock s =
    (let prevHash = hPrevBlock (Header (ob_block oBlock))
     in s\<lparr>orphans := AList.update (block_hash L (ob_block oBlock)) oBlock (orphans s),
          prevOrphans := (prevOrphans s)(prevHash \<mapsto> prev_orphans s prevHash @ [oBlock])\<rparr>)"

definition addOrphanBlock :: "('pk, 'b, 'bl) chain_env \<Rightarrow> Block \<Rightarrow> (('b, 'bl) BlockChain, unit) comp" where
  "addOrphanBlock env block =
    (let L = e_wire env; hour = 3600000000000
     in seqC (modC (\<lambda>s. fold (visit_orphan L (Now env)) (map snd (orphans s)) s))
       (bindC (readC (\<lambda>s. (int (length (orphans s)) + 1 > maxOrphanBlocks, oldestOrphan s))) (\<lambda>(full, old).
        seqC (if full
              then case old of
                     None \<Rightarrow> failC Panic
                   | Some oBlock \<Rightarrow> modC (\<lambda>s. (removeOrphanBlock L oBlock s)\<lparr>oldestOrphan := None\<rparr>)
              else retC ())
             (modC (insert_orphan L \<lparr>ob_block = block, ob_expiration = Now env + hour\<rparr>)))))"

section \<open>The pool and its index\<close>

text \<open>
  A block hash commits to the hash of the previous block.  The pool files every orphan once, under its hash,
  and the index lists, for every hash, exactly the orphans of the pool that name it as their parent.
\<close>

definition commits_to_parent :: "wire_lib \<Rightarrow> bool" where
  "commits_to_parent L \<longleftrightarrow> (\<forall>h1 h2. BlockHash L h1 = BlockHash L h2 \<longrightarrow> hPrevBlock h1 = hPrevBlock h2)"

abbreviation ob_hash :: "wire_lib \<Rightarrow> orphanBlock \<Rightarrow> hash" where "ob_hash L ob \<equiv> block_hash L (ob_block ob)"
abbreviation ob_prev :: "orphanBlock \<Rightarrow> hash" where "ob_prev ob \<equiv> hPrevBlock (Header (ob_block ob))"

definition pool_ok :: "wire_lib \<Rightarrow> ('b, 'bl) BlockChain \<Rightarrow> bool" where
  "pool_ok L s \<longleftrightarrow> distinct (map fst (orphans s)) \<and> (\<forall>h ob. (h, ob) \<in> set (orphans s) \<longrightarrow> h = ob_hash L ob)
    \<and> (\<forall>p. prevOrphans s p \<noteq> Some [] \<and> distinct (map (ob_hash L) (prev_orphans s p))
         \<and> (\<forall>ob. ob \<in> set (prev_orphans s p) \<longleftrightarrow> (ob_hash L ob, ob) \<in> set (orphans s) \<and> ob_prev ob = p))"

lemma pool_okD:
  assumes "pool_ok L s"
  shows "distinct (map fst (orphans s))" "(h, ob) \<in> set (orphans s) \<Longrightarrow> h = ob_hash L ob" "prevOrphans s p \<noteq> Some []"
    "distinct (map (ob_hash L) (prev_orphans s p))"
    "ob \<in> set (prev_orphans s p) \<longleftrightarrow> (ob_hash L ob, ob) \<in> set (orphans s) \<and> ob_prev ob = p"
  using assms unfolding pool_ok_def by blast+

lemma same_parent: "commits_to_parent L \<Longrightarrow> ob_hash L ob = ob_hash L ob' \<Longrightarrow> ob_prev ob = ob_prev ob'"
  unfolding commits_to_parent_def block_hash_def by blast

lemma remove_simps [simp]:
  "orphans (removeOrphanBlock L ob s) = AList.delete (ob_hash L ob) (orphans s)"
  "oldestOrphan (removeOrphanBlock L ob s) = oldestOrphan s"
  "prev_orphans (removeOrphanBlock L ob s) p =
    (if p = ob_prev ob then filter (\<lambda>x. ob_hash L x \<noteq> ob_hash L ob) (prev_orphans s p) else prev_orphans s p)"
  "prevOrphans s p \<noteq> Some [] \<Longrightarrow> prevOrphans (removeOrphanBlock L ob s) p \<noteq> Some []"
  by (auto simp: removeOrphanBlock_def prev_orphans_def Let_def)

lemma remove_pool_ok:
  assumes "commits_to_parent L" "pool_ok L s"
  shows "pool_ok L (removeOrphanBlock L ob s)"
proof -
  let ?s = "removeOrphanBlock L ob s"
  have "x \<in> set (prev_orphans ?s p) \<longleftrightarrow> (ob_hash L x, x) \<in> set (orphans ?s) \<and> ob_prev x = p" for p x
    using pool_okD(5)[OF assms(2), of x p] same_parent[OF assms(1), of x ob] by (auto simp: AList.delete_eq)
  moreover have "distinct (map (ob_hash L) (prev_orphans ?s p))" for p
    using pool_okD(4)[OF assms(2), of p] by (auto intro: distinct_map_filter)
  moreover have "distinct (map fst (orphans ?s))" using pool_okD(1)[OF assms(2)] by (simp add: AList.distinct_delete)
  moreover have "h = ob_hash L x" if "(h, x) \<in> set (orphans ?s)" for h x
    using that pool_okD(2)[OF assms(2)] by (simp add: AList.delete_eq)
  moreover have "prevOrphans ?s p \<noteq> Some []" for p using pool_okD(3)[OF assms(2)] by simp
  ultimately show ?thesis unfolding pool_ok_def by blast
qed

lemma update_new: "k \<notin> fst ` set xs \<Longrightarrow> AList.update k v xs = xs @ [(k, v)]"
  by (induction xs) auto

lemma insert_simps [simp]:
  "prev_orphans (insert_orphan L ob s) p = (if p = ob_prev ob then prev_orphans s p @ [ob] else prev_orphans s p)"
  "oldestOrphan (insert_orphan L ob s) = oldestOrphan s"
  by (auto simp: insert_orphan_def Let_def prev_orphans_def)

lemma insert_pool_ok:
  assumes "pool_ok L s" "ob_hash L ob \<notin> fst ` set (orphans s)"
  shows "orphans (insert_orphan L ob s) = orphans s @ [(ob_hash L ob, ob)]" "pool_ok L (insert_orphan L ob s)"
proof -
  let ?s = "insert_orphan L ob s"
  show pool: "orphans ?s = orphans s @ [(ob_hash L ob, ob)]"
    using update_new[OF assms(2)] by (simp add: insert_orphan_def Let_def)
  have fresh: "ob_hash L ob \<notin> ob_hash L ` set (prev_orphans s p)" for p
    using assms(2) pool_okD(5)[OF assms(1), of _ p] by (force simp: image_iff)
  have "prevOrphans ?s p \<noteq> Some []" for p using pool_okD(3)[OF assms(1)] by (simp add: insert_orphan_def Let_def)
  moreover have "distinct (map (ob_hash L) (prev_orphans ?s p))" for p
    using pool_okD(4)[OF assms(1), of p] fresh[of p] by auto
  moreover have "x \<in> set (prev_orphans ?s p) \<longleftrightarrow> (ob_hash L x, x) \<in> set (orphans ?s) \<and> ob_prev x = p" for p x
    using pool_okD(5)[OF assms(1), of x p] pool by auto
  moreover have "distinct (map fst (orphans ?s))" using pool_okD(1)[OF assms(1)] assms(2) pool by auto
  moreover have "h = ob_hash L x" if "(h, x) \<in> set (orphans ?s)" for h x
    using that pool_okD(2)[OF assms(1)] pool by auto
  ultimately show "pool_ok L ?s" unfolding pool_ok_def by blast
qed

section \<open>Cleaning up\<close>

lemma pool_ok_oldest [simp]: "pool_ok L (s\<lparr>oldestOrphan := x\<rparr>) = pool_ok L s"
  by (simp add: pool_ok_def prev_orphans_def)

lemma visit_pool_ok: "commits_to_parent L \<Longrightarrow> pool_ok L s \<Longrightarrow> pool_ok L (visit_orphan L now ob s)"
  by (auto simp: visit_orphan_def remove_pool_ok split: option.splits)

lemma visit_orphans:
  "orphans (visit_orphan L now ob s) = (if now > ob_expiration ob then AList.delete (ob_hash L ob) (orphans s) else orphans s)"
  "oldestOrphan (visit_orphan L now ob s) \<noteq> None \<longleftrightarrow> oldestOrphan s \<noteq> None \<or> now \<le> ob_expiration ob"
  by (auto simp: visit_orphan_def split: option.splits)

lemma visit_all:
  "commits_to_parent L \<Longrightarrow> pool_ok L s \<Longrightarrow> pool_ok L (fold (visit_orphan L now) obs s)
    \<and> orphans (fold (visit_orphan L now) obs s)
      = filter (\<lambda>(h, ob). \<not> (\<exists>x \<in> set obs. now > ob_expiration x \<and> ob_hash L x = h)) (orphans s)
    \<and> (oldestOrphan (fold (visit_orphan L now) obs s) \<noteq> None \<longleftrightarrow> oldestOrphan s \<noteq> None \<or> (\<exists>x \<in> set obs. now \<le> ob_expiration x))"
proof (induction obs arbitrary: s)
  case (Cons ob obs)
  have ok: "pool_ok L (visit_orphan L now ob s)" using visit_pool_ok Cons.prems .
  note IH = Cons.IH[OF Cons.prems(1) ok]
  have "filter (\<lambda>(h, x). \<not> (\<exists>x \<in> set obs. now > ob_expiration x \<and> ob_hash L x = h)) (orphans (visit_orphan L now ob s))
      = filter (\<lambda>(h, x). \<not> (\<exists>x \<in> set (ob # obs). now > ob_expiration x \<and> ob_hash L x = h)) (orphans s)"
    unfolding visit_orphans(1) by (auto simp: AList.delete_eq intro!: filter_cong)
  moreover have "oldestOrphan (visit_orphan L now ob s) \<noteq> None \<or> (\<exists>x \<in> set obs. now \<le> ob_expiration x)
      \<longleftrightarrow> oldestOrphan s \<noteq> None \<or> (\<exists>x \<in> set (ob # obs). now \<le> ob_expiration x)"
    unfolding visit_orphans(2) by auto
  ultimately show ?case using IH by simp
qed simp

lemma visit_oldest:
  "oldestOrphan (fold (visit_orphan L now) obs s) = oldestOrphan s
    \<or> (\<exists>x \<in> set obs. now \<le> ob_expiration x \<and> oldestOrphan (fold (visit_orphan L now) obs s) = Some x)"
proof (induction obs arbitrary: s)
  case (Cons ob obs)
  have "oldestOrphan (visit_orphan L now ob s) = oldestOrphan s \<or> now \<le> ob_expiration ob \<and> oldestOrphan (visit_orphan L now ob s) = Some ob"
    by (auto simp: visit_orphan_def split: option.splits)
  then show ?case using Cons.IH[of "visit_orphan L now ob s"] by auto
qed simp

lemma visit_keeps_oldest:
  assumes "oldestOrphan s = Some old" "\<forall>x \<in> set obs. now \<le> ob_expiration x \<and> ob_expiration old \<le> ob_expiration x"
  shows "fold (visit_orphan L now) obs s = s"
  using assms by (induction obs) (auto simp: visit_orphan_def)

text \<open>What the clean-up leaves: the orphans that have not expired.\<close>

lemma cleaned:
  assumes "commits_to_parent L" "pool_ok L s" and s1: "s1 = fold (visit_orphan L now) (map snd (orphans s)) s"
  shows "pool_ok L s1" "orphans s1 = filter (\<lambda>(h, ob). now \<le> ob_expiration ob) (orphans s)"
    "orphans s1 = [] \<or> oldestOrphan s1 \<noteq> None"
proof -
  note all = visit_all[OF assms(1,2), of now "map snd (orphans s)", folded s1]
  show "pool_ok L s1" using all by blast
  have expired: "(\<exists>x \<in> set (map snd (orphans s)). now > ob_expiration x \<and> ob_hash L x = h) \<longleftrightarrow> now > ob_expiration ob"
    if "(h, ob) \<in> set (orphans s)" for h ob
  proof -
    have "x = ob" if "x \<in> set (map snd (orphans s))" "ob_hash L x = h" for x
    proof -
      obtain h' where "(h', x) \<in> set (orphans s)" using \<open>x \<in> set (map snd (orphans s))\<close> by auto
      then have "map_of (orphans s) h = Some x" using pool_okD(1,2)[OF assms(2)] that(2) by (metis map_of_is_SomeI)
      then show ?thesis using \<open>(h, ob) \<in> set (orphans s)\<close> pool_okD(1)[OF assms(2)] by simp
    qed
    moreover have "ob \<in> set (map snd (orphans s))" "ob_hash L ob = h" using that pool_okD(2)[OF assms(2) that] by force+
    ultimately show ?thesis by metis
  qed
  show pool: "orphans s1 = filter (\<lambda>(h, ob). now \<le> ob_expiration ob) (orphans s)"
  proof -
    have "orphans s1 = filter (\<lambda>(h, ob). \<not> (\<exists>x \<in> set (map snd (orphans s)). now > ob_expiration x \<and> ob_hash L x = h)) (orphans s)"
      using all by blast
    also have "\<dots> = filter (\<lambda>(h, ob). now \<le> ob_expiration ob) (orphans s)"
    proof (rule filter_cong[OF refl])
      fix x assume "x \<in> set (orphans s)"
      then show "(case x of (h, ob) \<Rightarrow> \<not> (\<exists>x \<in> set (map snd (orphans s)). now > ob_expiration x \<and> ob_hash L x = h))
          = (case x of (h, ob) \<Rightarrow> now \<le> ob_expiration ob)"
        using expired[of "fst x" "snd x"] by (simp only: prod.collapse case_prod_beta not_less)
    qed
    finally show ?thesis .
  qed
  have "\<exists>x \<in> set (map snd (orphans s)). now \<le> ob_expiration x" if ne: "orphans s1 \<noteq> []"
  proof -
    obtain h ob where "(h, ob) \<in> set (orphans s1)" using ne by (cases "orphans s1") auto
    then have "(h, ob) \<in> set (orphans s)" "now \<le> ob_expiration ob" unfolding pool by auto
    then show ?thesis by (intro bexI[of _ ob]) force+
  qed
  then show "orphans s1 = [] \<or> oldestOrphan s1 \<noteq> None" using all by blast
qed

section \<open>Properties\<close>

text \<open>What \<open>addOrphanBlock\<close> does after the clean-up.\<close>

lemma addOrphanBlock_run:
  assumes "commits_to_parent (e_wire env)" "pool_ok (e_wire env) s" "block_hash (e_wire env) block \<notin> fst ` set (orphans s)"
  defines "s1 \<equiv> fold (visit_orphan (e_wire env) (Now env)) (map snd (orphans s)) s"
  defines "s2 \<equiv> if int (length (orphans s1)) + 1 > maxOrphanBlocks
      then (removeOrphanBlock (e_wire env) (the (oldestOrphan s1)) s1)\<lparr>oldestOrphan := None\<rparr> else s1"
  defines "ob \<equiv> \<lparr>ob_block = block, ob_expiration = Now env + 3600000000000\<rparr>"
  shows "addOrphanBlock env block s = Some (Inr (), insert_orphan (e_wire env) ob s2)" "pool_ok (e_wire env) s2"
    "ob_hash (e_wire env) ob \<notin> fst ` set (orphans s2)"
proof -
  note clean = cleaned[OF assms(1,2) s1_def[THEN meta_eq_to_obj_eq]]
  have "oldestOrphan s1 \<noteq> None" if "int (length (orphans s1)) + 1 > maxOrphanBlocks"
    using that clean(3) by (auto simp: maxOrphanBlocks_def)
  then show "addOrphanBlock env block s = Some (Inr (), insert_orphan (e_wire env) ob s2)"
    by (auto simp: addOrphanBlock_def comp_defs Let_def s1_def[symmetric] s2_def ob_def split: option.splits)
  show "pool_ok (e_wire env) s2" using clean(1) remove_pool_ok[OF assms(1)] by (auto simp: s2_def)
  show "ob_hash (e_wire env) ob \<notin> fst ` set (orphans s2)"
    using assms(3) clean(2) by (auto simp: s2_def ob_def AList.delete_eq)
qed

text \<open>
  C31: adding a block that is not in the pool never dereferences a missing oldest orphan; afterwards the block is
  known, expired orphans are gone, the dependency index lists exactly the orphans of the pool, and the pool
  holds at most one hundred blocks, provided that the oldest orphan recorded earlier is still in the pool and
  has not expired.
\<close>

theorem addOrphanBlock_correct:
  assumes "commits_to_parent (e_wire env)" "pool_ok (e_wire env) s" "\<not> IsKnownOrphan s (block_hash (e_wire env) block)"
  shows "\<exists>s'. addOrphanBlock env block s = Some (Inr (), s') \<and> pool_ok (e_wire env) s'
    \<and> IsKnownOrphan s' (block_hash (e_wire env) block)
    \<and> (\<forall>(h, ob) \<in> set (orphans s'). Now env \<le> ob_expiration ob)
    \<and> (int (length (orphans s)) \<le> maxOrphanBlocks \<longrightarrow>
        (\<forall>old. oldestOrphan s = Some old \<longrightarrow> map_of (orphans s) (ob_hash (e_wire env) old) = Some old \<and> Now env \<le> ob_expiration old)
        \<longrightarrow> int (length (orphans s')) \<le> maxOrphanBlocks)"
proof -
  let ?L = "e_wire env" and ?now = "Now env"
  define s1 where "s1 = fold (visit_orphan ?L ?now) (map snd (orphans s)) s"
  define s2 where "s2 = (if int (length (orphans s1)) + 1 > maxOrphanBlocks
      then (removeOrphanBlock ?L (the (oldestOrphan s1)) s1)\<lparr>oldestOrphan := None\<rparr> else s1)"
  define ob where "ob = \<lparr>ob_block = block, ob_expiration = ?now + 3600000000000\<rparr>"
  have "block_hash ?L block \<notin> fst ` set (orphans s)" using assms(3) by (simp add: IsKnownOrphan_def map_of_eq_None_iff)
  note run = addOrphanBlock_run[OF assms(1,2) this, folded s1_def, folded s2_def ob_def]
  note clean = cleaned[OF assms(1,2) s1_def]
  note ins = insert_pool_ok[OF run(2,3)]
  have sub: "set (orphans s2) \<subseteq> set (orphans s1)" by (auto simp: s2_def AList.delete_eq)
  have live: "?now \<le> ob_expiration x" if "(h, x) \<in> set (orphans s1)" for h x using that clean(2) by auto
  have len: "int (length (orphans s2)) + 1 \<le> maxOrphanBlocks"
    if small: "int (length (orphans s)) \<le> maxOrphanBlocks"
      and old: "\<forall>old. oldestOrphan s = Some old \<longrightarrow> map_of (orphans s) (ob_hash ?L old) = Some old \<and> ?now \<le> ob_expiration old"
  proof (cases "int (length (orphans s1)) + 1 > maxOrphanBlocks")
    case True
    then obtain x where x: "oldestOrphan s1 = Some x" using clean(3) by (auto simp: maxOrphanBlocks_def)
    have "(ob_hash ?L x, x) \<in> set (orphans s) \<and> ?now \<le> ob_expiration x"
    proof (cases "oldestOrphan s1 = oldestOrphan s")
      case True
      then show ?thesis using x old by (metis map_of_SomeD)
    next
      case False
      then obtain h where "(h, x) \<in> set (orphans s)" "?now \<le> ob_expiration x"
        using visit_oldest[of ?L ?now "map snd (orphans s)" s, folded s1_def] x by auto
      then show ?thesis using pool_okD(2)[OF assms(2)] by blast
    qed
    then have "(ob_hash ?L x, x) \<in> set (orphans s1)" unfolding clean(2) by auto
    then have "length (AList.delete (ob_hash ?L x) (orphans s1)) < length (orphans s1)"
      unfolding AList.delete_eq by (rule length_filter_less) simp
    moreover have "length (orphans s1) \<le> length (orphans s)" unfolding clean(2) by simp
    ultimately show ?thesis using True small x by (simp add: s2_def)
  qed (simp add: s2_def)
  show ?thesis
  proof (intro exI[of _ "insert_orphan ?L ob s2"] conjI)
    show "IsKnownOrphan (insert_orphan ?L ob s2) (block_hash ?L block)"
      unfolding ins(1) IsKnownOrphan_def by (simp add: map_of_eq_None_iff ob_def)
    show "\<forall>(h, x) \<in> set (orphans (insert_orphan ?L ob s2)). ?now \<le> ob_expiration x"
      unfolding ins(1) using sub live by (auto simp: ob_def)
  qed (use run ins len in auto)
qed

text \<open>
  C40: the limit of one hundred blocks is not enforced when the recorded oldest orphan has already left the
  pool: removing it again does nothing, and the pool of one hundred grows to one hundred and one.
\<close>

theorem orphan_pool_overflow:
  assumes "commits_to_parent (e_wire env)" "pool_ok (e_wire env) s" "\<not> IsKnownOrphan s (block_hash (e_wire env) block)"
    "int (length (orphans s)) = maxOrphanBlocks" "oldestOrphan s = Some old" "\<not> IsKnownOrphan s (ob_hash (e_wire env) old)"
    "\<forall>(h, ob) \<in> set (orphans s). Now env \<le> ob_expiration ob \<and> ob_expiration old \<le> ob_expiration ob"
  shows "\<exists>s'. addOrphanBlock env block s = Some (Inr (), s') \<and> int (length (orphans s')) = maxOrphanBlocks + 1"
proof -
  let ?L = "e_wire env" and ?now = "Now env"
  have new: "block_hash ?L block \<notin> fst ` set (orphans s)" "ob_hash ?L old \<notin> fst ` set (orphans s)"
    using assms(3,6) by (simp_all add: IsKnownOrphan_def map_of_eq_None_iff)
  have kept: "fold (visit_orphan ?L ?now) (map snd (orphans s)) s = s"
    using assms(7) by (intro visit_keeps_oldest[OF assms(5)]) auto
  note run = addOrphanBlock_run[OF assms(1,2) new(1), unfolded kept]
  have "AList.delete (ob_hash ?L old) (orphans s) = orphans s" using new(2) by simp
  then show ?thesis using run insert_pool_ok(1)[OF run(2,3)] assms(4,5) by simp
qed

section \<open>Witnesses\<close>

definition chained_lib :: wire_lib where
  "chained_lib = header_root_lib\<lparr>BlockHash := \<lambda>h. hPrevBlock h @ [ucast (hNonce h)]\<rparr>"

definition orphan_block :: "nat \<Rightarrow> Block" where
  "orphan_block i = \<lparr>Header = \<lparr>hVersion = 1, hPrevBlock = [of_nat i], hMerkleRoot = [], hTimestamp = 0, hBits = 0, hNonce = 7\<rparr>,
     Transactions = [], blk_Height = 0\<rparr>"

definition sample_orphan :: "nat \<Rightarrow> orphanBlock" where
  "sample_orphan i = \<lparr>ob_block = orphan_block i, ob_expiration = 5000\<rparr>"

definition orphan_env where "orphan_env = sample_env\<lparr>e_wire := chained_lib, Now := 1000\<rparr>"

definition full_pool :: "(byte list \<rightharpoonup> byte list, hash \<rightharpoonup> Block) BlockChain" where
  "full_pool = sample_chain\<lparr>orphans := map (\<lambda>i. ([of_nat i, 7], sample_orphan i)) [0..<100],
     prevOrphans := (\<lambda>p. if p \<in> (\<lambda>i. [of_nat i]) ` {..<100} then Some [sample_orphan (unat (hd p))] else None),
     oldestOrphan := Some (sample_orphan 200)\<rparr>"

lemma orphan_hash: "ob_hash chained_lib (sample_orphan i) = [of_nat i, 7]"
  by (simp add: block_hash_def chained_lib_def sample_orphan_def orphan_block_def)

lemma chained_commits: "commits_to_parent chained_lib"
  by (auto simp: commits_to_parent_def chained_lib_def)

lemma byte_eq: "i < 256 \<Longrightarrow> j < 256 \<Longrightarrow> (of_nat i :: byte) = of_nat j \<longleftrightarrow> i = j"
  by (simp add: word_unat_eq_iff unat_of_nat)

lemma full_pool_ok: "pool_ok chained_lib full_pool"
proof -
  have prev: "prev_orphans full_pool p = (if p \<in> (\<lambda>i. [of_nat i]) ` {..<100} then [sample_orphan (unat (hd p))] else [])" for p
    by (simp add: prev_orphans_def full_pool_def)
  have "ob \<in> set (prev_orphans full_pool p) \<longleftrightarrow> (ob_hash chained_lib ob, ob) \<in> set (orphans full_pool) \<and> ob_prev ob = p" for ob p
    unfolding prev
    by (auto simp: full_pool_def orphan_hash unat_of_nat image_iff) (auto simp: sample_orphan_def orphan_block_def)
  moreover have "distinct (map fst (orphans full_pool))"
    by (auto simp: full_pool_def distinct_map inj_on_def byte_eq comp_def)
  moreover have "\<forall>h ob. (h, ob) \<in> set (orphans full_pool) \<longrightarrow> h = ob_hash chained_lib ob"
    by (auto simp: full_pool_def orphan_hash)
  moreover have "prevOrphans full_pool p \<noteq> Some []" for p by (simp add: full_pool_def)
  moreover have "distinct (map (ob_hash chained_lib) (prev_orphans full_pool p))" for p unfolding prev by simp
  ultimately show ?thesis unfolding pool_ok_def by blast
qed

lemma full_pool_known: "i < 256 \<Longrightarrow> IsKnownOrphan full_pool [of_nat i, 7] \<longleftrightarrow> i < 100"
  by (auto simp: IsKnownOrphan_def map_of_eq_None_iff full_pool_def image_iff byte_eq)

lemma orphan_env_simps [simp]: "e_wire orphan_env = chained_lib" "Now orphan_env = 1000"
  by (simp_all add: orphan_env_def)

theorem orphan_pool_overflow_witness:
  "\<exists>s'. addOrphanBlock orphan_env (orphan_block 150) full_pool = Some (Inr (), s') \<and> int (length (orphans s')) = 101"
proof -
  have "block_hash chained_lib (orphan_block i) = [of_nat i, 7]" for i using orphan_hash[of i] by (simp add: sample_orphan_def)
  then show ?thesis
    using orphan_pool_overflow[of orphan_env full_pool "orphan_block 150" "sample_orphan 200"]
      chained_commits full_pool_ok full_pool_known[of 150] full_pool_known[of 200] orphan_hash[of 200]
    by (simp add: maxOrphanBlocks_def) (auto simp: full_pool_def sample_orphan_def)
qed

definition small_pool :: "(byte list \<rightharpoonup> byte list, hash \<rightharpoonup> Block) BlockChain" where
  "small_pool = sample_chain\<lparr>orphans := [], prevOrphans := Map.empty, oldestOrphan := None\<rparr>"

theorem addOrphanBlock_correct_witness:
  "\<exists>s'. addOrphanBlock orphan_env (orphan_block 1) small_pool = Some (Inr (), s') \<and> pool_ok chained_lib s'
    \<and> IsKnownOrphan s' [1, 7] \<and> int (length (orphans s')) \<le> 100"
proof -
  have "pool_ok chained_lib small_pool" by (simp add: pool_ok_def small_pool_def prev_orphans_def)
  moreover have "block_hash chained_lib (orphan_block 1) = [1, 7]" using orphan_hash[of 1] by (simp add: sample_orphan_def)
  ultimately show ?thesis
    using addOrphanBlock_correct[of orphan_env small_pool "orphan_block 1"] chained_commits
    by (simp add: IsKnownOrphan_def[of small_pool] maxOrphanBlocks_def) (auto simp: small_pool_def)
qed

end
