(* ===== verification/Best_Chain.thy ===== *)
theory Best_Chain
  imports Validate_Block Orphans
begin

text \<open>
  Connecting and disconnecting blocks at the end of the best chain, reorganization, and the choice of the best
  chain (chain.go, with the database functions of chainio.go and utxocache.go that it calls).

  \<open>db.Update\<close> undoes the changes to the database when its function fails; a transaction that does not fail is
  committed.  The chain has no index manager, and notifications, which are sent without the chain lock, do not
  change the chain.  When a call on the utxo cache fails, the model keeps the cache from before the call.
\<close>

section \<open>Steps on the chain\<close>

definition db_update :: "(('b, 'bl) BlockChain, 'a) comp \<Rightarrow> (('b, 'bl) BlockChain, 'a) comp" where
  "db_update m s = map_option (\<lambda>(r, s'). (r, case r of Inl e \<Rightarrow> s'\<lparr>cdb := cdb s\<rparr> | Inr _ \<Rightarrow> s')) (m s)"

definition on_db :: "(('b, 'bl) chain_db \<Rightarrow> error + ('b, 'bl) chain_db) \<Rightarrow> (('b, 'bl) BlockChain, unit) comp" where
  "on_db f s = (case f (cdb s) of Inl e \<Rightarrow> Some (Inl e, s) | Inr db \<Rightarrow> Some (Inr (), s\<lparr>cdb := db\<rparr>))"

text \<open>A \<open>nil\<close> tip panics where it is used.\<close>

definition best_tip :: "(('b, 'bl) BlockChain, nid) comp" where
  "best_tip = bindC (readC (\<lambda>s. tip (bestChain s))) (\<lambda>t. case t of None \<Rightarrow> failC Panic | Some n \<Rightarrow> retC n)"

definition set_best_tip :: "nid option \<Rightarrow> (('b, 'bl) BlockChain, unit) comp" where
  "set_best_tip node s = map_option (\<lambda>c. (Inr (), s\<lparr>bestChain := c\<rparr>)) (setTip (nodes s) (bestChain s) node)"

definition set_flags :: "nid \<Rightarrow> blockStatus \<Rightarrow> (('b, 'bl) BlockChain, unit) comp" where
  "set_flags n flags = modC (\<lambda>s. let (mem, bi) = SetStatusFlags (nodes s) (bindex s) n flags in s\<lparr>nodes := mem, bindex := bi\<rparr>)"

definition unset_flags :: "nid \<Rightarrow> blockStatus \<Rightarrow> (('b, 'bl) BlockChain, unit) comp" where
  "unset_flags n flags = modC (\<lambda>s. let (mem, bi) = UnsetStatusFlags (nodes s) (bindex s) n flags in s\<lparr>nodes := mem, bindex := bi\<rparr>)"

definition flush_index :: "('pk, 'b, 'bl) chain_env \<Rightarrow> (('b, 'bl) BlockChain, unit) comp" where
  "flush_index env s =
    (case flushToDB (SerializeHeader env) (Put (e_bucket env)) (nodes s) (bindex s) (blockRows (cdb s)) of
       (err, bi, rows) \<Rightarrow>
         Some (case err of None \<Rightarrow> Inr () | Some e \<Rightarrow> Inl e, s\<lparr>bindex := bi, cdb := (cdb s)\<lparr>blockRows := rows\<rparr>\<rparr>))"

text \<open>Callers that only log an error of the flush.\<close>

definition flush_index_logged :: "('pk, 'b, 'bl) chain_env \<Rightarrow> (('b, 'bl) BlockChain, unit) comp" where
  "flush_index_logged env = bindC (tryC (flush_index env)) (\<lambda>_. retC ())"

definition flush_cache :: "('pk, 'b, 'bl) chain_env \<Rightarrow> FlushMode \<Rightarrow> BestState \<Rightarrow> (('b, 'bl) BlockChain, unit) comp" where
  "flush_cache env mode state s =
    (case flush (e_keys env) (e_bucket env) (e_bucket env) (Now env) mode (st_Hash state)
            (utxoBucket (cdb s)) (metaBucket (cdb s)) (utxos s) of
       Inl e \<Rightarrow> Some (Inl e, s)
     | Inr (db, meta, c) \<Rightarrow> Some (Inr (), s\<lparr>utxos := c, cdb := (cdb s)\<lparr>utxoBucket := db, metaBucket := meta\<rparr>\<rparr>))"

text \<open>Fill a view with the inputs of a block.\<close>

definition fetch_inputs :: "('pk, 'b, 'bl) chain_env \<Rightarrow> Block \<Rightarrow> UtxoViewpoint \<Rightarrow> (('b, 'bl) BlockChain, UtxoViewpoint) comp" where
  "fetch_inputs env block view =
    bindC (readC (\<lambda>s. utxoBucket (cdb s))) (\<lambda>db.
      on_cache (\<lambda>c. fetchInputUtxos (e_log2 env) (e_keys env) (e_bucket env) (e_wire env) db block (c, view)))"

text \<open>Connect a block to the utxo cache; the journal of spent outputs is the result.\<close>

definition cache_connect :: "('pk, 'b, 'bl) chain_env \<Rightarrow> Block \<Rightarrow> (('b, 'bl) BlockChain, SpentTxOut list) comp" where
  "cache_connect env block =
    bindC (readC (\<lambda>s. utxoBucket (cdb s))) (\<lambda>db.
      on_cache (\<lambda>c. bindE (cache_connectTransactions (e_log2 env) (e_keys env) (e_bucket env) (e_wire env) db block (c, Some []))
        (\<lambda>(c, stxos). Inr (c, case stxos of None \<Rightarrow> [] | Some l \<Rightarrow> l))))"

section \<open>Database functions\<close>

definition chainStateKeyName :: "byte list" where
  "chainStateKeyName = map (word_of_int \<circ> of_char) ''chainstate''"

definition dbPutBestState :: "'db bucket_ops \<Rightarrow> 'db \<Rightarrow> BestState \<Rightarrow> int \<Rightarrow> error + 'db" where
  "dbPutBestState M meta snapshot work =
    (case serializeBestChainState \<lparr>bs_hash = st_Hash snapshot, bs_height = word_of_int (st_Height snapshot),
            bs_totalTxns = st_TotalTxns snapshot, bs_workSum = work\<rparr> of
       None \<Rightarrow> Inl Panic
     | Some serializedData \<Rightarrow> Put M meta chainStateKeyName serializedData)"

definition dbFetchBlockByNode :: "('pk, 'b, 'bl) chain_env \<Rightarrow> nid \<Rightarrow> (('b, 'bl) BlockChain, Block) comp" where
  "dbFetchBlockByNode env n =
    bindC (readC (\<lambda>s. (nodes s ! n, blockStore (cdb s)))) (\<lambda>(node, store).
    bindC (liftE (FetchBlock (e_store env) store (bn_hash node))) (\<lambda>block.
      retC (block\<lparr>blk_Height := bn_height node\<rparr>)))"

definition dbStoreBlock :: "('pk, 'b, 'bl) chain_env \<Rightarrow> Block \<Rightarrow> (('b, 'bl) BlockChain, unit) comp" where
  "dbStoreBlock env block =
    on_db (\<lambda>db. bindE (HasBlock (e_store env) (blockStore db) (block_hash (e_wire env) block)) (\<lambda>hasBlock.
      if hasBlock then Inr db
      else bindE (StoreBlock (e_store env) (blockStore db) block) (\<lambda>store. Inr (db\<lparr>blockStore := store\<rparr>))))"

definition flushNeededAfterPrune :: "('b, 'bl) BlockChain \<Rightarrow> hash list \<Rightarrow> bool" where
  "flushNeededAfterPrune s deletedBlockHashes =
    (case LookupNode (bindex s) (lastFlushHash (utxos s)) of
       None \<Rightarrow> True
     | Some node \<Rightarrow>
         let highestDeletedHeight = fold (\<lambda>h highest.
               case LookupNode (bindex s) h of
                 None \<Rightarrow> highest
               | Some n \<Rightarrow> if bn_height (nodes s ! n) > highest then bn_height (nodes s ! n) else highest) deletedBlockHashes (-1)
         in highestDeletedHeight \<ge> bn_height (nodes s ! node))"

section \<open>Currency and warnings\<close>

definition isCurrent :: "('pk, 'b, 'bl) chain_env \<Rightarrow> (('b, 'bl) BlockChain, bool) comp" where
  "isCurrent env =
    bindC best_tip (\<lambda>t. bindC (readC (\<lambda>s. nodes s ! t)) (\<lambda>node.
      let old = (case LatestCheckpoint env of None \<Rightarrow> False | Some checkpoint \<Rightarrow> bn_height node < cp_Height checkpoint);
          minus24Hours = time_Unix (AdjustedTime env - 24 * 3600000000000)
      in retC (\<not> old \<and> bn_timestamp node \<ge> minus24Hours)))"

text \<open>The warnings only go to the log; the threshold caches are kept.\<close>

definition warn_rules :: "('pk, 'b, 'bl) chain_env \<Rightarrow> nid \<Rightarrow> (('b, 'bl) BlockChain, unit) comp" where
  "warn_rules env node s =
    map_option (\<lambda>(r, warn, caches). (map_sum id (\<lambda>_. ()) r, s\<lparr>warningCaches := warn, deploymentCaches := caches\<rparr>))
      (warnUnknownRuleActivations (nodes s) (chainParams env) (Deployments env) node (warningCaches s) (deploymentCaches s))"

section \<open>Connecting a block\<close>

definition prune_blocks :: "('pk, 'b, 'bl) chain_env \<Rightarrow> BestState \<Rightarrow> (('b, 'bl) BlockChain, unit) comp" where
  "prune_blocks env state =
    whenC (pruneTarget env \<noteq> 0)
      (bindC (readC (\<lambda>s. blockStore (cdb s))) (\<lambda>store.
       bindC (liftE (PruneBlocks (e_store env) store (pruneTarget env))) (\<lambda>(deletedHashes, store).
       seqC (on_db (\<lambda>db. Inr (db\<lparr>blockStore := store\<rparr>)))
         (whenC (deletedHashes \<noteq> [])
           (seqC (on_db (\<lambda>db. bindE (dbPruneSpendJournalEntry (e_bucket env) (spendBucket db) deletedHashes)
                    (\<lambda>b. Inr (db\<lparr>spendBucket := b\<rparr>))))
             (bindC (readC (\<lambda>s. flushNeededAfterPrune s deletedHashes)) (\<lambda>needsFlush.
                whenC needsFlush (flush_cache env FlushRequired state))))))))"

definition put_best_state :: "('pk, 'b, 'bl) chain_env \<Rightarrow> BestState \<Rightarrow> int \<Rightarrow> (('b, 'bl) BlockChain, unit) comp" where
  "put_best_state env state work =
    on_db (\<lambda>db. bindE (dbPutBestState (e_bucket env) (metaBucket db) state work) (\<lambda>m. Inr (db\<lparr>metaBucket := m\<rparr>)))"

text \<open>The database transaction of \<open>connectBlock\<close>.\<close>

definition connect_update ::
  "('pk, 'b, 'bl) chain_env \<Rightarrow> nid \<Rightarrow> Block \<Rightarrow> SpentTxOut list \<Rightarrow> BestState \<Rightarrow> (('b, 'bl) BlockChain, unit) comp" where
  "connect_update env node block stxos state =
    (let B = e_bucket env; h = block_hash (e_wire env) block
     in bindC (readC (\<lambda>s. nodes s ! node)) (\<lambda>n.
        seqC (prune_blocks env state)
       (seqC (put_best_state env state (workSum n))
       (seqC (on_db (\<lambda>db. bindE (dbPutBlockIndex B (hashIndex db) (heightIndex db) h (bn_height n))
               (\<lambda>(hi, he). Inr (db\<lparr>hashIndex := hi, heightIndex := he\<rparr>))))
             (on_db (\<lambda>db. bindE (dbPutSpendJournalEntry (e_keys env) B (spendBucket db) h stxos)
               (\<lambda>b. Inr (db\<lparr>spendBucket := b\<rparr>))))))))"

definition spent_count :: "Block \<Rightarrow> ('s, nat) comp" where
  "spent_count block = (case countSpentOutputs block of None \<Rightarrow> failC Panic | Some n \<Rightarrow> retC n)"

definition connectBlock ::
  "('pk, 'b, 'bl) chain_env \<Rightarrow> nid \<Rightarrow> Block \<Rightarrow> SpentTxOut list \<Rightarrow> (('b, 'bl) BlockChain, unit) comp" where
  "connectBlock env node block stxos =
    bindC best_tip (\<lambda>t. bindC (readC (\<lambda>s. bn_hash (nodes s ! t))) (\<lambda>tipHash.
    seqC (guardC (hPrevBlock (Header block) \<noteq> tipHash)
           (AssertError ''connectBlock must be called with a block that extends the main chain''))
   (bindC (spent_count block) (\<lambda>n.
    seqC (guardC (length stxos \<noteq> n)
           (AssertError ''connectBlock called with inconsistent spent transaction out information''))
   (bindC (isCurrent env) (\<lambda>current.
    seqC (whenC current (warn_rules env node))
   (seqC (flush_index env)
   (bindC (readC (\<lambda>s. let numTxns = of_nat (length (Transactions block))
              in newBestState (nodes s ! node) (word_of_int (blockSize (e_wire env) block))
                   (word_of_int (GetBlockWeight (e_wire env) block)) numTxns (st_TotalTxns (stateSnapshot s) + numTxns)
                   (node_median (nodes s) node))) (\<lambda>state.
    seqC (db_update (connect_update env node block stxos state))
   (seqC (set_best_tip (Some node))
   (seqC (modC (\<lambda>s. s\<lparr>stateSnapshot := state\<rparr>))
         (db_update (flush_cache env FlushIfNeeded state)))))))))))))"

section \<open>Disconnecting a block\<close>

text \<open>The database transaction of \<open>disconnectBlock\<close>.\<close>

definition disconnect_update ::
  "('pk, 'b, 'bl) chain_env \<Rightarrow> nid \<Rightarrow> Block \<Rightarrow> UtxoViewpoint \<Rightarrow> BestState \<Rightarrow> (('b, 'bl) BlockChain, unit) comp" where
  "disconnect_update env node block view state =
    (let B = e_bucket env; K = e_keys env; h = block_hash (e_wire env) block
     in bindC (readC (\<lambda>s. nodes s ! node)) (\<lambda>n.
        seqC (put_best_state env state (workSum n))
       (seqC (on_db (\<lambda>db. bindE (dbRemoveBlockIndex B (hashIndex db) (heightIndex db) h (bn_height n))
               (\<lambda>(hi, he). Inr (db\<lparr>hashIndex := hi, heightIndex := he\<rparr>))))
       (seqC (flush_cache env FlushRequired state)
       (seqC (on_db (\<lambda>db. bindE (dbPutUtxoView K B (utxoBucket db) (Some view)) (\<lambda>b. Inr (db\<lparr>utxoBucket := b\<rparr>))))
       (bindC (readC (\<lambda>s. spendBucket (cdb s))) (\<lambda>journal.
        bindC (liftE (dbFetchSpendJournalEntry K (e_wire env) B journal block)) (\<lambda>_.
        on_db (\<lambda>db. bindE (dbRemoveSpendJournalEntry B (spendBucket db) h) (\<lambda>b. Inr (db\<lparr>spendBucket := b\<rparr>)))))))))))"

text \<open>The result is the view after its commit.\<close>

definition disconnectBlock ::
  "('pk, 'b, 'bl) chain_env \<Rightarrow> nid \<Rightarrow> Block \<Rightarrow> UtxoViewpoint \<Rightarrow> (('b, 'bl) BlockChain, UtxoViewpoint) comp" where
  "disconnectBlock env node block view =
    bindC best_tip (\<lambda>t. bindC (readC (\<lambda>s. (bn_hash (nodes s ! t), nodes s ! node))) (\<lambda>(tipHash, n).
    seqC (guardC (bn_hash n \<noteq> tipHash) (AssertError ''disconnectBlock must be called with the block at the end of the main chain''))
   (case parent n of
      None \<Rightarrow> failC Panic
    | Some prevNode \<Rightarrow>
        bindC (dbFetchBlockByNode env prevNode) (\<lambda>prevBlock.
        seqC (flush_index env)
       (bindC (readC (\<lambda>s. newBestState (nodes s ! prevNode) (word_of_int (blockSize (e_wire env) prevBlock))
                   (word_of_int (GetBlockWeight (e_wire env) prevBlock)) (of_nat (length (Transactions prevBlock)))
                   (st_TotalTxns (stateSnapshot s) - of_nat (length (Transactions block))) (node_median (nodes s) prevNode))) (\<lambda>state.
        seqC (db_update (disconnect_update env node block view state))
       (seqC (set_best_tip (Some prevNode))
       (seqC (modC (\<lambda>s. s\<lparr>stateSnapshot := state\<rparr>))
             (retC (commit view))))))))))"

section \<open>Reorganization\<close>

text \<open>The nodes from \<open>node\<close> back to, and without, \<open>stop\<close>.\<close>

partial_function (option) walk_back :: "heap \<Rightarrow> nid option \<Rightarrow> nid option \<Rightarrow> nid list option" where
  "walk_back mem stop node =
    (case node of
       None \<Rightarrow> Some []
     | Some n \<Rightarrow> if Some n = stop then Some []
                else Option.bind (walk_back mem stop (parent (mem ! n))) (\<lambda>ns. Some (n # ns)))"

declare walk_back.simps [code]

text \<open>The result is the list to detach and the list to attach.\<close>

definition getReorganizeNodes :: "nid \<Rightarrow> (('b, 'bl) BlockChain, nid list \<times> nid list) comp" where
  "getReorganizeNodes node =
    bindC (readC nodes) (\<lambda>mem.
    case parent (mem ! node) of
      None \<Rightarrow> failC Panic
    | Some p \<Rightarrow>
        if KnownInvalid (NodeStatus mem p)
        then seqC (set_flags node statusInvalidAncestor) (retC ([], []))
        else bindC (runO (\<lambda>s. findFork mem (bestChain s) (Some node))) (\<lambda>forkNode.
             bindC (runO (\<lambda>s. walk_back mem forkNode (Some node))) (\<lambda>branch.
             let valid = takeWhile (\<lambda>n. \<not> KnownInvalid (NodeStatus mem n)) branch;
                 invalidChain = (length valid < length branch)
             in if invalidChain
                then seqC (foldC (\<lambda>n _. set_flags n statusInvalidAncestor) (rev valid) ()) (retC ([], []))
                else bindC (runO (\<lambda>s. walk_back mem forkNode (tip (bestChain s)))) (\<lambda>detachNodes.
                     retC (detachNodes, rev branch)))))"

definition detach_check ::
  "('pk, 'b, 'bl) chain_env \<Rightarrow> nid \<Rightarrow> UtxoViewpoint \<times> Block list \<times> SpentTxOut list list
    \<Rightarrow> (('b, 'bl) BlockChain, UtxoViewpoint \<times> Block list \<times> SpentTxOut list list) comp" where
  "detach_check env n = (\<lambda>(view, detachBlocks, detachSpentTxOuts).
    bindC (dbFetchBlockByNode env n) (\<lambda>block.
    bindC (readC (\<lambda>s. (bn_hash (nodes s ! n), spendBucket (cdb s)))) (\<lambda>(h, journal).
    seqC (guardC (h \<noteq> block_hash (e_wire env) block) (AssertError ''detach block node hash does not match previous parent block hash''))
   (bindC (fetch_inputs env block view) (\<lambda>view.
    bindC (liftE (dbFetchSpendJournalEntry (e_keys env) (e_wire env) (e_bucket env) journal block)) (\<lambda>stxos.
    bindC (readC (\<lambda>s. utxoBucket (cdb s))) (\<lambda>db.
    bindC (liftE (disconnectTransactions (e_keys env) (e_wire env) (e_bucket env) db block stxos view)) (\<lambda>view.
      retC (view, detachBlocks @ [block], detachSpentTxOuts @ [stxos])))))))))"

definition is_rule_error :: "error \<Rightarrow> bool" where
  "is_rule_error e = (case e of RuleError c \<Rightarrow> True | _ \<Rightarrow> False)"

fun attach_check ::
  "('pk, 'b, 'bl) chain_env \<Rightarrow> nid list \<Rightarrow> UtxoViewpoint \<Rightarrow> Block list \<Rightarrow> (('b, 'bl) BlockChain, Block list) comp" where
  "attach_check env [] view attachBlocks = retC attachBlocks"
| "attach_check env (n # ns) view attachBlocks =
    bindC (dbFetchBlockByNode env n) (\<lambda>block.
    bindC (readC (\<lambda>s. KnownValid (NodeStatus (nodes s) n))) (\<lambda>known.
    if known
    then bindC (fetch_inputs env block view) (\<lambda>view.
         bindC (liftE (view_connectTransactions (e_wire env) block (view, None))) (\<lambda>(view, _).
           attach_check env ns view (attachBlocks @ [block])))
    else bindC (tryC (checkConnectBlock env n block view None)) (\<lambda>r.
         case r of
           Inl e \<Rightarrow>
             seqC (whenC (is_rule_error e)
                    (seqC (set_flags n statusValidateFailed)
                      (foldC (\<lambda>dn _. set_flags dn statusInvalidAncestor) ns ())))
                  (failC e)
         | Inr (view, _) \<Rightarrow> seqC (set_flags n statusValid) (attach_check env ns view (attachBlocks @ [block])))))"

definition verifyReorganizationValidity ::
  "('pk, 'b, 'bl) chain_env \<Rightarrow> nid list \<Rightarrow> nid list \<Rightarrow> (('b, 'bl) BlockChain, Block list \<times> Block list \<times> SpentTxOut list list) comp" where
  "verifyReorganizationValidity env detachNodes attachNodes =
    (if detachNodes = [] \<and> attachNodes = [] then retC ([], [], [])
     else bindC (readC (\<lambda>s. (nodes s, tip (bestChain s)))) (\<lambda>(mem, t).
       seqC (if detachNodes \<noteq> []
             then case t of
                    None \<Rightarrow> failC Panic
                  | Some t \<Rightarrow> guardC (bn_hash (mem ! hd detachNodes) \<noteq> bn_hash (mem ! t))
                      (AssertError ''reorganize nodes to detach are not for the current best chain'')
             else retC ())
      (seqC (if attachNodes \<noteq> [] \<and> detachNodes \<noteq> []
             then case (parent (mem ! hd attachNodes), parent (mem ! last detachNodes)) of
                    (Some a, Some d) \<Rightarrow> guardC (bn_hash (mem ! a) \<noteq> bn_hash (mem ! d))
                      (AssertError ''reorganize nodes do not have the same fork point'')
                  | _ \<Rightarrow> failC Panic
             else retC ())
      (case t of
         None \<Rightarrow> failC Panic
       | Some t \<Rightarrow>
           bindC (foldC (detach_check env) detachNodes (SetBestHash (bn_hash (mem ! t)) NewUtxoViewpoint, [], [])) (\<lambda>(view, detachBlocks, detachSpentTxOuts).
           bindC (attach_check env attachNodes view []) (\<lambda>attachBlocks.
             retC (detachBlocks, attachBlocks, detachSpentTxOuts)))))))"

definition detach_step ::
  "('pk, 'b, 'bl) chain_env \<Rightarrow> nid \<times> Block \<times> SpentTxOut list \<Rightarrow> UtxoViewpoint \<Rightarrow> (('b, 'bl) BlockChain, UtxoViewpoint) comp" where
  "detach_step env = (\<lambda>(n, block, stxos) view.
    bindC (fetch_inputs env block view) (\<lambda>view.
    bindC (readC (\<lambda>s. utxoBucket (cdb s))) (\<lambda>db.
    bindC (liftE (disconnectTransactions (e_keys env) (e_wire env) (e_bucket env) db block stxos view)) (\<lambda>view.
      disconnectBlock env n block view))))"

definition attach_step :: "('pk, 'b, 'bl) chain_env \<Rightarrow> nid \<times> Block \<Rightarrow> unit \<Rightarrow> (('b, 'bl) BlockChain, unit) comp" where
  "attach_step env = (\<lambda>(n, block) _.
    bindC (spent_count block) (\<lambda>_.
    bindC (cache_connect env block) (\<lambda>stxos.
      connectBlock env n block stxos)))"

definition reorganizeChain :: "('pk, 'b, 'bl) chain_env \<Rightarrow> nid list \<Rightarrow> nid list \<Rightarrow> (('b, 'bl) BlockChain, unit) comp" where
  "reorganizeChain env detachNodes attachNodes =
    bindC (verifyReorganizationValidity env detachNodes attachNodes) (\<lambda>(detachBlocks, attachBlocks, detachSpentTxOuts).
    bindC best_tip (\<lambda>t. bindC (readC (\<lambda>s. bn_hash (nodes s ! t))) (\<lambda>tipHash.
    bindC (foldC (detach_step env) (zip detachNodes (zip detachBlocks detachSpentTxOuts)) (SetBestHash tipHash NewUtxoViewpoint)) (\<lambda>_.
      foldC (attach_step env) (zip attachNodes attachBlocks) ()))))"

section \<open>The best chain\<close>

text \<open>The branch of \<open>connectBestChain\<close> for a block that extends the best chain.\<close>

definition extend_best :: "('pk, 'b, 'bl) chain_env \<Rightarrow> nid \<Rightarrow> Block \<Rightarrow> bool \<Rightarrow> (('b, 'bl) BlockChain, bool) comp" where
  "extend_best env node block fastAdd =
    bindC (readC (\<lambda>s. fastAdd \<or> KnownValid (NodeStatus (nodes s) node))) (\<lambda>fastAdd.
    seqC (whenC (\<not> fastAdd)
           (bindC (tryC (checkConnectBlock env node block (SetBestHash (hPrevBlock (Header block)) NewUtxoViewpoint) None)) (\<lambda>r.
            case r of
              Inr _ \<Rightarrow> seqC (set_flags node statusValid) (flush_index_logged env)
            | Inl e \<Rightarrow> if is_rule_error e
                      then seqC (set_flags node statusValidateFailed) (seqC (flush_index_logged env) (failC e))
                      else failC e)))
   (bindC (spent_count block) (\<lambda>_.
    bindC (cache_connect env block) (\<lambda>stxos.
    bindC (tryC (connectBlock env node block stxos)) (\<lambda>r.
    case r of
      Inl e \<Rightarrow> if e = Panic then failC Panic
               else seqC (whenC (is_rule_error e) (set_flags node statusValidateFailed))
                      (seqC (flush_index_logged env) (failC e))
    | Inr _ \<Rightarrow>
        bindC (readC (\<lambda>s. KnownValid (NodeStatus (nodes s) node))) (\<lambda>known.
        seqC (whenC (fastAdd \<or> \<not> known) (seqC (set_flags node statusValid) (flush_index_logged env)))
             (retC True)))))))"

definition connectBestChain ::
  "('pk, 'b, 'bl) chain_env \<Rightarrow> nid \<Rightarrow> Block \<Rightarrow> BehaviorFlags \<Rightarrow> (('b, 'bl) BlockChain, bool) comp" where
  "connectBestChain env node block flags =
    bindC best_tip (\<lambda>t. bindC (readC nodes) (\<lambda>mem.
    if hPrevBlock (Header block) = bn_hash (mem ! t)
    then extend_best env node block (flags AND BFFastAdd = BFFastAdd)
    else if workSum (mem ! node) \<le> workSum (mem ! t)
    then bindC (runO (\<lambda>s. findFork mem (bestChain s) (Some node))) (\<lambda>fork.
           case fork of None \<Rightarrow> failC Panic | Some _ \<Rightarrow> retC False)
    else bindC (getReorganizeNodes node) (\<lambda>(detachNodes, attachNodes).
         bindC (tryC (reorganizeChain env detachNodes attachNodes)) (\<lambda>r.
         case r of
           Inl e \<Rightarrow> if e = Panic then failC Panic else seqC (flush_index_logged env) (failC e)
         | Inr _ \<Rightarrow> seqC (flush_index_logged env) (retC True)))))"

end
