(* ===== verification/Process_Block.thy ===== *)
theory Process_Block
  imports Best_Chain
begin

text \<open>
  Accepting blocks and headers into the block index (accept.go), and the entry points \<open>ProcessBlock\<close> and
  \<open>ProcessBlockHeader\<close> with the handling of orphans (process.go).
\<close>

section \<open>Accepting a block\<close>

text \<open>A new node, filed in the index with its status.\<close>

definition add_node ::
  "('pk, 'b, 'bl) chain_env \<Rightarrow> BlockHeader \<Rightarrow> nid \<Rightarrow> blockStatus \<Rightarrow> (('b, 'bl) BlockChain, nid) comp" where
  "add_node env header prevNode st =
    bindC (runO (\<lambda>s. newBlockNode (BlockHash (e_wire env)) (nodes s) header (Some prevNode))) (\<lambda>(mem, n).
      seqC (modC (\<lambda>s. let mem = set_status mem n st in s\<lparr>nodes := mem, bindex := AddNode mem (bindex s) n\<rparr>))
           (retC n))"

definition maybeAcceptBlock ::
  "('pk, 'b, 'bl) chain_env \<Rightarrow> Block \<Rightarrow> BehaviorFlags \<Rightarrow> (('b, 'bl) BlockChain, bool) comp" where
  "maybeAcceptBlock env block flags =
    bindC (readC (\<lambda>s. (nodes s, LookupNode (bindex s) (hPrevBlock (Header block))))) (\<lambda>(mem, prev).
    case prev of
      None \<Rightarrow> failC (ruleError ErrPreviousBlockUnknown)
    | Some prevNode \<Rightarrow>
        if KnownInvalid (NodeStatus mem prevNode) then failC (ruleError ErrInvalidAncestorBlock)
        else let block = block\<lparr>blk_Height := i32 (bn_height (mem ! prevNode) + 1)\<rparr>
             in seqC (checkBlockContext env block prevNode flags)
               (seqC (db_update (dbStoreBlock env block))
               (bindC (readC (\<lambda>s. LookupNode (bindex s) (block_hash (e_wire env) block))) (\<lambda>known.
                bindC (case known of
                         Some n \<Rightarrow> seqC (set_flags n statusDataStored) (retC n)
                       | None \<Rightarrow> add_node env (Header block) prevNode (statusDataStored OR statusHeaderStored)) (\<lambda>newNode.
                seqC (flush_index env)
                     (connectBestChain env newNode block flags))))))"

section \<open>Accepting a header\<close>

definition set_header_tip :: "nid \<Rightarrow> (('b, 'bl) BlockChain, unit) comp" where
  "set_header_tip node s = map_option (\<lambda>c. (Inr (), s\<lparr>bestHeader := c\<rparr>)) (setTip (nodes s) (bestHeader s) (Some node))"

text \<open>The choice of the best header chain.\<close>

definition extend_headers :: "BlockHeader \<Rightarrow> nid \<Rightarrow> (('b, 'bl) BlockChain, bool) comp" where
  "extend_headers header node =
    bindC (readC (\<lambda>s. (nodes s, tip (bestHeader s)))) (\<lambda>(mem, t).
    case t of
      None \<Rightarrow> failC Panic
    | Some t \<Rightarrow>
        if hPrevBlock header = bn_hash (mem ! t) then seqC (set_header_tip node) (retC True)
        else if workSum (mem ! node) \<le> workSum (mem ! t)
        then bindC (runO (\<lambda>s. findFork mem (bestHeader s) (Some node))) (\<lambda>fork.
               case fork of None \<Rightarrow> failC Panic | Some _ \<Rightarrow> retC False)
        else seqC (set_header_tip node) (retC True))"

definition maybeAcceptBlockHeader ::
  "('pk, 'b, 'bl) chain_env \<Rightarrow> BlockHeader \<Rightarrow> BehaviorFlags \<Rightarrow> bool \<Rightarrow> (('b, 'bl) BlockChain, bool) comp" where
  "maybeAcceptBlockHeader env header flags skipCheckpoint =
    bindC (readC (\<lambda>s. (nodes s, bestHeader s, LookupNode (bindex s) (hPrevBlock header),
                        LookupNode (bindex s) (BlockHash (e_wire env) header)))) (\<lambda>(mem, headers, prev, known).
    case prev of
      None \<Rightarrow> failC (ruleError ErrPreviousBlockUnknown)
    | Some prevNode \<Rightarrow>
        if KnownInvalid (NodeStatus mem prevNode) then failC (ruleError ErrInvalidAncestorBlock)
        else if (case known of None \<Rightarrow> False | Some n \<Rightarrow> NodeStatus mem n AND statusValidateFailed \<noteq> 0)
        then failC (ruleError ErrKnownInvalidBlock)
        else if (case known of None \<Rightarrow> False | Some n \<Rightarrow> NodeStatus mem n AND statusInvalidAncestor \<noteq> 0)
        then failC (ruleError ErrInvalidAncestorBlock)
        else if (case known of None \<Rightarrow> False | Some n \<Rightarrow> contains mem headers n) then retC True
        else seqC (liftE (CheckBlockHeaderSanity (e_pow env) (AdjustedTime env) header (PowLimit (chainParams env)) flags))
            (seqC (CheckBlockHeaderContext env header prevNode flags True skipCheckpoint)
            (bindC (case known of
                      Some n \<Rightarrow> retC n
                    | None \<Rightarrow> add_node env header prevNode statusHeaderStored) (\<lambda>node.
             seqC (flush_index env) (extend_headers header node)))))"

section \<open>Processing a block\<close>

text \<open>Side chain blocks in the database are ignored.\<close>

definition blockExists :: "('pk, 'b, 'bl) chain_env \<Rightarrow> hash \<Rightarrow> (('b, 'bl) BlockChain, bool) comp" where
  "blockExists env h =
    bindC (readC (\<lambda>s. (HaveBlock (nodes s) (bindex s) h, cdb s))) (\<lambda>(have, db).
    if have then retC True
    else liftE (bindE (HasBlock (e_store env) (blockStore db) h) (\<lambda>exists.
      if \<not> exists then Inr False
      else case dbFetchHeightByHash (e_bucket env) (hashIndex db) h of
             Inr _ \<Rightarrow> Inr True
           | Inl e \<Rightarrow> if e = CalleeError then Inr False else Inl e)))"

definition chain_HaveBlock :: "('pk, 'b, 'bl) chain_env \<Rightarrow> hash \<Rightarrow> (('b, 'bl) BlockChain, bool) comp" where
  "chain_HaveBlock env h =
    bindC (blockExists env h) (\<lambda>exists. bindC (readC (\<lambda>s. IsKnownOrphan s h)) (\<lambda>known. retC (exists \<or> known)))"

text \<open>
  The two loops of \<open>processOrphans\<close>: as long as orphans depend on the first hash of the queue, the first of them
  is removed from the pool, accepted and queued.
\<close>

partial_function (option) process_queue ::
  "('pk, 'b, 'bl) chain_env \<Rightarrow> BehaviorFlags \<Rightarrow> hash list \<Rightarrow> (('b, 'bl) BlockChain, unit) comp" where
  "process_queue env flags processHashes s =
    (case processHashes of
       [] \<Rightarrow> Some (Inr (), s)
     | processHash # rest \<Rightarrow>
         (case prev_orphans s processHash of
            [] \<Rightarrow> process_queue env flags rest s
          | orphan # _ \<Rightarrow>
              Option.bind (maybeAcceptBlock env (ob_block orphan) flags (removeOrphanBlock (e_wire env) orphan s)) (\<lambda>(r, s').
                case r of
                  Inl e \<Rightarrow> Some (Inl e, s')
                | Inr _ \<Rightarrow> process_queue env flags (processHashes @ [block_hash (e_wire env) (ob_block orphan)]) s')))"

declare process_queue.simps [code]

definition processOrphans :: "('pk, 'b, 'bl) chain_env \<Rightarrow> hash \<Rightarrow> BehaviorFlags \<Rightarrow> (('b, 'bl) BlockChain, unit) comp" where
  "processOrphans env h flags = process_queue env flags [h]"

definition calcEasiestDifficulty :: "('pk, 'b, 'bl) chain_env \<Rightarrow> uint32 \<Rightarrow> int \<Rightarrow> uint32" where
  "calcEasiestDifficulty env bits duration = PowLimitBits (chainParams env)"

text \<open>The rules that the last checkpoint imposes on a block.\<close>

definition check_after_checkpoint :: "('pk, 'b, 'bl) chain_env \<Rightarrow> BlockHeader \<Rightarrow> bool \<Rightarrow> blockNode \<Rightarrow> error + unit" where
  "check_after_checkpoint env header fastAdd cpNode =
    (let checkpointTime = unix_time (bn_timestamp cpNode);
         requiredTarget = nogo_CompactToBig (e_pow env) (calcEasiestDifficulty env (bn_bits cpNode) (hTimestamp header - checkpointTime))
     in if hTimestamp header < checkpointTime then Inl (ruleError ErrCheckpointTimeTooOld)
        else if \<not> fastAdd \<and> nogo_CompactToBig (e_pow env) (hBits header) > requiredTarget then Inl (ruleError ErrDifficultyTooLow)
        else Inr ())"

text \<open>The result tells whether the block is on the main chain and whether it is an orphan.\<close>

definition ProcessBlock ::
  "('pk, 'b, 'bl) chain_env \<Rightarrow> Block \<Rightarrow> BehaviorFlags \<Rightarrow> (('b, 'bl) BlockChain, bool \<times> bool) comp" where
  "ProcessBlock env block flags =
    (let fastAdd = (flags AND BFFastAdd = BFFastAdd); blockHash = block_hash (e_wire env) block; header = Header block
     in bindC (blockExists env blockHash) (\<lambda>exists.
        seqC (guardC exists (ruleError ErrDuplicateBlock))
       (bindC (readC (\<lambda>s. IsKnownOrphan s blockHash)) (\<lambda>known.
        seqC (guardC known (ruleError ErrDuplicateBlock))
       (seqC (liftE (checkBlockSanity (e_pow env) (e_wire env) (AdjustedTime env) block (PowLimit (chainParams env)) flags))
       (bindC (findPreviousCheckpoint env) (\<lambda>checkpoint.
        bindC (readC nodes) (\<lambda>mem.
        seqC (case checkpoint of None \<Rightarrow> retC () | Some n \<Rightarrow> liftE (check_after_checkpoint env header fastAdd (mem ! n)))
       (bindC (blockExists env (hPrevBlock header)) (\<lambda>prevHashExists.
        if \<not> prevHashExists then seqC (addOrphanBlock env block) (retC (False, True))
        else bindC (maybeAcceptBlock env block flags) (\<lambda>isMainChain.
             seqC (processOrphans env blockHash flags) (retC (isMainChain, False)))))))))))))"

definition ProcessBlockHeader ::
  "('pk, 'b, 'bl) chain_env \<Rightarrow> BlockHeader \<Rightarrow> BehaviorFlags \<Rightarrow> bool \<Rightarrow> (('b, 'bl) BlockChain, bool) comp" where
  "ProcessBlockHeader env header flags skipCheckpoint = maybeAcceptBlockHeader env header flags skipCheckpoint"

end
