(* ===== verification/Chain_Query.thy ===== *)
theory Chain_Query
  imports Process_Block
begin

text \<open>
  What the chain tells others (chain.go): its tips, lookups by hash and height, ranges of hashes and the answers to
  block locators; and the two calls that change the verdict on a block, \<open>InvalidateBlock\<close> and \<open>ReconsiderBlock\<close>.
  Queries are computations that do not change the chain; dereferencing \<open>nil\<close> is \<open>Panic\<close>.
\<close>

section \<open>Tips\<close>

definition BestSnapshot :: "('b, 'bl) BlockChain \<Rightarrow> BestState" where
  "BestSnapshot s = stateSnapshot s"

definition nonnil :: "'a option \<Rightarrow> ('s, 'a) comp" where
  "nonnil x = (case x of None \<Rightarrow> failC Panic | Some n \<Rightarrow> retC n)"

definition BestHeader :: "(('b, 'bl) BlockChain, hash \<times> int) comp" where
  "BestHeader =
    bindC (readC (\<lambda>s. tip (bestHeader s))) (\<lambda>best. bindC (nonnil best) (\<lambda>n.
      readC (\<lambda>s. (bn_hash (nodes s ! n), bn_height (nodes s ! n)))))"

definition BestChainHeaderForkHeight :: "(('b, 'bl) BlockChain, int) comp" where
  "BestChainHeaderForkHeight =
    bindC (runO (\<lambda>s. findFork (nodes s) (bestChain s) (tip (bestHeader s)))) (\<lambda>fork.
      case fork of None \<Rightarrow> retC 0 | Some f \<Rightarrow> readC (\<lambda>s. bn_height (nodes s ! f)))"

datatype TipStatus = StatusUnknown | StatusActive | StatusInvalid | StatusValidFork

fun TipStatus_String :: "TipStatus \<Rightarrow> string" where
  "TipStatus_String StatusActive = ''active''"
| "TipStatus_String StatusInvalid = ''invalid''"
| "TipStatus_String StatusValidFork = ''valid-fork''"
| "TipStatus_String StatusUnknown = ''unknown: 0''"

record ChainTip =
  ct_Height :: int
  ct_BlockHash :: hash
  ct_BranchLen :: int
  ct_Status :: TipStatus

definition tip_status :: "heap \<Rightarrow> chainView \<Rightarrow> nid \<Rightarrow> TipStatus" where
  "tip_status mem c t =
    (if contains mem c t then StatusActive
     else if KnownInvalid (status (mem ! t)) then StatusInvalid
     else if HaveData (status (mem ! t)) then StatusValidFork
     else StatusUnknown)"

definition chain_tip :: "nid option \<Rightarrow> (('b, 'bl) BlockChain, ChainTip) comp" where
  "chain_tip t =
    bindC (nonnil t) (\<lambda>t.
    bindC (runO (\<lambda>s. findFork (nodes s) (bestChain s) (Some t))) (\<lambda>fork.
    bindC (nonnil fork) (\<lambda>f.
      readC (\<lambda>s. let mem = nodes s in \<lparr>ct_Height = bn_height (mem ! t), ct_BlockHash = bn_hash (mem ! t),
        ct_BranchLen = i32 (bn_height (mem ! t) - bn_height (mem ! f)), ct_Status = tip_status mem (bestChain s) t\<rparr>))))"

definition all_tips :: "(('b, 'bl) BlockChain, nid option list) comp" where
  "all_tips =
    bindC (readC (\<lambda>s. InactiveTips (nodes s) (bindex s) (bestChain s))) (\<lambda>inactive.
    bindC (nonnil inactive) (\<lambda>tips.
      readC (\<lambda>s. map Some tips @ [tip (bestChain s)])))"

definition ChainTips :: "(('b, 'bl) BlockChain, ChainTip list) comp" where
  "ChainTips =
    bindC all_tips (\<lambda>tips.
      foldC (\<lambda>t chainTips. bindC (chain_tip t) (\<lambda>ct. retC (chainTips @ [ct]))) tips [])"

section \<open>Lookups\<close>

definition HeaderByHash :: "('b, 'bl) BlockChain \<Rightarrow> hash \<Rightarrow> error + BlockHeader" where
  "HeaderByHash s h = (case LookupNode (bindex s) h of None \<Rightarrow> Inl CalleeError | Some n \<Rightarrow> Inr (node_Header (nodes s) n))"

definition MainChainHasBlock :: "('b, 'bl) BlockChain \<Rightarrow> hash \<Rightarrow> bool" where
  "MainChainHasBlock s h = (case LookupNode (bindex s) h of None \<Rightarrow> False | Some n \<Rightarrow> contains (nodes s) (bestChain s) n)"

definition BlockLocatorFromHash :: "('b, 'bl) BlockChain \<Rightarrow> hash \<Rightarrow> hash list option" where
  "BlockLocatorFromHash s h = blockLocator (nodes s) (bestChain s) (LookupNode (bindex s) h)"

definition LatestBlockLocator :: "('b, 'bl) BlockChain \<Rightarrow> hash list option" where
  "LatestBlockLocator s = blockLocator (nodes s) (bestChain s) None"

definition BlockHeightByHash :: "('b, 'bl) BlockChain \<Rightarrow> hash \<Rightarrow> error + int" where
  "BlockHeightByHash s h =
    (case LookupNode (bindex s) h of
       None \<Rightarrow> Inl CalleeError
     | Some n \<Rightarrow> if \<not> contains (nodes s) (bestChain s) n then Inl CalleeError else Inr (bn_height (nodes s ! n)))"

definition BlockHashByHeight :: "('b, 'bl) BlockChain \<Rightarrow> int \<Rightarrow> error + hash" where
  "BlockHashByHeight s h =
    (case nodeByHeight (bestChain s) h of None \<Rightarrow> Inl CalleeError | Some n \<Rightarrow> Inr (bn_hash (nodes s ! n)))"

definition IsValidHeader :: "('b, 'bl) BlockChain \<Rightarrow> hash \<Rightarrow> bool" where
  "IsValidHeader s h =
    (case LookupNode (bindex s) h of
       None \<Rightarrow> False
     | Some n \<Rightarrow> contains (nodes s) (bestHeader s) n \<and> \<not> KnownInvalid (NodeStatus (nodes s) n))"

definition LatestBlockLocatorByHeader :: "('b, 'bl) BlockChain \<Rightarrow> hash list option" where
  "LatestBlockLocatorByHeader s = blockLocator (nodes s) (bestHeader s) None"

definition HeaderHashByHeight :: "('b, 'bl) BlockChain \<Rightarrow> int \<Rightarrow> error + hash" where
  "HeaderHashByHeight s h =
    (case nodeByHeight (bestHeader s) h of
       None \<Rightarrow> Inl CalleeError
     | Some n \<Rightarrow> if \<not> contains (nodes s) (bestHeader s) n then Inl CalleeError else Inr (bn_hash (nodes s ! n)))"

definition HeaderHeightByHash :: "('b, 'bl) BlockChain \<Rightarrow> hash \<Rightarrow> error + int" where
  "HeaderHeightByHash s h =
    (case LookupNode (bindex s) h of
       None \<Rightarrow> Inl CalleeError
     | Some n \<Rightarrow> if \<not> contains (nodes s) (bestHeader s) n then Inl CalleeError else Inr (bn_height (nodes s ! n)))"

section \<open>Ranges\<close>

text \<open>The loop of \<open>HeightRange\<close>, over the heights from \<open>i\<close>.\<close>

fun hashes_from :: "heap \<Rightarrow> chainView \<Rightarrow> int \<Rightarrow> nat \<Rightarrow> error + hash list" where
  "hashes_from mem c i 0 = Inr []"
| "hashes_from mem c i (Suc k) =
    (case nodeByHeight c i of
       None \<Rightarrow> Inl Panic
     | Some n \<Rightarrow> bindE (hashes_from mem c (i + 1) k) (\<lambda>hs. Inr (bn_hash (mem ! n) # hs)))"

definition HeightRange :: "('b, 'bl) BlockChain \<Rightarrow> int \<Rightarrow> int \<Rightarrow> error + hash list" where
  "HeightRange s startHeight endHeight =
    (if startHeight < 0 then Inl CalleeError
     else if endHeight < startHeight then Inl CalleeError
     else if startHeight = endHeight then Inr []
     else case tip (bestChain s) of
            None \<Rightarrow> Inl Panic
          | Some t \<Rightarrow>
              let latestHeight = bn_height (nodes s ! t);
                  endHeight = (if endHeight > i32 (latestHeight + 1) then i32 (latestHeight + 1) else endHeight)
              in if startHeight > latestHeight then Inr []
                 else if endHeight < startHeight then Inl Panic
                 else hashes_from (nodes s) (bestChain s) startHeight (nat (endHeight - startHeight)))"

fun collect_back :: "heap \<Rightarrow> nat \<Rightarrow> nid option \<Rightarrow> hash list \<Rightarrow> error + hash list" where
  "collect_back mem 0 node hashes = Inr hashes"
| "collect_back mem (Suc k) None hashes = Inl Panic"
| "collect_back mem (Suc k) (Some n) hashes = collect_back mem k (parent (mem ! n)) (bn_hash (mem ! n) # hashes)"

definition HeightToHashRange :: "('b, 'bl) BlockChain \<Rightarrow> int \<Rightarrow> hash \<Rightarrow> int \<Rightarrow> error + hash list" where
  "HeightToHashRange s startHeight endHash maxResults =
    (case LookupNode (bindex s) endHash of
       None \<Rightarrow> Inl CalleeError
     | Some endNode \<Rightarrow>
         let mem = nodes s; endHeight = bn_height (mem ! endNode);
             resultsLength = i32 (i32 (endHeight - startHeight) + 1)
         in if \<not> KnownValid (NodeStatus mem endNode) then Inl CalleeError
            else if startHeight < 0 then Inl CalleeError
            else if startHeight > endHeight then Inl CalleeError
            else if resultsLength > maxResults then Inl CalleeError
            else if resultsLength < 0 then Inl Panic
            else collect_back mem (nat resultsLength) (Some endNode) [])"

text \<open>The loop of \<open>IntervalBlockHashes\<close>; the index counts down.\<close>

fun interval_hashes :: "int \<Rightarrow> nat \<Rightarrow> nid \<Rightarrow> hash list \<Rightarrow> (('b, 'bl) BlockChain, hash list) comp" where
  "interval_hashes interval 0 node hashes = retC hashes"
| "interval_hashes interval (Suc k) node hashes =
    (let blockHeight = i32 (int (Suc k) * interval)
     in bindC (runO (\<lambda>s. if contains (nodes s) (bestChain s) node then Some (nodeByHeight (bestChain s) blockHeight)
                         else Ancestor (nodes s) node blockHeight)) (\<lambda>node.
        bindC (nonnil node) (\<lambda>n.
        bindC (readC (\<lambda>s. bn_hash (nodes s ! n))) (\<lambda>h.
          interval_hashes interval k n (h # hashes)))))"

definition IntervalBlockHashes :: "hash \<Rightarrow> int \<Rightarrow> (('b, 'bl) BlockChain, hash list) comp" where
  "IntervalBlockHashes endHash interval =
    bindC (readC (\<lambda>s. (nodes s, LookupNode (bindex s) endHash))) (\<lambda>(mem, known).
    case known of
      None \<Rightarrow> failC CalleeError
    | Some endNode \<Rightarrow>
        if \<not> KnownValid (NodeStatus mem endNode) then failC CalleeError
        else if interval = 0 then failC Panic
        else let resultsLength = go_div (bn_height (mem ! endNode)) interval
             in if resultsLength < 0 then failC Panic
                else interval_hashes interval (nat resultsLength) endNode [])"

section \<open>Block locators\<close>

definition locator_start :: "('b, 'bl) BlockChain \<Rightarrow> hash list \<Rightarrow> nid option" where
  "locator_start s locator =
    (case find (\<lambda>h. case LookupNode (bindex s) h of None \<Rightarrow> False | Some n \<Rightarrow> contains (nodes s) (bestChain s) n) locator of
       None \<Rightarrow> genesis (bestChain s)
     | Some h \<Rightarrow> LookupNode (bindex s) h)"

definition locateInventory :: "('b, 'bl) BlockChain \<Rightarrow> hash list \<Rightarrow> hash \<Rightarrow> uint32 \<Rightarrow> error + (nid option \<times> uint32)" where
  "locateInventory s locator hashStop maxNodes =
    (let mem = nodes s; c = bestChain s; stopNode = LookupNode (bindex s) hashStop
     in if locator = [] then (case stopNode of None \<Rightarrow> Inr (None, 0) | Some n \<Rightarrow> Inr (Some n, 1))
        else case view_next mem c (locator_start s locator) of
               None \<Rightarrow> Inr (None, 0)
             | Some startNode \<Rightarrow>
                 (case tip c of
                    None \<Rightarrow> Inl Panic
                  | Some t \<Rightarrow>
                      let upto = (\<lambda>n. word_of_int (i32 (i32 (bn_height (mem ! n) - bn_height (mem ! startNode)) + 1)));
                          total = (case stopNode of
                              None \<Rightarrow> upto t
                            | Some n \<Rightarrow> if contains mem c n \<and> bn_height (mem ! n) \<ge> bn_height (mem ! startNode) then upto n else upto t)
                      in Inr (Some startNode, if total > maxNodes then maxNodes else total)))"

text \<open>The loops of \<open>locateBlocks\<close> and \<open>locateHeaders\<close>.\<close>

fun locate_loop :: "heap \<Rightarrow> chainView \<Rightarrow> (nid \<Rightarrow> 'a) \<Rightarrow> nat \<Rightarrow> nid option \<Rightarrow> error + 'a list" where
  "locate_loop mem c f 0 node = Inr []"
| "locate_loop mem c f (Suc k) None = Inl Panic"
| "locate_loop mem c f (Suc k) (Some n) = bindE (locate_loop mem c f k (view_next mem c (Some n))) (\<lambda>xs. Inr (f n # xs))"

definition locateBlocks :: "('b, 'bl) BlockChain \<Rightarrow> hash list \<Rightarrow> hash \<Rightarrow> uint32 \<Rightarrow> error + hash list" where
  "locateBlocks s locator hashStop maxHashes =
    bindE (locateInventory s locator hashStop maxHashes) (\<lambda>(node, total).
      locate_loop (nodes s) (bestChain s) (\<lambda>n. bn_hash (nodes s ! n)) (unat total) node)"

definition LocateBlocks :: "('b, 'bl) BlockChain \<Rightarrow> hash list \<Rightarrow> hash \<Rightarrow> uint32 \<Rightarrow> error + hash list" where
  "LocateBlocks s locator hashStop maxHashes = locateBlocks s locator hashStop maxHashes"

definition locateHeaders :: "('b, 'bl) BlockChain \<Rightarrow> hash list \<Rightarrow> hash \<Rightarrow> uint32 \<Rightarrow> error + BlockHeader list" where
  "locateHeaders s locator hashStop maxHeaders =
    bindE (locateInventory s locator hashStop maxHeaders) (\<lambda>(node, total).
      locate_loop (nodes s) (bestChain s) (node_Header (nodes s)) (unat total) node)"

text \<open>The limit \<open>wire.MaxBlockHeadersPerMsg\<close> is the last argument.\<close>

definition LocateHeaders :: "('b, 'bl) BlockChain \<Rightarrow> hash list \<Rightarrow> hash \<Rightarrow> uint32 \<Rightarrow> error + BlockHeader list" where
  "LocateHeaders s locator hashStop maxBlockHeadersPerMsg = locateHeaders s locator hashStop maxBlockHeadersPerMsg"

section \<open>Changing the verdict on a block\<close>

text \<open>Mark a descendant of an invalid block, unless it is marked already; the result tells whether it was marked.\<close>

definition mark_descendant :: "nid \<Rightarrow> (('b, 'bl) BlockChain, bool) comp" where
  "mark_descendant n =
    bindC (readC (\<lambda>s. KnownInvalid (status (nodes s ! n)))) (\<lambda>known.
    if known then retC False
    else seqC (set_flags n statusInvalidAncestor) (seqC (unset_flags n statusValid) (retC True)))"

text \<open>The part of \<open>InvalidateBlock\<close> for a block that is not on the best chain.\<close>

definition invalidate_side :: "('pk, 'b, 'bl) chain_env \<Rightarrow> nid \<Rightarrow> (('b, 'bl) BlockChain, unit) comp" where
  "invalidate_side env node =
    bindC (readC (\<lambda>s. InactiveTips (nodes s) (bindex s) (bestChain s))) (\<lambda>inactive.
    bindC (nonnil inactive) (\<lambda>tips.
    seqC (foldC (\<lambda>t _.
           bindC (runO (\<lambda>s. IsAncestor (nodes s) t (Some node))) (\<lambda>descends.
           whenC descends
             (bindC (runO (\<lambda>s. walk_back (nodes s) (Some node) (Some t))) (\<lambda>ns.
              foldC (\<lambda>n _. bindC (mark_descendant n) (\<lambda>_. retC ())) ns ())))) tips ())
         (bindC (tryC (flush_index env)) (\<lambda>r. case r of Inl e \<Rightarrow> failC (if e = Panic then Panic else CalleeError) | Inr _ \<Rightarrow> retC ()))))"

text \<open>The tip with the most work among those that are not invalid; the first of equals.\<close>

definition better_tip :: "heap \<Rightarrow> nid \<Rightarrow> nid option \<Rightarrow> nid option" where
  "better_tip mem t bestTip =
    (if KnownInvalid (status (mem ! t)) then bestTip
     else case bestTip of
            None \<Rightarrow> Some t
          | Some b \<Rightarrow> if workSum (mem ! t) > workSum (mem ! b) then Some t else Some b)"

definition most_work_tip :: "(('b, 'bl) BlockChain, nid option) comp" where
  "most_work_tip =
    bindC all_tips (\<lambda>tips.
      foldC (\<lambda>t bestTip. bindC (nonnil t) (\<lambda>t. readC (\<lambda>s. better_tip (nodes s) t bestTip))) tips None)"

definition reorganize_to :: "('pk, 'b, 'bl) chain_env \<Rightarrow> nid \<Rightarrow> (('b, 'bl) BlockChain, unit) comp" where
  "reorganize_to env best =
    bindC (getReorganizeNodes best) (\<lambda>(detachNodes, attachNodes).
    bindC (tryC (reorganizeChain env detachNodes attachNodes)) (\<lambda>r.
      case r of
        Inl e \<Rightarrow> if e = Panic then failC Panic else seqC (flush_index_logged env) (failC e)
      | Inr _ \<Rightarrow> flush_index_logged env))"

definition activate_best_tip :: "('pk, 'b, 'bl) chain_env \<Rightarrow> (('b, 'bl) BlockChain, unit) comp" where
  "activate_best_tip env =
    bindC most_work_tip (\<lambda>bestTip.
    bindC (readC (\<lambda>s. tip (bestChain s))) (\<lambda>t.
      if bestTip = t then retC () else bindC (nonnil bestTip) (reorganize_to env)))"

text \<open>The part of \<open>InvalidateBlock\<close> for a block of the best chain: back to its parent, then to the best tip left.\<close>

definition detach_marked :: "nid list \<Rightarrow> (('b, 'bl) BlockChain, nid list) comp" where
  "detach_marked ns =
    foldC (\<lambda>n detachNodes. bindC (mark_descendant n) (\<lambda>marked. retC (if marked then detachNodes @ [n] else detachNodes))) ns []"

definition invalidate_best :: "('pk, 'b, 'bl) chain_env \<Rightarrow> nid \<Rightarrow> (('b, 'bl) BlockChain, unit) comp" where
  "invalidate_best env node =
    bindC (runO (\<lambda>s. walk_back (nodes s) (Some node) (tip (bestChain s)))) (\<lambda>ns.
    bindC (detach_marked ns) (\<lambda>detachNodes.
    seqC (reorganizeChain env (detachNodes @ [node]) [])
   (seqC (flush_index_logged env)
         (activate_best_tip env))))"

definition InvalidateBlock :: "('pk, 'b, 'bl) chain_env \<Rightarrow> hash \<Rightarrow> (('b, 'bl) BlockChain, unit) comp" where
  "InvalidateBlock env h =
    bindC (readC (\<lambda>s. (nodes s, bestChain s, LookupNode (bindex s) h))) (\<lambda>(mem, c, known).
    case known of
      None \<Rightarrow> failC CalleeError
    | Some node \<Rightarrow>
        if bn_height (mem ! node) = 0 then failC CalleeError
        else if KnownInvalid (status (mem ! node)) then retC ()
        else seqC (set_flags node statusValidateFailed)
            (seqC (unset_flags node statusValid)
            (if \<not> contains mem c node then invalidate_side env node else invalidate_best env node)))"

text \<open>One tip in the loop of \<open>ReconsiderBlock\<close>.\<close>

definition reconsider_tip :: "nid \<Rightarrow> nid option \<Rightarrow> nid option \<Rightarrow> (('b, 'bl) BlockChain, nid option) comp" where
  "reconsider_tip node t reconsiderTip =
    bindC (nonnil t) (\<lambda>t.
    bindC (runO (\<lambda>s. IsAncestor (nodes s) t (Some node))) (\<lambda>descends.
    if \<not> descends then retC (if t = node then Some node else reconsiderTip)
    else bindC (runO (\<lambda>s. walk_back (nodes s) (Some node) (Some t))) (\<lambda>ns.
         seqC (foldC (\<lambda>n _. unset_flags n statusInvalidAncestor) ns ()) (retC (Some t)))))"

definition ReconsiderBlock :: "('pk, 'b, 'bl) chain_env \<Rightarrow> hash \<Rightarrow> (('b, 'bl) BlockChain, unit) comp" where
  "ReconsiderBlock env h =
    bindC (readC (\<lambda>s. (nodes s, LookupNode (bindex s) h))) (\<lambda>(mem, known).
    case known of
      None \<Rightarrow> failC CalleeError
    | Some node \<Rightarrow>
        if KnownValid (status (mem ! node)) then retC ()
        else seqC (unset_flags node statusInvalidAncestor)
            (seqC (unset_flags node statusValidateFailed)
            (bindC all_tips (\<lambda>tips.
             bindC (foldC (reconsider_tip node) tips None) (\<lambda>reconsiderTip.
             bindC best_tip (\<lambda>t.
             bindC (nonnil reconsiderTip) (\<lambda>r.
             bindC (readC (\<lambda>s. workSum (nodes s ! r) \<le> workSum (nodes s ! t))) (\<lambda>less.
             if less then retC ()
             else bindC (getReorganizeNodes r) (\<lambda>(detachNodes, attachNodes).
                  bindC (tryC (verifyReorganizationValidity env detachNodes attachNodes)) (\<lambda>v.
                  case v of
                    Inl e \<Rightarrow> if e = Panic then failC Panic else flush_index_logged env
                  | Inr _ \<Rightarrow> seqC (flush_index_logged env) (reorganizeChain env detachNodes attachNodes)))))))))))"

section \<open>Answers of a branch\<close>

text \<open>The hash at a height of the best chain.\<close>

definition best_hash :: "('b, 'bl) BlockChain \<Rightarrow> int \<Rightarrow> hash" where
  "best_hash s h = bn_hash (nodes s ! the (nodeByHeight (bestChain s) h))"

definition best_height :: "('b, 'bl) BlockChain \<Rightarrow> int" where
  "best_height s = int (length (bestChain s)) - 1"

text \<open>The best chain is the branch of a node of a well-formed tree.\<close>

definition on_branch :: "('b, 'bl) BlockChain \<Rightarrow> bool" where
  "on_branch s \<longleftrightarrow> wf_heap (nodes s) \<and> (\<exists>t < length (nodes s). bestChain s = view_of (nodes s) t \<and> bn_height (nodes s ! t) < 2 ^ 31 - 1)"

lemma on_branchE:
  assumes "on_branch s"
  obtains t where "t < length (nodes s)" "bestChain s = view_of (nodes s) t" "tip (bestChain s) = Some t"
    "best_height s = bn_height (nodes s ! t)" "0 \<le> best_height s" "best_height s < 2 ^ 31 - 1"
proof -
  obtain t where t: "wf_heap (nodes s)" "t < length (nodes s)" "bestChain s = view_of (nodes s) t" "bn_height (nodes s ! t) < 2 ^ 31 - 1"
    using assms by (auto simp: on_branch_def)
  have h: "0 \<le> bn_height (nodes s ! t)" using height_nonneg[OF t(1,2)] .
  then have "tip (bestChain s) = Some t" using t(3) by (simp add: tip_def view_of_def)
  then show thesis using that t h length_view_of[OF t(1,2)] by (simp add: best_height_def)
qed

lemma best_height_bounds: "on_branch s \<Longrightarrow> 0 \<le> best_height s \<and> best_height s < 2 ^ 31 - 1"
  by (metis on_branchE)

lemma best_node:
  assumes "on_branch s" "0 \<le> h" "h \<le> best_height s"
  obtains n where "nodeByHeight (bestChain s) h = Some n" "n < length (nodes s)" "bn_height (nodes s ! n) = h" "contains (nodes s) (bestChain s) n"
    "best_hash s h = bn_hash (nodes s ! n)"
proof -
  have wf: "wf_heap (nodes s)" using assms(1) by (simp add: on_branch_def)
  obtain t where t: "t < length (nodes s)" "bestChain s = view_of (nodes s) t" "best_height s = bn_height (nodes s ! t)"
    using on_branchE[OF assms(1)] by metis
  obtain n where n: "parent_at (nodes s) t h = Some n" "n < length (nodes s)" "bn_height (nodes s ! n) = h"
    using parent_at_wf[OF wf t(1) assms(2)] assms(3) t(3) by metis
  then show thesis using that[of n] nodeByHeight_view_of[OF wf t(1)] t(2) by (simp add: contains_def best_hash_def)
qed

lemma contains_height: "on_branch s \<Longrightarrow> contains (nodes s) (bestChain s) n \<Longrightarrow> 0 \<le> bn_height (nodes s ! n) \<and> bn_height (nodes s ! n) \<le> best_height s"
  by (auto simp: contains_def nodeByHeight_def best_height_def split: if_splits)

lemma upto_Cons: "(i :: int) \<le> j \<Longrightarrow> [i..j] = i # [i + 1..j]"
  by (rule upto_rec1)

lemma hashes_from_best:
  "on_branch s \<Longrightarrow> 0 \<le> i \<Longrightarrow> i + int k \<le> best_height s + 1 \<Longrightarrow> hashes_from (nodes s) (bestChain s) i k = Inr (map (best_hash s) [i..i + int k - 1])"
proof (induction k arbitrary: i)
  case (Suc k)
  obtain n where "nodeByHeight (bestChain s) i = Some n" "best_hash s i = bn_hash (nodes s ! n)"
    using best_node[OF Suc.prems(1,2)] Suc.prems(3) by auto
  then show ?case using Suc upto_Cons[of i "i + int k"] by (simp add: add.commute add.left_commute)
qed simp

text \<open>The heights asked for, cut off at the tip.\<close>

lemma HeightRange_correct:
  assumes "on_branch s" "0 \<le> a" "a \<le> b"
  shows "HeightRange s a b = Inr (map (best_hash s) [a..min (b - 1) (best_height s)])"
proof -
  obtain t where t: "tip (bestChain s) = Some t" "best_height s = bn_height (nodes s ! t)" "0 \<le> best_height s" "best_height s < 2 ^ 31 - 1"
    using on_branchE[OF assms(1)] by metis
  have i: "i32 (best_height s + 1) = best_height s + 1" using t(3,4) by (simp add: i32_id)
  let ?e = "if b > best_height s + 1 then best_height s + 1 else b"
  have "hashes_from (nodes s) (bestChain s) a (nat (?e - a)) = Inr (map (best_hash s) [a..?e - 1])" if "a \<le> best_height s"
    using hashes_from_best[OF assms(1,2), of "nat (?e - a)"] that assms(3) by auto
  moreover have "?e - 1 = min (b - 1) (best_height s)" by auto
  ultimately show ?thesis
    using assms(2,3) t(1,2) i by (auto simp: HeightRange_def Let_def)
qed

section \<open>Answers to locators\<close>

lemma next_best:
  assumes "on_branch s" "contains (nodes s) (bestChain s) n"
  shows "view_next (nodes s) (bestChain s) (Some n) = nodeByHeight (bestChain s) (bn_height (nodes s ! n) + 1)"
proof -
  have "best_height s < 2 ^ 31 - 1" using on_branchE[OF assms(1)] by metis
  then have "i32 (bn_height (nodes s ! n) + 1) = bn_height (nodes s ! n) + 1"
    using contains_height[OF assms] by (intro i32_id) simp_all
  then show ?thesis using assms(2) by (simp add: view_next_def)
qed

lemma locate_loop_best:
  assumes "on_branch s"
  shows "0 \<le> h \<Longrightarrow> h + int k \<le> best_height s + 1 \<Longrightarrow>
    locate_loop (nodes s) (bestChain s) (\<lambda>n. bn_hash (nodes s ! n)) k (nodeByHeight (bestChain s) h) = Inr (map (best_hash s) [h..h + int k - 1])"
proof (induction k arbitrary: h)
  case (Suc k)
  obtain n where n: "nodeByHeight (bestChain s) h = Some n" "bn_height (nodes s ! n) = h" "contains (nodes s) (bestChain s) n" "best_hash s h = bn_hash (nodes s ! n)"
    using best_node[OF assms Suc.prems(1)] Suc.prems(2) by auto
  then show ?case using Suc upto_Cons[of h "h + int k"] next_best[OF assms n(3)] by (simp add: add.commute add.left_commute)
qed simp

text \<open>The last height that a locator asks for: the stop block if it follows on the best chain, the tip otherwise.\<close>

definition stop_height :: "('b, 'bl) BlockChain \<Rightarrow> hash \<Rightarrow> int \<Rightarrow> int" where
  "stop_height s stop h = (case LookupNode (bindex s) stop of
      None \<Rightarrow> best_height s
    | Some m \<Rightarrow> if contains (nodes s) (bestChain s) m \<and> h < bn_height (nodes s ! m) then bn_height (nodes s ! m) else best_height s)"

text \<open>A hash of a known block on the best chain.\<close>

definition on_best :: "('b, 'bl) BlockChain \<Rightarrow> hash \<Rightarrow> bool" where
  "on_best s h \<longleftrightarrow> (\<exists>n. LookupNode (bindex s) h = Some n \<and> contains (nodes s) (bestChain s) n)"

lemma locator_start_first:
  assumes "on_branch s"
  shows "\<exists>n. locator_start s locator = Some n \<and> contains (nodes s) (bestChain s) n
    \<and> ((\<exists>k < length locator. LookupNode (bindex s) (locator ! k) = Some n \<and> (\<forall>j < k. \<not> on_best s (locator ! j)))
      \<or> (\<forall>h \<in> set locator. \<not> on_best s h) \<and> nodeByHeight (bestChain s) 0 = Some n)"
proof -
  have start: "locator_start s locator = (case find (on_best s) locator of None \<Rightarrow> genesis (bestChain s) | Some h \<Rightarrow> LookupNode (bindex s) h)"
    unfolding locator_start_def on_best_def
    by (rule arg_cong[where f = "\<lambda>p. case find p locator of None \<Rightarrow> _ | Some h \<Rightarrow> _ h"]) (auto split: option.split)
  show ?thesis
  proof (cases "find (on_best s) locator")
    case None
    obtain n where n: "nodeByHeight (bestChain s) 0 = Some n" "contains (nodes s) (bestChain s) n"
      using best_node[OF assms, of 0] best_height_bounds[OF assms] by auto
    then have "genesis (bestChain s) = Some n" by (auto simp: nodeByHeight_def genesis_def split: if_splits)
    then have "locator_start s locator = Some n" using start None by simp
    moreover have "\<forall>h \<in> set locator. \<not> on_best s h" using None by (auto simp: find_None_iff)
    ultimately show ?thesis using n by blast
  next
    case (Some h)
    then obtain k where k: "k < length locator" "on_best s (locator ! k)" "h = locator ! k" "\<forall>j < k. \<not> on_best s (locator ! j)"
      unfolding find_Some_iff by blast
    then show ?thesis using Some start by (auto simp: on_best_def)
  qed
qed

lemma locateInventory_best:
  assumes s: "on_branch s" and ne: "locator \<noteq> []" and n: "locator_start s locator = Some n" "contains (nodes s) (bestChain s) n"
  defines "h \<equiv> bn_height (nodes s ! n)"
  shows "locateInventory s locator stop mx =
    (if h = best_height s then Inr (None, 0)
     else Inr (nodeByHeight (bestChain s) (h + 1), min mx (word_of_int (stop_height s stop h - h))))"
proof -
  obtain t where t: "tip (bestChain s) = Some t" "best_height s = bn_height (nodes s ! t)" "best_height s < 2 ^ 31 - 1"
    using on_branchE[OF s] by metis
  have h: "0 \<le> h" "h \<le> best_height s" using contains_height[OF s n(2)] by (simp_all add: h_def)
  have nxt: "view_next (nodes s) (bestChain s) (locator_start s locator) = nodeByHeight (bestChain s) (h + 1)"
    using next_best[OF s n(2)] n(1) by (simp add: h_def)
  show ?thesis
  proof (cases "h = best_height s")
    case True
    then have "nodeByHeight (bestChain s) (h + 1) = None" by (simp add: nodeByHeight_def best_height_def)
    then show ?thesis using nxt ne True by (simp add: locateInventory_def Let_def)
  next
    case False
    then obtain m where m: "nodeByHeight (bestChain s) (h + 1) = Some m" "bn_height (nodes s ! m) = h + 1"
      using best_node[OF s, of "h + 1"] h by auto
    have up: "i32 (i32 (x - (h + 1)) + 1) = x - h" if "h < x" "x \<le> best_height s" for x
      using that h t(3) by (simp add: i32_id)
    have stop: "bn_height (nodes s ! x) \<le> best_height s" if "contains (nodes s) (bestChain s) x" for x using contains_height[OF s that] by simp
    have "h < best_height s" using False h by simp
    then show ?thesis
      using nxt ne False m t up stop
      by (auto simp: locateInventory_def Let_def stop_height_def min_def split: option.split)
  qed
qed

text \<open>
  C32: a non-empty locator is answered by the hashes of the best chain from the block after the node \<open>n\<close> of its first
  entry that is on the best chain, after the genesis block if no entry is, up to the stop block or the tip, and never
  by more hashes than the limit.
\<close>

theorem locateBlocks_correct:
  assumes "on_branch s" "locator \<noteq> []"
  shows "\<exists>n. contains (nodes s) (bestChain s) n
    \<and> ((\<exists>k < length locator. LookupNode (bindex s) (locator ! k) = Some n \<and> (\<forall>j < k. \<not> on_best s (locator ! j)))
      \<or> (\<forall>h \<in> set locator. \<not> on_best s h) \<and> nodeByHeight (bestChain s) 0 = Some n)
    \<and> locateBlocks s locator stop mx = Inr (map (best_hash s)
        [bn_height (nodes s ! n) + 1..min (stop_height s stop (bn_height (nodes s ! n))) (bn_height (nodes s ! n) + uint mx)])"
proof -
  obtain n where n: "locator_start s locator = Some n" "contains (nodes s) (bestChain s) n"
      and first: "(\<exists>k < length locator. LookupNode (bindex s) (locator ! k) = Some n \<and> (\<forall>j < k. \<not> on_best s (locator ! j)))
        \<or> (\<forall>h \<in> set locator. \<not> on_best s h) \<and> nodeByHeight (bestChain s) 0 = Some n"
    using locator_start_first[OF assms(1)] by blast
  let ?h = "bn_height (nodes s ! n)"
  have h: "0 \<le> ?h" "?h \<le> best_height s" using contains_height[OF assms(1) n(2)] by simp_all
  have small: "best_height s < 2 ^ 31 - 1" using on_branchE[OF assms(1)] by metis
  have stop: "stop_height s stop ?h \<le> best_height s" using contains_height[OF assms(1)] by (auto simp: stop_height_def split: option.split)
  note inv = locateInventory_best[OF assms n, of stop mx]
  have "locateBlocks s locator stop mx = Inr (map (best_hash s) [?h + 1..min (stop_height s stop ?h) (?h + uint mx)])"
  proof (cases "?h = best_height s")
    case True
    then show ?thesis using n inv stop by (auto simp: locateBlocks_def)
  next
    case False
    have pos: "?h < stop_height s stop ?h" using False h by (auto simp: stop_height_def split: option.split)
    let ?d = "stop_height s stop ?h - ?h" and ?total = "min mx (word_of_int (stop_height s stop ?h - ?h))"
    have "uint (word_of_int ?d :: uint32) = ?d" using pos stop small h by (simp add: uint_word_of_int_eq take_bit_int_eq_self_iff del: of_int_diff)
    then have total: "int (unat ?total) = min (uint mx) ?d" by (simp add: min_def word_le_def)
    have "locate_loop (nodes s) (bestChain s) (\<lambda>n. bn_hash (nodes s ! n)) (unat ?total) (nodeByHeight (bestChain s) (?h + 1))
        = Inr (map (best_hash s) [?h + 1..?h + 1 + int (unat ?total) - 1])"
      by (rule locate_loop_best[OF assms(1)]) (use h total stop in auto)
    moreover have "?h + 1 + int (unat ?total) - 1 = min (stop_height s stop ?h) (?h + uint mx)" unfolding total by auto
    ultimately show ?thesis using n inv False by (simp add: locateBlocks_def)
  qed
  then show ?thesis using n(2) first by blast
qed

lemma sample_view: "view_of sample_heap 2 = [Some 0, Some 1, Some 2]"
  by (simp add: view_of_def parent_at_def sample_heap_def sample_node_def numeral_3_eq_3 numeral_2_eq_2)

lemma sample_on_branch: "on_branch sample_chain"
proof -
  have "2 < length sample_heap" "bn_height (sample_heap ! 2) = 2" by (simp_all add: sample_heap_def sample_node_def)
  then show ?thesis
    using sample_heap_wf sample_view by (auto simp: on_branch_def sample_chain_def intro!: exI[of _ 2])
qed

text \<open>Everything after the genesis block, at most ten hashes.\<close>

theorem locateBlocks_correct_witness: "locateBlocks sample_chain [[0]] [9] 10 = Inr [[1], [2]]"
proof -
  have start: "LookupNode (bindex sample_chain) [0] = Some 0" "on_best sample_chain [0]"
    by (simp_all add: on_best_def sample_chain_def LookupNode_def contains_def nodeByHeight_def sample_heap_def sample_node_def)
  have "bn_height (nodes sample_chain ! 0) = 0" "stop_height sample_chain [9] 0 = 2" "best_hash sample_chain 1 = [1]" "best_hash sample_chain 2 = [2]"
    by (simp_all add: stop_height_def best_height_def best_hash_def sample_chain_def LookupNode_def nodeByHeight_def sample_heap_def sample_node_def)
  moreover have "[1..2] = [1, 2 :: int]" by (simp add: upto_rec1)
  ultimately show ?thesis
    using locateBlocks_correct[OF sample_on_branch, of "[[0]]" "[9]" 10] start by auto
qed

end
