(* ===== verification/Chain_Invariant.thy ===== *)
theory Chain_Invariant
  imports Process_Block
begin

text \<open>
  The invariant of the chain state: the block tree is well formed, the index files its nodes, the best chain and
  the best header chain are branches of it, the best state snapshot describes the tip of the best chain, and the
  orphan pool agrees with its index.  \<open>ProcessBlock\<close> and \<open>ProcessBlockHeader\<close> keep it whatever they return.
  Computations are reasoned about by weakest preconditions, which the simplifier computes.
\<close>

section \<open>Weakest preconditions\<close>

text \<open>\<open>Q\<close> for a result, \<open>E\<close> for an error; a computation that does not return satisfies both.\<close>

definition wp :: "('s, 'a) comp \<Rightarrow> ('a \<Rightarrow> 's \<Rightarrow> bool) \<Rightarrow> (error \<Rightarrow> 's \<Rightarrow> bool) \<Rightarrow> 's \<Rightarrow> bool" where
  "wp m Q E s = (case m s of None \<Rightarrow> True | Some (Inl e, s') \<Rightarrow> E e s' | Some (Inr x, s') \<Rightarrow> Q x s')"

named_theorems wp_rules

lemma wp_simple [wp_rules]:
  "wp (retC x1) Q1 E = Q1 x1" "wp (failC e) Q2 E = E e" "wp (readC f) Q3 E = (\<lambda>s. Q3 (f s) s)"
  "wp (modC g) Q4 E = (\<lambda>s. Q4 () (g s))" "wp (guardC b e) Q4 E = (\<lambda>s. if b then E e s else Q4 () s)"
  "wp (runO h) Q5 E = (\<lambda>s. case h s of None \<Rightarrow> True | Some x \<Rightarrow> Q5 x s)"
  "wp (liftE r) Q6 E = (\<lambda>s. case r of Inl e \<Rightarrow> E e s | Inr x \<Rightarrow> Q6 x s)"
  by (simp_all add: fun_eq_iff wp_def comp_defs split: option.splits sum.splits)

lemma wp_bindC [wp_rules]: "wp (bindC m f) Q E = wp m (\<lambda>x. wp (f x) Q E) E"
  by (simp add: fun_eq_iff wp_def bindC_def split: option.splits sum.splits)

lemma wp_seqC [wp_rules]: "wp (seqC m n) Q E = wp m (\<lambda>_. wp n Q E) E"
  by (simp add: seqC_def wp_bindC)

lemma wp_whenC [wp_rules]: "wp (whenC b m) Q E = (\<lambda>s. if b then wp m Q E s else Q () s)"
  by (simp add: whenC_def wp_simple)

lemma wp_tryC [wp_rules]: "wp (tryC m) Q E = wp m (\<lambda>x. Q (Inr x)) (\<lambda>e. Q (Inl e))"
  by (auto simp: fun_eq_iff wp_def tryC_def split: option.splits sum.splits)

lemma wp_if: "wp (if b then m else n) Q E s = (if b then wp m Q E s else wp n Q E s)"
  by simp

lemma wp_True: "wp m (\<lambda>_ _. True) (\<lambda>_ _. True) s"
  by (simp add: wp_def split: option.splits sum.splits)

lemma wp_mono:
  assumes "wp m Q E s" "\<And>x s'. Q x s' \<Longrightarrow> Q' x s'" "\<And>e s'. E e s' \<Longrightarrow> E' e s'"
  shows "wp m Q' E' s"
  using assms by (auto simp: wp_def split: option.splits sum.splits)

lemma wp_keeps:
  assumes "keeps R m" "\<And>x s'. R s s' \<Longrightarrow> Q x s'" "\<And>e s'. R s s' \<Longrightarrow> E e s'"
  shows "wp m Q E s"
  using assms by (auto simp: wp_def keeps_def split: option.splits sum.splits)

lemma wpD: "wp m Q E s \<Longrightarrow> m s = Some (Inr x, s') \<Longrightarrow> Q x s'" "wp m Q E s \<Longrightarrow> m s = Some (Inl e, s') \<Longrightarrow> E e s'"
  by (simp_all add: wp_def)

lemma wp_foldC:
  assumes "\<And>x a s. x \<in> set xs \<Longrightarrow> I s \<Longrightarrow> wp (f x a) (\<lambda>_. I) E s" "I s"
  shows "wp (foldC f xs a) (\<lambda>_. I) E s"
  using assms
proof (induction xs arbitrary: a s)
  case (Cons x xs)
  have "wp (f x a) (\<lambda>_. I) E s" using Cons.prems by simp
  then have "wp (f x a) (\<lambda>a. wp (foldC f xs a) (\<lambda>_. I) E) E s"
    by (rule wp_mono) (use Cons in simp_all)
  then show ?case by (simp add: wp_rules)
qed (simp add: wp_rules)

section \<open>What most steps leave alone\<close>

definition core_same :: "('b, 'bl) BlockChain \<Rightarrow> ('b, 'bl) BlockChain \<Rightarrow> bool" where
  "core_same s s' \<longleftrightarrow> nodes s' = nodes s \<and> index (bindex s') = index (bindex s) \<and> bestChain s' = bestChain s
    \<and> bestHeader s' = bestHeader s \<and> stateSnapshot s' = stateSnapshot s \<and> orphans s' = orphans s \<and> prevOrphans s' = prevOrphans s"

lemma core_same_rel: "reflp core_same" "transp core_same"
  by (auto simp: core_same_def reflp_def transp_def)

lemma core_refl [simp]: "core_same s s"
  by (simp add: core_same_def)

lemma core_updates [simp]:
  "core_same s (s\<lparr>utxos := c\<rparr>)" "core_same s (s\<lparr>cdb := db\<rparr>)" "core_same s (s\<lparr>deploymentCaches := cs\<rparr>)"
  "core_same s (s\<lparr>warningCaches := ws, deploymentCaches := cs\<rparr>)" "core_same s (s\<lparr>checkpointNode := n, nextCheckpoint := x\<rparr>)"
  "core_same s (s\<lparr>utxos := c, cdb := db\<rparr>)"
  by (simp_all add: core_same_def)

lemmas core_keeps = keeps_bindC[OF core_same_rel(2)] keeps_seqC[OF core_same_rel(2)] keeps_whenC[OF core_same_rel(1)]
  keeps_tryC keeps_foldC[OF core_same_rel] keeps_simple(1-6)[OF core_same_rel(1)]

lemma keeps_if: "keeps R m \<Longrightarrow> keeps R n \<Longrightarrow> keeps R (if b then m else n)"
  by simp

lemma core_steps:
  "keeps core_same (on_cache f)" "keeps core_same (on_db g)" "keeps core_same (deployment_state env p d)"
  "keeps core_same (warn_rules env n)" "keeps core_same (flush_cache env mode st)" "keeps core_same (flush_index env)"
  by (auto simp: keeps_def on_cache_def on_db_def deployment_state_def warn_rules_def flush_cache_def
      flush_index_def flushToDB_def core_same_def split: option.splits sum.splits prod.splits if_splits)

lemma core_db_update: "keeps core_same m \<Longrightarrow> keeps core_same (db_update m)"
  unfolding keeps_def
proof (intro allI impI)
  fix s r s'
  assume m: "\<forall>s r s'. m s = Some (r, s') \<longrightarrow> core_same s s'" and run: "db_update m s = Some (r, s')"
  then obtain s1 where "m s = Some (r, s1)" "s' = s1\<lparr>cdb := cdb s\<rparr> \<or> s' = s1"
    by (auto simp: db_update_def split: sum.splits) (cases r; simp)
  then have "core_same s s1" "core_same s1 s'" using m by auto
  then show "core_same s s'" using core_same_rel(2) by (meson transpD)
qed

lemma core_findPrevious: "keeps core_same (findPreviousCheckpoint env)"
  unfolding keeps_def findPreviousCheckpoint_def Let_def
  by (auto simp: core_same_def split: option.splits if_splits)

lemmas core_intros = core_keeps keeps_if core_steps core_db_update core_findPrevious

lemma core_set_frame: "keeps core_same m" if "keeps checkpoint_frame m" for m :: "(('b, 'bl) BlockChain, 'a) comp"
  unfolding keeps_def
proof (intro allI impI)
  fix s r s' assume "m s = Some (r, s')"
  then have "forget_checkpoints s' = forget_checkpoints s" using that by (auto simp: keeps_def checkpoint_frame_def)
  then show "core_same s s'"
    unfolding forget_checkpoints_def core_same_def
    by (cases s; cases s') simp
qed

lemma core_checkConnectBlock: "keeps core_same (checkConnectBlock env node block view stxos)"
  unfolding checkConnectBlock_def checkBIP0030_def check_sequence_locks_def calcSequenceLock_def lock_input_def Let_def
  by (auto intro!: core_intros split: option.split prod.split)

lemma core_checkBlockContext: "keeps core_same (checkBlockContext env block p flags)"
  unfolding checkBlockContext_def Let_def
  by (auto intro!: core_intros core_set_frame[OF CheckBlockHeaderContext_frame] split: option.split prod.split)

lemma core_database:
  "keeps core_same (dbFetchBlockByNode env n)" "keeps core_same (dbStoreBlock env block)" "keeps core_same (fetch_inputs env block view)"
  "keeps core_same (cache_connect env block)" "keeps core_same (flush_index_logged env)" "keeps core_same (put_best_state env st w)"
  "keeps core_same (prune_blocks env st)" "keeps core_same (connect_update env n block stxos st)"
  "keeps core_same (disconnect_update env n block view st)" "keeps core_same (isCurrent env)" "keeps core_same best_tip"
  "keeps core_same (spent_count block)" "keeps core_same (blockExists env h)"
  unfolding dbFetchBlockByNode_def dbStoreBlock_def fetch_inputs_def cache_connect_def flush_index_logged_def put_best_state_def
    prune_blocks_def connect_update_def disconnect_update_def isCurrent_def best_tip_def spent_count_def blockExists_def Let_def
  by (auto intro!: core_intros split: option.split prod.split)

section \<open>Growing heaps\<close>

text \<open>Nodes are only added, and of the nodes that are there only the status changes.\<close>

definition grows :: "heap \<Rightarrow> heap \<Rightarrow> bool" where
  "grows mem mem' \<longleftrightarrow> length mem \<le> length mem' \<and> (\<forall>n < length mem. (mem' ! n)\<lparr>status := 0\<rparr> = (mem ! n)\<lparr>status := 0\<rparr>)"

lemma grows_fields:
  assumes "grows mem mem'" "n < length mem"
  shows "n < length mem'" "parent (mem' ! n) = parent (mem ! n)" "bn_height (mem' ! n) = bn_height (mem ! n)"
    "bn_hash (mem' ! n) = bn_hash (mem ! n)" "workSum (mem' ! n) = workSum (mem ! n)" "bn_bits (mem' ! n) = bn_bits (mem ! n)"
proof -
  have eq: "(mem' ! n)\<lparr>status := 0\<rparr> = (mem ! n)\<lparr>status := 0\<rparr>" using assms by (simp add: grows_def)
  show "n < length mem'" using assms by (simp add: grows_def)
  show "parent (mem' ! n) = parent (mem ! n)" "bn_height (mem' ! n) = bn_height (mem ! n)"
    "bn_hash (mem' ! n) = bn_hash (mem ! n)" "workSum (mem' ! n) = workSum (mem ! n)" "bn_bits (mem' ! n) = bn_bits (mem ! n)"
    using arg_cong[OF eq, of parent] arg_cong[OF eq, of bn_height] arg_cong[OF eq, of bn_hash] arg_cong[OF eq, of workSum]
      arg_cong[OF eq, of bn_bits] by simp_all
qed

lemma grows_refl [simp]: "grows mem mem" by (simp add: grows_def)

lemma grows_trans: "grows a b \<Longrightarrow> grows b c \<Longrightarrow> grows a c"
  by (auto simp: grows_def)

lemma grows_set_status: "grows mem (set_status mem n st)"
  by (cases "n < length mem") (auto simp: grows_def set_status_def nth_list_update)

lemma grows_append: "grows mem (mem @ ns)"
  by (simp add: grows_def nth_append)

lemma grows_nth_parent:
  assumes "wf_heap mem" "grows mem mem'"
  shows "n < length mem \<Longrightarrow> nth_parent mem' k n = nth_parent mem k n"
proof (induction k arbitrary: n)
  case (Suc k)
  then show ?case using grows_fields(2)[OF assms(2)] wf_parent(2)[OF assms(1)] by (auto split: option.splits)
qed simp

lemma grows_parent_at:
  assumes "wf_heap mem" "grows mem mem'" "n < length mem"
  shows "parent_at mem' n h = parent_at mem n h"
  using grows_nth_parent[OF assms(1,2)] grows_fields(3)[OF assms(2)] assms(3) by (simp add: parent_at_def)

lemma grows_view_of:
  assumes "wf_heap mem" "grows mem mem'" "t < length mem"
  shows "view_of mem' t = view_of mem t"
  unfolding view_of_def grows_parent_at[OF assms] grows_fields(3)[OF assms(2,3)] ..

lemma height_index: "wf_heap mem \<Longrightarrow> n < length mem \<Longrightarrow> bn_height (mem ! n) \<le> int n"
proof (induction n rule: less_induct)
  case (less n)
  have wf: "wf_node mem n" using less.prems by (simp add: wf_heap_def)
  show ?case
  proof (cases "parent (mem ! n)")
    case None
    then show ?thesis using wf by (simp add: wf_node_def)
  next
    case (Some p)
    then show ?thesis using wf less.IH[of p] less.prems by (auto simp: wf_node_def)
  qed
qed

text \<open>Work never decreases from parent to child.\<close>

definition work_ok :: "heap \<Rightarrow> bool" where
  "work_ok mem \<longleftrightarrow> (\<forall>n < length mem. \<forall>p. parent (mem ! n) = Some p \<longrightarrow> workSum (mem ! p) \<le> workSum (mem ! n))"

text \<open>
  The hash of a node is that of a header that names its parent.  Block hashes commit to the previous block, and
  no block hashes to zero.
\<close>

definition hash_ok :: "wire_lib \<Rightarrow> heap \<Rightarrow> bool" where
  "hash_ok L mem \<longleftrightarrow> (\<forall>n < length mem. \<exists>hdr. BlockHash L hdr = bn_hash (mem ! n)
    \<and> hPrevBlock hdr = (case parent (mem ! n) of None \<Rightarrow> zeroHash | Some p \<Rightarrow> bn_hash (mem ! p)))"

definition hash_lib :: "wire_lib \<Rightarrow> bool" where
  "hash_lib L \<longleftrightarrow> commits_to_parent L \<and> (\<forall>h. BlockHash L h \<noteq> zeroHash)"

lemma hash_ok_parent:
  assumes "hash_lib L" "hash_ok L mem" "n < length mem" "bn_hash (mem ! n) = BlockHash L hdr" "hPrevBlock hdr = bn_hash (mem ! m)" "m < length mem"
  obtains p where "parent (mem ! n) = Some p" "bn_hash (mem ! p) = hPrevBlock hdr"
proof -
  obtain hm where "BlockHash L hm = bn_hash (mem ! m)" using assms(2,6) by (auto simp: hash_ok_def)
  then have nz: "hPrevBlock hdr \<noteq> zeroHash" using assms(1,5) by (auto simp: hash_lib_def)
  obtain hn where hn: "BlockHash L hn = bn_hash (mem ! n)"
      "hPrevBlock hn = (case parent (mem ! n) of None \<Rightarrow> zeroHash | Some p \<Rightarrow> bn_hash (mem ! p))"
    using assms(2,3) by (auto simp: hash_ok_def)
  have "BlockHash L hn = BlockHash L hdr" using assms(4) hn(1) by simp
  then have "hPrevBlock hn = hPrevBlock hdr" using assms(1) unfolding hash_lib_def commits_to_parent_def by blast
  then show thesis using hn(2) nz that by (auto split: option.splits)
qed

lemma CalcWork_nonneg: "0 \<le> CalcWork bits"
  unfolding CalcWork_def Let_def by (simp add: pos_imp_zdiv_nonneg_iff)

section \<open>The invariant\<close>

definition indexed :: "('b, 'bl) BlockChain \<Rightarrow> nid \<Rightarrow> bool" where
  "indexed s n \<longleftrightarrow> (bn_hash (nodes s ! n), n) \<in> set (index (bindex s))"

definition describes :: "BestState \<Rightarrow> blockNode \<Rightarrow> bool" where
  "describes st node \<longleftrightarrow> st_Hash st = bn_hash node \<and> st_Height st = bn_height node \<and> st_Bits st = bn_bits node"

definition tip_ok :: "('b, 'bl) BlockChain \<Rightarrow> nid \<Rightarrow> bool" where
  "tip_ok s t \<longleftrightarrow> indexed s t \<and> bestChain s = view_of (nodes s) t \<and> describes (stateSnapshot s) (nodes s ! t)"

text \<open>\<open>k\<close> is the number of nodes that can still be added before heights leave the range of an \<open>int32\<close>.\<close>

definition chain_inv :: "wire_lib \<Rightarrow> nat \<Rightarrow> ('b, 'bl) BlockChain \<Rightarrow> bool" where
  "chain_inv L k s \<longleftrightarrow> wf_heap (nodes s) \<and> work_ok (nodes s) \<and> hash_ok L (nodes s) \<and> index_ok (nodes s) (bindex s) \<and> length (nodes s) + k < 2 ^ 31
    \<and> (\<exists>t. tip_ok s t) \<and> (\<exists>t. indexed s t \<and> bestHeader s = view_of (nodes s) t) \<and> pool_ok L s"

text \<open>How a state may develop.\<close>

definition later :: "('b, 'bl) BlockChain \<Rightarrow> ('b, 'bl) BlockChain \<Rightarrow> bool" where
  "later s s' \<longleftrightarrow> grows (nodes s) (nodes s') \<and> set (index (bindex s)) \<subseteq> set (index (bindex s'))"

lemma later_refl [simp]: "later s s" by (simp add: later_def)

lemma later_trans: "later a b \<Longrightarrow> later b c \<Longrightarrow> later a c"
  by (auto simp: later_def intro: grows_trans)

lemma chain_invD:
  assumes "chain_inv L k s"
  shows "wf_heap (nodes s)" "work_ok (nodes s)" "index_ok (nodes s) (bindex s)" "length (nodes s) + k < 2 ^ 31" "pool_ok L s"
    "hash_ok L (nodes s)"
  using assms by (auto simp: chain_inv_def)

lemma indexed_less: "chain_inv L k s \<Longrightarrow> indexed s n \<Longrightarrow> n < length (nodes s)"
  using index_ok_entry(1) by (fastforce simp: chain_inv_def indexed_def)

lemma indexed_later: "chain_inv L k s \<Longrightarrow> later s s' \<Longrightarrow> indexed s n \<Longrightarrow> indexed s' n"
  using indexed_less grows_fields(4) by (fastforce simp: later_def indexed_def)

lemma indexed_parent: "chain_inv L k s \<Longrightarrow> indexed s n \<Longrightarrow> parent (nodes s ! n) = Some p \<Longrightarrow> indexed s p"
  using index_ok_entry(3) by (fastforce simp: chain_inv_def indexed_def)

lemma indexed_lookup: "LookupNode (bindex s) h = Some n \<Longrightarrow> chain_inv L k s \<Longrightarrow> indexed s n \<and> bn_hash (nodes s ! n) = h"
  using index_ok_entry(2) by (fastforce simp: LookupNode_def chain_inv_def indexed_def dest: map_of_SomeD)

lemma core_indexed: "core_same s s' \<Longrightarrow> indexed s' n = indexed s n"
  by (simp add: core_same_def indexed_def)

lemma core_inv: "core_same s s' \<Longrightarrow> chain_inv L k s' = chain_inv L k s"
  by (simp add: core_same_def chain_inv_def tip_ok_def indexed_def index_ok_def pool_ok_def prev_orphans_def)

lemma core_later: "core_same s s' \<Longrightarrow> later s s'"
  by (simp add: core_same_def later_def)

lemma core_tip: "core_same s s' \<Longrightarrow> tip_ok s' t = tip_ok s t"
  by (simp add: core_same_def tip_ok_def indexed_def)

section \<open>Steps that leave the tip\<close>

definition quiet :: "wire_lib \<Rightarrow> ('b, 'bl) BlockChain \<Rightarrow> ('b, 'bl) BlockChain \<Rightarrow> bool" where
  "quiet L s s' \<longleftrightarrow> later s s' \<and> (\<forall>k. chain_inv L k s \<longrightarrow> chain_inv L k s' \<and> (\<forall>t. tip_ok s t \<longrightarrow> tip_ok s' t))
    \<and> orphans s' = orphans s"

lemma quiet_rel: "reflp (quiet L)" "transp (quiet L)"
  by (auto simp: quiet_def reflp_def transp_def intro: later_trans)

lemma quiet_core: "core_same s s' \<Longrightarrow> quiet L s s'"
  by (simp add: quiet_def core_inv core_later core_tip) (simp add: core_same_def)

lemma keeps_weaken: "keeps R m \<Longrightarrow> (\<And>s s'. R s s' \<Longrightarrow> R' s s') \<Longrightarrow> keeps R' m"
  by (auto simp: keeps_def)

lemmas core_quiet = keeps_weaken[OF _ quiet_core]

lemma describes_status: "describes st ((node :: blockNode)\<lparr>status := x\<rparr>) = describes st node"
  by (simp add: describes_def)

lemma quiet_status:
  assumes "nodes s' = set_status (nodes s) n st" "index (bindex s') = index (bindex s)" "bestChain s' = bestChain s"
    "bestHeader s' = bestHeader s" "stateSnapshot s' = stateSnapshot s" "orphans s' = orphans s" "prevOrphans s' = prevOrphans s"
  shows "quiet L s s'"
proof -
  have g: "grows (nodes s) (nodes s')" using assms(1) grows_set_status by simp
  then have l: "later s s'" using assms(2) by (simp add: later_def)
  have "chain_inv L k s' \<and> (\<forall>t. tip_ok s t \<longrightarrow> tip_ok s' t)" if inv: "chain_inv L k s" for k
  proof -
    note wf = chain_invD(1)[OF inv]
    have idx: "indexed s' t" if "indexed s t" for t using indexed_later[OF inv l that] .
    have view: "view_of (nodes s') t = view_of (nodes s) t" if "indexed s t" for t
      using grows_view_of[OF wf g indexed_less[OF inv that]] .
    have tips: "tip_ok s' t" if "tip_ok s t" for t
      using that idx view grows_fields[OF g indexed_less[OF inv]] assms(3,5) by (auto simp: tip_ok_def describes_def)
    have "work_ok (nodes s')"
      unfolding work_ok_def
    proof (intro allI impI)
      fix m p assume m: "m < length (nodes s')" "parent (nodes s' ! m) = Some p"
      then have "m < length (nodes s)" "parent (nodes s ! m) = Some p" using assms(1) by simp_all
      then have "p < length (nodes s)" "workSum (nodes s ! p) \<le> workSum (nodes s ! m)"
        using wf_parent(2)[OF wf] chain_invD(2)[OF inv] by (auto simp: work_ok_def)
      then show "workSum (nodes s' ! p) \<le> workSum (nodes s' ! m)" using assms(1) \<open>m < length (nodes s)\<close> by simp
    qed
    moreover have "hash_ok L (nodes s')"
      unfolding hash_ok_def
    proof (intro allI impI)
      fix m assume m: "m < length (nodes s')"
      then have len: "m < length (nodes s)" using assms(1) by simp
      obtain hdr where "BlockHash L hdr = bn_hash (nodes s ! m)"
          "hPrevBlock hdr = (case parent (nodes s ! m) of None \<Rightarrow> zeroHash | Some p \<Rightarrow> bn_hash (nodes s ! p))"
        using chain_invD(6)[OF inv] len by (auto simp: hash_ok_def)
      moreover have "bn_hash (nodes s' ! p) = bn_hash (nodes s ! p)" if "parent (nodes s ! m) = Some p" for p
        using wf_parent(2)[OF wf len that] assms(1) by simp
      ultimately show "\<exists>hdr. BlockHash L hdr = bn_hash (nodes s' ! m)
          \<and> hPrevBlock hdr = (case parent (nodes s' ! m) of None \<Rightarrow> zeroHash | Some p \<Rightarrow> bn_hash (nodes s' ! p))"
        using len assms(1) by (intro exI[of _ hdr]) (auto split: option.splits)
    qed
    moreover have "index_ok (nodes s') (bindex s')"
      using index_ok_set_status[OF chain_invD(3)[OF inv] wf, of n st n] assms(1,2) by (simp add: index_ok_def mark_dirty_def)
    moreover have "pool_ok L s'" using chain_invD(5)[OF inv] assms(6,7) by (simp add: pool_ok_def prev_orphans_def)
    moreover have "\<exists>h. indexed s' h \<and> bestHeader s' = view_of (nodes s') h" "\<exists>t. tip_ok s' t"
      using inv idx view tips assms(4) unfolding chain_inv_def by metis+
    ultimately show ?thesis
      using chain_invD(4)[OF inv] tips wf_heap_set_status[OF wf, of n st] assms(1) unfolding chain_inv_def by simp
  qed
  then show ?thesis using l assms(6) by (simp add: quiet_def)
qed

lemma quiet_flags: "keeps (quiet L) (set_flags n flags)" "keeps (quiet L) (unset_flags n flags)"
  unfolding set_flags_def unset_flags_def
  by (auto simp: SetStatusFlags_def UnsetStatusFlags_def Let_def mark_dirty_def intro!: keeps_simple(7) quiet_status)

lemmas quiet_intros = keeps_bindC[OF quiet_rel(2)] keeps_seqC[OF quiet_rel(2)] keeps_whenC[OF quiet_rel(1)]
  keeps_tryC keeps_foldC[OF quiet_rel] keeps_simple(1-6)[OF quiet_rel(1)] keeps_if quiet_flags
  core_steps[THEN core_quiet] core_database[THEN core_quiet] core_checkConnectBlock[THEN core_quiet]

lemma quiet_getReorganizeNodes: "keeps (quiet L) (getReorganizeNodes node)"
  unfolding getReorganizeNodes_def Let_def by (auto intro!: quiet_intros split: option.split)

lemma quiet_attach_check: "keeps (quiet L) (attach_check env ns view blocks)"
  by (induction ns arbitrary: view blocks) (auto intro!: quiet_intros split: option.split sum.split prod.split)

lemma quiet_verify: "keeps (quiet L) (verifyReorganizationValidity env detach attach)"
  unfolding verifyReorganizationValidity_def detach_check_def
  by (auto intro!: quiet_intros quiet_attach_check split: option.split prod.split)

section \<open>Steps that move the tip\<close>

text \<open>A step relative to a fixed state before it.\<close>

lemma wp_from:
  assumes "keeps R m" "transp R" "R start s" "\<And>x s'. R start s' \<Longrightarrow> Q x s'" "\<And>e s'. R start s' \<Longrightarrow> E e s'"
  shows "wp m Q E s"
  using assms by (intro wp_keeps[OF assms(1)]) (meson transpD)+

lemmas wp_core = wp_from[OF _ core_same_rel(2)]
lemmas wp_quiet = wp_from[OF _ quiet_rel(2)]

lemma tip_view: "wf_heap mem \<Longrightarrow> t < length mem \<Longrightarrow> tip (view_of mem t) = Some t"
  using height_nonneg[of mem t] by (simp add: tip_def view_of_def)

lemma tip_unique: "chain_inv L k s \<Longrightarrow> tip_ok s t \<Longrightarrow> tip (bestChain s) = Some t"
  using tip_view[OF chain_invD(1), of L k s t] indexed_less[of L k s t] by (simp add: tip_ok_def)

lemma view_ok_view_of: "t < length mem \<Longrightarrow> view_ok mem (view_of mem t)"
  by (auto simp: view_ok_def)

text \<open>Moving the tip and replacing the snapshot together.\<close>

lemma move_tip:
  assumes inv: "chain_inv L k s" and n: "indexed s n" and st: "describes state (nodes s ! n)"
    and Q: "\<And>s'. chain_inv L k s' \<Longrightarrow> later s s' \<Longrightarrow> tip_ok s' n \<Longrightarrow> orphans s' = orphans s \<Longrightarrow> nodes s' = nodes s \<Longrightarrow> wp m Q E s'"
  shows "wp (seqC (set_best_tip (Some n)) (seqC (modC (\<lambda>s. s\<lparr>stateSnapshot := state\<rparr>)) m)) Q E s"
proof -
  note wf = chain_invD(1)[OF inv]
  have len: "n < length (nodes s)" using indexed_less[OF inv n] .
  obtain t where "tip_ok s t" using inv by (auto simp: chain_inv_def)
  then have "view_ok (nodes s) (bestChain s)" using indexed_less[OF inv] view_ok_view_of by (auto simp: tip_ok_def)
  moreover have "bn_height (nodes s ! n) < 2 ^ 31 - 1" using height_index[OF wf len] len chain_invD(4)[OF inv] by simp
  ultimately have set: "setTip (nodes s) (bestChain s) (Some n) = Some (view_of (nodes s) n)" by (rule setTip_eq[OF wf _ len])
  let ?s = "s\<lparr>bestChain := view_of (nodes s) n, stateSnapshot := state\<rparr>"
  have tip: "tip_ok ?s n" using n st by (simp add: tip_ok_def indexed_def)
  then have "chain_inv L k ?s" using inv by (auto simp: chain_inv_def indexed_def pool_ok_def prev_orphans_def)
  moreover have "later s ?s" by (simp add: later_def)
  ultimately have "wp m Q E ?s" using Q tip by simp
  then have "wp (seqC (modC (\<lambda>s. s\<lparr>stateSnapshot := state\<rparr>)) m) Q E (s\<lparr>bestChain := view_of (nodes s) n\<rparr>)"
    by (simp add: wp_seqC wp_simple)
  moreover have "set_best_tip (Some n) s = Some (Inr (), s\<lparr>bestChain := view_of (nodes s) n\<rparr>)" using set by (simp add: set_best_tip_def)
  ultimately show ?thesis by (subst wp_seqC) (simp add: wp_def)
qed

lemma newBestState_describes: "describes (newBestState node a b c d e) node"
  by (simp add: newBestState_def describes_def)

lemma core_back:
  assumes "chain_inv L k s" "core_same s s'"
  shows "chain_inv L k s'" "later s s'" "tip_ok s t \<Longrightarrow> tip_ok s' t" "orphans s' = orphans s" "nodes s' = nodes s" "indexed s n \<Longrightarrow> indexed s' n"
  using assms by (simp_all add: core_inv core_later core_tip core_indexed) (simp_all add: core_same_def)

lemma wp_best_tip: "chain_inv L k s \<Longrightarrow> tip_ok s t \<Longrightarrow> wp best_tip Q E s = Q t s"
  using tip_unique[of L k s t] by (simp add: best_tip_def wp_rules)

text \<open>What is true after a step that may have moved the tip: of success, \<open>n\<close> is the tip.\<close>

definition moved :: "wire_lib \<Rightarrow> nat \<Rightarrow> ('b, 'bl) BlockChain \<Rightarrow> ('b, 'bl) BlockChain \<Rightarrow> bool" where
  "moved L k s s' \<longleftrightarrow> chain_inv L k s' \<and> later s s' \<and> orphans s' = orphans s"

lemma moved_quiet: "chain_inv L k s \<Longrightarrow> quiet L s s' \<Longrightarrow> moved L k s s'"
  by (simp add: quiet_def moved_def)

lemma moved_trans: "moved L k a b \<Longrightarrow> moved L k b c \<Longrightarrow> moved L k a c"
  by (auto simp: moved_def intro: later_trans)

lemma wp_connectBlock:
  assumes inv: "chain_inv L k s" and t: "tip_ok s t" and n: "indexed s n"
  shows "wp (connectBlock env n block stxos)
    (\<lambda>_ s'. moved L k s s' \<and> tip_ok s' n \<and> hPrevBlock (Header block) = bn_hash (nodes s ! t)) (\<lambda>_ s'. moved L k s s') s"
    (is "wp _ ?Q ?E s")
proof -
  have core: "moved L k s s'" if "core_same s s'" for s' using moved_quiet[OF inv quiet_core[OF that]] .
  have last: "wp (db_update (flush_cache env FlushIfNeeded state)) (\<lambda>_ s'. moved L k s s' \<and> tip_ok s' n) ?E s2"
    if "chain_inv L k s2" "later s s2" "tip_ok s2 n" "orphans s2 = orphans s" for s2 state
  proof (rule wp_keeps[OF core_db_update[OF core_steps(5)]])
    fix s' assume c: "core_same s2 s'"
    show "moved L k s s' \<and> tip_ok s' n" "moved L k s s'"
      using core_back[OF that(1) c] that by (auto simp: moved_def intro: later_trans)
  qed
  have tail: "wp (seqC (set_best_tip (Some n)) (seqC (modC (\<lambda>s. s\<lparr>stateSnapshot := state\<rparr>)) (db_update (flush_cache env FlushIfNeeded state))))
      (\<lambda>_ s'. moved L k s s' \<and> tip_ok s' n) ?E s1"
    if c: "core_same s s1" and d: "describes state (nodes s ! n)" for s1 state
    by (rule move_tip[OF core_back(1)[OF inv c] core_back(6)[OF inv c n]], simp add: d core_back(5)[OF inv c])
      (rule last; auto simp: core_back[OF inv c] intro: later_trans[OF core_back(2)[OF inv c]])
  note tail' = tail[unfolded wp_seqC wp_simple]
  note steps = wp_core[OF core_database(12), where start = s] wp_core[OF core_database(10), where start = s]
    wp_core[OF core_steps(4), where start = s] wp_core[OF core_steps(6), where start = s]
    wp_core[OF core_db_update[OF core_database(8)], where start = s]
  have d: "describes (newBestState (nodes s1 ! n) a b c d e) (nodes s ! n)" if "core_same s s1" for s1 a b c d e
    using newBestState_describes[of "nodes s ! n"] core_back(5)[OF inv that] by simp
  have "wp (connectBlock env n block stxos) (\<lambda>_ s'. moved L k s s' \<and> tip_ok s' n) ?E s" if "hPrevBlock (Header block) = bn_hash (nodes s ! t)"
    unfolding connectBlock_def wp_bindC wp_seqC wp_whenC wp_best_tip[OF inv t] wp_simple
    using that by (auto intro!: steps tail' core d simp: Let_def)
  moreover have "wp (connectBlock env n block stxos) (\<lambda>_ s'. False) ?E s" if "hPrevBlock (Header block) \<noteq> bn_hash (nodes s ! t)"
    unfolding connectBlock_def wp_bindC wp_seqC wp_best_tip[OF inv t] wp_simple using that core by simp
  ultimately show ?thesis by (cases "hPrevBlock (Header block) = bn_hash (nodes s ! t)") (auto elim: wp_mono)
qed

lemma wp_disconnectBlock:
  assumes inv: "chain_inv L k s" and t: "tip_ok s t" and n: "indexed s n"
  shows "wp (disconnectBlock env n block view)
    (\<lambda>_ s'. moved L k s s' \<and> (\<exists>p. parent (nodes s ! n) = Some p \<and> tip_ok s' p)) (\<lambda>_ s'. moved L k s s') s"
    (is "wp _ ?Q ?E s")
proof -
  have core: "moved L k s s'" if "core_same s s'" for s' using moved_quiet[OF inv quiet_core[OF that]] .
  show ?thesis
  proof (cases "parent (nodes s ! n)")
    case None
    then show ?thesis
      unfolding disconnectBlock_def wp_bindC wp_best_tip[OF inv t] wp_simple using core by (simp add: wp_rules)
  next
    case (Some p)
    have p: "indexed s p" using indexed_parent[OF inv n Some] .
    have tail: "wp (seqC (set_best_tip (Some p)) (seqC (modC (\<lambda>s. s\<lparr>stateSnapshot := state\<rparr>)) (retC v))) (\<lambda>_ s'. moved L k s s' \<and> tip_ok s' p) ?E s1"
      if c: "core_same s s1" and d: "describes state (nodes s ! p)" for s1 state v
      by (rule move_tip[OF core_back(1)[OF inv c] core_back(6)[OF inv c p]], simp add: d core_back(5)[OF inv c])
        (auto simp: core_back[OF inv c] Some wp_simple moved_def intro: later_trans[OF core_back(2)[OF inv c]])
    note steps = wp_core[OF core_database(1), where start = s] wp_core[OF core_steps(6), where start = s]
      wp_core[OF core_db_update[OF core_database(9)], where start = s]
    have d: "describes (newBestState (nodes s1 ! p) a b c d e) (nodes s ! p)" if "core_same s s1" for s1 a b c d e
      using newBestState_describes[of "nodes s ! p"] core_back(5)[OF inv that] by simp
    have "wp (disconnectBlock env n block view) (\<lambda>_ s'. moved L k s s' \<and> tip_ok s' p) ?E s"
      unfolding disconnectBlock_def wp_bindC wp_seqC wp_best_tip[OF inv t] wp_simple
      using Some by (auto intro!: steps tail[unfolded wp_seqC wp_simple] core d simp: wp_bindC wp_seqC wp_simple)
    then show ?thesis by (rule wp_mono) (simp_all add: Some)
  qed
qed

section \<open>Reorganization\<close>

definition walked :: "(nid \<Rightarrow> bool) \<Rightarrow> heap \<Rightarrow> nid option \<Rightarrow> nid option \<Rightarrow> nid list \<Rightarrow> bool" where
  "walked I mem stop node ns \<longleftrightarrow> ((\<forall>n p. I n \<longrightarrow> parent (mem ! n) = Some p \<longrightarrow> I p) \<longrightarrow> (\<forall>n. node = Some n \<longrightarrow> I n)
    \<longrightarrow> (\<forall>n \<in> set ns. I n) \<and> (ns = [] \<longleftrightarrow> node = None \<or> node = stop) \<and> (ns \<noteq> [] \<longrightarrow> Some (hd ns) = node))"

lemma walk_back_nodes: "walk_back mem stop node = Some ns \<Longrightarrow> walked I mem stop node ns"
proof (erule walk_back.raw_induct[where P = "walked I", rotated])
  fix wb mem stop node ns
  assume IH: "\<And>mem stop node ns. wb mem stop node = Some ns \<Longrightarrow> walked I mem stop node ns"
    and step: "(case node of None \<Rightarrow> Some [] | Some n \<Rightarrow> if Some n = stop then Some []
      else Option.bind (wb mem stop (parent (mem ! n))) (\<lambda>ns. Some (n # ns))) = Some ns"
  show "walked I mem stop node ns"
  proof (cases "node = None \<or> node = stop")
    case True
    then show ?thesis using step by (cases node) (auto simp: walked_def)
  next
    case False
    then obtain n rest where "node = Some n" "wb mem stop (parent (mem ! n)) = Some rest" "ns = n # rest"
      using step by (cases node) (auto simp: Option.bind_eq_Some_conv)
    note n = this
    show ?thesis
      unfolding walked_def
    proof (intro impI)
      assume closed: "\<forall>n p. I n \<longrightarrow> parent (mem ! n) = Some p \<longrightarrow> I p" and "\<forall>n. node = Some n \<longrightarrow> I n"
      then have "I n" "\<forall>p. parent (mem ! n) = Some p \<longrightarrow> I p" using n(1) by blast+
      then have "\<forall>m \<in> set rest. I m" using IH[OF n(2)] closed unfolding walked_def by blast
      then show "(\<forall>n \<in> set ns. I n) \<and> (ns = [] \<longleftrightarrow> node = None \<or> node = stop) \<and> (ns \<noteq> [] \<longrightarrow> Some (hd ns) = node)"
        using n False \<open>I n\<close> by simp
    qed
  qed
qed

lemma attach_check_length:
  "wp (attach_check env ns view blocks) (\<lambda>r _. length r = length blocks + length ns) (\<lambda>_ _. True) s"
proof (induction ns arbitrary: view blocks s)
  case (Cons n ns)
  have rest: "wp (attach_check env ns view (blocks @ [block])) (\<lambda>r _. length r = Suc (length blocks + length ns)) (\<lambda>_ _. True) s'" for view s' block
    using Cons[of view "blocks @ [block]" s'] by simp
  show ?case
    unfolding attach_check.simps
    by (auto simp: wp_rules wp_if intro!: wp_keeps[OF core_database(1)] wp_keeps[OF core_database(3)] wp_keeps[OF core_checkConnectBlock]
        wp_keeps[OF quiet_flags(1)[where L = "e_wire env"]] wp_True rest split: sum.splits prod.splits)
qed (simp add: wp_rules)

lemma nth_parent_work:
  assumes "wf_heap mem" "work_ok mem"
  shows "n < length mem \<Longrightarrow> nth_parent mem k n = Some a \<Longrightarrow> workSum (mem ! a) \<le> workSum (mem ! n)"
proof (induction k arbitrary: n)
  case (Suc k)
  then obtain p where p: "parent (mem ! n) = Some p" "nth_parent mem k p = Some a" by (auto split: option.splits)
  then have "p < length mem" "workSum (mem ! p) \<le> workSum (mem ! n)"
    using wf_parent(2)[OF assms(1) Suc.prems(1)] assms(2) Suc.prems(1) by (auto simp: work_ok_def)
  then show ?case using Suc.IH[of p] p(2) by linarith
qed simp

lemma branch_work: "chain_inv L k s \<Longrightarrow> t < length (nodes s) \<Longrightarrow> parent_at (nodes s) t h = Some a \<Longrightarrow> workSum (nodes s ! a) \<le> workSum (nodes s ! t)"
  using nth_parent_work[OF chain_invD(1,2)] by (auto simp: parent_at_def split: if_splits)

text \<open>The lists of a reorganization: nothing, or branches of known nodes that end at the new tip.\<close>

definition reorg_lists :: "('b, 'bl) BlockChain \<Rightarrow> nid \<Rightarrow> nid \<Rightarrow> nid list \<times> nid list \<Rightarrow> bool" where
  "reorg_lists s t node = (\<lambda>(detach, attach). (\<forall>n \<in> set detach \<union> set attach. indexed s n)
    \<and> (attach \<noteq> [] \<longrightarrow> last attach = node) \<and> (attach = [] \<longrightarrow> detach = [] \<or> workSum (nodes s ! node) \<le> workSum (nodes s ! t)))"

lemma wp_getReorganizeNodes:
  assumes inv: "chain_inv L k s" and t: "tip_ok s t" and n: "indexed s node"
  shows "wp (getReorganizeNodes node) (\<lambda>r s'. quiet L s s' \<and> reorg_lists s t node r) (\<lambda>_ s'. quiet L s s') s"
proof -
  let ?mem = "nodes s"
  note wf = chain_invD(1)[OF inv]
  have q: "quiet L s s" using quiet_rel(1) by (rule reflpD)
  have len: "node < length ?mem" "t < length ?mem" using indexed_less[OF inv] n t by (auto simp: tip_ok_def)
  have best: "bestChain s = view_of ?mem t" "indexed s t" using t by (simp_all add: tip_ok_def)
  have closed: "\<forall>n p. indexed s n \<longrightarrow> parent (?mem ! n) = Some p \<longrightarrow> indexed s p" using indexed_parent[OF inv] by blast
  have nil: "reorg_lists s t node ([], [])" by (simp add: reorg_lists_def)
  have lists: "reorg_lists s t node (detach, rev branch)"
    if "findFork ?mem (bestChain s) (Some node) = Some fork" "walk_back ?mem fork (Some node) = Some branch"
      "walk_back ?mem fork (tip (bestChain s)) = Some detach" for fork branch detach
  proof -
    have "walked (indexed s) ?mem fork (Some node) branch" "walked (indexed s) ?mem fork (Some t) detach"
      using walk_back_nodes that(2,3) tip_unique[OF inv t] by metis+
    then have w: "\<forall>n \<in> set branch. indexed s n" "branch = [] \<longleftrightarrow> Some node = fork" "branch \<noteq> [] \<longrightarrow> hd branch = node" "\<forall>n \<in> set detach. indexed s n"
      using closed n best(2) by (auto simp: walked_def)
    have "workSum (?mem ! node) \<le> workSum (?mem ! t)" if "Some node = fork"
    proof -
      have "fork_point ?mem t node fork" using findFork_spec[OF wf len(2,1)] \<open>findFork ?mem (bestChain s) (Some node) = Some fork\<close> best by auto
      then have "parent_at ?mem t (bn_height (?mem ! node)) = Some node" using that by (auto simp: fork_point_def)
      then show ?thesis using branch_work[OF inv len(2)] by blast
    qed
    then show ?thesis using w by (auto simp: reorg_lists_def last_rev)
  qed
  show ?thesis
    unfolding getReorganizeNodes_def wp_bindC
    using q nil lists
    by (auto simp: wp_rules Let_def split: option.splits intro!: wp_quiet[OF quiet_flags(1), where start = s]
        wp_quiet[OF keeps_foldC[OF quiet_rel quiet_flags(1)], where start = s])
qed

lemma wp_detach_all:
  assumes inv: "chain_inv L k s" and n: "\<forall>(n, _) \<in> set xs. indexed s n"
  shows "wp (foldC (detach_step env) xs view) (\<lambda>_ s'. moved L k s s') (\<lambda>_ s'. moved L k s s') s"
proof (rule wp_foldC)
  fix x view s1 assume x: "x \<in> set xs" and m: "moved L k s s1"
  obtain n block stxos where x': "x = (n, block, stxos)" by (cases x)
  have inv1: "chain_inv L k s1" and n1: "indexed s1 n"
    using m n x x' indexed_later[OF inv] by (auto simp: moved_def)
  obtain t where "tip_ok s1 t" using inv1 by (auto simp: chain_inv_def)

  show "wp (detach_step env x view) (\<lambda>_. moved L k s) (\<lambda>_. moved L k s) s1"
    unfolding detach_step_def x' prod.case wp_bindC
  proof (rule wp_keeps[OF core_database(3)])
    fix v s2 assume c: "core_same s1 s2"
    note cb = core_back[OF inv1 c]
    have m2: "moved L k s s2" using moved_trans[OF m] moved_quiet[OF inv1 quiet_core[OF c]] .
    then show "moved L k s s2" .
    have "wp (disconnectBlock env n block v) (\<lambda>_. moved L k s) (\<lambda>_. moved L k s) s2" for v
      by (rule wp_mono[OF wp_disconnectBlock[OF cb(1) cb(3)[OF \<open>tip_ok s1 t\<close>] cb(6)[OF n1]]]) (auto intro: moved_trans[OF m2])
    then show "wp (readC (\<lambda>s. utxoBucket (cdb s))) (\<lambda>db. wp (liftE (disconnectTransactions (e_keys env) (e_wire env) (e_bucket env) db block stxos v))
        (\<lambda>x. wp (disconnectBlock env n block x) (\<lambda>_. moved L k s) (\<lambda>_. moved L k s)) (\<lambda>_. moved L k s)) (\<lambda>_. moved L k s) s2"
      using m2 by (auto simp: wp_rules split: sum.splits)
  qed
qed (simp add: inv moved_def)

lemma wp_connect_step:
  assumes inv: "chain_inv L k s" and t: "tip_ok s t" and n: "indexed s n"
  shows "wp (attach_step env (n, block) u) (\<lambda>_ s'. moved L k s s' \<and> tip_ok s' n) (\<lambda>_ s'. moved L k s s') s"
proof -
  have core: "moved L k s s'" if "core_same s s'" for s' using moved_quiet[OF inv quiet_core[OF that]] .
  have "wp (connectBlock env n block stxos) (\<lambda>_ s'. moved L k s s' \<and> tip_ok s' n) (\<lambda>_. moved L k s) s1" if c: "core_same s s1" for s1 stxos
    by (rule wp_mono[OF wp_connectBlock[OF core_back(1,3)[OF inv c] core_back(6)[OF inv c n], OF t]]) (auto intro: moved_trans[OF core[OF c]])
  then show ?thesis
    unfolding attach_step_def prod.case wp_bindC
    by (auto intro!: wp_core[OF core_database(12), where start = s] wp_core[OF core_database(4), where start = s] core)
qed

lemma wp_attach_all:
  assumes "chain_inv L k s" "tip_ok s t" "\<forall>n \<in> set ns. indexed s n" "length bs = length ns"
  shows "wp (foldC (attach_step env) (zip ns bs) ()) (\<lambda>_ s'. moved L k s s' \<and> tip_ok s' (last (t # ns))) (\<lambda>_ s'. moved L k s s') s"
  using assms
proof (induction ns arbitrary: bs s t)
  case Nil
  then show ?case by (simp add: wp_rules moved_def)
next
  case (Cons n ns)
  then obtain b bs' where bs: "bs = b # bs'" "length bs' = length ns" by (cases bs) auto
  have "wp (attach_step env (n, b) ()) (\<lambda>_ s'. moved L k s s' \<and> tip_ok s' n) (\<lambda>_ s'. moved L k s s') s"
    using wp_connect_step Cons.prems(1-3) by auto
  then have "wp (attach_step env (n, b) ())
      (\<lambda>u. wp (foldC (attach_step env) (zip ns bs') u) (\<lambda>_ s'. moved L k s s' \<and> tip_ok s' (last (t # n # ns))) (\<lambda>_ s'. moved L k s s'))
      (\<lambda>_ s'. moved L k s s') s"
  proof (rule wp_mono)
    fix u :: unit and s1 assume m: "moved L k s s1 \<and> tip_ok s1 n"
    then have "\<forall>n \<in> set ns. indexed s1 n" using Cons.prems(3) indexed_later[OF Cons.prems(1), of s1] by (auto simp: moved_def)
    then have "wp (foldC (attach_step env) (zip ns bs') ()) (\<lambda>_ s'. moved L k s1 s' \<and> tip_ok s' (last (n # ns))) (\<lambda>_ s'. moved L k s1 s') s1"
      using Cons.IH[of s1 n bs'] m bs(2) by (simp add: moved_def)
    then have "wp (foldC (attach_step env) (zip ns bs') ()) (\<lambda>_ s'. moved L k s s' \<and> tip_ok s' (last (t # n # ns))) (\<lambda>_ s'. moved L k s s') s1"
      by (rule wp_mono) (use m moved_trans in auto)
    then show "wp (foldC (attach_step env) (zip ns bs') u) (\<lambda>_ s'. moved L k s s' \<and> tip_ok s' (last (t # n # ns))) (\<lambda>_ s'. moved L k s s') s1"
      by simp
  qed simp
  then show ?case by (simp add: bs wp_bindC)
qed

lemma wp_both:
  assumes "wp m Q E s" "wp m Q' E' s"
  shows "wp m (\<lambda>x s'. Q x s' \<and> Q' x s') (\<lambda>e s'. E e s' \<and> E' e s') s"
  using assms by (auto simp: wp_def split: option.splits sum.splits)

lemma wp_verify_length:
  "wp (verifyReorganizationValidity env detach attach) (\<lambda>r _. length (fst (snd r)) = length attach) (\<lambda>_ _. True) s"
proof -
  have "wp (attach_check env attach view []) (\<lambda>r _. length r = length attach) (\<lambda>_ _. True) s" for view s
    using attach_check_length[of env attach view "[]" s] by simp
  then show ?thesis
    unfolding verifyReorganizationValidity_def detach_check_def
    by (auto simp: wp_rules wp_if split: option.splits prod.splits intro!: wp_keeps[OF keeps_foldC[OF quiet_rel[of "e_wire env"]]] quiet_intros)
qed

lemma wp_reorganizeChain:
  assumes inv: "chain_inv L k s" and t: "tip_ok s t" and idx: "\<forall>n \<in> set detach \<union> set attach. indexed s n"
  shows "wp (reorganizeChain env detach attach)
    (\<lambda>_ s'. moved L k s s' \<and> (attach \<noteq> [] \<longrightarrow> tip_ok s' (last attach)) \<and> (detach = [] \<and> attach = [] \<longrightarrow> tip_ok s' t))
    (\<lambda>_ s'. moved L k s s') s" (is "wp _ ?Q ?E s")
  unfolding reorganizeChain_def wp_bindC
proof (rule wp_mono[OF wp_both[OF wp_keeps[OF quiet_verify, of L s "\<lambda>_. quiet L s" "\<lambda>_. quiet L s"] wp_verify_length]])
  fix r :: "Block list \<times> Block list \<times> SpentTxOut list list" and s1 assume r: "quiet L s s1 \<and> length (fst (snd r)) = length attach"
  obtain db ab sp where r': "r = (db, ab, sp)" by (cases r)
  have m1: "moved L k s s1" and t1: "tip_ok s1 t" using r inv t moved_quiet[OF inv] by (auto simp: quiet_def)
  then have inv1: "chain_inv L k s1" by (simp add: moved_def)
  have idx1: "\<forall>n \<in> set detach \<union> set attach. indexed s1 n" using idx indexed_later[OF inv] m1 by (auto simp: moved_def)
  let ?view = "SetBestHash (bn_hash (nodes s1 ! t)) NewUtxoViewpoint"
  have attach: "wp (foldC (attach_step env) (zip attach ab) ()) (\<lambda>_ s'. moved L k s s' \<and> tip_ok s' (last (t2 # attach))) ?E s2"
    if m2: "moved L k s1 s2" and t2: "tip_ok s2 t2" for s2 t2
  proof (rule wp_mono[OF wp_attach_all[of L k s2 t2 attach ab env]])
    show "chain_inv L k s2" "tip_ok s2 t2" "\<forall>n \<in> set attach. indexed s2 n" "length ab = length attach"
      using m2 t2 idx1 indexed_later[OF inv1] r r' by (auto simp: moved_def)
  qed (use moved_trans[OF moved_trans[OF m1 m2]] in auto)
  have "wp (foldC (detach_step env) (zip detach (zip db sp)) ?view)
      (\<lambda>_. wp (foldC (attach_step env) (zip attach ab) ()) ?Q ?E) ?E s1"
  proof (cases "detach = []")
    case True
    have "wp (foldC (attach_step env) (zip attach ab) ()) ?Q ?E s1"
      by (rule wp_mono[OF attach[of s1 t]]) (use inv1 t1 in \<open>auto simp: moved_def\<close>)
    then show ?thesis using True by (simp add: wp_rules)
  next
    case False
    have "\<forall>(n, _) \<in> set (zip detach (zip db sp)). indexed s1 n" using idx1 by (auto dest: set_zip_leftD)
    from wp_detach_all[OF inv1 this] show ?thesis
    proof (rule wp_mono)
      fix v s2 assume m2: "moved L k s1 s2"
      then obtain t2 where "tip_ok s2 t2" by (auto simp: moved_def chain_inv_def)
      from attach[OF m2 this] show "wp (foldC (attach_step env) (zip attach ab) ()) ?Q ?E s2"
        by (rule wp_mono) (use False in auto)
    qed (use moved_trans[OF m1] in auto)
  qed
  then show "wp (case r of (db, ab, sp) \<Rightarrow> bindC best_tip (\<lambda>t. bindC (readC (\<lambda>s. bn_hash (nodes s ! t))) (\<lambda>tipHash.
      bindC (foldC (detach_step env) (zip detach (zip db sp)) (SetBestHash tipHash NewUtxoViewpoint)) (\<lambda>_.
        foldC (attach_step env) (zip attach ab) ())))) ?Q ?E s1"
    by (simp add: r' wp_bindC wp_best_tip[OF inv1 t1] wp_simple)
qed (use moved_quiet[OF inv] in auto)

section \<open>Choosing the best chain\<close>

text \<open>
  What a step of chain selection guarantees: the tip is the old one or the node offered, and has no less work.
\<close>

definition selected :: "wire_lib \<Rightarrow> nat \<Rightarrow> ('b, 'bl) BlockChain \<Rightarrow> nid \<Rightarrow> nid \<Rightarrow> ('b, 'bl) BlockChain \<Rightarrow> bool" where
  "selected L k s t node s' \<longleftrightarrow> moved L k s s' \<and> (\<exists>t'. tip_ok s' t' \<and> (t' = t \<or> t' = node) \<and> workSum (nodes s ! t) \<le> workSum (nodes s ! t'))"

lemma selected_quiet: "selected L k s t node s1 \<Longrightarrow> quiet L s1 s' \<Longrightarrow> selected L k s t node s'"
  by (auto simp: selected_def moved_def quiet_def intro: later_trans)

lemma selected_moved: "selected L k s t node s' \<Longrightarrow> moved L k s s'"
  by (simp add: selected_def)

lemma wp_moved:
  assumes "keeps (quiet L) m" "moved L k s s1" "\<And>x s'. moved L k s s' \<Longrightarrow> Q x s'" "\<And>e s'. moved L k s s' \<Longrightarrow> E e s'"
  shows "wp m Q E s1"
proof -
  have "moved L k s s'" if "quiet L s1 s'" for s'
    using moved_trans[OF assms(2) moved_quiet[OF _ that]] assms(2) by (simp add: moved_def)
  then show ?thesis using assms(3,4) by (intro wp_keeps[OF assms(1)]) blast+
qed

lemma wp_selected:
  assumes "keeps (quiet L) m" "selected L k s t node s1" "\<And>x s'. selected L k s t node s' \<Longrightarrow> Q x s'" "\<And>e s'. selected L k s t node s' \<Longrightarrow> E e s'"
  shows "wp m Q E s1"
  using assms selected_quiet by (intro wp_keeps[OF assms(1)]) blast+

lemma wp_extend_best:
  assumes inv: "chain_inv L k s" and t: "tip_ok s t" and n: "indexed s node" "parent (nodes s ! node) = Some t"
  shows "wp (extend_best env node block fastAdd) (\<lambda>_ s'. selected L k s t node s') (\<lambda>_ s'. moved L k s s') s"
proof -
  have qm: "moved L k s s'" if "quiet L s s'" for s' using moved_quiet[OF inv that] .
  have connect: "wp (connectBlock env node block stxos) (\<lambda>_ s'. selected L k s t node s') (\<lambda>_ s'. moved L k s s') s1"
    if q: "quiet L s s1" for s1 stxos
  proof -
    have s1: "chain_inv L k s1" "tip_ok s1 t" "indexed s1 node" "moved L k s s1"
      using q inv t qm[OF q] indexed_later[OF inv _ n(1)] by (auto simp: quiet_def)
    have "workSum (nodes s ! t) \<le> workSum (nodes s ! node)"
      using chain_invD(2)[OF inv] n(2) indexed_less[OF inv n(1)] by (simp add: work_ok_def)
    then show ?thesis
      by (intro wp_mono[OF wp_connectBlock[OF s1(1-3)]]) (auto simp: selected_def intro: moved_trans[OF s1(4)])
  qed
  have pre: "keeps (quiet L) (whenC b (bindC (tryC (checkConnectBlock env node block view None)) (\<lambda>r.
      case r of
        Inr _ \<Rightarrow> seqC (set_flags node statusValid) (flush_index_logged env)
      | Inl e \<Rightarrow> if is_rule_error e
                then seqC (set_flags node statusValidateFailed) (seqC (flush_index_logged env) (failC e))
                else failC e)))" for b view
    by (auto intro!: quiet_intros split: sum.split)
  have post: "wp (case r of
        Inl e \<Rightarrow> if e = Panic then failC Panic
               else seqC (whenC (is_rule_error e) (set_flags node statusValidateFailed)) (seqC (flush_index_logged env) (failC e))
      | Inr _ \<Rightarrow>
          bindC (readC (\<lambda>s. KnownValid (NodeStatus (nodes s) node))) (\<lambda>known.
          seqC (whenC (fastAdd \<or> \<not> known) (seqC (set_flags node statusValid) (flush_index_logged env))) (retC True)))
      (\<lambda>_ s'. selected L k s t node s') (\<lambda>_ s'. moved L k s s') s2"
    if "case r of Inl e \<Rightarrow> moved L k s s2 | Inr u \<Rightarrow> selected L k s t node s2" for r fastAdd s2
  proof (cases r)
    case (Inl e)
    then show ?thesis using that by (auto simp: wp_rules intro!: wp_moved[where s = s] quiet_intros)
  next
    case (Inr u)
    then show ?thesis using that by (auto simp: wp_rules intro!: wp_selected[where s = s and t = t and node = node] quiet_intros selected_moved)
  qed
  have "wp (tryC (connectBlock env node block stxos)) (\<lambda>r. wp (case r of
        Inl e \<Rightarrow> if e = Panic then failC Panic
               else seqC (whenC (is_rule_error e) (set_flags node statusValidateFailed)) (seqC (flush_index_logged env) (failC e))
      | Inr _ \<Rightarrow>
          bindC (readC (\<lambda>s. KnownValid (NodeStatus (nodes s) node))) (\<lambda>known.
          seqC (whenC (fastAdd \<or> \<not> known) (seqC (set_flags node statusValid) (flush_index_logged env))) (retC True)))
      (\<lambda>_ s'. selected L k s t node s') (\<lambda>_ s'. moved L k s s')) (\<lambda>_ s'. moved L k s s') s1" if "quiet L s s1" for s1 stxos fastAdd
    unfolding wp_tryC by (rule wp_mono[OF connect[OF that]]) (rule post; simp)+
  then show ?thesis
    unfolding extend_best_def wp_bindC wp_seqC wp_simple
    by (intro wp_quiet[OF pre, where start = s] wp_quiet[OF core_database(12)[THEN core_quiet], where start = s]
        wp_quiet[OF core_database(4)[THEN core_quiet], where start = s] qm) (auto intro: reflpD[OF quiet_rel(1)])
qed

lemma wp_connectBestChain:
  assumes inv: "chain_inv L k s" and t: "tip_ok s t" and n: "indexed s node" "parent (nodes s ! node) = Some p"
    and p: "bn_hash (nodes s ! p) = hPrevBlock (Header block)"
  shows "wp (connectBestChain env node block flags) (\<lambda>r s'. selected L k s t node s') (\<lambda>_ s'. moved L k s s') s"
proof -
  have refl: "quiet L s s" using quiet_rel(1) by (rule reflpD)
  have stay: "selected L k s t node s" using inv t by (auto simp: selected_def moved_def)
  have best: "bestChain s = view_of (nodes s) t" "indexed s t" using t by (simp_all add: tip_ok_def)
  have extend: "wp (extend_best env node block fastAdd) (\<lambda>_ s'. selected L k s t node s') (\<lambda>_ s'. moved L k s s') s"
    if "hPrevBlock (Header block) = bn_hash (nodes s ! t)" for fastAdd
  proof -
    have "p = t" using that p index_ok_inj[OF chain_invD(3)[OF inv]] indexed_parent[OF inv n] best(2) by (metis indexed_def)
    then show ?thesis using wp_extend_best[OF inv t n(1)] n(2) by simp
  qed
  have reorg: "wp (reorganizeChain env d a) (\<lambda>_ s'. selected L k s t node s') (\<lambda>_ s'. moved L k s s') s1"
    if q: "quiet L s s1" and l: "reorg_lists s t node (d, a)" and w: "workSum (nodes s ! t) < workSum (nodes s ! node)" for s1 d a
  proof -
    have s1: "chain_inv L k s1" "tip_ok s1 t" "moved L k s s1" using q inv t moved_quiet[OF inv q] by (auto simp: quiet_def)
    have "\<forall>n \<in> set d \<union> set a. indexed s1 n" using l indexed_later[OF inv] q by (auto simp: reorg_lists_def quiet_def)
    from wp_reorganizeChain[OF s1(1,2) this] show ?thesis
    proof (rule wp_mono)
      fix u s' assume post: "moved L k s1 s' \<and> (a \<noteq> [] \<longrightarrow> tip_ok s' (last a)) \<and> (d = [] \<and> a = [] \<longrightarrow> tip_ok s' t)"
      have "d = []" if "a = []" using l w that by (simp add: reorg_lists_def)
      then have "tip_ok s' node \<or> tip_ok s' t" using post l by (auto simp: reorg_lists_def)
      then show "selected L k s t node s'" using post w moved_trans[OF s1(3)] by (auto simp: selected_def)
    qed (use moved_trans[OF s1(3)] in auto)
  qed
  have tail: "wp (tryC (reorganizeChain env d a)) (\<lambda>r. wp (case r of
           Inl e \<Rightarrow> if e = Panic then failC Panic else seqC (flush_index_logged env) (failC e)
         | Inr _ \<Rightarrow> seqC (flush_index_logged env) (retC True)) (\<lambda>r s'. selected L k s t node s') (\<lambda>_ s'. moved L k s s'))
       (\<lambda>_ s'. moved L k s s') s1"
    if "quiet L s s1" "reorg_lists s t node (d, a)" "workSum (nodes s ! t) < workSum (nodes s ! node)" for s1 d a
    unfolding wp_tryC
  proof (rule wp_mono[OF reorg[OF that]])
    fix u :: unit and s' assume "selected L k s t node s'"
    then show "wp (case Inr u of
           Inl e \<Rightarrow> if e = Panic then failC Panic else seqC (flush_index_logged env) (failC e)
         | Inr _ \<Rightarrow> seqC (flush_index_logged env) (retC True)) (\<lambda>r s'. selected L k s t node s') (\<lambda>_ s'. moved L k s s') s'"
      by (auto simp: wp_rules intro!: wp_selected[where s = s and t = t and node = node] quiet_intros selected_moved)
  next
    fix e s' assume "moved L k s s'"
    then show "wp (case Inl e of
           Inl e \<Rightarrow> if e = Panic then failC Panic else seqC (flush_index_logged env) (failC e)
         | Inr _ \<Rightarrow> seqC (flush_index_logged env) (retC True)) (\<lambda>r s'. selected L k s t node s') (\<lambda>_ s'. moved L k s s') s'"
      by (auto simp: wp_rules intro!: wp_moved[where s = s] quiet_intros)
  qed
  consider "hPrevBlock (Header block) = bn_hash (nodes s ! t)"
    | "hPrevBlock (Header block) \<noteq> bn_hash (nodes s ! t)" "workSum (nodes s ! node) \<le> workSum (nodes s ! t)"
    | "hPrevBlock (Header block) \<noteq> bn_hash (nodes s ! t)" "workSum (nodes s ! t) < workSum (nodes s ! node)" by linarith
  then show ?thesis
  proof cases
    case 1
    then show ?thesis unfolding connectBestChain_def wp_bindC wp_best_tip[OF inv t] wp_simple using extend by simp
  next
    case 2
    then show ?thesis
      unfolding connectBestChain_def wp_bindC wp_best_tip[OF inv t] wp_simple
      using stay moved_quiet[OF inv refl] by (simp add: wp_rules split: option.splits)
  next
    case 3
    have "wp (getReorganizeNodes node) (\<lambda>(d, a). wp (tryC (reorganizeChain env d a)) (\<lambda>r. wp (case r of
           Inl e \<Rightarrow> if e = Panic then failC Panic else seqC (flush_index_logged env) (failC e)
         | Inr _ \<Rightarrow> seqC (flush_index_logged env) (retC True)) (\<lambda>r s'. selected L k s t node s') (\<lambda>_ s'. moved L k s s'))
       (\<lambda>_ s'. moved L k s s')) (\<lambda>_ s'. moved L k s s') s"
      by (rule wp_mono[OF wp_getReorganizeNodes[OF inv t n(1)]]) (use tail 3(2) moved_quiet[OF inv] in auto)
    then show ?thesis
      unfolding connectBestChain_def wp_bindC wp_best_tip[OF inv t] wp_simple
      using 3 by (simp add: case_prod_unfold wp_bindC)
  qed
qed

end
