(* ===== verification/Chain_Steps.thy ===== *)
theory Chain_Steps
  imports Chain_Invariant
begin

text \<open>
  The entry points of the chain keep its invariant: accepting blocks and headers, the orphans that a new block
  releases, and every sequence of these.
\<close>

section \<open>New nodes\<close>

lemma index_ok_grows:
  assumes "index_ok mem bi" "wf_heap mem" "grows mem mem'"
  shows "index_ok mem' bi"
  unfolding index_ok_def
proof (intro conjI ballI)
  show "distinct (map fst (index bi))" using assms(1) by (simp add: index_ok_def)
  fix x assume "x \<in> set (index bi)"
  moreover obtain h n where x: "x = (h, n)" by (cases x)
  ultimately have e: "(h, n) \<in> set (index bi)" by simp
  note entry = index_ok_entry[OF assms(1) e]
  have "bn_hash (mem' ! p) = bn_hash (mem ! p)" if "parent (mem ! n) = Some p" for p
    using wf_parent(2)[OF assms(2) entry(1) that] grows_fields(4)[OF assms(3)] by simp
  then show "case x of (h, n) \<Rightarrow> n < length mem' \<and> bn_hash (mem' ! n) = h
      \<and> (\<forall>p. parent (mem' ! n) = Some p \<longrightarrow> (bn_hash (mem' ! p), p) \<in> set (index bi))"
    using entry grows_fields[OF assms(3) entry(1)] x by auto
qed

lemma lookup_append:
  assumes "LookupNode bi (bn_hash (mem ! n)) = None"
  shows "index (AddNode mem bi n) = index bi @ [(bn_hash (mem ! n), n)]"
  using assms update_new[of "bn_hash (mem ! n)" "index bi"]
  by (simp add: AddNode_def addNode_def mark_dirty_def LookupNode_def map_of_eq_None_iff)

lemma append_node_inv:
  assumes inv: "chain_inv L (Suc k) s" and p: "indexed s p" and new: "LookupNode (bindex s) (bn_hash node) = None"
    and node: "wf_heap (nodes s @ [node])" "parent node = Some p" "workSum (nodes s ! p) \<le> workSum node"
      "bn_hash node = BlockHash L hdr" "hPrevBlock hdr = bn_hash (nodes s ! p)"
  defines "s1 \<equiv> s\<lparr>nodes := nodes s @ [node], bindex := AddNode (nodes s @ [node]) (bindex s) (length (nodes s))\<rparr>"
  shows "moved L k s s1" "\<And>t. tip_ok s t \<Longrightarrow> tip_ok s1 t" "indexed s1 (length (nodes s))"
proof -
  let ?mem = "nodes s @ [node]" and ?n = "length (nodes s)"
  have g: "grows (nodes s) ?mem" by (rule grows_append)
  have idx: "index (bindex s1) = index (bindex s) @ [(bn_hash node, ?n)]"
    using lookup_append[of "bindex s" ?mem ?n] new by (simp add: s1_def)
  have l: "later s s1" using g idx by (auto simp: later_def s1_def)
  note wf = chain_invD(1)[OF inv]
  have up: "indexed s1 t" if "indexed s t" for t using indexed_later[OF inv l that] .
  have view: "view_of ?mem t = view_of (nodes s) t" if "indexed s t" for t
    using grows_view_of[OF wf g indexed_less[OF inv that]] .
  show tips: "tip_ok s1 t" if "tip_ok s t" for t
    using that up view indexed_less[OF inv] by (auto simp: tip_ok_def s1_def nth_append)
  show "indexed s1 ?n" using idx by (simp add: indexed_def s1_def)
  have len: "p < ?n" using indexed_less[OF inv p] .
  have par: "m < length (nodes s)" if "n < length (nodes s)" "parent (nodes s ! n) = Some m" for m n
    using wf_parent(2)[OF wf that] .
  have "work_ok ?mem"
    using chain_invD(2)[OF inv] node(2,3) len par by (auto simp: work_ok_def nth_append less_Suc_eq)
  moreover have "hash_ok L ?mem"
    unfolding hash_ok_def
  proof (intro allI impI)
    fix m assume m: "m < length ?mem"
    show "\<exists>hdr. BlockHash L hdr = bn_hash (?mem ! m)
        \<and> hPrevBlock hdr = (case parent (?mem ! m) of None \<Rightarrow> zeroHash | Some p \<Rightarrow> bn_hash (?mem ! p))"
    proof (cases "m < ?n")
      case True
      then show ?thesis using chain_invD(6)[OF inv] par[of m] by (auto simp: hash_ok_def nth_append split: option.splits)
    next
      case False
      then have "m = ?n" using m by simp
      then show ?thesis using node(2,4,5) len by (intro exI[of _ hdr]) (simp add: nth_append)
    qed
  qed
  moreover have "index_ok ?mem (bindex s1)"
    using index_ok_AddNode[OF index_ok_grows[OF chain_invD(3)[OF inv] wf g], of ?n] new node(2) p len
    by (simp add: s1_def nth_append indexed_def)
  moreover have "nodes s1 = ?mem" "bestHeader s1 = bestHeader s" by (simp_all add: s1_def)
  then have "\<exists>t. tip_ok s1 t" "\<exists>h. indexed s1 h \<and> bestHeader s1 = view_of (nodes s1) h"
    using inv tips up view unfolding chain_inv_def by metis+
  moreover have "pool_ok L s1" using chain_invD(5)[OF inv] by (simp add: s1_def pool_ok_def prev_orphans_def)
  ultimately have "chain_inv L k s1" using node(1) chain_invD(4)[OF inv] by (simp add: chain_inv_def s1_def)
  then show "moved L k s s1" using l by (simp add: moved_def s1_def)
qed

lemma wp_add_node:
  assumes inv: "chain_inv (e_wire env) (Suc k) s" and p: "indexed s p" and new: "LookupNode (bindex s) (BlockHash (e_wire env) header) = None"
    and prev: "hPrevBlock header = bn_hash (nodes s ! p)"
  shows "wp (add_node env header p st) (\<lambda>n s'. moved (e_wire env) k s s' \<and> (\<forall>t. tip_ok s t \<longrightarrow> tip_ok s' t)
    \<and> indexed s' n \<and> parent (nodes s' ! n) = Some p \<and> bn_hash (nodes s' ! n) = BlockHash (e_wire env) header) (\<lambda>_ _. False) s"
proof -
  let ?L = "e_wire env" and ?n = "length (nodes s)"
  note wf = chain_invD(1)[OF inv]
  have len: "p < ?n" using indexed_less[OF inv p] .
  have "bn_height (nodes s ! p) < 2 ^ 31 - 1" using height_index[OF wf len] len chain_invD(4)[OF inv] by simp
  then obtain node where node: "newBlockNode (BlockHash ?L) (nodes s) header (Some p) = Some (nodes s @ [node], ?n)"
      "wf_heap (nodes s @ [node])" "parent node = Some p" "workSum node = workSum (nodes s ! p) + CalcWork (hBits header)"
      "bn_hash node = BlockHash ?L header"
    using new_node[OF wf len] by blast
  have work: "workSum (nodes s ! p) \<le> workSum node" using node(4) CalcWork_nonneg by simp
  define s1 where "s1 = s\<lparr>nodes := nodes s @ [node], bindex := AddNode (nodes s @ [node]) (bindex s) ?n\<rparr>"
  note app = append_node_inv[OF inv p _ node(2,3) work node(5) prev, folded s1_def]
  have new': "LookupNode (bindex s) (bn_hash node) = None" using new node(5) by simp
  let ?mem = "set_status (nodes s @ [node]) ?n st"
  let ?s = "s\<lparr>nodes := ?mem, bindex := AddNode ?mem (bindex s) ?n\<rparr>"
  have inv1: "chain_inv ?L k s1" using app(1)[OF new'] by (simp add: moved_def)
  have q: "quiet ?L s1 ?s"
    by (rule quiet_status[of _ _ ?n st]) (simp_all add: s1_def AddNode_def addNode_def mark_dirty_def)
  then have m: "moved ?L k s ?s" using moved_trans[OF app(1)[OF new'] moved_quiet[OF inv1 q]] by simp
  have tips: "tip_ok ?s t" if "tip_ok s t" for t using app(2)[OF new' that] q inv1 by (auto simp: quiet_def)
  have i: "indexed ?s ?n" using indexed_later[OF inv1 _ app(3)[OF new']] q by (simp add: quiet_def)
  have node': "parent (?mem ! ?n) = Some p" "bn_hash (?mem ! ?n) = BlockHash ?L header"
    using node(3,5) by (simp_all add: nth_append)
  show ?thesis
    unfolding add_node_def using node(1) m tips i node' by (simp add: wp_rules Let_def)
qed

section \<open>Accepting a block\<close>

lemma inv_weaken: "chain_inv L (Suc k) s \<Longrightarrow> chain_inv L k s"
  by (simp add: chain_inv_def)

text \<open>The tip has not lost work.\<close>

definition no_less_work :: "('b, 'bl) BlockChain \<Rightarrow> nid \<Rightarrow> bool" where
  "no_less_work s t \<longleftrightarrow> (\<exists>t'. tip_ok s t' \<and> workSum (nodes s ! t) \<le> workSum (nodes s ! t'))"

lemma wp_offer:
  assumes "moved L k s s2" "tip_ok s2 t" "indexed s2 n" "parent (nodes s2 ! n) = Some p" "bn_hash (nodes s2 ! p) = hPrevBlock (Header block)"
  shows "wp (seqC (flush_index env) (connectBestChain env n block flags)) (\<lambda>_ s'. moved L k s s' \<and> no_less_work s' t) (\<lambda>_ s'. moved L k s s') s2"
  unfolding wp_seqC
proof (rule wp_keeps[OF core_steps(6)])
  fix s3 assume c: "core_same s2 s3"
  have inv2: "chain_inv L k s2" using assms(1) by (simp add: moved_def)
  have m3: "moved L k s s3" using moved_trans[OF assms(1) moved_quiet[OF inv2 quiet_core[OF c]]] .
  then show "moved L k s s3" .
  note s3 = core_back[OF inv2 c]
  have work: "workSum (nodes s' ! x) = workSum (nodes s3 ! x)" if "later s3 s'" "tip_ok s3 x \<or> indexed s3 x" for s' x
    using that grows_fields(5) indexed_less[OF s3(1)] by (auto simp: later_def tip_ok_def)
  have "parent (nodes s3 ! n) = Some p" "bn_hash (nodes s3 ! p) = hPrevBlock (Header block)" using assms(4,5) s3(5) by simp_all
  from wp_connectBestChain[OF s3(1) s3(3)[OF assms(2)] s3(6)[OF assms(3)] this]
  show "wp (connectBestChain env n block flags) (\<lambda>_ s'. moved L k s s' \<and> no_less_work s' t) (\<lambda>_ s'. moved L k s s') s3"
  proof (rule wp_mono)
    fix r s' assume sel: "selected L k s3 t n s'"
    then obtain t' where t': "tip_ok s' t'" "t' = t \<or> t' = n" "workSum (nodes s3 ! t) \<le> workSum (nodes s3 ! t')" "moved L k s3 s'"
      by (auto simp: selected_def)
    then have "workSum (nodes s' ! t) \<le> workSum (nodes s' ! t')"
      using work[of s'] s3(3)[OF assms(2)] s3(6)[OF assms(3)] by (auto simp: moved_def)
    then show "moved L k s s' \<and> no_less_work s' t" using t' moved_trans[OF m3] by (auto simp: no_less_work_def)
  qed (use moved_trans[OF m3] in auto)
qed

lemma wp_maybeAcceptBlock:
  assumes inv: "chain_inv (e_wire env) (Suc k) s" and t: "tip_ok s t" and lib: "hash_lib (e_wire env)"
  shows "wp (maybeAcceptBlock env block flags) (\<lambda>_ s'. moved (e_wire env) k s s' \<and> no_less_work s' t) (\<lambda>_ s'. moved (e_wire env) k s s') s"
    (is "wp _ ?Q ?E s")
proof -
  let ?L = "e_wire env" and ?prev = "hPrevBlock (Header block)" and ?h = "BlockHash (e_wire env) (Header block)"
  have refl: "moved ?L k s s" using inv_weaken[OF inv] by (simp add: moved_def)
  show ?thesis
  proof (cases "LookupNode (bindex s) ?prev")
    case None
    then show ?thesis unfolding maybeAcceptBlock_def using refl by (simp add: wp_rules)
  next
    case (Some p)
    then have p: "indexed s p" "bn_hash (nodes s ! p) = ?prev" using indexed_lookup inv by blast+
    define b where "b = block\<lparr>blk_Height := i32 (bn_height (nodes s ! p) + 1)\<rparr>"
    have hdr: "Header b = Header block" by (simp add: b_def)
    have offer: "wp (bindC (case LookupNode (bindex s1) (block_hash ?L b) of
               Some n \<Rightarrow> seqC (set_flags n statusDataStored) (retC n)
             | None \<Rightarrow> add_node env (Header b) p (statusDataStored OR statusHeaderStored))
            (\<lambda>n. seqC (flush_index env) (connectBestChain env n b flags))) ?Q ?E s1" if c: "core_same s s1" for s1
    proof -
      note s1 = core_back[OF inv c]
      have m1: "moved ?L k s s1" using s1(1,2,4) inv_weaken by (auto simp: moved_def)
      have p1: "indexed s1 p" "bn_hash (nodes s1 ! p) = ?prev" using p s1(5,6) by simp_all
      show ?thesis
      proof (cases "LookupNode (bindex s1) ?h")
        case None
        have "wp (add_node env (Header b) p (statusDataStored OR statusHeaderStored))
            (\<lambda>n. wp (seqC (flush_index env) (connectBestChain env n b flags)) ?Q ?E) ?E s1"
        proof (rule wp_mono[OF wp_add_node[OF s1(1) p1(1)]])
          fix n s2 assume s2: "moved ?L k s1 s2 \<and> (\<forall>t. tip_ok s1 t \<longrightarrow> tip_ok s2 t) \<and> indexed s2 n
            \<and> parent (nodes s2 ! n) = Some p \<and> bn_hash (nodes s2 ! n) = BlockHash ?L (Header b)"
          have "bn_hash (nodes s2 ! p) = ?prev"
            using s2 grows_fields(4)[OF _ indexed_less[OF s1(1) p1(1)], of "nodes s2"] p1(2) by (auto simp: moved_def later_def)
          then show "wp (seqC (flush_index env) (connectBestChain env n b flags)) ?Q ?E s2"
            using wp_offer[of ?L k s s2 t n p b env flags] s2 moved_trans[OF m1] s1(3)[OF t] hdr by simp
        qed (use None p1(2) hdr in auto)
        then show ?thesis using None hdr by (simp add: block_hash_def wp_bindC)
      next
        case (Some n)
        then have n: "indexed s1 n" "bn_hash (nodes s1 ! n) = ?h" using indexed_lookup s1(1) by blast+
        obtain q where q: "parent (nodes s1 ! n) = Some q" "bn_hash (nodes s1 ! q) = ?prev"
          using hash_ok_parent[OF lib chain_invD(6)[OF s1(1)] indexed_less[OF s1(1) n(1)] n(2) p1(2)[symmetric] indexed_less[OF s1(1) p1(1)]] .
        have "wp (set_flags n statusDataStored) (\<lambda>_. wp (seqC (flush_index env) (connectBestChain env n b flags)) ?Q ?E) ?E s1"
        proof (rule wp_keeps[OF quiet_flags(1)[where L = ?L]])
          fix s2 assume qt: "quiet ?L s1 s2"
          have g: "grows (nodes s1) (nodes s2)" using qt by (simp add: quiet_def later_def)
          have m2: "moved ?L k s s2" using moved_trans[OF m1 moved_quiet[OF inv_weaken[OF s1(1)] qt]] .
          then show "?E e s2" for e .
          have "indexed s1 q" using indexed_parent[OF s1(1) n(1) q(1)] .
          then have "parent (nodes s2 ! n) = Some q" "bn_hash (nodes s2 ! q) = ?prev"
            using q grows_fields[OF g indexed_less[OF s1(1)]] n(1) by simp_all
          then show "wp (seqC (flush_index env) (connectBestChain env n b flags)) ?Q ?E s2"
            using wp_offer[of ?L k s s2 t n q b env flags] m2 qt s1(1) s1(3)[OF t] indexed_later[OF s1(1) _ n(1)] hdr by (auto simp: quiet_def)
        qed
        then show ?thesis using Some hdr by (simp add: block_hash_def wp_rules)
      qed
    qed
    have core: "?E e s'" if "core_same s s'" for e s' using core_back[OF inv that] inv_weaken by (auto simp: moved_def)
    show ?thesis
      unfolding maybeAcceptBlock_def
      using Some refl offer core
      by (auto simp: wp_rules Let_def b_def[symmetric] intro!: wp_core[OF core_checkBlockContext, where start = s]
          wp_core[OF core_db_update[OF core_database(2)], where start = s])
  qed
qed

section \<open>Orphans\<close>

lemma pool_change_inv:
  assumes "chain_inv L k s" "pool_ok L s'" "nodes s' = nodes s" "bindex s' = bindex s" "bestChain s' = bestChain s"
    "bestHeader s' = bestHeader s" "stateSnapshot s' = stateSnapshot s"
  shows "chain_inv L k s'" "later s s'" "tip_ok s t \<Longrightarrow> tip_ok s' t"
  using assms by (simp_all add: chain_inv_def tip_ok_def indexed_def later_def)

lemma remove_inv:
  assumes "chain_inv L k s" "commits_to_parent L"
  shows "chain_inv L k (removeOrphanBlock L ob s)" "later s (removeOrphanBlock L ob s)" "tip_ok s t \<Longrightarrow> tip_ok (removeOrphanBlock L ob s) t"
  using pool_change_inv[OF assms(1) remove_pool_ok[OF assms(2) chain_invD(5)[OF assms(1)]], of ob]
  by (simp_all add: removeOrphanBlock_def Let_def)

lemma remove_shrinks:
  assumes "pool_ok L s" "ob \<in> set (prev_orphans s h)"
  shows "length (orphans (removeOrphanBlock L ob s)) < length (orphans s)"
proof -
  have "(ob_hash L ob, ob) \<in> set (orphans s)" using pool_okD(5)[OF assms(1)] assms(2) by blast
  then show ?thesis unfolding remove_simps AList.delete_eq by (rule length_filter_less) simp
qed

lemma inv_budget: "chain_inv L k s \<longleftrightarrow> chain_inv L 0 s \<and> length (nodes s) + k < 2 ^ 31"
  by (auto simp: chain_inv_def)

lemma later_work:
  assumes "chain_inv L k s" "later s s'" "tip_ok s t"
  shows "workSum (nodes s' ! t) = workSum (nodes s ! t)"
  using assms grows_fields(5) indexed_less by (fastforce simp: later_def tip_ok_def)

lemma no_less_trans:
  assumes "no_less_work s t" "chain_inv L k s" "later s s'" "indexed s t" "\<And>t'. tip_ok s t' \<Longrightarrow> no_less_work s' t'"
  shows "no_less_work s' t"
proof -
  obtain t' where t': "tip_ok s t'" "workSum (nodes s ! t) \<le> workSum (nodes s ! t')" using assms(1) by (auto simp: no_less_work_def)
  then obtain t'' where "tip_ok s' t''" "workSum (nodes s' ! t') \<le> workSum (nodes s' ! t'')"
    using assms(5) by (auto simp: no_less_work_def)
  moreover have "workSum (nodes s' ! x) = workSum (nodes s ! x)" if "indexed s x" for x
    using assms(3) grows_fields(5) indexed_less[OF assms(2) that] by (auto simp: later_def)
  ultimately show ?thesis using t' assms(4) by (force simp: no_less_work_def tip_ok_def)
qed

definition queue_ok :: "('pk, 'b, 'bl) chain_env \<Rightarrow> ('b, 'bl) BlockChain \<Rightarrow> (error + unit) \<times> ('b, 'bl) BlockChain \<Rightarrow> bool" where
  "queue_ok env s = (\<lambda>(r, s'). hash_lib (e_wire env) \<longrightarrow> (\<forall>k. chain_inv (e_wire env) (length (orphans s) + k) s
    \<longrightarrow> chain_inv (e_wire env) k s' \<and> later s s' \<and> (r = Inr () \<longrightarrow> (\<forall>t. tip_ok s t \<longrightarrow> no_less_work s' t))))"

lemma process_queue_inv:
  fixes env :: "('pk, 'b, 'bl) chain_env"
  shows "process_queue env flags q s = Some rs \<Longrightarrow> queue_ok env s rs"
proof (erule process_queue.raw_induct[where P = "\<lambda>env flags q s. queue_ok env s", rotated])
  fix pq and env :: "('pk, 'b, 'bl) chain_env" and flags q s rs
  assume IH: "\<And>env flags q s rs. pq env flags q s = Some rs \<Longrightarrow> queue_ok env s rs"
    and step: "(case q of [] \<Rightarrow> Some (Inr (), s)
      | h # rest \<Rightarrow> (case prev_orphans s h of [] \<Rightarrow> pq env flags rest s
          | orphan # _ \<Rightarrow> Option.bind (maybeAcceptBlock env (ob_block orphan) flags (removeOrphanBlock (e_wire env) orphan s)) (\<lambda>(r, s').
              case r of Inl e \<Rightarrow> Some (Inl e, s')
              | Inr _ \<Rightarrow> pq env flags (q @ [block_hash (e_wire env) (ob_block orphan)]) s'))) = Some rs"
  let ?L = "e_wire env"
  show "queue_ok env s rs"
  proof (cases q)
    case Nil
    have "chain_inv ?L k s" if "chain_inv ?L (length (orphans s) + k) s" for k using that by (simp add: chain_inv_def)
    then show ?thesis using step Nil by (auto simp: queue_ok_def no_less_work_def)
  next
    case (Cons h rest)
    show ?thesis
    proof (cases "prev_orphans s h")
      case Nil
      then show ?thesis using step Cons IH by simp
    next
      case (Cons orphan os)
      let ?s = "removeOrphanBlock ?L orphan s"
      obtain r s1 where acc: "maybeAcceptBlock env (ob_block orphan) flags ?s = Some (r, s1)"
        using step \<open>q = h # rest\<close> Cons by (auto simp: Option.bind_eq_Some_conv)
      show ?thesis
        unfolding queue_ok_def
      proof (clarify)
        fix r' s' k
        assume rs: "rs = (r', s')" and lib: "hash_lib ?L" and inv: "chain_inv ?L (length (orphans s) + k) s"
        note com = lib[unfolded hash_lib_def, THEN conjunct1]
        have short: "length (orphans ?s) < length (orphans s)" using remove_shrinks[OF chain_invD(5)[OF inv], of orphan h] Cons by simp
        have inv0: "chain_inv ?L (Suc (length (orphans ?s) + k)) ?s"
          using remove_inv(1)[OF inv com, of orphan] short by (auto simp: chain_inv_def)
        have accepted: "wp (maybeAcceptBlock env (ob_block orphan) flags)
            (\<lambda>_ s'. moved ?L (length (orphans ?s) + k) ?s s' \<and> no_less_work s' t) (\<lambda>_. moved ?L (length (orphans ?s) + k) ?s) ?s"
          if "tip_ok ?s t" for t using wp_maybeAcceptBlock[OF inv0 that lib] .
        obtain t0 where t0: "tip_ok ?s t0" using inv0 by (auto simp: chain_inv_def)
        have moved: "moved ?L (length (orphans ?s) + k) ?s s1"
          using accepted[OF t0] acc by (cases r) (auto simp: wp_def)
        have kept: "no_less_work s1 t" if "r = Inr b" "tip_ok ?s t" for b t
          using accepted[OF that(2)] acc that(1) by (simp add: wp_def)
        have l1: "later s s1" using later_trans[OF remove_inv(2)[OF inv com, of orphan]] moved by (auto simp: moved_def)
        have inv1: "chain_inv ?L (length (orphans s1) + k) s1" using moved by (simp add: moved_def)
        show "chain_inv ?L k s' \<and> later s s' \<and> (r' = Inr () \<longrightarrow> (\<forall>t. tip_ok s t \<longrightarrow> no_less_work s' t))"
        proof (cases r)
          case (Inl e)
          then have "rs = (Inl e, s1)" using step acc \<open>q = h # rest\<close> Cons by simp
          then show ?thesis using rs l1 inv1 by (auto simp: chain_inv_def)
        next
          case (Inr b)
          then have "pq env flags (q @ [block_hash ?L (ob_block orphan)]) s1 = Some rs" using step acc \<open>q = h # rest\<close> Cons by simp
          from IH[OF this] have q: "chain_inv ?L k s'" "later s1 s'" "r' = Inr () \<Longrightarrow> tip_ok s1 t \<Longrightarrow> no_less_work s' t" for t
            using lib inv1 rs by (auto simp: queue_ok_def)
          have "no_less_work s' t" if "r' = Inr ()" "tip_ok s t" for t
            using no_less_trans[OF kept[OF Inr remove_inv(3)[OF inv com that(2)]] inv1 q(2)] q(3)[OF that(1)]
              indexed_later[OF inv l1] that(2) by (auto simp: tip_ok_def)
          then show ?thesis using q later_trans[OF l1] by blast
        qed
      qed
    qed
  qed
qed


definition pool_only :: "('b, 'bl) BlockChain \<Rightarrow> ('b, 'bl) BlockChain \<Rightarrow> bool" where
  "pool_only s s' \<longleftrightarrow> nodes s' = nodes s \<and> bindex s' = bindex s \<and> bestChain s' = bestChain s
    \<and> bestHeader s' = bestHeader s \<and> stateSnapshot s' = stateSnapshot s"

lemma pool_only_steps [simp]:
  "pool_only s s" "pool_only s (s'\<lparr>oldestOrphan := x\<rparr>) = pool_only s s'"
  "pool_only s (insert_orphan L ob s') = pool_only s s'" "pool_only s (removeOrphanBlock L ob s') = pool_only s s'"
  "pool_only s (visit_orphan L now ob s') = pool_only s s'"
  by (auto simp: pool_only_def insert_orphan_def removeOrphanBlock_def visit_orphan_def Let_def split: option.splits)

lemma pool_only_fold [simp]: "pool_only s (fold (visit_orphan L now) obs s') = pool_only s s'"
  by (induction obs arbitrary: s') simp_all

lemma wp_addOrphanBlock:
  assumes inv: "chain_inv (e_wire env) k s" and lib: "hash_lib (e_wire env)" and new: "\<not> IsKnownOrphan s (block_hash (e_wire env) block)"
  shows "wp (addOrphanBlock env block) (\<lambda>_ s'. chain_inv (e_wire env) k s' \<and> later s s' \<and> (\<forall>t. tip_ok s t \<longrightarrow> tip_ok s' t)) (\<lambda>_ _. False) s"
proof -
  let ?L = "e_wire env"
  have com: "commits_to_parent ?L" using lib by (simp add: hash_lib_def)
  have "block_hash ?L block \<notin> fst ` set (orphans s)" using new by (simp add: IsKnownOrphan_def map_of_eq_None_iff)
  note run = addOrphanBlock_run[OF com chain_invD(5)[OF inv] this]
  let ?s = "insert_orphan ?L \<lparr>ob_block = block, ob_expiration = Now env + 3600000000000\<rparr>"
  obtain s' where s': "addOrphanBlock env block s = Some (Inr (), s')" "pool_ok ?L s'" "pool_only s s'"
    using run(1) insert_pool_ok(2)[OF run(2,3)] by (auto split: if_splits)
  then show ?thesis using pool_change_inv[OF inv s'(2)] by (simp add: wp_def pool_only_def)
qed

section \<open>Processing a block\<close>

lemma wp_processOrphans:
  assumes "chain_inv (e_wire env) (length (orphans s) + k) s" "hash_lib (e_wire env)"
  shows "wp (processOrphans env h flags) (\<lambda>_ s'. chain_inv (e_wire env) k s' \<and> later s s' \<and> (\<forall>t. tip_ok s t \<longrightarrow> no_less_work s' t))
    (\<lambda>_ s'. chain_inv (e_wire env) k s' \<and> later s s') s"
proof (cases "processOrphans env h flags s")
  case (Some rs)
  then have "queue_ok env s rs" using process_queue_inv by (simp add: processOrphans_def)
  then show ?thesis using assms Some by (cases rs; cases "fst rs") (auto simp: wp_def queue_ok_def)
qed (simp add: wp_def)

lemma wp_accept_and_release:
  assumes inv: "chain_inv (e_wire env) (Suc (length (orphans s) + k)) s" and lib: "hash_lib (e_wire env)" and t: "tip_ok s t"
  shows "wp (bindC (maybeAcceptBlock env block flags) (\<lambda>isMain. seqC (processOrphans env h flags) (retC (isMain, False))))
    (\<lambda>_ s'. chain_inv (e_wire env) k s' \<and> later s s' \<and> no_less_work s' t)
    (\<lambda>_ s'. chain_inv (e_wire env) k s' \<and> later s s') s"
  unfolding wp_bindC wp_seqC wp_simple
proof (rule wp_mono[OF wp_maybeAcceptBlock[OF inv t lib]])
  let ?L = "e_wire env"
  fix r s1 assume s1: "moved ?L (length (orphans s) + k) s s1 \<and> no_less_work s1 t"
  then have inv1: "chain_inv ?L (length (orphans s1) + k) s1" and l1: "later s s1" by (simp_all add: moved_def)
  have "indexed s1 t" using indexed_later[OF inv l1] t by (simp add: tip_ok_def)
  then have "no_less_work s' t" if "later s1 s'" "\<forall>t. tip_ok s1 t \<longrightarrow> no_less_work s' t" for s'
    using no_less_trans[of s1 t ?L _ s'] s1 inv1 that by blast
  then show "wp (processOrphans env h flags) (\<lambda>_ s'. chain_inv ?L k s' \<and> later s s' \<and> no_less_work s' t)
      (\<lambda>_ s'. chain_inv ?L k s' \<and> later s s') s1"
    using later_trans[OF l1] by (intro wp_mono[OF wp_processOrphans[OF inv1 lib]]) auto
next
  fix e s1 assume "moved (e_wire env) (length (orphans s) + k) s s1"
  then show "chain_inv (e_wire env) k s1 \<and> later s s1" by (auto simp: moved_def chain_inv_def)
qed

lemma wp_ProcessBlock:
  assumes inv: "chain_inv (e_wire env) (Suc (length (orphans s) + k)) s" and lib: "hash_lib (e_wire env)" and t: "tip_ok s t"
  shows "wp (ProcessBlock env block flags) (\<lambda>_ s'. chain_inv (e_wire env) k s' \<and> later s s' \<and> no_less_work s' t)
    (\<lambda>_ s'. chain_inv (e_wire env) k s' \<and> later s s') s" (is "wp _ ?Q ?E s")
proof -
  let ?L = "e_wire env" and ?h = "block_hash (e_wire env) block"
  have core: "?E e s'" if "core_same s s'" for e s'
    using core_back[OF inv that] by (auto simp: chain_inv_def)
  have insert: "wp (seqC (addOrphanBlock env block) (retC (False, True))) ?Q ?E s1"
    if c: "core_same s s1" and new: "core_same s s0" "\<not> IsKnownOrphan s0 ?h" for s0 s1
  proof -
    note s1 = core_back[OF inv c]
    have "\<not> IsKnownOrphan s1 ?h" using new s1(4) core_back(4)[OF inv new(1)] by (simp add: IsKnownOrphan_def)
    from wp_addOrphanBlock[OF s1(1) lib this] show ?thesis
      unfolding wp_seqC wp_simple
    proof (rule wp_mono)
      fix u s' assume post: "chain_inv ?L (Suc (length (orphans s) + k)) s' \<and> later s1 s' \<and> (\<forall>t. tip_ok s1 t \<longrightarrow> tip_ok s' t)"
      then have "chain_inv ?L k s'" "later s s'" "no_less_work s' t"
        using s1(3)[OF t] later_trans[OF s1(2)] by (auto simp: chain_inv_def no_less_work_def)
      then show "chain_inv ?L k s' \<and> later s s' \<and> no_less_work s' t" by simp
    qed simp
  qed
  have accept: "wp (bindC (maybeAcceptBlock env block flags) (\<lambda>isMain. seqC (processOrphans env ?h flags) (retC (isMain, False)))) ?Q ?E s1"
    if c: "core_same s s1" for s1
  proof -
    note s1 = core_back[OF inv c]
    have "chain_inv ?L (Suc (length (orphans s1) + k)) s1" using s1(1,4) by simp
    from wp_accept_and_release[OF this lib s1(3)[OF t]] show ?thesis
      by (rule wp_mono) (use later_trans[OF s1(2)] in auto)
  qed
  show ?thesis
    unfolding ProcessBlock_def Let_def wp_bindC wp_seqC wp_simple
    using insert accept core
    by (auto simp: wp_rules intro!: wp_core[OF core_database(13), where start = s] wp_core[OF core_findPrevious, where start = s]
        split: option.split sum.split)
qed

section \<open>Processing a header\<close>

lemma wp_set_header_tip:
  assumes inv: "chain_inv L k s" and n: "indexed s n"
  shows "wp (set_header_tip n) (\<lambda>_ s'. moved L k s s' \<and> bestHeader s' = view_of (nodes s') n \<and> (\<forall>t. tip_ok s t \<longrightarrow> tip_ok s' t)) (\<lambda>_ _. False) s"
proof -
  note wf = chain_invD(1)[OF inv]
  have len: "n < length (nodes s)" using indexed_less[OF inv n] .
  obtain t where "indexed s t" "bestHeader s = view_of (nodes s) t" using inv by (auto simp: chain_inv_def)
  then have "view_ok (nodes s) (bestHeader s)" using indexed_less[OF inv] view_ok_view_of by simp
  moreover have "bn_height (nodes s ! n) < 2 ^ 31 - 1" using height_index[OF wf len] len chain_invD(4)[OF inv] by simp
  ultimately have "setTip (nodes s) (bestHeader s) (Some n) = Some (view_of (nodes s) n)" by (rule setTip_eq[OF wf _ len])
  moreover have "moved L k s (s\<lparr>bestHeader := view_of (nodes s) n\<rparr>)"
    using inv n by (auto simp: moved_def chain_inv_def tip_ok_def indexed_def pool_ok_def prev_orphans_def later_def)
  ultimately show ?thesis by (simp add: wp_def set_header_tip_def tip_ok_def indexed_def)
qed

lemma wp_extend_headers:
  assumes inv: "chain_inv L k s" and n: "indexed s n"
  shows "wp (extend_headers header n) (\<lambda>_ s'. moved L k s s' \<and> (\<forall>t. tip_ok s t \<longrightarrow> tip_ok s' t)) (\<lambda>_ s'. s' = s) s"
  unfolding extend_headers_def
  using wp_set_header_tip[OF inv n] inv
  by (auto simp: wp_rules moved_def split: option.split intro!: wp_mono[OF wp_set_header_tip[OF inv n]])

lemma wp_maybeAcceptBlockHeader:
  assumes inv: "chain_inv (e_wire env) (Suc k) s"
  shows "wp (maybeAcceptBlockHeader env header flags skip) (\<lambda>_ s'. moved (e_wire env) k s s' \<and> (\<forall>t. tip_ok s t \<longrightarrow> tip_ok s' t))
    (\<lambda>_ s'. moved (e_wire env) k s s' \<and> (\<forall>t. tip_ok s t \<longrightarrow> tip_ok s' t)) s" (is "wp _ ?Q ?E s")
proof -
  let ?L = "e_wire env" and ?prev = "hPrevBlock header" and ?h = "BlockHash (e_wire env) header"
  have core: "?E e s'" if "core_same s s'" for e s'
    using core_back[OF inv that] inv_weaken by (auto simp: moved_def)
  have tail: "wp (seqC (flush_index env) (extend_headers header n)) ?Q ?E s1"
    if m: "moved ?L k s s1" "\<forall>t. tip_ok s t \<longrightarrow> tip_ok s1 t" and n: "indexed s1 n" for s1 n
    unfolding wp_seqC
  proof (rule wp_keeps[OF core_steps(6)])
    fix s2 assume c: "core_same s1 s2"
    have "chain_inv ?L k s1" using m(1) by (simp add: moved_def)
    note s2 = core_back[OF this c]
    have m2: "moved ?L k s s2" using m(1) s2(1,2,4) by (auto simp: moved_def intro: later_trans)
    then show "?E e s2" for e using m(2) s2(3) by simp
    show "wp (extend_headers header n) ?Q ?E s2"
      by (rule wp_mono[OF wp_extend_headers[OF s2(1) s2(6)[OF n]]]) (use m2 m(2) s2(3) moved_trans[OF m2] in auto)
  qed
  show ?thesis
  proof (cases "LookupNode (bindex s) ?prev")
    case None
    then show ?thesis unfolding maybeAcceptBlockHeader_def using core[OF core_refl] by (simp add: wp_rules)
  next
    case (Some p)
    then have p: "indexed s p" "bn_hash (nodes s ! p) = ?prev" using indexed_lookup inv by blast+
    have offer: "wp (case LookupNode (bindex s) ?h of Some n \<Rightarrow> retC n | None \<Rightarrow> add_node env header p statusHeaderStored)
        (\<lambda>n. wp (seqC (flush_index env) (extend_headers header n)) ?Q ?E) ?E s1" if c: "core_same s s1" for s1
    proof (cases "LookupNode (bindex s) ?h")
      case None
      note s1 = core_back[OF inv c]
      have "LookupNode (bindex s1) ?h = None" using c None by (simp add: core_same_def LookupNode_def)
      moreover have "moved ?L (Suc k) s s1" using s1 by (simp add: moved_def)
      ultimately show ?thesis
        using None p s1(3,5) tail moved_trans[of ?L k s s1] core[OF c]
        by (auto intro!: wp_mono[OF wp_add_node[OF s1(1) s1(6)[OF p(1)]]])
    next
      case (Some n)
      have "indexed s n" using indexed_lookup[OF Some inv] by simp
      then show ?thesis
        using Some tail[of s1 n] core[OF c] core_back(6)[OF inv c] by (auto simp: wp_rules)
    qed
    show ?thesis
      unfolding maybeAcceptBlockHeader_def wp_bindC wp_seqC wp_simple
      using Some offer core
      by (auto simp: wp_rules intro!: wp_core[OF core_set_frame[OF CheckBlockHeaderContext_frame], where start = s] split: sum.split)
  qed
qed

end
