(* ===== verification/Chain_Verdict.thy ===== *)
theory Chain_Verdict
  imports Chain_Query Chain_Steps
begin

text \<open>
  \<open>InvalidateBlock\<close> and \<open>ReconsiderBlock\<close> keep the invariant of the chain, whatever they return.
\<close>

section \<open>Tips are indexed\<close>

lemma collect_tips_subset: "set (collect_tips m xs) \<subseteq> snd ` set xs"
proof (induction m xs rule: collect_tips.induct)
  case (2 m h n xs)
  then show ?case by (simp del: fun_upd_apply) blast
qed simp

lemma orphan_maps_subset: "orphan_maps mem c idx = Some (xs, m) \<Longrightarrow> set xs \<subseteq> set idx"
  by (induction mem c idx arbitrary: xs m rule: orphan_maps.induct) (auto simp: Option.bind_eq_Some_conv split: option.splits if_splits)

lemma inactive_indexed:
  assumes "InactiveTips (nodes s) (bindex s) c = Some tips" "chain_inv L k s" "n \<in> set tips"
  shows "indexed s n"
proof -
  obtain xs m where "orphan_maps (nodes s) c (index (bindex s)) = Some (xs, m)" "tips = collect_tips m xs"
    using assms(1) by (auto simp: InactiveTips_def)
  then obtain h where "(h, n) \<in> set (index (bindex s))"
    using orphan_maps_subset collect_tips_subset[of m xs] assms(3) by force
  then show ?thesis using index_ok_entry(2)[OF chain_invD(3)[OF assms(2)]] by (auto simp: indexed_def)
qed


lemma wp_nonnil [wp_rules]: "wp (nonnil x) Q E = (\<lambda>s. case x of None \<Rightarrow> E Panic s | Some n \<Rightarrow> Q n s)"
  by (simp add: nonnil_def wp_simple fun_eq_iff split: option.split)

lemma wp_all_tips:
  assumes inv: "chain_inv L k s"
  shows "wp all_tips (\<lambda>tips s'. s' = s \<and> (\<forall>n. Some n \<in> set tips \<longrightarrow> indexed s n)) (\<lambda>_ s'. s' = s) s"
proof -
  obtain t where "tip_ok s t" using inv by (auto simp: chain_inv_def)
  then have "tip (bestChain s) = Some t" "indexed s t" using tip_unique[OF inv] by (simp_all add: tip_ok_def)
  then show ?thesis
    using inactive_indexed[OF _ inv] by (auto simp: all_tips_def wp_rules split: option.split)
qed

section \<open>Marking\<close>

lemma quiet_mark: "keeps (quiet L) (mark_descendant n)"
  unfolding mark_descendant_def by (auto intro!: quiet_intros)

lemma quiet_nonnil: "keeps (quiet L) (nonnil x)"
  by (auto simp: nonnil_def intro!: quiet_intros split: option.split)

lemma quiet_invalidate_side: "keeps (quiet L) (invalidate_side env node)"
  unfolding invalidate_side_def by (auto intro!: quiet_intros quiet_mark quiet_nonnil split: sum.split)

lemma quiet_reconsider_tip: "keeps (quiet L) (reconsider_tip node t r)"
  unfolding reconsider_tip_def by (auto intro!: quiet_intros quiet_nonnil)

section \<open>Reorganizing from any state of the invariant\<close>

lemma inv_tip: "chain_inv L k s \<Longrightarrow> \<exists>t. tip_ok s t"
  by (simp add: chain_inv_def)

lemma wp_reorganize_moved:
  assumes m: "moved L k start s" and idx: "\<forall>n \<in> set detach \<union> set attach. indexed s n"
  shows "wp (reorganizeChain env detach attach) (\<lambda>_. moved L k start) (\<lambda>_. moved L k start) s"
proof -
  have inv: "chain_inv L k s" using m by (simp add: moved_def)
  obtain t where "tip_ok s t" using inv_tip[OF inv] by blast
  from wp_reorganizeChain[OF inv this idx] show ?thesis
    by (rule wp_mono) (use moved_trans[OF m] in auto)
qed

lemma wp_get_moved:
  assumes m: "moved L k start s" and n: "indexed s node"
  shows "wp (getReorganizeNodes node) (\<lambda>(d, a) s'. moved L k start s' \<and> (\<forall>x \<in> set d \<union> set a. indexed s' x)) (\<lambda>_. moved L k start) s"
proof -
  have inv: "chain_inv L k s" using m by (simp add: moved_def)
  obtain t where "tip_ok s t" using inv_tip[OF inv] by blast
  from wp_getReorganizeNodes[OF inv this n] show ?thesis
  proof (rule wp_mono)
    fix r s' assume r: "quiet L s s' \<and> reorg_lists s t node r"
    obtain d a where r': "r = (d, a)" by (cases r)
    have "moved L k start s'" using moved_trans[OF m moved_quiet[OF inv]] r by blast
    moreover have "indexed s' x" if "x \<in> set d \<union> set a" for x
    proof -
      have "indexed s x" using r that by (simp add: reorg_lists_def r')
      then show ?thesis using indexed_later[OF inv, of s'] r by (simp add: quiet_def)
    qed
    ultimately show "(\<lambda>(d, a) s'. moved L k start s' \<and> (\<forall>x \<in> set d \<union> set a. indexed s' x)) r s'" using r' by simp
  qed (use moved_trans[OF m moved_quiet[OF inv]] in auto)
qed

lemma wp_moved_quiet:
  assumes "keeps (quiet L) m" "moved L k start s" "\<And>x s'. moved L k start s' \<Longrightarrow> later s s' \<Longrightarrow> Q x s'" "\<And>e s'. moved L k start s' \<Longrightarrow> E e s'"
  shows "wp m Q E s"
proof (rule wp_keeps[OF assms(1)])
  fix s' assume q: "quiet L s s'"
  then have "moved L k start s'" "later s s'" using moved_trans[OF assms(2) moved_quiet[OF _ q]] assms(2) by (auto simp: moved_def quiet_def)
  then show "Q x s'" "E e s'" for x e using assms(3,4) by blast+
qed

lemma wp_walk_back:
  assumes inv: "chain_inv L k s" and t: "\<And>t. f s = Some t \<Longrightarrow> indexed s t" and Q: "\<And>ns. \<forall>n \<in> set ns. indexed s n \<Longrightarrow> Q ns s"
  shows "wp (runO (\<lambda>s. walk_back (nodes s) stop (f s))) Q E s"
proof -
  have "\<forall>n \<in> set ns. indexed s n" if "walk_back (nodes s) stop (f s) = Some ns" for ns
    using walk_back_nodes[OF that, of "indexed s"] indexed_parent[OF inv] t unfolding walked_def by blast
  then show ?thesis using Q by (auto simp: wp_simple split: option.split)
qed

section \<open>Invalidation\<close>

lemma wp_detach_marked:
  assumes "moved L k start s" "\<forall>n \<in> set ns \<union> set acc. indexed s n"
  shows "wp (foldC (\<lambda>n detachNodes. bindC (mark_descendant n) (\<lambda>marked. retC (if marked then detachNodes @ [n] else detachNodes))) ns acc)
    (\<lambda>ds s'. moved L k start s' \<and> later s s' \<and> (\<forall>n \<in> set ds. indexed s' n)) (\<lambda>_. moved L k start) s"
  using assms
proof (induction ns arbitrary: acc s)
  case (Cons n ns)
  have inv: "chain_inv L k s" using Cons.prems(1) by (simp add: moved_def)
  show ?case
    unfolding foldC.simps wp_bindC wp_simple
  proof (rule wp_moved_quiet[OF quiet_mark Cons.prems(1)])
    fix marked s1 assume s1: "moved L k start s1" "later s s1"
    let ?acc = "if marked then acc @ [n] else acc"
    have "\<forall>x \<in> set ns \<union> set ?acc. indexed s1 x" using Cons.prems(2) indexed_later[OF inv s1(2)] by auto
    from Cons.IH[OF s1(1) this] show "wp (foldC (\<lambda>n detachNodes. bindC (mark_descendant n)
        (\<lambda>marked. retC (if marked then detachNodes @ [n] else detachNodes))) ns ?acc)
        (\<lambda>ds s'. moved L k start s' \<and> later s s' \<and> (\<forall>n \<in> set ds. indexed s' n)) (\<lambda>_. moved L k start) s1"
      by (rule wp_mono) (use later_trans[OF s1(2)] in auto)
  qed
qed (simp add: wp_simple)

lemma wp_most_work_tip:
  assumes inv: "chain_inv L k s"
  shows "wp most_work_tip (\<lambda>b s'. s' = s \<and> (\<forall>n. b = Some n \<longrightarrow> indexed s n)) (\<lambda>_ s'. s' = s) s"
  unfolding most_work_tip_def wp_bindC
proof (rule wp_mono[OF wp_all_tips[OF inv]])
  fix tips s1 assume tips: "s1 = s \<and> (\<forall>n. Some n \<in> set tips \<longrightarrow> indexed s n)"
  have "wp (foldC (\<lambda>t best. bindC (nonnil t) (\<lambda>t. readC (\<lambda>s. better_tip (nodes s) t best))) tips b)
      (\<lambda>b s'. s' = s \<and> (\<forall>n. b = Some n \<longrightarrow> indexed s n)) (\<lambda>_ s'. s' = s) s" if "\<forall>n. b = Some n \<longrightarrow> indexed s n" for b
    using that conjunct2[OF tips]
  proof (induction tips arbitrary: b)
    case (Cons t tips)
    have "\<forall>n. better_tip (nodes s) t0 b = Some n \<longrightarrow> indexed s n" if "t = Some t0" for t0
      using Cons.prems that by (auto simp: better_tip_def split: option.splits)
    then show ?case using Cons by (auto simp: wp_rules split: option.split)
  qed (simp add: wp_simple)
  then show "wp (foldC (\<lambda>t best. bindC (nonnil t) (\<lambda>t. readC (\<lambda>s. better_tip (nodes s) t best))) tips None)
      (\<lambda>b s'. s' = s \<and> (\<forall>n. b = Some n \<longrightarrow> indexed s n)) (\<lambda>_ s'. s' = s) s1" using tips by simp
qed

lemma wp_logged_moved:
  assumes "moved L k start s" "\<And>s'. moved L k start s' \<Longrightarrow> later s s' \<Longrightarrow> Q () s'" "\<And>e s'. moved L k start s' \<Longrightarrow> E e s'"
  shows "wp (flush_index_logged env) Q E s"
  by (rule wp_moved_quiet[OF core_quiet[OF core_database(5)] assms(1)]) (use assms(2,3) in auto)

lemma wp_reorganize_to:
  assumes m: "moved L k start s" and n: "indexed s best"
  shows "wp (reorganize_to env best) (\<lambda>_. moved L k start) (\<lambda>_. moved L k start) s"
  unfolding reorganize_to_def wp_bindC[of "getReorganizeNodes _"]
proof (rule wp_mono[OF wp_get_moved[OF m n]])
  fix r s1 assume r: "(\<lambda>(d, a) s'. moved L k start s' \<and> (\<forall>x \<in> set d \<union> set a. indexed s' x)) r s1"
  obtain d a where da: "r = (d, a)" by (cases r)
  have m1: "moved L k start s1" "\<forall>x \<in> set d \<union> set a. indexed s1 x" using r by (simp_all add: da)
  have "wp (reorganizeChain env d a) (\<lambda>x. wp (flush_index_logged env) (\<lambda>_. moved L k start) (\<lambda>_. moved L k start))
      (\<lambda>e. wp (if e = Panic then failC Panic else seqC (flush_index_logged env) (failC e)) (\<lambda>_. moved L k start) (\<lambda>_. moved L k start)) s1"
    by (rule wp_mono[OF wp_reorganize_moved[OF m1]]) (auto simp: wp_seqC wp_simple intro!: wp_logged_moved)
  then show "wp (case r of (detachNodes, attachNodes) \<Rightarrow> bindC (tryC (reorganizeChain env detachNodes attachNodes)) (\<lambda>r.
         case r of
           Inl e \<Rightarrow> if e = Panic then failC Panic else seqC (flush_index_logged env) (failC e)
         | Inr _ \<Rightarrow> flush_index_logged env)) (\<lambda>_. moved L k start) (\<lambda>_. moved L k start) s1"
    by (simp add: da wp_bindC wp_tryC)
qed simp

lemma wp_activate_best_tip:
  assumes m: "moved L k start s"
  shows "wp (activate_best_tip env) (\<lambda>_. moved L k start) (\<lambda>_. moved L k start) s"
proof -
  have "chain_inv L k s" using m by (simp add: moved_def)
  from wp_most_work_tip[OF this] show ?thesis
    unfolding activate_best_tip_def wp_bindC
    by (rule wp_mono) (use m wp_reorganize_to[OF m] in \<open>auto simp: wp_rules split: option.split\<close>)
qed

lemma wp_invalidate_best:
  assumes m: "moved L k start s" and n: "indexed s node"
  shows "wp (invalidate_best env node) (\<lambda>_. moved L k start) (\<lambda>_. moved L k start) s"
proof -
  have inv: "chain_inv L k s" using m by (simp add: moved_def)
  have t: "indexed s t" if "tip (bestChain s) = Some t" for t
    using inv_tip[OF inv] tip_unique[OF inv] that by (auto simp: tip_ok_def)
  have tail: "wp (flush_index_logged env) (\<lambda>_. wp (activate_best_tip env) (\<lambda>_. moved L k start) (\<lambda>_. moved L k start)) (\<lambda>_. moved L k start) s2"
    if "moved L k start s2" for s2 using that by (intro wp_logged_moved[OF that]) (auto intro: wp_activate_best_tip)
  have detach: "wp (reorganizeChain env (ds @ [node]) [])
      (\<lambda>_. wp (flush_index_logged env) (\<lambda>_. wp (activate_best_tip env) (\<lambda>_. moved L k start) (\<lambda>_. moved L k start)) (\<lambda>_. moved L k start))
      (\<lambda>_. moved L k start) s1"
    if "moved L k start s1" "later s s1" "\<forall>n \<in> set ds. indexed s1 n" for ds s1
    by (rule wp_mono[OF wp_reorganize_moved[OF that(1)]]) (use that indexed_later[OF inv that(2) n] tail in auto)
  have "wp (detach_marked ns) (\<lambda>ds. wp (reorganizeChain env (ds @ [node]) [])
      (\<lambda>_. wp (flush_index_logged env) (\<lambda>_. wp (activate_best_tip env) (\<lambda>_. moved L k start) (\<lambda>_. moved L k start)) (\<lambda>_. moved L k start))
      (\<lambda>_. moved L k start)) (\<lambda>_. moved L k start) s" if "\<forall>n \<in> set ns. indexed s n" for ns
    unfolding detach_marked_def
    by (rule wp_mono[OF wp_detach_marked[OF m]]) (use that detach in auto)
  then show ?thesis
    unfolding invalidate_best_def wp_bindC wp_seqC by (intro wp_walk_back[OF inv t])
qed

lemma wp_InvalidateBlock:
  assumes inv: "chain_inv L k s"
  shows "wp (InvalidateBlock env h) (\<lambda>_. moved L k s) (\<lambda>_. moved L k s) s"
proof -
  have refl: "moved L k s s" using inv by (simp add: moved_def)
  have marked: "wp (set_flags n statusValidateFailed) (\<lambda>_. wp (unset_flags n statusValid) (\<lambda>_. wp m (\<lambda>_. moved L k s) (\<lambda>_. moved L k s)) (\<lambda>_. moved L k s))
      (\<lambda>_. moved L k s) s" if "\<And>s'. moved L k s s' \<Longrightarrow> later s s' \<Longrightarrow> wp m (\<lambda>_. moved L k s) (\<lambda>_. moved L k s) s'" for n and m :: "(_, unit) comp"
    by (rule wp_moved_quiet[OF quiet_flags(1) refl], rule wp_moved_quiet[OF quiet_flags(2)]) (auto intro: that later_trans)
  show ?thesis
  proof (cases "LookupNode (bindex s) h")
    case None
    then show ?thesis unfolding InvalidateBlock_def using refl by (simp add: wp_rules)
  next
    case (Some n)
    then have n: "indexed s n" using indexed_lookup[OF _ inv] by simp
    have side: "wp (invalidate_side env n) (\<lambda>_. moved L k s) (\<lambda>_. moved L k s) s'" if "moved L k s s'" for s'
      by (rule wp_moved_quiet[OF quiet_invalidate_side that])
    have best: "wp (invalidate_best env n) (\<lambda>_. moved L k s) (\<lambda>_. moved L k s) s'" if "moved L k s s'" "later s s'" for s'
      using wp_invalidate_best[OF that(1) indexed_later[OF inv that(2) n]] .
    show ?thesis
      unfolding InvalidateBlock_def wp_bindC wp_seqC wp_simple
      using Some refl side best by (auto simp: wp_rules intro!: marked)
  qed
qed

section \<open>Reconsideration\<close>

lemma wp_reconsider_tips:
  assumes "moved L k start s" "\<forall>n. Some n \<in> set tips \<longrightarrow> indexed s n" "indexed s node" "\<forall>n. r = Some n \<longrightarrow> indexed s n"
  shows "wp (foldC (reconsider_tip node) tips r) (\<lambda>r s'. moved L k start s' \<and> (\<forall>n. r = Some n \<longrightarrow> indexed s' n)) (\<lambda>_. moved L k start) s"
  using assms
proof (induction tips arbitrary: r s)
  case (Cons t tips)
  have inv: "chain_inv L k s" using Cons.prems(1) by (simp add: moved_def)
  have "wp (reconsider_tip node t r) (\<lambda>r s'. \<forall>n. r = Some n \<longrightarrow> indexed s' n) (\<lambda>_ _. True) s"
  proof -
    have "wp (foldC (\<lambda>n _. unset_flags n statusInvalidAncestor) ns ()) (\<lambda>_ s'. indexed s' t0) (\<lambda>_ _. True) s" if "t = Some t0" for ns t0
      by (rule wp_keeps[OF keeps_foldC[OF quiet_rel quiet_flags(2)]])
        (use Cons.prems(2) that indexed_later[OF inv] in \<open>auto simp: quiet_def\<close>)
    then show ?thesis
      unfolding reconsider_tip_def using Cons.prems(3,4) by (auto simp: wp_rules split: option.split)
  qed
  then have "wp (reconsider_tip node t r) (\<lambda>r s'. (\<forall>n. r = Some n \<longrightarrow> indexed s' n) \<and> quiet L s s') (\<lambda>_ s'. True \<and> quiet L s s') s"
    by (rule wp_both) (rule wp_keeps[OF quiet_reconsider_tip]; assumption)
  then show ?case
    unfolding foldC.simps wp_bindC
  proof (rule wp_mono)
    fix r' s1 assume s1: "(\<forall>n. r' = Some n \<longrightarrow> indexed s1 n) \<and> quiet L s s1"
    have "moved L k start s1" using moved_trans[OF Cons.prems(1) moved_quiet[OF inv]] s1 by blast
    then show "wp (foldC (reconsider_tip node) tips r') (\<lambda>r s'. moved L k start s' \<and> (\<forall>n. r = Some n \<longrightarrow> indexed s' n)) (\<lambda>_. moved L k start) s1"
      using Cons.prems(2,3) s1 indexed_later[OF inv, of s1] by (intro Cons.IH) (auto simp: quiet_def)
  qed (use moved_trans[OF Cons.prems(1) moved_quiet[OF inv]] in blast)
qed (simp add: wp_simple)

lemma wp_verified_reorganize:
  assumes m: "moved L k start s" and idx: "\<forall>n \<in> set d \<union> set a. indexed s n"
  shows "wp (verifyReorganizationValidity env d a)
      (\<lambda>_. wp (flush_index_logged env) (\<lambda>_. wp (reorganizeChain env d a) (\<lambda>_. moved L k start) (\<lambda>_. moved L k start)) (\<lambda>_. moved L k start))
      (\<lambda>e. wp (if e = Panic then failC Panic else flush_index_logged env) (\<lambda>_. moved L k start) (\<lambda>_. moved L k start)) s"
proof (rule wp_moved_quiet[OF quiet_verify m])
  have inv: "chain_inv L k s" using m by (simp add: moved_def)
  fix s1 assume s1: "moved L k start s1" "later s s1"
  have inv1: "chain_inv L k s1" using s1(1) by (simp add: moved_def)
  show "wp (flush_index_logged env) (\<lambda>_. wp (reorganizeChain env d a) (\<lambda>_. moved L k start) (\<lambda>_. moved L k start)) (\<lambda>_. moved L k start) s1"
  proof (rule wp_logged_moved[OF s1(1)])
    fix s2 assume s2: "moved L k start s2" "later s1 s2"
    have "\<forall>n \<in> set d \<union> set a. indexed s2 n" using idx indexed_later[OF inv s1(2)] indexed_later[OF inv1 s2(2)] by blast
    from wp_reorganize_moved[OF s2(1) this] show "wp (reorganizeChain env d a) (\<lambda>_. moved L k start) (\<lambda>_. moved L k start) s2" .
  qed
qed (auto simp: wp_simple intro!: wp_logged_moved)

lemma wp_reconsider_work:
  assumes m: "moved L k start s" and r: "indexed s r"
  shows "wp (bindC (getReorganizeNodes r) (\<lambda>(detachNodes, attachNodes).
      bindC (tryC (verifyReorganizationValidity env detachNodes attachNodes)) (\<lambda>v.
      case v of
        Inl e \<Rightarrow> if e = Panic then failC Panic else flush_index_logged env
      | Inr _ \<Rightarrow> seqC (flush_index_logged env) (reorganizeChain env detachNodes attachNodes))))
    (\<lambda>_. moved L k start) (\<lambda>_. moved L k start) s"
  unfolding wp_bindC[of "getReorganizeNodes _"]
  by (rule wp_mono[OF wp_get_moved[OF m r]]) (auto simp: wp_rules intro!: wp_mono[OF wp_verified_reorganize])

lemma wp_ReconsiderBlock:
  assumes inv: "chain_inv L k s"
  shows "wp (ReconsiderBlock env h) (\<lambda>_. moved L k s) (\<lambda>_. moved L k s) s"
proof -
  have refl: "moved L k s s" using inv by (simp add: moved_def)
  show ?thesis
  proof (cases "LookupNode (bindex s) h")
    case None
    then show ?thesis unfolding ReconsiderBlock_def using refl by (simp add: wp_rules)
  next
    case (Some node)
    then have n: "indexed s node" using indexed_lookup[OF _ inv] by simp
    have last: "wp (bindC best_tip (\<lambda>t.
             bindC (nonnil rt) (\<lambda>r.
             bindC (readC (\<lambda>s. workSum (nodes s ! r) \<le> workSum (nodes s ! t))) (\<lambda>less.
             if less then retC ()
             else bindC (getReorganizeNodes r) (\<lambda>(detachNodes, attachNodes).
                  bindC (tryC (verifyReorganizationValidity env detachNodes attachNodes)) (\<lambda>v.
                  case v of
                    Inl e \<Rightarrow> if e = Panic then failC Panic else flush_index_logged env
                  | Inr _ \<Rightarrow> seqC (flush_index_logged env) (reorganizeChain env detachNodes attachNodes)))))))
        (\<lambda>_. moved L k s) (\<lambda>_. moved L k s) s1"
      if m: "moved L k s s1" and r: "\<forall>n. rt = Some n \<longrightarrow> indexed s1 n" for rt s1
    proof -
      have inv1: "chain_inv L k s1" using m by (simp add: moved_def)
      obtain t where t: "tip_ok s1 t" using inv_tip[OF inv1] by blast
      show ?thesis
        unfolding wp_bindC[of best_tip] wp_best_tip[OF inv1 t] wp_bindC[of "nonnil _"] wp_bindC[of "readC _"] wp_nonnil wp_simple
        using m r wp_reconsider_work[OF m] by (auto simp: wp_simple split: option.split)
    qed
    have tips: "wp all_tips (\<lambda>tips. wp (foldC (reconsider_tip node) tips None) Q (\<lambda>_. moved L k s)) (\<lambda>_. moved L k s) s1"
      if m: "moved L k s s1" and l: "later s s1" and Q: "\<And>rt s2. moved L k s s2 \<Longrightarrow> \<forall>n. rt = Some n \<longrightarrow> indexed s2 n \<Longrightarrow> Q rt s2" for s1 Q
    proof -
      have inv1: "chain_inv L k s1" using m by (simp add: moved_def)
      show ?thesis
        by (rule wp_mono[OF wp_all_tips[OF inv1]]) (use m Q indexed_later[OF inv l n] in \<open>auto intro!: wp_mono[OF wp_reconsider_tips[OF m]]\<close>)
    qed
    have flags: "wp (unset_flags node statusInvalidAncestor) (\<lambda>_. wp (unset_flags node statusValidateFailed) (\<lambda>_. P) (\<lambda>_. moved L k s)) (\<lambda>_. moved L k s) s"
      if "\<And>s1. moved L k s s1 \<Longrightarrow> later s s1 \<Longrightarrow> P s1" for P
      by (rule wp_moved_quiet[OF quiet_flags(2) refl], rule wp_moved_quiet[OF quiet_flags(2)]) (auto intro: that later_trans)
    show ?thesis
      unfolding ReconsiderBlock_def wp_bindC[of "readC _"] wp_simple
      by (simp add: Some wp_seqC wp_bindC[of all_tips] wp_bindC[of "foldC _ _ _"] wp_simple refl)
        (intro impI flags tips last; assumption)
  qed
qed

end
