(* ===== verification/Reachable.thy ===== *)
theory Reachable
  imports Supply Chain_Verdict
begin

text \<open>
  The chain as a state machine: its steps are the calls of \<open>ProcessBlock\<close>, \<open>ProcessBlockHeader\<close>, \<open>InvalidateBlock\<close>
  and \<open>ReconsiderBlock\<close>, whatever they return, in any order.  The invariant holds in every state they reach, and the work of the best chain does not
  decrease.
\<close>

section \<open>Steps\<close>

text \<open>
  Clock, parameters and stores may differ from step to step.  Heights are \<open>int32\<close>, so a step needs room for the
  node of its block and those of the orphans that the block may release.
\<close>

definition room :: "('b, 'bl) BlockChain \<Rightarrow> bool" where
  "room s \<longleftrightarrow> length (nodes s) + length (orphans s) + 1 < 2 ^ 31"

inductive chain_step :: "('pk, 'b, 'bl) chain_env set \<Rightarrow> ('b, 'bl) BlockChain \<Rightarrow> ('b, 'bl) BlockChain \<Rightarrow> bool"
  for envs :: "('pk, 'b, 'bl) chain_env set" where
  block: "env \<in> envs \<Longrightarrow> room s \<Longrightarrow> ProcessBlock env b flags s = Some (r, s') \<Longrightarrow> chain_step envs s s'"
| header: "env \<in> envs \<Longrightarrow> room s \<Longrightarrow> ProcessBlockHeader env h flags skip s = Some (r', s') \<Longrightarrow> chain_step envs s s'"
| invalidate: "env \<in> envs \<Longrightarrow> InvalidateBlock env x s = Some (r'', s') \<Longrightarrow> chain_step envs s s'"
| reconsider: "env \<in> envs \<Longrightarrow> ReconsiderBlock env x s = Some (r'', s') \<Longrightarrow> chain_step envs s s'"

inductive_cases chain_stepE: "chain_step envs s s'"

lemma room_inv: "room s \<Longrightarrow> chain_inv L 0 s \<Longrightarrow> chain_inv L (Suc (length (orphans s) + 0)) s"
  by (simp add: chain_inv_def room_def)

lemma ProcessBlock_result:
  assumes "hash_lib (e_wire env)" "chain_inv (e_wire env) 0 s" "room s" "ProcessBlock env b flags s = Some (r, s')"
  shows "chain_inv (e_wire env) 0 s'" "later s s'" "r = Inr x \<Longrightarrow> tip_ok s t \<Longrightarrow> no_less_work s' t"
proof -
  have post: "wp (ProcessBlock env b flags) (\<lambda>_ s'. chain_inv (e_wire env) 0 s' \<and> later s s' \<and> no_less_work s' t)
      (\<lambda>_ s'. chain_inv (e_wire env) 0 s' \<and> later s s') s" if "tip_ok s t" for t
    using wp_ProcessBlock[OF room_inv[OF assms(3,2)] assms(1) that] by simp
  obtain t0 where "tip_ok s t0" using assms(2) by (auto simp: chain_inv_def)
  then show "chain_inv (e_wire env) 0 s'" "later s s'" using post[of t0] assms(4) by (cases r; simp add: wp_def)+
  show "no_less_work s' t" if "r = Inr x" "tip_ok s t" using post[OF that(2)] assms(4) that(1) by (simp add: wp_def)
qed

lemma ProcessBlockHeader_result:
  assumes "chain_inv (e_wire env) 0 s" "room s" "ProcessBlockHeader env h flags skip s = Some (r, s')"
  shows "chain_inv (e_wire env) 0 s'" "later s s'" "tip_ok s t \<Longrightarrow> tip_ok s' t" "orphans s' = orphans s"
proof -
  have "chain_inv (e_wire env) (Suc 0) s" using assms(1,2) by (simp add: chain_inv_def room_def)
  from wp_maybeAcceptBlockHeader[OF this, of h flags skip] assms(3)
  show "chain_inv (e_wire env) 0 s'" "later s s'" "tip_ok s t \<Longrightarrow> tip_ok s' t" "orphans s' = orphans s"
    unfolding ProcessBlockHeader_def by (cases r; auto simp: wp_def moved_def)+
qed

lemma verdict_result:
  assumes "chain_inv L 0 s" "InvalidateBlock env x s = Some (r, s') \<or> ReconsiderBlock env x s = Some (r, s')"
  shows "chain_inv L 0 s'" "later s s'"
  using wp_InvalidateBlock[OF assms(1), of env x] wp_ReconsiderBlock[OF assms(1), of env x] assms(2)
  by (cases r; auto simp: wp_def moved_def)+

lemma chain_step_inv:
  assumes "chain_step envs s s'" "hash_lib L" "\<forall>env \<in> envs. e_wire env = L" "chain_inv L 0 s"
  shows "chain_inv L 0 s'" "later s s'"
  using assms by (auto elim!: chain_stepE intro: verdict_result
      dest: ProcessBlock_result(1,2)[rotated 3] ProcessBlockHeader_result(1,2)[rotated 2])

text \<open>Processing a header never writes the best state snapshot.\<close>

definition snapshot_same :: "('b, 'bl) BlockChain \<Rightarrow> ('b, 'bl) BlockChain \<Rightarrow> bool" where
  "snapshot_same s s' \<longleftrightarrow> stateSnapshot s' = stateSnapshot s"

lemma snapshot_rel: "reflp snapshot_same" "transp snapshot_same"
  by (auto simp: snapshot_same_def reflp_def transp_def)

lemmas snapshot_keeps = keeps_bindC[OF snapshot_rel(2)] keeps_seqC[OF snapshot_rel(2)] keeps_whenC[OF snapshot_rel(1)]
  keeps_simple(1-6)[OF snapshot_rel(1)] keeps_if

lemma snapshot_header_context: "keeps snapshot_same (CheckBlockHeaderContext env header p flags native skip)"
  unfolding keeps_def
proof (intro allI impI)
  fix s r s' assume "CheckBlockHeaderContext env header p flags native skip s = Some (r, s')"
  then have "checkpoint_frame s s'" by (rule keepsD[OF CheckBlockHeaderContext_frame])
  then have "stateSnapshot (forget_checkpoints s') = stateSnapshot (forget_checkpoints s)" by (simp add: checkpoint_frame_def)
  then show "snapshot_same s s'" by (simp add: snapshot_same_def forget_checkpoints_def)
qed

lemma snapshot_steps: "keeps snapshot_same (flush_index env)" "keeps snapshot_same (set_header_tip n)"
  "keeps snapshot_same (add_node env header p st)"
  by (auto simp: keeps_def snapshot_same_def flush_index_def set_header_tip_def add_node_def comp_defs runO_def Let_def split: prod.splits option.splits)

lemma snapshot_headers: "keeps snapshot_same (ProcessBlockHeader env h flags skip)"
  unfolding ProcessBlockHeader_def maybeAcceptBlockHeader_def extend_headers_def Let_def
  by (auto intro!: snapshot_keeps snapshot_steps snapshot_header_context split: option.split prod.split)

section \<open>Properties\<close>

text \<open>
  C2: in every state that calls of \<open>ProcessBlock\<close>, \<open>ProcessBlockHeader\<close>, \<open>InvalidateBlock\<close> and \<open>ReconsiderBlock\<close>
  reach, failed calls included, the block tree is well formed and filed in the index, the best chain and the best header chain are complete branches of
  it, the best state snapshot describes the tip of the best chain, and the orphan pool agrees with its index.
\<close>

theorem reachable_chain_inv:
  assumes "(chain_step envs)\<^sup>*\<^sup>* s s'" "hash_lib L" "\<forall>env \<in> envs. e_wire env = L" "chain_inv L 0 s"
  shows "chain_inv L 0 s'"
  using assms(1)
proof (induction rule: rtranclp_induct)
  case (step s1 s2)
  then show ?case using chain_step_inv(1)[OF step.hyps(2) assms(2,3)] by blast
qed (rule assms(4))

text \<open>
  C3: a block that \<open>ProcessBlock\<close> takes, as an extension, by a reorganisation, as a side chain block or as an orphan,
  together with the orphans it releases, never leaves the chain with a tip of less work than before.
\<close>

theorem ProcessBlock_keeps_work:
  assumes "hash_lib (e_wire env)" "chain_inv (e_wire env) 0 s" "room s" "ProcessBlock env b flags s = Some (Inr r, s')"
    "tip (bestChain s) = Some t"
  shows "\<exists>t'. tip (bestChain s') = Some t' \<and> t' < length (nodes s') \<and> bestChain s' = view_of (nodes s') t'
    \<and> workSum (nodes s ! t) \<le> workSum (nodes s' ! t')"
proof -
  note res = ProcessBlock_result[OF assms(1-4)]
  obtain t0 where t0: "tip_ok s t0" using assms(2) by (auto simp: chain_inv_def)
  then have t: "tip_ok s t" using tip_unique[OF assms(2) t0] assms(5) by simp
  then obtain t' where t': "tip_ok s' t'" "workSum (nodes s' ! t) \<le> workSum (nodes s' ! t')"
    using res(3)[OF refl] by (auto simp: no_less_work_def)
  have "workSum (nodes s' ! t) = workSum (nodes s ! t)" using later_work[OF assms(2) res(2) t] .
  then show ?thesis
    using t' tip_unique[OF res(1) t'(1)] indexed_less[OF res(1)] by (auto simp: tip_ok_def)
qed

text \<open>
  C25: processing a header, whatever it returns, changes neither the best chain nor any field of its snapshot nor the orphan
  pool, and loses no node of the block tree.
\<close>

theorem ProcessBlockHeader_keeps_best:
  assumes "chain_inv (e_wire env) 0 s" "room s" "ProcessBlockHeader env h flags skip s = Some (r, s')"
  shows "bestChain s' = bestChain s \<and> stateSnapshot s' = stateSnapshot s \<and> grows (nodes s) (nodes s') \<and> orphans s' = orphans s"
proof -
  note res = ProcessBlockHeader_result[OF assms]
  obtain t where t: "tip_ok s t" using assms(1) by (auto simp: chain_inv_def)
  have i: "t < length (nodes s)" using t indexed_less[OF assms(1)] by (simp add: tip_ok_def)
  have g: "grows (nodes s) (nodes s')" using res(2) by (simp add: later_def)
  have "stateSnapshot s' = stateSnapshot s" using keepsD[OF snapshot_headers assms(3)] by (simp add: snapshot_same_def)
  then show ?thesis
    using t res(3)[OF t] res(4) g grows_view_of[OF chain_invD(1)[OF assms(1)] g i] by (simp add: tip_ok_def)
qed

section \<open>Witnesses\<close>

text \<open>The sample chain under hashes that commit to the parent.\<close>

definition linked_lib :: wire_lib where
  "linked_lib = header_root_lib\<lparr>BlockHash := (\<lambda>h. if hPrevBlock h = zeroHash then [0] else if hPrevBlock h = [0] then [1]
     else if hPrevBlock h = [1] then [2] else hPrevBlock h @ [ucast (hNonce h), 1])\<rparr>"

lemma zero_hash_long: "[x] \<noteq> zeroHash"
  by (simp add: zeroHash_def numeral_eq_Suc)

definition linked_env where "linked_env = sample_env\<lparr>e_wire := linked_lib\<rparr>"

lemma linked_hash: "hash_lib linked_lib"
  by (auto simp: hash_lib_def commits_to_parent_def linked_lib_def zeroHash_def numeral_eq_Suc split: if_splits)

lemma linked_hash_ok: "hash_ok linked_lib sample_heap"
  unfolding hash_ok_def
proof (intro allI impI)
  fix n assume "n < length sample_heap"
  then have n: "n = 0 \<or> n = 1 \<or> n = 2" by (auto simp: sample_heap_def)
  let ?p = "case parent (sample_heap ! n) of None \<Rightarrow> zeroHash | Some p \<Rightarrow> bn_hash (sample_heap ! p)"
  show "\<exists>hdr. BlockHash linked_lib hdr = bn_hash (sample_heap ! n) \<and> hPrevBlock hdr = ?p"
    using n by (intro exI[of _ "sample_header\<lparr>hPrevBlock := ?p\<rparr>"])
      (auto simp: linked_lib_def sample_heap_def sample_node_def zeroHash_def numeral_eq_Suc)
qed

lemma sample_chain_inv: "chain_inv linked_lib 0 sample_chain" "tip (bestChain sample_chain) = Some 2"
proof -
  note v = sample_view
  have i: "indexed sample_chain 2" by (simp add: indexed_def sample_chain_def sample_heap_def sample_node_def)
  have "tip_ok sample_chain 2" using i v by (simp add: tip_ok_def describes_def sample_chain_def) (simp add: sample_heap_def sample_node_def)
  moreover have "index_ok (nodes sample_chain) (bindex sample_chain)"
    by (auto simp: index_ok_def sample_chain_def sample_heap_def sample_node_def)
  moreover have "work_ok sample_heap" by (auto simp: work_ok_def sample_heap_def sample_node_def less_Suc_eq)
  moreover have "pool_ok linked_lib sample_chain" by (simp add: pool_ok_def sample_chain_def prev_orphans_def)
  moreover have "nodes sample_chain = sample_heap" "bestHeader sample_chain = [Some 0, Some 1, Some 2]" "length sample_heap = 3"
    by (simp_all add: sample_chain_def sample_heap_def)
  ultimately show "chain_inv linked_lib 0 sample_chain"
    using sample_heap_wf linked_hash_ok i v by (auto simp: chain_inv_def)
  show "tip (bestChain sample_chain) = Some 2" by (simp add: sample_chain_def tip_def)
qed

lemma sample_header_processed: "\<exists>s'. ProcessBlockHeader linked_env sample_header BFNone False sample_chain = Some (Inr True, s')"
proof -
  have len: "2 < length sample_heap" and h: "bn_height (sample_heap ! 2) < 2 ^ 31 - 1" by (simp_all add: sample_heap_def sample_node_def)
  obtain node where node: "newBlockNode (BlockHash linked_lib) sample_heap sample_header (Some 2) = Some (sample_heap @ [node], length sample_heap)"
    and wf: "wf_heap (sample_heap @ [node])" and height: "bn_height node = 3"
    using new_node[OF sample_heap_wf len h, of "BlockHash linked_lib" sample_header] by (auto simp: sample_heap_def sample_node_def)
  let ?mem = "set_status (sample_heap @ [node]) 3 statusHeaderStored"
  have tip: "setTip ?mem [Some 0, Some 1, Some 2] (Some 3) = Some (view_of ?mem 3)"
  proof (rule setTip_eq[OF wf_heap_set_status[OF wf]])
    have "grows sample_heap ?mem" using grows_trans[OF grows_append grows_set_status] .
    from grows_view_of[OF sample_heap_wf this len] show "view_ok ?mem [Some 0, Some 1, Some 2]"
      using view_ok_view_of[of 2 ?mem] len sample_view by simp
  qed (simp_all add: sample_heap_def height)
  have env: "e_wire linked_env = linked_lib" "chainParams linked_env = sample_params" "e_pow linked_env = sample_pow"
      "AdjustedTime linked_env = unix_time 300"
    by (simp_all add: linked_env_def sample_env_def)
  have lookup: "LookupNode (bindex sample_chain) [2] = Some 2" "LookupNode (bindex sample_chain) (BlockHash linked_lib sample_header) = None"
    "hPrevBlock sample_header = [2]"
    by (simp_all add: LookupNode_def sample_chain_def linked_lib_def sample_header_def zeroHash_def numeral_eq_Suc)
  have ctx: "CheckBlockHeaderContext linked_env sample_header 2 BFNone True False sample_chain = Some (Inr (), sample_chain\<lparr>checkpointNode := Some 1\<rparr>)"
    using sample_header_context[of linked_lib] by (simp add: linked_env_def)
  have len3: "length sample_heap = 3" by (simp add: sample_heap_def)
  have pow: "PowLimit sample_params = 2 ^ 255 - 1" by (simp add: sample_params_def)
  have chain0: "dirty (bindex sample_chain) = []" "bestHeader sample_chain = [Some 0, Some 1, Some 2]" by (simp_all add: sample_chain_def)
  have st: "KnownInvalid (NodeStatus sample_heap 2) = False" by (simp add: KnownInvalid_def NodeStatus_def sample_heap_def sample_node_def statusNone_def)
  have add: "add_node linked_env sample_header 2 statusHeaderStored (sample_chain\<lparr>checkpointNode := Some 1\<rparr>)
      = Some (Inr 3, sample_chain\<lparr>checkpointNode := Some 1, nodes := ?mem, bindex := AddNode ?mem (bindex sample_chain) 3\<rparr>)" (is "_ = Some (_, ?s)")
    by (simp add: add_node_def comp_defs env sample_chain_nodes node len3 Let_def)
  have flags: "HaveData (status (?mem ! 3)) = False" using len3 by (simp add: HaveData_def set_status_def statusHeaderStored_def statusDataStored_def)
  obtain s1 where s1: "flush_index linked_env ?s = Some (Inr (), s1)" "nodes s1 = ?mem" "bestHeader s1 = [Some 0, Some 1, Some 2]"
    using flags chain0 by (simp add: flush_index_def flushToDB_def AddNode_def addNode_def mark_dirty_def)
  have prev: "bn_hash (?mem ! 2) = [2]" by (simp add: set_status_def nth_append sample_heap_def sample_node_def)
  have "extend_headers sample_header 3 s1 = Some (Inr True, s1\<lparr>bestHeader := view_of ?mem 3\<rparr>)"
    using s1(2,3) tip prev lookup(3) by (simp add: extend_headers_def set_header_tip_def tip_def comp_defs)
  then show ?thesis
    using sample_header_sane s1(1)
    by (simp add: ProcessBlockHeader_def maybeAcceptBlockHeader_def comp_defs env lookup ctx st sample_chain_nodes add pow del: One_nat_def)
qed

text \<open>The block of the coinbase alone, on top of a block that is not known.\<close>

definition stray_block :: Block where
  "stray_block = (next_block [sample_coinbase])\<lparr>Header := sample_header\<lparr>hMerkleRoot := replicate 31 0 @ [1], hPrevBlock := [9]\<rparr>\<rparr>"

lemma stray_header_sane: "CheckBlockHeaderSanity sample_pow (unix_time 300) (Header stray_block) (2 ^ 255 - 1) BFNone = Inr ()"
  by (simp add: stray_block_def CheckBlockHeaderSanity_def checkProofOfWork_def sample_header_def sample_pow_def
      CompactToBig_pow_limit SetBytes_zeros MaxTimeOffsetSeconds_def unix_time_def time_Unix_def)

lemma linked_simps: "TxHash linked_lib tx = replicate 31 0 @ [of_nat (length (tx_TxOut tx))]" "blockSizeStripped linked_lib b = 1000"
  "money_ok linked_lib"
  by (simp_all add: linked_lib_def header_root_lib_def money_ok_def)

lemma stray_block_sane: "checkBlockSanity sample_pow linked_lib (unix_time 300) stray_block (2 ^ 255 - 1) BFNone = Inr ()"
proof (rule block_sane[OF stray_header_sane])
  have txs: "Transactions stray_block = [sample_coinbase]" by (simp add: stray_block_def)
  show "CalcMerkleRoot linked_lib (Transactions stray_block) False = Some (hMerkleRoot (Header stray_block))"
    unfolding txs by (simp add: CalcMerkleRoot_eq leaves_def leaf_def linked_simps sample_coinbase_def) (simp add: stray_block_def)
  show "list_all (sane_tx linked_lib) (Transactions stray_block)"
    using sample_txs_sane(1) by (auto simp: txs sane_tx_def linked_lib_def split: if_splits)
qed (use sample_coinbases in \<open>simp_all add: linked_simps stray_block_def\<close>)

lemma stray_processed: "\<exists>s'. ProcessBlock linked_env stray_block BFNone sample_chain = Some (Inr (False, True), s')"
proof -
  have env: "e_wire linked_env = linked_lib" "chainParams linked_env = sample_params" "e_pow linked_env = sample_pow"
      "AdjustedTime linked_env = unix_time 300" "e_store linked_env = map_store" "PowLimit sample_params = 2 ^ 255 - 1"
    by (simp_all add: linked_env_def sample_env_def sample_params_def)
  have h: "block_hash linked_lib stray_block = [9, 0, 1]" "hPrevBlock (Header stray_block) = [9]"
    using zero_hash_long[of 9] by (simp_all add: block_hash_def linked_lib_def stray_block_def sample_header_def)
  have find: "findPreviousCheckpoint linked_env sample_chain = Some (Inr (Some 1), sample_chain\<lparr>checkpointNode := Some 1\<rparr>)"
    by (simp add: findPreviousCheckpoint_def HasCheckpoints_def linked_env_def sample_env_def sample_chain_def LookupNode_def contains_def
        nodeByHeight_def sample_heap_def sample_node_def sample_checkpoint_def)
  let ?s = "sample_chain\<lparr>checkpointNode := Some 1\<rparr>"
  have exists: "blockExists linked_env x s = Some (Inr False, s)" if "x \<in> {[9, 0, 1], [9]}" "s = sample_chain \<or> s = ?s" for x s
    using that by (auto simp: blockExists_def comp_defs HaveBlock_def env map_store_def sample_chain_def bindE_def)
  have cp: "check_after_checkpoint linked_env (Header stray_block) False (nodes ?s ! 1) = Inr ()"
    by (simp add: check_after_checkpoint_def env calcEasiestDifficulty_def sample_chain_nodes stray_block_def)
      (simp add: sample_header_def sample_pow_def sample_params_def sample_heap_def sample_node_def unix_time_def)
  have "pool_ok linked_lib ?s" by (simp add: pool_ok_def sample_chain_def prev_orphans_def)
  then obtain s' where add: "addOrphanBlock linked_env stray_block ?s = Some (Inr (), s')"
    using addOrphanBlock_run(1)[of linked_env ?s stray_block] linked_hash env(1) by (auto simp: hash_lib_def sample_chain_def)
  have known: "\<not> IsKnownOrphan sample_chain x" for x by (simp add: IsKnownOrphan_def sample_chain_def)
  show ?thesis
    using stray_block_sane exists find add known cp by (simp add: ProcessBlock_def comp_defs env h Let_def BFNone_def BFFastAdd_def del: One_nat_def)
qed


lemma sample_room: "room sample_chain"
  by (simp add: room_def sample_chain_def sample_heap_def)

lemma linked_wire: "e_wire linked_env = linked_lib"
  by (simp add: linked_env_def)

theorem reachable_chain_inv_witness:
  "\<exists>s'. ProcessBlock linked_env stray_block BFNone sample_chain = Some (Inr (False, True), s') \<and> chain_inv linked_lib 0 s'"
proof -
  obtain s' where s': "ProcessBlock linked_env stray_block BFNone sample_chain = Some (Inr (False, True), s')"
    using stray_processed by blast
  have "chain_step {linked_env} sample_chain s'" using chain_step.block[OF _ sample_room s'] by simp
  then have "(chain_step {linked_env})\<^sup>*\<^sup>* sample_chain s'" by (rule r_into_rtranclp)
  then show ?thesis using reachable_chain_inv[OF _ linked_hash _ sample_chain_inv(1), of "{linked_env}"] s' linked_wire by blast
qed

theorem ProcessBlock_keeps_work_witness:
  "\<exists>s' t'. ProcessBlock linked_env stray_block BFNone sample_chain = Some (Inr (False, True), s')
    \<and> tip (bestChain s') = Some t' \<and> 2 \<le> workSum (nodes s' ! t')"
proof -
  obtain s' where "ProcessBlock linked_env stray_block BFNone sample_chain = Some (Inr (False, True), s')"
    using stray_processed by blast
  with ProcessBlock_keeps_work[OF _ _ sample_room this sample_chain_inv(2)] show ?thesis
    using linked_hash sample_chain_inv(1) by (auto simp: linked_wire sample_chain_nodes) (auto simp: sample_heap_def sample_node_def)
qed

theorem ProcessBlockHeader_keeps_best_witness:
  "\<exists>s'. ProcessBlockHeader linked_env sample_header BFNone False sample_chain = Some (Inr True, s') \<and> bestChain s' = [Some 0, Some 1, Some 2]"
  using ProcessBlockHeader_keeps_best[OF _ sample_room, of linked_env] sample_header_processed sample_chain_inv(1)
  by (fastforce simp: linked_wire sample_chain_def)

end
