(* ===== verification/Median_Time.thy ===== *)
theory Median_Time
  imports Chain_State
begin

text \<open>
  The network adjusted clock (mediantime.go).  Times are in nanoseconds.  A sample counts by its distance from the
  local clock in seconds; the conversion through a floating point number is exact for the whole seconds that
  peers send.
\<close>

section \<open>Samples\<close>

definition maxAllowedOffsetSecs :: int where "maxAllowedOffsetSecs = 70 * 60"
definition similarTimeSecs :: int where "similarTimeSecs = 5 * 60"
definition maxMedianTimeEntries :: nat where "maxMedianTimeEntries = 200"

record medianTime =
  knownIDs :: "string list"
  offsets :: "int list"
  offsetSecs :: int
  invalidTimeChecked :: bool

definition NewMedianTime :: medianTime where
  "NewMedianTime = \<lparr>knownIDs = [], offsets = [], offsetSecs = 0, invalidTimeChecked = False\<rparr>"

text \<open>The difference of two times saturates at the range of a duration.\<close>

definition time_Sub :: "int \<Rightarrow> int \<Rightarrow> int" where
  "time_Sub t u = max (- (2 ^ 63)) (min (2 ^ 63 - 1) (t - u))"

definition sample_offset :: "int \<Rightarrow> int \<Rightarrow> int" where
  "sample_offset now timeVal = go_div (time_Sub timeVal (unix_time (time_Unix now))) 1000000000"

text \<open>The readings of the local clock are the first argument.\<close>

definition mt_AdjustedTime :: "int \<Rightarrow> medianTime \<Rightarrow> int" where
  "mt_AdjustedTime now m = unix_time (time_Unix now) + i64 (offsetSecs m * 1000000000)"

definition mt_Offset :: "medianTime \<Rightarrow> int" where
  "mt_Offset m = i64 (offsetSecs m * 1000000000)"

text \<open>The new list of offsets.\<close>

definition push_offset :: "int list \<Rightarrow> int \<Rightarrow> int list" where
  "push_offset os x = (if length os = maxMedianTimeEntries \<and> maxMedianTimeEntries > 0 then tl os else os) @ [x]"

definition set_offset :: "int \<Rightarrow> medianTime \<Rightarrow> medianTime" where
  "set_offset mid m =
    (if \<bar>mid\<bar> < maxAllowedOffsetSecs then m\<lparr>offsetSecs := mid\<rparr>
     else m\<lparr>offsetSecs := 0, invalidTimeChecked := True\<rparr>)"

definition AddTimeSample :: "int \<Rightarrow> string \<Rightarrow> int \<Rightarrow> medianTime \<Rightarrow> medianTime" where
  "AddTimeSample now sourceID timeVal m =
    (if sourceID \<in> set (knownIDs m) then m
     else let os = push_offset (offsets m) (sample_offset now timeVal);
              m = m\<lparr>knownIDs := sourceID # knownIDs m, offsets := os\<rparr>;
              numOffsets = length os
          in if numOffsets < 5 \<or> numOffsets mod 2 \<noteq> 1 then m
             else set_offset (sort os ! (numOffsets div 2)) m)"

section \<open>The clock stays near\<close>

definition near :: "medianTime \<Rightarrow> bool" where
  "near m \<longleftrightarrow> \<bar>offsetSecs m\<bar> < maxAllowedOffsetSecs \<and> length (offsets m) \<le> maxMedianTimeEntries"

lemma near_new: "near NewMedianTime"
  by (simp add: near_def NewMedianTime_def maxAllowedOffsetSecs_def)

lemma set_offset_simps [simp]: "offsets (set_offset x m) = offsets m" "knownIDs (set_offset x m) = knownIDs m"
  by (simp_all add: set_offset_def)

lemma near_add: "near m \<Longrightarrow> near (AddTimeSample now i t m)"
  by (auto simp: near_def AddTimeSample_def Let_def push_offset_def set_offset_def maxMedianTimeEntries_def maxAllowedOffsetSecs_def)

text \<open>All the calls that bring a clock into its state.\<close>

definition after_samples :: "(int \<times> string \<times> int) list \<Rightarrow> medianTime" where
  "after_samples samples = fold (\<lambda>(now, i, t). AddTimeSample now i t) samples NewMedianTime"

lemma near_after: "near (after_samples samples)"
proof -
  have "near (fold (\<lambda>(now, i, t). AddTimeSample now i t) samples m)" if "near m" for m
    using that by (induction samples arbitrary: m) (auto intro: near_add)
  then show ?thesis using near_new by (simp add: after_samples_def)
qed

text \<open>Elements of a list with and without a property are fewer than its positions.\<close>

lemma two_counts:
  assumes "I \<subseteq> {i. i < length xs \<and> \<not> P (xs ! i)}"
  shows "card I + length (filter P xs) \<le> length xs"
proof -
  let ?P = "{i. i < length xs \<and> P (xs ! i)}"
  have "finite I" using assms finite_subset[of I "{..<length xs}"] by auto
  then have "card I + card ?P = card (I \<union> ?P)" using assms by (intro card_Un_disjoint[symmetric]) auto
  also have "\<dots> \<le> card {..<length xs}" using assms by (intro card_mono) auto
  finally show ?thesis by (simp add: length_filter_conv_card)
qed

lemma middle_between:
  fixes xs :: "int list"
  assumes "2 * length (filter (\<lambda>x. a \<le> x \<and> x \<le> b) xs) > length xs" "length xs mod 2 = 1"
  shows "a \<le> sort xs ! (length xs div 2)" "sort xs ! (length xs div 2) \<le> b"
proof -
  let ?ys = "sort xs" and ?i = "length xs div 2" and ?P = "\<lambda>x. a \<le> x \<and> x \<le> b"
  have n: "length xs = 2 * ?i + 1" using assms(2) by presburger
  have count: "length (filter ?P ?ys) = length (filter ?P xs)" by (metis length_sort filter_sort)
  have mono: "?ys ! j \<le> ?ys ! k" if "j \<le> k" "k < length xs" for j k using that by (simp add: sorted_nth_mono)
  show "a \<le> ?ys ! ?i"
  proof (rule ccontr)
    assume low: "\<not> a \<le> ?ys ! ?i"
    have "\<not> ?P (?ys ! j)" if "j \<le> ?i" for j using mono[OF that] low n by simp
    then have "{..?i} \<subseteq> {j. j < length ?ys \<and> \<not> ?P (?ys ! j)}" using n by auto
    from two_counts[OF this] show False using count assms(1) n by simp
  qed
  show "?ys ! ?i \<le> b"
  proof (rule ccontr)
    assume high: "\<not> ?ys ! ?i \<le> b"
    have "\<not> ?P (?ys ! j)" if "?i \<le> j" "j < length xs" for j using mono[OF that] high by simp
    then have "{?i..<length xs} \<subseteq> {j. j < length ?ys \<and> \<not> ?P (?ys ! j)}" by auto
    from two_counts[OF this] show False using count assms(1) n by simp
  qed
qed

section \<open>Properties\<close>

text \<open>
  C38: whatever samples a clock has received, it is never adjusted by seventy minutes or more.
\<close>

theorem clock_stays_near:
  "\<bar>mt_AdjustedTime now (after_samples samples) - unix_time (time_Unix now)\<bar> < 70 * 60 * 1000000000"
proof -
  have "\<bar>offsetSecs (after_samples samples)\<bar> < 4200" using near_after[of samples] by (simp add: near_def maxAllowedOffsetSecs_def)
  then show ?thesis by (simp add: mt_AdjustedTime_def i64_id)
qed

text \<open>
  When a sample from a new source makes the number of samples odd and at least five, and more than half of
  them lie within two bounds inside the allowed range, the new offset lies within these bounds; a minority of
  peers cannot move the clock elsewhere.
\<close>

theorem minority_cannot_move_clock:
  assumes "sourceID \<notin> set (knownIDs m)" "os = push_offset (offsets m) (sample_offset now timeVal)"
    "5 \<le> length os" "length os mod 2 = 1" "2 * length (filter (\<lambda>x. a \<le> x \<and> x \<le> b) os) > length os"
    "- maxAllowedOffsetSecs < a" "b < maxAllowedOffsetSecs"
  shows "a \<le> offsetSecs (AddTimeSample now sourceID timeVal m) \<and> offsetSecs (AddTimeSample now sourceID timeVal m) \<le> b"
proof -
  note between = middle_between[OF assms(5,4)]
  then have "\<bar>sort os ! (length os div 2)\<bar> < maxAllowedOffsetSecs" using assms(6,7) by linarith
  then show ?thesis
    using assms(1-4) between by (auto simp: AddTimeSample_def Let_def set_offset_def)
qed

text \<open>Once the list is full its length stays even, and the offset is never updated again.\<close>

lemma full_clock_frozen:
  assumes "length (offsets m) = maxMedianTimeEntries"
  shows "offsetSecs (AddTimeSample now i t m) = offsetSecs m" "length (offsets (AddTimeSample now i t m)) = maxMedianTimeEntries"
  using assms by (auto simp: AddTimeSample_def Let_def push_offset_def maxMedianTimeEntries_def)

text \<open>Four honest samples of about ten seconds and one of a year.\<close>

theorem minority_cannot_move_clock_witness:
  "10 \<le> offsetSecs (AddTimeSample 0 ''e'' (unix_time 31536000) \<lparr>knownIDs = [''a'', ''b'', ''c'', ''d''], offsets = [10, 11, 12, 10],
      offsetSecs = 0, invalidTimeChecked = False\<rparr>)"
  using minority_cannot_move_clock[of "''e''" "\<lparr>knownIDs = [''a'', ''b'', ''c'', ''d''], offsets = [10, 11, 12, 10],
      offsetSecs = 0, invalidTimeChecked = False\<rparr>" "[10, 11, 12, 10, 31536000]" 0 "unix_time 31536000" 10 12]
  by (simp add: push_offset_def sample_offset_def time_Sub_def time_Unix_def unix_time_def go_div_def maxMedianTimeEntries_def maxAllowedOffsetSecs_def)

end
