(* ===== verification/Mempool_Policy.thy ===== *)
theory Mempool_Policy
  imports Validate_Block Complex_Main
begin

text \<open>
  The errors of the memory pool (mempool/error.go), its relay policy (mempool/policy.go) and the priority of a
  transaction (mining/policy.go).  A \<open>float64\<close> is the real number it stands for, and \<open>rnd\<close> rounds a real number
  to the nearest \<open>float64\<close>; every floating point operation of the code is the exact operation followed by
  \<open>rnd\<close>.  The reject codes are those of package \<open>wire\<close>, by name; descriptions are dropped from the errors.
\<close>

section \<open>Errors\<close>

datatype RejectCode = RejectInvalid | RejectObsolete | RejectDuplicate | RejectNonstandard | RejectDust | RejectInsufficientFee | RejectCheckpoint

text \<open>
  A \<open>RuleError\<close> of the pool wraps a \<open>TxRuleError\<close> or an error of the chain; other errors are passed on as they are.
\<close>

datatype pool_error = TxRuleError RejectCode | ChainRuleError ErrorCode | OtherError error

definition txRuleError :: "RejectCode \<Rightarrow> pool_error" where "txRuleError c = TxRuleError c"

definition chainRuleError :: "ErrorCode \<Rightarrow> pool_error" where "chainRuleError c = ChainRuleError c"

text \<open>The recurring step that wraps an error of the chain.\<close>

definition wrap_chain :: "error \<Rightarrow> pool_error" where
  "wrap_chain e = (case e of RuleError c \<Rightarrow> chainRuleError c | _ \<Rightarrow> OtherError e)"

definition chain_reject_code :: "ErrorCode \<Rightarrow> RejectCode" where
  "chain_reject_code c =
    (if c = ErrDuplicateBlock then RejectDuplicate
     else if c = ErrBlockVersionTooOld then RejectObsolete
     else if c = ErrCheckpointTimeTooOld \<or> c = ErrDifficultyTooLow \<or> c = ErrBadCheckpoint \<or> c = ErrForkTooOld then RejectCheckpoint
     else RejectInvalid)"

fun extractRejectCode :: "pool_error option \<Rightarrow> RejectCode \<times> bool" where
  "extractRejectCode (Some (ChainRuleError c)) = (chain_reject_code c, True)"
| "extractRejectCode (Some (TxRuleError c)) = (c, True)"
| "extractRejectCode (Some (OtherError (RuleError c))) = (chain_reject_code c, True)"
| "extractRejectCode (Some (OtherError e)) = (RejectInvalid, False)"
| "extractRejectCode None = (RejectInvalid, False)"

text \<open>The code that \<open>ErrToRejectErr\<close> returns; its texts are not modelled.\<close>

definition ErrToRejectErr :: "pool_error option \<Rightarrow> RejectCode" where
  "ErrToRejectErr e = (case extractRejectCode e of (rejectCode, found) \<Rightarrow> if found then rejectCode else RejectInvalid)"

section \<open>Fees and sizes\<close>

definition maxStandardP2SHSigOps :: int where "maxStandardP2SHSigOps = 15"
definition maxStandardTxWeight :: int where "maxStandardTxWeight = 400000"
definition maxStandardSigScriptSize :: nat where "maxStandardSigScriptSize = 1650"
definition DefaultMinRelayTxFee :: int where "DefaultMinRelayTxFee = 1000"
definition maxStandardMultiSigKeys :: int where "maxStandardMultiSigKeys = 3"

definition calcMinRequiredTxRelayFee :: "wire_lib \<Rightarrow> int \<Rightarrow> int \<Rightarrow> int" where
  "calcMinRequiredTxRelayFee L serializedSize minRelayTxFee =
    (let minFee = go_div (i64 (serializedSize * minRelayTxFee)) 1000;
         minFee = (if minFee = 0 \<and> minRelayTxFee > 0 then minRelayTxFee else minFee)
     in if minFee < 0 \<or> minFee > MaxSatoshi L then MaxSatoshi L else minFee)"

definition GetTxVirtualSize :: "wire_lib \<Rightarrow> MsgTx \<Rightarrow> int" where
  "GetTxVirtualSize L tx = go_div (i64 (GetTransactionWeight L tx + (int WitnessScaleFactor - 1))) (int WitnessScaleFactor)"

section \<open>Scripts\<close>

text \<open>The code has placeholders where the script library was: no script is recognised.\<close>

datatype ScriptClass = NonStandardTy | ScriptHashTy | MultiSigTy | NullDataTy

definition GetScriptClass :: "byte list \<Rightarrow> ScriptClass" where "GetScriptClass script = NonStandardTy"
definition GetPreciseSigOpCount :: "byte list \<Rightarrow> byte list \<Rightarrow> bool \<Rightarrow> int" where "GetPreciseSigOpCount a b c = 0"
definition CalcMultiSigStats :: "byte list \<Rightarrow> error + int \<times> int" where "CalcMultiSigStats script = Inr (0, 0)"
definition IsPayToAnchorScript :: "byte list \<Rightarrow> bool" where "IsPayToAnchorScript script = False"
definition IsWitnessProgram :: "byte list \<Rightarrow> bool" where "IsWitnessProgram script = False"
definition policy_IsUnspendable :: "byte list \<Rightarrow> bool" where "policy_IsUnspendable script = False"
definition IsPushOnlyScript :: "byte list \<Rightarrow> bool" where "IsPushOnlyScript script = False"

section \<open>Standard transactions\<close>

definition check_input_standard :: "UtxoViewpoint \<Rightarrow> TxIn \<Rightarrow> pool_error + unit" where
  "check_input_standard view txIn =
    (case LookupEntry view (PreviousOutPoint txIn) of
       None \<Rightarrow> Inl (OtherError Panic)
     | Some entry \<Rightarrow>
         let originPkScript = pkScript entry
         in if IsPayToAnchorScript originPkScript
            then if SignatureScript txIn \<noteq> [] then Inl (txRuleError RejectNonstandard)
                 else if Witness txIn \<noteq> [] then Inl (txRuleError RejectNonstandard)
                 else Inr ()
            else case GetScriptClass originPkScript of
                   ScriptHashTy \<Rightarrow>
                     if GetPreciseSigOpCount (SignatureScript txIn) originPkScript True > maxStandardP2SHSigOps
                     then Inl (txRuleError RejectNonstandard) else Inr ()
                 | NonStandardTy \<Rightarrow> Inl (txRuleError RejectNonstandard)
                 | _ \<Rightarrow> Inr ())"

text \<open>Loops that stop at the first error.\<close>

fun each :: "('a \<Rightarrow> 'e + unit) \<Rightarrow> 'a list \<Rightarrow> 'e + unit" where
  "each f [] = Inr ()"
| "each f (x # xs) = (case f x of Inl e \<Rightarrow> Inl e | Inr _ \<Rightarrow> each f xs)"

definition checkInputsStandard :: "MsgTx \<Rightarrow> UtxoViewpoint \<Rightarrow> pool_error + unit" where
  "checkInputsStandard tx view = each (check_input_standard view) (tx_TxIn tx)"

definition checkPkScriptStandard :: "byte list \<Rightarrow> ScriptClass \<Rightarrow> pool_error + unit" where
  "checkPkScriptStandard script scriptClass =
    (case scriptClass of
       MultiSigTy \<Rightarrow>
         (case CalcMultiSigStats script of
            Inl _ \<Rightarrow> Inl (txRuleError RejectNonstandard)
          | Inr (numPubKeys, numSigs) \<Rightarrow>
              if numPubKeys < 1 then Inl (txRuleError RejectNonstandard)
              else if numPubKeys > maxStandardMultiSigKeys then Inl (txRuleError RejectNonstandard)
              else if numSigs < 1 then Inl (txRuleError RejectNonstandard)
              else if numSigs > numPubKeys then Inl (txRuleError RejectNonstandard)
              else Inr ())
     | NonStandardTy \<Rightarrow> Inl (txRuleError RejectNonstandard)
     | _ \<Rightarrow> Inr ())"

text \<open>The size of a serialized output comes from package \<open>wire\<close>; it is the first argument.\<close>

definition GetDustThreshold :: "(TxOut \<Rightarrow> int) \<Rightarrow> TxOut \<Rightarrow> int" where
  "GetDustThreshold outSize txOut =
    (let totalSize = i64 (outSize txOut + 41);
         totalSize = (if IsWitnessProgram (PkScript txOut) then i64 (totalSize + 107 div int WitnessScaleFactor) else i64 (totalSize + 107))
     in i64 (3 * totalSize))"

definition IsDust :: "(TxOut \<Rightarrow> int) \<Rightarrow> TxOut \<Rightarrow> int \<Rightarrow> bool" where
  "IsDust outSize txOut minRelayTxFee =
    (if policy_IsUnspendable (PkScript txOut) then True
     else go_div (i64 (Value txOut * 1000)) (GetDustThreshold outSize txOut) < minRelayTxFee)"

definition check_input_script :: "TxIn \<Rightarrow> pool_error + unit" where
  "check_input_script txIn =
    (if length (SignatureScript txIn) > maxStandardSigScriptSize then Inl (txRuleError RejectNonstandard)
     else if \<not> IsPushOnlyScript (SignatureScript txIn) then Inl (txRuleError RejectNonstandard)
     else Inr ())"

text \<open>The loop over the outputs; the accumulator counts the outputs that only carry data.\<close>

fun check_outputs :: "(TxOut \<Rightarrow> int) \<Rightarrow> int \<Rightarrow> TxOut list \<Rightarrow> nat \<Rightarrow> pool_error + nat" where
  "check_outputs outSize fee [] numNullDataOutputs = Inr numNullDataOutputs"
| "check_outputs outSize fee (txOut # txOuts) numNullDataOutputs =
    (let scriptClass = GetScriptClass (PkScript txOut)
     in case checkPkScriptStandard (PkScript txOut) scriptClass of
          Inl e \<Rightarrow> Inl (txRuleError (case extractRejectCode (Some e) of (rejCode, found) \<Rightarrow> if found then rejCode else RejectNonstandard))
        | Inr _ \<Rightarrow>
            if scriptClass = NullDataTy then check_outputs outSize fee txOuts (numNullDataOutputs + 1)
            else if IsDust outSize txOut fee then Inl (txRuleError RejectDust)
            else check_outputs outSize fee txOuts numNullDataOutputs)"

definition CheckTransactionStandard :: "wire_lib \<Rightarrow> (TxOut \<Rightarrow> int) \<Rightarrow> MsgTx \<Rightarrow> int \<Rightarrow> int \<Rightarrow> int \<Rightarrow> int \<Rightarrow> pool_error + unit" where
  "CheckTransactionStandard L outSize tx height medianTimePast minRelayTxFee maxTxVersion =
    (if tx_Version tx > maxTxVersion \<or> tx_Version tx < 1 then Inl (txRuleError RejectNonstandard)
     else if \<not> IsFinalizedTransaction tx height medianTimePast then Inl (txRuleError RejectNonstandard)
     else if GetTransactionWeight L tx > maxStandardTxWeight then Inl (txRuleError RejectNonstandard)
     else case each check_input_script (tx_TxIn tx) of
            Inl e \<Rightarrow> Inl e
          | Inr _ \<Rightarrow>
              (case check_outputs outSize minRelayTxFee (tx_TxOut tx) 0 of
                 Inl e \<Rightarrow> Inl e
               | Inr numNullDataOutputs \<Rightarrow> if numNullDataOutputs > 1 then Inl (txRuleError RejectNonstandard) else Inr ()))"

section \<open>Priority\<close>

definition UnminedHeight :: int where "UnminedHeight = 0x7fffffff"

definition minInt :: "int \<Rightarrow> int \<Rightarrow> int" where "minInt a b = (if a < b then a else b)"

definition add_input_age :: "(real \<Rightarrow> real) \<Rightarrow> UtxoViewpoint \<Rightarrow> int \<Rightarrow> TxIn \<Rightarrow> real \<Rightarrow> real" where
  "add_input_age rnd utxoView nextBlockHeight txIn totalInputAge =
    (case LookupEntry utxoView (PreviousOutPoint txIn) of
       None \<Rightarrow> totalInputAge
     | Some entry \<Rightarrow>
         if IsSpent entry then totalInputAge
         else let originHeight = blockHeight entry;
                  inputAge = (if originHeight = UnminedHeight then 0 else i32 (nextBlockHeight - originHeight))
              in rnd (totalInputAge + rnd (of_int (i64 (amount entry * inputAge)))))"

definition calcInputValueAge :: "(real \<Rightarrow> real) \<Rightarrow> MsgTx \<Rightarrow> UtxoViewpoint \<Rightarrow> int \<Rightarrow> real" where
  "calcInputValueAge rnd tx utxoView nextBlockHeight = fold (add_input_age rnd utxoView nextBlockHeight) (tx_TxIn tx) 0"

definition CalcPriority :: "wire_lib \<Rightarrow> (real \<Rightarrow> real) \<Rightarrow> MsgTx \<Rightarrow> UtxoViewpoint \<Rightarrow> int \<Rightarrow> real" where
  "CalcPriority L rnd tx utxoView nextBlockHeight =
    (let overhead = sum_list (map (\<lambda>txIn. 41 + minInt 110 (int (length (SignatureScript txIn)))) (tx_TxIn tx));
         serializedTxSize = txSize L tx
     in if overhead \<ge> serializedTxSize then 0
        else rnd (calcInputValueAge rnd tx utxoView nextBlockHeight / rnd (of_int (serializedTxSize - overhead))))"

end
