(* ===== verification/Mempool.thy ===== *)
theory Mempool
  imports Mempool_Policy
begin

text \<open>
  The memory pool (mempool/mempool.go): transactions that wait to be mined, under their hash; for every output
  that one of them spends, its spender; and the orphans, transactions with unknown inputs, with an index by
  the outputs they spend.  Maps that the code loops over are association lists, in an arbitrary order.

  The functions that call themselves on related transactions take a bound on the depth of the recursion and
  return \<open>None\<close> when it is used up; the calls start with a bound that is larger than the number of
  transactions in the pool.  \<open>Mempool_Closure\<close> and \<open>Mempool_Orphans\<close> prove that this is always enough.

  The pool has neither an address index nor a fee estimator attached; its locks are not modelled, and the
  readings of the chain and of the clock during a call are fields of the configuration.
\<close>

section \<open>Data\<close>

definition DefaultBlockPrioritySize :: int where "DefaultBlockPrioritySize = 50000"
definition orphanTTL :: int where "orphanTTL = 15 * 60000000000"
definition orphanExpireScanInterval :: int where "orphanExpireScanInterval = 5 * 60000000000"
definition MaxRBFSequence :: uint32 where "MaxRBFSequence = 0xfffffffd"
definition MaxReplacementEvictions :: nat where "MaxReplacementEvictions = 100"
definition MinStandardTxNonWitnessSize :: int where "MinStandardTxNonWitnessSize = 65"

type_synonym Tag = uint64

record Policy =
  MaxTxVersion :: int
  DisableRelayPriority :: bool
  AcceptNonStd :: bool
  FreeTxRelayLimit :: real
  MaxOrphanTxs :: int
  MaxOrphanTxSize :: int
  MaxSigOpCostPerTx :: int
  MinRelayTxFee :: int
  RejectReplacement :: bool

text \<open>
  The configuration, the libraries, and what a call reads of the chain and of the clock.  \<open>decay p n\<close> is the
  product of \<open>p\<close> and \<open>math.Pow(1.0-1.0/600.0, n)\<close>.
\<close>

record pool_env =
  mpPolicy :: Policy
  mp_wire :: wire_lib
  mpParams :: Params
  FetchUtxoView :: "MsgTx \<Rightarrow> error + UtxoViewpoint"
  BestHeight :: int
  MedianTimePast :: int
  mp_CalcSequenceLock :: "MsgTx \<Rightarrow> UtxoViewpoint \<Rightarrow> error + SequenceLock"
  segwit_active :: "error + bool"
  outSize :: "TxOut \<Rightarrow> int"
  rnd :: "real \<Rightarrow> real"
  decay :: "real \<Rightarrow> int \<Rightarrow> real"
  MinHighPriority :: real
  mp_Now :: int

record TxDesc =
  td_Tx :: MsgTx
  td_Added :: int
  td_Height :: int
  td_Fee :: int
  FeePerKB :: int
  StartingPriority :: real

record orphanTx =
  ot_tx :: MsgTx
  ot_tag :: Tag
  ot_expiration :: int

type_synonym txmap = "(hash \<times> MsgTx) list"

record TxPool =
  pool :: "(hash \<times> TxDesc) list"
  mp_orphans :: "(hash \<times> orphanTx) list"
  orphansByPrev :: "OutPoint \<rightharpoonup> txmap"
  outpoints :: "OutPoint \<rightharpoonup> MsgTx"
  pennyTotal :: real
  lastPennyUnix :: int
  nextExpireScan :: int
  lastUpdated :: int

definition mempool_New :: "pool_env \<Rightarrow> TxPool" where
  "mempool_New env = \<lparr>pool = [], mp_orphans = [], orphansByPrev = Map.empty, outpoints = Map.empty, pennyTotal = 0,
    lastPennyUnix = 0, nextExpireScan = mp_Now env + orphanExpireScanInterval, lastUpdated = 0\<rparr>"

text \<open>A loop whose body may not return.\<close>

fun foldO :: "('x \<Rightarrow> 's \<Rightarrow> 's option) \<Rightarrow> 'x list \<Rightarrow> 's \<Rightarrow> 's option" where
  "foldO f [] s = Some s"
| "foldO f (x # xs) s = Option.bind (f x s) (foldO f xs)"

definition prevs :: "MsgTx \<Rightarrow> OutPoint list" where
  "prevs tx = map PreviousOutPoint (tx_TxIn tx)"

definition outs :: "wire_lib \<Rightarrow> MsgTx \<Rightarrow> OutPoint list" where
  "outs L tx = map (outpoint L tx) [0..<length (tx_TxOut tx)]"

section \<open>Orphans\<close>

text \<open>Drop the reference of an orphan under one of its inputs.\<close>

definition drop_ref :: "hash \<Rightarrow> OutPoint \<Rightarrow> (OutPoint \<rightharpoonup> txmap) \<Rightarrow> (OutPoint \<rightharpoonup> txmap)" where
  "drop_ref h p byPrev =
    (case byPrev p of
       None \<Rightarrow> byPrev
     | Some m \<Rightarrow> let m = AList.delete h m in byPrev(p := if m = [] then None else Some m))"

definition by_prev :: "TxPool \<Rightarrow> OutPoint \<Rightarrow> MsgTx list" where
  "by_prev mp p = (case orphansByPrev mp p of None \<Rightarrow> [] | Some m \<Rightarrow> map snd m)"

fun remove_orphan :: "nat \<Rightarrow> wire_lib \<Rightarrow> MsgTx \<Rightarrow> bool \<Rightarrow> TxPool \<Rightarrow> TxPool option" where
  "remove_orphan 0 L tx removeRedeemers mp = None"
| "remove_orphan (Suc k) L tx removeRedeemers mp =
    (let txHash = TxHash L tx
     in case map_of (mp_orphans mp) txHash of
          None \<Rightarrow> Some mp
        | Some otx \<Rightarrow>
            Option.bind
              (let mp = mp\<lparr>orphansByPrev := fold (drop_ref txHash) (prevs (ot_tx otx)) (orphansByPrev mp)\<rparr>
               in if removeRedeemers
                  then foldO (\<lambda>p mp. foldO (\<lambda>orphan. remove_orphan k L orphan True) (by_prev mp p) mp) (outs L tx) mp
                  else Some mp)
              (\<lambda>mp. Some (mp\<lparr>mp_orphans := AList.delete txHash (mp_orphans mp)\<rparr>)))"

definition removeOrphan :: "wire_lib \<Rightarrow> MsgTx \<Rightarrow> bool \<Rightarrow> TxPool \<Rightarrow> TxPool option" where
  "removeOrphan L tx removeRedeemers mp = remove_orphan (length (mp_orphans mp) + 1) L tx removeRedeemers mp"

definition RemoveOrphan :: "wire_lib \<Rightarrow> MsgTx \<Rightarrow> TxPool \<Rightarrow> TxPool option" where
  "RemoveOrphan L tx mp = removeOrphan L tx False mp"

text \<open>An orphan that the removal of another one has taken out of the map is not visited.\<close>

definition RemoveOrphansByTag :: "wire_lib \<Rightarrow> Tag \<Rightarrow> TxPool \<Rightarrow> (TxPool \<times> nat) option" where
  "RemoveOrphansByTag L tag mp =
    foldO (\<lambda>(h, otx) (mp, numEvicted).
        if map_of (mp_orphans mp) h \<noteq> None \<and> ot_tag otx = tag
        then map_option (\<lambda>mp. (mp, numEvicted + 1)) (removeOrphan L (ot_tx otx) True mp)
        else Some (mp, numEvicted)) (mp_orphans mp) (mp, 0)"

definition expire_orphans :: "pool_env \<Rightarrow> TxPool \<Rightarrow> TxPool option" where
  "expire_orphans env mp =
    (if mp_Now env > nextExpireScan mp
     then map_option (\<lambda>mp. mp\<lparr>nextExpireScan := mp_Now env + orphanExpireScanInterval\<rparr>)
       (foldO (\<lambda>(h, otx) mp. if mp_Now env > ot_expiration otx then removeOrphan (mp_wire env) (ot_tx otx) True mp else Some mp)
         (mp_orphans mp) mp)
     else Some mp)"

definition limitNumOrphans :: "pool_env \<Rightarrow> TxPool \<Rightarrow> TxPool option" where
  "limitNumOrphans env mp =
    Option.bind (expire_orphans env mp) (\<lambda>mp.
      if int (length (mp_orphans mp)) + 1 \<le> MaxOrphanTxs (mpPolicy env) then Some mp
      else case mp_orphans mp of
             [] \<Rightarrow> Some mp
           | (h, otx) # _ \<Rightarrow> removeOrphan (mp_wire env) (ot_tx otx) False mp)"

definition add_ref :: "hash \<Rightarrow> MsgTx \<Rightarrow> OutPoint \<Rightarrow> (OutPoint \<rightharpoonup> txmap) \<Rightarrow> (OutPoint \<rightharpoonup> txmap)" where
  "add_ref h tx p byPrev = byPrev(p \<mapsto> AList.update h tx (case byPrev p of None \<Rightarrow> [] | Some m \<Rightarrow> m))"

definition addOrphan :: "pool_env \<Rightarrow> MsgTx \<Rightarrow> Tag \<Rightarrow> TxPool \<Rightarrow> TxPool option" where
  "addOrphan env tx tag mp =
    (if MaxOrphanTxs (mpPolicy env) \<le> 0 then Some mp
     else let h = TxHash (mp_wire env) tx
          in map_option (\<lambda>mp. mp\<lparr>mp_orphans := AList.update h \<lparr>ot_tx = tx, ot_tag = tag, ot_expiration = mp_Now env + orphanTTL\<rparr> (mp_orphans mp),
                 orphansByPrev := fold (add_ref h tx) (prevs tx) (orphansByPrev mp)\<rparr>) (limitNumOrphans env mp))"

definition maybeAddOrphan :: "pool_env \<Rightarrow> MsgTx \<Rightarrow> Tag \<Rightarrow> TxPool \<Rightarrow> ((pool_error + unit) \<times> TxPool) option" where
  "maybeAddOrphan env tx tag mp =
    (if txSize (mp_wire env) tx > MaxOrphanTxSize (mpPolicy env) then Some (Inl (txRuleError RejectNonstandard), mp)
     else map_option (\<lambda>mp. (Inr (), mp)) (addOrphan env tx tag mp))"

definition removeOrphanDoubleSpends :: "wire_lib \<Rightarrow> MsgTx \<Rightarrow> TxPool \<Rightarrow> TxPool option" where
  "removeOrphanDoubleSpends L tx mp =
    foldO (\<lambda>p mp. foldO (\<lambda>orphan. removeOrphan L orphan True) (by_prev mp p) mp) (prevs tx) mp"

section \<open>The main pool\<close>

definition isTransactionInPool :: "TxPool \<Rightarrow> hash \<Rightarrow> bool" where
  "isTransactionInPool mp h \<longleftrightarrow> map_of (pool mp) h \<noteq> None"

definition isOrphanInPool :: "TxPool \<Rightarrow> hash \<Rightarrow> bool" where
  "isOrphanInPool mp h \<longleftrightarrow> map_of (mp_orphans mp) h \<noteq> None"

definition haveTransaction :: "TxPool \<Rightarrow> hash \<Rightarrow> bool" where
  "haveTransaction mp h \<longleftrightarrow> isTransactionInPool mp h \<or> isOrphanInPool mp h"

text \<open>Take one transaction out of the pool.\<close>

definition take_out :: "pool_env \<Rightarrow> hash \<Rightarrow> TxPool \<Rightarrow> TxPool" where
  "take_out env h mp =
    (case map_of (pool mp) h of
       None \<Rightarrow> mp
     | Some txDesc \<Rightarrow> mp\<lparr>outpoints := (outpoints mp) |` (- set (prevs (td_Tx txDesc))),
         pool := AList.delete h (pool mp), lastUpdated := time_Unix (mp_Now env)\<rparr>)"

fun remove_transaction :: "nat \<Rightarrow> pool_env \<Rightarrow> MsgTx \<Rightarrow> bool \<Rightarrow> TxPool \<Rightarrow> TxPool option" where
  "remove_transaction 0 env tx removeRedeemers mp = None"
| "remove_transaction (Suc k) env tx removeRedeemers mp =
    Option.bind
      (if removeRedeemers
       then foldO (\<lambda>prevOut mp.
              case outpoints mp prevOut of
                None \<Rightarrow> Some mp
              | Some txRedeemer \<Rightarrow> remove_transaction k env txRedeemer True mp) (outs (mp_wire env) tx) mp
       else Some mp)
      (\<lambda>mp. Some (take_out env (TxHash (mp_wire env) tx) mp))"

definition removeTransaction :: "pool_env \<Rightarrow> MsgTx \<Rightarrow> bool \<Rightarrow> TxPool \<Rightarrow> TxPool option" where
  "removeTransaction env tx removeRedeemers mp = remove_transaction (length (pool mp) + 1) env tx removeRedeemers mp"

definition RemoveDoubleSpends :: "pool_env \<Rightarrow> MsgTx \<Rightarrow> TxPool \<Rightarrow> TxPool option" where
  "RemoveDoubleSpends env tx mp =
    foldO (\<lambda>p mp.
      case outpoints mp p of
        None \<Rightarrow> Some mp
      | Some txRedeemer \<Rightarrow>
          if TxHash (mp_wire env) txRedeemer \<noteq> TxHash (mp_wire env) tx then removeTransaction env txRedeemer True mp else Some mp)
      (prevs tx) mp"

definition addTransaction :: "pool_env \<Rightarrow> UtxoViewpoint \<Rightarrow> MsgTx \<Rightarrow> int \<Rightarrow> int \<Rightarrow> TxPool \<Rightarrow> TxPool \<times> TxDesc" where
  "addTransaction env utxoView tx height fee mp =
    (let L = mp_wire env;
         txD = \<lparr>td_Tx = tx, td_Added = mp_Now env, td_Height = height, td_Fee = fee,
           FeePerKB = go_div (i64 (fee * 1000)) (GetTxVirtualSize L tx), StartingPriority = CalcPriority L (rnd env) tx utxoView height\<rparr>
     in (mp\<lparr>pool := AList.update (TxHash L tx) txD (pool mp),
            outpoints := fold (\<lambda>p m. m(p \<mapsto> tx)) (prevs tx) (outpoints mp), lastUpdated := time_Unix (mp_Now env)\<rparr>, txD))"

section \<open>Replacement\<close>

text \<open>The cache holds the hashes of transactions that do not signal replacement.\<close>

fun signals_inputs :: "(MsgTx \<Rightarrow> hash list \<Rightarrow> (bool \<times> hash list) option) \<Rightarrow> TxPool \<Rightarrow> TxIn list \<Rightarrow> hash list \<Rightarrow> (bool \<times> hash list) option" where
  "signals_inputs rec mp [] cache = Some (False, cache)"
| "signals_inputs rec mp (txIn # txIns) cache =
    (if Sequence txIn \<le> MaxRBFSequence then Some (True, cache)
     else let h = op_Hash (PreviousOutPoint txIn)
          in case map_of (pool mp) h of
               None \<Rightarrow> signals_inputs rec mp txIns cache
             | Some unconfirmedAncestor \<Rightarrow>
                 if h \<in> set cache then signals_inputs rec mp txIns cache
                 else Option.bind (rec (td_Tx unconfirmedAncestor) cache) (\<lambda>(signals, cache).
                   if signals then Some (True, cache) else signals_inputs rec mp txIns (h # cache)))"

fun signals_replacement :: "nat \<Rightarrow> TxPool \<Rightarrow> MsgTx \<Rightarrow> hash list \<Rightarrow> (bool \<times> hash list) option" where
  "signals_replacement 0 mp tx cache = None"
| "signals_replacement (Suc k) mp tx cache = signals_inputs (signals_replacement k mp) mp (tx_TxIn tx) cache"

definition signalsReplacement :: "TxPool \<Rightarrow> MsgTx \<Rightarrow> bool option" where
  "signalsReplacement mp tx = map_option fst (signals_replacement (length (pool mp) + 1) mp tx [])"

text \<open>\<open>maps.Copy\<close>.\<close>

definition copy_map :: "txmap \<Rightarrow> txmap \<Rightarrow> txmap" where
  "copy_map src dst = fold (\<lambda>(h, tx). AList.update h tx) src dst"

type_synonym txcache = "(hash \<times> txmap) list"

fun tx_ancestors :: "nat \<Rightarrow> wire_lib \<Rightarrow> TxPool \<Rightarrow> MsgTx \<Rightarrow> txcache \<Rightarrow> (txmap \<times> txcache) option" where
  "tx_ancestors 0 L mp tx cache = None"
| "tx_ancestors (Suc k) L mp tx cache =
    foldO (\<lambda>p (ancestors, cache).
      case map_of (pool mp) (op_Hash p) of
        None \<Rightarrow> Some (ancestors, cache)
      | Some par \<Rightarrow>
          let h = TxHash L (td_Tx par); ancestors = AList.update h (td_Tx par) ancestors
          in case map_of cache h of
               Some moreAncestors \<Rightarrow> Some (copy_map moreAncestors ancestors, cache)
             | None \<Rightarrow> map_option (\<lambda>(moreAncestors, cache). (copy_map moreAncestors ancestors, AList.update h moreAncestors cache))
                 (tx_ancestors k L mp (td_Tx par) cache)) (prevs tx) ([], cache)"

definition txAncestors :: "wire_lib \<Rightarrow> TxPool \<Rightarrow> MsgTx \<Rightarrow> txmap option" where
  "txAncestors L mp tx = map_option fst (tx_ancestors (length (pool mp) + 1) L mp tx [])"

fun tx_descendants :: "nat \<Rightarrow> wire_lib \<Rightarrow> TxPool \<Rightarrow> MsgTx \<Rightarrow> txcache \<Rightarrow> (txmap \<times> txcache) option" where
  "tx_descendants 0 L mp tx cache = None"
| "tx_descendants (Suc k) L mp tx cache =
    foldO (\<lambda>p (descendants, cache).
      case outpoints mp p of
        None \<Rightarrow> Some (descendants, cache)
      | Some descendant \<Rightarrow>
          let h = TxHash L descendant; descendants = AList.update h descendant descendants
          in case map_of cache h of
               Some moreDescendants \<Rightarrow> Some (copy_map moreDescendants descendants, cache)
             | None \<Rightarrow> map_option (\<lambda>(moreDescendants, cache). (copy_map moreDescendants descendants, AList.update h moreDescendants cache))
                 (tx_descendants k L mp descendant cache)) (outs L tx) ([], cache)"

definition txDescendants :: "wire_lib \<Rightarrow> TxPool \<Rightarrow> MsgTx \<Rightarrow> txmap option" where
  "txDescendants L mp tx = map_option fst (tx_descendants (length (pool mp) + 1) L mp tx [])"

definition txConflicts :: "wire_lib \<Rightarrow> TxPool \<Rightarrow> MsgTx \<Rightarrow> txmap option" where
  "txConflicts L mp tx =
    foldO (\<lambda>p conflicts.
      case outpoints mp p of
        None \<Rightarrow> Some conflicts
      | Some conflict \<Rightarrow>
          map_option (\<lambda>descendants. copy_map descendants (AList.update (TxHash L conflict) conflict conflicts))
            (txDescendants L mp conflict)) (prevs tx) []"

definition CheckSpend :: "TxPool \<Rightarrow> OutPoint \<Rightarrow> MsgTx option" where
  "CheckSpend mp p = outpoints mp p"

fun check_conflicts :: "pool_env \<Rightarrow> TxPool \<Rightarrow> OutPoint list \<Rightarrow> bool \<Rightarrow> (pool_error + bool) option" where
  "check_conflicts env mp [] isReplacement = Some (Inr isReplacement)"
| "check_conflicts env mp (p # ps) isReplacement =
    (case outpoints mp p of
       None \<Rightarrow> check_conflicts env mp ps isReplacement
     | Some conflict \<Rightarrow>
         if RejectReplacement (mpPolicy env) then Some (Inl (txRuleError RejectDuplicate))
         else Option.bind (signalsReplacement mp conflict) (\<lambda>signals.
           if \<not> signals then Some (Inl (txRuleError RejectDuplicate)) else check_conflicts env mp ps True))"

definition checkPoolDoubleSpend :: "pool_env \<Rightarrow> TxPool \<Rightarrow> MsgTx \<Rightarrow> (pool_error + bool) option" where
  "checkPoolDoubleSpend env mp tx = check_conflicts env mp (prevs tx) False"

text \<open>The loop over the conflicts adds up their fees and collects the transactions they spend from.\<close>

fun check_fee_rates :: "TxPool \<Rightarrow> int \<Rightarrow> txmap \<Rightarrow> int \<Rightarrow> hash set \<Rightarrow> pool_error + int \<times> hash set" where
  "check_fee_rates mp txFeeRate [] conflictsFee conflictsParents = Inr (conflictsFee, conflictsParents)"
| "check_fee_rates mp txFeeRate ((h, conflict) # rest) conflictsFee conflictsParents =
    (case map_of (pool mp) h of
       None \<Rightarrow> Inl (OtherError Panic)
     | Some txDesc \<Rightarrow>
         if txFeeRate \<le> FeePerKB txDesc then Inl (txRuleError RejectInsufficientFee)
         else check_fee_rates mp txFeeRate rest (i64 (conflictsFee + td_Fee txDesc)) (conflictsParents \<union> op_Hash ` set (prevs conflict)))"

definition validateReplacement :: "pool_env \<Rightarrow> TxPool \<Rightarrow> MsgTx \<Rightarrow> int \<Rightarrow> (pool_error + txmap) option" where
  "validateReplacement env mp tx txFee =
    (let L = mp_wire env
     in Option.bind (txConflicts L mp tx) (\<lambda>conflicts.
        if length conflicts > MaxReplacementEvictions then Some (Inl (txRuleError RejectNonstandard))
        else Option.bind (txAncestors L mp tx) (\<lambda>ancestors.
          if \<exists>h \<in> fst ` set ancestors. map_of conflicts h \<noteq> None then Some (Inl (txRuleError RejectInvalid))
          else let vsize = GetTxVirtualSize L tx
               in if vsize = 0 then Some (Inl (OtherError Panic))
                  else Some (case check_fee_rates mp (go_div (i64 (txFee * 1000)) vsize) conflicts 0 {} of
                    Inl e \<Rightarrow> Inl e
                  | Inr (conflictsFee, conflictsParents) \<Rightarrow>
                      let minFee = calcMinRequiredTxRelayFee L vsize (MinRelayTxFee (mpPolicy env))
                      in if txFee < i64 (conflictsFee + minFee) then Inl (txRuleError RejectInsufficientFee)
                         else if list_ex (\<lambda>p. op_Hash p \<notin> conflictsParents \<and> map_of (pool mp) (op_Hash p) \<noteq> None) (prevs tx)
                         then Inl (txRuleError RejectInvalid)
                         else Inr conflicts))))"

end
