(* ===== verification/Mempool_Accept.thy ===== *)
theory Mempool_Accept
  imports Mempool
begin

text \<open>
  Acceptance of transactions into the memory pool (mempool/mempool.go): the checks, the replacement of conflicting
  transactions, and the orphans that an accepted transaction releases.  A call returns its result or error with
  the pool it leaves; \<open>OtherError Panic\<close> is a nil dereference or a division by zero.
\<close>

section \<open>Inputs\<close>

definition fetch_pool_input :: "wire_lib \<Rightarrow> TxPool \<Rightarrow> OutPoint \<Rightarrow> UtxoViewpoint \<Rightarrow> UtxoViewpoint" where
  "fetch_pool_input L mp prevOut view =
    (if (case LookupEntry view prevOut of None \<Rightarrow> False | Some entry \<Rightarrow> \<not> IsSpent entry) then view
     else case map_of (pool mp) (op_Hash prevOut) of
            None \<Rightarrow> view
          | Some poolTxDesc \<Rightarrow> AddTxOut L (td_Tx poolTxDesc) (op_Index prevOut) UnminedHeight view)"

definition mp_fetchInputUtxos :: "pool_env \<Rightarrow> TxPool \<Rightarrow> MsgTx \<Rightarrow> error + UtxoViewpoint" where
  "mp_fetchInputUtxos env mp tx =
    bindE (FetchUtxoView env tx) (\<lambda>utxoView. Inr (fold (fetch_pool_input (mp_wire env) mp) (prevs tx) utxoView))"

definition FetchTransaction :: "TxPool \<Rightarrow> hash \<Rightarrow> error + MsgTx" where
  "FetchTransaction mp h = (case map_of (pool mp) h of None \<Rightarrow> Inl CalleeError | Some txDesc \<Rightarrow> Inr (td_Tx txDesc))"

text \<open>The loop over the outputs of a transaction that may exist in the chain already; the rest are dropped from the view.\<close>

fun check_not_mined :: "OutPoint list \<Rightarrow> UtxoViewpoint \<Rightarrow> pool_error + UtxoViewpoint" where
  "check_not_mined [] view = Inr view"
| "check_not_mined (p # ps) view =
    (if (case LookupEntry view p of None \<Rightarrow> False | Some entry \<Rightarrow> \<not> IsSpent entry) then Inl (txRuleError RejectDuplicate)
     else check_not_mined ps (RemoveEntry p view))"

definition missing_parents :: "UtxoViewpoint \<Rightarrow> hash list" where
  "missing_parents view =
    map (op_Hash \<circ> fst) (filter (\<lambda>(p, entry). case entry of None \<Rightarrow> True | Some e \<Rightarrow> IsSpent e) (entries view))"

section \<open>Checks\<close>

definition validateSegWitDeployment :: "pool_env \<Rightarrow> MsgTx \<Rightarrow> pool_error + unit" where
  "validateSegWitDeployment env tx =
    (if \<not> HasWitness (mp_wire env) tx then Inr ()
     else case segwit_active env of
            Inl e \<Rightarrow> Inl (OtherError e)
          | Inr segwitActive \<Rightarrow> if segwitActive then Inr () else Inl (txRuleError RejectNonstandard))"

definition standard_error :: "pool_error \<Rightarrow> pool_error" where
  "standard_error e =
    (if e = OtherError Panic then e
     else case extractRejectCode (Some e) of (rejectCode, found) \<Rightarrow> txRuleError (if found then rejectCode else RejectNonstandard))"

definition validateStandardness :: "pool_env \<Rightarrow> MsgTx \<Rightarrow> int \<Rightarrow> int \<Rightarrow> UtxoViewpoint \<Rightarrow> pool_error + unit" where
  "validateStandardness env tx nextBlockHeight medianTimePast utxoView =
    (if AcceptNonStd (mpPolicy env) then Inr ()
     else case CheckTransactionStandard (mp_wire env) (outSize env) tx nextBlockHeight medianTimePast
                 (MinRelayTxFee (mpPolicy env)) (MaxTxVersion (mpPolicy env)) of
            Inl e \<Rightarrow> Inl (standard_error e)
          | Inr _ \<Rightarrow>
              (case checkInputsStandard tx utxoView of
                 Inl e \<Rightarrow> Inl (standard_error e)
               | Inr _ \<Rightarrow> Inr ()))"

definition validateSigCost :: "pool_env \<Rightarrow> MsgTx \<Rightarrow> UtxoViewpoint \<Rightarrow> pool_error + unit" where
  "validateSigCost env tx utxoView =
    (case GetSigOpCost tx False utxoView True True of
       Inl e \<Rightarrow> Inl (wrap_chain e)
     | Inr sigOpCost \<Rightarrow> if sigOpCost \<le> MaxSigOpCostPerTx (mpPolicy env) then Inr () else Inl (txRuleError RejectNonstandard))"

text \<open>Free transactions are rate limited; the counter changes also when the transaction is refused.\<close>

definition validateRelayFeeMet ::
  "pool_env \<Rightarrow> MsgTx \<Rightarrow> int \<Rightarrow> int \<Rightarrow> UtxoViewpoint \<Rightarrow> int \<Rightarrow> bool \<Rightarrow> bool \<Rightarrow> TxPool \<Rightarrow> (pool_error + unit) \<times> TxPool" where
  "validateRelayFeeMet env tx txFee vsize utxoView nextBlockHeight isNew rateLimit mp =
    (let minFee = calcMinRequiredTxRelayFee (mp_wire env) vsize (MinRelayTxFee (mpPolicy env));
         nowUnix = time_Unix (mp_Now env)
     in if vsize \<ge> DefaultBlockPrioritySize - 1000 \<and> txFee < minFee then (Inl (txRuleError RejectInsufficientFee), mp)
        else if txFee \<ge> minFee then (Inr (), mp)
        else if \<not> isNew \<and> \<not> rateLimit then (Inr (), mp)
        else if isNew \<and> \<not> DisableRelayPriority (mpPolicy env) \<and> CalcPriority (mp_wire env) (rnd env) tx utxoView nextBlockHeight \<le> MinHighPriority env
        then (Inl (txRuleError RejectInsufficientFee), mp)
        else let mp = mp\<lparr>pennyTotal := decay env (pennyTotal mp) (i64 (nowUnix - lastPennyUnix mp)), lastPennyUnix := nowUnix\<rparr>
             in if pennyTotal mp \<ge> rnd env (rnd env (FreeTxRelayLimit (mpPolicy env) * 10) * 1000)
                then (Inl (txRuleError RejectInsufficientFee), mp)
                else (Inr (), mp\<lparr>pennyTotal := rnd env (pennyTotal mp + rnd env (of_int vsize))\<rparr>))"

text \<open>The signatures are not checked.\<close>

definition validateTxScriptsMempool :: "MsgTx \<Rightarrow> UtxoViewpoint \<Rightarrow> int \<Rightarrow> error + unit" where
  "validateTxScriptsMempool tx view flags = Inr ()"

record MempoolAcceptResult =
  r_TxFee :: int
  r_TxSize :: int
  Conflicts :: txmap
  MissingParents :: "hash list"
  r_utxoView :: UtxoViewpoint
  r_bestHeight :: int

text \<open>The checks before the inputs are known: the result is the fee and whether the transaction replaces others.\<close>

definition check_early :: "pool_env \<Rightarrow> TxPool \<Rightarrow> MsgTx \<Rightarrow> bool \<Rightarrow> (pool_error + bool) option" where
  "check_early env mp tx rejectDupOrphans =
    (let L = mp_wire env; txHash = TxHash L tx
     in case validateSegWitDeployment env tx of
          Inl e \<Rightarrow> Some (Inl e)
        | Inr _ \<Rightarrow>
            if isTransactionInPool mp txHash \<or> rejectDupOrphans \<and> isOrphanInPool mp txHash then Some (Inl (txRuleError RejectDuplicate))
            else if txSizeStripped L tx < MinStandardTxNonWitnessSize then Some (Inl (txRuleError RejectNonstandard))
            else case CheckTransactionSanity L tx of
                   Inl e \<Rightarrow> Some (Inl (wrap_chain e))
                 | Inr _ \<Rightarrow>
                     if IsCoinBase tx then Some (Inl (txRuleError RejectInvalid))
                     else checkPoolDoubleSpend env mp tx)"

text \<open>The view of the inputs, without outputs of the transaction itself.\<close>

definition check_view :: "pool_env \<Rightarrow> TxPool \<Rightarrow> MsgTx \<Rightarrow> pool_error + UtxoViewpoint" where
  "check_view env mp tx =
    (case mp_fetchInputUtxos env mp tx of
       Inl e \<Rightarrow> Inl (wrap_chain e)
     | Inr utxoView \<Rightarrow> check_not_mined (outs (mp_wire env) tx) utxoView)"

text \<open>The checks on known inputs up to the signature operations; the result is the fee.\<close>

definition check_inputs :: "pool_env \<Rightarrow> MsgTx \<Rightarrow> UtxoViewpoint \<Rightarrow> pool_error + int" where
  "check_inputs env tx utxoView =
    (let nextBlockHeight = i32 (BestHeight env + 1); medianTimePast = MedianTimePast env
     in case CheckTransactionInputs (mp_wire env) (mpParams env) tx nextBlockHeight utxoView of
          Inl e \<Rightarrow> Inl (wrap_chain e)
        | Inr txFee \<Rightarrow>
            (case validateStandardness env tx nextBlockHeight medianTimePast utxoView of
               Inl e \<Rightarrow> Inl e
             | Inr _ \<Rightarrow>
                 (case mp_CalcSequenceLock env tx utxoView of
                    Inl e \<Rightarrow> Inl (wrap_chain e)
                  | Inr sequenceLock \<Rightarrow>
                      if \<not> SequenceLockActive sequenceLock nextBlockHeight medianTimePast then Inl (txRuleError RejectNonstandard)
                      else case validateSigCost env tx utxoView of Inl e \<Rightarrow> Inl e | Inr _ \<Rightarrow> Inr txFee)))"

definition checkMempoolAcceptance ::
  "pool_env \<Rightarrow> MsgTx \<Rightarrow> bool \<Rightarrow> bool \<Rightarrow> bool \<Rightarrow> TxPool \<Rightarrow> ((pool_error + MempoolAcceptResult) \<times> TxPool) option" where
  "checkMempoolAcceptance env tx isNew rateLimit rejectDupOrphans mp =
    Option.bind (check_early env mp tx rejectDupOrphans) (\<lambda>early.
    case early of
      Inl e \<Rightarrow> Some (Inl e, mp)
    | Inr isReplacement \<Rightarrow>
        (case check_view env mp tx of
           Inl e \<Rightarrow> Some (Inl e, mp)
         | Inr utxoView \<Rightarrow>
             if missing_parents utxoView \<noteq> []
             then Some (Inr \<lparr>r_TxFee = 0, r_TxSize = 0, Conflicts = [], MissingParents = missing_parents utxoView,
                    r_utxoView = utxoView, r_bestHeight = 0\<rparr>, mp)
             else case check_inputs env tx utxoView of
                    Inl e \<Rightarrow> Some (Inl e, mp)
                  | Inr txFee \<Rightarrow>
                      let vsize = GetTxVirtualSize (mp_wire env) tx
                      in case validateRelayFeeMet env tx txFee vsize utxoView (i32 (BestHeight env + 1)) isNew rateLimit mp of
                           (Inl e, mp) \<Rightarrow> Some (Inl e, mp)
                         | (Inr _, mp) \<Rightarrow>
                             Option.bind (if isReplacement then validateReplacement env mp tx txFee else Some (Inr [])) (\<lambda>replaced.
                             case replaced of
                               Inl e \<Rightarrow> Some (Inl e, mp)
                             | Inr conflicts \<Rightarrow>
                                 (case validateTxScriptsMempool tx utxoView 0 of
                                    Inl e \<Rightarrow> Some (Inl (wrap_chain e), mp)
                                  | Inr _ \<Rightarrow> Some (Inr \<lparr>r_TxFee = txFee, r_TxSize = vsize, Conflicts = conflicts, MissingParents = [],
                                      r_utxoView = utxoView, r_bestHeight = BestHeight env\<rparr>, mp)))))"

definition CheckMempoolAcceptance :: "pool_env \<Rightarrow> MsgTx \<Rightarrow> TxPool \<Rightarrow> ((pool_error + MempoolAcceptResult) \<times> TxPool) option" where
  "CheckMempoolAcceptance env tx mp = checkMempoolAcceptance env tx True True True mp"

section \<open>Acceptance\<close>

text \<open>The loop over the conflicts; the log line reads the descriptor of each.\<close>

fun replace_conflicts :: "pool_env \<Rightarrow> txmap \<Rightarrow> TxPool \<Rightarrow> ((pool_error + unit) \<times> TxPool) option" where
  "replace_conflicts env [] mp = Some (Inr (), mp)"
| "replace_conflicts env ((h, conflict) # rest) mp =
    (if map_of (pool mp) (TxHash (mp_wire env) conflict) = None then Some (Inl (OtherError Panic), mp)
     else Option.bind (removeTransaction env conflict False mp) (replace_conflicts env rest))"

text \<open>The result is the missing parents, or the descriptor of the accepted transaction.\<close>

definition maybeAcceptTransaction ::
  "pool_env \<Rightarrow> MsgTx \<Rightarrow> bool \<Rightarrow> bool \<Rightarrow> bool \<Rightarrow> TxPool \<Rightarrow> ((pool_error + hash list \<times> TxDesc option) \<times> TxPool) option" where
  "maybeAcceptTransaction env tx isNew rateLimit rejectDupOrphans mp =
    Option.bind (checkMempoolAcceptance env tx isNew rateLimit rejectDupOrphans mp) (\<lambda>(r, mp).
    case r of
      Inl e \<Rightarrow> Some (Inl e, mp)
    | Inr r \<Rightarrow>
        if MissingParents r \<noteq> [] then Some (Inr (MissingParents r, None), mp)
        else Option.bind (replace_conflicts env (Conflicts r) mp) (\<lambda>(rc, mp).
          case rc of
            Inl e \<Rightarrow> Some (Inl e, mp)
          | Inr _ \<Rightarrow> let (mp, txD) = addTransaction env (r_utxoView r) tx (r_bestHeight r) (r_TxFee r) mp
                     in Some (Inr ([], Some txD), mp)))"

definition MaybeAcceptTransaction ::
  "pool_env \<Rightarrow> MsgTx \<Rightarrow> bool \<Rightarrow> bool \<Rightarrow> TxPool \<Rightarrow> ((pool_error + hash list \<times> TxDesc option) \<times> TxPool) option" where
  "MaybeAcceptTransaction env tx isNew rateLimit mp = maybeAcceptTransaction env tx isNew rateLimit True mp"

text \<open>
  The orphans that spend one output: the first that is accepted or invalid ends the loop.  The result holds the
  transactions still to process, the descriptors of the accepted ones, and the pool.
\<close>

type_synonym progress = "MsgTx list \<times> TxDesc list \<times> TxPool"

fun try_orphans :: "pool_env \<Rightarrow> MsgTx list \<Rightarrow> progress \<Rightarrow> (pool_error + progress) option" where
  "try_orphans env [] st = Some (Inr st)"
| "try_orphans env (tx # txs) (processList, acceptedTxns, mp) =
    Option.bind (maybeAcceptTransaction env tx True True False mp) (\<lambda>(r, mp).
    case r of
      Inl e \<Rightarrow>
        if e = OtherError Panic then Some (Inl e)
        else map_option (\<lambda>mp. Inr (processList, acceptedTxns, mp)) (removeOrphan (mp_wire env) tx True mp)
    | Inr (missing, txD) \<Rightarrow>
        if missing \<noteq> [] then try_orphans env txs (processList, acceptedTxns, mp)
        else map_option (\<lambda>mp. Inr (processList @ [tx], acceptedTxns @ (case txD of None \<Rightarrow> [] | Some d \<Rightarrow> [d]), mp))
               (removeOrphan (mp_wire env) tx False mp))"

fun visit_outputs :: "pool_env \<Rightarrow> OutPoint list \<Rightarrow> progress \<Rightarrow> (pool_error + progress) option" where
  "visit_outputs env [] st = Some (Inr st)"
| "visit_outputs env (prevOut # ps) (processList, acceptedTxns, mp) =
    Option.bind (try_orphans env (by_prev mp prevOut) (processList, acceptedTxns, mp)) (\<lambda>r.
    case r of
      Inl e \<Rightarrow> Some (Inl e)
    | Inr st \<Rightarrow> visit_outputs env ps st)"

partial_function (option) process_list :: "pool_env \<Rightarrow> progress \<Rightarrow> (pool_error + TxDesc list \<times> TxPool) option" where
  "process_list env st =
    (case st of (processList, acceptedTxns, mp) \<Rightarrow>
     case processList of
       [] \<Rightarrow> Some (Inr (acceptedTxns, mp))
     | processItem # rest \<Rightarrow>
         Option.bind (visit_outputs env (outs (mp_wire env) processItem) (rest, acceptedTxns, mp)) (\<lambda>r.
         case r of
           Inl e \<Rightarrow> Some (Inl e)
         | Inr st \<Rightarrow> process_list env st))"

declare process_list.simps [code]

definition mp_processOrphans :: "pool_env \<Rightarrow> MsgTx \<Rightarrow> TxPool \<Rightarrow> (pool_error + TxDesc list \<times> TxPool) option" where
  "mp_processOrphans env acceptedTx mp =
    Option.bind (process_list env ([acceptedTx], [], mp)) (\<lambda>r.
    case r of
      Inl e \<Rightarrow> Some (Inl e)
    | Inr (acceptedTxns, mp) \<Rightarrow>
        map_option (\<lambda>mp. Inr (acceptedTxns, mp))
          (foldO (removeOrphanDoubleSpends (mp_wire env)) (acceptedTx # map td_Tx acceptedTxns) mp))"

text \<open>A panic ends the call; the pool it leaves is not told.\<close>

definition ProcessTransaction ::
  "pool_env \<Rightarrow> MsgTx \<Rightarrow> bool \<Rightarrow> bool \<Rightarrow> Tag \<Rightarrow> TxPool \<Rightarrow> ((pool_error + TxDesc list) \<times> TxPool) option" where
  "ProcessTransaction env tx allowOrphan rateLimit tag mp =
    Option.bind (maybeAcceptTransaction env tx True rateLimit True mp) (\<lambda>(r, mp).
    case r of
      Inl e \<Rightarrow> Some (Inl e, mp)
    | Inr (missing, txD) \<Rightarrow>
        if missing = []
        then Option.bind (mp_processOrphans env tx mp) (\<lambda>r.
             case r of
               Inl e \<Rightarrow> Some (Inl e, mp)
             | Inr (newTxs, mp) \<Rightarrow> Some (Inr ((case txD of None \<Rightarrow> [] | Some d \<Rightarrow> [d]) @ newTxs), mp))
        else if \<not> allowOrphan then Some (Inl (txRuleError RejectDuplicate), mp)
        else map_option (\<lambda>(r, mp). (case r of Inl e \<Rightarrow> Inl e | Inr _ \<Rightarrow> Inr [], mp)) (maybeAddOrphan env tx tag mp))"

section \<open>Queries\<close>

definition Count :: "TxPool \<Rightarrow> nat" where "Count mp = length (pool mp)"

definition TxHashes :: "TxPool \<Rightarrow> hash list" where "TxHashes mp = map fst (pool mp)"

definition TxDescs :: "TxPool \<Rightarrow> TxDesc list" where "TxDescs mp = map snd (pool mp)"

definition LastUpdated :: "TxPool \<Rightarrow> int" where "LastUpdated mp = unix_time (lastUpdated mp)"

end
