(* ===== verification/Mempool_Orphans.thy ===== *)
theory Mempool_Orphans
  imports Mempool_Accept
begin

text \<open>
  The orphans of the memory pool and their index by the outputs they spend agree, every removal returns, and
  the limit on their number holds.
\<close>

section \<open>The index\<close>

definition refs :: "TxPool \<Rightarrow> OutPoint \<Rightarrow> txmap" where
  "refs mp p = (case orphansByPrev mp p of None \<Rightarrow> [] | Some m \<Rightarrow> m)"

lemma by_prev_refs: "by_prev mp p = map snd (refs mp p)"
  by (simp add: by_prev_def refs_def split: option.split)

text \<open>
  Every orphan is filed under its hash, and is listed under the outputs it spends; those in \<open>D\<close>, which are being
  removed, are listed no longer.
\<close>

definition orphans_ok :: "wire_lib \<Rightarrow> hash set \<Rightarrow> TxPool \<Rightarrow> bool" where
  "orphans_ok L D mp \<longleftrightarrow> distinct (map fst (mp_orphans mp))
    \<and> (\<forall>h otx. (h, otx) \<in> set (mp_orphans mp) \<longrightarrow> h = TxHash L (ot_tx otx))
    \<and> (\<forall>p. orphansByPrev mp p \<noteq> Some [] \<and> distinct (map fst (refs mp p)))
    \<and> (\<forall>p h tx. (h, tx) \<in> set (refs mp p) \<longleftrightarrow> h \<notin> D \<and> p \<in> set (prevs tx) \<and> (\<exists>otx. (h, otx) \<in> set (mp_orphans mp) \<and> ot_tx otx = tx))"

lemma orphans_okD:
  assumes "orphans_ok L D mp"
  shows "distinct (map fst (mp_orphans mp))" "(h, otx) \<in> set (mp_orphans mp) \<Longrightarrow> h = TxHash L (ot_tx otx)"
    "orphansByPrev mp p \<noteq> Some []" "distinct (map fst (refs mp p))"
    "(h, tx) \<in> set (refs mp p) \<longleftrightarrow> h \<notin> D \<and> p \<in> set (prevs tx) \<and> (\<exists>otx. (h, otx) \<in> set (mp_orphans mp) \<and> ot_tx otx = tx)"
  using assms unfolding orphans_ok_def by blast+

lemma drop_refs:
  fixes m :: "OutPoint \<rightharpoonup> txmap"
  shows "fold (drop_ref h) ps m = (\<lambda>p. if p \<in> set ps then (case m p of None \<Rightarrow> None
      | Some l \<Rightarrow> if AList.delete h l = [] then None else Some (AList.delete h l)) else m p)"
proof (induction ps arbitrary: m)
  case (Cons q ps)
  have "drop_ref h q m = m(q := case m q of None \<Rightarrow> None | Some l \<Rightarrow> if AList.delete h l = [] then None else Some (AList.delete h l))"
    by (auto simp: drop_ref_def Let_def fun_eq_iff split: option.split)
  then show ?case by (auto simp: Cons.IH fun_eq_iff AList.delete_idem split: option.split)
qed (simp add: fun_eq_iff)

lemma refs_drop:
  "refs (mp\<lparr>orphansByPrev := fold (drop_ref h) ps (orphansByPrev mp)\<rparr>) p
    = (if p \<in> set ps then AList.delete h (refs mp p) else refs mp p)"
  by (simp add: refs_def drop_refs split: option.split)

lemma orphans_key: "orphans_ok L D mp \<Longrightarrow> (h, a) \<in> set (mp_orphans mp) \<Longrightarrow> (h, b) \<in> set (mp_orphans mp) \<Longrightarrow> a = b"
  using orphans_okD(1) by (metis eq_key_imp_eq_value)

text \<open>Start of a removal: the references go.\<close>

lemma drop_ok:
  assumes ok: "orphans_ok L D mp" and h: "(h, otx) \<in> set (mp_orphans mp)"
  shows "orphans_ok L (insert h D) (mp\<lparr>orphansByPrev := fold (drop_ref h) (prevs (ot_tx otx)) (orphansByPrev mp)\<rparr>)" (is "orphans_ok L _ ?mp")
proof -
  have "(h', tx) \<in> set (refs ?mp p) \<longleftrightarrow> h' \<notin> insert h D \<and> p \<in> set (prevs tx) \<and> (\<exists>otx. (h', otx) \<in> set (mp_orphans ?mp) \<and> ot_tx otx = tx)" for p h' tx
    using orphans_okD(5)[OF ok, of h' tx p] orphans_key[OF ok h] by (auto simp: refs_drop AList.delete_eq)
  moreover have "orphansByPrev ?mp p \<noteq> Some []" for p using orphans_okD(3)[OF ok] by (auto simp: drop_refs split: option.split)
  moreover have "distinct (map fst (refs ?mp p))" for p using orphans_okD(4)[OF ok, of p] by (auto simp: refs_drop AList.distinct_delete)
  moreover have "distinct (map fst (mp_orphans ?mp))" using orphans_okD(1)[OF ok] by simp
  moreover have "(h', otx) \<in> set (mp_orphans ?mp) \<Longrightarrow> h' = TxHash L (ot_tx otx)" for h' otx
    using orphans_okD(2)[OF ok] by simp
  ultimately show ?thesis unfolding orphans_ok_def by blast
qed

text \<open>End of a removal: the orphan goes.\<close>

lemma refs_orphans [simp]: "refs (mp\<lparr>mp_orphans := x\<rparr>) p = refs mp p"
  by (simp add: refs_def)

lemma delete_ok:
  assumes ok: "orphans_ok L (insert h D) mp" and h: "h \<notin> D"
  shows "orphans_ok L D (mp\<lparr>mp_orphans := AList.delete h (mp_orphans mp)\<rparr>)" (is "orphans_ok L D ?mp")
proof -
  have "(h', tx) \<in> set (refs ?mp p) \<longleftrightarrow> h' \<notin> D \<and> p \<in> set (prevs tx) \<and> (\<exists>otx. (h', otx) \<in> set (mp_orphans ?mp) \<and> ot_tx otx = tx)" for p h' tx
    using orphans_okD(5)[OF ok, of h' tx p] by (auto simp: AList.delete_eq)
  moreover have "distinct (map fst (mp_orphans ?mp))" using orphans_okD(1)[OF ok] by (simp add: AList.distinct_delete)
  moreover have "(h', otx) \<in> set (mp_orphans ?mp) \<Longrightarrow> h' = TxHash L (ot_tx otx)" for h' otx
    using orphans_okD(2)[OF ok] by (simp add: AList.delete_eq)
  ultimately show ?thesis using orphans_okD(3,4)[OF ok] unfolding orphans_ok_def by simp
qed

section \<open>Removal\<close>

text \<open>What a removal leaves of the pool.\<close>

definition fewer :: "TxPool \<Rightarrow> TxPool \<Rightarrow> bool" where
  "fewer mp mp' \<longleftrightarrow> set (mp_orphans mp') \<subseteq> set (mp_orphans mp) \<and> length (mp_orphans mp') \<le> length (mp_orphans mp)
    \<and> pool mp' = pool mp \<and> outpoints mp' = outpoints mp"

lemma fewer_refl [simp]: "fewer mp mp" by (simp add: fewer_def)

lemma fewer_trans: "fewer a b \<Longrightarrow> fewer b c \<Longrightarrow> fewer a c"
  by (auto simp: fewer_def)

lemma set_delete_subset: "set (AList.delete h l) \<subseteq> set l"
  by (auto simp: AList.delete_eq)

lemma foldO_inv:
  assumes "\<And>x s. x \<in> set xs \<Longrightarrow> I s \<Longrightarrow> \<exists>s'. f x s = Some s' \<and> I s'" "I s"
  shows "\<exists>s'. foldO f xs s = Some s' \<and> I s'"
  using assms by (induction xs arbitrary: s) (simp, fastforce)

definition live :: "hash set \<Rightarrow> TxPool \<Rightarrow> nat" where
  "live D mp = card (fst ` set (mp_orphans mp) - D)"

lemma live_fewer: "fewer mp mp' \<Longrightarrow> live D mp' \<le> live D mp"
  unfolding live_def fewer_def by (intro card_mono) auto

lemma live_drop: "h \<in> fst ` set (mp_orphans mp) \<Longrightarrow> h \<notin> D \<Longrightarrow> live (insert h D) mp < live D mp"
  unfolding live_def by (rule psubset_card_mono) auto

lemma remove_orphan_returns:
  assumes "orphans_ok L D mp" "TxHash L tx \<notin> D" "live D mp < k"
  shows "\<exists>mp'. remove_orphan k L tx r mp = Some mp' \<and> orphans_ok L D mp' \<and> fewer mp mp' \<and> TxHash L tx \<notin> fst ` set (mp_orphans mp')"
  using assms
proof (induction k arbitrary: D mp tx r)
  case (Suc k)
  let ?h = "TxHash L tx"
  show ?case
  proof (cases "map_of (mp_orphans mp) ?h")
    case None
    then have "?h \<notin> fst ` set (mp_orphans mp)" by (simp add: map_of_eq_None_iff)
    then show ?thesis using Suc.prems(1) None by (simp add: Let_def)
  next
    case (Some otx)
    let ?mp = "mp\<lparr>orphansByPrev := fold (drop_ref ?h) (prevs (ot_tx otx)) (orphansByPrev mp)\<rparr>"
    have mem: "(?h, otx) \<in> set (mp_orphans mp)" using map_of_SomeD[OF Some] .
    have ok1: "orphans_ok L (insert ?h D) ?mp" using drop_ok[OF Suc.prems(1) mem] .
    have f1: "fewer mp ?mp" by (simp add: fewer_def)
    have "?h \<in> fst ` set (mp_orphans mp)" using mem by (rule image_eqI[rotated]) simp
    from live_drop[OF this Suc.prems(2)] have "live (insert ?h D) ?mp < live D mp" by (simp add: live_def)
    then have small: "live (insert ?h D) mp2 < k" if "fewer ?mp mp2" for mp2 using live_fewer[OF that, of "insert ?h D"] Suc.prems(3) by simp
    let ?I = "\<lambda>mp2. orphans_ok L (insert ?h D) mp2 \<and> fewer ?mp mp2"
    have inner: "\<exists>mp3. foldO (\<lambda>orphan. remove_orphan k L orphan True) (by_prev mp2 p) mp2 = Some mp3 \<and> ?I mp3" if I2: "?I mp2" for p mp2
    proof (rule foldO_inv[where I = ?I])
      fix orphan mp3 assume "orphan \<in> set (by_prev mp2 p)" and I3: "?I mp3"
      then obtain h' where "(h', orphan) \<in> set (refs mp2 p)" by (auto simp: by_prev_refs)
      then have "TxHash L orphan \<notin> insert ?h D"
        using orphans_okD(2,5)[OF conjunct1[OF I2]] by metis
      from Suc.IH[OF conjunct1[OF I3] this small[OF conjunct2[OF I3]]]
      show "\<exists>s'. remove_orphan k L orphan True mp3 = Some s' \<and> ?I s'" using I3 fewer_trans by blast
    qed (rule I2)
    have "\<exists>mp2. (if r then foldO (\<lambda>p mp. foldO (\<lambda>orphan. remove_orphan k L orphan True) (by_prev mp p) mp) (outs L tx) ?mp else Some ?mp) = Some mp2 \<and> ?I mp2"
    proof (cases r)
      case True
      have "\<exists>mp2. foldO (\<lambda>p mp. foldO (\<lambda>orphan. remove_orphan k L orphan True) (by_prev mp p) mp) (outs L tx) ?mp = Some mp2 \<and> ?I mp2"
        by (rule foldO_inv) (use inner ok1 in auto)
      then show ?thesis using True by simp
    qed (use ok1 in simp)
    then obtain mp2 where mp2: "(if r then foldO (\<lambda>p mp. foldO (\<lambda>orphan. remove_orphan k L orphan True) (by_prev mp p) mp) (outs L tx) ?mp else Some ?mp) = Some mp2"
      "orphans_ok L (insert ?h D) mp2" "fewer ?mp mp2" by blast
    let ?mp' = "mp2\<lparr>mp_orphans := AList.delete ?h (mp_orphans mp2)\<rparr>"
    have "remove_orphan (Suc k) L tx r mp = Some ?mp'" using Some mp2(1) by (simp add: Let_def)
    moreover have "orphans_ok L D ?mp'" using delete_ok[OF mp2(2) Suc.prems(2)] .
    moreover have "fewer mp ?mp'"
      using mp2(3) f1 le_trans[OF AList.length_delete_le[of ?h "mp_orphans mp2"]] set_delete_subset[of ?h "mp_orphans mp2"] by (auto simp: fewer_def)
    moreover have "?h \<notin> fst ` set (mp_orphans ?mp')" by (auto simp: AList.delete_eq)
    ultimately show ?thesis by blast
  qed
qed simp

lemma removeOrphan_returns:
  assumes "orphans_ok L {} mp"
  shows "\<exists>mp'. removeOrphan L tx r mp = Some mp' \<and> orphans_ok L {} mp' \<and> fewer mp mp' \<and> TxHash L tx \<notin> fst ` set (mp_orphans mp')"
proof -
  have "live {} mp \<le> length (mp_orphans mp)" unfolding live_def by (metis Diff_empty card_length length_map set_map)
  then show ?thesis unfolding removeOrphan_def using assms by (intro remove_orphan_returns) auto
qed

text \<open>The other removals are sequences of these.\<close>

definition removed :: "wire_lib \<Rightarrow> TxPool \<Rightarrow> TxPool \<Rightarrow> bool" where
  "removed L mp mp' \<longleftrightarrow> orphans_ok L {} mp' \<and> fewer mp mp'"

lemma removed_step:
  assumes "removed L mp0 mp"
  shows "\<exists>mp'. removeOrphan L tx r mp = Some mp' \<and> removed L mp0 mp'"
  using removeOrphan_returns[of L mp tx r] assms fewer_trans unfolding removed_def by blast

lemma removeOrphanDoubleSpends_returns:
  assumes "removed L mp0 mp"
  shows "\<exists>mp'. removeOrphanDoubleSpends L tx mp = Some mp' \<and> removed L mp0 mp'"
  unfolding removeOrphanDoubleSpends_def by (intro foldO_inv removed_step) (use assms in auto)

lemma RemoveOrphan_returns:
  assumes "orphans_ok L {} mp"
  shows "\<exists>mp'. RemoveOrphan L tx mp = Some mp' \<and> removed L mp mp'"
  unfolding RemoveOrphan_def using removed_step[of L mp mp] assms by (simp add: removed_def)

lemma RemoveOrphansByTag_returns:
  assumes "orphans_ok L {} mp"
  shows "\<exists>mp' n. RemoveOrphansByTag L tag mp = Some (mp', n) \<and> removed L mp mp'"
proof -
  have "\<exists>s'. RemoveOrphansByTag L tag mp = Some s' \<and> removed L mp (fst s')"
    unfolding RemoveOrphansByTag_def
  proof (rule foldO_inv)
    fix x :: "hash \<times> orphanTx" and s :: "TxPool \<times> nat" assume "removed L mp (fst s)"
    moreover have "\<exists>mp'. removeOrphan L (ot_tx (snd x)) True (fst s) = Some mp' \<and> removed L mp mp'"
      by (rule removed_step) fact
    ultimately show "\<exists>s'. (case x of (h, otx) \<Rightarrow> \<lambda>(mp, numEvicted). if map_of (mp_orphans mp) h \<noteq> None \<and> ot_tag otx = tag
        then map_option (\<lambda>mp. (mp, numEvicted + 1)) (removeOrphan L (ot_tx otx) True mp) else Some (mp, numEvicted)) s = Some s' \<and> removed L mp (fst s')"
      by (cases x; cases s) auto
  qed (use assms in \<open>simp add: removed_def\<close>)
  then show ?thesis by auto
qed

lemma orphans_ok_scan [simp]: "orphans_ok L D (mp\<lparr>nextExpireScan := x\<rparr>) = orphans_ok L D mp"
  by (simp add: orphans_ok_def refs_def)

lemma expire_orphans_returns:
  assumes "orphans_ok (mp_wire env) {} mp"
  shows "\<exists>mp'. expire_orphans env mp = Some mp' \<and> removed (mp_wire env) mp mp'"
proof -
  have "\<exists>mp'. foldO (\<lambda>(h, otx) mp. if mp_Now env > ot_expiration otx then removeOrphan (mp_wire env) (ot_tx otx) True mp else Some mp)
         (mp_orphans mp) mp = Some mp' \<and> removed (mp_wire env) mp mp'"
    by (rule foldO_inv) (use removed_step assms in \<open>auto simp: removed_def split: prod.split\<close>)
  then show ?thesis using assms by (auto simp: expire_orphans_def removed_def fewer_def)
qed

section \<open>The limit\<close>

definition orphan_limit :: "pool_env \<Rightarrow> nat" where
  "orphan_limit env = nat (MaxOrphanTxs (mpPolicy env))"

lemma limitNumOrphans_returns:
  assumes "orphans_ok (mp_wire env) {} mp" "length (mp_orphans mp) \<le> orphan_limit env" "MaxOrphanTxs (mpPolicy env) > 0"
  shows "\<exists>mp'. limitNumOrphans env mp = Some mp' \<and> removed (mp_wire env) mp mp' \<and> length (mp_orphans mp') < orphan_limit env"
proof -
  obtain mp1 where mp1: "expire_orphans env mp = Some mp1" "orphans_ok (mp_wire env) {} mp1" "fewer mp mp1"
    using expire_orphans_returns[OF assms(1)] unfolding removed_def by blast
  show ?thesis
  proof (cases "int (length (mp_orphans mp1)) + 1 \<le> MaxOrphanTxs (mpPolicy env)")
    case True
    then show ?thesis using mp1 by (auto simp: limitNumOrphans_def removed_def orphan_limit_def)
  next
    case False
    then obtain h otx rest where o1: "mp_orphans mp1 = (h, otx) # rest"
      using assms(3) by (cases "mp_orphans mp1") auto
    obtain mp2 where mp2: "removeOrphan (mp_wire env) (ot_tx otx) False mp1 = Some mp2" "orphans_ok (mp_wire env) {} mp2"
      "fewer mp1 mp2" "TxHash (mp_wire env) (ot_tx otx) \<notin> fst ` set (mp_orphans mp2)"
      using removeOrphan_returns[OF mp1(2)] by blast
    have h: "h = TxHash (mp_wire env) (ot_tx otx)" using orphans_okD(2)[OF mp1(2)] o1 by simp
    have keys: "fst ` set (mp_orphans m) = set (map fst (mp_orphans m))" for m by simp
    have "set (map fst (mp_orphans mp2)) \<subset> set (map fst (mp_orphans mp1))"
      using mp2(3,4) o1 h unfolding fewer_def by force
    then have "card (set (map fst (mp_orphans mp2))) < card (set (map fst (mp_orphans mp1)))" by (intro psubset_card_mono) auto
    then have "length (mp_orphans mp2) < length (mp_orphans mp1)"
      using orphans_okD(1)[OF mp1(2)] orphans_okD(1)[OF mp2(2)] by (simp only: distinct_card length_map)
    then have "length (mp_orphans mp2) < orphan_limit env" using mp1(3) assms(2) by (simp add: fewer_def)
    moreover have "limitNumOrphans env mp = Some mp2" using mp1(1) False o1 mp2(1) by (simp add: limitNumOrphans_def)
    ultimately show ?thesis using mp2 mp1(3) fewer_trans unfolding removed_def by blast
  qed
qed

lemma add_refs: "fold (add_ref h tx) ps m = (\<lambda>p. if p \<in> set ps then Some (AList.update h tx (case m p of None \<Rightarrow> [] | Some l \<Rightarrow> l)) else m p)"
proof (induction ps arbitrary: m)
  case (Cons q ps)
  have "add_ref h tx q m = m(q \<mapsto> AList.update h tx (case m q of None \<Rightarrow> [] | Some l \<Rightarrow> l))" by (simp add: add_ref_def)
  then show ?case by (auto simp: Cons.IH fun_eq_iff)
qed (simp add: fun_eq_iff)

lemma refs_add:
  "refs (mp\<lparr>mp_orphans := x, orphansByPrev := fold (add_ref h tx) ps (orphansByPrev mp)\<rparr>) p
    = (if p \<in> set ps then AList.update h tx (refs mp p) else refs mp p)"
  by (simp add: refs_def add_refs split: option.split)

lemma update_fresh: "h \<notin> fst ` set l \<Longrightarrow> AList.update h v l = l @ [(h, v)]"
  by (induction l) auto

lemma add_ok:
  assumes ok: "orphans_ok L {} mp" and fresh: "TxHash L tx \<notin> fst ` set (mp_orphans mp)" and "ot_tx otx = tx"
  shows "orphans_ok L {} (mp\<lparr>mp_orphans := AList.update (TxHash L tx) otx (mp_orphans mp),
    orphansByPrev := fold (add_ref (TxHash L tx) tx) (prevs tx) (orphansByPrev mp)\<rparr>)" (is "orphans_ok L {} ?mp")
proof -
  let ?h = "TxHash L tx"
  have "?h \<notin> fst ` set (refs mp p)" for p using orphans_okD(5)[OF ok] fresh by force
  then have refs: "refs ?mp p = (if p \<in> set (prevs tx) then refs mp p @ [(?h, tx)] else refs mp p)" for p
    by (cases "p \<in> set (prevs tx)") (simp_all add: refs_add update_fresh)
  have orph: "mp_orphans ?mp = mp_orphans mp @ [(?h, otx)]" using fresh by (simp add: update_fresh)
  have "(h', tx') \<in> set (refs ?mp p) \<longleftrightarrow> h' \<notin> {} \<and> p \<in> set (prevs tx') \<and> (\<exists>otx. (h', otx) \<in> set (mp_orphans ?mp) \<and> ot_tx otx = tx')" for p h' tx'
    unfolding refs orph using orphans_okD(5)[OF ok, of h' tx' p] assms(3) by auto
  moreover have "orphansByPrev ?mp p \<noteq> Some []" for p using orphans_okD(3)[OF ok] by (simp add: add_refs AList.update_nonempty)
  moreover have "distinct (map fst (refs ?mp p))" for p
    using orphans_okD(4)[OF ok, of p] \<open>?h \<notin> fst ` set (refs mp p)\<close> unfolding refs by simp
  moreover have "distinct (map fst (mp_orphans ?mp))" unfolding orph using orphans_okD(1)[OF ok] fresh by simp
  moreover have "(h', o') \<in> set (mp_orphans ?mp) \<Longrightarrow> h' = TxHash L (ot_tx o')" for h' o'
    unfolding orph using orphans_okD(2)[OF ok] assms(3) by auto
  ultimately show ?thesis unfolding orphans_ok_def by blast
qed

definition orphans_inv :: "pool_env \<Rightarrow> TxPool \<Rightarrow> bool" where
  "orphans_inv env mp \<longleftrightarrow> orphans_ok (mp_wire env) {} mp \<and> length (mp_orphans mp) \<le> orphan_limit env"

text \<open>The main pool is left alone.\<close>

definition same_pool :: "TxPool \<Rightarrow> TxPool \<Rightarrow> bool" where
  "same_pool mp mp' \<longleftrightarrow> pool mp' = pool mp \<and> outpoints mp' = outpoints mp"

lemma removed_inv: "removed (mp_wire env) mp mp' \<Longrightarrow> orphans_inv env mp \<Longrightarrow> orphans_inv env mp' \<and> same_pool mp mp'"
  by (auto simp: removed_def orphans_inv_def fewer_def same_pool_def)

lemma addOrphan_returns:
  assumes inv: "orphans_inv env mp" and fresh: "TxHash (mp_wire env) tx \<notin> fst ` set (mp_orphans mp)"
  shows "\<exists>mp'. addOrphan env tx tag mp = Some mp' \<and> orphans_inv env mp' \<and> same_pool mp mp'
    \<and> (\<forall>(h, otx) \<in> set (mp_orphans mp'). (h, otx) \<in> set (mp_orphans mp) \<or> ot_tx otx = tx)"
proof (cases "MaxOrphanTxs (mpPolicy env) \<le> 0")
  case False
  let ?L = "mp_wire env" and ?h = "TxHash (mp_wire env) tx"
  obtain mp1 where mp1: "limitNumOrphans env mp = Some mp1" "orphans_ok ?L {} mp1" "fewer mp mp1" "length (mp_orphans mp1) < orphan_limit env"
    using limitNumOrphans_returns[of env mp] inv False unfolding orphans_inv_def removed_def by auto
  have fresh1: "?h \<notin> fst ` set (mp_orphans mp1)" using fresh mp1(3) unfolding fewer_def by auto
  have "addOrphan env tx tag mp = Some (mp1\<lparr>mp_orphans := AList.update ?h \<lparr>ot_tx = tx, ot_tag = tag, ot_expiration = mp_Now env + orphanTTL\<rparr> (mp_orphans mp1),
      orphansByPrev := fold (add_ref ?h tx) (prevs tx) (orphansByPrev mp1)\<rparr>)" (is "_ = Some ?mp")
    using mp1(1) False by (simp add: addOrphan_def Let_def)
  moreover have "orphans_ok ?L {} ?mp" using add_ok[OF mp1(2) fresh1] by simp
  moreover have "length (mp_orphans ?mp) \<le> orphan_limit env" using mp1(4) fresh1 by (simp add: update_fresh)
  moreover have "same_pool mp ?mp" using mp1(3) by (simp add: fewer_def same_pool_def)
  moreover have "\<forall>(h, otx) \<in> set (mp_orphans ?mp). (h, otx) \<in> set (mp_orphans mp) \<or> ot_tx otx = tx"
    using mp1(3) fresh1 by (auto simp: update_fresh fewer_def)
  ultimately show ?thesis unfolding orphans_inv_def by blast
qed (use inv in \<open>auto simp: addOrphan_def same_pool_def\<close>)

lemma maybeAddOrphan_returns:
  assumes "orphans_inv env mp" "TxHash (mp_wire env) tx \<notin> fst ` set (mp_orphans mp)"
  shows "\<exists>r mp'. maybeAddOrphan env tx tag mp = Some (r, mp') \<and> orphans_inv env mp' \<and> same_pool mp mp'
    \<and> (\<forall>(h, otx) \<in> set (mp_orphans mp'). (h, otx) \<in> set (mp_orphans mp) \<or> ot_tx otx = tx)"
  using addOrphan_returns[OF assms, of tag] assms(1) by (auto simp: maybeAddOrphan_def same_pool_def)

end
