(* ===== verification/Mempool_Inv.thy ===== *)
theory Mempool_Inv
  imports Mempool_Orphans
begin

text \<open>
  The consistency of the main pool and the effect of removals: every transaction is filed under its hash, and the
  index of spent outputs names exactly the pool transaction that spends an output, so that no two spend the same
  one.  No transaction spends an output of itself or of a descendant, as the hash of a transaction depends on the
  hashes in its inputs; this is expressed by a rank of the hashes.
\<close>

section \<open>Consistency\<close>

definition ranked :: "(hash \<Rightarrow> nat) \<Rightarrow> wire_lib \<Rightarrow> MsgTx \<Rightarrow> bool" where
  "ranked rank L tx \<longleftrightarrow> (\<forall>p \<in> set (prevs tx). rank (op_Hash p) < rank (TxHash L tx))"

definition in_pool :: "TxPool \<Rightarrow> MsgTx \<Rightarrow> bool" where
  "in_pool mp tx \<longleftrightarrow> tx \<in> td_Tx ` snd ` set (pool mp)"

definition txpool_ok :: "(hash \<Rightarrow> nat) \<Rightarrow> wire_lib \<Rightarrow> TxPool \<Rightarrow> bool" where
  "txpool_ok rank L mp \<longleftrightarrow> distinct (map fst (pool mp))
    \<and> (\<forall>(h, d) \<in> set (pool mp). h = TxHash L (td_Tx d) \<and> ranked rank L (td_Tx d))
    \<and> (\<forall>p tx. outpoints mp p = Some tx \<longleftrightarrow> in_pool mp tx \<and> p \<in> set (prevs tx))"

lemma txpool_okD:
  assumes "txpool_ok rank L mp"
  shows "distinct (map fst (pool mp))" "(h, d) \<in> set (pool mp) \<Longrightarrow> h = TxHash L (td_Tx d)"
    "in_pool mp tx \<Longrightarrow> ranked rank L tx" "outpoints mp p = Some tx \<longleftrightarrow> in_pool mp tx \<and> p \<in> set (prevs tx)"
  using assms unfolding txpool_ok_def in_pool_def by (blast, blast, fastforce, blast)

lemma in_pool_lookup:
  assumes ok: "txpool_ok rank L mp"
  shows "in_pool mp tx \<longleftrightarrow> (\<exists>d. map_of (pool mp) (TxHash L tx) = Some d \<and> td_Tx d = tx)"
proof
  assume "in_pool mp tx"
  then obtain h d where hd: "(h, d) \<in> set (pool mp)" "td_Tx d = tx" by (auto simp: in_pool_def)
  then have "h = TxHash L tx" using txpool_okD(2)[OF ok] by auto
  then show "\<exists>d. map_of (pool mp) (TxHash L tx) = Some d \<and> td_Tx d = tx"
    using hd txpool_okD(1)[OF ok] map_of_is_SomeI by fastforce
next
  assume "\<exists>d. map_of (pool mp) (TxHash L tx) = Some d \<and> td_Tx d = tx"
  then obtain d where d: "(TxHash L tx, d) \<in> set (pool mp)" "td_Tx d = tx" by (auto dest: map_of_SomeD)
  show "in_pool mp tx" unfolding in_pool_def image_image using d by (intro image_eqI[of _ _ "(TxHash L tx, d)"]) simp_all
qed

lemma lookup_in_pool:
  assumes "txpool_ok rank L mp" "map_of (pool mp) h = Some d"
  shows "in_pool mp (td_Tx d)" "TxHash L (td_Tx d) = h"
proof -
  note d = map_of_SomeD[OF assms(2)]
  show "TxHash L (td_Tx d) = h" using txpool_okD(2)[OF assms(1) d] by simp
  show "in_pool mp (td_Tx d)" unfolding in_pool_def image_image using d by (intro image_eqI[of _ _ "(h, d)"]) simp_all
qed

lemma in_pool_unique: "txpool_ok rank L mp \<Longrightarrow> in_pool mp a \<Longrightarrow> in_pool mp b \<Longrightarrow> TxHash L a = TxHash L b \<Longrightarrow> a = b"
  using in_pool_lookup[of rank L mp a, THEN iffD1] in_pool_lookup[of rank L mp b, THEN iffD1] by (metis option.inject)

lemma no_double_spend: "txpool_ok rank L mp \<Longrightarrow> in_pool mp a \<Longrightarrow> in_pool mp b \<Longrightarrow> p \<in> set (prevs a) \<Longrightarrow> p \<in> set (prevs b) \<Longrightarrow> a = b"
  using txpool_okD(4)[of rank L mp p a] txpool_okD(4)[of rank L mp p b] by auto

section \<open>Taking transactions out\<close>

definition drop_txs :: "wire_lib \<Rightarrow> hash set \<Rightarrow> TxPool \<Rightarrow> TxPool" where
  "drop_txs L H mp = mp\<lparr>pool := filter (\<lambda>(h, d). h \<notin> H) (pool mp),
    outpoints := (\<lambda>p. case outpoints mp p of None \<Rightarrow> None | Some tx \<Rightarrow> if TxHash L tx \<in> H then None else Some tx)\<rparr>"

lemma drop_txs_twice [simp]: "drop_txs L H (drop_txs L G mp) = drop_txs L (G \<union> H) mp"
  by (auto simp: drop_txs_def filter_filter fun_eq_iff intro!: TxPool.equality filter_cong split: option.split)

lemma drop_txs_outpoints: "outpoints (drop_txs L H mp) p = Some tx \<longleftrightarrow> outpoints mp p = Some tx \<and> TxHash L tx \<notin> H"
  by (auto simp: drop_txs_def split: option.split)

lemma drop_txs_empty [simp]: "drop_txs L {} mp = mp"
proof -
  have "(\<lambda>p. case outpoints mp p of None \<Rightarrow> None | Some tx \<Rightarrow> if TxHash L tx \<in> {} then None else Some tx) = outpoints mp"
    by (auto simp: fun_eq_iff split: option.split)
  then show ?thesis unfolding drop_txs_def by simp
qed

lemma drop_txs_in_pool:
  assumes "txpool_ok rank L mp"
  shows "in_pool (drop_txs L H mp) tx \<longleftrightarrow> in_pool mp tx \<and> TxHash L tx \<notin> H"
  using txpool_okD(2)[OF assms] by (force simp: in_pool_def drop_txs_def)

lemma drop_txs_ok:
  assumes ok: "txpool_ok rank L mp"
  shows "txpool_ok rank L (drop_txs L H mp)"
proof -
  have "outpoints (drop_txs L H mp) p = Some tx \<longleftrightarrow> in_pool (drop_txs L H mp) tx \<and> p \<in> set (prevs tx)" for p tx
    using txpool_okD(4)[OF ok] by (auto simp: drop_txs_outpoints drop_txs_in_pool[OF ok])
  moreover have "distinct (map fst (pool (drop_txs L H mp)))" using txpool_okD(1)[OF ok] by (simp add: drop_txs_def distinct_map_filter)
  moreover have "\<forall>(h, d) \<in> set (pool (drop_txs L H mp)). h = TxHash L (td_Tx d) \<and> ranked rank L (td_Tx d)"
    using ok by (auto simp: txpool_ok_def drop_txs_def)
  ultimately show ?thesis unfolding txpool_ok_def by blast
qed

text \<open>The time of the last update plays no part in the consistency.\<close>

lemma txpool_ok_cong: "pool mp' = pool mp \<Longrightarrow> outpoints mp' = outpoints mp \<Longrightarrow> txpool_ok rank L mp' = txpool_ok rank L mp"
  by (simp add: txpool_ok_def in_pool_def)

lemma txpool_ok_updated [simp]: "txpool_ok rank L (mp\<lparr>lastUpdated := u\<rparr>) = txpool_ok rank L mp"
  by (rule txpool_ok_cong) simp_all

text \<open>\<open>mp'\<close> is \<open>mp\<close> without the transactions in \<open>H\<close>.\<close>

definition without :: "wire_lib \<Rightarrow> hash set \<Rightarrow> TxPool \<Rightarrow> TxPool \<Rightarrow> bool" where
  "without L H mp mp' \<longleftrightarrow> (\<exists>u. mp' = (drop_txs L H mp)\<lparr>lastUpdated := u\<rparr>)"

lemma drop_txs_updated [simp]: "drop_txs L H (mp\<lparr>lastUpdated := u\<rparr>) = (drop_txs L H mp)\<lparr>lastUpdated := u\<rparr>"
  by (simp add: drop_txs_def)

lemma without_refl: "without L {} mp mp"
  unfolding without_def by (rule exI[of _ "lastUpdated mp"]) simp

lemma without_trans: "without L G mp mp1 \<Longrightarrow> without L H mp1 mp2 \<Longrightarrow> without L (G \<union> H) mp mp2"
  by (auto simp: without_def)

lemma without_ok: "without L H mp mp' \<Longrightarrow> txpool_ok rank L mp \<Longrightarrow> txpool_ok rank L mp'"
  using drop_txs_ok by (auto simp: without_def)

lemma without_outpoints: "without L H mp mp' \<Longrightarrow> outpoints mp' p = Some tx \<longleftrightarrow> outpoints mp p = Some tx \<and> TxHash L tx \<notin> H"
  by (auto simp: without_def drop_txs_outpoints)

lemma in_pool_updated: "in_pool (mp\<lparr>lastUpdated := u\<rparr>) tx = in_pool mp tx"
  by (simp add: in_pool_def)

lemma without_in_pool: "without L H mp mp' \<Longrightarrow> txpool_ok rank L mp \<Longrightarrow> in_pool mp' tx \<longleftrightarrow> in_pool mp tx \<and> TxHash L tx \<notin> H"
  using drop_txs_in_pool[of rank L mp H tx] by (auto simp: without_def in_pool_updated)

lemma without_pool: "without L H mp mp' \<Longrightarrow> pool mp' = filter (\<lambda>(h, d). h \<notin> H) (pool mp)"
  by (auto simp: without_def drop_txs_def)

lemma without_orphans: "without L H mp mp' \<Longrightarrow> mp_orphans mp' = mp_orphans mp \<and> orphansByPrev mp' = orphansByPrev mp"
  by (auto simp: without_def drop_txs_def)

lemma without_none:
  assumes "txpool_ok rank L mp" "fst ` set (pool mp) \<inter> H = {}"
  shows "without L H mp mp"
proof -
  have "filter (\<lambda>(h, d). h \<notin> H) (pool mp) = pool mp" using assms(2) by (auto simp: filter_id_conv)
  moreover have "TxHash L tx \<notin> H" if "outpoints mp p = Some tx" for p tx
  proof -
    have "in_pool mp tx" using that txpool_okD(4)[OF assms(1)] by simp
    then obtain d where "map_of (pool mp) (TxHash L tx) = Some d" using in_pool_lookup[OF assms(1)] by auto
    from map_of_SomeD[OF this] show ?thesis using assms(2) by force
  qed
  then have "(\<lambda>p. case outpoints mp p of None \<Rightarrow> None | Some tx \<Rightarrow> if TxHash L tx \<in> H then None else Some tx) = outpoints mp"
    by (auto simp: fun_eq_iff split: option.split)
  ultimately have "drop_txs L H mp = mp" by (simp add: drop_txs_def)
  then show ?thesis unfolding without_def by (intro exI[of _ "lastUpdated mp"]) simp
qed

lemma take_out_without:
  assumes ok: "txpool_ok rank (mp_wire env) mp"
  shows "without (mp_wire env) {h} mp (take_out env h mp)"
proof (cases "map_of (pool mp) h")
  case None
  then have "fst ` set (pool mp) \<inter> {h} = {}" by (auto simp: map_of_eq_None_iff)
  then show ?thesis using without_none[OF ok] None by (simp add: take_out_def)
next
  case (Some d)
  let ?L = "mp_wire env"
  note d = lookup_in_pool[OF ok Some]
  have "(outpoints mp |` (- set (prevs (td_Tx d)))) p = (case outpoints mp p of None \<Rightarrow> None | Some tx \<Rightarrow> if TxHash ?L tx \<in> {h} then None else Some tx)" for p
  proof (cases "outpoints mp p")
    case (Some tx)
    then have tx: "in_pool mp tx" "p \<in> set (prevs tx)" using txpool_okD(4)[OF ok] by auto
    have "TxHash ?L tx = h \<longleftrightarrow> tx = td_Tx d" using in_pool_unique[OF ok tx(1) d(1)] d(2) by auto
    moreover have "p \<in> set (prevs (td_Tx d)) \<longleftrightarrow> tx = td_Tx d" using tx no_double_spend[OF ok tx(1) d(1)] by auto
    ultimately show ?thesis using Some by (simp add: restrict_map_def)
  qed (simp add: restrict_map_def)
  then have "outpoints mp |` (- set (prevs (td_Tx d))) = outpoints (drop_txs ?L {h} mp)" by (auto simp: drop_txs_def)
  moreover have "AList.delete h (pool mp) = pool (drop_txs ?L {h} mp)"
    by (auto simp: drop_txs_def AList.delete_eq intro!: filter_cong)
  ultimately have "take_out env h mp = (drop_txs ?L {h} mp)\<lparr>lastUpdated := time_Unix (mp_Now env)\<rparr>"
    using Some by (simp add: take_out_def drop_txs_def)
  then show ?thesis unfolding without_def by blast
qed

section \<open>Adding a transaction\<close>

lemma addTransaction_ok:
  assumes ok: "txpool_ok rank (mp_wire env) mp" and tx: "ranked rank (mp_wire env) tx" "TxHash (mp_wire env) tx \<notin> fst ` set (pool mp)"
    and free: "\<forall>p \<in> set (prevs tx). outpoints mp p = None"
  shows "txpool_ok rank (mp_wire env) (fst (addTransaction env utxoView tx height fee mp))" (is "txpool_ok rank ?L ?mp")
proof -
  let ?d = "snd (addTransaction env utxoView tx height fee mp)"
  have d: "td_Tx ?d = tx" by (simp add: addTransaction_def Let_def)
  have pool: "pool ?mp = pool mp @ [(TxHash ?L tx, ?d)]" using tx(2) by (simp add: addTransaction_def Let_def update_fresh)
  have fold_out: "fold (\<lambda>p m. m(p \<mapsto> tx)) ps m = (\<lambda>p. if p \<in> set ps then Some tx else m p)" for ps and m :: "OutPoint \<rightharpoonup> MsgTx"
    by (induction ps arbitrary: m) (auto simp: fun_eq_iff)
  have out: "outpoints ?mp = (\<lambda>p. if p \<in> set (prevs tx) then Some tx else outpoints mp p)"
    by (simp add: addTransaction_def Let_def fold_out)
  have inp: "in_pool ?mp t \<longleftrightarrow> in_pool mp t \<or> t = tx" for t using d by (auto simp: in_pool_def pool)
  have "outpoints ?mp p = Some t \<longleftrightarrow> in_pool ?mp t \<and> p \<in> set (prevs t)" for p t
    unfolding out inp using free txpool_okD(4)[OF ok, of p t] by auto
  moreover have "distinct (map fst (pool ?mp))" unfolding pool using txpool_okD(1)[OF ok] tx(2) by simp
  moreover have "\<forall>(h, d) \<in> set (pool ?mp). h = TxHash ?L (td_Tx d) \<and> ranked rank ?L (td_Tx d)"
    unfolding pool using ok tx(1) d by (auto simp: txpool_ok_def)
  ultimately show ?thesis unfolding txpool_ok_def by blast
qed

end
