(* ===== verification/Mempool_Closure.thy ===== *)
theory Mempool_Closure
  imports Mempool_Inv
begin

text \<open>
  The searches of the memory pool for ancestors and descendants: both walk a graph without cycles and remember
  what they found below a transaction.  The locale \<open>graph\<close> proves the walk once; it is interpreted for the
  parents of a transaction and for its redeemers.  The bounds on the depth of the recursion are enough.
\<close>

section \<open>Lists as maps\<close>

lemma foldO_collect:
  assumes "\<And>D x s. x \<in> set xs \<Longrightarrow> I D s \<Longrightarrow> \<exists>s'. f x s = Some s' \<and> I (insert x D) s'" "I D s"
  shows "\<exists>s'. foldO f xs s = Some s' \<and> I (D \<union> set xs) s'"
  using assms
proof (induction xs arbitrary: D s)
  case (Cons x xs)
  obtain s1 where s1: "f x s = Some s1" "I (insert x D) s1" using Cons.prems(1)[of x D s] Cons.prems(2) by auto
  from Cons.IH[OF _ s1(2)] Cons.prems(1) show ?case using s1(1) by simp
qed simp

definition functional :: "('a \<times> 'b) set \<Rightarrow> bool" where
  "functional R \<longleftrightarrow> (\<forall>k v w. (k, v) \<in> R \<and> (k, w) \<in> R \<longrightarrow> v = w)"

lemma functional_subset: "functional R \<Longrightarrow> S \<subseteq> R \<Longrightarrow> functional S"
  unfolding functional_def by blast

lemma set_update_functional: "functional (insert (k, v) (set l)) \<Longrightarrow> set (AList.update k v l) = insert (k, v) (set l)"
proof (induction l)
  case (Cons x l)
  have "functional (insert (k, v) (set l))" using Cons.prems by (rule functional_subset) auto
  from Cons.IH[OF this] show ?case using Cons.prems by (cases x) (auto simp: functional_def)
qed simp

lemma set_update_subset: "set (AList.update k v l) \<subseteq> insert (k, v) (set l)"
  by (induction l) auto

lemma copy_map_functional:
  assumes "functional (set src \<union> set dst)"
  shows "set (copy_map src dst) = set src \<union> set dst"
  using assms unfolding copy_map_def
proof (induction src arbitrary: dst)
  case (Cons x src)
  obtain k v where x: "x = (k, v)" by (cases x)
  have u: "set (AList.update k v dst) = insert (k, v) (set dst)"
    using Cons.prems x by (intro set_update_functional) (auto elim: functional_subset)
  have "functional (set src \<union> set (AList.update k v dst))" using Cons.prems by (simp add: u x)
  from Cons.IH[OF this] show ?case using u x by simp
qed simp

lemma copy_map_distinct: "distinct (map fst dst) \<Longrightarrow> distinct (map fst (copy_map src dst))"
  unfolding copy_map_def by (induction src arbitrary: dst) (auto simp: AList.distinct_update)

section \<open>The walk\<close>

fun walk :: "nat \<Rightarrow> (MsgTx \<Rightarrow> OutPoint list) \<Rightarrow> (OutPoint \<Rightarrow> MsgTx option) \<Rightarrow> (MsgTx \<Rightarrow> hash) \<Rightarrow> MsgTx \<Rightarrow> txcache \<Rightarrow> (txmap \<times> txcache) option" where
  "walk 0 points look key tx cache = None"
| "walk (Suc k) points look key tx cache =
    foldO (\<lambda>p (found, cache).
      case look p of
        None \<Rightarrow> Some (found, cache)
      | Some t \<Rightarrow>
          let h = key t; found = AList.update h t found
          in case map_of cache h of
               Some rest \<Rightarrow> Some (copy_map rest found, cache)
             | None \<Rightarrow> map_option (\<lambda>(rest, cache). (copy_map rest found, AList.update h rest cache)) (walk k points look key t cache))
      (points tx) ([], cache)"

locale graph =
  fixes ok :: "'s \<Rightarrow> bool" and node :: "MsgTx \<Rightarrow> bool" and points :: "MsgTx \<Rightarrow> OutPoint list"
    and look :: "'s \<Rightarrow> OutPoint \<Rightarrow> MsgTx option" and key :: "MsgTx \<Rightarrow> hash" and room :: "'s \<Rightarrow> MsgTx \<Rightarrow> nat"
  assumes key_inj: "ok s \<Longrightarrow> look s p = Some a \<Longrightarrow> look s q = Some b \<Longrightarrow> key a = key b \<Longrightarrow> a = b"
    and look_node: "ok s \<Longrightarrow> look s p = Some a \<Longrightarrow> node a"
    and room_less: "ok s \<Longrightarrow> node t \<Longrightarrow> p \<in> set (points t) \<Longrightarrow> look s p = Some a \<Longrightarrow> room s a < room s t"
begin

definition edge :: "'s \<Rightarrow> MsgTx \<Rightarrow> MsgTx \<Rightarrow> bool" where
  "edge s a b \<longleftrightarrow> (\<exists>p \<in> set (points a). look s p = Some b)"

definition below :: "'s \<Rightarrow> OutPoint set \<Rightarrow> (hash \<times> MsgTx) set" where
  "below s D = {(key b, b) | b. \<exists>p \<in> D. \<exists>a. look s p = Some a \<and> (edge s)\<^sup>*\<^sup>* a b}"

definition exact :: "'s \<Rightarrow> OutPoint set \<Rightarrow> txmap \<Rightarrow> bool" where
  "exact s D m \<longleftrightarrow> distinct (map fst m) \<and> set m = below s D"

definition cache_ok :: "'s \<Rightarrow> txcache \<Rightarrow> bool" where
  "cache_ok s cache \<longleftrightarrow> (\<forall>(h, m) \<in> set cache. \<exists>p t. look s p = Some t \<and> h = key t \<and> exact s (set (points t)) m)"

lemma below_look: 
  assumes "(h, b) \<in> below s D"
  shows "h = key b \<and> (\<exists>p. look s p = Some b)"
proof -
  obtain p a where h: "h = key b" and a: "look s p = Some a" "(edge s)\<^sup>*\<^sup>* a b" using assms by (auto simp: below_def)
  from a(2,1) have "\<exists>q. look s q = Some b" by cases (auto simp: edge_def)
  then show ?thesis using h by simp
qed

lemma below_functional: "ok s \<Longrightarrow> functional (below s D)"
  unfolding functional_def using below_look key_inj by blast

lemma below_insert: "below s (insert p D) = below s D \<union> (case look s p of None \<Rightarrow> {} | Some a \<Rightarrow> insert (key a, a) (below s (set (points a))))"
proof (cases "look s p")
  case (Some a)
  have "(edge s)\<^sup>*\<^sup>* a b \<longleftrightarrow> b = a \<or> (\<exists>q \<in> set (points a). \<exists>c. look s q = Some c \<and> (edge s)\<^sup>*\<^sup>* c b)" for b
      proof
    assume "(edge s)\<^sup>*\<^sup>* a b"
    then show "b = a \<or> (\<exists>q \<in> set (points a). \<exists>c. look s q = Some c \<and> (edge s)\<^sup>*\<^sup>* c b)"
      by (cases rule: converse_rtranclpE) (auto simp: edge_def)
  next
    assume "b = a \<or> (\<exists>q \<in> set (points a). \<exists>c. look s q = Some c \<and> (edge s)\<^sup>*\<^sup>* c b)"
    moreover have "edge s a c" if "q \<in> set (points a)" "look s q = Some c" for q c using that by (auto simp: edge_def)
    ultimately show "(edge s)\<^sup>*\<^sup>* a b" by (auto intro: converse_rtranclp_into_rtranclp)
  qed
  then show ?thesis using Some unfolding below_def by auto
qed (auto simp: below_def)

lemma exact_insert:
  assumes "ok s" "exact s D found" "look s p = Some a" "exact s (set (points a)) rest"
  shows "exact s (insert p D) (copy_map rest (AList.update (key a) a found))"
proof -
  let ?all = "below s (insert p D)"
  have all: "?all = below s D \<union> insert (key a, a) (below s (set (points a)))" using assms(3) by (simp add: below_insert)
  note fn = functional_subset[OF below_functional[OF assms(1), of "insert p D"]]
  have u: "set (AList.update (key a) a found) = insert (key a, a) (below s D)"
    using set_update_functional[of "key a" a found] fn[of "insert (key a, a) (below s D)"] all assms(2) by (auto simp: exact_def)
  have "set (copy_map rest (AList.update (key a) a found)) = ?all"
    using copy_map_functional[of rest "AList.update (key a) a found"] fn[OF subset_refl] assms(4) by (simp add: exact_def u all Un_commute)
  moreover have "distinct (map fst (copy_map rest (AList.update (key a) a found)))"
    using assms(2) by (auto simp: exact_def intro!: copy_map_distinct AList.distinct_update)
  ultimately show ?thesis by (simp add: exact_def)
qed

lemma cache_hit:
  assumes "ok s" "cache_ok s cache" "look s p = Some a" "map_of cache (key a) = Some m"
  shows "exact s (set (points a)) m"
  using map_of_SomeD[OF assms(4)] assms(2) key_inj[OF assms(1) assms(3)] unfolding cache_ok_def by fastforce

lemma cache_add:
  assumes "cache_ok s cache" "look s p = Some a" "exact s (set (points a)) m"
  shows "cache_ok s (AList.update (key a) m cache)"
  using assms set_update_subset[of "key a" m cache] unfolding cache_ok_def by blast

lemma exact_empty: "exact s {} []"
  by (simp add: exact_def below_def)

text \<open>One round of the loop, given the search from the transaction found.\<close>

lemma round_exact:
  assumes "ok s" "exact s D found" "cache_ok s cache" "look s p = Some a"
    and rec: "\<exists>m c. r cache = Some (m, c) \<and> exact s (set (points a)) m \<and> cache_ok s c"
  shows "\<exists>m c. (let h = key a; found = AList.update h a found
     in case map_of cache h of
          Some rest \<Rightarrow> Some (copy_map rest found, cache)
        | None \<Rightarrow> map_option (\<lambda>(rest, cache). (copy_map rest found, AList.update h rest cache)) (r cache)) = Some (m, c)
      \<and> exact s (insert p D) m \<and> cache_ok s c"
proof (cases "map_of cache (key a)")
  case None
  obtain m c where "r cache = Some (m, c)" "exact s (set (points a)) m" "cache_ok s c" using rec by blast
  then show ?thesis using None exact_insert[OF assms(1,2,4)] cache_add[OF _ assms(4)] by (simp add: Let_def)
next
  case (Some rest)
  then show ?thesis using exact_insert[OF assms(1,2,4) cache_hit[OF assms(1,3,4) Some]] assms(3) by (simp add: Let_def)
qed

lemma walk_exact:
  assumes "ok s" "node t" "room s t < k" "cache_ok s cache"
  shows "\<exists>m c. walk k points (look s) key t cache = Some (m, c) \<and> exact s (set (points t)) m \<and> cache_ok s c"
  using assms(2-4)
proof (induction k arbitrary: t cache)
  case (Suc k)
  have rec: "\<exists>m c. walk k points (look s) key a c0 = Some (m, c) \<and> exact s (set (points a)) m \<and> cache_ok s c"
    if "p \<in> set (points t)" "look s p = Some a" "cache_ok s c0" for p a c0
    using Suc.IH[OF look_node[OF assms(1) that(2)] _ that(3)] room_less[OF assms(1) Suc.prems(1) that(1,2)] Suc.prems(2) by simp
  let ?I = "\<lambda>D st. exact s D (fst st) \<and> cache_ok s (snd st)"
  have "\<exists>st. walk (Suc k) points (look s) key t cache = Some st \<and> ?I ({} \<union> set (points t)) st"
    unfolding walk.simps
  proof (rule foldO_collect[where I = ?I])
    fix D p and st :: "txmap \<times> txcache" assume p: "p \<in> set (points t)" and I: "?I D st"
    obtain found c0 where st: "st = (found, c0)" by (cases st)
    show "\<exists>st'. (case st of (found, cache) \<Rightarrow> case look s p of None \<Rightarrow> Some (found, cache)
       | Some t \<Rightarrow> let h = key t; found = AList.update h t found
          in case map_of cache h of
               None \<Rightarrow> map_option (\<lambda>(rest, cache). (copy_map rest found, AList.update h rest cache)) (walk k points (look s) key t cache)
             | Some rest \<Rightarrow> Some (copy_map rest found, cache)) = Some st' \<and> ?I (insert p D) st'"
    proof (cases "look s p")
      case None
      then show ?thesis using I st by (simp add: exact_def below_insert)
    next
      case (Some a)
      from round_exact[of s D found c0 p a "walk k points (look s) key a"] show ?thesis
        using rec[OF p Some] I st Some assms(1) by auto
    qed
  qed (use Suc.prems(3) exact_empty in simp)
  then show ?case by auto
qed simp

end

section \<open>Descendants\<close>

definition spent_by :: "wire_lib \<Rightarrow> TxPool \<Rightarrow> MsgTx \<Rightarrow> MsgTx \<Rightarrow> bool" where
  "spent_by L mp a b \<longleftrightarrow> (\<exists>p \<in> set (outs L a). outpoints mp p = Some b)"

definition rank_above :: "(hash \<Rightarrow> nat) \<Rightarrow> wire_lib \<Rightarrow> TxPool \<Rightarrow> MsgTx \<Rightarrow> nat" where
  "rank_above rank L mp tx = card {h \<in> fst ` set (pool mp). rank (TxHash L tx) < rank h}"

lemma rank_above_length: "rank_above rank L mp tx < length (pool mp) + 1"
proof -
  have "rank_above rank L mp tx \<le> card (fst ` set (pool mp))" unfolding rank_above_def by (intro card_mono) auto
  also have "\<dots> \<le> length (pool mp)" by (metis card_length length_map set_map)
  finally show ?thesis by simp
qed

lemma outs_hash: "p \<in> set (outs L tx) \<Longrightarrow> op_Hash p = TxHash L tx"
  by (auto simp: outs_def outpoint_def)

lemma in_pool_key: "txpool_ok rank L mp \<Longrightarrow> in_pool mp tx \<Longrightarrow> TxHash L tx \<in> fst ` set (pool mp)"
  using in_pool_lookup[of rank L mp tx] map_of_SomeD by (metis fst_conv image_eqI)

lemma redeemer_above:
  assumes "txpool_ok rank L mp" "p \<in> set (outs L t)" "outpoints mp p = Some a"
  shows "rank (TxHash L t) < rank (TxHash L a)" "rank_above rank L mp a < rank_above rank L mp t"
proof -
  have a: "in_pool mp a" "p \<in> set (prevs a)" using assms(3) txpool_okD(4)[OF assms(1)] by auto
  show less: "rank (TxHash L t) < rank (TxHash L a)"
    using txpool_okD(3)[OF assms(1) a(1)] a(2) outs_hash[OF assms(2)] unfolding ranked_def by metis
  show "rank_above rank L mp a < rank_above rank L mp t" unfolding rank_above_def
    using less in_pool_key[OF assms(1) a(1)] by (intro psubset_card_mono) auto
qed

interpretation down: graph "txpool_ok rank L" "\<lambda>t. True" "outs L" outpoints "TxHash L" "rank_above rank L" for rank L
proof
  fix mp p a q b assume ok: "txpool_ok rank L mp" "outpoints mp p = Some a" "outpoints mp q = Some b" "TxHash L a = TxHash L b"
  then show "a = b" using in_pool_unique[OF ok(1)] txpool_okD(4)[OF ok(1)] by blast
qed (use redeemer_above in auto)

lemma tx_descendants_walk: "tx_descendants k L mp tx cache = walk k (outs L) (outpoints mp) (TxHash L) tx cache"
  by (induction k arbitrary: tx cache) (simp_all cong: option.case_cong)

lemma txDescendants_exact:
  assumes "txpool_ok rank L mp"
  shows "\<exists>m. txDescendants L mp tx = Some m \<and> down.exact L mp (set (outs L tx)) m"
  using down.walk_exact[where s = mp and t = tx and cache = "[]", OF assms TrueI rank_above_length]
  by (auto simp: txDescendants_def tx_descendants_walk down.cache_ok_def)

section \<open>Ancestors\<close>

definition parents :: "TxPool \<Rightarrow> OutPoint \<Rightarrow> MsgTx option" where
  "parents mp p = map_option td_Tx (map_of (pool mp) (op_Hash p))"

definition rank_below :: "(hash \<Rightarrow> nat) \<Rightarrow> wire_lib \<Rightarrow> TxPool \<Rightarrow> MsgTx \<Rightarrow> nat" where
  "rank_below rank L mp tx = card {h \<in> fst ` set (pool mp). rank h < rank (TxHash L tx)}"

lemma rank_below_length: "rank_below rank L mp tx < length (pool mp) + 1"
proof -
  have "rank_below rank L mp tx \<le> card (fst ` set (pool mp))" unfolding rank_below_def by (intro card_mono) auto
  also have "\<dots> \<le> length (pool mp)" by (metis card_length length_map set_map)
  finally show ?thesis by simp
qed

lemma parents_in_pool:
  assumes "txpool_ok rank L mp" "parents mp p = Some a"
  shows "in_pool mp a" "TxHash L a = op_Hash p"
  using assms lookup_in_pool[OF assms(1)] by (auto simp: parents_def)

lemma parent_below:
  assumes "txpool_ok rank L mp" "ranked rank L t" "p \<in> set (prevs t)" "parents mp p = Some a"
  shows "rank_below rank L mp a < rank_below rank L mp t"
proof -
  note a = parents_in_pool[OF assms(1,4)]
  have "rank (TxHash L a) < rank (TxHash L t)" using assms(2,3) a(2) unfolding ranked_def by metis
  then show ?thesis unfolding rank_below_def using in_pool_key[OF assms(1) a(1)] by (intro psubset_card_mono) auto
qed

interpretation up: graph "txpool_ok rank L" "ranked rank L" prevs parents "TxHash L" "rank_below rank L" for rank L
proof
  fix mp p a q b assume ok: "txpool_ok rank L mp" "parents mp p = Some a" "parents mp q = Some b" "TxHash L a = TxHash L b"
  then show "a = b" using in_pool_unique[OF ok(1)] parents_in_pool[OF ok(1)] by blast
qed (use parent_below parents_in_pool txpool_okD(3) in blast)+

lemma case_parents:
  "(case parents mp p of None \<Rightarrow> a | Some t \<Rightarrow> f t) = (case map_of (pool mp) (op_Hash p) of None \<Rightarrow> a | Some par \<Rightarrow> f (td_Tx par))"
  by (simp add: parents_def split: option.split)

lemma tx_ancestors_walk: "tx_ancestors k L mp tx cache = walk k prevs (parents mp) (TxHash L) tx cache"
  by (induction k arbitrary: tx cache) (simp_all add: case_parents cong: option.case_cong)

lemma txAncestors_exact:
  assumes "txpool_ok rank L mp" "ranked rank L tx"
  shows "\<exists>m. txAncestors L mp tx = Some m \<and> up.exact L mp (set (prevs tx)) m"
  using up.walk_exact[OF assms rank_below_length, of "[]"]
  by (auto simp: txAncestors_def tx_ancestors_walk up.cache_ok_def)

section \<open>Conflicts\<close>

lemma txConflicts_exact:
  assumes "txpool_ok rank L mp"
  shows "\<exists>m. txConflicts L mp tx = Some m \<and> down.exact L mp (set (prevs tx)) m"
proof -
  have "\<exists>m. txConflicts L mp tx = Some m \<and> down.exact L mp ({} \<union> set (prevs tx)) m"
    unfolding txConflicts_def
  proof (rule foldO_collect)
    fix D p and conflicts assume "p \<in> set (prevs tx)" and ex: "down.exact L mp D conflicts"
    show "\<exists>m. (case outpoints mp p of None \<Rightarrow> Some conflicts
       | Some conflict \<Rightarrow> map_option (\<lambda>descendants. copy_map descendants (AList.update (TxHash L conflict) conflict conflicts))
           (txDescendants L mp conflict)) = Some m \<and> down.exact L mp (insert p D) m"
    proof (cases "outpoints mp p")
      case None
      then show ?thesis using ex by (simp add: down.exact_def down.below_insert)
    next
      case (Some c)
      then show ?thesis using txDescendants_exact[OF assms, of c] down.exact_insert[OF assms ex Some] by auto
    qed
  qed (rule down.exact_empty)
  then show ?thesis by simp
qed

end
