(* ===== verification/Mempool_Remove.thy ===== *)
theory Mempool_Remove
  imports Mempool_Closure
begin

text \<open>
  Removal from the memory pool: with redeemers, exactly the transaction and its descendants go; and the rules of
  replacement: who signals it, what it evicts and what it has to pay.
\<close>

section \<open>Removal with redeemers\<close>

lemma edge_spent_by: "down.edge L mp = spent_by L mp"
  by (auto simp: fun_eq_iff down.edge_def spent_by_def)

definition gone :: "wire_lib \<Rightarrow> TxPool \<Rightarrow> OutPoint set \<Rightarrow> MsgTx set" where
  "gone L mp D = {b. \<exists>p \<in> D. \<exists>a. outpoints mp p = Some a \<and> (spent_by L mp)\<^sup>*\<^sup>* a b}"

lemma below_gone: "down.below L mp D = (\<lambda>b. (TxHash L b, b)) ` gone L mp D"
  by (auto simp: down.below_def gone_def edge_spent_by)

lemma gone_in_pool: "txpool_ok rank L mp \<Longrightarrow> b \<in> gone L mp D \<Longrightarrow> in_pool mp b"
  using down.below_look[of "TxHash L b" b L mp D] txpool_okD(4) by (auto simp: below_gone)

lemma gone_closed: "c \<in> gone L mp D \<Longrightarrow> (spent_by L mp)\<^sup>*\<^sup>* c d \<Longrightarrow> d \<in> gone L mp D"
  unfolding gone_def by (auto intro: rtranclp_trans)

lemma gone_hash: "txpool_ok rank L mp \<Longrightarrow> in_pool mp b \<Longrightarrow> TxHash L b \<in> TxHash L ` gone L mp D \<Longrightarrow> b \<in> gone L mp D"
  using gone_in_pool in_pool_unique by (metis imageE)

lemma without_spent_by:
  assumes "without L H mp mp1"
  shows "spent_by L mp1 a b \<longleftrightarrow> spent_by L mp a b \<and> TxHash L b \<notin> H"
  using without_outpoints[OF assms] by (auto simp: spent_by_def)

lemma reach_without:
  assumes ok: "txpool_ok rank L mp" and w: "without L (TxHash L ` gone L mp D) mp mp1" and "(spent_by L mp)\<^sup>*\<^sup>* r b"
  shows "b \<in> gone L mp D \<or> (spent_by L mp1)\<^sup>*\<^sup>* r b"
  using assms(3)
proof (induction rule: rtranclp_induct)
  case (step c d)
  have "in_pool mp d" using step.hyps(2) txpool_okD(4)[OF ok] by (auto simp: spent_by_def)
  then have "d \<in> gone L mp D \<or> spent_by L mp1 c d" using gone_hash[OF ok] without_spent_by[OF w] step.hyps(2) by blast
  moreover have "d \<in> gone L mp D" if "c \<in> gone L mp D" using gone_closed[OF that] step.hyps(2) by blast
  ultimately show ?case using step.IH by (meson rtranclp.rtrancl_into_rtrancl)
qed simp

lemma gone_insert:
  "gone L mp (insert p D) = gone L mp D \<union> (case outpoints mp p of None \<Rightarrow> {} | Some r \<Rightarrow> {b. (spent_by L mp)\<^sup>*\<^sup>* r b})"
  by (auto simp: gone_def split: option.split)

lemma reach_outs: "{b. (spent_by L mp)\<^sup>*\<^sup>* tx b} = insert tx (gone L mp (set (outs L tx)))"
proof -
  have "(spent_by L mp)\<^sup>*\<^sup>* tx b \<longleftrightarrow> b = tx \<or> b \<in> gone L mp (set (outs L tx))" for b
  proof
    assume "(spent_by L mp)\<^sup>*\<^sup>* tx b"
    then show "b = tx \<or> b \<in> gone L mp (set (outs L tx))" by (cases rule: converse_rtranclpE) (auto simp: gone_def spent_by_def)
  next
    assume "b = tx \<or> b \<in> gone L mp (set (outs L tx))"
    moreover have "spent_by L mp tx r" if "p \<in> set (outs L tx)" "outpoints mp p = Some r" for p r using that by (auto simp: spent_by_def)
    ultimately show "(spent_by L mp)\<^sup>*\<^sup>* tx b" by (auto simp: gone_def intro: converse_rtranclp_into_rtranclp)
  qed
  then show ?thesis by auto
qed

lemma rank_above_without: "without L H mp mp1 \<Longrightarrow> rank_above rank L mp1 tx \<le> rank_above rank L mp tx"
  unfolding rank_above_def by (intro card_mono) (auto simp: without_pool)

lemma remove_transaction_exact:
  assumes "txpool_ok rank (mp_wire env) mp" "rank_above rank (mp_wire env) mp tx < k"
  shows "\<exists>mp'. remove_transaction k env tx True mp = Some mp'
    \<and> without (mp_wire env) (TxHash (mp_wire env) ` {b. (spent_by (mp_wire env) mp)\<^sup>*\<^sup>* tx b}) mp mp'"
  using assms
proof (induction k arbitrary: mp tx)
  case (Suc k)
  note ok = Suc.prems(1)
  let ?L = "mp_wire env"
  let ?I = "\<lambda>D mp1. without ?L (TxHash ?L ` gone ?L mp D) mp mp1"
  have "\<exists>mp1. foldO (\<lambda>prevOut mp. case outpoints mp prevOut of None \<Rightarrow> Some mp
       | Some txRedeemer \<Rightarrow> remove_transaction k env txRedeemer True mp) (outs ?L tx) mp = Some mp1 \<and> ?I ({} \<union> set (outs ?L tx)) mp1"
  proof (rule foldO_collect[where I = ?I])
    fix D p mp1 assume p: "p \<in> set (outs ?L tx)" and I: "?I D mp1"
    show "\<exists>mp2. (case outpoints mp1 p of None \<Rightarrow> Some mp1 | Some r \<Rightarrow> remove_transaction k env r True mp1) = Some mp2 \<and> ?I (insert p D) mp2"
    proof (cases "outpoints mp1 p")
      case None
      have "r \<in> gone ?L mp D" if "outpoints mp p = Some r" for r
        using that None without_outpoints[OF I, of p r] gone_hash[OF ok] txpool_okD(4)[OF ok] by auto
      then have "gone ?L mp (insert p D) = gone ?L mp D" using gone_closed by (auto simp: gone_insert split: option.splits)
      then show ?thesis using None I by simp
    next
      case (Some r)
      then have r: "outpoints mp p = Some r" using without_outpoints[OF I] by simp
      have "rank_above rank ?L mp1 r < k"
        using redeemer_above(2)[OF ok p r] rank_above_without[OF I, of rank r] Suc.prems(2) by simp
      from Suc.IH[OF without_ok[OF I ok] this] obtain mp2 where mp2: "remove_transaction k env r True mp1 = Some mp2"
        "without ?L (TxHash ?L ` {b. (spent_by ?L mp1)\<^sup>*\<^sup>* r b}) mp1 mp2" by blast
      have "(spent_by ?L mp)\<^sup>*\<^sup>* r b" if "(spent_by ?L mp1)\<^sup>*\<^sup>* r b" for b
        using that rtranclp_mono[of "spent_by ?L mp1" "spent_by ?L mp"] without_spent_by[OF I] by blast
      then have "gone ?L mp D \<union> {b. (spent_by ?L mp1)\<^sup>*\<^sup>* r b} = gone ?L mp (insert p D)"
        using reach_without[OF ok I, of r] r by (auto simp: gone_insert)
      then have "?I (insert p D) mp2" using without_trans[OF I mp2(2)] by (simp add: image_Un[symmetric])
      then show ?thesis using Some mp2(1) by simp
    qed
  qed (simp add: gone_def without_refl)
  then obtain mp1 where mp1: "foldO (\<lambda>prevOut mp. case outpoints mp prevOut of None \<Rightarrow> Some mp
       | Some txRedeemer \<Rightarrow> remove_transaction k env txRedeemer True mp) (outs ?L tx) mp = Some mp1" "?I (set (outs ?L tx)) mp1" by auto
  have "without ?L (TxHash ?L ` {b. (spent_by ?L mp)\<^sup>*\<^sup>* tx b}) mp (take_out env (TxHash ?L tx) mp1)"
    using without_trans[OF mp1(2) take_out_without[OF without_ok[OF mp1(2) ok]], of "TxHash ?L tx"] by (simp add: reach_outs insert_commute)
  then show ?case using mp1(1) by simp
qed simp

lemma removeTransaction_redeemers:
  assumes "txpool_ok rank (mp_wire env) mp"
  shows "\<exists>mp'. removeTransaction env tx True mp = Some mp'
    \<and> without (mp_wire env) (TxHash (mp_wire env) ` {b. (spent_by (mp_wire env) mp)\<^sup>*\<^sup>* tx b}) mp mp'"
  unfolding removeTransaction_def by (rule remove_transaction_exact[OF assms rank_above_length])

lemma removeTransaction_single:
  assumes "txpool_ok rank (mp_wire env) mp"
  shows "\<exists>mp'. removeTransaction env tx False mp = Some mp' \<and> without (mp_wire env) {TxHash (mp_wire env) tx} mp mp'"
  using take_out_without[OF assms] by (simp add: removeTransaction_def)

lemma removeTransaction_without:
  assumes "txpool_ok rank (mp_wire env) mp"
  shows "\<exists>mp' H. removeTransaction env tx r mp = Some mp' \<and> without (mp_wire env) H mp mp'"
  using removeTransaction_redeemers[OF assms, of tx] removeTransaction_single[OF assms, of tx] by (cases r) auto

lemma RemoveDoubleSpends_without:
  assumes "txpool_ok rank (mp_wire env) mp"
  shows "\<exists>mp'. RemoveDoubleSpends env tx mp = Some mp' \<and> (\<exists>H. without (mp_wire env) H mp mp')"
  unfolding RemoveDoubleSpends_def
proof (rule foldO_inv)
  fix p mp1 assume "\<exists>H. without (mp_wire env) H mp mp1"
  then obtain H where w: "without (mp_wire env) H mp mp1" by blast
  from removeTransaction_without[OF without_ok[OF w assms], of _ True] w
  show "\<exists>mp2. (case outpoints mp1 p of None \<Rightarrow> Some mp1 | Some txRedeemer \<Rightarrow>
      if TxHash (mp_wire env) txRedeemer \<noteq> TxHash (mp_wire env) tx then removeTransaction env txRedeemer True mp1 else Some mp1) = Some mp2
    \<and> (\<exists>H. without (mp_wire env) H mp mp2)"
    by (auto split: option.split) (meson without_trans)+
qed (use without_refl in blast)

section \<open>Signalling replacement\<close>

definition spends_from :: "TxPool \<Rightarrow> MsgTx \<Rightarrow> MsgTx \<Rightarrow> bool" where
  "spends_from mp a b \<longleftrightarrow> (\<exists>p \<in> set (prevs a). parents mp p = Some b)"

definition signals :: "TxPool \<Rightarrow> MsgTx \<Rightarrow> bool" where
  "signals mp tx \<longleftrightarrow> (\<exists>a. (spends_from mp)\<^sup>*\<^sup>* tx a \<and> (\<exists>txIn \<in> set (tx_TxIn a). Sequence txIn \<le> MaxRBFSequence))"

definition input_signals :: "TxPool \<Rightarrow> TxIn \<Rightarrow> bool" where
  "input_signals mp txIn \<longleftrightarrow> Sequence txIn \<le> MaxRBFSequence \<or> (\<exists>t. parents mp (PreviousOutPoint txIn) = Some t \<and> signals mp t)"

lemma signals_inputs_iff: "signals mp tx \<longleftrightarrow> (\<exists>txIn \<in> set (tx_TxIn tx). input_signals mp txIn)"
proof
  assume "signals mp tx"
  then obtain a txIn where a: "(spends_from mp)\<^sup>*\<^sup>* tx a" "txIn \<in> set (tx_TxIn a)" "Sequence txIn \<le> MaxRBFSequence" by (auto simp: signals_def)
  from a(1) show "\<exists>txIn \<in> set (tx_TxIn tx). input_signals mp txIn"
  proof (cases rule: converse_rtranclpE)
    case base
    then show ?thesis using a by (auto simp: input_signals_def)
  next
    case (step t)
    then have "signals mp t" using a by (auto simp: signals_def)
    then show ?thesis using step(1) by (auto simp: spends_from_def prevs_def input_signals_def)
  qed
next
  assume "\<exists>txIn \<in> set (tx_TxIn tx). input_signals mp txIn"
  then obtain txIn where t: "txIn \<in> set (tx_TxIn tx)" "input_signals mp txIn" by blast
  have "spends_from mp tx u" if "parents mp (PreviousOutPoint txIn) = Some u" for u using that t(1) by (auto simp: spends_from_def prevs_def)
  then show "signals mp tx" using t unfolding input_signals_def signals_def by (blast intro: converse_rtranclp_into_rtranclp)
qed

definition silent :: "wire_lib \<Rightarrow> TxPool \<Rightarrow> hash list \<Rightarrow> bool" where
  "silent L mp cache \<longleftrightarrow> (\<forall>t. in_pool mp t \<and> TxHash L t \<in> set cache \<longrightarrow> \<not> signals mp t)"

lemma signals_inputs_correct:
  assumes ok: "txpool_ok rank L mp"
    and rec: "\<And>txIn t c. txIn \<in> set txIns \<Longrightarrow> parents mp (PreviousOutPoint txIn) = Some t \<Longrightarrow> silent L mp c \<Longrightarrow> \<exists>c'. rec t c = Some (signals mp t, c') \<and> silent L mp c'"
    and "silent L mp cache"
  shows "\<exists>c. signals_inputs rec mp txIns cache = Some (\<exists>txIn \<in> set txIns. input_signals mp txIn, c) \<and> silent L mp c"
  using rec assms(3)
proof (induction txIns arbitrary: cache)
  case (Cons txIn txIns)
  have IH: "\<exists>c. signals_inputs rec mp txIns c0 = Some (\<exists>txIn \<in> set txIns. input_signals mp txIn, c) \<and> silent L mp c" if "silent L mp c0" for c0
    by (rule Cons.IH[OF Cons.prems(1) that]) simp_all
  show ?case
  proof (cases "Sequence txIn \<le> MaxRBFSequence")
    case True
    then show ?thesis using Cons.prems(2) by (simp add: input_signals_def)
  next
    case unsignalled: False
    let ?h = "op_Hash (PreviousOutPoint txIn)"
    show ?thesis
    proof (cases "map_of (pool mp) ?h")
      case None
      then show ?thesis using unsignalled IH[OF Cons.prems(2)] by (simp add: input_signals_def[of mp txIn] parents_def)
    next
      case (Some d)
      then have par: "parents mp (PreviousOutPoint txIn) = Some (td_Tx d)" by (simp add: parents_def)
      note d = lookup_in_pool[OF ok Some]
      have here: "input_signals mp txIn \<longleftrightarrow> signals mp (td_Tx d)" using unsignalled par by (simp add: input_signals_def)
      show ?thesis
      proof (cases "?h \<in> set cache")
        case True
        then have "\<not> signals mp (td_Tx d)" using d Cons.prems(2) unfolding silent_def by metis
        then show ?thesis using unsignalled Some True here IH[OF Cons.prems(2)] by simp
      next
        case False
        obtain c where c: "rec (td_Tx d) cache = Some (signals mp (td_Tx d), c)" "silent L mp c"
          using Cons.prems(1)[OF _ par Cons.prems(2)] by auto
        show ?thesis
        proof (cases "signals mp (td_Tx d)")
          case True
          then show ?thesis using unsignalled Some False c here by simp
        next
          case quiet: False
          have "t = td_Tx d" if "in_pool mp t" "TxHash L t = ?h" for t using in_pool_unique[OF ok that(1) d(1)] that(2) d(2) by simp
          then have "silent L mp (?h # c)" using c(2) quiet unfolding silent_def by auto
          from IH[OF this] show ?thesis using unsignalled Some False c quiet here by simp
        qed
      qed
    qed
  qed
qed simp

lemma signals_replacement_correct:
  assumes ok: "txpool_ok rank L mp" and "ranked rank L tx" "rank_below rank L mp tx < k" "silent L mp cache"
  shows "\<exists>c. signals_replacement k mp tx cache = Some (signals mp tx, c) \<and> silent L mp c"
  using assms(2-4)
proof (induction k arbitrary: tx cache)
  case (Suc k)
  have "\<exists>c'. signals_replacement k mp t c = Some (signals mp t, c') \<and> silent L mp c'"
    if "txIn \<in> set (tx_TxIn tx)" "parents mp (PreviousOutPoint txIn) = Some t" "silent L mp c" for txIn t c
  proof -
    have "PreviousOutPoint txIn \<in> set (prevs tx)" using that(1) by (simp add: prevs_def)
    from parent_below[OF ok Suc.prems(1) this that(2)] show ?thesis
      using Suc.IH[OF txpool_okD(3)[OF ok parents_in_pool(1)[OF ok that(2)]] _ that(3)] Suc.prems(2) by simp
  qed
  from signals_inputs_correct[OF ok this Suc.prems(3)] show ?case unfolding signals_replacement.simps signals_inputs_iff .
qed simp

lemma signalsReplacement_exact:
  assumes "txpool_ok rank L mp" "ranked rank L tx"
  shows "signalsReplacement mp tx = Some (signals mp tx)"
  using signals_replacement_correct[OF assms rank_below_length, of "[]"] by (auto simp: signalsReplacement_def silent_def)

end
