(* ===== verification/Mempool_Replace.thy ===== *)
theory Mempool_Replace
  imports Mempool_Remove
begin

text \<open>
  Replacement of pool transactions: what \<open>validateReplacement\<close> demands of the new transaction, and that the
  eviction of the conflicting transactions succeeds and leaves no other spender of its inputs.
\<close>

section \<open>Conflicts\<close>

definition evicted :: "wire_lib \<Rightarrow> TxPool \<Rightarrow> MsgTx \<Rightarrow> MsgTx set" where
  "evicted L mp tx = gone L mp (set (prevs tx))"

definition conflict_map :: "wire_lib \<Rightarrow> TxPool \<Rightarrow> MsgTx \<Rightarrow> txmap \<Rightarrow> bool" where
  "conflict_map L mp tx m \<longleftrightarrow> distinct (map fst m) \<and> set m = (\<lambda>t. (TxHash L t, t)) ` evicted L mp tx"

lemma txConflicts_map:
  assumes "txpool_ok rank L mp"
  shows "\<exists>m. txConflicts L mp tx = Some m \<and> conflict_map L mp tx m"
  using txConflicts_exact[OF assms] by (simp add: conflict_map_def evicted_def down.exact_def below_gone)

lemma conflict_mapD:
  assumes "txpool_ok rank L mp" "conflict_map L mp tx m" "(h, c) \<in> set m"
  shows "h = TxHash L c" "in_pool mp c" "c \<in> evicted L mp tx"
  using assms gone_in_pool by (auto simp: conflict_map_def evicted_def)

text \<open>The conflicts of a transaction that conflicts with nothing.\<close>

lemma evicted_empty: "(\<forall>p \<in> set (prevs tx). outpoints mp p = None) \<Longrightarrow> evicted L mp tx = {}"
  by (auto simp: evicted_def gone_def)

lemma evicted_spenders: "p \<in> set (prevs tx) \<Longrightarrow> outpoints mp p = Some c \<Longrightarrow> c \<in> evicted L mp tx"
  by (auto simp: evicted_def gone_def)

section \<open>Fees\<close>

definition pool_fee :: "TxPool \<Rightarrow> hash \<Rightarrow> int" where
  "pool_fee mp h = (case map_of (pool mp) h of None \<Rightarrow> 0 | Some d \<Rightarrow> td_Fee d)"

definition fees_ok :: "wire_lib \<Rightarrow> TxPool \<Rightarrow> bool" where
  "fees_ok L mp \<longleftrightarrow> (\<forall>(h, d) \<in> set (pool mp). 0 \<le> td_Fee d \<and> td_Fee d \<le> MaxSatoshi L)"

lemma pool_fee_bounds: "fees_ok L mp \<Longrightarrow> 0 \<le> MaxSatoshi L \<Longrightarrow> 0 \<le> pool_fee mp h \<and> pool_fee mp h \<le> MaxSatoshi L"
  by (auto simp: fees_ok_def pool_fee_def split: option.split dest: map_of_SomeD)

lemma check_fee_rates_correct:
  assumes "\<forall>(h, c) \<in> set cs. map_of (pool mp) h \<noteq> None" "fees_ok L mp" "0 \<le> f" "0 \<le> MaxSatoshi L" "f + int (length cs) * MaxSatoshi L < 2 ^ 63"
  shows "check_fee_rates mp rate cs f P =
    (if \<exists>h \<in> fst ` set cs. rate \<le> FeePerKB (the (map_of (pool mp) h)) then Inl (txRuleError RejectInsufficientFee)
     else Inr (f + sum_list (map (\<lambda>x. pool_fee mp (fst x)) cs), P \<union> op_Hash ` \<Union> (set ` prevs ` snd ` set cs)))"
  using assms(1,3,5)
proof (induction cs arbitrary: f P)
  case (Cons x cs)
  obtain h c where x: "x = (h, c)" by (cases x)
  obtain d where d: "map_of (pool mp) h = Some d" using Cons.prems(1) x by auto
  have fee: "pool_fee mp h = td_Fee d" "0 \<le> td_Fee d" "td_Fee d \<le> MaxSatoshi L"
    using pool_fee_bounds[OF assms(2,4), of h] d by (simp_all add: pool_fee_def)
  have "0 \<le> int (length cs) * MaxSatoshi L" using assms(4) by simp
  then have small: "f + td_Fee d + int (length cs) * MaxSatoshi L < 2 ^ 63" using Cons.prems(3) fee(3) by (simp add: algebra_simps)
  then have "i64 (f + td_Fee d) = f + td_Fee d"
    using Cons.prems(2) fee(2) \<open>0 \<le> int (length cs) * MaxSatoshi L\<close> by (intro i64_id) auto
  moreover have "check_fee_rates mp rate cs (f + td_Fee d) Q =
    (if \<exists>h \<in> fst ` set cs. rate \<le> FeePerKB (the (map_of (pool mp) h)) then Inl (txRuleError RejectInsufficientFee)
     else Inr (f + td_Fee d + sum_list (map (\<lambda>x. pool_fee mp (fst x)) cs), Q \<union> op_Hash ` \<Union> (set ` prevs ` snd ` set cs)))" for Q
    using Cons.prems fee(2) small by (intro Cons.IH) auto
  ultimately show ?case using x d fee(1) by (auto simp: image_Un)
qed simp

section \<open>Rules of replacement\<close>

lemma validateReplacement_rules:
  assumes ok: "txpool_ok rank (mp_wire env) mp" and tx: "ranked rank (mp_wire env) tx"
    and fees: "fees_ok (mp_wire env) mp" "0 \<le> MaxSatoshi (mp_wire env)" "101 * MaxSatoshi (mp_wire env) < 2 ^ 63"
    and acc: "validateReplacement env mp tx txFee = Some (Inr conflicts)"
  shows "conflict_map (mp_wire env) mp tx conflicts" "length conflicts \<le> MaxReplacementEvictions"
    "\<forall>a. (spends_from mp)\<^sup>+\<^sup>+ tx a \<longrightarrow> a \<notin> evicted (mp_wire env) mp tx"
    "\<forall>h \<in> fst ` set conflicts. FeePerKB (the (map_of (pool mp) h)) < go_div (i64 (txFee * 1000)) (GetTxVirtualSize (mp_wire env) tx)"
    "sum_list (map (\<lambda>x. pool_fee mp (fst x)) conflicts)
      + calcMinRequiredTxRelayFee (mp_wire env) (GetTxVirtualSize (mp_wire env) tx) (MinRelayTxFee (mpPolicy env)) \<le> txFee"
    "\<forall>p \<in> set (prevs tx). parents mp p \<noteq> None \<longrightarrow> (\<exists>c \<in> evicted (mp_wire env) mp tx. op_Hash p \<in> op_Hash ` set (prevs c))"
proof -
  let ?L = "mp_wire env"
  let ?min = "calcMinRequiredTxRelayFee ?L (GetTxVirtualSize ?L tx) (MinRelayTxFee (mpPolicy env))"
  obtain m where m: "txConflicts ?L mp tx = Some m" "conflict_map ?L mp tx m" using txConflicts_map[OF ok] by blast
  obtain a where a: "txAncestors ?L mp tx = Some a" "up.exact ?L mp (set (prevs tx)) a" using txAncestors_exact[OF ok tx] by blast
  have [simp]: "conflicts = m" and len: "length m \<le> MaxReplacementEvictions"
    and anc: "\<forall>h \<in> fst ` set a. map_of m h = None"
    and cfr: "\<exists>f P. check_fee_rates mp (go_div (i64 (txFee * 1000)) (GetTxVirtualSize ?L tx)) m 0 {} = Inr (f, P)
      \<and> i64 (f + ?min) \<le> txFee \<and> (\<forall>p \<in> set (prevs tx). op_Hash p \<in> P \<or> map_of (pool mp) (op_Hash p) = None)"
    using acc m(1) a(1) by (auto simp: validateReplacement_def Let_def list_ex_iff split: if_splits sum.splits)
  show "conflict_map ?L mp tx conflicts" "length conflicts \<le> MaxReplacementEvictions" using m(2) len by simp_all
  have looked: "\<forall>(h, c) \<in> set m. map_of (pool mp) h \<noteq> None"
    using conflict_mapD[OF ok m(2)] in_pool_lookup[OF ok] by fastforce
  have short: "int (length m) * MaxSatoshi ?L \<le> 100 * MaxSatoshi ?L"
    using len fees(2) by (intro mult_right_mono) (auto simp: MaxReplacementEvictions_def)
  then have room: "0 + int (length m) * MaxSatoshi ?L < 2 ^ 63" using fees(2,3) by linarith
  note cfr_eq = check_fee_rates_correct[OF looked fees(1) order_refl fees(2) room]
  have rates: "\<forall>h \<in> fst ` set m. FeePerKB (the (map_of (pool mp) h)) < go_div (i64 (txFee * 1000)) (GetTxVirtualSize ?L tx)"
    and paid: "i64 (sum_list (map (\<lambda>x. pool_fee mp (fst x)) m) + ?min) \<le> txFee"
    and pars: "\<forall>p \<in> set (prevs tx). op_Hash p \<in> op_Hash ` \<Union> (set ` prevs ` snd ` set m) \<or> map_of (pool mp) (op_Hash p) = None"
    using cfr unfolding cfr_eq by (auto split: if_splits simp: not_le)
  show "\<forall>h \<in> fst ` set conflicts. FeePerKB (the (map_of (pool mp) h)) < go_div (i64 (txFee * 1000)) (GetTxVirtualSize ?L tx)" using rates by simp
  have "0 \<le> sum_list (map (\<lambda>x. pool_fee mp (fst x)) m)" using pool_fee_bounds[OF fees(1,2)] by (intro sum_list_nonneg) auto
  moreover have "sum_list (map (\<lambda>x. pool_fee mp (fst x)) m) \<le> int (length m) * MaxSatoshi ?L"
    using sum_list_mono[of m "\<lambda>x. pool_fee mp (fst x)" "\<lambda>_. MaxSatoshi ?L"] pool_fee_bounds[OF fees(1,2)] by (simp add: sum_list_triv)
  moreover have "101 * MaxSatoshi ?L < 9223372036854775808" using fees(3) by simp
  moreover have "0 \<le> ?min \<and> ?min \<le> MaxSatoshi ?L" using fees(2) by (simp add: calcMinRequiredTxRelayFee_def Let_def)
  ultimately have "i64 (sum_list (map (\<lambda>x. pool_fee mp (fst x)) m) + ?min) = sum_list (map (\<lambda>x. pool_fee mp (fst x)) m) + ?min"
    using short by (intro i64_id) linarith+
  then show "sum_list (map (\<lambda>x. pool_fee mp (fst x)) conflicts) + ?min \<le> txFee" using paid by simp
  show "\<forall>p \<in> set (prevs tx). parents mp p \<noteq> None \<longrightarrow> (\<exists>c \<in> evicted ?L mp tx. op_Hash p \<in> op_Hash ` set (prevs c))"
    using pars conflict_mapD(3)[OF ok m(2)] by (fastforce simp: parents_def)
  show "\<forall>b. (spends_from mp)\<^sup>+\<^sup>+ tx b \<longrightarrow> b \<notin> evicted ?L mp tx"
  proof (intro allI impI notI)
    fix b assume b: "(spends_from mp)\<^sup>+\<^sup>+ tx b" and ev: "b \<in> evicted ?L mp tx"
    have "(TxHash ?L b, b) \<in> set m" using ev m(2) by (auto simp: conflict_map_def)
    moreover obtain t where t: "spends_from mp tx t" "(spends_from mp)\<^sup>*\<^sup>* t b" using tranclpD[OF b] by blast
    have "up.edge mp = spends_from mp" by (simp add: fun_eq_iff up.edge_def spends_from_def)
    then have "(TxHash ?L b, b) \<in> set a" using a(2) t unfolding up.exact_def up.below_def spends_from_def[of mp tx] by auto
    ultimately show False using anc by (force simp: map_of_eq_None_iff)
  qed
qed

section \<open>Eviction\<close>

lemma replace_conflicts_evicts:
  assumes "txpool_ok rank (mp_wire env) mp" "distinct (map fst m)" "\<forall>(h, c) \<in> set m. h = TxHash (mp_wire env) c \<and> in_pool mp c"
  shows "\<exists>mp'. replace_conflicts env m mp = Some (Inr (), mp') \<and> without (mp_wire env) (fst ` set m) mp mp'"
  using assms
proof (induction m arbitrary: mp)
  case (Cons x m)
  let ?L = "mp_wire env"
  obtain h c where x: "x = (h, c)" by (cases x)
  have hc: "h = TxHash ?L c" "in_pool mp c" using Cons.prems(3) x by auto
  have look: "map_of (pool mp) (TxHash ?L c) \<noteq> None" using hc(2) in_pool_lookup[OF Cons.prems(1)] by auto
  obtain mp1 where mp1: "removeTransaction env c False mp = Some mp1" "without ?L {h} mp mp1"
    using removeTransaction_single[OF Cons.prems(1), of c] hc(1) by auto
  have "h' = TxHash ?L c' \<and> in_pool mp1 c'" if "(h', c') \<in> set m" for h' c'
  proof -
    have c': "h' = TxHash ?L c'" "in_pool mp c'" using Cons.prems(3) that by auto
    have "h' \<noteq> h" using Cons.prems(2) that x by force
    then show ?thesis using c' without_in_pool[OF mp1(2) Cons.prems(1)] by simp
  qed
  then have "\<forall>(h', c') \<in> set m. h' = TxHash ?L c' \<and> in_pool mp1 c'" by blast
  from Cons.IH[OF without_ok[OF mp1(2) Cons.prems(1)] _ this] obtain mp2 where mp2:
    "replace_conflicts env m mp1 = Some (Inr (), mp2)" "without ?L (fst ` set m) mp1 mp2" using Cons.prems(2) by auto
  have "without ?L (fst ` set (x # m)) mp mp2" using without_trans[OF mp1(2) mp2(2)] x by simp
  then show ?case using look mp1(1) mp2(1) x by simp
qed (simp add: without_refl)

lemma replace_conflicts_frees:
  assumes ok: "txpool_ok rank (mp_wire env) mp" and m: "conflict_map (mp_wire env) mp tx m"
  shows "\<exists>mp'. replace_conflicts env m mp = Some (Inr (), mp') \<and> without (mp_wire env) (TxHash (mp_wire env) ` evicted (mp_wire env) mp tx) mp mp'
    \<and> (\<forall>p \<in> set (prevs tx). outpoints mp' p = None)"
proof -
  have "fst ` set m = TxHash (mp_wire env) ` evicted (mp_wire env) mp tx" using m by (auto simp: conflict_map_def image_image)
  moreover have "\<forall>(h, c) \<in> set m. h = TxHash (mp_wire env) c \<and> in_pool mp c" using conflict_mapD[OF ok m] by blast
  then obtain mp' where mp': "replace_conflicts env m mp = Some (Inr (), mp')" "without (mp_wire env) (fst ` set m) mp mp'"
    using replace_conflicts_evicts[OF ok] conjunct1[OF m[unfolded conflict_map_def]] by blast
  ultimately have w: "without (mp_wire env) (TxHash (mp_wire env) ` evicted (mp_wire env) mp tx) mp mp'" by simp
  have "outpoints mp' p = None" if "p \<in> set (prevs tx)" for p
    using without_outpoints[OF w, of p] evicted_spenders[OF that, of mp] by (cases "outpoints mp' p") auto
  then show ?thesis using mp'(1) w by blast
qed

end
