(* ===== verification/Mempool_Steps.thy ===== *)
theory Mempool_Steps
  imports Mempool_Replace
begin

text \<open>
  Every operation of the memory pool returns and keeps the pool consistent: transactions are accepted in place of
  the ones they replace, and the orphans they release are processed until none is left.
\<close>

section \<open>The invariant\<close>

definition pool_inv :: "(hash \<Rightarrow> nat) \<Rightarrow> pool_env \<Rightarrow> TxPool \<Rightarrow> bool" where
  "pool_inv rank env mp \<longleftrightarrow> txpool_ok rank (mp_wire env) mp \<and> fees_ok (mp_wire env) mp \<and> orphans_inv env mp
    \<and> (\<forall>(h, otx) \<in> set (mp_orphans mp). ranked rank (mp_wire env) (ot_tx otx))
    \<and> (AcceptNonStd (mpPolicy env) \<or> pool mp = [])"

text \<open>\<open>mp'\<close> has the transactions and the orphans of \<open>mp\<close>; counters may differ.\<close>

definition same_txs :: "TxPool \<Rightarrow> TxPool \<Rightarrow> bool" where
  "same_txs mp mp' \<longleftrightarrow> pool mp' = pool mp \<and> outpoints mp' = outpoints mp \<and> mp_orphans mp' = mp_orphans mp \<and> orphansByPrev mp' = orphansByPrev mp"

lemma same_txs_refl [simp]: "same_txs mp mp" by (simp add: same_txs_def)

definition same_orphans :: "TxPool \<Rightarrow> TxPool \<Rightarrow> bool" where
  "same_orphans mp mp' \<longleftrightarrow> mp_orphans mp' = mp_orphans mp \<and> orphansByPrev mp' = orphansByPrev mp"

lemma orphans_inv_cong: "same_orphans mp mp' \<Longrightarrow> orphans_inv env mp' = orphans_inv env mp"
  by (simp add: same_orphans_def orphans_inv_def orphans_ok_def refs_def)

lemma pool_inv_cong: "same_txs mp mp' \<Longrightarrow> pool_inv rank env mp' = pool_inv rank env mp"
  using orphans_inv_cong[of mp mp' env] txpool_ok_cong[of mp' mp] by (simp add: same_txs_def same_orphans_def pool_inv_def fees_ok_def)

lemma fees_ok_without: "without L H mp mp' \<Longrightarrow> fees_ok L mp \<Longrightarrow> fees_ok L mp'"
  by (auto simp: fees_ok_def without_pool)

lemma pool_inv_without: "without (mp_wire env) H mp mp' \<Longrightarrow> pool_inv rank env mp \<Longrightarrow> pool_inv rank env mp'"
  using without_ok without_orphans[of "mp_wire env" H mp mp'] orphans_inv_cong[of mp mp' env] fees_ok_without
  by (auto simp: pool_inv_def same_orphans_def without_pool)

lemma pool_inv_removed: "removed (mp_wire env) mp mp' \<Longrightarrow> pool_inv rank env mp \<Longrightarrow> pool_inv rank env mp'"
  using removed_inv[of env mp mp'] txpool_ok_cong[of mp' mp]
  by (auto simp: pool_inv_def same_pool_def fees_ok_def removed_def fewer_def)

section \<open>The checks return\<close>

lemma check_conflicts_returns:
  assumes ok: "txpool_ok rank L mp"
  shows "\<exists>r. check_conflicts env mp ps b = Some r
    \<and> (\<forall>b'. r = Inr b' \<longrightarrow> b' = (b \<or> (\<exists>p \<in> set ps. outpoints mp p \<noteq> None))
       \<and> (\<forall>p \<in> set ps. \<forall>c. outpoints mp p = Some c \<longrightarrow> signals mp c \<and> \<not> RejectReplacement (mpPolicy env)))"
proof (induction ps arbitrary: b)
  case (Cons p ps)
  show ?case
  proof (cases "outpoints mp p")
    case None
    then show ?thesis using Cons.IH[of b] by auto
  next
    case (Some c)
    then have "in_pool mp c" using txpool_okD(4)[OF ok] by simp
    from signalsReplacement_exact[OF ok txpool_okD(3)[OF ok this]] show ?thesis using Some Cons.IH[of True] by auto
  qed
qed simp

lemma validateReplacement_returns:
  assumes ok: "txpool_ok rank (mp_wire env) mp" and tx: "ranked rank (mp_wire env) tx"
  shows "\<exists>r. validateReplacement env mp tx txFee = Some r \<and> (\<forall>cs. r = Inr cs \<longrightarrow> conflict_map (mp_wire env) mp tx cs)"
proof -
  obtain m where m: "txConflicts (mp_wire env) mp tx = Some m" "conflict_map (mp_wire env) mp tx m" using txConflicts_map[OF ok] by blast
  obtain a where a: "txAncestors (mp_wire env) mp tx = Some a" using txAncestors_exact[OF ok tx] by blast
  show ?thesis unfolding validateReplacement_def Let_def m(1) a
    using m(2) by (auto split: sum.split prod.split)
qed

lemma validateRelayFeeMet_same: "same_txs mp (snd (validateRelayFeeMet env tx txFee vsize utxoView h isNew rateLimit mp))"
  by (simp add: validateRelayFeeMet_def Let_def same_txs_def)

text \<open>No signature script is recognised as one that only pushes data.\<close>

lemma validateStandardness_refuses:
  assumes "\<not> AcceptNonStd (mpPolicy env)" "tx_TxIn tx \<noteq> []"
  shows "\<exists>e. validateStandardness env tx h t view = Inl e"
proof -
  obtain txIn rest where "tx_TxIn tx = txIn # rest" using assms(2) by (cases "tx_TxIn tx") auto
  then have "\<exists>e. each check_input_script (tx_TxIn tx) = Inl e" by (simp add: check_input_script_def IsPushOnlyScript_def)
  then show ?thesis using assms(1) by (auto simp: validateStandardness_def CheckTransactionStandard_def)
qed

lemma check_inputs_fee:
  assumes "money_ok (mp_wire env)" "CheckTransactionSanity (mp_wire env) tx = Inr u" "\<not> IsCoinBase tx" "check_inputs env tx view = Inr fee"
  shows "0 \<le> fee \<and> fee \<le> MaxSatoshi (mp_wire env) \<and> AcceptNonStd (mpPolicy env)"
proof -
  have sane: "sane_tx (mp_wire env) tx" using assms(1,2) CheckTransactionSanity_iff by auto
  obtain h where "CheckTransactionInputs (mp_wire env) (mpParams env) tx h view = Inr fee"
    using assms(4) by (auto simp: check_inputs_def Let_def split: sum.splits if_splits)
  moreover have "AcceptNonStd (mpPolicy env)"
    using assms(4) validateStandardness_refuses[of env tx "i32 (BestHeight env + 1)" "MedianTimePast env" view] conjunct1[OF sane[unfolded sane_tx_def]]
    by (auto simp: check_inputs_def Let_def split: sum.splits if_splits)
  ultimately show ?thesis using CheckTransactionInputs_iff[OF assms(1) sane assms(3)] output_total_sane(2)[OF assms(1) sane] by auto
qed

text \<open>What the early checks and the whole check promise.\<close>

lemma check_early_returns:
  assumes "txpool_ok rank L mp"
  shows "\<exists>r. check_early env mp tx rejectDupOrphans = Some r \<and> (\<forall>b. r = Inr b \<longrightarrow>
      TxHash (mp_wire env) tx \<notin> fst ` set (pool mp) \<and> (rejectDupOrphans \<longrightarrow> TxHash (mp_wire env) tx \<notin> fst ` set (mp_orphans mp))
      \<and> CheckTransactionSanity (mp_wire env) tx = Inr () \<and> \<not> IsCoinBase tx
      \<and> b = (\<exists>p \<in> set (prevs tx). outpoints mp p \<noteq> None)
      \<and> (\<forall>p \<in> set (prevs tx). \<forall>c. outpoints mp p = Some c \<longrightarrow> signals mp c \<and> \<not> RejectReplacement (mpPolicy env)))"
proof -
  obtain r where "checkPoolDoubleSpend env mp tx = Some r"
    "\<forall>b. r = Inr b \<longrightarrow> b = (\<exists>p \<in> set (prevs tx). outpoints mp p \<noteq> None) \<and> (\<forall>p \<in> set (prevs tx). \<forall>c. outpoints mp p = Some c \<longrightarrow> signals mp c \<and> \<not> RejectReplacement (mpPolicy env))"
    using check_conflicts_returns[OF assms, of env "prevs tx" False] by (auto simp: checkPoolDoubleSpend_def)
  then show ?thesis
    unfolding check_early_def Let_def isTransactionInPool_def isOrphanInPool_def by (auto simp: map_of_eq_None_iff split: sum.split)
qed

definition accepted :: "pool_env \<Rightarrow> MsgTx \<Rightarrow> TxPool \<Rightarrow> MempoolAcceptResult \<Rightarrow> bool" where
  "accepted env tx mp r \<longleftrightarrow> AcceptNonStd (mpPolicy env) \<and> 0 \<le> r_TxFee r \<and> r_TxFee r \<le> MaxSatoshi (mp_wire env) \<and> conflict_map (mp_wire env) mp tx (Conflicts r)
    \<and> (\<forall>p \<in> set (prevs tx). \<forall>c. outpoints mp p = Some c \<longrightarrow> signals mp c \<and> \<not> RejectReplacement (mpPolicy env))
    \<and> (evicted (mp_wire env) mp tx \<noteq> {} \<longrightarrow> (\<exists>mp1. same_txs mp mp1 \<and> validateReplacement env mp1 tx (r_TxFee r) = Some (Inr (Conflicts r))))"

lemma evicted_cong: "same_txs mp mp' \<Longrightarrow> evicted L mp' tx = evicted L mp tx"
  by (simp add: same_txs_def evicted_def gone_def spent_by_def[abs_def])

lemma conflict_map_cong: "same_txs mp mp' \<Longrightarrow> conflict_map L mp' tx m = conflict_map L mp tx m"
  by (simp add: conflict_map_def evicted_cong)

lemma checkMempoolAcceptance_returns:
  assumes ok: "txpool_ok rank (mp_wire env) mp" and tx: "ranked rank (mp_wire env) tx" and money: "money_ok (mp_wire env)"
  shows "\<exists>r mp'. checkMempoolAcceptance env tx isNew rateLimit rejectDupOrphans mp = Some (r, mp') \<and> same_txs mp mp'
    \<and> (\<forall>res. r = Inr res \<longrightarrow> TxHash (mp_wire env) tx \<notin> fst ` set (pool mp) \<and> (rejectDupOrphans \<longrightarrow> TxHash (mp_wire env) tx \<notin> fst ` set (mp_orphans mp))
        \<and> (MissingParents res = [] \<longrightarrow> accepted env tx mp res))"
proof -
  let ?L = "mp_wire env"
  obtain e where e: "check_early env mp tx rejectDupOrphans = Some e" and early: "\<And>b. e = Inr b \<Longrightarrow>
      TxHash ?L tx \<notin> fst ` set (pool mp) \<and> (rejectDupOrphans \<longrightarrow> TxHash ?L tx \<notin> fst ` set (mp_orphans mp))
      \<and> CheckTransactionSanity ?L tx = Inr () \<and> \<not> IsCoinBase tx \<and> b = (\<exists>p \<in> set (prevs tx). outpoints mp p \<noteq> None)
      \<and> (\<forall>p \<in> set (prevs tx). \<forall>c. outpoints mp p = Some c \<longrightarrow> signals mp c \<and> \<not> RejectReplacement (mpPolicy env))"
    using check_early_returns[OF ok] by blast
  show ?thesis
  proof (cases e)
    case (Inl err)
    then show ?thesis using e by (simp add: checkMempoolAcceptance_def)
  next
    case (Inr b)
    note early = early[OF Inr] and e = e[unfolded Inr]
    show ?thesis
    proof (cases "check_view env mp tx")
      case (Inl err)
      then show ?thesis using e by (simp add: checkMempoolAcceptance_def)
    next
      case (Inr view)
      note view = Inr
      show ?thesis
      proof (cases "missing_parents view \<noteq> [] \<or> (\<exists>err. check_inputs env tx view = Inl err)")
        case True
        then show ?thesis using e view early by (auto simp: checkMempoolAcceptance_def)
      next
        case False
        then obtain fee where fee: "missing_parents view = []" "check_inputs env tx view = Inr fee" by (cases "check_inputs env tx view") auto
        have bounds: "0 \<le> fee \<and> fee \<le> MaxSatoshi ?L \<and> AcceptNonStd (mpPolicy env)" using check_inputs_fee[OF money _ _ fee(2)] early by blast
        obtain rf mp1 where rf: "validateRelayFeeMet env tx fee (GetTxVirtualSize ?L tx) view (i32 (BestHeight env + 1)) isNew rateLimit mp = (rf, mp1)"
          by (rule prod.exhaust)
        have same: "same_txs mp mp1" using validateRelayFeeMet_same[of mp env tx fee "GetTxVirtualSize ?L tx" view "i32 (BestHeight env + 1)" isNew rateLimit] rf by simp
        have ok1: "txpool_ok rank ?L mp1" using ok same txpool_ok_cong[of mp1 mp rank ?L] by (simp add: same_txs_def)
        obtain rr where rr: "(if b then validateReplacement env mp1 tx fee else Some (Inr [])) = Some rr"
          "\<And>cs. rr = Inr cs \<Longrightarrow> conflict_map ?L mp tx cs \<and> (evicted ?L mp tx \<noteq> {} \<longrightarrow> validateReplacement env mp1 tx fee = Some (Inr cs))"
        proof (cases b)
          case True
          then show ?thesis using validateReplacement_returns[OF ok1 tx, of fee] that conflict_map_cong[OF same] by auto
        next
          case False
          then have "evicted ?L mp tx = {}" using early by (intro evicted_empty) auto
          then show ?thesis using False that by (auto simp: conflict_map_def)
        qed
        show ?thesis
        proof (cases rf)
          case (Inl err)
          then show ?thesis using e view fee rf same by (simp add: checkMempoolAcceptance_def Let_def)
        next
          case (Inr u)
          note run = e view fee rf[unfolded Inr] rr(1)
          show ?thesis
          proof (cases rr)
            case (Inl err)
            then show ?thesis using run same by (simp add: checkMempoolAcceptance_def Let_def)
          next
            case (Inr cs)
            let ?res = "\<lparr>r_TxFee = fee, r_TxSize = GetTxVirtualSize ?L tx, Conflicts = cs, MissingParents = [], r_utxoView = view, r_bestHeight = BestHeight env\<rparr>"
            have "checkMempoolAcceptance env tx isNew rateLimit rejectDupOrphans mp = Some (Inr ?res, mp1)"
              using run Inr by (simp add: checkMempoolAcceptance_def Let_def validateTxScriptsMempool_def)
            moreover have "accepted env tx mp ?res" unfolding accepted_def using bounds rr(2)[OF Inr] early same by auto
            ultimately show ?thesis using same early by simp
          qed
        qed
      qed
    qed
  qed
qed

section \<open>Acceptance\<close>

text \<open>The pool after \<open>tx\<close> has been accepted with descriptor \<open>d\<close>.\<close>

definition accepted_as :: "pool_env \<Rightarrow> MsgTx \<Rightarrow> TxDesc \<Rightarrow> TxPool \<Rightarrow> TxPool \<Rightarrow> bool" where
  "accepted_as env tx d mp mp' \<longleftrightarrow> td_Tx d = tx \<and> (\<exists>res. accepted env tx mp res \<and> td_Fee d = r_TxFee res)
    \<and> FeePerKB d = go_div (i64 (td_Fee d * 1000)) (GetTxVirtualSize (mp_wire env) tx)
    \<and> pool mp' = filter (\<lambda>(h, d). h \<notin> TxHash (mp_wire env) ` evicted (mp_wire env) mp tx) (pool mp) @ [(TxHash (mp_wire env) tx, d)]"

lemma accept_tx:
  assumes inv: "pool_inv rank env mp" and tx: "ranked rank (mp_wire env) tx" "TxHash (mp_wire env) tx \<notin> fst ` set (pool mp)"
    and same: "same_txs mp mp1" and acc: "accepted env tx mp res"
  shows "\<exists>mp2 mp' d. replace_conflicts env (Conflicts res) mp1 = Some (Inr (), mp2)
    \<and> addTransaction env view tx h (r_TxFee res) mp2 = (mp', d) \<and> pool_inv rank env mp' \<and> same_orphans mp mp' \<and> accepted_as env tx d mp mp'"
proof -
  let ?L = "mp_wire env"
  have inv1: "pool_inv rank env mp1" using inv pool_inv_cong[OF same] by simp
  then have ok1: "txpool_ok rank ?L mp1" by (simp add: pool_inv_def)
  have "conflict_map ?L mp1 tx (Conflicts res)" using acc conflict_map_cong[OF same] by (simp add: accepted_def)
  from replace_conflicts_frees[OF ok1 this] obtain mp2 where mp2: "replace_conflicts env (Conflicts res) mp1 = Some (Inr (), mp2)"
    "without ?L (TxHash ?L ` evicted ?L mp tx) mp1 mp2" "\<forall>p \<in> set (prevs tx). outpoints mp2 p = None"
    using evicted_cong[OF same] by auto
  note inv2 = pool_inv_without[OF mp2(2) inv1]
  have pool2: "pool mp2 = filter (\<lambda>(h, d). h \<notin> TxHash ?L ` evicted ?L mp tx) (pool mp)" using without_pool[OF mp2(2)] same by (simp add: same_txs_def)
  then have fresh: "TxHash ?L tx \<notin> fst ` set (pool mp2)" using tx(2) by auto
  obtain mp' d where add: "addTransaction env view tx h (r_TxFee res) mp2 = (mp', d)" by (rule prod.exhaust)
  have pool': "pool mp' = pool mp2 @ [(TxHash ?L tx, d)]" and d: "td_Tx d = tx" "td_Fee d = r_TxFee res"
      "FeePerKB d = go_div (i64 (td_Fee d * 1000)) (GetTxVirtualSize ?L tx)" and orph: "same_orphans mp2 mp'"
    using add update_fresh[OF fresh] by (auto simp: addTransaction_def Let_def same_orphans_def)
  have "txpool_ok rank ?L mp'" using addTransaction_ok[OF _ tx(1) fresh mp2(3), of view h "r_TxFee res"] inv2 add by (simp add: pool_inv_def)
  moreover have "fees_ok ?L mp'" using inv2 acc d(2) by (auto simp: pool_inv_def fees_ok_def pool' accepted_def)
  moreover have "same_orphans mp mp'" using orph without_orphans[OF mp2(2)] same by (simp add: same_orphans_def same_txs_def)
  moreover have "pool_inv rank env mp'" using calculation inv acc orphans_inv_cong[OF \<open>same_orphans mp mp'\<close>] by (simp add: pool_inv_def same_orphans_def accepted_def)
  moreover have "accepted_as env tx d mp mp'" unfolding accepted_as_def using d acc pool' pool2 by auto
  ultimately show ?thesis using mp2(1) add by blast
qed

lemma maybeAcceptTransaction_returns:
  assumes inv: "pool_inv rank env mp" and tx: "ranked rank (mp_wire env) tx" and money: "money_ok (mp_wire env)"
  shows "\<exists>r mp'. maybeAcceptTransaction env tx isNew rateLimit rejectDupOrphans mp = Some (r, mp') \<and> pool_inv rank env mp' \<and> same_orphans mp mp'
    \<and> (\<forall>missing txD. r = Inr (missing, txD) \<longrightarrow> (rejectDupOrphans \<longrightarrow> TxHash (mp_wire env) tx \<notin> fst ` set (mp_orphans mp))
        \<and> (missing = [] \<longrightarrow> (\<exists>d. txD = Some d \<and> accepted_as env tx d mp mp')))"
proof -
  have ok: "txpool_ok rank (mp_wire env) mp" using inv by (simp add: pool_inv_def)
  obtain r mp1 where r: "checkMempoolAcceptance env tx isNew rateLimit rejectDupOrphans mp = Some (r, mp1)" "same_txs mp mp1"
    and good: "\<And>res. r = Inr res \<Longrightarrow> TxHash (mp_wire env) tx \<notin> fst ` set (pool mp) \<and> (rejectDupOrphans \<longrightarrow> TxHash (mp_wire env) tx \<notin> fst ` set (mp_orphans mp))
        \<and> (MissingParents res = [] \<longrightarrow> accepted env tx mp res)"
    using checkMempoolAcceptance_returns[OF ok tx money] by blast
  have same: "pool_inv rank env mp1" "same_orphans mp mp1" using inv pool_inv_cong[OF r(2)] r(2) by (simp_all add: same_txs_def same_orphans_def)
  show ?thesis
  proof (cases r)
    case (Inl e)
    then show ?thesis using r(1) same by (simp add: maybeAcceptTransaction_def)
  next
    case (Inr res)
    show ?thesis
    proof (cases "MissingParents res = []")
      case True
      then obtain mp2 mp' d where acc: "replace_conflicts env (Conflicts res) mp1 = Some (Inr (), mp2)"
        "addTransaction env (r_utxoView res) tx (r_bestHeight res) (r_TxFee res) mp2 = (mp', d)"
        "pool_inv rank env mp'" "same_orphans mp mp'" "accepted_as env tx d mp mp'"
        using accept_tx[OF inv tx _ r(2)] good[OF Inr] by blast
      have "maybeAcceptTransaction env tx isNew rateLimit rejectDupOrphans mp = Some (Inr ([], Some d), mp')"
        using r(1) Inr True acc(1,2) by (simp add: maybeAcceptTransaction_def)
      then show ?thesis using acc(3-5) good[OF Inr] by simp
    next
      case False
      then show ?thesis using r(1) same Inr good[OF Inr] by (simp add: maybeAcceptTransaction_def)
    qed
  qed
qed

section \<open>Orphans that are released\<close>

definition is_orphan :: "wire_lib \<Rightarrow> TxPool \<Rightarrow> MsgTx \<Rightarrow> bool" where
  "is_orphan L mp tx \<longleftrightarrow> (\<exists>otx. (TxHash L tx, otx) \<in> set (mp_orphans mp) \<and> ot_tx otx = tx)"

lemma by_prev_orphans:
  assumes "pool_inv rank env mp" "tx \<in> set (by_prev mp p)"
  shows "is_orphan (mp_wire env) mp tx" "ranked rank (mp_wire env) tx"
proof -
  have ok: "orphans_ok (mp_wire env) {} mp" using assms(1) by (simp add: pool_inv_def orphans_inv_def)
  obtain h where "(h, tx) \<in> set (refs mp p)" using assms(2) by (auto simp: by_prev_refs)
  then obtain otx where otx: "(h, otx) \<in> set (mp_orphans mp)" "ot_tx otx = tx" using orphans_okD(5)[OF ok] by blast
  then have "h = TxHash (mp_wire env) tx" using orphans_okD(2)[OF ok] by auto
  then show "is_orphan (mp_wire env) mp tx" using otx by (auto simp: is_orphan_def)
  show "ranked rank (mp_wire env) tx" using assms(1) otx by (auto simp: pool_inv_def)
qed

text \<open>What is left to do: transactions to process, and orphans.\<close>

fun todo :: "progress \<Rightarrow> nat" where
  "todo (processList, acceptedTxns, mp) = length processList + length (mp_orphans mp)"

fun progress_inv :: "(hash \<Rightarrow> nat) \<Rightarrow> pool_env \<Rightarrow> progress \<Rightarrow> bool" where
  "progress_inv rank env (processList, acceptedTxns, mp) \<longleftrightarrow> pool_inv rank env mp"

lemma removed_shorter:
  assumes "orphans_ok L {} mp" "orphans_ok L {} mp'" "fewer mp mp'" "h \<in> fst ` set (mp_orphans mp)" "h \<notin> fst ` set (mp_orphans mp')"
  shows "length (mp_orphans mp') < length (mp_orphans mp)"
proof -
  have "set (map fst (mp_orphans mp')) \<subset> set (map fst (mp_orphans mp))" using assms(3-5) unfolding fewer_def by auto
  then have "card (set (map fst (mp_orphans mp'))) < card (set (map fst (mp_orphans mp)))" by (intro psubset_card_mono) auto
  then show ?thesis using orphans_okD(1)[OF assms(1)] orphans_okD(1)[OF assms(2)] by (simp only: distinct_card length_map)
qed

lemma try_orphans_returns:
  assumes "progress_inv rank env st" "\<forall>tx \<in> set txs. ranked rank (mp_wire env) tx \<and> is_orphan (mp_wire env) (snd (snd st)) tx" "money_ok (mp_wire env)"
  shows "\<exists>r. try_orphans env txs st = Some r \<and> (\<forall>st'. r = Inr st' \<longrightarrow> progress_inv rank env st' \<and> todo st' \<le> todo st)"
  using assms(1,2)
proof (induction txs arbitrary: st)
  case (Cons tx txs)
  obtain pl acc mp where st: "st = (pl, acc, mp)" by (cases st)
  have inv: "pool_inv rank env mp" and tx: "ranked rank (mp_wire env) tx" and orph: "is_orphan (mp_wire env) mp tx" using Cons.prems st by auto
  obtain r mp1 where r: "maybeAcceptTransaction env tx True True False mp = Some (r, mp1)" "pool_inv rank env mp1" "same_orphans mp mp1"
    using maybeAcceptTransaction_returns[OF inv tx assms(3)] by blast
  have ok1: "orphans_ok (mp_wire env) {} mp1" using r(2) by (simp add: pool_inv_def orphans_inv_def)
  have gone: "\<exists>mp2. removeOrphan (mp_wire env) tx b mp1 = Some mp2 \<and> pool_inv rank env mp2 \<and> length (mp_orphans mp2) < length (mp_orphans mp)" for b
  proof -
    obtain mp2 where mp2: "removeOrphan (mp_wire env) tx b mp1 = Some mp2" "orphans_ok (mp_wire env) {} mp2" "fewer mp1 mp2"
      "TxHash (mp_wire env) tx \<notin> fst ` set (mp_orphans mp2)" using removeOrphan_returns[OF ok1] by blast
    have "TxHash (mp_wire env) tx \<in> fst ` set (mp_orphans mp1)" using orph r(3) by (force simp: is_orphan_def same_orphans_def)
    from removed_shorter[OF ok1 mp2(2,3) this mp2(4)] show ?thesis
      using mp2 r(3) pool_inv_removed[OF _ r(2), of mp2] by (auto simp: removed_def same_orphans_def)
  qed
  show ?case
  proof (cases r)
    case (Inl e)
    then show ?thesis using gone[of True] r(1) st by auto
  next
    case (Inr md)
    obtain missing txD where md: "md = (missing, txD)" by (cases md)
    show ?thesis
    proof (cases "missing = []")
      case True
      then show ?thesis using gone[of False] r(1) st Inr md by auto
    next
      case False
      have "\<forall>t \<in> set txs. ranked rank (mp_wire env) t \<and> is_orphan (mp_wire env) mp1 t"
        using Cons.prems(2) st r(3) by (simp add: is_orphan_def same_orphans_def)
      from Cons.IH[of "(pl, acc, mp1)"] this show ?thesis using False r st Inr md by (auto simp: same_orphans_def)
    qed
  qed
qed auto

lemma visit_outputs_returns:
  assumes "progress_inv rank env st" "money_ok (mp_wire env)"
  shows "\<exists>r. visit_outputs env ps st = Some r \<and> (\<forall>st'. r = Inr st' \<longrightarrow> progress_inv rank env st' \<and> todo st' \<le> todo st)"
  using assms(1)
proof (induction ps arbitrary: st)
  case (Cons p ps)
  obtain pl acc mp where st: "st = (pl, acc, mp)" by (cases st)
  have "\<forall>tx \<in> set (by_prev mp p). ranked rank (mp_wire env) tx \<and> is_orphan (mp_wire env) (snd (snd st)) tx"
    using by_prev_orphans[of rank env mp _ p] Cons.prems st by auto
  from try_orphans_returns[OF Cons.prems this assms(2)] obtain r where r: "try_orphans env (by_prev mp p) st = Some r"
    "\<forall>st'. r = Inr st' \<longrightarrow> progress_inv rank env st' \<and> todo st' \<le> todo st" by blast
  show ?case
  proof (cases r)
    case (Inr st1)
    then have "progress_inv rank env st1" "todo st1 \<le> todo st" using r(2) by auto
    from Cons.IH[OF this(1)] this(2) show ?thesis using r(1) Inr st by fastforce
  qed (use r(1) st in simp)
qed auto

lemma process_list_returns:
  assumes "progress_inv rank env st" "money_ok (mp_wire env)"
  shows "\<exists>r. process_list env st = Some r \<and> (\<forall>acc mp. r = Inr (acc, mp) \<longrightarrow> pool_inv rank env mp)"
  using assms(1)
proof (induction "todo st" arbitrary: st rule: less_induct)
  case less
  obtain pl acc mp where st: "st = (pl, acc, mp)" by (cases st)
  show ?case
  proof (cases pl)
    case Nil
    then show ?thesis using less.prems st by (subst process_list.simps) simp
  next
    case (Cons t rest)
    have inv1: "progress_inv rank env (rest, acc, mp)" using less.prems st by simp
    obtain r where r: "visit_outputs env (outs (mp_wire env) t) (rest, acc, mp) = Some r"
      "\<forall>st'. r = Inr st' \<longrightarrow> progress_inv rank env st' \<and> todo st' \<le> todo (rest, acc, mp)"
      using visit_outputs_returns[OF inv1 assms(2)] by blast
    show ?thesis
    proof (cases r)
      case (Inl e)
      then show ?thesis using r(1) st Cons by (subst process_list.simps) simp
    next
      case (Inr st1)
      then have "progress_inv rank env st1" "todo st1 < todo st" using r(2) st Cons by auto
      from less.hyps[OF this(2,1)] show ?thesis using r(1) st Cons Inr by (subst process_list.simps) simp
    qed
  qed
qed

lemma mp_processOrphans_returns:
  assumes "pool_inv rank env mp" "money_ok (mp_wire env)"
  shows "\<exists>r. mp_processOrphans env tx mp = Some r \<and> (\<forall>acc mp'. r = Inr (acc, mp') \<longrightarrow> pool_inv rank env mp')"
proof -
  obtain r where r: "process_list env ([tx], [], mp) = Some r" "\<forall>acc mp'. r = Inr (acc, mp') \<longrightarrow> pool_inv rank env mp'"
    using process_list_returns[of rank env "([tx], [], mp)"] assms by auto
  show ?thesis
  proof (cases r)
    case (Inr am)
    obtain acc mp1 where am: "am = (acc, mp1)" by (cases am)
    have inv1: "pool_inv rank env mp1" using r(2) Inr am by simp
    then have "removed (mp_wire env) mp1 mp1" by (simp add: removed_def pool_inv_def orphans_inv_def)
    then have "\<exists>mp2. foldO (removeOrphanDoubleSpends (mp_wire env)) (tx # map td_Tx acc) mp1 = Some mp2 \<and> removed (mp_wire env) mp1 mp2"
      by (intro foldO_inv removeOrphanDoubleSpends_returns)
    then show ?thesis using r(1) Inr am pool_inv_removed[OF _ inv1] by (auto simp: mp_processOrphans_def)
  qed (use r(1) in \<open>simp add: mp_processOrphans_def\<close>)
qed

lemma pool_inv_orphan:
  assumes inv: "pool_inv rank env mp" and tx: "ranked rank (mp_wire env) tx" and fresh: "TxHash (mp_wire env) tx \<notin> fst ` set (mp_orphans mp)"
  shows "\<exists>r mp'. maybeAddOrphan env tx tag mp = Some (r, mp') \<and> pool_inv rank env mp'"
proof -
  have "orphans_inv env mp" using inv by (simp add: pool_inv_def)
  from maybeAddOrphan_returns[OF this fresh, of tag] obtain r mp' where r: "maybeAddOrphan env tx tag mp = Some (r, mp')" "orphans_inv env mp'" "same_pool mp mp'"
    "\<forall>(h, otx) \<in> set (mp_orphans mp'). (h, otx) \<in> set (mp_orphans mp) \<or> ot_tx otx = tx" by blast
  have "ranked rank (mp_wire env) (ot_tx otx)" if "(h, otx) \<in> set (mp_orphans mp')" for h otx
    using that inv tx r(4) by (auto simp: pool_inv_def)
  then show ?thesis using r inv txpool_ok_cong[of mp' mp rank "mp_wire env"] by (auto simp: pool_inv_def same_pool_def fees_ok_def)
qed

end
