(* ===== verification/Mempool_Reachable.thy ===== *)
theory Mempool_Reachable
  imports Mempool_Steps "HOL-Library.Multiset"
begin

text \<open>
  The memory pool under any sequence of calls: every call returns, the states that are reached are consistent, and
  what the removal of transactions, the replacement of transactions and the relay policy do.
\<close>

section \<open>All calls\<close>

lemma ProcessTransaction_returns:
  assumes inv: "pool_inv rank env mp" and tx: "ranked rank (mp_wire env) tx" and money: "money_ok (mp_wire env)"
  shows "\<exists>r mp'. ProcessTransaction env tx allowOrphan rateLimit tag mp = Some (r, mp') \<and> pool_inv rank env mp'"
proof -
  obtain r mp1 where r: "maybeAcceptTransaction env tx True rateLimit True mp = Some (r, mp1)" "pool_inv rank env mp1" "same_orphans mp mp1"
    and fresh: "\<And>missing txD. r = Inr (missing, txD) \<Longrightarrow> TxHash (mp_wire env) tx \<notin> fst ` set (mp_orphans mp)"
    using maybeAcceptTransaction_returns[OF inv tx money, of True rateLimit True] by blast
  show ?thesis
  proof (cases r)
    case (Inl e)
    then show ?thesis using r by (simp add: ProcessTransaction_def)
  next
    case (Inr md)
    obtain missing txD where md: "md = (missing, txD)" by (cases md)
    show ?thesis
    proof (cases "missing = []")
      case True
      obtain r2 where r2: "mp_processOrphans env tx mp1 = Some r2" "\<forall>acc mp'. r2 = Inr (acc, mp') \<longrightarrow> pool_inv rank env mp'"
        using mp_processOrphans_returns[OF r(2) money] by blast
      show ?thesis
      proof (cases r2)
        case (Inl e)
        then show ?thesis using r r2(1) Inr md True by (simp add: ProcessTransaction_def)
      next
        case (Inr am)
        then show ?thesis using r r2 \<open>r = Inr md\<close> md True by (cases am) (simp add: ProcessTransaction_def)
      qed
    next
      case False
      have "TxHash (mp_wire env) tx \<notin> fst ` set (mp_orphans mp1)" using fresh Inr md r(3) by (simp add: same_orphans_def)
      from pool_inv_orphan[OF r(2) tx this, of tag] show ?thesis using r Inr md False by (auto simp: ProcessTransaction_def)
    qed
  qed
qed

definition config :: "wire_lib \<Rightarrow> Policy \<Rightarrow> pool_env \<Rightarrow> bool" where
  "config L policy env \<longleftrightarrow> mp_wire env = L \<and> mpPolicy env = policy"

text \<open>The same maps, listed in another order.\<close>

definition reordered :: "TxPool \<Rightarrow> TxPool \<Rightarrow> bool" where
  "reordered mp mp' \<longleftrightarrow> mset (pool mp') = mset (pool mp) \<and> mset (mp_orphans mp') = mset (mp_orphans mp) \<and> outpoints mp' = outpoints mp
    \<and> (\<forall>p. map_option mset (orphansByPrev mp' p) = map_option mset (orphansByPrev mp p))"

lemma mset_keys: "mset xs = mset ys \<Longrightarrow> set xs = set ys \<and> length xs = length ys \<and> distinct (map fst xs) = distinct (map fst ys)"
  by (metis mset_eq_imp_distinct_iff mset_eq_length mset_eq_setD mset_map)

lemma reordered_inv:
  assumes r: "reordered mp mp'" and inv: "pool_inv rank env mp"
  shows "pool_inv rank env mp'"
proof -
  have pool: "set (pool mp') = set (pool mp)" "distinct (map fst (pool mp')) = distinct (map fst (pool mp))"
    and orph: "set (mp_orphans mp') = set (mp_orphans mp)" "length (mp_orphans mp') = length (mp_orphans mp)"
      "distinct (map fst (mp_orphans mp')) = distinct (map fst (mp_orphans mp))" and out: "outpoints mp' = outpoints mp"
    using r mset_keys[of "pool mp'" "pool mp"] mset_keys[of "mp_orphans mp'" "mp_orphans mp"] by (auto simp: reordered_def)
  have eq: "map_option mset (orphansByPrev mp' p) = map_option mset (orphansByPrev mp p)" for p using r by (simp add: reordered_def)
  have "mset (refs mp' p) = mset (refs mp p)" and none: "orphansByPrev mp' p = Some [] \<longleftrightarrow> orphansByPrev mp p = Some []" for p
    using eq[of p] by (cases "orphansByPrev mp' p"; cases "orphansByPrev mp p"; force simp: refs_def)+
  then have refs: "set (refs mp' p) = set (refs mp p)" "distinct (map fst (refs mp' p)) = distinct (map fst (refs mp p))" for p
    using mset_keys by blast+
  have "pool mp' = [] \<longleftrightarrow> pool mp = []" using r by (auto simp: reordered_def)
  then have "pool_inv rank env mp' = pool_inv rank env mp" unfolding pool_inv_def txpool_ok_def fees_ok_def orphans_inv_def orphans_ok_def in_pool_def
    by (simp only: pool orph out refs none)
  then show ?thesis using inv by simp
qed

text \<open>
  The states of the pool that calls lead to.  Between calls, the chain and the clock may change in any way, and so
  may the order in which the loops of the next call visit the maps.  A panic ends the program.
\<close>

inductive pool_reachable :: "(hash \<Rightarrow> nat) \<Rightarrow> wire_lib \<Rightarrow> Policy \<Rightarrow> TxPool \<Rightarrow> bool" for rank L policy where
  new: "config L policy env \<Longrightarrow> pool_reachable rank L policy (mempool_New env)"
| reorder: "pool_reachable rank L policy mp \<Longrightarrow> reordered mp mp' \<Longrightarrow> pool_reachable rank L policy mp'"
| process: "pool_reachable rank L policy mp \<Longrightarrow> config L policy env \<Longrightarrow> ranked rank L tx
    \<Longrightarrow> ProcessTransaction env tx allowOrphan rateLimit tag mp = Some (r, mp') \<Longrightarrow> r \<noteq> Inl (OtherError Panic)
    \<Longrightarrow> pool_reachable rank L policy mp'"
| maybe_accept: "pool_reachable rank L policy mp \<Longrightarrow> config L policy env \<Longrightarrow> ranked rank L tx
    \<Longrightarrow> MaybeAcceptTransaction env tx isNew rateLimit mp = Some (r, mp') \<Longrightarrow> r \<noteq> Inl (OtherError Panic)
    \<Longrightarrow> pool_reachable rank L policy mp'"
| check: "pool_reachable rank L policy mp \<Longrightarrow> config L policy env \<Longrightarrow> ranked rank L tx
    \<Longrightarrow> CheckMempoolAcceptance env tx mp = Some (r, mp') \<Longrightarrow> r \<noteq> Inl (OtherError Panic)
    \<Longrightarrow> pool_reachable rank L policy mp'"
| process_orphans: "pool_reachable rank L policy mp \<Longrightarrow> config L policy env
    \<Longrightarrow> mp_processOrphans env tx mp = Some (Inr (txns, mp')) \<Longrightarrow> pool_reachable rank L policy mp'"
| remove: "pool_reachable rank L policy mp \<Longrightarrow> config L policy env
    \<Longrightarrow> removeTransaction env tx removeRedeemers mp = Some mp' \<Longrightarrow> pool_reachable rank L policy mp'"
| remove_double_spends: "pool_reachable rank L policy mp \<Longrightarrow> config L policy env
    \<Longrightarrow> RemoveDoubleSpends env tx mp = Some mp' \<Longrightarrow> pool_reachable rank L policy mp'"
| remove_orphan: "pool_reachable rank L policy mp \<Longrightarrow> RemoveOrphan L tx mp = Some mp' \<Longrightarrow> pool_reachable rank L policy mp'"
| remove_by_tag: "pool_reachable rank L policy mp \<Longrightarrow> RemoveOrphansByTag L tag mp = Some (mp', n) \<Longrightarrow> pool_reachable rank L policy mp'"

lemma pool_inv_config: "config L policy env \<Longrightarrow> config L policy env' \<Longrightarrow> pool_inv rank env mp = pool_inv rank env' mp"
  by (simp add: config_def pool_inv_def orphans_inv_def orphan_limit_def)

lemma pool_inv_new: "pool_inv rank env (mempool_New env')"
  by (simp add: pool_inv_def mempool_New_def txpool_ok_def fees_ok_def orphans_inv_def orphans_ok_def refs_def in_pool_def)

lemma reachable_inv:
  assumes "pool_reachable rank L policy mp" "money_ok L" "config L policy env"
  shows "pool_inv rank env mp"
  using assms(1)
proof induction
  case (process mp env' tx allowOrphan rateLimit tag r mp')
  have env': "mp_wire env' = L" using process.hyps(2) by (simp add: config_def)
  show ?case using ProcessTransaction_returns[of rank env' mp tx allowOrphan rateLimit tag] process assms(2) env'
      pool_inv_config[OF process.hyps(2) assms(3)] by auto
next
  case (maybe_accept mp env' tx isNew rateLimit r mp')
  have env': "mp_wire env' = L" using maybe_accept.hyps(2) by (simp add: config_def)
  show ?case using maybeAcceptTransaction_returns[of rank env' mp tx isNew rateLimit True] maybe_accept assms(2) env'
      pool_inv_config[OF maybe_accept.hyps(2) assms(3)] by (auto simp: MaybeAcceptTransaction_def)
next
  case (check mp env' tx r mp')
  have env': "mp_wire env' = L" using check.hyps(2) by (simp add: config_def)
  have "same_txs mp mp'" using checkMempoolAcceptance_returns[of rank env' mp tx True True True] check assms(2) env' assms(3)
    by (auto simp: CheckMempoolAcceptance_def pool_inv_def config_def)
  then show ?case using pool_inv_cong check.IH by blast
next
  case (process_orphans mp env' tx txns mp')
  have env': "mp_wire env' = L" using process_orphans.hyps(2) by (simp add: config_def)
  show ?case using mp_processOrphans_returns[of rank env' mp tx] process_orphans assms(2) env'
      pool_inv_config[OF process_orphans.hyps(2) assms(3)] by auto
next
  case (remove mp env' tx removeRedeemers mp')
  then have "pool_inv rank env' mp" using pool_inv_config[OF remove.hyps(2) assms(3)] by simp
  then show ?case using removeTransaction_without[of rank env' mp tx removeRedeemers] remove.hyps(3) pool_inv_without[of env' _ mp mp' rank]
      pool_inv_config[OF remove.hyps(2) assms(3)] by (auto simp: pool_inv_def)
next
  case (remove_double_spends mp env' tx mp')
  then have "pool_inv rank env' mp" using pool_inv_config[OF remove_double_spends.hyps(2) assms(3)] by simp
  then show ?case using RemoveDoubleSpends_without[of rank env' mp tx] remove_double_spends.hyps(3) pool_inv_without[of env' _ mp mp' rank]
      pool_inv_config[OF remove_double_spends.hyps(2) assms(3)] by (auto simp: pool_inv_def)
next
  case (remove_orphan mp tx mp')
  then have "orphans_ok L {} mp" using assms(3) by (simp add: pool_inv_def orphans_inv_def config_def)
  from RemoveOrphan_returns[OF this, of tx] show ?case using remove_orphan pool_inv_removed[of env mp mp' rank] assms(3) by (auto simp: config_def)
next
  case (reorder mp mp')
  then show ?case using reordered_inv by blast
next
  case (remove_by_tag mp tag mp' n)
  then have "orphans_ok L {} mp" using assms(3) by (simp add: pool_inv_def orphans_inv_def config_def)
  from RemoveOrphansByTag_returns[OF this, of tag] show ?case using remove_by_tag pool_inv_removed[of env mp mp' rank] assms(3) by (auto simp: config_def)
qed (rule pool_inv_new)

lemma reachable_config:
  assumes "pool_reachable rank L policy mp" "money_ok L"
  obtains env where "config L policy env" "pool_inv rank env mp"
proof -
  have "\<exists>env. config L policy env" using assms(1) by induction blast+
  then show thesis using reachable_inv[OF assms] that by blast
qed

lemma RemoveDoubleSpends_free:
  assumes ok: "txpool_ok rank (mp_wire env) mp"
  shows "\<exists>mp'. RemoveDoubleSpends env tx mp = Some mp' \<and> (\<exists>H. without (mp_wire env) H mp mp')
    \<and> (\<forall>p \<in> set (prevs tx). \<forall>t. outpoints mp' p = Some t \<longrightarrow> TxHash (mp_wire env) t = TxHash (mp_wire env) tx)"
proof -
  let ?L = "mp_wire env"
  let ?I = "\<lambda>D mp1. (\<exists>H. without ?L H mp mp1) \<and> (\<forall>p \<in> D. \<forall>t. outpoints mp1 p = Some t \<longrightarrow> TxHash ?L t = TxHash ?L tx)"
  have "\<exists>mp'. RemoveDoubleSpends env tx mp = Some mp' \<and> ?I ({} \<union> set (prevs tx)) mp'"
    unfolding RemoveDoubleSpends_def
  proof (rule foldO_collect[where I = ?I])
    fix D p mp1 assume I: "?I D mp1"
    then obtain H where w: "without ?L H mp mp1" by blast
    show "\<exists>mp2. (case outpoints mp1 p of None \<Rightarrow> Some mp1 | Some r \<Rightarrow>
      if TxHash ?L r \<noteq> TxHash ?L tx then removeTransaction env r True mp1 else Some mp1) = Some mp2 \<and> ?I (insert p D) mp2"
    proof (cases "\<exists>r. outpoints mp1 p = Some r \<and> TxHash ?L r \<noteq> TxHash ?L tx")
      case True
      then obtain r where r: "outpoints mp1 p = Some r" "TxHash ?L r \<noteq> TxHash ?L tx" by blast
      obtain mp2 where mp2: "removeTransaction env r True mp1 = Some mp2" "without ?L (TxHash ?L ` {b. (spent_by ?L mp1)\<^sup>*\<^sup>* r b}) mp1 mp2"
        using removeTransaction_redeemers[OF without_ok[OF w ok]] by blast
      have "outpoints mp2 p \<noteq> Some a" for a using without_outpoints[OF mp2(2), of p a] r(1) by auto
      then have "outpoints mp2 p = None" by (cases "outpoints mp2 p") auto
      then show ?thesis using r mp2(1) I without_trans[OF w mp2(2)] without_outpoints[OF mp2(2)] by auto
    next
      case False
      then show ?thesis using I by (cases "outpoints mp1 p") auto
    qed
  qed (use without_refl in blast)
  then show ?thesis by simp
qed

section \<open>The theorems\<close>

text \<open>
  C8: in every state that calls bring the memory pool to, no two transactions of the pool spend the same output, the
  index of spent outputs names for each output exactly the transaction of the pool that spends it, the index of
  orphans lists under each output exactly the orphans that spend it, and there are never more orphans than the
  policy allows.
\<close>

theorem mempool_consistent:
  assumes "pool_reachable rank L policy mp" "money_ok L"
  shows "(\<forall>a b p. in_pool mp a \<and> in_pool mp b \<and> p \<in> set (prevs a) \<and> p \<in> set (prevs b) \<longrightarrow> a = b)
    \<and> (\<forall>p tx. outpoints mp p = Some tx \<longleftrightarrow> in_pool mp tx \<and> p \<in> set (prevs tx))
    \<and> (\<forall>p tx. tx \<in> set (by_prev mp p) \<longleftrightarrow> p \<in> set (prevs tx) \<and> is_orphan L mp tx)
    \<and> length (mp_orphans mp) \<le> nat (MaxOrphanTxs policy)"
proof -
  obtain env where env: "config L policy env" and inv: "pool_inv rank env mp" by (rule reachable_config[OF assms])
  have ok: "txpool_ok rank L mp" "orphans_ok L {} mp" "length (mp_orphans mp) \<le> nat (MaxOrphanTxs policy)"
    using inv env by (simp_all add: pool_inv_def orphans_inv_def config_def orphan_limit_def)
  have "tx \<in> set (by_prev mp p) \<longleftrightarrow> p \<in> set (prevs tx) \<and> is_orphan L mp tx" for p tx
  proof
    assume "tx \<in> set (by_prev mp p)"
    moreover have "\<exists>h. (h, tx) \<in> set (refs mp p)" using calculation by (auto simp: by_prev_refs)
    ultimately show "p \<in> set (prevs tx) \<and> is_orphan L mp tx"
      using by_prev_orphans(1)[OF inv, of tx p] orphans_okD(5)[OF ok(2)] env by (auto simp: config_def)
  next
    assume "p \<in> set (prevs tx) \<and> is_orphan L mp tx"
    then have "(TxHash L tx, tx) \<in> set (refs mp p)" using orphans_okD(5)[OF ok(2)] by (auto simp: is_orphan_def)
    then show "tx \<in> set (by_prev mp p)" by (force simp: by_prev_refs)
  qed
  then show ?thesis using ok(3) no_double_spend[OF ok(1)] txpool_okD(4)[OF ok(1)] by blast
qed

text \<open>
  C15: \<open>ProcessTransaction\<close> always returns: the searches through the pool end, and so does the loop that processes the
  orphans which an accepted transaction releases, whatever they release in turn.
\<close>

theorem ProcessTransaction_total:
  assumes "pool_reachable rank L policy mp" "money_ok L" "config L policy env" "ranked rank L tx"
  shows "\<exists>r mp'. ProcessTransaction env tx allowOrphan rateLimit tag mp = Some (r, mp')"
  using ProcessTransaction_returns[OF reachable_inv[OF assms(1-3)], of tx allowOrphan rateLimit tag] assms(2-4) by (auto simp: config_def)

text \<open>
  C16: \<open>removeTransaction\<close> with redeemers returns and takes out of the pool exactly the transaction and those that spend
  its outputs, directly or through others.
\<close>

theorem removeTransaction_exact:
  assumes "pool_reachable rank L policy mp" "money_ok L" "config L policy env"
  shows "\<exists>mp'. removeTransaction env tx True mp = Some mp'
    \<and> (\<forall>t. in_pool mp' t \<longleftrightarrow> in_pool mp t \<and> TxHash L t \<notin> TxHash L ` {b. (spent_by L mp)\<^sup>*\<^sup>* tx b})"
proof -
  have ok: "txpool_ok rank (mp_wire env) mp" and L: "mp_wire env = L" using reachable_inv[OF assms] assms(3) by (simp_all add: pool_inv_def config_def)
  from removeTransaction_redeemers[OF ok, of tx] show ?thesis using without_in_pool[OF _ ok] by (auto simp: L)
qed

text \<open>
  When a block has confirmed a transaction, \<open>RemoveDoubleSpends\<close> returns and leaves in the pool no other transaction
  that spends one of its inputs, and it adds nothing.
\<close>

theorem RemoveDoubleSpends_clears:
  assumes "pool_reachable rank L policy mp" "money_ok L" "config L policy env"
  shows "\<exists>mp'. RemoveDoubleSpends env tx mp = Some mp' \<and> set (pool mp') \<subseteq> set (pool mp)
    \<and> (\<forall>t. in_pool mp' t \<and> set (prevs t) \<inter> set (prevs tx) \<noteq> {} \<longrightarrow> TxHash L t = TxHash L tx)"
proof -
  have ok: "txpool_ok rank (mp_wire env) mp" and L: "mp_wire env = L" using reachable_inv[OF assms] assms(3) by (simp_all add: pool_inv_def config_def)
  obtain mp' H where mp': "RemoveDoubleSpends env tx mp = Some mp'" "without (mp_wire env) H mp mp'"
    "\<forall>p \<in> set (prevs tx). \<forall>t. outpoints mp' p = Some t \<longrightarrow> TxHash L t = TxHash L tx"
    using RemoveDoubleSpends_free[OF ok, of tx] L by blast
  have "TxHash L t = TxHash L tx" if "in_pool mp' t" "p \<in> set (prevs t)" "p \<in> set (prevs tx)" for t p
    using mp'(3) that txpool_okD(4)[OF without_ok[OF mp'(2) ok]] by blast
  then show ?thesis using mp'(1) without_pool[OF mp'(2)] by auto
qed

text \<open>
  C9: an accepted transaction takes the place of the pool transactions that spend its inputs, together with all that
  descend from them, and everything else stays.  Those that spend its inputs signal that they may be replaced.  At
  most a hundred transactions go, each paid less per kilobyte, and the new transaction pays at least all their fees
  and the fee for its own relay on top.
\<close>

theorem replacement_pays:
  assumes "pool_reachable rank L policy mp" "0 \<le> MaxSatoshi L" "101 * MaxSatoshi L < 2 ^ 63" "config L policy env" "ranked rank L tx"
    and acc: "MaybeAcceptTransaction env tx isNew rateLimit mp = Some (Inr ([], Some d), mp')"
  shows "(\<forall>t. in_pool mp' t \<longleftrightarrow> t = tx \<or> in_pool mp t \<and> t \<notin> evicted L mp tx)
    \<and> (\<forall>p \<in> set (prevs tx). \<forall>c. outpoints mp p = Some c \<longrightarrow> signals mp c)
    \<and> (evicted L mp tx \<noteq> {} \<longrightarrow> card (evicted L mp tx) \<le> 100
       \<and> (\<forall>t \<in> evicted L mp tx. FeePerKB (the (map_of (pool mp) (TxHash L t))) < FeePerKB d)
       \<and> (\<Sum>t \<in> evicted L mp tx. pool_fee mp (TxHash L t)) + calcMinRequiredTxRelayFee L (GetTxVirtualSize L tx) (MinRelayTxFee policy) \<le> td_Fee d)"
proof -
  have money: "money_ok L" using assms(2,3) by (simp add: money_ok_def)
  have L: "mp_wire env = L" "mpPolicy env = policy" using assms(4) by (simp_all add: config_def)
  have inv: "pool_inv rank env mp" using reachable_inv[OF assms(1) money assms(4)] .
  then have ok: "txpool_ok rank L mp" "fees_ok L mp" using L by (simp_all add: pool_inv_def)
  have as: "accepted_as env tx d mp mp'"
    using maybeAcceptTransaction_returns[OF inv, of tx isNew rateLimit True] assms(5) money L acc by (auto simp: MaybeAcceptTransaction_def)
  then obtain res where res: "accepted env tx mp res" "td_Fee d = r_TxFee res" unfolding accepted_as_def by blast
  have ev: "TxHash L t \<in> TxHash L ` evicted L mp tx \<longleftrightarrow> t \<in> evicted L mp tx" if "in_pool mp t" for t
    using gone_hash[OF ok(1) that] by (auto simp: evicted_def)
  have key: "in_pool mp t \<longleftrightarrow> (\<exists>h d. (h, d) \<in> set (pool mp) \<and> td_Tx d = t)" for t by (force simp: in_pool_def)
  have "in_pool mp' t \<longleftrightarrow> t = tx \<or> in_pool mp t \<and> t \<notin> evicted L mp tx" for t
  proof -
    have "in_pool mp' t \<longleftrightarrow> t = tx \<or> (\<exists>h d. (h, d) \<in> set (pool mp) \<and> h \<notin> TxHash L ` evicted L mp tx \<and> td_Tx d = t)"
      using as unfolding accepted_as_def in_pool_def L by force
    moreover have "h = TxHash L (td_Tx d)" if "(h, d) \<in> set (pool mp)" for h d using txpool_okD(2)[OF ok(1) that] .
    ultimately show ?thesis using ev[of t] key[of t] by metis
  qed
  moreover have "\<forall>p \<in> set (prevs tx). \<forall>c. outpoints mp p = Some c \<longrightarrow> signals mp c" using res(1) by (auto simp: accepted_def)
  moreover have "card (evicted L mp tx) \<le> 100
       \<and> (\<forall>t \<in> evicted L mp tx. FeePerKB (the (map_of (pool mp) (TxHash L t))) < FeePerKB d)
       \<and> (\<Sum>t \<in> evicted L mp tx. pool_fee mp (TxHash L t)) + calcMinRequiredTxRelayFee L (GetTxVirtualSize L tx) (MinRelayTxFee policy) \<le> td_Fee d"
    if ne: "evicted L mp tx \<noteq> {}"
  proof -
    obtain mp1 where mp1: "same_txs mp mp1" "validateReplacement env mp1 tx (r_TxFee res) = Some (Inr (Conflicts res))"
      using res(1) ne by (auto simp: accepted_def L)
    let ?m = "Conflicts res"
    have ok1: "txpool_ok rank (mp_wire env) mp1" "fees_ok (mp_wire env) mp1" and pool1: "pool mp1 = pool mp"
      using ok mp1(1) txpool_ok_cong[of mp1 mp rank L] by (simp_all add: same_txs_def L fees_ok_def)
    note rules = validateReplacement_rules[OF ok1(1) _ ok1(2) _ _ mp1(2), unfolded L, OF assms(5,2,3)]
    have m: "distinct (map fst ?m)" "set ?m = (\<lambda>t. (TxHash L t, t)) ` evicted L mp tx"
      using rules(1) evicted_cong[OF mp1(1)] by (simp_all add: conflict_map_def)
    have inj: "inj_on (\<lambda>t. (TxHash L t, t)) (evicted L mp tx)" by (auto simp: inj_on_def)
    have dm: "distinct ?m" using m(1) by (simp add: distinct_map)
    have "card (evicted L mp tx) = length ?m" using card_image[OF inj] m(2) distinct_card[OF dm] by simp
    moreover have "pool_fee mp1 = pool_fee mp" by (simp add: pool_fee_def pool1 fun_eq_iff)
    then have "sum_list (map (\<lambda>x. pool_fee mp1 (fst x)) ?m) = (\<Sum>t \<in> evicted L mp tx. pool_fee mp (TxHash L t))"
      using sum_list_distinct_conv_sum_set[OF dm, of "\<lambda>x. pool_fee mp (fst x)"] by (simp add: m(2) sum.reindex[OF inj])
    moreover have "FeePerKB d = go_div (i64 (r_TxFee res * 1000)) (GetTxVirtualSize L tx)" using as res(2) by (simp add: accepted_as_def L)
    ultimately show ?thesis using rules(2,4,5) res(2) m(2) by (auto simp: MaxReplacementEvictions_def pool1)
  qed
  ultimately show ?thesis by blast
qed

text \<open>
  C39: unless the policy accepts non-standard transactions, the pool stays empty whatever is submitted: no transaction
  with an input passes for standard, as the functions that classify scripts are placeholders.
\<close>

theorem standard_policy_pool_empty:
  assumes "pool_reachable rank L policy mp" "money_ok L" "\<not> AcceptNonStd policy"
  shows "pool mp = []"
proof -
  obtain env where "config L policy env" "pool_inv rank env mp" by (rule reachable_config[OF assms(1,2)])
  then show ?thesis using assms(3) by (simp add: pool_inv_def config_def)
qed

section \<open>Sample\<close>

text \<open>
  A pool that accepts two transactions which spend the same output of the chain, one after the other, and an
  orphan.  The hash of a transaction lists the hashes in its inputs and the values of its outputs.
\<close>

definition pool_lib :: wire_lib where
  "pool_lib = header_root_lib\<lparr>TxHash := \<lambda>tx. 1 # concat (map op_Hash (prevs tx)) @ map (\<lambda>txOut. of_int (Value txOut div 100000)) (tx_TxOut tx),
    HasWitness := \<lambda>tx. False, txSize := \<lambda>tx. 100, txSizeStripped := \<lambda>tx. 100, MaxSatoshi := 2000000\<rparr>"

lemma pool_lib_ranked: "ranked length pool_lib tx"
proof -
  have "length (op_Hash p) \<le> length (concat (map op_Hash ps))" if "p \<in> set ps" for p :: OutPoint and ps
    using that by (induction ps) auto
  then show ?thesis by (fastforce simp: ranked_def pool_lib_def less_Suc_eq_le)
qed

definition pool_policy :: Policy where
  "pool_policy = \<lparr>MaxTxVersion = 2, DisableRelayPriority = True, AcceptNonStd = True, FreeTxRelayLimit = 15, MaxOrphanTxs = 1,
    MaxOrphanTxSize = 100000, MaxSigOpCostPerTx = 16000, MinRelayTxFee = 1000, RejectReplacement = False\<rparr>"

definition pool_coin :: OutPoint where "pool_coin = \<lparr>op_Hash = [7], op_Index = 0\<rparr>"

definition pool_view :: UtxoViewpoint where
  "pool_view = \<lparr>entries = [(pool_coin, Some \<lparr>amount = 1000000, pkScript = [], blockHeight = 5, packedFlags = 0\<rparr>)], bestHash = []\<rparr>"

definition pool_sample :: pool_env where
  "pool_sample = \<lparr>mpPolicy = pool_policy, mp_wire = pool_lib, mpParams = sample_params,
    FetchUtxoView = (\<lambda>tx. Inr (if prevs tx = [pool_coin] then pool_view else NewUtxoViewpoint\<lparr>entries := map (\<lambda>p. (p, None)) (prevs tx)\<rparr>)),
    BestHeight = 10, MedianTimePast = 1000 * 1000000000, mp_CalcSequenceLock = (\<lambda>tx view. Inr \<lparr>sl_Seconds = -1, sl_BlockHeight = -1\<rparr>),
    segwit_active = Inr True, outSize = (\<lambda>txOut. 8), rnd = (\<lambda>x. x), decay = (\<lambda>p n. p), MinHighPriority = 0, mp_Now = 0\<rparr>"

definition pool_tx :: "OutPoint \<Rightarrow> int \<Rightarrow> MsgTx" where
  "pool_tx p v = \<lparr>tx_Version = 1, tx_TxIn = [\<lparr>PreviousOutPoint = p, SignatureScript = [], Witness = [], Sequence = 0\<rparr>],
    tx_TxOut = [\<lparr>Value = v, PkScript = []\<rparr>], LockTime = 0\<rparr>"

lemma pool_money: "money_ok pool_lib"
  by (simp add: money_ok_def pool_lib_def)

lemma pool_config: "config pool_lib pool_policy pool_sample"
  by (simp add: config_def pool_sample_def)



lemma pool_lib_simps [simp]:
  "TxHash pool_lib (pool_tx p v) = 1 # op_Hash p @ [of_int (v div 100000)]" "HasWitness pool_lib tx = False" "txSize pool_lib tx = 100"
  "txSizeStripped pool_lib tx = 100" "MaxSatoshi pool_lib = 2000000"
  by (simp_all add: pool_lib_def pool_tx_def prevs_def)

lemma pool_tx_simps [simp]:
  "tx_TxIn (pool_tx p v) = [\<lparr>PreviousOutPoint = p, SignatureScript = [], Witness = [], Sequence = 0\<rparr>]"
  "tx_TxOut (pool_tx p v) = [\<lparr>Value = v, PkScript = []\<rparr>]" "prevs (pool_tx p v) = [p]"
  "outs pool_lib (pool_tx p v) = [\<lparr>op_Hash = 1 # op_Hash p @ [of_int (v div 100000)], op_Index = 0\<rparr>]"
  by (simp_all add: pool_tx_def prevs_def outs_def outpoint_def pool_lib_def)

lemma pool_sample_simps [simp]:
  "mp_wire pool_sample = pool_lib" "mpPolicy pool_sample = pool_policy" "BestHeight pool_sample = 10" "mp_Now pool_sample = 0"
  "AcceptNonStd pool_policy" "MaxOrphanTxs pool_policy = 1" "MinRelayTxFee pool_policy = 1000" "RejectReplacement pool_policy = False"
  "MaxSigOpCostPerTx pool_policy = 16000" "MaxOrphanTxSize pool_policy = 100000" "mpParams pool_sample = sample_params" "MedianTimePast pool_sample = 1000000000000"
  "mp_CalcSequenceLock pool_sample tx view = Inr \<lparr>sl_Seconds = -1, sl_BlockHeight = -1\<rparr>"
  "FetchUtxoView pool_sample (pool_tx pool_coin v) = Inr pool_view"
  by (simp_all add: pool_sample_def pool_policy_def)

lemma pool_vsize [simp]: "GetTxVirtualSize pool_lib tx = 100"
  by (simp add: GetTxVirtualSize_def GetTransactionWeight_def WitnessScaleFactor_def i64_def go_div_def)

lemma pool_view_simps [simp]:
  "op_Hash pool_coin = [7]" "\<not> isNullOutpoint pool_coin" "missing_parents pool_view = []"
  "LookupEntry pool_view pool_coin = Some \<lparr>amount = 1000000, pkScript = [], blockHeight = 5, packedFlags = 0\<rparr>"
  "LookupEntry pool_view \<lparr>op_Hash = a # b # c, op_Index = i\<rparr> = None" "RemoveEntry \<lparr>op_Hash = a # b # c, op_Index = i\<rparr> pool_view = pool_view"
  "IsSpent \<lparr>amount = x, pkScript = s, blockHeight = h, packedFlags = 0\<rparr> = False"
  "entry_IsCoinBase \<lparr>amount = x, pkScript = s, blockHeight = h, packedFlags = 0\<rparr> = False"
  by (simp_all add: pool_coin_def isNullOutpoint_def maxUint32_def pool_view_def LookupEntry_def RemoveEntry_def missing_parents_def IsSpent_def
      entry_IsCoinBase_def tfSpent_def tfCoinBase_def)

text \<open>The checks on a transaction that spends the coin.\<close>

lemma pool_check_early:
  assumes "map_of (pool mp) [1, 7, of_int (v div 100000)] = None" "map_of (mp_orphans mp) [1, 7, of_int (v div 100000)] = None" "0 \<le> v" "v \<le> 1000000"
  shows "check_early pool_sample mp (pool_tx pool_coin v) b = check_conflicts pool_sample mp [pool_coin] False"
proof -
  have "CheckTransactionSanity pool_lib (pool_tx pool_coin v) = Inr ()"
    using assms(3,4) by (simp add: CheckTransactionSanity_iff[OF pool_money] sane_tx_def MaxBlockBaseSize_def value_out_def inputs_def IsCoinBase_null)
  then show ?thesis using assms(1,2)
    by (simp add: check_early_def IsCoinBase_null validateSegWitDeployment_def isTransactionInPool_def isOrphanInPool_def
        MinStandardTxNonWitnessSize_def checkPoolDoubleSpend_def)
qed

lemma pool_check_view: "map_of (pool mp) [7] = None \<Longrightarrow> check_view pool_sample mp (pool_tx pool_coin v) = Inr pool_view"
  by (simp add: check_view_def mp_fetchInputUtxos_def fetch_pool_input_def bindE_def)

lemma pool_check_inputs: "0 \<le> v \<Longrightarrow> v \<le> 1000000 \<Longrightarrow> check_inputs pool_sample (pool_tx pool_coin v) pool_view = Inr (1000000 - v)"
  by (simp add: check_inputs_def CheckTransactionInputs_def IsCoinBase_null check_input_def bindE_def output_total_def i64_def i32_def
      validateStandardness_def SequenceLockActive_def time_Unix_def validateSigCost_def GetSigOpCost_def CountP2SHSigOps_def CountSigOps_zero
      isPayToScriptHash_def count_p2sh_def)

lemma pool_relay_fee: "100 \<le> f \<Longrightarrow> validateRelayFeeMet pool_sample tx f 100 view h a b mp = (Inr (), mp)"
  by (simp add: validateRelayFeeMet_def calcMinRequiredTxRelayFee_def i64_def go_div_def DefaultBlockPrioritySize_def)

definition tx_a :: MsgTx where "tx_a = pool_tx pool_coin 900000"
definition tx_b :: MsgTx where "tx_b = pool_tx pool_coin 500000"

definition desc_a :: TxDesc where
  "desc_a = snd (addTransaction pool_sample pool_view tx_a 10 100000 (mempool_New pool_sample))"

definition pool_a :: TxPool where
  "pool_a = (mempool_New pool_sample)\<lparr>pool := [([1, 7, 9], desc_a)], outpoints := [pool_coin \<mapsto> tx_a]\<rparr>"

lemma desc_a_simps [simp]: "td_Tx desc_a = tx_a" "td_Fee desc_a = 100000" "FeePerKB desc_a = 1000000"
  by (simp_all add: desc_a_def addTransaction_def Let_def i64_def go_div_def)

lemma add_a: "addTransaction pool_sample pool_view tx_a 10 100000 (mempool_New pool_sample) = (pool_a, desc_a)"
  by (simp add: desc_a_def pool_a_def) (simp add: addTransaction_def tx_a_def mempool_New_def time_Unix_def Let_def)

lemma pool_a_simps [simp]:
  "pool pool_a = [([1, 7, 9], desc_a)]" "outpoints pool_a = [pool_coin \<mapsto> tx_a]" "mp_orphans pool_a = []" "orphansByPrev pool_a = Map.empty"
  by (simp_all add: pool_a_def mempool_New_def)

lemma accept_a: "MaybeAcceptTransaction pool_sample tx_a True True (mempool_New pool_sample) = Some (Inr ([], Some desc_a), pool_a)"
proof -
  let ?mp = "mempool_New pool_sample"
  have "pool ?mp = []" "outpoints ?mp = Map.empty" "mp_orphans ?mp = []" by (simp_all add: mempool_New_def)
  then have "check_early pool_sample ?mp tx_a True = Some (Inr False)" "check_view pool_sample ?mp tx_a = Inr pool_view"
    using pool_check_early[of ?mp 900000 True] pool_check_view[of ?mp 900000] by (simp_all add: tx_a_def)
  moreover have "check_inputs pool_sample tx_a pool_view = Inr 100000" using pool_check_inputs[of 900000] by (simp add: tx_a_def)
  ultimately have "checkMempoolAcceptance pool_sample tx_a True True True ?mp =
      Some (Inr \<lparr>r_TxFee = 100000, r_TxSize = 100, Conflicts = [], MissingParents = [], r_utxoView = pool_view, r_bestHeight = 10\<rparr>, ?mp)"
    by (simp add: checkMempoolAcceptance_def pool_relay_fee validateTxScriptsMempool_def)
  then show ?thesis using add_a by (simp add: MaybeAcceptTransaction_def maybeAcceptTransaction_def)
qed

lemma pool_a_reachable: "pool_reachable length pool_lib pool_policy pool_a"
  using pool_reachable.maybe_accept[OF pool_reachable.new[OF pool_config] pool_config pool_lib_ranked accept_a] by simp

lemma txDescendants_a: "txDescendants pool_lib pool_a tx_a = Some []"
  by (simp add: txDescendants_def tx_a_def) (simp add: pool_coin_def)

lemma replace_a: "validateReplacement pool_sample pool_a tx_b 500000 = Some (Inr [([1, 7, 9], tx_a)])"
proof -
  have "TxHash pool_lib tx_a = [1, 7, 9]" by (simp add: tx_a_def)
  then have "txConflicts pool_lib pool_a tx_b = Some [([1, 7, 9], tx_a)]"
    using txDescendants_a by (simp add: txConflicts_def tx_b_def copy_map_def)
  moreover have "txAncestors pool_lib pool_a tx_b = Some []" by (simp add: txAncestors_def tx_b_def)
  ultimately show ?thesis by (simp add: validateReplacement_def MaxReplacementEvictions_def i64_def go_div_def calcMinRequiredTxRelayFee_def)
      (simp add: tx_a_def tx_b_def)
qed

lemma accept_b: "\<exists>d mp'. MaybeAcceptTransaction pool_sample tx_b True True pool_a = Some (Inr ([], Some d), mp')"
proof -
  have "signalsReplacement pool_a tx_a = Some True" by (simp add: signalsReplacement_def tx_a_def MaxRBFSequence_def)
  then have "check_early pool_sample pool_a tx_b True = Some (Inr True)" using pool_check_early[of pool_a 500000 True] by (simp add: tx_b_def)
  moreover have "check_view pool_sample pool_a tx_b = Inr pool_view" unfolding tx_b_def by (rule pool_check_view) simp
  moreover have "check_inputs pool_sample tx_b pool_view = Inr 500000" using pool_check_inputs[of 500000] by (simp add: tx_b_def)
  ultimately have "checkMempoolAcceptance pool_sample tx_b True True True pool_a =
      Some (Inr \<lparr>r_TxFee = 500000, r_TxSize = 100, Conflicts = [([1, 7, 9], tx_a)], MissingParents = [], r_utxoView = pool_view, r_bestHeight = 10\<rparr>, pool_a)"
    using replace_a by (simp add: checkMempoolAcceptance_def pool_relay_fee validateTxScriptsMempool_def)
  moreover have "TxHash pool_lib tx_a = [1, 7, 9]" by (simp add: tx_a_def)
  ultimately show ?thesis by (simp add: MaybeAcceptTransaction_def maybeAcceptTransaction_def removeTransaction_def split: prod.split)
qed

section \<open>The theorems at work\<close>

lemma in_pool_a: "in_pool pool_a t \<longleftrightarrow> t = tx_a"
  by (auto simp: in_pool_def)

theorem mempool_consistent_witness: "outpoints pool_a pool_coin = Some tx_a \<and> in_pool pool_a tx_a \<and> length (mp_orphans pool_a) \<le> 1"
proof -
  have "outpoints pool_a pool_coin = Some tx_a \<longleftrightarrow> in_pool pool_a tx_a \<and> pool_coin \<in> set (prevs tx_a)" "length (mp_orphans pool_a) \<le> nat (MaxOrphanTxs pool_policy)"
    using mempool_consistent[OF pool_a_reachable pool_money] by blast+
  then show ?thesis by simp
qed

theorem ProcessTransaction_total_witness: "\<exists>r mp'. ProcessTransaction pool_sample tx_b True True 7 pool_a = Some (r, mp')"
  using ProcessTransaction_total[OF pool_a_reachable pool_money pool_config pool_lib_ranked] .

theorem removeTransaction_exact_witness: "\<exists>mp'. removeTransaction pool_sample tx_a True pool_a = Some mp' \<and> \<not> in_pool mp' tx_a"
  using removeTransaction_exact[OF pool_a_reachable pool_money pool_config, of tx_a] by auto

theorem RemoveDoubleSpends_clears_witness: "\<exists>mp'. RemoveDoubleSpends pool_sample tx_b pool_a = Some mp' \<and> \<not> in_pool mp' tx_a"
proof -
  have "set (prevs tx_a) \<inter> set (prevs tx_b) \<noteq> {}" "TxHash pool_lib tx_a \<noteq> TxHash pool_lib tx_b" by (simp_all add: tx_a_def tx_b_def)
  then show ?thesis using RemoveDoubleSpends_clears[OF pool_a_reachable pool_money pool_config, of tx_b] by blast
qed

theorem replacement_pays_witness:
  "\<exists>d mp'. MaybeAcceptTransaction pool_sample tx_b True True pool_a = Some (Inr ([], Some d), mp') \<and> in_pool mp' tx_b \<and> \<not> in_pool mp' tx_a \<and> 100100 \<le> td_Fee d"
proof -
  obtain d mp' where acc: "MaybeAcceptTransaction pool_sample tx_b True True pool_a = Some (Inr ([], Some d), mp')" using accept_b by blast
  have "gone pool_lib pool_a {pool_coin} = {tx_a}"
  proof -
    have "\<not> spent_by pool_lib pool_a tx_a b" for b by (simp add: spent_by_def tx_a_def) (simp add: pool_coin_def)
    then show ?thesis by (auto simp: gone_def elim: converse_rtranclpE)
  qed
  then have ev: "evicted pool_lib pool_a tx_b = {tx_a}" by (simp add: evicted_def tx_b_def)
  have "tx_a \<noteq> tx_b" "TxHash pool_lib tx_a = [1, 7, 9]" by (simp add: tx_a_def tx_b_def pool_tx_def) (simp add: tx_a_def)
  then show ?thesis
    using replacement_pays[OF pool_a_reachable _ _ pool_config pool_lib_ranked acc] acc
    by (auto simp: ev in_pool_a pool_fee_def calcMinRequiredTxRelayFee_def i64_def go_div_def)
qed

text \<open>A pool that takes only standard transactions, and an orphan.\<close>

definition strict_sample :: pool_env where "strict_sample = pool_sample\<lparr>mpPolicy := pool_policy\<lparr>AcceptNonStd := False\<rparr>\<rparr>"

definition tx_c :: MsgTx where "tx_c = pool_tx \<lparr>op_Hash = [3], op_Index = 0\<rparr> 100000"

lemma strict_orphan: "\<exists>mp'. ProcessTransaction strict_sample tx_c True True 7 (mempool_New strict_sample) = Some (Inr [], mp') \<and> is_orphan pool_lib mp' tx_c"
proof -
  let ?mp = "mempool_New strict_sample"
  have mp: "pool ?mp = []" "outpoints ?mp = Map.empty" "mp_orphans ?mp = []" by (simp_all add: mempool_New_def)
  have env: "mp_wire strict_sample = pool_lib" by (simp add: strict_sample_def)
  have null: "\<not> isNullOutpoint \<lparr>op_Hash = [3], op_Index = 0\<rparr>" by (simp add: isNullOutpoint_def maxUint32_def)
  have "CheckTransactionSanity pool_lib tx_c = Inr ()" "\<not> IsCoinBase tx_c"
    using null by (simp_all add: tx_c_def CheckTransactionSanity_iff[OF pool_money] sane_tx_def MaxBlockBaseSize_def value_out_def inputs_def IsCoinBase_null)
  then have early: "check_early strict_sample ?mp tx_c True = Some (Inr False)"
    by (simp add: check_early_def env mp validateSegWitDeployment_def isTransactionInPool_def isOrphanInPool_def MinStandardTxNonWitnessSize_def checkPoolDoubleSpend_def)
      (simp add: tx_c_def mp)
  define view where "view = NewUtxoViewpoint\<lparr>entries := [(\<lparr>op_Hash = [3], op_Index = 0\<rparr>, None)]\<rparr>"
  have "FetchUtxoView strict_sample tx_c = Inr view" by (simp add: strict_sample_def pool_sample_def view_def tx_c_def pool_coin_def)
  then have "check_view strict_sample ?mp tx_c = Inr view"
    by (simp add: check_view_def mp_fetchInputUtxos_def bindE_def env tx_c_def fetch_pool_input_def mp)
      (simp add: view_def LookupEntry_def RemoveEntry_def)
  moreover have "missing_parents view = [[3]]" by (simp add: view_def missing_parents_def)
  ultimately have "maybeAcceptTransaction strict_sample tx_c True True True ?mp = Some (Inr ([[3]], None), ?mp)"
    using early by (simp add: maybeAcceptTransaction_def checkMempoolAcceptance_def)
  then show ?thesis
    by (simp add: ProcessTransaction_def maybeAddOrphan_def env addOrphan_def strict_sample_def limitNumOrphans_def expire_orphans_def Let_def)
      (simp add: is_orphan_def mempool_New_def orphanExpireScanInterval_def)
qed

theorem standard_policy_pool_empty_witness:
  "\<exists>mp'. ProcessTransaction strict_sample tx_c True True 7 (mempool_New strict_sample) = Some (Inr [], mp') \<and> is_orphan pool_lib mp' tx_c \<and> pool mp' = []"
proof -
  have config: "config pool_lib (pool_policy\<lparr>AcceptNonStd := False\<rparr>) strict_sample" by (simp add: config_def strict_sample_def)
  obtain mp' where mp': "ProcessTransaction strict_sample tx_c True True 7 (mempool_New strict_sample) = Some (Inr [], mp')" "is_orphan pool_lib mp' tx_c"
    using strict_orphan by blast
  have "pool_reachable length pool_lib (pool_policy\<lparr>AcceptNonStd := False\<rparr>) mp'"
    using pool_reachable.process[OF pool_reachable.new[OF config] config pool_lib_ranked mp'(1)] by simp
  from standard_policy_pool_empty[OF this pool_money] show ?thesis using mp' by simp
qed

end
