(* ===== verification/Mining_Queue.thy ===== *)
theory Mining_Queue
  imports Mempool_Policy "HOL-Library.Multiset"
begin

text \<open>
  The priority queue of the block template generator (mining/mining.go): a binary heap in a slice, kept by the
  functions of Go's package \<open>container/heap\<close> with one of two comparison functions.  An item is shared between the
  queue and the maps of dependencies, so items live in a store and the queue holds their positions in it.  The
  locale \<open>heap_order\<close> states what a comparison function has to satisfy; in it, the operations are shown to keep
  the heap order and to act on the multiset of items, and a popped item to come before all others.
\<close>

section \<open>The package \<open>container/heap\<close>\<close>

definition swap :: "nat \<Rightarrow> nat \<Rightarrow> 'a list \<Rightarrow> 'a list" where
  "swap i j xs = xs[i := xs ! j, j := xs ! i]"

fun heap_up :: "('a \<Rightarrow> 'a \<Rightarrow> bool) \<Rightarrow> 'a list \<Rightarrow> nat \<Rightarrow> 'a list" where
  "heap_up lt xs j =
    (let i = (j - 1) div 2
     in if i = j \<or> \<not> lt (xs ! j) (xs ! i) then xs else heap_up lt (swap i j xs) i)"

function heap_down :: "('a \<Rightarrow> 'a \<Rightarrow> bool) \<Rightarrow> nat \<Rightarrow> 'a list \<Rightarrow> nat \<Rightarrow> 'a list" where
  "heap_down lt n xs i =
    (let j1 = 2 * i + 1
     in if j1 \<ge> n then xs
        else let j2 = j1 + 1; j = (if j2 < n \<and> lt (xs ! j2) (xs ! j1) then j2 else j1)
             in if \<not> lt (xs ! j) (xs ! i) then xs else heap_down lt n (swap i j xs) j)"
  by pat_completeness auto
termination by (relation "measure (\<lambda>(_, n, _, i). n - i)") auto

declare heap_up.simps [simp del] heap_down.simps [simp del]

text \<open>The loop of \<open>heap.Init\<close>, from \<open>k - 1\<close> down to 0.\<close>

fun heap_init_from :: "('a \<Rightarrow> 'a \<Rightarrow> bool) \<Rightarrow> nat \<Rightarrow> 'a list \<Rightarrow> 'a list" where
  "heap_init_from lt 0 xs = xs"
| "heap_init_from lt (Suc i) xs = heap_init_from lt i (heap_down lt (length xs) xs i)"

definition heap_Init :: "('a \<Rightarrow> 'a \<Rightarrow> bool) \<Rightarrow> 'a list \<Rightarrow> 'a list" where
  "heap_Init lt xs = heap_init_from lt (length xs div 2) xs"

definition heap_Push :: "('a \<Rightarrow> 'a \<Rightarrow> bool) \<Rightarrow> 'a list \<Rightarrow> 'a \<Rightarrow> 'a list" where
  "heap_Push lt xs x = heap_up lt (xs @ [x]) (length xs)"

text \<open>Popping from an empty queue panics.\<close>

definition heap_Pop :: "('a \<Rightarrow> 'a \<Rightarrow> bool) \<Rightarrow> 'a list \<Rightarrow> ('a \<times> 'a list) option" where
  "heap_Pop lt xs =
    (if xs = [] then None
     else let n = length xs - 1; ys = heap_down lt n (swap 0 n xs) 0 in Some (last ys, butlast ys))"

section \<open>Heap order\<close>

definition hpar :: "nat \<Rightarrow> nat" where "hpar i = (i - 1) div 2"

lemma hpar_simps [simp]: "hpar 0 = 0" "0 < k \<Longrightarrow> hpar k < k" "hpar k \<le> k" "hpar k = k \<longleftrightarrow> k = 0"
  by (auto simp: hpar_def)

text \<open>The children of a position.\<close>

lemma hpar_eq: "0 < k \<Longrightarrow> hpar k = i \<longleftrightarrow> k = 2 * i + 1 \<or> k = 2 * i + 2"
  by (auto simp: hpar_def)

lemma hpar_less: "k < n \<Longrightarrow> hpar k < n"
  using hpar_simps(3)[of k] by linarith

lemma hpar_children [simp]: "hpar (Suc (2 * i)) = i" "hpar (Suc (Suc (2 * i))) = i"
  by (auto simp: hpar_def)

lemma heap_up_unfold:
  "heap_up lt xs j = (if j = 0 \<or> \<not> lt (xs ! j) (xs ! hpar j) then xs else heap_up lt (swap (hpar j) j xs) (hpar j))"
  by (subst heap_up.simps) (auto simp: Let_def hpar_def)

text \<open>Below position \<open>n\<close>, no item at or below \<open>lo\<close> in the tree comes before the item above it.\<close>

definition heap_from :: "('a \<Rightarrow> 'a \<Rightarrow> bool) \<Rightarrow> nat \<Rightarrow> nat \<Rightarrow> 'a list \<Rightarrow> bool" where
  "heap_from lt lo n xs \<longleftrightarrow> (\<forall>i < n. 0 < i \<and> lo \<le> hpar i \<longrightarrow> \<not> lt (xs ! i) (xs ! hpar i))"

abbreviation heap_ok :: "('a \<Rightarrow> 'a \<Rightarrow> bool) \<Rightarrow> 'a list \<Rightarrow> bool" where
  "heap_ok lt xs \<equiv> heap_from lt 0 (length xs) xs"

lemma swap_simps [simp]:
  "length (swap i j xs) = length xs"
  "k < length xs \<Longrightarrow> i < length xs \<Longrightarrow> j < length xs \<Longrightarrow>
    swap i j xs ! k = (if k = j then xs ! i else if k = i then xs ! j else xs ! k)"
  "i < length xs \<Longrightarrow> j < length xs \<Longrightarrow> mset (swap i j xs) = mset xs"
  by (auto simp: swap_def nth_list_update mset_swap)

lemma length_heap_up [simp]: "length (heap_up lt xs j) = length xs"
  by (induction lt xs j rule: heap_up.induct) (subst heap_up.simps, simp add: Let_def)

lemma mset_heap_up [simp]: "j < length xs \<Longrightarrow> mset (heap_up lt xs j) = mset xs"
  by (induction lt xs j rule: heap_up.induct) (subst heap_up.simps, simp add: Let_def)

lemma length_heap_down [simp]: "length (heap_down lt n xs i) = length xs"
  by (induction lt n xs i rule: heap_down.induct) (subst heap_down.simps, simp add: Let_def)

lemma mset_heap_down [simp]: "n \<le> length xs \<Longrightarrow> mset (heap_down lt n xs i) = mset xs"
  by (induction lt n xs i rule: heap_down.induct) (subst heap_down.simps, simp add: Let_def)

lemma heap_down_beyond: "n \<le> k \<Longrightarrow> n \<le> length xs \<Longrightarrow> k < length xs \<Longrightarrow> heap_down lt n xs i ! k = xs ! k"
  by (induction lt n xs i rule: heap_down.induct) (subst heap_down.simps, auto simp: Let_def)

lemma heap_init_from_simps [simp]:
  "length (heap_init_from lt k xs) = length xs" "mset (heap_init_from lt k xs) = mset xs"
  by (induction k arbitrary: xs) auto

locale heap_order =
  fixes lt :: "'a \<Rightarrow> 'a \<Rightarrow> bool"
  assumes asym: "lt x y \<Longrightarrow> \<not> lt y x"
    and not_less_trans: "\<not> lt x y \<Longrightarrow> \<not> lt y z \<Longrightarrow> \<not> lt x z"
begin

lemma irrefl: "\<not> lt x x"
  using asym by blast

text \<open>The order may be broken at \<open>i\<close> only: towards its children, or towards its parent.\<close>

definition sinking :: "nat \<Rightarrow> nat \<Rightarrow> 'a list \<Rightarrow> nat \<Rightarrow> bool" where
  "sinking lo n xs i \<longleftrightarrow> (\<forall>k < n. 0 < k \<and> lo \<le> hpar k \<longrightarrow>
    (hpar k \<noteq> i \<longrightarrow> \<not> lt (xs ! k) (xs ! hpar k)) \<and>
    (hpar k = i \<and> 0 < i \<and> lo \<le> hpar i \<longrightarrow> \<not> lt (xs ! k) (xs ! hpar i)))"

definition rising :: "nat \<Rightarrow> 'a list \<Rightarrow> nat \<Rightarrow> bool" where
  "rising n xs j \<longleftrightarrow> (\<forall>k < n. 0 < k \<longrightarrow>
    (k \<noteq> j \<longrightarrow> \<not> lt (xs ! k) (xs ! hpar k)) \<and>
    (hpar k = j \<and> 0 < j \<longrightarrow> \<not> lt (xs ! k) (xs ! hpar j)))"

lemma sink_step:
  assumes "sinking lo n xs i" "n \<le> length xs" "j < n" "0 < j" "hpar j = i" "lo \<le> i" "lt (xs ! j) (xs ! i)"
    and best: "\<And>k. k < n \<Longrightarrow> 0 < k \<Longrightarrow> hpar k = i \<Longrightarrow> \<not> lt (xs ! k) (xs ! j)"
  shows "sinking lo n (swap i j xs) j"
  unfolding sinking_def
proof (intro allI impI conjI)
  fix k assume k: "k < n" "0 < k \<and> lo \<le> hpar k"
  have len: "i < length xs" "j < length xs" "k < length xs" "hpar k < length xs" "i \<noteq> j"
    using assms(2-5) k hpar_less[of k "length xs"] hpar_less[of j "length xs"] by auto
  show "\<not> lt (swap i j xs ! k) (swap i j xs ! hpar k)" if "hpar k \<noteq> j"
  proof (cases "hpar k = i")
    case True
    then have "k \<noteq> i" using k hpar_simps(2)[of k] by auto
    then show ?thesis using True best[of k] asym[OF assms(7)] len k that by auto
  next
    case False
    then have "\<not> lt (xs ! k) (xs ! hpar k)" using assms(1) k unfolding sinking_def by blast
    moreover have "\<not> lt (xs ! j) (xs ! hpar i)" if "k = i"
      using assms(1,3,4,5,6) k that unfolding sinking_def by (metis)
    ultimately show ?thesis using len that False k assms(5) by auto
  qed
  show "\<not> lt (swap i j xs ! k) (swap i j xs ! hpar j)" if "hpar k = j \<and> 0 < j \<and> lo \<le> hpar j"
  proof -
    have ki: "hpar k \<noteq> i" "k \<noteq> i" using that len k assms(4,5) hpar_simps(2)[of j] hpar_simps(2)[of k] by linarith+
    then have "\<not> lt (xs ! k) (xs ! j)" using assms(1) k that unfolding sinking_def by metis
    moreover have "k \<noteq> j" using that k hpar_simps(2)[of k] by linarith
    ultimately show ?thesis using len ki assms(5) by simp
  qed
qed

lemma heap_down_step:
  assumes "\<not> n \<le> 2 * i + 1"
    and "j = (if 2 * i + 1 + 1 < n \<and> lt (xs ! (2 * i + 1 + 1)) (xs ! (2 * i + 1)) then 2 * i + 1 + 1 else 2 * i + 1)"
  shows "heap_down lt n xs i = (if \<not> lt (xs ! j) (xs ! i) then xs else heap_down lt n (swap i j xs) j)"
  using assms by (subst heap_down.simps) (simp only: Let_def if_False)

lemma heap_down_ok:
  "sinking lo n xs i \<Longrightarrow> n \<le> length xs \<Longrightarrow> lo \<le> i \<Longrightarrow> heap_from lt lo n (heap_down lt n xs i)"
proof (induction "n - i" arbitrary: xs i rule: less_induct)
  case less
  let ?j1 = "2 * i + 1" and ?j2 = "2 * i + 1 + 1"
  let ?j = "if ?j2 < n \<and> lt (xs ! ?j2) (xs ! ?j1) then ?j2 else ?j1"
  have fin: "heap_from lt lo n xs" if "\<And>k. k < n \<Longrightarrow> 0 < k \<Longrightarrow> hpar k = i \<Longrightarrow> \<not> lt (xs ! k) (xs ! i)"
    using less.prems(1) that unfolding sinking_def heap_from_def by metis
  show ?case
  proof (cases "?j1 \<ge> n")
    case True
    then show ?thesis using fin by (subst heap_down.simps) (auto simp: Let_def hpar_eq)
  next
    case False
    have best: "\<not> lt (xs ! k) (xs ! ?j)" if "k < n" "0 < k" "hpar k = i" for k
    proof -
      have "k = ?j1 \<or> k = ?j2" using that by (simp add: hpar_eq)
      then show ?thesis using irrefl[of "xs ! k"] asym[of "xs ! ?j1" "xs ! ?j2"] asym[of "xs ! ?j2" "xs ! ?j1"] that(1)
        by (cases "k = ?j1") simp_all
    qed
    show ?thesis
    proof (cases "lt (xs ! ?j) (xs ! i)")
      case True
      have j: "?j < n" "0 < ?j" "hpar ?j = i" "n - ?j < n - i" "lo \<le> ?j" using False less.prems(3) by auto
      have "sinking lo n (swap i ?j xs) ?j"
        by (rule sink_step[OF less.prems(1,2) j(1-3) less.prems(3) True best])
      then have "heap_from lt lo n (heap_down lt n (swap i ?j xs) ?j)"
        using less.hyps[OF j(4) _ _ j(5)] less.prems(2) by simp
      then show ?thesis using True heap_down_step[OF False refl, of xs] by simp
    next
      case nl: False
      then have "heap_down lt n xs i = xs" using heap_down_step[OF False refl, of xs] by simp
      moreover have "\<not> lt (xs ! k) (xs ! i)" if "k < n" "0 < k" "hpar k = i" for k
        using not_less_trans[OF best[OF that] nl] .
      ultimately show ?thesis using fin by simp
    qed
  qed
qed

lemma rise_step:
  assumes "rising n xs j" "n \<le> length xs" "j < n" "0 < j" "lt (xs ! j) (xs ! hpar j)"
  shows "rising n (swap (hpar j) j xs) (hpar j)"
  unfolding rising_def
proof (intro allI impI conjI)
  fix k assume k: "k < n" "0 < k"
  let ?i = "hpar j"
  have len: "?i < length xs" "j < length xs" "k < length xs" "hpar k < length xs" "?i \<noteq> j" "hpar k \<noteq> k" "hpar ?i \<le> ?i"
    using assms(2-4) k hpar_less[of k "length xs"] hpar_less[of j "length xs"] by auto
  have old: "\<not> lt (xs ! k) (xs ! hpar k)" if "k \<noteq> j" using assms(1) k that unfolding rising_def by blast
  show "\<not> lt (swap ?i j xs ! k) (swap ?i j xs ! hpar k)" if "k \<noteq> ?i"
  proof (cases "k = j")
    case True
    then show ?thesis using len asym[OF assms(5)] by auto
  next
    case False
    have "\<not> lt (xs ! k) (xs ! ?i)" if "hpar k = j" using assms(1,4) k that unfolding rising_def by blast
    moreover have "\<not> lt (xs ! k) (xs ! j)" if "hpar k = ?i"
      using not_less_trans[OF _ asym[OF assms(5)], of "xs ! k"] old[OF False] that by simp
    ultimately show ?thesis using len that False old[OF False] by auto
  qed
  show "\<not> lt (swap ?i j xs ! k) (swap ?i j xs ! hpar ?i)" if "hpar k = ?i \<and> 0 < ?i"
  proof -
    have i: "\<not> lt (xs ! ?i) (xs ! hpar ?i)" "hpar ?i < ?i" "hpar ?i \<noteq> j"
      using assms(1,3,4) that len hpar_simps(2)[of ?i] hpar_simps(2)[of j] unfolding rising_def by (metis order.strict_trans less_irrefl)+
    have "\<not> lt (xs ! k) (xs ! hpar ?i)" if "k \<noteq> j"
      using not_less_trans[OF old[OF that]] i(1) \<open>hpar k = ?i \<and> 0 < ?i\<close> by simp
    moreover have "\<not> lt (xs ! ?i) (xs ! hpar ?i)" by (rule i(1))
    moreover have "k \<noteq> ?i" "hpar ?i < length xs" using that len i by auto
    moreover have "swap ?i j xs ! k = (if k = j then xs ! ?i else xs ! k)" "swap ?i j xs ! hpar ?i = xs ! hpar ?i"
      using len i \<open>k \<noteq> ?i\<close> \<open>hpar ?i < length xs\<close> by simp_all
    ultimately show ?thesis by simp
  qed
qed

lemma heap_up_ok:
  "rising (length xs) xs j \<Longrightarrow> j < length xs \<Longrightarrow> heap_ok lt (heap_up lt xs j)"
proof (induction j arbitrary: xs rule: less_induct)
  case (less j)
  show ?case
  proof (cases "j = 0 \<or> \<not> lt (xs ! j) (xs ! hpar j)")
    case True
    then have "heap_up lt xs j = xs" by (subst heap_up_unfold) auto
    moreover have "heap_ok lt xs" using less.prems True unfolding rising_def heap_from_def by (metis not_less_zero)
    ultimately show ?thesis by simp
  next
    case False
    then have j: "0 < j" "lt (xs ! j) (xs ! hpar j)" "hpar j < j" "hpar j \<noteq> j" by auto
    have "rising (length xs) (swap (hpar j) j xs) (hpar j)"
      by (rule rise_step[OF less.prems(1) order_refl less.prems(2) j(1,2)])
    then show ?thesis using less.IH[OF j(3), of "swap (hpar j) j xs"] j less.prems(2)
      by (subst heap_up_unfold) simp
  qed
qed

lemma heap_root: "heap_ok lt xs \<Longrightarrow> k < length xs \<Longrightarrow> \<not> lt (xs ! k) (xs ! 0)"
proof (induction k rule: less_induct)
  case (less k)
  show ?case
  proof (cases "k = 0")
    case False
    then have "\<not> lt (xs ! k) (xs ! hpar k)" using less.prems by (simp add: heap_from_def)
    moreover have "\<not> lt (xs ! hpar k) (xs ! 0)" using less.IH[of "hpar k"] less.prems False hpar_less by simp
    ultimately show ?thesis by (rule not_less_trans)
  qed (simp add: irrefl)
qed

lemma heap_Init_ok: "heap_ok lt (heap_Init lt xs)" "mset (heap_Init lt xs) = mset xs"
proof -
  have "heap_ok lt (heap_init_from lt k ys)" if "heap_from lt k (length ys) ys" for k ys
    using that
  proof (induction k arbitrary: ys)
    case (Suc k)
    have "sinking k (length ys) ys k"
      unfolding sinking_def
    proof (intro allI impI conjI)
      fix j assume j: "j < length ys" "0 < j \<and> k \<le> hpar j"
      show "\<not> lt (ys ! j) (ys ! hpar j)" if "hpar j \<noteq> k" using Suc.prems j that by (simp add: heap_from_def)
      show "\<not> lt (ys ! j) (ys ! hpar k)" if "hpar j = k \<and> 0 < k \<and> k \<le> hpar k" using that hpar_simps(2)[of k] by linarith
    qed
    then show ?case using Suc.IH[of "heap_down lt (length ys) ys k"] heap_down_ok[of k "length ys" ys k] by simp
  qed simp
  moreover have "heap_from lt (length xs div 2) (length xs) xs" by (auto simp: heap_from_def hpar_def)
  ultimately show "heap_ok lt (heap_Init lt xs)" by (simp add: heap_Init_def)
qed (simp add: heap_Init_def)

lemma heap_Push_ok:
  "heap_ok lt xs \<Longrightarrow> heap_ok lt (heap_Push lt xs x)" "mset (heap_Push lt xs x) = add_mset x (mset xs)"
proof -
  assume ok: "heap_ok lt xs"
  have "rising (length (xs @ [x])) (xs @ [x]) (length xs)"
    unfolding rising_def
  proof (intro allI impI conjI)
    fix k assume k: "k < length (xs @ [x])" "0 < k"
    show "\<not> lt ((xs @ [x]) ! k) ((xs @ [x]) ! hpar k)" if "k \<noteq> length xs"
      using ok k that hpar_less[of k "length xs"] by (simp add: heap_from_def nth_append)
    show "\<not> lt ((xs @ [x]) ! k) ((xs @ [x]) ! hpar (length xs))" if "hpar k = length xs \<and> 0 < length xs"
      using k that hpar_simps(2)[of k] by simp
  qed
  then show "heap_ok lt (heap_Push lt xs x)" using heap_up_ok[of "xs @ [x]" "length xs"] by (simp add: heap_Push_def)
qed (simp add: heap_Push_def)

text \<open>A popped item comes before all the others: none of them is strictly better.\<close>

lemma heap_Pop_ok:
  assumes "heap_ok lt xs" "xs \<noteq> []"
  shows "\<exists>x ys. heap_Pop lt xs = Some (x, ys) \<and> heap_ok lt ys \<and> mset xs = add_mset x (mset ys) \<and> (\<forall>y \<in> set xs. \<not> lt y x)"
proof -
  let ?n = "length xs - 1"
  let ?ys = "heap_down lt ?n (swap 0 ?n xs) 0"
  have n: "?n < length xs" "0 < length xs" using assms(2) by auto
  have "sinking 0 ?n (swap 0 ?n xs) 0"
    unfolding sinking_def
  proof (intro allI impI conjI)
    fix k assume k: "k < ?n" "0 < k \<and> 0 \<le> hpar k"
    then have "hpar k < ?n" by (simp add: hpar_less)
    then show "\<not> lt (swap 0 ?n xs ! k) (swap 0 ?n xs ! hpar k)" if "hpar k \<noteq> 0"
      using assms(1) n k that by (simp add: heap_from_def)
  qed simp
  then have ok: "heap_from lt 0 ?n ?ys" using heap_down_ok[of 0 ?n "swap 0 ?n xs" 0] by simp
  have ne: "?ys \<noteq> []" using n by (metis length_heap_down length_greater_0_conv swap_simps(1))
  have "last ?ys = ?ys ! ?n" using ne by (simp add: last_conv_nth)
  also have "\<dots> = swap 0 ?n xs ! ?n" using n by (subst heap_down_beyond) auto
  also have "\<dots> = xs ! 0" using n by (subst swap_simps(2)) auto
  finally have last: "last ?ys = xs ! 0" .
  have "heap_ok lt (butlast ?ys)"
    using ok unfolding heap_from_def by (auto simp: nth_butlast hpar_less)
  moreover have "mset xs = add_mset (last ?ys) (mset (butlast ?ys))"
  proof -
    have "mset ?ys = mset xs" using n by simp
    then show ?thesis using append_butlast_last_id[OF ne] by (metis add_mset_add_single mset_append mset_single_iff)
  qed
  moreover have "\<forall>y \<in> set xs. \<not> lt y (last ?ys)" using heap_root[OF assms(1)] last by (auto simp: in_set_conv_nth)
  moreover have "heap_Pop lt xs = Some (last ?ys, butlast ?ys)" using assms(2) by (simp add: heap_Pop_def Let_def)
  ultimately show ?thesis by blast
qed

end

section \<open>The queue of the generator\<close>

type_synonym pid = nat

text \<open>A \<open>nil\<close> map of dependencies is \<open>None\<close>.  Priorities are \<open>float64\<close> values.\<close>

record txPrioItem =
  pi_tx :: MsgTx
  pi_fee :: int
  pi_priority :: real
  pi_feePerKB :: int
  dependsOn :: "hash list option"

type_synonym lessFunc = "txPrioItem list \<Rightarrow> pid \<Rightarrow> pid \<Rightarrow> bool"

record txPriorityQueue =
  pq_lessFunc :: lessFunc
  pq_items :: "pid list"

definition pq_Len :: "txPriorityQueue \<Rightarrow> nat" where "pq_Len pq = length (pq_items pq)"

definition SetLessFunc :: "txPrioItem list \<Rightarrow> lessFunc \<Rightarrow> txPriorityQueue \<Rightarrow> txPriorityQueue" where
  "SetLessFunc mem f pq = pq\<lparr>pq_lessFunc := f, pq_items := heap_Init (f mem) (pq_items pq)\<rparr>"

definition txPQByPriority :: lessFunc where
  "txPQByPriority mem i j \<longleftrightarrow>
    (if pi_priority (mem ! i) = pi_priority (mem ! j) then pi_feePerKB (mem ! i) > pi_feePerKB (mem ! j)
     else pi_priority (mem ! i) > pi_priority (mem ! j))"

definition txPQByFee :: lessFunc where
  "txPQByFee mem i j \<longleftrightarrow>
    (if pi_feePerKB (mem ! i) = pi_feePerKB (mem ! j) then pi_priority (mem ! i) > pi_priority (mem ! j)
     else pi_feePerKB (mem ! i) > pi_feePerKB (mem ! j))"

definition newTxPriorityQueue :: "bool \<Rightarrow> txPriorityQueue" where
  "newTxPriorityQueue sortByFee =
    SetLessFunc [] (if sortByFee then txPQByFee else txPQByPriority) \<lparr>pq_lessFunc = (\<lambda>_ _ _. False), pq_items = []\<rparr>"

definition pq_Push :: "txPrioItem list \<Rightarrow> txPriorityQueue \<Rightarrow> pid \<Rightarrow> txPriorityQueue" where
  "pq_Push mem pq x = pq\<lparr>pq_items := heap_Push (pq_lessFunc pq mem) (pq_items pq) x\<rparr>"

definition pq_Pop :: "txPrioItem list \<Rightarrow> txPriorityQueue \<Rightarrow> (pid \<times> txPriorityQueue) option" where
  "pq_Pop mem pq = map_option (\<lambda>(x, xs). (x, pq\<lparr>pq_items := xs\<rparr>)) (heap_Pop (pq_lessFunc pq mem) (pq_items pq))"

interpretation by_fee: heap_order "txPQByFee mem" for mem
  by unfold_locales (auto simp: txPQByFee_def split: if_splits)

interpretation by_priority: heap_order "txPQByPriority mem" for mem
  by unfold_locales (auto simp: txPQByPriority_def split: if_splits)

end
