(* ===== verification/Mining.thy ===== *)
theory Mining
  imports Mining_Queue Mempool Chain_Query "HOL-Library.While_Combinator"
begin

text \<open>
  The block template generator (mining/mining.go, mining/policy.go): it collects the transactions of a source,
  orders them by dependency and priority, and selects those that fit into a block on top of the best chain.

  The items that several maps and the queue share live in a store, \<open>tm_mem\<close>.  The maps of dependencies are
  association lists; the order in which Go visits one of them is a parameter, \<open>range_order\<close>.  The selection loop
  is a \<open>while_option\<close>, so that a loop that does not return is \<open>None\<close>.  The source is read at one point in time,
  as are the clock and the chain.  The logging functions and the block weight that is only logged are left out.
\<close>

section \<open>Data\<close>

text \<open>Policy of the generator.\<close>

record mining_Policy =
  BlockMinWeight :: uint32
  BlockMaxWeight :: uint32
  BlockMinSize :: uint32
  BlockMaxSize :: uint32
  BlockPrioritySize :: uint32
  TxMinFreeFee :: int

text \<open>
  The addresses of package \<open>address\<close> that the code tells apart, with the bytes their method \<open>ScriptAddress\<close> returns.
\<close>

datatype Address =
    AddressPubKeyHash "byte list"
  | AddressScriptHash "byte list"
  | AddressSegWit "byte list"
  | AddressPubKey "byte list"
  | OtherAddress

text \<open>The source of transactions: the answers of its methods \<open>MiningDescs\<close> and \<open>HaveTransaction\<close>.\<close>

record TxSource =
  src_MiningDescs :: "TxDesc list"
  src_HaveTransaction :: "hash \<Rightarrow> bool"

text \<open>
  The generator.  \<open>GenesisAddress\<close>, \<open>BurnFees\<close> and \<open>ReduceMinDifficulty\<close> are fields of the chain parameters that only
  this package reads; the two functions for decoding addresses are \<open>address.DecodeAddress\<close> with the parameters of
  the generator and with those of the main network.  The fields after them belong to the packages \<open>nogoutil\<close> and
  \<open>wire\<close>, and \<open>g_rnd\<close> rounds to a \<open>float64\<close>.
\<close>

record BlkTmplGenerator =
  g_policy :: mining_Policy
  g_chainParams :: Params
  g_txSource :: TxSource
  GenesisAddress :: string
  BurnFees :: bool
  ReduceMinDifficulty :: bool
  DecodeAddress :: "string \<Rightarrow> error + Address"
  DecodeAddress_MainNet :: "string \<Rightarrow> error + Address"
  SatoshiPerBitcoin :: real
  MaxBlockHeaderPayload :: int
  MaxVarIntPayload :: int
  TxVersion :: int
  MaxPrevOutIndex :: uint32
  MaxTxInSequenceNum :: uint32
  AddTransaction :: "MsgTx list \<Rightarrow> MsgTx \<Rightarrow> error + MsgTx list"
  g_rnd :: "real \<Rightarrow> real"
  range_order :: "(hash \<times> pid) list \<Rightarrow> (hash \<times> pid) list"

record BlockTemplate =
  bt_Header :: BlockHeader
  bt_Transactions :: "MsgTx list"
  bt_Fees :: "int list"
  bt_SigOpCosts :: "int list"
  bt_Height :: int
  ValidPayAddress :: bool
  WitnessCommitment :: "byte list option"

definition CoinbaseFlags :: "byte list" where
  "CoinbaseFlags = map of_char ''/NogoPow/nogocore/''"

definition mining_MinHighPriority :: "BlkTmplGenerator \<Rightarrow> real" where
  "mining_MinHighPriority g = g_rnd g (SatoshiPerBitcoin g * 144 / 250)"

definition blockHeaderOverhead :: "BlkTmplGenerator \<Rightarrow> int" where
  "blockHeaderOverhead g = MaxBlockHeaderPayload g + MaxVarIntPayload g"

section \<open>Views\<close>

definition merge_entry :: "OutPoint \<times> UtxoEntry option \<Rightarrow> UtxoViewpoint \<Rightarrow> UtxoViewpoint" where
  "merge_entry = (\<lambda>(outp, entryB) viewA.
    case map_of (entries viewA) outp of
      Some (Some entryA) \<Rightarrow> if IsSpent entryA then set_entry outp entryB viewA else viewA
    | _ \<Rightarrow> set_entry outp entryB viewA)"

definition mergeUtxoView :: "UtxoViewpoint \<Rightarrow> UtxoViewpoint \<Rightarrow> UtxoViewpoint" where
  "mergeUtxoView viewA viewB = fold merge_entry (entries viewB) viewA"

definition spend_input :: "TxIn \<Rightarrow> UtxoViewpoint \<Rightarrow> UtxoViewpoint" where
  "spend_input txIn view =
    (case LookupEntry view (PreviousOutPoint txIn) of
       None \<Rightarrow> view
     | Some entry \<Rightarrow> set_entry (PreviousOutPoint txIn) (Some (Spend entry)) view)"

definition spendTransaction :: "wire_lib \<Rightarrow> UtxoViewpoint \<Rightarrow> MsgTx \<Rightarrow> int \<Rightarrow> UtxoViewpoint" where
  "spendTransaction L utxoView tx height = AddTxOuts L tx height (fold spend_input (tx_TxIn tx) utxoView)"

section \<open>The coinbase\<close>

text \<open>Negating the smallest number overflows, the loop then appends nothing and the access to the last byte panics.\<close>

definition serializeScriptNum :: "int \<Rightarrow> error + byte list" where
  "serializeScriptNum n =
    (if n = 0 then Inr [0x00]
     else if n \<ge> 1 \<and> n \<le> 16 then Inr [word_of_int (0x50 + n)]
     else let negative = n < 0;
              n = (if negative then i64 (- n) else n);
              buf = height_bytes (nat n)
          in if buf = [] then Inl Panic
             else let buf = (if last buf AND 0x80 \<noteq> 0 then buf @ [0x00] else buf);
                      buf = (if negative then butlast buf @ [last buf OR 0x80] else buf)
                  in Inr (of_nat (length buf) # buf))"

definition standardCoinbaseScript :: "int \<Rightarrow> uint64 \<Rightarrow> error + byte list" where
  "standardCoinbaseScript nextBlockHeight extraNonce =
    bindE (serializeScriptNum nextBlockHeight) (\<lambda>heightBytes.
      Inr (heightBytes @ [0x00] @ [of_nat (length CoinbaseFlags)] @ CoinbaseFlags))"

text \<open>The bytes of \<open>src\<close> copied into \<open>n\<close> zero bytes.\<close>

definition copied :: "nat \<Rightarrow> byte list \<Rightarrow> byte list" where
  "copied n src = take n src @ replicate (n - length src) 0"

definition payToAddrScriptMining :: "Address \<Rightarrow> error + byte list" where
  "payToAddrScriptMining addr =
    (case addr of
       AddressPubKeyHash a \<Rightarrow> Inr ([0x76, 0xa9, 0x14] @ copied 20 a @ [0x88, 0xac])
     | AddressScriptHash a \<Rightarrow> Inr ([0xa9, 0x14] @ copied 20 a @ [0x87])
     | AddressSegWit witnessProgram \<Rightarrow> Inr ([0x00, of_nat (length witnessProgram)] @ witnessProgram)
     | AddressPubKey a \<Rightarrow> Inr ([0x21] @ copied 33 a @ [0xac])
     | OtherAddress \<Rightarrow> Inl CalleeError)"

text \<open>The genesis share is left out when its address decodes on neither network.\<close>

definition genesis_output :: "BlkTmplGenerator \<Rightarrow> int \<Rightarrow> error + TxOut list" where
  "genesis_output g genesisShare =
    (if GenesisAddress g \<noteq> [] \<and> genesisShare > 0
     then case (case DecodeAddress g (GenesisAddress g) of
                  Inl _ \<Rightarrow> DecodeAddress_MainNet g (GenesisAddress g)
                | Inr a \<Rightarrow> Inr a) of
            Inl _ \<Rightarrow> Inr []
          | Inr genesisAddr \<Rightarrow>
              bindE (payToAddrScriptMining genesisAddr) (\<lambda>genesisPkScript.
                Inr [\<lparr>Value = genesisShare, PkScript = genesisPkScript\<rparr>])
     else Inr [])"

definition createCoinbaseTx :: "BlkTmplGenerator \<Rightarrow> byte list \<Rightarrow> int \<Rightarrow> Address option \<Rightarrow> error + MsgTx" where
  "createCoinbaseTx g coinbaseScript nextBlockHeight addr =
    (let minerSubsidy = CalcMinerSubsidy nextBlockHeight (g_chainParams g);
         genesisShare = CalcGenesisShare nextBlockHeight (g_chainParams g)
     in bindE (case addr of Some a \<Rightarrow> payToAddrScriptMining a | None \<Rightarrow> Inr [0x51]) (\<lambda>pkScript.
        bindE (genesis_output g genesisShare) (\<lambda>genesisOut.
          Inr \<lparr>tx_Version = TxVersion g,
               tx_TxIn = [\<lparr>PreviousOutPoint = \<lparr>op_Hash = zeroHash, op_Index = MaxPrevOutIndex g\<rparr>,
                           SignatureScript = coinbaseScript, Witness = [], Sequence = MaxTxInSequenceNum g\<rparr>],
               tx_TxOut = \<lparr>Value = minerSubsidy, PkScript = pkScript\<rparr> # genesisOut,
               LockTime = 0\<rparr>)))"

text \<open>The coinbase and the commitment; the merkle root is that of the block with the coinbase's witness set.\<close>

definition AddWitnessCommitment :: "wire_lib \<Rightarrow> MsgTx \<Rightarrow> MsgTx list \<Rightarrow> error + MsgTx \<times> byte list" where
  "AddWitnessCommitment L coinbaseTx others =
    (case tx_TxIn coinbaseTx of
       [] \<Rightarrow> Inl Panic
     | txIn # txIns \<Rightarrow>
         let witnessNonce = replicate CoinbaseWitnessDataLen 0;
             coinbaseTx = coinbaseTx\<lparr>tx_TxIn := txIn\<lparr>Witness := [witnessNonce]\<rparr> # txIns\<rparr>
         in case CalcMerkleRoot L (coinbaseTx # others) True of
              None \<Rightarrow> Inl Panic
            | Some witnessMerkleRoot \<Rightarrow>
                let witnessPreimage = witnessMerkleRoot @ witnessNonce;
                    witnessCommitment = DoubleHash L witnessPreimage;
                    witnessScript = WitnessMagicBytes @ witnessCommitment
                in Inr (coinbaseTx\<lparr>tx_TxOut := tx_TxOut coinbaseTx @ [\<lparr>Value = 0, PkScript = witnessScript\<rparr>]\<rparr>,
                        witnessCommitment))"

section \<open>Times\<close>

definition MinimumMedianTime :: "BestState \<Rightarrow> int" where
  "MinimumMedianTime chainState = st_MedianTime chainState + 1000000000"

definition medianAdjustedTime :: "BestState \<Rightarrow> int \<Rightarrow> int" where
  "medianAdjustedTime chainState adjustedTime =
    (let newTimestamp = adjustedTime; minTimestamp = MinimumMedianTime chainState
     in if newTimestamp < minTimestamp then minTimestamp else newTimestamp)"

section \<open>Collecting the transactions\<close>

text \<open>The local variables of \<open>NewBlockTemplate\<close> that the two loops change.\<close>

record tmpl_state =
  tm_mem :: "txPrioItem list"
  priorityQueue :: txPriorityQueue
  dependers :: "(hash \<times> (hash \<times> pid) list) list"
  blockTxns :: "MsgTx list"
  blockUtxos :: UtxoViewpoint
  blockWeight :: uint32
  blockSigOpCost :: int
  totalFees :: int
  txFees :: "int list"
  txSigOpCosts :: "int list"
  sortedByFee :: bool
  witnessIncluded :: bool

definition deps_of :: "(hash \<times> (hash \<times> pid) list) list \<Rightarrow> hash \<Rightarrow> (hash \<times> pid) list" where
  "deps_of ds h = (case map_of ds h of None \<Rightarrow> [] | Some d \<Rightarrow> d)"

text \<open>One dependency of the item \<open>p\<close>, whose transaction has the hash \<open>h\<close>.\<close>

definition add_dep :: "hash \<Rightarrow> pid \<Rightarrow> hash \<Rightarrow> tmpl_state \<Rightarrow> tmpl_state" where
  "add_dep h p originHash st =
    (let prioItem = tm_mem st ! p;
         dependsOn' = (case dependsOn prioItem of None \<Rightarrow> [originHash] | Some d \<Rightarrow> List.insert originHash d)
     in st\<lparr>dependers := AList.update originHash (AList.update h p (deps_of (dependers st) originHash)) (dependers st),
           tm_mem := (tm_mem st)[p := prioItem\<lparr>dependsOn := Some dependsOn'\<rparr>]\<rparr>)"

text \<open>The loop over the inputs; \<open>False\<close> when the transaction is skipped.\<close>

fun link_inputs :: "(hash \<Rightarrow> bool) \<Rightarrow> UtxoViewpoint \<Rightarrow> hash \<Rightarrow> pid \<Rightarrow> TxIn list \<Rightarrow> tmpl_state \<Rightarrow> bool \<times> tmpl_state" where
  "link_inputs have_tx fetched h p [] st = (True, st)"
| "link_inputs have_tx fetched h p (txIn # txIns) st =
    (let originHash = op_Hash (PreviousOutPoint txIn)
     in if (case LookupEntry fetched (PreviousOutPoint txIn) of None \<Rightarrow> True | Some entry \<Rightarrow> IsSpent entry)
        then if \<not> have_tx originHash then (False, st)
             else link_inputs have_tx fetched h p txIns (add_dep h p originHash st)
        else link_inputs have_tx fetched h p txIns st)"

text \<open>What is done with a transaction once the outputs it refers to are fetched.\<close>

definition enter_tx :: "BlkTmplGenerator \<Rightarrow> wire_lib \<Rightarrow> int \<Rightarrow> TxDesc \<Rightarrow> UtxoViewpoint \<Rightarrow> tmpl_state \<Rightarrow> tmpl_state" where
  "enter_tx g L nextBlockHeight txDesc fetched st =
    (let tx = td_Tx txDesc; p = length (tm_mem st);
         st = st\<lparr>tm_mem := tm_mem st @ [\<lparr>pi_tx = tx, pi_fee = 0, pi_priority = 0, pi_feePerKB = 0, dependsOn = None\<rparr>]\<rparr>
     in case link_inputs (src_HaveTransaction (g_txSource g)) fetched (TxHash L tx) p (tx_TxIn tx) st of
          (False, st) \<Rightarrow> st
        | (True, st) \<Rightarrow>
            let prioItem = (tm_mem st ! p)\<lparr>pi_priority := CalcPriority L (g_rnd g) tx fetched nextBlockHeight,
                  pi_feePerKB := FeePerKB txDesc, pi_fee := td_Fee txDesc\<rparr>;
                st = st\<lparr>tm_mem := (tm_mem st)[p := prioItem]\<rparr>;
                st = (if dependsOn prioItem = None then st\<lparr>priorityQueue := pq_Push (tm_mem st) (priorityQueue st) p\<rparr> else st)
            in st\<lparr>blockUtxos := mergeUtxoView (blockUtxos st) fetched\<rparr>)"

definition fetch_view :: "('pk, 'b, 'bl) chain_env \<Rightarrow> MsgTx \<Rightarrow> (('b, 'bl) BlockChain, UtxoViewpoint) comp" where
  "fetch_view env tx s =
    (case Utxo_Cache.FetchUtxoView (e_log2 env) (e_keys env) (e_bucket env) (e_wire env) (utxoBucket (cdb s)) tx (utxos s) of
       Inl e \<Rightarrow> Some (Inl e, s)
     | Inr (cache, view) \<Rightarrow> Some (Inr view, s\<lparr>utxos := cache\<rparr>))"

definition consider_tx ::
  "BlkTmplGenerator \<Rightarrow> ('pk, 'b, 'bl) chain_env \<Rightarrow> int \<Rightarrow> TxDesc \<Rightarrow> tmpl_state \<Rightarrow> (('b, 'bl) BlockChain, tmpl_state) comp" where
  "consider_tx g env nextBlockHeight txDesc st =
    (if IsCoinBase (td_Tx txDesc) then retC st
     else if \<not> IsFinalizedTransaction (td_Tx txDesc) nextBlockHeight (AdjustedTime env) then retC st
     else bindC (tryC (fetch_view env (td_Tx txDesc))) (\<lambda>r.
       case r of
         Inl e \<Rightarrow> if e = Panic then failC Panic else retC st
       | Inr fetched \<Rightarrow> retC (enter_tx g (e_wire env) nextBlockHeight txDesc fetched st)))"

section \<open>Selecting the transactions\<close>

definition witness_coinbase :: "MsgTx \<Rightarrow> MsgTx" where
  "witness_coinbase coinbaseTx =
    coinbaseTx\<lparr>tx_TxIn := (case tx_TxIn coinbaseTx of [] \<Rightarrow> []
        | txIn # txIns \<Rightarrow> txIn\<lparr>Witness := [replicate CoinbaseWitnessDataLen 97]\<rparr> # txIns),
      tx_TxOut := tx_TxOut coinbaseTx @ [\<lparr>Value = 0, PkScript = replicate CoinbaseWitnessPkScriptLength 97\<rparr>]\<rparr>"

definition weightDiff :: "wire_lib \<Rightarrow> MsgTx \<Rightarrow> int" where
  "weightDiff L coinbaseTx = i64 (GetTransactionWeight L (witness_coinbase coinbaseTx) - GetTransactionWeight L coinbaseTx)"

definition validateTxScriptsMining :: "MsgTx \<Rightarrow> error + unit" where
  "validateTxScriptsMining tx =
    (if length (tx_TxIn tx) = 0 then Inl CalleeError
     else if list_ex (\<lambda>txOut. Value txOut < 0) (tx_TxOut tx) then Inl CalleeError
     else Inr ())"

text \<open>One more transaction is in the block, so the items that waited for it may enter the queue.\<close>

definition release :: "hash \<Rightarrow> hash \<times> pid \<Rightarrow> tmpl_state \<Rightarrow> tmpl_state" where
  "release h = (\<lambda>(_, p) st.
    let item = tm_mem st ! p;
        dependsOn' = map_option (removeAll h) (dependsOn item);
        st = st\<lparr>tm_mem := (tm_mem st)[p := item\<lparr>dependsOn := dependsOn'\<rparr>]\<rparr>
    in if (case dependsOn' of None \<Rightarrow> True | Some d \<Rightarrow> d = [])
       then st\<lparr>priorityQueue := pq_Push (tm_mem st) (priorityQueue st) p\<rparr> else st)"

definition add_tx :: "BlkTmplGenerator \<Rightarrow> wire_lib \<Rightarrow> int \<Rightarrow> txPrioItem \<Rightarrow> uint32 \<Rightarrow> int \<Rightarrow> tmpl_state \<Rightarrow> tmpl_state" where
  "add_tx g L nextBlockHeight prioItem txWeight sigOpCost st =
    (let tx = pi_tx prioItem;
         deps = deps_of (dependers st) (TxHash L tx);
         st = st\<lparr>blockUtxos := spendTransaction L (blockUtxos st) tx nextBlockHeight,
                 blockTxns := blockTxns st @ [tx],
                 blockWeight := blockWeight st + txWeight,
                 blockSigOpCost := i64 (blockSigOpCost st + sigOpCost),
                 totalFees := i64 (totalFees st + pi_fee prioItem),
                 txFees := txFees st @ [pi_fee prioItem],
                 txSigOpCosts := txSigOpCosts st @ [sigOpCost]\<rparr>
     in fold (release (TxHash L tx)) (range_order g deps) st)"

text \<open>The checks of one item, after the limits on weight and signature operations.\<close>

definition admit :: "BlkTmplGenerator \<Rightarrow> wire_lib \<Rightarrow> int \<Rightarrow> pid \<Rightarrow> uint32 \<Rightarrow> int \<Rightarrow> tmpl_state \<Rightarrow> tmpl_state" where
  "admit g L nextBlockHeight p txWeight sigOpCost st =
    (let prioItem = tm_mem st ! p; tx = pi_tx prioItem; policy = g_policy g;
         blockPlusTxWeight = blockWeight st + txWeight;
         switch = (\<not> sortedByFee st \<and> (blockPlusTxWeight \<ge> BlockPrioritySize policy \<or> pi_priority prioItem \<le> mining_MinHighPriority g))
     in if sortedByFee st \<and> pi_feePerKB prioItem < TxMinFreeFee policy \<and> blockPlusTxWeight \<ge> BlockMinWeight policy then st
        else let st = (if switch then st\<lparr>sortedByFee := True,
                                         priorityQueue := SetLessFunc (tm_mem st) txPQByFee (priorityQueue st)\<rparr> else st)
        in if switch \<and> (blockPlusTxWeight > BlockPrioritySize policy \<or> pi_priority prioItem < mining_MinHighPriority g)
           then st\<lparr>priorityQueue := pq_Push (tm_mem st) (priorityQueue st) p\<rparr>
           else case CheckTransactionInputs L (g_chainParams g) tx nextBlockHeight (blockUtxos st) of
                  Inl _ \<Rightarrow> st
                | Inr _ \<Rightarrow>
                    case validateTxScriptsMining tx of
                      Inl _ \<Rightarrow> st
                    | Inr _ \<Rightarrow> add_tx g L nextBlockHeight prioItem txWeight sigOpCost st)"

definition choose_tx :: "BlkTmplGenerator \<Rightarrow> wire_lib \<Rightarrow> int \<Rightarrow> bool \<Rightarrow> MsgTx \<Rightarrow> tmpl_state \<Rightarrow> tmpl_state" where
  "choose_tx g L nextBlockHeight segwitActive coinbaseTx st =
    (case pq_Pop (tm_mem st) (priorityQueue st) of
       None \<Rightarrow> st
     | Some (p, queue) \<Rightarrow>
         let st = st\<lparr>priorityQueue := queue\<rparr>; tx = pi_tx (tm_mem st ! p)
         in if \<not> segwitActive \<and> HasWitness L tx then st
            else let st = (if segwitActive \<and> \<not> witnessIncluded st \<and> HasWitness L tx
                           then st\<lparr>blockWeight := blockWeight st + word_of_int (weightDiff L coinbaseTx), witnessIncluded := True\<rparr>
                           else st);
                     txWeight = word_of_int (GetTransactionWeight L tx);
                     blockPlusTxWeight = blockWeight st + txWeight
            in if blockPlusTxWeight < blockWeight st \<or> blockPlusTxWeight \<ge> BlockMaxWeight (g_policy g) then st
               else case GetSigOpCost tx False (blockUtxos st) True segwitActive of
                      Inl _ \<Rightarrow> st
                    | Inr sigOpCost \<Rightarrow>
                        if i64 (blockSigOpCost st + sigOpCost) < blockSigOpCost st
                           \<or> i64 (blockSigOpCost st + sigOpCost) > MaxBlockSigOpsCost then st
                        else admit g L nextBlockHeight p txWeight sigOpCost st)"

definition choose_loop ::
  "BlkTmplGenerator \<Rightarrow> wire_lib \<Rightarrow> int \<Rightarrow> bool \<Rightarrow> MsgTx \<Rightarrow> tmpl_state \<Rightarrow> tmpl_state option" where
  "choose_loop g L nextBlockHeight segwitActive coinbaseTx =
    while_option (\<lambda>st. pq_Len (priorityQueue st) > 0) (choose_tx g L nextBlockHeight segwitActive coinbaseTx)"

section \<open>The template\<close>

definition initial_state :: "BlkTmplGenerator \<Rightarrow> wire_lib \<Rightarrow> MsgTx \<Rightarrow> tmpl_state" where
  "initial_state g L coinbaseTx =
    (let coinbaseSigOpCost = i64 (CountSigOps coinbaseTx * int WitnessScaleFactor);
         sortByFee = (BlockPrioritySize (g_policy g) = 0)
     in \<lparr>tm_mem = [], priorityQueue = newTxPriorityQueue sortByFee, dependers = [], blockTxns = [coinbaseTx],
         blockUtxos = NewUtxoViewpoint,
         blockWeight = word_of_int (blockHeaderOverhead g * int WitnessScaleFactor + GetTransactionWeight L coinbaseTx),
         blockSigOpCost = coinbaseSigOpCost, totalFees = 0, txFees = [-1], txSigOpCosts = [coinbaseSigOpCost],
         sortedByFee = sortByFee, witnessIncluded = False\<rparr>)"

definition ThresholdState_of :: "('pk, 'b, 'bl) chain_env \<Rightarrow> nat \<Rightarrow> (('b, 'bl) BlockChain, ThresholdState) comp" where
  "ThresholdState_of env deploymentID = bindC (readC (\<lambda>s. tip (bestChain s))) (\<lambda>t. deployment_state env t deploymentID)"

definition CalcNextBlockVersion :: "('pk, 'b, 'bl) chain_env \<Rightarrow> (('b, 'bl) BlockChain, uint32) comp" where
  "CalcNextBlockVersion env s =
    map_option (\<lambda>(r, caches). (r, s\<lparr>deploymentCaches := caches\<rparr>))
      (calcNextBlockVersion (nodes s) (chainParams env) (Deployments env) (tip (bestChain s)) (deploymentCaches s))"

text \<open>The coinbase with the fees, when they are not burned, and the fees reported for it.\<close>

definition pay_fees :: "BlkTmplGenerator \<Rightarrow> int \<Rightarrow> MsgTx \<Rightarrow> int list \<Rightarrow> MsgTx \<times> int list" where
  "pay_fees g fees coinbaseTx feeList =
    (if \<not> BurnFees g
     then (coinbaseTx\<lparr>tx_TxOut := (case tx_TxOut coinbaseTx of [] \<Rightarrow> []
             | txOut # txOuts \<Rightarrow> txOut\<lparr>Value := i64 (Value txOut + fees)\<rparr> # txOuts)\<rparr>, feeList[0 := i64 (- fees)])
     else (coinbaseTx, feeList[0 := 0]))"

definition finish_template ::
  "BlkTmplGenerator \<Rightarrow> ('pk, 'b, 'bl) chain_env \<Rightarrow> BestState \<Rightarrow> Address option \<Rightarrow> tmpl_state \<Rightarrow> (('b, 'bl) BlockChain, BlockTemplate) comp" where
  "finish_template g env best payToAddress st =
    (let nextBlockHeight = i32 (st_Height best + 1); L = e_wire env;
         (coinbaseTx, fees) = pay_fees g (totalFees st) (hd (blockTxns st)) (txFees st);
         others = tl (blockTxns st)
     in bindC (liftE (if witnessIncluded st
                      then bindE (AddWitnessCommitment L coinbaseTx others) (\<lambda>(c, w). Inr (c, Some w))
                      else Inr (coinbaseTx, None))) (\<lambda>(coinbaseTx, witnessCommitment).
        let ts = medianAdjustedTime best (AdjustedTime env)
        in bindC (\<lambda>s. Some (CalcNextRequiredDifficulty env s (st_Hash best) ts, s)) (\<lambda>reqDifficulty.
           bindC (CalcNextBlockVersion env) (\<lambda>nextBlockVersion.
           bindC (liftE (case CalcMerkleRoot L (coinbaseTx # others) False of None \<Rightarrow> Inl Panic | Some r \<Rightarrow> Inr r)) (\<lambda>merkleRoot.
           let header = \<lparr>hVersion = sint nextBlockVersion, hPrevBlock = st_Hash best, hMerkleRoot = merkleRoot,
                 hTimestamp = ts, hBits = reqDifficulty, hNonce = 0\<rparr>
           in bindC (liftE (foldE (\<lambda>tx txs. AddTransaction g txs tx) (coinbaseTx # others) [])) (\<lambda>transactions.
              seqC (CheckConnectBlockTemplate env \<lparr>Header = header, Transactions = transactions, blk_Height = nextBlockHeight\<rparr>)
                (retC \<lparr>bt_Header = header, bt_Transactions = transactions, bt_Fees = fees, bt_SigOpCosts = txSigOpCosts st,
                   bt_Height = nextBlockHeight, ValidPayAddress = (payToAddress \<noteq> None), WitnessCommitment = witnessCommitment\<rparr>)))))))"

definition NewBlockTemplate ::
  "BlkTmplGenerator \<Rightarrow> ('pk, 'b, 'bl) chain_env \<Rightarrow> Address option \<Rightarrow> (('b, 'bl) BlockChain, BlockTemplate) comp" where
  "NewBlockTemplate g env payToAddress =
    bindC (readC BestSnapshot) (\<lambda>best.
    let nextBlockHeight = i32 (st_Height best + 1); L = e_wire env
    in bindC (liftE (standardCoinbaseScript nextBlockHeight 0)) (\<lambda>coinbaseScript.
       bindC (liftE (createCoinbaseTx g coinbaseScript nextBlockHeight payToAddress)) (\<lambda>coinbaseTx.
       bindC (foldC (consider_tx g env nextBlockHeight) (src_MiningDescs (g_txSource g)) (initial_state g L coinbaseTx)) (\<lambda>st.
       bindC (ThresholdState_of env (DeploymentSegwit (g_chainParams g))) (\<lambda>segwitState.
       bindC (runO (\<lambda>_. choose_loop g L nextBlockHeight (segwitState = ThresholdActive) coinbaseTx st)) (\<lambda>st.
       finish_template g env best payToAddress st))))))"

section \<open>Updates of a block that is being solved\<close>

definition UpdateBlockTime :: "BlkTmplGenerator \<Rightarrow> ('pk, 'b, 'bl) chain_env \<Rightarrow> Block \<Rightarrow> (('b, 'bl) BlockChain, Block) comp" where
  "UpdateBlockTime g env msgBlock =
    bindC (readC BestSnapshot) (\<lambda>best.
    let newTime = medianAdjustedTime best (AdjustedTime env);
        msgBlock = msgBlock\<lparr>Header := (Header msgBlock)\<lparr>hTimestamp := newTime\<rparr>\<rparr>
    in retC (if ReduceMinDifficulty g
             then msgBlock\<lparr>Header := (Header msgBlock)\<lparr>hBits := PowLimitBits (g_chainParams g)\<rparr>\<rparr> else msgBlock))"

definition UpdateExtraNonce :: "wire_lib \<Rightarrow> Block \<Rightarrow> int \<Rightarrow> uint64 \<Rightarrow> error + Block" where
  "UpdateExtraNonce L msgBlock height extraNonce =
    bindE (standardCoinbaseScript height extraNonce) (\<lambda>coinbaseScript.
      if length coinbaseScript > MaxCoinbaseScriptLen then Inl CalleeError
      else case Transactions msgBlock of
             [] \<Rightarrow> Inl Panic
           | coinbaseTx # others \<Rightarrow>
               case tx_TxIn coinbaseTx of
                 [] \<Rightarrow> Inl Panic
               | txIn # txIns \<Rightarrow>
                   let txs = coinbaseTx\<lparr>tx_TxIn := txIn\<lparr>SignatureScript := coinbaseScript\<rparr> # txIns\<rparr> # others
                   in case CalcMerkleRoot L txs False of
                        None \<Rightarrow> Inl Panic
                      | Some merkleRoot \<Rightarrow>
                          Inr (msgBlock\<lparr>Transactions := txs, Header := (Header msgBlock)\<lparr>hMerkleRoot := merkleRoot\<rparr>\<rparr>))"

section \<open>The memory pool as a source\<close>

definition MiningDescs :: "TxPool \<Rightarrow> TxDesc list" where
  "MiningDescs mp = map snd (pool mp)"

definition pool_source :: "TxPool \<Rightarrow> TxSource" where
  "pool_source mp = \<lparr>src_MiningDescs = MiningDescs mp, src_HaveTransaction = haveTransaction mp\<rparr>"

end
