(* ===== verification/Mining_Select.thy ===== *)
theory Mining_Select
  imports Mining
begin

text \<open>
  The selection loop of the block template generator.  \<open>sel_ok\<close> ties the queue, the store of items and the maps of
  dependencies together; with it the loop ends after finitely many steps, because every step takes an item out of
  the queue for good, or releases items that waited, or switches the order once.  \<open>replay\<close> is the specification
  of what is selected: transactions that can be applied one after the other to the view of the chain.
\<close>

section \<open>The queue\<close>

definition same_prios :: "txPrioItem list \<Rightarrow> txPrioItem list \<Rightarrow> pid list \<Rightarrow> bool" where
  "same_prios mem mem' ps \<longleftrightarrow> (\<forall>p \<in> set ps. pi_priority (mem' ! p) = pi_priority (mem ! p) \<and> pi_feePerKB (mem' ! p) = pi_feePerKB (mem ! p))"

definition pq_ok :: "txPrioItem list \<Rightarrow> txPriorityQueue \<Rightarrow> bool" where
  "pq_ok mem pq \<longleftrightarrow> pq_lessFunc pq \<in> {txPQByFee, txPQByPriority} \<and> heap_ok (pq_lessFunc pq mem) (pq_items pq)"

lemma pq_ok_frame:
  assumes "pq_ok mem pq" "same_prios mem mem' (pq_items pq)"
  shows "pq_ok mem' pq"
proof -
  have "pq_lessFunc pq mem' x y = pq_lessFunc pq mem x y" if "x \<in> set (pq_items pq)" "y \<in> set (pq_items pq)" for x y
    using assms that by (auto simp: pq_ok_def same_prios_def txPQByFee_def txPQByPriority_def)
  then show ?thesis using assms(1) hpar_less by (auto simp: pq_ok_def heap_from_def)
qed

lemma pq_ok_new: "pq_ok [] (newTxPriorityQueue sortByFee)" "pq_items (newTxPriorityQueue sortByFee) = []"
  by (auto simp: pq_ok_def newTxPriorityQueue_def SetLessFunc_def heap_Init_def heap_from_def)

lemma pq_ok_SetLessFunc:
  "f \<in> {txPQByFee, txPQByPriority} \<Longrightarrow> pq_ok mem (SetLessFunc mem f pq)"
  "mset (pq_items (SetLessFunc mem f pq)) = mset (pq_items pq)"
  using by_fee.heap_Init_ok[of mem "pq_items pq"] by_priority.heap_Init_ok[of mem "pq_items pq"]
  by (auto simp: pq_ok_def SetLessFunc_def heap_Init_def)

lemma pq_ok_Push:
  "pq_ok mem pq \<Longrightarrow> pq_ok mem (pq_Push mem pq x)"
  "mset (pq_items (pq_Push mem pq x)) = add_mset x (mset (pq_items pq))"
  using by_fee.heap_Push_ok[of mem "pq_items pq" x] by_priority.heap_Push_ok[of mem "pq_items pq" x]
  by (auto simp: pq_ok_def pq_Push_def heap_Push_def)

lemma set_pq_Push [simp]: "set (pq_items (pq_Push mem pq x)) = insert x (set (pq_items pq))"
  using arg_cong[OF pq_ok_Push(2)[of mem pq x], of set_mset] by simp

lemma set_SetLessFunc [simp]: "set (pq_items (SetLessFunc mem f pq)) = set (pq_items pq)"
  using arg_cong[OF pq_ok_SetLessFunc(2)[of mem f pq], of set_mset] by simp

lemma distinct_pq_Push: "distinct (pq_items (pq_Push mem pq x)) \<longleftrightarrow> x \<notin> set (pq_items pq) \<and> distinct (pq_items pq)"
  using mset_eq_imp_distinct_iff[of "pq_items (pq_Push mem pq x)" "x # pq_items pq"] by (simp add: pq_ok_Push)

lemma distinct_SetLessFunc: "distinct (pq_items (SetLessFunc mem f pq)) \<longleftrightarrow> distinct (pq_items pq)"
  using mset_eq_imp_distinct_iff[OF pq_ok_SetLessFunc(2)[of mem f pq]] .

lemma length_queue [simp]:
  "length (pq_items (pq_Push mem pq x)) = Suc (length (pq_items pq))"
  "length (pq_items (SetLessFunc mem f pq)) = length (pq_items pq)"
  using arg_cong[OF pq_ok_Push(2)[of mem pq x], of "size"] arg_cong[OF pq_ok_SetLessFunc(2)[of mem f pq], of "size"] by simp_all

lemma pq_Pop_best:
  assumes "pq_ok mem pq" "pq_items pq \<noteq> []"
  shows "\<exists>x pq'. pq_Pop mem pq = Some (x, pq') \<and> pq_ok mem pq' \<and> pq_lessFunc pq' = pq_lessFunc pq
    \<and> mset (pq_items pq) = add_mset x (mset (pq_items pq')) \<and> (\<forall>y \<in> set (pq_items pq). \<not> pq_lessFunc pq mem y x)"
proof -
  have "\<exists>x ys. heap_Pop (pq_lessFunc pq mem) (pq_items pq) = Some (x, ys) \<and> heap_ok (pq_lessFunc pq mem) ys
      \<and> mset (pq_items pq) = add_mset x (mset ys) \<and> (\<forall>y \<in> set (pq_items pq). \<not> pq_lessFunc pq mem y x)"
    using assms by_fee.heap_Pop_ok[of mem "pq_items pq"] by_priority.heap_Pop_ok[of mem "pq_items pq"]
    by (auto simp: pq_ok_def)
  then show ?thesis using assms(1) by (fastforce simp: pq_Pop_def pq_ok_def)
qed

section \<open>Items that wait\<close>

definition needs :: "txPrioItem list \<Rightarrow> pid \<Rightarrow> hash set" where
  "needs mem p = (case dependsOn (mem ! p) of None \<Rightarrow> {} | Some d \<Rightarrow> set d)"

definition waiting :: "txPrioItem list \<Rightarrow> pid set" where
  "waiting mem = {p. p < length mem \<and> needs mem p \<noteq> {}}"

lemma finite_waiting [simp]: "finite (waiting mem)"
  by (rule finite_subset[of _ "{..<length mem}"]) (auto simp: waiting_def)

text \<open>Nothing but the dependencies of items differs.\<close>

definition same_items :: "txPrioItem list \<Rightarrow> txPrioItem list \<Rightarrow> bool" where
  "same_items mem mem' \<longleftrightarrow> map (dependsOn_update (\<lambda>_. None)) mem' = map (dependsOn_update (\<lambda>_. None)) mem"

lemma same_items_refl [simp]: "same_items mem mem" by (simp add: same_items_def)

lemma same_items_trans: "same_items a b \<Longrightarrow> same_items b c \<Longrightarrow> same_items a c" by (simp add: same_items_def)

lemma same_itemsD:
  assumes "same_items mem mem'"
  shows "length mem' = length mem"
    and "p < length mem \<Longrightarrow> pi_tx (mem' ! p) = pi_tx (mem ! p) \<and> pi_fee (mem' ! p) = pi_fee (mem ! p)
      \<and> pi_priority (mem' ! p) = pi_priority (mem ! p) \<and> pi_feePerKB (mem' ! p) = pi_feePerKB (mem ! p)"
proof -
  show len: "length mem' = length mem" using assms unfolding same_items_def by (metis length_map)
  assume p: "p < length mem"
  have "dependsOn_update (\<lambda>_. None) (mem' ! p) = dependsOn_update (\<lambda>_. None) (mem ! p)"
    using assms p len unfolding same_items_def by (metis nth_map)
  then show "pi_tx (mem' ! p) = pi_tx (mem ! p) \<and> pi_fee (mem' ! p) = pi_fee (mem ! p)
      \<and> pi_priority (mem' ! p) = pi_priority (mem ! p) \<and> pi_feePerKB (mem' ! p) = pi_feePerKB (mem ! p)"
    by (metis (no_types, lifting) txPrioItem.surjective txPrioItem.update_convs(5) txPrioItem.ext_inject)
qed

lemma same_items_update: "p < length mem \<Longrightarrow> same_items mem (mem[p := (mem ! p)\<lparr>dependsOn := d\<rparr>])"
  unfolding same_items_def by (rule nth_equalityI) (auto simp: nth_list_update)

lemma same_items_prios: "same_items mem mem' \<Longrightarrow> \<forall>p \<in> set ps. p < length mem \<Longrightarrow> same_prios mem mem' ps"
  using same_itemsD(2) by (auto simp: same_prios_def)

lemma needs_update:
  "p < length mem \<Longrightarrow> needs (mem[p := (mem ! p)\<lparr>dependsOn := d\<rparr>]) q = (if q = p then (case d of None \<Rightarrow> {} | Some d \<Rightarrow> set d) else needs mem q)"
  by (simp add: needs_def)

text \<open>
  Releasing the item \<open>p\<close> that waits for \<open>h\<close>: it enters the queue or goes on waiting.
\<close>

lemma release_spec:
  fixes st :: tmpl_state
  assumes "p < length (tm_mem st)" "h \<in> needs (tm_mem st) p"
  defines "mem' \<equiv> (tm_mem st)[p := (tm_mem st ! p)\<lparr>dependsOn := map_option (removeAll h) (dependsOn (tm_mem st ! p))\<rparr>]"
  shows "release h (k, p) st = st\<lparr>tm_mem := mem',
      priorityQueue := (if p \<in> waiting mem' then priorityQueue st else pq_Push mem' (priorityQueue st) p)\<rparr>"
    and "needs mem' q = (if q = p then needs (tm_mem st) p - {h} else needs (tm_mem st) q)"
    and "same_items (tm_mem st) mem'"
proof -
  obtain d where d: "dependsOn (tm_mem st ! p) = Some d" using assms(2) by (auto simp: needs_def split: option.splits)
  show n: "needs mem' q = (if q = p then needs (tm_mem st) p - {h} else needs (tm_mem st) q)" for q
    using assms(1) d by (auto simp: mem'_def needs_update needs_def)
  have "p \<in> waiting mem' \<longleftrightarrow> removeAll h d \<noteq> []"
    using assms(1) d by (auto simp: mem'_def waiting_def needs_update removeAll_filter_not_eq filter_empty_conv)
  then show "release h (k, p) st = st\<lparr>tm_mem := mem',
      priorityQueue := (if p \<in> waiting mem' then priorityQueue st else pq_Push mem' (priorityQueue st) p)\<rparr>"
    using d by (simp add: release_def Let_def mem'_def)
  show "same_items (tm_mem st) mem'" unfolding mem'_def by (rule same_items_update[OF assms(1)])
qed

text \<open>The queue holds items that do not wait, each of them once.\<close>

definition queue_ok :: "txPrioItem list \<Rightarrow> txPriorityQueue \<Rightarrow> bool" where
  "queue_ok mem q \<longleftrightarrow> pq_ok mem q \<and> distinct (pq_items q) \<and> (\<forall>x \<in> set (pq_items q). x < length mem \<and> x \<notin> waiting mem)"

definition load :: "txPrioItem list \<Rightarrow> txPriorityQueue \<Rightarrow> nat" where
  "load mem q = length (pq_items q) + card (waiting mem)"

lemma queue_ok_frame:
  assumes "queue_ok mem q" "same_items mem mem'" "waiting mem' \<subseteq> waiting mem"
  shows "queue_ok mem' q"
  using assms pq_ok_frame[of mem q mem'] same_items_prios[of mem mem' "pq_items q"] same_itemsD(1)[of mem mem']
  by (auto simp: queue_ok_def)

lemma release_keeps:
  fixes st :: tmpl_state
  assumes q: "queue_ok (tm_mem st) (priorityQueue st)" and p: "p < length (tm_mem st)" "h \<in> needs (tm_mem st) p"
  shows "\<exists>mem' q'. release h (k, p) st = st\<lparr>tm_mem := mem', priorityQueue := q'\<rparr> \<and> same_items (tm_mem st) mem'
    \<and> (\<forall>x. needs mem' x = (if x = p then needs (tm_mem st) p - {h} else needs (tm_mem st) x))
    \<and> queue_ok mem' q' \<and> load mem' q' = load (tm_mem st) (priorityQueue st)
    \<and> set (pq_items q') \<subseteq> insert p (set (pq_items (priorityQueue st)))"
proof -
  let ?mem = "tm_mem st" and ?q = "priorityQueue st"
  define mem' where "mem' = ?mem[p := (?mem ! p)\<lparr>dependsOn := map_option (removeAll h) (dependsOn (?mem ! p))\<rparr>]"
  note r = release_spec[OF p, folded mem'_def]
  have len: "length mem' = length ?mem" using same_itemsD(1)[OF r(3)] .
  have wait: "p \<in> waiting ?mem" using p by (auto simp: waiting_def)
  have sub: "waiting mem' \<subseteq> waiting ?mem" using r(2) len by (auto simp: waiting_def split: if_splits)
  have frame: "queue_ok mem' ?q" by (rule queue_ok_frame[OF q r(3) sub])
  show ?thesis
  proof (cases "p \<in> waiting mem'")
    case True
    then have "waiting mem' = waiting ?mem" using r(2) len by (auto simp: waiting_def split: if_splits)
    then show ?thesis using r frame True by (intro exI[of _ mem'] exI[of _ ?q]) (auto simp: load_def)
  next
    case False
    let ?q' = "pq_Push mem' ?q p"
    have "waiting ?mem = insert p (waiting mem')" using r(2) len wait by (auto simp: waiting_def split: if_splits)
    then have "card (waiting ?mem) = Suc (card (waiting mem'))" using False by simp
    moreover have "p \<notin> set (pq_items ?q)" using q wait by (auto simp: queue_ok_def)
    then have "queue_ok mem' ?q'"
      using frame pq_ok_Push(1)[of mem' ?q p] False p len by (auto simp: queue_ok_def distinct_pq_Push)
    ultimately show ?thesis using r False by (intro exI[of _ mem'] exI[of _ ?q']) (auto simp: load_def)
  qed
qed

lemma release_all:
  fixes st :: tmpl_state
  assumes "queue_ok (tm_mem st) (priorityQueue st)" "distinct (map snd ds)"
    and "\<And>k p. (k, p) \<in> set ds \<Longrightarrow> p < length (tm_mem st) \<and> h \<in> needs (tm_mem st) p"
  shows "\<exists>mem' q'. fold (release h) ds st = st\<lparr>tm_mem := mem', priorityQueue := q'\<rparr> \<and> same_items (tm_mem st) mem'
    \<and> (\<forall>x. needs mem' x = (if x \<in> snd ` set ds then needs (tm_mem st) x - {h} else needs (tm_mem st) x))
    \<and> queue_ok mem' q' \<and> load mem' q' = load (tm_mem st) (priorityQueue st)
    \<and> set (pq_items q') \<subseteq> snd ` set ds \<union> set (pq_items (priorityQueue st))"
  using assms
proof (induction ds arbitrary: st)
  case Nil
  then show ?case by (intro exI[of _ "tm_mem st"] exI[of _ "priorityQueue st"]) simp
next
  case (Cons d ds)
  obtain k p where d: "d = (k, p)" by (cases d)
  have p: "p < length (tm_mem st)" "h \<in> needs (tm_mem st) p" using Cons.prems(3)[of k p] d by auto
  obtain mem1 q1 where 1: "release h (k, p) st = st\<lparr>tm_mem := mem1, priorityQueue := q1\<rparr>" "same_items (tm_mem st) mem1"
      "\<And>x. needs mem1 x = (if x = p then needs (tm_mem st) p - {h} else needs (tm_mem st) x)"
      "queue_ok mem1 q1" "load mem1 q1 = load (tm_mem st) (priorityQueue st)"
      "set (pq_items q1) \<subseteq> insert p (set (pq_items (priorityQueue st)))"
    using release_keeps[OF Cons.prems(1) p, of k] by metis
  have fresh: "p \<notin> snd ` set ds" using Cons.prems(2) d by auto
  have "\<exists>mem' q'. fold (release h) ds (st\<lparr>tm_mem := mem1, priorityQueue := q1\<rparr>) = st\<lparr>tm_mem := mem', priorityQueue := q'\<rparr>
    \<and> same_items mem1 mem' \<and> (\<forall>x. needs mem' x = (if x \<in> snd ` set ds then needs mem1 x - {h} else needs mem1 x))
    \<and> queue_ok mem' q' \<and> load mem' q' = load mem1 q1 \<and> set (pq_items q') \<subseteq> snd ` set ds \<union> set (pq_items q1)"
  proof -
    have "\<And>k' p'. (k', p') \<in> set ds \<Longrightarrow> p' < length mem1 \<and> h \<in> needs mem1 p'"
      using Cons.prems(3) 1(2,3) fresh same_itemsD(1)[OF 1(2)] by (auto simp: image_iff)
    then show ?thesis
      using Cons.IH[of "st\<lparr>tm_mem := mem1, priorityQueue := q1\<rparr>"] 1(4) Cons.prems(2) by (simp cong: if_cong)
  qed
  then obtain mem' q' where 2: "fold (release h) ds (st\<lparr>tm_mem := mem1, priorityQueue := q1\<rparr>) = st\<lparr>tm_mem := mem', priorityQueue := q'\<rparr>"
    "same_items mem1 mem'" "\<And>x. needs mem' x = (if x \<in> snd ` set ds then needs mem1 x - {h} else needs mem1 x)"
    "queue_ok mem' q'" "load mem' q' = load mem1 q1" "set (pq_items q') \<subseteq> snd ` set ds \<union> set (pq_items q1)"
    by metis
  have "needs mem' x = (if x \<in> snd ` set (d # ds) then needs (tm_mem st) x - {h} else needs (tm_mem st) x)" for x
    using 2(3)[of x] 1(3)[of x] fresh d by auto
  moreover have "fold (release h) (d # ds) st = st\<lparr>tm_mem := mem', priorityQueue := q'\<rparr>" using 2(1) 1(1) d by simp
  moreover have "set (pq_items q') \<subseteq> snd ` set (d # ds) \<union> set (pq_items (priorityQueue st))"
    using 2(6) 1(6) d by auto
  ultimately show ?case
    using 2(4,5) 1(5) same_items_trans[OF 1(2) 2(2)] by (intro exI[of _ mem'] exI[of _ q']) auto
qed

section \<open>The invariant of the loop\<close>

definition chosen :: "wire_lib \<Rightarrow> tmpl_state \<Rightarrow> hash set" where
  "chosen L st = TxHash L ` set (tl (blockTxns st))"

definition item_hash :: "wire_lib \<Rightarrow> tmpl_state \<Rightarrow> pid \<Rightarrow> hash" where
  "item_hash L st p = TxHash L (pi_tx (tm_mem st ! p))"

text \<open>
  No two items have the same hash; an item registered under a hash waits for it until it is in the block; items in
  the block neither wait nor are in the queue.
\<close>

definition sel_ok :: "wire_lib \<Rightarrow> tmpl_state \<Rightarrow> bool" where
  "sel_ok L st \<longleftrightarrow> blockTxns st \<noteq> [] \<and> queue_ok (tm_mem st) (priorityQueue st)
    \<and> inj_on (item_hash L st) {..<length (tm_mem st)}
    \<and> (\<forall>h. distinct (map snd (deps_of (dependers st) h)))
    \<and> (\<forall>h k p. (k, p) \<in> set (deps_of (dependers st) h) \<longrightarrow> p < length (tm_mem st) \<and> h \<in> needs (tm_mem st) p \<union> chosen L st)
    \<and> (\<forall>p < length (tm_mem st). item_hash L st p \<in> chosen L st \<longrightarrow> p \<notin> waiting (tm_mem st) \<union> set (pq_items (priorityQueue st)))"

lemma sel_okD:
  assumes "sel_ok L st"
  shows "blockTxns st \<noteq> []" "queue_ok (tm_mem st) (priorityQueue st)"
    "inj_on (item_hash L st) {..<length (tm_mem st)}" "distinct (map snd (deps_of (dependers st) h))"
    "(k, p) \<in> set (deps_of (dependers st) h) \<Longrightarrow> p < length (tm_mem st) \<and> h \<in> needs (tm_mem st) p \<union> chosen L st"
    "p < length (tm_mem st) \<Longrightarrow> item_hash L st p \<in> chosen L st \<Longrightarrow> p \<notin> waiting (tm_mem st) \<union> set (pq_items (priorityQueue st))"
  using assms unfolding sel_ok_def by blast+

text \<open>The item that has just been taken out of the queue.\<close>

definition popped :: "wire_lib \<Rightarrow> tmpl_state \<Rightarrow> pid \<Rightarrow> bool" where
  "popped L st p \<longleftrightarrow> sel_ok L st \<and> p < length (tm_mem st) \<and> p \<notin> waiting (tm_mem st) \<union> set (pq_items (priorityQueue st))
    \<and> item_hash L st p \<notin> chosen L st"

definition steps_left :: "tmpl_state \<Rightarrow> nat" where
  "steps_left st = load (tm_mem st) (priorityQueue st) + (if sortedByFee st then 0 else 1)"

text \<open>What the invariant does not look at.\<close>

definition same_selection :: "tmpl_state \<Rightarrow> tmpl_state \<Rightarrow> bool" where
  "same_selection st st' \<longleftrightarrow> tm_mem st' = tm_mem st \<and> dependers st' = dependers st \<and> blockTxns st' = blockTxns st"

lemma same_selection_cong:
  "same_selection st st' \<Longrightarrow> chosen L st' = chosen L st" "same_selection st st' \<Longrightarrow> item_hash L st' = item_hash L st"
  by (auto simp: same_selection_def chosen_def item_hash_def fun_eq_iff)

lemma sel_ok_queue:
  assumes "sel_ok L st" "same_selection st st'" "queue_ok (tm_mem st) (priorityQueue st')"
    and "\<And>p. p \<in> set (pq_items (priorityQueue st')) \<Longrightarrow> p \<notin> set (pq_items (priorityQueue st)) \<Longrightarrow> item_hash L st p \<notin> chosen L st"
  shows "sel_ok L st'"
  using assms same_selection_cong[OF assms(2)] unfolding sel_ok_def same_selection_def by (auto 0 3)

lemma pop_item:
  assumes ok: "sel_ok L st" and ne: "pq_items (priorityQueue st) \<noteq> []"
  shows "\<exists>p q. pq_Pop (tm_mem st) (priorityQueue st) = Some (p, q) \<and> popped L (st\<lparr>priorityQueue := q\<rparr>) p
    \<and> Suc (steps_left (st\<lparr>priorityQueue := q\<rparr>)) = steps_left st"
proof -
  let ?q = "priorityQueue st"
  note q = sel_okD(2)[OF ok]
  obtain p q where pop: "pq_Pop (tm_mem st) ?q = Some (p, q)" "pq_ok (tm_mem st) q" "mset (pq_items ?q) = add_mset p (mset (pq_items q))"
    using pq_Pop_best[of "tm_mem st" ?q] q ne unfolding queue_ok_def by blast
  have "distinct (p # pq_items q)" using q pop(3) mset_eq_imp_distinct_iff[of "p # pq_items q" "pq_items ?q"] by (simp add: queue_ok_def)
  moreover have set: "set (pq_items ?q) = insert p (set (pq_items q))" using arg_cong[OF pop(3), of set_mset] by simp
  moreover have "length (pq_items ?q) = Suc (length (pq_items q))" using arg_cong[OF pop(3), of "size"] by simp
  ultimately have "queue_ok (tm_mem st) q" "p \<notin> set (pq_items q)" "p < length (tm_mem st)" "p \<notin> waiting (tm_mem st)"
      "Suc (steps_left (st\<lparr>priorityQueue := q\<rparr>)) = steps_left st"
    using q pop(2) by (auto simp: queue_ok_def steps_left_def load_def)
  moreover have "item_hash L st p \<notin> chosen L st" using sel_okD(6)[OF ok, of p] \<open>p < length (tm_mem st)\<close> set by blast
  moreover have "sel_ok L (st\<lparr>priorityQueue := q\<rparr>)"
    by (rule sel_ok_queue[OF ok]) (use \<open>queue_ok (tm_mem st) q\<close> set in \<open>auto simp: same_selection_def\<close>)
  ultimately show ?thesis using pop(1)
    by (intro exI[of _ p] exI[of _ q]) (auto simp: popped_def chosen_def item_hash_def)
qed

text \<open>The order in which Go visits a map is some order of its entries.\<close>

definition range_ok :: "BlkTmplGenerator \<Rightarrow> bool" where
  "range_ok g \<longleftrightarrow> (\<forall>ds. mset (range_order g ds) = mset ds)"

lemma add_tx_keeps:
  assumes pop: "popped L st p" and rng: "range_ok g"
  shows "sel_ok L (add_tx g L h (tm_mem st ! p) w c st)" "steps_left (add_tx g L h (tm_mem st ! p) w c st) = steps_left st"
proof -
  let ?tx = "pi_tx (tm_mem st ! p)"
  let ?ds = "range_order g (deps_of (dependers st) (TxHash L ?tx))"
  define st1 where "st1 = st\<lparr>blockUtxos := spendTransaction L (blockUtxos st) ?tx h, blockTxns := blockTxns st @ [?tx],
    blockWeight := blockWeight st + w, blockSigOpCost := i64 (blockSigOpCost st + c),
    totalFees := i64 (totalFees st + pi_fee (tm_mem st ! p)), txFees := txFees st @ [pi_fee (tm_mem st ! p)],
    txSigOpCosts := txSigOpCosts st @ [c]\<rparr>"
  have ok: "sel_ok L st" and p: "p < length (tm_mem st)" "p \<notin> waiting (tm_mem st)" "p \<notin> set (pq_items (priorityQueue st))"
    and new: "TxHash L ?tx \<notin> chosen L st" using pop by (auto simp: popped_def item_hash_def)
  have ds: "set ?ds = set (deps_of (dependers st) (TxHash L ?tx))" "distinct (map snd ?ds)"
    using rng sel_okD(4)[OF ok] unfolding range_ok_def by (metis mset_eq_setD, metis mset_eq_imp_distinct_iff mset_map)
  have dep: "q < length (tm_mem st) \<and> TxHash L ?tx \<in> needs (tm_mem st) q" if "(k, q) \<in> set ?ds" for k q
    using sel_okD(5)[OF ok, of k q] that ds(1) new by auto
  have q1: "queue_ok (tm_mem st1) (priorityQueue st1)" using sel_okD(2)[OF ok] by (simp add: st1_def)
  obtain mem' q' where r: "fold (release (TxHash L ?tx)) ?ds st1 = st1\<lparr>tm_mem := mem', priorityQueue := q'\<rparr>" "same_items (tm_mem st) mem'"
      "\<And>x. needs mem' x = (if x \<in> snd ` set ?ds then needs (tm_mem st) x - {TxHash L ?tx} else needs (tm_mem st) x)"
      "queue_ok mem' q'" "load mem' q' = load (tm_mem st) (priorityQueue st)"
      "set (pq_items q') \<subseteq> snd ` set ?ds \<union> set (pq_items (priorityQueue st))"
    using release_all[OF q1 ds(2), of "TxHash L ?tx"] dep by (auto simp: st1_def)
  let ?st' = "st1\<lparr>tm_mem := mem', priorityQueue := q'\<rparr>"
  have st': "add_tx g L h (tm_mem st ! p) w c st = ?st'"
    using r(1) by (simp add: add_tx_def st1_def Let_def)
  have len: "length mem' = length (tm_mem st)" using same_itemsD(1)[OF r(2)] .
  have hash: "item_hash L ?st' x = item_hash L st x" if "x < length (tm_mem st)" for x
    using same_itemsD(2)[OF r(2) that] by (simp add: item_hash_def)
  have cho: "chosen L ?st' = insert (TxHash L ?tx) (chosen L st)" using sel_okD(1)[OF ok] by (simp add: chosen_def st1_def)
  have wait: "waiting mem' \<subseteq> waiting (tm_mem st)" using r(3) len by (auto simp: waiting_def split: if_splits)
  have "x \<notin> waiting mem' \<union> set (pq_items q')" if x: "x < length (tm_mem st)" "item_hash L st x \<in> insert (TxHash L ?tx) (chosen L st)" for x
  proof -
    have "x \<notin> waiting (tm_mem st) \<union> set (pq_items (priorityQueue st))"
    proof (cases "item_hash L st x \<in> chosen L st")
      case True
      then show ?thesis using sel_okD(6)[OF ok x(1)] by blast
    next
      case False
      then have "x = p" using x p(1) sel_okD(3)[OF ok] unfolding inj_on_def item_hash_def by auto
      then show ?thesis using p by blast
    qed
    moreover have "snd ` set ?ds \<subseteq> waiting (tm_mem st)" using dep by (fastforce simp: waiting_def)
    ultimately show ?thesis using wait r(6) by blast
  qed
  moreover have "x < length mem' \<and> h' \<in> needs mem' x \<union> insert (TxHash L ?tx) (chosen L st)"
    if "(k, x) \<in> set (deps_of (dependers st) h')" for k x h'
    using sel_okD(5)[OF ok that] r(3)[of x] len by (auto split: if_splits)
  moreover have "inj_on (item_hash L ?st') {..<length (tm_mem ?st')}"
    using sel_okD(3)[OF ok] hash len by (simp add: inj_on_def)
  ultimately have "sel_ok L ?st'"
    using sel_okD(1,4)[OF ok] r(4) cho hash len unfolding sel_ok_def by (simp add: st1_def)
  then show "sel_ok L (add_tx g L h (tm_mem st ! p) w c st)" using st' by simp
  show "steps_left (add_tx g L h (tm_mem st ! p) w c st) = steps_left st" using st' r(5) by (simp add: steps_left_def st1_def)
qed

lemma popped_same:
  assumes "popped L st p" "same_selection st st'" "set (pq_items (priorityQueue st')) = set (pq_items (priorityQueue st))"
    and "queue_ok (tm_mem st) (priorityQueue st')"
  shows "popped L st' p"
proof -
  have "sel_ok L st'" using assms sel_ok_queue[of L st st'] by (simp add: popped_def)
  then show ?thesis using assms same_selection_cong[OF assms(2)] by (auto simp: popped_def same_selection_def)
qed

lemma popped_unseen:
  assumes "popped L st p" "same_selection st st'" "priorityQueue st' = priorityQueue st"
  shows "popped L st' p"
  using popped_same[OF assms(1,2)] assms(3) sel_okD(2)[of L st] assms(1) by (simp add: popped_def)

text \<open>The order is changed to that of fees.\<close>

definition by_fees :: "tmpl_state \<Rightarrow> tmpl_state" where
  "by_fees st = st\<lparr>sortedByFee := True, priorityQueue := SetLessFunc (tm_mem st) txPQByFee (priorityQueue st)\<rparr>"

lemma popped_by_fees:
  assumes "popped L st p"
  shows "popped L (by_fees st) p" "load (tm_mem (by_fees st)) (priorityQueue (by_fees st)) = load (tm_mem st) (priorityQueue st)"
proof -
  have "queue_ok (tm_mem st) (SetLessFunc (tm_mem st) txPQByFee (priorityQueue st))"
    using assms pq_ok_SetLessFunc(1)[of txPQByFee "tm_mem st" "priorityQueue st"] sel_okD(2)[of L st]
    by (simp add: popped_def queue_ok_def distinct_SetLessFunc)
  then show "popped L (by_fees st) p"
    by (intro popped_same[OF assms]) (simp_all add: by_fees_def same_selection_def)
qed (simp add: by_fees_def load_def)

lemma push_back:
  assumes "popped L st p"
  shows "sel_ok L (st\<lparr>priorityQueue := pq_Push (tm_mem st) (priorityQueue st) p\<rparr>)"
proof (rule sel_ok_queue)
  show "sel_ok L st" using assms by (simp add: popped_def)
  then show "queue_ok (tm_mem st) (priorityQueue (st\<lparr>priorityQueue := pq_Push (tm_mem st) (priorityQueue st) p\<rparr>))"
    using assms sel_okD(2)[of L st] pq_ok_Push(1)[of "tm_mem st" "priorityQueue st" p]
    by (auto simp: popped_def queue_ok_def distinct_pq_Push)
qed (use assms in \<open>auto simp: popped_def same_selection_def\<close>)

lemma admit_unfold:
  "admit g L nextBlockHeight p txWeight sigOpCost st =
    (let prioItem = tm_mem st ! p; tx = pi_tx prioItem; policy = g_policy g; blockPlusTxWeight = blockWeight st + txWeight;
         switch = (\<not> sortedByFee st \<and> (blockPlusTxWeight \<ge> BlockPrioritySize policy \<or> pi_priority prioItem \<le> mining_MinHighPriority g));
         st' = (if switch then by_fees st else st)
     in if sortedByFee st \<and> pi_feePerKB prioItem < TxMinFreeFee policy \<and> blockPlusTxWeight \<ge> BlockMinWeight policy then st
        else if switch \<and> (blockPlusTxWeight > BlockPrioritySize policy \<or> pi_priority prioItem < mining_MinHighPriority g)
        then st'\<lparr>priorityQueue := pq_Push (tm_mem st') (priorityQueue st') p\<rparr>
        else if isl (CheckTransactionInputs L (g_chainParams g) tx nextBlockHeight (blockUtxos st)) \<or> isl (validateTxScriptsMining tx) then st'
        else add_tx g L nextBlockHeight (tm_mem st' ! p) txWeight sigOpCost st')"
  by (auto simp: admit_def Let_def by_fees_def split: sum.splits)

text \<open>The four outcomes of the checks of one item.\<close>

lemma admit_cases:
  obtains (skip) "admit g L h p w c st = st"
  | (switch) "admit g L h p w c st = by_fees st"
  | (back_in) "admit g L h p w c st = (by_fees st)\<lparr>priorityQueue := pq_Push (tm_mem st) (priorityQueue (by_fees st)) p\<rparr>" "\<not> sortedByFee st"
  | (added) st' where "admit g L h p w c st = add_tx g L h (tm_mem st' ! p) w c st'" "st' = st \<or> st' = by_fees st"
      "\<not> isl (CheckTransactionInputs L (g_chainParams g) (pi_tx (tm_mem st ! p)) h (blockUtxos st))"
      "\<not> isl (validateTxScriptsMining (pi_tx (tm_mem st ! p)))"
proof -
  let ?i = "tm_mem st ! p" and ?w = "blockWeight st + w"
  define low where "low \<longleftrightarrow> sortedByFee st \<and> pi_feePerKB ?i < TxMinFreeFee (g_policy g) \<and> ?w \<ge> BlockMinWeight (g_policy g)"
  define sw where "sw \<longleftrightarrow> \<not> sortedByFee st \<and> (?w \<ge> BlockPrioritySize (g_policy g) \<or> pi_priority ?i \<le> mining_MinHighPriority g)"
  define bk where "bk \<longleftrightarrow> ?w > BlockPrioritySize (g_policy g) \<or> pi_priority ?i < mining_MinHighPriority g"
  define bad where "bad \<longleftrightarrow> isl (CheckTransactionInputs L (g_chainParams g) (pi_tx ?i) h (blockUtxos st)) \<or> isl (validateTxScriptsMining (pi_tx ?i))"
  define st' where "st' = (if sw then by_fees st else st)"
  have eq: "admit g L h p w c st = (if low then st else if sw \<and> bk then st'\<lparr>priorityQueue := pq_Push (tm_mem st') (priorityQueue st') p\<rparr>
      else if bad then st' else add_tx g L h (tm_mem st' ! p) w c st')"
    unfolding low_def sw_def bk_def bad_def st'_def admit_unfold Let_def ..
  have m: "tm_mem (by_fees st) = tm_mem st" by (simp add: by_fees_def)
  consider "low" | "\<not> low" "sw" "bk" | "\<not> low" "\<not> (sw \<and> bk)" "bad" | "\<not> low" "\<not> (sw \<and> bk)" "\<not> bad" by blast
  then show thesis
  proof cases
    case 1
    then show ?thesis using eq skip by simp
  next
    case 2
    then show ?thesis using eq back_in m by (simp add: st'_def sw_def)
  next
    case 3
    then show ?thesis using eq skip switch by (cases sw) (simp_all add: st'_def)
  next
    case 4
    show ?thesis
      by (rule added[of st']) (use 4 eq in \<open>auto simp: st'_def bad_def\<close>)
  qed
qed

lemma admit_keeps:
  assumes "popped L st p" "range_ok g"
  shows "sel_ok L (admit g L h p w c st) \<and> steps_left (admit g L h p w c st) \<le> steps_left st"
proof (cases rule: admit_cases[of g L h p w c st])
  case skip
  then show ?thesis using assms(1) by (simp add: popped_def)
next
  case switch
  then show ?thesis using popped_by_fees[OF assms(1)] by (simp add: popped_def steps_left_def by_fees_def)
next
  case back_in
  then show ?thesis using popped_by_fees[OF assms(1)] push_back[of L "by_fees st" p] by (simp add: steps_left_def by_fees_def load_def)
next
  case (added st')
  then have "popped L st' p" "steps_left st' \<le> steps_left st"
    using assms(1) popped_by_fees[OF assms(1)] by (auto simp: steps_left_def by_fees_def)
  then show ?thesis using add_tx_keeps[OF _ assms(2), of L st' p h w c] added(1) by simp
qed

text \<open>One turn of the loop: the item \<open>p\<close> leaves the queue, and is checked or not.\<close>

lemma choose_tx_cases:
  assumes "sel_ok L st" "pq_items (priorityQueue st) \<noteq> []"
  obtains p q st1 where "pq_Pop (tm_mem st) (priorityQueue st) = Some (p, q)" "popped L st1 p" "Suc (steps_left st1) = steps_left st"
    "st1 = st\<lparr>priorityQueue := q\<rparr> \<or> \<not> witnessIncluded st \<and>
      st1 = st\<lparr>priorityQueue := q, blockWeight := blockWeight st + word_of_int (weightDiff L coinbaseTx), witnessIncluded := True\<rparr>"
    "choose_tx g L h segwitActive coinbaseTx st = st1 \<or>
      (\<exists>w c. choose_tx g L h segwitActive coinbaseTx st = admit g L h p w c st1 \<and> w = word_of_int (GetTransactionWeight L (pi_tx (tm_mem st1 ! p)))
        \<and> \<not> blockWeight st1 + w < blockWeight st1 \<and> blockWeight st1 + w < BlockMaxWeight (g_policy g))"
proof -
  obtain p q where pop: "pq_Pop (tm_mem st) (priorityQueue st) = Some (p, q)" "popped L (st\<lparr>priorityQueue := q\<rparr>) p"
    "Suc (steps_left (st\<lparr>priorityQueue := q\<rparr>)) = steps_left st" using pop_item[OF assms] by blast
  let ?a = "st\<lparr>priorityQueue := q\<rparr>"
  let ?b = "?a\<lparr>blockWeight := blockWeight st + word_of_int (weightDiff L coinbaseTx), witnessIncluded := True\<rparr>"
  have b: "popped L ?b p" "Suc (steps_left ?b) = steps_left st"
    using popped_unseen[OF pop(2), of ?b] pop(3) by (simp_all add: same_selection_def steps_left_def)
  have *: "\<exists>st1. popped L st1 p \<and> Suc (steps_left st1) = steps_left st
    \<and> (st1 = ?a \<or> \<not> witnessIncluded st \<and> st1 = ?b)
    \<and> (choose_tx g L h segwitActive coinbaseTx st = st1 \<or>
      (\<exists>w c. choose_tx g L h segwitActive coinbaseTx st = admit g L h p w c st1 \<and> w = word_of_int (GetTransactionWeight L (pi_tx (tm_mem st1 ! p)))
        \<and> \<not> blockWeight st1 + w < blockWeight st1 \<and> blockWeight st1 + w < BlockMaxWeight (g_policy g)))"
  proof (cases "segwitActive \<and> \<not> witnessIncluded st \<and> HasWitness L (pi_tx (tm_mem st ! p))")
    case True
    then show ?thesis using b pop(1)
      by (intro exI[of _ ?b]) (auto simp: choose_tx_def Let_def not_le split: sum.splits)
  next
    case False
    then show ?thesis using pop
      by (intro exI[of _ ?a]) (auto simp: choose_tx_def Let_def not_le split: sum.splits)
  qed
  show thesis using * pop(1) that by (auto simp del: split_paired_Ex)
qed

lemma choose_tx_keeps:
  assumes "sel_ok L st" "pq_items (priorityQueue st) \<noteq> []" "range_ok g"
  shows "sel_ok L (choose_tx g L h segwitActive coinbaseTx st)
    \<and> steps_left (choose_tx g L h segwitActive coinbaseTx st) < steps_left st"
proof -
  obtain p q st1 where p: "popped L st1 p" "Suc (steps_left st1) = steps_left st"
    "choose_tx g L h segwitActive coinbaseTx st = st1 \<or> (\<exists>w c. choose_tx g L h segwitActive coinbaseTx st = admit g L h p w c st1)"
    by (rule choose_tx_cases[OF assms(1,2), of coinbaseTx g h segwitActive]) blast
  then show ?thesis using admit_keeps[OF p(1) assms(3)] by (auto simp: popped_def less_Suc_eq_le[symmetric])
qed

lemma choose_loop_returns:
  assumes "sel_ok L st" "range_ok g"
  shows "\<exists>st'. choose_loop g L h segwitActive coinbaseTx st = Some st'"
  unfolding choose_loop_def
  by (rule measure_while_option_Some[where P = "sel_ok L" and f = steps_left])
     (use assms choose_tx_keeps in \<open>auto simp: pq_Len_def\<close>)

end
