(* ===== verification/Mining_Collect.thy ===== *)
theory Mining_Collect
  imports Mining_Select
begin

text \<open>
  Collecting the transactions for a template: the maps of dependencies that the first loop of \<open>NewBlockTemplate\<close>
  builds satisfy the invariant of the selection loop when no two transactions of the source have the same hash.
\<close>

definition dep_ok :: "wire_lib \<Rightarrow> tmpl_state \<Rightarrow> bool" where
  "dep_ok L st \<longleftrightarrow> (\<forall>h. distinct (map fst (deps_of (dependers st) h)))
    \<and> (\<forall>h k p. (k, p) \<in> set (deps_of (dependers st) h) \<longrightarrow>
        p < length (tm_mem st) \<and> k = item_hash L st p \<and> h \<in> needs (tm_mem st) p)"

lemma dep_okD:
  assumes "dep_ok L st"
  shows "distinct (map fst (deps_of (dependers st) h))"
    "(k, p) \<in> set (deps_of (dependers st) h) \<Longrightarrow> p < length (tm_mem st) \<and> k = item_hash L st p \<and> h \<in> needs (tm_mem st) p"
  using assms unfolding dep_ok_def by blast+

lemma dep_ok_cong: "dep_ok L st \<Longrightarrow> tm_mem st' = tm_mem st \<Longrightarrow> dependers st' = dependers st \<Longrightarrow> dep_ok L st'"
  by (simp add: dep_ok_def item_hash_def)

lemma distinct_pids:
  assumes "dep_ok L st"
  shows "distinct (map snd (deps_of (dependers st) h))"
proof -
  have "inj_on snd (set (deps_of (dependers st) h))"
    by (rule inj_onI) (metis dep_okD(2)[OF assms] prod.collapse)
  then show ?thesis using dep_okD(1)[OF assms, of h] by (simp add: distinct_map)
qed

lemma deps_of_update:
  "deps_of (AList.update h' d ds) h = (if h = h' then d else deps_of ds h)"
  by (simp add: deps_of_def update_conv')

text \<open>The state while the inputs of the item \<open>p\<close> are linked.\<close>

definition linking :: "wire_lib \<Rightarrow> tmpl_state \<Rightarrow> pid \<Rightarrow> tmpl_state \<Rightarrow> bool" where
  "linking L st0 p st \<longleftrightarrow> (\<exists>mem ds. st = st0\<lparr>tm_mem := mem, dependers := ds\<rparr> \<and> same_items (tm_mem st0) mem)
    \<and> dep_ok L st \<and> queue_ok (tm_mem st) (priorityQueue st) \<and> p < length (tm_mem st) \<and> p \<notin> set (pq_items (priorityQueue st))"

lemma add_dep_links:
  assumes l: "linking L st0 p st" and h: "h = item_hash L st p"
  shows "linking L st0 p (add_dep h p originHash st)" "item_hash L (add_dep h p originHash st) p = item_hash L st p"
proof -
  let ?st = "add_dep h p originHash st" and ?mem = "tm_mem st"
  have p: "p < length ?mem" "p \<notin> set (pq_items (priorityQueue st))" and ok: "dep_ok L st" "queue_ok ?mem (priorityQueue st)"
    using l by (auto simp: linking_def)
  define d where "d = (case dependsOn (?mem ! p) of None \<Rightarrow> [originHash] | Some d \<Rightarrow> List.insert originHash d)"
  define mem' where "mem' = ?mem[p := (?mem ! p)\<lparr>dependsOn := Some d\<rparr>]"
  define ds' where "ds' = AList.update originHash (AList.update h p (deps_of (dependers st) originHash)) (dependers st)"
  have st: "?st = st\<lparr>tm_mem := mem', dependers := ds'\<rparr>"
    by (simp add: add_dep_def Let_def mem'_def d_def ds'_def)
  have mem: "tm_mem ?st = mem'" by (simp add: st)
  have same: "same_items ?mem mem'" unfolding mem'_def by (rule same_items_update[OF p(1)])
  have needs: "needs mem' q = (if q = p then insert originHash (needs ?mem p) else needs ?mem q)" for q
    using p(1) by (auto simp: mem'_def needs_update d_def needs_def split: option.splits)
  have hash: "item_hash L ?st q = item_hash L st q" if "q < length ?mem" for q
    using same_itemsD(2)[OF same that] by (simp add: item_hash_def st)
  have len: "length mem' = length ?mem" using same_itemsD(1)[OF same] .
  have "\<exists>mem ds. ?st = st0\<lparr>tm_mem := mem, dependers := ds\<rparr> \<and> same_items (tm_mem st0) mem"
  proof -
    obtain mem ds where "st = st0\<lparr>tm_mem := mem, dependers := ds\<rparr>" "same_items (tm_mem st0) mem" using l unfolding linking_def by blast
    then show ?thesis using same st same_items_trans[of "tm_mem st0" mem mem'] by (intro exI[of _ mem'] exI[of _ ds']) simp
  qed
  moreover have "dep_ok L ?st"
    unfolding dep_ok_def
  proof (intro conjI allI impI)
    fix h' show "distinct (map fst (deps_of (dependers ?st) h'))"
      using dep_okD(1)[OF ok(1)] by (simp add: st ds'_def deps_of_update distinct_update)
    fix k q assume "(k, q) \<in> set (deps_of (dependers ?st) h')"
    then have "(k, q) = (h, p) \<and> h' = originHash \<or> (k, q) \<in> set (deps_of (dependers st) h')"
      using dep_okD(1)[OF ok(1), of originHash]
      by (auto simp: st ds'_def deps_of_update update_conv' split: if_splits dest!: map_of_is_SomeI[rotated] simp: distinct_update)
    then show "q < length (tm_mem ?st)" "k = item_hash L ?st q" "h' \<in> needs (tm_mem ?st) q"
      using dep_okD(2)[OF ok(1), of k q h'] hash p(1) needs len h mem by auto
  qed
  moreover have "queue_ok mem' (priorityQueue st)"
    using ok(2) p same_items_prios[OF same, of "pq_items (priorityQueue st)"] pq_ok_frame[of ?mem "priorityQueue st" mem'] needs len
    by (auto simp: queue_ok_def waiting_def split: if_splits)
  ultimately show "linking L st0 p ?st" using p len by (simp add: linking_def st)
  show "item_hash L ?st p = item_hash L st p" using hash p(1) by simp
qed

lemma link_inputs_links:
  assumes "linking L st0 p st" "h = item_hash L st p"
  shows "linking L st0 p (snd (link_inputs have_tx fetched h p txIns st))"
  using assms
proof (induction txIns arbitrary: st)
  case (Cons txIn txIns)
  let ?st = "add_dep h p (op_Hash (PreviousOutPoint txIn)) st"
  have "linking L st0 p (snd (link_inputs have_tx fetched h p txIns ?st))"
    using Cons.IH[of ?st] add_dep_links[OF Cons.prems, of "op_Hash (PreviousOutPoint txIn)"] Cons.prems(2) by metis
  then show ?case using Cons.IH[OF Cons.prems] Cons.prems(1) by (simp add: Let_def)
qed simp

text \<open>Between two transactions of the source; \<open>hs\<close> are the hashes of those seen so far.\<close>

definition coll_ok :: "wire_lib \<Rightarrow> MsgTx \<Rightarrow> hash set \<Rightarrow> tmpl_state \<Rightarrow> bool" where
  "coll_ok L cb hs st \<longleftrightarrow> blockTxns st = [cb] \<and> dep_ok L st \<and> queue_ok (tm_mem st) (priorityQueue st)
    \<and> inj_on (item_hash L st) {..<length (tm_mem st)} \<and> item_hash L st ` {..<length (tm_mem st)} \<subseteq> hs"

lemma coll_ok_sel: "coll_ok L cb hs st \<Longrightarrow> sel_ok L st"
  using distinct_pids[of L st] dep_okD(2)[of L st] by (auto simp: coll_ok_def sel_ok_def chosen_def)

lemma coll_ok_mono: "coll_ok L cb hs st \<Longrightarrow> hs \<subseteq> hs' \<Longrightarrow> coll_ok L cb hs' st"
  by (auto simp: coll_ok_def)

lemma coll_ok_initial: "coll_ok L cb {} (initial_state g L cb)"
  by (simp add: coll_ok_def initial_state_def Let_def dep_ok_def deps_of_def queue_ok_def pq_ok_new)

text \<open>A new item that nothing refers to.\<close>

lemma alloc_item:
  assumes c: "coll_ok L cb hs st" and new: "TxHash L (pi_tx item) \<notin> hs" "dependsOn item = None"
  defines "st1 \<equiv> st\<lparr>tm_mem := tm_mem st @ [item]\<rparr>"
  shows "linking L st1 (length (tm_mem st)) st1" "inj_on (item_hash L st1) {..<length (tm_mem st1)}"
    "item_hash L st1 ` {..<length (tm_mem st1)} \<subseteq> insert (TxHash L (pi_tx item)) hs" "item_hash L st1 (length (tm_mem st)) = TxHash L (pi_tx item)"
proof -
  let ?n = "length (tm_mem st)"
  have hash: "item_hash L st1 q = (if q = ?n then TxHash L (pi_tx item) else item_hash L st q)" if "q \<le> ?n" for q
    using that by (auto simp: st1_def item_hash_def nth_append)
  have needs: "needs (tm_mem st1) q = (if q = ?n then {} else needs (tm_mem st) q)" if "q \<le> ?n" for q
    using that new(2) by (auto simp: st1_def needs_def nth_append)
  have split: "{..<length (tm_mem st1)} = insert ?n {..<?n}" by (auto simp: st1_def)
  have old: "item_hash L st1 ` {..<?n} = item_hash L st ` {..<?n}" using hash by (intro image_cong) auto
  show "item_hash L st1 ` {..<length (tm_mem st1)} \<subseteq> insert (TxHash L (pi_tx item)) hs"
    using c old hash[of ?n] by (auto simp: split coll_ok_def)
  have "inj_on (item_hash L st1) {..<?n}" using c hash by (auto simp: coll_ok_def inj_on_def)
  then show "inj_on (item_hash L st1) {..<length (tm_mem st1)}"
    using c old hash[of ?n] new(1) by (auto simp: split coll_ok_def)
  have q: "queue_ok (tm_mem st) (priorityQueue st)" using c by (simp add: coll_ok_def)
  have "same_prios (tm_mem st) (tm_mem st1) (pq_items (priorityQueue st))"
    using q by (auto simp: same_prios_def queue_ok_def st1_def nth_append)
  then have "queue_ok (tm_mem st1) (priorityQueue st1)"
    using q pq_ok_frame[of "tm_mem st" "priorityQueue st" "tm_mem st1"] needs by (auto simp: queue_ok_def waiting_def st1_def)
  moreover have "dep_ok L st1"
    unfolding dep_ok_def
  proof (intro conjI allI impI)
    have ok: "dep_ok L st" using c by (simp add: coll_ok_def)
    fix h show "distinct (map fst (deps_of (dependers st1) h))" using dep_okD(1)[OF ok] by (simp add: st1_def)
    fix k q assume "(k, q) \<in> set (deps_of (dependers st1) h)"
    then have "q < ?n \<and> k = item_hash L st q \<and> h \<in> needs (tm_mem st) q" using dep_okD(2)[OF ok, of k q h] by (simp add: st1_def)
    then show "q < length (tm_mem st1)" "k = item_hash L st1 q" "h \<in> needs (tm_mem st1) q"
      using hash[of q] needs[of q] by (auto simp: st1_def)
  qed
  ultimately show "linking L st1 ?n st1"
    using q by (auto simp: linking_def queue_ok_def st1_def intro!: exI[of _ "tm_mem st @ [item]"] exI[of _ "dependers st"])
  show "item_hash L st1 ?n = TxHash L (pi_tx item)" using hash by simp
qed

text \<open>The totals are not touched.\<close>

definition same_totals :: "tmpl_state \<Rightarrow> tmpl_state \<Rightarrow> bool" where
  "same_totals st st' \<longleftrightarrow> blockTxns st' = blockTxns st \<and> blockWeight st' = blockWeight st \<and> blockSigOpCost st' = blockSigOpCost st
    \<and> totalFees st' = totalFees st \<and> txFees st' = txFees st \<and> txSigOpCosts st' = txSigOpCosts st
    \<and> witnessIncluded st' = witnessIncluded st"

lemma same_totals_trans: "same_totals a b \<Longrightarrow> same_totals b c \<Longrightarrow> same_totals a c"
  by (simp add: same_totals_def)

text \<open>Filling in the priority and the fees of an item that is not in the queue.\<close>

lemma fill_item:
  assumes l: "linking L st1 p st" and it: "pi_tx item = pi_tx (tm_mem st ! p)" "dependsOn item = dependsOn (tm_mem st ! p)"
  defines "st2 \<equiv> st\<lparr>tm_mem := (tm_mem st)[p := item]\<rparr>"
  shows "dep_ok L st2" "queue_ok (tm_mem st2) (priorityQueue st2)" "item_hash L st2 = item_hash L st"
    "needs (tm_mem st2) = needs (tm_mem st)"
proof -
  have p: "p < length (tm_mem st)" "p \<notin> set (pq_items (priorityQueue st))" and ok: "dep_ok L st" "queue_ok (tm_mem st) (priorityQueue st)"
    using l by (auto simp: linking_def)
  show hash: "item_hash L st2 = item_hash L st"
    using p it(1) by (auto simp: st2_def item_hash_def nth_list_update fun_eq_iff)
  show needs: "needs (tm_mem st2) = needs (tm_mem st)"
    using p it(2) by (auto simp: st2_def needs_def nth_list_update fun_eq_iff)
  show "dep_ok L st2" using ok(1) hash needs unfolding dep_ok_def by (simp add: st2_def)
  have "same_prios (tm_mem st) (tm_mem st2) (pq_items (priorityQueue st))"
    using p(2) by (auto simp: same_prios_def st2_def) (metis nth_list_update_neq)+
  moreover have "waiting (tm_mem st2) = waiting (tm_mem st)" using needs by (simp add: waiting_def) (simp add: st2_def)
  ultimately show "queue_ok (tm_mem st2) (priorityQueue st2)"
    using ok(2) pq_ok_frame[of "tm_mem st" "priorityQueue st" "tm_mem st2"] by (simp add: queue_ok_def) (simp add: st2_def)
qed

lemma enter_tx_keeps:
  assumes c: "coll_ok L cb hs st" and new: "TxHash L (td_Tx txDesc) \<notin> hs"
  shows "coll_ok L cb (insert (TxHash L (td_Tx txDesc)) hs) (enter_tx g L h txDesc fetched st)
    \<and> same_totals st (enter_tx g L h txDesc fetched st)"
proof -
  let ?n = "length (tm_mem st)" and ?tx = "td_Tx txDesc"
  define st1 where "st1 = st\<lparr>tm_mem := tm_mem st @ [\<lparr>pi_tx = ?tx, pi_fee = 0, pi_priority = 0, pi_feePerKB = 0, dependsOn = None\<rparr>]\<rparr>"
  note a = alloc_item[OF c, of "\<lparr>pi_tx = ?tx, pi_fee = 0, pi_priority = 0, pi_feePerKB = 0, dependsOn = None\<rparr>", simplified, OF new, folded st1_def]
  have len1: "length (tm_mem st1) = Suc ?n" by (simp add: st1_def)
  obtain b st2 where li: "link_inputs (src_HaveTransaction (g_txSource g)) fetched (TxHash L ?tx) ?n (tx_TxIn ?tx) st1 = (b, st2)" by fastforce
  have l: "linking L st1 ?n st2" using link_inputs_links[OF a(1), of "TxHash L ?tx"] a(4) li by (metis snd_conv)
  obtain mem ds where st2: "st2 = st1\<lparr>tm_mem := mem, dependers := ds\<rparr>" "same_items (tm_mem st1) mem" using l unfolding linking_def by blast
  have hash2: "item_hash L st2 q = item_hash L st1 q" if "q < length (tm_mem st1)" for q
    using same_itemsD(2)[OF st2(2) that] by (simp add: item_hash_def st2(1))
  have hashes: "inj_on (item_hash L st2) {..<length (tm_mem st2)}" "item_hash L st2 ` {..<length (tm_mem st2)} \<subseteq> insert (TxHash L ?tx) hs"
    using a(2,3) hash2 same_itemsD(1)[OF st2(2)] len1 by (auto simp: st2(1) inj_on_def)
  have tot: "same_totals st st2" by (simp add: same_totals_def st1_def st2(1))
  have cb: "blockTxns st2 = [cb]" using c by (simp add: coll_ok_def st1_def st2(1))
  show ?thesis
  proof (cases b)
    case False
    then have "enter_tx g L h txDesc fetched st = st2" using li by (simp add: enter_tx_def Let_def st1_def[symmetric])
    then show ?thesis using l hashes tot cb by (simp add: coll_ok_def linking_def)
  next
    case True
    define item where "item = (tm_mem st2 ! ?n)\<lparr>pi_priority := CalcPriority L (g_rnd g) ?tx fetched h, pi_feePerKB := FeePerKB txDesc, pi_fee := td_Fee txDesc\<rparr>"
    have dep: "dependsOn item = dependsOn (mem ! ?n)" by (simp add: item_def st2(1))
    define st3 where "st3 = st2\<lparr>tm_mem := (tm_mem st2)[?n := item]\<rparr>"
    have f: "dep_ok L st3" "queue_ok (tm_mem st3) (priorityQueue st3)" "item_hash L st3 = item_hash L st2" "needs (tm_mem st3) = needs (tm_mem st2)"
      using fill_item[OF l, of item] by (auto simp: item_def st3_def)
    have n: "?n < length (tm_mem st3)" "?n \<notin> set (pq_items (priorityQueue st3))" "length (tm_mem st3) = length (tm_mem st2)"
      using l by (auto simp: linking_def st3_def)
    define q where "q = (if dependsOn item = None then pq_Push (tm_mem st3) (priorityQueue st3) ?n else priorityQueue st3)"
    have "queue_ok (tm_mem st3) q"
    proof (cases "dependsOn item")
      case None
      then have "?n \<notin> waiting (tm_mem st3)" using n by (simp add: waiting_def needs_def) (simp add: st3_def)
      then show ?thesis using None f(2) n pq_ok_Push(1)[of "tm_mem st3" "priorityQueue st3" ?n]
        by (auto simp: q_def queue_ok_def distinct_pq_Push)
    qed (simp add: q_def f(2))
    moreover have "enter_tx g L h txDesc fetched st = st3\<lparr>priorityQueue := q, blockUtxos := mergeUtxoView (blockUtxos st) fetched\<rparr>"
      using li True by (auto simp: enter_tx_def Let_def st1_def[symmetric] item_def[symmetric] st3_def[symmetric] q_def)
        (simp_all add: st3_def st2(1) st1_def dep)
    moreover define st4 where "st4 = st3\<lparr>priorityQueue := q, blockUtxos := mergeUtxoView (blockUtxos st) fetched\<rparr>"
    moreover have "dep_ok L st4" using f(1) by (rule dep_ok_cong) (simp_all add: st4_def)
    moreover have "item_hash L st4 = item_hash L st2" using f(3) by (simp add: item_hash_def fun_eq_iff st4_def)
    moreover have "length (tm_mem st4) = length (tm_mem st2)" "tm_mem st4 = tm_mem st3" "priorityQueue st4 = q" "blockTxns st4 = [cb]"
      using n(3) cb by (simp_all add: st4_def st3_def)
    moreover have "same_totals st st4" using tot by (simp add: same_totals_def st4_def st3_def)
    ultimately show ?thesis using hashes by (simp add: coll_ok_def)
  qed
qed

lemma consider_tx_keeps:
  assumes "coll_ok (e_wire env) cb hs st" "TxHash (e_wire env) (td_Tx txDesc) \<notin> hs"
    and "consider_tx g env h txDesc st s = Some (Inr st', s')"
  shows "coll_ok (e_wire env) cb (insert (TxHash (e_wire env) (td_Tx txDesc)) hs) st' \<and> same_totals st st'"
proof -
  have skip: "coll_ok (e_wire env) cb (insert (TxHash (e_wire env) (td_Tx txDesc)) hs) st \<and> same_totals st st"
    using coll_ok_mono[OF assms(1)] by (auto simp: same_totals_def)
  have "st' = st \<or> (\<exists>fetched. st' = enter_tx g (e_wire env) h txDesc fetched st)"
    using assms(3) by (auto simp: consider_tx_def comp_iffs split: if_splits) (auto simp: comp_iffs split: sum.split_asm if_splits)
  then show ?thesis using skip enter_tx_keeps[OF assms(1,2)] by blast
qed

lemma consider_all_keeps:
  assumes "coll_ok (e_wire env) cb hs st" "distinct (map (\<lambda>d. TxHash (e_wire env) (td_Tx d)) descs)"
    and "hs \<inter> (\<lambda>d. TxHash (e_wire env) (td_Tx d)) ` set descs = {}"
    and "foldC (consider_tx g env h) descs st s = Some (Inr st', s')"
  shows "sel_ok (e_wire env) st' \<and> same_totals st st'"
  using assms
proof (induction descs arbitrary: hs st s)
  case Nil
  then show ?case by (auto simp: comp_iffs same_totals_def intro: coll_ok_sel)
next
  case (Cons d descs)
  obtain st1 s1 where 1: "consider_tx g env h d st s = Some (Inr st1, s1)" "foldC (consider_tx g env h) descs st1 s1 = Some (Inr st', s')"
    using Cons.prems(4) by (auto simp: comp_iffs)
  have "TxHash (e_wire env) (td_Tx d) \<notin> hs" using Cons.prems(3) by auto
  then have "coll_ok (e_wire env) cb (insert (TxHash (e_wire env) (td_Tx d)) hs) st1" "same_totals st st1"
    using consider_tx_keeps[OF Cons.prems(1) _ 1(1)] by auto
  then show ?case using Cons.IH[OF _ _ _ 1(2)] Cons.prems(2,3) same_totals_trans[of st st1 st'] by (auto simp: image_iff)
qed

end
