(* ===== verification/Mining_Sound.thy ===== *)
theory Mining_Sound
  imports Mining_Collect
begin

text \<open>
  What the selection loop of the block template generator selects.  \<open>replay\<close> applies transactions one after the
  other to a view, with the checks of the generator before each; the loop selects a list that replays on the view
  it starts with, without repetition, and within the weight of the policy.  A list of sane transactions that
  replays pays for itself transaction by transaction on the ledger of the view (\<open>all_pay\<close>).
\<close>

fun replay :: "wire_lib \<Rightarrow> Params \<Rightarrow> int \<Rightarrow> MsgTx list \<Rightarrow> UtxoViewpoint \<Rightarrow> UtxoViewpoint option" where
  "replay L params h [] view = Some view"
| "replay L params h (tx # txs) view =
    (if isl (CheckTransactionInputs L params tx h view) \<or> isl (validateTxScriptsMining tx) then None
     else replay L params h txs (spendTransaction L view tx h))"

lemma replay_append:
  "replay L params h (txs @ [tx]) view =
    (case replay L params h txs view of
       None \<Rightarrow> None
     | Some v \<Rightarrow> if isl (CheckTransactionInputs L params tx h v) \<or> isl (validateTxScriptsMining tx) then None
               else Some (spendTransaction L v tx h))"
  by (induction txs arbitrary: view) auto

text \<open>The weight of a transaction as the generator counts it.\<close>

definition tx_weight :: "wire_lib \<Rightarrow> MsgTx \<Rightarrow> nat" where
  "tx_weight L tx = unat (word_of_int (GetTransactionWeight L tx) :: uint32)"

definition commitment_weight :: "wire_lib \<Rightarrow> MsgTx \<Rightarrow> nat" where
  "commitment_weight L cb = unat (word_of_int (weightDiff L cb) :: uint32)"

text \<open>Neither the first weight nor the limit is so large that the commitment's weight overflows 32 bits.\<close>

definition weights_fit :: "BlkTmplGenerator \<Rightarrow> wire_lib \<Rightarrow> MsgTx \<Rightarrow> uint32 \<Rightarrow> bool" where
  "weights_fit g L cb w0 \<longleftrightarrow> unat w0 + commitment_weight L cb < 2 ^ 32
    \<and> unat (BlockMaxWeight (g_policy g)) + commitment_weight L cb \<le> 2 ^ 32"

abbreviation picked :: "tmpl_state \<Rightarrow> MsgTx list" where "picked st \<equiv> tl (blockTxns st)"

definition weight_ok :: "BlkTmplGenerator \<Rightarrow> wire_lib \<Rightarrow> MsgTx \<Rightarrow> uint32 \<Rightarrow> tmpl_state \<Rightarrow> bool" where
  "weight_ok g L cb w0 st \<longleftrightarrow>
    unat (blockWeight st) = unat w0 + sum_list (map (tx_weight L) (picked st)) + (if witnessIncluded st then commitment_weight L cb else 0)
    \<and> (picked st \<noteq> [] \<longrightarrow> unat w0 + sum_list (map (tx_weight L) (picked st)) < unat (BlockMaxWeight (g_policy g)))"

definition picked_ok :: "BlkTmplGenerator \<Rightarrow> wire_lib \<Rightarrow> int \<Rightarrow> MsgTx \<Rightarrow> UtxoViewpoint \<Rightarrow> tmpl_state \<Rightarrow> bool" where
  "picked_ok g L h cb view0 st \<longleftrightarrow> blockTxns st \<noteq> [] \<and> hd (blockTxns st) = cb
    \<and> replay L (g_chainParams g) h (picked st) view0 = Some (blockUtxos st)
    \<and> distinct (map (TxHash L) (picked st))
    \<and> length (txFees st) = length (blockTxns st) \<and> length (txSigOpCosts st) = length (blockTxns st)
    \<and> totalFees st = i64 (sum_list (tl (txFees st)))"

lemma i64_add_left: "i64 (i64 x + y) = i64 (x + y)"
proof -
  have "(i64 x + y + 9223372036854775808) mod 18446744073709551616 = (x + y + 9223372036854775808) mod 18446744073709551616"
    unfolding i64_def by (simp add: mod_simps algebra_simps)
  then show ?thesis unfolding i64_def by simp
qed

section \<open>Steps\<close>

lemma release_core: "(release h d st)\<lparr>tm_mem := m, priorityQueue := q\<rparr> = st\<lparr>tm_mem := m, priorityQueue := q\<rparr>"
  by (cases d) (simp add: release_def Let_def)

lemma release_frame: "\<exists>mem q. fold (release h) ds st = st\<lparr>tm_mem := mem, priorityQueue := q\<rparr>"
proof -
  have "(fold (release h) ds st)\<lparr>tm_mem := m, priorityQueue := q\<rparr> = st\<lparr>tm_mem := m, priorityQueue := q\<rparr>" for m q
    by (induction ds arbitrary: st) (simp_all add: release_core)
  from this[of "priorityQueue (fold (release h) ds st)" "tm_mem (fold (release h) ds st)"] show ?thesis by auto
qed

lemma picked_add:
  assumes "picked_ok g L h cb view0 st" "TxHash L (pi_tx item) \<notin> chosen L st"
    and "\<not> isl (CheckTransactionInputs L (g_chainParams g) (pi_tx item) h (blockUtxos st))" "\<not> isl (validateTxScriptsMining (pi_tx item))"
  shows "picked_ok g L h cb view0 (add_tx g L h item w c st)"
    and "picked (add_tx g L h item w c st) = picked st @ [pi_tx item]"
    and "blockWeight (add_tx g L h item w c st) = blockWeight st + w" "witnessIncluded (add_tx g L h item w c st) = witnessIncluded st"
proof -
  let ?ds = "range_order g (deps_of (dependers st) (TxHash L (pi_tx item)))"
  define st1 where "st1 = st\<lparr>blockUtxos := spendTransaction L (blockUtxos st) (pi_tx item) h, blockTxns := blockTxns st @ [pi_tx item],
    blockWeight := blockWeight st + w, blockSigOpCost := i64 (blockSigOpCost st + c),
    totalFees := i64 (totalFees st + pi_fee item), txFees := txFees st @ [pi_fee item], txSigOpCosts := txSigOpCosts st @ [c]\<rparr>"
  obtain mem q where "fold (release (TxHash L (pi_tx item))) ?ds st1 = st1\<lparr>tm_mem := mem, priorityQueue := q\<rparr>"
    using release_frame[of "TxHash L (pi_tx item)" ?ds st1] by blast
  then have r: "add_tx g L h item w c st = st1\<lparr>tm_mem := mem, priorityQueue := q\<rparr>" by (simp add: add_tx_def Let_def st1_def)
  have ne: "blockTxns st \<noteq> []" "txFees st \<noteq> []" using assms(1) by (auto simp: picked_ok_def)
  show "picked (add_tx g L h item w c st) = picked st @ [pi_tx item]" using ne by (simp add: r st1_def)
  show "picked_ok g L h cb view0 (add_tx g L h item w c st)"
    using assms ne by (auto simp: r st1_def picked_ok_def replay_append chosen_def i64_add_left)
  show "blockWeight (add_tx g L h item w c st) = blockWeight st + w" "witnessIncluded (add_tx g L h item w c st) = witnessIncluded st"
    by (simp_all add: r st1_def)
qed

lemma weight_add:
  assumes "weight_ok g L cb w0 st" "w = word_of_int (GetTransactionWeight L tx)"
    and "\<not> blockWeight st + w < blockWeight st" "blockWeight st + w < BlockMaxWeight (g_policy g)"
    and "picked st' = picked st @ [tx]" "blockWeight st' = blockWeight st + w" "witnessIncluded st' = witnessIncluded st"
  shows "weight_ok g L cb w0 st'"
proof -
  have "unat (blockWeight st + w) = unat (blockWeight st) + unat w"
    using assms(3) unsigned_less[of w, where 'a = nat] by (auto simp: word_less_nat_alt unat_plus_if' split: if_splits)
  then show ?thesis using assms by (auto simp: weight_ok_def tx_weight_def word_less_nat_alt)
qed

lemma weight_charge:
  assumes "weight_ok g L cb w0 st" "weights_fit g L cb w0" "\<not> witnessIncluded st"
    and "picked st' = picked st" "blockWeight st' = blockWeight st + word_of_int (weightDiff L cb)" "witnessIncluded st'"
  shows "weight_ok g L cb w0 st'"
proof -
  have "unat (blockWeight st) + commitment_weight L cb < 2 ^ 32"
    using assms(1,2,3) by (cases "picked st = []") (auto simp: weight_ok_def weights_fit_def)
  then have "unat (blockWeight st') = unat (blockWeight st) + commitment_weight L cb"
    using assms(5) by (simp add: commitment_weight_def unat_plus_if')
  then show ?thesis using assms by (auto simp: weight_ok_def)
qed

lemma picked_frame:
  assumes "same_totals st st'" "blockUtxos st' = blockUtxos st"
  shows "picked_ok g L h cb view0 st' = picked_ok g L h cb view0 st" "weight_ok g L cb w0 st' = weight_ok g L cb w0 st"
  using assms by (auto simp: same_totals_def picked_ok_def weight_ok_def)

lemma admit_picks:
  assumes pop: "popped L st p" and ok: "picked_ok g L h cb view0 st"
    and w: "w = word_of_int (GetTransactionWeight L (pi_tx (tm_mem st ! p)))" "\<not> blockWeight st + w < blockWeight st"
      "blockWeight st + w < BlockMaxWeight (g_policy g)"
  shows "picked_ok g L h cb view0 (admit g L h p w c st) \<and> (weight_ok g L cb w0 st \<longrightarrow> weight_ok g L cb w0 (admit g L h p w c st))"
proof (cases rule: admit_cases[of g L h p w c st])
  case skip
  then show ?thesis using ok by simp
next
  case switch
  then show ?thesis using ok picked_frame[of st "by_fees st"] by (simp add: same_totals_def by_fees_def)
next
  case back_in
  then show ?thesis using ok picked_frame[of st "admit g L h p w c st"] by (simp add: same_totals_def by_fees_def)
next
  case (added st')
  have same: "same_totals st st'" "blockUtxos st' = blockUtxos st" "tm_mem st' = tm_mem st" "chosen L st' = chosen L st"
    using added(2) by (auto simp: same_totals_def by_fees_def chosen_def)
  have st': "picked_ok g L h cb view0 st'" "weight_ok g L cb w0 st' = weight_ok g L cb w0 st" using ok picked_frame[OF same(1,2)] by auto
  note a = picked_add[OF st'(1), of "tm_mem st' ! p" w c]
  have "picked_ok g L h cb view0 (admit g L h p w c st)" using a(1) added same pop by (simp add: popped_def item_hash_def)
  moreover have "weight_ok g L cb w0 (admit g L h p w c st)" if "weight_ok g L cb w0 st"
    using that weight_add[of g L cb w0 st' w "pi_tx (tm_mem st' ! p)" "admit g L h p w c st"] st'(2) a(2-4) added same pop w
    by (simp add: popped_def item_hash_def same_totals_def)
  ultimately show ?thesis by blast
qed

lemma choose_tx_picks:
  assumes "sel_ok L st" "pq_items (priorityQueue st) \<noteq> []" "picked_ok g L h cb view0 st"
  shows "picked_ok g L h cb view0 (choose_tx g L h segwitActive cb st)
    \<and> (weights_fit g L cb w0 \<and> weight_ok g L cb w0 st \<longrightarrow> weight_ok g L cb w0 (choose_tx g L h segwitActive cb st))"
proof -
  obtain p q st1 where p: "popped L st1 p"
    "st1 = st\<lparr>priorityQueue := q\<rparr> \<or> \<not> witnessIncluded st \<and>
      st1 = st\<lparr>priorityQueue := q, blockWeight := blockWeight st + word_of_int (weightDiff L cb), witnessIncluded := True\<rparr>"
    "choose_tx g L h segwitActive cb st = st1 \<or>
      (\<exists>w c. choose_tx g L h segwitActive cb st = admit g L h p w c st1 \<and> w = word_of_int (GetTransactionWeight L (pi_tx (tm_mem st1 ! p)))
        \<and> \<not> blockWeight st1 + w < blockWeight st1 \<and> blockWeight st1 + w < BlockMaxWeight (g_policy g))"
    by (rule choose_tx_cases[OF assms(1,2), of cb g h segwitActive]) blast
  have "picked_ok g L h cb view0 st1" using p(2) assms(3) by (auto simp: picked_ok_def)
  moreover have "weight_ok g L cb w0 st1" if "weights_fit g L cb w0" "weight_ok g L cb w0 st"
    using p(2) that weight_charge[OF that(2,1), of st1] by (auto simp: weight_ok_def)
  ultimately show ?thesis using p(3) admit_picks[OF p(1)] by (elim disjE) auto
qed

lemma choose_loop_picks:
  assumes "choose_loop g L h segwitActive cb st = Some st'" "sel_ok L st" "range_ok g"
    and "picked_ok g L h cb view0 st" "weight_ok g L cb w0 st"
  shows "sel_ok L st' \<and> picked_ok g L h cb view0 st' \<and> (weights_fit g L cb w0 \<longrightarrow> weight_ok g L cb w0 st')"
  using assms(1) unfolding choose_loop_def
  by (rule while_option_rule[rotated, where P = "\<lambda>st. sel_ok L st \<and> picked_ok g L h cb view0 st \<and> (weights_fit g L cb w0 \<longrightarrow> weight_ok g L cb w0 st)"])
     (use assms choose_tx_keeps choose_tx_picks in \<open>auto simp: pq_Len_def\<close>)

section \<open>What the selected transactions spend\<close>

text \<open>Transactions that pay for themselves, one after the other, out of the coins of a ledger.\<close>

fun all_pay :: "wire_lib \<Rightarrow> Params \<Rightarrow> int \<Rightarrow> MsgTx list \<Rightarrow> coins \<Rightarrow> bool" where
  "all_pay L params h [] U \<longleftrightarrow> True"
| "all_pay L params h (tx # txs) U \<longleftrightarrow> \<not> IsCoinBase tx \<and> (\<forall>p \<in> set (inputs tx). spendable L params h U p)
    \<and> value_out tx \<le> value_in U tx \<and> all_pay L params h txs (ledger_tx L h tx U)"

lemma spend_inputs_coins: "view_coins (fold spend_input txIns view) = view_coins view |` (- set (map PreviousOutPoint txIns))"
proof (induction txIns arbitrary: view)
  case (Cons txIn txIns)
  let ?p = "PreviousOutPoint txIn"
  have "view_coins (spend_input txIn view) = view_coins view |` (- {?p})"
    by (rule ext) (auto simp: spend_input_def view_coins_def restrict_map_def split: option.split)
  then show ?case using Cons.IH[of "spend_input txIn view"] by (simp add: restrict_restrict Compl_eq Collect_conj_eq)
qed (simp add: restrict_map_def)

lemma spendTransaction_coins: "\<not> IsCoinBase tx \<Longrightarrow> view_coins (spendTransaction L view tx h) = ledger_tx L h tx (view_coins view)"
  by (simp add: spendTransaction_def view_coins_AddTxOuts spend_inputs_coins ledger_tx_def inputs_def)

lemma replay_pays:
  assumes "money_ok L" "list_all (sane_tx L) txs" "list_all (\<lambda>tx. \<not> IsCoinBase tx) txs"
  shows "replay L params h txs view = Some view' \<Longrightarrow>
    all_pay L params h txs (view_coins view) \<and> view_coins view' = ledger_block L h txs (view_coins view)"
  using assms(2,3)
proof (induction txs arbitrary: view)
  case (Cons tx txs)
  have tx: "sane_tx L tx" "\<not> IsCoinBase tx" using Cons.prems(2,3) by simp_all
  obtain fee where "CheckTransactionInputs L params tx h view = Inr fee" "replay L params h txs (spendTransaction L view tx h) = Some view'"
    using Cons.prems(1) by (auto split: if_splits) (metis sum.collapse(2))
  then show ?case
    using Cons.IH[of "spendTransaction L view tx h"] Cons.prems(2,3) tx CheckTransactionInputs_iff[OF assms(1) tx]
    by (simp add: spendTransaction_coins ledger_block_def list_all_iff)
qed (simp add: ledger_block_def)

text \<open>Everything that is queued or selected is a transaction of the source.\<close>

definition drawn_from :: "MsgTx set \<Rightarrow> tmpl_state \<Rightarrow> bool" where
  "drawn_from D st \<longleftrightarrow> set (map pi_tx (tm_mem st)) \<subseteq> D \<and> set (picked st) \<subseteq> D"

lemma map_update_same: "f y = f (xs ! i) \<Longrightarrow> map f (xs[i := y]) = map f xs"
  by (cases "i < length xs") (simp_all add: map_update list_update_same_conv list_update_beyond)

lemma link_inputs_txs:
  "map pi_tx (tm_mem (snd (link_inputs have_tx fetched h p txIns st))) = map pi_tx (tm_mem st)"
  "blockTxns (snd (link_inputs have_tx fetched h p txIns st)) = blockTxns st"
  by (induction have_tx fetched h p txIns st rule: link_inputs.induct)
    (simp_all add: Let_def add_dep_def map_update_same)

lemma enter_tx_txs:
  "set (map pi_tx (tm_mem (enter_tx g L h d fetched st))) \<subseteq> insert (td_Tx d) (set (map pi_tx (tm_mem st)))"
  "blockTxns (enter_tx g L h d fetched st) = blockTxns st"
proof -
  define st1 where "st1 = st\<lparr>tm_mem := tm_mem st @ [\<lparr>pi_tx = td_Tx d, pi_fee = 0, pi_priority = 0, pi_feePerKB = 0, dependsOn = None\<rparr>]\<rparr>"
  obtain b st2 where l: "link_inputs (src_HaveTransaction (g_txSource g)) fetched (TxHash L (td_Tx d)) (length (tm_mem st)) (tx_TxIn (td_Tx d)) st1 = (b, st2)"
    by fastforce
  have st2: "map pi_tx (tm_mem st2) = map pi_tx (tm_mem st) @ [td_Tx d]" "blockTxns st2 = blockTxns st"
    using link_inputs_txs[of "src_HaveTransaction (g_txSource g)" fetched "TxHash L (td_Tx d)" "length (tm_mem st)" "tx_TxIn (td_Tx d)" st1]
    unfolding l snd_conv by (simp_all add: st1_def)
  have "set (map pi_tx (tm_mem st2)) = insert (td_Tx d) (set (map pi_tx (tm_mem st)))" by (simp only: st2(1)) simp
  then show "set (map pi_tx (tm_mem (enter_tx g L h d fetched st))) \<subseteq> insert (td_Tx d) (set (map pi_tx (tm_mem st)))"
    using l by (auto simp: enter_tx_def Let_def st1_def [symmetric] map_update_same simp del: set_map split: bool.split)
  show "blockTxns (enter_tx g L h d fetched st) = blockTxns st"
    using l st2(2) by (auto simp: enter_tx_def Let_def st1_def [symmetric] split: bool.split)
qed

lemma consider_all_drawn:
  assumes "foldC (consider_tx g env h) descs st s = Some (Inr st', s')" "drawn_from D st"
    "\<And>d. d \<in> set descs \<Longrightarrow> \<not> IsCoinBase (td_Tx d) \<Longrightarrow> td_Tx d \<in> D"
  shows "drawn_from D st'"
  using assms
proof (induction descs arbitrary: st s)
  case (Cons d descs)
  obtain st1 s1 where 1: "consider_tx g env h d st s = Some (Inr st1, s1)" "foldC (consider_tx g env h) descs st1 s1 = Some (Inr st', s')"
    using Cons.prems(1) by (auto simp: comp_iffs)
  have "st1 = st \<or> \<not> IsCoinBase (td_Tx d) \<and> (\<exists>fetched. st1 = enter_tx g (e_wire env) h d fetched st)"
  proof (cases "IsCoinBase (td_Tx d) \<or> \<not> IsFinalizedTransaction (td_Tx d) h (AdjustedTime env)")
    case True
    then show ?thesis using 1(1) by (auto simp: consider_tx_def comp_iffs split: if_splits)
  next
    case False
    then obtain r s2 where r: "tryC (fetch_view env (td_Tx d)) s = Some (Inr r, s2)"
        "(case r of Inl e \<Rightarrow> if e = Panic then failC Panic else retC st
          | Inr fetched \<Rightarrow> retC (enter_tx g (e_wire env) h d fetched st)) s2 = Some (Inr st1, s1)"
      using 1(1) by (auto simp: consider_tx_def comp_iffs)
    then show ?thesis using False by (cases r) (auto simp: comp_iffs split: if_splits)
  qed
  moreover have "drawn_from D (enter_tx g (e_wire env) h d fetched st)" if "\<not> IsCoinBase (td_Tx d)" for fetched
  proof -
    have "insert (td_Tx d) (set (map pi_tx (tm_mem st))) \<subseteq> D" using Cons.prems(2) Cons.prems(3)[of d] that by (simp add: drawn_from_def)
    then show ?thesis
      using Cons.prems(2) subset_trans[OF enter_tx_txs(1)[of g "e_wire env" h d fetched st]] by (simp add: drawn_from_def enter_tx_txs(2))
  qed
  ultimately have "drawn_from D st1" using Cons.prems(2) by blast
  then show ?case using Cons.IH[OF 1(2)] Cons.prems(3) by simp
qed (simp add: comp_iffs)

lemma release_txs: "map pi_tx (tm_mem (fold (release h) ds st)) = map pi_tx (tm_mem st)"
proof (induction ds arbitrary: st)
  case (Cons d ds)
  have "map pi_tx (tm_mem (release h d st)) = map pi_tx (tm_mem st)"
    by (cases d) (simp add: release_def Let_def map_update_same)
  then show ?case using Cons.IH[of "release h d st"] by simp
qed simp

lemma picked_fold: "blockTxns (fold (release h) ds st) = blockTxns st"
  using release_frame[where h = h and ds = ds and st = st] by auto

lemma add_tx_drawn:
  assumes "drawn_from D st" "blockTxns st \<noteq> []" "p < length (tm_mem st)"
  shows "drawn_from D (add_tx g L h (tm_mem st ! p) w c st)"
proof -
  let ?item = "tm_mem st ! p"
  have "map pi_tx (tm_mem (add_tx g L h ?item w c st)) = map pi_tx (tm_mem st)" by (simp add: add_tx_def Let_def release_txs)
  moreover have "blockTxns (add_tx g L h ?item w c st) = blockTxns st @ [pi_tx ?item]"
    using picked_fold by (simp add: add_tx_def Let_def)
  moreover have "pi_tx ?item \<in> D" using assms(1,3) by (auto simp: drawn_from_def)
  ultimately show ?thesis using assms(1,2) by (auto simp: drawn_from_def simp del: set_map)
qed

lemma choose_tx_drawn:
  assumes "sel_ok L st" "pq_items (priorityQueue st) \<noteq> []" "drawn_from D st"
  shows "drawn_from D (choose_tx g L h segwitActive cb st)"
proof -
  obtain p q st1 where p: "popped L st1 p"
    "st1 = st\<lparr>priorityQueue := q\<rparr> \<or> \<not> witnessIncluded st \<and>
      st1 = st\<lparr>priorityQueue := q, blockWeight := blockWeight st + word_of_int (weightDiff L cb), witnessIncluded := True\<rparr>"
    "choose_tx g L h segwitActive cb st = st1 \<or>
      (\<exists>w c. choose_tx g L h segwitActive cb st = admit g L h p w c st1 \<and> w = word_of_int (GetTransactionWeight L (pi_tx (tm_mem st1 ! p)))
        \<and> \<not> blockWeight st1 + w < blockWeight st1 \<and> blockWeight st1 + w < BlockMaxWeight (g_policy g))"
    by (rule choose_tx_cases[OF assms(1,2), of cb g h segwitActive]) blast
  have st1: "drawn_from D st1" "blockTxns st1 \<noteq> []" "p < length (tm_mem st1)"
    using p(1,2) assms(1,3) by (auto simp: drawn_from_def sel_ok_def popped_def)
  have "drawn_from D (admit g L h p w c st1)" for w c
  proof (cases rule: admit_cases[of g L h p w c st1])
    case (added st')
    then have "drawn_from D st'" "blockTxns st' \<noteq> []" "p < length (tm_mem st')" using st1 by (auto simp: drawn_from_def by_fees_def)
    then show ?thesis using add_tx_drawn added(1) by simp
  qed (use st1 in \<open>auto simp: drawn_from_def by_fees_def\<close>)
  then show ?thesis using p(3) st1(1) by metis
qed

lemma choose_loop_drawn:
  assumes "choose_loop g L h segwitActive cb st = Some st'" "sel_ok L st" "range_ok g" "drawn_from D st"
  shows "drawn_from D st'"
  using assms(1) unfolding choose_loop_def
  by (rule conjunct2[OF while_option_rule[rotated, where P = "\<lambda>st. sel_ok L st \<and> drawn_from D st"]])
     (use assms choose_tx_keeps choose_tx_drawn in \<open>auto simp: pq_Len_def\<close>)

end
