(* ===== verification/Mining_Template.thy ===== *)
theory Mining_Template
  imports Mining_Sound Mempool_Reachable Reachable
begin

text \<open>
  The properties of the block template generator: its queue, its coinbase, the witness commitment, the selection
  loop, and the template it returns.
\<close>

section \<open>The coinbase\<close>

lemma serializeScriptNum_eq:
  assumes "- (2 ^ 31) \<le> n" "n < 2 ^ 31"
  shows "serializeScriptNum n = Inr (serializeCoinbaseHeight n)"
proof -
  have "i64 (- n) = - n" using assms by (intro i64_id) auto
  moreover have "height_bytes (nat (if n < 0 then - n else n)) \<noteq> []" if "n \<noteq> 0" using that by auto
  ultimately show ?thesis by (auto simp: serializeScriptNum_def serializeCoinbaseHeight_def Let_def)
qed

text \<open>What the generator relies on of package \<open>wire\<close>: the index of a null outpoint, and that appending to a block appends.\<close>

definition gen_ok :: "BlkTmplGenerator \<Rightarrow> bool" where
  "gen_ok g \<longleftrightarrow> MaxPrevOutIndex g = maxUint32 \<and> (\<forall>txs tx txs'. AddTransaction g txs tx = Inr txs' \<longrightarrow> txs' = txs @ [tx])"

lemma createCoinbaseTx_shape:
  assumes "createCoinbaseTx g script h addr = Inr cb"
  shows "\<exists>pk gen. tx_TxIn cb = [\<lparr>PreviousOutPoint = \<lparr>op_Hash = zeroHash, op_Index = MaxPrevOutIndex g\<rparr>,
      SignatureScript = script, Witness = [], Sequence = MaxTxInSequenceNum g\<rparr>]
    \<and> tx_TxOut cb = \<lparr>Value = CalcMinerSubsidy h (g_chainParams g), PkScript = pk\<rparr> # gen
    \<and> genesis_output g (CalcGenesisShare h (g_chainParams g)) = Inr gen"
  using assms by (auto simp: createCoinbaseTx_def Let_def bindE_Inr_iff)

lemma genesis_output_cases:
  assumes "genesis_output g share = Inr gen"
  shows "gen = [] \<or> (\<exists>pk. gen = [\<lparr>Value = share, PkScript = pk\<rparr>])"
  using assms by (auto simp: genesis_output_def bindE_Inr_iff split: if_splits sum.splits)

lemma standardCoinbaseScript_eq:
  assumes "0 \<le> h" "h < 2 ^ 31"
  shows "standardCoinbaseScript h extraNonce = Inr (serializeCoinbaseHeight h @ 0 # 18 # CoinbaseFlags)"
  using assms serializeScriptNum_eq[of h] by (simp add: standardCoinbaseScript_def bindE_def CoinbaseFlags_def)

lemma coinbase_facts:
  assumes g: "gen_ok g" and h: "0 \<le> h" "h < 2 ^ 31" and reward: "initialReward (g_chainParams g) < 2 ^ 53"
      "minReward (g_chainParams g) < 2 ^ 53" "GenesisAddressShare (g_chainParams g) \<le> 100"
    and cb: "standardCoinbaseScript h extraNonce = Inr script" "createCoinbaseTx g script h addr = Inr cb"
  shows "IsCoinBase cb \<and> CheckSerializedHeight cb h = Inr () \<and> list_all (\<lambda>txOut. 0 \<le> Value txOut) (tx_TxOut cb)
    \<and> value_out cb \<le> CalcBlockSubsidy h (g_chainParams g)
    \<and> (length (tx_TxOut cb) = 2 \<longrightarrow> value_out cb = CalcBlockSubsidy h (g_chainParams g))"
proof -
  obtain pk gen where s: "tx_TxIn cb = [\<lparr>PreviousOutPoint = \<lparr>op_Hash = zeroHash, op_Index = MaxPrevOutIndex g\<rparr>,
      SignatureScript = script, Witness = [], Sequence = MaxTxInSequenceNum g\<rparr>]"
    "tx_TxOut cb = \<lparr>Value = CalcMinerSubsidy h (g_chainParams g), PkScript = pk\<rparr> # gen"
    "genesis_output g (CalcGenesisShare h (g_chainParams g)) = Inr gen"
    using createCoinbaseTx_shape[OF cb(2)] by blast
  have "IsCoinBase cb" using s(1) g by (simp add: IsCoinBase_null isNullOutpoint_def gen_ok_def)
  moreover have "script = serializeCoinbaseHeight h @ 0 # 18 # CoinbaseFlags"
    using cb(1) standardCoinbaseScript_eq[OF h] by simp
  then have "CheckSerializedHeight cb h = Inr ()" using CheckSerializedHeight_correct[OF h s(1)] by simp
  moreover note subsidy_split[OF reward, of h] genesis_output_cases[OF s(3)]
  ultimately show ?thesis using s(2) by (auto simp: value_out_def)
qed

section \<open>The witness commitment\<close>

lemma CalcMerkleRoot_witness_first:
  "CalcMerkleRoot L (cb # txs) True = CalcMerkleRoot L (cb' # txs) True"
  using CalcMerkleRoot_eq[of "cb # txs" L True] CalcMerkleRoot_eq[of "cb' # txs" L True]
  by (simp add: leaves_def leaf_def)

lemma AddWitnessCommitment_ok:
  assumes "IsCoinBase cb" "\<And>bs. length (DoubleHash L bs) = 32" "AddWitnessCommitment L cb txs = Inr (cb', commitment)"
    and "Transactions blk = cb' # txs"
  shows "ValidateWitnessCommitment L blk = Inr () \<and> ExtractWitnessCommitment cb' = Some commitment"
proof -
  obtain txIn where txIn: "tx_TxIn cb = [txIn]" "isNullOutpoint (PreviousOutPoint txIn)" using assms(1) by (auto simp: IsCoinBase_null)
  let ?nonce = "replicate CoinbaseWitnessDataLen (0 :: byte)"
  obtain r where r: "CalcMerkleRoot L (cb\<lparr>tx_TxIn := [txIn\<lparr>Witness := [?nonce]\<rparr>]\<rparr> # txs) True = Some r"
    "commitment = DoubleHash L (r @ ?nonce)"
    "cb' = cb\<lparr>tx_TxIn := [txIn\<lparr>Witness := [?nonce]\<rparr>], tx_TxOut := tx_TxOut cb @ [\<lparr>Value = 0, PkScript = WitnessMagicBytes @ commitment\<rparr>]\<rparr>"
    using assms(3) txIn(1) by (auto simp: AddWitnessCommitment_def Let_def split: option.splits)
  have cb': "IsCoinBase cb'" using txIn(2) r(3) by (simp add: IsCoinBase_null)
  have len: "length commitment = 32" using assms(2) r(2) by simp
  have ext: "ExtractWitnessCommitment cb' = Some commitment"
    using cb' len r(3) by (simp add: ExtractWitnessCommitment_def Let_def WitnessMagicBytes_def CoinbaseWitnessPkScriptLength_def)
  have "CalcMerkleRoot L (cb' # txs) True = Some r" using r(1) CalcMerkleRoot_witness_first by metis
  then show ?thesis using ext assms(4) r(2,3) by (simp add: ValidateWitnessCommitment_def Let_def)
qed

section \<open>The template\<close>

text \<open>The runs of the parts of a successful call.\<close>

lemma NewBlockTemplate_parts:
  assumes "NewBlockTemplate g env addr s = Some (Inr t, s')"
  obtains script cb st0 s1 segwit s2 st where
    "standardCoinbaseScript (i32 (st_Height (stateSnapshot s) + 1)) 0 = Inr script"
    "createCoinbaseTx g script (i32 (st_Height (stateSnapshot s) + 1)) addr = Inr cb"
    "foldC (consider_tx g env (i32 (st_Height (stateSnapshot s) + 1))) (src_MiningDescs (g_txSource g)) (initial_state g (e_wire env) cb) s
      = Some (Inr st0, s1)"
    "ThresholdState_of env (DeploymentSegwit (g_chainParams g)) s1 = Some (Inr segwit, s2)"
    "choose_loop g (e_wire env) (i32 (st_Height (stateSnapshot s) + 1)) (segwit = ThresholdActive) cb st0 = Some st"
    "finish_template g env (stateSnapshot s) addr st s2 = Some (Inr t, s')"
  using assms unfolding NewBlockTemplate_def Let_def by (auto simp: comp_iffs BestSnapshot_def)

lemma add_all:
  assumes "gen_ok g" "foldE (\<lambda>tx txs. AddTransaction g txs tx) xs acc = Inr txs"
  shows "txs = acc @ xs"
  using assms(2)
proof (induction xs arbitrary: acc)
  case (Cons x xs)
  then obtain acc' where "AddTransaction g acc x = Inr acc'" "foldE (\<lambda>tx txs. AddTransaction g txs tx) xs acc' = Inr txs"
    by (auto simp: bindE_Inr_iff)
  moreover from this have "acc' = acc @ [x]" using assms(1) unfolding gen_ok_def by blast
  ultimately show ?case using Cons.IH[of "acc @ [x]"] by simp
qed simp

text \<open>The coinbase that goes into the block, and the commitment.\<close>

definition final_coinbase :: "BlkTmplGenerator \<Rightarrow> wire_lib \<Rightarrow> tmpl_state \<Rightarrow> error + MsgTx \<times> byte list option" where
  "final_coinbase g L st =
    (let coinbaseTx = fst (pay_fees g (totalFees st) (hd (blockTxns st)) (txFees st))
     in if witnessIncluded st then bindE (AddWitnessCommitment L coinbaseTx (picked st)) (\<lambda>(c, w). Inr (c, Some w))
        else Inr (coinbaseTx, None))"

lemma finish_parts:
  assumes g: "gen_ok g" and run: "finish_template g env best addr st s2 = Some (Inr t, s')"
  shows "\<exists>cb ver s3. final_coinbase g (e_wire env) st = Inr (cb, WitnessCommitment t)
    \<and> CalcNextBlockVersion env s2 = Some (Inr ver, s3) \<and> bt_Transactions t = cb # picked st
    \<and> CalcMerkleRoot (e_wire env) (cb # picked st) False = Some (hMerkleRoot (bt_Header t))
    \<and> bt_Fees t = snd (pay_fees g (totalFees st) (hd (blockTxns st)) (txFees st)) \<and> bt_SigOpCosts t = txSigOpCosts st
    \<and> bt_Height t = i32 (st_Height best + 1) \<and> hPrevBlock (bt_Header t) = st_Hash best
    \<and> hTimestamp (bt_Header t) = medianAdjustedTime best (AdjustedTime env)
    \<and> CalcNextRequiredDifficulty env s2 (st_Hash best) (hTimestamp (bt_Header t)) = Inr (hBits (bt_Header t))
    \<and> CheckConnectBlockTemplate env \<lparr>Header = bt_Header t, Transactions = bt_Transactions t, blk_Height = bt_Height t\<rparr> s3 = Some (Inr (), s')"
proof -
  obtain coinbase fees where pay: "pay_fees g (totalFees st) (hd (blockTxns st)) (txFees st) = (coinbase, fees)" by fastforce
  have eq: "finish_template g env best addr st s2 =
    bindC (liftE (final_coinbase g (e_wire env) st)) (\<lambda>(coinbaseTx, witnessCommitment).
        let ts = medianAdjustedTime best (AdjustedTime env)
        in bindC (\<lambda>s. Some (CalcNextRequiredDifficulty env s (st_Hash best) ts, s)) (\<lambda>reqDifficulty.
           bindC (CalcNextBlockVersion env) (\<lambda>nextBlockVersion.
           bindC (liftE (case CalcMerkleRoot (e_wire env) (coinbaseTx # picked st) False of None \<Rightarrow> Inl Panic | Some r \<Rightarrow> Inr r)) (\<lambda>merkleRoot.
           let header = \<lparr>hVersion = sint nextBlockVersion, hPrevBlock = st_Hash best, hMerkleRoot = merkleRoot,
                 hTimestamp = ts, hBits = reqDifficulty, hNonce = 0\<rparr>
           in bindC (liftE (foldE (\<lambda>tx txs. AddTransaction g txs tx) (coinbaseTx # picked st) [])) (\<lambda>transactions.
              seqC (CheckConnectBlockTemplate env \<lparr>Header = header, Transactions = transactions, blk_Height = i32 (st_Height best + 1)\<rparr>)
                (retC \<lparr>bt_Header = header, bt_Transactions = transactions, bt_Fees = fees, bt_SigOpCosts = txSigOpCosts st,
                   bt_Height = i32 (st_Height best + 1), ValidPayAddress = (addr \<noteq> None), WitnessCommitment = witnessCommitment\<rparr>)))))) s2"
    unfolding finish_template_def Let_def final_coinbase_def pay by simp
  from run[unfolded eq] pay show ?thesis
    by (auto simp: comp_iffs Let_def simp del: foldE.simps split: option.splits dest!: add_all[OF g])
qed

lemma core_template_steps:
  "keeps core_same (consider_tx g env h d st)" "keeps core_same (ThresholdState_of env i)" "keeps core_same (CalcNextBlockVersion env)"
proof -
  have "keeps core_same (fetch_view env tx)" for tx
    by (auto simp: keeps_def fetch_view_def split: sum.splits prod.splits)
  then show "keeps core_same (consider_tx g env h d st)"
    unfolding consider_tx_def by (auto intro!: core_intros split: sum.split)
  show "keeps core_same (ThresholdState_of env i)" unfolding ThresholdState_of_def by (auto intro!: core_intros)
  show "keeps core_same (CalcNextBlockVersion env)" by (auto simp: keeps_def CalcNextBlockVersion_def)
qed

text \<open>Checking a template leaves the best chain and its snapshot as they are.\<close>

definition best_same :: "('b, 'bl) BlockChain \<Rightarrow> ('b, 'bl) BlockChain \<Rightarrow> bool" where
  "best_same s s' \<longleftrightarrow> bestChain s' = bestChain s \<and> stateSnapshot s' = stateSnapshot s \<and> index (bindex s') = index (bindex s)"

lemma best_same_rel: "reflp best_same" "transp best_same"
  by (auto simp: best_same_def reflp_def transp_def)

lemma best_same_core: "keeps core_same m \<Longrightarrow> keeps best_same m"
  by (erule keeps_weaken) (simp add: core_same_def best_same_def)

lemma CheckConnectBlockTemplate_keeps: "keeps best_same (CheckConnectBlockTemplate env block)"
  unfolding CheckConnectBlockTemplate_def
  by (intro keeps_bindC[OF best_same_rel(2)] keeps_simple(3)[OF best_same_rel(1)], split option.split, intro conjI allI impI)
     (auto intro!: keeps_bindC[OF best_same_rel(2)] keeps_seqC[OF best_same_rel(2)] keeps_simple(1-6)[OF best_same_rel(1)] keeps_simple(7)
        best_same_core[OF core_checkBlockContext] best_same_core[OF core_checkConnectBlock] simp: best_same_def split: prod.split)

text \<open>What the generator relies on: \<open>gen_ok\<close>, an order of map entries, and a source without repeated hashes.\<close>

definition source_ok :: "wire_lib \<Rightarrow> BlkTmplGenerator \<Rightarrow> bool" where
  "source_ok L g \<longleftrightarrow> range_ok g \<and> distinct (map (\<lambda>d. TxHash L (td_Tx d)) (src_MiningDescs (g_txSource g)))"

lemma collected:
  assumes "source_ok (e_wire env) g"
    and "foldC (consider_tx g env h) (src_MiningDescs (g_txSource g)) (initial_state g (e_wire env) cb) s = Some (Inr st, s')"
  shows "sel_ok (e_wire env) st" "same_totals (initial_state g (e_wire env) cb) st" "blockTxns st = [cb]"
    "picked_ok g (e_wire env) h cb (blockUtxos st) st" "weight_ok g (e_wire env) cb (blockWeight st) st"
proof -
  have *: "sel_ok (e_wire env) st \<and> same_totals (initial_state g (e_wire env) cb) st"
    using consider_all_keeps[OF coll_ok_initial _ _ assms(2)] assms(1) by (simp add: source_ok_def)
  then show "sel_ok (e_wire env) st" "same_totals (initial_state g (e_wire env) cb) st" by auto
  then show "blockTxns st = [cb]" "picked_ok g (e_wire env) h cb (blockUtxos st) st" "weight_ok g (e_wire env) cb (blockWeight st) st"
    by (auto simp: same_totals_def initial_state_def Let_def picked_ok_def weight_ok_def i64_def)
qed

lemma pool_source_ok:
  assumes "txpool_ok rank L mp" "range_ok g" "g_txSource g = pool_source mp"
  shows "source_ok L g"
proof -
  have "map (\<lambda>d. TxHash L (td_Tx d)) (map snd (pool mp)) = map fst (pool mp)"
    using txpool_okD(2)[OF assms(1)] by auto
  then have "distinct (map (\<lambda>d. TxHash L (td_Tx d)) (map snd (pool mp)))" by (simp only: txpool_okD(1)[OF assms(1)])
  then show ?thesis using assms by (simp add: source_ok_def pool_source_def MiningDescs_def del: map_map)
qed

lemma final_coinbase_coinbase:
  assumes "gen_ok g" "createCoinbaseTx g script h addr = Inr cb" "picked_ok g L h cb view0 st" "final_coinbase g L st = Inr (cb', wc)"
  shows "IsCoinBase cb'"
proof -
  obtain txIn where cb: "tx_TxIn cb = [txIn]" "isNullOutpoint (PreviousOutPoint txIn)"
    using createCoinbaseTx_shape[OF assms(2)] assms(1) by (auto simp: gen_ok_def isNullOutpoint_def)
  let ?paid = "fst (pay_fees g (totalFees st) (hd (blockTxns st)) (txFees st))"
  have paid: "tx_TxIn ?paid = [txIn]" using assms(3) cb(1) by (simp add: picked_ok_def pay_fees_def)
  have "\<exists>txIn'. tx_TxIn cb' = [txIn'] \<and> PreviousOutPoint txIn' = PreviousOutPoint txIn"
    using assms(4) paid
    by (auto simp: final_coinbase_def Let_def bindE_Inr_iff AddWitnessCommitment_def split: if_splits option.splits)
  then show ?thesis using cb(2) by (auto simp: IsCoinBase_null)
qed

section \<open>Properties\<close>

text \<open>
  Popping from a queue in heap order, with either comparison function, returns an item that no item of the
  queue comes before, keeps the others, each as often as before, and leaves a queue in heap order.
\<close>

theorem pq_Pop_returns_best:
  assumes "pq_ok mem pq" "0 < pq_Len pq"
  shows "\<exists>x pq'. pq_Pop mem pq = Some (x, pq') \<and> pq_ok mem pq'
    \<and> mset (pq_items pq) = add_mset x (mset (pq_items pq')) \<and> (\<forall>y \<in> set (pq_items pq). \<not> pq_lessFunc pq mem y x)"
  using pq_Pop_best[OF assms(1)] assms(2) by (fastforce simp: pq_Len_def)

text \<open>
  C17: the selection loop ends, with an empty queue, after the transactions of any source without repeated hashes
  have been collected, whatever they depend on and in whatever order Go visits its maps.
\<close>

theorem template_selection_total:
  assumes "source_ok (e_wire env) g"
    and "foldC (consider_tx g env h) (src_MiningDescs (g_txSource g)) (initial_state g (e_wire env) cb) s = Some (Inr st, s')"
  shows "\<exists>st'. choose_loop g (e_wire env) h segwitActive cb st = Some st' \<and> pq_Len (priorityQueue st') = 0"
proof -
  obtain st' where st': "choose_loop g (e_wire env) h segwitActive cb st = Some st'"
    using choose_loop_returns[OF collected(1)[OF assms], of g h segwitActive cb] assms(1) by (auto simp: source_ok_def)
  then have "\<not> pq_Len (priorityQueue st') > 0"
    unfolding choose_loop_def by (rule while_option_stop)
  then show ?thesis using st' by blast
qed

text \<open>
  C10: let the source have sane transactions without repeated hashes.  The transactions selected for a template are
  transactions of the source that follow the coinbase, none twice.  On the ledger of the view that was collected from the
  chain, taken one after the other, none is a coinbase, each spends only coins that exist when its turn comes,
  are in range and, if a coinbase made them, mature, and these coins are worth at least its outputs; the view of the
  template afterwards is the ledger with all of them applied.  When any are selected, header, coinbase and selected
  transactions weigh less than the policy allows, if the weights of coinbase and limit leave room for 32-bit sums.
\<close>

theorem template_selection_sound:
  assumes "source_ok (e_wire env) g" "0 \<le> MaxSatoshi (e_wire env)" "MaxSatoshi (e_wire env) < 2 ^ 62"
    and "\<forall>d \<in> set (src_MiningDescs (g_txSource g)). CheckTransactionSanity (e_wire env) (td_Tx d) = Inr ()"
    and "foldC (consider_tx g env h) (src_MiningDescs (g_txSource g)) (initial_state g (e_wire env) cb) s = Some (Inr st, s')"
    and "choose_loop g (e_wire env) h segwitActive cb st = Some st'" "weights_fit g (e_wire env) cb (blockWeight st)"
  shows "\<exists>txs. blockTxns st' = cb # txs \<and> set txs \<subseteq> td_Tx ` set (src_MiningDescs (g_txSource g))
    \<and> distinct (map (TxHash (e_wire env)) txs)
    \<and> all_pay (e_wire env) (g_chainParams g) h txs (view_coins (blockUtxos st))
    \<and> view_coins (blockUtxos st') = ledger_block (e_wire env) h txs (view_coins (blockUtxos st))
    \<and> (txs = [] \<or> unat (blockWeight st) + sum_list (map (tx_weight (e_wire env)) txs) < unat (BlockMaxWeight (g_policy g)))"
proof -
  let ?L = "e_wire env" and ?D = "{td_Tx d |d. d \<in> set (src_MiningDescs (g_txSource g)) \<and> \<not> IsCoinBase (td_Tx d)}"
  have rng: "range_ok g" using assms(1) by (simp add: source_ok_def)
  have money: "money_ok ?L" using assms(2,3) by (simp add: money_ok_def)
  note c = collected[OF assms(1,5)]
  have "drawn_from ?D (initial_state g ?L cb)" by (simp add: drawn_from_def initial_state_def Let_def)
  then have "drawn_from ?D st" by (rule consider_all_drawn[OF assms(5)]) auto
  then have drawn: "set (picked st') \<subseteq> ?D" using choose_loop_drawn[OF assms(6) c(1) rng] by (simp add: drawn_from_def)
  then have "list_all (sane_tx ?L) (picked st')" "list_all (\<lambda>tx. \<not> IsCoinBase tx) (picked st')"
    using assms(4) CheckTransactionSanity_iff[OF money] by (auto simp: list_all_iff)
  note pays = replay_pays[OF money this, of "g_chainParams g" h "blockUtxos st" "blockUtxos st'"]
  have ok: "picked_ok g ?L h cb (blockUtxos st) st'" "weight_ok g ?L cb (blockWeight st) st'"
    using choose_loop_picks[OF assms(6) c(1) rng c(4,5)] assms(7) by blast+
  then have "blockTxns st' = cb # picked st'" by (cases "blockTxns st'") (auto simp: picked_ok_def)
  moreover have "set (picked st') \<subseteq> td_Tx ` set (src_MiningDescs (g_txSource g))" using drawn by auto
  ultimately show ?thesis
    using ok pays by (intro exI[of _ "picked st'"]) (auto simp: picked_ok_def weight_ok_def)
qed

text \<open>
  C22: for heights below \<open>2 ^ 31\<close>, rewards below \<open>2 ^ 53\<close> and a genesis share of at most 100 percent, the coinbase of a template
  is a coinbase, starts with the serialized height that the chain requires, has no negative output, and pays at
  most the subsidy of its height, all of it when it has the second output that pays the genesis share.
\<close>

theorem template_coinbase_ok:
  assumes "gen_ok g" "0 \<le> h" "h < 2 ^ 31" "initialReward (g_chainParams g) < 2 ^ 53"
      "minReward (g_chainParams g) < 2 ^ 53" "GenesisAddressShare (g_chainParams g) \<le> 100"
    and "standardCoinbaseScript h extraNonce = Inr script" "createCoinbaseTx g script h addr = Inr cb"
  shows "IsCoinBase cb \<and> CheckSerializedHeight cb h = Inr () \<and> list_all (\<lambda>txOut. 0 \<le> Value txOut) (tx_TxOut cb)
    \<and> value_out cb \<le> CalcBlockSubsidy h (g_chainParams g)
    \<and> (length (tx_TxOut cb) = 2 \<longrightarrow> value_out cb = CalcBlockSubsidy h (g_chainParams g))"
  by (rule coinbase_facts[OF assms])

text \<open>
  The commitment that is added to the coinbase is the one that the chain extracts from it, and the block of the
  new coinbase and the selected transactions passes the chain's check of the commitment.
\<close>

theorem witness_commitment_roundtrip:
  assumes "IsCoinBase cb" "\<And>bs. length (DoubleHash L bs) = 32" "AddWitnessCommitment L cb txs = Inr (cb', commitment)"
  shows "ExtractWitnessCommitment cb' = Some commitment
    \<and> ValidateWitnessCommitment L \<lparr>Header = header, Transactions = cb' # txs, blk_Height = h\<rparr> = Inr ()"
  using AddWitnessCommitment_ok[OF assms, of "\<lparr>Header = header, Transactions = cb' # txs, blk_Height = h\<rparr>"] by simp

text \<open>
  C11: a template that is returned extends the best block at the next height, has a time after the median time of
  the chain, the merkle root of its transactions and the required bits; its transactions start with a coinbase
  and are otherwise distinct; it lists a fee and a cost for each of them; it has passed the chain's check for
  connecting it; and the best chain, its snapshot and the block index are as they were.
\<close>

theorem NewBlockTemplate_ready:
  assumes "gen_ok g" "source_ok (e_wire env) g" "NewBlockTemplate g env addr s = Some (Inr t, s')"
  shows "hPrevBlock (bt_Header t) = st_Hash (stateSnapshot s) \<and> bt_Height t = i32 (st_Height (stateSnapshot s) + 1)
    \<and> st_MedianTime (stateSnapshot s) < hTimestamp (bt_Header t)
    \<and> CalcMerkleRoot (e_wire env) (bt_Transactions t) False = Some (hMerkleRoot (bt_Header t))
    \<and> CalcNextRequiredDifficulty env s (st_Hash (stateSnapshot s)) (hTimestamp (bt_Header t)) = Inr (hBits (bt_Header t))
    \<and> IsCoinBase (hd (bt_Transactions t)) \<and> distinct (map (TxHash (e_wire env)) (tl (bt_Transactions t)))
    \<and> length (bt_Fees t) = length (bt_Transactions t) \<and> length (bt_SigOpCosts t) = length (bt_Transactions t)
    \<and> hd (bt_Fees t) = (if BurnFees g then 0 else i64 (- i64 (sum_list (tl (bt_Fees t)))))
    \<and> (\<exists>s1. best_same s s1 \<and> CheckConnectBlockTemplate env
          \<lparr>Header = bt_Header t, Transactions = bt_Transactions t, blk_Height = bt_Height t\<rparr> s1 = Some (Inr (), s'))
    \<and> best_same s s'"
proof -
  let ?h = "i32 (st_Height (stateSnapshot s) + 1)" and ?L = "e_wire env"
  obtain script cb st0 s1 segwit s2 st where p:
      "createCoinbaseTx g script ?h addr = Inr cb"
      "foldC (consider_tx g env ?h) (src_MiningDescs (g_txSource g)) (initial_state g ?L cb) s = Some (Inr st0, s1)"
      "ThresholdState_of env (DeploymentSegwit (g_chainParams g)) s1 = Some (Inr segwit, s2)"
      "choose_loop g ?L ?h (segwit = ThresholdActive) cb st0 = Some st"
      "finish_template g env (stateSnapshot s) addr st s2 = Some (Inr t, s')"
    by (rule NewBlockTemplate_parts[OF assms(3)])
  note c = collected[OF assms(2) p(2)]
  have ok: "picked_ok g ?L ?h cb (blockUtxos st0) st"
    using choose_loop_picks[OF p(4) c(1) _ c(4,5)] assms(2) by (simp add: source_ok_def)
  obtain cb' ver s3 where f: "final_coinbase g ?L st = Inr (cb', WitnessCommitment t)"
    "CalcNextBlockVersion env s2 = Some (Inr ver, s3)" "bt_Transactions t = cb' # picked st"
    "CalcMerkleRoot ?L (cb' # picked st) False = Some (hMerkleRoot (bt_Header t))"
    "bt_Fees t = snd (pay_fees g (totalFees st) (hd (blockTxns st)) (txFees st))" "bt_SigOpCosts t = txSigOpCosts st"
    "bt_Height t = ?h" "hPrevBlock (bt_Header t) = st_Hash (stateSnapshot s)"
    "hTimestamp (bt_Header t) = medianAdjustedTime (stateSnapshot s) (AdjustedTime env)"
    "CalcNextRequiredDifficulty env s2 (st_Hash (stateSnapshot s)) (hTimestamp (bt_Header t)) = Inr (hBits (bt_Header t))"
    "CheckConnectBlockTemplate env \<lparr>Header = bt_Header t, Transactions = bt_Transactions t, blk_Height = bt_Height t\<rparr> s3 = Some (Inr (), s')"
    using finish_parts[OF assms(1) p(5)] by blast
  have core: "core_same s s1" "core_same s1 s2" "core_same s2 s3"
    using keepsD[OF keeps_foldC[OF core_same_rel core_template_steps(1)] p(2)] keepsD[OF core_template_steps(2) p(3)]
      keepsD[OF core_template_steps(3) f(2)] by auto
  then have s2: "core_same s s2" "best_same s s3" by (auto simp: core_same_def best_same_def)
  have "best_same s3 s'" using keepsD[OF CheckConnectBlockTemplate_keeps f(11)] .
  then have s': "best_same s s'" using s2(2) by (simp add: best_same_def)
  have diff: "CalcNextRequiredDifficulty env s h t = CalcNextRequiredDifficulty env s2 h t" for h t
    using s2(1) by (simp add: CalcNextRequiredDifficulty_def core_same_def LookupNode_def)
  have "IsCoinBase cb'" using final_coinbase_coinbase[OF assms(1) p(1) ok f(1)] .
  moreover have "length (bt_Fees t) = Suc (length (picked st))" "hd (bt_Fees t) = (if BurnFees g then 0 else i64 (- i64 (sum_list (tl (bt_Fees t)))))"
    using ok f(5) by (cases "txFees st"; cases "blockTxns st"; auto simp: pay_fees_def picked_ok_def split: if_splits)+
  moreover have "st_MedianTime (stateSnapshot s) < hTimestamp (bt_Header t)"
    using f(9) by (simp add: medianAdjustedTime_def MinimumMedianTime_def Let_def)
  moreover have "length (bt_SigOpCosts t) = Suc (length (picked st))" "distinct (map (TxHash ?L) (picked st))"
    using ok f(6) by (auto simp: picked_ok_def)
  ultimately show ?thesis using f(3,4,7,8,10,11) diff s2(2) s' by auto
qed

section \<open>Updates\<close>

text \<open>The extra nonce is not written anywhere: a miner that runs out of nonces gets the same block again.\<close>

lemma UpdateExtraNonce_constant: "UpdateExtraNonce L b h extraNonce = UpdateExtraNonce L b h extraNonce'"
  by (simp add: UpdateExtraNonce_def standardCoinbaseScript_def)

lemma UpdateBlockTime_late:
  "\<exists>b'. UpdateBlockTime g env b s = Some (Inr b', s) \<and> st_MedianTime (stateSnapshot s) < hTimestamp (Header b')
    \<and> Transactions b' = Transactions b \<and> (ReduceMinDifficulty g \<or> hBits (Header b') = hBits (Header b))"
  by (auto simp: UpdateBlockTime_def comp_defs BestSnapshot_def Let_def medianAdjustedTime_def MinimumMedianTime_def)

text \<open>A transaction with witness data that does not fit still makes the coinbase carry a commitment, and its weight counts.\<close>

lemma witness_charged_though_skipped:
  assumes "pq_Pop (tm_mem st) (priorityQueue st) = Some (p, q)" "HasWitness L (pi_tx (tm_mem st ! p))" "\<not> witnessIncluded st"
    and "blockWeight st + word_of_int (weightDiff L cb) + word_of_int (GetTransactionWeight L (pi_tx (tm_mem st ! p))) \<ge> BlockMaxWeight (g_policy g)"
  shows "choose_tx g L h True cb st
    = st\<lparr>priorityQueue := q, blockWeight := blockWeight st + word_of_int (weightDiff L cb), witnessIncluded := True\<rparr>"
  using assms by (simp add: choose_tx_def Let_def)

section \<open>Witnesses\<close>

definition template_policy :: mining_Policy where
  "template_policy = \<lparr>BlockMinWeight = 0, BlockMaxWeight = 3000000, BlockMinSize = 0, BlockMaxSize = 750000,
    BlockPrioritySize = 50000, TxMinFreeFee = 1000\<rparr>"

definition template_gen :: "TxDesc list \<Rightarrow> BlkTmplGenerator" where
  "template_gen descs = \<lparr>g_policy = template_policy, g_chainParams = sample_params,
    g_txSource = \<lparr>src_MiningDescs = descs, src_HaveTransaction = (\<lambda>h. \<exists>d \<in> set descs. TxHash header_root_lib (td_Tx d) = h)\<rparr>,
    GenesisAddress = ''genesis'', BurnFees = True, ReduceMinDifficulty = False,
    DecodeAddress = (\<lambda>_. Inl CalleeError), DecodeAddress_MainNet = (\<lambda>_. Inr (AddressPubKeyHash (replicate 20 5))),
    SatoshiPerBitcoin = 100000000, MaxBlockHeaderPayload = 80, MaxVarIntPayload = 9, TxVersion = 1,
    MaxPrevOutIndex = maxUint32, MaxTxInSequenceNum = maxUint32, AddTransaction = (\<lambda>txs tx. Inr (txs @ [tx])),
    g_rnd = (\<lambda>x. x), range_order = rev\<rparr>"

lemma template_gen_simps [simp]:
  "g_policy (template_gen ds) = template_policy" "g_chainParams (template_gen ds) = sample_params"
  "src_MiningDescs (g_txSource (template_gen ds)) = ds" "MaxPrevOutIndex (template_gen ds) = maxUint32"
  "MaxTxInSequenceNum (template_gen ds) = maxUint32"
  "AddTransaction (template_gen ds) txs tx = Inr (txs @ [tx])" "TxVersion (template_gen ds) = 1" "BurnFees (template_gen ds)"
  by (simp_all add: template_gen_def)

lemma template_gen_ok: "gen_ok (template_gen ds)" "range_ok (template_gen ds)"
  by (simp_all add: gen_ok_def range_ok_def) (simp add: template_gen_def)

definition spend_desc :: TxDesc where
  "spend_desc = \<lparr>td_Tx = sample_spend, td_Added = 0, td_Height = 2, td_Fee = 0, FeePerKB = 5000, StartingPriority = 0\<rparr>"

text \<open>Two transactions that pay different fees.\<close>

definition fee_item :: "int \<Rightarrow> txPrioItem" where
  "fee_item f = \<lparr>pi_tx = sample_spend, pi_fee = f, pi_priority = 0, pi_feePerKB = f, dependsOn = None\<rparr>"

theorem pq_Pop_returns_best_witness:
  "\<exists>pq'. pq_Pop [fee_item 5, fee_item 9, fee_item 7]
      (SetLessFunc [fee_item 5, fee_item 9, fee_item 7] txPQByFee \<lparr>pq_lessFunc = txPQByPriority, pq_items = [0, 1, 2]\<rparr>) = Some (1, pq')
    \<and> mset (pq_items pq') = {#0, 2#}"
proof -
  let ?mem = "[fee_item 5, fee_item 9, fee_item 7]"
  let ?pq = "SetLessFunc ?mem txPQByFee \<lparr>pq_lessFunc = txPQByPriority, pq_items = [0, 1, 2]\<rparr>"
  have m: "mset (pq_items ?pq) = {#0, 1, 2#}" "pq_lessFunc ?pq = txPQByFee"
    by (simp_all add: pq_ok_SetLessFunc(2)) (simp add: SetLessFunc_def)
  have "pq_ok ?mem ?pq" "0 < pq_Len ?pq" using pq_ok_SetLessFunc(1)[of txPQByFee] by (auto simp: pq_Len_def)
  from pq_Pop_returns_best[OF this] obtain x pq' where x: "pq_Pop ?mem ?pq = Some (x, pq')" "mset (pq_items ?pq) = add_mset x (mset (pq_items pq'))"
      "\<forall>y \<in> set (pq_items ?pq). \<not> txPQByFee ?mem y x" using m(2) by auto
  have "x \<in># {#0, 1, 2#}" using x(2) m(1) by (metis union_single_eq_member add_mset_add_single)
  moreover have "\<not> txPQByFee ?mem 1 x" using x(3) m(1) by (auto simp flip: set_mset_mset)
  ultimately have "x = 1" by (auto simp: txPQByFee_def fee_item_def)
  then show ?thesis using x(1,2) m(1) by simp
qed

theorem witness_commitment_roundtrip_witness:
  "\<exists>cb' commitment. AddWitnessCommitment (header_root_lib\<lparr>DoubleHash := (\<lambda>_. replicate 32 7)\<rparr>) sample_coinbase [sample_spend] = Inr (cb', commitment)
    \<and> ExtractWitnessCommitment cb' = Some commitment
    \<and> ValidateWitnessCommitment (header_root_lib\<lparr>DoubleHash := (\<lambda>_. replicate 32 7)\<rparr>)
        \<lparr>Header = sample_header, Transactions = [cb', sample_spend], blk_Height = 3\<rparr> = Inr ()"
proof -
  let ?L = "header_root_lib\<lparr>DoubleHash := (\<lambda>_. replicate 32 7)\<rparr>"
  obtain cb' commitment where "AddWitnessCommitment ?L sample_coinbase [sample_spend] = Inr (cb', commitment)"
    by (simp add: AddWitnessCommitment_def CalcMerkleRoot_eq Let_def sample_coinbase_def)
  then show ?thesis using witness_commitment_roundtrip[OF sample_coinbases(1), of ?L "[sample_spend]" cb' commitment] by auto
qed

lemma template_coinbase_3:
  "standardCoinbaseScript 3 0 = Inr ([0x53, 0, 18] @ CoinbaseFlags)"
  "\<exists>cb. createCoinbaseTx (template_gen ds) ([0x53, 0, 18] @ CoinbaseFlags) 3 addr' = Inr cb \<and> length (tx_TxOut cb) = 2"
  if "addr' = None \<or> addr' = Some (AddressPubKeyHash a)"
proof -
  show "standardCoinbaseScript 3 0 = Inr ([0x53, 0, 18] @ CoinbaseFlags)"
    using standardCoinbaseScript_eq[of 3 0] by (simp add: serializeCoinbaseHeight_def)
  have "0 < CalcGenesisShare 3 sample_params"
    using subsidy_3 by (simp add: CalcGenesisShare_def Let_def sample_params_def[THEN arg_cong[where f = GenesisAddressShare]]
      genesisShareDenominator_def genesisShareNumerator_def)
     (simp add: sample_params_def go_div_def i64_id)
  then have "\<exists>o'. genesis_output (template_gen ds) (CalcGenesisShare 3 sample_params) = Inr [o']"
    by (simp add: genesis_output_def template_gen_def payToAddrScriptMining_def bindE_def)
  then show "\<exists>cb. createCoinbaseTx (template_gen ds) ([0x53, 0, 18] @ CoinbaseFlags) 3 addr' = Inr cb \<and> length (tx_TxOut cb) = 2"
    using that by (auto simp: createCoinbaseTx_def Let_def bindE_def payToAddrScriptMining_def)
qed

theorem template_coinbase_ok_witness:
  "\<exists>cb. createCoinbaseTx (template_gen []) ([0x53, 0, 18] @ CoinbaseFlags) 3 None = Inr cb
    \<and> CheckSerializedHeight cb 3 = Inr () \<and> value_out cb = CalcBlockSubsidy 3 sample_params"
  using template_coinbase_3(1)[where addr' = None] template_coinbase_3(2)[where ds = "[]" and addr' = None] template_coinbase_ok[OF template_gen_ok(1)[of "[]"], of 3 0 "[0x53, 0, 18] @ CoinbaseFlags" None]
  by (fastforce simp: sample_params_def[THEN arg_cong[where f = GenesisAddressShare]] initialReward_def minReward_def sample_params_def)

text \<open>The source with the one transaction that spends the coin of the sample chain.\<close>

lemma spend_collected:
  "\<exists>st s'. foldC (consider_tx (template_gen [spend_desc]) sample_env 3) [spend_desc]
      (initial_state (template_gen [spend_desc]) header_root_lib sample_coinbase) sample_chain = Some (Inr st, s')"
proof -
  let ?ops = "map (outpoint header_root_lib sample_spend) [0..<length (tx_TxOut sample_spend)] @ [sample_outpoint]"
  have "\<forall>op \<in> set ?ops. op_ok op" using sample_outpoint_ok by (auto simp: op_ok_def outpoint_def root_hash)
  then obtain c v where "fetchUtxosFromCache (e_log2 sample_env) (e_keys sample_env) (e_bucket sample_env) (utxoBucket (cdb sample_chain))
      ?ops (utxos sample_chain, NewUtxoViewpoint) = Inr (c, v)"
    using fetch_into_view[of "e_keys sample_env" "e_bucket sample_env" "utxoBucket (cdb sample_chain)" "utxos sample_chain" ?ops "e_log2 sample_env"]
      sample_chain_cache by (fastforce simp: chain_cache_ok_def)
  moreover have "map PreviousOutPoint (tx_TxIn sample_spend) = [sample_outpoint]" "e_wire sample_env = header_root_lib"
    by (simp_all add: sample_spend_def sample_env_def)
  ultimately have "fetch_view sample_env sample_spend sample_chain = Some (Inr v, sample_chain\<lparr>utxos := c\<rparr>)"
    using sample_coinbases(2) by (simp add: fetch_view_def Utxo_Cache.FetchUtxoView_def)
  moreover have "td_Tx spend_desc = sample_spend" "IsFinalizedTransaction sample_spend 3 t" for t
    by (simp_all add: spend_desc_def IsFinalizedTransaction_def sample_spend_def)
  ultimately show ?thesis using sample_coinbases(2) by (simp add: consider_tx_def tryC_def comp_defs)
qed

lemma spend_source_ok: "source_ok (e_wire sample_env) (template_gen [spend_desc])"
  using template_gen_ok(2) by (simp add: source_ok_def)

lemma spend_weights_fit: "weights_fit (template_gen ds) header_root_lib sample_coinbase (blockWeight (initial_state (template_gen ds) header_root_lib sample_coinbase))"
proof -
  have "commitment_weight header_root_lib sample_coinbase = 0"
    by (simp add: commitment_weight_def weightDiff_def GetTransactionWeight_def header_root_lib_def i64_def)
  moreover have "BlockMaxWeight template_policy = 3000000" by (simp add: template_policy_def)
  ultimately show ?thesis
    using unsigned_less[of "blockWeight (initial_state (template_gen ds) header_root_lib sample_coinbase)", where 'a = nat]
    by (simp add: weights_fit_def)
qed

theorem template_selection_total_witness:
  "\<exists>st s' st'. foldC (consider_tx (template_gen [spend_desc]) sample_env 3) [spend_desc]
      (initial_state (template_gen [spend_desc]) header_root_lib sample_coinbase) sample_chain = Some (Inr st, s')
    \<and> choose_loop (template_gen [spend_desc]) header_root_lib 3 True sample_coinbase st = Some st' \<and> pq_Len (priorityQueue st') = 0"
proof -
  obtain st s' where run: "foldC (consider_tx (template_gen [spend_desc]) sample_env 3) [spend_desc]
      (initial_state (template_gen [spend_desc]) header_root_lib sample_coinbase) sample_chain = Some (Inr st, s')"
    using spend_collected by blast
  have L: "e_wire sample_env = header_root_lib" by (simp add: sample_env_def)
  show ?thesis
    using run template_selection_total[OF spend_source_ok, of 3 sample_coinbase sample_chain st s' True] by (auto simp: L)
qed

theorem template_selection_sound_witness:
  "\<exists>st s' st' txs. foldC (consider_tx (template_gen [spend_desc]) sample_env 3) [spend_desc]
      (initial_state (template_gen [spend_desc]) header_root_lib sample_coinbase) sample_chain = Some (Inr st, s')
    \<and> choose_loop (template_gen [spend_desc]) header_root_lib 3 True sample_coinbase st = Some st'
    \<and> blockTxns st' = sample_coinbase # txs \<and> all_pay header_root_lib sample_params 3 txs (view_coins (blockUtxos st))"
proof -
  let ?g = "template_gen [spend_desc]" and ?L = header_root_lib
  obtain st s' where run: "foldC (consider_tx ?g sample_env 3) [spend_desc] (initial_state ?g ?L sample_coinbase) sample_chain = Some (Inr st, s')"
    using spend_collected by blast
  have L: "e_wire sample_env = ?L" by (simp add: sample_env_def)
  note c = collected[OF spend_source_ok, of 3 sample_coinbase sample_chain st s', unfolded L template_gen_simps, OF run]
  obtain st' where "choose_loop ?g ?L 3 True sample_coinbase st = Some st'"
    using choose_loop_returns[OF c(1) template_gen_ok(2)] by blast
  moreover have "weights_fit ?g ?L sample_coinbase (blockWeight st)"
    using spend_weights_fit[of "[spend_desc]"] c(2) by (simp add: same_totals_def)
  moreover have "0 \<le> MaxSatoshi ?L" "MaxSatoshi ?L < 2 ^ 62" "CheckTransactionSanity ?L (td_Tx spend_desc) = Inr ()"
    using root_money sample_txs_sane CheckTransactionSanity_iff[OF root_money] by (simp_all add: money_ok_def spend_desc_def)
  ultimately show ?thesis
    using run template_selection_sound[OF spend_source_ok, of 3 sample_coinbase sample_chain st s' True st'] by (auto simp: L)
qed

text \<open>A template without transactions on top of the sample chain.\<close>

definition template_header :: BlockHeader where
  "template_header = \<lparr>hVersion = 0x20000000, hPrevBlock = [2], hMerkleRoot = replicate 31 0 @ [2], hTimestamp = unix_time 300,
    hBits = 0x207fffff, hNonce = 0\<rparr>"

lemma template_bits: "CalcNextRequiredDifficulty sample_env sample_chain [2] t = Inr 0x207fffff"
  using BigToCompact_pow_limit
  by (simp add: CalcNextRequiredDifficulty_def calcNextRequiredDifficulty_def LookupNode_def sample_chain_def sample_env_def
      sample_params_def sample_heap_def sample_node_def sample_pow_def CompactToBig_pow_limit big_Div_def)

lemma template_version: "CalcNextBlockVersion sample_env sample_chain = Some (Inr vbTopBits, sample_chain)"
proof -
  have "thresholdState mem (deploymentChecker mem params active_deployment) (Some p) cache () = Some (Inr ThresholdActive, cache, ())" for mem params p cache
    by (simp add: thresholdState_def deploymentChecker_def active_deployment_def u32_range)
  moreover have "Deployments sample_env = [active_deployment, active_deployment, active_deployment]" "tip (bestChain sample_chain) = Some 2"
    by (simp_all add: sample_env_def sample_chain_def tip_def)
  ultimately show ?thesis by (simp add: CalcNextBlockVersion_def calcNextBlockVersion_def)
qed

lemma template_context:
  "CheckBlockHeaderContext sample_env template_header 2 BFNoPoWCheck True False sample_chain
    = Some (Inr (), sample_chain\<lparr>checkpointNode := Some 1\<rparr>)"
proof -
  have h: "bn_height (sample_heap ! 2) = 2" "bn_height (sample_heap ! Suc 0) = 1" "i32 3 = 3"
    by (simp_all add: sample_heap_def sample_node_def i32_def)
  have find: "findPreviousCheckpoint sample_env sample_chain = Some (Inr (Some 1), sample_chain\<lparr>checkpointNode := Some 1\<rparr>)"
    by (simp add: findPreviousCheckpoint_def HasCheckpoints_def sample_env_def sample_chain_def LookupNode_def contains_def
        nodeByHeight_def sample_heap_def sample_node_def sample_checkpoint_def)
  have ok: "verifyCheckpoint sample_env 3 x" "hTimestamp template_header = unix_time 300" "hVersion template_header = 0x20000000"
      "hBits template_header = 0x207fffff" "blocksPerRetarget sample_env = 20160" for x
    by (simp_all add: verifyCheckpoint_def sample_env_def template_header_def)
  have warp: "assertNoTimeWarp 3 20160 t u = Inr ()" for t u by (simp add: assertNoTimeWarp_def go_mod_def go_div_def)
  have bits: "calcNextRequiredDifficulty sample_pow sample_params sample_heap (Some 2) t = Inr 0x207fffff" for t
    using template_bits[of t] by (simp add: CalcNextRequiredDifficulty_def LookupNode_def sample_chain_def sample_env_def)
  show ?thesis
    by (simp add: CheckBlockHeaderContext_def comp_iffs sample_chain_nodes h find ok warp bits sample_median unix_time_def
        BFNoPoWCheck_def BFFastAdd_def)
qed

definition template_block :: "MsgTx \<Rightarrow> Block" where
  "template_block cb = \<lparr>Header = template_header, Transactions = [cb], blk_Height = 3\<rparr>"

lemma template_block_simps [simp]:
  "Header (template_block cb) = template_header" "Transactions (template_block cb) = [cb]" "blk_Height (template_block cb) = 3"
  by (simp_all add: template_block_def)

text \<open>The coinbase of such a template.\<close>

definition template_coinbase :: "MsgTx \<Rightarrow> bool" where
  "template_coinbase cb \<longleftrightarrow> createCoinbaseTx (template_gen []) ([0x53, 0, 18] @ CoinbaseFlags) 3 None = Inr cb"

lemma template_coinbase_facts:
  assumes "template_coinbase cb"
  shows "IsCoinBase cb" "CheckSerializedHeight cb 3 = Inr ()" "value_out cb = CalcBlockSubsidy 3 sample_params"
    "length (tx_TxOut cb) = 2" "sane_tx header_root_lib cb" "LockTime cb = 0" "tx_Version cb = 1" "inputs cb = [\<lparr>op_Hash = zeroHash, op_Index = maxUint32\<rparr>]"
proof -
  note cb = assms[unfolded template_coinbase_def]
  show two: "length (tx_TxOut cb) = 2" using template_coinbase_3(2)[where ds = "[]" and addr' = None] cb by simp
  have f: "IsCoinBase cb \<and> CheckSerializedHeight cb 3 = Inr () \<and> list_all (\<lambda>txOut. 0 \<le> Value txOut) (tx_TxOut cb)
    \<and> value_out cb = CalcBlockSubsidy 3 sample_params"
    using coinbase_facts[OF template_gen_ok(1)[of "[]"], of 3 0 "[0x53, 0, 18] @ CoinbaseFlags" None cb] cb two template_coinbase_3(1)[where addr' = None]
    by (auto simp: initialReward_def minReward_def sample_params_def)
  then show "IsCoinBase cb" "CheckSerializedHeight cb 3 = Inr ()" "value_out cb = CalcBlockSubsidy 3 sample_params" by auto
  have s: "tx_TxIn cb = [\<lparr>PreviousOutPoint = \<lparr>op_Hash = zeroHash, op_Index = maxUint32\<rparr>, SignatureScript = [0x53, 0, 18] @ CoinbaseFlags,
      Witness = [], Sequence = maxUint32\<rparr>]" "LockTime cb = 0" "tx_Version cb = 1"
    using cb by (auto simp: createCoinbaseTx_def Let_def bindE_Inr_iff)
  then show "LockTime cb = 0" "tx_Version cb = 1" "inputs cb = [\<lparr>op_Hash = zeroHash, op_Index = maxUint32\<rparr>]" by (simp_all add: inputs_def)
  have "tx_TxOut cb \<noteq> []" using two by auto
  moreover have "value_out cb \<le> MaxSatoshi header_root_lib" using f subsidy_3 by (simp add: header_root_lib_def)
  ultimately show "sane_tx header_root_lib cb"
    using f s by (simp add: sane_tx_def inputs_def) (simp add: header_root_lib_def MaxBlockBaseSize_def CoinbaseFlags_def)
qed

lemma template_sane:
  assumes "template_coinbase cb"
  shows "checkBlockSanity sample_pow header_root_lib (unix_time 300) (template_block cb) (2 ^ 255 - 1) BFNoPoWCheck = Inr ()"
proof (rule block_sane)
  show "CheckBlockHeaderSanity sample_pow (unix_time 300) (Header (template_block cb)) (2 ^ 255 - 1) BFNoPoWCheck = Inr ()"
    by (simp add: template_header_def CheckBlockHeaderSanity_def checkProofOfWork_def sample_pow_def BFNoPoWCheck_def
      CompactToBig_pow_limit MaxTimeOffsetSeconds_def unix_time_def time_Unix_def)
  show "CalcMerkleRoot header_root_lib (Transactions (template_block cb)) False = Some (hMerkleRoot (Header (template_block cb)))"
    using template_coinbase_facts(4)[OF assms] by (simp add: CalcMerkleRoot_eq leaves_def leaf_def root_hash template_header_def)
qed (use template_coinbase_facts[OF assms] root_money root_size in simp_all)

lemma template_block_context:
  assumes "template_coinbase cb"
  shows "checkBlockContext sample_env (template_block cb) 2 BFNoPoWCheck sample_chain = Some (Inr (), sample_chain\<lparr>checkpointNode := Some 1\<rparr>)"
proof -
  note f = template_coinbase_facts[OF assms]
  have final: "IsFinalizedTransaction cb h t" for h t using f(6) by (simp add: IsFinalizedTransaction_def)
  have h: "bn_height (sample_heap ! 2) = 2" "i32 3 = 3" by (simp_all add: sample_heap_def sample_node_def i32_def)
  have wit: "ValidateWitnessCommitment header_root_lib (template_block cb) = Inr ()"
  proof -
    have short: "find_commitment os = None" if "\<forall>o' \<in> set os. length (PkScript o') < 38" for os
      using that by (induction os) (auto simp: CoinbaseWitnessPkScriptLength_def)
    have "length (PkScript o') = 25" if "genesis_output (template_gen []) v = Inr gen" "o' \<in> set gen" for v gen o'
      using that by (cases "v > 0") (auto simp: genesis_output_def template_gen_def payToAddrScriptMining_def copied_def bindE_def)
    then have "\<forall>o' \<in> set (tx_TxOut cb). length (PkScript o') < 38"
      using assms unfolding template_coinbase_def by (fastforce simp: createCoinbaseTx_def Let_def bindE_Inr_iff)
    then have "find_commitment (rev (tx_TxOut cb)) = None" by (intro short) simp
    then show ?thesis using f(1) by (auto simp: ValidateWitnessCommitment_def ExtractWitnessCommitment_def header_root_lib_def IsCoinBase_null)
  qed
  have L: "e_wire sample_env = header_root_lib" "chainParams sample_env = sample_params" by (simp_all add: sample_env_def)
  have dep: "DeploymentCSV sample_params = 0" "DeploymentSegwit sample_params = 1" by (simp_all add: sample_params_def)
  have weight: "GetBlockWeight header_root_lib b = 4000" for b
    by (simp add: GetBlockWeight_def header_root_lib_def WitnessScaleFactor_def i64_def)
  show ?thesis
    using template_context f(2)
    by (simp add: checkBlockContext_def comp_defs L dep always_active sample_chain_nodes h final wit weight MaxBlockWeight_def Let_def
        BFNoPoWCheck_def BFFastAdd_def)
qed

lemma template_connects:
  assumes cb: "template_coinbase cb" and above: "above_sample node s"
  shows "\<exists>view' s'. checkConnectBlock sample_env 3 (template_block cb) (SetBestHash [2] NewUtxoViewpoint) None s = Some (Inr (view', None), s')"
proof -
  note f = template_coinbase_facts[OF cb]
  let ?L = header_root_lib and ?b = "template_block cb"
  have ops: "block_ops_ok ?L ?b" using f(8) by (simp add: block_ops_ok_def root_hash op_ok_def zeroHash_def)
  have other: "sample_outpoint \<notin> set (block_outpoints ?L (Transactions ?b))" using root_not_block_op by blast
  obtain view1 c1 where v1: "\<And>p. view_coins view1 p = None"
    "checkBIP0030 sample_env ?b (SetBestHash [2] NewUtxoViewpoint) s = Some (Inr view1, s\<lparr>utxos := c1\<rparr>)"
    "chain_cache_ok sample_env (s\<lparr>utxos := c1\<rparr>)"
    using sample_bip30_run[OF above ops other] by metis
  have find: "findInputsToFetch ?L ?b view1 = Some (view1, [])" by (simp add: findInputsToFetch_def)
  obtain c2 view2 where f2: "fetchUtxosFromCache (e_log2 sample_env) (e_keys sample_env) (e_bucket sample_env) (utxoBucket (cdb s)) [] (c1, view1) = Inr (c2, view2)"
    using fetch_into_view[of "e_keys sample_env" "e_bucket sample_env" "utxoBucket (cdb s)" c1 "[]" "e_log2 sample_env" view1] v1(3)
    by (auto simp: chain_cache_ok_def)
  obtain view3 where v3: "connect_checked ?L sample_params 3 cb (0, view2, None) = Inr (0, view3, None)"
    using connect_checked_accepts[OF root_money f(5), of 0 sample_params 3 view2] f(1) by auto
  then have fold: "foldE (connect_checked ?L sample_params 3) (Transactions ?b) (0, view2, None) = Inr (0, view3, None)" by (simp add: bindE_def)
  have "output_total cb = CalcBlockSubsidy 3 sample_params" using output_total_sane(1)[OF root_money f(5)] f(3) by simp
  moreover have "i64 (CalcBlockSubsidy 3 sample_params) = CalcBlockSubsidy 3 sample_params" using subsidy_3 by (intro i64_id) simp_all
  ultimately have "checkConnectBlock sample_env 3 ?b (SetBestHash [2] NewUtxoViewpoint) None s
      = Some (Inr (SetBestHash (bn_hash node) view3, None), s\<lparr>utxos := c2\<rparr>)"
    using f(7) f2 find by (intro sample_connect[OF above _ _ _ v1(2) _ _ fold]) (simp_all add: template_header_def fetchInputUtxos_def)
  then show ?thesis by blast
qed

lemma template_checks:
  assumes cb: "template_coinbase cb"
  shows "\<exists>s'. CheckConnectBlockTemplate sample_env (template_block cb) sample_chain = Some (Inr (), s')"
proof -
  let ?s = "sample_chain\<lparr>checkpointNode := Some 1\<rparr>"
  obtain node where node: "newBlockNode (BlockHash header_root_lib) sample_heap template_header (Some 2) = Some (sample_heap @ [node], 3)"
    "parent node = Some 2" "bn_height node = 3" "bn_hash node = replicate 31 0 @ [2]"
    using new_node[OF sample_heap_wf, of 2 "BlockHash header_root_lib" template_header]
    by (auto simp: sample_heap_def sample_node_def header_root_lib_def template_header_def)
  have "above_sample node (?s\<lparr>nodes := sample_heap @ [node]\<rparr>)" using node(2-4) by (simp add: above_sample_def)
  then obtain view' s' where run: "checkConnectBlock sample_env 3 (template_block cb) (SetBestHash [2] NewUtxoViewpoint) None (?s\<lparr>nodes := sample_heap @ [node]\<rparr>)
      = Some (Inr (view', None), s')"
    using template_connects[OF cb] by blast
  have env: "e_wire sample_env = header_root_lib" "e_pow sample_env = sample_pow" "AdjustedTime sample_env = unix_time 300"
      "PowLimit sample_params = 2 ^ 255 - 1" by (simp_all add: sample_env_def sample_params_def)
  have tip: "tip (bestChain sample_chain) = Some 2" "bn_hash (sample_heap ! 2) = [2]" "hPrevBlock template_header = [2]"
    by (simp_all add: sample_chain_def tip_def sample_heap_def sample_node_def template_header_def)
  have "CheckConnectBlockTemplate sample_env (template_block cb) sample_chain = Some (Inr (), s')"
    using template_sane[OF cb] template_block_context[OF cb] run node(1)
    by (simp add: CheckConnectBlockTemplate_def comp_defs env tip sample_chain_nodes)
  then show ?thesis by blast
qed

lemma template_created: "\<exists>t s'. NewBlockTemplate (template_gen []) sample_env None sample_chain = Some (Inr t, s') \<and> bt_Header t = template_header"
proof -
  let ?g = "template_gen []" and ?L = header_root_lib
  obtain cb where cb: "template_coinbase cb" using template_coinbase_3(2)[where ds = "[]" and addr' = None] by (auto simp: template_coinbase_def)
  note f = template_coinbase_facts[OF cb]
  let ?st = "initial_state ?g ?L cb"
  obtain s' where check: "CheckConnectBlockTemplate sample_env (template_block cb) sample_chain = Some (Inr (), s')" using template_checks[OF cb] by blast
  have env: "e_wire sample_env = ?L" "AdjustedTime sample_env = unix_time 300" by (simp_all add: sample_env_def)
  have best: "BestSnapshot sample_chain = stateSnapshot sample_chain" "st_Height (stateSnapshot sample_chain) = 2" "st_Hash (stateSnapshot sample_chain) = [2]"
      "st_MedianTime (stateSnapshot sample_chain) = unix_time 160" "i32 3 = 3" "tip (bestChain sample_chain) = Some 2"
    by (simp_all add: BestSnapshot_def sample_chain_def i32_def tip_def)
  have state: "ThresholdState_of sample_env (DeploymentSegwit sample_params) sample_chain = Some (Inr ThresholdActive, sample_chain)"
    using always_active[of 1 2 sample_chain] best(6) by (simp add: ThresholdState_of_def comp_defs sample_params_def)
  have loop: "choose_loop ?g ?L 3 True cb ?st = Some ?st"
    unfolding choose_loop_def by (subst while_option_unfold) (simp add: pq_Len_def initial_state_def Let_def pq_ok_new(2))
  have st: "blockTxns ?st = [cb]" "\<not> witnessIncluded ?st" "txFees ?st = [-1]" by (simp_all add: initial_state_def Let_def)
  have pay: "pay_fees ?g v cb [-1] = (cb, [0])" for v by (simp add: pay_fees_def)
  have ts: "medianAdjustedTime (stateSnapshot sample_chain) (unix_time 300) = unix_time 300"
    using best(4) by (simp add: medianAdjustedTime_def MinimumMedianTime_def unix_time_def)
  have root: "CalcMerkleRoot ?L [cb] False = Some (replicate 31 0 @ [2])"
    using f(4) by (simp add: CalcMerkleRoot_eq leaves_def leaf_def root_hash)
  have ver: "sint vbTopBits = 0x20000000" by (simp add: vbTopBits_def)
  obtain t where "finish_template ?g sample_env (stateSnapshot sample_chain) None ?st sample_chain = Some (Inr t, s')" "bt_Header t = template_header"
    using check unfolding finish_template_def
    by (simp add: comp_defs Let_def st pay env best ts template_bits template_version root ver bindE_def template_block_def template_header_def)
  then show ?thesis
    using cb template_coinbase_3(1)[where addr' = None] loop state unfolding NewBlockTemplate_def template_coinbase_def
    by (intro exI[of _ t] exI[of _ s']) (simp add: comp_defs Let_def best env)
qed

theorem NewBlockTemplate_ready_witness:
  "\<exists>t s'. NewBlockTemplate (template_gen []) sample_env None sample_chain = Some (Inr t, s')
    \<and> hPrevBlock (bt_Header t) = [2] \<and> bt_Height t = 3 \<and> IsCoinBase (hd (bt_Transactions t)) \<and> hd (bt_Fees t) = 0 \<and> best_same sample_chain s'"
proof -
  obtain t s' where run: "NewBlockTemplate (template_gen []) sample_env None sample_chain = Some (Inr t, s')" using template_created by blast
  have "source_ok (e_wire sample_env) (template_gen [])" using template_gen_ok(2) by (simp add: source_ok_def)
  from NewBlockTemplate_ready[OF template_gen_ok(1) this run] run show ?thesis
    by (auto simp: sample_chain_def i32_def)
qed

end
