(* ===== verification/Fee_Estimate.thy ===== *)
theory Fee_Estimate
  imports Mempool "HOL-Library.Multiset" "HOL-Library.List_Lexorder" "HOL-Library.Char_ord"
begin

text \<open>
  The fee estimator (mempool/estimatefee.go), the calls that the sync manager makes when a block is connected or
  disconnected (netsync/manager.go) and its restoration at start-up (server.go).

  Observed transactions are shared between the map of observed transactions, the bins and the lists of dropped
  transactions, and their \<open>mined\<close> field is updated in place, so they live in a memory \<open>fe_mem\<close> and are referred to by
  address; \<open>nil\<close> is an address without an object.  The result of a call is \<open>None\<close> when the code panics.  The order in which
  the map of the transactions of a block is visited, and the draws of \<open>rand.Intn\<close>, are arguments.
\<close>

section \<open>Rates\<close>

text \<open>
  A \<open>float64\<close> is a real number or positive infinity, the only value besides that the code produces from the fee and the
  positive size of a transaction; \<open>rd\<close> rounds to the nearest \<open>float64\<close>.
\<close>

datatype float64 = Fin real | PosInf

instantiation float64 :: linorder
begin

definition less_eq_float64 :: "float64 \<Rightarrow> float64 \<Rightarrow> bool" where
  "less_eq_float64 a b = (case (a, b) of (_, PosInf) \<Rightarrow> True | (PosInf, Fin _) \<Rightarrow> False | (Fin x, Fin y) \<Rightarrow> x \<le> y)"

definition less_float64 :: "float64 \<Rightarrow> float64 \<Rightarrow> bool" where
  "less_float64 a b = (case (a, b) of (PosInf, _) \<Rightarrow> False | (Fin _, PosInf) \<Rightarrow> True | (Fin x, Fin y) \<Rightarrow> x < y)"

instance
  by standard (auto simp: less_eq_float64_def less_float64_def split: float64.splits)

end

lemma Fin_le_iff [simp]: "Fin x \<le> Fin y \<longleftrightarrow> x \<le> y"
  by (simp add: less_eq_float64_def)

type_synonym SatoshiPerByte = float64
type_synonym BtcPerKilobyte = float64

definition ToBtcPerKb :: "(real \<Rightarrow> real) \<Rightarrow> SatoshiPerByte \<Rightarrow> BtcPerKilobyte" where
  "ToBtcPerKb rd rate =
    (if rate = Fin (- 1) then Fin (- 1)
     else case rate of PosInf \<Rightarrow> PosInf | Fin r \<Rightarrow> Fin (rd (rd (r * 1000) * rd (1 / 100000000))))"

text \<open>The conversion to an integer truncates; the language leaves its result open outside the range, \<open>None\<close>.\<close>

definition rate_Fee :: "(real \<Rightarrow> real) \<Rightarrow> SatoshiPerByte \<Rightarrow> int \<Rightarrow> int option" where
  "rate_Fee rd rate txLen =
    (if rate = Fin (- 1) then Some (- 1)
     else case rate of
            PosInf \<Rightarrow> None
          | Fin r \<Rightarrow>
              let p = rd (r * of_int txLen);
                  n = (if p < 0 then \<lceil>p\<rceil> else \<lfloor>p\<rfloor>)
              in if is_i64 n then Some n else None)"

definition NewSatoshiPerByte :: "(real \<Rightarrow> real) \<Rightarrow> int \<Rightarrow> int \<Rightarrow> SatoshiPerByte" where
  "NewSatoshiPerByte rd fee txLen = Fin (rd (rd (of_int fee) / rd (of_int txLen)))"

section \<open>The estimator\<close>

definition estimateFeeDepth :: int where "estimateFeeDepth = 25"
definition estimateFeeBinSize :: int where "estimateFeeBinSize = 100"
definition estimateFeeMaxReplacements :: int where "estimateFeeMaxReplacements = 10"
definition DefaultEstimateFeeMaxRollback :: int where "DefaultEstimateFeeMaxRollback = 2"
definition DefaultEstimateFeeMinRegisteredBlocks :: int where "DefaultEstimateFeeMinRegisteredBlocks = 3"

abbreviation bins :: nat where "bins \<equiv> 25"

type_synonym addr = nat

record observedTransaction =
  ob_hash :: hash
  ob_feeRate :: SatoshiPerByte
  ob_observed :: int
  ob_mined :: int

record registeredBlock =
  rb_hash :: hash
  rb_transactions :: "addr list"

type_synonym fe_memory = "addr \<rightharpoonup> observedTransaction"

record FeeEstimator =
  maxRollback :: int
  binSize :: int
  maxReplacements :: int
  minRegisteredBlocks :: int
  lastKnownHeight :: int
  numBlocksRegistered :: int
  fe_observed :: "(hash \<times> addr) list"
  fe_bin :: "addr list list"
  fe_cached :: "SatoshiPerByte list option"
  fe_dropped :: "registeredBlock list"
  fe_mem :: fe_memory
  fe_fresh :: addr

datatype fee_error =
    IntermediateBlockNotRecorded
  | AlreadyMined
  | NoSuchBlock
  | NotEnoughBlocks
  | ZeroBlocks
  | TooManyBlocks
  | EndOfData
  | IncorrectVersion
  | InvalidReference

definition nil_addr :: addr where "nil_addr = 0"

definition NewFeeEstimator :: "int \<Rightarrow> int \<Rightarrow> FeeEstimator" where
  "NewFeeEstimator maxRb minRegistered =
    \<lparr>maxRollback = maxRb, binSize = estimateFeeBinSize, maxReplacements = estimateFeeMaxReplacements,
     minRegisteredBlocks = minRegistered, lastKnownHeight = UnminedHeight, numBlocksRegistered = 0, fe_observed = [],
     fe_bin = replicate bins [], fe_cached = None, fe_dropped = [], fe_mem = Map.empty, fe_fresh = nil_addr + 1\<rparr>"

definition ObserveTransaction :: "wire_lib \<Rightarrow> (real \<Rightarrow> real) \<Rightarrow> TxDesc \<Rightarrow> FeeEstimator \<Rightarrow> FeeEstimator" where
  "ObserveTransaction L rd t ef =
    (if lastKnownHeight ef = UnminedHeight then ef
     else let h = TxHash L (td_Tx t)
          in case map_of (fe_observed ef) h of
               Some _ \<Rightarrow> ef
             | None \<Rightarrow>
                 let p = fe_fresh ef;
                     txLen = u32 (GetTxVirtualSize L (td_Tx t));
                     ob = \<lparr>ob_hash = h, ob_feeRate = NewSatoshiPerByte rd (td_Fee t) txLen, ob_observed = td_Height t,
                           ob_mined = UnminedHeight\<rparr>
                 in ef\<lparr>fe_observed := (h, p) # fe_observed ef, fe_mem := (fe_mem ef)(p \<mapsto> ob), fe_fresh := p + 1\<rparr>)"

subsection \<open>Registering a block\<close>

text \<open>What the loop over the transactions changes: the estimator, the replacements per bin, the dropped transactions.\<close>

type_synonym fe_progress = "FeeEstimator \<times> int list \<times> addr list"

text \<open>
  One transaction, given by its hash: \<open>Inl\<close> stops the loop with an error.  The draw for the \<open>n\<close>-th transaction dropped is
  \<open>intn n l\<close>; \<open>rand.Intn\<close> panics for a bound that is not positive.
\<close>

definition register_tx :: "(nat \<Rightarrow> int \<Rightarrow> nat) \<Rightarrow> int \<Rightarrow> hash \<Rightarrow> fe_progress \<Rightarrow> (fee_error \<times> FeeEstimator + fe_progress) option" where
  "register_tx intn height h st =
    (case st of (ef, replacementCounts, dropped) \<Rightarrow>
      (case map_of (fe_observed ef) h of
         None \<Rightarrow> Some (Inr st)
       | Some p \<Rightarrow>
         (case fe_mem ef p of
            None \<Rightarrow> None
          | Some ob \<Rightarrow>
            let blocksToConfirm = i32 (i32 (height - ob_observed ob) - 1) in
            if ob_mined ob \<noteq> UnminedHeight then Some (Inl (AlreadyMined, ef))
            else if blocksToConfirm \<ge> estimateFeeDepth \<or> blocksToConfirm < 0 then Some (Inr st)
            else
              let b = nat blocksToConfirm in
              if replacementCounts ! b = maxReplacements ef then Some (Inr st)
              else
                let ef = ef\<lparr>fe_mem := (fe_mem ef)(p \<mapsto> ob\<lparr>ob_mined := height\<rparr>)\<rparr>;
                    replacementCounts = replacementCounts[b := replacementCounts ! b + 1];
                    bin = fe_bin ef ! b
                in if int (length bin) = binSize ef
                   then let l = binSize ef - replacementCounts ! b in
                        if l \<le> 0 then None
                        else let dr = intn (length dropped) l in
                             if length bin \<le> dr then None
                             else Some (Inr (ef\<lparr>fe_bin := (fe_bin ef)[b := bin[dr := bin ! (nat l - 1), nat l - 1 := p]]\<rparr>,
                                             replacementCounts, dropped @ [bin ! dr]))
                   else Some (Inr (ef\<lparr>fe_bin := (fe_bin ef)[b := bin @ [p]]\<rparr>, replacementCounts, dropped)))))"

fun register_txs :: "(nat \<Rightarrow> int \<Rightarrow> nat) \<Rightarrow> int \<Rightarrow> hash list \<Rightarrow> fe_progress \<Rightarrow> (fee_error \<times> FeeEstimator + fe_progress) option" where
  "register_txs intn height [] st = Some (Inr st)"
| "register_txs intn height (h # hs) st =
    (case register_tx intn height h st of
       None \<Rightarrow> None
     | Some (Inl e) \<Rightarrow> Some (Inl e)
     | Some (Inr st') \<Rightarrow> register_txs intn height hs st')"

text \<open>The loop over the map of observed transactions, in any order, that deletes those that wait too long.\<close>

definition too_old :: "fe_memory \<Rightarrow> int \<Rightarrow> hash \<times> addr \<Rightarrow> bool" where
  "too_old mem height hp =
    (case mem (snd hp) of
       None \<Rightarrow> False
     | Some ob \<Rightarrow> ob_mined ob = UnminedHeight \<and> i32 (height - ob_observed ob) \<ge> estimateFeeDepth)"

definition forget_old :: "int \<Rightarrow> FeeEstimator \<Rightarrow> FeeEstimator option" where
  "forget_old height ef =
    (if list_all (\<lambda>hp. fe_mem ef (snd hp) \<noteq> None) (fe_observed ef)
     then Some (ef\<lparr>fe_observed := filter (\<lambda>hp. \<not> too_old (fe_mem ef) height hp) (fe_observed ef)\<rparr>) else None)"

definition push_dropped :: "registeredBlock \<Rightarrow> FeeEstimator \<Rightarrow> FeeEstimator" where
  "push_dropped dropped ef =
    (if maxRollback ef = 0 then ef
     else if u32 (int (length (fe_dropped ef))) = maxRollback ef then ef\<lparr>fe_dropped := drop 1 (fe_dropped ef) @ [dropped]\<rparr>
     else ef\<lparr>fe_dropped := fe_dropped ef @ [dropped]\<rparr>)"

definition RegisterBlock :: "wire_lib \<Rightarrow> (MsgTx list \<Rightarrow> MsgTx list) \<Rightarrow> (nat \<Rightarrow> int \<Rightarrow> nat) \<Rightarrow> Block \<Rightarrow> FeeEstimator \<Rightarrow>
    (fee_error option \<times> FeeEstimator) option" where
  "RegisterBlock L order intn block ef =
    (let ef = ef\<lparr>fe_cached := None\<rparr>;
         height = blk_Height block
     in if height \<noteq> i32 (lastKnownHeight ef + 1) \<and> lastKnownHeight ef \<noteq> UnminedHeight
        then Some (Some IntermediateBlockNotRecorded, ef)
        else
          let ef = ef\<lparr>lastKnownHeight := height, numBlocksRegistered := u32 (numBlocksRegistered ef + 1)\<rparr>
          in case register_txs intn height (map (TxHash L) (order (Transactions block))) (ef, replicate bins 0, []) of
               None \<Rightarrow> None
             | Some (Inl (e, ef)) \<Rightarrow> Some (Some e, ef)
             | Some (Inr (ef, _, dropped)) \<Rightarrow>
                 (case forget_old height ef of
                    None \<Rightarrow> None
                  | Some ef \<Rightarrow>
                      Some (None, push_dropped \<lparr>rb_hash = BlockHash L (Header block), rb_transactions = dropped\<rparr> ef)))"

definition LastKnownHeight :: "FeeEstimator \<Rightarrow> int" where
  "LastKnownHeight ef = lastKnownHeight ef"

subsection \<open>Rolling back\<close>

text \<open>The search through a bin, from a position on, for a transaction that the last block has mined.\<close>

function seek_mined :: "fe_memory \<Rightarrow> int \<Rightarrow> addr list \<Rightarrow> nat \<Rightarrow> (nat \<times> observedTransaction) option" where
  "seek_mined mem height bin counter =
    (if counter \<ge> length bin then None
     else case mem (bin ! counter) of
            None \<Rightarrow> None
          | Some prev \<Rightarrow> if ob_mined prev = height then Some (counter, prev) else seek_mined mem height bin (counter + 1))"
  by pat_completeness auto
termination by (relation "measure (\<lambda>(mem, height, bin, counter). length bin - counter)") auto

definition confirm_index :: "observedTransaction \<Rightarrow> int" where
  "confirm_index ob = i32 (i32 (ob_mined ob - ob_observed ob) - 1)"

fun restore_dropped :: "addr list \<Rightarrow> FeeEstimator \<times> nat list \<Rightarrow> (FeeEstimator \<times> nat list) option" where
  "restore_dropped [] st = Some st"
| "restore_dropped (p # ps) (ef, replacementCounters) =
    (case fe_mem ef p of
       None \<Rightarrow> None
     | Some ob \<Rightarrow>
         let blocksToConfirm = confirm_index ob
         in if blocksToConfirm < 0 \<or> blocksToConfirm \<ge> estimateFeeDepth then None
            else let b = nat blocksToConfirm; bin = fe_bin ef ! b
                 in (case seek_mined (fe_mem ef) (lastKnownHeight ef) bin (replacementCounters ! b) of
                      None \<Rightarrow> None
                    | Some (counter, prev) \<Rightarrow>
                        restore_dropped ps
                          (ef\<lparr>fe_mem := (fe_mem ef)(bin ! counter \<mapsto> prev\<lparr>ob_mined := UnminedHeight\<rparr>),
                              fe_bin := (fe_bin ef)[b := bin[counter := p]]\<rparr>,
                           replacementCounters[b := counter + 1])))"

function remove_mined :: "int \<Rightarrow> addr list \<Rightarrow> nat \<Rightarrow> fe_memory \<Rightarrow> (addr list \<times> fe_memory) option" where
  "remove_mined height bin j mem =
    (if j \<ge> length bin then Some (bin, mem)
     else case mem (bin ! j) of
            None \<Rightarrow> None
          | Some prev \<Rightarrow>
              if ob_mined prev = height
              then remove_mined height (take j bin @ drop (j + 1) bin) j (mem(bin ! j \<mapsto> prev\<lparr>ob_mined := UnminedHeight\<rparr>))
              else remove_mined height bin (j + 1) mem)"
  by pat_completeness auto
termination by (relation "measure (\<lambda>(height, bin, j, mem). length bin - j)") auto

declare seek_mined.simps [simp del] remove_mined.simps [simp del]

fun remove_bins :: "nat list \<Rightarrow> nat \<Rightarrow> FeeEstimator \<Rightarrow> FeeEstimator option" where
  "remove_bins [] i ef = Some ef"
| "remove_bins (j # js) i ef =
    (case remove_mined (lastKnownHeight ef) (fe_bin ef ! i) j (fe_mem ef) of
       None \<Rightarrow> None
     | Some (newBin, mem) \<Rightarrow> remove_bins js (i + 1) (ef\<lparr>fe_bin := (fe_bin ef)[i := newBin], fe_mem := mem\<rparr>))"

definition rollback :: "FeeEstimator \<Rightarrow> FeeEstimator option" where
  "rollback ef =
    (let ef = ef\<lparr>fe_cached := None\<rparr>
     in if fe_dropped ef = [] then Some ef
        else case restore_dropped (rb_transactions (last (fe_dropped ef))) (ef, replicate bins 0) of
               None \<Rightarrow> None
             | Some (ef, replacementCounters) \<Rightarrow>
                 (case remove_bins replacementCounters 0 ef of
                    None \<Rightarrow> None
                  | Some ef \<Rightarrow>
                      Some (ef\<lparr>fe_dropped := butlast (fe_dropped ef), numBlocksRegistered := u32 (numBlocksRegistered ef - 1),
                               lastKnownHeight := i32 (lastKnownHeight ef - 1)\<rparr>)))"

fun rollbacks :: "nat \<Rightarrow> FeeEstimator \<Rightarrow> FeeEstimator option" where
  "rollbacks 0 ef = Some ef"
| "rollbacks (Suc n) ef = (case rollback ef of None \<Rightarrow> None | Some ef \<Rightarrow> rollbacks n ef)"

definition Rollback :: "hash \<Rightarrow> FeeEstimator \<Rightarrow> (fee_error option \<times> FeeEstimator) option" where
  "Rollback h ef =
    (let n = 1 + length (takeWhile (\<lambda>rb. rb_hash rb \<noteq> h) (rev (fe_dropped ef)))
     in if n > length (fe_dropped ef) then Some (Some NoSuchBlock, ef)
        else case rollbacks n ef of None \<Rightarrow> None | Some ef \<Rightarrow> Some (None, ef))"

section \<open>Estimates\<close>

record estimateFeeSet =
  efs_feeRate :: "SatoshiPerByte list"
  efs_bin :: "int list"

definition estimateFee :: "estimateFeeSet \<Rightarrow> int \<Rightarrow> SatoshiPerByte" where
  "estimateFee s confirmations =
    (if confirmations \<le> 0 then PosInf
     else if confirmations > estimateFeeDepth then Fin 0
     else if efs_feeRate s = [] then Fin 0
     else
       let lo = sum_list (take (nat (confirmations - 1)) (efs_bin s));
           hi = lo + efs_bin s ! nat (confirmations - 1) - 1;
           hi = (if hi < lo then lo else hi);
           feeIndex = go_div (lo + hi) 2;
           feeIndex = (if feeIndex \<ge> int (length (efs_feeRate s)) then int (length (efs_feeRate s)) - 1 else feeIndex)
       in efs_feeRate s ! nat feeIndex)"

text \<open>The order of the rates is linear, so every sorting algorithm gives the same list.\<close>

definition newEstimateFeeSet :: "FeeEstimator \<Rightarrow> estimateFeeSet option" where
  "newEstimateFeeSet ef =
    map_option (\<lambda>rates. \<lparr>efs_feeRate = rev (sort rates), efs_bin = map (\<lambda>b. u32 (int (length b))) (fe_bin ef)\<rparr>)
      (those (map (\<lambda>p. map_option ob_feeRate (fe_mem ef p)) (concat (fe_bin ef))))"

definition estimates :: "FeeEstimator \<Rightarrow> SatoshiPerByte list option" where
  "estimates ef = map_option (\<lambda>s. map (\<lambda>i. estimateFee s (int i + 1)) [0..<bins]) (newEstimateFeeSet ef)"

definition EstimateFee :: "(real \<Rightarrow> real) \<Rightarrow> int \<Rightarrow> FeeEstimator \<Rightarrow> ((fee_error + BtcPerKilobyte) \<times> FeeEstimator) option" where
  "EstimateFee rd numBlocks ef =
    (if numBlocksRegistered ef < minRegisteredBlocks ef then Some (Inl NotEnoughBlocks, ef)
     else if numBlocks = 0 then Some (Inl ZeroBlocks, ef)
     else if numBlocks > estimateFeeDepth then Some (Inl TooManyBlocks, ef)
     else case (case fe_cached ef of Some c \<Rightarrow> Some c | None \<Rightarrow> estimates ef) of
            None \<Rightarrow> None
          | Some c \<Rightarrow> Some (Inr (ToBtcPerKb rd (c ! nat (numBlocks - 1))), ef\<lparr>fe_cached := Some c\<rparr>))"

section \<open>Blocks of the chain\<close>

text \<open>
  The part of \<open>handleBlockchainNotification\<close> that concerns the estimator: an estimator that returns an error is replaced,
  an error of \<open>Rollback\<close> is ignored.
\<close>

definition fee_block_connected :: "wire_lib \<Rightarrow> (MsgTx list \<Rightarrow> MsgTx list) \<Rightarrow> (nat \<Rightarrow> int \<Rightarrow> nat) \<Rightarrow> Block \<Rightarrow> FeeEstimator \<Rightarrow> FeeEstimator option" where
  "fee_block_connected L order intn block ef =
    (case RegisterBlock L order intn block ef of
       None \<Rightarrow> None
     | Some (None, ef) \<Rightarrow> Some ef
     | Some (Some e, _) \<Rightarrow> Some (NewFeeEstimator DefaultEstimateFeeMaxRollback DefaultEstimateFeeMinRegisteredBlocks))"

definition fee_block_disconnected :: "wire_lib \<Rightarrow> Block \<Rightarrow> FeeEstimator \<Rightarrow> FeeEstimator option" where
  "fee_block_disconnected L block ef = map_option snd (Rollback (BlockHash L (Header block)) ef)"

section \<open>Saving and restoring\<close>

text \<open>
  The saved state is written with \<open>encoding/binary\<close>.  \<open>Float64bits\<close> and \<open>Float64frombits\<close> are the IEEE encoding of a
  \<open>float64\<close>, \<open>HashString\<close> is the text of a hash (package \<open>chainhash\<close>).
\<close>

record fee_codec =
  Float64bits :: "float64 \<Rightarrow> uint64"
  Float64frombits :: "uint64 \<Rightarrow> float64"
  HashString :: "hash \<Rightarrow> string"

definition estimateFeeSaveVersion :: uint32 where "estimateFeeSaveVersion = 1"

definition be64 :: "uint64 \<Rightarrow> byte list" where
  "be64 w = be32 (ucast (drop_bit 32 w)) @ be32 (ucast w)"

text \<open>An \<open>int32\<close> or \<open>uint32\<close>.\<close>

definition write_int :: "int \<Rightarrow> byte list" where
  "write_int n = be32 (word_of_int n)"

definition ot_Serialize :: "fee_codec \<Rightarrow> observedTransaction \<Rightarrow> byte list" where
  "ot_Serialize c ob =
    ob_hash ob @ be64 (Float64bits c (ob_feeRate ob)) @ write_int (ob_observed ob) @ write_int (ob_mined ob)"

text \<open>The index of a transaction that is not in the map is 0, the zero value.\<close>

type_synonym tx_index = "addr \<rightharpoonup> nat"

definition write_index :: "tx_index \<Rightarrow> addr \<Rightarrow> byte list" where
  "write_index txs p = write_int (case txs p of None \<Rightarrow> 0 | Some i \<Rightarrow> int i)"

definition write_txs :: "tx_index \<Rightarrow> addr list \<Rightarrow> byte list" where
  "write_txs txs ps = write_int (int (length ps)) @ concat (map (write_index txs) ps)"

definition rb_serialize :: "tx_index \<Rightarrow> registeredBlock \<Rightarrow> byte list" where
  "rb_serialize txs rb = rb_hash rb @ write_txs txs (rb_transactions rb)"

text \<open>The observed transactions in the order of the text of their hashes.\<close>

definition sorted_txs :: "fee_codec \<Rightarrow> FeeEstimator \<Rightarrow> (addr \<times> observedTransaction) list option" where
  "sorted_txs c ef =
    map_option (sort_key (\<lambda>pob. HashString c (ob_hash (snd pob))))
      (those (map (\<lambda>hp. map_option (Pair (snd hp)) (fe_mem ef (snd hp))) (fe_observed ef)))"

definition Save :: "fee_codec \<Rightarrow> FeeEstimator \<Rightarrow> byte list option" where
  "Save c ef =
    (case sorted_txs c ef of
       None \<Rightarrow> None
     | Some ots \<Rightarrow>
         let observed = map_of (rev (zip (map fst ots) [0..<length ots]))
         in Some (be32 estimateFeeSaveVersion
              @ write_int (maxRollback ef) @ write_int (binSize ef) @ write_int (maxReplacements ef)
              @ write_int (minRegisteredBlocks ef) @ write_int (lastKnownHeight ef) @ write_int (numBlocksRegistered ef)
              @ write_int (int (length (fe_observed ef))) @ concat (map (\<lambda>pob. ot_Serialize c (snd pob)) ots)
              @ concat (map (write_txs observed) (fe_bin ef))
              @ write_int (int (length (fe_dropped ef))) @ concat (map (rb_serialize observed) (fe_dropped ef))))"

text \<open>
  Reading.  When the data ends, \<open>binary.Read\<close> consumes what is left, returns an error, which the code ignores except for
  the version, and leaves the variable at its zero value.
\<close>

definition read_bytes :: "nat \<Rightarrow> byte list \<Rightarrow> byte list option \<times> byte list" where
  "read_bytes n r = (if length r < n then (None, []) else (Some (take n r), drop n r))"

definition be_u32 :: "byte list \<Rightarrow> uint32" where
  "be_u32 bs = push_bit 24 (ucast (bs ! 0)) OR push_bit 16 (ucast (bs ! 1)) OR push_bit 8 (ucast (bs ! 2)) OR ucast (bs ! 3)"

definition read_u32 :: "byte list \<Rightarrow> uint32 \<times> byte list" where
  "read_u32 r = (case read_bytes 4 r of (None, r) \<Rightarrow> (0, r) | (Some bs, r) \<Rightarrow> (be_u32 bs, r))"

definition read_hash :: "byte list \<Rightarrow> hash \<times> byte list" where
  "read_hash r = (case read_bytes 32 r of (None, r) \<Rightarrow> (replicate 32 0, r) | (Some bs, r) \<Rightarrow> (bs, r))"

definition read_float :: "fee_codec \<Rightarrow> byte list \<Rightarrow> float64 \<times> byte list" where
  "read_float c r =
    (case read_bytes 8 r of
       (None, r) \<Rightarrow> (Fin 0, r)
     | (Some bs, r) \<Rightarrow> (Float64frombits c (push_bit 32 (ucast (be_u32 (take 4 bs))) OR ucast (be_u32 (drop 4 bs))), r))"

definition deserializeObservedTransaction :: "fee_codec \<Rightarrow> byte list \<Rightarrow> observedTransaction \<times> byte list" where
  "deserializeObservedTransaction c r =
    (let (h, r) = read_hash r; (rate, r) = read_float c r; (seen, r) = read_u32 r; (mined, r) = read_u32 r
     in (\<lparr>ob_hash = h, ob_feeRate = rate, ob_observed = sint seen, ob_mined = sint mined\<rparr>, r))"

type_synonym tx_refs = "nat \<rightharpoonup> addr"

fun read_observed :: "fee_codec \<Rightarrow> nat \<Rightarrow> nat \<Rightarrow> byte list \<times> tx_refs \<times> FeeEstimator \<Rightarrow> byte list \<times> tx_refs \<times> FeeEstimator" where
  "read_observed c 0 i st = st"
| "read_observed c (Suc n) i (r, observed, ef) =
    (let (ot, r) = deserializeObservedTransaction c r; p = fe_fresh ef
     in read_observed c n (i + 1)
          (r, observed(i \<mapsto> p),
           ef\<lparr>fe_observed := AList.update (ob_hash ot) p (fe_observed ef), fe_mem := (fe_mem ef)(p \<mapsto> ot), fe_fresh := p + 1\<rparr>))"

text \<open>The references of a bin; one that does not exist is an error.\<close>

fun read_bin :: "tx_refs \<Rightarrow> nat \<Rightarrow> byte list \<Rightarrow> fee_error + (addr list \<times> byte list)" where
  "read_bin observed 0 r = Inr ([], r)"
| "read_bin observed (Suc n) r =
    (let (i, r) = read_u32 r
     in case observed (unat i) of
          None \<Rightarrow> Inl InvalidReference
        | Some p \<Rightarrow> (case read_bin observed n r of Inl e \<Rightarrow> Inl e | Inr (ps, r) \<Rightarrow> Inr (p # ps, r)))"

fun read_bins :: "tx_refs \<Rightarrow> nat \<Rightarrow> byte list \<Rightarrow> fee_error + (addr list list \<times> byte list)" where
  "read_bins observed 0 r = Inr ([], r)"
| "read_bins observed (Suc n) r =
    (let (numTransactions, r) = read_u32 r
     in case read_bin observed (unat numTransactions) r of
          Inl e \<Rightarrow> Inl e
        | Inr (bin, r) \<Rightarrow> (case read_bins observed n r of Inl e \<Rightarrow> Inl e | Inr (bs, r) \<Rightarrow> Inr (bin # bs, r)))"

text \<open>The references of a dropped block; one that does not exist is \<open>nil\<close>.\<close>

fun read_refs :: "tx_refs \<Rightarrow> nat \<Rightarrow> byte list \<Rightarrow> addr list \<times> byte list" where
  "read_refs txs 0 r = ([], r)"
| "read_refs txs (Suc n) r =
    (let (i, r) = read_u32 r; (ps, r) = read_refs txs n r
     in ((case txs (unat i) of None \<Rightarrow> nil_addr | Some p \<Rightarrow> p) # ps, r))"

definition deserializeRegisteredBlock :: "tx_refs \<Rightarrow> byte list \<Rightarrow> registeredBlock \<times> byte list" where
  "deserializeRegisteredBlock txs r =
    (let (h, r) = read_hash r; (lenTransactions, r) = read_u32 r; (ps, r) = read_refs txs (unat lenTransactions) r
     in (\<lparr>rb_hash = h, rb_transactions = ps\<rparr>, r))"

fun read_dropped :: "tx_refs \<Rightarrow> nat \<Rightarrow> byte list \<Rightarrow> registeredBlock list \<times> byte list" where
  "read_dropped txs 0 r = ([], r)"
| "read_dropped txs (Suc n) r =
    (let (rb, r) = deserializeRegisteredBlock txs r; (rbs, r) = read_dropped txs n r in (rb # rbs, r))"

definition RestoreFeeEstimator :: "fee_codec \<Rightarrow> byte list \<Rightarrow> fee_error + FeeEstimator" where
  "RestoreFeeEstimator c data =
    (if length data < 4 then Inl EndOfData
     else
       let (version, r) = read_u32 data
       in if version \<noteq> estimateFeeSaveVersion then Inl IncorrectVersion
          else
            let (maxRb, r) = read_u32 r; (bSize, r) = read_u32 r; (maxRepl, r) = read_u32 r; (minReg, r) = read_u32 r;
                (known, r) = read_u32 r; (numReg, r) = read_u32 r; (numObserved, r) = read_u32 r;
                ef = \<lparr>maxRollback = uint maxRb, binSize = sint bSize, maxReplacements = sint maxRepl, minRegisteredBlocks = uint minReg,
                  lastKnownHeight = sint known, numBlocksRegistered = uint numReg, fe_observed = [], fe_bin = replicate bins [],
                  fe_cached = None, fe_dropped = [], fe_mem = Map.empty, fe_fresh = nil_addr + 1\<rparr>;
                (r, observed, ef) = read_observed c (unat numObserved) 0 (r, Map.empty, ef)
            in case read_bins observed bins r of
                 Inl e \<Rightarrow> Inl e
               | Inr (bs, r) \<Rightarrow>
                   let (numDropped, r) = read_u32 r; (rbs, r) = read_dropped observed (unat numDropped) r
                   in Inr (ef\<lparr>fe_bin := bs, fe_dropped := rbs\<rparr>))"

text \<open>
  Start-up (\<open>newServer\<close>): a saved estimator is used if it is at the height of the best chain; one that cannot be restored or
  is at another height is replaced by a new one.
\<close>

definition start_estimator :: "fee_codec \<Rightarrow> byte list option \<Rightarrow> int \<Rightarrow> FeeEstimator" where
  "start_estimator c saved height =
    (let new = NewFeeEstimator DefaultEstimateFeeMaxRollback DefaultEstimateFeeMinRegisteredBlocks
     in case saved of
          None \<Rightarrow> new
        | Some data \<Rightarrow>
            (case RestoreFeeEstimator c data of
               Inl _ \<Rightarrow> new
             | Inr ef \<Rightarrow> if LastKnownHeight ef \<noteq> height then new else ef))"

end
