(* ===== verification/Fee_Bins.thy ===== *)
theory Fee_Bins
  imports Fee_Estimate
begin

text \<open>
  What registering a block and rolling it back do to the bins of the fee estimator.  Both are described on the multisets
  of the bins: \<open>undo\<close> takes out the transactions that a block has mined and puts the dropped ones back.  \<open>stack_ok\<close> states
  that the blocks on the stack can be undone one after the other.
\<close>

section \<open>Where a transaction is filed\<close>

definition mined_in :: "fe_memory \<Rightarrow> addr \<Rightarrow> int option" where
  "mined_in mem p = map_option ob_mined (mem p)"

definition slot :: "fe_memory \<Rightarrow> addr \<Rightarrow> int option" where
  "slot mem p = map_option confirm_index (mem p)"

definition tracked :: "fe_memory \<Rightarrow> nat \<Rightarrow> int \<Rightarrow> addr \<Rightarrow> bool" where
  "tracked mem b H p \<longleftrightarrow> slot mem p = Some (int b) \<and> (\<exists>m. mined_in mem p = Some m \<and> m \<le> H)"

definition undo :: "fe_memory \<Rightarrow> int \<Rightarrow> (nat \<Rightarrow> addr multiset) \<Rightarrow> addr list \<Rightarrow> nat \<Rightarrow> addr multiset" where
  "undo mem H B d b =
    filter_mset (\<lambda>p. mined_in mem p \<noteq> Some H) (B b) + filter_mset (\<lambda>p. slot mem p = Some (int b)) (mset d)"

fun stack_ok :: "fe_memory \<Rightarrow> int \<Rightarrow> (nat \<Rightarrow> addr multiset) \<Rightarrow> addr list list \<Rightarrow> bool" where
  "stack_ok mem H B [] = True"
| "stack_ok mem H B (d # ds) \<longleftrightarrow>
    (\<forall>b<bins. size (filter_mset (\<lambda>p. slot mem p = Some (int b)) (mset d)) \<le> size (filter_mset (\<lambda>p. mined_in mem p = Some H) (B b)))
    \<and> (\<forall>p\<in>set d. \<exists>b<bins. tracked mem b (H - 1) p)
    \<and> stack_ok mem (H - 1) (undo mem H B d) ds"

lemma tracked_mono: "tracked mem b H p \<Longrightarrow> H \<le> H' \<Longrightarrow> tracked mem b H' p"
  by (auto simp: tracked_def)

lemma tracked_cong: "mem p = mem' p \<Longrightarrow> tracked mem b H p \<longleftrightarrow> tracked mem' b H p"
  by (simp add: tracked_def slot_def mined_in_def)

lemma undo_cong:
  assumes "\<And>p. p \<in># B b \<Longrightarrow> mem p = mem' p" "\<And>p. p \<in> set d \<Longrightarrow> mem p = mem' p"
  shows "undo mem H B d b = undo mem' H B d b"
  unfolding undo_def mined_in_def slot_def
  by (intro arg_cong2[where f = "(+)"] filter_mset_cong refl) (simp_all add: assms)

text \<open>The stack depends only on the transactions in the bins and on the stack itself.\<close>

lemma stack_ok_cong:
  assumes "\<And>b p. b < bins \<Longrightarrow> p \<in># B b \<Longrightarrow> mem p = mem' p" "\<And>d p. d \<in> set ds \<Longrightarrow> p \<in> set d \<Longrightarrow> mem p = mem' p"
    and "\<And>b. b < bins \<Longrightarrow> B b = B' b"
  shows "stack_ok mem H B ds \<longleftrightarrow> stack_ok mem' H B' ds"
  using assms
proof (induction ds arbitrary: H B B')
  case (Cons d ds)
  have u: "undo mem H B d b = undo mem' H B' d b" if "b < bins" for b
  proof -
    have "undo mem H B d b = undo mem' H B d b" using Cons.prems(1,2) that by (intro undo_cong) auto
    then show ?thesis using Cons.prems(3) that by (simp add: undo_def)
  qed
  have "stack_ok mem (H - 1) (undo mem H B d) ds \<longleftrightarrow> stack_ok mem' (H - 1) (undo mem' H B' d) ds"
  proof (intro Cons.IH u)
    show "mem p = mem' p" if "b < bins" "p \<in># undo mem H B d b" for b p
      using that Cons.prems(1)[of b p] Cons.prems(2)[of d p] by (auto simp: undo_def)
  qed (use Cons.prems(2) in auto)
  moreover have "filter_mset (\<lambda>p. slot mem p = Some (int b)) (mset d) = filter_mset (\<lambda>p. slot mem' p = Some (int b)) (mset d)" for b
    using Cons.prems(2)[of d] by (intro filter_mset_cong) (auto simp: slot_def)
  moreover have "filter_mset (\<lambda>p. mined_in mem p = Some H) (B b) = filter_mset (\<lambda>p. mined_in mem' p = Some H) (B' b)" if "b < bins" for b
    unfolding Cons.prems(3)[OF that, symmetric]
    using Cons.prems(1)[OF that] by (intro filter_mset_cong) (auto simp: mined_in_def)
  moreover have "(\<forall>p\<in>set d. \<exists>b<bins. tracked mem b (H - 1) p) \<longleftrightarrow> (\<forall>p\<in>set d. \<exists>b<bins. tracked mem' b (H - 1) p)"
    using Cons.prems(2)[of d] tracked_cong[of mem _ mem'] by (metis list.set_intros(1))
  ultimately show ?case by simp
qed simp

lemma stack_ok_append: "stack_ok mem H B (ds @ ds') \<Longrightarrow> stack_ok mem H B ds"
  by (induction ds arbitrary: H B) auto

section \<open>Registering\<close>

lemma mset_concat_update:
  "b < length xs \<Longrightarrow> mset (concat (xs[b := y])) + mset (xs ! b) = mset (concat xs) + mset y"
proof (induction xs arbitrary: b)
  case (Cons x xs)
  then show ?case by (cases b) (auto simp: algebra_simps)
qed simp

lemma mset_swap_out:
  "i < length xs \<Longrightarrow> j < length xs \<Longrightarrow> add_mset (xs ! i) (mset (xs[i := xs ! j, j := v])) = add_mset v (mset xs)"
  by (cases "i = j") (simp_all add: mset_update insert_DiffM2 nth_list_update)

lemma distinct_by_mset: "mset xs = add_mset p (mset ys) \<Longrightarrow> distinct ys \<Longrightarrow> p \<notin> set ys \<Longrightarrow> distinct xs"
  by (metis distinct.simps(2) mset.simps(2) mset_eq_imp_distinct_iff)

text \<open>The invariant of the loop over the transactions of a block, for one bin and for all.\<close>

definition bin_inv :: "(nat \<Rightarrow> addr multiset) \<Rightarrow> int \<Rightarrow> FeeEstimator \<Rightarrow> int list \<Rightarrow> addr list \<Rightarrow> nat \<Rightarrow> bool" where
  "bin_inv B H ef counts d b \<longleftrightarrow>
    (let bin = fe_bin ef ! b; mem = fe_mem ef
     in int (length bin) \<le> binSize ef
        \<and> undo mem H (\<lambda>_. mset bin) d b = B b
        \<and> int (size (filter_mset (\<lambda>p. mined_in mem p = Some H) (mset bin))) = counts ! b
        \<and> counts ! b \<le> maxReplacements ef
        \<and> int (size (filter_mset (\<lambda>p. slot mem p = Some (int b)) (mset d))) \<le> counts ! b
        \<and> (\<forall>i<length bin. mined_in mem (bin ! i) = Some H \<longrightarrow> length bin \<le> i + nat (counts ! b) + 1)
        \<and> (\<forall>p\<in>set bin. tracked mem b H p))"

definition reg_inv :: "fe_memory \<Rightarrow> (nat \<Rightarrow> addr multiset) \<Rightarrow> int \<Rightarrow> addr list \<Rightarrow> fe_progress \<Rightarrow> bool" where
  "reg_inv mem0 B H rest st \<longleftrightarrow>
    (case st of (ef, counts, d) \<Rightarrow>
       length (fe_bin ef) = bins \<and> length counts = bins
       \<and> (\<forall>b<bins. bin_inv B H ef counts d b)
       \<and> (\<forall>p\<in>set d. \<exists>b<bins. tracked (fe_mem ef) b (H - 1) p)
       \<and> distinct (concat (fe_bin ef) @ d @ rest)
       \<and> (\<forall>p\<in>set (concat (fe_bin ef)). mined_in (fe_mem ef) p = Some H \<longrightarrow>
            p \<in> snd ` set (fe_observed ef) \<and> mined_in mem0 p = Some UnminedHeight)
       \<and> (\<forall>p\<in>set rest. mined_in mem0 p \<noteq> Some UnminedHeight)
       \<and> (\<forall>p. fe_mem ef p = mem0 p
            \<or> (\<exists>ob. mem0 p = Some ob \<and> ob_mined ob = UnminedHeight \<and> fe_mem ef p = Some (ob\<lparr>ob_mined := H\<rparr>) \<and> p \<in> set (concat (fe_bin ef)))))"

text \<open>Filing one transaction \<open>p\<close> in a bin, which may drop others.\<close>

lemma filters_outside:
  assumes "p \<notin># M"
  shows "filter_mset (\<lambda>q. mined_in (mem(p \<mapsto> x)) q = Some H) M = filter_mset (\<lambda>q. mined_in mem q = Some H) M"
    and "filter_mset (\<lambda>q. mined_in (mem(p \<mapsto> x)) q \<noteq> Some H) M = filter_mset (\<lambda>q. mined_in mem q \<noteq> Some H) M"
    and "filter_mset (\<lambda>q. slot (mem(p \<mapsto> x)) q = Some k) M = filter_mset (\<lambda>q. slot mem q = Some k) M"
  using assms by (auto simp: mined_in_def slot_def intro!: filter_mset_cong)

lemma reg_inv_unfiled:
  assumes "reg_inv mem0 B H rest (ef, counts, d)" and "fe_mem ef p = Some ob" "ob_mined ob = UnminedHeight" "H < UnminedHeight"
  shows "b < bins \<Longrightarrow> p \<notin> set (fe_bin ef ! b)" "p \<notin> set d" "p \<notin> set rest" "mem0 p = Some ob"
proof -
  have m: "mined_in (fe_mem ef) p = Some UnminedHeight" using assms(2,3) by (simp add: mined_in_def)
  show "p \<notin> set (fe_bin ef ! b)" if "b < bins"
  proof
    assume "p \<in> set (fe_bin ef ! b)"
    moreover have "bin_inv B H ef counts d b" using assms(1) that by (simp add: reg_inv_def)
    ultimately have "tracked (fe_mem ef) b H p" by (simp add: bin_inv_def Let_def)
    then show False using m assms(4) by (simp add: tracked_def)
  qed
  show "p \<notin> set d" using assms(1,4) m by (fastforce simp: reg_inv_def tracked_def)
  have "fe_mem ef p = mem0 p \<or> (\<exists>ob. fe_mem ef p = Some (ob\<lparr>ob_mined := H\<rparr>))" using assms(1) by (auto simp: reg_inv_def)
  then show m0: "mem0 p = Some ob" using assms(2-4) by auto
  show "p \<notin> set rest" using assms(1,3) m0 by (auto simp: reg_inv_def mined_in_def)
qed

lemma bin_inv_other:
  assumes "bin_inv B H ef counts d c" "p \<notin> set (fe_bin ef ! c)" "p \<notin> set d" "b \<noteq> c" "b < bins" "c < bins"
    and "length counts = bins" "length (fe_bin ef) = bins"
    and "\<forall>x\<in>set ds. slot (fe_mem ef) x = Some (int b)" "p \<notin> set ds"
  shows "bin_inv B H (ef\<lparr>fe_mem := (fe_mem ef)(p \<mapsto> ob), fe_bin := (fe_bin ef)[b := bin]\<rparr>) (counts[b := n]) (d @ ds) c"
proof -
  have e: "filter_mset (\<lambda>q. slot (fe_mem ef) q = Some (int c)) (mset ds) = {#}"
    using assms(4,9) by (auto simp: filter_mset_eq_conv)
  moreover have "tracked ((fe_mem ef)(p \<mapsto> ob)) c H q \<longleftrightarrow> tracked (fe_mem ef) c H q" if "q \<in> set (fe_bin ef ! c)" for q
    using that assms(2) by (intro tracked_cong) auto
  moreover have "mined_in ((fe_mem ef)(p \<mapsto> ob)) (fe_bin ef ! c ! i) = mined_in (fe_mem ef) (fe_bin ef ! c ! i)" if "i < length (fe_bin ef ! c)" for i
    using that assms(2) by (auto simp: mined_in_def)
  ultimately show ?thesis
    using assms by (simp add: bin_inv_def Let_def undo_def filters_outside e)
qed

lemma bin_inv_filed:
  assumes inv: "bin_inv B H ef counts d b" and new: "p \<notin> set (fe_bin ef ! b)" "p \<notin> set d" and b: "b < bins"
    and len: "length counts = bins" "length (fe_bin ef) = bins"
    and ob: "ob_mined ob = H" "confirm_index ob = int b"
    and few: "counts ! b < maxReplacements ef"
    and moved: "mset bin + mset ds = add_mset p (mset (fe_bin ef ! b))" and ds: "length ds \<le> 1"
    and old: "\<forall>x\<in>set ds. x \<in> set (fe_bin ef ! b) \<and> mined_in (fe_mem ef) x \<noteq> Some H"
    and fits: "int (length bin) \<le> binSize ef"
    and place: "\<forall>i<length bin. bin ! i = p \<or> mined_in (fe_mem ef) (bin ! i) = Some H \<longrightarrow> length bin \<le> i + nat (counts ! b + 1) + 1"
  shows "bin_inv B H (ef\<lparr>fe_mem := (fe_mem ef)(p \<mapsto> ob), fe_bin := (fe_bin ef)[b := bin]\<rparr>) (counts[b := counts ! b + 1]) (d @ ds) b"
proof -
  let ?mem = "fe_mem ef" and ?mem' = "(fe_mem ef)(p \<mapsto> ob)" and ?bin = "fe_bin ef ! b"
  have pds: "p \<notin> set ds" using old new(1) by auto
  have nonneg: "0 \<le> counts ! b" using inv unfolding bin_inv_def Let_def by (metis of_nat_0_le_iff)
  have all: "filter_mset P (mset bin) + filter_mset P (mset ds) = filter_mset P (add_mset p (mset ?bin))" for P
    by (simp only: moved[symmetric] filter_union_mset)
  have tr: "tracked ?mem b H x" if "x \<in> set ?bin" for x using inv that by (simp add: bin_inv_def Let_def)
  have ds_slot: "filter_mset (\<lambda>q. slot ?mem q = Some (int b)) (mset ds) = mset ds"
    using old tr by (auto simp: filter_mset_eq_conv tracked_def)
  have ds_mined: "filter_mset (\<lambda>q. mined_in ?mem q = Some H) (mset ds) = {#}" "filter_mset (\<lambda>q. mined_in ?mem q \<noteq> Some H) (mset ds) = mset ds"
    using old by (auto simp: filter_mset_eq_conv)
  have p': "mined_in ?mem' p = Some H" "slot ?mem' p = Some (int b)" using ob by (simp_all add: mined_in_def slot_def)
  have keep: "filter_mset (\<lambda>q. mined_in ?mem' q \<noteq> Some H) (mset bin) + mset ds = filter_mset (\<lambda>q. mined_in ?mem q \<noteq> Some H) (mset ?bin)"
    using all[of "\<lambda>q. mined_in ?mem' q \<noteq> Some H"] p' new(1) pds by (simp add: filters_outside ds_mined)
  have mined: "filter_mset (\<lambda>q. mined_in ?mem' q = Some H) (mset bin) = add_mset p (filter_mset (\<lambda>q. mined_in ?mem q = Some H) (mset ?bin))"
    using all[of "\<lambda>q. mined_in ?mem' q = Some H"] p' new(1) pds by (simp add: filters_outside ds_mined)
  have sub: "x = p \<or> x \<in> set ?bin" if "x \<in> set bin" for x
    using that arg_cong[OF moved, of set_mset] by auto
  have "tracked ?mem' b H x" if "x \<in> set bin" for x
  proof (cases "x = p")
    case True
    then show ?thesis using p' by (simp add: tracked_def)
  next
    case False
    then have "tracked ?mem b H x" using sub[OF that] tr by blast
    then show ?thesis using False tracked_cong[of ?mem x ?mem'] by simp
  qed
  moreover have "\<forall>i<length bin. mined_in ?mem' (bin ! i) = Some H \<longrightarrow> length bin \<le> i + nat (counts ! b + 1) + 1"
  proof (intro allI impI)
    fix i assume i: "i < length bin" "mined_in ?mem' (bin ! i) = Some H"
    then have "bin ! i = p \<or> mined_in ?mem (bin ! i) = Some H" by (cases "bin ! i = p") (auto simp: mined_in_def)
    then show "length bin \<le> i + nat (counts ! b + 1) + 1" using place i(1) by blast
  qed
  moreover have "undo ?mem' H (\<lambda>_. mset bin) (d @ ds) b = B b"
  proof -
    have "undo ?mem' H (\<lambda>_. mset bin) (d @ ds) b = undo ?mem H (\<lambda>_. mset ?bin) d b"
      using new pds by (simp add: undo_def filters_outside ds_slot keep[symmetric] algebra_simps)
    then show ?thesis using inv by (simp add: bin_inv_def Let_def)
  qed
  ultimately show ?thesis
    using inv b len few fits ds nonneg new pds
    by (simp add: bin_inv_def Let_def mined filters_outside ds_slot)
qed

lemma reg_inv_filed:
  assumes inv: "reg_inv mem0 B H rest (ef, counts, d)" and p: "fe_mem ef p = Some ob" "ob_mined ob = UnminedHeight"
    and obs: "p \<in> snd ` set (fe_observed ef)"
    and H: "H < UnminedHeight" and b: "b < bins" "confirm_index (ob\<lparr>ob_mined := H\<rparr>) = int b"
    and few: "counts ! b < maxReplacements ef"
    and moved: "mset bin + mset ds = add_mset p (mset (fe_bin ef ! b))" and ds: "length ds \<le> 1"
    and old: "\<forall>x\<in>set ds. x \<in> set (fe_bin ef ! b) \<and> mined_in (fe_mem ef) x \<noteq> Some H"
    and fits: "int (length bin) \<le> binSize ef"
    and place: "\<forall>i<length bin. bin ! i = p \<or> mined_in (fe_mem ef) (bin ! i) = Some H \<longrightarrow> length bin \<le> i + nat (counts ! b + 1) + 1"
  shows "reg_inv mem0 B H rest (ef\<lparr>fe_mem := (fe_mem ef)(p \<mapsto> ob\<lparr>ob_mined := H\<rparr>), fe_bin := (fe_bin ef)[b := bin]\<rparr>,
     counts[b := counts ! b + 1], d @ ds)"
proof -
  let ?mem' = "(fe_mem ef)(p \<mapsto> ob\<lparr>ob_mined := H\<rparr>)" and ?bins' = "(fe_bin ef)[b := bin]"
  note new = reg_inv_unfiled[OF inv p H]
  have len: "length (fe_bin ef) = bins" "length counts = bins" and bi: "\<And>c. c < bins \<Longrightarrow> bin_inv B H ef counts d c"
    and d: "\<forall>p\<in>set d. \<exists>b<bins. tracked (fe_mem ef) b (H - 1) p" and dist: "distinct (concat (fe_bin ef) @ d @ rest)"
    and mem: "\<And>q. fe_mem ef q = mem0 q \<or> (\<exists>ob. mem0 q = Some ob \<and> ob_mined ob = UnminedHeight \<and> fe_mem ef q = Some (ob\<lparr>ob_mined := H\<rparr>) \<and> q \<in> set (concat (fe_bin ef)))"
    using inv by (auto simp: reg_inv_def)
  have tr: "tracked (fe_mem ef) b H x" if "x \<in> set (fe_bin ef ! b)" for x using bi[OF b(1)] that by (simp add: bin_inv_def Let_def)
  have pds: "p \<notin> set ds" using old new(1)[OF b(1)] by auto
  have cat: "mset (concat ?bins' @ ds) = add_mset p (mset (concat (fe_bin ef)))"
  proof -
    have "mset (concat ?bins' @ ds) + mset (fe_bin ef ! b) = (mset (concat ?bins') + mset (fe_bin ef ! b)) + mset ds"
      by (simp add: ac_simps)
    also have "\<dots> = mset (concat (fe_bin ef)) + (mset bin + mset ds)"
      using mset_concat_update[of b "fe_bin ef" bin] b(1) len(1) by (simp only: add.assoc)
    finally show ?thesis by (simp only: moved) simp
  qed
  have pout: "p \<notin> set (concat (fe_bin ef))" unfolding set_concat using new(1) len(1) by (auto simp: set_conv_nth[of "fe_bin ef"])
  have "bin_inv B H (ef\<lparr>fe_mem := ?mem', fe_bin := ?bins'\<rparr>) (counts[b := counts ! b + 1]) (d @ ds) c" if c: "c < bins" for c
  proof (cases "c = b")
    case True
    show ?thesis unfolding True
      by (rule bin_inv_filed[OF bi[OF b(1)] new(1)[OF b(1)] new(2) b(1) len(2,1) _ b(2) few moved ds old fits place]) simp
  next
    case False
    have "\<forall>x\<in>set ds. slot (fe_mem ef) x = Some (int b)" using old tr by (auto simp: tracked_def)
    then show ?thesis using bin_inv_other[OF bi[OF c] new(1)[OF c] new(2) _ b(1) c len(2,1) _ pds] False by blast
  qed
  moreover have "\<exists>b<bins. tracked ?mem' b (H - 1) x" if "x \<in> set (d @ ds)" for x
  proof -
    have "\<exists>b<bins. tracked (fe_mem ef) b (H - 1) x" using that d old tr b(1) by (fastforce simp: tracked_def)
    moreover have "x \<noteq> p" using that new(2) pds by auto
    ultimately show ?thesis using tracked_cong[of "fe_mem ef" x ?mem'] by auto
  qed
  moreover have "distinct (concat ?bins' @ (d @ ds) @ rest)"
  proof (rule distinct_by_mset[OF _ dist])
    show "mset (concat ?bins' @ (d @ ds) @ rest) = add_mset p (mset (concat (fe_bin ef) @ d @ rest))"
      using cat by (simp add: ac_simps)
  qed (use pout new(2,3) in simp)
  moreover have s: "insert p (set (concat (fe_bin ef))) = set (concat ?bins') \<union> set ds"
    using arg_cong[OF cat, of set_mset] by (simp only: set_mset_mset set_mset_add_mset_insert set_append)
  moreover have "q \<in> snd ` set (fe_observed ef) \<and> mined_in mem0 q = Some UnminedHeight" if q: "q \<in> set (concat ?bins')" "mined_in ?mem' q = Some H" for q
  proof (cases "q = p")
    case False
    then have "q \<in> set (concat (fe_bin ef))" "mined_in (fe_mem ef) q = Some H" using q s by (blast, simp add: mined_in_def)
    then show ?thesis using inv by (simp add: reg_inv_def del: set_concat)
  qed (use obs new(4) p(2) in \<open>simp add: mined_in_def\<close>)
  moreover have "?mem' q = mem0 q \<or> (\<exists>ob. mem0 q = Some ob \<and> ob_mined ob = UnminedHeight \<and> ?mem' q = Some (ob\<lparr>ob_mined := H\<rparr>) \<and> q \<in> set (concat ?bins'))" for q
  proof -
    have "p \<in> set (concat ?bins')" using s pds by blast
    moreover have "q \<in> set (concat ?bins')" if "fe_mem ef q = Some (ob\<lparr>ob_mined := H\<rparr>)" "q \<in> set (concat (fe_bin ef))" for ob
    proof -
      have "q \<notin> set ds" using that(1) old by (auto simp: mined_in_def)
      then show ?thesis using s that(2) by blast
    qed
    ultimately show ?thesis using mem[of q] new(4) p by (cases "q = p") auto
  qed
  ultimately show ?thesis using inv by (simp add: reg_inv_def del: distinct_append set_append append_assoc set_concat)
qed

text \<open>A draw from a full bin never takes a transaction that the block has just added.\<close>

lemma replace_in_full_bin:
  assumes inv: "bin_inv B H ef counts d b" and full: "int (length (fe_bin ef ! b)) = binSize ef"
    and l: "l = binSize ef - (counts ! b + 1)" "0 < l" and dr: "int dr < l" and p: "p \<notin> set (fe_bin ef ! b)"
  defines "bin \<equiv> fe_bin ef ! b"
  defines "bin' \<equiv> bin[dr := bin ! (nat l - 1), nat l - 1 := p]"
  shows "mset bin' + mset [bin ! dr] = add_mset p (mset bin)" and "mined_in (fe_mem ef) (bin ! dr) \<noteq> Some H"
    and "\<forall>i<length bin'. bin' ! i = p \<or> mined_in (fe_mem ef) (bin' ! i) = Some H \<longrightarrow> length bin' \<le> i + nat (counts ! b + 1) + 1"
proof -
  have c: "0 \<le> counts ! b" using inv unfolding bin_inv_def Let_def by (metis of_nat_0_le_iff)
  have place: "length bin \<le> i + nat (counts ! b) + 1" if "i < length bin" "mined_in (fe_mem ef) (bin ! i) = Some H" for i
    using inv that by (simp add: bin_inv_def Let_def bin_def)
  have lt: "dr < length bin" "nat l - 1 < length bin" using full l dr c by (auto simp: bin_def)
  show "mset bin' + mset [bin ! dr] = add_mset p (mset bin)"
    using mset_swap_out[OF lt, of p] by (simp add: bin'_def)
  show "mined_in (fe_mem ef) (bin ! dr) \<noteq> Some H"
    using place[OF lt(1)] full l dr c by (auto simp: bin_def)
  have last: "mined_in (fe_mem ef) (bin ! (nat l - 1)) \<noteq> Some H"
    using place[OF lt(2)] full l c by (auto simp: bin_def)
  show "\<forall>i<length bin'. bin' ! i = p \<or> mined_in (fe_mem ef) (bin' ! i) = Some H \<longrightarrow> length bin' \<le> i + nat (counts ! b + 1) + 1"
  proof (intro allI impI)
    fix i assume i: "i < length bin'" "bin' ! i = p \<or> mined_in (fe_mem ef) (bin' ! i) = Some H"
    show "length bin' \<le> i + nat (counts ! b + 1) + 1"
    proof (cases "i = nat l - 1")
      case True
      then show ?thesis using full l c by (simp add: bin'_def bin_def)
    next
      case False
      then have e: "bin' ! i = (if i = dr then bin ! (nat l - 1) else bin ! i)" using i(1) lt by (auto simp: bin'_def nth_list_update)
      then have "bin' ! i \<noteq> p" using p i(1) lt by (auto simp: bin'_def bin_def)
      then have "i \<noteq> dr" "mined_in (fe_mem ef) (bin ! i) = Some H" using i(2) e last by (auto split: if_splits)
      then have "length bin \<le> i + nat (counts ! b) + 1" using place[of i] i(1) by (simp add: bin'_def)
      then show ?thesis using c by (simp add: bin'_def)
    qed
  qed
qed

lemma append_to_bin:
  assumes inv: "bin_inv B H ef counts d b" and p: "p \<notin> set (fe_bin ef ! b)"
  defines "bin' \<equiv> fe_bin ef ! b @ [p]"
  shows "\<forall>i<length bin'. bin' ! i = p \<or> mined_in (fe_mem ef) (bin' ! i) = Some H \<longrightarrow> length bin' \<le> i + nat (counts ! b + 1) + 1"
proof (intro allI impI)
  fix i assume i: "i < length bin'" "bin' ! i = p \<or> mined_in (fe_mem ef) (bin' ! i) = Some H"
  have c: "0 \<le> counts ! b" using inv unfolding bin_inv_def Let_def by (metis of_nat_0_le_iff)
  show "length bin' \<le> i + nat (counts ! b + 1) + 1"
  proof (cases "i < length (fe_bin ef ! b)")
    case True
    then have "bin' ! i = fe_bin ef ! b ! i" "bin' ! i \<noteq> p" using p by (auto simp: bin'_def nth_append)
    then have "length (fe_bin ef ! b) \<le> i + nat (counts ! b) + 1" using inv i(2) True by (simp add: bin_inv_def Let_def)
    then show ?thesis using c by (simp add: bin'_def)
  qed (use i(1) in \<open>simp add: bin'_def\<close>)
qed

text \<open>The step for one transaction keeps the invariant; it changes only memory and bins, and it does not panic.\<close>

lemma register_tx_inv:
  assumes inv: "reg_inv mem0 B H rest (ef, counts, d)" and H: "H < UnminedHeight"
    and obs: "\<forall>hp\<in>set (fe_observed ef). fe_mem ef (snd hp) \<noteq> None"
    and draw: "\<forall>n l. 0 < l \<longrightarrow> int (intn n l) < l" and reps: "maxReplacements ef < binSize ef"
  shows "\<exists>r. register_tx intn H h (ef, counts, d) = Some r
    \<and> (\<forall>ef' counts' d'. r = Inr (ef', counts', d') \<longrightarrow> reg_inv mem0 B H rest (ef', counts', d')
         \<and> (\<exists>mem bs. ef' = ef\<lparr>fe_mem := mem, fe_bin := bs\<rparr> \<and> (\<forall>q. fe_mem ef q \<noteq> None \<longrightarrow> mem q \<noteq> None)))"
proof (cases "map_of (fe_observed ef) h")
  case None
  then show ?thesis using inv by (auto simp: register_tx_def intro!: exI[of _ "fe_mem ef"] exI[of _ "fe_bin ef"])
next
  case (Some p)
  then obtain ob where ob: "fe_mem ef p = Some ob" using obs map_of_SomeD[OF Some] by fastforce
  let ?k = "i32 (i32 (H - ob_observed ob) - 1)"
  have k: "confirm_index (ob\<lparr>ob_mined := H\<rparr>) = ?k" by (simp add: confirm_index_def)
  show ?thesis
  proof (cases "ob_mined ob \<noteq> UnminedHeight \<or> ?k \<ge> estimateFeeDepth \<or> ?k < 0 \<or> counts ! nat ?k = maxReplacements ef")
    case True
    have "register_tx intn H h (ef, counts, d) = Some (Inl (AlreadyMined, ef))" if "ob_mined ob \<noteq> UnminedHeight"
      using that Some ob by (simp add: register_tx_def Let_def)
    moreover have "register_tx intn H h (ef, counts, d) = Some (Inr (ef, counts, d))" if "ob_mined ob = UnminedHeight" "?k \<ge> estimateFeeDepth \<or> ?k < 0"
      using that Some ob by (simp add: register_tx_def)
    moreover have "register_tx intn H h (ef, counts, d) = Some (Inr (ef, counts, d))"
      if "ob_mined ob = UnminedHeight" "\<not> (?k \<ge> estimateFeeDepth \<or> ?k < 0)" "counts ! nat ?k = maxReplacements ef"
      using that Some ob by (simp add: register_tx_def Let_def)
    ultimately consider "register_tx intn H h (ef, counts, d) = Some (Inl (AlreadyMined, ef))" | "register_tx intn H h (ef, counts, d) = Some (Inr (ef, counts, d))"
      using True by blast
    then show ?thesis using inv by cases (auto intro!: exI[of _ "fe_mem ef"] exI[of _ "fe_bin ef"])
  next
    case False
    then have um: "ob_mined ob = UnminedHeight" by blast
    define b where "b = nat ?k"
    have b: "b < bins" "confirm_index (ob\<lparr>ob_mined := H\<rparr>) = int b" using False k by (auto simp: b_def estimateFeeDepth_def)
    have bi: "bin_inv B H ef counts d b" using inv b(1) by (simp add: reg_inv_def)
    have few: "counts ! b < maxReplacements ef" using bi False by (auto simp: bin_inv_def Let_def b_def)
    have c: "0 \<le> counts ! b" using bi unfolding bin_inv_def Let_def by (metis of_nat_0_le_iff)
    have fits: "int (length (fe_bin ef ! b)) \<le> binSize ef" using bi by (simp add: bin_inv_def Let_def)
    have len: "length counts = bins" using inv by (simp add: reg_inv_def)
    note p = reg_inv_unfiled(1)[OF inv ob um H b(1)]
    have "p \<in> snd ` set (fe_observed ef)" using map_of_SomeD[OF Some] by force
    note filed = reg_inv_filed[OF inv ob um this H b few]
    show ?thesis
    proof (cases "int (length (fe_bin ef ! b)) = binSize ef")
      case True
      define l where "l = binSize ef - (counts ! b + 1)"
      define dr where "dr = intn (length d) l"
      have l: "0 < l" "int dr < l" using few reps draw by (auto simp: l_def dr_def)
      then have dr: "dr < length (fe_bin ef ! b)" using True c by (auto simp: l_def)
      note rep = replace_in_full_bin[OF bi True l_def l p]
      have "reg_inv mem0 B H rest (ef\<lparr>fe_mem := (fe_mem ef)(p \<mapsto> ob\<lparr>ob_mined := H\<rparr>),
          fe_bin := (fe_bin ef)[b := (fe_bin ef ! b)[dr := fe_bin ef ! b ! (nat l - 1), nat l - 1 := p]]\<rparr>,
          counts[b := counts ! b + 1], d @ [fe_bin ef ! b ! dr])"
        using rep dr True by (intro filed) auto
      then show ?thesis using Some ob False True l dr b(1) len
        by (simp add: register_tx_def Let_def flip: b_def l_def dr_def) (auto simp: l_def)
    next
      case nf: False
      have "reg_inv mem0 B H rest (ef\<lparr>fe_mem := (fe_mem ef)(p \<mapsto> ob\<lparr>ob_mined := H\<rparr>), fe_bin := (fe_bin ef)[b := fe_bin ef ! b @ [p]]\<rparr>,
          counts[b := counts ! b + 1], d @ [])"
        using append_to_bin[OF bi p] nf fits by (intro filed) auto
      then show ?thesis using Some ob False nf
        by (simp add: register_tx_def Let_def flip: b_def) auto
    qed
  qed
qed

lemma register_txs_inv:
  assumes "reg_inv mem0 B H rest (ef, counts, d)" "H < UnminedHeight" "\<forall>hp\<in>set (fe_observed ef). fe_mem ef (snd hp) \<noteq> None"
    and "\<forall>n l. 0 < l \<longrightarrow> int (intn n l) < l" "maxReplacements ef < binSize ef"
  shows "\<exists>r. register_txs intn H hs (ef, counts, d) = Some r
    \<and> (\<forall>ef' counts' d'. r = Inr (ef', counts', d') \<longrightarrow> reg_inv mem0 B H rest (ef', counts', d')
         \<and> (\<exists>mem bs. ef' = ef\<lparr>fe_mem := mem, fe_bin := bs\<rparr> \<and> (\<forall>q. fe_mem ef q \<noteq> None \<longrightarrow> mem q \<noteq> None)))"
  using assms
proof (induction hs arbitrary: ef counts d)
  case Nil
  then show ?case by (auto intro!: exI[of _ "fe_mem ef"] exI[of _ "fe_bin ef"])
next
  case (Cons h hs)
  obtain r where r: "register_tx intn H h (ef, counts, d) = Some r"
    and inr: "\<And>ef' counts' d'. r = Inr (ef', counts', d') \<Longrightarrow> reg_inv mem0 B H rest (ef', counts', d')
      \<and> (\<exists>mem bs. ef' = ef\<lparr>fe_mem := mem, fe_bin := bs\<rparr> \<and> (\<forall>q. fe_mem ef q \<noteq> None \<longrightarrow> mem q \<noteq> None))"
    using register_tx_inv[OF Cons.prems] by metis
  show ?case
  proof (cases r)
    case (Inl e)
    then show ?thesis using r by simp
  next
    case (Inr st)
    obtain ef1 counts1 d1 where st: "st = (ef1, counts1, d1)" by (cases st)
    obtain mem bs where 1: "reg_inv mem0 B H rest (ef1, counts1, d1)" "ef1 = ef\<lparr>fe_mem := mem, fe_bin := bs\<rparr>"
      "\<forall>q. fe_mem ef q \<noteq> None \<longrightarrow> mem q \<noteq> None"
      using inr Inr st by blast
    have "\<forall>hp\<in>set (fe_observed ef1). fe_mem ef1 (snd hp) \<noteq> None" "maxReplacements ef1 < binSize ef1"
      using Cons.prems(3,5) 1(2,3) by auto
    from Cons.IH[OF 1(1) Cons.prems(2) this(1) Cons.prems(4) this(2)] obtain r' where
      2: "register_txs intn H hs (ef1, counts1, d1) = Some r'"
      "\<And>ef' counts' d'. r' = Inr (ef', counts', d') \<Longrightarrow> reg_inv mem0 B H rest (ef', counts', d')
        \<and> (\<exists>mem bs. ef' = ef1\<lparr>fe_mem := mem, fe_bin := bs\<rparr> \<and> (\<forall>q. fe_mem ef1 q \<noteq> None \<longrightarrow> mem q \<noteq> None))"
      by metis
    have "\<exists>mem bs. ef' = ef\<lparr>fe_mem := mem, fe_bin := bs\<rparr> \<and> (\<forall>q. fe_mem ef q \<noteq> None \<longrightarrow> mem q \<noteq> None)" if r': "r' = Inr (ef', counts', d')" for ef' counts' d'
    proof -
      obtain mem' bs' where "ef' = ef1\<lparr>fe_mem := mem', fe_bin := bs'\<rparr>" "\<forall>q. fe_mem ef1 q \<noteq> None \<longrightarrow> mem' q \<noteq> None"
        using 2(2)[OF r'] by blast
      then have "ef' = ef\<lparr>fe_mem := mem', fe_bin := bs'\<rparr> \<and> (\<forall>q. fe_mem ef q \<noteq> None \<longrightarrow> mem' q \<noteq> None)" using 1(2,3) by simp
      then show ?thesis by blast
    qed
    then show ?thesis using r Inr st 2 by auto
  qed
qed

section \<open>The invariant of the bins\<close>

text \<open>The lists of dropped transactions, the most recent first, and the bins as multisets.\<close>

abbreviation stack :: "FeeEstimator \<Rightarrow> addr list list" where "stack ef \<equiv> rev (map rb_transactions (fe_dropped ef))"

abbreviation bin_msets :: "FeeEstimator \<Rightarrow> nat \<Rightarrow> addr multiset" where "bin_msets ef \<equiv> \<lambda>b. mset (fe_bin ef ! b)"

definition bins_ok :: "FeeEstimator \<Rightarrow> bool" where
  "bins_ok ef \<longleftrightarrow>
    length (fe_bin ef) = bins \<and> 0 \<le> maxReplacements ef \<and> maxReplacements ef < binSize ef
    \<and> int (length (fe_dropped ef)) \<le> maxRollback ef \<and> maxRollback ef \<le> 4294967295
    \<and> (\<forall>b<bins. int (length (fe_bin ef ! b)) \<le> binSize ef \<and> (\<forall>p\<in>set (fe_bin ef ! b). tracked (fe_mem ef) b (lastKnownHeight ef) p))
    \<and> distinct (concat (fe_bin ef) @ concat (stack ef))
    \<and> stack_ok (fe_mem ef) (lastKnownHeight ef) (bin_msets ef) (stack ef)
    \<and> (if lastKnownHeight ef = UnminedHeight then concat (fe_bin ef) = [] \<and> fe_dropped ef = []
       else lastKnownHeight ef < UnminedHeight \<and> int (length (fe_dropped ef)) \<le> lastKnownHeight ef + 1)"

lemma stack_ok_tracked:
  "stack_ok mem H B ds \<Longrightarrow> d \<in> set ds \<Longrightarrow> p \<in> set d \<Longrightarrow> \<exists>b<bins. tracked mem b (H - 1) p"
proof (induction ds arbitrary: H B)
  case (Cons d' ds)
  show ?case
  proof (cases "d = d'")
    case False
    have "\<exists>b<bins. tracked mem b (H - 1 - 1) p"
      by (rule Cons.IH[of "H - 1" "undo mem H B d'"]) (use Cons.prems False in auto)
    then show ?thesis using tracked_mono by fastforce
  qed (use Cons.prems in auto)
qed simp

text \<open>Everything filed is mined, at a height that is known.\<close>

lemma filed_mined:
  assumes "bins_ok ef" "p \<in> set (concat (fe_bin ef)) \<union> set (concat (stack ef))"
  obtains b m where "b < bins" "slot (fe_mem ef) p = Some (int b)" "mined_in (fe_mem ef) p = Some m" "m \<le> lastKnownHeight ef"
    "m \<noteq> UnminedHeight" "lastKnownHeight ef < UnminedHeight"
proof -
  have nu: "lastKnownHeight ef < UnminedHeight" using assms by (auto simp: bins_ok_def split: if_splits)
  have "\<exists>b<bins. tracked (fe_mem ef) b (lastKnownHeight ef) p"
  proof (cases "p \<in> set (concat (fe_bin ef))")
    case True
    then show ?thesis using assms(1) by (auto simp: bins_ok_def set_conv_nth[of "fe_bin ef"])
  next
    case False
    then obtain d where "d \<in> set (stack ef)" "p \<in> set d" using assms(2) by (auto simp del: set_rev)
    then have "\<exists>b<bins. tracked (fe_mem ef) b (lastKnownHeight ef - 1) p"
      using assms(1) stack_ok_tracked by (metis bins_ok_def)
    then show ?thesis using tracked_mono by fastforce
  qed
  then show ?thesis using nu that by (fastforce simp: tracked_def)
qed

lemma reg_inv_start:
  assumes ok: "bins_ok ef" and H: "lastKnownHeight ef = UnminedHeight \<or> H = lastKnownHeight ef + 1"
    and ef1: "fe_bin ef1 = fe_bin ef" "fe_mem ef1 = fe_mem ef" "binSize ef1 = binSize ef" "maxReplacements ef1 = maxReplacements ef"
  shows "reg_inv (fe_mem ef) (bin_msets ef) H (concat (stack ef)) (ef1, replicate bins 0, [])"
proof -
  have early: "mined_in (fe_mem ef) p \<noteq> Some H" "mined_in (fe_mem ef) p \<noteq> Some UnminedHeight" if filed: "p \<in> set (concat (fe_bin ef)) \<union> set (concat (stack ef))" for p
  proof -
    obtain m where m: "mined_in (fe_mem ef) p = Some m" "m \<le> lastKnownHeight ef" "lastKnownHeight ef < UnminedHeight"
      using filed_mined[OF ok filed] by metis
    then show "mined_in (fe_mem ef) p \<noteq> Some H" "mined_in (fe_mem ef) p \<noteq> Some UnminedHeight" using H by auto
  qed
  have "bin_inv (bin_msets ef) H ef1 (replicate bins 0) [] b" if b: "b < bins" for b
  proof -
    have len: "length (fe_bin ef) = bins" using ok by (simp add: bins_ok_def)
    have mem: "p \<in> set (concat (fe_bin ef))" if "p \<in> set (fe_bin ef ! b)" for p using that b len by auto
    have "filter_mset (\<lambda>p. mined_in (fe_mem ef) p = Some H) (mset (fe_bin ef ! b)) = {#}"
      "filter_mset (\<lambda>p. mined_in (fe_mem ef) p \<noteq> Some H) (mset (fe_bin ef ! b)) = mset (fe_bin ef ! b)"
      unfolding filter_mset_eq_conv using early(1)[OF UnI1[OF mem]] by simp_all
    moreover have "tracked (fe_mem ef) b H p" if "p \<in> set (fe_bin ef ! b)" for p
    proof -
      have "tracked (fe_mem ef) b (lastKnownHeight ef) p" using ok that b by (auto simp: bins_ok_def)
      moreover have "lastKnownHeight ef \<noteq> UnminedHeight" by (rule filed_mined[OF ok UnI1[OF mem[OF that]]]) simp
      ultimately show ?thesis using H tracked_mono by fastforce
    qed
    moreover have "mined_in (fe_mem ef) (fe_bin ef ! b ! i) \<noteq> Some H" if "i < length (fe_bin ef ! b)" for i
      using early(1) mem that by auto
    ultimately show ?thesis using ok b ef1 by (simp add: bin_inv_def Let_def undo_def bins_ok_def)
  qed
  moreover have "distinct (concat (fe_bin ef) @ [] @ concat (stack ef))" "length (fe_bin ef) = bins" using ok by (simp_all add: bins_ok_def)
  moreover have "\<forall>p\<in>set (concat (fe_bin ef)). mined_in (fe_mem ef) p \<noteq> Some H" using early(1) by blast
  ultimately show ?thesis using early(2) ef1 by (simp add: reg_inv_def)
qed

text \<open>
  Registering a block: \<open>d\<close> are the transactions it drops; undoing the block gives the bins back.
\<close>

lemma RegisterBlock_effect:
  assumes ok: "bins_ok ef" and obs: "\<forall>hp\<in>set (fe_observed ef). fe_mem ef (snd hp) \<noteq> None"
    and h: "blk_Height block < UnminedHeight" and draw: "\<forall>n l. 0 < l \<longrightarrow> int (intn n l) < l"
  obtains (fail) e ef' where "RegisterBlock L ord intn block ef = Some (Some e, ef')"
  | (success) mem bs counts d where
      "lastKnownHeight ef = UnminedHeight \<or> blk_Height block = lastKnownHeight ef + 1"
      "reg_inv (fe_mem ef) (bin_msets ef) (blk_Height block) (concat (stack ef)) (ef\<lparr>fe_mem := mem, fe_bin := bs\<rparr>, counts, d)"
      "\<forall>q. fe_mem ef q \<noteq> None \<longrightarrow> mem q \<noteq> None"
      "RegisterBlock L ord intn block ef = Some (None, push_dropped \<lparr>rb_hash = BlockHash L (Header block), rb_transactions = d\<rparr>
         (ef\<lparr>fe_cached := None, lastKnownHeight := blk_Height block, numBlocksRegistered := u32 (numBlocksRegistered ef + 1),
            fe_mem := mem, fe_bin := bs, fe_observed := filter (\<lambda>hp. \<not> too_old mem (blk_Height block) hp) (fe_observed ef)\<rparr>))"
proof -
  let ?H = "blk_Height block"
  define ef1 where "ef1 = ef\<lparr>fe_cached := None, lastKnownHeight := ?H, numBlocksRegistered := u32 (numBlocksRegistered ef + 1)\<rparr>"
  show thesis
  proof (cases "?H \<noteq> i32 (lastKnownHeight ef + 1) \<and> lastKnownHeight ef \<noteq> UnminedHeight")
    case True
    then show thesis using fail by (simp add: RegisterBlock_def Let_def)
  next
    case False
    have H: "lastKnownHeight ef = UnminedHeight \<or> ?H = lastKnownHeight ef + 1"
    proof (rule disjCI)
      assume nu: "?H \<noteq> lastKnownHeight ef + 1"
      then show "lastKnownHeight ef = UnminedHeight"
        using False ok i32_id[of "lastKnownHeight ef + 1"] unfolding bins_ok_def
        by (cases "lastKnownHeight ef = UnminedHeight") (simp_all add: UnminedHeight_def)
    qed
    have "reg_inv (fe_mem ef) (bin_msets ef) ?H (concat (stack ef)) (ef1, replicate bins 0, [])"
      by (rule reg_inv_start[OF ok H]) (simp_all add: ef1_def)
    moreover have o1: "\<forall>hp\<in>set (fe_observed ef1). fe_mem ef1 (snd hp) \<noteq> None" and m1: "maxReplacements ef1 < binSize ef1"
      using obs ok by (simp_all add: ef1_def bins_ok_def)
    ultimately have "\<exists>r. register_txs intn ?H (map (TxHash L) (ord (Transactions block))) (ef1, replicate bins 0, []) = Some r
      \<and> (\<forall>ef' counts d. r = Inr (ef', counts, d) \<longrightarrow> reg_inv (fe_mem ef) (bin_msets ef) ?H (concat (stack ef)) (ef', counts, d)
         \<and> (\<exists>mem bs. ef' = ef1\<lparr>fe_mem := mem, fe_bin := bs\<rparr> \<and> (\<forall>q. fe_mem ef1 q \<noteq> None \<longrightarrow> mem q \<noteq> None)))"
      by (intro register_txs_inv h draw)
    then obtain r where r: "register_txs intn ?H (map (TxHash L) (ord (Transactions block))) (ef1, replicate bins 0, []) = Some r"
      and inr: "\<And>ef' counts d. r = Inr (ef', counts, d) \<Longrightarrow> reg_inv (fe_mem ef) (bin_msets ef) ?H (concat (stack ef)) (ef', counts, d)
         \<and> (\<exists>mem bs. ef' = ef1\<lparr>fe_mem := mem, fe_bin := bs\<rparr> \<and> (\<forall>q. fe_mem ef1 q \<noteq> None \<longrightarrow> mem q \<noteq> None))"
      by blast
    show thesis
    proof (cases r)
      case (Inl e)
      then show thesis using fail r False by (cases e) (simp add: RegisterBlock_def Let_def ef1_def)
    next
      case (Inr st)
      obtain ef2 counts d where st: "st = (ef2, counts, d)" by (cases st)
      then obtain mem bs where 2: "reg_inv (fe_mem ef) (bin_msets ef) ?H (concat (stack ef)) (ef2, counts, d)"
          "ef2 = ef1\<lparr>fe_mem := mem, fe_bin := bs\<rparr>" "\<forall>q. fe_mem ef q \<noteq> None \<longrightarrow> mem q \<noteq> None"
        using inr Inr by (auto simp: ef1_def)
      have some: "\<forall>hp\<in>set (fe_observed ef). mem (snd hp) \<noteq> None" using obs 2(3) by blast
      have inv: "reg_inv (fe_mem ef) (bin_msets ef) ?H (concat (stack ef)) (ef\<lparr>fe_mem := mem, fe_bin := bs\<rparr>, counts, d)"
        using 2(1) by (simp add: 2(2) ef1_def reg_inv_def bin_inv_def Let_def)
      show thesis
        using success[OF H inv 2(3)] r Inr st False some
        by (simp add: RegisterBlock_def Let_def 2(2) ef1_def forget_old_def list_all_iff)
    qed
  qed
qed

end
