(* ===== verification/Fee_Rollback.thy ===== *)
theory Fee_Rollback
  imports Fee_Bins
begin

text \<open>
  Registering a block keeps the invariant of the bins, and rolling back the last block is \<open>undo\<close> on the multisets of the
  bins: it does not panic and it keeps the invariant.
\<close>

section \<open>Registering keeps the invariant\<close>

lemma reg_inv_memory:
  assumes "reg_inv mem0 B H rest (ef, counts, d)" "mined_in mem0 p \<noteq> Some UnminedHeight"
  shows "fe_mem ef p = mem0 p"
proof -
  have "fe_mem ef p = mem0 p \<or> (\<exists>ob. mem0 p = Some ob \<and> ob_mined ob = UnminedHeight)" using assms(1) by (auto simp: reg_inv_def)
  then show ?thesis using assms(2) by (auto simp: mined_in_def)
qed

lemma push_dropped_stack:
  assumes "int (length (fe_dropped ef)) \<le> maxRollback ef" "maxRollback ef \<le> 4294967295"
  shows "stack (push_dropped rb ef) = (if maxRollback ef = 0 then [] else rb_transactions rb #
      (if int (length (fe_dropped ef)) = maxRollback ef then butlast (stack ef) else stack ef))"
proof -
  have "u32 (int (length (fe_dropped ef))) = int (length (fe_dropped ef))" using assms by (simp add: go_int)
  then show ?thesis using assms by (auto simp: push_dropped_def drop_Suc rev_map map_butlast simp flip: butlast_rev)
qed

lemma push_dropped_fields [simp]:
  "fe_bin (push_dropped rb ef) = fe_bin ef" "fe_mem (push_dropped rb ef) = fe_mem ef" "binSize (push_dropped rb ef) = binSize ef"
  "maxReplacements (push_dropped rb ef) = maxReplacements ef" "maxRollback (push_dropped rb ef) = maxRollback ef"
  "lastKnownHeight (push_dropped rb ef) = lastKnownHeight ef" "minRegisteredBlocks (push_dropped rb ef) = minRegisteredBlocks ef"
  "numBlocksRegistered (push_dropped rb ef) = numBlocksRegistered ef" "fe_observed (push_dropped rb ef) = fe_observed ef"
  "fe_cached (push_dropped rb ef) = fe_cached ef" "fe_fresh (push_dropped rb ef) = fe_fresh ef"
  by (simp_all add: push_dropped_def)

lemma register_bins_ok:
  assumes ok: "bins_ok ef" and H: "lastKnownHeight ef = UnminedHeight \<or> H = lastKnownHeight ef + 1" "0 \<le> H" "H < UnminedHeight"
    and inv: "reg_inv (fe_mem ef) (bin_msets ef) H (concat (stack ef)) (ef\<lparr>fe_mem := mem, fe_bin := bs\<rparr>, counts, d)"
    and ef': "fe_bin ef' = bs" "fe_mem ef' = mem" "lastKnownHeight ef' = H" "fe_dropped ef' = fe_dropped ef"
      "binSize ef' = binSize ef" "maxReplacements ef' = maxReplacements ef" "maxRollback ef' = maxRollback ef"
  shows "bins_ok (push_dropped \<lparr>rb_hash = h, rb_transactions = d\<rparr> ef')"
proof -
  let ?ef = "push_dropped \<lparr>rb_hash = h, rb_transactions = d\<rparr> ef'"
  have lim: "int (length (fe_dropped ef)) \<le> maxRollback ef" "maxRollback ef \<le> 4294967295" using ok by (simp_all add: bins_ok_def)
  define ds where "ds = (if int (length (fe_dropped ef)) = maxRollback ef then butlast (stack ef) else stack ef)"
  have st: "stack ?ef = (if maxRollback ef = 0 then [] else d # ds)"
    using push_dropped_stack[of ef' "\<lparr>rb_hash = h, rb_transactions = d\<rparr>"] lim ef' by (simp add: ds_def)
  obtain ds' where ds': "stack ef = ds @ ds'" by (metis ds_def append_butlast_last_id append_Nil2 butlast.simps(1))
  have bi: "\<And>b. b < bins \<Longrightarrow> bin_inv (bin_msets ef) H (ef\<lparr>fe_mem := mem, fe_bin := bs\<rparr>) counts d b" and len: "length bs = bins"
    and dist: "distinct (concat bs @ d @ concat (stack ef))" and dtr: "\<forall>p\<in>set d. \<exists>b<bins. tracked mem b (H - 1) p"
    using inv by (simp_all add: reg_inv_def)
  have same: "mem p = fe_mem ef p" if p: "p \<in> set (concat (fe_bin ef)) \<union> set (concat (stack ef))" for p
  proof (rule filed_mined[OF ok p])
    fix m assume "mined_in (fe_mem ef) p = Some m" "m \<noteq> UnminedHeight"
    then show ?thesis using reg_inv_memory[OF inv, of p] by simp
  qed
  have stack0: "stack_ok mem (H - 1) (undo mem H (\<lambda>b. mset (bs ! b)) d) ds"
  proof (cases "fe_dropped ef = []")
    case True
    then show ?thesis by (simp add: ds_def)
  next
    case False
    then have H1: "H - 1 = lastKnownHeight ef" using H ok by (auto simp: bins_ok_def)
    have u: "undo mem H (\<lambda>b. mset (bs ! b)) d b = mset (fe_bin ef ! b)" if "b < bins" for b
      using bi[OF that] by (simp add: bin_inv_def Let_def undo_def)
    have "stack_ok (fe_mem ef) (lastKnownHeight ef) (bin_msets ef) ds" using ok ds' stack_ok_append by (simp add: bins_ok_def) metis
    then show ?thesis unfolding H1
    proof (subst stack_ok_cong[of _ mem "fe_mem ef" _ "bin_msets ef"])
      show "mem p = fe_mem ef p" if "b < bins" "p \<in># undo mem H (\<lambda>b. mset (bs ! b)) d b" for b p
        using that u ok by (intro same) (auto simp: bins_ok_def)
      show "mem p = fe_mem ef p" if "d \<in> set ds" "p \<in> set d" for d p
        using that ds' by (intro same) auto
    qed (use u in auto)
  qed
  have "stack_ok mem H (\<lambda>b. mset (bs ! b)) (stack ?ef)"
  proof -
    have "size (filter_mset (\<lambda>p. slot mem p = Some (int b)) (mset d)) \<le> size (filter_mset (\<lambda>p. mined_in mem p = Some H) (mset (bs ! b)))" if "b < bins" for b
      using bi[OF that] by (simp add: bin_inv_def Let_def)
    then show ?thesis using stack0 dtr st by simp
  qed
  moreover have "distinct (concat bs @ concat (stack ?ef))"
    using dist st by (auto simp: ds' simp del: map_append rev_map)
  moreover have "int (length (fe_dropped ?ef)) \<le> maxRollback ef" "int (length (fe_dropped ?ef)) \<le> H + 1"
  proof -
    have l: "length (fe_dropped ?ef) = length (stack ?ef)" by simp
    show "int (length (fe_dropped ?ef)) \<le> maxRollback ef" unfolding l st ds_def using lim by auto
    show "int (length (fe_dropped ?ef)) \<le> H + 1" unfolding l st ds_def using H ok by (auto simp: bins_ok_def split: if_splits)
  qed
  ultimately show ?thesis using ok H(3) len bi ef' by (simp add: bins_ok_def bin_inv_def Let_def)
qed

section \<open>Rolling back\<close>

definition unmined :: "observedTransaction option \<Rightarrow> observedTransaction option" where
  "unmined = map_option (\<lambda>ob. ob\<lparr>ob_mined := UnminedHeight\<rparr>)"

lemma seek_mined_finds:
  assumes "\<forall>p\<in>set bin. mem p \<noteq> None" "filter (\<lambda>p. mined_in mem p = Some H) (drop counter bin) \<noteq> []"
  shows "\<exists>c ob. seek_mined mem H bin counter = Some (c, ob) \<and> counter \<le> c \<and> c < length bin \<and> mem (bin ! c) = Some ob \<and> ob_mined ob = H
    \<and> (\<forall>i. counter \<le> i \<and> i < c \<longrightarrow> mined_in mem (bin ! i) \<noteq> Some H)
    \<and> filter (\<lambda>p. mined_in mem p = Some H) (drop counter bin) = bin ! c # filter (\<lambda>p. mined_in mem p = Some H) (drop (c + 1) bin)"
  using assms
proof (induction mem H bin counter rule: seek_mined.induct)
  case (1 mem H bin counter)
  have lt: "counter < length bin" using 1(3) by (metis drop_all filter.simps(1) linorder_not_less)
  then obtain prev where prev: "mem (bin ! counter) = Some prev" using 1(2) by (meson not_None_eq nth_mem)
  have dr: "drop counter bin = bin ! counter # drop (counter + 1) bin" using lt by (simp add: Cons_nth_drop_Suc)
  show ?case
  proof (cases "ob_mined prev = H")
    case True
    then show ?thesis using lt prev dr by (intro exI[of _ counter] exI[of _ prev]) (auto simp: mined_in_def seek_mined.simps)
  next
    case False
    have m: "mined_in mem (bin ! counter) \<noteq> Some H" using False prev by (simp add: mined_in_def)
    then have f: "filter (\<lambda>p. mined_in mem p = Some H) (drop counter bin) = filter (\<lambda>p. mined_in mem p = Some H) (drop (counter + 1) bin)"
      using dr by simp
    obtain c ob where c: "seek_mined mem H bin (counter + 1) = Some (c, ob)" "counter + 1 \<le> c" "c < length bin" "mem (bin ! c) = Some ob" "ob_mined ob = H"
      "\<forall>i. counter + 1 \<le> i \<and> i < c \<longrightarrow> mined_in mem (bin ! i) \<noteq> Some H"
      "filter (\<lambda>p. mined_in mem p = Some H) (drop (counter + 1) bin) = bin ! c # filter (\<lambda>p. mined_in mem p = Some H) (drop (c + 1) bin)"
      using 1(1)[OF _ prev False 1(2)] lt 1(3) f by auto
    have "mined_in mem (bin ! i) \<noteq> Some H" if "counter \<le> i" "i < c" for i
      using c(6) m that by (cases "i = counter") auto
    then show ?thesis using c lt prev False f by (intro exI[of _ c] exI[of _ ob]) (auto simp: seek_mined.simps[of mem H bin counter])
  qed
qed

lemma remove_mined_filters:
  assumes "\<forall>p\<in>set bin. mem p \<noteq> None" "distinct bin"
  shows "remove_mined H bin j mem =
    Some (take j bin @ filter (\<lambda>p. mined_in mem p \<noteq> Some H) (drop j bin),
          \<lambda>p. if p \<in> set (drop j bin) \<and> mined_in mem p = Some H then unmined (mem p) else mem p)"
  using assms
proof (induction H bin j mem rule: remove_mined.induct)
  case (1 H bin j mem)
  show ?case
  proof (cases "j < length bin")
    case False
    then show ?thesis by (simp add: remove_mined.simps)
  next
    case True
    then obtain prev where prev: "mem (bin ! j) = Some prev" using 1(3) by (meson not_None_eq nth_mem)
    have dr: "drop j bin = bin ! j # drop (j + 1) bin" using True by (simp add: Cons_nth_drop_Suc)
    have nd: "bin ! j \<notin> set (drop (j + 1) bin)" using 1(4) dr by (metis distinct.simps(2) distinct_drop)
    show ?thesis
    proof (cases "ob_mined prev = H")
      case False
      then have "mined_in mem (bin ! j) \<noteq> Some H" using prev by (simp add: mined_in_def)
      moreover have "take (j + 1) bin = take j bin @ [bin ! j]" using True by (simp add: take_Suc_conv_app_nth)
      ultimately show ?thesis
        using 1(2)[OF _ prev False 1(3,4)] True prev False dr by (subst remove_mined.simps) (auto intro!: ext)
    next
      case m: True
      let ?bin = "take j bin @ drop (j + 1) bin" and ?mem = "mem(bin ! j \<mapsto> prev\<lparr>ob_mined := UnminedHeight\<rparr>)"
      have d: "drop j ?bin = drop (j + 1) bin" "take j ?bin = take j bin" using True by simp_all
      have "bin = take j bin @ bin ! j # drop (Suc j) bin" using True by (rule id_take_nth_drop)
      then have "distinct (take j bin @ bin ! j # drop (Suc j) bin)" using 1(4) by simp
      then have dist: "distinct ?bin" by simp
      have some: "\<forall>p\<in>set ?bin. ?mem p \<noteq> None" using 1(3) by (auto dest: in_set_takeD in_set_dropD)
      have "\<not> length bin \<le> j" using True by simp
      from 1(1)[OF this prev m some dist, unfolded d] have "remove_mined H ?bin j ?mem = Some (take j bin @ filter (\<lambda>p. mined_in ?mem p \<noteq> Some H) (drop (j + 1) bin),
          \<lambda>p. if p \<in> set (drop (j + 1) bin) \<and> mined_in ?mem p = Some H then unmined (?mem p) else ?mem p)"
        .
      moreover have "filter (\<lambda>p. mined_in ?mem p \<noteq> Some H) (drop (j + 1) bin) = filter (\<lambda>p. mined_in mem p \<noteq> Some H) (drop (j + 1) bin)"
        using nd by (intro filter_cong) (auto simp: mined_in_def)
      moreover have "mined_in mem (bin ! j) = Some H" using prev m by (simp add: mined_in_def)
      ultimately show ?thesis
        using True prev m dr nd by (subst remove_mined.simps) (auto intro!: ext simp: unmined_def mined_in_def)
    qed
  qed
qed

text \<open>The second half of \<open>rollback\<close> filters the bins, provided nothing below the counters is to go.\<close>

lemma remove_bins_filters:
  assumes "i + length js = length (fe_bin ef)" "\<forall>p\<in>set (concat (fe_bin ef)). fe_mem ef p \<noteq> None" "distinct (concat (fe_bin ef))"
    and "\<forall>k<length js. \<forall>p\<in>set (take (js ! k) (fe_bin ef ! (i + k))). mined_in (fe_mem ef) p \<noteq> Some (lastKnownHeight ef)"
  shows "remove_bins js i ef = Some (ef\<lparr>
    fe_bin := take i (fe_bin ef) @ map (filter (\<lambda>p. mined_in (fe_mem ef) p \<noteq> Some (lastKnownHeight ef))) (drop i (fe_bin ef)),
    fe_mem := (\<lambda>p. if p \<in> set (concat (drop i (fe_bin ef))) \<and> mined_in (fe_mem ef) p = Some (lastKnownHeight ef)
                  then unmined (fe_mem ef p) else fe_mem ef p)\<rparr>)"
  using assms
proof (induction js arbitrary: i ef)
  case Nil
  then show ?case by simp
next
  case (Cons j js)
  let ?mem = "fe_mem ef" and ?H = "lastKnownHeight ef" and ?bin = "fe_bin ef ! i"
  define mem' where "mem' = (\<lambda>p. if p \<in> set ?bin \<and> mined_in ?mem p = Some ?H then unmined (?mem p) else ?mem p)"
  define bin' where "bin' = filter (\<lambda>p. mined_in ?mem p \<noteq> Some ?H) ?bin"
  have i: "i < length (fe_bin ef)" using Cons.prems(1) by simp
  have dr: "drop i (fe_bin ef) = ?bin # drop (i + 1) (fe_bin ef)" using i by (simp add: Cons_nth_drop_Suc)
  have split: "fe_bin ef = take i (fe_bin ef) @ ?bin # drop (i + 1) (fe_bin ef)" using i by (simp add: id_take_nth_drop)
  have "distinct (concat (take i (fe_bin ef) @ ?bin # drop (i + 1) (fe_bin ef)))"
    by (subst split[symmetric]) (rule Cons.prems(3))
  then have dist: "distinct ?bin" "set ?bin \<inter> set (concat (drop (i + 1) (fe_bin ef))) = {}"
    and dist': "distinct (concat (take i (fe_bin ef)) @ concat (drop (i + 1) (fe_bin ef)))" "set (concat (take i (fe_bin ef))) \<inter> set ?bin = {}"
    by (simp_all del: set_concat) blast+
  have some: "\<forall>p\<in>set ?bin. ?mem p \<noteq> None" using Cons.prems(2) i by auto
  have low: "\<forall>p\<in>set (take j ?bin). mined_in ?mem p \<noteq> Some ?H" using Cons.prems(4) by (force dest: spec[of _ 0])
  have rm: "remove_mined ?H ?bin j ?mem = Some (bin', mem')"
  proof -
    have "bin' = take j ?bin @ filter (\<lambda>p. mined_in ?mem p \<noteq> Some ?H) (drop j ?bin)"
      unfolding bin'_def using low
      by (subst append_take_drop_id[of j ?bin, symmetric], subst filter_append) (auto intro: filter_True)
    moreover have "p \<in> set (drop j ?bin) \<longleftrightarrow> p \<in> set ?bin" if "mined_in ?mem p = Some ?H" for p
      using that low by (metis append_take_drop_id Un_iff set_append)
    ultimately show ?thesis unfolding remove_mined_filters[OF some dist(1)] mem'_def by (auto intro!: ext)
  qed
  let ?ef = "ef\<lparr>fe_bin := (fe_bin ef)[i := bin'], fe_mem := mem'\<rparr>"
  have upd: "(fe_bin ef)[i := bin'] = take i (fe_bin ef) @ bin' # drop (i + 1) (fe_bin ef)" using i by (simp add: upd_conv_take_nth_drop)
  have sub: "set bin' \<subseteq> set ?bin" "distinct bin'" using dist(1) by (auto simp: bin'_def)
  have same: "mem' p = ?mem p" if "p \<notin> set ?bin" for p using that by (simp add: mem'_def)
  have samebin: "mem' p = ?mem p" if "p \<in> set bin'" for p using that by (simp add: mem'_def bin'_def)
  have mm: "mem' p \<noteq> None" if "?mem p \<noteq> None" for p using that by (auto simp: mem'_def unmined_def)
  have raw: "remove_bins js (i + 1) ?ef = Some (?ef\<lparr>
    fe_bin := take (i + 1) (fe_bin ?ef) @ map (filter (\<lambda>p. mined_in (fe_mem ?ef) p \<noteq> Some (lastKnownHeight ?ef))) (drop (i + 1) (fe_bin ?ef)),
    fe_mem := (\<lambda>p. if p \<in> set (concat (drop (i + 1) (fe_bin ?ef))) \<and> mined_in (fe_mem ?ef) p = Some (lastKnownHeight ?ef)
                  then unmined (fe_mem ?ef p) else fe_mem ?ef p)\<rparr>)"
  proof (rule Cons.IH)
    show "i + 1 + length js = length (fe_bin ?ef)" using Cons.prems(1) by simp
    have "set (concat ((fe_bin ef)[i := bin'])) \<subseteq> set (concat (fe_bin ef))"
      unfolding upd by (subst (2) split) (use sub(1) in auto)
    then show "\<forall>p\<in>set (concat (fe_bin ?ef)). fe_mem ?ef p \<noteq> None" using Cons.prems(2) mm by auto
    show "distinct (concat (fe_bin ?ef))" using upd dist dist' sub by (auto simp del: set_concat)
    show "\<forall>k<length js. \<forall>p\<in>set (take (js ! k) (fe_bin ?ef ! (i + 1 + k))). mined_in (fe_mem ?ef) p \<noteq> Some (lastKnownHeight ?ef)"
    proof (intro allI impI ballI)
      fix k p assume k: "k < length js" and p: "p \<in> set (take (js ! k) (fe_bin ?ef ! (i + 1 + k)))"
      then have p': "p \<in> set (take (js ! k) (fe_bin ef ! (i + Suc k)))" by simp
      have "drop (i + 1) (fe_bin ef) ! k \<in> set (drop (i + 1) (fe_bin ef))" using k Cons.prems(1) by (intro nth_mem) simp
      then have "p \<in> set (concat (drop (i + 1) (fe_bin ef)))" using p' k Cons.prems(1) by (auto dest: in_set_takeD)
      then have "mem' p = ?mem p" using dist(2) same by blast
      moreover have "mined_in ?mem p \<noteq> Some ?H" using Cons.prems(4) k p' by (metis Suc_less_eq length_Cons nth_Cons_Suc)
      ultimately show "mined_in (fe_mem ?ef) p \<noteq> Some (lastKnownHeight ?ef)" by (simp add: mined_in_def)
    qed
  qed
  have mapeq: "map (filter (\<lambda>p. mined_in mem' p \<noteq> Some ?H)) (drop (i + 1) (fe_bin ef)) = map (filter (\<lambda>p. mined_in ?mem p \<noteq> Some ?H)) (drop (i + 1) (fe_bin ef))"
  proof (intro map_cong filter_cong refl)
    fix xs p assume "xs \<in> set (drop (i + 1) (fe_bin ef))" "p \<in> set xs"
    then have "mem' p = ?mem p" using dist(2) by (intro same) auto
    then show "(mined_in mem' p \<noteq> Some ?H) = (mined_in ?mem p \<noteq> Some ?H)" by (simp add: mined_in_def)
  qed
  have "(if p \<in> set (concat (drop (i + 1) (fe_bin ef))) \<and> mined_in mem' p = Some ?H then unmined (mem' p) else mem' p) =
     (if p \<in> set (concat (drop i (fe_bin ef))) \<and> mined_in ?mem p = Some ?H then unmined (?mem p) else ?mem p)" for p
  proof (cases "p \<in> set ?bin")
    case True
    then have "p \<notin> set (concat (drop (i + 1) (fe_bin ef)))" using dist(2) by blast
    then show ?thesis using True unfolding dr by (simp add: mem'_def)
  next
    case False
    then show ?thesis using same[OF False] unfolding dr by (auto simp: mined_in_def)
  qed
  then have memeq: "(\<lambda>p. if p \<in> set (concat (drop (i + 1) (fe_bin ef))) \<and> mined_in mem' p = Some ?H then unmined (mem' p) else mem' p) =
     (\<lambda>p. if p \<in> set (concat (drop i (fe_bin ef))) \<and> mined_in ?mem p = Some ?H then unmined (?mem p) else ?mem p)"
    by (rule ext)
  have take1: "take (i + 1) ((fe_bin ef)[i := bin']) = take i (fe_bin ef) @ [bin']" "drop (i + 1) ((fe_bin ef)[i := bin']) = drop (i + 1) (fe_bin ef)"
    using i by (simp_all add: take_Suc_conv_app_nth)
  have sel: "fe_bin ?ef = (fe_bin ef)[i := bin']" "fe_mem ?ef = mem'" "lastKnownHeight ?ef = ?H" by simp_all
  show ?case
    unfolding remove_bins.simps rm option.case prod.case raw[unfolded sel take1 mapeq memeq] by (simp add: dr bin'_def)
qed

text \<open>
  The state while dropped transactions are put back: \<open>rem\<close> are those that remain.  Memory differs from the memory at the
  start exactly for the transactions that have left the bins.
\<close>

definition undo_inv :: "fe_memory \<Rightarrow> addr list list \<Rightarrow> int \<Rightarrow> addr list \<Rightarrow> FeeEstimator \<Rightarrow> addr list \<Rightarrow> bool" where
  "undo_inv mem0 bs0 H d ef rem \<longleftrightarrow>
    length (fe_bin ef) = bins \<and> lastKnownHeight ef = H \<and> distinct (concat (fe_bin ef) @ rem)
    \<and> set (concat (fe_bin ef)) \<subseteq> set (concat bs0) \<union> set d
    \<and> (\<forall>b<bins. filter_mset (\<lambda>p. mined_in mem0 p \<noteq> Some H) (mset (fe_bin ef ! b)) + filter_mset (\<lambda>p. slot mem0 p = Some (int b)) (mset rem)
          = undo mem0 H (\<lambda>b. mset (bs0 ! b)) d b)
    \<and> (\<forall>p. fe_mem ef p = (if p \<in> set (concat bs0) - set (concat (fe_bin ef)) then unmined (mem0 p) else mem0 p))"

definition counters_ok :: "fe_memory \<Rightarrow> int \<Rightarrow> addr list list \<Rightarrow> nat list \<Rightarrow> addr list \<Rightarrow> bool" where
  "counters_ok mem0 H bs js rem \<longleftrightarrow>
    length js = bins
    \<and> (\<forall>b<bins. size (filter_mset (\<lambda>p. slot mem0 p = Some (int b)) (mset rem)) \<le> length (filter (\<lambda>p. mined_in mem0 p = Some H) (drop (js ! b) (bs ! b)))
          \<and> (\<forall>p\<in>set (take (js ! b) (bs ! b)). mined_in mem0 p \<noteq> Some H))"

lemma undo_inv_step:
  assumes inv: "undo_inv mem0 bs0 H d ef (p # rem)" and b: "b < bins" and p: "slot mem0 p = Some (int b)" "mined_in mem0 p \<noteq> Some H"
    and sub: "p \<in> set d" "set d \<inter> set (concat bs0) = {}" "\<forall>q\<in>set d. mined_in mem0 q \<noteq> Some H"
    and c: "c < length (fe_bin ef ! b)" "mined_in mem0 (fe_bin ef ! b ! c) = Some H" "fe_mem ef (fe_bin ef ! b ! c) = Some prev"
  shows "undo_inv mem0 bs0 H d (ef\<lparr>fe_mem := (fe_mem ef)(fe_bin ef ! b ! c \<mapsto> prev\<lparr>ob_mined := UnminedHeight\<rparr>),
     fe_bin := (fe_bin ef)[b := (fe_bin ef ! b)[c := p]]\<rparr>) rem"
proof -
  let ?q = "fe_bin ef ! b ! c" and ?bin' = "(fe_bin ef ! b)[c := p]"
  let ?bs = "(fe_bin ef)[b := ?bin']"
  have len: "length (fe_bin ef) = bins" and dist: "distinct (concat (fe_bin ef) @ p # rem)" and cs: "set (concat (fe_bin ef)) \<subseteq> set (concat bs0) \<union> set d"
    and ms: "\<And>b. b < bins \<Longrightarrow> filter_mset (\<lambda>p. mined_in mem0 p \<noteq> Some H) (mset (fe_bin ef ! b)) + filter_mset (\<lambda>p. slot mem0 p = Some (int b)) (mset (p # rem))
          = undo mem0 H (\<lambda>b. mset (bs0 ! b)) d b"
    and mem: "\<And>p. fe_mem ef p = (if p \<in> set (concat bs0) - set (concat (fe_bin ef)) then unmined (mem0 p) else mem0 p)"
    using inv by (simp_all add: undo_inv_def del: set_concat distinct_append)
  have q: "?q \<in> set (concat (fe_bin ef))" using nth_mem[OF c(1)] b len by auto
  have q0: "?q \<in> set (concat bs0)" using q cs sub(3) c(2) by blast
  have bin: "mset ?bin' + {#?q#} = add_mset p (mset (fe_bin ef ! b))" using c(1) by (simp add: mset_update)
  have cat: "add_mset ?q (mset (concat ?bs)) = add_mset p (mset (concat (fe_bin ef)))"
  proof -
    have "add_mset ?q (mset (concat ?bs)) + mset (fe_bin ef ! b) = (mset (concat ?bs) + mset (fe_bin ef ! b)) + {#?q#}" by simp
    also have "\<dots> = mset (concat (fe_bin ef)) + (mset ?bin' + {#?q#})" using mset_concat_update[of b "fe_bin ef" ?bin'] b len by (simp only: add.assoc)
    finally show ?thesis by (simp only: bin) simp
  qed
  have dist': "distinct (?q # concat ?bs @ rem)"
  proof -
    have "mset (?q # concat ?bs @ rem) = mset (concat (fe_bin ef) @ p # rem)" using cat by simp
    then show ?thesis using dist mset_eq_imp_distinct_iff by blast
  qed
  have setbs: "insert ?q (set (concat ?bs)) = insert p (set (concat (fe_bin ef)))"
    using arg_cong[OF cat, of set_mset] by (simp only: set_mset_add_mset_insert set_mset_mset)
  have "filter_mset (\<lambda>p. mined_in mem0 p \<noteq> Some H) (mset (?bs ! b')) + filter_mset (\<lambda>p. slot mem0 p = Some (int b')) (mset rem)
          = undo mem0 H (\<lambda>b. mset (bs0 ! b)) d b'" if b': "b' < bins" for b'
  proof (cases "b' = b")
    case True
    have "filter_mset (\<lambda>p. mined_in mem0 p \<noteq> Some H) (mset ?bin') = add_mset p (filter_mset (\<lambda>p. mined_in mem0 p \<noteq> Some H) (mset (fe_bin ef ! b)))"
      using arg_cong[OF bin, of "filter_mset (\<lambda>p. mined_in mem0 p \<noteq> Some H)"] c(2) p(2) by simp
    then show ?thesis using ms[OF b] True b len p(1) by simp
  next
    case False
    then show ?thesis using ms[OF b'] p(1) by simp
  qed
  moreover have "set (concat ?bs) \<subseteq> set (concat bs0) \<union> set d"
  proof -
    have "set (concat ?bs) \<subseteq> insert p (set (concat (fe_bin ef)))" using setbs by (metis subset_insertI)
    also have "\<dots> \<subseteq> set (concat bs0) \<union> set d" using cs sub(1) by (simp only: insert_subset UnI2 simp_thms)
    finally show ?thesis .
  qed
  moreover have "((fe_mem ef)(?q \<mapsto> prev\<lparr>ob_mined := UnminedHeight\<rparr>)) r = (if r \<in> set (concat bs0) - set (concat ?bs) then unmined (mem0 r) else mem0 r)" for r
  proof (cases "r = ?q")
    case True
    have "?q \<notin> set (concat ?bs)" using dist' by simp
    moreover have "mem0 ?q = Some prev" using mem[of ?q] q c(3) by (simp del: set_concat)
    ultimately show ?thesis using True q0 by (simp add: unmined_def del: set_concat)
  next
    case False
    have "p \<notin> set (concat bs0)" using sub(1,2) by blast
    then have "r \<in> set (concat bs0) - set (concat ?bs) \<longleftrightarrow> r \<in> set (concat bs0) - set (concat (fe_bin ef))" using setbs False by blast
    then show ?thesis using False mem[of r] by (simp del: set_concat)
  qed
  ultimately show ?thesis using inv dist' len by (simp add: undo_inv_def del: set_concat)
qed

lemma counters_ok_step:
  assumes ok: "counters_ok mem0 H bs js (p # rem)" and b: "b < bins" "length bs = bins" and p: "slot mem0 p = Some (int b)" "mined_in mem0 p \<noteq> Some H"
    and c: "js ! b \<le> c" "c < length (bs ! b)" "\<forall>i. js ! b \<le> i \<and> i < c \<longrightarrow> mined_in mem0 (bs ! b ! i) \<noteq> Some H"
      "filter (\<lambda>p. mined_in mem0 p = Some H) (drop (js ! b) (bs ! b)) = bs ! b ! c # filter (\<lambda>p. mined_in mem0 p = Some H) (drop (c + 1) (bs ! b))"
  shows "counters_ok mem0 H (bs[b := (bs ! b)[c := p]]) (js[b := c + 1]) rem"
proof -
  have cnt: "size (filter_mset (\<lambda>p. slot mem0 p = Some (int b)) (mset (p # rem))) \<le> length (filter (\<lambda>p. mined_in mem0 p = Some H) (drop (js ! b) (bs ! b)))"
    and low: "\<forall>q\<in>set (take (js ! b) (bs ! b)). mined_in mem0 q \<noteq> Some H" and len: "length js = bins"
    using ok b(1) unfolding counters_ok_def by blast+
  have "mined_in mem0 q \<noteq> Some H" if q: "q \<in> set (take (c + 1) ((bs ! b)[c := p]))" for q
  proof -
    obtain i where i: "i < c + 1" "i < length (bs ! b)" "q = (bs ! b)[c := p] ! i" using q by (auto simp: in_set_conv_nth)
    consider "i = c" | "js ! b \<le> i" "i < c" | "i < js ! b" using i(1) by linarith
    then show ?thesis
    proof cases
      case 3
      then have "q = bs ! b ! i" using i c(1) by simp
      moreover have "bs ! b ! i \<in> set (take (js ! b) (bs ! b))" using 3 i(2) by (auto simp: in_set_conv_nth)
      ultimately show ?thesis using low by blast
    qed (use i c p in auto)
  qed
  moreover have "drop (c + 1) ((bs ! b)[c := p]) = drop (c + 1) (bs ! b)" by simp
  ultimately show ?thesis
    using ok cnt b len p(1) c(4) unfolding counters_ok_def by (auto simp: nth_list_update split: if_splits)
qed

lemma restore_dropped_inv:
  assumes "undo_inv mem0 bs0 H d ef rem" "counters_ok mem0 H (fe_bin ef) js rem" "set rem \<subseteq> set d" "set d \<inter> set (concat bs0) = {}"
    and "\<forall>q\<in>set d. (\<exists>b<bins. slot mem0 q = Some (int b)) \<and> mined_in mem0 q \<noteq> Some H" "\<forall>q\<in>set (concat bs0). mem0 q \<noteq> None"
  shows "\<exists>bs mem js'. restore_dropped rem (ef, js) = Some (ef\<lparr>fe_mem := mem, fe_bin := bs\<rparr>, js')
    \<and> undo_inv mem0 bs0 H d (ef\<lparr>fe_mem := mem, fe_bin := bs\<rparr>) [] \<and> counters_ok mem0 H bs js' []"
  using assms
proof (induction rem arbitrary: ef js)
  case Nil
  then show ?case by (auto intro!: exI[of _ "fe_mem ef"] exI[of _ "fe_bin ef"])
next
  case (Cons p rem)
  have pd: "p \<in> set d" and p: "mined_in mem0 p \<noteq> Some H" using Cons.prems(3,5) by auto
  obtain b where b: "b < bins" "slot mem0 p = Some (int b)" using Cons.prems(5) pd by blast
  then obtain ob where ob: "mem0 p = Some ob" "confirm_index ob = int b" by (auto simp: slot_def)
  have len: "length (fe_bin ef) = bins" and dist: "distinct (concat (fe_bin ef) @ p # rem)" and cs: "set (concat (fe_bin ef)) \<subseteq> set (concat bs0) \<union> set d"
    and H: "lastKnownHeight ef = H" and mem: "\<And>p. fe_mem ef p = (if p \<in> set (concat bs0) - set (concat (fe_bin ef)) then unmined (mem0 p) else mem0 p)"
    using Cons.prems(1) by (simp_all add: undo_inv_def del: set_concat distinct_append)
  let ?bin = "fe_bin ef ! b"
  have here: "q \<in> set (concat (fe_bin ef))" if "q \<in> set ?bin" for q using that b(1) len by auto
  have same: "fe_mem ef q = mem0 q" if "q \<in> set ?bin" for q using mem[of q] here[OF that] by (simp del: set_concat)
  have mp: "fe_mem ef p = Some ob" using mem[of p] pd Cons.prems(4) ob(1) by (auto simp del: set_concat)
  have some: "\<forall>q\<in>set ?bin. fe_mem ef q \<noteq> None"
  proof
    fix q assume q: "q \<in> set ?bin"
    then have "q \<in> set (concat bs0) \<union> set d" using here cs by blast
    then have "mem0 q \<noteq> None" using Cons.prems(5,6) by (auto simp: slot_def simp del: set_concat)
    then show "fe_mem ef q \<noteq> None" using same[OF q] by simp
  qed
  have flt: "filter (\<lambda>p. mined_in (fe_mem ef) p = Some H) (drop k ?bin) = filter (\<lambda>p. mined_in mem0 p = Some H) (drop k ?bin)" for k
    by (intro filter_cong refl) (metis same in_set_dropD mined_in_def)
  have "0 < size (filter_mset (\<lambda>p. slot mem0 p = Some (int b)) (mset (p # rem)))" using b(2) by simp
  then have "filter (\<lambda>p. mined_in (fe_mem ef) p = Some H) (drop (js ! b) ?bin) \<noteq> []"
    using Cons.prems(2) b(1) unfolding counters_ok_def flt by (metis le_zero_eq length_0_conv not_gr_zero)
  then obtain c prev where c: "seek_mined (fe_mem ef) H ?bin (js ! b) = Some (c, prev)" "js ! b \<le> c" "c < length ?bin" "fe_mem ef (?bin ! c) = Some prev" "ob_mined prev = H"
      "\<forall>i. js ! b \<le> i \<and> i < c \<longrightarrow> mined_in (fe_mem ef) (?bin ! i) \<noteq> Some H"
      "filter (\<lambda>p. mined_in (fe_mem ef) p = Some H) (drop (js ! b) ?bin) = ?bin ! c # filter (\<lambda>p. mined_in (fe_mem ef) p = Some H) (drop (c + 1) ?bin)"
    using seek_mined_finds[OF some] by blast
  let ?ef = "ef\<lparr>fe_mem := (fe_mem ef)(?bin ! c \<mapsto> prev\<lparr>ob_mined := UnminedHeight\<rparr>), fe_bin := (fe_bin ef)[b := ?bin[c := p]]\<rparr>"
  have "mined_in mem0 (?bin ! c) = Some H" using same[OF nth_mem[OF c(3)], symmetric] c(4,5) by (simp add: mined_in_def)
  then have 1: "undo_inv mem0 bs0 H d ?ef rem"
    using Cons.prems(5) by (intro undo_inv_step[OF Cons.prems(1) b p pd Cons.prems(4) _ c(3) _ c(4)]) auto
  have 2: "counters_ok mem0 H (fe_bin ?ef) (js[b := c + 1]) rem"
  proof -
    have "\<forall>i. js ! b \<le> i \<and> i < c \<longrightarrow> mined_in mem0 (?bin ! i) \<noteq> Some H" using c(3,6) same[OF nth_mem] by (simp add: mined_in_def)
    then show ?thesis using counters_ok_step[OF Cons.prems(2) b(1) len b(2) p c(2,3)] c(7) flt by simp
  qed
  obtain bs mem js' where 3: "restore_dropped rem (?ef, js[b := c + 1]) = Some (?ef\<lparr>fe_mem := mem, fe_bin := bs\<rparr>, js')"
    "undo_inv mem0 bs0 H d (?ef\<lparr>fe_mem := mem, fe_bin := bs\<rparr>) []" "counters_ok mem0 H bs js' []"
    using Cons.IH[OF 1 2 _ Cons.prems(4-6)] Cons.prems(3) by auto
  have "restore_dropped (p # rem) (ef, js) = Some (ef\<lparr>fe_mem := mem, fe_bin := bs\<rparr>, js')"
    using mp ob(2) b(1) c(1) H 3(1) by (simp add: Let_def estimateFeeDepth_def)
  moreover have "undo_inv mem0 bs0 H d (ef\<lparr>fe_mem := mem, fe_bin := bs\<rparr>) []" using 3(2) by simp
  ultimately show ?case using 3(3) by blast
qed

text \<open>The last block taken off the stack: its transactions leave the bins and are no longer mined, the dropped ones return.\<close>

definition undo_memory :: "FeeEstimator \<Rightarrow> fe_memory" where
  "undo_memory ef = (\<lambda>p. if p \<in> set (concat (fe_bin ef)) \<and> mined_in (fe_mem ef) p = Some (lastKnownHeight ef) then unmined (fe_mem ef p) else fe_mem ef p)"

lemma rollback_start:
  assumes ok: "bins_ok ef" and ne: "fe_dropped ef \<noteq> []"
  defines "d \<equiv> rb_transactions (last (fe_dropped ef))"
  shows "stack ef = d # rev (map rb_transactions (butlast (fe_dropped ef)))" "lastKnownHeight ef < UnminedHeight" "0 \<le> lastKnownHeight ef"
    "undo_inv (fe_mem ef) (fe_bin ef) (lastKnownHeight ef) d (ef\<lparr>fe_cached := None\<rparr>) d"
    "counters_ok (fe_mem ef) (lastKnownHeight ef) (fe_bin ef) (replicate bins 0) d"
    "set d \<inter> set (concat (fe_bin ef)) = {}" "\<forall>q\<in>set (concat (fe_bin ef)). fe_mem ef q \<noteq> None"
    "\<forall>q\<in>set d. (\<exists>b<bins. slot (fe_mem ef) q = Some (int b)) \<and> mined_in (fe_mem ef) q \<noteq> Some (lastKnownHeight ef)"
proof -
  obtain ds rb where "fe_dropped ef = ds @ [rb]" using ne by (cases "fe_dropped ef" rule: rev_cases) auto
  then show st: "stack ef = d # rev (map rb_transactions (butlast (fe_dropped ef)))" by (simp add: d_def)
  show "lastKnownHeight ef < UnminedHeight" "0 \<le> lastKnownHeight ef"
    using ok ne by (auto simp: bins_ok_def Suc_leI split: if_splits) (cases "fe_dropped ef"; simp)
  have sok: "stack_ok (fe_mem ef) (lastKnownHeight ef) (bin_msets ef) (stack ef)" and dist: "distinct (concat (fe_bin ef) @ concat (stack ef))"
    and len: "length (fe_bin ef) = bins"
    using ok by (simp_all add: bins_ok_def)
  show "undo_inv (fe_mem ef) (fe_bin ef) (lastKnownHeight ef) d (ef\<lparr>fe_cached := None\<rparr>) d"
    using dist len unfolding st by (auto simp: undo_inv_def undo_def)
  show "counters_ok (fe_mem ef) (lastKnownHeight ef) (fe_bin ef) (replicate bins 0) d"
    using sok unfolding st by (simp add: counters_ok_def) (metis size_mset mset_filter)
  show "set d \<inter> set (concat (fe_bin ef)) = {}" using dist unfolding st by auto
  show "\<forall>q\<in>set (concat (fe_bin ef)). fe_mem ef q \<noteq> None"
  proof
    fix q assume "q \<in> set (concat (fe_bin ef))"
    then obtain m where "mined_in (fe_mem ef) q = Some m" using filed_mined[OF ok UnI1] by metis
    then show "fe_mem ef q \<noteq> None" by (auto simp: mined_in_def)
  qed
  show "\<forall>q\<in>set d. (\<exists>b<bins. slot (fe_mem ef) q = Some (int b)) \<and> mined_in (fe_mem ef) q \<noteq> Some (lastKnownHeight ef)"
    using sok unfolding st by (fastforce simp: tracked_def)
qed

lemma rollback_effect:
  assumes ok: "bins_ok ef" and ne: "fe_dropped ef \<noteq> []"
  obtains bs where
    "rollback ef = Some (ef\<lparr>fe_cached := None, fe_bin := bs, fe_mem := undo_memory ef, fe_dropped := butlast (fe_dropped ef),
       numBlocksRegistered := u32 (numBlocksRegistered ef - 1), lastKnownHeight := lastKnownHeight ef - 1\<rparr>)"
    "length bs = bins" "\<forall>b<bins. mset (bs ! b) = undo (fe_mem ef) (lastKnownHeight ef) (bin_msets ef) (rb_transactions (last (fe_dropped ef))) b"
proof -
  let ?mem = "fe_mem ef" and ?H = "lastKnownHeight ef"
  define d where "d = rb_transactions (last (fe_dropped ef))"
  note start = rollback_start[OF ok ne, folded d_def]
  obtain bs1 mem1 js where 1: "restore_dropped d (ef\<lparr>fe_cached := None\<rparr>, replicate bins 0) = Some (ef\<lparr>fe_cached := None, fe_mem := mem1, fe_bin := bs1\<rparr>, js)"
    "undo_inv ?mem (fe_bin ef) ?H d (ef\<lparr>fe_cached := None, fe_mem := mem1, fe_bin := bs1\<rparr>) []" "counters_ok ?mem ?H bs1 js []"
    using restore_dropped_inv[OF start(4) _ subset_refl start(6,8,7), of "replicate bins 0"] start(5) by auto
  let ?ef1 = "ef\<lparr>fe_cached := None, fe_mem := mem1, fe_bin := bs1\<rparr>"
  have len: "length bs1 = bins" and dist: "distinct (concat bs1)" and cs: "set (concat bs1) \<subseteq> set (concat (fe_bin ef)) \<union> set d"
    and ms: "\<And>b. b < bins \<Longrightarrow> filter_mset (\<lambda>p. mined_in ?mem p \<noteq> Some ?H) (mset (bs1 ! b)) = undo ?mem ?H (bin_msets ef) d b"
    and mem: "\<And>p. mem1 p = (if p \<in> set (concat (fe_bin ef)) - set (concat bs1) then unmined (?mem p) else ?mem p)"
    using 1(2) by (simp_all add: undo_inv_def del: set_concat)
  have same: "mem1 p = ?mem p" if "p \<in> set (concat bs1)" for p using mem[of p] that by (simp del: set_concat)
  have some: "\<forall>p\<in>set (concat bs1). mem1 p \<noteq> None"
  proof
    fix p assume p: "p \<in> set (concat bs1)"
    then have "?mem p \<noteq> None" using cs start(7,8) by (fastforce simp: slot_def simp del: set_concat)
    then show "mem1 p \<noteq> None" using same[OF p] by simp
  qed
  have low: "\<forall>k<length js. \<forall>p\<in>set (take (js ! k) (bs1 ! (0 + k))). mined_in mem1 p \<noteq> Some ?H"
  proof (intro allI impI ballI)
    fix k p assume k: "k < length js" and p: "p \<in> set (take (js ! k) (bs1 ! (0 + k)))"
    have kb: "k < bins" "length js = bins" using k 1(3) by (simp_all add: counters_ok_def)
    then have "p \<in> set (concat bs1)" using p len by (auto dest: in_set_takeD)
    moreover have "mined_in ?mem p \<noteq> Some ?H" using 1(3) p kb by (simp add: counters_ok_def)
    ultimately show "mined_in mem1 p \<noteq> Some ?H" using same by (simp add: mined_in_def)
  qed
  have jlen: "length js = bins" using 1(3) by (simp add: counters_ok_def)
  define bs where "bs = map (filter (\<lambda>p. mined_in mem1 p \<noteq> Some ?H)) bs1"
  have memeq: "(if p \<in> set (concat bs1) \<and> mined_in mem1 p = Some ?H then unmined (mem1 p) else mem1 p) = undo_memory ef p" for p
  proof (cases "p \<in> set (concat bs1)")
    case True
    then have "p \<in> set (concat (fe_bin ef))" if "mined_in ?mem p = Some ?H" using that cs start(8) by blast
    then show ?thesis using True same[OF True] by (auto simp: undo_memory_def mined_in_def simp del: set_concat)
  next
    case False
    have "mined_in ?mem p = Some ?H" if p: "p \<in> set (concat (fe_bin ef))"
    proof (rule ccontr)
      assume n: "mined_in ?mem p \<noteq> Some ?H"
      obtain b where b: "b < bins" "p \<in> set (fe_bin ef ! b)" using p ok by (auto simp: bins_ok_def set_conv_nth[of "fe_bin ef"])
      then have "p \<in># undo ?mem ?H (bin_msets ef) d b" using n by (simp add: undo_def)
      then have "p \<in># filter_mset (\<lambda>p. mined_in ?mem p \<noteq> Some ?H) (mset (bs1 ! b))" by (simp only: ms[OF b(1)])
      then have "p \<in> set (bs1 ! b)" by simp
      then show False using False b(1) len by auto
    qed
    then show ?thesis using False mem[of p] by (auto simp: undo_memory_def simp del: set_concat)
  qed
  have "remove_bins js 0 ?ef1 = Some (?ef1\<lparr>fe_bin := bs, fe_mem := undo_memory ef\<rparr>)"
  proof -
    have sel: "fe_bin ?ef1 = bs1" "fe_mem ?ef1 = mem1" "lastKnownHeight ?ef1 = ?H" by simp_all
    have l: "0 + length js = length bs1" using len jlen by simp
    have "(\<lambda>p. if p \<in> set (concat bs1) \<and> mined_in mem1 p = Some ?H then unmined (mem1 p) else mem1 p) = undo_memory ef"
      by (rule ext) (rule memeq)
    then show ?thesis using remove_bins_filters[of 0 js ?ef1, unfolded sel, OF l some dist low]
      by (simp only: bs_def take_0 drop_0 append_Nil)
  qed
  moreover have "i32 (?H - 1) = ?H - 1" using start(2,3) by (simp add: go_int UnminedHeight_def)
  ultimately have "rollback ef = Some (ef\<lparr>fe_cached := None, fe_bin := bs, fe_mem := undo_memory ef, fe_dropped := butlast (fe_dropped ef),
       numBlocksRegistered := u32 (numBlocksRegistered ef - 1), lastKnownHeight := ?H - 1\<rparr>)"
    using 1(1) ne by (simp add: rollback_def Let_def flip: d_def)
  moreover have "mset (bs ! b) = undo ?mem ?H (bin_msets ef) d b" if b: "b < bins" for b
  proof -
    have "filter_mset (\<lambda>p. mined_in mem1 p \<noteq> Some ?H) (mset (bs1 ! b)) = filter_mset (\<lambda>p. mined_in ?mem p \<noteq> Some ?H) (mset (bs1 ! b))"
    proof (intro filter_mset_cong refl)
      fix p assume "p \<in># mset (bs1 ! b)"
      then have "mem1 p = ?mem p" using b len by (intro same) auto
      then show "(mined_in mem1 p \<noteq> Some ?H) = (mined_in ?mem p \<noteq> Some ?H)" by (simp add: mined_in_def)
    qed
    then show ?thesis using ms[OF b] b len by (simp add: bs_def)
  qed
  ultimately show thesis using that[of bs] len by (simp add: bs_def d_def)
qed

section \<open>Rolling back keeps the invariant\<close>

lemma mset_concat_nth: "mset (concat xs) = (\<Sum>b<length xs. mset (xs ! b))"
  by (induction xs rule: rev_induct) (auto simp: nth_append)

lemma sum_slots: "(\<Sum>b<n. filter_mset (\<lambda>p. f p = Some (int b)) D) \<subseteq># D"
proof -
  have "(\<Sum>b<n. filter_mset (\<lambda>p. f p = Some (int b)) D) = filter_mset (\<lambda>p. \<exists>b<n. f p = Some (int b)) D"
  proof (induction n)
    case (Suc n)
    then show ?case by (auto intro!: multiset_eqI simp: less_Suc_eq)
  qed simp
  then show ?thesis by simp
qed

lemma distinct_submset: "mset xs \<subseteq># mset ys \<Longrightarrow> distinct ys \<Longrightarrow> distinct xs"
  by (metis distinct_append ex_mset mset_append mset_eq_imp_distinct_iff mset_subset_eq_exists_conv)

lemma undo_member:
  assumes "p \<in># undo mem H B d b"
  obtains "p \<in># B b" "mined_in mem p \<noteq> Some H" | "p \<in> set d" "slot mem p = Some (int b)"
  using assms by (auto simp: undo_def)

lemma rollback_bins_ok:
  assumes ok: "bins_ok ef" and ne: "fe_dropped ef \<noteq> []" and len: "length bs = bins"
    and ms: "\<forall>b<bins. mset (bs ! b) = undo (fe_mem ef) (lastKnownHeight ef) (bin_msets ef) (rb_transactions (last (fe_dropped ef))) b"
    and ef': "fe_bin ef' = bs" "fe_mem ef' = undo_memory ef" "fe_dropped ef' = butlast (fe_dropped ef)" "lastKnownHeight ef' = lastKnownHeight ef - 1"
      "binSize ef' = binSize ef" "maxReplacements ef' = maxReplacements ef" "maxRollback ef' = maxRollback ef"
  shows "bins_ok ef'"
proof -
  let ?mem = "fe_mem ef" and ?H = "lastKnownHeight ef" and ?mem' = "undo_memory ef"
  define d where "d = rb_transactions (last (fe_dropped ef))"
  note start = rollback_start[OF ok ne, folded d_def] and ms = ms[folded d_def, rule_format]
  define ds where "ds = rev (map rb_transactions (butlast (fe_dropped ef)))"
  have st: "stack ef = d # ds" and st': "stack ef' = ds" using start(1) ef'(3) by (simp_all add: ds_def)
  have sok: "stack_ok ?mem ?H (bin_msets ef) (d # ds)" and dist: "distinct (concat (fe_bin ef) @ d @ concat ds)" and len0: "length (fe_bin ef) = bins"
    using ok st by (simp_all add: bins_ok_def)
  have same: "?mem' p = ?mem p" if "mined_in ?mem p \<noteq> Some ?H" for p using that by (simp add: undo_memory_def)
  have early: "tracked ?mem b (?H - 1) p \<and> mined_in ?mem p \<noteq> Some ?H" if b: "b < bins" and p: "p \<in># undo ?mem ?H (bin_msets ef) d b" for b p
    using p
  proof (cases rule: undo_member)
    case 1
    moreover have "tracked ?mem b ?H p" using ok b 1(1) by (auto simp: bins_ok_def)
    ultimately show ?thesis by (auto simp: tracked_def)
  next
    case 2
    then obtain b' where "tracked ?mem b' (?H - 1) p" using sok by auto
    then show ?thesis using 2(2) by (auto simp: tracked_def)
  qed
  have "stack_ok ?mem' (?H - 1) (\<lambda>b. mset (bs ! b)) ds"
  proof (subst stack_ok_cong[of _ ?mem' ?mem _ "undo ?mem ?H (bin_msets ef) d"])
    show "?mem' p = ?mem p" if "b < bins" "p \<in># mset (bs ! b)" for b p using that early ms by (intro same) auto
    show "?mem' p = ?mem p" if "d' \<in> set ds" "p \<in> set d'" for d' p
      using that sok stack_ok_tracked[of ?mem "?H - 1" _ ds d' p] by (intro same) (fastforce simp: tracked_def)
  qed (use sok ms in auto)
  moreover have "distinct (concat bs @ concat ds)"
  proof -
    have "mset (concat bs) = (\<Sum>b<bins. undo ?mem ?H (bin_msets ef) d b)" unfolding mset_concat_nth len using ms by (intro sum.cong) auto
    also have "\<dots> = (\<Sum>b<bins. filter_mset (\<lambda>p. mined_in ?mem p \<noteq> Some ?H) (mset (fe_bin ef ! b))) + (\<Sum>b<bins. filter_mset (\<lambda>p. slot ?mem p = Some (int b)) (mset d))"
      by (simp add: undo_def sum.distrib)
    also have "\<dots> \<subseteq># mset (concat (fe_bin ef)) + mset d"
    proof (intro subset_mset.add_mono sum_slots)
      have "(\<Sum>b<n. filter_mset (\<lambda>p. mined_in ?mem p \<noteq> Some ?H) (mset (fe_bin ef ! b))) \<subseteq># (\<Sum>b<n. mset (fe_bin ef ! b))" for n
        by (induction n) (auto intro: subset_mset.add_mono)
      then show "(\<Sum>b<bins. filter_mset (\<lambda>p. mined_in ?mem p \<noteq> Some ?H) (mset (fe_bin ef ! b))) \<subseteq># mset (concat (fe_bin ef))"
        unfolding mset_concat_nth len0 .
    qed
    finally have "mset (concat bs @ concat ds) \<subseteq># mset (concat (fe_bin ef) @ d @ concat ds)" by (simp add: ac_simps)
    then show ?thesis using dist by (rule distinct_submset)
  qed
  moreover have "int (length (bs ! b)) \<le> binSize ef \<and> (\<forall>p\<in>set (bs ! b). tracked ?mem' b (?H - 1) p)" if b: "b < bins" for b
  proof -
    have "length (bs ! b) = size (undo ?mem ?H (bin_msets ef) d b)" using ms[OF b] by (metis size_mset)
    also have "\<dots> \<le> length (fe_bin ef ! b)"
    proof -
      have "size (filter_mset (\<lambda>p. mined_in ?mem p \<noteq> Some ?H) (mset (fe_bin ef ! b))) + size (filter_mset (\<lambda>p. mined_in ?mem p = Some ?H) (mset (fe_bin ef ! b))) = length (fe_bin ef ! b)"
        using multiset_partition[of "mset (fe_bin ef ! b)" "\<lambda>p. mined_in ?mem p = Some ?H"] by (metis add.commute size_mset size_union)
      then show ?thesis using sok b by (force simp: undo_def)
    qed
    also have "int \<dots> \<le> binSize ef" using ok b by (simp add: bins_ok_def)
    finally have "int (length (bs ! b)) \<le> binSize ef" by simp
    moreover have "tracked ?mem' b (?H - 1) p" if "p \<in> set (bs ! b)" for p
      using that early[OF b, of p] ms[OF b] same[of p] tracked_cong[of ?mem' p ?mem] by (metis set_mset_mset)
    ultimately show ?thesis by blast
  qed
  ultimately show ?thesis using ok len ef' st' start(2) ne
    by (auto simp: bins_ok_def Suc_le_eq split: if_splits)
qed

end
