(* ===== verification/Fee_Save.thy ===== *)
theory Fee_Save
  imports Fee_Rollback
begin

text \<open>
  What \<open>Save\<close> writes is read back by \<open>RestoreFeeEstimator\<close>: the restored estimator is the saved one with its transactions
  at other addresses.
\<close>

section \<open>Fixed-width values\<close>

lemma length_be32 [simp]: "length (be32 w) = 4"
  by (simp add: be32_def)

lemma be_u32_be32 [simp]: "be_u32 (be32 w) = w"
proof -
  have "push_bit 24 (ucast (ucast (drop_bit 24 w) :: byte)) OR push_bit 16 (ucast (ucast (drop_bit 16 w) :: byte))
      OR push_bit 8 (ucast (ucast (drop_bit 8 w) :: byte)) OR ucast (ucast w :: byte) = w" (is "?r = w")
  proof (rule bit_word_eqI)
    fix n
    assume "n < LENGTH(32)"
    then show "bit ?r n = bit w n" by (cases "24 \<le> n"; cases "16 \<le> n"; cases "8 \<le> n") (auto simp: bit_simps)
  qed
  then show ?thesis by (simp add: be_u32_def be32_def)
qed

lemma read_u32_be32: "read_u32 (be32 w @ r) = (w, r)"
  by (simp add: read_u32_def read_bytes_def)

lemma read_u32_int: "read_u32 (write_int n @ r) = (word_of_int n, r)"
  by (simp add: write_int_def read_u32_be32)

lemma read_hash_append: "length h = 32 \<Longrightarrow> read_hash (h @ r) = (h, r)"
  by (simp add: read_hash_def read_bytes_def)

lemma read_float_be64: "read_float c (be64 w @ r) = (Float64frombits c w, r)"
proof -
  have "push_bit 32 (ucast (ucast (drop_bit 32 w) :: uint32)) OR ucast (ucast w :: uint32) = w"
    by (intro bit_word_eqI) (auto simp: bit_simps)
  then show ?thesis by (simp add: read_float_def read_bytes_def be64_def)
qed

lemma sint_word_of_int: "is_i32 n \<Longrightarrow> sint (word_of_int n :: uint32) = n"
  by (simp add: is_i32_def signed_of_int signed_take_bit_int_eq_self)

lemma uint_word_of_int: "0 \<le> n \<Longrightarrow> n \<le> 4294967295 \<Longrightarrow> uint (word_of_int n :: uint32) = n"
  by (simp add: uint_word_of_int_eq take_bit_int_eq_self)

lemma unat_word_of_nat: "n < 4294967296 \<Longrightarrow> unat (of_nat n :: uint32) = n"
  by (simp add: unat_of_nat)

lemmas fixed_width = read_u32_be32 read_u32_int read_hash_append read_float_be64 sint_word_of_int uint_word_of_int unat_word_of_nat

section \<open>Lists of transactions\<close>

definition tx_storable :: "fee_codec \<Rightarrow> observedTransaction \<Rightarrow> bool" where
  "tx_storable c ob \<longleftrightarrow> length (ob_hash ob) = 32 \<and> is_i32 (ob_observed ob) \<and> is_i32 (ob_mined ob)
    \<and> Float64frombits c (Float64bits c (ob_feeRate ob)) = ob_feeRate ob"

lemma deserialize_ot: "tx_storable c ob \<Longrightarrow> deserializeObservedTransaction c (ot_Serialize c ob @ r) = (ob, r)"
  by (simp add: tx_storable_def deserializeObservedTransaction_def ot_Serialize_def fixed_width)

lemma alist_update_new: "k \<notin> fst ` set al \<Longrightarrow> AList.update k v al = al @ [(k, v)]"
  by (induction al) auto

lemma read_observed_writes:
  assumes "\<forall>ob\<in>set obs. tx_storable c ob" "distinct (map fst (fe_observed ef) @ map ob_hash obs)"
  shows "read_observed c (length obs) i (concat (map (ot_Serialize c) obs) @ r, refs, ef) =
    (r, \<lambda>k. if i \<le> k \<and> k < i + length obs then Some (fe_fresh ef + (k - i)) else refs k,
     ef\<lparr>fe_observed := fe_observed ef @ zip (map ob_hash obs) [fe_fresh ef..<fe_fresh ef + length obs],
        fe_mem := (\<lambda>p. if fe_fresh ef \<le> p \<and> p < fe_fresh ef + length obs then Some (obs ! (p - fe_fresh ef)) else fe_mem ef p),
        fe_fresh := fe_fresh ef + length obs\<rparr>)"
  using assms
proof (induction obs arbitrary: i refs ef)
  case Nil
  have "(\<lambda>p. if fe_fresh ef \<le> p \<and> p < fe_fresh ef + 0 then Some ([] ! (p - fe_fresh ef)) else fe_mem ef p) = fe_mem ef"
    "(\<lambda>k. if i \<le> k \<and> k < i + 0 then Some (fe_fresh ef + (k - i)) else refs k) = refs" by (rule ext, auto)+
  then show ?case by simp
next
  case (Cons ob obs)
  let ?ef = "ef\<lparr>fe_observed := fe_observed ef @ [(ob_hash ob, fe_fresh ef)], fe_mem := (fe_mem ef)(fe_fresh ef \<mapsto> ob), fe_fresh := fe_fresh ef + 1\<rparr>"
  have "read_observed c (length obs) (i + 1) (concat (map (ot_Serialize c) obs) @ r, refs(i \<mapsto> fe_fresh ef), ?ef) =
    (r, \<lambda>k. if i + 1 \<le> k \<and> k < i + 1 + length obs then Some (fe_fresh ?ef + (k - (i + 1))) else (refs(i \<mapsto> fe_fresh ef)) k,
     ?ef\<lparr>fe_observed := fe_observed ?ef @ zip (map ob_hash obs) [fe_fresh ?ef..<fe_fresh ?ef + length obs],
        fe_mem := (\<lambda>p. if fe_fresh ?ef \<le> p \<and> p < fe_fresh ?ef + length obs then Some (obs ! (p - fe_fresh ?ef)) else fe_mem ?ef p),
        fe_fresh := fe_fresh ?ef + length obs\<rparr>)"
    using Cons.prems by (intro Cons.IH) auto
  moreover have "[fe_fresh ef..<fe_fresh ef + length (ob # obs)] = fe_fresh ef # [fe_fresh ef + 1..<fe_fresh ef + 1 + length obs]"
    by (simp add: upt_rec)
  moreover have "AList.update (ob_hash ob) (fe_fresh ef) (fe_observed ef) = fe_observed ef @ [(ob_hash ob, fe_fresh ef)]"
    using Cons.prems(2) by (intro alist_update_new) auto
  ultimately show ?case using Cons.prems(1)
    by (auto simp: deserialize_ot Let_def fun_eq_iff nth_Cons' Suc_diff_le simp del: upt_Suc)
qed

text \<open>References: \<open>txs\<close> is the index that \<open>Save\<close> writes, \<open>refs\<close> the map that \<open>RestoreFeeEstimator\<close> builds, \<open>ren\<close> the new address.\<close>

definition refers :: "tx_index \<Rightarrow> tx_refs \<Rightarrow> (addr \<Rightarrow> addr) \<Rightarrow> addr set \<Rightarrow> bool" where
  "refers txs refs ren P \<longleftrightarrow> (\<forall>p\<in>P. \<exists>i<4294967296. txs p = Some i \<and> refs i = Some (ren p))"

lemma read_bin_writes:
  "refers txs refs ren (set ps) \<Longrightarrow> read_bin refs (length ps) (concat (map (write_index txs) ps) @ r) = Inr (map ren ps, r)"
  by (induction ps) (auto simp: refers_def write_index_def fixed_width Let_def)

lemma read_refs_writes:
  "refers txs refs ren (set ps) \<Longrightarrow> read_refs refs (length ps) (concat (map (write_index txs) ps) @ r) = (map ren ps, r)"
  by (induction ps) (auto simp: refers_def write_index_def fixed_width Let_def)

lemma read_bins_writes:
  "\<forall>ps\<in>set bs. refers txs refs ren (set ps) \<and> length ps < 4294967296 \<Longrightarrow>
    read_bins refs (length bs) (concat (map (write_txs txs) bs) @ r) = Inr (map (map ren) bs, r)"
  by (induction bs) (auto simp: write_txs_def fixed_width read_bin_writes Let_def)

definition rename_rb :: "(addr \<Rightarrow> addr) \<Rightarrow> registeredBlock \<Rightarrow> registeredBlock" where
  "rename_rb ren rb = rb\<lparr>rb_transactions := map ren (rb_transactions rb)\<rparr>"

lemma read_dropped_writes:
  "\<forall>rb\<in>set rbs. refers txs refs ren (set (rb_transactions rb)) \<and> length (rb_transactions rb) < 4294967296 \<and> length (rb_hash rb) = 32 \<Longrightarrow>
    read_dropped refs (length rbs) (concat (map (rb_serialize txs) rbs) @ r) = (map (rename_rb ren) rbs, r)"
  by (induction rbs)
    (auto simp: rb_serialize_def write_txs_def deserializeRegisteredBlock_def fixed_width read_refs_writes Let_def rename_rb_def)

end
