(* ===== verification/Fee_Inv.thy ===== *)
theory Fee_Inv
  imports Fee_Save
begin

text \<open>
  The invariant of the fee estimator: the bins and the stack are in order, everything filed is among the observed
  transactions, and cached estimates are those of the bins.  Every operation keeps it.
\<close>

section \<open>The invariant\<close>

definition observed_ok :: "fee_codec \<Rightarrow> FeeEstimator \<Rightarrow> bool" where
  "observed_ok c ef \<longleftrightarrow>
    distinct (map fst (fe_observed ef))
    \<and> (\<forall>(h, p)\<in>set (fe_observed ef). \<exists>ob. fe_mem ef p = Some ob \<and> ob_hash ob = h \<and> tx_storable c ob \<and> ob_feeRate ob \<ge> Fin 0 \<and> ob_feeRate ob \<noteq> PosInf)"

definition filed :: "FeeEstimator \<Rightarrow> addr set" where
  "filed ef = set (concat (fe_bin ef)) \<union> set (concat (stack ef))"

definition params_ok :: "FeeEstimator \<Rightarrow> bool" where
  "params_ok ef \<longleftrightarrow> binSize ef = estimateFeeBinSize \<and> maxReplacements ef = estimateFeeMaxReplacements
    \<and> 0 \<le> minRegisteredBlocks ef \<and> minRegisteredBlocks ef \<le> 4294967295
    \<and> 0 \<le> numBlocksRegistered ef \<and> numBlocksRegistered ef \<le> 4294967295
    \<and> (\<forall>rb\<in>set (fe_dropped ef). length (rb_hash rb) = 32)"

definition fe_inv :: "fee_codec \<Rightarrow> FeeEstimator \<Rightarrow> bool" where
  "fe_inv c ef \<longleftrightarrow> bins_ok ef \<and> observed_ok c ef \<and> params_ok ef
    \<and> filed ef \<subseteq> snd ` set (fe_observed ef)
    \<and> (\<forall>p. fe_mem ef p \<noteq> None \<longrightarrow> p < fe_fresh ef)
    \<and> (\<forall>est. fe_cached ef = Some est \<longrightarrow> estimates ef = Some est)"

text \<open>What the code relies on in other packages: hashes have 32 bytes, rounding is monotone, and a \<open>float64\<close> survives its encoding.\<close>

definition fee_lib_ok :: "wire_lib \<Rightarrow> fee_codec \<Rightarrow> (real \<Rightarrow> real) \<Rightarrow> bool" where
  "fee_lib_ok L c rd \<longleftrightarrow> (\<forall>tx. length (TxHash L tx) = 32) \<and> (\<forall>hd. length (BlockHash L hd) = 32)
    \<and> mono rd \<and> rd 0 = 0 \<and> (\<forall>x. Float64frombits c (Float64bits c (Fin (rd x))) = Fin (rd x))"

lemma observed_obj:
  assumes "observed_ok c ef" "p \<in> snd ` set (fe_observed ef)"
  obtains ob where "fe_mem ef p = Some ob" "(ob_hash ob, p) \<in> set (fe_observed ef)" "tx_storable c ob" "ob_feeRate ob \<ge> Fin 0" "ob_feeRate ob \<noteq> PosInf"
  using assms by (fastforce simp: observed_ok_def)

lemma bins_ok_cong:
  assumes ok: "bins_ok ef" and mem: "\<And>p. p \<in> filed ef \<Longrightarrow> fe_mem ef' p = fe_mem ef p"
    and eq: "fe_bin ef' = fe_bin ef" "fe_dropped ef' = fe_dropped ef" "lastKnownHeight ef' = lastKnownHeight ef"
      "binSize ef' = binSize ef" "maxReplacements ef' = maxReplacements ef" "maxRollback ef' = maxRollback ef"
  shows "bins_ok ef'"
proof -
  have len: "length (fe_bin ef) = bins" using ok by (simp add: bins_ok_def)
  have "stack_ok (fe_mem ef') (lastKnownHeight ef) (bin_msets ef) (stack ef)"
  proof (subst stack_ok_cong[of _ "fe_mem ef'" "fe_mem ef" _ "bin_msets ef"])
    show "fe_mem ef' p = fe_mem ef p" if "b < bins" "p \<in># mset (fe_bin ef ! b)" for b p
      using that len by (intro mem) (auto simp: filed_def)
    show "fe_mem ef' p = fe_mem ef p" if "d \<in> set (stack ef)" "p \<in> set d" for d p
      using that by (intro mem) (auto simp: filed_def)
  qed (use ok in \<open>simp_all add: bins_ok_def\<close>)
  moreover have "tracked (fe_mem ef') b (lastKnownHeight ef) p" if "b < bins" "p \<in> set (fe_bin ef ! b)" for b p
  proof -
    have "fe_mem ef' p = fe_mem ef p" using that len by (intro mem) (auto simp: filed_def)
    then show ?thesis using ok that tracked_cong[of "fe_mem ef'" p "fe_mem ef"] by (auto simp: bins_ok_def)
  qed
  ultimately show ?thesis using ok eq by (simp add: bins_ok_def)
qed

lemma estimates_cong:
  assumes "fe_bin ef' = fe_bin ef" "\<And>p. p \<in> set (concat (fe_bin ef)) \<Longrightarrow> fe_mem ef' p = fe_mem ef p"
  shows "estimates ef' = estimates ef"
proof -
  have "map (\<lambda>p. map_option ob_feeRate (fe_mem ef' p)) (concat (fe_bin ef)) = map (\<lambda>p. map_option ob_feeRate (fe_mem ef p)) (concat (fe_bin ef))"
    by (intro map_cong refl arg_cong[where f = "map_option ob_feeRate"] assms(2))
  then show ?thesis by (simp only: estimates_def newEstimateFeeSet_def assms(1))
qed

section \<open>New estimators and observed transactions\<close>

lemma NewFeeEstimator_inv:
  assumes "0 \<le> maxRb" "maxRb \<le> 4294967295" "0 \<le> minReg" "minReg \<le> 4294967295"
  shows "fe_inv c (NewFeeEstimator maxRb minReg)"
proof -
  have "concat (replicate bins []) = []" by simp
  then show ?thesis using assms
    by (simp add: fe_inv_def bins_ok_def observed_ok_def params_ok_def filed_def NewFeeEstimator_def estimateFeeBinSize_def
        estimateFeeMaxReplacements_def UnminedHeight_def nil_addr_def del: replicate.simps)
qed

lemma NewSatoshiPerByte_range:
  assumes "mono rd" "rd 0 = 0" "0 \<le> fee" "0 \<le> n"
  shows "NewSatoshiPerByte rd fee n \<ge> Fin 0" "NewSatoshiPerByte rd fee n \<noteq> PosInf"
proof -
  have pos: "0 \<le> rd x" if "0 \<le> x" for x using assms(1,2) that by (metis monoD)
  show "NewSatoshiPerByte rd fee n \<ge> Fin 0" using assms(3,4) by (simp add: NewSatoshiPerByte_def pos)
qed (simp add: NewSatoshiPerByte_def)

lemma ObserveTransaction_inv:
  assumes inv: "fe_inv c ef" and lib: "fee_lib_ok L c rd" and t: "0 \<le> td_Fee t" "is_i32 (td_Height t)"
  shows "fe_inv c (ObserveTransaction L rd t ef)"
proof (cases "lastKnownHeight ef = UnminedHeight \<or> map_of (fe_observed ef) (TxHash L (td_Tx t)) \<noteq> None")
  case True
  then have "ObserveTransaction L rd t ef = ef" by (auto simp: ObserveTransaction_def Let_def)
  then show ?thesis using inv by simp
next
  case False
  define h where "h = TxHash L (td_Tx t)"
  define p where "p = fe_fresh ef"
  define ob where "ob = \<lparr>ob_hash = h, ob_feeRate = NewSatoshiPerByte rd (td_Fee t) (u32 (GetTxVirtualSize L (td_Tx t))), ob_observed = td_Height t,
    ob_mined = UnminedHeight\<rparr>"
  let ?ef = "ef\<lparr>fe_observed := (h, p) # fe_observed ef, fe_mem := (fe_mem ef)(p \<mapsto> ob), fe_fresh := p + 1\<rparr>"
  have ef: "ObserveTransaction L rd t ef = ?ef" using False by (simp add: ObserveTransaction_def Let_def h_def p_def ob_def)
  have new: "fe_mem ef p = None" using inv by (auto simp: fe_inv_def p_def)
  have o: "observed_ok c ef" using inv by (simp add: fe_inv_def)
  have old: "q \<noteq> p" if "q \<in> snd ` set (fe_observed ef)" for q using observed_obj[OF o that] new by (metis option.distinct(1))
  have ob: "tx_storable c ob" "ob_feeRate ob \<ge> Fin 0" "ob_feeRate ob \<noteq> PosInf"
    using lib t NewSatoshiPerByte_range[of rd "td_Fee t" "u32 (GetTxVirtualSize L (td_Tx t))"]
    by (simp_all add: tx_storable_def fee_lib_ok_def ob_def h_def NewSatoshiPerByte_def is_i32_def UnminedHeight_def u32_range)
  have h: "h \<notin> fst ` set (fe_observed ef)" using False by (simp add: h_def map_of_eq_None_iff)
  have "observed_ok c ?ef"
    using o ob h old by (auto simp: observed_ok_def ob_def split: if_splits) (force)+
  moreover have fi: "q \<noteq> p" if "q \<in> filed ef" for q using inv that old[of q] unfolding fe_inv_def by blast
  have same: "fe_mem ?ef q = fe_mem ef q" if "q \<in> filed ef" for q using fi[OF that] by simp
  have "bins_ok ef" using inv by (simp add: fe_inv_def)
  then have "bins_ok ?ef" by (rule bins_ok_cong) (simp_all only: same, simp_all)
  moreover have "estimates ?ef = estimates ef" by (rule estimates_cong) (simp, rule same, simp add: filed_def)
  moreover have "filed ?ef = filed ef" by (simp add: filed_def)
  moreover have "\<forall>q. fe_mem ?ef q \<noteq> None \<longrightarrow> q < fe_fresh ?ef" using inv by (auto simp: fe_inv_def p_def less_Suc_eq)
  ultimately show ?thesis unfolding ef using inv by (auto simp: fe_inv_def params_ok_def)
qed

section \<open>Blocks\<close>

lemma tx_storable_mined: "tx_storable c ob \<Longrightarrow> is_i32 H \<Longrightarrow> tx_storable c (ob\<lparr>ob_mined := H\<rparr>)"
  by (simp add: tx_storable_def)

lemma observed_ok_marks:
  assumes ok: "observed_ok c ef" and sub: "set (fe_observed ef') \<subseteq> set (fe_observed ef)" "distinct (map fst (fe_observed ef'))" and H: "is_i32 H"
    and mem: "\<And>p. fe_mem ef' p = fe_mem ef p \<or> (\<exists>ob. fe_mem ef p = Some ob \<and> fe_mem ef' p = Some (ob\<lparr>ob_mined := H\<rparr>))"
  shows "observed_ok c ef'"
  unfolding observed_ok_def
proof (intro conjI sub(2) ballI, clarify)
  fix h p assume hp: "(h, p) \<in> set (fe_observed ef')"
  then obtain ob where ob: "fe_mem ef p = Some ob" "ob_hash ob = h" "tx_storable c ob" "ob_feeRate ob \<ge> Fin 0" "ob_feeRate ob \<noteq> PosInf"
    using ok sub(1) by (fastforce simp: observed_ok_def)
  then show "\<exists>ob. fe_mem ef' p = Some ob \<and> ob_hash ob = h \<and> tx_storable c ob \<and> ob_feeRate ob \<ge> Fin 0 \<and> ob_feeRate ob \<noteq> PosInf"
    using mem[of p] tx_storable_mined[OF _ H, of c ob] by auto
qed

lemma stack_members:
  assumes "bins_ok ef" "p \<in> set (concat (stack (push_dropped rb ef')))" "fe_dropped ef' = fe_dropped ef" "maxRollback ef' = maxRollback ef"
  shows "p \<in> set (rb_transactions rb) \<or> p \<in> set (concat (stack ef))"
proof -
  define st where "st = stack ef"
  have "stack (push_dropped rb ef') = (if maxRollback ef = 0 then [] else rb_transactions rb #
      (if int (length (fe_dropped ef)) = maxRollback ef then butlast st else st))"
    using push_dropped_stack[of ef' rb] assms(1,3,4) by (simp only: st_def bins_ok_def)
  then have "set (stack (push_dropped rb ef')) \<subseteq> insert (rb_transactions rb) (set st)"
    by (auto simp only: list.set split: if_splits dest: in_set_butlastD)
  then show ?thesis using assms(2) unfolding st_def set_concat by blast
qed

lemma RegisterBlock_inv:
  assumes inv: "fe_inv c ef" and lib: "fee_lib_ok L c rd" and h: "0 \<le> blk_Height block" "blk_Height block < UnminedHeight"
    and draw: "\<forall>n l. 0 < l \<longrightarrow> int (intn n l) < l"
  obtains (fail) e ef' where "RegisterBlock L ord intn block ef = Some (Some e, ef')"
  | (success) ef' where "RegisterBlock L ord intn block ef = Some (None, ef')" "fe_inv c ef'"
proof -
  let ?H = "blk_Height block"
  have ok: "bins_ok ef" and o: "observed_ok c ef" and sub: "filed ef \<subseteq> snd ` set (fe_observed ef)" and pr: "params_ok ef"
    and fresh: "\<forall>p. fe_mem ef p \<noteq> None \<longrightarrow> p < fe_fresh ef"
    using inv by (simp_all add: fe_inv_def)
  have obs: "\<forall>hp\<in>set (fe_observed ef). fe_mem ef (snd hp) \<noteq> None" using o by (fastforce simp: observed_ok_def)
  from RegisterBlock_effect[OF ok obs h(2) draw, of L ord] show thesis
  proof cases
    case (1 e ef')
    then show thesis by (rule fail)
  next
    case success: (2 mem bs counts d)
    note r = success(2)
    define ef1 where "ef1 = ef\<lparr>fe_cached := None, lastKnownHeight := ?H, numBlocksRegistered := u32 (numBlocksRegistered ef + 1),
      fe_mem := mem, fe_bin := bs, fe_observed := filter (\<lambda>hp. \<not> too_old mem ?H hp) (fe_observed ef)\<rparr>"
    let ?rb = "\<lparr>rb_hash = BlockHash L (Header block), rb_transactions = d\<rparr>"
    have mem: "mem p = fe_mem ef p \<or> (\<exists>ob. fe_mem ef p = Some ob \<and> mem p = Some (ob\<lparr>ob_mined := ?H\<rparr>))" for p
      using r by (auto simp: reg_inv_def)
    have bi: "\<And>b. b < bins \<Longrightarrow> bin_inv (bin_msets ef) ?H (ef\<lparr>fe_mem := mem, fe_bin := bs\<rparr>) counts d b" and len: "length bs = bins"
      and dtr: "\<forall>p\<in>set d. \<exists>b<bins. tracked mem b (?H - 1) p"
      and new: "\<forall>p\<in>set (concat bs). mined_in mem p = Some ?H \<longrightarrow> p \<in> snd ` set (fe_observed ef)"
      using r by (auto simp: reg_inv_def simp del: set_concat)
    have len0: "length (fe_bin ef) = bins" using ok by (simp add: bins_ok_def)
    have old: "p \<in> filed ef" if "b < bins" "p \<in># undo mem ?H (\<lambda>b. mset (bs ! b)) d b" for b p
    proof -
      have "p \<in># mset (fe_bin ef ! b)" using bi[OF that(1)] that(2) by (simp add: bin_inv_def Let_def undo_def)
      then show ?thesis using that(1) len0 by (auto simp: filed_def)
    qed
    have keep: "p \<in> snd ` set (fe_observed ef1)" if p: "p \<in> snd ` set (fe_observed ef)" "mined_in mem p \<noteq> Some UnminedHeight" for p
      using p by (force simp: ef1_def too_old_def mined_in_def split: option.splits)
    have filed_keep: "p \<in> snd ` set (fe_observed ef1)" if p: "p \<in> filed ef" for p
    proof (rule keep)
      show "p \<in> snd ` set (fe_observed ef)" using sub p by blast
      obtain m where m: "mined_in (fe_mem ef) p = Some m" "m \<noteq> UnminedHeight" using filed_mined[OF ok] p unfolding filed_def by metis
      then have "mem p = fe_mem ef p" using reg_inv_memory[OF r, of p] by simp
      then show "mined_in mem p \<noteq> Some UnminedHeight" using m by (auto simp: mined_in_def)
    qed
    have "p \<in> snd ` set (fe_observed ef1)" if p: "p \<in> set (concat bs)" for p
    proof (cases "mined_in mem p = Some ?H")
      case True
      then show ?thesis using new p h(2) by (intro keep) auto
    next
      case False
      obtain b where b: "b < bins" "p \<in> set (bs ! b)" using p len by (auto simp: set_conv_nth[of bs])
      then show ?thesis using False by (intro filed_keep old[OF b(1)]) (simp add: undo_def)
    qed
    moreover have "p \<in> snd ` set (fe_observed ef1)" if p: "p \<in> set d" for p
    proof -
      obtain b where b: "b < bins" "slot mem p = Some (int b)" using dtr p by (auto simp: tracked_def)
      then show ?thesis using p by (intro filed_keep old[OF b(1)]) (simp add: undo_def)
    qed
    moreover have "p \<in> snd ` set (fe_observed ef1)" if p: "p \<in> set (concat (stack ef))" for p
      using p by (intro filed_keep) (simp add: filed_def)
    ultimately have f: "filed (push_dropped ?rb ef1) \<subseteq> snd ` set (fe_observed (push_dropped ?rb ef1))"
    proof -
      assume 1: "\<And>p. p \<in> set (concat bs) \<Longrightarrow> p \<in> snd ` set (fe_observed ef1)" and 2: "\<And>p. p \<in> set d \<Longrightarrow> p \<in> snd ` set (fe_observed ef1)"
        and 3: "\<And>p. p \<in> set (concat (stack ef)) \<Longrightarrow> p \<in> snd ` set (fe_observed ef1)"
      show ?thesis
      proof
        fix p assume "p \<in> filed (push_dropped ?rb ef1)"
        then consider "p \<in> set (concat bs)" | "p \<in> set (concat (stack (push_dropped ?rb ef1)))"
          unfolding filed_def by (auto simp: ef1_def simp del: set_concat)
        then have "p \<in> snd ` set (fe_observed ef1)"
        proof cases
          case 2
          have "p \<in> set (rb_transactions ?rb) \<or> p \<in> set (concat (stack ef))" by (rule stack_members[OF ok 2]) (simp_all add: ef1_def)
          then show ?thesis using \<open>\<And>p. p \<in> set d \<Longrightarrow> p \<in> snd ` set (fe_observed ef1)\<close> 3 by auto
        qed (rule 1)
        then show "p \<in> snd ` set (fe_observed (push_dropped ?rb ef1))" by simp
      qed
    qed
    have "bins_ok (push_dropped ?rb ef1)"
      by (rule register_bins_ok[OF ok success(1) h r]) (simp_all add: ef1_def)
    moreover have "observed_ok c ef1"
    proof (rule observed_ok_marks[OF o])
      show "distinct (map fst (fe_observed ef1))" using o by (simp add: ef1_def observed_ok_def distinct_map_filter)
      show "is_i32 ?H" using h by (simp add: is_i32_def UnminedHeight_def)
    qed (use mem in \<open>auto simp: ef1_def\<close>)
    then have "observed_ok c (push_dropped ?rb ef1)" by (simp add: observed_ok_def)
    moreover have "params_ok (push_dropped ?rb ef1)"
      using pr lib u32_range[of "numBlocksRegistered ef + 1"]
      by (auto simp: params_ok_def push_dropped_def ef1_def fee_lib_ok_def dest: in_set_dropD)
    moreover have "p < fe_fresh ef1" if "mem p \<noteq> None" for p
      using that fresh mem[of p] by (auto simp: ef1_def)
    ultimately have "fe_inv c (push_dropped ?rb ef1)" using f by (simp add: fe_inv_def ef1_def)
    then show thesis using success(4) by (intro that(2)) (simp_all add: ef1_def)
  qed
qed

lemma rollback_inv:
  assumes inv: "fe_inv c ef" and ne: "fe_dropped ef \<noteq> []"
  obtains ef' where "rollback ef = Some ef'" "fe_inv c ef'" "length (fe_dropped ef') = length (fe_dropped ef) - 1"
proof -
  have ok: "bins_ok ef" and o: "observed_ok c ef" and sub: "filed ef \<subseteq> snd ` set (fe_observed ef)" and pr: "params_ok ef"
    and fresh: "\<forall>p. fe_mem ef p \<noteq> None \<longrightarrow> p < fe_fresh ef"
    using inv by (simp_all add: fe_inv_def)
  obtain bs where bs: "rollback ef = Some (ef\<lparr>fe_cached := None, fe_bin := bs, fe_mem := undo_memory ef, fe_dropped := butlast (fe_dropped ef),
       numBlocksRegistered := u32 (numBlocksRegistered ef - 1), lastKnownHeight := lastKnownHeight ef - 1\<rparr>)"
    "length bs = bins" "\<forall>b<bins. mset (bs ! b) = undo (fe_mem ef) (lastKnownHeight ef) (bin_msets ef) (rb_transactions (last (fe_dropped ef))) b"
    by (rule rollback_effect[OF ok ne])
  define ef' where "ef' = ef\<lparr>fe_cached := None, fe_bin := bs, fe_mem := undo_memory ef, fe_dropped := butlast (fe_dropped ef),
       numBlocksRegistered := u32 (numBlocksRegistered ef - 1), lastKnownHeight := lastKnownHeight ef - 1\<rparr>"
  have st: "stack ef = rb_transactions (last (fe_dropped ef)) # stack ef'" using rollback_start(1)[OF ok ne] by (simp add: ef'_def)
  have "filed ef' \<subseteq> filed ef"
  proof
    fix p assume "p \<in> filed ef'"
    then consider "p \<in> set (concat bs)" | "p \<in> set (concat (stack ef'))" unfolding filed_def by (auto simp: ef'_def simp del: set_concat)
    then show "p \<in> filed ef"
    proof cases
      case 1
      then obtain b where b: "b < bins" "p \<in> set (bs ! b)" using bs(2) by (auto simp: set_conv_nth[of bs])
      have "p \<in># undo (fe_mem ef) (lastKnownHeight ef) (bin_msets ef) (rb_transactions (last (fe_dropped ef))) b"
        using b bs(3) by (metis set_mset_mset)
      then show ?thesis
      proof (cases rule: undo_member)
        case 1
        have "length (fe_bin ef) = bins" using ok by (simp add: bins_ok_def)
        then show ?thesis using 1(1) b(1) by (auto simp: filed_def)
      next
        case 2
        then show ?thesis unfolding filed_def st by simp
      qed
    next
      case 2
      then show ?thesis unfolding filed_def st by simp
    qed
  qed
  moreover have "bins_ok ef'" by (rule rollback_bins_ok[OF ok ne bs(2,3)]) (simp_all add: ef'_def)
  moreover have mem: "undo_memory ef p = fe_mem ef p \<or> (\<exists>ob. fe_mem ef p = Some ob \<and> undo_memory ef p = Some (ob\<lparr>ob_mined := UnminedHeight\<rparr>))" for p
    by (auto simp: undo_memory_def unmined_def mined_in_def)
  have "observed_ok c ef'"
  proof (rule observed_ok_marks[OF o])
    show "distinct (map fst (fe_observed ef'))" using o by (simp add: ef'_def observed_ok_def)
    show "is_i32 UnminedHeight" by (simp add: is_i32_def UnminedHeight_def)
  qed (use mem in \<open>simp_all add: ef'_def\<close>)
  moreover have "params_ok ef'" using pr u32_range[of "numBlocksRegistered ef - 1"] by (auto simp: params_ok_def ef'_def dest: in_set_butlastD)
  moreover have "p < fe_fresh ef'" if "undo_memory ef p \<noteq> None" for p using that fresh mem[of p] by (auto simp: ef'_def)
  ultimately have "fe_inv c ef'" using sub by (auto simp: fe_inv_def ef'_def)
  then show thesis using that[of ef'] bs(1) by (simp add: ef'_def)
qed

lemma rollbacks_inv: "fe_inv c ef \<Longrightarrow> n \<le> length (fe_dropped ef) \<Longrightarrow> \<exists>ef'. rollbacks n ef = Some ef' \<and> fe_inv c ef'"
proof (induction n arbitrary: ef)
  case (Suc n)
  then have ne: "fe_dropped ef \<noteq> []" by auto
  obtain ef1 where 1: "rollback ef = Some ef1" "fe_inv c ef1" "length (fe_dropped ef1) = length (fe_dropped ef) - 1"
    by (rule rollback_inv[OF Suc.prems(1) ne])
  then have "n \<le> length (fe_dropped ef1)" using Suc.prems(2) by simp
  from Suc.IH[OF 1(2) this] show ?case using 1(1) by simp
qed simp

lemma Rollback_inv:
  assumes "fe_inv c ef"
  shows "\<exists>e ef'. Rollback h ef = Some (e, ef') \<and> fe_inv c ef'"
proof (cases "1 + length (takeWhile (\<lambda>rb. rb_hash rb \<noteq> h) (rev (fe_dropped ef))) > length (fe_dropped ef)")
  case True
  then show ?thesis using assms by (simp add: Rollback_def)
next
  case False
  then obtain ef' where "rollbacks (1 + length (takeWhile (\<lambda>rb. rb_hash rb \<noteq> h) (rev (fe_dropped ef)))) ef = Some ef'" "fe_inv c ef'"
    using rollbacks_inv[OF assms] by (metis linorder_not_less)
  then show ?thesis using False by (simp add: Rollback_def Let_def)
qed

section \<open>Estimates\<close>

lemma those_map_Some: "\<forall>x\<in>set xs. f x = Some (g x) \<Longrightarrow> those (map f xs) = Some (map g xs)"
  by (induction xs) auto

text \<open>The rates of the transactions in the bins.\<close>

definition tracked_rates :: "FeeEstimator \<Rightarrow> SatoshiPerByte list" where
  "tracked_rates ef = map (\<lambda>p. case fe_mem ef p of None \<Rightarrow> Fin 0 | Some ob \<Rightarrow> ob_feeRate ob) (concat (fe_bin ef))"

lemma newEstimateFeeSet_eq:
  assumes "fe_inv c ef"
  shows "newEstimateFeeSet ef = Some \<lparr>efs_feeRate = rev (sort (tracked_rates ef)), efs_bin = map (\<lambda>b. u32 (int (length b))) (fe_bin ef)\<rparr>"
proof -
  have "those (map (\<lambda>p. map_option ob_feeRate (fe_mem ef p)) (concat (fe_bin ef))) = Some (tracked_rates ef)"
    unfolding tracked_rates_def
  proof (rule those_map_Some, intro ballI)
    fix p assume "p \<in> set (concat (fe_bin ef))"
    then have "p \<in> snd ` set (fe_observed ef)" using assms by (auto simp: fe_inv_def filed_def)
    then obtain ob where "fe_mem ef p = Some ob" using observed_obj[of c ef p] assms unfolding fe_inv_def by metis
    then show "map_option ob_feeRate (fe_mem ef p) = Some (case fe_mem ef p of None \<Rightarrow> Fin 0 | Some ob \<Rightarrow> ob_feeRate ob)" by simp
  qed
  then show ?thesis by (simp add: newEstimateFeeSet_def)
qed

lemma EstimateFee_inv:
  assumes inv: "fe_inv c ef"
  obtains r ef' where "EstimateFee rd n ef = Some (r, ef')" "fe_inv c ef'"
proof -
  obtain est where est: "estimates ef = Some est" using newEstimateFeeSet_eq[OF inv] by (simp add: estimates_def)
  have c: "(case fe_cached ef of Some e \<Rightarrow> Some e | None \<Rightarrow> estimates ef) = Some est"
    using inv est by (cases "fe_cached ef") (auto simp: fe_inv_def)
  let ?ef = "ef\<lparr>fe_cached := Some est\<rparr>"
  have "bins_ok ?ef" by (rule bins_ok_cong[of ef]) (use inv in \<open>simp_all add: fe_inv_def\<close>)
  moreover have "estimates ?ef = Some est" using est estimates_cong[of ?ef ef] by simp
  ultimately have "fe_inv c ?ef" using inv by (simp add: fe_inv_def observed_ok_def params_ok_def filed_def)
  moreover have "\<exists>r ef'. EstimateFee rd n ef = Some (r, ef') \<and> (ef' = ef \<or> ef' = ?ef)"
    unfolding EstimateFee_def c by simp
  ultimately show thesis using that inv by blast
qed

end
