(* ===== verification/Fee_Restart.thy ===== *)
theory Fee_Restart
  imports Fee_Inv
begin

text \<open>
  A restored estimator is the saved one with its transactions at other addresses, and it satisfies the invariant.
\<close>

section \<open>Other addresses\<close>

definition renamed :: "(addr \<Rightarrow> addr) \<Rightarrow> FeeEstimator \<Rightarrow> FeeEstimator \<Rightarrow> bool" where
  "renamed ren ef ef' \<longleftrightarrow>
    maxRollback ef' = maxRollback ef \<and> binSize ef' = binSize ef \<and> maxReplacements ef' = maxReplacements ef
    \<and> minRegisteredBlocks ef' = minRegisteredBlocks ef \<and> lastKnownHeight ef' = lastKnownHeight ef
    \<and> numBlocksRegistered ef' = numBlocksRegistered ef \<and> fe_cached ef' = None
    \<and> fe_bin ef' = map (map ren) (fe_bin ef) \<and> fe_dropped ef' = map (rename_rb ren) (fe_dropped ef)
    \<and> distinct (map fst (fe_observed ef')) \<and> (\<forall>h. map_of (fe_observed ef') h = map_option ren (map_of (fe_observed ef) h))
    \<and> (\<forall>p\<in>snd ` set (fe_observed ef). fe_mem ef' (ren p) = fe_mem ef p)
    \<and> inj_on ren (snd ` set (fe_observed ef))
    \<and> (\<forall>p. fe_mem ef' p \<noteq> None \<longrightarrow> p < fe_fresh ef')"

lemma stack_ok_rename:
  assumes mem: "\<And>p. p \<in> P \<Longrightarrow> mem' (ren p) = mem p" and "\<forall>b<bins. set_mset (B b) \<subseteq> P" "\<forall>d\<in>set ds. set d \<subseteq> P" "stack_ok mem H B ds"
  shows "stack_ok mem' H (\<lambda>b. image_mset ren (B b)) (map (map ren) ds)"
  using assms(2-)
proof (induction ds arbitrary: H B)
  case (Cons d ds)
  have keep: "filter_mset (\<lambda>p. g (mem' p)) (image_mset ren M) = image_mset ren (filter_mset (\<lambda>p. g (mem p)) M)" if "set_mset M \<subseteq> P" for g M
    using that mem by (simp add: filter_mset_image_mset) (auto intro!: arg_cong[where f = "image_mset ren"] filter_mset_cong)
  have d: "set_mset (mset d) \<subseteq> P" using Cons.prems(2) by simp
  have u: "undo mem' H (\<lambda>b. image_mset ren (B b)) (map ren d) b = image_mset ren (undo mem H B d b)" if "b < bins" for b
  proof -
    have "filter_mset (\<lambda>p. mined_in mem' p \<noteq> Some H) (image_mset ren (B b)) = image_mset ren (filter_mset (\<lambda>p. mined_in mem p \<noteq> Some H) (B b))"
      using keep[of "B b" "\<lambda>v. map_option ob_mined v \<noteq> Some H"] Cons.prems(1) that by (simp add: mined_in_def)
    moreover have "filter_mset (\<lambda>p. slot mem' p = Some (int b)) (image_mset ren (mset d)) = image_mset ren (filter_mset (\<lambda>p. slot mem p = Some (int b)) (mset d))"
      using keep[OF d, of "\<lambda>v. map_option confirm_index v = Some (int b)"] by (simp add: slot_def)
    ultimately show ?thesis by (simp add: undo_def)
  qed
  have "stack_ok mem' (H - 1) (\<lambda>b. image_mset ren (undo mem H B d b)) (map (map ren) ds)"
  proof (rule Cons.IH)
    show "\<forall>b<bins. set_mset (undo mem H B d b) \<subseteq> P" using Cons.prems(1,2) by (auto simp: undo_def)
  qed (use Cons.prems in auto)
  then have "stack_ok mem' (H - 1) (undo mem' H (\<lambda>b. image_mset ren (B b)) (map ren d)) (map (map ren) ds)"
    using stack_ok_cong[of "undo mem' H (\<lambda>b. image_mset ren (B b)) (map ren d)" mem' mem' "map (map ren) ds"
        "\<lambda>b. image_mset ren (undo mem H B d b)"] u by simp
  moreover have "size (filter_mset (\<lambda>p. slot mem' p = Some (int b)) (mset (map ren d))) = size (filter_mset (\<lambda>p. slot mem p = Some (int b)) (mset d))" for b
    using keep[OF d, of "\<lambda>v. map_option confirm_index v = Some (int b)"] by (simp add: slot_def)
  moreover have "size (filter_mset (\<lambda>p. mined_in mem' p = Some H) (image_mset ren (B b))) = size (filter_mset (\<lambda>p. mined_in mem p = Some H) (B b))" if "b < bins" for b
    using keep[of "B b" "\<lambda>v. map_option ob_mined v = Some H"] Cons.prems(1) that by (simp add: mined_in_def)
  moreover have "\<exists>b<bins. tracked mem' b (H - 1) (ren p)" if "p \<in> set d" for p
  proof -
    have "mem' (ren p) = mem p" using that d by (intro mem) auto
    then show ?thesis using Cons.prems(3) that by (auto simp: tracked_def slot_def mined_in_def)
  qed
  ultimately show ?case using Cons.prems(3) by simp
qed simp

lemma renamed_stack: "renamed ren ef ef' \<Longrightarrow> stack ef' = map (map ren) (stack ef)"
  by (simp add: renamed_def rev_map rename_rb_def comp_def)

lemma renamed_inv:
  assumes inv: "fe_inv c ef" and ren: "renamed ren ef ef'"
  shows "fe_inv c ef'"
proof -
  have ok: "bins_ok ef" and o: "observed_ok c ef" and sub: "filed ef \<subseteq> snd ` set (fe_observed ef)" and pr: "params_ok ef"
    using inv by (simp_all add: fe_inv_def)
  let ?P = "snd ` set (fe_observed ef)"
  have mem: "fe_mem ef' (ren p) = fe_mem ef p" if "p \<in> ?P" for p using ren that unfolding renamed_def by blast
  have st: "stack ef' = map (map ren) (stack ef)" by (rule renamed_stack[OF ren])
  have bs: "fe_bin ef' = map (map ren) (fe_bin ef)" using ren by (simp add: renamed_def)
  have len: "length (fe_bin ef) = bins" using ok by (simp add: bins_ok_def)
  have inb: "p \<in> ?P" if "b < bins" "p \<in> set (fe_bin ef ! b)" for b p
  proof -
    have "p \<in> filed ef" using that len by (auto simp: filed_def)
    then show ?thesis using sub by blast
  qed
  have tr: "tracked (fe_mem ef') b (lastKnownHeight ef) (ren p)" if "b < bins" "p \<in> set (fe_bin ef ! b)" for b p
    using ok mem[OF inb[OF that]] that by (auto simp: bins_ok_def tracked_def slot_def mined_in_def)
  have "stack_ok (fe_mem ef') (lastKnownHeight ef) (\<lambda>b. image_mset ren (mset (fe_bin ef ! b))) (map (map ren) (stack ef))"
  proof (rule stack_ok_rename[where P = ?P and mem = "fe_mem ef"])
    show "fe_mem ef' (ren p) = fe_mem ef p" if "p \<in> ?P" for p by (rule mem[OF that])
    show "\<forall>b<bins. set_mset (mset (fe_bin ef ! b)) \<subseteq> ?P" using inb by auto
    show "\<forall>d\<in>set (stack ef). set d \<subseteq> ?P" using sub by (auto simp: filed_def)
  qed (use ok in \<open>auto simp: bins_ok_def\<close>)
  then have "stack_ok (fe_mem ef') (lastKnownHeight ef) (bin_msets ef') (stack ef')"
  proof -
    assume "stack_ok (fe_mem ef') (lastKnownHeight ef) (\<lambda>b. image_mset ren (mset (fe_bin ef ! b))) (map (map ren) (stack ef))"
    moreover have "stack_ok (fe_mem ef') (lastKnownHeight ef) (bin_msets ef') (map (map ren) (stack ef))
      \<longleftrightarrow> stack_ok (fe_mem ef') (lastKnownHeight ef) (\<lambda>b. image_mset ren (mset (fe_bin ef ! b))) (map (map ren) (stack ef))"
      by (rule stack_ok_cong) (simp_all add: bs len)
    ultimately show ?thesis unfolding st by blast
  qed
  moreover have "distinct (concat (fe_bin ef') @ concat (stack ef'))"
  proof -
    have eq: "concat (fe_bin ef') @ concat (stack ef') = map ren (concat (fe_bin ef) @ concat (stack ef))" unfolding bs st by (simp add: map_concat)
    have "inj_on ren ?P" using ren unfolding renamed_def by blast
    moreover have "set (concat (fe_bin ef) @ concat (stack ef)) \<subseteq> ?P" using sub by (simp only: set_append filed_def)
    ultimately have "inj_on ren (set (concat (fe_bin ef) @ concat (stack ef)))" by (rule inj_on_subset)
    moreover have "distinct (concat (fe_bin ef) @ concat (stack ef))" using ok by (simp add: bins_ok_def)
    ultimately show ?thesis unfolding eq distinct_map by blast
  qed
  moreover have "length (fe_dropped ef') = length (fe_dropped ef)" using ren by (simp add: renamed_def)
  moreover have "int (length (fe_bin ef' ! b)) \<le> binSize ef \<and> (\<forall>p\<in>set (fe_bin ef' ! b). tracked (fe_mem ef') b (lastKnownHeight ef) p)" if "b < bins" for b
    using ok tr that by (auto simp: bs len bins_ok_def)
  moreover have "lastKnownHeight ef' = lastKnownHeight ef" "binSize ef' = binSize ef" "maxReplacements ef' = maxReplacements ef" "maxRollback ef' = maxRollback ef"
    using ren by (simp_all add: renamed_def)
  moreover have "concat (fe_bin ef') = [] \<longleftrightarrow> concat (fe_bin ef) = []" "length (fe_bin ef') = bins" using len by (auto simp: bs)
  ultimately have "bins_ok ef'" using ok unfolding bins_ok_def by (simp only: length_0_conv[symmetric]) blast
  moreover have obs: "\<exists>p. (h, p) \<in> set (fe_observed ef) \<and> q = ren p" if "(h, q) \<in> set (fe_observed ef')" for h q
  proof -
    have "distinct (map fst (fe_observed ef'))" using ren unfolding renamed_def by blast
    then have "map_of (fe_observed ef') h = Some q" using that by simp
    then show ?thesis using ren map_of_SomeD[of "fe_observed ef" h] by (auto simp: renamed_def)
  qed
  have "observed_ok c ef'"
    unfolding observed_ok_def
  proof (intro conjI ballI, goal_cases)
    case 1
    show ?case using ren by (simp add: renamed_def)
  next
    case (2 x)
    then obtain p where p: "(fst x, p) \<in> set (fe_observed ef)" "snd x = ren p" using obs[of "fst x" "snd x"] by auto
    then have "p \<in> ?P" by force
    then show ?case using o p mem[of p] by (fastforce simp: observed_ok_def case_prod_beta)
  qed
  moreover have "filed ef' \<subseteq> snd ` set (fe_observed ef')"
  proof
    fix q assume "q \<in> filed ef'"
    then obtain p where p: "p \<in> filed ef" "q = ren p" unfolding filed_def bs st by (auto simp del: set_rev)
    then obtain h where h: "(h, p) \<in> set (fe_observed ef)" using sub by auto
    then have "map_of (fe_observed ef) h = Some p" using o by (simp add: observed_ok_def)
    then have "map_of (fe_observed ef') h = Some q" using ren p(2) by (simp add: renamed_def)
    then show "q \<in> snd ` set (fe_observed ef')" by (force dest: map_of_SomeD)
  qed
  moreover have "params_ok ef'" using pr ren by (auto simp: params_ok_def renamed_def rename_rb_def)
  ultimately show ?thesis using ren by (simp add: fe_inv_def renamed_def)
qed

text \<open>Renaming changes no rate, and so no estimate.\<close>

lemma renamed_rates:
  assumes inv: "fe_inv c ef" and ren: "renamed ren ef ef'"
  shows "tracked_rates ef' = tracked_rates ef"
proof -
  have "fe_mem ef' (ren p) = fe_mem ef p" if p: "p \<in> set (concat (fe_bin ef))" for p
  proof -
    have "p \<in> snd ` set (fe_observed ef)" using inv p unfolding fe_inv_def filed_def by blast
    then show ?thesis using ren unfolding renamed_def by blast
  qed
  moreover have "concat (fe_bin ef') = map ren (concat (fe_bin ef))" using ren by (simp add: renamed_def map_concat)
  ultimately show ?thesis unfolding tracked_rates_def by (simp only: map_map comp_def) (intro map_cong refl, simp only:)
qed

section \<open>The saved state\<close>

lemma index_of_distinct:
  assumes "distinct xs"
  shows "map_of (rev (zip xs [0..<length xs])) x = (if x \<in> set xs then Some (THE i. i < length xs \<and> xs ! i = x) else None)"
    and "i < length xs \<Longrightarrow> map_of (rev (zip xs [0..<length xs])) (xs ! i) = Some i"
proof -
  have d: "distinct (map fst (rev (zip xs [0..<length xs])))" using assms by (simp flip: rev_map)
  show i: "map_of (rev (zip xs [0..<length xs])) (xs ! i) = Some i" if "i < length xs" for i
    using d that by (auto simp: map_of_eq_Some_iff in_set_zip intro!: exI[of _ i])
  show "map_of (rev (zip xs [0..<length xs])) x = (if x \<in> set xs then Some (THE i. i < length xs \<and> xs ! i = x) else None)"
  proof (cases "x \<in> set xs")
    case True
    then obtain i where "i < length xs" "xs ! i = x" by (auto simp: in_set_conv_nth)
    moreover have "(THE i. i < length xs \<and> xs ! i = x) = i" using calculation assms by (intro the_equality) (auto simp: nth_eq_iff_index_eq)
    ultimately show ?thesis using i[of i] True by simp
  next
    case False
    then show ?thesis by (auto simp: map_of_eq_None_iff dest: set_zip_leftD)
  qed
qed

lemma sorted_txs_ok:
  assumes o: "observed_ok c ef"
  obtains ots where "sorted_txs c ef = Some ots" "length ots = length (fe_observed ef)" "fst ` set ots = snd ` set (fe_observed ef)"
    "distinct (map fst ots)" "distinct (map (\<lambda>pob. ob_hash (snd pob)) ots)"
    "\<And>p ob. (p, ob) \<in> set ots \<Longrightarrow> fe_mem ef p = Some ob \<and> tx_storable c ob \<and> (ob_hash ob, p) \<in> set (fe_observed ef)"
proof -
  let ?obs = "fe_observed ef"
  define g where "g = (\<lambda>hp :: hash \<times> addr. (snd hp, the (fe_mem ef (snd hp))))"
  have ob: "\<exists>ob. fe_mem ef (snd hp) = Some ob \<and> ob_hash ob = fst hp \<and> tx_storable c ob" if "hp \<in> set ?obs" for hp
    using o that by (fastforce simp: observed_ok_def)
  have "those (map (\<lambda>hp. map_option (Pair (snd hp)) (fe_mem ef (snd hp))) ?obs) = Some (map g ?obs)"
    using ob by (intro those_map_Some) (force simp: g_def)
  then have 1: "sorted_txs c ef = Some (sort_key (\<lambda>pob. HashString c (ob_hash (snd pob))) (map g ?obs))" by (simp add: sorted_txs_def)
  define ots where "ots = sort_key (\<lambda>pob. HashString c (ob_hash (snd pob))) (map g ?obs)"
  have ms: "mset ots = mset (map g ?obs)" by (simp add: ots_def)
  then have sets: "set ots = g ` set ?obs" by (metis set_mset_mset set_map)
  have hashes: "map (\<lambda>pob. ob_hash (snd pob)) (map g ?obs) = map fst ?obs" using ob by (force simp: g_def)
  have dh: "distinct (map (\<lambda>pob. ob_hash (snd pob)) ots)"
  proof -
    have "mset (map (\<lambda>pob. ob_hash (snd pob)) ots) = mset (map fst ?obs)" using ms hashes by (metis mset_map)
    from mset_eq_imp_distinct_iff[OF this] show ?thesis using o by (simp add: observed_ok_def)
  qed
  have "distinct (map fst ots)"
  proof -
    have "snd pob = the (fe_mem ef (fst pob))" if "pob \<in> set ots" for pob using that sets by (auto simp: g_def)
    then have "map (\<lambda>pob. ob_hash (snd pob)) ots = map (\<lambda>p. ob_hash (the (fe_mem ef p))) (map fst ots)" by simp
    then show ?thesis using dh by (metis distinct_map)
  qed
  moreover have "length ots = length ?obs" using ms by (metis length_map size_mset)
  moreover have "fst ` set ots = snd ` set ?obs" unfolding sets by (force simp: g_def)
  moreover have "fe_mem ef p = Some ob \<and> tx_storable c ob \<and> (ob_hash ob, p) \<in> set ?obs" if "(p, ob) \<in> set ots" for p ob
    using that ob unfolding sets by (force simp: g_def)
  ultimately show thesis using that[of ots] dh 1 by (simp add: ots_def)
qed

lemma Save_Restore:
  assumes inv: "fe_inv c ef" and few: "length (fe_observed ef) < 4294967296"
  obtains data ef' ren where "Save c ef = Some data" "RestoreFeeEstimator c data = Inr ef'" "renamed ren ef ef'"
proof -
  have ok: "bins_ok ef" and o: "observed_ok c ef" and sub: "filed ef \<subseteq> snd ` set (fe_observed ef)" and pr: "params_ok ef"
    using inv by (simp_all add: fe_inv_def)
  obtain ots where ots: "sorted_txs c ef = Some ots" "length ots = length (fe_observed ef)" "fst ` set ots = snd ` set (fe_observed ef)"
    "distinct (map fst ots)" "distinct (map (\<lambda>pob. ob_hash (snd pob)) ots)"
    and otx: "\<And>p ob. (p, ob) \<in> set ots \<Longrightarrow> fe_mem ef p = Some ob \<and> tx_storable c ob \<and> (ob_hash ob, p) \<in> set (fe_observed ef)"
    using sorted_txs_ok[OF o] by metis
  define n where "n = length ots"
  define txs where "txs = map_of (rev (zip (map fst ots) [0..<length ots]))"
  define ren where "ren p = (case txs p of None \<Rightarrow> nil_addr | Some i \<Rightarrow> nil_addr + 1 + i)" for p
  define refs where "refs = (\<lambda>k. if 0 \<le> k \<and> k < 0 + n then Some (nil_addr + 1 + (k - 0)) else None)"
  have txs: "txs (fst (ots ! i)) = Some i" if "i < n" for i
    using index_of_distinct(2)[OF ots(4), of i] that by (simp add: txs_def n_def)
  have P: "\<exists>i<n. p = fst (ots ! i)" if "p \<in> snd ` set (fe_observed ef)" for p
    using that unfolding ots(3)[symmetric] n_def by (force simp: in_set_conv_nth)
  have ref: "refers txs refs ren (snd ` set (fe_observed ef))"
    unfolding refers_def
  proof
    fix p assume "p \<in> snd ` set (fe_observed ef)"
    then obtain i where "i < n" "p = fst (ots ! i)" using P by blast
    then show "\<exists>i<4294967296. txs p = Some i \<and> refs i = Some (ren p)"
      using txs[of i] few ots(2) by (intro exI[of _ i]) (simp add: refs_def ren_def n_def)
  qed
  have refsub: "refers txs refs ren A" if "A \<subseteq> filed ef" for A using ref sub that unfolding refers_def by blast
  have small: "length xs < 4294967296" if "distinct xs" "set xs \<subseteq> filed ef" for xs
  proof -
    have "length xs = card (set xs)" using that(1) by (simp add: distinct_card)
    also have "\<dots> \<le> card (snd ` set (fe_observed ef))" using that(2) sub by (intro card_mono) auto
    also have "\<dots> \<le> length (fe_observed ef)" by (metis card_image_le card_length finite_set le_trans)
    finally show ?thesis using few by simp
  qed
  have dist: "distinct (concat (fe_bin ef) @ concat (stack ef))" using ok by (simp add: bins_ok_def)
  have b: "\<forall>ps\<in>set (fe_bin ef). refers txs refs ren (set ps) \<and> length ps < 4294967296"
  proof
    fix ps assume ps: "ps \<in> set (fe_bin ef)"
    then have s: "set ps \<subseteq> filed ef" by (auto simp: filed_def)
    moreover have "distinct ps" using dist ps by (simp add: distinct_concat_iff)
    ultimately show "refers txs refs ren (set ps) \<and> length ps < 4294967296" using refsub small by blast
  qed
  have d: "\<forall>rb\<in>set (fe_dropped ef). refers txs refs ren (set (rb_transactions rb)) \<and> length (rb_transactions rb) < 4294967296 \<and> length (rb_hash rb) = 32"
  proof
    fix rb assume rb: "rb \<in> set (fe_dropped ef)"
    then have "set (rb_transactions rb) \<subseteq> filed ef" by (auto simp: filed_def)
    moreover have "distinct (rb_transactions rb)" using dist rb by (simp add: distinct_concat_iff)
    ultimately show "refers txs refs ren (set (rb_transactions rb)) \<and> length (rb_transactions rb) < 4294967296 \<and> length (rb_hash rb) = 32"
      using refsub small pr rb by (simp add: params_ok_def)
  qed
  let ?obs = "map snd ots"
  have stor: "\<forall>ob\<in>set ?obs. tx_storable c ob" using otx by fastforce
  have dh: "distinct (map fst [] @ map ob_hash ?obs)" using ots(5) by (simp add: comp_def)
  define ef0 where "ef0 = \<lparr>maxRollback = maxRollback ef, binSize = binSize ef, maxReplacements = maxReplacements ef, minRegisteredBlocks = minRegisteredBlocks ef,
    lastKnownHeight = lastKnownHeight ef, numBlocksRegistered = numBlocksRegistered ef, fe_observed = [], fe_bin = replicate bins [],
    fe_cached = None, fe_dropped = [], fe_mem = Map.empty, fe_fresh = nil_addr + 1\<rparr>"
  define ef1 where "ef1 = ef0\<lparr>fe_observed := zip (map ob_hash ?obs) [nil_addr + 1..<nil_addr + 1 + n],
    fe_mem := (\<lambda>p. if nil_addr + 1 \<le> p \<and> p < nil_addr + 1 + n then Some (?obs ! (p - (nil_addr + 1))) else None), fe_fresh := nil_addr + 1 + n\<rparr>"
  have rob: "read_observed c n 0 (concat (map (\<lambda>pob. ot_Serialize c (snd pob)) ots) @ r, Map.empty, ef0) = (r, refs, ef1)" for r
  proof -
    have sel: "fe_fresh ef0 = nil_addr + 1" "fe_mem ef0 = Map.empty" "fe_observed ef0 = []" by (simp_all add: ef0_def)
    have n: "length ?obs = n" by (simp add: n_def)
    have "map (ot_Serialize c) ?obs = map (\<lambda>pob. ot_Serialize c (snd pob)) ots" by simp
    then show ?thesis using read_observed_writes[of ?obs c ef0 0 r Map.empty, unfolded sel n, OF stor dh]
      by (simp only: refs_def ef1_def append_Nil)
  qed
  define ef' where "ef' = ef1\<lparr>fe_bin := map (map ren) (fe_bin ef), fe_dropped := map (rename_rb ren) (fe_dropped ef)\<rparr>"
  have len: "length (fe_bin ef) = bins" using ok by (simp add: bins_ok_def)
  have rb: "read_bins refs bins (concat (map (write_txs txs) (fe_bin ef)) @ r) = Inr (map (map ren) (fe_bin ef), r)" for r
    using read_bins_writes[OF b, of r] len by simp
  have rd: "read_dropped refs (length (fe_dropped ef)) (concat (map (rb_serialize txs) (fe_dropped ef))) = (map (rename_rb ren) (fe_dropped ef), [])"
    using read_dropped_writes[OF d, of "[]"] by simp
  obtain data where data: "Save c ef = Some data" and dataeq: "data = be32 estimateFeeSaveVersion
              @ write_int (maxRollback ef) @ write_int (binSize ef) @ write_int (maxReplacements ef)
              @ write_int (minRegisteredBlocks ef) @ write_int (lastKnownHeight ef) @ write_int (numBlocksRegistered ef)
              @ write_int (int n) @ concat (map (\<lambda>pob. ot_Serialize c (snd pob)) ots)
              @ concat (map (write_txs txs) (fe_bin ef))
              @ write_int (int (length (fe_dropped ef))) @ concat (map (rb_serialize txs) (fe_dropped ef))"
    using ots(1,2) by (simp add: Save_def Let_def txs_def n_def)
  have rng: "0 \<le> maxRollback ef" "maxRollback ef \<le> 4294967295" "is_i32 (binSize ef)" "is_i32 (maxReplacements ef)" "0 \<le> minRegisteredBlocks ef"
    "minRegisteredBlocks ef \<le> 4294967295" "is_i32 (lastKnownHeight ef)" "0 \<le> numBlocksRegistered ef" "numBlocksRegistered ef \<le> 4294967295"
    "n < 4294967296" "length (fe_dropped ef) < 4294967296"
    using ok pr few ots(2) by (auto simp: bins_ok_def params_ok_def is_i32_def estimateFeeBinSize_def estimateFeeMaxReplacements_def UnminedHeight_def n_def split: if_splits)
  have "RestoreFeeEstimator c data = Inr ef'"
    unfolding dataeq RestoreFeeEstimator_def
    using rng by (simp add: fixed_width Let_def rob[unfolded ef0_def, simplified] rb rd ef'_def)
  moreover have "renamed ren ef ef'"
  proof -
    have ren_i: "ren (fst (ots ! i)) = nil_addr + 1 + i" if "i < n" for i using txs[OF that] by (simp add: ren_def)
    have obs': "fe_observed ef' = zip (map ob_hash ?obs) [nil_addr + 1..<nil_addr + 1 + n]" by (simp add: ef'_def ef1_def)
    have dobs: "distinct (map fst (fe_observed ef'))" using dh by (simp add: obs' n_def del: map_map)
    have "map_of (fe_observed ef') h = map_option ren (map_of (fe_observed ef) h)" for h
    proof (cases "map_of (fe_observed ef) h")
      case None
      have "h \<notin> fst ` set (fe_observed ef')"
      proof
        assume "h \<in> fst ` set (fe_observed ef')"
        then have "h \<in> set (map ob_hash ?obs)" unfolding obs' by (auto simp del: map_map set_map upt_Suc dest: set_zip_leftD)
        then obtain pob where "pob \<in> set ots" "h = ob_hash (snd pob)" by auto
        then have "h \<in> fst ` set (fe_observed ef)" using otx[of "fst pob" "snd pob"] by force
        then show False using None by (simp add: map_of_eq_None_iff)
      qed
      then have "map_of (fe_observed ef') h = None" by (simp add: map_of_eq_None_iff)
      then show ?thesis using None by simp
    next
      case (Some p)
      then have hp: "(h, p) \<in> set (fe_observed ef)" by (rule map_of_SomeD)
      then obtain i where i: "i < n" "p = fst (ots ! i)" using P[of p] by force
      have "ots ! i \<in> set ots" using i(1) by (simp add: n_def)
      then have "fe_mem ef p = Some (snd (ots ! i))" using otx[of "fst (ots ! i)" "snd (ots ! i)"] i(2) by simp
      then have "ob_hash (snd (ots ! i)) = h" using o hp by (fastforce simp: observed_ok_def)
      then have "(h, nil_addr + 1 + i) \<in> set (fe_observed ef')" using i(1) by (auto simp: obs' in_set_zip n_def simp del: upt_Suc intro!: exI[of _ i])
      then show ?thesis using Some dobs ren_i[OF i(1)] i(2) by (simp add: map_of_eq_Some_iff)
    qed
    moreover have "fe_mem ef' (ren p) = fe_mem ef p" if p: "p \<in> snd ` set (fe_observed ef)" for p
    proof -
      obtain i where i: "i < n" "p = fst (ots ! i)" using P[OF p] by blast
      have "ots ! i \<in> set ots" using i(1) by (simp add: n_def)
      then have "fe_mem ef p = Some (snd (ots ! i))" using otx[of "fst (ots ! i)" "snd (ots ! i)"] i(2) by simp
      then show ?thesis using i ren_i[OF i(1)] by (simp add: ef'_def ef1_def n_def)
    qed
    moreover have "inj_on ren (snd ` set (fe_observed ef))"
    proof (rule inj_onI)
      fix p q assume "p \<in> snd ` set (fe_observed ef)" "q \<in> snd ` set (fe_observed ef)" "ren p = ren q"
      moreover obtain i j where "i < n" "p = fst (ots ! i)" "j < n" "q = fst (ots ! j)" using P calculation(1,2) by blast
      ultimately show "p = q" using ren_i by simp
    qed
    moreover have "\<forall>p. fe_mem ef' p \<noteq> None \<longrightarrow> p < fe_fresh ef'" by (simp add: ef'_def ef1_def)
    ultimately show ?thesis using dobs unfolding renamed_def by (simp add: ef'_def ef1_def ef0_def)
  qed
  ultimately show thesis using data that by blast
qed

end
