(* ===== verification/Fee_Reachable.thy ===== *)
theory Fee_Reachable
  imports Fee_Restart
begin

text \<open>
  The states that the calls of the memory pool, the sync manager, the RPC server and start-up bring a fee estimator to, and
  the properties that hold in all of them.
\<close>

section \<open>Reachable states\<close>

text \<open>
  Heights of blocks are those of a chain, fees are not negative, the draws are those of \<open>rand.Intn\<close>.  A restart saves the
  estimator and restores it; fewer than \<open>2^32\<close> transactions are observed then, as the format of the saved state requires.
\<close>

definition draws_ok :: "(nat \<Rightarrow> int \<Rightarrow> nat) \<Rightarrow> bool" where
  "draws_ok intn \<longleftrightarrow> (\<forall>n l. 0 < l \<longrightarrow> int (intn n l) < l)"

inductive fee_reachable :: "wire_lib \<Rightarrow> fee_codec \<Rightarrow> (real \<Rightarrow> real) \<Rightarrow> FeeEstimator \<Rightarrow> bool" for L c rd where
  new: "0 \<le> maxRb \<Longrightarrow> maxRb \<le> 4294967295 \<Longrightarrow> 0 \<le> minReg \<Longrightarrow> minReg \<le> 4294967295 \<Longrightarrow> fee_reachable L c rd (NewFeeEstimator maxRb minReg)"
| observe: "fee_reachable L c rd ef \<Longrightarrow> 0 \<le> td_Fee t \<Longrightarrow> is_i32 (td_Height t) \<Longrightarrow> fee_reachable L c rd (ObserveTransaction L rd t ef)"
| connected: "fee_reachable L c rd ef \<Longrightarrow> 0 \<le> blk_Height block \<Longrightarrow> blk_Height block < UnminedHeight \<Longrightarrow> draws_ok intn \<Longrightarrow>
    fee_block_connected L ord intn block ef = Some ef' \<Longrightarrow> fee_reachable L c rd ef'"
| disconnected: "fee_reachable L c rd ef \<Longrightarrow> fee_block_disconnected L block ef = Some ef' \<Longrightarrow> fee_reachable L c rd ef'"
| estimated: "fee_reachable L c rd ef \<Longrightarrow> EstimateFee rd n ef = Some (r, ef') \<Longrightarrow> fee_reachable L c rd ef'"
| restarted: "fee_reachable L c rd ef \<Longrightarrow> length (fe_observed ef) < 4294967296 \<Longrightarrow> Save c ef = Some data \<Longrightarrow>
    fee_reachable L c rd (start_estimator c (Some data) height)"

lemma default_estimator_inv: "fe_inv c (NewFeeEstimator DefaultEstimateFeeMaxRollback DefaultEstimateFeeMinRegisteredBlocks)"
  by (rule NewFeeEstimator_inv) (simp_all add: DefaultEstimateFeeMaxRollback_def DefaultEstimateFeeMinRegisteredBlocks_def)

lemma fee_block_connected_inv:
  assumes "fe_inv c ef" "fee_lib_ok L c rd" "0 \<le> blk_Height block" "blk_Height block < UnminedHeight" "draws_ok intn"
  shows "\<exists>ef'. fee_block_connected L ord intn block ef = Some ef' \<and> fe_inv c ef'"
  using RegisterBlock_inv[OF assms(1-4) assms(5)[unfolded draws_ok_def], of ord]
  by (cases rule: RegisterBlock_inv[OF assms(1-4) assms(5)[unfolded draws_ok_def], where ord = ord])
    (auto simp: fee_block_connected_def default_estimator_inv)

lemma fee_block_disconnected_inv:
  "fe_inv c ef \<Longrightarrow> \<exists>ef'. fee_block_disconnected L block ef = Some ef' \<and> fe_inv c ef'"
  using Rollback_inv[of c ef "BlockHash L (Header block)"] by (auto simp: fee_block_disconnected_def)

lemma fee_reachable_inv:
  assumes "fee_reachable L c rd ef" and lib: "fee_lib_ok L c rd"
  shows "fe_inv c ef"
  using assms(1)
proof induction
  case (connected ef block intn ord ef')
  then show ?case using fee_block_connected_inv[OF connected.IH lib connected.hyps(2-4), of ord] by auto
next
  case (disconnected ef block ef')
  then show ?case using fee_block_disconnected_inv[OF disconnected.IH, of L block] by auto
next
  case (estimated ef n r ef')
  obtain r' ef'' where "EstimateFee rd n ef = Some (r', ef'')" "fe_inv c ef''" by (rule EstimateFee_inv[OF estimated.IH])
  then show ?case using estimated.hyps by simp
next
  case (restarted ef data height)
  obtain data' ef' ren where "Save c ef = Some data'" "RestoreFeeEstimator c data' = Inr ef'" "renamed ren ef ef'"
    by (rule Save_Restore[OF restarted.IH restarted.hyps(2)])
  then show ?case using restarted.hyps(3) renamed_inv[OF restarted.IH]
    by (auto simp: start_estimator_def Let_def default_estimator_inv)
qed (auto intro: NewFeeEstimator_inv ObserveTransaction_inv[OF _ lib])

section \<open>Estimates\<close>

text \<open>Where the estimate for \<open>k + 1\<close> blocks is taken from the rates, given the sizes of the bins.\<close>

definition fee_index :: "int list \<Rightarrow> nat \<Rightarrow> int" where
  "fee_index ls k = (let lo = sum_list (take k ls); hi = lo + ls ! k - 1 in (lo + (if hi < lo then lo else hi)) div 2)"

lemma sum_take_mono: "\<forall>x\<in>set ls. 0 \<le> x \<Longrightarrow> j \<le> k \<Longrightarrow> sum_list (take j ls) \<le> (sum_list (take k ls) :: int)"
proof -
  assume pos: "\<forall>x\<in>set ls. 0 \<le> x" and "j \<le> k"
  then have "take k ls = take j ls @ take (k - j) (drop j ls)" by (metis le_add_diff_inverse take_add)
  moreover have "0 \<le> sum_list (take (k - j) (drop j ls))" using pos by (intro sum_list_nonneg) (auto dest: in_set_takeD in_set_dropD)
  ultimately show ?thesis by simp
qed

lemma fee_index_mono:
  assumes pos: "\<forall>x\<in>set ls. 0 \<le> x" and jk: "j \<le> k" "k < length ls"
  shows "0 \<le> fee_index ls j" "fee_index ls j \<le> fee_index ls k"
proof -
  have nn: "0 \<le> ls ! i" if "i < length ls" for i using pos that by simp
  have b: "sum_list (take i ls) \<le> fee_index ls i" "fee_index ls i \<le> sum_list (take i ls) + (if ls ! i = 0 then 0 else ls ! i - 1)" if "i < length ls" for i
    using nn[OF that] by (auto simp: fee_index_def Let_def)
  show "0 \<le> fee_index ls j" using b(1)[of j] sum_take_mono[OF pos, of 0 j] jk by simp
  show "fee_index ls j \<le> fee_index ls k"
  proof (cases "j = k")
    case False
    then have "Suc j \<le> k" using jk by simp
    then have "sum_list (take (Suc j) ls) \<le> sum_list (take k ls)" by (rule sum_take_mono[OF pos])
    moreover have "sum_list (take (Suc j) ls) = sum_list (take j ls) + ls ! j" using jk by (simp add: take_Suc_conv_app_nth)
    ultimately show ?thesis using b(2)[of j] b(1)[of k] nn[of j] jk by (auto split: if_splits)
  qed simp
qed

lemma estimateFee_index:
  assumes "1 \<le> n" "n \<le> estimateFeeDepth" "efs_feeRate s \<noteq> []" "\<forall>x\<in>set (efs_bin s). 0 \<le> x" "length (efs_bin s) = bins"
  shows "estimateFee s n = efs_feeRate s ! nat (min (fee_index (efs_bin s) (nat (n - 1))) (int (length (efs_feeRate s)) - 1))"
proof -
  let ?k = "nat (n - 1)"
  define lo where "lo = sum_list (take ?k (efs_bin s))"
  define hi where "hi = lo + efs_bin s ! ?k - 1"
  define F where "F = fee_index (efs_bin s) ?k"
  have "0 \<le> lo" using sum_take_mono[OF assms(4), of 0 ?k] by (simp add: lo_def)
  then have g: "go_div (lo + (if hi < lo then lo else hi)) 2 = F"
    by (subst go_div_nonneg) (auto simp: F_def fee_index_def Let_def lo_def hi_def)
  have m: "(if F \<ge> int (length (efs_feeRate s)) then int (length (efs_feeRate s)) - 1 else F) = min F (int (length (efs_feeRate s)) - 1)"
    by (simp add: min_def)
  have "\<not> n \<le> 0" "\<not> n > estimateFeeDepth" using assms(1,2) by simp_all
  then show ?thesis unfolding estimateFee_def Let_def by (simp only: if_False assms(3) g m F_def[symmetric] flip: lo_def hi_def)
qed

text \<open>The rates in descending order, and the sizes of the bins.\<close>

definition fee_set :: "FeeEstimator \<Rightarrow> estimateFeeSet" where
  "fee_set ef = \<lparr>efs_feeRate = rev (sort (tracked_rates ef)), efs_bin = map (\<lambda>b. u32 (int (length b))) (fe_bin ef)\<rparr>"

lemma EstimateFee_value:
  assumes inv: "fe_inv c ef" and n: "1 \<le> n" "n \<le> estimateFeeDepth" and reg: "minRegisteredBlocks ef \<le> numBlocksRegistered ef"
  shows "\<exists>ef'. EstimateFee rd n ef = Some (Inr (ToBtcPerKb rd (estimateFee (fee_set ef) n)), ef')"
proof -
  obtain est where est: "estimates ef = Some est" "est = map (\<lambda>i. estimateFee (fee_set ef) (int i + 1)) [0..<bins]"
    using newEstimateFeeSet_eq[OF inv] by (simp add: estimates_def fee_set_def)
  have "(case fe_cached ef of Some e \<Rightarrow> Some e | None \<Rightarrow> estimates ef) = Some est"
    using inv est by (cases "fe_cached ef") (auto simp: fe_inv_def)
  moreover have "est ! nat (n - 1) = estimateFee (fee_set ef) n"
    using n nth_upt[of 0 "nat (n - 1)" bins] by (simp add: est(2) estimateFeeDepth_def del: upt_Suc)
  ultimately show ?thesis using n reg unfolding EstimateFee_def by simp
qed

lemma tracked_rates_range:
  assumes inv: "fe_inv c ef" and q: "q \<in> set (tracked_rates ef)"
  obtains x where "q = Fin x" "0 \<le> x"
proof -
  obtain p where p: "p \<in> set (concat (fe_bin ef))" "q = (case fe_mem ef p of None \<Rightarrow> Fin 0 | Some ob \<Rightarrow> ob_feeRate ob)"
    using q unfolding tracked_rates_def by (auto simp del: set_concat)
  then have "p \<in> snd ` set (fe_observed ef)" using inv by (auto simp: fe_inv_def filed_def simp del: set_concat)
  then obtain ob where "fe_mem ef p = Some ob" "ob_feeRate ob \<ge> Fin 0" "ob_feeRate ob \<noteq> PosInf"
    using observed_obj[of c ef p] inv unfolding fe_inv_def by metis
  then show thesis using that p(2) by (cases "ob_feeRate ob") auto
qed

lemma capped_index: "0 < l \<Longrightarrow> nat (min a (int l - 1)) < l"
  by linarith

lemma estimateFee_antitone:
  assumes inv: "fe_inv c ef" and n: "1 \<le> n" "n \<le> m" "m \<le> estimateFeeDepth"
  shows "\<exists>x y. estimateFee (fee_set ef) n = Fin x \<and> estimateFee (fee_set ef) m = Fin y \<and> 0 \<le> y \<and> y \<le> x
    \<and> (if tracked_rates ef = [] then x = 0 else Fin x \<in> set (tracked_rates ef))"
proof (cases "tracked_rates ef = []")
  case True
  then have "estimateFee (fee_set ef) k = Fin 0" if "1 \<le> k" "k \<le> estimateFeeDepth" for k using that by (simp add: estimateFee_def fee_set_def)
  then show ?thesis using True n by simp
next
  case False
  let ?s = "fee_set ef" and ?r = "rev (sort (tracked_rates ef))"
  have r: "efs_feeRate ?s = ?r" and ne: "?r \<noteq> []" using False by (simp_all add: fee_set_def) (metis length_0_conv length_sort)
  have pos: "\<forall>x\<in>set (efs_bin ?s). 0 \<le> x" using u32_range by (auto simp: fee_set_def)
  have len: "length (efs_bin ?s) = bins" using inv by (simp add: fee_set_def fe_inv_def bins_ok_def)
  define i where "i k = nat (min (fee_index (efs_bin ?s) (nat (k - 1))) (int (length ?r) - 1))" for k
  have e: "estimateFee ?s k = ?r ! i k" if "1 \<le> k" "k \<le> estimateFeeDepth" for k
    using estimateFee_index[OF that, of ?s] ne pos len by (simp add: r i_def)
  have idx: "i n \<le> i m" "i m < length ?r"
  proof -
    have "nat (m - 1) < length (efs_bin ?s)" using n len by (simp add: estimateFeeDepth_def)
    then have "fee_index (efs_bin ?s) (nat (n - 1)) \<le> fee_index (efs_bin ?s) (nat (m - 1))" using n by (intro fee_index_mono[OF pos]) auto
    then show "i n \<le> i m" by (simp add: i_def)
    have "0 < length ?r" using ne by (simp only: length_greater_0_conv not_False_eq_True)
    then show "i m < length ?r" unfolding i_def by (rule capped_index)
  qed
  have desc: "?r ! i m \<le> ?r ! i n"
    using idx by (simp add: rev_nth) (intro sorted_nth_mono; simp)
  have mem: "?r ! i n \<in> set (tracked_rates ef)" "?r ! i m \<in> set (tracked_rates ef)" using idx nth_mem[of "i n" ?r] nth_mem[of "i m" ?r] by auto
  obtain x y where "?r ! i n = Fin x" "?r ! i m = Fin y" "0 \<le> y" using tracked_rates_range[OF inv mem(1)] tracked_rates_range[OF inv mem(2)] by metis
  then show ?thesis using e[of n] e[of m] n desc mem False by simp
qed

section \<open>Single transactions of a block\<close>

text \<open>What a step of the loop over a block does, case by case.\<close>

lemma register_tx_cases:
  assumes "register_tx intn H h (ef, counts, d) = Some r"
  obtains (unobserved) "map_of (fe_observed ef) h = None" "r = Inr (ef, counts, d)"
  | (mined) p ob where "map_of (fe_observed ef) h = Some p" "fe_mem ef p = Some ob" "ob_mined ob \<noteq> UnminedHeight" "r = Inl (AlreadyMined, ef)"
  | (skipped) "r = Inr (ef, counts, d)"
  | (filed) p ob b bin d' where "map_of (fe_observed ef) h = Some p" "b < bins"
      "bin = fe_bin ef ! b @ [p] \<and> int (length (fe_bin ef ! b)) \<noteq> binSize ef
        \<or> (\<exists>dr l. int (length (fe_bin ef ! b)) = binSize ef \<and> l = binSize ef - counts[b := counts ! b + 1] ! b \<and> 0 < l
            \<and> dr = intn (length d) l \<and> bin = (fe_bin ef ! b)[dr := fe_bin ef ! b ! (nat l - 1), nat l - 1 := p])"
      "r = Inr (ef\<lparr>fe_mem := (fe_mem ef)(p \<mapsto> ob\<lparr>ob_mined := H\<rparr>), fe_bin := (fe_bin ef)[b := bin]\<rparr>, counts[b := counts ! b + 1], d')"
proof (cases "map_of (fe_observed ef) h")
  case None
  then show thesis using assms by (intro unobserved) (simp_all add: register_tx_def)
next
  case (Some p)
  then obtain ob where ob: "fe_mem ef p = Some ob" using assms by (cases "fe_mem ef p") (simp_all add: register_tx_def)
  let ?k = "i32 (i32 (H - ob_observed ob) - 1)"
  define b where "b = nat ?k"
  show thesis
  proof (cases "ob_mined ob \<noteq> UnminedHeight")
    case True
    then show thesis using Some ob assms by (intro mined) (simp_all add: register_tx_def Let_def)
  next
    case um: False
    show thesis
    proof (cases "?k \<ge> estimateFeeDepth \<or> ?k < 0 \<or> counts ! b = maxReplacements ef")
      case True
      then have "r = Inr (ef, counts, d)"
      proof (cases "?k \<ge> estimateFeeDepth \<or> ?k < 0")
        case True
        then show ?thesis using Some ob assms um by (simp add: register_tx_def)
      next
        case False
        then show ?thesis using Some ob assms um True by (simp add: register_tx_def Let_def b_def)
      qed
      then show thesis by (rule skipped)
    next
      case False
      then have b: "b < bins" by (auto simp: b_def estimateFeeDepth_def nat_less_iff)
      define l where "l = binSize ef - counts[b := counts ! b + 1] ! b"
      define dr where "dr = intn (length d) l"
      show thesis
      proof (cases "int (length (fe_bin ef ! b)) = binSize ef")
        case True
        then have "0 < l \<and> dr < length (fe_bin ef ! b)" using Some ob assms um False
          by (simp add: register_tx_def Let_def flip: b_def l_def dr_def split: if_splits)
        then show thesis using Some ob assms um False True
          by (intro filed[where ob = ob, OF Some b, of "(fe_bin ef ! b)[dr := fe_bin ef ! b ! (nat l - 1), nat l - 1 := p]" "d @ [fe_bin ef ! b ! dr]"])
            (simp_all add: register_tx_def Let_def l_def dr_def flip: b_def)
      next
        case nf: False
        then show thesis using Some ob assms um False
          by (intro filed[where ob = ob, OF Some b, of "fe_bin ef ! b @ [p]" d]) (simp_all add: register_tx_def Let_def flip: b_def)
      qed
    qed
  qed
qed

text \<open>In a full bin the last position is out of reach of the draws.\<close>

lemma register_tx_last:
  assumes r: "register_tx intn H h (ef, counts, d) = Some r" and b: "b < bins" and draw: "draws_ok intn"
    and len: "length (fe_bin ef) = bins" "length counts = bins" and pos: "\<forall>i<bins. 0 \<le> counts ! i"
    and full: "int (length (fe_bin ef ! b)) = binSize ef"
  shows "r = Inl (e, ef1) \<Longrightarrow> ef1 = ef"
    and "r = Inr (ef1, counts1, d1) \<Longrightarrow> length (fe_bin ef1) = bins \<and> length counts1 = bins \<and> (\<forall>i<bins. 0 \<le> counts1 ! i) \<and> binSize ef1 = binSize ef
      \<and> length (fe_bin ef1 ! b) = length (fe_bin ef ! b) \<and> last (fe_bin ef1 ! b) = last (fe_bin ef ! b)"
proof -
  show "ef1 = ef" if e: "r = Inl (e, ef1)" using r e by (cases rule: register_tx_cases) auto
  assume inr: "r = Inr (ef1, counts1, d1)"
  show "length (fe_bin ef1) = bins \<and> length counts1 = bins \<and> (\<forall>i<bins. 0 \<le> counts1 ! i) \<and> binSize ef1 = binSize ef
      \<and> length (fe_bin ef1 ! b) = length (fe_bin ef ! b) \<and> last (fe_bin ef1 ! b) = last (fe_bin ef ! b)"
    using r
  proof (cases rule: register_tx_cases)
    case (filed p ob b' bin d')
    have common: "length (fe_bin ef1) = bins" "length counts1 = bins" "\<forall>i<bins. 0 \<le> counts1 ! i" "binSize ef1 = binSize ef"
      using inr filed(2,4) len pos by (auto simp: nth_list_update)
    have "length (fe_bin ef1 ! b) = length (fe_bin ef ! b) \<and> last (fe_bin ef1 ! b) = last (fe_bin ef ! b)"
    proof (cases "b' = b")
      case True
      then obtain dr l where l: "l = binSize ef - counts[b := counts ! b + 1] ! b" "0 < l" "dr = intn (length d) l"
          "bin = (fe_bin ef ! b)[dr := fe_bin ef ! b ! (nat l - 1), nat l - 1 := p]"
        using filed(3) full by auto
      have "int dr < l" using draw l(2,3) by (simp add: draws_ok_def)
      moreover have "l + 1 \<le> binSize ef" using l(1) len(2) b pos by simp
      ultimately have ne: "dr \<noteq> length (fe_bin ef ! b) - 1" "nat l - 1 \<noteq> length (fe_bin ef ! b) - 1" "fe_bin ef ! b \<noteq> []"
        using l(2) full by auto
      have "bin ! (length bin - 1) = fe_bin ef ! b ! (length (fe_bin ef ! b) - 1)" using ne by (simp add: l(4))
      moreover have "bin \<noteq> []" "length bin = length (fe_bin ef ! b)" using ne(3) by (simp_all add: l(4))
      ultimately have "last bin = last (fe_bin ef ! b)" using ne(3) by (simp add: last_conv_nth)
      then show ?thesis using True inr filed(4) b len(1) \<open>length bin = length (fe_bin ef ! b)\<close> by auto
    next
      case False
      then show ?thesis using inr filed(4) by auto
    qed
    then show ?thesis using common by blast
  qed (use inr len pos in auto)
qed

lemma register_txs_last:
  assumes "register_txs intn H hs (ef, counts, d) = Some r" "b < bins" "draws_ok intn" "length (fe_bin ef) = bins" "length counts = bins"
    "\<forall>i<bins. 0 \<le> counts ! i" "int (length (fe_bin ef ! b)) = binSize ef"
    and "r = Inl (e, ef') \<or> r = Inr (ef', counts', d')"
  shows "length (fe_bin ef' ! b) = length (fe_bin ef ! b) \<and> last (fe_bin ef' ! b) = last (fe_bin ef ! b)"
  using assms
proof (induction hs arbitrary: ef counts d)
  case (Cons h hs)
  obtain r1 where r1: "register_tx intn H h (ef, counts, d) = Some r1" using Cons.prems(1) by (cases "register_tx intn H h (ef, counts, d)") auto
  show ?case
  proof (cases r1)
    case (Inl x)
    then have "r = Inl x" using Cons.prems(1) r1 by simp
    then show ?thesis using register_tx_last(1)[OF r1 Cons.prems(2-7), of e ef'] Cons.prems(8) Inl by auto
  next
    case (Inr st)
    obtain ef1 counts1 d1 where st: "st = (ef1, counts1, d1)" by (cases st)
    have s: "length (fe_bin ef1) = bins" "length counts1 = bins" "\<forall>i<bins. 0 \<le> counts1 ! i" "binSize ef1 = binSize ef"
       "length (fe_bin ef1 ! b) = length (fe_bin ef ! b)" "last (fe_bin ef1 ! b) = last (fe_bin ef ! b)"
      using register_tx_last(2)[OF r1 Cons.prems(2-7), of ef1 counts1 d1] Inr st by blast+
    have "register_txs intn H hs (ef1, counts1, d1) = Some r" using Cons.prems(1) r1 Inr st by simp
    from Cons.IH[OF this Cons.prems(2,3) s(1-3) _ Cons.prems(8)] show ?thesis using s Cons.prems(7) by simp
  qed
qed auto

text \<open>A block whose transactions are not recorded as mined is registered.\<close>

definition not_mined_yet :: "FeeEstimator \<Rightarrow> hash \<Rightarrow> bool" where
  "not_mined_yet ef h \<longleftrightarrow> (\<forall>p. map_of (fe_observed ef) h = Some p \<longrightarrow> mined_in (fe_mem ef) p = Some UnminedHeight)"

lemma register_txs_succeeds:
  assumes "distinct hs" "\<forall>h\<in>set hs. not_mined_yet ef h" "inj_on (the \<circ> map_of (fe_observed ef)) (dom (map_of (fe_observed ef)))"
  shows "register_txs intn H hs (ef, counts, d) \<noteq> Some (Inl e)"
  using assms
proof (induction hs arbitrary: ef counts d)
  case (Cons h hs)
  show ?case
  proof (cases "register_tx intn H h (ef, counts, d)")
    case (Some r)
    then show ?thesis
    proof (cases rule: register_tx_cases)
      case (mined p ob)
      then show ?thesis using Cons.prems(2) by (simp add: not_mined_yet_def mined_in_def)
    next
      case (filed p ob b bin d')
      let ?ef = "ef\<lparr>fe_mem := (fe_mem ef)(p \<mapsto> ob\<lparr>ob_mined := H\<rparr>), fe_bin := (fe_bin ef)[b := bin]\<rparr>"
      have "not_mined_yet ?ef h'" if h': "h' \<in> set hs" for h'
      proof -
        have "h' \<noteq> h" using Cons.prems(1) h' by auto
        then have "map_of (fe_observed ef) h' \<noteq> Some p"
          using inj_onD[OF Cons.prems(3), of h' h] filed(1) by (auto simp: domI)
        then show ?thesis using Cons.prems(2) h' by (auto simp: not_mined_yet_def mined_in_def)
      qed
      then show ?thesis using Some filed(4) Cons.IH[of ?ef] Cons.prems(1,3) by simp
    qed (use Some Cons in simp_all)
  qed simp
qed simp

lemma observed_inj: "observed_ok c ef \<Longrightarrow> inj_on (the \<circ> map_of (fe_observed ef)) (dom (map_of (fe_observed ef)))"
proof (rule inj_onI)
  fix h h' assume o: "observed_ok c ef" and hh: "h \<in> dom (map_of (fe_observed ef))" "h' \<in> dom (map_of (fe_observed ef))"
    "(the \<circ> map_of (fe_observed ef)) h = (the \<circ> map_of (fe_observed ef)) h'"
  then obtain p where "map_of (fe_observed ef) h = Some p" "map_of (fe_observed ef) h' = Some p" by auto
  then have hp: "(h, p) \<in> set (fe_observed ef)" "(h', p) \<in> set (fe_observed ef)" by (simp_all add: map_of_SomeD)
  have ob: "\<exists>ob. fe_mem ef p = Some ob \<and> ob_hash ob = x" if "(x, p) \<in> set (fe_observed ef)" for x
    using o that by (fastforce simp: observed_ok_def)
  show "h = h'" using ob[OF hp(1)] ob[OF hp(2)] by auto
qed

end
