(* ===== verification/Fee_Props.thy ===== *)
theory Fee_Props
  imports Fee_Reachable
begin

text \<open>
  The properties of the fee estimator, with a sample history: two blocks, a transaction observed between them and mined by
  the second.
\<close>

section \<open>Properties\<close>

text \<open>
  C19: whatever the pool, the chain and the RPC server have called before, registering a block, rolling one back, estimating
  and saving do not panic; in particular a dropped transaction always finds the place it is put back to.
\<close>

theorem fee_estimator_never_panics:
  assumes "fee_reachable L c rd ef" "fee_lib_ok L c rd" "0 \<le> blk_Height block" "blk_Height block < UnminedHeight" "draws_ok intn"
  shows "RegisterBlock L ord intn block ef \<noteq> None \<and> Rollback h ef \<noteq> None \<and> EstimateFee rd n ef \<noteq> None \<and> Save c ef \<noteq> None"
proof -
  have inv: "fe_inv c ef" by (rule fee_reachable_inv[OF assms(1,2)])
  then obtain ots where "sorted_txs c ef = Some ots" using sorted_txs_ok[of c ef] unfolding fe_inv_def by metis
  moreover have "RegisterBlock L ord intn block ef \<noteq> None"
    by (rule RegisterBlock_inv[OF inv assms(2-4) assms(5)[unfolded draws_ok_def], where ord = ord]) simp_all
  moreover have "EstimateFee rd n ef \<noteq> None" by (rule EstimateFee_inv[OF inv, of rd n]) simp
  ultimately show ?thesis using Rollback_inv[OF inv, of h] by (auto simp: Save_def Let_def)
qed

text \<open>
  C24: in every reachable state the 25 bins hold at most 100 transactions each, no transaction twice; each is observed under
  its hash, mined at a known height, and in the bin of the number of blocks it waited, and at most as many blocks can be
  rolled back as the estimator was created for.
\<close>

theorem fee_bins_well_formed:
  assumes "fee_reachable L c rd ef" "fee_lib_ok L c rd" "b < 25"
  shows "length (fe_bin ef) = 25 \<and> length (fe_bin ef ! b) \<le> 100 \<and> distinct (concat (fe_bin ef))
    \<and> int (length (fe_dropped ef)) \<le> maxRollback ef
    \<and> (\<forall>p\<in>set (fe_bin ef ! b). \<exists>ob. fe_mem ef p = Some ob \<and> map_of (fe_observed ef) (ob_hash ob) = Some p
        \<and> ob_mined ob \<noteq> UnminedHeight \<and> ob_mined ob \<le> lastKnownHeight ef \<and> confirm_index ob = int b)"
proof -
  have inv: "bins_ok ef" "observed_ok c ef" "params_ok ef" "filed ef \<subseteq> snd ` set (fe_observed ef)"
    using fee_reachable_inv[OF assms(1,2)] by (simp_all add: fe_inv_def)
  have "\<exists>ob. fe_mem ef p = Some ob \<and> map_of (fe_observed ef) (ob_hash ob) = Some p
        \<and> ob_mined ob \<noteq> UnminedHeight \<and> ob_mined ob \<le> lastKnownHeight ef \<and> confirm_index ob = int b" if p: "p \<in> set (fe_bin ef ! b)" for p
  proof -
    have bin: "p \<in> set (concat (fe_bin ef))" using p assms(3) inv(1) by (auto simp: bins_ok_def)
    then have "p \<in> snd ` set (fe_observed ef)" using inv(4) unfolding filed_def by blast
    then obtain ob where ob: "fe_mem ef p = Some ob" "(ob_hash ob, p) \<in> set (fe_observed ef)" using observed_obj[OF inv(2)] by metis
    moreover have "map_of (fe_observed ef) (ob_hash ob) = Some p" using ob(2) inv(2) by (simp add: observed_ok_def)
    moreover have "tracked (fe_mem ef) b (lastKnownHeight ef) p" using inv(1) assms(3) p by (auto simp: bins_ok_def)
    moreover obtain m where "mined_in (fe_mem ef) p = Some m" "m \<noteq> UnminedHeight" using filed_mined[OF inv(1) UnI1[OF bin]] by metis
    ultimately show ?thesis by (auto simp: tracked_def slot_def mined_in_def)
  qed
  then show ?thesis using inv(1,3) assms(3) by (auto simp: bins_ok_def params_ok_def estimateFeeBinSize_def)
qed

text \<open>
  C18: with rollback enabled, rolling back the block that was registered last succeeds and restores the estimator: the contents of
  every bin up to their order, the record of every transaction, the number of blocks, and the height if one was known
  before.  What is not restored are the transactions that waited too long and were forgotten, and a block that fell off
  the full stack.
\<close>

theorem Rollback_undoes_RegisterBlock:
  assumes "fee_reachable L c rd ef" "fee_lib_ok L c rd" "0 \<le> blk_Height block" "blk_Height block < UnminedHeight" "draws_ok intn"
    and reg: "RegisterBlock L ord intn block ef = Some (None, ef1)" and "maxRollback ef \<noteq> 0"
  shows "\<exists>ef2. Rollback (BlockHash L (Header block)) ef1 = Some (None, ef2)
    \<and> (\<forall>b<25. mset (fe_bin ef2 ! b) = mset (fe_bin ef ! b)) \<and> fe_mem ef2 = fe_mem ef
    \<and> lastKnownHeight ef2 = blk_Height block - 1 \<and> (lastKnownHeight ef \<noteq> UnminedHeight \<longrightarrow> lastKnownHeight ef2 = lastKnownHeight ef)
    \<and> numBlocksRegistered ef2 = numBlocksRegistered ef
    \<and> fe_observed ef2 = filter (\<lambda>hp. \<not> too_old (fe_mem ef1) (blk_Height block) hp) (fe_observed ef)
    \<and> fe_dropped ef2 = (if int (length (fe_dropped ef)) = maxRollback ef then tl (fe_dropped ef) else fe_dropped ef)"
proof -
  let ?H = "blk_Height block"
  have inv: "fe_inv c ef" by (rule fee_reachable_inv[OF assms(1,2)])
  then have ok: "bins_ok ef" and o: "observed_ok c ef" and pr: "params_ok ef" by (simp_all add: fe_inv_def)
  have obs: "\<forall>hp\<in>set (fe_observed ef). fe_mem ef (snd hp) \<noteq> None" using o by (fastforce simp: observed_ok_def)
  have lim: "int (length (fe_dropped ef)) \<le> maxRollback ef" "maxRollback ef \<le> 4294967295" using ok by (simp_all add: bins_ok_def)
  from RegisterBlock_effect[OF ok obs assms(4) assms(5)[unfolded draws_ok_def], of L ord] show ?thesis
  proof cases
    case (1 e ef')
    then show ?thesis using reg by simp
  next
    case (2 mem bs counts d)
    let ?rb = "\<lparr>rb_hash = BlockHash L (Header block), rb_transactions = d\<rparr>"
    define ef' where "ef' = ef\<lparr>fe_cached := None, lastKnownHeight := ?H, numBlocksRegistered := u32 (numBlocksRegistered ef + 1),
            fe_mem := mem, fe_bin := bs, fe_observed := filter (\<lambda>hp. \<not> too_old mem ?H hp) (fe_observed ef)\<rparr>"
    have ef1: "ef1 = push_dropped ?rb ef'" using 2(4) reg by (simp add: ef'_def)
    have dr1: "fe_dropped ef1 = (if int (length (fe_dropped ef)) = maxRollback ef then tl (fe_dropped ef) else fe_dropped ef) @ [?rb]"
      using lim assms(7) u32_id[of "int (length (fe_dropped ef))"] by (simp add: ef1 push_dropped_def ef'_def drop_Suc)
    have ok1: "bins_ok ef1" unfolding ef1 by (rule register_bins_ok[OF ok 2(1) assms(3,4) 2(2)]) (simp_all add: ef'_def)
    have ne: "fe_dropped ef1 \<noteq> []" "rb_transactions (last (fe_dropped ef1)) = d" using dr1 by simp_all
    obtain bs2 where r: "rollback ef1 = Some (ef1\<lparr>fe_cached := None, fe_bin := bs2, fe_mem := undo_memory ef1, fe_dropped := butlast (fe_dropped ef1),
         numBlocksRegistered := u32 (numBlocksRegistered ef1 - 1), lastKnownHeight := lastKnownHeight ef1 - 1\<rparr>)"
      "length bs2 = bins" "\<forall>b<bins. mset (bs2 ! b) = undo (fe_mem ef1) (lastKnownHeight ef1) (bin_msets ef1) (rb_transactions (last (fe_dropped ef1))) b"
      by (rule rollback_effect[OF ok1 ne(1)])
    have f1: "fe_bin ef1 = bs" "fe_mem ef1 = mem" "lastKnownHeight ef1 = ?H" "numBlocksRegistered ef1 = u32 (numBlocksRegistered ef + 1)"
      "fe_observed ef1 = filter (\<lambda>hp. \<not> too_old mem ?H hp) (fe_observed ef)"
      by (simp_all add: ef1 ef'_def)
    have "mset (bs2 ! b) = mset (fe_bin ef ! b)" if "b < 25" for b
      using r(3) 2(2) that by (simp add: f1 ne(2) reg_inv_def bin_inv_def Let_def undo_def)
    moreover have "undo_memory ef1 = fe_mem ef"
    proof
      fix p
      have new: "mined_in (fe_mem ef) p = Some UnminedHeight" if "p \<in> set (concat bs)" "mined_in mem p = Some ?H"
        using 2(2) that by (simp add: reg_inv_def del: set_concat)
      have "mem p = fe_mem ef p \<or> (\<exists>ob. fe_mem ef p = Some ob \<and> ob_mined ob = UnminedHeight \<and> mem p = Some (ob\<lparr>ob_mined := ?H\<rparr>) \<and> p \<in> set (concat bs))"
        using 2(2) by (simp add: reg_inv_def del: set_concat)
      then show "undo_memory ef1 p = fe_mem ef p"
      proof
        assume "mem p = fe_mem ef p"
        then show ?thesis using new assms(4) by (auto simp: undo_memory_def f1 mined_in_def simp del: set_concat)
      next
        assume "\<exists>ob. fe_mem ef p = Some ob \<and> ob_mined ob = UnminedHeight \<and> mem p = Some (ob\<lparr>ob_mined := ?H\<rparr>) \<and> p \<in> set (concat bs)"
        then show ?thesis by (auto simp: undo_memory_def f1 mined_in_def unmined_def simp del: set_concat)
      qed
    qed
    moreover have "u32 (u32 (numBlocksRegistered ef + 1) - 1) = numBlocksRegistered ef" using pr by (simp add: u32_def params_ok_def mod_simps)
    moreover have "Rollback (BlockHash L (Header block)) ef1 = Some (None, ef1\<lparr>fe_cached := None, fe_bin := bs2, fe_mem := undo_memory ef1,
        fe_dropped := butlast (fe_dropped ef1), numBlocksRegistered := u32 (numBlocksRegistered ef1 - 1), lastKnownHeight := lastKnownHeight ef1 - 1\<rparr>)"
      using r(1) by (simp add: Rollback_def dr1)
    ultimately show ?thesis using 2(1) by (auto simp: f1 dr1)
  qed
qed

text \<open>
  C20: once enough blocks are registered an estimate is answered for every number of blocks from 1 to 25, it is the rate of a
  transaction in the bins, zero only without any, and waiting longer never costs more.
\<close>

theorem EstimateFee_antitone:
  assumes "fee_reachable L c rd ef" "fee_lib_ok L c rd" "1 \<le> n" "n \<le> m" "m \<le> 25" "minRegisteredBlocks ef \<le> numBlocksRegistered ef"
  shows "\<exists>x y ef1 ef2. EstimateFee rd n ef = Some (Inr x, ef1) \<and> EstimateFee rd m ef = Some (Inr y, ef2) \<and> Fin 0 \<le> y \<and> y \<le> x
    \<and> (if concat (fe_bin ef) = [] then x = ToBtcPerKb rd (Fin 0)
       else \<exists>p\<in>set (concat (fe_bin ef)). \<exists>ob. fe_mem ef p = Some ob \<and> x = ToBtcPerKb rd (ob_feeRate ob))"
proof -
  have inv: "fe_inv c ef" by (rule fee_reachable_inv[OF assms(1,2)])
  have m25: "m \<le> estimateFeeDepth" using assms(5) by (simp add: estimateFeeDepth_def)
  obtain x y where xy: "estimateFee (fee_set ef) n = Fin x" "estimateFee (fee_set ef) m = Fin y" "0 \<le> y" "y \<le> x"
    "if tracked_rates ef = [] then x = 0 else Fin x \<in> set (tracked_rates ef)"
    using estimateFee_antitone[OF inv assms(3,4) m25] by blast
  have mono: "mono rd" and zero: "rd 0 = 0" using assms(2) by (simp_all add: fee_lib_ok_def)
  have pos: "0 \<le> rd z" if "0 \<le> z" for z using monoD[OF mono that] zero by simp
  have val: "ToBtcPerKb rd (Fin z) = Fin (rd (rd (z * 1000) * rd (1 / 100000000)))" if "0 \<le> z" for z using that by (simp add: ToBtcPerKb_def)
  have "ToBtcPerKb rd (Fin y) \<le> ToBtcPerKb rd (Fin x)"
    using xy(3,4) by (simp add: val) (intro monoD[OF mono] mult_right_mono pos; simp)
  moreover have "Fin 0 \<le> ToBtcPerKb rd (Fin y)" using xy(3) by (simp add: val) (intro pos mult_nonneg_nonneg; simp)
  moreover have "if concat (fe_bin ef) = [] then ToBtcPerKb rd (Fin x) = ToBtcPerKb rd (Fin 0)
    else \<exists>p\<in>set (concat (fe_bin ef)). \<exists>ob. fe_mem ef p = Some ob \<and> ToBtcPerKb rd (Fin x) = ToBtcPerKb rd (ob_feeRate ob)"
  proof (cases "concat (fe_bin ef) = []")
    case False
    then have "Fin x \<in> set (tracked_rates ef)" using xy(5) by (simp add: tracked_rates_def del: concat_eq_Nil_conv)
    then obtain p where p: "p \<in> set (concat (fe_bin ef))" "Fin x = (case fe_mem ef p of None \<Rightarrow> Fin 0 | Some ob \<Rightarrow> ob_feeRate ob)"
      unfolding tracked_rates_def by (auto simp del: set_concat)
    then have "p \<in> snd ` set (fe_observed ef)" using inv unfolding fe_inv_def filed_def by blast
    then obtain ob where "fe_mem ef p = Some ob" using observed_obj[of c ef p] inv unfolding fe_inv_def by metis
    then show ?thesis using p False by (simp del: set_concat concat_eq_Nil_conv) blast
  qed (use xy(5) in \<open>simp add: tracked_rates_def\<close>)
  moreover obtain ef1 where "EstimateFee rd n ef = Some (Inr (ToBtcPerKb rd (Fin x)), ef1)"
    using EstimateFee_value[OF inv assms(3) _ assms(6), of rd] assms(4) m25 xy(1) by fastforce
  moreover obtain ef2 where "EstimateFee rd m ef = Some (Inr (ToBtcPerKb rd (Fin y)), ef2)"
    using EstimateFee_value[OF inv _ m25 assms(6), of rd] assms(3,4) xy(2) by fastforce
  ultimately show ?thesis by blast
qed

lemma EstimateFee_result:
  assumes inv: "fe_inv c ef"
  shows "map_option fst (EstimateFee rd n ef) = Some
    (if numBlocksRegistered ef < minRegisteredBlocks ef then Inl NotEnoughBlocks else if n = 0 then Inl ZeroBlocks
     else if n > estimateFeeDepth then Inl TooManyBlocks
     else Inr (ToBtcPerKb rd (map (\<lambda>i. estimateFee (fee_set ef) (int i + 1)) [0..<bins] ! nat (n - 1))))"
proof -
  have est: "estimates ef = Some (map (\<lambda>i. estimateFee (fee_set ef) (int i + 1)) [0..<bins])"
    using newEstimateFeeSet_eq[OF inv] by (simp add: estimates_def fee_set_def)
  then have "(case fe_cached ef of Some e \<Rightarrow> Some e | None \<Rightarrow> estimates ef) = Some (map (\<lambda>i. estimateFee (fee_set ef) (int i + 1)) [0..<bins])"
    using inv by (cases "fe_cached ef") (auto simp: fe_inv_def)
  then show ?thesis unfolding EstimateFee_def by simp
qed

text \<open>
  C23: an estimator with fewer than \<open>2 ^ 32\<close> observed transactions that is saved, and found at the height of the best chain by
  the next start, is restored: the contents of bins, dropped transactions and observed transactions and the counters are the
  saved ones, and every estimate is the same.
\<close>

theorem Save_restores_estimator:
  assumes "fee_reachable L c rd ef" "fee_lib_ok L c rd" "length (fe_observed ef) < 4294967296"
  shows "\<exists>data ef'. Save c ef = Some data \<and> start_estimator c (Some data) (lastKnownHeight ef) = ef'
    \<and> map (map (fe_mem ef')) (fe_bin ef') = map (map (fe_mem ef)) (fe_bin ef)
    \<and> map (\<lambda>rb. (rb_hash rb, map (fe_mem ef') (rb_transactions rb))) (fe_dropped ef')
        = map (\<lambda>rb. (rb_hash rb, map (fe_mem ef) (rb_transactions rb))) (fe_dropped ef)
    \<and> (\<forall>h. Option.bind (map_of (fe_observed ef') h) (fe_mem ef') = Option.bind (map_of (fe_observed ef) h) (fe_mem ef))
    \<and> maxRollback ef' = maxRollback ef \<and> binSize ef' = binSize ef \<and> maxReplacements ef' = maxReplacements ef
    \<and> minRegisteredBlocks ef' = minRegisteredBlocks ef \<and> lastKnownHeight ef' = lastKnownHeight ef
    \<and> numBlocksRegistered ef' = numBlocksRegistered ef
    \<and> (\<forall>n. map_option fst (EstimateFee rd n ef') = map_option fst (EstimateFee rd n ef))"
proof -
  have inv: "fe_inv c ef" by (rule fee_reachable_inv[OF assms(1,2)])
  obtain data ef' ren where r: "Save c ef = Some data" "RestoreFeeEstimator c data = Inr ef'" "renamed ren ef ef'"
    by (rule Save_Restore[OF inv assms(3)])
  have inv': "fe_inv c ef'" by (rule renamed_inv[OF inv r(3)])
  have ren: "lastKnownHeight ef' = lastKnownHeight ef" "maxRollback ef' = maxRollback ef" "binSize ef' = binSize ef" "maxReplacements ef' = maxReplacements ef"
    "minRegisteredBlocks ef' = minRegisteredBlocks ef" "numBlocksRegistered ef' = numBlocksRegistered ef"
    "fe_bin ef' = map (map ren) (fe_bin ef)" "fe_dropped ef' = map (rename_rb ren) (fe_dropped ef)"
    "\<And>h. map_of (fe_observed ef') h = map_option ren (map_of (fe_observed ef) h)"
    using r(3) by (simp_all add: renamed_def)
  have mem: "fe_mem ef' (ren p) = fe_mem ef p" if "p \<in> snd ` set (fe_observed ef)" for p using r(3) that unfolding renamed_def by blast
  have fmem: "fe_mem ef' (ren p) = fe_mem ef p" if "p \<in> filed ef" for p using inv that by (intro mem) (auto simp: fe_inv_def)
  have "map (map (fe_mem ef')) (fe_bin ef') = map (map (fe_mem ef)) (fe_bin ef)"
    unfolding ren(7) map_map comp_def by (intro map_cong refl fmem) (auto simp: filed_def)
  moreover have "map (\<lambda>rb. (rb_hash rb, map (fe_mem ef') (rb_transactions rb))) (fe_dropped ef')
        = map (\<lambda>rb. (rb_hash rb, map (fe_mem ef) (rb_transactions rb))) (fe_dropped ef)"
    unfolding ren(8) map_map comp_def by (intro map_cong refl) (auto simp: rename_rb_def filed_def intro!: fmem)
  moreover have "Option.bind (map_of (fe_observed ef') h) (fe_mem ef') = Option.bind (map_of (fe_observed ef) h) (fe_mem ef)" for h
  proof (cases "map_of (fe_observed ef) h")
    case (Some p)
    then have "p \<in> snd ` set (fe_observed ef)" by (force dest: map_of_SomeD)
    then show ?thesis using Some ren(9)[of h] mem by simp
  qed (simp add: ren(9))
  moreover have "fee_set ef' = fee_set ef" using renamed_rates[OF inv r(3)] by (simp add: fee_set_def ren(7))
  then have "map_option fst (EstimateFee rd n ef') = map_option fst (EstimateFee rd n ef)" for n
    unfolding EstimateFee_result[OF inv] EstimateFee_result[OF inv'] by (simp only: ren(5,6))
  ultimately show ?thesis using r(1,2) ren(1-6) by (simp add: start_estimator_def LastKnownHeight_def)
qed


text \<open>
  Whatever is drawn, registering a block never replaces the transaction in the last position of a full bin, although the
  code means to replace a random one: the draw is below the size less the replacements, which already count the new
  transaction.
\<close>

theorem full_bin_keeps_last:
  assumes "length (fe_bin ef) = 25" "b < 25" "int (length (fe_bin ef ! b)) = binSize ef" "draws_ok intn"
    and "RegisterBlock L ord intn block ef = Some (e, ef')"
  shows "length (fe_bin ef' ! b) = length (fe_bin ef ! b) \<and> last (fe_bin ef' ! b) = last (fe_bin ef ! b)"
proof -
  define ef0 where "ef0 = ef\<lparr>fe_cached := None, lastKnownHeight := blk_Height block, numBlocksRegistered := u32 (numBlocksRegistered ef + 1)\<rparr>"
  have same: "fe_bin ef0 = fe_bin ef" "binSize ef0 = binSize ef" by (simp_all add: ef0_def)
  note last = register_txs_last[of intn "blk_Height block" "map (TxHash L) (ord (Transactions block))" ef0 "replicate bins 0" "[]", unfolded same, OF _ assms(2,4,1) _ _ assms(3)]
  show ?thesis
  proof (cases "blk_Height block \<noteq> i32 (lastKnownHeight ef + 1) \<and> lastKnownHeight ef \<noteq> UnminedHeight")
    case True
    then show ?thesis using assms(5) by (auto simp: RegisterBlock_def Let_def)
  next
    case False
    then obtain r where r: "register_txs intn (blk_Height block) (map (TxHash L) (ord (Transactions block))) (ef0, replicate bins 0, []) = Some r"
      using assms(5) by (auto simp: RegisterBlock_def Let_def ef0_def split: option.splits)
    show ?thesis
    proof (cases r)
      case (Inl x)
      then have "r = Inl (fst x, ef')" using assms(5) False r by (cases x) (simp add: RegisterBlock_def Let_def ef0_def)
      then show ?thesis using last[OF r] by simp
    next
      case (Inr st)
      obtain ef1 counts d where st: "st = (ef1, counts, d)" by (cases st)
      then have "fe_bin ef' = fe_bin ef1" using assms(5) False r Inr
        by (auto simp: RegisterBlock_def Let_def ef0_def forget_old_def split: if_splits)
      then show ?thesis using last[OF r, of _ ef1 counts d] Inr st by simp
    qed
  qed
qed

section \<open>A sample history\<close>

text \<open>Rates are rounded down to multiples of \<open>10^-10\<close>, which 64 bits encode; two transactions of 100 bytes pay 1000 and 2500.\<close>

definition fee_wire :: wire_lib where
  "fee_wire = sample_wire_lib\<lparr>TxHash := (\<lambda>tx. ucast (LockTime tx) # replicate 31 0), BlockHash := (\<lambda>h. ucast (hNonce h) # replicate 31 1)\<rparr>"

definition fee_rd :: "real \<Rightarrow> real" where
  "fee_rd x = of_int (max 0 (min 1000000000000000000 \<lfloor>x * 10000000000\<rfloor>)) / 10000000000"

definition fee_sample_codec :: fee_codec where
  "fee_sample_codec = \<lparr>Float64bits = (\<lambda>f. case f of Fin r \<Rightarrow> word_of_int \<lfloor>r * 10000000000\<rfloor> | PosInf \<Rightarrow> - 1),
    Float64frombits = (\<lambda>w. if w = - 1 then PosInf else Fin (of_int (uint w) / 10000000000)),
    HashString = map (\<lambda>b. char_of (unat b))\<rparr>"

definition fee_desc :: "uint32 \<Rightarrow> int \<Rightarrow> TxDesc" where
  "fee_desc n fee = \<lparr>td_Tx = sample_tx n, td_Added = 0, td_Height = 100, td_Fee = fee, FeePerKB = 0, StartingPriority = 0\<rparr>"

definition fee_block :: "uint32 \<Rightarrow> MsgTx list \<Rightarrow> int \<Rightarrow> Block" where
  "fee_block n txs h = \<lparr>Header = sample_header\<lparr>hNonce := n\<rparr>, Transactions = txs, blk_Height = h\<rparr>"

abbreviation fee_connect :: "Block \<Rightarrow> FeeEstimator \<Rightarrow> FeeEstimator" where
  "fee_connect block ef \<equiv> the (fee_block_connected fee_wire id (\<lambda>n l. 0) block ef)"

definition fee_start :: FeeEstimator where
  "fee_start = fee_connect (fee_block 1 [] 100) (NewFeeEstimator 2 2)"

definition fee_observing :: FeeEstimator where
  "fee_observing = ObserveTransaction fee_wire fee_rd (fee_desc 2 2500) (ObserveTransaction fee_wire fee_rd (fee_desc 1 1000) fee_start)"

definition fee_second :: Block where "fee_second = fee_block 2 [sample_tx 1, sample_tx 2, sample_tx 3] 101"

definition fee_filled :: FeeEstimator where "fee_filled = fee_connect fee_second fee_observing"

lemma fee_sample_lib: "fee_lib_ok fee_wire fee_sample_codec fee_rd"
proof -
  have "mono fee_rd"
  proof (rule monoI)
    fix x y :: real assume "x \<le> y"
    then have "\<lfloor>x * 10000000000\<rfloor> \<le> \<lfloor>y * 10000000000\<rfloor>" by (intro floor_mono) simp
    then show "fee_rd x \<le> fee_rd y" by (simp add: fee_rd_def divide_right_mono)
  qed
  moreover have "Float64frombits fee_sample_codec (Float64bits fee_sample_codec (Fin (fee_rd x))) = Fin (fee_rd x)" for x
  proof -
    define n where "n = max 0 (min 1000000000000000000 \<lfloor>x * 10000000000\<rfloor>)"
    have n: "0 \<le> n" "n \<le> 1000000000000000000" by (auto simp: n_def)
    have r: "fee_rd x = of_int n / 10000000000" by (simp add: fee_rd_def n_def)
    have u: "uint (word_of_int n :: uint64) = n" using n by (simp add: uint_word_of_int_eq take_bit_int_eq_self)
    have "(word_of_int n :: uint64) \<noteq> - 1"
    proof
      assume "(word_of_int n :: uint64) = - 1"
      then have "n = uint (- 1 :: uint64)" using u by simp
      then show False using n by (simp add: unsigned_minus_1_eq_mask mask_eq_exp_minus_1)
    qed
    then show ?thesis using u by (simp add: fee_sample_codec_def r)
  qed
  ultimately show ?thesis by (simp add: fee_lib_ok_def fee_wire_def fee_rd_def)
qed

lemma fee_draws: "draws_ok (\<lambda>n l. 0)"
  by (simp add: draws_ok_def)

lemma fee_connect_reachable:
  assumes "fee_reachable fee_wire fee_sample_codec fee_rd ef" "0 \<le> blk_Height block" "blk_Height block < UnminedHeight"
  shows "fee_reachable fee_wire fee_sample_codec fee_rd (fee_connect block ef)"
proof -
  obtain ef' where "fee_block_connected fee_wire id (\<lambda>n l. 0) block ef = Some ef'"
    using fee_block_connected_inv[OF fee_reachable_inv[OF assms(1) fee_sample_lib] fee_sample_lib assms(2,3) fee_draws, of id] by blast
  then show ?thesis using fee_reachable.connected[OF assms fee_draws] by simp
qed

lemma fee_sample_reachable:
  "fee_reachable fee_wire fee_sample_codec fee_rd fee_observing" "fee_reachable fee_wire fee_sample_codec fee_rd fee_filled"
proof -
  have "fee_reachable fee_wire fee_sample_codec fee_rd fee_start"
    unfolding fee_start_def by (intro fee_connect_reachable fee_reachable.new) (simp_all add: fee_block_def UnminedHeight_def)
  then show o: "fee_reachable fee_wire fee_sample_codec fee_rd fee_observing"
    unfolding fee_observing_def by (intro fee_reachable.observe) (simp_all add: fee_desc_def is_i32_def)
  show "fee_reachable fee_wire fee_sample_codec fee_rd fee_filled"
    unfolding fee_filled_def by (intro fee_connect_reachable o) (simp_all add: fee_second_def fee_block_def UnminedHeight_def)
qed

lemma fee_start_eval:
  "fee_start = (NewFeeEstimator 2 2)\<lparr>lastKnownHeight := 100, numBlocksRegistered := 1, fe_dropped := [\<lparr>rb_hash = 1 # replicate 31 1, rb_transactions = []\<rparr>]\<rparr>"
  by (simp add: fee_start_def fee_block_connected_def RegisterBlock_def Let_def NewFeeEstimator_def fee_block_def fee_wire_def
      forget_old_def push_dropped_def u32_def)

lemma fee_vsize: "GetTxVirtualSize fee_wire tx = 100"
  by (simp add: GetTxVirtualSize_def GetTransactionWeight_def fee_wire_def sample_wire_lib_def WitnessScaleFactor_def i64_def go_div_def)

lemma fee_rates: "NewSatoshiPerByte fee_rd 1000 100 = Fin 10" "NewSatoshiPerByte fee_rd 2500 100 = Fin 25"
  by (simp_all add: NewSatoshiPerByte_def fee_rd_def)

definition fee_ob :: "byte \<Rightarrow> real \<Rightarrow> int \<Rightarrow> observedTransaction" where
  "fee_ob n r mined = \<lparr>ob_hash = n # replicate 31 0, ob_feeRate = Fin r, ob_observed = 100, ob_mined = mined\<rparr>"

lemma fee_observing_eval:
  "fee_observing = fee_start\<lparr>fe_observed := [(2 # replicate 31 0, 2), (1 # replicate 31 0, 1)],
     fe_mem := [1 \<mapsto> fee_ob 1 10 UnminedHeight, 2 \<mapsto> fee_ob 2 25 UnminedHeight], fe_fresh := 3\<rparr>"
proof -
  have h: "TxHash fee_wire (sample_tx n) = ucast n # replicate 31 0" for n by (simp add: fee_wire_def sample_tx_def)
  have "lastKnownHeight fee_start \<noteq> UnminedHeight" "fe_observed fee_start = []" "fe_fresh fee_start = 1" "fe_mem fee_start = Map.empty"
    by (simp_all add: fee_start_eval NewFeeEstimator_def UnminedHeight_def nil_addr_def)
  then show ?thesis
    by (simp add: fee_observing_def ObserveTransaction_def Let_def fee_desc_def fee_vsize u32_def fee_rates h fee_ob_def del: replicate.simps flip: numeral_2_eq_2)
qed

definition fee_filled_value :: FeeEstimator where
  "fee_filled_value = fee_observing\<lparr>lastKnownHeight := 101, numBlocksRegistered := 2, fe_bin := [1, 2] # replicate 24 [],
     fe_mem := [1 \<mapsto> fee_ob 1 10 101, 2 \<mapsto> fee_ob 2 25 101],
     fe_dropped := [\<lparr>rb_hash = 1 # replicate 31 1, rb_transactions = []\<rparr>, \<lparr>rb_hash = 2 # replicate 31 1, rb_transactions = []\<rparr>]\<rparr>"

lemma replicate_bins: "(replicate bins y)[0 := x] = x # replicate 24 y"
  by (simp add: numeral_eq_Suc)

lemma fee_second_registered: "RegisterBlock fee_wire id (\<lambda>n l. 0) fee_second fee_observing = Some (None, fee_filled_value)"
  by (simp add: RegisterBlock_def Let_def fee_second_def fee_block_def fee_observing_eval fee_start_eval NewFeeEstimator_def
      fee_wire_def sample_tx_def register_tx_def fee_ob_def forget_old_def push_dropped_def u32_def i32_def UnminedHeight_def
      estimateFeeDepth_def estimateFeeBinSize_def estimateFeeMaxReplacements_def too_old_def fee_filled_value_def replicate_bins)

lemma fee_filled_eval: "fee_filled = fee_filled_value"
  by (simp add: fee_filled_def fee_block_connected_def fee_second_registered)

section \<open>Witnesses\<close>

theorem fee_estimator_never_panics_witness:
  "RegisterBlock fee_wire id (\<lambda>n l. 0) (fee_block 3 [sample_tx 1] 102) fee_filled \<noteq> None \<and> Rollback (2 # replicate 31 1) fee_filled \<noteq> None
    \<and> EstimateFee fee_rd 1 fee_filled \<noteq> None \<and> Save fee_sample_codec fee_filled \<noteq> None"
  using fee_estimator_never_panics[OF fee_sample_reachable(2) fee_sample_lib _ _ fee_draws, of "fee_block 3 [sample_tx 1] 102" id "2 # replicate 31 1" 1]
  by (simp add: fee_block_def UnminedHeight_def)

theorem fee_bins_well_formed_witness:
  "\<exists>ob. fe_mem fee_filled 1 = Some ob \<and> map_of (fe_observed fee_filled) (ob_hash ob) = Some 1 \<and> confirm_index ob = 0"
proof -
  have "1 \<in> set (fe_bin fee_filled ! 0)" by (simp add: fee_filled_eval fee_filled_value_def)
  then show ?thesis using fee_bins_well_formed[OF fee_sample_reachable(2) fee_sample_lib, of 0] by auto
qed

theorem Rollback_undoes_RegisterBlock_witness:
  "\<exists>ef2. Rollback (BlockHash fee_wire (Header fee_second)) fee_filled = Some (None, ef2)
    \<and> fe_bin fee_filled ! 0 = [1, 2] \<and> fe_bin ef2 ! 0 = [] \<and> fe_mem ef2 = fe_mem fee_observing \<and> lastKnownHeight ef2 = 100"
proof -
  have "0 \<le> blk_Height fee_second" "blk_Height fee_second < UnminedHeight" "maxRollback fee_observing \<noteq> 0" "mset (fe_bin fee_observing ! 0) = {#}"
    "lastKnownHeight fee_observing = 100"
    by (simp_all add: fee_second_def fee_block_def UnminedHeight_def fee_observing_eval fee_start_eval NewFeeEstimator_def)
  then show ?thesis
    using Rollback_undoes_RegisterBlock[OF fee_sample_reachable(1) fee_sample_lib _ _ fee_draws fee_second_registered]
    by (force simp: fee_filled_eval fee_filled_value_def UnminedHeight_def)
qed

theorem EstimateFee_antitone_witness:
  "\<exists>x y ef1 ef2. EstimateFee fee_rd 1 fee_filled = Some (Inr x, ef1) \<and> EstimateFee fee_rd 25 fee_filled = Some (Inr y, ef2) \<and> y \<le> x"
proof -
  have "minRegisteredBlocks fee_filled \<le> numBlocksRegistered fee_filled"
    by (simp add: fee_filled_eval fee_filled_value_def fee_observing_eval fee_start_eval NewFeeEstimator_def)
  then show ?thesis using EstimateFee_antitone[OF fee_sample_reachable(2) fee_sample_lib, of 1 25] by auto
qed

theorem Save_restores_estimator_witness:
  "\<exists>data ef'. Save fee_sample_codec fee_filled = Some data \<and> start_estimator fee_sample_codec (Some data) (lastKnownHeight fee_filled) = ef'
    \<and> map (map (fe_mem ef')) (fe_bin ef') = [Some (fee_ob 1 10 101), Some (fee_ob 2 25 101)] # replicate 24 []"
proof -
  have "length (fe_observed fee_filled) < 4294967296" by (simp add: fee_filled_eval fee_filled_value_def fee_observing_eval)
  from Save_restores_estimator[OF fee_sample_reachable(2) fee_sample_lib this]
  show ?thesis by (auto simp: fee_filled_eval fee_filled_value_def)
qed


definition fee_full :: FeeEstimator where
  "fee_full = (NewFeeEstimator 2 2)\<lparr>lastKnownHeight := 100, binSize := 2, maxReplacements := 1, fe_bin := [1, 2] # replicate 24 [],
     fe_observed := [(3 # replicate 31 0, 3)],
     fe_mem := [1 \<mapsto> fee_ob 1 10 100, 2 \<mapsto> fee_ob 2 25 100, 3 \<mapsto> fee_ob 3 40 UnminedHeight], fe_fresh := 4\<rparr>"

definition fee_full_next :: FeeEstimator where
  "fee_full_next = fee_full\<lparr>lastKnownHeight := 101, numBlocksRegistered := 1, fe_bin := [3, 2] # replicate 24 [],
     fe_mem := [1 \<mapsto> fee_ob 1 10 100, 2 \<mapsto> fee_ob 2 25 100, 3 \<mapsto> fee_ob 3 40 101],
     fe_dropped := [\<lparr>rb_hash = 4 # replicate 31 1, rb_transactions = [1]\<rparr>]\<rparr>"

theorem full_bin_keeps_last_witness:
  "RegisterBlock fee_wire id (\<lambda>n l. 0) (fee_block 4 [sample_tx 3] 101) fee_full = Some (None, fee_full_next)
    \<and> last (fe_bin fee_full_next ! 0) = 2 \<and> last (fe_bin fee_full ! 0) = 2"
proof -
  have r: "RegisterBlock fee_wire id (\<lambda>n l. 0) (fee_block 4 [sample_tx 3] 101) fee_full = Some (None, fee_full_next)"
    by (simp add: RegisterBlock_def Let_def fee_block_def fee_full_def fee_full_next_def NewFeeEstimator_def
      fee_wire_def sample_tx_def register_tx_def fee_ob_def forget_old_def push_dropped_def u32_def i32_def UnminedHeight_def
      estimateFeeDepth_def too_old_def replicate_bins)
  have "length (fe_bin fee_full) = 25" "int (length (fe_bin fee_full ! 0)) = binSize fee_full" "last (fe_bin fee_full ! 0) = 2"
    by (simp_all add: fee_full_def)
  then show ?thesis using full_bin_keeps_last[OF _ _ _ fee_draws r, of 0] r by simp
qed

end
