(* ===== verification/Spec2Isabelle.thy ===== *)
theory Spec2Isabelle
  imports Workmath Errors Subsidy Compress Chain_View Block_Index Threshold Merkle Utxo_Cache Supply Reachable Median_Time Mempool_Reachable Mining_Template Fee_Props
begin

text \<open>
  NogoCore is a full node, derived from btcd.  Its core is package \<open>blockchain\<close>: it keeps the tree of known block
  headers, decides which branch is the best chain, validates blocks against the consensus rules, and maintains the
  set of unspent outputs behind a cache and a database.  Package \<open>mempool\<close> holds the transactions that wait to be
  mined, and package \<open>mining\<close> builds blocks from them on top of the best chain.  Servers, clients and command-line
  tools are wrapped around these.  This development models the three packages as HOL functions and proves what
  makes them correct.

  \<^bold>\<open>Conventions.\<close>  A definition carries the name of the Go function it models, with a prefix where names clash.
  Structures are records, enumerations are datatypes.  Pointers to block nodes are indices into a heap, a list of
  nodes that only grows; maps are partial functions, or association lists where the code loops over them.  Fixed
  width integers are words, or integers with the wrap-around written out (\<open>i32\<close>, \<open>i64\<close>, \<open>u32\<close>, \<open>u64\<close> of
  \<open>Nogo_Prelude\<close>).  An error is the left value of a sum; a nil dereference, an index out of range or a division by
  zero is the error \<open>Panic\<close>.  Code that changes the chain is a computation of \<open>Chain_State\<close>: it takes the chain and
  returns its result or error together with the chain it leaves, so that the effects of a failed call are kept.
  Code outside the repository (packages \<open>wire\<close>, \<open>chaincfg\<close>, \<open>database\<close>, \<open>nogopow\<close>, \<open>nogoec\<close> of nogocommons) is a
  parameter: the records \<open>wire_lib\<close>, \<open>key_lib\<close>, \<open>bucket_ops\<close> and the environments \<open>chain_env\<close> and \<open>pool_env\<close>.
  What the theorems need of it is a named hypothesis (\<open>key_lib_ok\<close>, \<open>bucket_ok\<close>, \<open>money_ok\<close> and the like), and sample
  values at the end of the theories satisfy them.

  \<^bold>\<open>Encodings.\<close>  \<open>Workmath\<close> (internal/workmath/difficulty.go): targets in compact form and work.  \<open>Vlq\<close>, \<open>Compress\<close>
  (compress.go): variable-length integers, compressed amounts, scripts and outputs.  \<open>Chain_Io\<close> (chainio.go): spend
  journal, unspent entries, best state, block index rows.  \<open>Merkle\<close> (merkle.go, rolling_merkle.go).  \<open>Errors\<close>
  (error.go), \<open>Subsidy\<close> (subsidy.go, floating point included), \<open>Size_Helper\<close> (sizehelper.go).  The theorems are round
  trips, bounds and the equivalence of the rolling Merkle root with the recursive definition.

  \<^bold>\<open>The block tree.\<close>  \<open>Block_Node\<close> and \<open>Block_Index\<close> (blockindex.go), \<open>Chain_View\<close> (chainview.go), \<open>Threshold\<close>
  (thresholdstate.go, versionbits.go), \<open>Checkpoints\<close> (checkpoints.go): nodes with skip pointers, views of a branch,
  block locators, rule change deployments with their caches.  The theorems compare each with a definition by
  recursion over parents.

  \<^bold>\<open>Unspent outputs.\<close>  \<open>Utxo_Entry\<close>, \<open>Utxo_View\<close> (utxoviewpoint.go), \<open>Utxo_Cache\<close> (utxocache.go).  The abstract
  ledger maps outpoints to coins; view, cache and database refine it, disconnecting a block undoes connecting it, and a
  flush changes no coin.  The locale of ledger operations is interpreted for view and cache.

  \<^bold>\<open>Rules.\<close>  \<open>Wire\<close>, \<open>Validate_Tx\<close>, \<open>Validate_Header\<close>, \<open>Validate_Block\<close> (validate.go, weight.go): sanity and context
  checks of transactions, headers and blocks.  \<open>Supply\<close> combines them: a block that passes creates no coins beyond
  subsidy and fees.

  \<^bold>\<open>The chain.\<close>  \<open>Chain_State\<close>, \<open>Orphans\<close>, \<open>Best_Chain\<close> (chain.go), \<open>Process_Block\<close> (process.go, accept.go) and
  \<open>Chain_Query\<close> (the queries, \<open>InvalidateBlock\<close> and \<open>ReconsiderBlock\<close> of chain.go).  \<open>Chain_Invariant\<close>, \<open>Chain_Steps\<close>
  and \<open>Chain_Verdict\<close> prove, with a weakest precondition calculus, what every operation keeps; \<open>Reachable\<close> states
  the invariant of all states that calls reach, whether they fail or not.  \<open>Median_Time\<close> (mediantime.go) is the
  network clock.

  \<^bold>\<open>The memory pool.\<close>  \<open>Mempool_Policy\<close> (mempool/error.go, mempool/policy.go, mining/policy.go), \<open>Mempool\<close> and
  \<open>Mempool_Accept\<close> (mempool/mempool.go).  \<open>Mempool_Orphans\<close>, \<open>Mempool_Inv\<close>, \<open>Mempool_Closure\<close>, \<open>Mempool_Remove\<close>,
  \<open>Mempool_Replace\<close> and \<open>Mempool_Steps\<close> prove the parts; \<open>Mempool_Reachable\<close> has the step relation of all calls and
  the theorems.  The locale \<open>graph\<close> of \<open>Mempool_Closure\<close> proves the cached graph walk once and is interpreted for
  ancestors and for descendants.

  \<^bold>\<open>Block templates.\<close>  \<open>Mining_Queue\<close> and \<open>Mining\<close> (mining/mining.go): the priority queue, the coinbase, collecting and
  selecting transactions, the finished template.  The locale \<open>heap_order\<close> proves the binary heap once and is
  interpreted for both comparison functions.  \<open>Mining_Select\<close> and \<open>Mining_Collect\<close> prove that the selection loop ends,
  \<open>Mining_Sound\<close> what it selects; \<open>Mining_Template\<close> has the theorems, among them one about the finished template, whose
  witness is a complete run on the sample chain.

  \<^bold>\<open>Fees.\<close>  \<open>Fee_Estimate\<close> (mempool/estimatefee.go, with the calls of netsync/manager.go and server.go): the estimator,
  its bins of observed transactions, the stack of registered blocks, estimates, the saved state.  Transactions are
  shared and updated in place, so they live in a memory and have addresses; \<open>None\<close> is a panic.  \<open>Fee_Bins\<close> and
  \<open>Fee_Rollback\<close> describe registering and rolling back on the multisets of the bins, \<open>Fee_Save\<close> and \<open>Fee_Restart\<close> show
  that a saved state is read back with other addresses, \<open>Fee_Inv\<close> and \<open>Fee_Reachable\<close> have the invariant of the reachable
  states, \<open>Fee_Props\<close> the theorems and a sample history.

  \<^bold>\<open>Loops.\<close>  Loops over a bounded range are structural recursion.  Loops and recursion whose end depends on the data
  are \<open>partial_function (option)\<close>, where \<open>None\<close> means that they run forever, or take a bound on the depth: the heap
  size for walks over parents, one more than the number of pool transactions for the recursions of the pool.  The
  selection loop for templates is a \<open>while_option\<close>.  For
  each it is proved that a result is returned, on well-formed data.

  \<^bold>\<open>Not modelled.\<close>  Locks and concurrency: each exported call is atomic.  Notifications, logging and error texts.  Index
  managers and address index: none is attached, and the pool does not call the fee estimator.  A failed database transaction is undone and a
  commit does not fail.  Script execution is not modelled because the code has none: its script functions are
  placeholders, and the model has the same ones.  Creation and upgrade of the database, network,
  RPC and command-line code are left out, as they are input and output or rest on packages outside the repository.
\<close>

end
